(* ===== verification/C_Memory.thy ===== *)
theory C_Memory
  imports Main "HOL-Library.Word" "HOL-Library.Monad_Syntax"
begin

text \<open>
  Shared ground of the development: C integer conversions and byte-addressed buffers.

  Every C integer of the driver is modelled as an \<^typ>\<open>int\<close>; the conversion that C performs when a
  value is stored in a variable of a given width is written out (\<open>u8\<close>, \<open>u16\<close>, \<open>u32\<close>, \<open>u64\<close>,
  \<open>s16\<close>, \<open>s32\<close>, \<open>s64\<close>), so that a wrap-around is visible in the definition that performs it.

  A buffer (a B-tree node, a key, a name) is a list of bytes.  Reading or writing outside of a buffer
  is \<^term>\<open>None\<close>: a definition that returns \<^term>\<open>Some\<close> made no access outside of its buffers.
  Multi-byte fields are read and written in the byte order of the host, which is little endian
  on the platforms the driver is built for (amd64).
\<close>

unbundle bit_operations_syntax

named_theorems mem_simps \<open>evaluation of reads and writes whose addresses are known to be in range\<close>

section \<open>C integer conversions\<close>

definition u8 :: "int \<Rightarrow> int" where "u8 x = x mod 2 ^ 8"
definition u16 :: "int \<Rightarrow> int" where "u16 x = x mod 2 ^ 16"
definition u32 :: "int \<Rightarrow> int" where "u32 x = x mod 2 ^ 32"
definition u64 :: "int \<Rightarrow> int" where "u64 x = x mod 2 ^ 64"
definition s16 :: "int \<Rightarrow> int" where "s16 x = (x + 2 ^ 15) mod 2 ^ 16 - 2 ^ 15"
definition s32 :: "int \<Rightarrow> int" where "s32 x = (x + 2 ^ 31) mod 2 ^ 32 - 2 ^ 31"
definition s64 :: "int \<Rightarrow> int" where "s64 x = (x + 2 ^ 63) mod 2 ^ 64 - 2 ^ 63"

lemmas conv_defs = u8_def u16_def u32_def u64_def s16_def s32_def s64_def

lemma u8_id [simp]: "0 \<le> x \<Longrightarrow> x < 256 \<Longrightarrow> u8 x = x"
  by (simp add: u8_def)

lemma u16_id [simp]: "0 \<le> x \<Longrightarrow> x < 65536 \<Longrightarrow> u16 x = x"
  by (simp add: u16_def)

lemma u32_id [simp]: "0 \<le> x \<Longrightarrow> x < 4294967296 \<Longrightarrow> u32 x = x"
  by (simp add: u32_def)

lemma u64_id [simp]: "0 \<le> x \<Longrightarrow> x < 18446744073709551616 \<Longrightarrow> u64 x = x"
  by (simp add: u64_def)

lemma s16_id [simp]: "-32768 \<le> x \<Longrightarrow> x < 32768 \<Longrightarrow> s16 x = x"
  by (simp add: s16_def)

lemma s32_id [simp]: "-2147483648 \<le> x \<Longrightarrow> x < 2147483648 \<Longrightarrow> s32 x = x"
  by (simp add: s32_def)

lemma s64_id [simp]: "-9223372036854775808 \<le> x \<Longrightarrow> x < 9223372036854775808 \<Longrightarrow> s64 x = x"
  by (simp add: s64_def)

lemma u16_bounds [simp]: "0 \<le> u16 x" "u16 x < 65536"
  by (simp_all add: u16_def)

lemma u32_bounds [simp]: "0 \<le> u32 x" "u32 x < 4294967296"
  by (simp_all add: u32_def)

lemma s16_u16 [simp]: "s16 (u16 x) = s16 x"
  by (simp add: s16_def u16_def mod_simps)

lemma u16_s16 [simp]: "u16 (s16 x) = u16 x"
  by (simp add: s16_def u16_def mod_simps)

lemma u16_minus_s16 [simp]: "u16 (s16 x) = x" if "0 \<le> x" "x < 65536"
  using that by simp

section \<open>Byte buffers\<close>

type_synonym mem = "8 word list"

definition in_mem :: "mem \<Rightarrow> int \<Rightarrow> int \<Rightarrow> bool" where
  "in_mem m a n \<longleftrightarrow> 0 \<le> a \<and> 0 \<le> n \<and> a + n \<le> int (length m)"

definition bytes_at :: "mem \<Rightarrow> int \<Rightarrow> int \<Rightarrow> mem" where
  "bytes_at m a n = take (nat n) (drop (nat a) m)"

definition put_bytes :: "mem \<Rightarrow> int \<Rightarrow> mem \<Rightarrow> mem" where
  "put_bytes m a bs = take (nat a) m @ bs @ drop (nat a + length bs) m"

definition rdn :: "mem \<Rightarrow> int \<Rightarrow> int \<Rightarrow> mem option" where
  "rdn m a n = (if in_mem m a n then Some (bytes_at m a n) else None)"

definition wrn :: "mem \<Rightarrow> int \<Rightarrow> mem \<Rightarrow> mem option" where
  "wrn m a bs = (if in_mem m a (int (length bs)) then Some (put_bytes m a bs) else None)"

text \<open>Little-endian values.\<close>

fun le_val :: "mem \<Rightarrow> int" where
  "le_val [] = 0"
| "le_val (b # bs) = uint b + 256 * le_val bs"

fun le_bytes :: "nat \<Rightarrow> int \<Rightarrow> mem" where
  "le_bytes 0 v = []"
| "le_bytes (Suc n) v = word_of_int v # le_bytes n (v div 256)"

definition rd8 :: "mem \<Rightarrow> int \<Rightarrow> int option" where "rd8 m a = map_option le_val (rdn m a 1)"
definition rd16 :: "mem \<Rightarrow> int \<Rightarrow> int option" where "rd16 m a = map_option le_val (rdn m a 2)"
definition rd32 :: "mem \<Rightarrow> int \<Rightarrow> int option" where "rd32 m a = map_option le_val (rdn m a 4)"
definition rd64 :: "mem \<Rightarrow> int \<Rightarrow> int option" where "rd64 m a = map_option le_val (rdn m a 8)"

definition wr8 :: "mem \<Rightarrow> int \<Rightarrow> int \<Rightarrow> mem option" where "wr8 m a v = wrn m a (le_bytes 1 v)"
definition wr16 :: "mem \<Rightarrow> int \<Rightarrow> int \<Rightarrow> mem option" where "wr16 m a v = wrn m a (le_bytes 2 v)"
definition wr32 :: "mem \<Rightarrow> int \<Rightarrow> int \<Rightarrow> mem option" where "wr32 m a v = wrn m a (le_bytes 4 v)"
definition wr64 :: "mem \<Rightarrow> int \<Rightarrow> int \<Rightarrow> mem option" where "wr64 m a v = wrn m a (le_bytes 8 v)"

text \<open>\<open>memmove\<close> inside one buffer (the regions may overlap) and \<open>bzero\<close>.\<close>

definition mem_move :: "mem \<Rightarrow> int \<Rightarrow> int \<Rightarrow> int \<Rightarrow> mem option" where
  "mem_move m src dst n = do { bs \<leftarrow> rdn m src n; wrn m dst bs }"

definition mem_clear :: "mem \<Rightarrow> int \<Rightarrow> int \<Rightarrow> mem option" where
  "mem_clear m a n = (if 0 \<le> n then wrn m a (replicate (nat n) 0) else None)"

text \<open>\<open>be16toh\<close>, \<open>be32toh\<close> and \<open>be64toh\<close> on a little-endian host.\<close>

definition SWAP_BE16 :: "int \<Rightarrow> int" where "SWAP_BE16 v = le_val (rev (le_bytes 2 v))"
definition SWAP_BE32 :: "int \<Rightarrow> int" where "SWAP_BE32 v = le_val (rev (le_bytes 4 v))"
definition SWAP_BE64 :: "int \<Rightarrow> int" where "SWAP_BE64 v = le_val (rev (le_bytes 8 v))"

definition swap16_at :: "mem \<Rightarrow> int \<Rightarrow> mem option" where
  "swap16_at m a = do { v \<leftarrow> rd16 m a; wr16 m a (SWAP_BE16 v) }"
definition swap32_at :: "mem \<Rightarrow> int \<Rightarrow> mem option" where
  "swap32_at m a = do { v \<leftarrow> rd32 m a; wr32 m a (SWAP_BE32 v) }"
definition swap64_at :: "mem \<Rightarrow> int \<Rightarrow> mem option" where
  "swap64_at m a = do { v \<leftarrow> rd64 m a; wr64 m a (SWAP_BE64 v) }"

subsection \<open>Basic laws\<close>

lemma in_memE:
  assumes "in_mem m a n"
  obtains i k where "a = int i" "n = int k" "i + k \<le> length m"
proof -
  have "a = int (nat a)" "n = int (nat n)" "nat a + nat n \<le> length m"
    using assms by (auto simp: in_mem_def)
  then show thesis by (rule that)
qed

lemma length_splice [simp]: "in_mem m a (int (length bs)) \<Longrightarrow> length (put_bytes m a bs) = length m"
  by (auto simp: put_bytes_def elim!: in_memE)

lemma in_mem_splice [simp]: "in_mem m a (int (length bs)) \<Longrightarrow> in_mem (put_bytes m a bs) b n = in_mem m b n"
  by (simp add: in_mem_def [of _ b])

lemma length_slice [simp]: "in_mem m a n \<Longrightarrow> length (bytes_at m a n) = nat n"
  by (auto simp: bytes_at_def elim!: in_memE)

lemma in_mem_mono: "in_mem m a n \<Longrightarrow> a \<le> b \<Longrightarrow> 0 \<le> k \<Longrightarrow> b + k \<le> a + n \<Longrightarrow> in_mem m b k"
  by (simp add: in_mem_def)

lemma nth_splice:
  "in_mem m a (int (length bs)) \<Longrightarrow> i < length m \<Longrightarrow>
     put_bytes m a bs ! i = (if nat a \<le> i \<and> i < nat a + length bs then bs ! (i - nat a) else m ! i)"
  by (auto simp: put_bytes_def nth_append min_def elim!: in_memE)

lemma nth_slice: "in_mem m a n \<Longrightarrow> i < nat n \<Longrightarrow> bytes_at m a n ! i = m ! (nat a + i)"
  by (auto simp: bytes_at_def elim!: in_memE)

lemma slice_eqI:
  assumes "in_mem m a n" "in_mem m' b n" "\<And>i. i < nat n \<Longrightarrow> m ! (nat a + i) = m' ! (nat b + i)"
  shows "bytes_at m a n = bytes_at m' b n"
  using assms by (intro nth_equalityI) (auto simp: nth_slice)

lemma slice_splice_disjoint:
  assumes "in_mem m b (int (length bs))" "in_mem m a n" "a + n \<le> b \<or> b + int (length bs) \<le> a"
  shows "bytes_at (put_bytes m b bs) a n = bytes_at m a n"
  using assms by (intro slice_eqI) (auto simp: nth_splice in_mem_def)

lemma slice_splice_same:
  assumes "in_mem m a (int (length bs))" "n = int (length bs)"
  shows "bytes_at (put_bytes m a bs) a n = bs"
  using assms by (intro nth_equalityI) (auto simp: nth_splice nth_slice in_mem_def)

lemma slice_splice_inside:
  assumes "in_mem m b (int (length bs))" "b \<le> a" "0 \<le> n" "a + n \<le> b + int (length bs)"
  shows "bytes_at (put_bytes m b bs) a n = bytes_at bs (a - b) n"
proof (rule slice_eqI)
  show "in_mem (put_bytes m b bs) a n" "in_mem bs (a - b) n" using assms by (auto simp: in_mem_def)
  fix i assume "i < nat n"
  moreover have "nat b \<le> nat a" "nat (a - b) = nat a - nat b" "nat a + nat n \<le> nat b + length bs"
    "nat b + length bs \<le> length m"
    using assms by (auto simp: in_mem_def)
  ultimately show "put_bytes m b bs ! (nat a + i) = bs ! (nat (a - b) + i)"
    using assms(1) by (simp add: nth_splice)
qed

lemma slice_slice:
  assumes "in_mem m a n" "0 \<le> b" "0 \<le> k" "b + k \<le> n"
  shows "bytes_at (bytes_at m a n) b k = bytes_at m (a + b) k"
proof -
  have "nat (a + b) = nat a + nat b" using assms by (auto simp: in_mem_def)
  then show ?thesis
    using assms by (simp add: bytes_at_def take_drop min_def add.commute add.left_commute)
qed

lemma slice_append:
  assumes "in_mem m a n" "0 \<le> k" "k \<le> n"
  shows "bytes_at m a n = bytes_at m a k @ bytes_at m (a + k) (n - k)"
proof -
  have "nat (a + k) = nat a + nat k" "nat n = nat k + nat (n - k)" using assms by (auto simp: in_mem_def)
  then show ?thesis by (simp add: bytes_at_def take_add add.commute)
qed

lemma splice_slice_id: "in_mem m a n \<Longrightarrow> put_bytes m a (bytes_at m a n) = m"
  by (intro nth_equalityI) (auto simp: nth_splice nth_slice in_mem_def)

lemma splice_splice_same:
  "in_mem m a (int (length bs)) \<Longrightarrow> length cs = length bs \<Longrightarrow> put_bytes (put_bytes m a bs) a cs = put_bytes m a cs"
  by (intro nth_equalityI) (auto simp: nth_splice)

lemma splice_splice_disjoint:
  "in_mem m a (int (length bs)) \<Longrightarrow> in_mem m b (int (length cs)) \<Longrightarrow>
     a + int (length bs) \<le> b \<or> b + int (length cs) \<le> a \<Longrightarrow>
     put_bytes (put_bytes m a bs) b cs = put_bytes (put_bytes m b cs) a bs"
  by (intro nth_equalityI) (auto simp: nth_splice in_mem_def)

subsection \<open>Values\<close>

lemma length_le_bytes [simp]: "length (le_bytes n v) = n"
  by (induction n arbitrary: v) auto

lemma le_val_bounds: "0 \<le> le_val bs \<and> le_val bs < 256 ^ length bs"
proof (induction bs)
  case (Cons b bs)
  have "0 \<le> uint b" "uint b \<le> 255" using uint_lt2p [of b] by auto
  with Cons show ?case by (simp; linarith)
qed simp

lemma le_val_bytes: "le_val (le_bytes n v) = v mod 256 ^ n"
proof (induction n arbitrary: v)
  case (Suc n)
  have "v mod (256 * 256 ^ n) = v mod 256 + 256 * (v div 256 mod 256 ^ n)"
    by (simp add: zmod_zmult2_eq add.commute)
  then show ?case by (simp add: Suc uint_word_of_int)
qed simp

lemma le_bytes_val: "length bs = n \<Longrightarrow> le_bytes n (le_val bs) = bs"
proof (induction bs arbitrary: n)
  case (Cons b bs)
  have b: "0 \<le> uint b" "uint b \<le> 255" using uint_lt2p [of b] by auto
  have "(uint b + 256 * le_val bs) div 256 = le_val bs"
    using b by (simp add: div_add1_eq)
  moreover have "word_of_int (uint b + 256 * le_val bs) = b"
  proof (rule unsigned_word_eqI)
    show "uint (word_of_int (uint b + 256 * le_val bs) :: 8 word) = uint b"
      using b by (subst uint_word_of_int) simp
  qed
  ultimately show ?case using Cons by auto
qed simp

subsection \<open>Fields of a buffer\<close>

definition get8 :: "mem \<Rightarrow> int \<Rightarrow> int" where "get8 m a = le_val (bytes_at m a 1)"
definition get16 :: "mem \<Rightarrow> int \<Rightarrow> int" where "get16 m a = le_val (bytes_at m a 2)"
definition get32 :: "mem \<Rightarrow> int \<Rightarrow> int" where "get32 m a = le_val (bytes_at m a 4)"

lemmas get_defs = get8_def get16_def get32_def

lemma length_slice_le: "length (bytes_at m a n) \<le> nat n"
  by (simp add: bytes_at_def)

lemma le_val_slice_bounds: "0 \<le> le_val (bytes_at m a n) \<and> le_val (bytes_at m a n) < 256 ^ nat n"
proof -
  have "(256 :: int) ^ length (bytes_at m a n) \<le> 256 ^ nat n"
    by (rule power_increasing) (simp_all add: length_slice_le)
  with le_val_bounds [of "bytes_at m a n"] show ?thesis by linarith
qed

lemma get_bounds [simp]:
  "0 \<le> get8 m a" "get8 m a < 256" "0 \<le> get16 m a" "get16 m a < 65536" "0 \<le> get32 m a" "get32 m a < 4294967296"
  using le_val_slice_bounds [of m a 1] le_val_slice_bounds [of m a 2] le_val_slice_bounds [of m a 4]
  by (simp_all add: get_defs)

lemma get_le [simp]: "get8 m a \<le> 255" "get16 m a \<le> 65535" "get32 m a \<le> 4294967295"
  using get_bounds [of m a] by linarith+

lemma rdn_in [mem_simps]: "in_mem m a n \<Longrightarrow> rdn m a n = Some (bytes_at m a n)"
  by (simp add: rdn_def)

lemma wrn_in [mem_simps]: "in_mem m a (int (length bs)) \<Longrightarrow> wrn m a bs = Some (put_bytes m a bs)"
  by (simp add: wrn_def)

lemma rd_in [mem_simps]:
  "in_mem m a 1 \<Longrightarrow> rd8 m a = Some (get8 m a)"
  "in_mem m a 2 \<Longrightarrow> rd16 m a = Some (get16 m a)"
  "in_mem m a 4 \<Longrightarrow> rd32 m a = Some (get32 m a)"
  by (simp_all add: rd8_def rd16_def rd32_def get_defs rdn_in)

lemma wr_in [mem_simps]:
  "in_mem m a 1 \<Longrightarrow> wr8 m a v = Some (put_bytes m a (le_bytes 1 v))"
  "in_mem m a 2 \<Longrightarrow> wr16 m a v = Some (put_bytes m a (le_bytes 2 v))"
  "in_mem m a 4 \<Longrightarrow> wr32 m a v = Some (put_bytes m a (le_bytes 4 v))"
  by (simp_all add: wr8_def wr16_def wr32_def wrn_in)

lemma mem_move_in [mem_simps]:
  "in_mem m src n \<Longrightarrow> in_mem m dst n \<Longrightarrow> mem_move m src dst n = Some (put_bytes m dst (bytes_at m src n))"
  by (simp add: mem_move_def rdn_in wrn_def) (simp add: in_mem_def)

lemma mem_clear_in [mem_simps]:
  "in_mem m a n \<Longrightarrow> mem_clear m a n = Some (put_bytes m a (replicate (nat n) 0))"
  by (auto simp: mem_clear_def wrn_def in_mem_def)

lemma rd_Some:
  "rdn m a n = Some bs \<longleftrightarrow> in_mem m a n \<and> bs = bytes_at m a n"
  "rd8 m a = Some v \<longleftrightarrow> in_mem m a 1 \<and> v = get8 m a"
  "rd16 m a = Some v \<longleftrightarrow> in_mem m a 2 \<and> v = get16 m a"
  "rd32 m a = Some v \<longleftrightarrow> in_mem m a 4 \<and> v = get32 m a"
  by (auto simp: rd8_def rd16_def rd32_def get_defs rdn_def)

lemma wr_Some:
  "wrn m a bs = Some m' \<longleftrightarrow> in_mem m a (int (length bs)) \<and> m' = put_bytes m a bs"
  "wr8 m a v = Some m' \<longleftrightarrow> in_mem m a 1 \<and> m' = put_bytes m a (le_bytes 1 v)"
  "wr16 m a v = Some m' \<longleftrightarrow> in_mem m a 2 \<and> m' = put_bytes m a (le_bytes 2 v)"
  "wr32 m a v = Some m' \<longleftrightarrow> in_mem m a 4 \<and> m' = put_bytes m a (le_bytes 4 v)"
  by (auto simp: wr8_def wr16_def wr32_def wrn_def)

lemma get_splice_disjoint:
  "in_mem m b (int (length bs)) \<Longrightarrow> in_mem m a 1 \<Longrightarrow> a + 1 \<le> b \<or> b + int (length bs) \<le> a \<Longrightarrow>
     get8 (put_bytes m b bs) a = get8 m a"
  "in_mem m b (int (length bs)) \<Longrightarrow> in_mem m a 2 \<Longrightarrow> a + 2 \<le> b \<or> b + int (length bs) \<le> a \<Longrightarrow>
     get16 (put_bytes m b bs) a = get16 m a"
  "in_mem m b (int (length bs)) \<Longrightarrow> in_mem m a 4 \<Longrightarrow> a + 4 \<le> b \<or> b + int (length bs) \<le> a \<Longrightarrow>
     get32 (put_bytes m b bs) a = get32 m a"
  by (simp_all add: get_defs slice_splice_disjoint)

lemma get_splice_same:
  "in_mem m a 2 \<Longrightarrow> get16 (put_bytes m a (le_bytes 2 v)) a = u16 v"
  "in_mem m a 4 \<Longrightarrow> get32 (put_bytes m a (le_bytes 4 v)) a = u32 v"
  by (simp_all add: get_defs slice_splice_same le_val_bytes u16_def u32_def)

subsection \<open>Swapping the byte order of a field\<close>

lemma le_bytes_SWAP:
  "length bs = 2 \<Longrightarrow> le_bytes 2 (SWAP_BE16 (le_val bs)) = rev bs"
  "length bs = 4 \<Longrightarrow> le_bytes 4 (SWAP_BE32 (le_val bs)) = rev bs"
  "length bs = 8 \<Longrightarrow> le_bytes 8 (SWAP_BE64 (le_val bs)) = rev bs"
  by (simp_all add: SWAP_BE16_def SWAP_BE32_def SWAP_BE64_def le_bytes_val)

definition rev_at :: "mem \<Rightarrow> int \<Rightarrow> int \<Rightarrow> mem" where
  "rev_at m a n = put_bytes m a (rev (bytes_at m a n))"

lemma swap_at_Some:
  "swap16_at m a = Some m' \<longleftrightarrow> in_mem m a 2 \<and> m' = rev_at m a 2"
  "swap32_at m a = Some m' \<longleftrightarrow> in_mem m a 4 \<and> m' = rev_at m a 4"
  "swap64_at m a = Some m' \<longleftrightarrow> in_mem m a 8 \<and> m' = rev_at m a 8"
  by (auto simp: swap16_at_def swap32_at_def swap64_at_def rd16_def rd32_def rd64_def rdn_def wr16_def wr32_def
      wr64_def wrn_def rev_at_def le_bytes_SWAP split: if_splits)

lemma swap_at_in [mem_simps]:
  "in_mem m a 2 \<Longrightarrow> swap16_at m a = Some (rev_at m a 2)"
  "in_mem m a 4 \<Longrightarrow> swap32_at m a = Some (rev_at m a 4)"
  "in_mem m a 8 \<Longrightarrow> swap64_at m a = Some (rev_at m a 8)"
  by (simp_all add: swap_at_Some)

lemma length_rev_at [simp]: "in_mem m a n \<Longrightarrow> length (rev_at m a n) = length m"
  by (auto simp: rev_at_def in_mem_def put_bytes_def bytes_at_def)

lemma in_mem_rev_at [simp]: "in_mem m a n \<Longrightarrow> in_mem (rev_at m a n) b k = in_mem m b k"
  by (simp add: in_mem_def [of _ b])

lemma in_mem_nat [simp]: "in_mem m a n \<Longrightarrow> in_mem m a (int (nat n))"
  by (simp add: in_mem_def)

lemma rev_at_rev_at: "in_mem m a n \<Longrightarrow> rev_at (rev_at m a n) a n = m"
  by (simp add: rev_at_def slice_splice_same splice_splice_same splice_slice_id in_mem_def)

lemma slice_rev_at_disjoint:
  "in_mem m b k \<Longrightarrow> in_mem m a n \<Longrightarrow> a + n \<le> b \<or> b + k \<le> a \<Longrightarrow> bytes_at (rev_at m b k) a n = bytes_at m a n"
  unfolding rev_at_def by (rule slice_splice_disjoint) (auto simp: in_mem_def)

lemma get_rev_at_disjoint:
  "in_mem m b k \<Longrightarrow> in_mem m a 1 \<Longrightarrow> a + 1 \<le> b \<or> b + k \<le> a \<Longrightarrow> get8 (rev_at m b k) a = get8 m a"
  "in_mem m b k \<Longrightarrow> in_mem m a 2 \<Longrightarrow> a + 2 \<le> b \<or> b + k \<le> a \<Longrightarrow> get16 (rev_at m b k) a = get16 m a"
  "in_mem m b k \<Longrightarrow> in_mem m a 4 \<Longrightarrow> a + 4 \<le> b \<or> b + k \<le> a \<Longrightarrow> get32 (rev_at m b k) a = get32 m a"
  by (simp_all add: get_defs slice_rev_at_disjoint)

lemma get_rev_at_same:
  "in_mem m a 2 \<Longrightarrow> get16 (rev_at m a 2) a = SWAP_BE16 (get16 m a)"
  "in_mem m a 4 \<Longrightarrow> get32 (rev_at m a 4) a = SWAP_BE32 (get32 m a)"
  by (simp_all add: get_defs rev_at_def slice_splice_same SWAP_BE16_def SWAP_BE32_def le_bytes_val)

lemma rev_at_commute:
  assumes "in_mem m a n" "in_mem m b k" "a + n \<le> b \<or> b + k \<le> a"
  shows "rev_at (rev_at m a n) b k = rev_at (rev_at m b k) a n"
proof -
  have "bytes_at (rev_at m a n) b k = bytes_at m b k" "bytes_at (rev_at m b k) a n = bytes_at m a n"
    using assms by (auto simp: slice_rev_at_disjoint)
  moreover have "put_bytes (put_bytes m a (rev (bytes_at m a n))) b (rev (bytes_at m b k)) =
      put_bytes (put_bytes m b (rev (bytes_at m b k))) a (rev (bytes_at m a n))"
    using assms by (intro splice_splice_disjoint) (auto simp: in_mem_def)
  ultimately show ?thesis by (simp add: rev_at_def)
qed

lemma SWAP_involution:
  "0 \<le> v \<Longrightarrow> v < 65536 \<Longrightarrow> SWAP_BE16 (SWAP_BE16 v) = v"
  "0 \<le> v \<Longrightarrow> v < 4294967296 \<Longrightarrow> SWAP_BE32 (SWAP_BE32 v) = v"
  by (simp_all add: SWAP_BE16_def SWAP_BE32_def le_bytes_val le_val_bytes)

end
