(* ===== verification/BTreeTypes.thy ===== *)
theory BTreeTypes
  imports C_Memory
begin

text \<open>
  Types and constants shared by the B-tree theories: the control block of
  \<open>src/kmod/core/BTreesPrivate.h\<close>, the on-disk node descriptor of
  \<open>src/kmod/core/hfs_format.h\<close>, the error codes of \<open>src/kmod/core/BTreesInternal.h\<close>.

  A node is a buffer (\<^typ>\<open>mem\<close>) of \<open>nodeSize\<close> bytes.  Its descriptor takes the first 14 bytes;
  the record offsets, two bytes each, are stored backwards from the end of the node, the
  offset of the free space being the last of them.
\<close>

section \<open>Errors\<close>

datatype bt_err =
    fsBTInvalidHeaderErr
  | fsBTBadRotateErr
  | fsBTInvalidNodeErr
  | fsBTRecordTooLargeErr
  | fsBTRecordNotFoundErr
  | fsBTDuplicateRecordErr
  | fsBTFullErr
  | fsBTInvalidFileErr
  | fsBTrFileAlreadyOpenErr
  | fsBTInvalidIteratorErr
  | fsBTEmptyErr
  | fsBTNoMoreMapNodesErr
  | fsBTBadNodeSize
  | fsBTBadNodeType
  | fsBTInvalidKeyLengthErr
  | fsBTStartOfIterationErr
  | fsBTEndOfIterationErr
  | fsBTUnknownVersionErr
  | fsBTTreeTooDeepErr
  | fsInvalidIterationMovmentErr
  | fsBTTimeOutErr
  | paramErr

section \<open>Constants\<close>

abbreviation kOffsetSize :: int where "kOffsetSize \<equiv> 2"
abbreviation kMaxTreeDepth :: int where "kMaxTreeDepth \<equiv> 16"
abbreviation kBTBigKeysMask :: int where "kBTBigKeysMask \<equiv> 2"
abbreviation kBTHeaderDirty :: int where "kBTHeaderDirty \<equiv> 1"
abbreviation kBTLeafNode :: int where "kBTLeafNode \<equiv> -1"
abbreviation kBTIndexNode :: int where "kBTIndexNode \<equiv> 0"
abbreviation kBTHeaderNode :: int where "kBTHeaderNode \<equiv> 1"
abbreviation kBTMapNode :: int where "kBTMapNode \<equiv> 2"
abbreviation sizeof_BTNodeDescriptor :: int where "sizeof_BTNodeDescriptor \<equiv> 14"

section \<open>The control block\<close>

record BTreeControlBlock =
  keyCompareType :: int
  btreeType :: int
  treeDepth :: int
  rootNode :: int
  leafRecords :: int
  firstLeafNode :: int
  lastLeafNode :: int
  nodeSize :: int
  maxKeyLength :: int
  totalNodes :: int
  freeNodes :: int
  flags :: int
  attributes :: int
  writeCount :: int
  numGetNodes :: int
  numGetNewNodes :: int
  numReleaseNodes :: int
  numUpdateNodes :: int
  numMapNodesRead :: int
  numHintChecks :: int
  numPossibleHints :: int
  numValidHints :: int
  reservedNodes :: int

section \<open>Fields of the node descriptor\<close>

definition rd_fLink :: "mem \<Rightarrow> int option" where "rd_fLink node = rd32 node 0"
definition rd_bLink :: "mem \<Rightarrow> int option" where "rd_bLink node = rd32 node 4"
definition rd_kind :: "mem \<Rightarrow> int option" where
  "rd_kind node = map_option (\<lambda>v. if v < 128 then v else v - 256) (rd8 node 8)"
definition rd_height :: "mem \<Rightarrow> int option" where "rd_height node = rd8 node 9"
definition rd_numRecords :: "mem \<Rightarrow> int option" where "rd_numRecords node = rd16 node 10"
definition wr_numRecords :: "mem \<Rightarrow> int \<Rightarrow> mem option" where "wr_numRecords node v = wr16 node 10 v"

lemmas node_field_defs = rd_fLink_def rd_bLink_def rd_kind_def rd_height_def rd_numRecords_def wr_numRecords_def

section \<open>Key sizes\<close>

definition bigKeys :: "BTreeControlBlock \<Rightarrow> bool" where
  "bigKeys btcb \<longleftrightarrow> attributes btcb AND kBTBigKeysMask \<noteq> 0"

text \<open>The key is the part of the buffer \<open>m\<close> that starts at address \<open>a\<close>.\<close>

definition KeyLength :: "BTreeControlBlock \<Rightarrow> mem \<Rightarrow> int \<Rightarrow> int option" where
  "KeyLength btcb m a = (if bigKeys btcb then rd16 m a else rd8 m a)"

definition CalcKeySize :: "BTreeControlBlock \<Rightarrow> mem \<Rightarrow> int \<Rightarrow> int option" where
  "CalcKeySize btcb m a =
     (if bigKeys btcb then map_option (\<lambda>v. v + 2) (rd16 m a) else map_option (\<lambda>v. v + 1) (rd8 m a))"

definition M_IsOdd :: "int \<Rightarrow> bool" where
  "M_IsOdd i \<longleftrightarrow> i AND 1 \<noteq> 0"

lemma M_IsOdd_iff [simp]: "M_IsOdd i \<longleftrightarrow> odd i"
  by (simp add: M_IsOdd_def and_one_eq odd_iff_mod_2_eq_one)

end
