(* ===== verification/BTreeNodeOps.thy ===== *)
theory BTreeNodeOps
  imports BTreeTypes
begin

text \<open>
  Single-node operations of \<open>src/kmod/core/BTreeNodeOps.c\<close> on the bytes of a node: record
  offsets, insertion and deletion of records, binary search by key.

  The functions that change a node return its new bytes; \<^term>\<open>None\<close> stands for an access outside
  of the node (or of the key or record that is copied into it).
\<close>

section \<open>Operations\<close>

definition GetRecordOffset :: "BTreeControlBlock \<Rightarrow> mem \<Rightarrow> int \<Rightarrow> int option" where
  "GetRecordOffset btreePtr node index =
     map_option s16 (rd16 node (nodeSize btreePtr - index * 2 - kOffsetSize))"

definition GetRecordAddress :: "BTreeControlBlock \<Rightarrow> mem \<Rightarrow> int \<Rightarrow> int option" where
  "GetRecordAddress btreePtr node index =
     map_option s16 (rd16 node (nodeSize btreePtr - index * 2 - kOffsetSize))"

definition GetOffsetAddress :: "BTreeControlBlock \<Rightarrow> int \<Rightarrow> int" where
  "GetOffsetAddress btreePtr index = nodeSize btreePtr - index * 2 - 2"

definition ClearNode :: "BTreeControlBlock \<Rightarrow> mem \<Rightarrow> mem option" where
  "ClearNode btreePtr node = mem_clear node 0 (nodeSize btreePtr)"

definition GetNodeDataSize :: "BTreeControlBlock \<Rightarrow> mem \<Rightarrow> int option" where
  "GetNodeDataSize btreePtr node = do {
     numRecords \<leftarrow> rd_numRecords node;
     off \<leftarrow> GetRecordOffset btreePtr node numRecords;
     let freeOffset = u16 off;
     Some (u16 (freeOffset + numRecords * 2 - sizeof_BTNodeDescriptor)) }"

definition GetNodeFreeSize :: "BTreeControlBlock \<Rightarrow> mem \<Rightarrow> int option" where
  "GetNodeFreeSize btreePtr node = do {
     numRecords \<leftarrow> rd_numRecords node;
     off \<leftarrow> GetRecordOffset btreePtr node numRecords;
     let freeOffset = u16 off;
     Some (u16 (nodeSize btreePtr - freeOffset - numRecords * 2 - kOffsetSize)) }"

definition GetRecordSize :: "BTreeControlBlock \<Rightarrow> mem \<Rightarrow> int \<Rightarrow> int option" where
  "GetRecordSize btreePtr node index = do {
     let pos = nodeSize btreePtr - index * 2 - kOffsetSize;
     next \<leftarrow> rd16 node (pos - 2);
     this \<leftarrow> rd16 node pos;
     Some (u16 (next - this)) }"

text \<open>The loop of \<open>InsertOffset\<close>: \<open>do { *dst++ = *src++ + delta; } while (numOffsets--)\<close>.\<close>

fun InsertOffset_loop :: "nat \<Rightarrow> mem \<Rightarrow> int \<Rightarrow> int \<Rightarrow> int \<Rightarrow> mem option" where
  "InsertOffset_loop 0 node src dst delta = do {
     v \<leftarrow> rd16 node src;
     wr16 node dst (v + delta) }"
| "InsertOffset_loop (Suc numOffsets) node src dst delta = do {
     v \<leftarrow> rd16 node src;
     node' \<leftarrow> wr16 node dst (v + delta);
     InsertOffset_loop numOffsets node' (src + 2) (dst + 2) delta }"

definition InsertOffset :: "BTreeControlBlock \<Rightarrow> mem \<Rightarrow> int \<Rightarrow> int \<Rightarrow> mem option" where
  "InsertOffset btreePtr node index delta = do {
     numRecords \<leftarrow> rd_numRecords node;
     let src = GetOffsetAddress btreePtr numRecords;
     let dst = src - 2;
     let numOffsets = u16 (numRecords - index);
     node1 \<leftarrow> wr_numRecords node (numRecords + 1);
     InsertOffset_loop (nat numOffsets) node1 src dst delta }"

text \<open>The loop of \<open>DeleteOffset\<close>: \<open>while (numOffsets--) *--dst = *--src - delta\<close>.\<close>

fun DeleteOffset_loop :: "nat \<Rightarrow> mem \<Rightarrow> int \<Rightarrow> int \<Rightarrow> int \<Rightarrow> mem option" where
  "DeleteOffset_loop 0 node src dst delta = Some node"
| "DeleteOffset_loop (Suc numOffsets) node src dst delta = do {
     v \<leftarrow> rd16 node (src - 2);
     node' \<leftarrow> wr16 node (dst - 2) (v - delta);
     DeleteOffset_loop numOffsets node' (src - 2) (dst - 2) delta }"

definition DeleteOffset :: "BTreeControlBlock \<Rightarrow> mem \<Rightarrow> int \<Rightarrow> mem option" where
  "DeleteOffset btreePtr node index = do {
     let dst = GetOffsetAddress btreePtr index;
     let src = dst - 2;
     next \<leftarrow> rd16 node src;
     this \<leftarrow> rd16 node dst;
     let delta = u16 (next - this);
     numRecords \<leftarrow> rd_numRecords node;
     let numRecords' = u16 (numRecords - 1);
     node1 \<leftarrow> wr_numRecords node numRecords';
     let numOffsets = u16 (numRecords' - index);
     DeleteOffset_loop (nat numOffsets) node1 src dst delta }"

definition InsertRecord :: "BTreeControlBlock \<Rightarrow> mem \<Rightarrow> int \<Rightarrow> mem \<Rightarrow> int \<Rightarrow> (bool \<times> mem) option" where
  "InsertRecord btreePtr node index recPtr recSize = do {
     freeSpace \<leftarrow> GetNodeFreeSize btreePtr node;
     if freeSpace < recSize + 2 then Some (False, node)
     else do {
       indexOff \<leftarrow> GetRecordOffset btreePtr node index;
       numRecords \<leftarrow> rd_numRecords node;
       freeOff \<leftarrow> GetRecordOffset btreePtr node numRecords;
       let indexOffset = u16 indexOff;
       let freeOffset = u16 freeOff;
       let bytesToMove = u16 (freeOffset - indexOffset);
       node1 \<leftarrow> (if bytesToMove \<noteq> 0 then mem_move node indexOffset (indexOffset + recSize) bytesToMove
                 else Some node);
       node2 \<leftarrow> InsertOffset btreePtr node1 index recSize;
       bytes \<leftarrow> rdn recPtr 0 recSize;
       node3 \<leftarrow> wrn node2 indexOffset bytes;
       Some (True, node3) } }"

definition InsertKeyRecord ::
  "BTreeControlBlock \<Rightarrow> mem \<Rightarrow> int \<Rightarrow> mem \<Rightarrow> int \<Rightarrow> mem \<Rightarrow> int \<Rightarrow> (bool \<times> mem) option" where
  "InsertKeyRecord btreePtr node index keyPtr keyLength recPtr recSize = do {
     let keySize0 = (if bigKeys btreePtr then u16 (keyLength + 2) else u16 (keyLength + 1));
     let keySize = (if M_IsOdd keySize0 then u16 (keySize0 + 1) else keySize0);
     freeSpace \<leftarrow> GetNodeFreeSize btreePtr node;
     if freeSpace < keySize + recSize + 2 then Some (False, node)
     else do {
       indexOff \<leftarrow> GetRecordOffset btreePtr node index;
       numRecords \<leftarrow> rd_numRecords node;
       freeOff \<leftarrow> GetRecordOffset btreePtr node numRecords;
       let indexOffset = u16 indexOff;
       let freeOffset = u16 freeOff;
       let bytesToMove = u16 (freeOffset - indexOffset);
       node1 \<leftarrow> (if bytesToMove \<noteq> 0
                 then mem_move node indexOffset (indexOffset + keySize + recSize) bytesToMove
                 else Some node);
       node2 \<leftarrow> InsertOffset btreePtr node1 index (u16 (keySize + recSize));
       node3 \<leftarrow> (if bigKeys btreePtr then wr16 node2 indexOffset keyLength
                 else wr8 node2 indexOffset keyLength);
       rawKeyLength \<leftarrow> (if bigKeys btreePtr then rd16 keyPtr 0 else rd8 keyPtr 0);
       let sizeOfLength = (if bigKeys btreePtr then 2 else 1);
       let dst = indexOffset + sizeOfLength;
       key \<leftarrow> rdn keyPtr sizeOfLength rawKeyLength;
       node4 \<leftarrow> wrn node3 dst key;
       let padBytes = u16 (keySize - rawKeyLength);
       node5 \<leftarrow> (if padBytes \<noteq> 0 then mem_clear node4 (dst + rawKeyLength) padBytes else Some node4);
       bytes \<leftarrow> rdn recPtr 0 recSize;
       node6 \<leftarrow> wrn node5 (indexOffset + keySize) bytes;
       Some (True, node6) } }"

definition DeleteRecord :: "BTreeControlBlock \<Rightarrow> mem \<Rightarrow> int \<Rightarrow> mem option" where
  "DeleteRecord btreePtr node index = do {
     indexOffset \<leftarrow> GetRecordOffset btreePtr node index;
     nextOffset \<leftarrow> GetRecordOffset btreePtr node (index + 1);
     numRecords \<leftarrow> rd_numRecords node;
     freeOffset \<leftarrow> GetRecordOffset btreePtr node numRecords;
     let bytesToMove = s16 (freeOffset - nextOffset);
     node1 \<leftarrow> (if bytesToMove \<noteq> 0 then mem_move node nextOffset indexOffset bytesToMove else Some node);
     node2 \<leftarrow> DeleteOffset btreePtr node1 index;
     let bytesToClear = s16 (nextOffset - indexOffset);
     numRecords' \<leftarrow> rd_numRecords node2;
     addr \<leftarrow> GetRecordAddress btreePtr node2 numRecords';
     mem_clear node2 addr bytesToClear }"

text \<open>
  The binary search of \<open>SearchNode\<close>.  The key comparison routine of the tree is an argument; it
  is given the search key and the bytes of the node from the trial key on.
\<close>

function SearchNode_loop ::
  "(mem \<Rightarrow> mem \<Rightarrow> int option) \<Rightarrow> BTreeControlBlock \<Rightarrow> mem \<Rightarrow> mem \<Rightarrow> int \<Rightarrow> int \<Rightarrow> (bool \<times> int) option" where
  "SearchNode_loop compareProc btreePtr node searchKey lowerBound upperBound =
     (if lowerBound \<le> upperBound then do {
        let index = (lowerBound + upperBound) div 2;
        off \<leftarrow> rd16 node (nodeSize btreePtr - kOffsetSize - index * 2);
        result \<leftarrow> compareProc searchKey (drop (nat off) node);
        if result < 0 then
          SearchNode_loop compareProc btreePtr node searchKey lowerBound (index - 1)
        else if result > 0 then
          SearchNode_loop compareProc btreePtr node searchKey (index + 1) upperBound
        else Some (True, u16 index) }
      else Some (False, u16 lowerBound))"
  by pat_completeness auto
termination
  by (relation "measure (\<lambda>(c, b, n, k, l, u). nat (u - l + 1))") auto

declare SearchNode_loop.simps [simp del]

definition SearchNode ::
  "(mem \<Rightarrow> mem \<Rightarrow> int option) \<Rightarrow> BTreeControlBlock \<Rightarrow> mem \<Rightarrow> mem \<Rightarrow> (bool \<times> int) option" where
  "SearchNode compareProc btreePtr node searchKey = do {
     numRecords \<leftarrow> rd_numRecords node;
     SearchNode_loop compareProc btreePtr node searchKey 0 (numRecords - 1) }"

text \<open>The result of \<open>GetRecordByIndex\<close>: address of the key, address and size of the data.\<close>

definition GetRecordByIndex ::
  "BTreeControlBlock \<Rightarrow> mem \<Rightarrow> int \<Rightarrow> (bt_err + int \<times> int \<times> int) option" where
  "GetRecordByIndex btreePtr node index = do {
     numRecords \<leftarrow> rd_numRecords node;
     if index \<ge> numRecords then Some (Inl fsBTRecordNotFoundErr)
     else do {
       off \<leftarrow> GetRecordOffset btreePtr node index;
       let offset = u16 off;
       size \<leftarrow> CalcKeySize btreePtr node offset;
       let keySize0 = u16 size;
       let keySize = (if M_IsOdd keySize0 then u16 (keySize0 + 1) else keySize0);
       let dataOffset = u16 (offset + keySize);
       noff \<leftarrow> GetRecordOffset btreePtr node (index + 1);
       let nextOffset = u16 noff;
       Some (Inr (offset, dataOffset, u16 (nextOffset - dataOffset))) } }"

definition GetChildNodeNum :: "BTreeControlBlock \<Rightarrow> mem \<Rightarrow> int \<Rightarrow> int option" where
  "GetChildNodeNum btreePtr nodePtr index = do {
     pos \<leftarrow> GetRecordAddress btreePtr nodePtr index;
     size \<leftarrow> CalcKeySize btreePtr nodePtr pos;
     rd32 nodePtr (pos + size) }"

section \<open>Well-formed nodes and their records\<close>

definition nrec :: "mem \<Rightarrow> nat" where
  "nrec node = nat (get16 node 10)"

definition roff :: "BTreeControlBlock \<Rightarrow> mem \<Rightarrow> nat \<Rightarrow> int" where
  "roff bt node i = get16 node (nodeSize bt - 2 * int i - 2)"

text \<open>
  A well-formed node: the descriptor, then the records in the order of their offsets, then
  free space, then the offsets.  The size of a node is at most 32768 (\<open>VerifyHeader\<close> checks it).
\<close>

definition node_wf :: "BTreeControlBlock \<Rightarrow> mem \<Rightarrow> bool" where
  "node_wf bt node \<longleftrightarrow>
     int (length node) = nodeSize bt \<and> nodeSize bt \<le> 32768 \<and> 16 \<le> nodeSize bt \<and>
     14 \<le> roff bt node 0 \<and> (\<forall>i < nrec node. roff bt node i \<le> roff bt node (Suc i)) \<and>
     roff bt node (nrec node) + 2 * int (nrec node) + 2 \<le> nodeSize bt"

definition record_at :: "BTreeControlBlock \<Rightarrow> mem \<Rightarrow> nat \<Rightarrow> mem" where
  "record_at bt node i = bytes_at node (roff bt node i) (roff bt node (Suc i) - roff bt node i)"

definition records :: "BTreeControlBlock \<Rightarrow> mem \<Rightarrow> mem list" where
  "records bt node = map (record_at bt node) [0..<nrec node]"

definition node_free :: "BTreeControlBlock \<Rightarrow> mem \<Rightarrow> int" where
  "node_free bt node = nodeSize bt - roff bt node (nrec node) - 2 * int (nrec node) - 2"

lemma int_nrec [simp]: "int (nrec node) = get16 node 10"
  by (simp add: nrec_def)

lemma length_records [simp]: "length (records bt node) = nrec node"
  by (simp add: records_def)

lemma roff_mono:
  assumes "node_wf bt node" "i \<le> j" "j \<le> nrec node"
  shows "roff bt node i \<le> roff bt node j"
  using assms(2,3)
proof (induction j)
  case (Suc j)
  have "roff bt node j \<le> roff bt node (Suc j)" using assms(1) Suc.prems by (simp add: node_wf_def)
  with Suc show ?case by (cases "i = Suc j") auto
qed simp

lemma node_wfD:
  assumes "node_wf bt node"
  shows "int (length node) = nodeSize bt" "nodeSize bt \<le> 32768" "16 \<le> nodeSize bt"
    "14 \<le> roff bt node 0" "roff bt node (nrec node) + 2 * get16 node 10 + 2 \<le> nodeSize bt"
    "16 + 2 * get16 node 10 \<le> nodeSize bt"
proof -
  show "int (length node) = nodeSize bt" "nodeSize bt \<le> 32768" "16 \<le> nodeSize bt"
    "14 \<le> roff bt node 0" and le: "roff bt node (nrec node) + 2 * get16 node 10 + 2 \<le> nodeSize bt"
    using assms by (auto simp: node_wf_def)
  then show "16 + 2 * get16 node 10 \<le> nodeSize bt"
    using roff_mono [OF assms, of 0 "nrec node"] by simp
qed

lemma roff_range:
  assumes "node_wf bt node" "i \<le> nrec node"
  shows "14 \<le> roff bt node i" "roff bt node i + 2 * get16 node 10 + 2 \<le> nodeSize bt" "roff bt node i < 32768"
  using node_wfD [OF assms(1)] roff_mono [OF assms(1), of 0 i] roff_mono [OF assms(1) assms(2) le_refl] assms(2)
    get_bounds(3) [of node 10] by linarith+

lemma offset_in_mem:
  assumes "node_wf bt node" "i \<le> nrec node"
  shows "in_mem node (nodeSize bt - 2 * int i - 2) 2"
  using node_wfD [OF assms(1)] assms(2) get_bounds(3) [of node 10] int_nrec [of node]
  unfolding in_mem_def by linarith

lemma desc_in_mem: "node_wf bt node \<Longrightarrow> in_mem node 10 2" "node_wf bt node \<Longrightarrow> in_mem node 0 14"
  using node_wfD(1,3) [of bt node] by (auto simp: in_mem_def)

subsection \<open>Reading offsets\<close>

lemma rd_numRecords_wf [mem_simps]: "node_wf bt node \<Longrightarrow> rd_numRecords node = Some (get16 node 10)"
  by (simp add: rd_numRecords_def rd_in desc_in_mem)

lemma GetRecordOffset_wf [mem_simps]:
  assumes "node_wf bt node" "0 \<le> i" "i \<le> get16 node 10"
  shows "GetRecordOffset bt node i = Some (roff bt node (nat i))"
proof -
  have "nat i \<le> nrec node" using assms by (simp add: nrec_def)
  with offset_in_mem [OF assms(1) this] roff_range [OF assms(1) this] assms(2) show ?thesis
    by (simp add: GetRecordOffset_def rd_in roff_def mult.commute)
qed

lemma u16_roff [simp]: "u16 (roff bt node i) = roff bt node i"
  by (simp add: roff_def)

lemma roff_bounds [simp]: "0 \<le> roff bt node i" "roff bt node i < 65536"
  by (simp_all add: roff_def)

lemma GetNodeFreeSize_wf [mem_simps]:
  assumes "node_wf bt node"
  shows "GetNodeFreeSize bt node = Some (node_free bt node)" "0 \<le> node_free bt node"
    "node_free bt node < 32768"
proof -
  have r: "0 \<le> node_free bt node" "node_free bt node < 32768"
    using node_wfD(2,5) [OF assms] roff_range(1) [OF assms le_refl] get_bounds(3) [of node 10]
    unfolding node_free_def int_nrec by linarith+
  then show "GetNodeFreeSize bt node = Some (node_free bt node)"
    using assms by (simp add: GetNodeFreeSize_def mem_simps node_free_def nrec_def mult.commute)
  show "0 \<le> node_free bt node" "node_free bt node < 32768" by fact+
qed

subsection \<open>The offset loops\<close>

text \<open>\<open>same_outside m m' a b\<close>: the buffers agree outside of the addresses from \<open>a\<close> to \<open>b\<close>.\<close>

definition same_outside :: "mem \<Rightarrow> mem \<Rightarrow> int \<Rightarrow> int \<Rightarrow> bool" where
  "same_outside m m' a b \<longleftrightarrow> length m' = length m \<and>
     (\<forall>c n. in_mem m c n \<and> (c + n \<le> a \<or> b \<le> c) \<longrightarrow> bytes_at m' c n = bytes_at m c n)"

lemma same_outsideD:
  "same_outside m m' a b \<Longrightarrow> length m' = length m"
  "same_outside m m' a b \<Longrightarrow> in_mem m c n \<Longrightarrow> c + n \<le> a \<or> b \<le> c \<Longrightarrow> bytes_at m' c n = bytes_at m c n"
  "same_outside m m' a b \<Longrightarrow> in_mem m' c n = in_mem m c n"
  "same_outside m m' a b \<Longrightarrow> in_mem m c 2 \<Longrightarrow> c + 2 \<le> a \<or> b \<le> c \<Longrightarrow> get16 m' c = get16 m c"
  by (simp_all add: same_outside_def in_mem_def get16_def)

lemma same_outside_refl [simp]: "same_outside m m a b"
  by (simp add: same_outside_def)

lemma same_outside_splice:
  "in_mem m a (int (length bs)) \<Longrightarrow> same_outside m (put_bytes m a bs) a (a + int (length bs))"
  by (auto simp: same_outside_def slice_splice_disjoint)

lemma same_outside_trans:
  assumes "same_outside m m' a b" "same_outside m' m'' c d"
  shows "same_outside m m'' (min a c) (max b d)"
  using assms by (auto simp: same_outside_def in_mem_def)

lemma same_outside_mono: "same_outside m m' a b \<Longrightarrow> a' \<le> a \<Longrightarrow> b \<le> b' \<Longrightarrow> same_outside m m' a' b'"
  by (auto simp: same_outside_def)

lemma InsertOffset_loop_spec:
  assumes "in_mem node (src - 2) (2 * int k + 4)"
  shows "\<exists>node'. InsertOffset_loop k node src (src - 2) delta = Some node' \<and>
           same_outside node node' (src - 2) (src + 2 * int k) \<and>
           (\<forall>j\<le>k. get16 node' (src - 2 + 2 * int j) = u16 (get16 node (src + 2 * int j) + delta))"
  using assms
proof (induction k arbitrary: node src)
  case 0
  then have "in_mem node src 2" "in_mem node (src - 2) 2" by (auto simp: in_mem_def)
  then show ?case
    by (auto simp: mem_simps get_splice_same same_outside_def slice_splice_disjoint)
next
  case (Suc k)
  define node1 where "node1 = put_bytes node (src - 2) (le_bytes 2 (get16 node src + delta))"
  have im: "in_mem node src 2" "in_mem node (src - 2) 2" using Suc.prems by (auto simp: in_mem_def)
  have s1: "same_outside node node1 (src - 2) src"
    using same_outside_splice [of node "src - 2" "le_bytes 2 (get16 node src + delta)"] im
    by (simp add: node1_def)
  have "in_mem node1 (src + 2 - 2) (2 * int k + 4)"
    using Suc.prems same_outsideD(1) [OF s1] by (auto simp: in_mem_def)
  from Suc.IH [OF this] obtain node' where n':
    "InsertOffset_loop k node1 (src + 2) src delta = Some node'"
    "same_outside node1 node' src (src + 2 + 2 * int k)"
    "\<And>j. j \<le> k \<Longrightarrow> get16 node' (src + 2 * int j) = u16 (get16 node1 (src + 2 + 2 * int j) + delta)"
    by auto
  have "same_outside node node' (src - 2) (src + 2 * int (Suc k))"
    using same_outside_trans [OF s1 n'(2)] by (simp add: min_def max_def algebra_simps)
  moreover have "get16 node' (src - 2 + 2 * int j) = u16 (get16 node (src + 2 * int j) + delta)" if "j \<le> Suc k" for j
  proof (cases j)
    case 0
    have "get16 node' (src - 2) = get16 node1 (src - 2)"
      using im same_outsideD(3) [OF s1] by (intro same_outsideD(4) [OF n'(2)]) auto
    then show ?thesis using 0 im by (simp add: node1_def get_splice_same)
  next
    case (Suc i)
    have "get16 node1 (src + 2 + 2 * int i) = get16 node (src + 2 + 2 * int i)"
      using Suc.prems that Suc by (intro same_outsideD(4) [OF s1]) (auto simp: in_mem_def)
    then show ?thesis using n'(3) [of i] that Suc by (simp add: algebra_simps)
  qed
  ultimately show ?case
    using n'(1) im by (intro exI [of _ node']) (simp add: mem_simps node1_def)
qed

lemma DeleteOffset_loop_spec:
  assumes "in_mem node (dst - 2 - 2 * int k) (2 * int k + 2)"
  shows "\<exists>node'. DeleteOffset_loop k node (dst - 2) dst delta = Some node' \<and>
           same_outside node node' (dst - 2 * int k) dst \<and>
           (\<forall>j<k. get16 node' (dst - 2 - 2 * int j) = u16 (get16 node (dst - 4 - 2 * int j) - delta))"
  using assms
proof (induction k arbitrary: node dst)
  case 0
  then show ?case by simp
next
  case (Suc k)
  define node1 where "node1 = put_bytes node (dst - 2) (le_bytes 2 (get16 node (dst - 4) - delta))"
  have im: "in_mem node (dst - 4) 2" "in_mem node (dst - 2) 2" using Suc.prems by (auto simp: in_mem_def)
  have s1: "same_outside node node1 (dst - 2) dst"
    using same_outside_splice [of node "dst - 2" "le_bytes 2 (get16 node (dst - 4) - delta)"] im
    by (simp add: node1_def)
  have "in_mem node1 (dst - 2 - 2 - 2 * int k) (2 * int k + 2)"
    using Suc.prems same_outsideD(1) [OF s1] by (auto simp: in_mem_def)
  from Suc.IH [OF this] obtain node' where n':
    "DeleteOffset_loop k node1 (dst - 4) (dst - 2) delta = Some node'"
    "same_outside node1 node' (dst - 2 - 2 * int k) (dst - 2)"
    "\<And>j. j < k \<Longrightarrow> get16 node' (dst - 4 - 2 * int j) = u16 (get16 node1 (dst - 6 - 2 * int j) - delta)"
    by auto
  have "same_outside node node' (dst - 2 * int (Suc k)) dst"
    using same_outside_trans [OF s1 n'(2)] by (simp add: min_def max_def algebra_simps split: if_splits)
  moreover have "get16 node' (dst - 2 - 2 * int j) = u16 (get16 node (dst - 4 - 2 * int j) - delta)" if "j < Suc k" for j
  proof (cases j)
    case 0
    have "get16 node' (dst - 2) = get16 node1 (dst - 2)"
      using im same_outsideD(3) [OF s1] by (intro same_outsideD(4) [OF n'(2)]) auto
    then show ?thesis using 0 im by (simp add: node1_def get_splice_same)
  next
    case (Suc i)
    have "get16 node1 (dst - 6 - 2 * int i) = get16 node (dst - 6 - 2 * int i)"
      using Suc.prems that Suc by (intro same_outsideD(4) [OF s1]) (auto simp: in_mem_def)
    then show ?thesis using n'(3) [of i] that Suc by (simp add: algebra_simps)
  qed
  ultimately show ?case
    using n'(1) im by (intro exI [of _ node']) (simp add: mem_simps node1_def)
qed
lemma same_outside_get32:
  "same_outside m m' a b \<Longrightarrow> in_mem m c 4 \<Longrightarrow> c + 4 \<le> a \<or> b \<le> c \<Longrightarrow> get32 m' c = get32 m c"
  by (simp add: same_outside_def get32_def)

subsection \<open>Changing one record\<close>

text \<open>The descriptor without its count of records: links, kind, height and reserved field.\<close>

definition same_desc :: "mem \<Rightarrow> mem \<Rightarrow> bool" where
  "same_desc node node' \<longleftrightarrow> bytes_at node' 0 10 = bytes_at node 0 10 \<and> bytes_at node' 12 2 = bytes_at node 12 2"

lemma same_desc_trans: "same_desc a b \<Longrightarrow> same_desc b c \<Longrightarrow> same_desc a c"
  by (simp add: same_desc_def)

lemma node_wf_cong:
  assumes "node_wf bt node" "length node' = length node" "get16 node' 10 = get16 node 10"
    "\<And>i. i \<le> nrec node \<Longrightarrow> roff bt node' i = roff bt node i"
  shows "node_wf bt node'" "nrec node' = nrec node"
proof -
  show "nrec node' = nrec node" using assms(3) by (simp add: nrec_def)
  then show "node_wf bt node'" using assms by (simp add: node_wf_def)
qed

lemma records_eqI:
  assumes "nrec node = length rs" "\<And>i. i < length rs \<Longrightarrow> record_at bt node i = rs ! i"
  shows "records bt node = rs"
  using assms by (intro nth_equalityI) (auto simp: records_def)

lemma data_area_frame:
  assumes wf: "node_wf bt node"
    and so: "same_outside node node' a b" "14 \<le> a" "b \<le> nodeSize bt - 2 * get16 node 10 - 2"
  shows "node_wf bt node'" "nrec node' = nrec node" "get16 node' 10 = get16 node 10" "same_desc node node'"
    "\<And>i. i \<le> nrec node \<Longrightarrow> roff bt node' i = roff bt node i"
    "length node' = length node"
proof -
  show l: "length node' = length node" using same_outsideD(1) [OF so(1)] .
  show n: "get16 node' 10 = get16 node 10"
    using so desc_in_mem [OF wf] by (auto intro: same_outsideD(4) [OF so(1)])
  show r: "roff bt node' i = roff bt node i" if "i \<le> nrec node" for i
    unfolding roff_def using so that offset_in_mem [OF wf that] int_nrec [of node]
    by (intro same_outsideD(4) [OF so(1)]) (auto simp del: int_nrec)
  show "same_desc node node'"
    using so node_wfD(1,3) [OF wf] by (auto simp: same_desc_def in_mem_def intro!: same_outsideD(2) [OF so(1)])
  show "node_wf bt node'" "nrec node' = nrec node"
    using node_wf_cong [OF wf l n r] by auto
qed

lemma record_in_mem:
  assumes "node_wf bt node" "i < nrec node"
  shows "in_mem node (roff bt node i) (roff bt node (Suc i) - roff bt node i)"
    "roff bt node i \<le> roff bt node (Suc i)"
proof -
  show "roff bt node i \<le> roff bt node (Suc i)" using roff_mono [OF assms(1), of i "Suc i"] assms(2) by simp
  then show "in_mem node (roff bt node i) (roff bt node (Suc i) - roff bt node i)"
    using roff_range(2) [OF assms(1), of "Suc i"] node_wfD(1) [OF assms(1)] assms(2) get_bounds(3) [of node 10]
      roff_bounds(1) [of bt node i] unfolding in_mem_def by linarith
qed

lemma length_record_at: "node_wf bt node \<Longrightarrow> i < nrec node \<Longrightarrow>
    int (length (record_at bt node i)) = roff bt node (Suc i) - roff bt node i"
  using record_in_mem [of bt node i] by (simp add: record_at_def)

lemma change_record:
  assumes wf: "node_wf bt node" and i: "i < nrec node"
    and so: "same_outside node node' (roff bt node i) (roff bt node (Suc i))"
  shows "node_wf bt node'" "nrec node' = nrec node" "same_desc node node'" "roff bt node' i = roff bt node i"
    "roff bt node' 0 = roff bt node 0" "records bt node' = (records bt node)[i := record_at bt node' i]"
proof -
  note df = data_area_frame [OF wf so]
  have b: "14 \<le> roff bt node i" "roff bt node (Suc i) \<le> nodeSize bt - 2 * get16 node 10 - 2"
    using roff_range [OF wf, of i] roff_range [OF wf, of "Suc i"] i by auto
  then show "node_wf bt node'" "nrec node' = nrec node" "same_desc node node'" "roff bt node' i = roff bt node i"
    "roff bt node' 0 = roff bt node 0"
    using df i by auto
  show "records bt node' = (records bt node)[i := record_at bt node' i]"
  proof (rule records_eqI)
    fix j assume "j < length ((records bt node)[i := record_at bt node' i])"
    then have j: "j < nrec node" by simp
    have "roff bt node (Suc j) \<le> roff bt node i \<or> roff bt node (Suc i) \<le> roff bt node j" if "j \<noteq> i"
      using roff_mono [OF wf, of "Suc j" i] roff_mono [OF wf, of "Suc i" j] i j that by (cases "j < i") auto
    then have "record_at bt node' j = record_at bt node j" if "j \<noteq> i"
      using that j df(5) [OF b, of j] df(5) [OF b, of "Suc j"] record_in_mem [OF wf j]
      by (auto simp: record_at_def intro!: same_outsideD(2) [OF so])
    then show "record_at bt node' j = (records bt node)[i := record_at bt node' i] ! j"
      using j i by (cases "j = i") (auto simp: records_def)
  qed (use df(2) [OF b] in simp)
qed

subsection \<open>Moving offsets\<close>

lemma InsertOffset_wf:
  assumes wf: "node_wf bt node" and i: "index \<le> nrec node" and d: "0 \<le> delta" "delta + 2 \<le> node_free bt node"
  shows "\<exists>node'. InsertOffset bt node (int index) delta = Some node' \<and> length node' = length node \<and>
     get16 node' 10 = get16 node 10 + 1 \<and> same_desc node node' \<and>
     (\<forall>j\<le>index. roff bt node' j = roff bt node j) \<and>
     (\<forall>j. index \<le> j \<and> j \<le> nrec node \<longrightarrow> roff bt node' (Suc j) = roff bt node j + delta) \<and>
     (\<forall>c n. in_mem node c n \<and> 14 \<le> c \<and> c + n \<le> nodeSize bt - 2 * get16 node 10 - 4 \<longrightarrow>
        bytes_at node' c n = bytes_at node c n)"
proof -
  define node1 where "node1 = put_bytes node 10 (le_bytes 2 (get16 node 10 + 1))"
  define src where "src = nodeSize bt - 2 * get16 node 10 - 2"
  define k where "k = nrec node - index"
  note w = node_wfD [OF wf]
  have fr: "roff bt node (nrec node) + delta + 2 * get16 node 10 + 4 \<le> nodeSize bt"
    using d by (simp add: node_free_def)
  have im: "in_mem node 10 2" using desc_in_mem [OF wf] by simp
  have s1: "same_outside node node1 10 12"
    using same_outside_splice [of node 10 "le_bytes 2 (get16 node 10 + 1)"] im by (simp add: node1_def)
  have n1: "get16 node1 10 = get16 node 10 + 1"
    using im w(2,6) by (simp add: node1_def get_splice_same)
  have k: "int k = get16 node 10 - int index" using i int_nrec [of node] by (simp add: k_def del: int_nrec)
  have k0: "0 \<le> int k" "0 \<le> int index" by simp_all
  have fr0: "14 \<le> src - 2" using roff_range(1) [OF wf le_refl] fr d(1) by (simp add: src_def)
  have "in_mem node1 (src - 2) (2 * int k + 4)"
    using same_outsideD(1) [OF s1] w fr0 k k0 by (simp add: in_mem_def src_def)
  from InsertOffset_loop_spec [OF this, of delta] obtain node' where n':
    "InsertOffset_loop k node1 src (src - 2) delta = Some node'"
    "same_outside node1 node' (src - 2) (src + 2 * int k)"
    "\<And>j. j \<le> k \<Longrightarrow> get16 node' (src - 2 + 2 * int j) = u16 (get16 node1 (src + 2 * int j) + delta)"
    by auto
  have "u16 (int k) = int k" using k k0 get_bounds(4) [of node 10] by (intro u16_id) linarith+
  then have run: "InsertOffset bt node (int index) delta = Some node'"
    using n'(1) wf im by (simp add: InsertOffset_def mem_simps GetOffsetAddress_def wr_numRecords_def
        node1_def [symmetric] src_def mult.commute k [symmetric])
  have sd: "bytes_at node' c n = bytes_at node c n"
    if "in_mem node c n" "c + n \<le> 10 \<or> 12 \<le> c" "c + n \<le> src - 2 \<or> src + 2 * int k \<le> c" for c n
    using that same_outsideD(2) [OF s1, of c n] same_outsideD(2) [OF n'(2), of c n] same_outsideD(3) [OF s1] by auto
  have low: "roff bt node' j = roff bt node j" if "j \<le> index" for j
    unfolding roff_def get16_def
    by (subst sd) (use offset_in_mem [OF wf, of j] that i k fr0 in \<open>auto simp: src_def\<close>)
  have high: "roff bt node' (Suc j) = roff bt node j + delta" if "index \<le> j" "j \<le> nrec node" for j
  proof -
    have jj: "int (nrec node - j) = get16 node 10 - int j" using that int_nrec [of node] by (simp del: int_nrec)
    have a: "src - 2 + 2 * int (nrec node - j) = nodeSize bt - 2 * int (Suc j) - 2"
      "src + 2 * int (nrec node - j) = nodeSize bt - 2 * int j - 2"
      unfolding jj by (simp_all add: src_def)
    have "get16 node1 (nodeSize bt - 2 * int j - 2) = get16 node (nodeSize bt - 2 * int j - 2)"
      using offset_in_mem [OF wf that(2)] fr0 jj by (intro same_outsideD(4) [OF s1]) (auto simp: src_def)
    moreover have "roff bt node j + delta < 65536"
      using roff_mono [OF wf that(2) le_refl] fr w(2) get_bounds(3) [of node 10] by linarith
    moreover have "nrec node - j \<le> k" using that by (simp add: k_def)
    note n'(3) [OF this, unfolded a]
    ultimately show ?thesis
      using d(1) by (simp add: roff_def)
  qed
  have "get16 node' 10 = get16 node 10 + 1"
    using n1 same_outsideD(4) [OF n'(2), of 10] im same_outsideD(3) [OF s1] fr0 by simp
  moreover have "length node' = length node" using same_outsideD(1) [OF n'(2)] same_outsideD(1) [OF s1] by simp
  moreover have "same_desc node node'"
    using w(1,3) fr0 by (auto simp: same_desc_def in_mem_def intro!: sd)
  ultimately show ?thesis using run low high sd by (intro exI [of _ node']) (auto simp: src_def)
qed

lemma DeleteOffset_wf:
  assumes wf: "node_wf bt node" and i: "index < nrec node"
  defines "delta \<equiv> roff bt node (Suc index) - roff bt node index"
  shows "\<exists>node'. DeleteOffset bt node (int index) = Some node' \<and> length node' = length node \<and>
     get16 node' 10 = get16 node 10 - 1 \<and> same_desc node node' \<and>
     (\<forall>j\<le>index. roff bt node' j = roff bt node j) \<and>
     (\<forall>j. index < j \<and> j < nrec node \<longrightarrow> roff bt node' j = roff bt node (Suc j) - delta) \<and>
     (\<forall>c n. in_mem node c n \<and> 14 \<le> c \<and> c + n \<le> nodeSize bt - 2 * get16 node 10 - 2 \<longrightarrow>
        bytes_at node' c n = bytes_at node c n)"
proof -
  define node1 where "node1 = put_bytes node 10 (le_bytes 2 (get16 node 10 - 1))"
  define dst where "dst = nodeSize bt - 2 * int index - 2"
  define k where "k = nrec node - 1 - index"
  note w = node_wfD [OF wf]
  have d: "0 \<le> delta" "delta < 32768"
    using roff_range(3) [OF wf, of "Suc index"] record_in_mem(2) [OF wf i] i roff_bounds(1) [of bt node index]
    unfolding delta_def by linarith+
  have im: "in_mem node 10 2" using desc_in_mem [OF wf] by simp
  have s1: "same_outside node node1 10 12"
    using same_outside_splice [of node 10 "le_bytes 2 (get16 node 10 - 1)"] im by (simp add: node1_def)
  have k: "int k = get16 node 10 - 1 - int index" using i int_nrec [of node] by (simp add: k_def del: int_nrec)
  have k0: "0 \<le> int k" "0 \<le> int index" by simp_all
  have g: "1 \<le> get16 node 10" using k k0 by simp
  have gu: "u16 (get16 node 10 - 1) = get16 node 10 - 1"
    using g get_bounds(4) [of node 10] by (intro u16_id) linarith+
  then have n1: "get16 node1 10 = get16 node 10 - 1"
    using im by (simp add: node1_def get_splice_same)
  have "in_mem node1 (dst - 2 - 2 * int k) (2 * int k + 2)"
    using same_outsideD(1) [OF s1] w k k0 by (simp add: in_mem_def dst_def)
  from DeleteOffset_loop_spec [OF this, of delta] obtain node' where n':
    "DeleteOffset_loop k node1 (dst - 2) dst delta = Some node'"
    "same_outside node1 node' (dst - 2 * int k) dst"
    "\<And>j. j < k \<Longrightarrow> get16 node' (dst - 2 - 2 * int j) = u16 (get16 node1 (dst - 4 - 2 * int j) - delta)"
    by auto
  have "u16 (int k) = int k" using k k0 get_bounds(4) [of node 10] by (intro u16_id) linarith+
  moreover note gu
  moreover have "u16 (get16 node (dst - 2) - get16 node dst) = delta" "in_mem node dst 2" "in_mem node (dst - 2) 2"
    using d offset_in_mem [OF wf, of index] offset_in_mem [OF wf, of "Suc index"] i
    by (simp_all add: delta_def roff_def dst_def algebra_simps)
  ultimately have run: "DeleteOffset bt node (int index) = Some node'"
    using n'(1) wf im by (simp add: DeleteOffset_def mem_simps GetOffsetAddress_def wr_numRecords_def
        node1_def [symmetric] dst_def mult.commute k [symmetric])
  have lo: "14 \<le> dst - 2 * int k" using roff_range(1,2) [OF wf le_refl] k by (simp add: dst_def)
  have sd: "bytes_at node' c n = bytes_at node c n"
    if "in_mem node c n" "c + n \<le> 10 \<or> 12 \<le> c" "c + n \<le> dst - 2 * int k \<or> dst \<le> c" for c n
    using that same_outsideD(2) [OF s1, of c n] same_outsideD(2) [OF n'(2), of c n] same_outsideD(3) [OF s1] by auto
  have low: "roff bt node' j = roff bt node j" if "j \<le> index" for j
    unfolding roff_def get16_def
    by (subst sd) (use offset_in_mem [OF wf, of j] that i k lo in \<open>auto simp: dst_def\<close>)
  have high: "roff bt node' j = roff bt node (Suc j) - delta" if "index < j" "j < nrec node" for j
  proof -
    have a: "dst - 2 - 2 * int (j - Suc index) = nodeSize bt - 2 * int j - 2"
      "dst - 4 - 2 * int (j - Suc index) = nodeSize bt - 2 * int (Suc j) - 2"
      using that by (simp_all add: dst_def of_nat_diff)
    have "get16 node1 (nodeSize bt - 2 * int (Suc j) - 2) = get16 node (nodeSize bt - 2 * int (Suc j) - 2)"
      using offset_in_mem [OF wf, of "Suc j"] lo that k int_nrec [of node]
      by (intro same_outsideD(4) [OF s1]) (auto simp: dst_def simp del: int_nrec)
    moreover have "delta \<le> roff bt node (Suc j)"
      using roff_mono [OF wf, of "Suc index" "Suc j"] that roff_bounds(1) [of bt node index]
      unfolding delta_def by linarith
    then have "u16 (roff bt node (Suc j) - delta) = roff bt node (Suc j) - delta"
      using d roff_bounds(2) [of bt node "Suc j"] by (intro u16_id) linarith+
    moreover have "j - Suc index < k" using that by (simp add: k_def)
    note n'(3) [OF this, unfolded a]
    ultimately show ?thesis by (simp add: roff_def)
  qed
  have "get16 node' 10 = get16 node 10 - 1"
    using n1 same_outsideD(4) [OF n'(2), of 10] im same_outsideD(3) [OF s1] lo by simp
  moreover have "length node' = length node" using same_outsideD(1) [OF n'(2)] same_outsideD(1) [OF s1] by simp
  moreover have "same_desc node node'"
    using w(1,3) lo by (auto simp: same_desc_def in_mem_def intro!: sd)
  ultimately show ?thesis using run low high sd k by (intro exI [of _ node']) (auto simp: dst_def)
qed
section \<open>Insertion\<close>

text \<open>
  The part shared by \<open>InsertRecord\<close> and \<open>InsertKeyRecord\<close>: the records from \<open>index\<close> on move up by
  \<open>sz\<close> bytes and the offsets are adjusted.  The result has one more record, a hole of \<open>sz\<close> bytes.
\<close>

definition make_hole :: "BTreeControlBlock \<Rightarrow> mem \<Rightarrow> int \<Rightarrow> int \<Rightarrow> mem option" where
  "make_hole bt node index sz = do {
     let indexOffset = roff bt node (nat index);
     let bytesToMove = u16 (roff bt node (nrec node) - indexOffset);
     node1 \<leftarrow> (if bytesToMove \<noteq> 0 then mem_move node indexOffset (indexOffset + sz) bytesToMove else Some node);
     InsertOffset bt node1 index sz }"

lemma same_outside_move:
  assumes "in_mem node a n" "in_mem node b n"
  shows "\<exists>node1. (if n \<noteq> 0 then mem_move node a b n else Some node) = Some node1 \<and>
     same_outside node node1 b (b + n) \<and>
     (\<forall>c k. b \<le> c \<and> 0 \<le> k \<and> c + k \<le> b + n \<longrightarrow> bytes_at node1 c k = bytes_at node (a + (c - b)) k)"
proof (cases "n = 0")
  case True
  then show ?thesis by (auto simp: bytes_at_def intro: exI [of _ node])
next
  case False
  define node1 where "node1 = put_bytes node b (bytes_at node a n)"
  have l: "int (length (bytes_at node a n)) = n" using assms(1) by (simp add: in_mem_def)
  have "same_outside node node1 b (b + n)"
    using same_outside_splice [of node b "bytes_at node a n"] assms(2) l by (simp add: node1_def)
  moreover have "bytes_at node1 c k = bytes_at node (a + (c - b)) k"
    if "b \<le> c" "0 \<le> k" "c + k \<le> b + n" for c k
  proof -
    have "bytes_at node1 c k = bytes_at (bytes_at node a n) (c - b) k"
      unfolding node1_def using that assms(2) l by (intro slice_splice_inside) auto
    also have "\<dots> = bytes_at node (a + (c - b)) k"
      using that assms(1) by (intro slice_slice) auto
    finally show ?thesis .
  qed
  ultimately show ?thesis using False assms by (intro exI [of _ node1]) (auto simp: mem_simps node1_def)
qed

lemma u16_roff_diff:
  assumes "node_wf bt node" "i \<le> j" "j \<le> nrec node"
  shows "u16 (roff bt node j - roff bt node i) = roff bt node j - roff bt node i"
  using roff_mono [OF assms] roff_bounds(2) [of bt node j] roff_bounds(1) [of bt node i]
  by (intro u16_id) linarith+

text \<open>What making a hole does to the offsets and to the bytes of the records.\<close>

lemma make_hole_raw:
  assumes wf: "node_wf bt node" and i: "index \<le> nrec node" and d: "0 \<le> sz" "sz + 2 \<le> node_free bt node"
  shows "\<exists>node'. make_hole bt node (int index) sz = Some node' \<and> length node' = length node \<and>
     nrec node' = Suc (nrec node) \<and> same_desc node node' \<and>
     (\<forall>j\<le>index. roff bt node' j = roff bt node j) \<and>
     (\<forall>j. index \<le> j \<and> j \<le> nrec node \<longrightarrow> roff bt node' (Suc j) = roff bt node j + sz) \<and>
     (\<forall>c k. 14 \<le> c \<and> 0 \<le> k \<and> c + k \<le> roff bt node index \<longrightarrow> bytes_at node' c k = bytes_at node c k) \<and>
     (\<forall>c k. roff bt node index \<le> c \<and> 0 \<le> k \<and> c + k \<le> roff bt node (nrec node) \<longrightarrow>
        bytes_at node' (c + sz) k = bytes_at node c k)"
proof -
  define a where "a = roff bt node index"
  define n where "n = roff bt node (nrec node) - a"
  have fr: "roff bt node (nrec node) + sz + 2 * get16 node 10 + 4 \<le> nodeSize bt"
    using d by (simp add: node_free_def)
  have a: "14 \<le> a" "0 \<le> n" using roff_range(1) [OF wf i] roff_mono [OF wf i le_refl] by (simp_all add: a_def n_def)
  have "in_mem node a n" "in_mem node (a + sz) n"
    using a fr d(1) node_wfD(1) [OF wf] get_bounds(3) [of node 10] unfolding in_mem_def n_def by linarith+
  from same_outside_move [OF this] obtain node1 where n1:
    "(if n \<noteq> 0 then mem_move node a (a + sz) n else Some node) = Some node1"
    "same_outside node node1 (a + sz) (a + sz + n)"
    "\<And>c k. a + sz \<le> c \<Longrightarrow> 0 \<le> k \<Longrightarrow> c + k \<le> a + sz + n \<Longrightarrow> bytes_at node1 c k = bytes_at node (a + (c - (a + sz))) k"
    by blast
  have bnd: "14 \<le> a + sz" "a + sz + n \<le> nodeSize bt - 2 * get16 node 10 - 2"
    using a d fr by (simp_all add: n_def)
  note f = data_area_frame [OF wf n1(2) bnd]
  have "sz + 2 \<le> node_free bt node1" using d f by (simp add: node_free_def)
  from InsertOffset_wf [OF f(1), of index sz] i d this f obtain node' where n':
    "InsertOffset bt node1 (int index) sz = Some node'" "length node' = length node"
    "get16 node' 10 = get16 node 10 + 1" "same_desc node1 node'"
    "\<And>j. j \<le> index \<Longrightarrow> roff bt node' j = roff bt node j"
    "\<And>j. index \<le> j \<Longrightarrow> j \<le> nrec node \<Longrightarrow> roff bt node' (Suc j) = roff bt node j + sz"
    "\<And>c k. in_mem node1 c k \<Longrightarrow> 14 \<le> c \<Longrightarrow> c + k \<le> nodeSize bt - 2 * get16 node 10 - 4 \<Longrightarrow>
       bytes_at node' c k = bytes_at node1 c k"
    by (auto simp: le_trans [OF _ i])
  have run: "make_hole bt node (int index) sz = Some node'"
    using n1(1) n'(1) u16_roff_diff [OF wf i le_refl]
    by (auto simp: make_hole_def Let_def a_def [symmetric] n_def [symmetric] split: if_splits)
  have ln: "int (length node) = nodeSize bt" "length node1 = length node" using node_wfD(1) [OF wf] f(6) by auto
  have "bytes_at node' c k = bytes_at node c k" if "14 \<le> c" "0 \<le> k" "c + k \<le> a" for c k
  proof -
    have "in_mem node c k" "c + k \<le> nodeSize bt - 2 * get16 node 10 - 4"
      using that fr a d(1) ln get_bounds(3) [of node 10] unfolding in_mem_def n_def by linarith+
    then show ?thesis
      using that n'(7) [of c k] same_outsideD(2,3) [OF n1(2), of c k] d(1) by simp
  qed
  moreover have "bytes_at node' (c + sz) k = bytes_at node c k" if "a \<le> c" "0 \<le> k" "c + k \<le> a + n" for c k
  proof -
    have "in_mem node1 (c + sz) k" "c + sz + k \<le> nodeSize bt - 2 * get16 node 10 - 4"
      using that fr a d(1) ln get_bounds(3) [of node 10] unfolding in_mem_def n_def by linarith+
    then show ?thesis using that n'(7) [of "c + sz" k] n1(3) [of "c + sz" k] d(1) a by simp
  qed
  ultimately show ?thesis
    using run n' same_desc_trans [OF f(4) n'(4)]
    by (intro exI [of _ node']) (auto simp: nrec_def nat_add_distrib a_def n_def)
qed

lemma hole_wf:
  assumes wf: "node_wf bt node" and i: "index \<le> nrec node" and d: "0 \<le> sz" "sz + 2 \<le> node_free bt node"
    and n: "length node' = length node" "nrec node' = Suc (nrec node)"
      "\<And>j. j \<le> index \<Longrightarrow> roff bt node' j = roff bt node j"
      "\<And>j. index \<le> j \<Longrightarrow> j \<le> nrec node \<Longrightarrow> roff bt node' (Suc j) = roff bt node j + sz"
  shows "node_wf bt node'"
proof -
  have "roff bt node' j \<le> roff bt node' (Suc j)" if "j < nrec node'" for j
  proof (cases j)
    case 0
    then show ?thesis using n(3) [of 0] n(3) [of 1] n(4) [of 0] d(1) roff_mono [OF wf, of 0 1] i by (cases "index = 0") auto
  next
    case (Suc k)
    then show ?thesis
      using that n(2) roff_mono [OF wf, of j "Suc j"] roff_mono [OF wf, of k j] n(3) [of j] n(3) [of "Suc j"]
        n(4) [of j] n(4) [of k] d(1) i
      by (cases "j < index"; cases "j = index") auto
  qed
  moreover have "roff bt node' (nrec node') = roff bt node (nrec node) + sz" using n(4) [OF i] n(2) by simp
  moreover have "get16 node' 10 = get16 node 10 + 1" using n(2) int_nrec [of node'] by simp
  ultimately show ?thesis using wf n(1) n(3) [of 0] d by (simp add: node_wf_def node_free_def)
qed

lemma make_hole_wf:
  assumes wf: "node_wf bt node" and i: "index \<le> nrec node" and d: "0 \<le> sz" "sz + 2 \<le> node_free bt node"
  shows "\<exists>node'. make_hole bt node (int index) sz = Some node' \<and> node_wf bt node' \<and> nrec node' = Suc (nrec node) \<and>
     same_desc node node' \<and> roff bt node' 0 = roff bt node 0 \<and> roff bt node' index = roff bt node index \<and>
     roff bt node' (Suc index) = roff bt node index + sz \<and>
     records bt node' = take index (records bt node) @ [record_at bt node' index] @ drop index (records bt node)"
proof -
  obtain node' where n': "make_hole bt node (int index) sz = Some node'" "length node' = length node"
    "nrec node' = Suc (nrec node)" "same_desc node node'"
    "\<And>j. j \<le> index \<Longrightarrow> roff bt node' j = roff bt node j"
    "\<And>j. index \<le> j \<Longrightarrow> j \<le> nrec node \<Longrightarrow> roff bt node' (Suc j) = roff bt node j + sz"
    "\<And>c k. 14 \<le> c \<Longrightarrow> 0 \<le> k \<Longrightarrow> c + k \<le> roff bt node index \<Longrightarrow> bytes_at node' c k = bytes_at node c k"
    "\<And>c k. roff bt node index \<le> c \<Longrightarrow> 0 \<le> k \<Longrightarrow> c + k \<le> roff bt node (nrec node) \<Longrightarrow>
        bytes_at node' (c + sz) k = bytes_at node c k"
    using make_hole_raw [OF assms] by blast
  have "records bt node' = take index (records bt node) @ [record_at bt node' index] @ drop index (records bt node)"
  proof (rule records_eqI)
    fix j assume "j < length (take index (records bt node) @ [record_at bt node' index] @ drop index (records bt node))"
    then consider "j < index" | "j = index" | k where "j = Suc k" "index \<le> k" "k < nrec node"
      using i by (cases "j < index"; cases "j = index"; cases j) auto
    then show "record_at bt node' j = (take index (records bt node) @ [record_at bt node' index] @ drop index (records bt node)) ! j"
    proof cases
      case 1
      then have "record_at bt node' j = record_at bt node j"
        using record_in_mem(2) [OF wf, of j] i roff_range(1) [OF wf, of j] roff_mono [OF wf, of "Suc j" index]
        by (simp add: record_at_def n'(5,7))
      then show ?thesis using 1 i by (simp add: nth_append records_def)
    next
      case 3
      then have "record_at bt node' j = record_at bt node k"
        using record_in_mem(2) [OF wf, of k] roff_mono [OF wf, of index k] roff_mono [OF wf, of "Suc k" "nrec node"]
        by (simp add: record_at_def n'(6,8))
      then show ?thesis using 3 i by (simp add: nth_append records_def)
    qed (use i in \<open>simp add: nth_append\<close>)
  qed (use n'(3) i in simp)
  then show ?thesis using n' hole_wf [OF assms n'(2,3,5,6)] i by (intro exI [of _ node']) auto
qed

text \<open>
  Insertion of a record of \<open>recSize\<close> bytes at an index from 0 to \<open>numRecords\<close>.
\<close>

lemma same_outside_record:
  assumes "node_wf bt node" "i < nrec node" "roff bt node (Suc i) = roff bt node i + int (length bs)"
  shows "in_mem node (roff bt node i) (int (length bs))"
    "same_outside node (put_bytes node (roff bt node i) bs) (roff bt node i) (roff bt node (Suc i))"
    "record_at bt (put_bytes node (roff bt node i) bs) i = bs"
proof -
  show im: "in_mem node (roff bt node i) (int (length bs))"
    using record_in_mem(1) [OF assms(1,2)] assms(3) by simp
  then show so: "same_outside node (put_bytes node (roff bt node i) bs) (roff bt node i) (roff bt node (Suc i))"
    using same_outside_splice [OF im] assms(3) by simp
  have "roff bt (put_bytes node (roff bt node i) bs) (Suc i) = roff bt node (Suc i)"
    using data_area_frame(5) [OF assms(1) so, of "Suc i"] roff_range(1) [OF assms(1), of i]
      roff_range(2) [OF assms(1), of "Suc i"] assms(2) by simp
  then show "record_at bt (put_bytes node (roff bt node i) bs) i = bs"
    using change_record(4) [OF assms(1,2) so] im assms(3) by (simp add: record_at_def slice_splice_same)
qed

lemma InsertRecord_full:
  "node_wf bt node \<Longrightarrow> node_free bt node < recSize + 2 \<Longrightarrow>
     InsertRecord bt node index recPtr recSize = Some (False, node)"
  by (simp add: InsertRecord_def mem_simps)

lemma InsertRecord_run:
  assumes wf: "node_wf bt node" and i: "index \<le> nrec node"
    and fit: "recSize + 2 \<le> node_free bt node" and r: "0 \<le> recSize" "recSize \<le> int (length recPtr)"
  shows "\<exists>node'. InsertRecord bt node (int index) recPtr recSize = Some (True, node') \<and>
     node_wf bt node' \<and> same_desc node node' \<and> roff bt node' 0 = roff bt node 0 \<and>
     records bt node' =
       take index (records bt node) @ [bytes_at recPtr 0 recSize] @ drop index (records bt node)"
proof -
  obtain node2 where h: "make_hole bt node (int index) recSize = Some node2" "node_wf bt node2"
    "nrec node2 = Suc (nrec node)" "same_desc node node2" "roff bt node2 index = roff bt node index"
    "roff bt node2 (Suc index) = roff bt node index + recSize"
    "records bt node2 = take index (records bt node) @ [record_at bt node2 index] @ drop index (records bt node)"
    "roff bt node2 0 = roff bt node 0"
    using make_hole_wf [OF wf i r(1) fit] by blast
  define bs where "bs = bytes_at recPtr 0 recSize"
  have bs: "int (length bs) = recSize" "rdn recPtr 0 recSize = Some bs"
    using r by (auto simp: bs_def in_mem_def rdn_def)
  have i2: "index < nrec node2" using i h(3) by simp
  note so = same_outside_record [OF h(2) i2, of bs] h(5,6) bs(1)
  define node3 where "node3 = put_bytes node2 (roff bt node2 index) bs"
  note ch = change_record [OF h(2) i2, of node3, unfolded node3_def, OF so(2)]
  have "InsertRecord bt node (int index) recPtr recSize = Some (True, node3)"
    using h(1) wf fit i so bs by (auto simp: InsertRecord_def make_hole_def mem_simps node3_def Let_def nrec_def
        le_nat_iff bind_eq_Some_conv wr_Some split: if_splits)
  then show ?thesis
    using so ch h i same_desc_trans [OF h(4) ch(3)] by (auto simp: node3_def bs_def list_update_append)
qed

section \<open>Deletion\<close>

lemma change_free:
  assumes wf: "node_wf bt node" and so: "same_outside node node' a b"
    and ab: "roff bt node (nrec node) \<le> a" "b \<le> nodeSize bt - 2 * get16 node 10 - 2"
  shows "node_wf bt node'" "records bt node' = records bt node" "same_desc node node'"
    "roff bt node' 0 = roff bt node 0"
proof -
  have "14 \<le> a" using roff_range(1) [OF wf le_refl] ab(1) by simp
  note f = data_area_frame [OF wf so this ab(2)]
  show "node_wf bt node'" "same_desc node node'" "roff bt node' 0 = roff bt node 0" using f(5) [of 0] f by auto
  have "record_at bt node' j = record_at bt node j" if "j < nrec node" for j
    using that f(5) [of j] f(5) [of "Suc j"] record_in_mem [OF wf that] roff_mono [OF wf, of "Suc j" "nrec node"] ab(1)
    by (auto simp: record_at_def intro!: same_outsideD(2) [OF so])
  then show "records bt node' = records bt node" using f(2) by (intro records_eqI) (auto simp: records_def)
qed

text \<open>The state of the node when the records after the deleted one and the offsets have moved.\<close>

lemma delete_moved:
  assumes wf: "node_wf bt node" and i: "index < nrec node"
  defines "io \<equiv> roff bt node index" and "nx \<equiv> roff bt node (Suc index)" and "fo \<equiv> roff bt node (nrec node)"
  shows "\<exists>node1 node2. (if fo - nx \<noteq> 0 then mem_move node nx io (fo - nx) else Some node) = Some node1 \<and>
     DeleteOffset bt node1 (int index) = Some node2 \<and> length node2 = length node \<and>
     Suc (nrec node2) = nrec node \<and> same_desc node node2 \<and>
     (\<forall>j\<le>index. roff bt node2 j = roff bt node j) \<and>
     (\<forall>j. index < j \<and> j < nrec node \<longrightarrow> roff bt node2 j = roff bt node (Suc j) - (nx - io)) \<and>
     (\<forall>c k. 14 \<le> c \<and> 0 \<le> k \<and> c + k \<le> io \<longrightarrow> bytes_at node2 c k = bytes_at node c k) \<and>
     (\<forall>c k. nx \<le> c \<and> 0 \<le> k \<and> c + k \<le> fo \<longrightarrow> bytes_at node2 (c - (nx - io)) k = bytes_at node c k)"
proof -
  have b: "14 \<le> io" "io \<le> nx" "nx \<le> fo" "fo + 2 * get16 node 10 + 2 \<le> nodeSize bt"
    using roff_range [OF wf, of index] roff_range [OF wf le_refl] i
      record_in_mem(2) [OF wf i] roff_mono [OF wf, of "Suc index" "nrec node"]
    by (auto simp: io_def nx_def fo_def)
  have ln: "int (length node) = nodeSize bt" using node_wfD(1) [OF wf] .
  have "in_mem node nx (fo - nx)" "in_mem node io (fo - nx)"
    using b ln get_bounds(3) [of node 10] unfolding in_mem_def by linarith+
  from same_outside_move [OF this] obtain node1 where n1:
    "(if fo - nx \<noteq> 0 then mem_move node nx io (fo - nx) else Some node) = Some node1"
    "same_outside node node1 io (io + (fo - nx))"
    "\<And>c k. io \<le> c \<Longrightarrow> 0 \<le> k \<Longrightarrow> c + k \<le> io + (fo - nx) \<Longrightarrow> bytes_at node1 c k = bytes_at node (nx + (c - io)) k"
    by blast
  have "io + (fo - nx) \<le> nodeSize bt - 2 * get16 node 10 - 2" using b by simp
  note f = data_area_frame [OF wf n1(2) b(1) this]
  have i1: "index < nrec node1" using f i by simp
  from DeleteOffset_wf [OF f(1) i1] f i obtain node2 where n2:
    "DeleteOffset bt node1 (int index) = Some node2" "length node2 = length node"
    "get16 node2 10 = get16 node 10 - 1" "same_desc node1 node2"
    "\<And>j. j \<le> index \<Longrightarrow> roff bt node2 j = roff bt node j"
    "\<And>j. index < j \<Longrightarrow> j < nrec node \<Longrightarrow> roff bt node2 j = roff bt node (Suc j) - (nx - io)"
    "\<And>c n. in_mem node1 c n \<Longrightarrow> 14 \<le> c \<Longrightarrow> c + n \<le> nodeSize bt - 2 * get16 node 10 - 2 \<Longrightarrow>
        bytes_at node2 c n = bytes_at node1 c n"
    by (auto simp: nx_def io_def)
  have nr: "Suc (nrec node2) = nrec node" using n2(3) i by (auto simp: nrec_def nat_diff_distrib)
  have im: "in_mem node1 c k" "c + k \<le> nodeSize bt - 2 * get16 node 10 - 2" if "14 \<le> c" "0 \<le> k" "c + k \<le> fo" for c k
    using that b ln f(6) get_bounds(3) [of node 10] unfolding in_mem_def by linarith+
  have "bytes_at node2 c k = bytes_at node c k" if "14 \<le> c" "0 \<le> k" "c + k \<le> io" for c k
    using that im [of c k] b n2(7) [of c k] same_outsideD(2,3) [OF n1(2), of c k] by simp
  moreover have "bytes_at node2 (c - (nx - io)) k = bytes_at node c k" if "nx \<le> c" "0 \<le> k" "c + k \<le> fo" for c k
    using that im [of "c - (nx - io)" k] b n2(7) [of "c - (nx - io)" k] n1(3) [of "c - (nx - io)" k] by simp
  ultimately show ?thesis
    using n1(1) n2 nr same_desc_trans [OF f(4) n2(4)] by (intro exI [of _ node1] exI [of _ node2]) auto
qed

lemma moved_wf:
  assumes wf: "node_wf bt node" and i: "index < nrec node"
    and n: "length node2 = length node" "Suc (nrec node2) = nrec node"
      "\<And>j. j \<le> index \<Longrightarrow> roff bt node2 j = roff bt node j"
      "\<And>j. index < j \<Longrightarrow> j < nrec node \<Longrightarrow>
         roff bt node2 j = roff bt node (Suc j) - (roff bt node (Suc index) - roff bt node index)"
  shows "node_wf bt node2"
    "roff bt node2 (nrec node2) = roff bt node (nrec node) - (roff bt node (Suc index) - roff bt node index)"
proof -
  show last: "roff bt node2 (nrec node2) = roff bt node (nrec node) - (roff bt node (Suc index) - roff bt node index)"
    using n(3) [of index] n(4) [of "nrec node2"] n(2) i by (cases "nrec node2 = index") auto
  have "roff bt node2 j \<le> roff bt node2 (Suc j)" if "j < nrec node2" for j
    using that n(2) roff_mono [OF wf, of j "Suc j"] roff_mono [OF wf, of "Suc j" "Suc (Suc j)"] n(3) [of j] n(3) [of "Suc j"]
      n(4) [of j] n(4) [of "Suc j"] roff_mono [OF wf, of "Suc index" "Suc (Suc j)"]
    by (cases "j < index"; cases "j = index") auto
  moreover have "get16 node 10 = get16 node2 10 + 1" using n(2) int_nrec [of node] int_nrec [of node2] by linarith
  ultimately show "node_wf bt node2"
    using wf n(1) n(3) [of 0] last record_in_mem(2) [OF wf i] by (simp add: node_wf_def)
qed

lemma moved_records:
  assumes wf: "node_wf bt node" and i: "index < nrec node"
    and n: "Suc (nrec node2) = nrec node"
      "\<And>j. j \<le> index \<Longrightarrow> roff bt node2 j = roff bt node j"
      "\<And>j. index < j \<Longrightarrow> j < nrec node \<Longrightarrow>
         roff bt node2 j = roff bt node (Suc j) - (roff bt node (Suc index) - roff bt node index)"
      "\<And>c k. 14 \<le> c \<Longrightarrow> 0 \<le> k \<Longrightarrow> c + k \<le> roff bt node index \<Longrightarrow> bytes_at node2 c k = bytes_at node c k"
      "\<And>c k. roff bt node (Suc index) \<le> c \<Longrightarrow> 0 \<le> k \<Longrightarrow> c + k \<le> roff bt node (nrec node) \<Longrightarrow>
         bytes_at node2 (c - (roff bt node (Suc index) - roff bt node index)) k = bytes_at node c k"
  shows "records bt node2 = take index (records bt node) @ drop (Suc index) (records bt node)"
proof (rule records_eqI)
  fix j assume "j < length (take index (records bt node) @ drop (Suc index) (records bt node))"
  then have j: "j < nrec node2" using i n(1) by auto
  have "record_at bt node2 j = record_at bt node (if j < index then j else Suc j)"
    using j n(1) i roff_range(1) [OF wf, of j] roff_mono [OF wf, of j "Suc j"] roff_mono [OF wf, of "Suc j" index]
      roff_mono [OF wf, of "Suc j" "Suc (Suc j)"] roff_mono [OF wf, of "Suc index" "Suc j"]
      roff_mono [OF wf, of "Suc (Suc j)" "nrec node"]
      n(5) [of "roff bt node (Suc j)" "roff bt node (Suc (Suc j)) - roff bt node (Suc j)"]
    by (cases "j < index"; cases "j = index") (auto simp: record_at_def n(2-4))
  then show "record_at bt node2 j = (take index (records bt node) @ drop (Suc index) (records bt node)) ! j"
    using j i n(1) by (auto simp: nth_append records_def min_def)
qed (use i n(1) in auto)

lemma DeleteRecord_run:
  assumes wf: "node_wf bt node" and i: "index < nrec node"
  shows "\<exists>node'. DeleteRecord bt node (int index) = Some node' \<and> node_wf bt node' \<and> same_desc node node' \<and>
     roff bt node' 0 = roff bt node 0 \<and> records bt node' = take index (records bt node) @ drop (Suc index) (records bt node)"
proof -
  define io nx fo where "io = roff bt node index" and "nx = roff bt node (Suc index)" and "fo = roff bt node (nrec node)"
  obtain node1 node2 where n: "(if fo - nx \<noteq> 0 then mem_move node nx io (fo - nx) else Some node) = Some node1"
    "DeleteOffset bt node1 (int index) = Some node2" "length node2 = length node"
    "Suc (nrec node2) = nrec node" "same_desc node node2"
    "\<And>j. j \<le> index \<Longrightarrow> roff bt node2 j = roff bt node j"
    "\<And>j. index < j \<Longrightarrow> j < nrec node \<Longrightarrow> roff bt node2 j = roff bt node (Suc j) - (nx - io)"
    "\<And>c k. 14 \<le> c \<Longrightarrow> 0 \<le> k \<Longrightarrow> c + k \<le> io \<Longrightarrow> bytes_at node2 c k = bytes_at node c k"
    "\<And>c k. nx \<le> c \<Longrightarrow> 0 \<le> k \<Longrightarrow> c + k \<le> fo \<Longrightarrow> bytes_at node2 (c - (nx - io)) k = bytes_at node c k"
    using delete_moved [OF assms] unfolding io_def nx_def fo_def by blast
  note mw = moved_wf [OF wf i n(3,4,6) n(7) [unfolded io_def nx_def], folded io_def nx_def fo_def]
  have b: "0 \<le> io" "io \<le> nx" "nx \<le> fo" "nx < 32768" "fo < 32768" "fo + 2 * get16 node 10 + 2 \<le> nodeSize bt"
    using roff_range [OF wf le_refl] roff_range [OF wf, of "Suc index"] i
      record_in_mem(2) [OF wf i] roff_mono [OF wf, of "Suc index" "nrec node"]
    by (auto simp: io_def nx_def fo_def)
  have recs: "records bt node2 = take index (records bt node) @ drop (Suc index) (records bt node)"
    using moved_records [OF wf i n(4,6) n(7) [unfolded io_def nx_def] n(8) [unfolded io_def]
        n(9) [unfolded io_def nx_def fo_def]] .
  define node3 where "node3 = put_bytes node2 (fo - (nx - io)) (replicate (nat (nx - io)) 0)"
  have im: "in_mem node2 (fo - (nx - io)) (nx - io)"
    using b n(3) node_wfD(1) [OF wf] get_bounds(3) [of node 10] unfolding in_mem_def by linarith
  have g: "get16 node 10 = get16 node2 10 + 1" using n(4) int_nrec [of node] int_nrec [of node2] by linarith
  have "GetRecordAddress bt node2 (get16 node2 10) = Some (fo - (nx - io))"
    using GetRecordOffset_wf [OF mw(1), of "get16 node2 10"] mw(2)
    by (simp add: GetRecordAddress_def GetRecordOffset_def nrec_def)
  then have run: "DeleteRecord bt node (int index) = Some node3"
    using n(1,2) wf mw(1) i b im GetRecordOffset_wf [OF wf, of "int index"] GetRecordOffset_wf [OF wf, of "int index + 1"]
      GetRecordOffset_wf [OF wf, of "get16 node 10"] int_nrec [of node]
    by (auto simp: DeleteRecord_def mem_simps node3_def Let_def nat_add_distrib
        io_def [symmetric] nx_def [symmetric] fo_def [symmetric] nrec_def [symmetric]
        simp del: int_nrec split: if_splits)
  have "same_outside node2 node3 (fo - (nx - io)) fo"
    using same_outside_splice [of node2 "fo - (nx - io)" "replicate (nat (nx - io)) 0"] im b by (simp add: node3_def)
  from change_free [OF mw(1) this] mw(2) b g recs run same_desc_trans [OF n(5)] n(6) [of 0] show ?thesis by auto
qed
subsection \<open>Insertion of a key and its data\<close>

lemma splice_append:
  "in_mem m a (int (length bs + length cs)) \<Longrightarrow> b = a + int (length bs) \<Longrightarrow>
     put_bytes (put_bytes m a bs) b cs = put_bytes m a (bs @ cs)"
  by (rule nth_equalityI) (auto simp: nth_splice in_mem_def nth_append nat_add_distrib)

lemma splice_over:
  "in_mem m a (int (length bs + length ds)) \<Longrightarrow> length cs \<le> length ds \<Longrightarrow> b = a + int (length bs) \<Longrightarrow>
     put_bytes (put_bytes m a (bs @ cs)) b ds = put_bytes m a (bs @ ds)"
  by (rule nth_equalityI) (auto simp: nth_splice in_mem_def nth_append nat_add_distrib)

definition len_size :: "BTreeControlBlock \<Rightarrow> nat" where
  "len_size bt = (if bigKeys bt then 2 else 1)"

definition key_size :: "BTreeControlBlock \<Rightarrow> int \<Rightarrow> int" where
  "key_size bt keyLength = keyLength + int (len_size bt) + (if odd (keyLength + int (len_size bt)) then 1 else 0)"

text \<open>The bytes of a record made of a length field, a key, padding up to \<open>key_size\<close> and data.\<close>

definition key_record :: "BTreeControlBlock \<Rightarrow> int \<Rightarrow> mem \<Rightarrow> mem \<Rightarrow> mem" where
  "key_record bt keyLength key data =
     le_bytes (len_size bt) keyLength @ key @
     replicate (nat (key_size bt keyLength) - len_size bt - length key) 0 @ data"

definition raw_key :: "BTreeControlBlock \<Rightarrow> mem \<Rightarrow> mem" where
  "raw_key bt keyPtr = bytes_at keyPtr (int (len_size bt)) (if bigKeys bt then get16 keyPtr 0 else get8 keyPtr 0)"

definition key_ok :: "BTreeControlBlock \<Rightarrow> mem \<Rightarrow> int \<Rightarrow> bool" where
  "key_ok bt keyPtr keyLength \<longleftrightarrow> in_mem keyPtr 0 (int (len_size bt)) \<and>
     in_mem keyPtr (int (len_size bt)) (if bigKeys bt then get16 keyPtr 0 else get8 keyPtr 0) \<and>
     (if bigKeys bt then get16 keyPtr 0 else get8 keyPtr 0) \<le> keyLength"

lemma InsertKeyRecord_steps:
  assumes im: "in_mem m a (ks + int (length data))" and sl: "length L + length key \<le> nat ks" "length L \<le> length data"
    and ks: "0 \<le> ks"
  shows "put_bytes (put_bytes (put_bytes (put_bytes m a L) (a + int (length L)) key)
             (a + int (length L) + int (length key)) (replicate (nat ks - length key) 0)) (a + ks) data =
         put_bytes m a (L @ key @ replicate (nat ks - length L - length key) 0 @ data)"
proof -
  have r: "replicate (nat ks - length key) (0 :: 8 word) =
      replicate (nat ks - length L - length key) 0 @ replicate (length L) 0"
    using sl by (simp add: replicate_add [symmetric])
  have "put_bytes (put_bytes m a L) (a + int (length L)) key = put_bytes m a (L @ key)"
    using im sl ks by (intro splice_append) (auto simp: in_mem_def)
  moreover have "put_bytes (put_bytes m a (L @ key)) (a + int (length L) + int (length key)) (replicate (nat ks - length key) 0)
      = put_bytes m a ((L @ key) @ replicate (nat ks - length key) 0)"
    using im sl ks by (intro splice_append) (auto simp: in_mem_def)
  moreover have "put_bytes (put_bytes m a ((L @ key @ replicate (nat ks - length L - length key) 0) @ replicate (length L) 0)) (a + ks) data
      = put_bytes m a ((L @ key @ replicate (nat ks - length L - length key) 0) @ data)"
    using im sl ks by (intro splice_over) (auto simp: in_mem_def)
  ultimately show ?thesis by (simp add: r)
qed

text \<open>The second half of \<open>InsertKeyRecord\<close>, which writes the record into the hole.\<close>

definition fill_record :: "BTreeControlBlock \<Rightarrow> mem \<Rightarrow> int \<Rightarrow> int \<Rightarrow> mem \<Rightarrow> int \<Rightarrow> mem \<Rightarrow> int \<Rightarrow> (bool \<times> mem) option" where
  "fill_record bt node2 indexOffset keySize keyPtr keyLength recPtr recSize = do {
     node3 \<leftarrow> (if bigKeys bt then wr16 node2 indexOffset keyLength else wr8 node2 indexOffset keyLength);
     rawKeyLength \<leftarrow> (if bigKeys bt then rd16 keyPtr 0 else rd8 keyPtr 0);
     key \<leftarrow> rdn keyPtr (int (len_size bt)) rawKeyLength;
     node4 \<leftarrow> wrn node3 (indexOffset + int (len_size bt)) key;
     let padBytes = u16 (keySize - rawKeyLength);
     node5 \<leftarrow> (if padBytes \<noteq> 0 then mem_clear node4 (indexOffset + int (len_size bt) + rawKeyLength) padBytes else Some node4);
     bytes \<leftarrow> rdn recPtr 0 recSize;
     node6 \<leftarrow> wrn node5 (indexOffset + keySize) bytes;
     Some (True, node6) }"

lemma InsertKeyRecord_split:
  assumes wf: "node_wf bt node" and i: "index \<le> nrec node" and kl: "0 \<le> keyLength" "0 \<le> recSize"
    and fit: "key_size bt keyLength + recSize + 2 \<le> node_free bt node"
  shows "InsertKeyRecord bt node (int index) keyPtr keyLength recPtr recSize = do {
     node2 \<leftarrow> make_hole bt node (int index) (key_size bt keyLength + recSize);
     fill_record bt node2 (roff bt node index) (key_size bt keyLength) keyPtr keyLength recPtr recSize }"
proof -
  have b: "key_size bt keyLength < 32768" "keyLength + 2 < 32768" "key_size bt keyLength + recSize < 32768"
    using fit kl GetNodeFreeSize_wf(3) [OF wf] by (auto simp: key_size_def len_size_def split: if_splits)
  have ks: "(if M_IsOdd (if bigKeys bt then u16 (keyLength + 2) else u16 (keyLength + 1))
       then u16 ((if bigKeys bt then u16 (keyLength + 2) else u16 (keyLength + 1)) + 1)
       else if bigKeys bt then u16 (keyLength + 2) else u16 (keyLength + 1)) = key_size bt keyLength"
    using b kl by (simp add: key_size_def len_size_def)
  have "0 \<le> key_size bt keyLength" using kl by (simp add: key_size_def)
  moreover have "int index \<le> get16 node 10" using i by (simp add: nrec_def le_nat_iff)
  ultimately show ?thesis
    using wf fit b kl by (simp only: InsertKeyRecord_def Let_def ks)
      (simp add: mem_simps make_hole_def fill_record_def Let_def nrec_def len_size_def add.assoc cong: if_cong)
qed

lemma fill_record_run:
  assumes im: "in_mem node2 a (ks + recSize)" and k: "key_ok bt keyPtr keyLength"
    and r: "int (len_size bt) \<le> recSize" "recSize \<le> int (length recPtr)" and ks: "ks = key_size bt keyLength" "ks < 32768"
  shows "fill_record bt node2 a ks keyPtr keyLength recPtr recSize =
      Some (True, put_bytes node2 a (key_record bt keyLength (raw_key bt keyPtr) (bytes_at recPtr 0 recSize)))"
    "int (length (key_record bt keyLength (raw_key bt keyPtr) (bytes_at recPtr 0 recSize))) = ks + recSize"
proof -
  define raw where "raw = (if bigKeys bt then get16 keyPtr 0 else get8 keyPtr 0)"
  define L where "L = le_bytes (len_size bt) keyLength"
  have raw: "0 \<le> raw" "raw + int (len_size bt) \<le> ks" "in_mem keyPtr (int (len_size bt)) raw" "in_mem keyPtr 0 (int (len_size bt))"
    using k ks by (auto simp: raw_def key_ok_def key_size_def)
  have l: "length (raw_key bt keyPtr) = nat raw" "length (bytes_at recPtr 0 recSize) = nat recSize" "length L = len_size bt"
    using raw(3) r by (simp_all add: raw_key_def raw_def in_mem_def L_def)
  show "int (length (key_record bt keyLength (raw_key bt keyPtr) (bytes_at recPtr 0 recSize))) = ks + recSize"
    using raw l r by (simp add: key_record_def ks(1) [symmetric])
  have rd: "(if bigKeys bt then rd16 keyPtr 0 else rd8 keyPtr 0) = Some raw"
    using raw(4) by (simp add: raw_def len_size_def rd_in split: if_splits)
  have wr: "(if bigKeys bt then wr16 node2 a keyLength else wr8 node2 a keyLength) = Some (put_bytes node2 a L)"
    using im raw r by (auto simp: L_def len_size_def in_mem_def wr8_def wr16_def wrn_def split: if_splits)
  have u: "u16 (ks - raw) = ks - raw" "ks - raw \<noteq> 0" "raw \<le> ks" "0 \<le> recSize" using r raw ks(2) by (auto simp: len_size_def split: if_splits)
  have m: "in_mem node2 a (int (len_size bt))" "in_mem node2 (a + int (len_size bt)) raw"
    "in_mem node2 (a + int (len_size bt) + raw) (ks - raw)" "in_mem node2 (a + ks) recSize" "in_mem recPtr 0 recSize"
    using im raw r by (auto simp: in_mem_def)
  have "fill_record bt node2 a ks keyPtr keyLength recPtr recSize = Some (True,
      put_bytes (put_bytes (put_bytes (put_bytes node2 a L) (a + int (length L)) (raw_key bt keyPtr))
        (a + int (length L) + raw) (replicate (nat (ks - raw)) 0)) (a + ks) (bytes_at recPtr 0 recSize))"
    using m raw(1,3) l u by (simp add: fill_record_def rd wr mem_simps raw_key_def raw_def [symmetric])
  also have "\<dots> = Some (True, put_bytes node2 a (key_record bt keyLength (raw_key bt keyPtr) (bytes_at recPtr 0 recSize)))"
    using InsertKeyRecord_steps [of node2 a ks "bytes_at recPtr 0 recSize" L "raw_key bt keyPtr"] im l raw r
    by (simp add: key_record_def L_def [symmetric] ks(1) [symmetric] nat_diff_distrib)
  finally show "fill_record bt node2 a ks keyPtr keyLength recPtr recSize = \<dots>" .
qed

lemma InsertKeyRecord_run:
  assumes wf: "node_wf bt node" and i: "index \<le> nrec node" and k: "key_ok bt keyPtr keyLength"
    and r: "int (len_size bt) \<le> recSize" "recSize \<le> int (length recPtr)"
    and fit: "key_size bt keyLength + recSize + 2 \<le> node_free bt node"
  shows "\<exists>node'. InsertKeyRecord bt node (int index) keyPtr keyLength recPtr recSize = Some (True, node') \<and>
     node_wf bt node' \<and> same_desc node node' \<and> roff bt node' 0 = roff bt node 0 \<and>
     records bt node' = take index (records bt node) @
       [key_record bt keyLength (raw_key bt keyPtr) (bytes_at recPtr 0 recSize)] @ drop index (records bt node)"
proof -
  define ks where "ks = key_size bt keyLength"
  define rc where "rc = key_record bt keyLength (raw_key bt keyPtr) (bytes_at recPtr 0 recSize)"
  have kl: "0 \<le> keyLength" using k by (auto simp: key_ok_def intro: order_trans [OF get_bounds(1)] order_trans [OF get_bounds(3)] split: if_splits)
  then have ks: "0 \<le> ks" "0 \<le> recSize" "ks < 32768"
    using r fit GetNodeFreeSize_wf(3) [OF wf] by (auto simp: ks_def key_size_def)
  obtain node2 where h: "make_hole bt node (int index) (ks + recSize) = Some node2" "node_wf bt node2"
    "nrec node2 = Suc (nrec node)" "same_desc node node2" "roff bt node2 index = roff bt node index"
    "roff bt node2 (Suc index) = roff bt node index + (ks + recSize)"
    "records bt node2 = take index (records bt node) @ [record_at bt node2 index] @ drop index (records bt node)"
    "roff bt node2 0 = roff bt node 0"
    using make_hole_wf [OF wf i, of "ks + recSize"] ks fit unfolding ks_def by auto
  have i2: "index < nrec node2" using i h(3) by simp
  have im: "in_mem node2 (roff bt node index) (ks + recSize)"
    using record_in_mem(1) [OF h(2) i2] h(5,6) by simp
  note fr = fill_record_run [OF im k r ks_def ks(3), folded rc_def]
  define node6 where "node6 = put_bytes node2 (roff bt node2 index) rc"
  have "InsertKeyRecord bt node (int index) keyPtr keyLength recPtr recSize = Some (True, node6)"
    using InsertKeyRecord_split [OF wf i kl ks(2) fit, folded ks_def] h(1,5) fr(1) by (simp add: node6_def)
  moreover have so: "same_outside node2 node6 (roff bt node2 index) (roff bt node2 (Suc index))" "record_at bt node6 index = rc"
    using same_outside_record [OF h(2) i2, of rc] h(5,6) fr(2) by (auto simp: node6_def)
  note ch = change_record [OF h(2) i2 so(1)]
  ultimately show ?thesis
    using ch h i so(2) same_desc_trans [OF h(4) ch(3)] by (auto simp: rc_def list_update_append)
qed

lemma InsertKeyRecord_full:
  assumes "node_wf bt node" "0 \<le> keyLength" "keyLength < 65533" "node_free bt node < key_size bt keyLength + recSize + 2"
  shows "InsertKeyRecord bt node index keyPtr keyLength recPtr recSize = Some (False, node)"
proof -
  have ks: "(if M_IsOdd (if bigKeys bt then u16 (keyLength + 2) else u16 (keyLength + 1))
       then u16 ((if bigKeys bt then u16 (keyLength + 2) else u16 (keyLength + 1)) + 1)
       else if bigKeys bt then u16 (keyLength + 2) else u16 (keyLength + 1)) = key_size bt keyLength"
    using assms(2,3) by (simp add: key_size_def len_size_def)
  show ?thesis using assms by (simp only: InsertKeyRecord_def Let_def ks) (simp add: mem_simps)
qed
section \<open>Search by key\<close>

definition key_at :: "BTreeControlBlock \<Rightarrow> mem \<Rightarrow> nat \<Rightarrow> mem" where
  "key_at bt node i = drop (nat (roff bt node i)) node"

text \<open>The keys of a node are valid and strictly ascending.\<close>

definition keys_sorted :: "(mem \<Rightarrow> bool) \<Rightarrow> (mem \<Rightarrow> 'k :: linorder) \<Rightarrow> BTreeControlBlock \<Rightarrow> mem \<Rightarrow> bool" where
  "keys_sorted valid_key key_val bt node \<longleftrightarrow> (\<forall>i<nrec node. valid_key (key_at bt node i)) \<and>
     (\<forall>i<nrec node. \<forall>j<nrec node. i < j \<longrightarrow> key_val (key_at bt node i) < key_val (key_at bt node j))"

text \<open>What a search for \<open>sk\<close> must return: the matching record, or the place where its record belongs.\<close>

definition search_result :: "(mem \<Rightarrow> 'k :: linorder) \<Rightarrow> BTreeControlBlock \<Rightarrow> mem \<Rightarrow> mem \<Rightarrow> bool \<times> int \<Rightarrow> bool" where
  "search_result key_val bt node sk r \<longleftrightarrow> (case r of (found, index) \<Rightarrow>
     0 \<le> index \<and>
     (if found then index < int (nrec node) \<and> key_val (key_at bt node (nat index)) = key_val sk
      else index \<le> int (nrec node) \<and>
        (\<forall>i<nat index. key_val (key_at bt node i) < key_val sk) \<and>
        (\<forall>i<nrec node. nat index \<le> i \<longrightarrow> key_val sk < key_val (key_at bt node i))))"

text \<open>
  The interface between the tree and the key comparison routine that its owner installs
  (\<open>keyCompareProc\<close>): on valid keys the sign of the result is the order of the values of the keys.
  A key argument is a buffer that starts with the key.
\<close>

locale key_order =
  fixes cmp :: "mem \<Rightarrow> mem \<Rightarrow> int option"
    and valid_key :: "mem \<Rightarrow> bool"
    and key_val :: "mem \<Rightarrow> 'k :: linorder"
  assumes cmp_total: "valid_key a \<Longrightarrow> valid_key b \<Longrightarrow> \<exists>r. cmp a b = Some r"
    and cmp_less: "valid_key a \<Longrightarrow> valid_key b \<Longrightarrow> cmp a b = Some r \<Longrightarrow> r < 0 \<longleftrightarrow> key_val a < key_val b"
    and cmp_greater: "valid_key a \<Longrightarrow> valid_key b \<Longrightarrow> cmp a b = Some r \<Longrightarrow> 0 < r \<longleftrightarrow> key_val b < key_val a"
begin

lemma keys_sortedD:
  assumes "keys_sorted valid_key key_val bt node"
  shows "i < nrec node \<Longrightarrow> valid_key (key_at bt node i)"
    and "i < j \<Longrightarrow> j < nrec node \<Longrightarrow> key_val (key_at bt node i) < key_val (key_at bt node j)"
  using assms unfolding keys_sorted_def by (blast, meson less_trans)

lemma keys_sorted_le:
  "keys_sorted valid_key key_val bt node \<Longrightarrow> i \<le> j \<Longrightarrow> j < nrec node \<Longrightarrow> key_val (key_at bt node i) \<le> key_val (key_at bt node j)"
  using keys_sortedD(2) [of bt node i j] by (cases "i = j") auto

lemma SearchNode_loop_correct:
  assumes wf: "node_wf bt node" and ks: "keys_sorted valid_key key_val bt node" and sk: "valid_key sk"
    and b: "0 \<le> lower" "upper < int (nrec node)" "lower \<le> upper + 1"
    and below: "\<forall>i<nat lower. key_val (key_at bt node i) < key_val sk"
    and above: "\<forall>i<nrec node. upper < int i \<longrightarrow> key_val sk < key_val (key_at bt node i)"
  shows "\<exists>r. SearchNode_loop cmp bt node sk lower upper = Some r \<and> search_result key_val bt node sk r"
  using b below above
proof (induction "nat (upper - lower + 1)" arbitrary: lower upper rule: less_induct)
  case less
  have n: "int (nrec node) < 65536" using get_bounds(4) [of node 10] by simp
  show ?case
  proof (cases "lower \<le> upper")
    case False
    then have "lower = upper + 1" using less.prems by simp
    moreover from this have "u16 lower = lower" using less.prems n by (intro u16_id) linarith+
    ultimately show ?thesis
      using less.prems by (subst SearchNode_loop.simps) (auto simp: search_result_def nat_le_iff)
  next
    case True
    define mid where "mid = (lower + upper) div 2"
    have mid: "lower \<le> mid" "mid \<le> upper" "0 \<le> mid" using True less.prems(1) by (auto simp: mid_def)
    then have mn: "nat mid < nrec node" using less.prems(2) by linarith
    have off: "rd16 node (nodeSize bt - 2 - mid * 2) = Some (roff bt node (nat mid))"
      using offset_in_mem [OF wf, of "nat mid"] mn mid by (simp add: rd_in roff_def algebra_simps)
    obtain r where r: "cmp sk (key_at bt node (nat mid)) = Some r"
      using cmp_total [OF sk keys_sortedD(1) [OF ks mn]] by blast
    note lt = cmp_less [OF sk keys_sortedD(1) [OF ks mn] r] and gt = cmp_greater [OF sk keys_sortedD(1) [OF ks mn] r]
    have step: "SearchNode_loop cmp bt node sk lower upper =
        (if r < 0 then SearchNode_loop cmp bt node sk lower (mid - 1)
         else if r > 0 then SearchNode_loop cmp bt node sk (mid + 1) upper else Some (True, u16 mid))"
      using True off r by (subst SearchNode_loop.simps) (simp add: mid_def [symmetric] key_at_def)
    consider "r < 0" | "0 < r" | "r = 0" by linarith
    then show ?thesis
    proof cases
      case 1
      have "key_val sk < key_val (key_at bt node i)" if "i < nrec node" "mid - 1 < int i" for i
        using keys_sorted_le [OF ks, of "nat mid" i] that lt 1 by fastforce
      with 1 step less.hyps [of "mid - 1" lower] less.prems mid show ?thesis by simp
    next
      case 2
      have "key_val (key_at bt node i) < key_val sk" if "i < nat (mid + 1)" for i
        using keys_sorted_le [OF ks, of i "nat mid"] that gt 2 mn mid by fastforce
      with 2 step less.hyps [of upper "mid + 1"] less.prems mid show ?thesis by simp
    next
      case 3
      then have "key_val (key_at bt node (nat mid)) = key_val sk" using lt gt by simp
      then show ?thesis using 3 step mid less.prems(2) n by (simp add: search_result_def)
    qed
  qed
qed

theorem SearchNode_correct:
  assumes "node_wf bt node" "keys_sorted valid_key key_val bt node" "valid_key sk"
  shows "\<exists>r. SearchNode cmp bt node sk = Some r \<and> search_result key_val bt node sk r"
proof -
  have "\<forall>i<nrec node. get16 node 10 - 1 < int i \<longrightarrow> key_val sk < key_val (key_at bt node i)"
    by (simp add: nrec_def nat_less_iff zless_nat_eq_int_zless)
  then show ?thesis
    using SearchNode_loop_correct [OF assms, of 0 "get16 node 10 - 1"] assms(1)
    by (simp add: SearchNode_def mem_simps)
qed

end
section \<open>The node as a list of records\<close>

text \<open>
  What the users of a node rely on: records are inserted and deleted at an index, and the free space
  shrinks and grows by the size of the record and of its offset.  \<open>enc\<close> gives the bytes a record
  takes in the node.
\<close>

locale node_records =
  fixes wf :: "mem \<Rightarrow> bool"
    and recs :: "mem \<Rightarrow> mem list"
    and free :: "mem \<Rightarrow> int"
    and ok :: "'r \<Rightarrow> bool"
    and enc :: "'r \<Rightarrow> mem"
    and ins :: "mem \<Rightarrow> nat \<Rightarrow> 'r \<Rightarrow> mem option"
    and del :: "mem \<Rightarrow> nat \<Rightarrow> mem option"
  assumes insert_ok: "wf n \<Longrightarrow> i \<le> length (recs n) \<Longrightarrow> ok r \<Longrightarrow> int (length (enc r)) + 2 \<le> free n \<Longrightarrow>
      \<exists>n'. ins n i r = Some n' \<and> wf n' \<and> recs n' = take i (recs n) @ [enc r] @ drop i (recs n) \<and>
        free n' = free n - int (length (enc r)) - 2"
    and delete_ok: "wf n \<Longrightarrow> i < length (recs n) \<Longrightarrow>
      \<exists>n'. del n i = Some n' \<and> wf n' \<and> recs n' = take i (recs n) @ drop (Suc i) (recs n) \<and>
        free n' = free n + int (length (recs n ! i)) + 2"
begin

lemma replace_ok:
  assumes "wf n" "i < length (recs n)" "ok r" "int (length (enc r)) \<le> free n + int (length (recs n ! i))"
  shows "\<exists>n1 n2. del n i = Some n1 \<and> ins n1 i r = Some n2 \<and> wf n2 \<and> recs n2 = (recs n)[i := enc r] \<and>
    free n1 = free n + int (length (recs n ! i)) + 2 \<and> wf n1 \<and> length (recs n1) = length (recs n) - 1 \<and>
    free n2 = free n + int (length (recs n ! i)) - int (length (enc r))"
proof -
  obtain n1 where n1: "del n i = Some n1" "wf n1" "recs n1 = take i (recs n) @ drop (Suc i) (recs n)"
    "free n1 = free n + int (length (recs n ! i)) + 2"
    using delete_ok [OF assms(1,2)] by blast
  have "i \<le> length (recs n1)" "int (length (enc r)) + 2 \<le> free n1" using n1 assms by auto
  from insert_ok [OF n1(2) this(1) assms(3) this(2)] n1 assms(2) show ?thesis
    by (auto simp: upd_conv_take_nth_drop min_def)
qed

lemma insert_delete:
  assumes "wf n" "i \<le> length (recs n)" "ok r" "int (length (enc r)) + 2 \<le> free n"
  shows "\<exists>n1 n2. ins n i r = Some n1 \<and> del n1 i = Some n2 \<and> wf n2 \<and> recs n2 = recs n \<and> free n2 = free n"
proof -
  obtain n1 where n1: "ins n i r = Some n1" "wf n1" "recs n1 = take i (recs n) @ [enc r] @ drop i (recs n)"
    "free n1 = free n - int (length (enc r)) - 2"
    using insert_ok [OF assms] by blast
  have "i < length (recs n1)" using n1 assms(2) by simp
  from delete_ok [OF n1(2) this] n1 assms(2) show ?thesis by (auto simp: nth_append)
qed

end

lemma roff_sum:
  assumes wf: "node_wf bt node" and "i \<le> nrec node"
  shows "roff bt node i = roff bt node 0 + int (sum_list (map length (take i (records bt node))))"
  using assms(2)
proof (induction i)
  case (Suc i)
  then have "take (Suc i) (records bt node) = take i (records bt node) @ [record_at bt node i]"
    by (simp add: take_Suc_conv_app_nth records_def)
  then show ?case using Suc length_record_at [OF wf, of i] by simp
qed simp

lemma node_free_sum:
  assumes "node_wf bt node"
  shows "node_free bt node = nodeSize bt - 2 - roff bt node 0 - int (sum_list (map (\<lambda>r. length r + 2) (records bt node)))"
proof -
  have "sum_list (map (\<lambda>r. length r + 2) rs) = sum_list (map length rs) + 2 * length rs" for rs :: "mem list"
    by (induction rs) auto
  then show ?thesis using roff_sum [OF assms le_refl] by (simp add: node_free_def)
qed

definition ins_record :: "BTreeControlBlock \<Rightarrow> mem \<Rightarrow> nat \<Rightarrow> mem \<Rightarrow> mem option" where
  "ins_record bt node i r = (case InsertRecord bt node (int i) r (int (length r)) of
     Some (True, node') \<Rightarrow> Some node' | _ \<Rightarrow> None)"

definition ins_key_record :: "BTreeControlBlock \<Rightarrow> mem \<Rightarrow> nat \<Rightarrow> mem \<times> mem \<Rightarrow> mem option" where
  "ins_key_record bt node i r = (case r of (key, data) \<Rightarrow>
     case KeyLength bt key 0 of None \<Rightarrow> None | Some keyLength \<Rightarrow>
     case InsertKeyRecord bt node (int i) key keyLength data (int (length data)) of
       Some (True, node') \<Rightarrow> Some node' | _ \<Rightarrow> None)"

definition key_len :: "BTreeControlBlock \<Rightarrow> mem \<Rightarrow> int" where
  "key_len bt key = (if bigKeys bt then get16 key 0 else get8 key 0)"

definition enc_key_record :: "BTreeControlBlock \<Rightarrow> mem \<times> mem \<Rightarrow> mem" where
  "enc_key_record bt r = (case r of (key, data) \<Rightarrow> key_record bt (key_len bt key) (raw_key bt key) data)"

definition ok_key_record :: "BTreeControlBlock \<Rightarrow> mem \<times> mem \<Rightarrow> bool" where
  "ok_key_record bt r \<longleftrightarrow> (case r of (key, data) \<Rightarrow> key_ok bt key (key_len bt key) \<and> len_size bt \<le> length data)"

lemma length_key_record:
  assumes "key_ok bt key keyLength"
  shows "int (length (key_record bt keyLength (raw_key bt key) data)) = key_size bt keyLength + int (length data)"
proof -
  have "length (raw_key bt key) = nat (key_len bt key)" "0 \<le> key_len bt key" "key_len bt key \<le> keyLength"
    using assms by (auto simp: key_ok_def raw_key_def key_len_def)
  then show ?thesis by (simp add: key_record_def key_size_def)
qed

lemma KeyLength_ok: "key_ok bt key kl \<Longrightarrow> KeyLength bt key 0 = Some (key_len bt key)"
  by (auto simp: key_ok_def KeyLength_def key_len_def len_size_def rd_in split: if_splits)

lemma delete_free:
  assumes "node_wf bt n" "i < length (records bt n)"
  shows "\<exists>n'. DeleteRecord bt n (int i) = Some n' \<and> node_wf bt n' \<and>
    records bt n' = take i (records bt n) @ drop (Suc i) (records bt n) \<and>
    node_free bt n' = node_free bt n + int (length (records bt n ! i)) + 2"
proof -
  obtain n' where n': "DeleteRecord bt n (int i) = Some n'" "node_wf bt n'" "roff bt n' 0 = roff bt n 0"
    "records bt n' = take i (records bt n) @ drop (Suc i) (records bt n)"
    using DeleteRecord_run [OF assms(1), of i] assms(2) by auto
  have "sum_list (map (\<lambda>r. length r + 2) (records bt n)) =
      sum_list (map (\<lambda>r. length r + 2) (records bt n')) + length (records bt n ! i) + 2"
    by (subst id_take_nth_drop [OF assms(2)]) (simp add: n'(4))
  then show ?thesis using n' node_free_sum [OF assms(1)] node_free_sum [OF n'(2)] by auto
qed

lemma insert_free:
  assumes "node_wf bt n" "node_wf bt n'" "roff bt n' 0 = roff bt n 0"
    "records bt n' = take i (records bt n) @ [r] @ drop i (records bt n)"
  shows "node_free bt n' = node_free bt n - int (length r) - 2"
proof -
  have "sum_list (map (\<lambda>r. length r + 2) (records bt n)) =
      sum_list (map (\<lambda>r. length r + 2) (take i (records bt n))) + sum_list (map (\<lambda>r. length r + 2) (drop i (records bt n)))"
    by (metis append_take_drop_id map_append sum_list_append)
  then show ?thesis using node_free_sum [OF assms(1)] node_free_sum [OF assms(2)] assms(3,4) by simp
qed

interpretation plain: node_records "node_wf bt" "records bt" "node_free bt" "\<lambda>r. True" "\<lambda>r. r" "ins_record bt"
    "\<lambda>n i. DeleteRecord bt n (int i)" for bt
proof
  fix n i r assume a: "node_wf bt n" "i \<le> length (records bt n)" "int (length (r :: mem)) + 2 \<le> node_free bt n"
  then obtain n' where "InsertRecord bt n (int i) r (int (length r)) = Some (True, n')" "node_wf bt n'"
    "roff bt n' 0 = roff bt n 0" "records bt n' = take i (records bt n) @ [r] @ drop i (records bt n)"
    using InsertRecord_run [of bt n i "int (length r)" r] by (auto simp: bytes_at_def)
  with insert_free [OF a(1) this(2-4)] show "\<exists>n'. ins_record bt n i r = Some n' \<and> node_wf bt n' \<and>
      records bt n' = take i (records bt n) @ [r] @ drop i (records bt n) \<and>
      node_free bt n' = node_free bt n - int (length r) - 2"
    by (auto simp: ins_record_def)
qed (rule delete_free)

interpretation keyed: node_records "node_wf bt" "records bt" "node_free bt" "ok_key_record bt" "enc_key_record bt"
    "ins_key_record bt" "\<lambda>n i. DeleteRecord bt n (int i)" for bt
proof
  fix n i r assume a: "node_wf bt n" "i \<le> length (records bt n)" "ok_key_record bt r"
    "int (length (enc_key_record bt r)) + 2 \<le> node_free bt n"
  obtain key data where r: "r = (key, data)" by force
  have k: "key_ok bt key (key_len bt key)" "int (len_size bt) \<le> int (length data)"
    using a(3) by (auto simp: ok_key_record_def r)
  obtain n' where n': "InsertKeyRecord bt n (int i) key (key_len bt key) data (int (length data)) = Some (True, n')"
    "node_wf bt n'" "roff bt n' 0 = roff bt n 0"
    "records bt n' = take i (records bt n) @ [enc_key_record bt r] @ drop i (records bt n)"
    using InsertKeyRecord_run [OF a(1) _ k(1,2), of i data] a(2,4) length_key_record [OF k(1), of data]
    by (auto simp: bytes_at_def r enc_key_record_def)
  with insert_free [OF a(1) this(2-4)] KeyLength_ok [OF k(1)]
  show "\<exists>n'. ins_key_record bt n i r = Some n' \<and> node_wf bt n' \<and>
      records bt n' = take i (records bt n) @ [enc_key_record bt r] @ drop i (records bt n) \<and>
      node_free bt n' = node_free bt n - int (length (enc_key_record bt r)) - 2"
    by (auto simp: ins_key_record_def r)
qed (rule delete_free)
section \<open>Reading a record back\<close>

lemma GetRecordByIndex_beyond:
  "node_wf bt node \<Longrightarrow> get16 node 10 \<le> index \<Longrightarrow> GetRecordByIndex bt node index = Some (Inl fsBTRecordNotFoundErr)"
  by (simp add: GetRecordByIndex_def mem_simps)

lemma bytes_at_append:
  "bytes_at (xs @ ys) (int (length xs)) (int (length ys)) = ys"
  "n = int (length xs) \<Longrightarrow> bytes_at (xs @ ys) 0 n = xs"
  by (simp_all add: bytes_at_def)

lemma bytes_at_append3: "a = int (length xs) \<Longrightarrow> n = int (length ys) \<Longrightarrow> bytes_at (xs @ ys @ zs) a n = ys"
  by (simp add: bytes_at_def)

lemma record_slice:
  assumes "node_wf bt node" "i < nrec node" "0 \<le> a" "0 \<le> n" "a + n \<le> int (length (record_at bt node i))"
  shows "bytes_at node (roff bt node i + a) n = bytes_at (record_at bt node i) a n"
    "in_mem node (roff bt node i + a) n"
  using record_in_mem [OF assms(1,2)] length_record_at [OF assms(1,2)] assms(3-5)
  by (auto simp: record_at_def slice_slice in_mem_def)

lemma GetRecordByIndex_key_record:
  assumes wf: "node_wf bt node" and i: "i < nrec node"
    and r: "record_at bt node i = key_record bt kl key data" and kl: "int (length key) \<le> kl" "kl < 256 ^ len_size bt"
  shows "GetRecordByIndex bt node (int i) =
      Some (Inr (roff bt node i, roff bt node i + key_size bt kl, int (length data)))"
    "bytes_at node (roff bt node i + int (len_size bt)) (int (length key)) = key"
    "bytes_at node (roff bt node i + key_size bt kl) (int (length data)) = data"
proof -
  define a where "a = roff bt node i"
  have kl0: "0 \<le> kl" using kl(1) by simp
  have ks: "int (len_size bt) + int (length key) \<le> key_size bt kl" "0 \<le> key_size bt kl" using kl kl0 by (simp_all add: key_size_def)
  have len: "int (length (record_at bt node i)) = key_size bt kl + int (length data)"
    using ks by (simp add: r key_record_def)
  have nx: "roff bt node (Suc i) = a + key_size bt kl + int (length data)"
    using length_record_at [OF wf i] len by (simp add: a_def)
  have "bytes_at node (a + 0) (int (len_size bt)) = le_bytes (len_size bt) kl" and im: "in_mem node (a + 0) (int (len_size bt))"
    using record_slice [OF wf i, of 0 "int (len_size bt)"] len ks by (simp_all add: a_def r key_record_def bytes_at_append)
  then have "KeyLength bt node a = Some kl"
    using kl kl0 by (cases "bigKeys bt")
      (simp_all add: KeyLength_def len_size_def rd_in get_defs le_val_bytes del: le_bytes.simps One_nat_def)
  then have cs: "CalcKeySize bt node a = Some (kl + int (len_size bt))"
    by (auto simp: CalcKeySize_def KeyLength_def len_size_def)
  have b: "a + key_size bt kl + int (length data) < 32768" "0 \<le> a" 
    using roff_range(3) [OF wf, of "Suc i"] nx i by (auto simp: a_def)
  then have "u16 (kl + int (len_size bt)) = kl + int (len_size bt)" "u16 (a + key_size bt kl) = a + key_size bt kl"
    "u16 (key_size bt kl) = key_size bt kl"
    using kl0 ks(2) by (auto simp: key_size_def intro!: u16_id split: if_splits)
  then have pad: "(if odd (u16 (kl + int (len_size bt))) then u16 (u16 (kl + int (len_size bt)) + 1) else u16 (kl + int (len_size bt))) = key_size bt kl"
    by (simp add: key_size_def split: if_splits)
  have "u16 a = a" "u16 (a + key_size bt kl + int (length data)) = a + key_size bt kl + int (length data)"
    "u16 (int (length data)) = int (length data)"
    using b ks(2) by (auto intro!: u16_id)
  moreover have "int i < get16 node 10" using i int_nrec [of node] by linarith
  ultimately show "GetRecordByIndex bt node (int i) = Some (Inr (roff bt node i, roff bt node i + key_size bt kl, int (length data)))"
    using wf cs b nx pad \<open>u16 (a + key_size bt kl) = a + key_size bt kl\<close>
    by (simp add: GetRecordByIndex_def mem_simps a_def [symmetric] nat_add_distrib Let_def)
  show "bytes_at node (roff bt node i + int (len_size bt)) (int (length key)) = key"
    using record_slice(1) [OF wf i, of "int (len_size bt)" "int (length key)"] len ks
    by (simp add: r key_record_def bytes_at_append3)
  have "bytes_at (key_record bt kl key data) (key_size bt kl) (int (length data)) = data"
    using ks by (simp add: key_record_def bytes_at_def)
  then show "bytes_at node (roff bt node i + key_size bt kl) (int (length data)) = data"
    using record_slice(1) [OF wf i, of "key_size bt kl" "int (length data)"] len ks by (simp add: r)
qed

section \<open>Properties\<close>

text \<open>A small leaf node with two records, on which the properties are evaluated.\<close>

definition ex_bt :: BTreeControlBlock where
  "ex_bt = \<lparr> keyCompareType = 0, btreeType = 0, treeDepth = 1, rootNode = 1, leafRecords = 2,
     firstLeafNode = 1, lastLeafNode = 1, nodeSize = 64, maxKeyLength = 10, totalNodes = 4, freeNodes = 2,
     flags = 0, attributes = 2, writeCount = 0, numGetNodes = 0, numGetNewNodes = 0, numReleaseNodes = 0,
     numUpdateNodes = 0, numMapNodesRead = 0, numHintChecks = 0, numPossibleHints = 0, numValidHints = 0,
     reservedNodes = 0 \<rparr>"

definition ex_node :: mem where
  "ex_node = [0,0,0,0, 0,0,0,0, 255,1, 2,0, 0,0] @ [2,0,7,0, 1,1] @ [2,0,9,0, 2,2,2,2] @ replicate 30 0 @ [28,0, 20,0, 14,0]"

lemma ex_node_wf: "node_wf ex_bt ex_node" "nrec ex_node = 2" "node_free ex_bt ex_node = 30"
  "records ex_bt ex_node = [[2,0,7,0,1,1], [2,0,9,0,2,2,2,2]]"
  by code_simp+

text \<open>C7: \<open>InsertRecord\<close> on a well-formed node makes no access outside of the node; it refuses a record for which
  there is no room and leaves the node as it was; otherwise the node stays well formed, the new record is at
  the index, the records before and after it are unchanged, and the rest of the descriptor is kept.\<close>

theorem InsertRecord_correct:
  assumes "node_wf bt node" "index \<le> nrec node" "0 \<le> recSize" "recSize \<le> int (length recPtr)"
  shows "if node_free bt node < recSize + 2
         then InsertRecord bt node (int index) recPtr recSize = Some (False, node)
         else \<exists>node'. InsertRecord bt node (int index) recPtr recSize = Some (True, node') \<and>
           node_wf bt node' \<and> same_desc node node' \<and>
           records bt node' = take index (records bt node) @ [bytes_at recPtr 0 recSize] @ drop index (records bt node)"
  using InsertRecord_full [OF assms(1)] InsertRecord_run [OF assms(1,2) _ assms(3,4)] by auto

theorem InsertRecord_correct_witness:
  "\<exists>node'. InsertRecord ex_bt ex_node 1 [2,0,8,0] 4 = Some (True, node') \<and> node_wf ex_bt node' \<and>
     records ex_bt node' = [[2,0,7,0,1,1], [2,0,8,0], [2,0,9,0,2,2,2,2]]"
  using InsertRecord_correct [OF ex_node_wf(1), of 1 4 "[2,0,8,0]"] by (auto simp: ex_node_wf bytes_at_def)

text \<open>\<open>InsertKeyRecord\<close> stores the length field, the key, zero padding and the data as one record at the
  index, provided the key is no longer than the length it is stored with and the data is at least as long as
  the length field; the other records are unchanged.  Without room the node is left as it was.\<close>

theorem InsertKeyRecord_correct:
  assumes "node_wf bt node" "index \<le> nrec node" "key_ok bt keyPtr keyLength" "keyLength < 65533"
    "int (len_size bt) \<le> recSize" "recSize \<le> int (length recPtr)"
  shows "if node_free bt node < key_size bt keyLength + recSize + 2
         then InsertKeyRecord bt node (int index) keyPtr keyLength recPtr recSize = Some (False, node)
         else \<exists>node'. InsertKeyRecord bt node (int index) keyPtr keyLength recPtr recSize = Some (True, node') \<and>
           node_wf bt node' \<and> same_desc node node' \<and>
           records bt node' = take index (records bt node) @
             [key_record bt keyLength (raw_key bt keyPtr) (bytes_at recPtr 0 recSize)] @ drop index (records bt node)"
proof -
  have "0 \<le> keyLength" using assms(3)
    by (auto simp: key_ok_def intro: order_trans [OF get_bounds(1)] order_trans [OF get_bounds(3)] split: if_splits)
  then show ?thesis
    using InsertKeyRecord_full [OF assms(1) _ assms(4)] InsertKeyRecord_run [OF assms(1-3,5,6)] by auto
qed

theorem InsertKeyRecord_correct_witness:
  "\<exists>node'. InsertKeyRecord ex_bt ex_node 2 [1,0,11] 3 [5,6,7,8] 4 = Some (True, node') \<and> node_wf ex_bt node' \<and>
     records ex_bt node' = [[2,0,7,0,1,1], [2,0,9,0,2,2,2,2], [3,0,11,0,0,0,5,6,7,8]]"
proof -
  have "key_ok ex_bt [1,0,11] 3" "int (len_size ex_bt) \<le> 4" "\<not> node_free ex_bt ex_node < key_size ex_bt 3 + 4 + 2"
    "key_record ex_bt 3 (raw_key ex_bt [1,0,11]) (bytes_at [5,6,7,8] 0 4) = [3,0,11,0,0,0,5,6,7,8]"
    by code_simp+
  with InsertKeyRecord_correct [OF ex_node_wf(1), of 2 "[1,0,11]" 3 4 "[5,6,7,8]"] show ?thesis
    by (auto simp: ex_node_wf)
qed


text \<open>C14: \<open>DeleteRecord\<close> removes exactly the record at the index, without an access outside of the node; the node
  stays well formed and the free space grows by the record and its offset.\<close>

theorem DeleteRecord_correct:
  assumes "node_wf bt node" "index < nrec node"
  shows "\<exists>node'. DeleteRecord bt node (int index) = Some node' \<and> node_wf bt node' \<and>
     records bt node' = take index (records bt node) @ drop (Suc index) (records bt node) \<and>
     node_free bt node' = node_free bt node + int (length (records bt node ! index)) + 2"
  using plain.delete_ok [of bt node index] assms by simp

theorem DeleteRecord_correct_witness:
  "\<exists>node'. DeleteRecord ex_bt ex_node 0 = Some node' \<and> node_wf ex_bt node' \<and>
     records ex_bt node' = [[2,0,9,0,2,2,2,2]] \<and> node_free ex_bt node' = 38"
  using DeleteRecord_correct [OF ex_node_wf(1), of 0] by (simp add: ex_node_wf)

text \<open>A record that was inserted and is deleted again leaves the records and the free space as they were.\<close>

theorem insert_then_delete:
  assumes "node_wf bt node" "index \<le> nrec node" "int (length r) + 2 \<le> node_free bt node"
  shows "\<exists>node1 node2. InsertRecord bt node (int index) r (int (length r)) = Some (True, node1) \<and>
     DeleteRecord bt node1 (int index) = Some node2 \<and> node_wf bt node2 \<and>
     records bt node2 = records bt node \<and> node_free bt node2 = node_free bt node"
  using plain.insert_delete [of bt node index r] assms
  by (auto simp: ins_record_def split: option.splits bool.splits)

theorem insert_then_delete_witness:
  "\<exists>node1 node2. InsertRecord ex_bt ex_node 1 [2,0,8,0] 4 = Some (True, node1) \<and>
     DeleteRecord ex_bt node1 1 = Some node2 \<and> records ex_bt node2 = [[2,0,7,0,1,1], [2,0,9,0,2,2,2,2]]"
  using insert_then_delete [OF ex_node_wf(1), of 1 "[2,0,8,0]"] by (auto simp: ex_node_wf)

text \<open>What \<open>InsertKeyRecord\<close> stores, \<open>GetRecordByIndex\<close> finds: the address of the record, and the address and
  the size of the data, which are the data bytes that were inserted.\<close>

theorem InsertKeyRecord_GetRecordByIndex:
  assumes "node_wf bt node" "index \<le> nrec node" "key_ok bt keyPtr keyLength" "keyLength < 256 ^ len_size bt"
    "int (len_size bt) \<le> recSize" "recSize \<le> int (length recPtr)"
    "key_size bt keyLength + recSize + 2 \<le> node_free bt node"
  shows "\<exists>node' keyAddr dataAddr. InsertKeyRecord bt node (int index) keyPtr keyLength recPtr recSize = Some (True, node') \<and>
     GetRecordByIndex bt node' (int index) = Some (Inr (keyAddr, dataAddr, recSize)) \<and>
     bytes_at node' (keyAddr + int (len_size bt)) (int (length (raw_key bt keyPtr))) = raw_key bt keyPtr \<and>
     bytes_at node' dataAddr recSize = bytes_at recPtr 0 recSize"
proof -
  obtain node' where n: "InsertKeyRecord bt node (int index) keyPtr keyLength recPtr recSize = Some (True, node')"
    "node_wf bt node'" "records bt node' = take index (records bt node) @
       [key_record bt keyLength (raw_key bt keyPtr) (bytes_at recPtr 0 recSize)] @ drop index (records bt node)"
    using InsertKeyRecord_run [OF assms(1-3,5-7)] by blast
  have i: "index < nrec node'" using arg_cong [OF n(3), of length] assms(2) by simp
  have "record_at bt node' index = records bt node' ! index" using i by (simp add: records_def)
  then have "record_at bt node' index = key_record bt keyLength (raw_key bt keyPtr) (bytes_at recPtr 0 recSize)"
    using n(3) assms(2) by (simp add: nth_append)
  moreover have "int (length (raw_key bt keyPtr)) \<le> keyLength" "int (length (bytes_at recPtr 0 recSize)) = recSize"
    using assms(3,5,6) by (auto simp: key_ok_def raw_key_def in_mem_def)
  ultimately show ?thesis
    using GetRecordByIndex_key_record [OF n(2) i, of keyLength "raw_key bt keyPtr" "bytes_at recPtr 0 recSize"] assms(4) n(1)
    by (intro exI [of _ node'] exI [of _ "roff bt node' index"] exI [of _ "roff bt node' index + key_size bt keyLength"]) simp
qed

theorem InsertKeyRecord_GetRecordByIndex_witness:
  "\<exists>node' keyAddr dataAddr. InsertKeyRecord ex_bt ex_node 2 [1,0,11] 3 [5,6,7,8] 4 = Some (True, node') \<and>
     GetRecordByIndex ex_bt node' 2 = Some (Inr (keyAddr, dataAddr, 4)) \<and> bytes_at node' dataAddr 4 = [5,6,7,8]"
proof -
  have k: "key_ok ex_bt [1,0,11] 3" "int (len_size ex_bt) \<le> 4" "key_size ex_bt 3 + 4 + 2 \<le> node_free ex_bt ex_node"
    "3 < (256 :: int) ^ len_size ex_bt"
    by code_simp+
  then have "\<exists>node' keyAddr dataAddr. InsertKeyRecord ex_bt ex_node (int 2) [1,0,11] 3 [5,6,7,8] 4 = Some (True, node') \<and>
     GetRecordByIndex ex_bt node' (int 2) = Some (Inr (keyAddr, dataAddr, 4)) \<and> bytes_at node' dataAddr 4 = bytes_at [5,6,7,8] 0 4"
    using InsertKeyRecord_GetRecordByIndex [OF ex_node_wf(1), of 2 "[1,0,11]" 3 4 "[5,6,7,8]"]
    by (auto simp: ex_node_wf)
  then show ?thesis by (simp add: bytes_at_def)
qed


end
