(* ===== verification/HfsEndian.thy ===== *)
theory HfsEndian
  imports BTreeNodeOps
begin

text \<open>
  Byte order and sanity checks of B-tree nodes, \<open>src/kmod/core/hfs_endian.c\<close>.

  Every node that is read from disk goes through \<open>hfs_swap_BTNode\<close>, which converts the descriptor, the
  record offsets and the records to the byte order of the host and rejects a node that is not well
  formed; every node that is written goes through it in the other direction.  The buffer is a
  \<^typ>\<open>mem\<close>; the result is \<^term>\<open>None\<close> for an access outside of the buffer, an error value (a kernel panic
  when the node comes from memory), or the swapped node.  The contents of the buffer after an error
  are not represented: the callers discard such a node.
\<close>

section \<open>Swapping fields\<close>

datatype HFSBTSwapDirection = kSwapBTNodeBigToHost | kSwapBTNodeHostToBig | kSwapBTNodeHeaderRecordOnly

datatype swap_err = SwapErr bt_err | SwapPanic

type_synonym swap_result = "(swap_err + mem) option"

text \<open>A list of assignments \<open>p->f = SWAP_BE\<close>\<open>n\<close>\<open> (p->f)\<close>: offsets of the fields and their sizes in bytes.\<close>

fun swap_field :: "mem \<Rightarrow> int \<Rightarrow> int \<Rightarrow> mem option" where
  "swap_field m a n = (if n = 2 then swap16_at m a else if n = 4 then swap32_at m a
     else if n = 8 then swap64_at m a else None)"

fun swap_fields :: "(int \<times> int) list \<Rightarrow> mem \<Rightarrow> int \<Rightarrow> mem option" where
  "swap_fields [] m p = Some m"
| "swap_fields (f # fs) m p = do { m' \<leftarrow> swap_field m (p + fst f) (snd f); swap_fields fs m' p }"

text \<open>\<open>for (j = 0; j < n; j++) p[j] = SWAP_BE16 (p[j])\<close>.\<close>

fun swap_u16s :: "nat \<Rightarrow> mem \<Rightarrow> int \<Rightarrow> mem option" where
  "swap_u16s 0 m p = Some m"
| "swap_u16s (Suc n) m p = do { m' \<leftarrow> swap16_at m p; swap_u16s n m' (p + 2) }"

text \<open>The eight extent descriptors of an extent record.\<close>

definition extent_fields :: "(int \<times> int) list" where
  "extent_fields = concat (map (\<lambda>j. [(8 * int j, 4), (8 * int j + 4, 4)]) [0..<8])"

definition hfs_swap_HFSPlusForkData :: "mem \<Rightarrow> int \<Rightarrow> mem option" where
  "hfs_swap_HFSPlusForkData m src = do {
     m1 \<leftarrow> swap_fields [(0, 8), (8, 4), (12, 4)] m src;
     swap_fields extent_fields m1 (src + 16) }"

section \<open>Records of leaf and index nodes\<close>

definition swap_fail :: "HFSBTSwapDirection \<Rightarrow> swap_result" where
  "swap_fail dir = Some (Inl (if dir = kSwapBTNodeHostToBig then SwapPanic else SwapErr fsBTInvalidNodeErr))"

text \<open>A field is put in host order before it is used when reading, and in disk order after it when writing.\<close>

definition swap16_if :: "bool \<Rightarrow> mem \<Rightarrow> int \<Rightarrow> mem option" where
  "swap16_if b m a = (if b then swap16_at m a else Some m)"
definition swap32_if :: "bool \<Rightarrow> mem \<Rightarrow> int \<Rightarrow> mem option" where
  "swap32_if b m a = (if b then swap32_at m a else Some m)"

definition swap_extents_record :: "HFSBTSwapDirection \<Rightarrow> mem \<Rightarrow> int \<Rightarrow> int \<Rightarrow> swap_result" where
  "swap_extents_record dir m srcKey nextRecord = do {
     kind \<leftarrow> rd_kind m;
     let recordSize = (if kind = kBTIndexNode then 4 else 8);
     if srcKey + 12 + recordSize > nextRecord then swap_fail dir
     else do {
       m1 \<leftarrow> swap16_if (dir = kSwapBTNodeBigToHost) m srcKey;
       keyLength \<leftarrow> rd16 m1 srcKey;
       if keyLength \<noteq> 10 then swap_fail dir
       else do {
         let srcRec = srcKey + keyLength + 2;
         m2 \<leftarrow> swap16_if (dir = kSwapBTNodeHostToBig) m1 srcKey;
         m3 \<leftarrow> swap_fields [(4, 4), (8, 4)] m2 srcKey;
         m4 \<leftarrow> (if kind = kBTIndexNode then swap32_at m3 srcRec else swap_fields extent_fields m3 srcRec);
         Some (Inr m4) } } }"

definition folder_fields :: "(int \<times> int) list" where
  "folder_fields = [(2, 2), (4, 4), (8, 4), (12, 4), (16, 4), (20, 4), (24, 4), (28, 4),
     (32, 4), (36, 4), (42, 2), (44, 4), (80, 4), (84, 4)]"

definition file_fields :: "(int \<times> int) list" where
  "file_fields = [(2, 2), (8, 4), (12, 4), (16, 4), (20, 4), (24, 4), (28, 4),
     (32, 4), (36, 4), (42, 2), (44, 4), (80, 4), (4, 4)]"

definition swap_catalog_folder :: "HFSBTSwapDirection \<Rightarrow> mem \<Rightarrow> int \<Rightarrow> int \<Rightarrow> swap_result" where
  "swap_catalog_folder dir m srcRec nextRecord =
     (if srcRec + 88 > nextRecord then swap_fail dir
      else do { m1 \<leftarrow> swap_fields folder_fields m srcRec; Some (Inr m1) })"

definition swap_catalog_file :: "HFSBTSwapDirection \<Rightarrow> mem \<Rightarrow> int \<Rightarrow> int \<Rightarrow> swap_result" where
  "swap_catalog_file dir m srcRec nextRecord =
     (if srcRec + 248 > nextRecord then swap_fail dir
      else do {
        m1 \<leftarrow> swap_fields file_fields m srcRec;
        m2 \<leftarrow> hfs_swap_HFSPlusForkData m1 (srcRec + 88);
        m3 \<leftarrow> hfs_swap_HFSPlusForkData m2 (srcRec + 168);
        Some (Inr m3) })"

definition swap_catalog_thread :: "HFSBTSwapDirection \<Rightarrow> mem \<Rightarrow> int \<Rightarrow> int \<Rightarrow> swap_result" where
  "swap_catalog_thread dir m srcRec nextRecord =
     (if srcRec + 10 > nextRecord then swap_fail dir
      else do {
        m1 \<leftarrow> swap32_at m (srcRec + 4);
        m2 \<leftarrow> swap16_if (dir = kSwapBTNodeBigToHost) m1 (srcRec + 8);
        len \<leftarrow> rd16 m2 (srcRec + 8);
        if srcRec + 10 + 2 * len > nextRecord then swap_fail dir
        else do {
          m3 \<leftarrow> swap_u16s (nat len) m2 (srcRec + 10);
          m4 \<leftarrow> swap16_if (dir = kSwapBTNodeHostToBig) m3 (srcRec + 8);
          Some (Inr m4) } })"

definition swap_catalog_data :: "HFSBTSwapDirection \<Rightarrow> mem \<Rightarrow> int \<Rightarrow> int \<Rightarrow> swap_result" where
  "swap_catalog_data dir m srcPtr nextRecord = do {
     m1 \<leftarrow> swap16_if (dir = kSwapBTNodeBigToHost) m srcPtr;
     recordType \<leftarrow> rd16 m1 srcPtr;
     r \<leftarrow> (if recordType = 1 then swap_catalog_folder dir m1 srcPtr nextRecord
          else if recordType = 2 then swap_catalog_file dir m1 srcPtr nextRecord
          else if recordType = 3 \<or> recordType = 4 then swap_catalog_thread dir m1 srcPtr nextRecord
          else swap_fail dir);
     case r of Inl e \<Rightarrow> Some (Inl e)
     | Inr m2 \<Rightarrow> do { m3 \<leftarrow> swap16_if (dir = kSwapBTNodeHostToBig) m2 srcPtr; Some (Inr m3) } }"

definition swap_catalog_record :: "HFSBTSwapDirection \<Rightarrow> mem \<Rightarrow> int \<Rightarrow> int \<Rightarrow> swap_result" where
  "swap_catalog_record dir m srcKey nextRecord =
     (if srcKey + 8 > nextRecord then swap_fail dir
      else do {
        m1 \<leftarrow> swap16_if (dir = kSwapBTNodeBigToHost) m srcKey;
        keyLength \<leftarrow> rd16 m1 srcKey;
        m2 \<leftarrow> swap16_if (dir = kSwapBTNodeHostToBig) m1 srcKey;
        if keyLength < 6 \<or> keyLength > 516 then swap_fail dir
        else do {
          let srcPtr = srcKey + keyLength + 2;
          if srcPtr + 4 > nextRecord then swap_fail dir
          else do {
            m3 \<leftarrow> swap32_at m2 (srcKey + 2);
            m4 \<leftarrow> swap16_if (dir = kSwapBTNodeBigToHost) m3 (srcKey + 6);
            len \<leftarrow> rd16 m4 (srcKey + 6);
            if keyLength < 6 + 2 * len then swap_fail dir
            else do {
              m5 \<leftarrow> swap_u16s (nat len) m4 (srcKey + 8);
              m6 \<leftarrow> swap16_if (dir = kSwapBTNodeHostToBig) m5 (srcKey + 6);
              kind \<leftarrow> rd_kind m6;
              if kind = kBTIndexNode then do { m7 \<leftarrow> swap32_at m6 srcPtr; Some (Inr m7) }
              else swap_catalog_data dir m6 srcPtr nextRecord } } } })"

definition swap_attr_data :: "HFSBTSwapDirection \<Rightarrow> mem \<Rightarrow> int \<Rightarrow> int \<Rightarrow> swap_result" where
  "swap_attr_data dir m srcRec nextRecord = do {
     m1 \<leftarrow> swap32_if (dir = kSwapBTNodeBigToHost) m srcRec;
     recordType \<leftarrow> rd32 m1 srcRec;
     r \<leftarrow> (if recordType = 16 then
            (if srcRec + 16 > nextRecord then swap_fail dir
             else do {
               before \<leftarrow> rd32 m1 (srcRec + 12);
               m2 \<leftarrow> swap32_at m1 (srcRec + 12);
               after \<leftarrow> rd32 m2 (srcRec + 12);
               let attrSize = (if dir = kSwapBTNodeHostToBig then before
                               else if dir = kSwapBTNodeBigToHost then after else 0);
               if srcRec + 16 + attrSize > nextRecord then swap_fail dir else Some (Inr m2) })
          else if recordType = 32 then
            (if srcRec + 88 > nextRecord then swap_fail dir
             else map_option Inr (hfs_swap_HFSPlusForkData m1 (srcRec + 8)))
          else if recordType = 48 then
            (if srcRec + 72 > nextRecord then swap_fail dir
             else map_option Inr (swap_fields extent_fields m1 (srcRec + 8)))
          else Some (Inr m1));
     case r of Inl e \<Rightarrow> Some (Inl e)
     | Inr m2 \<Rightarrow> do { m3 \<leftarrow> swap32_if (dir = kSwapBTNodeHostToBig) m2 srcRec; Some (Inr m3) } }"

definition swap_attr_record :: "HFSBTSwapDirection \<Rightarrow> mem \<Rightarrow> int \<Rightarrow> int \<Rightarrow> swap_result" where
  "swap_attr_record dir m srcKey nextRecord =
     (if srcKey + 16 > nextRecord then swap_fail dir
      else do {
        m1 \<leftarrow> swap16_if (dir = kSwapBTNodeBigToHost) m srcKey;
        keyLength \<leftarrow> rd16 m1 srcKey;
        m2 \<leftarrow> swap16_if (dir = kSwapBTNodeHostToBig) m1 srcKey;
        let srcRec = srcKey + keyLength + 2;
        if srcRec + 4 > nextRecord then swap_fail dir
        else do {
          m3 \<leftarrow> swap_fields [(4, 4), (8, 4)] m2 srcKey;
          m4 \<leftarrow> swap16_if (dir = kSwapBTNodeBigToHost) m3 (srcKey + 12);
          attrNameLen \<leftarrow> rd16 m4 (srcKey + 12);
          if attrNameLen > 127 \<or> keyLength < 12 + 2 * attrNameLen then swap_fail dir
          else do {
            m5 \<leftarrow> swap_u16s (nat attrNameLen) m4 (srcKey + 14);
            m6 \<leftarrow> swap16_if (dir = kSwapBTNodeHostToBig) m5 (srcKey + 12);
            kind \<leftarrow> rd_kind m6;
            if kind = kBTIndexNode then do { m7 \<leftarrow> swap32_at m6 srcRec; Some (Inr m7) }
            else swap_attr_data dir m6 srcRec nextRecord } } })"

definition swap_hotfile_record :: "HFSBTSwapDirection \<Rightarrow> mem \<Rightarrow> int \<Rightarrow> int \<Rightarrow> swap_result" where
  "swap_hotfile_record dir m srcKey nextRecord =
     (if srcKey + 12 + 4 > nextRecord then swap_fail dir
      else do {
        m1 \<leftarrow> swap16_if (dir = kSwapBTNodeBigToHost) m srcKey;
        keyLength \<leftarrow> rd16 m1 srcKey;
        if keyLength \<noteq> 10 then swap_fail dir
        else do {
          let srcRec = srcKey + keyLength + 2;
          m2 \<leftarrow> swap16_if (dir = kSwapBTNodeHostToBig) m1 srcKey;
          m3 \<leftarrow> swap_fields [(4, 4), (8, 4)] m2 srcKey;
          m4 \<leftarrow> swap32_at m3 srcRec;
          Some (Inr m4) } })"

text \<open>
  The loops over the records.  \<open>srcOffs\<close> is the address of the offset of the last record; the
  offset before it (index -1) is the one of the free space.
\<close>

function swap_records ::
  "(mem \<Rightarrow> int \<Rightarrow> int \<Rightarrow> swap_result) \<Rightarrow> int \<Rightarrow> int \<Rightarrow> mem \<Rightarrow> swap_result" where
  "swap_records body srcOffs i m = do {
     numRecords \<leftarrow> rd_numRecords m;
     if i < numRecords then do {
       srcKey \<leftarrow> rd16 m (srcOffs + 2 * i);
       nextRecord \<leftarrow> rd16 m (srcOffs + 2 * (i - 1));
       r \<leftarrow> body m srcKey nextRecord;
       case r of Inl e \<Rightarrow> Some (Inl e) | Inr m' \<Rightarrow> swap_records body srcOffs (i + 1) m' }
     else Some (Inr m) }"
  by pat_completeness auto
termination
proof (relation "measure (\<lambda>(b, s, i, m). nat (65536 - i))")
  fix m n i assume "rd_numRecords m = Some n" "i < n"
  then have "i < 65536" using get_bounds(4) [of m 10] by (auto simp: rd_numRecords_def rd_Some simp del: get_bounds)
  then show "((body, srcOffs, i + 1, m'), body, srcOffs, i, m) \<in> measure (\<lambda>(b, s, i, m). nat (65536 - i))" for body :: "mem \<Rightarrow> int \<Rightarrow> int \<Rightarrow> swap_result" and srcOffs :: int and m' :: mem
    by auto
qed auto

declare swap_records.simps [simp del]

definition hfs_swap_HFSPlusBTInternalNode ::
  "int \<Rightarrow> int \<Rightarrow> HFSBTSwapDirection \<Rightarrow> mem \<Rightarrow> swap_result" where
  "hfs_swap_HFSPlusBTInternalNode blockSize fileID dir m = do {
     numRecords \<leftarrow> rd_numRecords m;
     let srcOffs = blockSize - numRecords * 2;
     if fileID = 3 then swap_records (swap_extents_record dir) srcOffs 0 m
     else if fileID = 4 then swap_records (swap_catalog_record dir) srcOffs 0 m
     else if fileID = 8 then swap_records (swap_attr_record dir) srcOffs 0 m
     else if fileID > 16 then swap_records (swap_hotfile_record dir) srcOffs 0 m
     else Some (Inl SwapPanic) }"
section \<open>Whole nodes\<close>

text \<open>The checks on the links of the descriptor, common to both directions.\<close>

definition links_bad :: "BTreeControlBlock \<Rightarrow> int \<Rightarrow> int \<Rightarrow> int \<Rightarrow> bool" where
  "links_bad btcb blockNum fLink bLink \<longleftrightarrow>
     fLink \<ge> totalNodes btcb \<or> bLink \<ge> totalNodes btcb \<or>
     (blockNum \<noteq> 0 \<and> fLink = u32 blockNum) \<or> (blockNum \<noteq> 0 \<and> bLink = u32 blockNum)"

text \<open>The check of one record offset.\<close>

definition offset_bad :: "int \<Rightarrow> int \<Rightarrow> bool \<Rightarrow> int \<Rightarrow> bool" where
  "offset_bad blockSize numRecords allow_empty_node off \<longleftrightarrow>
     off AND 1 \<noteq> 0 \<or> (\<not> allow_empty_node \<and> off = 0) \<or> (off < sizeof_BTNodeDescriptor \<and> off \<noteq> 0) \<or>
     off > blockSize - 2 * (numRecords + 1)"

text \<open>The loop over the offsets when a node is read; \<open>k\<close> offsets are left, \<open>i\<close> is the index of the next one.\<close>

fun swap_offsets_in :: "nat \<Rightarrow> int \<Rightarrow> int \<Rightarrow> int \<Rightarrow> bool \<Rightarrow> int \<Rightarrow> mem \<Rightarrow> swap_result" where
  "swap_offsets_in 0 i blockSize numRecords allow_empty_node srcOffs m = Some (Inr m)"
| "swap_offsets_in (Suc k) i blockSize numRecords allow_empty_node srcOffs m = do {
     m1 \<leftarrow> swap16_at m (srcOffs + 2 * i);
     off \<leftarrow> rd16 m1 (srcOffs + 2 * i);
     if offset_bad blockSize numRecords allow_empty_node off then Some (Inl (SwapErr fsBTInvalidHeaderErr))
     else do {
       order_bad \<leftarrow> (if i \<noteq> 0 then map_option (\<lambda>prev. off \<ge> prev) (rd16 m1 (srcOffs + 2 * (i - 1))) else Some False);
       if order_bad then Some (Inl (SwapErr fsBTInvalidHeaderErr))
       else swap_offsets_in k (i + 1) blockSize numRecords allow_empty_node srcOffs m1 } }"

definition swap_descriptor_in :: "BTreeControlBlock \<Rightarrow> int \<Rightarrow> int \<Rightarrow> bool \<Rightarrow> mem \<Rightarrow> swap_result" where
  "swap_descriptor_in btcb blockNum blockSize allow_empty_node m = do {
     m1 \<leftarrow> swap_fields [(0, 4), (4, 4)] m 0;
     fLink \<leftarrow> rd_fLink m1;
     bLink \<leftarrow> rd_bLink m1;
     kind \<leftarrow> rd_kind m1;
     height \<leftarrow> rd_height m1;
     if totalNodes btcb \<noteq> 0 \<and> links_bad btcb blockNum fLink bLink
     then Some (Inl (SwapErr fsBTInvalidHeaderErr))
     else if kind < kBTLeafNode \<or> kind > kBTMapNode then Some (Inl (SwapErr fsBTInvalidHeaderErr))
     else if height > kMaxTreeDepth then Some (Inl (SwapErr fsBTInvalidHeaderErr))
     else do {
       m2 \<leftarrow> swap16_at m1 10;
       numRecords \<leftarrow> rd_numRecords m2;
       let srcOffs = blockSize - (numRecords + 1) * 2;
       if srcOffs > blockSize \<or> srcOffs < sizeof_BTNodeDescriptor then Some (Inl (SwapErr fsBTInvalidHeaderErr))
       else swap_offsets_in (nat (numRecords + 1)) 0 blockSize numRecords allow_empty_node srcOffs m2 } }"

definition header_fields :: "(int \<times> int) list" where
  "header_fields = [(0, 2), (2, 4), (6, 4), (10, 4), (14, 4), (18, 2), (20, 2), (22, 4), (26, 4), (32, 4), (38, 4)]"

fun swap_offsets_out :: "nat \<Rightarrow> int \<Rightarrow> int \<Rightarrow> int \<Rightarrow> bool \<Rightarrow> int \<Rightarrow> mem \<Rightarrow> swap_result" where
  "swap_offsets_out 0 i blockSize numRecords allow_empty_node srcOffs m = Some (Inr m)"
| "swap_offsets_out (Suc k) i blockSize numRecords allow_empty_node srcOffs m = do {
     off \<leftarrow> rd16 m (srcOffs + 2 * i);
     if offset_bad blockSize numRecords allow_empty_node off then Some (Inl SwapPanic)
     else do {
       order_bad \<leftarrow> (if i < numRecords then map_option (\<lambda>after. after \<ge> off) (rd16 m (srcOffs + 2 * (i + 1)))
                    else Some False);
       if order_bad then Some (Inl SwapPanic)
       else do {
         m1 \<leftarrow> swap16_at m (srcOffs + 2 * i);
         swap_offsets_out k (i + 1) blockSize numRecords allow_empty_node srcOffs m1 } } }"

definition swap_descriptor_out :: "BTreeControlBlock \<Rightarrow> int \<Rightarrow> int \<Rightarrow> bool \<Rightarrow> mem \<Rightarrow> swap_result" where
  "swap_descriptor_out btcb blockNum blockSize allow_empty_node m = do {
     fLink \<leftarrow> rd_fLink m;
     bLink \<leftarrow> rd_bLink m;
     if links_bad btcb blockNum fLink bLink then Some (Inl SwapPanic)
     else do {
       m1 \<leftarrow> swap_fields [(0, 4), (4, 4)] m 0;
       kind \<leftarrow> rd_kind m1;
       height \<leftarrow> rd_height m1;
       if kind < kBTLeafNode \<or> kind > kBTMapNode then Some (Inl SwapPanic)
       else if height > kMaxTreeDepth then Some (Inl SwapPanic)
       else do {
         numRecords \<leftarrow> rd_numRecords m1;
         let srcOffs = blockSize - (numRecords + 1) * 2;
         if srcOffs > blockSize \<or> srcOffs < sizeof_BTNodeDescriptor then Some (Inl SwapPanic)
         else do {
           r \<leftarrow> swap_offsets_out (nat (numRecords + 1)) 0 blockSize numRecords allow_empty_node srcOffs m1;
           case r of Inl e \<Rightarrow> Some (Inl e)
           | Inr m2 \<Rightarrow> do { m3 \<leftarrow> swap16_at m2 10; Some (Inr m3) } } } } }"

text \<open>The records of a node by its kind.  The bitmap of a map node is left in disk order.\<close>

definition swap_node_content :: "int \<Rightarrow> int \<Rightarrow> int \<Rightarrow> HFSBTSwapDirection \<Rightarrow> mem \<Rightarrow> swap_result" where
  "swap_node_content vcbSigWord fileID blockSize dir m = do {
     kind \<leftarrow> rd_kind m;
     if kind = kBTIndexNode \<or> kind = kBTLeafNode then
       (if vcbSigWord = 0x482B then hfs_swap_HFSPlusBTInternalNode blockSize fileID dir m else Some (Inr m))
     else if kind = kBTMapNode then Some (Inr m)
     else if kind = kBTHeaderNode then map_option Inr (swap_fields header_fields m sizeof_BTNodeDescriptor)
     else Some (Inr m) }"

definition hfs_swap_BTNode ::
  "BTreeControlBlock \<Rightarrow> int \<Rightarrow> int \<Rightarrow> int \<Rightarrow> int \<Rightarrow> HFSBTSwapDirection \<Rightarrow> bool \<Rightarrow> mem \<Rightarrow> swap_result" where
  "hfs_swap_BTNode btcb vcbSigWord fileID blockNum blockSize dir allow_empty_node m = do {
     r1 \<leftarrow> (if dir = kSwapBTNodeBigToHost then swap_descriptor_in btcb blockNum blockSize allow_empty_node m
           else Some (Inr m));
     case r1 of Inl e \<Rightarrow> Some (Inl e)
     | Inr m1 \<Rightarrow> do {
         r2 \<leftarrow> swap_node_content vcbSigWord fileID blockSize dir m1;
         case r2 of Inl e \<Rightarrow> Some (Inl e)
         | Inr m2 \<Rightarrow>
             if dir = kSwapBTNodeHostToBig then swap_descriptor_out btcb blockNum blockSize allow_empty_node m2
             else Some (Inr m2) } }"
section \<open>A record swap stays inside its record\<close>

text \<open>
  \<open>inside m0 a b m\<close>: the buffer \<open>m\<close> differs from \<open>m0\<close> at most at the addresses from \<open>a\<close> to \<open>b\<close>, which lie in the
  buffer after the node descriptor.  \<open>stays\<close> and \<open>stays_mem\<close>: a computation ends without an access outside
  of the buffer, and a node it returns is inside.
\<close>

definition inside :: "mem \<Rightarrow> int \<Rightarrow> int \<Rightarrow> mem \<Rightarrow> bool" where
  "inside m0 a b m \<longleftrightarrow> same_outside m0 m a b \<and> 14 \<le> a \<and> in_mem m0 a (b - a)"

definition stays_mem :: "mem \<Rightarrow> int \<Rightarrow> int \<Rightarrow> mem option \<Rightarrow> bool" where
  "stays_mem m0 a b r \<longleftrightarrow> (\<exists>m. r = Some m \<and> inside m0 a b m)"

definition stays :: "mem \<Rightarrow> int \<Rightarrow> int \<Rightarrow> swap_result \<Rightarrow> bool" where
  "stays m0 a b r \<longleftrightarrow> (\<exists>x. r = Some x \<and> (case x of Inl e \<Rightarrow> True | Inr m \<Rightarrow> inside m0 a b m))"

named_theorems stays_rules \<open>structural rules for \<open>stays\<close> and \<open>stays_mem\<close>\<close>

lemma inside_in_mem: "inside m0 a b m \<Longrightarrow> a \<le> p \<Longrightarrow> p + n \<le> b \<Longrightarrow> 0 \<le> n \<Longrightarrow> in_mem m p n"
  by (auto simp: inside_def in_mem_def same_outside_def)

lemma inside_trans: "inside m0 a b m \<Longrightarrow> same_outside m m' a b \<Longrightarrow> inside m0 a b m'"
  using same_outside_trans [of m0 m a b m' a b] by (simp add: inside_def)

lemma same_outside_rev_at:
  "in_mem m p n \<Longrightarrow> a \<le> p \<Longrightarrow> p + n \<le> b \<Longrightarrow> same_outside m (rev_at m p n) a b"
  by (auto simp: same_outside_def slice_rev_at_disjoint)

lemma stays_mem_swap [stays_rules]:
  assumes "inside m0 a b m" "a \<le> p" 
  shows "p + 2 \<le> b \<Longrightarrow> stays_mem m0 a b (swap16_at m p)" "p + 4 \<le> b \<Longrightarrow> stays_mem m0 a b (swap32_at m p)"
    "p + 8 \<le> b \<Longrightarrow> stays_mem m0 a b (swap64_at m p)"
    "p + 2 \<le> b \<Longrightarrow> stays_mem m0 a b (swap16_if c m p)" "p + 4 \<le> b \<Longrightarrow> stays_mem m0 a b (swap32_if c m p)"
  using assms inside_in_mem [OF assms] 
  by (auto simp: stays_mem_def swap16_if_def swap32_if_def swap_at_in intro!: inside_trans [OF assms(1)] same_outside_rev_at)

lemma stays_mem_bind [stays_rules]:
  "stays_mem m0 a b r \<Longrightarrow> (\<And>m. inside m0 a b m \<Longrightarrow> stays m0 a b (k m)) \<Longrightarrow> stays m0 a b (r \<bind> k)"
  by (auto simp: stays_def stays_mem_def)

lemma stays_mem_bind' [stays_rules]:
  "stays_mem m0 a b r \<Longrightarrow> (\<And>m. inside m0 a b m \<Longrightarrow> stays_mem m0 a b (k m)) \<Longrightarrow> stays_mem m0 a b (r \<bind> k)"
  by (auto simp: stays_mem_def)

lemma stays_rd [stays_rules]:
  "inside m0 a b m \<Longrightarrow> a \<le> p \<Longrightarrow> p + 2 \<le> b \<Longrightarrow> (\<And>v. 0 \<le> v \<Longrightarrow> v < 65536 \<Longrightarrow> stays m0 a b (k v)) \<Longrightarrow>
     stays m0 a b (rd16 m p \<bind> k)"
  "inside m0 a b m \<Longrightarrow> a \<le> p \<Longrightarrow> p + 4 \<le> b \<Longrightarrow> (\<And>v. 0 \<le> v \<Longrightarrow> v < 4294967296 \<Longrightarrow> stays m0 a b (k v)) \<Longrightarrow>
     stays m0 a b (rd32 m p \<bind> k)"
  using inside_in_mem [of m0 a b m p 2] inside_in_mem [of m0 a b m p 4] by (auto simp: rd_in)

lemma stays_rd_kind [stays_rules]:
  assumes "inside m0 a b m" "\<And>v. stays m0 a b (k v)"
  shows "stays m0 a b (rd_kind m \<bind> k)"
proof -
  have "in_mem m 8 1" using assms(1) by (auto simp: inside_def in_mem_def same_outside_def)
  then show ?thesis using assms(2) by (simp add: rd_kind_def rd_in)
qed

lemma stays_ends [stays_rules]:
  "inside m0 a b m \<Longrightarrow> stays m0 a b (Some (Inr m))" "stays m0 a b (Some (Inl e))" "stays m0 a b (swap_fail dir)"
  "inside m0 a b m \<Longrightarrow> stays_mem m0 a b (Some m)"
  by (auto simp: stays_def stays_mem_def swap_fail_def)

lemma stays_bind [stays_rules]:
  "stays m0 a b r \<Longrightarrow> (\<And>m. inside m0 a b m \<Longrightarrow> stays m0 a b (k (Inr m))) \<Longrightarrow> (\<And>e. stays m0 a b (k (Inl e))) \<Longrightarrow>
     stays m0 a b (r \<bind> k)"
  by (cases r; cases "the r") (simp_all add: stays_def)

lemma stays_case [stays_rules]:
  "stays m0 a b (g m) \<Longrightarrow> stays m0 a b (case Inr m of Inl e \<Rightarrow> f e | Inr x \<Rightarrow> g x)"
  "stays m0 a b (f e) \<Longrightarrow> stays m0 a b (case Inl e of Inl e \<Rightarrow> f e | Inr x \<Rightarrow> g x)"
  by simp_all

lemma stays_map [stays_rules]: "stays_mem m0 a b r \<Longrightarrow> stays m0 a b (map_option Inr r)"
  by (auto simp: stays_def stays_mem_def)

lemma stays_if [stays_rules]:
  "(c \<Longrightarrow> stays m0 a b x) \<Longrightarrow> (\<not> c \<Longrightarrow> stays m0 a b y) \<Longrightarrow> stays m0 a b (if c then x else y)"
  "(c \<Longrightarrow> stays_mem m0 a b u) \<Longrightarrow> (\<not> c \<Longrightarrow> stays_mem m0 a b v) \<Longrightarrow> stays_mem m0 a b (if c then u else v)"
  by simp_all

lemma stays_swap_fields [stays_rules]:
  assumes "inside m0 a b m" "\<forall>f\<in>set fs. snd f \<in> {2, 4, 8} \<and> a \<le> p + fst f \<and> p + fst f + snd f \<le> b"
  shows "stays_mem m0 a b (swap_fields fs m p)"
  using assms
proof (induction fs arbitrary: m)
  case (Cons f fs)
  have "stays_mem m0 a b (swap_field m (p + fst f) (snd f))"
    using Cons.prems stays_mem_swap [OF Cons.prems(1), of "p + fst f"] by auto
  then show ?case using Cons by (auto intro!: stays_mem_bind')
qed (simp add: stays_ends)

lemma stays_swap_u16s [stays_rules]:
  "inside m0 a b m \<Longrightarrow> a \<le> p \<Longrightarrow> p + 2 * int n \<le> b \<Longrightarrow> stays_mem m0 a b (swap_u16s n m p)"
proof (induction n arbitrary: m p)
  case (Suc n)
  then show ?case by (auto intro!: stays_rules Suc.IH)
qed (simp add: stays_ends)

lemma extent_fields_bounds: "f \<in> set extent_fields \<Longrightarrow> snd f = 4 \<and> 0 \<le> fst f \<and> fst f \<le> 60"
  by (auto simp: extent_fields_def)

lemma stays_extents [stays_rules]:
  "inside m0 a b m \<Longrightarrow> a \<le> p \<Longrightarrow> p + 64 \<le> b \<Longrightarrow> stays_mem m0 a b (swap_fields extent_fields m p)"
  by (rule stays_swap_fields) (auto dest!: extent_fields_bounds)

lemma stays_ForkData [stays_rules]:
  "inside m0 a b m \<Longrightarrow> a \<le> p \<Longrightarrow> p + 80 \<le> b \<Longrightarrow> stays_mem m0 a b (hfs_swap_HFSPlusForkData m p)"
  unfolding hfs_swap_HFSPlusForkData_def by (intro stays_rules; simp)

lemma stays_hotfile:
  assumes "inside m0 a b m"
  shows "stays m0 a b (swap_hotfile_record dir m a b)"
  unfolding swap_hotfile_record_def Let_def
  by (intro stays_rules assms; simp)

lemma stays_extents_record:
  assumes "inside m0 a b m" "rd_kind m = Some kBTIndexNode \<or> a + 76 \<le> b"
  shows "stays m0 a b (swap_extents_record dir m a b)"
proof -
  have "in_mem m 8 1" using assms(1) by (auto simp: inside_def in_mem_def same_outside_def)
  then obtain kind where "rd_kind m = Some kind" "kind = kBTIndexNode \<or> a + 76 \<le> b"
    using assms(2) by (auto simp: rd_kind_def rd_in)
  then show ?thesis
    unfolding swap_extents_record_def Let_def by simp (intro conjI impI stays_rules assms(1); simp)
qed

lemma folder_fields_bounds: "f \<in> set folder_fields \<Longrightarrow> snd f \<in> {2, 4} \<and> 0 \<le> fst f \<and> fst f \<le> 84"
  by (auto simp: folder_fields_def)

lemma file_fields_bounds: "f \<in> set file_fields \<Longrightarrow> snd f \<in> {2, 4} \<and> 0 \<le> fst f \<and> fst f \<le> 84"
  by (auto simp: file_fields_def)

lemma stays_catalog_data [stays_rules]:
  assumes "inside m0 a b m" "a \<le> p" "p + 4 \<le> b"
  shows "stays m0 a b (swap_catalog_data dir m p b)"
proof -
  have f: "stays m0 a b (swap_catalog_folder dir m' p b)" "stays m0 a b (swap_catalog_file dir m' p b)"
    "stays m0 a b (swap_catalog_thread dir m' p b)" if "inside m0 a b m'" for m'
    unfolding swap_catalog_folder_def swap_catalog_file_def swap_catalog_thread_def
    by (intro stays_rules that; use assms(2) in \<open>force dest!: folder_fields_bounds file_fields_bounds\<close>)+
  show ?thesis
    unfolding swap_catalog_data_def by (intro stays_rules assms(1) f; use assms(2,3) in simp)
qed

lemma stays_catalog_record:
  assumes "inside m0 a b m"
  shows "stays m0 a b (swap_catalog_record dir m a b)"
  unfolding swap_catalog_record_def Let_def by (intro stays_rules assms; simp)

lemma stays_attr_data [stays_rules]:
  assumes "inside m0 a b m" "a \<le> p" "p + 4 \<le> b"
  shows "stays m0 a b (swap_attr_data dir m p b)"
  unfolding swap_attr_data_def Let_def by (intro stays_rules assms(1); use assms(2,3) in simp)

lemma stays_attr_record:
  assumes "inside m0 a b m"
  shows "stays m0 a b (swap_attr_record dir m a b)"
  unfolding swap_attr_record_def Let_def by (intro stays_rules assms; simp)

section \<open>All records of a node\<close>

text \<open>
  The contract of the routine that swaps one record, for the records it is meant for (\<open>pre\<close>): no access
  outside of the buffer, no change outside of the record.
\<close>

locale record_swap =
  fixes body :: "mem \<Rightarrow> int \<Rightarrow> int \<Rightarrow> swap_result"
    and pre :: "mem \<Rightarrow> int \<Rightarrow> int \<Rightarrow> bool"
  assumes body_stays: "14 \<le> a \<Longrightarrow> in_mem m a (b - a) \<Longrightarrow> pre m a b \<Longrightarrow> stays m a b (body m a b)"
    and pre_stable: "pre m a b \<Longrightarrow> same_outside m m' c d \<Longrightarrow> 14 \<le> c \<Longrightarrow> 14 \<le> length m \<Longrightarrow> pre m' a b"
begin

lemma swap_records_ok:
  assumes "node_wf bt m" "0 \<le> i" "i \<le> get16 m 10"
    and "\<And>j. j < nrec m \<Longrightarrow> pre m (roff bt m j) (roff bt m (Suc j))"
  shows "\<exists>r. swap_records body (nodeSize bt - get16 m 10 * 2) i m = Some r \<and>
     (\<forall>m'. r = Inr m' \<longrightarrow> node_wf bt m' \<and> nrec m' = nrec m \<and> same_desc m m' \<and>
        (\<forall>j\<le>nrec m. roff bt m' j = roff bt m j))"
  using assms
proof (induction "nat (get16 m 10 - i)" arbitrary: i m)
  case 0
  then show ?case by (subst swap_records.simps) (simp add: mem_simps same_desc_def)
next
  case (Suc k)
  note wf = Suc.prems(1)
  define j where "j = nrec m - 1 - nat i"
  have i: "i < get16 m 10" using Suc.hyps(2) by simp
  have j: "j < nrec m" "int j = get16 m 10 - 1 - i" using i Suc.prems(2) by (auto simp: j_def nrec_def nat_diff_distrib)
  have "nodeSize bt - get16 m 10 * 2 + 2 * i = nodeSize bt - 2 * int j - 2"
    "nodeSize bt - get16 m 10 * 2 + 2 * (i - 1) = nodeSize bt - 2 * int (Suc j) - 2" using j by auto
  then have offs: "rd16 m (nodeSize bt - get16 m 10 * 2 + 2 * i) = Some (roff bt m j)"
    "rd16 m (nodeSize bt - get16 m 10 * 2 + 2 * (i - 1)) = Some (roff bt m (Suc j))"
    using offset_in_mem [OF wf, of j] offset_in_mem [OF wf, of "Suc j"] j(1) unfolding roff_def by (simp_all only: rd_in Suc_leI less_imp_le)
  have b: "14 \<le> roff bt m j" "roff bt m (Suc j) \<le> nodeSize bt - 2 * get16 m 10 - 2" 
    using roff_range [OF wf, of j] roff_range [OF wf, of "Suc j"] j(1) by auto
  have st: "stays m (roff bt m j) (roff bt m (Suc j)) (body m (roff bt m j) (roff bt m (Suc j)))"
    using body_stays b(1) record_in_mem(1) [OF wf j(1)] Suc.prems(4) [OF j(1)] by blast
  have unfold: "swap_records body (nodeSize bt - get16 m 10 * 2) i m =
      (body m (roff bt m j) (roff bt m (Suc j)) \<bind> (\<lambda>r. case r of Inl e \<Rightarrow> Some (Inl e)
         | Inr m' \<Rightarrow> swap_records body (nodeSize bt - get16 m 10 * 2) (i + 1) m'))"
    using wf offs i by (subst swap_records.simps) (simp add: mem_simps)
  show ?case
  proof (cases "\<exists>m1. body m (roff bt m j) (roff bt m (Suc j)) = Some (Inr m1)")
    case True
    then obtain m1 where m1: "body m (roff bt m j) (roff bt m (Suc j)) = Some (Inr m1)" by blast
    then have so: "same_outside m m1 (roff bt m j) (roff bt m (Suc j))" using st by (auto simp: stays_def inside_def)
    note f = data_area_frame [OF wf so b]
    have p: "pre m1 (roff bt m1 l) (roff bt m1 (Suc l))" if "l < nrec m1" for l
      using that f(2,5) pre_stable [OF Suc.prems(4) so b(1)] node_wfD(1,3) [OF wf] by simp
    have "k = nat (get16 m1 10 - (i + 1))" using Suc.hyps(2) f(3) by simp
    from Suc.hyps(1) [OF this f(1)] f p Suc.prems(2) i m1 unfold
    show ?thesis by (fastforce intro: same_desc_trans)
  next
    case False
    from st obtain x where x: "body m (roff bt m j) (roff bt m (Suc j)) = Some x" by (auto simp: stays_def)
    with False obtain e where "x = Inl e" by (cases x) auto
    with x unfold show ?thesis by simp
  qed
qed

end

interpretation catalog_swap: record_swap "swap_catalog_record dir" "\<lambda>m a b. True" for dir
  by unfold_locales (auto intro: stays_catalog_record simp: inside_def)

interpretation attr_swap: record_swap "swap_attr_record dir" "\<lambda>m a b. True" for dir
  by unfold_locales (auto intro: stays_attr_record simp: inside_def)

interpretation hotfile_swap: record_swap "swap_hotfile_record dir" "\<lambda>m a b. True" for dir
  by unfold_locales (auto intro: stays_hotfile simp: inside_def)

lemma rd_kind_stable:
  "same_outside m m' c d \<Longrightarrow> 14 \<le> c \<Longrightarrow> 14 \<le> length m \<Longrightarrow> rd_kind m' = rd_kind m"
  using same_outsideD(2) [of m m' c d 8 1] same_outsideD(3) [of m m' c d 8 1]
  by (simp add: rd_kind_def rd8_def rdn_def in_mem_def)

interpretation extents_swap: record_swap "swap_extents_record dir" "\<lambda>m a b. rd_kind m = Some 0 \<or> a + 76 \<le> b" for dir
  by unfold_locales (auto intro: stays_extents_record simp: inside_def rd_kind_stable)

section \<open>Offsets and descriptor\<close>

lemma swap_offsets_in_ok:
  assumes "0 \<le> i" "in_mem m srcOffs (2 * i + 2 * int k)"
  shows "\<exists>r. swap_offsets_in k i blockSize n allow srcOffs m = Some r \<and> (\<forall>m'. r = Inr m' \<longrightarrow>
     same_outside m m' (srcOffs + 2 * i) (srcOffs + 2 * i + 2 * int k) \<and>
     (\<forall>j. i \<le> j \<and> j < i + int k \<longrightarrow> \<not> offset_bad blockSize n allow (get16 m' (srcOffs + 2 * j)) \<and>
        (j \<noteq> 0 \<longrightarrow> get16 m' (srcOffs + 2 * j) < get16 m' (srcOffs + 2 * (j - 1)))))"
  using assms
proof (induction k arbitrary: i m)
  case (Suc k)
  define p where "p = srcOffs + 2 * i"
  define m1 where "m1 = rev_at m p 2"
  have im: "in_mem m p 2" "i \<noteq> 0 \<Longrightarrow> in_mem m (p - 2) 2" using Suc.prems by (auto simp: in_mem_def p_def)
  have s1: "same_outside m m1 p (p + 2)" unfolding m1_def using im by (intro same_outside_rev_at) auto
  have im1: "in_mem m1 p 2" "i \<noteq> 0 \<Longrightarrow> in_mem m1 (p - 2) 2" using im same_outsideD(3) [OF s1] by auto
  have pp: "srcOffs + 2 * i = p" "srcOffs + 2 * (i - 1) = p - 2" by (simp_all add: p_def)
  define bad where "bad \<longleftrightarrow> offset_bad blockSize n allow (get16 m1 p) \<or> (i \<noteq> 0 \<and> get16 m1 p \<ge> get16 m1 (p - 2))"
  have step: "swap_offsets_in (Suc k) i blockSize n allow srcOffs m =
     (if bad then Some (Inl (SwapErr fsBTInvalidHeaderErr)) else swap_offsets_in k (i + 1) blockSize n allow srcOffs m1)"
    unfolding swap_offsets_in.simps(2) pp using im im1
    by (cases "i = 0") (auto simp: swap_at_in rd_in bad_def m1_def [symmetric])
  show ?case
  proof (cases bad)
    case False
    have "in_mem m1 srcOffs (2 * (i + 1) + 2 * int k)"
      using Suc.prems same_outsideD(1) [OF s1] by (simp add: in_mem_def)
    from Suc.IH [OF _ this] Suc.prems(1) obtain r where r: "swap_offsets_in k (i + 1) blockSize n allow srcOffs m1 = Some r"
      and ok: "\<And>m'. r = Inr m' \<Longrightarrow> same_outside m1 m' (p + 2) (p + 2 + 2 * int k)"
        "\<And>m' j. r = Inr m' \<Longrightarrow> i + 1 \<le> j \<Longrightarrow> j < i + 1 + int k \<Longrightarrow> \<not> offset_bad blockSize n allow (get16 m' (srcOffs + 2 * j)) \<and>
          (j \<noteq> 0 \<longrightarrow> get16 m' (srcOffs + 2 * j) < get16 m' (srcOffs + 2 * (j - 1)))"
      by (auto simp: p_def algebra_simps)
    have "same_outside m m' (srcOffs + 2 * i) (srcOffs + 2 * i + 2 * int (Suc k)) \<and>
        get16 m' p = get16 m1 p \<and> (i \<noteq> 0 \<longrightarrow> get16 m' (p - 2) = get16 m1 (p - 2))" if "r = Inr m'" for m'
      using same_outside_trans [OF s1 ok(1) [OF that]] same_outsideD(4) [OF ok(1) [OF that] im1(1)]
        same_outsideD(4) [OF ok(1) [OF that] im1(2)]
      by (auto simp: p_def min_def max_def algebra_simps)
    moreover have "\<not> offset_bad blockSize n allow (get16 m1 p) \<and> (i \<noteq> 0 \<longrightarrow> get16 m1 p < get16 m1 (p - 2))"
      using False by (auto simp: bad_def)
    ultimately have fin: "\<not> offset_bad blockSize n allow (get16 m' (srcOffs + 2 * j)) \<and>
        (j \<noteq> 0 \<longrightarrow> get16 m' (srcOffs + 2 * j) < get16 m' (srcOffs + 2 * (j - 1)))"
      if "r = Inr m'" "i \<le> j" "j < i + int (Suc k)" for m' j
      using ok(2) [OF that(1), of j] that by (cases "j = i") (auto simp: p_def algebra_simps)
    show ?thesis unfolding step using False r fin
      \<open>\<And>m'. r = Inr m' \<Longrightarrow> same_outside m m' (srcOffs + 2 * i) (srcOffs + 2 * i + 2 * int (Suc k)) \<and> get16 m' p = get16 m1 p \<and> (i \<noteq> 0 \<longrightarrow> get16 m' (p - 2) = get16 m1 (p - 2))\<close>
      by simp
  next
    case True
    then show ?thesis unfolding step by simp
  qed
qed auto

text \<open>What \<open>swap_descriptor_in\<close> establishes: the offsets are in order, even and inside of the node.\<close>

lemma swap_descriptor_in_ok:
  assumes len: "int (length m) = blockSize" "16 \<le> blockSize"
  shows "\<exists>r. swap_descriptor_in bt blockNum blockSize allow m = Some r \<and> (\<forall>m'. r = Inr m' \<longrightarrow>
     length m' = length m \<and> 2 * (get16 m' 10 + 1) \<le> blockSize - 14 \<and>
     (\<forall>j. 0 \<le> j \<and> j \<le> get16 m' 10 \<longrightarrow>
        \<not> offset_bad blockSize (get16 m' 10) allow (get16 m' (blockSize - 2 * (get16 m' 10 + 1) + 2 * j)) \<and>
        (j \<noteq> 0 \<longrightarrow> get16 m' (blockSize - 2 * (get16 m' 10 + 1) + 2 * j)
             < get16 m' (blockSize - 2 * (get16 m' 10 + 1) + 2 * (j - 1)))))"
proof -
  define m1 where "m1 = rev_at (rev_at m 0 4) 4 4"
  define m2 where "m2 = rev_at m1 10 2"
  define n where "n = get16 m2 10"
  define base where "base = blockSize - 2 * (n + 1)"
  have im: "in_mem m a k" if "0 \<le> a" "0 \<le> k" "a + k \<le> 14" for a k using that len by (simp add: in_mem_def)
  have l: "length m1 = length m" "length m2 = length m"
    using im [of 0 4] im [of 4 4] im [of 10 2] by (simp_all add: m1_def m2_def)
  have f: "swap_fields [(0, 4), (4, 4)] m 0 = Some m1"
    using im [of 0 4] im [of 4 4] by (simp add: swap_at_in m1_def)
  obtain kind where k: "rd_kind m1 = Some kind" using l len by (auto simp: node_field_defs rd_in in_mem_def)
  have d: "rd_fLink m1 = Some (get32 m1 0)" "rd_bLink m1 = Some (get32 m1 4)" "rd_height m1 = Some (get8 m1 9)"
    "swap16_at m1 10 = Some m2" "rd_numRecords m2 = Some n" "blockSize - (n + 1) * 2 = base"
    using l len by (simp_all add: node_field_defs rd_in swap_at_in in_mem_def m2_def n_def base_def)
  define c where "c \<longleftrightarrow> (totalNodes bt \<noteq> 0 \<and> links_bad bt blockNum (get32 m1 0) (get32 m1 4)) \<or> kind < -1 \<or> 2 < kind \<or> 16 < get8 m1 9"
  have run: "swap_descriptor_in bt blockNum blockSize allow m =
      (if c then Some (Inl (SwapErr fsBTInvalidHeaderErr)) else if base > blockSize \<or> base < 14 then Some (Inl (SwapErr fsBTInvalidHeaderErr))
       else swap_offsets_in (nat (n + 1)) 0 blockSize n allow base m2)"
    unfolding swap_descriptor_in_def f by (simp only: Option.bind.simps k d Let_def) (auto simp: c_def)
  have n0: "0 \<le> n" by (simp add: n_def)
  show ?thesis
  proof (cases "c \<or> base > blockSize \<or> base < 14")
    case False
    have "in_mem m2 base (2 * 0 + 2 * int (nat (n + 1)))"
      using False n0 l len by (simp add: in_mem_def base_def)
    from swap_offsets_in_ok [OF _ this, of blockSize n allow] obtain r where
      r: "swap_offsets_in (nat (n + 1)) 0 blockSize n allow base m2 = Some r"
      and ok: "\<And>m'. r = Inr m' \<Longrightarrow> same_outside m2 m' base (base + 2 * (n + 1))"
       "\<And>m' j. r = Inr m' \<Longrightarrow> 0 \<le> j \<Longrightarrow> j \<le> n \<Longrightarrow> \<not> offset_bad blockSize n allow (get16 m' (base + 2 * j)) \<and>
          (j \<noteq> 0 \<longrightarrow> get16 m' (base + 2 * j) < get16 m' (base + 2 * (j - 1)))"
      using n0 by auto
    have "get16 m' 10 = n" "length m' = length m" if "r = Inr m'" for m'
      using same_outsideD(1,4) [OF ok(1) [OF that]] l len False by (auto simp: n_def in_mem_def)
    then show ?thesis using run False r ok(2) by (intro exI [of _ r]) (auto simp: base_def)
  qed (use run in auto)
qed

lemma not_offset_bad:
  "\<not> offset_bad blockSize n False v \<Longrightarrow> 0 \<le> v \<Longrightarrow> 14 \<le> v \<and> v \<le> blockSize - 2 * (n + 1)"
  by (auto simp: offset_bad_def)

lemma swap_descriptor_in_wf:
  assumes len: "int (length m) = nodeSize bt" "16 \<le> nodeSize bt" "nodeSize bt \<le> 32768"
  shows "\<exists>r. swap_descriptor_in bt blockNum (nodeSize bt) False m = Some r \<and> (\<forall>m'. r = Inr m' \<longrightarrow> node_wf bt m')"
proof -
  obtain r where r: "swap_descriptor_in bt blockNum (nodeSize bt) False m = Some r"
    and l: "\<And>m'. r = Inr m' \<Longrightarrow> length m' = length m"
    and ok: "\<And>m' j. r = Inr m' \<Longrightarrow> 0 \<le> j \<Longrightarrow> j \<le> get16 m' 10 \<Longrightarrow>
        \<not> offset_bad (nodeSize bt) (get16 m' 10) False (get16 m' (nodeSize bt - 2 * (get16 m' 10 + 1) + 2 * j)) \<and>
        (j \<noteq> 0 \<longrightarrow> get16 m' (nodeSize bt - 2 * (get16 m' 10 + 1) + 2 * j)
             < get16 m' (nodeSize bt - 2 * (get16 m' 10 + 1) + 2 * (j - 1)))"
    using swap_descriptor_in_ok [OF len(1,2), of bt blockNum False] by blast
  have "node_wf bt m'" if r': "r = Inr m'" for m'
  proof -
    define n where "n = get16 m' 10"
    have n0: "0 \<le> n" by (simp add: n_def)
    have ro: "roff bt m' i = get16 m' (nodeSize bt - 2 * (n + 1) + 2 * (n - int i))" for i
      by (simp add: roff_def algebra_simps)
    have g: "14 \<le> roff bt m' i \<and> roff bt m' i \<le> nodeSize bt - 2 * (n + 1)" if "int i \<le> n" for i
      using ok [OF r', of "n - int i", folded n_def] that not_offset_bad [of "nodeSize bt" n "roff bt m' i"] by (simp add: ro)
    have "roff bt m' i < roff bt m' (Suc i)" if "int i < n" for i
      using ok [OF r', of "n - int i", folded n_def] that ro [of i] ro [of "Suc i"] by (simp add: algebra_simps)
    moreover have "int i < n" if "i < nrec m'" for i using that by (simp add: nrec_def n_def)
    moreover have "int (nrec m') = n" by (simp add: n_def)
    ultimately show ?thesis
      using g [of 0] g [of "nrec m'"] n0 len l [OF r'] unfolding node_wf_def by (force simp: less_imp_le)
  qed
  with r show ?thesis by blast
qed

lemma internal_node_ok:
  assumes wf: "node_wf bt m" and f: "fileID = 3 \<Longrightarrow> rd_kind m = Some kBTIndexNode \<or> (\<forall>j<nrec m. roff bt m j + 76 \<le> roff bt m (Suc j))"
  shows "\<exists>r. hfs_swap_HFSPlusBTInternalNode (nodeSize bt) fileID dir m = Some r \<and>
     (\<forall>m'. r = Inr m' \<longrightarrow> node_wf bt m' \<and> nrec m' = nrec m \<and> same_desc m m' \<and> (\<forall>j\<le>nrec m. roff bt m' j = roff bt m j))"
proof -
  have 0: "(0 :: int) \<le> 0" "0 \<le> get16 m 10" by simp_all
  have e: "fileID = 3 \<Longrightarrow> j < nrec m \<Longrightarrow> rd_kind m = Some 0 \<or> roff bt m j + 76 \<le> roff bt m (Suc j)" for j using f by auto
  consider "fileID = 3" | "fileID = 4" | "fileID = 8" | "fileID > 16" | "fileID \<noteq> 3 \<and> fileID \<noteq> 4 \<and> fileID \<noteq> 8 \<and> fileID \<le> 16" by linarith
  then show ?thesis
    using extents_swap.swap_records_ok [OF wf 0 e, of dir] catalog_swap.swap_records_ok [OF wf 0, of dir]
      attr_swap.swap_records_ok [OF wf 0, of dir] hotfile_swap.swap_records_ok [OF wf 0, of dir] wf
    by cases (auto simp: hfs_swap_HFSPlusBTInternalNode_def mem_simps)
qed

lemma swap_node_content_ok:
  assumes wf: "node_wf bt m" and f: "fileID = 3 \<Longrightarrow> rd_kind m = Some kBTIndexNode \<or> (\<forall>j<nrec m. roff bt m j + 76 \<le> roff bt m (Suc j))"
    and sz: "120 \<le> nodeSize bt"
  shows "\<exists>r. swap_node_content sig fileID (nodeSize bt) dir m = Some r \<and>
     (\<forall>m'. r = Inr m' \<longrightarrow> length m' = length m \<and> (rd_kind m \<noteq> Some kBTHeaderNode \<longrightarrow> node_wf bt m'))"
proof -
  obtain kind where k: "rd_kind m = Some kind" using desc_in_mem(2) [OF wf] by (auto simp: rd_kind_def rd_in in_mem_def)
  have "inside m 14 120 m" using node_wfD(1) [OF wf] sz by (simp add: inside_def in_mem_def)
  then have h: "stays_mem m 14 120 (swap_fields header_fields m 14)"
    by (rule stays_swap_fields) (auto simp: header_fields_def)
  have l: "node_wf bt m' \<Longrightarrow> length m' = length m" for m'
    using node_wfD(1) [OF wf] node_wfD(1) [of bt m'] by simp
  have hl: "inside m 14 120 m' \<Longrightarrow> length m' = length m" for m' by (simp add: inside_def same_outside_def)
  obtain r where r: "hfs_swap_HFSPlusBTInternalNode (nodeSize bt) fileID dir m = Some r" "\<forall>m'. r = Inr m' \<longrightarrow> node_wf bt m'"
    using internal_node_ok [where dir = dir, OF wf f] by blast
  consider "kind = 0 \<or> kind = -1" "sig = 0x482B" | "kind = 1" | "kind \<noteq> 1" "\<not> ((kind = 0 \<or> kind = -1) \<and> sig = 0x482B)" by blast
  then show ?thesis
  proof cases
    case 1
    then have "swap_node_content sig fileID (nodeSize bt) dir m = Some r"
      unfolding swap_node_content_def k using r(1) by auto
    then show ?thesis using r(2) l by blast
  next
    case 2
    then show ?thesis unfolding swap_node_content_def k using h hl by (auto simp: stays_mem_def)
  next
    case 3
    then have "swap_node_content sig fileID (nodeSize bt) dir m = Some (Inr m)"
      unfolding swap_node_content_def k by auto
    then show ?thesis using wf by auto
  qed
qed

section \<open>Swapping twice\<close>

definition rev_fields :: "(int \<times> int) list \<Rightarrow> mem \<Rightarrow> int \<Rightarrow> mem" where
  "rev_fields fs m p = fold (\<lambda>f m. rev_at m (p + fst f) (snd f)) fs m"

definition fields_in :: "(int \<times> int) list \<Rightarrow> mem \<Rightarrow> int \<Rightarrow> bool" where
  "fields_in fs m p \<longleftrightarrow> (\<forall>f\<in>set fs. snd f \<in> {2, 4, 8} \<and> in_mem m (p + fst f) (snd f))"

definition fields_disjoint :: "(int \<times> int) list \<Rightarrow> bool" where
  "fields_disjoint fs \<longleftrightarrow> sorted_wrt (\<lambda>f g. fst f + snd f \<le> fst g \<or> fst g + snd g \<le> fst f) fs"

lemma fields_in_rev_at [simp]:
  "in_mem m a n \<Longrightarrow> fields_in fs (rev_at m a n) p = fields_in fs m p"
  by (simp add: fields_in_def)

lemma swap_fields_rev: "fields_in fs m p \<Longrightarrow> swap_fields fs m p = Some (rev_fields fs m p)"
proof (induction fs arbitrary: m)
  case (Cons f fs)
  then have "in_mem m (p + fst f) (snd f)" "fields_in fs m p" by (auto simp: fields_in_def)
  then show ?case using Cons.IH [of "rev_at m (p + fst f) (snd f)"] Cons.prems
    by (auto simp: rev_fields_def swap_at_in fields_in_def)
qed (simp add: rev_fields_def)

lemma length_rev_fields: "fields_in fs m p \<Longrightarrow> length (rev_fields fs m p) = length m"
proof (induction fs arbitrary: m)
  case (Cons f fs)
  then have "in_mem m (p + fst f) (snd f)" "fields_in fs m p" by (auto simp: fields_in_def)
  then show ?case using Cons.IH [of "rev_at m (p + fst f) (snd f)"] by (simp add: rev_fields_def)
qed (simp add: rev_fields_def)

lemma rev_at_rev_fields:
  assumes "fields_in fs m p" "in_mem m a n" "\<forall>f\<in>set fs. a + n \<le> p + fst f \<or> p + fst f + snd f \<le> a"
  shows "rev_at (rev_fields fs m p) a n = rev_fields fs (rev_at m a n) p"
  using assms
proof (induction fs arbitrary: m)
  case (Cons f fs)
  then have f: "in_mem m (p + fst f) (snd f)" "fields_in fs m p" by (auto simp: fields_in_def)
  have "rev_at (rev_at m (p + fst f) (snd f)) a n = rev_at (rev_at m a n) (p + fst f) (snd f)"
    using Cons.prems f by (intro rev_at_commute) auto
  then show ?case using Cons.IH [of "rev_at m (p + fst f) (snd f)"] Cons.prems f by (simp add: rev_fields_def)
qed (simp add: rev_fields_def)

lemma rev_fields_twice:
  assumes "fields_in fs m p" "fields_disjoint fs"
  shows "rev_fields fs (rev_fields fs m p) p = m"
  using assms
proof (induction fs arbitrary: m)
  case (Cons f fs)
  let ?a = "p + fst f" and ?n = "snd f"
  have f: "in_mem m ?a ?n" "fields_in fs m p" "fields_disjoint fs" "\<forall>g\<in>set fs. ?a + ?n \<le> p + fst g \<or> p + fst g + snd g \<le> ?a"
    using Cons.prems by (auto simp: fields_in_def fields_disjoint_def)
  have "rev_fields (f # fs) (rev_fields (f # fs) m p) p = rev_fields fs (rev_at (rev_fields fs (rev_at m ?a ?n) p) ?a ?n) p"
    by (simp add: rev_fields_def)
  also have "rev_at (rev_fields fs (rev_at m ?a ?n) p) ?a ?n = rev_fields fs (rev_at (rev_at m ?a ?n) ?a ?n) p"
    using f by (intro rev_at_rev_fields) auto
  also have "\<dots> = rev_fields fs m p" using f(1) by (simp add: rev_at_rev_at)
  finally show ?case using Cons.IH f(2,3) by simp
qed (simp add: rev_fields_def)

lemma swap_fields_twice:
  assumes "fields_in fs m p" "fields_disjoint fs" "swap_fields fs m p = Some m'"
  shows "swap_fields fs m' p = Some m" "length m' = length m"
proof -
  have m': "m' = rev_fields fs m p" using swap_fields_rev [OF assms(1)] assms(3) by simp
  show l: "length m' = length m" using length_rev_fields [OF assms(1)] m' by simp
  then have "fields_in fs m' p" using assms(1) by (simp add: fields_in_def in_mem_def)
  then show "swap_fields fs m' p = Some m" using swap_fields_rev rev_fields_twice [OF assms(1,2)] m' by simp
qed

definition fork_fields :: "(int \<times> int) list" where
  "fork_fields = [(0, 8), (8, 4), (12, 4)] @ map (\<lambda>f. (16 + fst f, snd f)) extent_fields"

lemma swap_fields_append: "swap_fields (fs @ gs) m p = do { m' \<leftarrow> swap_fields fs m p; swap_fields gs m' p }"
  by (induction fs arbitrary: m) auto

lemma swap_fields_shift: "swap_fields (map (\<lambda>f. (d + fst f, snd f)) fs) m p = swap_fields fs m (p + d)"
  by (induction fs arbitrary: m) (auto simp: add.assoc)

lemma ForkData_fields: "hfs_swap_HFSPlusForkData m p = swap_fields fork_fields m p"
  unfolding hfs_swap_HFSPlusForkData_def fork_fields_def
  by (simp only: swap_fields_append swap_fields_shift)

lemma fields_disjoint_consts: "fields_disjoint fork_fields" "fields_disjoint header_fields"
  by (code_simp, code_simp)


lemma bytes_at_rev_fields:
  assumes "fields_in fs m p" "in_mem m a n" "\<And>f. f \<in> set fs \<Longrightarrow> a + n \<le> p + fst f \<or> p + fst f + snd f \<le> a"
  shows "bytes_at (rev_fields fs m p) a n = bytes_at m a n"
  using assms
proof (induction fs arbitrary: m)
  case (Cons f fs)
  then have f: "in_mem m (p + fst f) (snd f)" "fields_in fs m p" by (auto simp: fields_in_def)
  then show ?case using Cons.IH [of "rev_at m (p + fst f) (snd f)"] Cons.prems
    by (simp add: rev_fields_def slice_rev_at_disjoint)
qed (simp add: rev_fields_def)

fun offs_fields :: "nat \<Rightarrow> int \<Rightarrow> int \<Rightarrow> (int \<times> int) list" where
  "offs_fields 0 base i = []"
| "offs_fields (Suc k) base i = (base + 2 * i, 2) # offs_fields k base (i + 1)"

lemma offs_fields_mem: "f \<in> set (offs_fields k base i) \<Longrightarrow> snd f = 2 \<and> base + 2 * i \<le> fst f \<and> fst f + 2 \<le> base + 2 * (i + int k)"
proof (induction k arbitrary: i)
  case (Suc k)
  then show ?case using Suc.IH [of "i + 1"] by (auto simp: algebra_simps)
qed simp

lemma fields_disjoint_offs: "fields_disjoint (offs_fields k base i)"
proof (induction k arbitrary: i)
  case (Suc k)
  have "base + 2 * i + 2 \<le> fst f" if "f \<in> set (offs_fields k base (i + 1))" for f
    using offs_fields_mem [OF that] by simp
  then show ?case using Suc.IH [of "i + 1"] by (force simp: fields_disjoint_def)
qed (simp add: fields_disjoint_def)

lemma swap_offsets_in_rev:
  "swap_offsets_in k i blockSize n allow base m = Some (Inr m') \<Longrightarrow> m' = rev_fields (offs_fields k base i) m 0"
proof (induction k arbitrary: i m)
  case (Suc k)
  from Suc.prems obtain m1 where "swap16_at m (base + 2 * i) = Some m1"
    "swap_offsets_in k (i + 1) blockSize n allow base m1 = Some (Inr m')"
    by (auto simp: bind_eq_Some_conv split: if_splits)
  then show ?case using Suc.IH [of "i + 1" m1] by (simp add: swap_at_Some rev_fields_def)
qed (simp add: rev_fields_def)

lemma swap_offsets_out_rev:
  assumes "0 \<le> i" "in_mem m base (2 * (n + 1))" "i + int k = n + 1"
    "\<And>j. i \<le> j \<Longrightarrow> j \<le> n \<Longrightarrow> \<not> offset_bad blockSize n allow (get16 m (base + 2 * j))"
    "\<And>j. i \<le> j \<Longrightarrow> j < n \<Longrightarrow> get16 m (base + 2 * (j + 1)) < get16 m (base + 2 * j)"
  shows "swap_offsets_out k i blockSize n allow base m = Some (Inr (rev_fields (offs_fields k base i) m 0))"
  using assms
proof (induction k arbitrary: i m)
  case (Suc k)
  define m1 where "m1 = rev_at m (base + 2 * i) 2"
  have im: "in_mem m (base + 2 * j) 2" if "0 \<le> j" "j \<le> n" for j using Suc.prems(2) that by (simp add: in_mem_def)
  have l: "in_mem m1 a l = in_mem m a l" for a l using im [of i] Suc.prems(1,3) by (simp add: m1_def)
  have keep: "get16 m1 (base + 2 * j) = get16 m (base + 2 * j)" if "i < j" "j \<le> n" for j
    unfolding m1_def using im [of i] im [of j] Suc.prems(1,3) that by (intro get_rev_at_disjoint) auto
  have "\<not> offset_bad blockSize n allow (get16 m1 (base + 2 * j))" if "i + 1 \<le> j" "j \<le> n" for j
    using Suc.prems(4) [of j] keep [of j] that by simp
  moreover have "get16 m1 (base + 2 * (j + 1)) < get16 m1 (base + 2 * j)" if "i + 1 \<le> j" "j < n" for j
    using Suc.prems(5) [of j] keep [of j] keep [of "j + 1"] that by simp
  ultimately have "swap_offsets_out k (i + 1) blockSize n allow base m1 = Some (Inr (rev_fields (offs_fields k base (i + 1)) m1 0))"
    using Suc.prems by (intro Suc.IH) (auto simp: l)
  then show ?case
    using Suc.prems(4) [of i] Suc.prems(5) [of i] im [of i] im [of "i + 1"] Suc.prems(1,3)
    by (auto simp: rd_in swap_at_in m1_def rev_fields_def)
qed (simp add: rev_fields_def)

text \<open>What a successful \<open>swap_descriptor_in\<close> did: the swapped fields, and the checks that passed.\<close>

lemma swap_descriptor_inD:
  assumes "swap_descriptor_in bt blockNum blockSize allow m = Some (Inr m')" and len: "int (length m) = blockSize" "16 \<le> blockSize"
  shows "m' = rev_fields ([(0, 4), (4, 4), (10, 2)] @
      offs_fields (nat (get16 m' 10 + 1)) (blockSize - 2 * (get16 m' 10 + 1)) 0) m 0"
    "14 \<le> blockSize - 2 * (get16 m' 10 + 1)"
    "totalNodes bt \<noteq> 0 \<Longrightarrow> \<not> links_bad bt blockNum (get32 m' 0) (get32 m' 4)"
    "\<exists>kind. rd_kind m' = Some kind \<and> - 1 \<le> kind \<and> kind \<le> 2" "get8 m' 9 \<le> 16"
proof -
  define m1 where "m1 = rev_at (rev_at m 0 4) 4 4"
  define m2 where "m2 = rev_at m1 10 2"
  have im: "in_mem m a k" if "0 \<le> a" "0 \<le> k" "a + k \<le> 14" for a k using that len by (simp add: in_mem_def)
  have l: "length m1 = length m" "length m2 = length m" "in_mem m1 10 2" using im [of 0 4] im [of 4 4] im [of 10 2] by (simp_all add: m1_def m2_def)
  have f: "swap_fields [(0, 4), (4, 4)] m 0 = Some m1" "swap16_at m1 10 = Some m2"
    using im [of 0 4] im [of 4 4] l by (simp_all add: swap_at_in m1_def m2_def)
  define n where "n = get16 m2 10"
  have run: "swap_offsets_in (nat (n + 1)) 0 blockSize n allow (blockSize - 2 * (n + 1)) m2 = Some (Inr m')"
    and c: "14 \<le> blockSize - 2 * (n + 1)" "totalNodes bt \<noteq> 0 \<longrightarrow> \<not> links_bad bt blockNum (get32 m1 0) (get32 m1 4)"
      "\<exists>kind. rd_kind m1 = Some kind \<and> - 1 \<le> kind \<and> kind \<le> 2" "get8 m1 9 \<le> 16"
    using assms(1) unfolding swap_descriptor_in_def f
    by (auto simp: f bind_eq_Some_conv Let_def node_field_defs rd_Some n_def algebra_simps split: if_splits)
  have n0: "0 \<le> n" by (simp add: n_def)
  have "in_mem m2 (blockSize - 2 * (n + 1)) (2 * 0 + 2 * int (nat (n + 1)))"
    using l len n0 c(1) by (simp add: in_mem_def)
  from swap_offsets_in_ok [OF _ this, of blockSize n allow] run have so: "same_outside m2 m' (blockSize - 2 * (n + 1)) blockSize"
    using n0 by auto
  have d: "bytes_at m' a k = bytes_at m2 a k" if "0 \<le> a" "0 \<le> k" "a + k \<le> 14" for a k
    using that c(1) l im [OF that] by (intro same_outsideD(2) [OF so]) (auto simp: in_mem_def)
  have "get16 m' 10 = n" using d [of 10 2] by (simp add: get16_def n_def)
  moreover have e: "bytes_at m' a k = bytes_at m1 a k" if "0 \<le> a" "0 \<le> k" "a + k \<le> 10" for a k
    using d [of a k] that l len unfolding m2_def by (subst slice_rev_at_disjoint [symmetric]) (auto simp: in_mem_def)
  moreover have "get32 m' 0 = get32 m1 0" "get32 m' 4 = get32 m1 4" "get8 m' 9 = get8 m1 9" "get8 m' 8 = get8 m1 8"
    using e [of 0 4] e [of 4 4] e [of 9 1] e [of 8 1] by (simp_all add: get_defs)
  moreover have "rd_kind m' = rd_kind m1" using calculation(6) l same_outsideD(1) [OF so] len by (simp add: rd_kind_def rd_in in_mem_def)
  ultimately show "14 \<le> blockSize - 2 * (get16 m' 10 + 1)" "totalNodes bt \<noteq> 0 \<Longrightarrow> \<not> links_bad bt blockNum (get32 m' 0) (get32 m' 4)"
    "\<exists>kind. rd_kind m' = Some kind \<and> - 1 \<le> kind \<and> kind \<le> 2" "get8 m' 9 \<le> 16"
    "m' = rev_fields ([(0, 4), (4, 4), (10, 2)] @
      offs_fields (nat (get16 m' 10 + 1)) (blockSize - 2 * (get16 m' 10 + 1)) 0) m 0"
    using c swap_offsets_in_rev [OF run] by (simp_all add: rev_fields_def m1_def m2_def)
qed

lemma desc_fields_disjoint:
  assumes "14 \<le> base"
  shows "fields_disjoint ([(0, 4), (4, 4), (10, 2)] @ offs_fields k base 0)"
proof -
  have "14 \<le> fst f" if "f \<in> set (offs_fields k base 0)" for f using offs_fields_mem [OF that] assms by simp
  then have "\<forall>f\<in>set (offs_fields k base 0). 4 \<le> fst f \<and> 8 \<le> fst f \<and> 12 \<le> fst f" by force
  then show ?thesis using fields_disjoint_offs [of k base 0] by (simp add: fields_disjoint_def)
qed

text \<open>Writing the descriptor and the offsets undoes reading them.\<close>

lemma swap_descriptor_roundtrip:
  assumes inn: "swap_descriptor_in bt blockNum blockSize allow m = Some (Inr m')"
    and len: "int (length m) = blockSize" "16 \<le> blockSize" and tn: "totalNodes bt \<noteq> 0"
  shows "swap_descriptor_out bt blockNum blockSize allow m' = Some (Inr m)"
proof -
  define n where "n = get16 m' 10"
  define base where "base = blockSize - 2 * (n + 1)"
  define F where "F = [(0, 4), (4, 4), (10, 2)] @ offs_fields (nat (n + 1)) base 0"
  note D = swap_descriptor_inD [OF inn len, folded n_def, folded base_def, folded F_def]
  have n0: "0 \<le> n" by (simp add: n_def)
  obtain r where ok: "length m' = length m" "\<And>j. 0 \<le> j \<Longrightarrow> j \<le> n \<Longrightarrow> \<not> offset_bad blockSize n allow (get16 m' (base + 2 * j))"
    "\<And>j. 0 < j \<Longrightarrow> j \<le> n \<Longrightarrow> get16 m' (base + 2 * j) < get16 m' (base + 2 * (j - 1))"
    using swap_descriptor_in_ok [OF len, of bt blockNum allow] inn unfolding base_def n_def by auto
  have F: "fields_in F m' 0"
    using D(2) len ok(1) n0 offs_fields_mem [of _ "nat (n + 1)" base 0]
    by (force simp: F_def fields_in_def in_mem_def base_def)
  have F0: "fields_in F m 0" using F ok(1) by (simp add: fields_in_def in_mem_def)
  define x1 where "x1 = rev_fields [(0, 4), (4, 4)] m' 0"
  have x1f: "swap_fields [(0, 4), (4, 4)] m' 0 = Some x1" "length x1 = length m'"
    using swap_fields_rev [of "[(0, 4), (4, 4)]" m' 0] length_rev_fields [of "[(0, 4), (4, 4)]" m' 0] len ok(1)
    by (simp_all add: x1_def fields_in_def in_mem_def)
  have im: "in_mem m' a k" "in_mem x1 a k" if "0 \<le> a" "0 \<le> k" "a + k \<le> blockSize" for a k
    using that len ok(1) x1f(2) by (simp_all add: in_mem_def)
  have keep: "bytes_at x1 a k = bytes_at m' a k" if "8 \<le> a" "0 \<le> k" "a + k \<le> blockSize" for a k
    unfolding x1_def using im [of a k] im [of 0 4] im [of 4 4] that len by (simp add: rev_fields_def slice_rev_at_disjoint)
  have g: "get16 x1 (base + 2 * j) = get16 m' (base + 2 * j)" if "0 \<le> j" "j \<le> n" for j
    using keep [of "base + 2 * j" 2] that D(2) by (simp add: get16_def base_def)
  have out: "swap_offsets_out (nat (n + 1)) 0 blockSize n allow base x1 = Some (Inr (rev_fields (offs_fields (nat (n + 1)) base 0) x1 0))"
  proof (rule swap_offsets_out_rev)
    show "in_mem x1 base (2 * (n + 1))" using im(2) [of base "2 * (n + 1)"] n0 D(2) by (simp add: base_def)
    show "get16 x1 (base + 2 * (j + 1)) < get16 x1 (base + 2 * j)" if "0 \<le> j" "j < n" for j
      using ok(3) [of "j + 1"] g [of j] g [of "j + 1"] that by simp
  qed (use n0 ok(2) g in auto)
  define x2 where "x2 = rev_fields (offs_fields (nat (n + 1)) base 0) x1 0"
  have fi: "fields_in (offs_fields (nat (n + 1)) base 0) x1 0" "fields_in (offs_fields (nat (n + 1)) base 0) (rev_at x1 10 2) 0"
    using F x1f(2) im(2) [of 10 2] len by (simp_all add: F_def fields_in_def in_mem_def)
  have l2: "length x2 = length m'" using length_rev_fields [OF fi(1)] x1f(2) by (simp add: x2_def)
  have "rev_at x2 10 2 = rev_fields (offs_fields (nat (n + 1)) base 0) (rev_at x1 10 2) 0"
    unfolding x2_def using fi(1) im(2) [of 10 2] len D(2) offs_fields_mem [of _ "nat (n + 1)" base 0]
    by (intro rev_at_rev_fields) (auto, force)
  also have "\<dots> = rev_fields F m' 0" by (simp add: F_def rev_fields_def x1_def)
  also have "\<dots> = m" using rev_fields_twice [OF F0] desc_fields_disjoint [OF D(2), of "nat (n + 1)"] D(1) by (simp add: F_def)
  finally have fin: "swap16_at x2 10 = Some m" using l2 ok(1) len by (simp add: swap_at_in in_mem_def)
  have rd: "rd_kind x1 = rd_kind m'" "rd_height x1 = Some (get8 m' 9)" "rd_numRecords x1 = Some n"
    "rd_fLink m' = Some (get32 m' 0)" "rd_bLink m' = Some (get32 m' 4)"
    using keep [of 8 1] keep [of 9 1] keep [of 10 2] im(1) [of 8 1] im(2) [of 8 1] im(2) [of 9 1] im(2) [of 10 2] im(1) [of 0 4] im(1) [of 4 4] len
    by (simp_all add: node_field_defs rd_in get_defs n_def)
  obtain kind where k: "rd_kind m' = Some kind" "-1 \<le> kind" "kind \<le> 2" using D(4) by blast
  have b: "blockSize - (n + 1) * 2 = base" "\<not> base > blockSize" "\<not> base < 14" using D(2) n0 by (simp_all add: base_def)
  show ?thesis
    unfolding swap_descriptor_out_def rd k(1) x1f(1) Option.bind.simps b Let_def
    using D(3) [OF tn] D(5) k b(2,3) out fin unfolding x2_def by simp
qed

lemma swap_descriptor_in_kind:
  assumes "swap_descriptor_in bt blockNum blockSize allow m = Some (Inr m')" and len: "int (length m) = blockSize" "16 \<le> blockSize"
  shows "rd_kind m' = rd_kind m"
proof -
  define n where "n = get16 m' 10"
  define F where "F = [(0, 4), (4, 4), (10, 2)] @ offs_fields (nat (n + 1)) (blockSize - 2 * (n + 1)) 0"
  note D = swap_descriptor_inD [OF assms, folded n_def, folded F_def]
  have l: "length m' = length m" using swap_descriptor_in_ok [OF len, of bt blockNum allow] assms(1) by auto
  have n0: "0 \<le> n" by (simp add: n_def)
  have "fields_in F m 0"
    using D(2) len n0 offs_fields_mem [of _ "nat (n + 1)" "blockSize - 2 * (n + 1)" 0]
    by (force simp: F_def fields_in_def in_mem_def)
  then have "bytes_at (rev_fields F m 0) 8 1 = bytes_at m 8 1"
    using D(2) len offs_fields_mem [of _ "nat (n + 1)" "blockSize - 2 * (n + 1)" 0]
    by (intro bytes_at_rev_fields) (force simp: F_def in_mem_def)+
  then show ?thesis using D(1) l len by (simp add: rd_kind_def rd_in in_mem_def get8_def)
qed

lemma content_roundtrip:
  assumes "120 \<le> int (length m)" "rd_kind m = Some kBTHeaderNode \<or> rd_kind m = Some kBTMapNode"
    and "swap_node_content sig fileID blockSize dir m = Some (Inr m')"
  shows "swap_node_content sig fileID blockSize dir' m' = Some (Inr m)"
proof (cases "rd_kind m = Some kBTHeaderNode")
  case True
  then have s: "swap_fields header_fields m 14 = Some m'" using assms(3) by (auto simp: swap_node_content_def)
  have b: "snd f \<in> {2, 4, 8} \<and> 0 \<le> fst f \<and> fst f + snd f \<le> 42" if "f \<in> set header_fields" for f
    using that by (auto simp: header_fields_def)
  then have fi: "fields_in header_fields m 14" using assms(1) by (force simp: fields_in_def in_mem_def)
  note tw = swap_fields_twice [OF fi fields_disjoint_consts(2) s]
  have "bytes_at (rev_fields header_fields m 14) 8 1 = bytes_at m 8 1"
    using assms(1) b by (intro bytes_at_rev_fields [OF fi]) (force simp: in_mem_def)+
  then have "rd_kind m' = rd_kind m"
    using swap_fields_rev [OF fi] s tw(2) by (simp add: rd_kind_def rd8_def rdn_def in_mem_def)
  then show ?thesis using tw(1) True by (simp add: swap_node_content_def)
next
  case False
  then show ?thesis using assms(2,3) by (auto simp: swap_node_content_def)
qed

lemma same_outside_rev_fields:
  assumes "fields_in fs m p" "\<And>f. f \<in> set fs \<Longrightarrow> 0 \<le> fst f \<and> fst f + snd f \<le> k"
  shows "same_outside m (rev_fields fs m p) p (p + k)"
  using assms
proof (induction fs arbitrary: m)
  case (Cons f fs)
  then have f: "in_mem m (p + fst f) (snd f)" "fields_in fs m p" by (auto simp: fields_in_def)
  have "same_outside m (rev_at m (p + fst f) (snd f)) p (p + k)"
    using f(1) Cons.prems(2) [of f] by (intro same_outside_rev_at) auto
  from same_outside_trans [OF this Cons.IH] f Cons.prems(2) show ?case by (simp add: rev_fields_def)
qed (simp add: rev_fields_def)

lemma bind_sum_Inr:
  "(r \<bind> (\<lambda>x. case x of Inl e \<Rightarrow> Some (Inl e) | Inr m \<Rightarrow> k m)) = Some (Inr y) \<longleftrightarrow>
     (\<exists>m. r = Some (Inr m) \<and> k m = Some (Inr y))"
  for r :: swap_result and y :: mem
  by (cases r; cases "the r") auto

section \<open>Properties\<close>

text \<open>Nodes of 128 bytes, as they are on disk: a leaf with one hot file record, a map node, and a leaf of the
  extents tree whose only record is 20 bytes long.\<close>

definition ex_bt128 :: BTreeControlBlock where "ex_bt128 = ex_bt \<lparr> nodeSize := 128 \<rparr>"

definition ex_hot_disk :: mem where
  "ex_hot_disk = [0,0,0,2, 0,0,0,0, 255,1, 0,1, 0,0] @ [0,10, 0,0, 0,0,0,5, 0,0,0,20] @ [0,0,0,7] @
     replicate 94 0 @ [0,30, 0,14]"

definition ex_map_disk :: mem where
  "ex_map_disk = [0,0,0,3, 0,0,0,0, 2,0, 0,1, 0,0] @ replicate 110 0xA5 @ [0,124, 0,14]"

definition ex_extents_disk :: mem where
  "ex_extents_disk = [0,0,0,0, 0,0,0,0, 255,1, 0,1, 0,0] @ replicate 90 0 @
     [0,10, 0,0, 0,0,0,20, 0,0,0,8] @ [0,0,0,3, 0,0,0,1] @ [0,124, 0,104]"

lemma ex_disk_length: "length ex_hot_disk = 128" "length ex_extents_disk = 128" "length ex_map_disk = 128"
  "nodeSize ex_bt128 = 128" "totalNodes ex_bt128 = 4"
  by (simp_all add: ex_hot_disk_def ex_extents_disk_def ex_map_disk_def ex_bt128_def ex_bt_def)

definition ex_is_ok :: "swap_result \<Rightarrow> bool" where
  "ex_is_ok r = (case r of Some (Inr m) \<Rightarrow> True | _ \<Rightarrow> False)"

lemma ex_disk_ok:
  "ex_is_ok (hfs_swap_BTNode ex_bt128 0x482B 17 1 128 kSwapBTNodeBigToHost False ex_hot_disk)"
  "ex_is_ok (hfs_swap_BTNode ex_bt128 0x482B 17 1 128 kSwapBTNodeBigToHost False ex_map_disk)"
  "rd_kind ex_hot_disk = Some kBTLeafNode" "rd_kind ex_map_disk = Some kBTMapNode"
  by code_simp+






text \<open>Writing a header or map node restores the bytes that were read.\<close>

theorem header_map_roundtrip:
  assumes "int (length m) = nodeSize bt" "120 \<le> nodeSize bt" "totalNodes bt \<noteq> 0"
    "rd_kind m = Some kBTHeaderNode \<or> rd_kind m = Some kBTMapNode"
    "hfs_swap_BTNode bt sig fileID blockNum (nodeSize bt) kSwapBTNodeBigToHost allow m = Some (Inr m')"
  shows "hfs_swap_BTNode bt sig fileID blockNum (nodeSize bt) kSwapBTNodeHostToBig allow m' = Some (Inr m)"
proof -
  obtain m1 where m1: "swap_descriptor_in bt blockNum (nodeSize bt) allow m = Some (Inr m1)"
    "swap_node_content sig fileID (nodeSize bt) kSwapBTNodeBigToHost m1 = Some (Inr m')"
    using assms(5) by (auto simp: hfs_swap_BTNode_def bind_sum_Inr)
  have len: "16 \<le> nodeSize bt" using assms(2) by simp
  have l1: "length m1 = length m" using swap_descriptor_in_ok [OF assms(1) len, of bt blockNum allow] m1(1) by auto
  have k1: "rd_kind m1 = rd_kind m" using swap_descriptor_in_kind m1(1) assms(1) len by simp
  have "swap_node_content sig fileID (nodeSize bt) kSwapBTNodeHostToBig m' = Some (Inr m1)"
    using content_roundtrip [OF _ _ m1(2)] l1 k1 assms(1,2,4) by simp
  then show ?thesis
    using swap_descriptor_roundtrip [OF m1(1) assms(1) len assms(3)] by (simp add: hfs_swap_BTNode_def)
qed

theorem header_map_roundtrip_witness:
  "\<exists>m'. hfs_swap_BTNode ex_bt128 0x482B 17 1 128 kSwapBTNodeBigToHost False ex_map_disk = Some (Inr m') \<and>
     hfs_swap_BTNode ex_bt128 0x482B 17 1 128 kSwapBTNodeHostToBig False m' = Some (Inr ex_map_disk)"
proof -
  obtain m' where "hfs_swap_BTNode ex_bt128 0x482B 17 1 128 kSwapBTNodeBigToHost False ex_map_disk = Some (Inr m')"
    using ex_disk_ok(2) by (auto simp: ex_is_ok_def split: option.splits sum.splits)
  with header_map_roundtrip [where m = ex_map_disk and bt = ex_bt128 and fileID = 17 and sig = "0x482B" and blockNum = 1 and allow = False and m' = m'] show ?thesis
    by (simp add: ex_disk_length ex_disk_ok)
qed

text \<open>Swapping the fork data of a file twice restores it; it touches the 80 bytes of the structure only.\<close>

theorem ForkData_roundtrip:
  assumes "in_mem m p 80"
  shows "\<exists>m'. hfs_swap_HFSPlusForkData m p = Some m' \<and> hfs_swap_HFSPlusForkData m' p = Some m \<and>
     same_outside m m' p (p + 80)"
proof -
  have mem: "f \<in> set fork_fields \<Longrightarrow> snd f \<in> {2, 4, 8} \<and> 0 \<le> fst f \<and> fst f + snd f \<le> 80" for f
    by (auto simp: fork_fields_def dest!: extent_fields_bounds)
  then have fi: "fields_in fork_fields m p" using assms by (force simp: fields_in_def in_mem_def)
  then obtain m' where m': "swap_fields fork_fields m p = Some m'" using swap_fields_rev by blast
  have "same_outside m (rev_fields fork_fields m p) p (p + 80)"
    using same_outside_rev_fields [OF fi] mem by (simp add: add.assoc)
  then show ?thesis
    using swap_fields_twice(1) [OF fi fields_disjoint_consts(1) m'] m' swap_fields_rev [OF fi] by (simp add: ForkData_fields)
qed

theorem ForkData_roundtrip_witness:
  "\<exists>m'. hfs_swap_HFSPlusForkData (replicate 80 1) 0 = Some m' \<and> hfs_swap_HFSPlusForkData m' 0 = Some (replicate 80 1)"
  using ForkData_roundtrip [of "replicate 80 1" 0] by (auto simp: in_mem_def)


end
