(* ===== verification/UnicodeNames.thy ===== *)
theory UnicodeNames
  imports C_Memory CaseTables "HOL-Library.List_Lexorder"
begin

text \<open>
  File names: \<open>src/kmod/core/UnicodeWrappers.c\<close>.

  A UTF-16 name is a list of 16-bit values, a byte string a list of byte values; a C array that is
  given with its length is the list of its elements.  The comparisons order names in the catalog
  and attribute trees; the mangling routines embed a file ID in a name that is too long.
\<close>

section \<open>Comparisons\<close>

subsection \<open>FastUnicodeCompare\<close>

text \<open>The case folding of one character above Latin-1.\<close>

definition fold_char :: "int \<Rightarrow> int" where
  "fold_char c = (let temp = gLowerCaseTable ! nat (drop_bit 8 c) in
     if temp \<noteq> 0 then gLowerCaseTable ! nat (temp + (c AND 0x00FF)) else c)"

text \<open>The inner loop: the next character that is not ignorable, or zero, and the rest of the string.\<close>

fun next_valid :: "int list \<Rightarrow> int \<times> int list" where
  "next_valid [] = (0, [])"
| "next_valid (c # str) =
     (if c < 0x0100 then (gLatinCaseFold ! nat c, str)
      else let c' = fold_char c in if c' = 0 then next_valid str else (c', str))"

lemma next_valid_length: "fst (next_valid s) \<noteq> 0 \<Longrightarrow> length (snd (next_valid s)) < length s"
proof (induction s rule: next_valid.induct)
  case (2 c str)
  then show ?case by (auto simp: Let_def)
qed simp

function FastUnicodeCompare :: "int list \<Rightarrow> int list \<Rightarrow> int" where
  "FastUnicodeCompare str1 str2 =
     (let (c1, rest1) = next_valid str1; (c2, rest2) = next_valid str2 in
      if c1 \<noteq> c2 then (if c1 < c2 then -1 else 1)
      else if c1 = 0 then 0
      else FastUnicodeCompare rest1 rest2)"
  by pat_completeness auto
termination
proof (relation "measure (\<lambda>(a, b). length a)")
  fix str1 str2 :: "int list" and x c1 rest1 y c2 rest2
  assume "x = next_valid str1" "(c1, rest1) = x" "\<not> c1 \<noteq> c2" "c1 \<noteq> 0"
  then show "((rest1, rest2), str1, str2) \<in> measure (\<lambda>(a, b). length a)"
    using next_valid_length [of str1] by (cases "next_valid str1") auto
qed auto

declare FastUnicodeCompare.simps [simp del]

subsection \<open>UnicodeBinaryCompare\<close>

text \<open>The loop over the characters both strings have; \<open>result\<close> is the guess made from the lengths.\<close>

fun binary_compare_loop :: "int list \<Rightarrow> int list \<Rightarrow> int \<Rightarrow> int" where
  "binary_compare_loop (c1 # str1) (c2 # str2) result =
     (if c1 > c2 then 1 else if c1 < c2 then -1 else binary_compare_loop str1 str2 result)"
| "binary_compare_loop _ _ result = result"

definition UnicodeBinaryCompare :: "int list \<Rightarrow> int list \<Rightarrow> int" where
  "UnicodeBinaryCompare str1 str2 =
     binary_compare_loop str1 str2
       (if length str1 < length str2 then -1 else if length str1 > length str2 then 1 else 0)"

subsection \<open>FastRelString\<close>

text \<open>Pascal strings: the first byte is the length.\<close>

fun rel_string_loop :: "int list \<Rightarrow> int list \<Rightarrow> int \<Rightarrow> int" where
  "rel_string_loop (a # str1) (b # str2) bestGuess =
     (if a \<noteq> b then
        (if gCompareTable ! nat a > gCompareTable ! nat b then 1
         else if gCompareTable ! nat a < gCompareTable ! nat b then -1
         else rel_string_loop str1 str2 bestGuess)
      else rel_string_loop str1 str2 bestGuess)"
| "rel_string_loop _ _ bestGuess = bestGuess"

definition FastRelString :: "int list \<Rightarrow> int list \<Rightarrow> int option" where
  "FastRelString str1 str2 = (case (str1, str2) of
     (length1 # s1, length2 # s2) \<Rightarrow>
       let (n, bestGuess) = (if length1 = length2 then (length1, 0)
                             else if length1 < length2 then (length1, -1) else (length2, 1)) in
       if n \<le> int (length s1) \<and> n \<le> int (length s2)
       then Some (rel_string_loop (take (nat n) s1) (take (nat n) s2) bestGuess) else None
   | _ \<Rightarrow> None)"

section \<open>Mangled names\<close>

definition kMaxFileExtensionChars :: int where "kMaxFileExtensionChars = 5"

definition EXTENSIONCHAR :: "int \<Rightarrow> bool" where
  "EXTENSIONCHAR c \<longleftrightarrow> (c \<ge> 0x61 \<and> c \<le> 0x7A) \<or> (c \<ge> 0x41 \<and> c \<le> 0x5A) \<or> (c \<ge> 0x30 \<and> c \<le> 0x39)"

definition IsHexDigit :: "int \<Rightarrow> bool" where
  "IsHexDigit c \<longleftrightarrow> (c \<ge> 0x30 \<and> c \<le> 0x39) \<or> (c \<ge> 0x41 \<and> c \<le> 0x46)"

definition elem_at :: "int list \<Rightarrow> int \<Rightarrow> int option" where
  "elem_at xs i = (if 0 \<le> i \<and> i < int (length xs) then Some (xs ! nat i) else None)"

text \<open>The backward scan for the dot, shared by the two routines: \<open>i\<close> is the index of the character to look
  at; the result is the number of extension characters when there is an extension.\<close>

function ext_scan :: "int list \<Rightarrow> int \<Rightarrow> int \<Rightarrow> int \<Rightarrow> (int \<times> bool) option" where
  "ext_scan str maxExtChars i extChars =
     (if extChars \<le> maxExtChars then do {
        c \<leftarrow> elem_at str i;
        if c = 0x2E then Some (extChars, extChars > 0)
        else if EXTENSIONCHAR c then ext_scan str maxExtChars (i - 1) (extChars + 1)
        else Some (extChars, False) }
      else Some (extChars, False))"
  by pat_completeness auto
termination
  by (relation "measure (\<lambda>(s, m, i, e). nat (m + 1 - e))") auto

declare ext_scan.simps [simp del]

definition max_ext_chars :: "int \<Rightarrow> int" where
  "max_ext_chars len = (if len < kMaxFileExtensionChars + 2 then len - 2 else kMaxFileExtensionChars)"

text \<open>The extension with its dot, as bytes (empty when there is none).\<close>

definition GetFilenameExtension :: "int list \<Rightarrow> int list option" where
  "GetFilenameExtension unicodeStr =
     (let len = int (length unicodeStr) in
      if len < 3 then Some []
      else do {
        (extChars, foundExtension) \<leftarrow> ext_scan unicodeStr (max_ext_chars len) (len - 1) 0;
        if foundExtension
        then Some (map u8 (take (nat (extChars + 1)) (drop (nat (len - 1 - extChars)) unicodeStr)))
        else Some [] })"

definition CountFilenameExtensionChars :: "int list \<Rightarrow> int \<Rightarrow> int option" where
  "CountFilenameExtensionChars filename len =
     (if len < 3 then Some 0
      else do {
        (extChars, foundExtension) \<leftarrow> ext_scan filename (max_ext_chars len) (len - 1) 0;
        Some (if foundExtension then extChars else 0) })"

fun HexStringToInteger_loop :: "int list \<Rightarrow> int \<Rightarrow> int" where
  "HexStringToInteger_loop [] val = val"
| "HexStringToInteger_loop (c # hexStr) val =
     (if c \<ge> 0x30 \<and> c \<le> 0x39 then HexStringToInteger_loop hexStr (u32 (u32 (push_bit 4 val) + (c - 0x30)))
      else if c \<ge> 0x41 \<and> c \<le> 0x46 then HexStringToInteger_loop hexStr (u32 (u32 (push_bit 4 val) + (10 + (c - 0x41))))
      else 0)"

definition HexStringToInteger :: "int list \<Rightarrow> int" where
  "HexStringToInteger hexStr = HexStringToInteger_loop hexStr 0"

text \<open>The scan for the file ID marker; \<open>i\<close> is a \<open>short\<close>.  The result is the file ID and the prefix length.\<close>

function fileid_scan :: "int list \<Rightarrow> int \<Rightarrow> int \<Rightarrow> (int \<times> int) option" where
  "fileid_scan filename len i =
     (if i \<ge> 0 then do {
        c \<leftarrow> elem_at filename i;
        if c = 0x23 then
          (if u32 (len - i) < 3 then Some (0, 0)
           else if len > int (length filename) then None
           else Some (HexStringToInteger (take (nat (len - i - 1)) (drop (nat (i + 1)) filename)), i))
        else if \<not> IsHexDigit c then Some (0, 0)
        else fileid_scan filename len (i - 1) }
      else Some (0, 0))"
  by pat_completeness auto
termination
  by (relation "measure (\<lambda>(f, l, i). nat (i + 1))") auto

declare fileid_scan.simps [simp del]

definition GetEmbeddedFileID :: "int list \<Rightarrow> int \<Rightarrow> (int \<times> int) option" where
  "GetEmbeddedFileID filename len0 =
     (if len0 < 28 then Some (0, 0)
      else do {
        extChars \<leftarrow> (if len0 > 5 then map_option s16 (CountFilenameExtensionChars filename len0) else Some 0);
        let len = (if extChars > 0 then u32 (len0 - (extChars + 1)) else len0);
        fileid_scan filename len (s16 (len - 1)) })"
section \<open>The order of names\<close>

definition u16_list :: "int list \<Rightarrow> bool" where
  "u16_list s \<longleftrightarrow> (\<forall>c\<in>set s. 0 \<le> c \<and> c < 65536)"

lemma u16_list_simps [simp]: "u16_list []" "u16_list (c # s) \<longleftrightarrow> 0 \<le> c \<and> c < 65536 \<and> u16_list s"
  by (auto simp: u16_list_def)

text \<open>The case-folded form of a name: every character is folded, ignorable characters are dropped.\<close>

definition casefold :: "int list \<Rightarrow> int list" where
  "casefold s = filter (\<lambda>c. c \<noteq> 0) (map (\<lambda>c. if c < 0x0100 then gLatinCaseFold ! nat c else fold_char c) s)"

lemma latin_pos: "0 \<le> c \<Longrightarrow> c < 256 \<Longrightarrow> 0 < gLatinCaseFold ! nat c"
  using gLatinCaseFold_range by (auto simp: list_all_length)

text \<open>Every access to the two-level table is inside of it.\<close>

lemma lower_index_bound:
  assumes "0 \<le> c" "c < 65536"
  shows "nat (drop_bit 8 c) < length gLowerCaseTable"
    "nat (gLowerCaseTable ! nat (drop_bit 8 c) + (c AND 0x00FF)) < length gLowerCaseTable"
proof -
  have i: "nat (drop_bit 8 c) < 256" using assms by (simp add: drop_bit_eq_div nat_less_iff)
  then show "nat (drop_bit 8 c) < length gLowerCaseTable" by (simp add: gLowerCaseTable_range)
  have "gLowerCaseTable ! nat (drop_bit 8 c) = gLowerCase0 ! nat (drop_bit 8 c)"
    using i gLowerCase0_range by (simp add: gLowerCaseTable_def nth_append)
  moreover have "gLowerCase0 ! nat (drop_bit 8 c) \<le> 0x900"
    using gLowerCase0_max i gLowerCase0_range(1) by (simp add: list_all_length)
  moreover have "c AND 0x00FF \<le> 255"
    using take_bit_int_less_exp [of 8 c] by (simp add: take_bit_eq_mask mask_eq_exp_minus_1)
  ultimately have "gLowerCaseTable ! nat (drop_bit 8 c) + (c AND 0x00FF) < 2560" by linarith
  then show "nat (gLowerCaseTable ! nat (drop_bit 8 c) + (c AND 0x00FF)) < length gLowerCaseTable"
    unfolding gLowerCaseTable_range by linarith
qed

lemma fold_char_range: "0 \<le> c \<Longrightarrow> c < 65536 \<Longrightarrow> 0 \<le> fold_char c"
  using lower_index_bound(2) [of c] gLowerCaseTable_range(2) by (auto simp: fold_char_def Let_def list_all_length)

lemma next_valid_casefold:
  assumes "u16_list s"
  shows "case casefold s of [] \<Rightarrow> fst (next_valid s) = 0
     | x # xs \<Rightarrow> 0 < x \<and> fst (next_valid s) = x \<and> casefold (snd (next_valid s)) = xs \<and> u16_list (snd (next_valid s))"
  using assms
proof (induction s)
  case (Cons c s)
  then have c: "0 \<le> c" "c < 65536" "u16_list s" by auto
  show ?case
  proof (cases "c < 256")
    case True
    then show ?thesis using latin_pos [OF c(1) True] c by (simp add: casefold_def)
  next
    case False
    have "0 \<le> fold_char c" using fold_char_range c by simp
    then show ?thesis using Cons.IH c False by (auto simp: casefold_def Let_def split: list.splits)
  qed
qed (simp add: casefold_def)

lemma FastUnicodeCompare_casefold:
  assumes "u16_list s1" "u16_list s2"
  shows "FastUnicodeCompare s1 s2 =
    (if casefold s1 = casefold s2 then 0 else if casefold s1 < casefold s2 then -1 else 1)"
  using assms
proof (induction s1 s2 rule: FastUnicodeCompare.induct)
  case (1 s1 s2)
  obtain c1 r1 c2 r2 where n: "next_valid s1 = (c1, r1)" "next_valid s2 = (c2, r2)" by fastforce
  note v = next_valid_casefold [OF 1(2)] next_valid_casefold [OF 1(3)]
  show ?case
  proof (cases "c1 = c2 \<and> c1 \<noteq> 0")
    case True
    then have "casefold s1 = c1 # casefold r1" "casefold s2 = c2 # casefold r2" "u16_list r1" "u16_list r2"
      using v n by (auto split: list.splits)
    moreover have "FastUnicodeCompare s1 s2 = FastUnicodeCompare r1 r2"
      using True n by (subst FastUnicodeCompare.simps) simp
    ultimately show ?thesis using 1(1) [OF n(1) [symmetric] refl n(2) [symmetric] refl] True by simp
  next
    case False
    then show ?thesis
      using v n by (subst FastUnicodeCompare.simps) (auto split: list.splits)
  qed
qed

lemma binary_compare_lex:
  "binary_compare_loop s1 s2 (if length s1 < length s2 then -1 else if length s1 > length s2 then 1 else 0) =
    (if s1 = s2 then 0 else if s1 < s2 then -1 else 1)"
proof (induction s1 arbitrary: s2)
  case Nil
  then show ?case by (cases s2) auto
next
  case (Cons c s1)
  show ?case
  proof (cases s2)
    case (Cons d t)
    then show ?thesis using Cons.IH [of t] by (auto split: if_splits)
  qed simp
qed

lemma UnicodeBinaryCompare_lex:
  "UnicodeBinaryCompare s1 s2 = (if s1 = s2 then 0 else if s1 < s2 then -1 else 1)"
  unfolding UnicodeBinaryCompare_def by (rule binary_compare_lex)

section \<open>File IDs in mangled names\<close>

text \<open>The upper-case hexadecimal digits that \<open>#%X\<close> prints.\<close>

definition hex_digit :: "int \<Rightarrow> int" where
  "hex_digit d = (if d < 10 then 0x30 + d else 0x41 + (d - 10))"

fun hex_value :: "int list \<Rightarrow> int" where
  "hex_value [] = 0"
| "hex_value (d # ds) = d * 16 ^ length ds + hex_value ds"

lemma hex_digit_props:
  assumes "0 \<le> d" "d < 16"
  shows "IsHexDigit (hex_digit d)" "hex_digit d \<noteq> 0x23" "hex_digit d \<noteq> 0x2E" "EXTENSIONCHAR (hex_digit d)"
  using assms by (auto simp: hex_digit_def IsHexDigit_def EXTENSIONCHAR_def)

lemma HexStringToInteger_loop_digits:
  assumes "\<forall>d\<in>set ds. 0 \<le> d \<and> d < 16"
  shows "HexStringToInteger_loop (map hex_digit ds) (u32 v) = u32 (v * 16 ^ length ds + hex_value ds)"
  using assms
proof (induction ds arbitrary: v)
  case (Cons d ds)
  have "HexStringToInteger_loop (map hex_digit (d # ds)) (u32 v) =
      HexStringToInteger_loop (map hex_digit ds) (u32 (u32 (push_bit 4 (u32 v)) + d))"
    using Cons.prems by (auto simp: hex_digit_def)
  also have "u32 (u32 (push_bit 4 (u32 v)) + d) = u32 (v * 16 + d)"
    by (simp add: u32_def push_bit_eq_mult mod_simps)
  finally show ?case using Cons by (simp add: algebra_simps)
qed simp

lemma HexStringToInteger_digits:
  "\<forall>d\<in>set ds. 0 \<le> d \<and> d < 16 \<Longrightarrow> HexStringToInteger (map hex_digit ds) = u32 (hex_value ds)"
  using HexStringToInteger_loop_digits [of ds 0] by (simp add: HexStringToInteger_def u32_def)

lemma fileid_scan_digits:
  assumes "\<forall>d\<in>set ds. 0 \<le> d \<and> d < 16" "2 \<le> length ds" "len = int (length pre + 1 + length ds)" "len < 2 ^ 32"
  shows "fileid_scan (pre @ [0x23] @ map hex_digit ds @ ext) len (len - 1) = Some (u32 (hex_value ds), int (length pre))"
proof -
  have "fileid_scan (pre @ [0x23] @ map hex_digit ds @ ext) len (int (length pre + k)) = Some (u32 (hex_value ds), int (length pre))"
    if "k \<le> length ds" for k
    using that
  proof (induction k)
    case 0
    have "u32 (len - int (length pre)) = len - int (length pre)" using assms by (intro u32_id) auto
    then show ?case using assms
      by (subst fileid_scan.simps) (simp add: elem_at_def nth_append nat_add_distrib HexStringToInteger_digits)
  next
    case (Suc k)
    have "(pre @ [0x23] @ map hex_digit ds @ ext) ! (length pre + Suc k) = hex_digit (ds ! k)"
      using Suc.prems by (simp add: nth_append)
    moreover have "0 \<le> ds ! k" "ds ! k < 16" using assms(1) Suc.prems by auto
    ultimately show ?case using Suc hex_digit_props [of "ds ! k"]
      by (subst fileid_scan.simps) (simp add: elem_at_def nat_add_distrib)
  qed
  from this [of "length ds"] show ?thesis using assms(3) by simp
qed
lemma ext_scan_run:
  assumes "\<forall>k<n. EXTENSIONCHAR (str ! nat (i - int k))" "e + int n \<le> mx + 1" "int n \<le> i + 1" "i < int (length str)"
  shows "ext_scan str mx i e = ext_scan str mx (i - int n) (e + int n)"
  using assms
proof (induction n arbitrary: i e)
  case (Suc n)
  have c: "EXTENSIONCHAR (str ! nat i)" using Suc.prems(1) by (elim allE [of _ 0]) simp
  then have "str ! nat i \<noteq> 0x2E" by (auto simp: EXTENSIONCHAR_def)
  with c have "ext_scan str mx i e = ext_scan str mx (i - 1) (e + 1)"
    using Suc.prems(2-4) by (subst ext_scan.simps) (simp add: elem_at_def)
  moreover have "EXTENSIONCHAR (str ! nat (i - 1 - int k))" if "k < n" for k
    using Suc.prems(1) that by (elim allE [of _ "Suc k"]) (simp add: algebra_simps)
  ultimately show ?case using Suc.IH [of "i - 1" "e + 1"] Suc.prems(2-4) by (simp add: algebra_simps)
qed simp

lemma nth_from_end: "k < length ys \<Longrightarrow> (xs @ ys) ! nat (int (length xs + length ys) - 1 - int k) = ys ! (length ys - 1 - k)"
proof -
  assume "k < length ys"
  then have "nat (int (length xs + length ys) - 1 - int k) = length xs + (length ys - 1 - k)" by linarith
  then show ?thesis by (simp add: nth_append)
qed

lemma ext_count_dot:
  assumes "list_all EXTENSIONCHAR e" "e \<noteq> []" "length e \<le> 5" "pre \<noteq> []"
  shows "CountFilenameExtensionChars (pre @ 0x2E # e) (int (length (pre @ 0x2E # e))) = Some (int (length e))"
proof -
  let ?str = "pre @ 0x2E # e" and ?len = "int (length (pre @ 0x2E # e))"
  have mx: "int (length e) \<le> max_ext_chars ?len"
    using assms by (cases pre) (auto simp: max_ext_chars_def kMaxFileExtensionChars_def)
  have l: "3 \<le> ?len" using assms by (cases pre; cases e) auto
  have "\<forall>k<length e. EXTENSIONCHAR (?str ! nat (?len - 1 - int k))"
  proof (intro allI impI)
    fix k assume k: "k < length e"
    have "?str ! nat (?len - 1 - int k) = e ! (length e - 1 - k)"
      using nth_from_end [of k e "pre @ [0x2E]"] k by simp
    then show "EXTENSIONCHAR (?str ! nat (?len - 1 - int k))" using assms(1) k by (simp add: list_all_length)
  qed
  then have "ext_scan ?str (max_ext_chars ?len) (?len - 1) 0 = ext_scan ?str (max_ext_chars ?len) (int (length pre)) (int (length e))"
    using ext_scan_run [of "length e" ?str "?len - 1" 0 "max_ext_chars ?len"] mx by simp
  also have "\<dots> = Some (int (length e), True)"
    using mx assms(2) by (subst ext_scan.simps) (simp add: elem_at_def)
  finally show ?thesis using l by (simp add: CountFilenameExtensionChars_def)
qed

lemma ext_count_digits:
  assumes "\<forall>d\<in>set ds. 0 \<le> d \<and> d < 16" "28 \<le> length (pre @ 0x23 # map hex_digit ds)"
  shows "CountFilenameExtensionChars (pre @ 0x23 # map hex_digit ds) (int (length (pre @ 0x23 # map hex_digit ds))) = Some 0"
proof -
  let ?str = "pre @ 0x23 # map hex_digit ds" and ?len = "int (length (pre @ 0x23 # map hex_digit ds))"
  define n where "n = min (length ds) 6"
  have mx: "max_ext_chars ?len = 5" using assms(2) by (simp add: max_ext_chars_def kMaxFileExtensionChars_def)
  have "\<forall>k<n. EXTENSIONCHAR (?str ! nat (?len - 1 - int k))"
  proof (intro allI impI)
    fix k assume k: "k < n"
    have "?str ! nat (?len - 1 - int k) = hex_digit (ds ! (length ds - 1 - k))"
      using nth_from_end [of k "map hex_digit ds" "pre @ [0x23]"] k by (simp add: n_def)
    moreover have "ds ! (length ds - 1 - k) \<in> set ds" using k by (intro nth_mem) (auto simp: n_def)
    then have "0 \<le> ds ! (length ds - 1 - k) \<and> ds ! (length ds - 1 - k) < 16" using assms(1) by blast
    ultimately show "EXTENSIONCHAR (?str ! nat (?len - 1 - int k))" using hex_digit_props(4) by simp
  qed
  then have "ext_scan ?str 5 (?len - 1) 0 = ext_scan ?str 5 (?len - 1 - int n) (int n)"
    using ext_scan_run [of n ?str "?len - 1" 0 5] by (simp add: n_def)
  also have "\<dots> = Some (int n, False)"
  proof (cases "length ds < 6")
    case True
    then show ?thesis by (subst ext_scan.simps) (simp add: n_def elem_at_def EXTENSIONCHAR_def)
  qed (subst ext_scan.simps, simp add: n_def)
  finally show ?thesis using mx assms(2) by (simp add: CountFilenameExtensionChars_def)
qed

section \<open>Properties\<close>

text \<open>C24: \<open>FastUnicodeCompare\<close> terminates and is the lexicographic comparison of the case-folded names, with
  ignorable characters left out.\<close>

theorem FastUnicodeCompare_correct:
  assumes "u16_list s1" "u16_list s2"
  shows "FastUnicodeCompare s1 s2 =
    (if casefold s1 = casefold s2 then 0 else if casefold s1 < casefold s2 then -1 else 1)"
  by (rule FastUnicodeCompare_casefold [OF assms])

theorem FastUnicodeCompare_correct_witness:
  "FastUnicodeCompare [0x41, 0x200C, 0x62] [0x61, 0x42] = 0"
proof -
  have "casefold [0x41, 0x200C, 0x62] = casefold [0x61, 0x42]" by code_simp
  then show ?thesis using FastUnicodeCompare_correct [of "[0x41, 0x200C, 0x62]" "[0x61, 0x42]"] by simp
qed

text \<open>From a mangled name, a prefix followed by \<open>#\<close>, the digits of a file ID of at least two digits and an
  optional extension of one to five characters, \<open>GetEmbeddedFileID\<close> recovers the file ID and the length
  of the prefix, reading inside of the name only.\<close>

theorem GetEmbeddedFileID_mangled:
  assumes ds: "\<forall>d\<in>set ds. 0 \<le> d \<and> d < 16" "2 \<le> length ds"
    and ext: "ext = [] \<or> (\<exists>e. ext = 0x2E # e \<and> list_all EXTENSIONCHAR e \<and> e \<noteq> [] \<and> length e \<le> 5)"
    and name: "name = pre @ 0x23 # map hex_digit ds @ ext" "28 \<le> length name" "length name < 32768"
  shows "GetEmbeddedFileID name (int (length name)) = Some (u32 (hex_value ds), int (length pre))"
proof -
  define len where "len = int (length pre + 1 + length ds)"
  have scan: "fileid_scan name len (len - 1) = Some (u32 (hex_value ds), int (length pre))"
    using fileid_scan_digits [OF ds, of len pre ext] name by (simp add: len_def)
  have s: "s16 (len - 1) = len - 1" using name by (simp add: len_def)
  show ?thesis
  proof (cases "ext = []")
    case True
    then have "CountFilenameExtensionChars name (int (length name)) = Some 0" "int (length name) = len"
      using ext_count_digits [OF ds(1), of pre] name by (simp_all add: len_def)
    then show ?thesis using name(2) scan s by (simp add: GetEmbeddedFileID_def)
  next
    case False
    with ext obtain e where e: "ext = 0x2E # e" "list_all EXTENSIONCHAR e" "e \<noteq> []" "length e \<le> 5" by blast
    have c: "CountFilenameExtensionChars name (int (length name)) = Some (int (length e))"
      using ext_count_dot [OF e(2-4), of "pre @ 0x23 # map hex_digit ds"] e(1) name(1) by simp
    have "u32 (int (length name) - (int (length e) + 1)) = len" "s16 (int (length e)) = int (length e)" "0 < int (length e)"
      using e name by (auto simp: len_def)
    then show ?thesis using c name(2) scan s by (simp add: GetEmbeddedFileID_def)
  qed
qed

theorem GetEmbeddedFileID_mangled_witness:
  "GetEmbeddedFileID (replicate 24 0x61 @ 0x23 # map hex_digit [1, 10, 15] @ [0x2E, 0x63]) 30 = Some (0x1AF, 24)"
  using GetEmbeddedFileID_mangled [of "[1, 10, 15]" "[0x2E, 0x63]"
      "replicate 24 0x61 @ 0x23 # map hex_digit [1, 10, 15] @ [0x2E, 0x63]" "replicate 24 0x61"]
  by (simp add: EXTENSIONCHAR_def)


end
