(* ===== verification/KeyCompare.thy ===== *)
theory KeyCompare
  imports BTreeNodeOps UnicodeNames "HOL-Library.Product_Lexorder"
begin

text \<open>
  The key comparison routines that the owners of the trees install: \<open>CompareExtentKeysPlus\<close>
  (\<open>FileExtentMapping.c\<close>), \<open>CompareExtendedCatalogKeys\<close> and \<open>cat_binarykeycompare\<close> (\<open>hfs_catalog.c\<close>),
  \<open>hfs_attrkeycompare\<close> (\<open>hfs_xattr.c\<close>) and \<open>hfc_comparekeys\<close> (\<open>hfs_hotfiles.c\<close>).

  A key is a buffer that starts with the bytes of the key, in the byte order of the host.  Each routine
  is shown to be a linear order on the values of the keys, which makes the binary search of \<open>SearchNode\<close>
  correct for each of the trees.  The calls to \<open>DebugStr\<close> on keys of a wrong length only print a message.
\<close>

section \<open>Routines\<close>

definition CompareExtentKeysPlus :: "mem \<Rightarrow> mem \<Rightarrow> int option" where
  "CompareExtentKeysPlus searchKey trialKey = do {
     fileID1 \<leftarrow> rd32 searchKey 4; fileID2 \<leftarrow> rd32 trialKey 4;
     if fileID1 = fileID2 then do {
       forkType1 \<leftarrow> rd8 searchKey 2; forkType2 \<leftarrow> rd8 trialKey 2;
       if forkType1 = forkType2 then do {
         startBlock1 \<leftarrow> rd32 searchKey 8; startBlock2 \<leftarrow> rd32 trialKey 8;
         Some (if startBlock1 = startBlock2 then 0 else if startBlock1 > startBlock2 then 1 else -1) }
       else Some (if forkType1 > forkType2 then 1 else -1) }
     else Some (if fileID1 > fileID2 then 1 else -1) }"

fun rd_u16s :: "nat \<Rightarrow> mem \<Rightarrow> int \<Rightarrow> int list option" where
  "rd_u16s 0 m a = Some []"
| "rd_u16s (Suc n) m a = do { c \<leftarrow> rd16 m a; cs \<leftarrow> rd_u16s n m (a + 2); Some (c # cs) }"

definition cat_binarykeycompare :: "mem \<Rightarrow> mem \<Rightarrow> int option" where
  "cat_binarykeycompare searchKey trialKey = do {
     searchParentID \<leftarrow> rd32 searchKey 2; trialParentID \<leftarrow> rd32 trialKey 2;
     if searchParentID > trialParentID then Some 1
     else if searchParentID < trialParentID then Some (-1)
     else do {
       length1 \<leftarrow> rd16 searchKey 6; length2 \<leftarrow> rd16 trialKey 6;
       str1 \<leftarrow> rd_u16s (nat length1) searchKey 8; str2 \<leftarrow> rd_u16s (nat length2) trialKey 8;
       Some (UnicodeBinaryCompare str1 str2) } }"

definition CompareExtendedCatalogKeys :: "mem \<Rightarrow> mem \<Rightarrow> int option" where
  "CompareExtendedCatalogKeys searchKey trialKey = do {
     searchParentID \<leftarrow> rd32 searchKey 2; trialParentID \<leftarrow> rd32 trialKey 2;
     if searchParentID > trialParentID then Some 1
     else if searchParentID < trialParentID then Some (-1)
     else do {
       length1 \<leftarrow> rd16 searchKey 6; length2 \<leftarrow> rd16 trialKey 6;
       if length1 = 0 \<or> length2 = 0 then Some (length1 - length2)
       else do {
         str1 \<leftarrow> rd_u16s (nat length1) searchKey 8; str2 \<leftarrow> rd_u16s (nat length2) trialKey 8;
         Some (FastUnicodeCompare str1 str2) } } }"

definition hfs_attrkeycompare :: "mem \<Rightarrow> mem \<Rightarrow> int option" where
  "hfs_attrkeycompare searchKey trialKey = do {
     searchFileID \<leftarrow> rd32 searchKey 4; trialFileID \<leftarrow> rd32 trialKey 4;
     if searchFileID > trialFileID then Some 1
     else if searchFileID < trialFileID then Some (-1)
     else do {
       length1 \<leftarrow> rd16 searchKey 12; length2 \<leftarrow> rd16 trialKey 12;
       str1 \<leftarrow> rd_u16s (nat length1) searchKey 14; str2 \<leftarrow> rd_u16s (nat length2) trialKey 14;
       let result = binary_compare_loop str1 str2 (if length1 < length2 then -1 else if length1 > length2 then 1 else 0);
       if result \<noteq> 0 then Some result
       else do {
         startBlock1 \<leftarrow> rd32 searchKey 8; startBlock2 \<leftarrow> rd32 trialKey 8;
         Some (if startBlock1 = startBlock2 then 0 else if startBlock1 < startBlock2 then -1 else 1) } } }"

definition hfc_comparekeys :: "mem \<Rightarrow> mem \<Rightarrow> int option" where
  "hfc_comparekeys searchKey trialKey = do {
     temperature1 \<leftarrow> rd32 searchKey 4; temperature2 \<leftarrow> rd32 trialKey 4;
     if temperature1 = temperature2 then do {
       fileID1 \<leftarrow> rd32 searchKey 8; fileID2 \<leftarrow> rd32 trialKey 8;
       if fileID1 = fileID2 then do {
         forkType1 \<leftarrow> rd8 searchKey 2; forkType2 \<leftarrow> rd8 trialKey 2;
         Some (if forkType1 = forkType2 then 0 else if forkType1 > forkType2 then 1 else -1) }
       else Some (if fileID1 > fileID2 then 1 else -1) }
     else Some (if temperature1 > temperature2 then 1 else -1) }"

section \<open>Values of keys\<close>

definition u16s_at :: "mem \<Rightarrow> int \<Rightarrow> nat \<Rightarrow> int list" where
  "u16s_at m a n = map (\<lambda>i. get16 m (a + 2 * int i)) [0..<n]"

definition fixed_key_ok :: "mem \<Rightarrow> bool" where "fixed_key_ok k \<longleftrightarrow> in_mem k 0 12"
definition extent_key_val :: "mem \<Rightarrow> int \<times> int \<times> int" where "extent_key_val k = (get32 k 4, get8 k 2, get32 k 8)"
definition hotfile_key_val :: "mem \<Rightarrow> int \<times> int \<times> int" where "hotfile_key_val k = (get32 k 4, get32 k 8, get8 k 2)"

definition cat_key_ok :: "mem \<Rightarrow> bool" where
  "cat_key_ok k \<longleftrightarrow> in_mem k 0 8 \<and> in_mem k 8 (2 * get16 k 6)"
definition cat_name :: "mem \<Rightarrow> int list" where "cat_name k = u16s_at k 8 (nat (get16 k 6))"
definition cat_key_val :: "mem \<Rightarrow> int \<times> int list" where "cat_key_val k = (get32 k 2, cat_name k)"

text \<open>An empty name comes before every other one, also before a name of ignorable characters.\<close>

definition cat_key_fold_val :: "mem \<Rightarrow> int \<times> bool \<times> int list" where
  "cat_key_fold_val k = (get32 k 2, cat_name k \<noteq> [], casefold (cat_name k))"

definition attr_key_ok :: "mem \<Rightarrow> bool" where
  "attr_key_ok k \<longleftrightarrow> in_mem k 0 14 \<and> in_mem k 14 (2 * get16 k 12)"
definition attr_key_val :: "mem \<Rightarrow> int \<times> int list \<times> int" where
  "attr_key_val k = (get32 k 4, u16s_at k 14 (nat (get16 k 12)), get32 k 8)"

lemma rd_u16s_in: "in_mem m a (2 * int n) \<Longrightarrow> rd_u16s n m a = Some (u16s_at m a n)"
proof (induction n arbitrary: a)
  case (Suc n)
  have "in_mem m a 2" "in_mem m (a + 2) (2 * int n)" using Suc.prems by (auto simp: in_mem_def)
  then have "rd_u16s (Suc n) m a = Some (get16 m a # u16s_at m (a + 2) n)" using Suc.IH by (simp add: rd_in)
  moreover have "u16s_at m a (Suc n) = get16 m a # u16s_at m (a + 2) n"
    unfolding u16s_at_def upt_conv_Cons [OF zero_less_Suc] map_Suc_upt [symmetric] by (simp add: algebra_simps)
  ultimately show ?case by simp
qed (simp add: u16s_at_def)

lemma length_u16s_at [simp]: "length (u16s_at m a n) = n"
  by (simp add: u16s_at_def)

lemma u16_list_u16s_at [simp]: "u16_list (u16s_at m a n)"
  by (auto simp: u16_list_def u16s_at_def)

section \<open>The routines are linear orders\<close>

text \<open>What a comparison of two keys by value returns.\<close>

definition cmp_val :: "'k :: linorder \<Rightarrow> 'k \<Rightarrow> int" where
  "cmp_val x y = (if x = y then 0 else if x < y then -1 else 1)"

lemma cmp_val_sign: "cmp_val x y < 0 \<longleftrightarrow> x < y" "0 < cmp_val x y \<longleftrightarrow> y < x"
  by (auto simp: cmp_val_def)

lemma fixed_key_fields:
  "fixed_key_ok k \<Longrightarrow> rd32 k 4 = Some (get32 k 4)" "fixed_key_ok k \<Longrightarrow> rd8 k 2 = Some (get8 k 2)"
  "fixed_key_ok k \<Longrightarrow> rd32 k 8 = Some (get32 k 8)"
  by (auto simp: fixed_key_ok_def in_mem_def intro!: rd_in)

lemma CompareExtentKeysPlus_val:
  "fixed_key_ok a \<Longrightarrow> fixed_key_ok b \<Longrightarrow> CompareExtentKeysPlus a b = Some (cmp_val (extent_key_val a) (extent_key_val b))"
  by (auto simp: CompareExtentKeysPlus_def fixed_key_fields cmp_val_def extent_key_val_def less_prod_def)

lemma hfc_comparekeys_val:
  "fixed_key_ok a \<Longrightarrow> fixed_key_ok b \<Longrightarrow> hfc_comparekeys a b = Some (cmp_val (hotfile_key_val a) (hotfile_key_val b))"
  by (auto simp: hfc_comparekeys_def fixed_key_fields cmp_val_def hotfile_key_val_def less_prod_def)

lemma cat_key_fields:
  assumes "cat_key_ok k"
  shows "rd32 k 2 = Some (get32 k 2)" "rd16 k 6 = Some (get16 k 6)"
    "rd_u16s (nat (get16 k 6)) k 8 = Some (cat_name k)"
  using assms rd_u16s_in [of k 8 "nat (get16 k 6)"] by (auto simp: cat_key_ok_def in_mem_def cat_name_def intro!: rd_in)

lemma cat_binarykeycompare_val:
  "cat_key_ok a \<Longrightarrow> cat_key_ok b \<Longrightarrow> cat_binarykeycompare a b = Some (cmp_val (cat_key_val a) (cat_key_val b))"
  by (auto simp: cat_binarykeycompare_def cat_key_fields cmp_val_def cat_key_val_def less_prod_def
      UnicodeBinaryCompare_lex)

lemma cat_name_Nil: "cat_name k = [] \<longleftrightarrow> get16 k 6 = 0"
  by (simp add: cat_name_def u16s_at_def nat_eq_iff)

lemma CompareExtendedCatalogKeys_sign:
  assumes "cat_key_ok a" "cat_key_ok b"
  shows "\<exists>r. CompareExtendedCatalogKeys a b = Some r \<and>
     sgn r = cmp_val (cat_key_fold_val a) (cat_key_fold_val b)"
proof -
  have f: "FastUnicodeCompare (cat_name a) (cat_name b) = cmp_val (casefold (cat_name a)) (casefold (cat_name b))"
    by (simp add: FastUnicodeCompare_casefold cat_name_def cmp_val_def)
  have e: "get16 k 6 = 0 \<Longrightarrow> cat_name k = []" for k by (simp add: cat_name_Nil)
  have g: "0 \<le> get16 a 6" "0 \<le> get16 b 6" by simp_all
  show ?thesis
    using assms g by (cases "get16 a 6 = 0"; cases "get16 b 6 = 0")
      (auto simp: CompareExtendedCatalogKeys_def cat_key_fields f cmp_val_def cat_key_fold_val_def less_prod_def
        cat_name_Nil e sgn_if simp del: get_bounds)
qed

lemma attr_key_fields:
  assumes "attr_key_ok k"
  shows "rd32 k 4 = Some (get32 k 4)" "rd16 k 12 = Some (get16 k 12)" "rd32 k 8 = Some (get32 k 8)"
    "rd_u16s (nat (get16 k 12)) k 14 = Some (u16s_at k 14 (nat (get16 k 12)))"
  using assms rd_u16s_in [of k 14 "nat (get16 k 12)"] by (auto simp: attr_key_ok_def in_mem_def intro!: rd_in)

lemma hfs_attrkeycompare_val:
  assumes "attr_key_ok a" "attr_key_ok b"
  shows "hfs_attrkeycompare a b = Some (cmp_val (attr_key_val a) (attr_key_val b))"
proof -
  have n: "(nat (get16 a 12) < nat (get16 b 12)) = (get16 a 12 < get16 b 12)"
    "(nat (get16 b 12) < nat (get16 a 12)) = (get16 b 12 < get16 a 12)"
    by (rule nat_less_eq_zless [OF get_bounds(3)])+
  have "binary_compare_loop (u16s_at a 14 (nat (get16 a 12))) (u16s_at b 14 (nat (get16 b 12)))
      (if get16 a 12 < get16 b 12 then -1 else if get16 a 12 > get16 b 12 then 1 else 0) =
      cmp_val (u16s_at a 14 (nat (get16 a 12))) (u16s_at b 14 (nat (get16 b 12)))"
    using binary_compare_lex [of "u16s_at a 14 (nat (get16 a 12))" "u16s_at b 14 (nat (get16 b 12))"]
    unfolding length_u16s_at n cmp_val_def .
  then show ?thesis
    using assms by (simp add: hfs_attrkeycompare_def attr_key_fields Let_def)
      (auto simp: cmp_val_def attr_key_val_def less_prod_def)
qed

interpretation ext_order: key_order CompareExtentKeysPlus fixed_key_ok extent_key_val
  by unfold_locales (auto simp: CompareExtentKeysPlus_val cmp_val_sign)

interpretation hot_order: key_order hfc_comparekeys fixed_key_ok hotfile_key_val
  by unfold_locales (auto simp: hfc_comparekeys_val cmp_val_sign)

interpretation cat_order: key_order cat_binarykeycompare cat_key_ok cat_key_val
  by unfold_locales (auto simp: cat_binarykeycompare_val cmp_val_sign)

interpretation attr_order: key_order hfs_attrkeycompare attr_key_ok attr_key_val
  by unfold_locales (auto simp: hfs_attrkeycompare_val cmp_val_sign)

interpretation catfold_order: key_order CompareExtendedCatalogKeys cat_key_ok cat_key_fold_val
proof
  fix a b r assume k: "cat_key_ok a" "cat_key_ok b"
  then show "\<exists>r. CompareExtendedCatalogKeys a b = Some r" using CompareExtendedCatalogKeys_sign by blast
  assume "CompareExtendedCatalogKeys a b = Some r"
  then have "sgn r = cmp_val (cat_key_fold_val a) (cat_key_fold_val b)" using CompareExtendedCatalogKeys_sign [OF k] by auto
  then show "r < 0 \<longleftrightarrow> cat_key_fold_val a < cat_key_fold_val b" "0 < r \<longleftrightarrow> cat_key_fold_val b < cat_key_fold_val a"
    by (metis cmp_val_sign sgn_less sgn_greater)+
qed
section \<open>Properties\<close>

text \<open>A leaf of the extents tree with the records of two files.\<close>

definition ex_ext_node :: mem where
  "ex_ext_node = [0,0,0,0, 0,0,0,0, 255,1, 2,0, 0,0] @ [10,0, 0,0, 20,0,0,0, 8,0,0,0, 1,1,1,1] @
     [10,0, 0,0, 30,0,0,0, 8,0,0,0, 2,2,2,2] @ replicate 12 0 @ [46,0, 30,0, 14,0]"

lemma keys_sorted_2:
  "nrec node = 2 \<Longrightarrow> valid (key_at bt node 0) \<Longrightarrow> valid (key_at bt node 1) \<Longrightarrow>
     val (key_at bt node 0) < val (key_at bt node 1) \<Longrightarrow> keys_sorted valid val bt node"
  by (auto simp: keys_sorted_def less_2_cases_iff)

lemma ex_ext_node_keys:
  "nrec ex_ext_node = 2" "fixed_key_ok (key_at ex_bt ex_ext_node 0)" "fixed_key_ok (key_at ex_bt ex_ext_node 1)"
  "extent_key_val (key_at ex_bt ex_ext_node 0) = (20, 0, 8)" "extent_key_val (key_at ex_bt ex_ext_node 1) = (30, 0, 8)"
  by code_simp+

lemma ex_ext_node_wf: "node_wf ex_bt ex_ext_node" "fixed_key_ok [10,0, 0,0, 30,0,0,0, 8,0,0,0]"
  by code_simp+

lemma ex_ext_node_sorted: "keys_sorted fixed_key_ok extent_key_val ex_bt ex_ext_node"
  by (rule keys_sorted_2) (simp_all add: ex_ext_node_keys less_prod_def del: One_nat_def)

text \<open>In a well-formed node of the extents tree whose keys are valid and ascending, the binary search
  terminates, reads inside of the node only, and returns the record with the search key, or, when
  there is none, the index at which all keys before are smaller and all from there on are greater.\<close>

theorem SearchNode_extents:
  assumes "node_wf bt node" "keys_sorted fixed_key_ok extent_key_val bt node" "fixed_key_ok sk"
  shows "\<exists>r. SearchNode CompareExtentKeysPlus bt node sk = Some r \<and> search_result extent_key_val bt node sk r"
  by (rule ext_order.SearchNode_correct [OF assms])

theorem SearchNode_extents_witness:
  "\<exists>r. SearchNode CompareExtentKeysPlus ex_bt ex_ext_node [10,0, 0,0, 30,0,0,0, 8,0,0,0] = Some r \<and>
     search_result extent_key_val ex_bt ex_ext_node [10,0, 0,0, 30,0,0,0, 8,0,0,0] r"
  by (rule SearchNode_extents [OF ex_ext_node_wf(1) ex_ext_node_sorted ex_ext_node_wf(2)])

text \<open>The same for the catalog tree of a case-insensitive volume, where keys are ordered by parent folder,
  then empty names first, then by case-folded name: \<open>CompareExtendedCatalogKeys\<close> is a linear order on
  these values, and the search finds the one record whose name differs at most in case and in
  ignorable characters.\<close>

theorem SearchNode_catalog:
  assumes "node_wf bt node" "keys_sorted cat_key_ok cat_key_fold_val bt node" "cat_key_ok sk"
  shows "\<exists>r. SearchNode CompareExtendedCatalogKeys bt node sk = Some r \<and> search_result cat_key_fold_val bt node sk r"
  by (rule catfold_order.SearchNode_correct [OF assms])

definition ex_cat_node :: mem where
  "ex_cat_node = [0,0,0,0, 0,0,0,0, 255,1, 2,0, 0,0] @ [8,0, 2,0,0,0, 1,0, 0x41,0, 7,7] @
     [8,0, 2,0,0,0, 1,0, 0x62,0, 9,9] @ replicate 20 0 @ [38,0, 26,0, 14,0]"

theorem SearchNode_catalog_witness:
  "\<exists>r. SearchNode CompareExtendedCatalogKeys ex_bt ex_cat_node [8,0, 2,0,0,0, 1,0, 0x61,0] = Some r \<and>
     search_result cat_key_fold_val ex_bt ex_cat_node [8,0, 2,0,0,0, 1,0, 0x61,0] r"
proof -
  have w: "node_wf ex_bt ex_cat_node" "cat_key_ok [8,0, 2,0,0,0, 1,0, 0x61,0]"
    "nrec ex_cat_node = 2" "cat_key_ok (key_at ex_bt ex_cat_node 0)" "cat_key_ok (key_at ex_bt ex_cat_node 1)"
    "cat_key_fold_val (key_at ex_bt ex_cat_node 0) = (2, True, [0x61])"
    "cat_key_fold_val (key_at ex_bt ex_cat_node 1) = (2, True, [0x62])" by code_simp+
  have "keys_sorted cat_key_ok cat_key_fold_val ex_bt ex_cat_node"
    by (rule keys_sorted_2) (simp_all add: w less_prod_def del: One_nat_def)
  from SearchNode_catalog [OF w(1) this w(2)] show ?thesis .
qed

text \<open>The same for the attributes tree, ordered by file, then name, then start block.\<close>

theorem SearchNode_attributes:
  assumes "node_wf bt node" "keys_sorted attr_key_ok attr_key_val bt node" "attr_key_ok sk"
  shows "\<exists>r. SearchNode hfs_attrkeycompare bt node sk = Some r \<and> search_result attr_key_val bt node sk r"
  by (rule attr_order.SearchNode_correct [OF assms])

definition ex_attr_node :: mem where
  "ex_attr_node = [0,0,0,0, 0,0,0,0, 255,1, 1,0, 0,0] @ [14,0, 0,0, 20,0,0,0, 0,0,0,0, 1,0, 0x61,0, 3,3] @
     replicate 28 0 @ [32,0, 14,0]"

theorem SearchNode_attributes_witness:
  "\<exists>r. SearchNode hfs_attrkeycompare ex_bt ex_attr_node [14,0, 0,0, 20,0,0,0, 0,0,0,0, 1,0, 0x61,0] = Some r \<and>
     search_result attr_key_val ex_bt ex_attr_node [14,0, 0,0, 20,0,0,0, 0,0,0,0, 1,0, 0x61,0] r"
proof -
  have w: "node_wf ex_bt ex_attr_node" "attr_key_ok [14,0, 0,0, 20,0,0,0, 0,0,0,0, 1,0, 0x61,0]"
    "nrec ex_attr_node = 1" "attr_key_ok (key_at ex_bt ex_attr_node 0)" by code_simp+
  then have "keys_sorted attr_key_ok attr_key_val ex_bt ex_attr_node" by (simp add: keys_sorted_def)
  from SearchNode_attributes [OF w(1) this w(2)] show ?thesis .
qed


end
