(* ===== verification/BTreeMisc.thy ===== *)
theory BTreeMisc
  imports KeyCompare
begin

text \<open>
  Routines of \<open>src/kmod/core/BTreeMiscOps.c\<close> that work on the header record, on one node and on iterator hints:
  \<open>VerifyHeader\<close>, \<open>CheckInsertParams\<close>, \<open>TrySimpleReplace\<close>, \<open>IsItAHint\<close>.  \<open>noErr\<close> is \<^term>\<open>None\<close>.
\<close>

section \<open>Operations\<close>

definition CalcKeyRecordSize :: "int \<Rightarrow> int \<Rightarrow> int" where
  "CalcKeyRecordSize keySize recSize =
     (let keySize' = (if M_IsOdd keySize then u16 (keySize + 1) else keySize);
          recSize' = (if M_IsOdd recSize then u16 (recSize + 1) else recSize)
      in u16 (keySize' + recSize'))"

record BTHeaderRec =
  h_treeDepth :: int
  h_rootNode :: int
  h_leafRecords :: int
  h_firstLeafNode :: int
  h_lastLeafNode :: int
  h_nodeSize :: int
  h_maxKeyLength :: int
  h_totalNodes :: int
  h_freeNodes :: int
  h_reserved1 :: int
  h_clumpSize :: int
  h_btreeType :: int
  h_keyCompareType :: int
  h_attributes :: int
  h_reserved3 :: "int list"

definition kUserBTreeType :: int where "kUserBTreeType = 128"
definition kReservedBTreeType :: int where "kReservedBTreeType = 255"

definition VerifyHeader :: "int \<Rightarrow> BTHeaderRec \<Rightarrow> bt_err option" where
  "VerifyHeader fcbEOF header =
     (if h_nodeSize header \<notin> {512, 1024, 2048, 4096, 8192, 16384, 32768} then Some fsBTInvalidHeaderErr
      else let total = h_totalNodes header; forkSize = u64 (total * h_nodeSize header) in
        if forkSize > u64 fcbEOF then Some fsBTInvalidHeaderErr
        else if h_freeNodes header \<ge> total then Some fsBTInvalidHeaderErr
        else if h_rootNode header \<ge> total then Some fsBTInvalidHeaderErr
        else if h_firstLeafNode header \<ge> total then Some fsBTInvalidHeaderErr
        else if h_lastLeafNode header \<ge> total then Some fsBTInvalidHeaderErr
        else if h_treeDepth header > kMaxTreeDepth then Some fsBTInvalidHeaderErr
        else if h_btreeType header \<in> {0, kUserBTreeType, kReservedBTreeType} then None
        else Some fsBTUnknownVersionErr)"

definition TreeIsDirty :: "BTreeControlBlock \<Rightarrow> int" where
  "TreeIsDirty btreePtr = flags btreePtr AND kBTHeaderDirty"

text \<open>The file, its control block, the iterator and the record may be nil pointers.\<close>

definition CheckInsertParams ::
  "BTreeControlBlock option option \<Rightarrow> mem option \<Rightarrow> mem option \<Rightarrow> int \<Rightarrow> bt_err option option" where
  "CheckInsertParams filePtr iterator_key rec recordLen =
     (case filePtr of None \<Rightarrow> Some (Some paramErr)
      | Some fcbBTCBPtr \<Rightarrow>
        if recordLen = 0 then Some (Some paramErr)
        else case fcbBTCBPtr of None \<Rightarrow> Some (Some fsBTInvalidFileErr)
        | Some btreePtr \<Rightarrow>
          case iterator_key of None \<Rightarrow> Some (Some paramErr)
          | Some key \<Rightarrow>
            if rec = None then Some (Some paramErr)
            else do {
              keySize \<leftarrow> CalcKeySize btreePtr key 0;
              if CalcKeyRecordSize (u16 keySize) recordLen > drop_bit 1 (nodeSize btreePtr)
              then Some (Some fsBTRecordTooLargeErr) else Some None })"

text \<open>The result tells if the record was replaced (\<open>*recordInserted\<close>), and the node.\<close>

definition TrySimpleReplace ::
  "(mem \<Rightarrow> mem \<Rightarrow> int option) \<Rightarrow> BTreeControlBlock \<Rightarrow> mem \<Rightarrow> mem \<Rightarrow> mem \<Rightarrow> int \<Rightarrow> (bool \<times> mem) option" where
  "TrySimpleReplace compareProc btreePtr node key rec recordLen = do {
     kind \<leftarrow> rd_kind node;
     if kind \<noteq> kBTLeafNode then Some (False, node)
     else do {
       (foundIt, index) \<leftarrow> SearchNode compareProc btreePtr node key;
       if \<not> foundIt then Some (False, node)
       else do {
         size \<leftarrow> CalcKeySize btreePtr key 0;
         let keySize = u16 size;
         let spaceNeeded = CalcKeyRecordSize keySize recordLen;
         oldSpace \<leftarrow> GetRecordSize btreePtr node index;
         if spaceNeeded = oldSpace then do {
           addr \<leftarrow> GetRecordAddress btreePtr node index;
           let keySize' = (if M_IsOdd keySize then u16 (keySize + 1) else keySize);
           bytes \<leftarrow> rdn rec 0 recordLen;
           node1 \<leftarrow> wrn node (addr + keySize') bytes;
           Some (True, node1) }
         else do {
           freeSize \<leftarrow> GetNodeFreeSize btreePtr node;
           if freeSize + oldSpace \<ge> spaceNeeded then do {
             node1 \<leftarrow> DeleteRecord btreePtr node index;
             keyLen \<leftarrow> KeyLength btreePtr key 0;
             (didItFit, node2) \<leftarrow> InsertKeyRecord btreePtr node1 index key keyLen rec recordLen;
             Some (True, node2) }
           else Some (False, node) } } } }"

definition IsItAHint :: "BTreeControlBlock \<Rightarrow> int \<Rightarrow> bool \<times> BTreeControlBlock" where
  "IsItAHint btreePtr hintNodeNum =
     (let bt1 = btreePtr \<lparr> numHintChecks := u32 (numHintChecks btreePtr + 1) \<rparr> in
      if hintNodeNum \<ge> totalNodes bt1 then (False, bt1)
      else if hintNodeNum = 0 then (False, bt1)
      else (True, bt1 \<lparr> numPossibleHints := u32 (numPossibleHints bt1 + 1) \<rparr>))"
section \<open>Header checks\<close>

lemma VerifyHeader_ok:
  assumes "VerifyHeader fcbEOF header = None" "0 \<le> h_totalNodes header" "h_totalNodes header < 2 ^ 32" "0 \<le> fcbEOF" "fcbEOF < 2 ^ 63"
  shows "512 \<le> h_nodeSize header" "h_nodeSize header \<le> 32768" "h_totalNodes header * h_nodeSize header \<le> fcbEOF"
    "h_freeNodes header < h_totalNodes header" "h_rootNode header < h_totalNodes header"
    "h_firstLeafNode header < h_totalNodes header" "h_lastLeafNode header < h_totalNodes header"
    "h_treeDepth header \<le> 16"
proof -
  have ns: "h_nodeSize header \<in> {512, 1024, 2048, 4096, 8192, 16384, 32768}"
    and fs: "u64 (h_totalNodes header * h_nodeSize header) \<le> u64 fcbEOF"
    and rest: "h_freeNodes header < h_totalNodes header" "h_rootNode header < h_totalNodes header"
      "h_firstLeafNode header < h_totalNodes header" "h_lastLeafNode header < h_totalNodes header" "h_treeDepth header \<le> 16"
    using assms(1) by (auto simp: VerifyHeader_def Let_def split: if_splits)
  show n: "512 \<le> h_nodeSize header" "h_nodeSize header \<le> 32768" using ns by auto
  have "h_totalNodes header * h_nodeSize header \<le> 2 ^ 32 * 32768"
    using n assms(2,3) by (intro mult_mono) auto
  moreover have "0 \<le> h_totalNodes header * h_nodeSize header" using n assms(2) by simp
  ultimately have "u64 (h_totalNodes header * h_nodeSize header) = h_totalNodes header * h_nodeSize header" by simp
  moreover have "u64 fcbEOF = fcbEOF" using assms(4,5) by simp
  ultimately show "h_totalNodes header * h_nodeSize header \<le> fcbEOF" using fs by simp
  show "h_freeNodes header < h_totalNodes header" "h_rootNode header < h_totalNodes header"
    "h_firstLeafNode header < h_totalNodes header" "h_lastLeafNode header < h_totalNodes header" "h_treeDepth header \<le> 16"
    by (fact rest)+
qed

section \<open>Replacing a record\<close>

lemma GetRecordSize_wf:
  assumes "node_wf bt node" "i < nrec node"
  shows "GetRecordSize bt node (int i) = Some (roff bt node (Suc i) - roff bt node i)"
    "GetRecordAddress bt node (int i) = Some (roff bt node i)"
proof -
  have a: "nodeSize bt - int i * 2 - 2 = nodeSize bt - 2 * int i - 2" "nodeSize bt - 2 * int i - 2 - 2 = nodeSize bt - 2 * int (Suc i) - 2" by simp_all
  have r: "rd16 node (nodeSize bt - 2 * int i - 2) = Some (roff bt node i)"
    "rd16 node (nodeSize bt - 2 * int (Suc i) - 2) = Some (roff bt node (Suc i))"
    using offset_in_mem [OF assms(1), of i] offset_in_mem [OF assms(1), of "Suc i"] assms(2) unfolding roff_def
    by (simp_all only: rd_in less_imp_le Suc_leI)
  show "GetRecordSize bt node (int i) = Some (roff bt node (Suc i) - roff bt node i)"
    using u16_roff_diff [OF assms(1), of i "Suc i"] assms(2) unfolding GetRecordSize_def Let_def a r by simp
  show "GetRecordAddress bt node (int i) = Some (roff bt node i)"
    unfolding GetRecordAddress_def a r using s16_id [of "roff bt node i"] roff_range(1,3) [OF assms(1), of i] assms(2) by simp
qed

lemma CalcKeyRecordSize_eq:
  assumes "0 \<le> kl" "0 \<le> recSize" "key_size bt kl + recSize < 65535"
  shows "CalcKeyRecordSize (kl + int (len_size bt)) recSize = key_size bt kl + recSize + (if odd recSize then 1 else 0)"
    "(if M_IsOdd (kl + int (len_size bt)) then u16 (kl + int (len_size bt) + 1) else kl + int (len_size bt)) = key_size bt kl"
  using assms by (auto simp: CalcKeyRecordSize_def key_size_def Let_def split: if_splits)

lemma key_record_data:
  assumes "key_ok bt key kl"
  shows "bytes_at (key_record bt kl (raw_key bt key) data) (key_size bt kl) (int (length data)) = data"
proof -
  define P where "P = le_bytes (len_size bt) kl @ raw_key bt key @ replicate (nat (key_size bt kl) - len_size bt - length (raw_key bt key)) 0"
  have k: "key_record bt kl (raw_key bt key) data = P @ data" by (simp add: key_record_def P_def)
  then have "int (length P) = key_size bt kl" using length_key_record [OF assms, of data] by simp
  then show ?thesis using bytes_at_append(1) [of P data] k by simp
qed

lemma overwrite_data:
  assumes wf: "node_wf bt node" and i: "i < nrec node" and o: "0 \<le> o'" "o' + int (length data) \<le> roff bt node (Suc i) - roff bt node i"
  shows "\<exists>node' r'. wrn node (roff bt node i + o') data = Some node' \<and> node_wf bt node' \<and>
     records bt node' = (records bt node)[i := r'] \<and> bytes_at r' o' (int (length data)) = data"
proof -
  define node' where "node' = put_bytes node (roff bt node i + o') data"
  have im: "in_mem node (roff bt node i + o') (int (length data))"
    using record_in_mem(1) [OF wf i] o by (simp add: in_mem_def)
  then have so: "same_outside node node' (roff bt node i) (roff bt node (Suc i))"
    unfolding node'_def using o by (intro same_outside_mono [OF same_outside_splice]) auto
  note ch = change_record [OF wf i so]
  have b: "14 \<le> roff bt node i" "roff bt node (Suc i) \<le> nodeSize bt - 2 * get16 node 10 - 2"
    using roff_range(1) [OF wf, of i] roff_range(2) [OF wf, of "Suc i"] i by auto
  have "roff bt node' (Suc i) = roff bt node (Suc i)" using data_area_frame(5) [OF wf so b] i by simp
  then have l: "int (length (record_at bt node' i)) = roff bt node (Suc i) - roff bt node i"
    using length_record_at [OF ch(1), of i] ch(2,4) i by simp
  have "bytes_at (record_at bt node' i) o' (int (length data)) = bytes_at node' (roff bt node i + o') (int (length data))"
    using record_slice(1) [OF ch(1), of i o' "int (length data)"] ch(2,4) i o l by simp
  also have "\<dots> = data" unfolding node'_def using im by (simp add: slice_splice_same)
  finally show ?thesis
    using ch(1,6) im by (intro exI [of _ node'] exI [of _ "record_at bt node' i"]) (simp add: wr_Some node'_def)
qed

context key_order
begin

lemma TrySimpleReplace_run:
  assumes wf: "node_wf bt node" and ks: "keys_sorted valid_key key_val bt node" and key: "valid_key key"
    and ok: "key_ok bt key (key_len bt key)" and ld: "len_size bt \<le> length data"
    and sz: "key_size bt (key_len bt key) + int (length data) < 65535"
  shows "\<exists>done node'. TrySimpleReplace cmp bt node key data (int (length data)) = Some (done, node') \<and> node_wf bt node' \<and>
     (if done then \<exists>i r'. i < nrec node \<and> key_val (key_at bt node i) = key_val key \<and>
          records bt node' = (records bt node)[i := r'] \<and>
          bytes_at r' (key_size bt (key_len bt key)) (int (length data)) = data
      else node' = node)"
proof -
  obtain kind where k: "rd_kind node = Some kind" using desc_in_mem(2) [OF wf] by (auto simp: rd_kind_def rd_in in_mem_def)
  obtain found index where s: "SearchNode cmp bt node key = Some (found, index)" "search_result key_val bt node key (found, index)"
    using SearchNode_correct [OF wf ks key] by auto
  show ?thesis
  proof (cases "kind = kBTLeafNode \<and> found")
    case False
    then show ?thesis using k s(1) wf by (auto simp: TrySimpleReplace_def)
  next
    case True
    define i where "i = nat index"
    define kl where "kl = key_len bt key"
    define n where "n = key_size bt kl + int (length data) + (if odd (length data) then 1 else 0)"
    define old where "old = roff bt node (Suc i) - roff bt node i"
    have i: "index = int i" "i < nrec node" "key_val (key_at bt node i) = key_val key"
      using s(2) True by (auto simp: search_result_def i_def nat_less_iff nrec_def)
    have kl0: "0 \<le> kl" by (simp add: kl_def key_len_def)
    note c = CalcKeyRecordSize_eq [OF kl0 of_nat_0_le_iff sz [folded kl_def]]
    have cs: "CalcKeySize bt key 0 = Some (kl + int (len_size bt))" "KeyLength bt key 0 = Some kl"
      using KeyLength_ok [OF ok] by (auto simp: CalcKeySize_def KeyLength_def len_size_def kl_def)
    have u: "u16 (kl + int (len_size bt)) = kl + int (len_size bt)"
      using kl0 sz by (intro u16_id) (auto simp: key_size_def kl_def split: if_splits)
    have run: "TrySimpleReplace cmp bt node key data (int (length data)) =
      (if n = old then do { node1 \<leftarrow> wrn node (roff bt node i + key_size bt kl) data; Some (True, node1) }
       else if node_free bt node + old \<ge> n then do {
         node1 \<leftarrow> DeleteRecord bt node (int i);
         (didItFit, node2) \<leftarrow> InsertKeyRecord bt node1 (int i) key kl data (int (length data));
         Some (True, node2) }
       else Some (False, node))"
    proof -
      have rd: "rdn data 0 (int (length data)) = Some data" by (simp add: rdn_def in_mem_def bytes_at_def)
      have c': "CalcKeyRecordSize (kl + int (len_size bt)) (int (length data)) = n" using c(1) by (simp add: n_def)
      have kind: "(kind \<noteq> kBTLeafNode) = False" "(\<not> found) = False" using True by auto
      show ?thesis unfolding TrySimpleReplace_def k s(1) i(1) cs bind.bind_lunit split_conv kind if_False Let_def u c' c(2) rd
        GetRecordSize_wf [OF wf i(2)] GetNodeFreeSize_wf(1) [OF wf] old_def [symmetric] by simp
    qed
    show ?thesis
    proof (cases "n = old")
      case True
      have "key_size bt kl + int (length data) \<le> old" "0 \<le> key_size bt kl" using True kl0 by (auto simp: n_def key_size_def split: if_splits)
      then obtain node' r' where w: "wrn node (roff bt node i + key_size bt kl) data = Some node'" "node_wf bt node'"
        "records bt node' = (records bt node)[i := r']" "bytes_at r' (key_size bt kl) (int (length data)) = data"
        using overwrite_data [OF wf i(2), of "key_size bt kl" data] by (auto simp: old_def)
      then have "TrySimpleReplace cmp bt node key data (int (length data)) = Some (True, node')" using run True by simp
      then show ?thesis using w i(2,3) unfolding kl_def by auto
    next
      case False
      show ?thesis
      proof (cases "node_free bt node + old \<ge> n")
        case fits: True
        have len: "int (length (enc_key_record bt (key, data))) \<le> node_free bt node + int (length (records bt node ! i))"
          using length_key_record [OF ok, of data] fits length_record_at [OF wf i(2)] i(2)
          by (simp add: enc_key_record_def n_def old_def kl_def records_def split: if_splits)
        have "ok_key_record bt (key, data)" using ok ld by (simp add: ok_key_record_def)
        from keyed.replace_ok [OF wf _ this len] i(2) obtain n1 n2 where n: "DeleteRecord bt node (int i) = Some n1"
          "ins_key_record bt n1 i (key, data) = Some n2" "node_wf bt n2" "records bt n2 = (records bt node)[i := enc_key_record bt (key, data)]"
          by auto
        then have "InsertKeyRecord bt n1 (int i) key kl data (int (length data)) = Some (True, n2)"
          using cs(2) by (auto simp: ins_key_record_def split: option.splits bool.splits)
        with run False fits n i key_record_data [OF ok, of data] show ?thesis
          by (auto simp: enc_key_record_def kl_def)
      qed (use run False wf in auto)
    qed
  qed
qed

end

section \<open>Properties\<close>

text \<open>C25: A header record that \<open>VerifyHeader\<close> accepts describes a tree inside of its file: the node size is a
  supported power of two, the product of node count and node size is at most the file size (no
  wrap-around of the 64-bit product), and the root, the first leaf and the last leaf are node numbers
  below the node count.\<close>

theorem VerifyHeader_sound:
  assumes "VerifyHeader fcbEOF header = None" "0 \<le> h_totalNodes header" "h_totalNodes header < 2 ^ 32" "0 \<le> fcbEOF" "fcbEOF < 2 ^ 63"
  shows "512 \<le> h_nodeSize header \<and> h_nodeSize header \<le> 32768 \<and> h_totalNodes header * h_nodeSize header \<le> fcbEOF \<and>
    h_freeNodes header < h_totalNodes header \<and> h_treeDepth header \<le> 16 \<and>
    (\<forall>n. n = h_rootNode header \<or> n = h_firstLeafNode header \<or> n = h_lastLeafNode header \<longrightarrow>
       n < h_totalNodes header \<and> (n + 1) * h_nodeSize header \<le> fcbEOF)"
proof -
  note v = VerifyHeader_ok [OF assms]
  have "(n + 1) * h_nodeSize header \<le> fcbEOF" if "n < h_totalNodes header" for n
    using mult_right_mono [of "n + 1" "h_totalNodes header" "h_nodeSize header"] that v(1,3) by linarith
  with v show ?thesis by blast
qed

definition ex_header :: BTHeaderRec where
  "ex_header = \<lparr> h_treeDepth = 2, h_rootNode = 3, h_leafRecords = 20, h_firstLeafNode = 1, h_lastLeafNode = 2,
     h_nodeSize = 4096, h_maxKeyLength = 516, h_totalNodes = 8, h_freeNodes = 4, h_reserved1 = 0, h_clumpSize = 32768,
     h_btreeType = 0, h_keyCompareType = 0, h_attributes = 6, h_reserved3 = replicate 16 0 \<rparr>"

theorem VerifyHeader_sound_witness:
  "h_totalNodes ex_header * h_nodeSize ex_header \<le> 32768 \<and> h_rootNode ex_header < h_totalNodes ex_header"
  using VerifyHeader_sound [of 32768 ex_header] by (simp add: VerifyHeader_def ex_header_def Let_def)

text \<open>On a well-formed, sorted node of the extents tree \<open>TrySimpleReplace\<close> makes no access out of bounds.
  It either leaves the node as it is, or replaces exactly the record with the given key: the data follows
  the padded key, every other record is unchanged and the node stays well formed.  It
  never reports success after losing the old record.\<close>

theorem TrySimpleReplace_extents:
  assumes "node_wf bt node" "keys_sorted fixed_key_ok extent_key_val bt node" "fixed_key_ok key"
    "key_ok bt key (key_len bt key)" "len_size bt \<le> length data"
    "key_size bt (key_len bt key) + int (length data) < 65535"
  shows "\<exists>done node'. TrySimpleReplace CompareExtentKeysPlus bt node key data (int (length data)) = Some (done, node') \<and>
     node_wf bt node' \<and>
     (if done then \<exists>i r'. i < nrec node \<and> extent_key_val (key_at bt node i) = extent_key_val key \<and>
          records bt node' = (records bt node)[i := r'] \<and>
          bytes_at r' (key_size bt (key_len bt key)) (int (length data)) = data
      else node' = node)"
  by (rule ext_order.TrySimpleReplace_run [OF assms])

definition ex_ext_key :: mem where
  "ex_ext_key = [10,0, 0,0, 30,0,0,0, 8,0,0,0]"

lemma ex_ext_key_ok: "fixed_key_ok ex_ext_key" "key_ok ex_bt ex_ext_key (key_len ex_bt ex_ext_key)"
  "len_size ex_bt \<le> length [9, 9, 9, 9 :: 8 word]" "key_size ex_bt (key_len ex_bt ex_ext_key) + int (length [9, 9, 9, 9 :: 8 word]) < 65535"
  by code_simp+

lemma ex_ext_replace: "map_option fst (TrySimpleReplace CompareExtentKeysPlus ex_bt ex_ext_node ex_ext_key [9, 9, 9, 9] 4) = Some True"
  by code_simp

theorem TrySimpleReplace_extents_witness:
  "\<exists>node' i r'. TrySimpleReplace CompareExtentKeysPlus ex_bt ex_ext_node ex_ext_key [9, 9, 9, 9] 4 = Some (True, node') \<and>
     node_wf ex_bt node' \<and> i < nrec ex_ext_node \<and> records ex_bt node' = (records ex_bt ex_ext_node)[i := r']"
  using TrySimpleReplace_extents [OF ex_ext_node_wf(1) ex_ext_node_sorted ex_ext_key_ok] ex_ext_replace by (auto split: if_splits)


end
