(* ===== verification/BTreeSearch.thy ===== *)
theory BTreeSearch
  imports BTreeMisc
begin

text \<open>
  Search and iteration over the nodes of a tree: \<open>SearchTree\<close> of \<open>src/kmod/core/BTreeTreeOps.c\<close>,
  \<open>FindIteratorPosition\<close> of \<open>src/kmod/core/BTreeMiscOps.c\<close>, \<open>BTSearchRecord\<close>, \<open>BTIterateRecord\<close>,
  \<open>BTInvalidateHint\<close> of \<open>src/kmod/core/BTree.c\<close>.

  The block layer (\<open>getBlockProc\<close>) is an argument: it gives the contents of a node, or an error.  Releasing a node
  that was not changed has no effect.  The counters \<open>numGetNodes\<close> and \<open>numReleaseNodes\<close>, which are incremented by every
  access and read nowhere in the driver, are not kept.  As in the node operations, \<^term>\<open>None\<close> is an access outside of a
  buffer, here also of the table of the search path, which has \<open>kMaxTreeDepth\<close> entries.
\<close>

section \<open>Nodes and paths\<close>

type_synonym get_block = "int \<Rightarrow> bt_err + mem"

definition GetNode :: "BTreeControlBlock \<Rightarrow> get_block \<Rightarrow> int \<Rightarrow> bt_err + mem" where
  "GetNode btreePtr getNodeProc nodeNum =
     (if nodeNum \<ge> totalNodes btreePtr then Inl fsBTInvalidNodeErr else getNodeProc nodeNum)"

record TreePathRecord =
  tp_node :: int
  tp_index :: int

type_synonym TreePathTable = "TreePathRecord list"

definition set_path :: "TreePathTable \<Rightarrow> nat \<Rightarrow> int \<Rightarrow> int \<Rightarrow> TreePathTable option" where
  "set_path treePathTable level n index =
     (if level < length treePathTable then Some (treePathTable[level := \<lparr> tp_node = n, tp_index = index \<rparr>]) else None)"

definition empty_path :: TreePathTable where
  "empty_path = replicate (nat kMaxTreeDepth) \<lparr> tp_node = 0, tp_index = 0 \<rparr>"

section \<open>Searching the tree\<close>

text \<open>The result of a search: the error (\<^term>\<open>None\<close> for \<open>noErr\<close>), the path, the node number, the node, the index.\<close>

type_synonym search_outcome = "bt_err option \<times> TreePathTable \<times> int \<times> mem option \<times> int"

definition search_error :: "bt_err \<Rightarrow> TreePathTable \<Rightarrow> search_outcome option" where
  "search_error err treePathTable = Some (Some err, treePathTable, 0, None, 0)"

text \<open>The loop; the first argument is the level, which is 1 at the leaves.  Level 0 stands for a level that no node has.\<close>

fun SearchTree_loop :: "nat \<Rightarrow> (mem \<Rightarrow> mem \<Rightarrow> int option) \<Rightarrow> BTreeControlBlock \<Rightarrow> get_block \<Rightarrow> mem \<Rightarrow> int \<Rightarrow> TreePathTable \<Rightarrow>
    search_outcome option" where
  "SearchTree_loop 0 compareProc btreePtr getNodeProc searchKey curNodeNum treePathTable =
     (if curNodeNum = 0 then search_error fsBTInvalidNodeErr treePathTable
      else case GetNode btreePtr getNodeProc curNodeNum of
        Inl err \<Rightarrow> search_error err treePathTable
      | Inr node \<Rightarrow> do { height \<leftarrow> rd_height node; search_error fsBTInvalidNodeErr treePathTable })"
| "SearchTree_loop (Suc l) compareProc btreePtr getNodeProc searchKey curNodeNum treePathTable =
     (if curNodeNum = 0 then search_error fsBTInvalidNodeErr treePathTable
      else case GetNode btreePtr getNodeProc curNodeNum of
        Inl err \<Rightarrow> search_error err treePathTable
      | Inr node \<Rightarrow> do {
          height \<leftarrow> rd_height node;
          if height \<noteq> int (Suc l) then search_error fsBTInvalidNodeErr treePathTable
          else do {
            nodeKind \<leftarrow> rd_kind node;
            if nodeKind \<noteq> (if l = 0 then kBTLeafNode else kBTIndexNode) then search_error fsBTInvalidNodeErr treePathTable
            else do {
              (keyFound, index) \<leftarrow> SearchNode compareProc btreePtr node searchKey;
              if nodeKind = kBTLeafNode then do {
                path1 \<leftarrow> set_path treePathTable (Suc l) curNodeNum index;
                Some (if keyFound then None else Some fsBTRecordNotFoundErr, path1, curNodeNum, Some node, index) }
              else do {
                let index1 = (if \<not> keyFound \<and> index \<noteq> 0 then index - 1 else index);
                path1 \<leftarrow> set_path treePathTable (Suc l) curNodeNum index1;
                r \<leftarrow> GetRecordByIndex btreePtr node index1;
                case r of
                  Inl err \<Rightarrow> search_error err path1
                | Inr (keyPtr, dataPtr, dataSize) \<Rightarrow> do {
                    child \<leftarrow> rd32 node dataPtr;
                    SearchTree_loop l compareProc btreePtr getNodeProc searchKey child path1 } } } } })"

definition SearchTree :: "(mem \<Rightarrow> mem \<Rightarrow> int option) \<Rightarrow> BTreeControlBlock \<Rightarrow> get_block \<Rightarrow> mem \<Rightarrow> TreePathTable \<Rightarrow> search_outcome option" where
  "SearchTree compareProc btreePtr getNodeProc searchKey treePathTable =
     (if s16 (treeDepth btreePtr) = 0 then search_error fsBTEmptyErr treePathTable
      else do {
        path0 \<leftarrow> set_path treePathTable 0 0 0;
        SearchTree_loop (nat (s16 (treeDepth btreePtr))) compareProc btreePtr getNodeProc searchKey (rootNode btreePtr) path0 })"

section \<open>Searching for a record\<close>

record BTIterator =
  bi_writeCount :: int
  bi_nodeNum :: int
  bi_index :: int
  bi_hitCount :: int
  bi_maxLeafRecs :: int
  bi_key :: mem

text \<open>What a call returns: the error, the control block (when it was reached), the iterator, \<open>*recordLen\<close> (when it is
  written) and the buffer.\<close>

record bt_result =
  br_err :: "bt_err option"
  br_btcb :: "BTreeControlBlock option"
  br_iter :: "BTIterator option"
  br_len :: "int option"
  br_buf :: mem

definition BTInvalidateHint :: "BTIterator \<Rightarrow> BTIterator" where
  "BTInvalidateHint iterator = iterator \<lparr> bi_nodeNum := 0 \<rparr>"

text \<open>The iterator that the error exits leave behind.\<close>

definition clear_iterator :: "BTIterator \<Rightarrow> BTIterator option" where
  "clear_iterator iterator = do {
     key \<leftarrow> wr16 (bi_key iterator) 0 0;
     Some (iterator \<lparr> bi_writeCount := 0, bi_nodeNum := 0, bi_index := 0, bi_key := key \<rparr>) }"

text \<open>Copies record \<open>index\<close> of the node to the caller: the length and the buffer.  \<open>recordSize\<close> is the size of the caller's buffer.\<close>

definition copy_record :: "mem \<Rightarrow> int \<Rightarrow> int \<Rightarrow> mem \<Rightarrow> int \<Rightarrow> mem option" where
  "copy_record node recordPtr len buf recordSize = do {
     bytes \<leftarrow> rdn node recordPtr (if len > recordSize then recordSize else len);
     wrn buf 0 bytes }"

definition copy_key :: "BTreeControlBlock \<Rightarrow> mem \<Rightarrow> int \<Rightarrow> mem \<Rightarrow> mem option" where
  "copy_key btreePtr src keyPtr dst = do {
     keySize \<leftarrow> CalcKeySize btreePtr src keyPtr;
     bytes \<leftarrow> rdn src keyPtr keySize;
     wrn dst 0 bytes }"

text \<open>The part of \<open>BTSearchRecord\<close> that takes the hint: the node with the record, if the hint leads to it.\<close>

definition take_hint :: "(mem \<Rightarrow> mem \<Rightarrow> int option) \<Rightarrow> BTreeControlBlock \<Rightarrow> get_block \<Rightarrow> BTIterator \<Rightarrow>
    ((mem \<times> int) option \<times> BTreeControlBlock \<times> BTIterator) option" where
  "take_hint compareProc btreePtr getNodeProc iterator =
     (let (validHint, bt1) = IsItAHint btreePtr (bi_nodeNum iterator) in
      if \<not> validHint then Some (None, bt1, iterator)
      else case GetNode bt1 getNodeProc (bi_nodeNum iterator) of
        Inl err \<Rightarrow> Some (None, bt1, BTInvalidateHint iterator)
      | Inr node \<Rightarrow> do {
          kind \<leftarrow> rd_kind node;
          numRecords \<leftarrow> rd_numRecords node;
          (foundRecord, index) \<leftarrow> (if kind = kBTLeafNode \<and> numRecords > 0 then SearchNode compareProc bt1 node (bi_key iterator)
                                  else Some (False, 0));
          if foundRecord then Some (Some (node, index), bt1 \<lparr> numValidHints := u32 (numValidHints bt1 + 1) \<rparr>, iterator)
          else Some (None, bt1, BTInvalidateHint iterator) })"

definition BTSearchRecord_found :: "BTreeControlBlock \<Rightarrow> BTIterator \<Rightarrow> int \<Rightarrow> mem \<Rightarrow> int \<Rightarrow> mem \<Rightarrow> int \<Rightarrow> bt_result option" where
  "BTSearchRecord_found btreePtr iterator nodeNum node index buf recordSize = do {
     r \<leftarrow> GetRecordByIndex btreePtr node index;
     case r of Inl _ \<Rightarrow> None
     | Inr (keyPtr, recordPtr, len) \<Rightarrow> do {
         buf1 \<leftarrow> copy_record node recordPtr len buf recordSize;
         key \<leftarrow> copy_key btreePtr node keyPtr (bi_key iterator);
         Some \<lparr> br_err = None, br_btcb = Some btreePtr,
           br_iter = Some (iterator \<lparr> bi_writeCount := writeCount btreePtr, bi_nodeNum := nodeNum, bi_index := index, bi_key := key \<rparr>),
           br_len = Some len, br_buf = buf1 \<rparr> } }"

definition bt_fail :: "bt_err \<Rightarrow> BTreeControlBlock \<Rightarrow> BTIterator \<Rightarrow> mem \<Rightarrow> bt_result option" where
  "bt_fail err btreePtr iterator buf = do {
     iterator1 \<leftarrow> clear_iterator iterator;
     Some \<lparr> br_err = Some err, br_btcb = Some btreePtr, br_iter = Some iterator1, br_len = Some 0, br_buf = buf \<rparr> }"

text \<open>The iterator is both the search iterator and the result iterator, as in every call of the extent map.  The
  file and its control block may be nil.\<close>

definition BTSearchRecord :: "(mem \<Rightarrow> mem \<Rightarrow> int option) \<Rightarrow> get_block \<Rightarrow> BTreeControlBlock option option \<Rightarrow> BTIterator option \<Rightarrow> mem \<Rightarrow> int \<Rightarrow>
    bt_result option" where
  "BTSearchRecord compareProc getNodeProc filePtr searchIterator buf recordSize =
     (case (filePtr, searchIterator) of
        (None, _) \<Rightarrow> Some \<lparr> br_err = Some paramErr, br_btcb = None, br_iter = searchIterator, br_len = None, br_buf = buf \<rparr>
      | (_, None) \<Rightarrow> Some \<lparr> br_err = Some paramErr, br_btcb = None, br_iter = None, br_len = None, br_buf = buf \<rparr>
      | (Some None, _) \<Rightarrow> Some \<lparr> br_err = Some fsBTInvalidFileErr, br_btcb = None, br_iter = searchIterator, br_len = None, br_buf = buf \<rparr>
      | (Some (Some btreePtr), Some iterator) \<Rightarrow> do {
          (hint, bt1, it1) \<leftarrow> take_hint compareProc btreePtr getNodeProc iterator;
          case hint of
            Some (node, index) \<Rightarrow> BTSearchRecord_found bt1 it1 (bi_nodeNum iterator) node index buf recordSize
          | None \<Rightarrow> do {
              (err, path, nodeNum, node, index) \<leftarrow> SearchTree compareProc bt1 getNodeProc (bi_key it1) empty_path;
              case (err, node) of
                (None, Some node) \<Rightarrow> BTSearchRecord_found bt1 it1 nodeNum node index buf recordSize
              | (None, None) \<Rightarrow> None
              | (Some err, _) \<Rightarrow>
                  if err = fsBTRecordNotFoundErr then do {
                    key \<leftarrow> copy_key bt1 (bi_key it1) 0 (bi_key it1);
                    Some \<lparr> br_err = Some fsBTRecordNotFoundErr, br_btcb = Some bt1, br_iter = Some (it1 \<lparr> bi_key := key \<rparr>),
                      br_len = None, br_buf = buf \<rparr> }
                  else bt_fail (if err = fsBTEmptyErr then fsBTRecordNotFoundErr else err) bt1 it1 buf } })"
section \<open>Iteration\<close>

text \<open>The position that \<open>FindIteratorPosition\<close> returns: the nodes held, the number of the middle one, the index, and if the
  record was found.\<close>

record iter_position =
  ip_left :: "mem option"
  ip_middle :: mem
  ip_right :: "mem option"
  ip_nodeNum :: int
  ip_index :: int
  ip_found :: bool

type_synonym position_outcome = "(bt_err + iter_position) \<times> BTreeControlBlock \<times> BTIterator"

definition position_at :: "mem option \<Rightarrow> mem \<Rightarrow> mem option \<Rightarrow> int \<Rightarrow> int \<Rightarrow> bool \<Rightarrow> iter_position" where
  "position_at left middle right nodeNum index found =
     \<lparr> ip_left = left, ip_middle = middle, ip_right = right, ip_nodeNum = nodeNum, ip_index = index, ip_found = found \<rparr>"

definition SearchTheTree :: "(mem \<Rightarrow> mem \<Rightarrow> int option) \<Rightarrow> BTreeControlBlock \<Rightarrow> get_block \<Rightarrow> BTIterator \<Rightarrow> position_outcome option" where
  "SearchTheTree compareProc btreePtr getNodeProc iterator = do {
     (err, path, nodeNum, node, index) \<leftarrow> SearchTree compareProc btreePtr getNodeProc (bi_key iterator) empty_path;
     case (err, node) of
       (None, Some middle) \<Rightarrow> Some (Inr (position_at None middle None nodeNum index True), btreePtr, iterator)
     | (Some fsBTRecordNotFoundErr, Some middle) \<Rightarrow> Some (Inr (position_at None middle None nodeNum index False), btreePtr, iterator)
     | (Some e, _) \<Rightarrow> Some (Inl e, btreePtr, iterator)
     | (None, None) \<Rightarrow> None }"

definition is_leaf_with_records :: "mem \<Rightarrow> bool option" where
  "is_leaf_with_records node = do {
     kind \<leftarrow> rd_kind node;
     numRecords \<leftarrow> rd_numRecords node;
     Some (kind = kBTLeafNode \<and> numRecords > 0) }"

text \<open>The key comes before the first record of the hinted node: look in its left sibling.\<close>

definition FindIteratorPosition_left :: "(mem \<Rightarrow> mem \<Rightarrow> int option) \<Rightarrow> BTreeControlBlock \<Rightarrow> get_block \<Rightarrow> BTIterator \<Rightarrow> mem \<Rightarrow> int \<Rightarrow>
    position_outcome option" where
  "FindIteratorPosition_left compareProc btreePtr getNodeProc iterator middle nodeNum = do {
     bLink \<leftarrow> rd_bLink middle;
     if bLink = 0 then Some (Inr (position_at None middle None nodeNum 0 False), btreePtr, iterator)
     else case GetNode btreePtr getNodeProc bLink of
       Inl err \<Rightarrow> Some (Inl err, btreePtr, iterator)
     | Inr left \<Rightarrow> do {
         fLink \<leftarrow> rd_fLink left;
         case GetNode btreePtr getNodeProc fLink of
           Inl err \<Rightarrow> Some (Inl err, btreePtr, iterator)
         | Inr middle1 \<Rightarrow> do {
             usable \<leftarrow> is_leaf_with_records left;
             if \<not> usable then SearchTheTree compareProc btreePtr getNodeProc iterator
             else do {
               (foundIt, leftIndex) \<leftarrow> SearchNode compareProc btreePtr left (bi_key iterator);
               numRecords \<leftarrow> rd_numRecords left;
               if foundIt then Some (Inr (position_at None left (Some middle1) bLink leftIndex True), btreePtr, iterator)
               else if leftIndex = 0 then SearchTheTree compareProc btreePtr getNodeProc iterator
               else if leftIndex \<ge> numRecords then
                 Some (Inr (position_at (Some left) middle1 None fLink 0 False), btreePtr, iterator)
               else Some (Inr (position_at None left (Some middle1) bLink leftIndex False), btreePtr, iterator) } } } }"

text \<open>The key comes after the last record of the hinted node: look in its right sibling.\<close>

definition FindIteratorPosition_right :: "(mem \<Rightarrow> mem \<Rightarrow> int option) \<Rightarrow> BTreeControlBlock \<Rightarrow> get_block \<Rightarrow> BTIterator \<Rightarrow> mem \<Rightarrow> int \<Rightarrow> int \<Rightarrow>
    position_outcome option" where
  "FindIteratorPosition_right compareProc btreePtr getNodeProc iterator middle nodeNum index = do {
     fLink \<leftarrow> rd_fLink middle;
     if fLink = 0 then Some (Inr (position_at None middle None nodeNum index False), btreePtr, iterator)
     else case GetNode btreePtr getNodeProc fLink of
       Inl err \<Rightarrow> Some (Inl err, btreePtr, iterator)
     | Inr right \<Rightarrow> do {
         usable \<leftarrow> is_leaf_with_records right;
         if \<not> usable then SearchTheTree compareProc btreePtr getNodeProc iterator
         else do {
           (foundIt, rightIndex) \<leftarrow> SearchNode compareProc btreePtr right (bi_key iterator);
           numRecords \<leftarrow> rd_numRecords right;
           if rightIndex \<ge> numRecords then SearchTheTree compareProc btreePtr getNodeProc iterator
           else Some (Inr (position_at (Some middle) right None fLink rightIndex foundIt), btreePtr, iterator) } } }"

definition FindIteratorPosition :: "(mem \<Rightarrow> mem \<Rightarrow> int option) \<Rightarrow> BTreeControlBlock \<Rightarrow> get_block \<Rightarrow> BTIterator option \<Rightarrow>
    ((bt_err + iter_position) \<times> BTreeControlBlock \<times> BTIterator option) option" where
  "FindIteratorPosition compareProc btreePtr getNodeProc iteratorPtr =
     (case iteratorPtr of None \<Rightarrow> Some (Inl fsBTInvalidIteratorErr, btreePtr, None)
      | Some iterator \<Rightarrow>
        map_option (\<lambda>(r, bt, it). (r, bt, Some it))
        (let (validHint, bt1) = IsItAHint btreePtr (bi_nodeNum iterator); nodeNum = bi_nodeNum iterator in
         if \<not> validHint then SearchTheTree compareProc bt1 getNodeProc iterator
         else case GetNode bt1 getNodeProc nodeNum of
           Inl err \<Rightarrow> if err = fsBTInvalidNodeErr then SearchTheTree compareProc bt1 getNodeProc iterator
                      else Some (Inl err, bt1, iterator)
         | Inr middle \<Rightarrow> do {
             usable \<leftarrow> is_leaf_with_records middle;
             if \<not> usable then SearchTheTree compareProc bt1 getNodeProc iterator
             else do {
               (foundIt, index) \<leftarrow> SearchNode compareProc bt1 middle (bi_key iterator);
               numRecords \<leftarrow> rd_numRecords middle;
               if foundIt then
                 Some (Inr (position_at None middle None nodeNum index True), bt1 \<lparr> numValidHints := u32 (numValidHints bt1 + 1) \<rparr>, iterator)
               else
                 let it1 = BTInvalidateHint iterator in
                 if index = 0 then FindIteratorPosition_left compareProc bt1 getNodeProc it1 middle nodeNum
                 else if index \<ge> numRecords then FindIteratorPosition_right compareProc bt1 getNodeProc it1 middle nodeNum index
                 else SearchTheTree compareProc bt1 getNodeProc it1 } }))"

text \<open>The operations of \<open>BTIterateRecord\<close>; the last stands for every other value of the argument.\<close>

datatype iter_op = kBTreeFirstRecord | kBTreeNextRecord | kBTreePrevRecord | kBTreeLastRecord | kBTreeCurrentRecord | kBTreeOtherOperation

text \<open>The step to the previous record: the node, its number and the index.\<close>

definition iterate_prev :: "BTreeControlBlock \<Rightarrow> get_block \<Rightarrow> iter_position \<Rightarrow> (bt_err + mem \<times> int \<times> int) option" where
  "iterate_prev btreePtr getNodeProc p =
     (if ip_index p > 0 then Some (Inr (ip_middle p, ip_nodeNum p, ip_index p - 1))
      else case ip_left p of
        Some left \<Rightarrow> do { numRecords \<leftarrow> rd_numRecords left; Some (Inr (left, ip_nodeNum p, u16 (numRecords - 1))) }
      | None \<Rightarrow> do {
          bLink \<leftarrow> rd_bLink (ip_middle p);
          if bLink > 0 then
            case GetNode btreePtr getNodeProc bLink of Inl err \<Rightarrow> Some (Inl err)
            | Inr left \<Rightarrow> do {
                fLink \<leftarrow> rd_fLink left;
                case GetNode btreePtr getNodeProc fLink of Inl err \<Rightarrow> Some (Inl err)
                | Inr _ \<Rightarrow> do { numRecords \<leftarrow> rd_numRecords left; Some (Inr (left, bLink, u16 (numRecords - 1))) } }
          else Some (Inl fsBTStartOfIterationErr) })"

definition iterate_next :: "BTreeControlBlock \<Rightarrow> get_block \<Rightarrow> iter_position \<Rightarrow> (bt_err + mem \<times> int \<times> int) option" where
  "iterate_next btreePtr getNodeProc p = do {
     fLink \<leftarrow> rd_fLink (ip_middle p);
     numRecords \<leftarrow> rd_numRecords (ip_middle p);
     if \<not> ip_found p \<and> fLink = 0 \<and> ip_index p = numRecords then Some (Inl fsBTEndOfIterationErr)
     else if \<not> ip_found p \<and> ip_index p \<noteq> numRecords then Some (Inr (ip_middle p, ip_nodeNum p, ip_index p))
     else if ip_index p < numRecords - 1 then Some (Inr (ip_middle p, ip_nodeNum p, ip_index p + 1))
     else case ip_right p of
       Some right \<Rightarrow> Some (Inr (right, ip_nodeNum p, 0))
     | None \<Rightarrow>
         if fLink > 0 then
           case GetNode btreePtr getNodeProc fLink of Inl err \<Rightarrow> Some (Inl err) | Inr right \<Rightarrow> Some (Inr (right, fLink, 0))
         else Some (Inl fsBTEndOfIterationErr) }"

definition iterate_current :: "iter_position \<Rightarrow> (bt_err + mem \<times> int \<times> int) option" where
  "iterate_current p = do {
     numRecords \<leftarrow> rd_numRecords (ip_middle p);
     if \<not> ip_found p \<and> ip_index p \<ge> numRecords then Some (Inl fsBTEndOfIterationErr)
     else Some (Inr (ip_middle p, ip_nodeNum p, ip_index p)) }"

text \<open>The first or the last record of the tree.\<close>

definition iterate_end :: "BTreeControlBlock \<Rightarrow> get_block \<Rightarrow> bool \<Rightarrow> (bt_err + mem \<times> int \<times> int) option" where
  "iterate_end btreePtr getNodeProc first =
     (let nodeNum = (if first then firstLeafNode btreePtr else lastLeafNode btreePtr) in
      if nodeNum = 0 then Some (Inl fsBTEmptyErr)
      else case GetNode btreePtr getNodeProc nodeNum of Inl err \<Rightarrow> Some (Inl err)
      | Inr node \<Rightarrow> do {
          usable \<leftarrow> is_leaf_with_records node;
          numRecords \<leftarrow> rd_numRecords node;
          if \<not> usable then Some (Inl fsBTInvalidNodeErr)
          else Some (Inr (node, nodeNum, if first then 0 else u16 (numRecords - 1))) })"

text \<open>After \<open>CopyData\<close>.\<close>

definition BTIterateRecord_copy :: "BTreeControlBlock \<Rightarrow> iter_op \<Rightarrow> BTIterator option \<Rightarrow> mem \<Rightarrow> int \<Rightarrow> int \<Rightarrow> mem \<Rightarrow> int \<Rightarrow>
    (bt_err + bt_result) option" where
  "BTIterateRecord_copy btreePtr operation iteratorPtr node nodeNum index buf recordSize = do {
     r \<leftarrow> GetRecordByIndex btreePtr node index;
     case r of Inl err \<Rightarrow> Some (Inl err)
     | Inr (keyPtr, recordPtr, len) \<Rightarrow> do {
         buf1 \<leftarrow> copy_record node recordPtr len buf recordSize;
         it1 \<leftarrow> (case iteratorPtr of None \<Rightarrow> Some None
                 | Some iterator \<Rightarrow> do {
                     key \<leftarrow> copy_key btreePtr node keyPtr (bi_key iterator);
                     Some (Some (iterator \<lparr> bi_writeCount := writeCount btreePtr, bi_nodeNum := nodeNum, bi_index := index,
                       bi_hitCount := (if operation = kBTreeFirstRecord \<or> operation = kBTreeLastRecord then 1
                                       else if operation \<noteq> kBTreeCurrentRecord then u32 (bi_hitCount iterator + 1)
                                       else bi_hitCount iterator),
                       bi_maxLeafRecs := max (leafRecords btreePtr) (bi_maxLeafRecs iterator), bi_key := key \<rparr>)) });
         Some (Inr \<lparr> br_err = None, br_btcb = Some btreePtr, br_iter = it1, br_len = Some len, br_buf = buf1 \<rparr>) } }"

definition BTIterateRecord_fail :: "bt_err \<Rightarrow> BTreeControlBlock \<Rightarrow> BTIterator option \<Rightarrow> mem \<Rightarrow> bt_result option" where
  "BTIterateRecord_fail err btreePtr iteratorPtr buf =
     (let e = (if err = fsBTEmptyErr \<or> err = fsBTEndOfIterationErr then fsBTRecordNotFoundErr else err) in
      case iteratorPtr of
        None \<Rightarrow> Some \<lparr> br_err = Some e, br_btcb = Some btreePtr, br_iter = None, br_len = Some 0, br_buf = buf \<rparr>
      | Some iterator \<Rightarrow> bt_fail e btreePtr iterator buf)"

definition BTIterateRecord :: "(mem \<Rightarrow> mem \<Rightarrow> int option) \<Rightarrow> get_block \<Rightarrow> BTreeControlBlock option option \<Rightarrow> iter_op \<Rightarrow> BTIterator option \<Rightarrow>
    mem \<Rightarrow> int \<Rightarrow> bt_result option" where
  "BTIterateRecord compareProc getNodeProc filePtr operation iteratorPtr buf recordSize =
     (case filePtr of
        None \<Rightarrow> Some \<lparr> br_err = Some paramErr, br_btcb = None, br_iter = iteratorPtr, br_len = None, br_buf = buf \<rparr>
      | Some None \<Rightarrow> Some \<lparr> br_err = Some fsBTInvalidFileErr, br_btcb = None, br_iter = iteratorPtr, br_len = None, br_buf = buf \<rparr>
      | Some (Some btreePtr) \<Rightarrow>
        if operation = kBTreeOtherOperation then BTIterateRecord_fail fsInvalidIterationMovmentErr btreePtr iteratorPtr buf
        else do {
          (target, bt1, it1) \<leftarrow>
            (if operation = kBTreeFirstRecord \<or> operation = kBTreeLastRecord then
               map_option (\<lambda>t. (t, btreePtr, iteratorPtr)) (iterate_end btreePtr getNodeProc (operation = kBTreeFirstRecord))
             else do {
               (position, bt1, it1) \<leftarrow> FindIteratorPosition compareProc btreePtr getNodeProc iteratorPtr;
               case position of
                 Inl err \<Rightarrow> Some (Inl err, bt1, it1)
               | Inr p \<Rightarrow> map_option (\<lambda>t. (t, bt1, it1))
                   (if operation = kBTreePrevRecord then iterate_prev bt1 getNodeProc p
                    else if operation = kBTreeNextRecord then iterate_next bt1 getNodeProc p
                    else iterate_current p) });
          case target of
            Inl err \<Rightarrow> BTIterateRecord_fail err bt1 it1 buf
          | Inr (node, nodeNum, index) \<Rightarrow> do {
              r \<leftarrow> BTIterateRecord_copy bt1 operation it1 node nodeNum index buf recordSize;
              case r of Inl err \<Rightarrow> BTIterateRecord_fail err bt1 it1 buf | Inr res \<Rightarrow> Some res } })"

section \<open>Trees\<close>

text \<open>The child of an index record, and the data of a leaf record.\<close>

definition child_of :: "BTreeControlBlock \<Rightarrow> mem \<Rightarrow> nat \<Rightarrow> int option" where
  "child_of bt node i = (case GetRecordByIndex bt node (int i) of Some (Inr (k, d, len)) \<Rightarrow> rd32 node d | _ \<Rightarrow> None)"

definition data_of :: "BTreeControlBlock \<Rightarrow> mem \<Rightarrow> nat \<Rightarrow> mem option" where
  "data_of bt node i = (case GetRecordByIndex bt node (int i) of Some (Inr (k, d, len)) \<Rightarrow> rdn node d len | _ \<Rightarrow> None)"

text \<open>The leaf records of the subtree of height \<open>l\<close> at node \<open>n\<close>, in order: the abstract contents of a tree.\<close>

fun tree_entries :: "(mem \<Rightarrow> 'k) \<Rightarrow> BTreeControlBlock \<Rightarrow> get_block \<Rightarrow> nat \<Rightarrow> int \<Rightarrow> ('k \<times> mem) list" where
  "tree_entries val bt get 0 n = []"
| "tree_entries val bt get (Suc l) n =
     (case GetNode bt get n of Inl _ \<Rightarrow> []
      | Inr node \<Rightarrow>
        if l = 0 then map (\<lambda>i. (val (key_at bt node i), the (data_of bt node i))) [0..<nrec node]
        else concat (map (\<lambda>i. tree_entries val bt get l (the (child_of bt node i))) [0..<nrec node]))"

text \<open>The numbers of its leaf nodes, from left to right.\<close>

fun tree_leaves :: "BTreeControlBlock \<Rightarrow> get_block \<Rightarrow> nat \<Rightarrow> int \<Rightarrow> int list" where
  "tree_leaves bt get 0 n = []"
| "tree_leaves bt get (Suc l) n =
     (case GetNode bt get n of Inl _ \<Rightarrow> []
      | Inr node \<Rightarrow>
        if l = 0 then [n] else concat (map (\<lambda>i. tree_leaves bt get l (the (child_of bt node i))) [0..<nrec node]))"

text \<open>A well-formed subtree: every node is well formed and sorted, the keys below an index record lie between its key and the next one.\<close>

fun tree_ok :: "(mem \<Rightarrow> bool) \<Rightarrow> (mem \<Rightarrow> 'k :: linorder) \<Rightarrow> BTreeControlBlock \<Rightarrow> get_block \<Rightarrow> nat \<Rightarrow> int \<Rightarrow> bool" where
  "tree_ok valid val bt get 0 n = False"
| "tree_ok valid val bt get (Suc l) n =
     (n \<noteq> 0 \<and> (case GetNode bt get n of Inl _ \<Rightarrow> False
      | Inr node \<Rightarrow>
        node_wf bt node \<and> rd_height node = Some (int (Suc l)) \<and> rd_kind node = Some (if l = 0 then kBTLeafNode else kBTIndexNode) \<and>
        keys_sorted valid val bt node \<and> 0 < nrec node \<and>
        (\<forall>i<nrec node. if l = 0 then data_of bt node i \<noteq> None
           else case child_of bt node i of None \<Rightarrow> False
             | Some c \<Rightarrow> tree_ok valid val bt get l c \<and>
                 (\<forall>e\<in>set (tree_entries val bt get l c). val (key_at bt node i) \<le> fst e \<and>
                    (Suc i < nrec node \<longrightarrow> fst e < val (key_at bt node (Suc i)))))))"

definition btree_ok :: "(mem \<Rightarrow> bool) \<Rightarrow> (mem \<Rightarrow> 'k :: linorder) \<Rightarrow> BTreeControlBlock \<Rightarrow> get_block \<Rightarrow> bool" where
  "btree_ok valid val bt get \<longleftrightarrow> 0 \<le> treeDepth bt \<and> treeDepth bt < kMaxTreeDepth \<and>
     (treeDepth bt \<noteq> 0 \<longrightarrow> tree_ok valid val bt get (nat (treeDepth bt)) (rootNode bt))"

definition btree_entries :: "(mem \<Rightarrow> 'k) \<Rightarrow> BTreeControlBlock \<Rightarrow> get_block \<Rightarrow> ('k \<times> mem) list" where
  "btree_entries val bt get = tree_entries val bt get (nat (treeDepth bt)) (rootNode bt)"

declare tree_entries.simps(2) [simp del] tree_leaves.simps(2) [simp del] tree_ok.simps(2) [simp del]

lemma tree_okD:
  assumes "tree_ok valid val bt get (Suc l) n"
  obtains node where "n \<noteq> 0" "GetNode bt get n = Inr node" "node_wf bt node" "rd_height node = Some (int (Suc l))"
    "rd_kind node = Some (if l = 0 then kBTLeafNode else kBTIndexNode)" "keys_sorted valid val bt node" "0 < nrec node"
  using assms by (auto simp: tree_ok.simps(2) split: sum.splits)

lemma tree_ok_child:
  assumes "tree_ok valid val bt get (Suc (Suc l)) n" "GetNode bt get n = Inr node" "i < nrec node"
  shows "child_of bt node i = Some (the (child_of bt node i))" "tree_ok valid val bt get (Suc l) (the (child_of bt node i))"
    "\<And>e. e \<in> set (tree_entries val bt get (Suc l) (the (child_of bt node i))) \<Longrightarrow> val (key_at bt node i) \<le> fst e"
    "\<And>e. e \<in> set (tree_entries val bt get (Suc l) (the (child_of bt node i))) \<Longrightarrow> Suc i < nrec node \<Longrightarrow> fst e < val (key_at bt node (Suc i))"
proof -
  have "(case child_of bt node i of None \<Rightarrow> False
     | Some c \<Rightarrow> tree_ok valid val bt get (Suc l) c \<and>
         (\<forall>e\<in>set (tree_entries val bt get (Suc l) c). val (key_at bt node i) \<le> fst e \<and>
            (Suc i < nrec node \<longrightarrow> fst e < val (key_at bt node (Suc i)))))"
    using assms unfolding tree_ok.simps(2) [of valid val bt get "Suc l" n] by simp
  then show "child_of bt node i = Some (the (child_of bt node i))" "tree_ok valid val bt get (Suc l) (the (child_of bt node i))"
    "\<And>e. e \<in> set (tree_entries val bt get (Suc l) (the (child_of bt node i))) \<Longrightarrow> val (key_at bt node i) \<le> fst e"
    "\<And>e. e \<in> set (tree_entries val bt get (Suc l) (the (child_of bt node i))) \<Longrightarrow> Suc i < nrec node \<Longrightarrow> fst e < val (key_at bt node (Suc i))"
    by (auto split: option.splits)
qed

lemma tree_entries_leaf: "GetNode bt get n = Inr node \<Longrightarrow>
    tree_entries val bt get (Suc 0) n = map (\<lambda>i. (val (key_at bt node i), the (data_of bt node i))) [0..<nrec node]"
  by (simp add: tree_entries.simps(2))

lemma upt_split: "i < n \<Longrightarrow> [0..<n] = [0..<i] @ i # [Suc i..<n]"
  using upt_add_eq_append [of 0 i "n - i"] upt_conv_Cons [of i n] by simp

lemma tree_leaves_index: "GetNode bt get n = Inr node \<Longrightarrow> i < nrec node \<Longrightarrow> child_of bt node i = Some c \<Longrightarrow>
    tree_leaves bt get (Suc (Suc l)) n =
      concat (map (\<lambda>j. tree_leaves bt get (Suc l) (the (child_of bt node j))) [0..<i]) @
      tree_leaves bt get (Suc l) c @
      concat (map (\<lambda>j. tree_leaves bt get (Suc l) (the (child_of bt node j))) [Suc i..<nrec node])"
  unfolding tree_leaves.simps(2) [of _ _ "Suc l"] by (simp add: upt_split [of i] del: upt_Suc)

lemma tree_entries_leaves: "tree_entries val bt get l n = concat (map (tree_entries val bt get (Suc 0)) (tree_leaves bt get l n))"
proof (induction l arbitrary: n)
  case (Suc l)
  have c: "concat (map f (concat (map g xs))) = concat (map (\<lambda>x. concat (map f (g x))) xs)" for f :: "int \<Rightarrow> ('k \<times> mem) list" and g and xs :: "nat list"
    by (induction xs) auto
  show ?case
    by (cases "GetNode bt get n") (auto simp: tree_leaves.simps(2) tree_entries.simps(2) [of _ _ _ l n] tree_entries_leaf c Suc)
qed simp

definition btree_leaves :: "BTreeControlBlock \<Rightarrow> get_block \<Rightarrow> int list" where
  "btree_leaves bt get = tree_leaves bt get (nat (treeDepth bt)) (rootNode bt)"

lemma btree_entries_leaves: "btree_entries val bt get = concat (map (tree_entries val bt get (Suc 0)) (btree_leaves bt get))"
  unfolding btree_entries_def btree_leaves_def by (rule tree_entries_leaves)

lemma sorted_keys:
  assumes "keys_sorted valid val bt node"
  shows "i < nrec node \<Longrightarrow> valid (key_at bt node i)"
    "i \<le> j \<Longrightarrow> j < nrec node \<Longrightarrow> val (key_at bt node i) \<le> val (key_at bt node j)"
    "i < j \<Longrightarrow> j < nrec node \<Longrightarrow> val (key_at bt node i) < val (key_at bt node j)"
  using assms unfolding keys_sorted_def by (auto simp: le_less)

text \<open>Keys below the records before \<open>i\<close> are smaller than key \<open>i\<close>; those below record \<open>i\<close> and later ones are not.\<close>

lemma tree_keys_split:
  assumes ok: "tree_ok valid val bt get (Suc (Suc l)) n" "GetNode bt get n = Inr node" and i: "i < nrec node"
  shows "e \<in> set (concat (map (\<lambda>j. tree_entries val bt get (Suc l) (the (child_of bt node j))) [0..<i])) \<Longrightarrow> fst e < val (key_at bt node i)"
    "e \<in> set (concat (map (\<lambda>j. tree_entries val bt get (Suc l) (the (child_of bt node j))) [Suc i..<nrec node])) \<Longrightarrow>
      Suc i < nrec node \<and> val (key_at bt node (Suc i)) \<le> fst e"
proof -
  have s: "keys_sorted valid val bt node" using ok by (auto elim: tree_okD)
  { assume "e \<in> set (concat (map (\<lambda>j. tree_entries val bt get (Suc l) (the (child_of bt node j))) [0..<i]))"
    then obtain j where j: "j < i" "e \<in> set (tree_entries val bt get (Suc l) (the (child_of bt node j)))" by auto
    then have "fst e < val (key_at bt node (Suc j))" using tree_ok_child(4) [OF ok, of j] i by simp
    also have "\<dots> \<le> val (key_at bt node i)" using sorted_keys(2) [OF s, of "Suc j" i] j i by simp
    finally show "fst e < val (key_at bt node i)" . }
  { assume "e \<in> set (concat (map (\<lambda>j. tree_entries val bt get (Suc l) (the (child_of bt node j))) [Suc i..<nrec node]))"
    then obtain j where j: "i < j" "j < nrec node" "e \<in> set (tree_entries val bt get (Suc l) (the (child_of bt node j)))"
      by (auto simp: Suc_le_eq)
    have "val (key_at bt node (Suc i)) \<le> val (key_at bt node j)" using sorted_keys(2) [OF s, of "Suc i" j] j by simp
    also have "\<dots> \<le> fst e" using tree_ok_child(3) [OF ok, of j] j by simp
    finally show "Suc i < nrec node \<and> val (key_at bt node (Suc i)) \<le> fst e" using j by simp }
qed


lemma concat_sorted:
  assumes "\<And>i. i < n \<Longrightarrow> sorted_wrt (<) (map fst (f i))"
    and "\<And>i j x y. i < j \<Longrightarrow> j < n \<Longrightarrow> x \<in> set (f i) \<Longrightarrow> y \<in> set (f j) \<Longrightarrow> fst x < (fst y :: 'k :: linorder)"
  shows "sorted_wrt (<) (map fst (concat (map f [0..<n])))"
  using assms
proof (induction n)
  case (Suc n)
  then have "sorted_wrt (<) (map fst (concat (map f [0..<n])))" "sorted_wrt (<) (map fst (f n))" by simp_all
  moreover have "fst x < fst y" if "x \<in> set (concat (map f [0..<n]))" "y \<in> set (f n)" for x y
    using that Suc.prems(2) [of _ n x y] by auto
  ultimately show ?case by (auto simp: sorted_wrt_append)
qed simp

lemma tree_entries_sorted: "tree_ok valid val bt get l n \<Longrightarrow> sorted_wrt (<) (map fst (tree_entries val bt get l n))"
proof (induction l arbitrary: n)
  case (Suc l)
  obtain node where node: "GetNode bt get n = Inr node" "keys_sorted valid val bt node" using Suc.prems by (auto elim: tree_okD)
  show ?case
  proof (cases l)
    case 0
    have "sorted_wrt (<) (map (\<lambda>i. val (key_at bt node i)) [0..<nrec node])"
      using sorted_keys(3) [OF node(2)] by (auto simp: sorted_wrt_iff_nth_less)
    then show ?thesis using node(1) by (simp add: 0 tree_entries_leaf comp_def)
  next
    case (Suc l')
    let ?f = "\<lambda>i. tree_entries val bt get l (the (child_of bt node i))"
    note ok = Suc.prems [unfolded Suc]
    have "sorted_wrt (<) (map fst (concat (map ?f [0..<nrec node])))"
    proof (rule concat_sorted)
      fix i assume "i < nrec node"
      from tree_ok_child(2) [OF ok node(1) this] show "sorted_wrt (<) (map fst (?f i))" using Suc.IH Suc by auto
    next
      fix i j x y assume a: "i < j" "j < nrec node" "x \<in> set (?f i)" "y \<in> set (?f j)"
      have "fst x < val (key_at bt node j)" using a by (intro tree_keys_split(1) [OF ok node(1) a(2)]) (force simp: Suc)
      moreover have "val (key_at bt node j) \<le> fst y" using tree_ok_child(3) [OF ok node(1) a(2)] a(4) by (simp add: Suc)
      ultimately show "fst x < fst y" by simp
    qed
    then show ?thesis using node(1) by (simp add: tree_entries.simps(2) Suc)
  qed
qed simp

lemma map_of_split:
  assumes "\<And>x. x \<in> set xs \<Longrightarrow> fst x < k" "\<And>z. z \<in> set zs \<Longrightarrow> k < (fst z :: 'k :: linorder)"
  shows "map_of (xs @ ys @ zs) k = map_of ys k"
proof -
  have "map_of xs k = None" "map_of zs k = None" using assms by (fastforce simp: map_of_eq_None_iff)+
  then show ?thesis by (simp add: map_add_def split: option.splits)
qed

lemma set_path_length: "set_path p l n i = Some q \<Longrightarrow> length q = length p"
  by (auto simp: set_path_def split: if_splits)

text \<open>Where a search for \<open>key\<close> ends: in one of the leaves \<open>ls\<close>, all keys of the leaves before being smaller and all keys of the
  leaves after it greater.\<close>

definition leaf_result :: "(mem \<Rightarrow> bool) \<Rightarrow> (mem \<Rightarrow> 'k :: linorder) \<Rightarrow> BTreeControlBlock \<Rightarrow> get_block \<Rightarrow> int list \<Rightarrow> mem \<Rightarrow> search_outcome \<Rightarrow> bool" where
  "leaf_result valid val bt get ls key r \<longleftrightarrow> (\<exists>err path m node index pl ql. r = (err, path, m, Some node, index) \<and>
     GetNode bt get m = Inr node \<and> tree_ok valid val bt get (Suc 0) m \<and> ls = pl @ m # ql \<and>
     (\<forall>x\<in>set pl. \<forall>e\<in>set (tree_entries val bt get (Suc 0) x). fst e < val key) \<and>
     (\<forall>x\<in>set ql. \<forall>e\<in>set (tree_entries val bt get (Suc 0) x). val key < fst e) \<and>
     (err = None \<or> err = Some fsBTRecordNotFoundErr) \<and> search_result val bt node key (err = None, index))"

lemma leaf_resultI:
  assumes "GetNode bt get m = Inr node" "tree_ok valid val bt get (Suc 0) m" "ls = pl @ m # ql"
    "\<forall>x\<in>set pl. \<forall>e\<in>set (tree_entries val bt get (Suc 0) x). fst e < val key"
    "\<forall>x\<in>set ql. \<forall>e\<in>set (tree_entries val bt get (Suc 0) x). val key < fst e"
    "err = None \<or> err = Some fsBTRecordNotFoundErr" "search_result val bt node key (err = None, index)"
  shows "leaf_result valid val bt get ls key (err, path, m, Some node, index)"
  using assms unfolding leaf_result_def by blast

lemma leaf_resultE:
  assumes "leaf_result valid val bt get ls key r"
  obtains err path m node index pl ql where "r = (err, path, m, Some node, index)" "GetNode bt get m = Inr node"
    "tree_ok valid val bt get (Suc 0) m" "ls = pl @ m # ql"
    "\<forall>x\<in>set pl. \<forall>e\<in>set (tree_entries val bt get (Suc 0) x). fst e < val key"
    "\<forall>x\<in>set ql. \<forall>e\<in>set (tree_entries val bt get (Suc 0) x). val key < fst e"
    "err = None \<or> err = Some fsBTRecordNotFoundErr" "search_result val bt node key (err = None, index)"
  using assms unfolding leaf_result_def by blast

lemma leaf_result_append:
  assumes "leaf_result valid val bt get ls key r"
    "\<And>x e. x \<in> set xs \<Longrightarrow> e \<in> set (tree_entries val bt get (Suc 0) x) \<Longrightarrow> fst e < val key"
    "\<And>y e. y \<in> set ys \<Longrightarrow> e \<in> set (tree_entries val bt get (Suc 0) y) \<Longrightarrow> val key < fst e"
  shows "leaf_result valid val bt get (xs @ ls @ ys) key r"
  using assms(1)
proof (rule leaf_resultE)
  fix err path m node index pl ql
  assume r: "r = (err, path, m, Some node, index)" "GetNode bt get m = Inr node"
    "tree_ok valid val bt get (Suc 0) m" "ls = pl @ m # ql"
    "\<forall>x\<in>set pl. \<forall>e\<in>set (tree_entries val bt get (Suc 0) x). fst e < val key"
    "\<forall>x\<in>set ql. \<forall>e\<in>set (tree_entries val bt get (Suc 0) x). val key < fst e"
    "err = None \<or> err = Some fsBTRecordNotFoundErr" "search_result val bt node key (err = None, index)"
  show ?thesis unfolding r(1)
    by (rule leaf_resultI [OF r(2,3), of _ "xs @ pl" "ql @ ys"]) (use r(4-8) assms(2,3) in auto)
qed

text \<open>The entries of a leaf below record \<open>j\<close> are entries of the subtree of record \<open>j\<close>.\<close>

lemma leaf_entry_in: "x \<in> set (tree_leaves bt get l n) \<Longrightarrow> e \<in> set (tree_entries val bt get (Suc 0) x) \<Longrightarrow> e \<in> set (tree_entries val bt get l n)"
  unfolding tree_entries_leaves [of val bt get l n] by auto

text \<open>The record of an index node that the search follows.\<close>

definition index_step :: "(mem \<Rightarrow> 'k :: linorder) \<Rightarrow> BTreeControlBlock \<Rightarrow> mem \<Rightarrow> mem \<Rightarrow> nat \<Rightarrow> bool" where
  "index_step val bt node key i \<longleftrightarrow> i < nrec node \<and> (i = 0 \<or> val (key_at bt node i) \<le> val key) \<and>
     (Suc i < nrec node \<longrightarrow> val key < val (key_at bt node (Suc i)))"

lemma search_result_step:
  assumes "search_result val bt node key (found, index)" "keys_sorted valid val bt node" "0 < nrec node"
  shows "index_step val bt node key (nat (if \<not> found \<and> index \<noteq> 0 then index - 1 else index))"
    "0 \<le> (if \<not> found \<and> index \<noteq> 0 then index - 1 else index)"
proof -
  have r: "0 \<le> index" "found \<Longrightarrow> nat index < nrec node \<and> val (key_at bt node (nat index)) = val key"
    "\<not> found \<Longrightarrow> nat index \<le> nrec node \<and> (\<forall>i<nat index. val (key_at bt node i) < val key) \<and>
       (\<forall>i<nrec node. nat index \<le> i \<longrightarrow> val key < val (key_at bt node i))"
    using assms(1) by (auto simp: search_result_def nrec_def nat_less_iff nat_le_iff split: if_splits)
  show "0 \<le> (if \<not> found \<and> index \<noteq> 0 then index - 1 else index)" using r(1) by simp
  show "index_step val bt node key (nat (if \<not> found \<and> index \<noteq> 0 then index - 1 else index))"
  proof (cases found)
    case True
    then show ?thesis using r(2) sorted_keys(3) [OF assms(2), of "nat index" "Suc (nat index)"] by (auto simp: index_step_def)
  next
    case False
    then show ?thesis using r(1,3) assms(3) by (cases "index = 0") (auto simp: index_step_def nat_diff_distrib le_less)
  qed
qed


context key_order
begin

text \<open>The search makes no access out of bounds as long as the path table has an entry for every level, and ends in the right leaf.\<close>

lemma SearchTree_loop_correct:
  assumes "tree_ok valid_key key_val bt get l n" "valid_key key" "l < length path"
  shows "\<exists>r. SearchTree_loop l cmp bt get key n path = Some r \<and> leaf_result valid_key key_val bt get (tree_leaves bt get l n) key r"
  using assms
proof (induction l arbitrary: n path)
  case (Suc l)
  obtain node where node: "n \<noteq> 0" "GetNode bt get n = Inr node" "node_wf bt node" "rd_height node = Some (int (Suc l))"
    "rd_kind node = Some (if l = 0 then kBTLeafNode else kBTIndexNode)" "keys_sorted valid_key key_val bt node" "0 < nrec node"
    using Suc.prems(1) by (rule tree_okD)
  obtain found index where s: "SearchNode cmp bt node key = Some (found, index)" "search_result key_val bt node key (found, index)"
    using SearchNode_correct [OF node(3,6) Suc.prems(2)] by auto
  show ?case
  proof (cases l)
    case 0
    define r where "r = (if found then None else Some fsBTRecordNotFoundErr,
      path[Suc l := \<lparr> tp_node = n, tp_index = index \<rparr>], n, Some node, index)"
    have "SearchTree_loop (Suc l) cmp bt get key n path = Some r"
      using node s(1) Suc.prems(3) by (simp add: 0 set_path_def r_def)
    moreover have "leaf_result valid_key key_val bt get (tree_leaves bt get (Suc l) n) key r"
      unfolding r_def by (rule leaf_resultI [OF node(2), of _ _ _ "[]" "[]"]) (use Suc.prems(1) s(2) node(2) 0 in \<open>auto simp: tree_leaves.simps(2)\<close>)
    ultimately show ?thesis by blast
  next
    case (Suc l')
    define i where "i = nat (if \<not> found \<and> index \<noteq> 0 then index - 1 else index)"
    have i: "index_step key_val bt node key i" "(if \<not> found \<and> index \<noteq> 0 then index - 1 else index) = int i"
      using search_result_step [OF s(2) node(6,7)] by (auto simp: i_def)
    then have il: "i < nrec node" by (simp add: index_step_def)
    note ok = Suc.prems(1) [unfolded Suc]
    define c where "c = the (child_of bt node i)"
    note ch = tree_ok_child [OF ok node(2) il, folded c_def]
    obtain k d len where g: "GetRecordByIndex bt node (int i) = Some (Inr (k, d, len))" "rd32 node d = Some c"
      using ch(1) by (auto simp: child_of_def split: option.splits sum.splits)
    define path1 where "path1 = path[Suc l := \<lparr> tp_node = n, tp_index = int i \<rparr>]"
    obtain r where r: "SearchTree_loop l cmp bt get key c path1 = Some r" "leaf_result valid_key key_val bt get (tree_leaves bt get l c) key r"
      using Suc.IH [of c path1] ch(2) Suc.prems(2,3) Suc by (auto simp: path1_def)
    have "SearchTree_loop (Suc l) cmp bt get key n path = Some r"
    proof -
      have "l \<noteq> 0" using Suc by simp
      then show ?thesis unfolding SearchTree_loop.simps(2)
        using node s(1) Suc.prems(3) g r(1) by (simp add: set_path_def path1_def Let_def i(2) del: SearchTree_loop.simps)
    qed
    moreover have "leaf_result valid_key key_val bt get (tree_leaves bt get (Suc l) n) key r"
      unfolding Suc tree_leaves_index [OF node(2) il ch(1)]
    proof (rule leaf_result_append)
      show "leaf_result valid_key key_val bt get (tree_leaves bt get (Suc l') c) key r" using r(2) Suc by simp
    next
      fix x e assume a: "x \<in> set (concat (map (\<lambda>j. tree_leaves bt get (Suc l') (the (child_of bt node j))) [0..<i]))"
        "e \<in> set (tree_entries key_val bt get (Suc 0) x)"
      then have "e \<in> set (concat (map (\<lambda>j. tree_entries key_val bt get (Suc l') (the (child_of bt node j))) [0..<i]))"
        by (auto intro: leaf_entry_in)
      from tree_keys_split(1) [OF ok node(2) il this] show "fst e < key_val key" using i(1) a(1) by (cases i) (auto simp: index_step_def)
    next
      fix x e assume a: "x \<in> set (concat (map (\<lambda>j. tree_leaves bt get (Suc l') (the (child_of bt node j))) [Suc i..<nrec node]))"
        "e \<in> set (tree_entries key_val bt get (Suc 0) x)"
      then have "e \<in> set (concat (map (\<lambda>j. tree_entries key_val bt get (Suc l') (the (child_of bt node j))) [Suc i..<nrec node]))"
        by (auto intro: leaf_entry_in)
      from tree_keys_split(2) [OF ok node(2) il this] show "key_val key < fst e" using i(1) by (auto simp: index_step_def)
    qed
    ultimately show ?thesis by blast
  qed
qed simp

theorem SearchTree_correct:
  assumes "btree_ok valid_key key_val bt get" "valid_key key" "treeDepth bt \<noteq> 0"
  shows "\<exists>r. SearchTree cmp bt get key empty_path = Some r \<and> leaf_result valid_key key_val bt get (btree_leaves bt get) key r"
proof -
  have d: "0 < treeDepth bt" "treeDepth bt < 16" "s16 (treeDepth bt) = treeDepth bt" using assms by (auto simp: btree_ok_def)
  have "nat (treeDepth bt) < length (empty_path[0 := \<lparr> tp_node = 0, tp_index = 0 \<rparr>])" using d by (simp add: empty_path_def)
  from SearchTree_loop_correct [OF _ assms(2) this] assms d show ?thesis
    by (simp add: SearchTree_def btree_ok_def btree_leaves_def set_path_def empty_path_def)
qed

end

text \<open>What a search result says about the map from keys to data.\<close>

lemma leaf_map_of:
  assumes "GetNode bt get m = Inr node" "tree_ok valid val bt get (Suc 0) m" "search_result val bt node key (found, index)"
  shows "map_of (tree_entries val bt get (Suc 0) m) (val key) = (if found then data_of bt node (nat index) else None)"
proof -
  let ?es = "tree_entries val bt get (Suc 0) m"
  have s: "distinct (map fst ?es)" using tree_entries_sorted [OF assms(2)] by (simp add: strict_sorted_iff)
  have es: "?es = map (\<lambda>i. (val (key_at bt node i), the (data_of bt node i))) [0..<nrec node]" by (rule tree_entries_leaf [OF assms(1)])
  show ?thesis
  proof (cases found)
    case True
    then have i: "nat index < nrec node" "val (key_at bt node (nat index)) = val key"
      using assms(3) by (auto simp: search_result_def nrec_def nat_less_iff)
    have d: "data_of bt node (nat index) \<noteq> None" using assms(1,2) i(1) by (auto simp: tree_ok.simps(2))
    have "(val key, the (data_of bt node (nat index))) \<in> set ?es" using i unfolding es by (auto intro!: image_eqI [of _ _ "nat index"])
    then show ?thesis using True d s by (auto simp: map_of_eq_Some_iff)
  next
    case False
    have "val (key_at bt node i) \<noteq> val key" if "i < nrec node" for i
      using assms(3) False that by (cases "i < nat index") (auto simp: search_result_def)
    then have "val key \<notin> fst ` set ?es" unfolding es by force
    then show ?thesis using False by (simp add: map_of_eq_None_iff)
  qed
qed

lemma leaf_result_map_of:
  assumes "ls = pl @ m # ql" "GetNode bt get m = Inr node" "tree_ok valid val bt get (Suc 0) m"
    "\<forall>x\<in>set pl. \<forall>e\<in>set (tree_entries val bt get (Suc 0) x). fst e < val key"
    "\<forall>x\<in>set ql. \<forall>e\<in>set (tree_entries val bt get (Suc 0) x). val key < fst e"
    "search_result val bt node key (found, index)"
  shows "map_of (concat (map (tree_entries val bt get (Suc 0)) ls)) (val key) = (if found then data_of bt node (nat index) else None)"
proof -
  have "map_of (concat (map (tree_entries val bt get (Suc 0)) ls)) (val key) = map_of (tree_entries val bt get (Suc 0) m) (val key)"
    unfolding assms(1) map_append concat_append list.map concat.simps by (rule map_of_split) (use assms(4,5) in auto)
  then show ?thesis using leaf_map_of [OF assms(2,3,6)] by simp
qed

section \<open>Looking up a record\<close>

text \<open>The statistics in the control block have no influence on the tree.\<close>

definition same_tree :: "BTreeControlBlock \<Rightarrow> BTreeControlBlock \<Rightarrow> bool" where
  "same_tree bt bt' \<longleftrightarrow> nodeSize bt' = nodeSize bt \<and> attributes bt' = attributes bt \<and> totalNodes bt' = totalNodes bt \<and>
     treeDepth bt' = treeDepth bt \<and> rootNode bt' = rootNode bt"

lemma same_tree_node:
  assumes "same_tree bt bt'"
  shows "GetNode bt' get = GetNode bt get" "node_wf bt' node = node_wf bt node" "key_at bt' node = key_at bt node"
    "GetRecordByIndex bt' node = GetRecordByIndex bt node" "child_of bt' node = child_of bt node" "data_of bt' node = data_of bt node"
    "roff bt' node = roff bt node" "CalcKeySize bt' node = CalcKeySize bt node"
proof -
  have s: "nodeSize bt' = nodeSize bt" "attributes bt' = attributes bt" "totalNodes bt' = totalNodes bt"
    using assms by (simp_all add: same_tree_def)
  show "GetNode bt' get = GetNode bt get" by (rule ext) (simp add: GetNode_def s)
  show r: "roff bt' node = roff bt node" by (rule ext) (simp add: roff_def s)
  show "node_wf bt' node = node_wf bt node" by (simp add: node_wf_def r s)
  show "key_at bt' node = key_at bt node" by (rule ext) (simp add: key_at_def r)
  show c: "CalcKeySize bt' node = CalcKeySize bt node" by (rule ext) (simp add: CalcKeySize_def bigKeys_def s)
  have o: "GetRecordOffset bt' node = GetRecordOffset bt node" by (rule ext) (simp add: GetRecordOffset_def s)
  show g: "GetRecordByIndex bt' node = GetRecordByIndex bt node"
    by (rule ext) (simp only: GetRecordByIndex_def o c)
  show "child_of bt' node = child_of bt node" "data_of bt' node = data_of bt node"
    by (rule ext, simp add: child_of_def data_of_def g)+
qed

lemma same_tree_tree:
  assumes "same_tree bt bt'"
  shows "tree_entries val bt' get l n = tree_entries val bt get l n" "tree_leaves bt' get l n = tree_leaves bt get l n"
    "tree_ok valid val bt' get l n = tree_ok valid val bt get l n"
proof -
  note s = same_tree_node [OF assms]
  show e: "tree_entries val bt' get l n = tree_entries val bt get l n" for l n
    by (induction l arbitrary: n) (auto simp: tree_entries.simps(2) s split: sum.splits)
  show "tree_leaves bt' get l n = tree_leaves bt get l n"
    by (induction l arbitrary: n) (auto simp: tree_leaves.simps(2) s split: sum.splits)
  show "tree_ok valid val bt' get l n = tree_ok valid val bt get l n"
    by (induction l arbitrary: n) (auto simp: tree_ok.simps(2) s e keys_sorted_def split: sum.splits option.splits)
qed

lemma same_tree_btree:
  assumes "same_tree bt bt'"
  shows "btree_ok valid val bt' get = btree_ok valid val bt get" "btree_entries val bt' get = btree_entries val bt get"
    "btree_leaves bt' get = btree_leaves bt get"
  using assms by (simp_all add: btree_ok_def btree_entries_def btree_leaves_def same_tree_tree [OF assms] same_tree_def)
text \<open>The entries below and above the key, from where the search ended.\<close>

lemma search_result_order:
  assumes "search_result val bt node key (found, index)" "keys_sorted valid val bt node" "i < nrec node"
  shows "val (key_at bt node i) < val key \<longleftrightarrow> i < nat index"
    "val key < val (key_at bt node i) \<longleftrightarrow> (if found then nat index < i else nat index \<le> i)"
proof -
  have r: "0 \<le> index" "found \<Longrightarrow> nat index < nrec node \<and> val (key_at bt node (nat index)) = val key"
    "\<not> found \<Longrightarrow> (\<forall>i<nat index. val (key_at bt node i) < val key) \<and>
       (\<forall>i<nrec node. nat index \<le> i \<longrightarrow> val key < val (key_at bt node i))"
    using assms(1) by (auto simp: search_result_def nrec_def nat_less_iff split: if_splits)
  have f: "val (key_at bt node i) < val key" if "found" "i < nat index"
    using that r(2) sorted_keys(3) [OF assms(2), of i "nat index"] by auto
  have g: "val key < val (key_at bt node i)" if "found" "nat index < i"
    using that r(2) sorted_keys(3) [OF assms(2), of "nat index" i] assms(3) by auto
  have h: "val (key_at bt node i) = val key" if "found" "i = nat index" using that r(2) by simp
  show "val (key_at bt node i) < val key \<longleftrightarrow> i < nat index"
    using r(3) assms(3) f g h by (cases found; cases "i < nat index"; cases "i = nat index") (force simp: not_less)+
  show "val key < val (key_at bt node i) \<longleftrightarrow> (if found then nat index < i else nat index \<le> i)"
    using r(3) assms(3) f g h by (cases found; cases "i < nat index"; cases "i = nat index") (force simp: not_less)+
qed

lemma filter_upt_less: "filter (\<lambda>i. i < k) [0..<n] = [0..<min k n]"
  by (induction n) (auto simp: min_def le_Suc_eq)

lemma filter_upt_ge: "filter (\<lambda>i. k \<le> i) [0..<n] = [k..<n]"
  by (induction n) (auto simp: not_le)

lemma leaf_filter:
  assumes "GetNode bt get m = Inr node" "keys_sorted valid val bt node" "search_result val bt node key (found, index)"
  shows "filter (\<lambda>e. fst e < val key) (tree_entries val bt get (Suc 0) m) =
      map (\<lambda>i. (val (key_at bt node i), the (data_of bt node i))) [0..<nat index]"
    "filter (\<lambda>e. val key < fst e) (tree_entries val bt get (Suc 0) m) =
      map (\<lambda>i. (val (key_at bt node i), the (data_of bt node i))) [(if found then Suc (nat index) else nat index)..<nrec node]"
proof -
  let ?f = "\<lambda>i. (val (key_at bt node i), the (data_of bt node i))"
  note o = search_result_order [OF assms(3,2)]
  have n: "nat index \<le> nrec node" using assms(3) by (auto simp: search_result_def nrec_def nat_le_iff nat_less_iff split: if_splits)
  have "filter (\<lambda>e. fst e < val key) (map ?f [0..<nrec node]) = map ?f (filter (\<lambda>i. i < nat index) [0..<nrec node])"
    unfolding filter_map by (rule arg_cong [where f = "map ?f"], rule filter_cong) (auto simp: o)
  then show "filter (\<lambda>e. fst e < val key) (tree_entries val bt get (Suc 0) m) = map ?f [0..<nat index]"
    using n by (simp add: tree_entries_leaf [OF assms(1)] filter_upt_less min_def)
  have "filter (\<lambda>e. val key < fst e) (map ?f [0..<nrec node]) =
      map ?f (filter (\<lambda>i. (if found then Suc (nat index) else nat index) \<le> i) [0..<nrec node])"
    unfolding filter_map by (rule arg_cong [where f = "map ?f"], rule filter_cong) (auto simp: o Suc_le_eq)
  then show "filter (\<lambda>e. val key < fst e) (tree_entries val bt get (Suc 0) m) =
      map ?f [(if found then Suc (nat index) else nat index)..<nrec node]"
    unfolding tree_entries_leaf [OF assms(1)] filter_upt_ge by simp
qed

lemma leaves_filter:
  assumes "ls = pl @ m # ql" "GetNode bt get m = Inr node" "keys_sorted valid val bt node"
    "\<forall>x\<in>set pl. \<forall>e\<in>set (tree_entries val bt get (Suc 0) x). fst e < val key"
    "\<forall>x\<in>set ql. \<forall>e\<in>set (tree_entries val bt get (Suc 0) x). val key < fst e"
    "search_result val bt node key (found, index)"
  shows "filter (\<lambda>e. fst e < val key) (concat (map (tree_entries val bt get (Suc 0)) ls)) =
      concat (map (tree_entries val bt get (Suc 0)) pl) @ map (\<lambda>i. (val (key_at bt node i), the (data_of bt node i))) [0..<nat index]"
    "filter (\<lambda>e. val key < fst e) (concat (map (tree_entries val bt get (Suc 0)) ls)) =
      map (\<lambda>i. (val (key_at bt node i), the (data_of bt node i))) [(if found then Suc (nat index) else nat index)..<nrec node] @
      concat (map (tree_entries val bt get (Suc 0)) ql)"
proof -
  let ?E = "\<lambda>ls. concat (map (tree_entries val bt get (Suc 0)) ls)"
  have "filter (\<lambda>e. fst e < val key) (?E pl) = ?E pl" "filter (\<lambda>e. fst e < val key) (?E ql) = []"
    "filter (\<lambda>e. val key < fst e) (?E pl) = []" "filter (\<lambda>e. val key < fst e) (?E ql) = ?E ql"
    using assms(4,5) by (fastforce simp: filter_id_conv filter_empty_conv)+
  then show "filter (\<lambda>e. fst e < val key) (?E ls) = ?E pl @ map (\<lambda>i. (val (key_at bt node i), the (data_of bt node i))) [0..<nat index]"
    "filter (\<lambda>e. val key < fst e) (?E ls) =
      map (\<lambda>i. (val (key_at bt node i), the (data_of bt node i))) [(if found then Suc (nat index) else nat index)..<nrec node] @ ?E ql"
    unfolding assms(1) by (simp_all add: leaf_filter [OF assms(2,3,6)] del: upt_Suc)
qed

lemma tree_leaves_ok: "tree_ok valid val bt get l n \<Longrightarrow> x \<in> set (tree_leaves bt get l n) \<Longrightarrow> tree_ok valid val bt get (Suc 0) x"
proof (induction l arbitrary: n)
  case (Suc l)
  obtain node where node: "GetNode bt get n = Inr node" using Suc.prems by (auto elim: tree_okD)
  show ?case
  proof (cases l)
    case 0
    then show ?thesis using Suc.prems node by (simp add: tree_leaves.simps(2))
  next
    case (Suc l')
    then obtain i where i: "i < nrec node" "x \<in> set (tree_leaves bt get l (the (child_of bt node i)))"
      using Suc.prems(2) node unfolding tree_leaves.simps(2) [of bt get l] by auto
    from tree_ok_child(2) [OF Suc.prems(1) [unfolded Suc] node i(1)] show ?thesis using Suc.IH [OF _ i(2)] Suc by simp
  qed
qed simp
section \<open>What the searches return\<close>

text \<open>The bytes of a key, and that it fits a key buffer of \<open>n\<close> bytes.\<close>

definition record_key :: "BTreeControlBlock \<Rightarrow> mem \<Rightarrow> nat \<Rightarrow> mem" where
  "record_key bt node i = bytes_at node (roff bt node i) (the (CalcKeySize bt node (roff bt node i)))"

definition key_fits :: "BTreeControlBlock \<Rightarrow> mem \<Rightarrow> nat \<Rightarrow> nat \<Rightarrow> bool" where
  "key_fits bt node i n = (case CalcKeySize bt node (roff bt node i) of None \<Rightarrow> False
     | Some ks \<Rightarrow> in_mem node (roff bt node i) ks \<and> ks \<le> int n)"

definition leaves_fit :: "BTreeControlBlock \<Rightarrow> get_block \<Rightarrow> nat \<Rightarrow> bool" where
  "leaves_fit bt get n \<longleftrightarrow> (\<forall>m\<in>set (btree_leaves bt get). case GetNode bt get m of Inl _ \<Rightarrow> False
     | Inr node \<Rightarrow> \<forall>i<nrec node. key_fits bt node i n)"

text \<open>The leaves are linked to their neighbours; \<open>p\<close> is the one before the first.\<close>

fun links_ok :: "BTreeControlBlock \<Rightarrow> get_block \<Rightarrow> int \<Rightarrow> int list \<Rightarrow> bool" where
  "links_ok bt get p [] = True"
| "links_ok bt get p (m # ls) = ((case GetNode bt get m of Inl _ \<Rightarrow> False
     | Inr node \<Rightarrow> rd_bLink node = Some p \<and> rd_fLink node = Some (case ls of [] \<Rightarrow> 0 | q # _ \<Rightarrow> q)) \<and> links_ok bt get m ls)"

text \<open>The call \<open>r\<close> returned the entry \<open>e\<close> of the tree: its data in the buffer, its key and its place in the iterator.\<close>

definition record_returned :: "(mem \<Rightarrow> 'k) \<Rightarrow> BTreeControlBlock \<Rightarrow> get_block \<Rightarrow> BTIterator \<Rightarrow> mem \<Rightarrow> int \<Rightarrow> 'k \<times> mem \<Rightarrow> bt_result \<Rightarrow> bool" where
  "record_returned val bt get it buf recordSize e r \<longleftrightarrow> (\<exists>m node i it'. m \<in> set (btree_leaves bt get) \<and> GetNode bt get m = Inr node \<and>
     i < nrec node \<and> e = (val (key_at bt node i), the (data_of bt node i)) \<and>
     br_err r = None \<and> br_len r = Some (int (length (snd e))) \<and> br_buf r = put_bytes buf 0 (take (nat recordSize) (snd e)) \<and>
     br_iter r = Some it' \<and> bi_nodeNum it' = m \<and> bi_index it' = int i \<and> bi_key it' = put_bytes (bi_key it) 0 (record_key bt node i))"

lemma links_ok_at:
  assumes "links_ok bt get p (pl @ m # ql)"
  obtains node where "GetNode bt get m = Inr node" "rd_bLink node = Some (if pl = [] then p else last pl)"
    "rd_fLink node = Some (case ql of [] \<Rightarrow> 0 | q # _ \<Rightarrow> q)"
proof -
  have "\<exists>node. GetNode bt get m = Inr node \<and> rd_bLink node = Some (if pl = [] then p else last pl) \<and>
    rd_fLink node = Some (case ql of [] \<Rightarrow> 0 | q # _ \<Rightarrow> q)" using assms
  proof (induction pl arbitrary: p)
    case Nil
    then show ?case by (auto split: sum.splits)
  next
    case (Cons a pl)
    then show ?case by (auto split: if_splits)
  qed
  then show thesis using that by blast
qed

lemma record_by_index:
  assumes "node_wf bt node" "i < nrec node" "data_of bt node i = Some d"
  obtains dp where "GetRecordByIndex bt node (int i) = Some (Inr (roff bt node i, dp, int (length d)))"
    "rdn node dp (int (length d)) = Some d"
proof -
  obtain k dp len where g: "GetRecordByIndex bt node (int i) = Some (Inr (k, dp, len))" "rdn node dp len = Some d"
    using assms(3) by (auto simp: data_of_def split: option.splits sum.splits)
  have "k = roff bt node i"
    using g(1) assms(1,2) by (auto simp: GetRecordByIndex_def Let_def mem_simps less_imp_le split: option.splits bind_splits if_splits)
  moreover have "len = int (length d)" using g(2) by (auto simp: rdn_def in_mem_def split: if_splits)
  ultimately show thesis using g that by simp
qed

lemma take_slice: "in_mem m a n \<Longrightarrow> 0 \<le> k \<Longrightarrow> k \<le> n \<Longrightarrow> bytes_at m a k = take (nat k) (bytes_at m a n)"
  by (simp add: bytes_at_def min_def nat_le_eq_zle)

lemma copy_record_run:
  assumes "rdn node dp (int (length d)) = Some d" "0 \<le> recordSize" "recordSize \<le> int (length buf)"
  shows "copy_record node dp (int (length d)) buf recordSize = Some (put_bytes buf 0 (take (nat recordSize) d))"
proof -
  have i: "in_mem node dp (int (length d))" "d = bytes_at node dp (int (length d))" using assms(1) by (auto simp: rdn_def split: if_splits)
  define n where "n = (if int (length d) > recordSize then recordSize else int (length d))"
  have "rdn node dp n = Some (take (nat recordSize) d)"
    using i assms(2) take_slice [OF i(1), of recordSize] in_mem_mono [OF i(1), of dp recordSize] by (auto simp: rdn_def n_def)
  then show ?thesis using assms(2,3) by (simp add: copy_record_def n_def wrn_def in_mem_def)
qed

lemma copy_key_run:
  assumes "key_fits bt node i (length dst)"
  shows "copy_key bt node (roff bt node i) dst = Some (put_bytes dst 0 (record_key bt node i))"
  using assms by (auto simp: key_fits_def copy_key_def record_key_def rdn_def wrn_def in_mem_def split: option.splits)

lemma put_slice_same: "in_mem m a n \<Longrightarrow> put_bytes m a (bytes_at m a n) = m"
  by (rule nth_equalityI) (auto simp: nth_splice nth_slice in_mem_def)

lemma copy_key_self:
  assumes "CalcKeySize bt key 0 = Some ks" "in_mem key 0 ks"
  shows "copy_key bt key 0 key = Some key"
  using assms by (simp add: copy_key_def rdn_def wrn_def put_slice_same) (simp add: in_mem_def)

text \<open>What both calls do with the record they found.\<close>

lemma found_run:
  assumes "node_wf bt node" "i < nrec node" "data_of bt node i = Some d" "key_fits bt node i (length (bi_key it))"
    "0 \<le> recordSize" "recordSize \<le> int (length buf)"
  shows "BTSearchRecord_found bt it m node (int i) buf recordSize = Some \<lparr> br_err = None, br_btcb = Some bt,
      br_iter = Some (it \<lparr> bi_writeCount := writeCount bt, bi_nodeNum := m, bi_index := int i,
        bi_key := put_bytes (bi_key it) 0 (record_key bt node i) \<rparr>),
      br_len = Some (int (length d)), br_buf = put_bytes buf 0 (take (nat recordSize) d) \<rparr>"
    "\<exists>it'. BTIterateRecord_copy bt operation (Some it) node m (int i) buf recordSize = Some (Inr \<lparr> br_err = None, br_btcb = Some bt,
      br_iter = Some it', br_len = Some (int (length d)), br_buf = put_bytes buf 0 (take (nat recordSize) d) \<rparr>) \<and>
      bi_nodeNum it' = m \<and> bi_index it' = int i \<and> bi_key it' = put_bytes (bi_key it) 0 (record_key bt node i)"
proof -
  obtain dp where g: "GetRecordByIndex bt node (int i) = Some (Inr (roff bt node i, dp, int (length d)))"
    "rdn node dp (int (length d)) = Some d" by (rule record_by_index [OF assms(1-3)])
  note c = copy_record_run [OF g(2) assms(5,6)] copy_key_run [OF assms(4)]
  show "BTSearchRecord_found bt it m node (int i) buf recordSize = Some \<lparr> br_err = None, br_btcb = Some bt,
      br_iter = Some (it \<lparr> bi_writeCount := writeCount bt, bi_nodeNum := m, bi_index := int i,
        bi_key := put_bytes (bi_key it) 0 (record_key bt node i) \<rparr>),
      br_len = Some (int (length d)), br_buf = put_bytes buf 0 (take (nat recordSize) d) \<rparr>"
    by (simp add: BTSearchRecord_found_def g(1) c)
  show "\<exists>it'. BTIterateRecord_copy bt operation (Some it) node m (int i) buf recordSize = Some (Inr \<lparr> br_err = None, br_btcb = Some bt,
      br_iter = Some it', br_len = Some (int (length d)), br_buf = put_bytes buf 0 (take (nat recordSize) d) \<rparr>) \<and>
      bi_nodeNum it' = m \<and> bi_index it' = int i \<and> bi_key it' = put_bytes (bi_key it) 0 (record_key bt node i)"
    by (simp add: BTIterateRecord_copy_def g(1) c)
qed
text \<open>An iterator without a hint whose key buffer takes every key of the tree.\<close>

definition iter_ok :: "(mem \<Rightarrow> bool) \<Rightarrow> BTreeControlBlock \<Rightarrow> get_block \<Rightarrow> BTIterator \<Rightarrow> bool" where
  "iter_ok valid bt get it \<longleftrightarrow> bi_nodeNum it = 0 \<and> valid (bi_key it) \<and> leaves_fit bt get (length (bi_key it)) \<and>
     2 \<le> length (bi_key it) \<and>
     (case CalcKeySize bt (bi_key it) 0 of None \<Rightarrow> False | Some ks \<Rightarrow> in_mem (bi_key it) 0 ks)"

lemma same_tree_result:
  assumes "same_tree bt bt'"
  shows "leaves_fit bt' get n = leaves_fit bt get n" "links_ok bt' get p ls = links_ok bt get p ls"
    "iter_ok valid bt' get it = iter_ok valid bt get it"
    "record_returned val bt' get it buf s e r = record_returned val bt get it buf s e r"
proof -
  note s = same_tree_node [OF assms] same_tree_btree [OF assms]
  have k: "key_fits bt' = key_fits bt" by (intro ext) (simp add: key_fits_def s split: option.split)
  show l: "leaves_fit bt' get n = leaves_fit bt get n" for n by (simp add: leaves_fit_def k s split: sum.split)
  show "links_ok bt' get p ls = links_ok bt get p ls" by (induction ls arbitrary: p) (simp_all add: s)
  show "iter_ok valid bt' get it = iter_ok valid bt get it" by (simp add: iter_ok_def l s)
  show "record_returned val bt' get it buf s e r = record_returned val bt get it buf s e r" by (simp add: record_returned_def record_key_def s)
qed

lemma no_hint: "IsItAHint bt 0 = (False, bt \<lparr> numHintChecks := u32 (numHintChecks bt + 1) \<rparr>)"
  by (simp add: IsItAHint_def Let_def)

lemma same_tree_hint: "same_tree bt (bt \<lparr> numHintChecks := n \<rparr>)"
  by (simp add: same_tree_def)

text \<open>A record of a leaf of the tree.\<close>

lemma leaf_recordD:
  assumes "btree_ok valid val bt get" "m \<in> set (btree_leaves bt get)" "GetNode bt get m = Inr node" "i < nrec node"
    "iter_ok valid bt get it"
  shows "node_wf bt node" "data_of bt node i = Some (the (data_of bt node i))" "key_fits bt node i (length (bi_key it))"
proof -
  have "treeDepth bt \<noteq> 0" using assms(2) by (auto simp: btree_leaves_def)
  then have ok: "tree_ok valid val bt get (Suc 0) m"
    using assms(1,2) tree_leaves_ok [of valid val bt get "nat (treeDepth bt)" "rootNode bt" m] by (simp add: btree_ok_def btree_leaves_def)
  then show "node_wf bt node" "data_of bt node i = Some (the (data_of bt node i))" using assms(3,4) by (auto simp: tree_ok.simps(2))
  show "key_fits bt node i (length (bi_key it))" using assms(2-5) by (auto simp: iter_ok_def leaves_fit_def split: sum.splits)
qed

context key_order
begin

lemma SearchTree_leaf:
  assumes "btree_ok valid_key key_val bt get" "valid_key key" "treeDepth bt \<noteq> 0"
  obtains err path m node index pl ql where "SearchTree cmp bt get key empty_path = Some (err, path, m, Some node, index)"
    "GetNode bt get m = Inr node" "tree_ok valid_key key_val bt get (Suc 0) m" "btree_leaves bt get = pl @ m # ql"
    "\<forall>x\<in>set pl. \<forall>e\<in>set (tree_entries key_val bt get (Suc 0) x). fst e < key_val key"
    "\<forall>x\<in>set ql. \<forall>e\<in>set (tree_entries key_val bt get (Suc 0) x). key_val key < fst e"
    "err = None \<or> err = Some fsBTRecordNotFoundErr" "search_result key_val bt node key (err = None, index)"
  using SearchTree_correct [OF assms] by (auto elim!: leaf_resultE)

theorem BTSearchRecord_run:
  assumes ok: "btree_ok valid_key key_val bt get" and it: "iter_ok valid_key bt get it"
    and size: "0 \<le> recordSize" "recordSize \<le> int (length buf)"
  shows "\<exists>r. BTSearchRecord cmp get (Some (Some bt)) (Some it) buf recordSize = Some r \<and>
    (case map_of (btree_entries key_val bt get) (key_val (bi_key it)) of
       Some d \<Rightarrow> record_returned key_val bt get it buf recordSize (key_val (bi_key it), d) r
     | None \<Rightarrow> br_err r = Some fsBTRecordNotFoundErr \<and> br_buf r = buf \<and> (treeDepth bt \<noteq> 0 \<longrightarrow> br_iter r = Some it))"
proof -
  define bt1 where "bt1 = bt \<lparr> numHintChecks := u32 (numHintChecks bt + 1) \<rparr>"
  have st: "same_tree bt bt1" unfolding bt1_def by (rule same_tree_hint)
  note s = same_tree_node [OF st] same_tree_btree [OF st] same_tree_result [OF st]
  have hint: "take_hint cmp bt get it = Some (None, bt1, it)" using it no_hint by (simp add: take_hint_def iter_ok_def bt1_def)
  have ok1: "btree_ok valid_key key_val bt1 get" and it1: "iter_ok valid_key bt1 get it" and v: "valid_key (bi_key it)"
    using ok it by (simp_all add: s iter_ok_def)
  have d1: "treeDepth bt1 = treeDepth bt" by (simp add: bt1_def)
  show ?thesis
  proof (cases "treeDepth bt = 0")
    case True
    have "SearchTree cmp bt1 get (bi_key it) empty_path = search_error fsBTEmptyErr empty_path" using True by (simp add: SearchTree_def d1)
    moreover have "\<exists>it'. clear_iterator it = Some it'"
      using it by (simp add: clear_iterator_def wr16_def wrn_def in_mem_def iter_ok_def numeral_2_eq_2)
    ultimately show ?thesis using True hint by (auto simp: BTSearchRecord_def search_error_def bt_fail_def btree_entries_def)
  next
    case False
    obtain err path m node index pl ql where r: "SearchTree cmp bt1 get (bi_key it) empty_path = Some (err, path, m, Some node, index)"
      "GetNode bt1 get m = Inr node" "tree_ok valid_key key_val bt1 get (Suc 0) m" "btree_leaves bt1 get = pl @ m # ql"
      "\<forall>x\<in>set pl. \<forall>e\<in>set (tree_entries key_val bt1 get (Suc 0) x). fst e < key_val (bi_key it)"
      "\<forall>x\<in>set ql. \<forall>e\<in>set (tree_entries key_val bt1 get (Suc 0) x). key_val (bi_key it) < fst e"
      "err = None \<or> err = Some fsBTRecordNotFoundErr" "search_result key_val bt1 node (bi_key it) (err = None, index)"
      using SearchTree_leaf [OF ok1 v] False d1 by metis
    have me: "map_of (btree_entries key_val bt get) (key_val (bi_key it)) = (if err = None then data_of bt1 node (nat index) else None)"
      using leaf_result_map_of [OF r(4,2,3,5,6,8)] by (simp add: btree_entries_leaves s ext [OF same_tree_tree(1) [OF st]] split: if_splits)
    show ?thesis
    proof (cases "err = None")
      case True
      then have i: "nat index < nrec node" "index = int (nat index)" "key_val (key_at bt1 node (nat index)) = key_val (bi_key it)"
        using r(8) by (auto simp: search_result_def nrec_def)
      have m: "m \<in> set (btree_leaves bt1 get)" using r(4) by simp
      note lr = leaf_recordD [OF ok1 m r(2) i(1) it1]
      define d where "d = the (data_of bt1 node (nat index))"
      note f = found_run(1) [OF lr(1) i(1) lr(2,3) size, folded i(2) d_def, of m]
      have "record_returned key_val bt1 get it buf recordSize (key_val (bi_key it), d)
        \<lparr> br_err = None, br_btcb = Some bt1, br_iter = Some (it \<lparr> bi_writeCount := writeCount bt1, bi_nodeNum := m, bi_index := index,
          bi_key := put_bytes (bi_key it) 0 (record_key bt1 node (nat index)) \<rparr>), br_len = Some (int (length d)),
          br_buf = put_bytes buf 0 (take (nat recordSize) d) \<rparr>"
        unfolding record_returned_def using m r(2) i by (intro exI [of _ m] exI [of _ node] exI [of _ "nat index"]) (simp add: d_def)
      moreover have "map_of (btree_entries key_val bt get) (key_val (bi_key it)) = Some d" using me True lr(2) by (simp add: d_def)
      ultimately show ?thesis using r(1) hint True f by (simp add: BTSearchRecord_def s)
    next
      case False
      obtain ks where "CalcKeySize bt1 (bi_key it) 0 = Some ks" "in_mem (bi_key it) 0 ks"
        using it1 by (auto simp: iter_ok_def split: option.splits)
      from copy_key_self [OF this] show ?thesis using r(1,7) hint False me by (auto simp: BTSearchRecord_def)
    qed
  qed
qed

end
lemma clear_iterator_run: "iter_ok valid bt get it \<Longrightarrow> \<exists>it'. clear_iterator it = Some it'"
  by (simp add: clear_iterator_def wr16_def wrn_def in_mem_def iter_ok_def numeral_2_eq_2)

lemma leaf_numRecords: "tree_ok valid val bt get (Suc 0) m \<Longrightarrow> GetNode bt get m = Inr node \<Longrightarrow>
    rd_numRecords node = Some (int (nrec node)) \<and> 0 < nrec node \<and> int (nrec node) < 65536 \<and> m \<noteq> 0"
  by (auto simp: tree_ok.simps(2) mem_simps)

text \<open>The record that the iteration copies, and its errors.\<close>

lemma iterate_found:
  assumes "btree_ok valid val bt get" "m \<in> set (btree_leaves bt get)" "GetNode bt get m = Inr node" "i < nrec node"
    "iter_ok valid bt get it" "0 \<le> recordSize" "recordSize \<le> int (length buf)"
  shows "\<exists>r. BTIterateRecord_copy bt operation (Some it) node m (int i) buf recordSize = Some (Inr r) \<and>
    record_returned val bt get it buf recordSize (val (key_at bt node i), the (data_of bt node i)) r"
proof -
  note lr = leaf_recordD [OF assms(1-5)]
  show ?thesis using found_run(2) [OF lr(1) assms(4) lr(2,3) assms(6,7), of operation m] assms(2-4)
    unfolding record_returned_def by fastforce
qed

lemma iterate_fails: "iter_ok valid bt get it \<Longrightarrow> \<exists>r. BTIterateRecord_fail e bt' (Some it) buf = Some r \<and>
    br_err r = Some (if e = fsBTEmptyErr \<or> e = fsBTEndOfIterationErr then fsBTRecordNotFoundErr else e) \<and> br_buf r = buf"
  using clear_iterator_run [of valid bt get it] by (auto simp: BTIterateRecord_fail_def bt_fail_def Let_def)

lemma last_leaf_entry: "GetNode bt get m = Inr node \<Longrightarrow> 0 < nrec node \<Longrightarrow> last (tree_entries val bt get (Suc 0) m) =
    (val (key_at bt node (nrec node - 1)), the (data_of bt node (nrec node - 1)))"
  by (cases "nrec node") (simp_all add: tree_entries_leaf)

lemma hd_leaf_entry: "GetNode bt get m = Inr node \<Longrightarrow> 0 < nrec node \<Longrightarrow> tree_entries val bt get (Suc 0) m \<noteq> [] \<and>
    hd (tree_entries val bt get (Suc 0) m) = (val (key_at bt node 0), the (data_of bt node 0))"
  by (simp add: tree_entries_leaf hd_map)

lemma rd_link_nonneg: "rd_bLink node = Some p \<Longrightarrow> 0 \<le> p" "rd_fLink node = Some p \<Longrightarrow> 0 \<le> p"
  by (auto simp: rd_bLink_def rd_fLink_def rd_Some)

text \<open>The steps from the place \<open>(m, index)\<close> where the search ended.\<close>

lemma iterate_prev_run:
  assumes ok: "btree_ok valid val bt get" and ls: "btree_leaves bt get = pl @ m # ql" and links: "links_ok bt get 0 (btree_leaves bt get)"
    and m: "GetNode bt get m = Inr node" "tree_ok valid val bt get (Suc 0) m" "keys_sorted valid val bt node"
    and r: "\<forall>x\<in>set pl. \<forall>e\<in>set (tree_entries val bt get (Suc 0) x). fst e < val key"
      "\<forall>x\<in>set ql. \<forall>e\<in>set (tree_entries val bt get (Suc 0) x). val key < fst e" "search_result val bt node key (found, index)"
  shows "\<exists>t. iterate_prev bt get (position_at None node None m index found) = Some t \<and>
    (let below = filter (\<lambda>e. fst e < val key) (btree_entries val bt get) in
     if below = [] then t = Inl fsBTStartOfIterationErr
     else \<exists>m' node' i. t = Inr (node', m', int i) \<and> m' \<in> set (btree_leaves bt get) \<and> GetNode bt get m' = Inr node' \<and> i < nrec node' \<and>
       last below = (val (key_at bt node' i), the (data_of bt node' i)))"
proof -
  let ?E = "\<lambda>ls. concat (map (tree_entries val bt get (Suc 0)) ls)"
  note b = leaves_filter(1) [OF ls m(1,3) r, folded btree_entries_leaves]
  have i: "0 \<le> index" "nat index \<le> nrec node" using r(3) by (auto simp: search_result_def nrec_def nat_le_iff nat_less_iff split: if_splits)
  show ?thesis
  proof (cases "index = 0")
    case False
    define j where "j = nat (index - 1)"
    have j: "index - 1 = int j" "nat index = Suc j" using False i(1) by (simp_all add: j_def)
    have l: "[0..<nat index] = [0..<j] @ [j]" "j < nrec node" unfolding j(2) using i(2) j(2) by simp_all
    have t: "iterate_prev bt get (position_at None node None m index found) = Some (Inr (node, m, int j))"
      using False i(1) by (simp add: iterate_prev_def position_at_def j(1))
    have "last (filter (\<lambda>e. fst e < val key) (btree_entries val bt get)) = (val (key_at bt node j), the (data_of bt node j))"
      "filter (\<lambda>e. fst e < val key) (btree_entries val bt get) \<noteq> []" unfolding b l(1) by simp_all
    then show ?thesis unfolding t Let_def using l(2) m(1) ls by (auto intro!: exI [of _ m] exI [of _ node] exI [of _ j])
  next
    case True
    have bl: "rd_bLink node = Some (if pl = [] then 0 else last pl)"
      by (rule links_ok_at [OF links [unfolded ls]]) (simp add: m(1))
    show ?thesis
    proof (cases "pl = []")
      case True
      then show ?thesis using \<open>index = 0\<close> bl b by (simp add: iterate_prev_def position_at_def)
    next
      case False
      then obtain pl' m' where pl: "pl = pl' @ [m']" by (metis rev_exhaust)
      have in': "m' \<in> set (btree_leaves bt get)" using ls pl by simp
      obtain node' where n': "GetNode bt get m' = Inr node'" "rd_fLink node' = Some m"
        by (rule links_ok_at [of bt get 0 pl' m' "m # ql"]) (use links [unfolded ls pl] in auto)
      have "treeDepth bt \<noteq> 0" using in' by (auto simp: btree_leaves_def)
      then have ok': "tree_ok valid val bt get (Suc 0) m'"
        using ok in' tree_leaves_ok [of valid val bt get "nat (treeDepth bt)" "rootNode bt" m'] by (simp add: btree_ok_def btree_leaves_def)
      note c = leaf_numRecords [OF ok' n'(1)]
      have u: "u16 (get16 node' 10 - 1) = get16 node' 10 - 1"
        using c get_le(2) [of node' 10] int_nrec [of node'] by (intro u16_id) linarith+
      have "0 < m'" using c rd_link_nonneg(1) [OF bl] pl by simp
      then have t: "iterate_prev bt get (position_at None node None m index found) = Some (Inr (node', m', int (nrec node' - 1)))"
        using \<open>index = 0\<close> bl pl n' m(1) c by (simp add: iterate_prev_def position_at_def u of_nat_diff)
      have "last (filter (\<lambda>e. fst e < val key) (btree_entries val bt get)) = last (tree_entries val bt get (Suc 0) m')"
        "filter (\<lambda>e. fst e < val key) (btree_entries val bt get) \<noteq> []"
        using hd_leaf_entry [OF n'(1), of val] c unfolding b pl by (auto simp: \<open>index = 0\<close>)
      then show ?thesis unfolding t Let_def using last_leaf_entry [OF n'(1), of val] c n'(1) in'
        by (auto intro!: exI [of _ m'] exI [of _ node'] exI [of _ "nrec node' - 1"])
    qed
  qed
qed

lemma iterate_next_run:
  assumes ok: "btree_ok valid val bt get" and ls: "btree_leaves bt get = pl @ m # ql" and links: "links_ok bt get 0 (btree_leaves bt get)"
    and m: "GetNode bt get m = Inr node" "tree_ok valid val bt get (Suc 0) m" "keys_sorted valid val bt node"
    and r: "\<forall>x\<in>set pl. \<forall>e\<in>set (tree_entries val bt get (Suc 0) x). fst e < val key"
      "\<forall>x\<in>set ql. \<forall>e\<in>set (tree_entries val bt get (Suc 0) x). val key < fst e" "search_result val bt node key (found, index)"
  shows "\<exists>t. iterate_next bt get (position_at None node None m index found) = Some t \<and>
    (let above = filter (\<lambda>e. val key < fst e) (btree_entries val bt get) in
     if above = [] then t = Inl fsBTEndOfIterationErr
     else \<exists>m' node' i. t = Inr (node', m', int i) \<and> m' \<in> set (btree_leaves bt get) \<and> GetNode bt get m' = Inr node' \<and> i < nrec node' \<and>
       hd above = (val (key_at bt node' i), the (data_of bt node' i)))"
proof -
  define j where "j = (if found then Suc (nat index) else nat index)"
  let ?f = "\<lambda>i. (val (key_at bt node i), the (data_of bt node i))"
  note a = leaves_filter(2) [OF ls m(1,3) r, folded btree_entries_leaves, folded j_def]
  have i: "0 \<le> index" "nat index \<le> nrec node" "found \<Longrightarrow> nat index < nrec node"
    using r(3) by (auto simp: search_result_def nrec_def nat_le_iff nat_less_iff split: if_splits)
  have j: "j \<le> nrec node" "int j = (if found then index + 1 else index)" using i by (auto simp: j_def)
  note c = leaf_numRecords [OF m(2,1)]
  have fl: "rd_fLink node = Some (case ql of [] \<Rightarrow> 0 | q # _ \<Rightarrow> q)"
    by (rule links_ok_at [OF links [unfolded ls]]) (simp add: m(1))
  show ?thesis
  proof (cases "j < nrec node")
    case True
    then have "int j < get16 node 10" using int_nrec [of node] by linarith
    then have t: "iterate_next bt get (position_at None node None m index found) = Some (Inr (node, m, int j))"
      using fl c j by (cases found) (auto simp: iterate_next_def position_at_def)
    have "[j..<nrec node] = j # [Suc j..<nrec node]" using True by (rule upt_conv_Cons)
    then have "hd (filter (\<lambda>e. val key < fst e) (btree_entries val bt get)) = ?f j" "filter (\<lambda>e. val key < fst e) (btree_entries val bt get) \<noteq> []"
      unfolding a by simp_all
    then show ?thesis unfolding t Let_def using True m(1) ls by (auto intro!: exI [of _ m] exI [of _ node] exI [of _ j])
  next
    case False
    then have "int j = get16 node 10" using int_nrec [of node] j(1) by linarith
    then have e: "found \<Longrightarrow> index = get16 node 10 - 1" "\<not> found \<Longrightarrow> index = get16 node 10" using j(2) by auto
    have a': "filter (\<lambda>e. val key < fst e) (btree_entries val bt get) = concat (map (tree_entries val bt get (Suc 0)) ql)"
      unfolding a using False by simp
    show ?thesis
    proof (cases ql)
      case Nil
      then show ?thesis using fl c e a' by (cases found) (auto simp: iterate_next_def position_at_def)
    next
      case (Cons m' ql')
      have in': "m' \<in> set (btree_leaves bt get)" using ls Cons by simp
      have "treeDepth bt \<noteq> 0" using in' by (auto simp: btree_leaves_def)
      then have ok': "tree_ok valid val bt get (Suc 0) m'"
        using ok in' tree_leaves_ok [of valid val bt get "nat (treeDepth bt)" "rootNode bt" m'] by (simp add: btree_ok_def btree_leaves_def)
      obtain node' where n': "GetNode bt get m' = Inr node'" using ok' by (auto elim: tree_okD)
      note c' = leaf_numRecords [OF ok' n']
      have "0 < m'" using c' rd_link_nonneg(2) [OF fl] Cons by simp
      then have t: "iterate_next bt get (position_at None node None m index found) = Some (Inr (node', m', int 0))"
        using fl c e n' Cons by (cases found) (auto simp: iterate_next_def position_at_def)
      have "hd (filter (\<lambda>e. val key < fst e) (btree_entries val bt get)) = hd (tree_entries val bt get (Suc 0) m')"
        "filter (\<lambda>e. val key < fst e) (btree_entries val bt get) \<noteq> []"
        using hd_leaf_entry [OF n', of val] c' unfolding a' Cons by auto
      then show ?thesis unfolding t Let_def using hd_leaf_entry [OF n', of val] c' n' in'
        by (auto intro!: exI [of _ m'] exI [of _ node'] exI [of _ 0])
    qed
  qed
qed
text \<open>The record next to a key, in either direction: what \<open>kBTreePrevRecord\<close> and \<open>kBTreeNextRecord\<close> must return.\<close>

definition neighbour :: "iter_op \<Rightarrow> 'k :: linorder \<Rightarrow> ('k \<times> mem) list \<Rightarrow> ('k \<times> mem) option" where
  "neighbour operation k es =
     (if operation = kBTreePrevRecord
      then case rev (filter (\<lambda>e. fst e < k) es) of [] \<Rightarrow> None | e # _ \<Rightarrow> Some e
      else case filter (\<lambda>e. k < fst e) es of [] \<Rightarrow> None | e # _ \<Rightarrow> Some e)"

lemma neighbour_cases:
  "neighbour kBTreePrevRecord k es = (let below = filter (\<lambda>e. fst e < k) es in if below = [] then None else Some (last below))"
  "neighbour kBTreeNextRecord k es = (let above = filter (\<lambda>e. k < fst e) es in if above = [] then None else Some (hd above))"
  by (auto simp: neighbour_def Let_def hd_rev [symmetric] split: list.splits)

context key_order
begin

lemma FindIteratorPosition_no_hint:
  assumes ok: "btree_ok valid_key key_val bt get" and it: "iter_ok valid_key bt get it" and d: "treeDepth bt \<noteq> 0"
  obtains m node index pl ql found where "btree_leaves bt get = pl @ m # ql" "GetNode bt get m = Inr node"
    "tree_ok valid_key key_val bt get (Suc 0) m" "keys_sorted valid_key key_val bt node"
    "\<forall>x\<in>set pl. \<forall>e\<in>set (tree_entries key_val bt get (Suc 0) x). fst e < key_val (bi_key it)"
    "\<forall>x\<in>set ql. \<forall>e\<in>set (tree_entries key_val bt get (Suc 0) x). key_val (bi_key it) < fst e"
    "search_result key_val bt node (bi_key it) (found, index)"
    "SearchTheTree cmp bt get it = Some (Inr (position_at None node None m index found), bt, it)"
proof -
  have v: "valid_key (bi_key it)" using it by (simp add: iter_ok_def)
  obtain err path m node index pl ql where r: "SearchTree cmp bt get (bi_key it) empty_path = Some (err, path, m, Some node, index)"
    "GetNode bt get m = Inr node" "tree_ok valid_key key_val bt get (Suc 0) m" "btree_leaves bt get = pl @ m # ql"
    "\<forall>x\<in>set pl. \<forall>e\<in>set (tree_entries key_val bt get (Suc 0) x). fst e < key_val (bi_key it)"
    "\<forall>x\<in>set ql. \<forall>e\<in>set (tree_entries key_val bt get (Suc 0) x). key_val (bi_key it) < fst e"
    "err = None \<or> err = Some fsBTRecordNotFoundErr" "search_result key_val bt node (bi_key it) (err = None, index)"
    by (rule SearchTree_leaf [OF ok v d])
  have s: "SearchTheTree cmp bt get it = Some (Inr (position_at None node None m index (err = None)), bt, it)"
    using r(1,7) by (auto simp: SearchTheTree_def)
  have "keys_sorted valid_key key_val bt node" using r(2,3) by (auto elim: tree_okD)
  then show thesis using that r(2-6,8) s by blast
qed

theorem BTIterateRecord_run:
  assumes ok: "btree_ok valid_key key_val bt get" and links: "links_ok bt get 0 (btree_leaves bt get)" and it: "iter_ok valid_key bt get it"
    and size: "0 \<le> recordSize" "recordSize \<le> int (length buf)" and operation: "operation = kBTreePrevRecord \<or> operation = kBTreeNextRecord"
  shows "\<exists>r. BTIterateRecord cmp get (Some (Some bt)) operation (Some it) buf recordSize = Some r \<and>
    (case neighbour operation (key_val (bi_key it)) (btree_entries key_val bt get) of
       Some e \<Rightarrow> record_returned key_val bt get it buf recordSize e r
     | None \<Rightarrow> br_buf r = buf \<and>
         br_err r = Some (if operation = kBTreePrevRecord \<and> treeDepth bt \<noteq> 0 then fsBTStartOfIterationErr else fsBTRecordNotFoundErr))"
proof -
  define bt1 where "bt1 = bt \<lparr> numHintChecks := u32 (numHintChecks bt + 1) \<rparr>"
  have st: "same_tree bt bt1" unfolding bt1_def by (rule same_tree_hint)
  note s = same_tree_node [OF st] same_tree_btree [OF st] same_tree_result [OF st]
  have ok1: "btree_ok valid_key key_val bt1 get" and it1: "iter_ok valid_key bt1 get it" and d1: "treeDepth bt1 = treeDepth bt"
    and links1: "links_ok bt1 get 0 (btree_leaves bt1 get)" using ok it links by (simp_all add: s) (simp add: bt1_def)
  have find: "FindIteratorPosition cmp bt get (Some it) = map_option (\<lambda>(r, bt, it). (r, bt, Some it)) (SearchTheTree cmp bt1 get it)"
    using it no_hint by (simp add: FindIteratorPosition_def iter_ok_def bt1_def Let_def)
  show ?thesis
  proof (cases "treeDepth bt = 0")
    case True
    have "SearchTheTree cmp bt1 get it = Some (Inl fsBTEmptyErr, bt1, it)" using True by (simp add: SearchTheTree_def SearchTree_def d1 search_error_def)
    then show ?thesis using operation True find iterate_fails [OF it1, of fsBTEmptyErr bt1 buf]
      by (auto simp: BTIterateRecord_def btree_entries_def neighbour_cases)
  next
    case False
    then have "treeDepth bt1 \<noteq> 0" by (simp add: d1)
    from FindIteratorPosition_no_hint [OF ok1 it1 this] obtain m node index pl ql found where p: "btree_leaves bt1 get = pl @ m # ql"
      "GetNode bt1 get m = Inr node" "tree_ok valid_key key_val bt1 get (Suc 0) m" "keys_sorted valid_key key_val bt1 node"
      "\<forall>x\<in>set pl. \<forall>e\<in>set (tree_entries key_val bt1 get (Suc 0) x). fst e < key_val (bi_key it)"
      "\<forall>x\<in>set ql. \<forall>e\<in>set (tree_entries key_val bt1 get (Suc 0) x). key_val (bi_key it) < fst e"
      "search_result key_val bt1 node (bi_key it) (found, index)"
      "SearchTheTree cmp bt1 get it = Some (Inr (position_at None node None m index found), bt1, it)" .
    define step where "step = (if operation = kBTreePrevRecord then iterate_prev bt1 get (position_at None node None m index found)
      else iterate_next bt1 get (position_at None node None m index found))"
    have t: "\<exists>t. step = Some t \<and> (case neighbour operation (key_val (bi_key it)) (btree_entries key_val bt1 get) of
        None \<Rightarrow> t = Inl (if operation = kBTreePrevRecord then fsBTStartOfIterationErr else fsBTEndOfIterationErr)
      | Some e \<Rightarrow> \<exists>m' node' i. t = Inr (node', m', int i) \<and> m' \<in> set (btree_leaves bt1 get) \<and> GetNode bt1 get m' = Inr node' \<and> i < nrec node' \<and>
          e = (key_val (key_at bt1 node' i), the (data_of bt1 node' i)))"
      using iterate_prev_run [OF ok1 p(1) links1 p(2-7)] iterate_next_run [OF ok1 p(1) links1 p(2-7)] operation
      by (auto simp: step_def neighbour_cases Let_def split: if_splits)
    have run: "BTIterateRecord cmp get (Some (Some bt)) operation (Some it) buf recordSize = Option.bind step (\<lambda>t.
        case t of Inl err \<Rightarrow> BTIterateRecord_fail err bt1 (Some it) buf
        | Inr (node, nodeNum, index) \<Rightarrow> Option.bind (BTIterateRecord_copy bt1 operation (Some it) node nodeNum index buf recordSize) (\<lambda>r.
            case r of Inl err \<Rightarrow> BTIterateRecord_fail err bt1 (Some it) buf | Inr res \<Rightarrow> Some res))"
      using operation find p(8) by (auto simp: BTIterateRecord_def step_def bind_map_option comp_def)
    show ?thesis
    proof (cases "neighbour operation (key_val (bi_key it)) (btree_entries key_val bt1 get)")
      case None
      then show ?thesis using t run False iterate_fails [OF it1] by (fastforce simp: s)
    next
      case (Some e)
      then obtain m' node' i where e: "step = Some (Inr (node', m', int i))" "m' \<in> set (btree_leaves bt1 get)" "GetNode bt1 get m' = Inr node'"
        "i < nrec node'" "e = (key_val (key_at bt1 node' i), the (data_of bt1 node' i))" using t by auto
      obtain r where "BTIterateRecord_copy bt1 operation (Some it) node' m' (int i) buf recordSize = Some (Inr r)"
        "record_returned key_val bt1 get it buf recordSize e r"
        using iterate_found [OF ok1 e(2-4) it1 size] unfolding e(5) by blast
      then show ?thesis using Some run e(1) by (simp add: s)
    qed
  qed
qed

end
section \<open>Properties\<close>

text \<open>A tree of two levels: the root, node 1, and two leaves, nodes 2 and 3, with the extents of the files 20, 30 and 40.\<close>

definition ex_leaf1 :: mem where
  "ex_leaf1 = [3,0,0,0, 0,0,0,0, 255,1, 2,0, 0,0] @ [10,0, 0,0, 20,0,0,0, 8,0,0,0, 1,1,1,1] @
     [10,0, 0,0, 30,0,0,0, 8,0,0,0, 2,2,2,2] @ replicate 12 0 @ [46,0, 30,0, 14,0]"

definition ex_leaf2 :: mem where
  "ex_leaf2 = [0,0,0,0, 2,0,0,0, 255,1, 2,0, 0,0] @ [10,0, 0,0, 30,0,0,0, 20,0,0,0, 3,3,3,3] @
     [10,0, 0,0, 40,0,0,0, 8,0,0,0, 4,4,4,4] @ replicate 12 0 @ [46,0, 30,0, 14,0]"

definition ex_root :: mem where
  "ex_root = [0,0,0,0, 0,0,0,0, 0,2, 2,0, 0,0] @ [10,0, 0,0, 20,0,0,0, 8,0,0,0, 2,0,0,0] @
     [10,0, 0,0, 30,0,0,0, 20,0,0,0, 3,0,0,0] @ replicate 12 0 @ [46,0, 30,0, 14,0]"

definition ex_tree_bt :: BTreeControlBlock where
  "ex_tree_bt = ex_bt \<lparr> treeDepth := 2, rootNode := 1, totalNodes := 4, firstLeafNode := 2, lastLeafNode := 3 \<rparr>"

definition ex_get :: get_block where
  "ex_get n = (if n = 1 then Inr ex_root else if n = 2 then Inr ex_leaf1 else if n = 3 then Inr ex_leaf2 else Inl fsBTInvalidNodeErr)"

lemma ex_GetNode [simp]: "GetNode ex_tree_bt ex_get 1 = Inr ex_root" "GetNode ex_tree_bt ex_get 2 = Inr ex_leaf1"
  "GetNode ex_tree_bt ex_get 3 = Inr ex_leaf2"
  by (simp_all add: GetNode_def ex_get_def ex_tree_bt_def ex_bt_def)

lemma ex_leaf1_facts: "node_wf ex_tree_bt ex_leaf1" "rd_height ex_leaf1 = Some 1" "rd_kind ex_leaf1 = Some kBTLeafNode" "nrec ex_leaf1 = 2"
  "fixed_key_ok (key_at ex_tree_bt ex_leaf1 0)" "fixed_key_ok (key_at ex_tree_bt ex_leaf1 (Suc 0))"
  "extent_key_val (key_at ex_tree_bt ex_leaf1 0) = (20, 0, 8)" "extent_key_val (key_at ex_tree_bt ex_leaf1 (Suc 0)) = (30, 0, 8)"
  "data_of ex_tree_bt ex_leaf1 0 = Some [1,1,1,1]" "data_of ex_tree_bt ex_leaf1 (Suc 0) = Some [2,2,2,2]"
  by code_simp+

lemma ex_leaf2_facts: "node_wf ex_tree_bt ex_leaf2" "rd_height ex_leaf2 = Some 1" "rd_kind ex_leaf2 = Some kBTLeafNode" "nrec ex_leaf2 = 2"
  "fixed_key_ok (key_at ex_tree_bt ex_leaf2 0)" "fixed_key_ok (key_at ex_tree_bt ex_leaf2 (Suc 0))"
  "extent_key_val (key_at ex_tree_bt ex_leaf2 0) = (30, 0, 20)" "extent_key_val (key_at ex_tree_bt ex_leaf2 (Suc 0)) = (40, 0, 8)"
  "data_of ex_tree_bt ex_leaf2 0 = Some [3,3,3,3]" "data_of ex_tree_bt ex_leaf2 (Suc 0) = Some [4,4,4,4]"
  by code_simp+

lemma ex_root_facts: "node_wf ex_tree_bt ex_root" "rd_height ex_root = Some 2" "rd_kind ex_root = Some kBTIndexNode" "nrec ex_root = 2"
  "fixed_key_ok (key_at ex_tree_bt ex_root 0)" "fixed_key_ok (key_at ex_tree_bt ex_root (Suc 0))"
  "extent_key_val (key_at ex_tree_bt ex_root 0) = (20, 0, 8)" "extent_key_val (key_at ex_tree_bt ex_root (Suc 0)) = (30, 0, 20)"
  "child_of ex_tree_bt ex_root 0 = Some 2" "child_of ex_tree_bt ex_root (Suc 0) = Some 3"
  by code_simp+

lemma upt_0_2: "[0..<2] = [0, Suc 0]"
  by (simp add: numeral_2_eq_2)

lemma ex_tree_entries [simp]:
  "tree_entries extent_key_val ex_tree_bt ex_get (Suc 0) 2 = [((20, 0, 8), [1,1,1,1]), ((30, 0, 8), [2,2,2,2])]"
  "tree_entries extent_key_val ex_tree_bt ex_get (Suc 0) 3 = [((30, 0, 20), [3,3,3,3]), ((40, 0, 8), [4,4,4,4])]"
  by (simp_all add: tree_entries_leaf ex_leaf1_facts ex_leaf2_facts upt_0_2)

lemma all_less_2: "(\<forall>i<2. P i) \<longleftrightarrow> P 0 \<and> P (Suc 0)"
  by (auto simp: less_2_cases_iff)

lemma ex_tree_leaf_ok: "tree_ok fixed_key_ok extent_key_val ex_tree_bt ex_get (Suc 0) 2"
  "tree_ok fixed_key_ok extent_key_val ex_tree_bt ex_get (Suc 0) 3"
  unfolding tree_ok.simps(2)
  by (simp_all add: ex_leaf1_facts ex_leaf2_facts all_less_2 keys_sorted_2 less_prod_def)

lemma ex_btree_ok: "btree_ok fixed_key_ok extent_key_val ex_tree_bt ex_get"
proof -
  have "tree_ok fixed_key_ok extent_key_val ex_tree_bt ex_get (Suc (Suc 0)) 1"
    unfolding tree_ok.simps(2) [of _ _ _ _ "Suc 0"]
    by (simp add: ex_root_facts all_less_2 keys_sorted_2 less_prod_def less_eq_prod_def ex_tree_leaf_ok)
  then show ?thesis by (simp add: btree_ok_def ex_tree_bt_def numeral_2_eq_2)
qed

lemma ex_btree_leaves: "btree_leaves ex_tree_bt ex_get = [2, 3]"
proof -
  have "tree_leaves ex_tree_bt ex_get (Suc (Suc 0)) 1 = [2, 3]"
    unfolding tree_leaves.simps(2) by (simp add: ex_root_facts upt_0_2)
  then show ?thesis by (simp add: btree_leaves_def ex_tree_bt_def numeral_2_eq_2)
qed

definition ex_iter :: "mem \<Rightarrow> BTIterator" where
  "ex_iter key = \<lparr> bi_writeCount = 0, bi_nodeNum = 0, bi_index = 0, bi_hitCount = 0, bi_maxLeafRecs = 0, bi_key = key \<rparr>"

lemma ex_leaves_fit: "leaves_fit ex_tree_bt ex_get 12"
proof -
  have "key_fits ex_tree_bt ex_leaf1 0 12" "key_fits ex_tree_bt ex_leaf1 (Suc 0) 12" "key_fits ex_tree_bt ex_leaf2 0 12" "key_fits ex_tree_bt ex_leaf2 (Suc 0) 12"
    by code_simp+
  then show ?thesis by (simp add: leaves_fit_def ex_btree_leaves ex_leaf1_facts ex_leaf2_facts all_less_2)
qed

lemma ex_links: "links_ok ex_tree_bt ex_get 0 (btree_leaves ex_tree_bt ex_get)"
proof -
  have "rd_bLink ex_leaf1 = Some 0" "rd_fLink ex_leaf1 = Some 3" "rd_bLink ex_leaf2 = Some 2" "rd_fLink ex_leaf2 = Some 0" by code_simp+
  then show ?thesis by (simp add: ex_btree_leaves)
qed
text \<open>C1: \<open>BTSearchRecord\<close> on a well-formed tree refines the lookup in the map that the leaf records stand for: it ends, reads
  inside of its nodes only, and for a key of the tree returns the data of that key's record, truncated to the caller's
  buffer, with its length, and sets the iterator to the record; for any other key it returns \<open>fsBTRecordNotFoundErr\<close> and leaves
  the buffer and the iterator as they were.  Stated for the extents tree; the proof is that of every key order.\<close>

theorem BTSearchRecord_extents:
  assumes "btree_ok fixed_key_ok extent_key_val bt get" "iter_ok fixed_key_ok bt get it" "0 \<le> recordSize" "recordSize \<le> int (length buf)"
  shows "\<exists>r. BTSearchRecord CompareExtentKeysPlus get (Some (Some bt)) (Some it) buf recordSize = Some r \<and>
    (case map_of (btree_entries extent_key_val bt get) (extent_key_val (bi_key it)) of
       Some d \<Rightarrow> record_returned extent_key_val bt get it buf recordSize (extent_key_val (bi_key it), d) r
     | None \<Rightarrow> br_err r = Some fsBTRecordNotFoundErr \<and> br_buf r = buf \<and> (treeDepth bt \<noteq> 0 \<longrightarrow> br_iter r = Some it))"
  by (rule ext_order.BTSearchRecord_run [OF assms])

lemma ex_iter_ok: "iter_ok fixed_key_ok ex_tree_bt ex_get (ex_iter [10,0, 0,0, 30,0,0,0, 20,0,0,0])"
  "iter_ok fixed_key_ok ex_tree_bt ex_get (ex_iter [10,0, 0,0, 30,0,0,0, 9,0,0,0])"
  "extent_key_val [10,0, 0,0, 30,0,0,0, 20,0,0,0] = (30, 0, 20)" "extent_key_val [10,0, 0,0, 30,0,0,0, 9,0,0,0] = (30, 0, 9)"
proof -
  have c: "CalcKeySize ex_tree_bt [10,0, 0,0, 30,0,0,0, 20,0,0,0] 0 = Some 12" "CalcKeySize ex_tree_bt [10,0, 0,0, 30,0,0,0, 9,0,0,0] 0 = Some 12"
    by code_simp+
  show "iter_ok fixed_key_ok ex_tree_bt ex_get (ex_iter [10,0, 0,0, 30,0,0,0, 20,0,0,0])"
    "iter_ok fixed_key_ok ex_tree_bt ex_get (ex_iter [10,0, 0,0, 30,0,0,0, 9,0,0,0])"
    using ex_leaves_fit by (simp_all add: iter_ok_def ex_iter_def fixed_key_ok_def in_mem_def c eval_nat_numeral)
  show "extent_key_val [10,0, 0,0, 30,0,0,0, 20,0,0,0] = (30, 0, 20)" "extent_key_val [10,0, 0,0, 30,0,0,0, 9,0,0,0] = (30, 0, 9)"
    by code_simp+
qed

lemma ex_btree_entries: "btree_entries extent_key_val ex_tree_bt ex_get =
    [((20, 0, 8), [1,1,1,1]), ((30, 0, 8), [2,2,2,2]), ((30, 0, 20), [3,3,3,3]), ((40, 0, 8), [4,4,4,4])]"
  by (simp add: btree_entries_leaves ex_btree_leaves)

theorem BTSearchRecord_extents_witness:
  "\<exists>r. BTSearchRecord CompareExtentKeysPlus ex_get (Some (Some ex_tree_bt)) (Some (ex_iter [10,0, 0,0, 30,0,0,0, 20,0,0,0])) [9,9,9,9] 4 = Some r \<and>
     record_returned extent_key_val ex_tree_bt ex_get (ex_iter [10,0, 0,0, 30,0,0,0, 20,0,0,0]) [9,9,9,9] 4 ((30, 0, 20), [3,3,3,3]) r"
  using BTSearchRecord_extents [OF ex_btree_ok ex_iter_ok(1), of 4 "[9,9,9,9]"] by (simp add: ex_iter_def ex_iter_ok ex_btree_entries)



definition ex_deep_bt :: BTreeControlBlock where
  "ex_deep_bt = ex_bt \<lparr> treeDepth := 16, rootNode := 1, totalNodes := 4 \<rparr>"

definition ex_deep_root :: mem where
  "ex_deep_root = [0,0,0,0, 0,0,0,0, 0,16, 1,0, 0,0] @ [10,0, 0,0, 20,0,0,0, 8,0,0,0, 2,0,0,0] @ replicate 30 0 @ [30,0, 14,0]"



end
