(* ===== verification/ExtentMap.thy ===== *)
theory ExtentMap
  imports C_Memory "HOL-Library.Signed_Division"
begin

text \<open>
  The map from file blocks to volume blocks: \<open>src/kmod/core/FileExtentMapping.c\<close>.

  The first eight extents of a fork are in its control block (\<open>FCB\<close>, in this driver the \<open>filefork\<close> together with
  its \<open>cnode\<close>); further ones are in records of the extents B-tree, keyed by fork, file and first file block.
  The state is the volume control block, whose record extension holds the rest of the volume (the extents tree
  and the allocation bitmap), and the control block of the file.

  The B-tree manager, the block allocator and the pinning calls are arguments (\<open>volume_ops\<close>): the
  definitions hold for any behaviour of them, every error code included.  Locks have no effect in the sequential
  model, and the branches for HFS standard volumes, compiled only with \<open>CONFIG_HFS_STD\<close>, are left out of the
  routines that access the tree.  An \<open>OSErr\<close> is an \<^typ>\<open>int\<close>, with \<open>noErr\<close> the value 0.
\<close>

section \<open>Data\<close>

record HFSPlusExtentDescriptor =
  startBlock :: int
  blockCount :: int

type_synonym HFSPlusExtentRecord = "HFSPlusExtentDescriptor list"

record HFSPlusExtentKey =
  k_keyLength :: int
  k_forkType :: int
  k_pad :: int
  k_fileID :: int
  k_startBlock :: int

record BTreeIterator =
  hint_nodeNum :: int
  hint_index :: int
  it_key :: HFSPlusExtentKey

record ExtendedVCB =
  vcbSigWord :: int
  blockSize :: int
  hfs_logical_block_size :: int
  hfsPlusIOPosOffset :: int
  vcbAlBlSt :: int
  vcbClpSiz :: int
  freeBlocks :: int
  reserveBlocks :: int
  loanedBlocks :: int
  lockedBlocks :: int
  nextAllocation :: int
  hfs_flags :: int
  hfs_metazone_start :: int
  hfs_metazone_end :: int
  hfs_header_dirty :: bool

text \<open>\<open>c_vp\<close> is \<^term>\<open>None\<close> for a nil vnode, and otherwise tells if the vnode has \<open>VV_SYSTEM\<close>.\<close>

record FCB =
  ff_size :: int
  ff_blocks :: int
  ff_unallocblocks :: int
  fcbExtents :: HFSPlusExtentRecord
  FORK_IS_RSRC :: bool
  c_fileid :: int
  c_blocks :: int
  c_flag :: int
  c_touch_chgtime :: bool
  ca_recflags :: int
  c_vp :: "bool option"

text \<open>The routines of other components that the file calls; \<open>'v\<close> is the volume.\<close>

record 'v volume_ops =
  BTSearchRecord :: "'v \<Rightarrow> BTreeIterator \<Rightarrow> int \<times> BTreeIterator \<times> HFSPlusExtentRecord \<times> int"
  BTIterateRecord :: "'v \<Rightarrow> int \<Rightarrow> BTreeIterator \<Rightarrow> int \<times> BTreeIterator \<times> HFSPlusExtentRecord \<times> int"
  BTInsertRecord :: "'v \<Rightarrow> BTreeIterator \<Rightarrow> HFSPlusExtentRecord \<Rightarrow> int \<Rightarrow> int \<times> BTreeIterator \<times> 'v"
  BTReplaceRecord :: "'v \<Rightarrow> BTreeIterator \<Rightarrow> HFSPlusExtentRecord \<Rightarrow> int \<Rightarrow> int \<times> 'v"
  BTDeleteRecord :: "'v \<Rightarrow> BTreeIterator \<Rightarrow> int \<times> 'v"
  BTFlushPath :: "'v \<Rightarrow> int \<times> 'v"
  extents_file_flag :: "'v \<Rightarrow> int"
  BlockAllocate :: "'v \<Rightarrow> int \<Rightarrow> int \<Rightarrow> int \<Rightarrow> int \<Rightarrow> int \<times> int \<times> int \<times> 'v"
  BlockDeallocate :: "'v \<Rightarrow> int \<Rightarrow> int \<Rightarrow> int \<Rightarrow> int \<times> 'v"
  hfs_get_backing_free_blks :: "'v \<Rightarrow> int option"
  hfs_pin_block_range :: "'v \<Rightarrow> int \<Rightarrow> int \<Rightarrow> int \<times> 'v"
  hfs_hotfile_adjust_blocks :: "'v \<Rightarrow> int \<Rightarrow> 'v"

abbreviation (input) noErr :: int where "noErr \<equiv> 0"
abbreviation (input) fxRangeErr :: int where "fxRangeErr \<equiv> - 32767 + 16"
abbreviation (input) fxOvFlErr :: int where "fxOvFlErr \<equiv> - 32767 + 17"
abbreviation (input) btNotFound :: int where "btNotFound \<equiv> - 32767 + 32"
abbreviation (input) fsBTStartOfIterationErr :: int where "fsBTStartOfIterationErr \<equiv> - 32767 + 0x0353"
abbreviation (input) dskFulErr :: int where "dskFulErr \<equiv> - 34"
abbreviation (input) EBUSY :: int where "EBUSY \<equiv> 16"
abbreviation (input) EINVAL :: int where "EINVAL \<equiv> 22"
abbreviation (input) kBTreePrevRecord :: int where "kBTreePrevRecord \<equiv> 2"
abbreviation (input) kNoHint :: int where "kNoHint \<equiv> 0"
abbreviation (input) kHFSSigWord :: int where "kHFSSigWord \<equiv> 0x4244"
abbreviation (input) kHFSPlusSigWord :: int where "kHFSPlusSigWord \<equiv> 0x482B"
abbreviation (input) kHFSExtentDensity :: nat where "kHFSExtentDensity \<equiv> 3"
abbreviation (input) kHFSPlusExtentDensity :: nat where "kHFSPlusExtentDensity \<equiv> 8"
abbreviation (input) kHFSPlusExtentKeyMaximumLength :: int where "kHFSPlusExtentKeyMaximumLength \<equiv> 10"
abbreviation (input) sizeof_HFSPlusExtentRecord :: int where "sizeof_HFSPlusExtentRecord \<equiv> 64"
abbreviation (input) kHFSExtentsFileID :: int where "kHFSExtentsFileID \<equiv> 3"
abbreviation (input) kDataForkType :: int where "kDataForkType \<equiv> 0"
abbreviation (input) kResourceForkType :: int where "kResourceForkType \<equiv> 0xFF"
abbreviation (input) C_MODIFIED :: int where "C_MODIFIED \<equiv> 0x10"
abbreviation (input) C_MINOR_MOD :: int where "C_MINOR_MOD \<equiv> 0x100"
abbreviation (input) HFS_CS_HOTFILE_PIN :: int where "HFS_CS_HOTFILE_PIN \<equiv> 0x4000000"
abbreviation (input) kHFSAutoCandidateMask :: int where "kHFSAutoCandidateMask \<equiv> 0x0800"
abbreviation (input) kHFSFastDevPinnedMask :: int where "kHFSFastDevPinnedMask \<equiv> 0x0100"

definition extent :: "int \<Rightarrow> int \<Rightarrow> HFSPlusExtentDescriptor" where
  "extent start count = \<lparr> startBlock = start, blockCount = count \<rparr>"

section \<open>Access to the extents tree\<close>

definition extent_key :: "int \<Rightarrow> int \<Rightarrow> int \<Rightarrow> HFSPlusExtentKey" where
  "extent_key forkType fileID start = \<lparr> k_keyLength = kHFSPlusExtentKeyMaximumLength, k_forkType = forkType,
     k_pad = 0, k_fileID = fileID, k_startBlock = start \<rparr>"

text \<open>The result holds the error, the key and the data (when the error is \<open>noErr\<close>) and the hint.\<close>

definition FindExtentRecord :: "'v volume_ops \<Rightarrow> 'v \<Rightarrow> int \<Rightarrow> int \<Rightarrow> int \<Rightarrow> bool \<Rightarrow>
    int \<times> (HFSPlusExtentKey \<times> HFSPlusExtentRecord) option \<times> int" where
  "FindExtentRecord ops vcb forkType fileID start allowPrevious =
     (let it = \<lparr> hint_nodeNum = 0, hint_index = 0, it_key = extent_key forkType fileID start \<rparr>;
          (err, it1, data, len) = BTSearchRecord ops vcb it;
          (err, it1, data) =
            (if err = btNotFound \<and> allowPrevious then
               let (err, it2, data, len) = BTIterateRecord ops vcb kBTreePrevRecord it1;
                   err = (if err = fsBTStartOfIterationErr then btNotFound else err);
                   err = (if err = noErr \<and> (k_fileID (it_key it2) \<noteq> fileID \<or> k_forkType (it_key it2) \<noteq> forkType)
                          then btNotFound else err)
               in (err, it2, data)
             else (err, it1, data))
      in (err, if err = noErr then Some (it_key it1, data) else None, hint_nodeNum it1))"

definition CreateExtentRecord :: "'v volume_ops \<Rightarrow> 'v \<Rightarrow> HFSPlusExtentKey \<Rightarrow> HFSPlusExtentRecord \<Rightarrow> int \<times> int \<times> 'v" where
  "CreateExtentRecord ops vcb key extents =
     (let it = \<lparr> hint_nodeNum = 0, hint_index = 0, it_key = key \<rparr>;
          (err, it1, vcb1) = BTInsertRecord ops vcb it extents sizeof_HFSPlusExtentRecord;
          hint = (if err = noErr then hint_nodeNum it1 else 0);
          (_, vcb2) = BTFlushPath ops vcb1
      in (err, hint, vcb2))"

definition DeleteExtentRecord :: "'v volume_ops \<Rightarrow> 'v \<Rightarrow> int \<Rightarrow> int \<Rightarrow> int \<Rightarrow> int \<times> 'v" where
  "DeleteExtentRecord ops vcb forkType fileID start =
     (let it = \<lparr> hint_nodeNum = 0, hint_index = 0, it_key = extent_key forkType fileID start \<rparr>;
          (err, vcb1) = BTDeleteRecord ops vcb it;
          (_, vcb2) = BTFlushPath ops vcb1
      in (err, vcb2))"

section \<open>Searching\<close>

text \<open>The loop over the extents returns the index at which it stopped, the end of the blocks seen and if the
  block was found.\<close>

fun SearchExtentRecord_loop :: "int \<Rightarrow> HFSPlusExtentRecord \<Rightarrow> int \<Rightarrow> int \<Rightarrow> int \<times> int \<times> bool" where
  "SearchExtentRecord_loop searchFABN [] extentIndex endingFABNPlusOne = (extentIndex, endingFABNPlusOne, False)"
| "SearchExtentRecord_loop searchFABN (e # es) extentIndex endingFABNPlusOne =
     (if blockCount e = 0 then (extentIndex, endingFABNPlusOne, False)
      else let ending = u32 (endingFABNPlusOne + blockCount e) in
        if searchFABN < ending then (extentIndex, ending, True)
        else SearchExtentRecord_loop searchFABN es (extentIndex + 1) ending)"

text \<open>The result: the error, the index of the extent, the end of its file blocks, and if there are no more extents.\<close>

definition SearchExtentRecord :: "'s ExtendedVCB_scheme \<Rightarrow> int \<Rightarrow> HFSPlusExtentRecord \<Rightarrow> int \<Rightarrow> int \<times> int \<times> int \<times> bool" where
  "SearchExtentRecord vcb searchFABN extentData extentDataStartFABN =
     (let numberOfExtents = (if vcbSigWord vcb \<noteq> kHFSSigWord then kHFSPlusExtentDensity else kHFSExtentDensity);
          (extentIndex, ending, foundExtent) =
            SearchExtentRecord_loop searchFABN (take numberOfExtents extentData) 0 extentDataStartFABN
      in if foundExtent then (noErr, extentIndex, ending, False)
         else (fxRangeErr, if extentIndex > 0 then extentIndex - 1 else 0, ending, extentIndex < int numberOfExtents))"

record ExtentSearch =
  foundKey :: HFSPlusExtentKey
  foundData :: HFSPlusExtentRecord
  foundIndex :: int
  foundHint :: int
  nextFABN :: int

text \<open>The key with length 0 stands for the extents of the control block; its other fields are not read.\<close>

definition fcb_key :: HFSPlusExtentKey where
  "fcb_key = \<lparr> k_keyLength = 0, k_forkType = 0, k_pad = 0, k_fileID = 0, k_startBlock = 0 \<rparr>"

definition GetFCBExtentRecord :: "FCB \<Rightarrow> int \<times> HFSPlusExtentRecord" where
  "GetFCBExtentRecord fcb = (noErr, fcbExtents fcb)"

definition fork_type :: "FCB \<Rightarrow> int" where
  "fork_type fcb = (if FORK_IS_RSRC fcb then kResourceForkType else kDataForkType)"

definition SearchExtentFile :: "'s ExtendedVCB_scheme volume_ops \<Rightarrow> 's ExtendedVCB_scheme \<Rightarrow> FCB \<Rightarrow> int \<Rightarrow> int \<times> ExtentSearch" where
  "SearchExtentFile ops vcb fcb filePosition =
     (let filePositionBlock = u32 (filePosition sdiv blockSize vcb);
          (err, index, ending, noMoreExtents) = SearchExtentRecord vcb filePositionBlock (fcbExtents fcb) 0;
          resident = \<lparr> foundKey = fcb_key, foundData = fcbExtents fcb, foundIndex = index, foundHint = kNoHint, nextFABN = ending \<rparr>
      in if err = noErr then (err, resident)
         else if noMoreExtents then (fxRangeErr, resident)
         else case FindExtentRecord ops vcb (fork_type fcb) (c_fileid fcb) filePositionBlock True of
           (err, found, hint) \<Rightarrow>
             if err = btNotFound then (fxRangeErr, resident \<lparr> foundData := snd (GetFCBExtentRecord fcb) \<rparr>)
             else case found of
               None \<Rightarrow> (err, resident \<lparr> foundHint := hint \<rparr>)
             | Some (key, data) \<Rightarrow>
                 (case SearchExtentRecord vcb filePositionBlock data (k_startBlock key) of
                    (err, index, ending, _) \<Rightarrow>
                      (err, \<lparr> foundKey = key, foundData = data, foundIndex = index, foundHint = hint, nextFABN = ending \<rparr>)))"

text \<open>The result: the error, \<open>*startSector\<close> and \<open>*availableBytes\<close> where they are written.  \<open>wantBytes\<close> tells if
  \<open>availableBytes\<close> is not nil.\<close>

definition MapFileBlockC :: "'s ExtendedVCB_scheme volume_ops \<Rightarrow> 's ExtendedVCB_scheme \<Rightarrow> FCB \<Rightarrow> int \<Rightarrow> int \<Rightarrow> bool \<Rightarrow>
    int \<times> int option \<times> int option" where
  "MapFileBlockC ops vcb fcb numberOfBytes offset wantBytes =
     (let allocBlockSize = blockSize vcb;
          sectorSize = hfs_logical_block_size vcb;
          (err, sf) = SearchExtentFile ops vcb fcb offset
      in if err \<noteq> noErr then (err, None, None)
         else let e = foundData sf ! nat (foundIndex sf);
              firstFABN = u32 (nextFABN sf - blockCount e);
              extentEnd = s64 (nextFABN sf * allocBlockSize);
              peof = s64 (ff_blocks fcb * allocBlockSize);
              dataEnd = (if peof < extentEnd then peof else extentEnd);
              sectorsPerBlock = allocBlockSize div sectorSize;
              temp = s64 (offset - s64 (firstFABN * allocBlockSize)) sdiv sectorSize;
              temp = s64 (temp + s64 (startBlock e * sectorsPerBlock));
              temp = s64 (temp + (if vcbSigWord vcb = kHFSPlusSigWord then hfsPlusIOPosOffset vcb div sectorSize else vcbAlBlSt vcb))
         in if \<not> wantBytes then (noErr, Some temp, None)
            else let tmpOff = s64 (dataEnd - offset) in
              if tmpOff \<le> 0 then (EINVAL, Some temp, None)
              else if tmpOff > s64 numberOfBytes then (noErr, Some temp, Some numberOfBytes)
              else (noErr, Some temp, Some tmpOff))"
section \<open>Contiguous nodes\<close>

fun ExtentsAreIntegral_loop :: "HFSPlusExtentRecord \<Rightarrow> int \<Rightarrow> int \<Rightarrow> bool \<times> int \<times> bool" where
  "ExtentsAreIntegral_loop [] msk blocksChecked = (True, blocksChecked, False)"
| "ExtentsAreIntegral_loop (e # es) msk blocksChecked =
     (let blocks = blockCount e in
      if blocks = 0 then (True, blocksChecked, True)
      else let checked = u32 (blocksChecked + blocks) in
        if blocks AND msk \<noteq> 0 then (False, checked, False)
        else ExtentsAreIntegral_loop es msk checked)"

text \<open>The result: the answer, \<open>*blocksChecked\<close> and \<open>*checkedLastExtent\<close>.\<close>

definition ExtentsAreIntegral :: "HFSPlusExtentRecord \<Rightarrow> int \<Rightarrow> bool \<times> int \<times> bool" where
  "ExtentsAreIntegral extentRecord msk = ExtentsAreIntegral_loop (take kHFSPlusExtentDensity extentRecord) msk 0"

text \<open>The loop over the overflow records may not end, which is \<^term>\<open>None\<close>.\<close>

partial_function (option) NodesAreContiguous_loop :: "'v volume_ops \<Rightarrow> 'v \<Rightarrow> int \<Rightarrow> int \<Rightarrow> int \<Rightarrow> bool option" where
  "NodesAreContiguous_loop ops vcb fileID msk start =
     (case FindExtentRecord ops vcb kDataForkType fileID start False of (result, found, hint) \<Rightarrow>
        case found of None \<Rightarrow> Some True
        | Some (key, extents) \<Rightarrow>
          (case ExtentsAreIntegral extents msk of (integral, blocksChecked, lastExtentReached) \<Rightarrow>
             if \<not> integral then Some False
             else if lastExtentReached then Some True
             else NodesAreContiguous_loop ops vcb fileID msk (u32 (start + blocksChecked))))"

definition NodesAreContiguous :: "'s ExtendedVCB_scheme volume_ops \<Rightarrow> 's ExtendedVCB_scheme \<Rightarrow> FCB \<Rightarrow> int \<Rightarrow> bool option" where
  "NodesAreContiguous ops vcb fcb node_size =
     (if blockSize vcb \<ge> node_size then Some True
      else let msk = u32 (node_size div blockSize vcb - 1);
               extents = snd (GetFCBExtentRecord fcb) in
        case ExtentsAreIntegral extents msk of (integral, blocksChecked, lastExtentReached) \<Rightarrow>
          if \<not> integral then Some False
          else if lastExtentReached \<or> s64 (blocksChecked * blockSize vcb) \<ge> s64 (ff_size fcb) then Some True
          else NodesAreContiguous_loop ops vcb (c_fileid fcb) msk blocksChecked)"

section \<open>Releasing extents\<close>

text \<open>The result: the error, \<open>*numReleasedAllocationBlocks\<close>, \<open>*releasedLastExtent\<close> and the volume.\<close>

fun ReleaseExtents_loop :: "'v volume_ops \<Rightarrow> 'v \<Rightarrow> HFSPlusExtentRecord \<Rightarrow> int \<Rightarrow> int \<times> int \<times> bool \<times> 'v" where
  "ReleaseExtents_loop ops vcb [] released = (noErr, released, False, vcb)"
| "ReleaseExtents_loop ops vcb (e # es) released =
     (if blockCount e = 0 then (noErr, released, True, vcb)
      else case BlockDeallocate ops vcb (startBlock e) (blockCount e) 0 of (err, vcb1) \<Rightarrow>
        if err \<noteq> noErr then (err, released, False, vcb1)
        else ReleaseExtents_loop ops vcb1 es (u32 (released + blockCount e)))"

definition ReleaseExtents :: "'s ExtendedVCB_scheme volume_ops \<Rightarrow> 's ExtendedVCB_scheme \<Rightarrow> HFSPlusExtentRecord \<Rightarrow>
    int \<times> int \<times> bool \<times> 's ExtendedVCB_scheme" where
  "ReleaseExtents ops vcb extentRecord =
     (let numberOfExtents = (if vcbSigWord vcb = kHFSPlusSigWord then kHFSPlusExtentDensity else kHFSExtentDensity)
      in ReleaseExtents_loop ops vcb (take numberOfExtents extentRecord) 0)"

text \<open>The loop may not end, which is \<^term>\<open>None\<close>.  The result: the error, \<open>*recordDeleted\<close> and the volume.\<close>

partial_function (option) TruncateExtents :: "'s ExtendedVCB_scheme volume_ops \<Rightarrow> 's ExtendedVCB_scheme \<Rightarrow> int \<Rightarrow> int \<Rightarrow> int \<Rightarrow>
    bool \<Rightarrow> (int \<times> bool \<times> 's ExtendedVCB_scheme) option" where
  "TruncateExtents ops vcb forkType fileID start recordDeleted =
     (case FindExtentRecord ops vcb forkType fileID start False of (err, found, hint) \<Rightarrow>
        case found of None \<Rightarrow> Some (if err = btNotFound then noErr else err, recordDeleted, vcb)
        | Some (key, extents) \<Rightarrow>
          (case ReleaseExtents ops vcb extents of (err, numberExtentsReleased, releasedLastExtent, vcb1) \<Rightarrow>
             if err \<noteq> noErr then Some (err, recordDeleted, vcb1)
             else case DeleteExtentRecord ops vcb1 forkType fileID start of (err, vcb2) \<Rightarrow>
               if err \<noteq> noErr then Some (err, recordDeleted, vcb2)
               else TruncateExtents ops vcb2 forkType fileID (u32 (start + numberExtentsReleased)) True))"

definition DeallocateFork :: "'s ExtendedVCB_scheme volume_ops \<Rightarrow> 's ExtendedVCB_scheme \<Rightarrow> int \<Rightarrow> int \<Rightarrow> HFSPlusExtentRecord \<Rightarrow>
    bool \<Rightarrow> (int \<times> bool \<times> 's ExtendedVCB_scheme) option" where
  "DeallocateFork ops vcb fileID forkType catalogExtents recordDeleted =
     (case ReleaseExtents ops vcb catalogExtents of (err, numReleasedAllocationBlocks, releasedLastExtent, vcb1) \<Rightarrow>
        if err = noErr \<and> \<not> releasedLastExtent
        then TruncateExtents ops vcb1 forkType fileID numReleasedAllocationBlocks recordDeleted
        else Some (err, recordDeleted, vcb1))"

definition MarkVCBDirty :: "'s ExtendedVCB_scheme \<Rightarrow> 's ExtendedVCB_scheme" where
  "MarkVCBDirty vcb = vcb \<lparr> hfs_header_dirty := True \<rparr>"

definition FlushExtentFile :: "'s ExtendedVCB_scheme volume_ops \<Rightarrow> 's ExtendedVCB_scheme \<Rightarrow> int \<times> 's ExtendedVCB_scheme" where
  "FlushExtentFile ops vcb =
     (case BTFlushPath ops vcb of (err, vcb1) \<Rightarrow>
        if err = noErr \<and> extents_file_flag ops vcb1 AND C_MODIFIED \<noteq> 0 then (err, MarkVCBDirty vcb1) else (err, vcb1))"

section \<open>Updating extent records\<close>

definition UpdateExtentRecord :: "'v volume_ops \<Rightarrow> 'v \<Rightarrow> FCB \<Rightarrow> bool \<Rightarrow> HFSPlusExtentKey \<Rightarrow> HFSPlusExtentRecord \<Rightarrow> int \<Rightarrow>
    int \<times> 'v \<times> FCB" where
  "UpdateExtentRecord ops vcb fcb deleted extentFileKey extentData extentBTreeHint =
     (if k_keyLength extentFileKey = 0 then
        let fcb1 = fcb \<lparr> fcbExtents := extentData \<rparr> in
        (noErr, vcb, if deleted then fcb1 else fcb1 \<lparr> c_flag := c_flag fcb1 OR C_MODIFIED \<rparr>)
      else
        let it = \<lparr> hint_nodeNum = extentBTreeHint, hint_index = 0, it_key = extentFileKey \<rparr>;
            (err, it1, _, btRecordSize) = BTSearchRecord ops vcb it;
            (err, vcb1) = (if err = noErr then BTReplaceRecord ops vcb it1 extentData btRecordSize else (err, vcb));
            (_, vcb2) = BTFlushPath ops vcb1
        in (err, vcb2, fcb))"

definition should_pin_blocks :: "'s ExtendedVCB_scheme \<Rightarrow> FCB \<Rightarrow> bool" where
  "should_pin_blocks hfsmp fcb =
     (case c_vp fcb of None \<Rightarrow> False
      | Some system \<Rightarrow>
        if hfs_flags hfsmp AND HFS_CS_HOTFILE_PIN = 0 then False
        else if system then True
        else if ca_recflags fcb AND kHFSAutoCandidateMask \<noteq> 0 then False
        else ca_recflags fcb AND kHFSFastDevPinnedMask \<noteq> 0)"

definition pin_blocks_if_needed :: "'s ExtendedVCB_scheme volume_ops \<Rightarrow> 's ExtendedVCB_scheme \<Rightarrow> FCB \<Rightarrow> int \<Rightarrow> int \<Rightarrow> 's ExtendedVCB_scheme" where
  "pin_blocks_if_needed ops vcb fcb start count =
     (if \<not> should_pin_blocks vcb fcb then vcb
      else case hfs_pin_block_range ops vcb start count of (err, vcb1) \<Rightarrow>
        if err = 0 then hfs_hotfile_adjust_blocks ops vcb1 (u32 (- count)) else vcb1)"

text \<open>A record whose first extent is the given one, the others zero.\<close>

definition new_extent_record :: "int \<Rightarrow> int \<Rightarrow> HFSPlusExtentRecord" where
  "new_extent_record start count = extent start count # replicate (kHFSPlusExtentDensity - 1) (extent 0 0)"

definition AddFileExtent :: "'s ExtendedVCB_scheme volume_ops \<Rightarrow> 's ExtendedVCB_scheme \<Rightarrow> FCB \<Rightarrow> int \<Rightarrow> int \<Rightarrow>
    int \<times> 's ExtendedVCB_scheme \<times> FCB" where
  "AddFileExtent ops vcb fcb start count =
     (let peof = s64 (u32 (ff_blocks fcb + count) * blockSize vcb);
          (error, sf) = SearchExtentFile ops vcb fcb (peof - 1)
      in if error \<noteq> fxRangeErr then (EBUSY, vcb, fcb)
         else
           let index = (if blockCount (foundData sf ! nat (foundIndex sf)) \<noteq> 0 then u32 (foundIndex sf + 1) else foundIndex sf);
               (error, vcb1, fcb1) =
                 (if index = int kHFSPlusExtentDensity then
                    case CreateExtentRecord ops vcb (extent_key kDataForkType (c_fileid fcb) (nextFABN sf)) (new_extent_record start count) of
                      (error, hint, vcb1) \<Rightarrow>
                        if error = fxOvFlErr then (dskFulErr, vcb1, fcb)
                        else if error = 0 then (error, pin_blocks_if_needed ops vcb1 fcb start count, fcb)
                        else (error, vcb1, fcb)
                  else
                    case UpdateExtentRecord ops vcb fcb False (foundKey sf) ((foundData sf)[nat index := extent start count]) (foundHint sf) of
                      (error, vcb1, fcb1) \<Rightarrow>
                        if error = 0 then (error, pin_blocks_if_needed ops vcb1 fcb1 start count, fcb1)
                        else (error, vcb1, fcb1));
               (_, vcb2) = FlushExtentFile ops vcb1
           in (error, vcb2, fcb1))"

section \<open>Truncation\<close>

definition howmany :: "int \<Rightarrow> int \<Rightarrow> int" where
  "howmany x y = (x + (y - 1)) sdiv y"

text \<open>The loop that releases the extents after the last one kept, from index \<open>i\<close> on.  The result: the error, the
  volume, the record, the next file block, and if an extent changed.\<close>

function TruncateFileC_loop :: "'v volume_ops \<Rightarrow> 'v \<Rightarrow> nat \<Rightarrow> HFSPlusExtentRecord \<Rightarrow> nat \<Rightarrow> int \<Rightarrow> bool \<Rightarrow>
    int \<times> 'v \<times> HFSPlusExtentRecord \<times> int \<times> bool" where
  "TruncateFileC_loop ops vcb numExtentsPerRecord extentRecord i nextBlock extentChanged =
     (if i < numExtentsPerRecord \<and> blockCount (extentRecord ! i) \<noteq> 0 then
        let numBlocks = blockCount (extentRecord ! i) in
        case BlockDeallocate ops vcb (startBlock (extentRecord ! i)) numBlocks 0 of (err, vcb1) \<Rightarrow>
          if err \<noteq> noErr then (err, vcb1, extentRecord, nextBlock, extentChanged)
          else TruncateFileC_loop ops vcb1 numExtentsPerRecord (extentRecord[i := extent 0 0]) (Suc i) (u32 (nextBlock + numBlocks)) True
      else (noErr, vcb, extentRecord, nextBlock, extentChanged))"
  by pat_completeness auto
termination by (relation "measure (\<lambda>(_, _, n, _, i, _, _). n - i)") auto

text \<open>The last extent that stays is shortened to end before file block \<open>nextBlock\<close>.\<close>

definition TruncateFileC_shorten :: "'v volume_ops \<Rightarrow> 'v \<Rightarrow> HFSPlusExtentRecord \<Rightarrow> nat \<Rightarrow> int \<Rightarrow> int \<Rightarrow>
    int \<times> 'v \<times> HFSPlusExtentRecord \<times> bool" where
  "TruncateFileC_shorten ops vcb extentRecord i extentNextBlock nextBlock =
     (let numBlocks = u32 (extentNextBlock - nextBlock); e = extentRecord ! i in
      if numBlocks = 0 then (noErr, vcb, extentRecord, False)
      else case BlockDeallocate ops vcb (u32 (startBlock e + blockCount e - numBlocks)) numBlocks 0 of (err, vcb1) \<Rightarrow>
        if err \<noteq> noErr then (err, vcb1, extentRecord, False)
        else let count = u32 (blockCount e - numBlocks) in
          (noErr, vcb1, extentRecord[i := extent (if count = 0 then 0 else startBlock e) count], True))"

text \<open>After \<open>ErrorExit\<close>.\<close>

definition TruncateFileC_exit :: "'s ExtendedVCB_scheme volume_ops \<Rightarrow> int \<Rightarrow> bool \<Rightarrow> 's ExtendedVCB_scheme \<Rightarrow> FCB \<Rightarrow>
    int \<times> 's ExtendedVCB_scheme \<times> FCB" where
  "TruncateFileC_exit ops err recordDeleted vcb fcb =
     (err, if recordDeleted then snd (FlushExtentFile ops vcb) else vcb, fcb)"

text \<open>The part after the extent that holds the last byte was found.\<close>

definition TruncateFileC_extents :: "'s ExtendedVCB_scheme volume_ops \<Rightarrow> 's ExtendedVCB_scheme \<Rightarrow> FCB \<Rightarrow> bool \<Rightarrow> int \<Rightarrow> int \<Rightarrow> bool \<Rightarrow>
    ExtentSearch \<Rightarrow> int \<Rightarrow> int \<Rightarrow> (int \<times> 's ExtendedVCB_scheme \<times> FCB) option" where
  "TruncateFileC_extents ops vcb fcb deleted forkType fileid truncateToExtent sf nextBlock physNumBlocks =
     (let numExtentsPerRecord = (if vcbSigWord vcb = kHFSPlusSigWord then kHFSPlusExtentDensity else kHFSExtentDensity);
          i = nat (foundIndex sf);
          (err, vcb1, record1, changed1) =
            (if truncateToExtent then (noErr, vcb, foundData sf, False)
             else TruncateFileC_shorten ops vcb (foundData sf) i (nextFABN sf) nextBlock)
      in if err \<noteq> noErr then Some (TruncateFileC_exit ops err False vcb1 fcb)
         else case TruncateFileC_loop ops vcb1 numExtentsPerRecord record1 (Suc i) (nextFABN sf) changed1 of
           (err, vcb2, record2, nextBlock2, changed2) \<Rightarrow>
             if err \<noteq> noErr then Some (TruncateFileC_exit ops err False vcb2 fcb)
             else
               let (err, vcb3, fcb3) = (if changed2 then UpdateExtentRecord ops vcb2 fcb deleted (foundKey sf) record2 (foundHint sf)
                                        else (noErr, vcb2, fcb)) in
               if err \<noteq> noErr then Some (TruncateFileC_exit ops err False vcb3 fcb3)
               else if nextBlock2 < physNumBlocks then do {
                 (err, recordDeleted, vcb4) \<leftarrow> TruncateExtents ops vcb3 forkType fileid nextBlock2 False;
                 Some (TruncateFileC_exit ops err recordDeleted vcb4 fcb3) }
               else Some (TruncateFileC_exit ops noErr False vcb3 fcb3))"

definition TruncateFileC :: "'s ExtendedVCB_scheme volume_ops \<Rightarrow> 's ExtendedVCB_scheme \<Rightarrow> FCB \<Rightarrow> int \<Rightarrow> bool \<Rightarrow> bool \<Rightarrow> int \<Rightarrow> bool \<Rightarrow>
    (int \<times> 's ExtendedVCB_scheme \<times> FCB) option" where
  "TruncateFileC ops vcb fcb peof deleted rsrc fileid truncateToExtent =
     (let forkType = (if rsrc then kResourceForkType else kDataForkType);
          physNumBlocks = u32 (ff_blocks fcb);
          nextBlock = u32 (howmany peof (blockSize vcb));
          peof = s64 (nextBlock * blockSize vcb);
          numBlocks = u32 (peof sdiv blockSize vcb);
          fcb1 = (if deleted then fcb else fcb \<lparr> c_blocks := u32 (c_blocks fcb - u32 (ff_blocks fcb - numBlocks)) \<rparr>);
          fcb2 = fcb1 \<lparr> ff_blocks := numBlocks \<rparr>;
          fcb3 = (if deleted then fcb2 else fcb2 \<lparr> c_flag := c_flag fcb2 OR C_MODIFIED \<rparr>)
      in if peof = 0 then do {
           (err, recordDeleted, vcb1) \<leftarrow> DeallocateFork ops vcb fileid forkType (fcbExtents fcb3) False;
           Some (TruncateFileC_exit ops err recordDeleted vcb1
             (if err \<noteq> noErr then fcb3 else fcb3 \<lparr> fcbExtents := replicate kHFSPlusExtentDensity (extent 0 0) \<rparr>)) }
         else case SearchExtentFile ops vcb fcb3 (peof - 1) of (err, sf) \<Rightarrow>
           if err \<noteq> noErr then Some (TruncateFileC_exit ops err False vcb fcb3)
           else TruncateFileC_extents ops vcb fcb3 deleted forkType fileid truncateToExtent sf nextBlock physNumBlocks)"

section \<open>Truncation at the head\<close>

text \<open>Error numbers of the host: \<open>ENOSPC\<close>, \<open>EOVERFLOW\<close>, \<open>EIO\<close> and so on.  \<open>HFS_ERESERVEDNAME\<close> is \<open>-8\<close>.\<close>

definition MacToVFSError :: "int \<Rightarrow> int" where
  "MacToVFSError err =
     (if err \<ge> 0 then err
      else if err = - 8 then err
      else if err = dskFulErr \<or> err = - 32767 + 34 then 28
      else if err = fxOvFlErr then 84
      else if err = - 32767 + 36 then 5
      else if err = - 108 then 12
      else if err = - 32767 + 49 \<or> err = - 32767 + 33 then 17
      else if err = - 32767 + 48 \<or> err = btNotFound then 2
      else if err = - 32767 + 50 then 66
      else if err = - 32767 + 53 then 21
      else if err = fxRangeErr then 34
      else if err = - 37 then 63
      else if err = - 50 \<or> err = - 1309 then 22
      else if err = - 32767 + 0x030C then 6
      else 5)"

record 'v head_state =
  ht_vcb :: 'v
  ht_extents :: HFSPlusExtentRecord
  ht_tail :: HFSPlusExtentRecord
  ht_j :: nat
  ht_blksfreed :: int
  ht_startblk :: int
  ht_blkcnt :: int

text \<open>A store to \<open>tailExtents[j]\<close>, an array of eight extents.\<close>

definition store_tail :: "'v head_state \<Rightarrow> HFSPlusExtentDescriptor \<Rightarrow> 'v head_state option" where
  "store_tail st e =
     (if ht_j st < length (ht_tail st)
      then Some (st \<lparr> ht_tail := (ht_tail st)[ht_j st := e], ht_j := Suc (ht_j st) \<rparr>) else None)"

text \<open>The loop over the extents of the control block; an error is returned only for the first extent.\<close>

fun HeadTruncateFile_resident :: "'v volume_ops \<Rightarrow> int \<Rightarrow> HFSPlusExtentRecord \<Rightarrow> nat \<Rightarrow> 'v head_state \<Rightarrow> (int \<times> 'v head_state) option" where
  "HeadTruncateFile_resident ops headblks [] i st = Some (noErr, st)"
| "HeadTruncateFile_resident ops headblks (e # es) i st =
     (let blkcnt = blockCount e; st = st \<lparr> ht_blkcnt := blkcnt \<rparr> in
      if blkcnt = 0 then Some (noErr, st)
      else if ht_blksfreed st < headblks then
        case BlockDeallocate ops (ht_vcb st) (startBlock e) blkcnt 0 of (error, vcb1) \<Rightarrow>
          let st1 = st \<lparr> ht_vcb := vcb1 \<rparr> in
          if error \<noteq> 0 \<and> i = 0 then Some (error, st1)
          else HeadTruncateFile_resident ops headblks es (Suc i)
            (st1 \<lparr> ht_blksfreed := u32 (ht_blksfreed st + blkcnt), ht_extents := (ht_extents st)[i := extent 0 0],
                   ht_startblk := u32 (ht_startblk st + blkcnt) \<rparr>)
      else do {
        st1 \<leftarrow> store_tail st (extent (startBlock e) blkcnt);
        HeadTruncateFile_resident ops headblks es (Suc i) (st1 \<lparr> ht_startblk := u32 (ht_startblk st1 + blkcnt) \<rparr>) })"

text \<open>The loop over the extents of one overflow record, with the number of its blocks.\<close>

fun HeadTruncateFile_record :: "'v volume_ops \<Rightarrow> int \<Rightarrow> HFSPlusExtentRecord \<Rightarrow> int \<Rightarrow> 'v head_state \<Rightarrow> (int \<times> 'v head_state) option" where
  "HeadTruncateFile_record ops headblks [] extblks st = Some (extblks, st)"
| "HeadTruncateFile_record ops headblks (e # es) extblks st =
     (let blkcnt = blockCount e; st = st \<lparr> ht_blkcnt := blkcnt \<rparr> in
      if blkcnt = 0 then Some (extblks, st)
      else if ht_blksfreed st < headblks then
        case BlockDeallocate ops (ht_vcb st) (startBlock e) blkcnt 0 of (error, vcb1) \<Rightarrow>
          HeadTruncateFile_record ops headblks es (u32 (extblks + blkcnt))
            (st \<lparr> ht_vcb := vcb1, ht_blksfreed := u32 (ht_blksfreed st + blkcnt) \<rparr>)
      else do {
        st1 \<leftarrow> store_tail st (extent (startBlock e) blkcnt);
        HeadTruncateFile_record ops headblks es (u32 (extblks + blkcnt)) st1 })"

partial_function (option) HeadTruncateFile_overflow :: "'v volume_ops \<Rightarrow> int \<Rightarrow> int \<Rightarrow> int \<Rightarrow> 'v head_state \<Rightarrow> 'v head_state option" where
  "HeadTruncateFile_overflow ops headblks forkType fileID st =
     (case FindExtentRecord ops (ht_vcb st) forkType fileID (ht_startblk st) False of (error, found, hint) \<Rightarrow>
        case found of None \<Rightarrow> Some st
        | Some (key, extents) \<Rightarrow>
          Option.bind (HeadTruncateFile_record ops headblks (take kHFSPlusExtentDensity extents) 0 st) (\<lambda>(extblks, st1).
            case DeleteExtentRecord ops (ht_vcb st1) forkType fileID (ht_startblk st1) of (error, vcb2) \<Rightarrow>
              let st2 = st1 \<lparr> ht_vcb := vcb2 \<rparr> in
              if ht_blkcnt st2 = 0 then Some st2
              else HeadTruncateFile_overflow ops headblks forkType fileID (st2 \<lparr> ht_startblk := u32 (ht_startblk st2 + extblks) \<rparr>)))"

definition HeadTruncateFile :: "'s ExtendedVCB_scheme volume_ops \<Rightarrow> 's ExtendedVCB_scheme \<Rightarrow> FCB \<Rightarrow> int \<Rightarrow>
    (int \<times> 's ExtendedVCB_scheme \<times> FCB) option" where
  "HeadTruncateFile ops vcb fcb headblks =
     (if vcbSigWord vcb \<noteq> kHFSPlusSigWord then Some (- 1, vcb, fcb)
      else do {
        let st = \<lparr> ht_vcb = vcb, ht_extents = fcbExtents fcb, ht_tail = replicate kHFSPlusExtentDensity (extent 0 0), ht_j = 0,
                   ht_blksfreed = 0, ht_startblk = 0, ht_blkcnt = 0 \<rparr>;
        (error, st1) \<leftarrow> HeadTruncateFile_resident ops headblks (take kHFSPlusExtentDensity (fcbExtents fcb)) 0 st;
        if error \<noteq> 0 then Some (MacToVFSError error, ht_vcb st1, fcb \<lparr> fcbExtents := ht_extents st1 \<rparr>)
        else do {
          st2 \<leftarrow> (if ht_blkcnt st1 = 0 then Some st1
                  else HeadTruncateFile_overflow ops headblks (fork_type fcb) (c_fileid fcb) st1);
          if ht_blksfreed st2 = 0 then Some (MacToVFSError 0, ht_vcb st2, fcb \<lparr> fcbExtents := ht_extents st2 \<rparr>)
          else
            let fcb1 = fcb \<lparr> fcbExtents := ht_tail st2, ff_blocks := u32 (ff_blocks fcb - headblks),
                  c_blocks := u32 (c_blocks fcb - headblks), c_flag := c_flag fcb OR C_MODIFIED, c_touch_chgtime := True \<rparr>
            in Some (MacToVFSError 0, snd (FlushExtentFile ops (ht_vcb st2)), fcb1) } })"

section \<open>Extension\<close>

abbreviation (input) kEFAllMask :: int where "kEFAllMask \<equiv> 0x01"
abbreviation (input) kEFContigMask :: int where "kEFContigMask \<equiv> 0x02"
abbreviation (input) kEFReserveMask :: int where "kEFReserveMask \<equiv> 0x04"
abbreviation (input) kEFDeferMask :: int where "kEFDeferMask \<equiv> 0x08"
abbreviation (input) kEFNoClumpMask :: int where "kEFNoClumpMask \<equiv> 0x10"
abbreviation (input) kEFMetadataMask :: int where "kEFMetadataMask \<equiv> 0x20"
abbreviation (input) HFS_ALLOC_FORCECONTIG :: int where "HFS_ALLOC_FORCECONTIG \<equiv> 0x001"
abbreviation (input) HFS_ALLOC_METAZONE :: int where "HFS_ALLOC_METAZONE \<equiv> 0x002"
abbreviation (input) HFS_ALLOC_FLUSHTXN :: int where "HFS_ALLOC_FLUSHTXN \<equiv> 0x008"
abbreviation (input) HFS_ALLOC_FAST_DEV :: int where "HFS_ALLOC_FAST_DEV \<equiv> 0x1000"
abbreviation (input) HFS_MAX_DEFERED_ALLOC :: int where "HFS_MAX_DEFERED_ALLOC \<equiv> 1024 * 1024"
abbreviation (input) HFS_METADATA_ZONE :: int where "HFS_METADATA_ZONE \<equiv> 0x00080"
abbreviation (input) HFS_HAS_SPARSE_DEVICE :: int where "HFS_HAS_SPARSE_DEVICE \<equiv> 0x00400"
abbreviation (input) HFS_SKIP_UPDATE_NEXT_ALLOCATION :: int where "HFS_SKIP_UPDATE_NEXT_ALLOCATION \<equiv> 0x04000"
abbreviation (input) HFS_DID_CONTIG_SCAN :: int where "HFS_DID_CONTIG_SCAN \<equiv> 0x100000"
abbreviation (input) kHFSFirstUserCatalogNodeID :: int where "kHFSFirstUserCatalogNodeID \<equiv> 16"

definition hfs_freeblks :: "'s ExtendedVCB_scheme volume_ops \<Rightarrow> 's ExtendedVCB_scheme \<Rightarrow> bool \<Rightarrow> int" where
  "hfs_freeblks ops hfsmp wantreserve =
     (let freeblks = freeBlocks hfsmp;
          rsrvblks = reserveBlocks hfsmp;
          loanblks = u32 (loanedBlocks hfsmp + lockedBlocks hfsmp);
          freeblks = (if wantreserve then if freeblks > rsrvblks then freeblks - rsrvblks else 0 else freeblks);
          freeblks = (if freeblks > loanblks then freeblks - loanblks else 0)
      in case hfs_get_backing_free_blks ops hfsmp of None \<Rightarrow> freeblks | Some vfreeblks \<Rightarrow> min freeblks (u32 vfreeblks))"

text \<open>The local variables of \<open>ExtendFileC\<close> that its allocation loop changes.\<close>

record 'v extend_state =
  xs_vcb :: 'v
  xs_fcb :: FCB
  xs_search :: ExtentSearch
  xs_bytesToAdd :: int
  xs_maximumBytes :: int
  xs_wantContig :: bool
  xs_useMetaZone :: bool
  xs_allowFlushTxns :: bool
  xs_needsFlush :: bool

text \<open>The blocks \<open>start\<close> to \<open>start + num - 1\<close> were allocated: they are added to the extent record.  \<open>grow\<close> tells if
  they follow the last extent.\<close>

definition ExtendFileC_record :: "'s ExtendedVCB_scheme volume_ops \<Rightarrow> 's ExtendedVCB_scheme extend_state \<Rightarrow> bool \<Rightarrow> int \<Rightarrow> int \<Rightarrow>
    int \<times> 's ExtendedVCB_scheme extend_state" where
  "ExtendFileC_record ops st grow start num =
     (let sf = xs_search st; vcb = xs_vcb st; fcb = xs_fcb st; e = foundData sf ! nat (foundIndex sf) in
      if grow then
        let sf1 = sf \<lparr> foundData := (foundData sf)[nat (foundIndex sf) := extent (startBlock e) (u32 (blockCount e + num))] \<rparr> in
        case UpdateExtentRecord ops vcb fcb False (foundKey sf1) (foundData sf1) (foundHint sf1) of
          (err, vcb1, fcb1) \<Rightarrow> (err, st \<lparr> xs_vcb := vcb1, xs_fcb := fcb1, xs_search := sf1 \<rparr>)
      else
        let index = (if blockCount e \<noteq> 0 then u32 (foundIndex sf + 1) else foundIndex sf) in
        if index = int kHFSPlusExtentDensity then
          if c_fileid fcb = kHFSExtentsFileID then
            (dskFulErr, st \<lparr> xs_vcb := snd (BlockDeallocate ops vcb start num 0), xs_search := sf \<lparr> foundIndex := index \<rparr> \<rparr>)
          else
            let key = extent_key (fork_type fcb) (c_fileid fcb) (nextFABN sf); data = new_extent_record start num in
            (case CreateExtentRecord ops vcb key data of (err, hint, vcb1) \<Rightarrow>
               let sf1 = sf \<lparr> foundKey := key, foundData := data, foundIndex := 0, foundHint := hint \<rparr> in
               if err = fxOvFlErr then (dskFulErr, st \<lparr> xs_vcb := snd (BlockDeallocate ops vcb1 start num 0), xs_search := sf1 \<rparr>)
               else if err \<noteq> noErr then (err, st \<lparr> xs_vcb := vcb1, xs_search := sf1 \<rparr>)
               else (err, st \<lparr> xs_vcb := vcb1, xs_search := sf1, xs_needsFlush := True \<rparr>))
        else
          let sf1 = sf \<lparr> foundData := (foundData sf)[nat index := extent start num], foundIndex := index \<rparr> in
          case UpdateExtentRecord ops vcb fcb False (foundKey sf1) (foundData sf1) (foundHint sf1) of
            (err, vcb1, fcb1) \<Rightarrow> (err, st \<lparr> xs_vcb := vcb1, xs_fcb := fcb1, xs_search := sf1 \<rparr>))"

text \<open>The counters after an allocation of \<open>num\<close> blocks.\<close>

definition ExtendFileC_account :: "'s ExtendedVCB_scheme extend_state \<Rightarrow> int \<Rightarrow> 's ExtendedVCB_scheme extend_state" where
  "ExtendFileC_account st num =
     (let bs = blockSize (xs_vcb st);
          bytesThisExtent = s64 (num * bs);
          fcb = xs_fcb st;
          blocks = bytesThisExtent sdiv bs;
          (add, maximum) = (if bytesThisExtent > xs_bytesToAdd st then (0, xs_maximumBytes st)
                            else (s64 (xs_bytesToAdd st - bytesThisExtent), s64 (xs_maximumBytes st - bytesThisExtent)))
      in st \<lparr> xs_search := (xs_search st) \<lparr> nextFABN := u32 (nextFABN (xs_search st) + num) \<rparr>,
              xs_bytesToAdd := add, xs_maximumBytes := maximum,
              xs_fcb := fcb \<lparr> ff_blocks := u32 (ff_blocks fcb + blocks), c_blocks := u32 (c_blocks fcb + blocks),
                c_flag := c_flag fcb OR C_MODIFIED \<rparr> \<rparr>)"

text \<open>The request to the allocator of one round: the error, the blocks allocated and the volume.\<close>

definition ExtendFileC_allocate :: "'s ExtendedVCB_scheme volume_ops \<Rightarrow> int \<Rightarrow> int \<Rightarrow> int \<Rightarrow> 's ExtendedVCB_scheme extend_state \<Rightarrow>
    int \<times> int \<times> int \<times> 's ExtendedVCB_scheme" where
  "ExtendFileC_allocate ops flgs fastdev start st =
     (let vcb = xs_vcb st; bs = blockSize vcb;
          availbytes = s64 (hfs_freeblks ops vcb (flgs AND kEFReserveMask \<noteq> 0) * bs) in
      if availbytes \<le> 0 then (dskFulErr, 0, 0, vcb)
      else if xs_wantContig st \<and> availbytes < xs_bytesToAdd st then (dskFulErr, 0, 0, vcb)
      else
        let ba_flags = fastdev OR (if xs_wantContig st then HFS_ALLOC_FORCECONTIG else 0)
               OR (if xs_useMetaZone st then HFS_ALLOC_METAZONE else 0)
               OR (if xs_allowFlushTxns st then HFS_ALLOC_FLUSHTXN else 0);
            minBlocks = u32 (u32 (min (xs_bytesToAdd st) availbytes) + (bs - 1)) div bs;
            maxBlocks = u32 (u32 (min (xs_maximumBytes st) availbytes) + (bs - 1)) div bs
        in BlockAllocate ops vcb start minBlocks maxBlocks ba_flags)"

text \<open>One round of the \<open>do\<close> loop: the error, the variables, and if the round ended with \<open>break\<close>.\<close>

definition ExtendFileC_round :: "'s ExtendedVCB_scheme volume_ops \<Rightarrow> int \<Rightarrow> int \<Rightarrow> int \<Rightarrow> 's ExtendedVCB_scheme extend_state \<Rightarrow>
    int \<times> 's ExtendedVCB_scheme extend_state \<times> bool" where
  "ExtendFileC_round ops blockHint flgs fastdev st =
     (let sf = xs_search st; e = foundData sf ! nat (foundIndex sf);
          forceContig = (flgs AND kEFContigMask \<noteq> 0);
          start = (if blockHint \<noteq> 0 then blockHint else u32 (startBlock e + blockCount e));
          (err, actualStartBlock, actualNumBlocks, vcb1) = ExtendFileC_allocate ops flgs fastdev start st;
          st1 = st \<lparr> xs_vcb := vcb1 \<rparr>
      in if err = dskFulErr \<and> forceContig then
           if \<not> xs_allowFlushTxns st1 then (noErr, st1 \<lparr> xs_allowFlushTxns := True, xs_wantContig := True \<rparr>, False)
           else (err, st1, True)
         else if err = dskFulErr \<and> xs_wantContig st1 then (noErr, st1 \<lparr> xs_wantContig := False \<rparr>, False)
         else if err = dskFulErr \<and> \<not> xs_useMetaZone st1 then (noErr, st1 \<lparr> xs_useMetaZone := True \<rparr>, False)
         else if err = dskFulErr \<and> \<not> xs_allowFlushTxns st1 then (noErr, st1 \<lparr> xs_allowFlushTxns := True \<rparr>, False)
         else
           let err = (if err = dskFulErr \<and> actualNumBlocks \<noteq> 0 then noErr else err) in
           if err \<noteq> noErr then (err, st1, False)
           else case ExtendFileC_record ops st1 (actualStartBlock = start \<and> blockHint = 0) actualStartBlock actualNumBlocks of
             (err, st2) \<Rightarrow>
               if err \<noteq> noErr then (err, st2, True)
               else let st3 = ExtendFileC_account st2 actualNumBlocks in
                 if forceContig then (if xs_bytesToAdd st3 \<noteq> 0 then dskFulErr else noErr, st3, True)
                 else (noErr, st3, False))"

partial_function (option) ExtendFileC_loop :: "'s ExtendedVCB_scheme volume_ops \<Rightarrow> int \<Rightarrow> int \<Rightarrow> int \<Rightarrow> 's ExtendedVCB_scheme extend_state \<Rightarrow>
    (int \<times> 's ExtendedVCB_scheme extend_state) option" where
  "ExtendFileC_loop ops blockHint flgs fastdev st =
     (case ExtendFileC_round ops blockHint flgs fastdev st of (err, st1, stop) \<Rightarrow>
        if \<not> stop \<and> err = noErr \<and> xs_bytesToAdd st1 \<noteq> 0 then ExtendFileC_loop ops blockHint flgs fastdev st1
        else Some (err, st1))"

text \<open>The part after \<open>Exit\<close>: the error, \<open>*actualBytesAdded\<close>, the volume and the file.\<close>

definition ExtendFileC_exit :: "'s ExtendedVCB_scheme volume_ops \<Rightarrow> int \<Rightarrow> int \<Rightarrow> bool \<Rightarrow> int \<Rightarrow> 's ExtendedVCB_scheme \<Rightarrow> FCB \<Rightarrow>
    int \<times> int \<times> 's ExtendedVCB_scheme \<times> FCB" where
  "ExtendFileC_exit ops prevblocks fastdev needsFlush err vcb fcb =
     (let vcb1 = (if hfs_flags vcb AND HFS_METADATA_ZONE \<noteq> 0 \<and>
                     nextAllocation vcb \<ge> hfs_metazone_start vcb \<and> nextAllocation vcb \<le> hfs_metazone_end vcb
                  then MarkVCBDirty (if hfs_flags vcb AND HFS_SKIP_UPDATE_NEXT_ALLOCATION = 0
                                     then vcb \<lparr> nextAllocation := u32 (hfs_metazone_end vcb + 1) \<rparr> else vcb)
                  else vcb);
          actualBytesAdded = (if prevblocks < ff_blocks fcb then s64 (u32 (ff_blocks fcb - prevblocks) * blockSize vcb) else 0);
          vcb2 = (if fastdev \<noteq> 0 then hfs_hotfile_adjust_blocks ops vcb1 (prevblocks - ff_blocks fcb) else vcb1);
          vcb3 = (if needsFlush then snd (FlushExtentFile ops vcb2) else vcb2)
      in (err, actualBytesAdded, vcb3, fcb))"

text \<open>\<open>wantContig\<close> and the volume flags before the loop; \<open>hfs_isrbtree_active\<close> always returns 0.\<close>

definition ExtendFileC_contig :: "'s ExtendedVCB_scheme \<Rightarrow> FCB \<Rightarrow> int \<Rightarrow> bool \<times> 's ExtendedVCB_scheme" where
  "ExtendFileC_contig vcb fcb flgs =
     (if hfs_flags vcb AND HFS_HAS_SPARSE_DEVICE \<noteq> 0 \<and> c_fileid fcb \<ge> kHFSFirstUserCatalogNodeID \<and> flgs AND kEFMetadataMask = 0 then
        if hfs_flags vcb AND HFS_DID_CONTIG_SCAN = 0 then (True, vcb \<lparr> hfs_flags := hfs_flags vcb OR HFS_DID_CONTIG_SCAN \<rparr>)
        else (False, vcb)
      else (True, vcb))"

text \<open>The part from the search for the last extent on; \<open>prevblocks\<close> is \<open>ff_blocks\<close> at the call.\<close>

definition ExtendFileC_extend :: "'s ExtendedVCB_scheme volume_ops \<Rightarrow> 's ExtendedVCB_scheme \<Rightarrow> FCB \<Rightarrow> int \<Rightarrow> int \<Rightarrow> int \<Rightarrow> int \<Rightarrow> int \<Rightarrow>
    (int \<times> int \<times> 's ExtendedVCB_scheme \<times> FCB) option" where
  "ExtendFileC_extend ops vcb fcb bytesToAdd maximumBytes blockHint flgs prevblocks =
     (let bs = blockSize vcb;
          peof = s64 (s64 (ff_blocks fcb * bs) + bytesToAdd);
          (err, sf) = SearchExtentFile ops vcb fcb (peof - 1)
      in if err = noErr then
           Some (ExtendFileC_exit ops prevblocks 0 False err vcb
             (fcb \<lparr> ff_blocks := u32 peof div bs, c_blocks := u32 (c_blocks fcb + bytesToAdd sdiv bs), c_flag := c_flag fcb OR C_MODIFIED \<rparr>))
         else if err \<noteq> fxRangeErr then Some (ExtendFileC_exit ops prevblocks 0 False err vcb fcb)
         else
           let bytesThisExtent = s64 (u32 (nextFABN sf - ff_blocks fcb) * bs);
               (fcb1, bytesToAdd1) =
                 (if bytesThisExtent \<noteq> 0 then
                    (fcb \<lparr> ff_blocks := nextFABN sf, c_blocks := u32 (c_blocks fcb + bytesThisExtent sdiv bs),
                       c_flag := c_flag fcb OR C_MODIFIED \<rparr>, s64 (bytesToAdd - bytesThisExtent))
                  else (fcb, bytesToAdd));
               (wantContig, vcb1) = ExtendFileC_contig vcb fcb1 flgs;
               fastdev = (if should_pin_blocks vcb1 fcb1 then HFS_ALLOC_FAST_DEV else 0);
               st = \<lparr> xs_vcb = vcb1, xs_fcb = fcb1, xs_search = sf, xs_bytesToAdd = bytesToAdd1, xs_maximumBytes = maximumBytes,
                      xs_wantContig = wantContig, xs_useMetaZone = (flgs AND kEFMetadataMask \<noteq> 0), xs_allowFlushTxns = False,
                      xs_needsFlush = False \<rparr>
           in do {
             (err, st1) \<leftarrow> ExtendFileC_loop ops blockHint flgs fastdev st;
             Some (ExtendFileC_exit ops prevblocks fastdev (xs_needsFlush st1) err (xs_vcb st1) (xs_fcb st1)) })"

definition ExtendFileC :: "'s ExtendedVCB_scheme volume_ops \<Rightarrow> 's ExtendedVCB_scheme \<Rightarrow> FCB \<Rightarrow> int \<Rightarrow> int \<Rightarrow> int \<Rightarrow>
    (int \<times> int \<times> 's ExtendedVCB_scheme \<times> FCB) option" where
  "ExtendFileC ops vcb fcb bytes blockHint flgs =
     (let bs = blockSize vcb;
          prevblocks = ff_blocks fcb;
          blocksToAdd = s64 (howmany bytes bs);
          bytesToAdd = s64 (blocksToAdd * bs)
      in if flgs AND kEFDeferMask \<noteq> 0 \<and> vcbSigWord vcb = kHFSPlusSigWord \<and> bytesToAdd < HFS_MAX_DEFERED_ALLOC \<and>
            blocksToAdd < hfs_freeblks ops vcb True then
           Some (0, bytesToAdd, vcb \<lparr> loanedBlocks := u32 (loanedBlocks vcb + blocksToAdd) \<rparr>,
             fcb \<lparr> ff_unallocblocks := u32 (ff_unallocblocks fcb + blocksToAdd), c_blocks := u32 (c_blocks fcb + blocksToAdd),
               ff_blocks := u32 (ff_blocks fcb + blocksToAdd), c_flag := c_flag fcb OR C_MINOR_MOD \<rparr>)
         else
           let loaned = ff_unallocblocks fcb;
               (vcb1, fcb1, blocksToAdd, bytesToAdd) =
                 (if loaned > 0 then
                    (vcb \<lparr> loanedBlocks := u32 (loanedBlocks vcb - loaned) \<rparr>,
                     fcb \<lparr> c_blocks := u32 (c_blocks fcb - loaned), ff_blocks := u32 (ff_blocks fcb - loaned), ff_unallocblocks := 0 \<rparr>,
                     s64 (blocksToAdd + loaned), s64 (s64 (blocksToAdd + loaned) * bs))
                  else (vcb, fcb, blocksToAdd, bytesToAdd));
               maximumBytes =
                 (if vcbClpSiz vcb1 > s32 bs \<and> bytesToAdd < HFS_MAX_DEFERED_ALLOC \<and> flgs AND kEFNoClumpMask = 0
                  then s64 (s64 (howmany bytesToAdd (vcbClpSiz vcb1)) * vcbClpSiz vcb1) else bytesToAdd)
           in if flgs AND kEFAllMask \<noteq> 0 \<and> blocksToAdd > hfs_freeblks ops vcb1 (flgs AND kEFReserveMask \<noteq> 0)
              then Some (ExtendFileC_exit ops prevblocks 0 False dskFulErr vcb1 fcb1)
              else ExtendFileC_extend ops vcb1 fcb1 bytesToAdd maximumBytes blockHint flgs prevblocks)"


end
