(* ===== verification/ExtentTheory.thy ===== *)
theory ExtentTheory
  imports ExtentMap "HOL-Library.Product_Lexorder"
begin

text \<open>
  What the routines of \<^theory_text>\<open>ExtentMap\<close> promise.  A fork is the list of volume blocks that its extents name: first
  the extents of the control block, then those of its records in the extents tree.  The contract of the tree towards
  this component is the locale \<open>extent_tree\<close>.
\<close>

section \<open>Extents as lists of volume blocks\<close>

definition ext_blocks :: "HFSPlusExtentDescriptor \<Rightarrow> int list" where
  "ext_blocks e = map (\<lambda>k. startBlock e + int k) [0..<nat (blockCount e)]"

definition vblocks :: "HFSPlusExtentRecord \<Rightarrow> int list" where
  "vblocks es = concat (map ext_blocks es)"

definition nblocks :: "HFSPlusExtentRecord \<Rightarrow> int" where
  "nblocks es = sum_list (map blockCount es)"

text \<open>The extents in use: those before the first empty one.\<close>

definition active :: "HFSPlusExtentRecord \<Rightarrow> HFSPlusExtentRecord" where
  "active r = takeWhile (\<lambda>e. blockCount e \<noteq> 0) r"

definition record_ok :: "HFSPlusExtentRecord \<Rightarrow> bool" where
  "record_ok r \<longleftrightarrow> length r = kHFSPlusExtentDensity \<and> (\<forall>e\<in>set r. 0 \<le> blockCount e \<and> blockCount e < 2 ^ 32)"

lemma nblocks_simps [simp]: "nblocks [] = 0" "nblocks (e # es) = blockCount e + nblocks es" "nblocks (xs @ ys) = nblocks xs + nblocks ys"
  by (simp_all add: nblocks_def)

lemma vblocks_simps [simp]: "vblocks [] = []" "vblocks (e # es) = ext_blocks e @ vblocks es" "vblocks (xs @ ys) = vblocks xs @ vblocks ys"
  by (simp_all add: vblocks_def)

lemma nblocks_nonneg: "\<forall>e\<in>set es. 0 \<le> blockCount e \<Longrightarrow> 0 \<le> nblocks es"
  by (induction es) auto

lemma active_simps [simp]: "active [] = []" "active (e # es) = (if blockCount e = 0 then [] else e # active es)"
  by (simp_all add: active_def)

lemma active_take: "active es = take (length (active es)) es"
  unfolding active_def by (rule takeWhile_eq_take)

lemma set_active: "e \<in> set (active es) \<Longrightarrow> e \<in> set es \<and> blockCount e \<noteq> 0"
  by (auto simp: active_def dest: set_takeWhileD)

lemma active_ok [simp]: "record_ok r \<Longrightarrow> \<forall>e\<in>set (active r). 0 \<le> blockCount e"
  "record_ok r \<Longrightarrow> 0 \<le> nblocks (active r)" "record_ok r \<Longrightarrow> length (active r) \<le> 8"
proof -
  assume r: "record_ok r"
  show p: "\<forall>e\<in>set (active r). 0 \<le> blockCount e" using r set_active [of _ r] by (auto simp: record_ok_def)
  show "0 \<le> nblocks (active r)" by (rule nblocks_nonneg [OF p])
  show "length (active r) \<le> 8" using r length_takeWhile_le [of _ r] by (simp add: record_ok_def active_def)
qed

lemma active_pos: "record_ok r \<Longrightarrow> active r \<noteq> [] \<Longrightarrow> 0 < nblocks (active r)"
proof (cases r)
  case (Cons e es)
  assume a: "record_ok r" "active r \<noteq> []"
  then have "0 < blockCount e" "0 \<le> nblocks (active es)" using Cons set_active [of _ es]
    by (auto simp: record_ok_def order_less_le intro!: nblocks_nonneg split: if_splits)
  with a Cons show ?thesis by (auto split: if_splits)
qed simp

lemma length_vblocks: "\<forall>e\<in>set es. 0 \<le> blockCount e \<Longrightarrow> int (length (vblocks es)) = nblocks es"
  by (induction es) (auto simp: ext_blocks_def nblocks_nonneg)

lemma vblocks_nth:
  assumes "\<forall>e\<in>set es. 0 \<le> blockCount e" "k < length es" "0 \<le> d" "d < blockCount (es ! k)"
  shows "vblocks es ! nat (nblocks (take k es) + d) = startBlock (es ! k) + d"
  using assms
proof (induction es arbitrary: k)
  case (Cons e es)
  show ?case
  proof (cases k)
    case 0
    with Cons.prems show ?thesis by (simp add: nth_append ext_blocks_def nat_less_iff)
  next
    case (Suc j)
    have n: "0 \<le> nblocks (take j es)" using Cons.prems(1) by (auto intro!: nblocks_nonneg dest: in_set_takeD)
    then have "nat (blockCount e + nblocks (take j es) + d) = length (ext_blocks e) + nat (nblocks (take j es) + d)"
      using Cons.prems by (simp add: ext_blocks_def nat_add_distrib)
    with Cons Suc show ?thesis by (simp add: nth_append)
  qed
qed simp

section \<open>The search of one record\<close>

lemma SearchExtentRecord_loop_found:
  assumes "\<forall>e\<in>set es. 0 \<le> blockCount e" "0 \<le> s" "s + nblocks (active es) < 2 ^ 32" "s \<le> b" "b < s + nblocks (active es)"
  shows "\<exists>k. SearchExtentRecord_loop b es i s = (i + int k, s + nblocks (take (Suc k) es), True) \<and> k < length (active es) \<and>
    s + nblocks (take k es) \<le> b \<and> b < s + nblocks (take (Suc k) es)"
  using assms
proof (induction es arbitrary: i s)
  case (Cons e es)
  have ne: "blockCount e \<noteq> 0" using Cons.prems by (auto split: if_splits)
  have p: "0 \<le> blockCount e" "0 \<le> nblocks (active es)" using Cons.prems(1) set_active [of _ es] by (auto intro!: nblocks_nonneg)
  have u: "u32 (s + blockCount e) = s + blockCount e" using Cons.prems p ne by (intro u32_id) auto
  show ?case
  proof (cases "b < s + blockCount e")
    case True
    with ne u Cons.prems show ?thesis by (intro exI [of _ 0]) (simp add: Let_def)
  next
    case False
    have "\<exists>k. SearchExtentRecord_loop b es (i + 1) (s + blockCount e) =
        (i + 1 + int k, s + blockCount e + nblocks (take (Suc k) es), True) \<and> k < length (active es) \<and>
      s + blockCount e + nblocks (take k es) \<le> b \<and> b < s + blockCount e + nblocks (take (Suc k) es)"
      using Cons.prems ne p False by (intro Cons.IH) auto
    then obtain k where "SearchExtentRecord_loop b es (i + 1) (s + blockCount e) =
        (i + 1 + int k, s + blockCount e + nblocks (take (Suc k) es), True)" "k < length (active es)"
      "s + blockCount e + nblocks (take k es) \<le> b" "b < s + blockCount e + nblocks (take (Suc k) es)" by blast
    with ne u False show ?thesis by (intro exI [of _ "Suc k"]) (simp add: Let_def algebra_simps)
  qed
qed simp

lemma SearchExtentRecord_loop_beyond:
  assumes "\<forall>e\<in>set es. 0 \<le> blockCount e" "0 \<le> s" "s + nblocks (active es) < 2 ^ 32" "s + nblocks (active es) \<le> b"
  shows "SearchExtentRecord_loop b es i s = (i + int (length (active es)), s + nblocks (active es), False)"
  using assms
proof (induction es arbitrary: i s)
  case (Cons e es)
  show ?case
  proof (cases "blockCount e = 0")
    case False
    have p: "0 \<le> blockCount e" "0 \<le> nblocks (active es)" using Cons.prems(1) set_active [of _ es] by (auto intro!: nblocks_nonneg)
    have u: "u32 (s + blockCount e) = s + blockCount e" using Cons.prems p False by (intro u32_id) auto
    have "SearchExtentRecord_loop b es (i + 1) (s + blockCount e) =
        (i + 1 + int (length (active es)), s + blockCount e + nblocks (active es), False)"
      using Cons.prems False p by (intro Cons.IH) auto
    with False u p Cons.prems show ?thesis by (simp add: Let_def algebra_simps)
  qed simp
qed simp

definition record_hit :: "HFSPlusExtentRecord \<Rightarrow> int \<Rightarrow> int \<Rightarrow> nat \<Rightarrow> bool" where
  "record_hit r s b k \<longleftrightarrow> k < length (active r) \<and> s + nblocks (take k r) \<le> b \<and> b < s + nblocks (take (Suc k) r)"

lemma SearchExtentRecord_found:
  assumes "record_ok r" "vcbSigWord vcb \<noteq> kHFSSigWord" "0 \<le> s" "s + nblocks (active r) < 2 ^ 32" "s \<le> b" "b < s + nblocks (active r)"
  shows "\<exists>k. SearchExtentRecord vcb b r s = (noErr, int k, s + nblocks (take (Suc k) r), False) \<and> record_hit r s b k"
  using SearchExtentRecord_loop_found [of r s b 0] assms by (auto simp: SearchExtentRecord_def record_ok_def record_hit_def)

lemma SearchExtentRecord_beyond:
  assumes "record_ok r" "vcbSigWord vcb \<noteq> kHFSSigWord" "0 \<le> s" "s + nblocks (active r) < 2 ^ 32" "s + nblocks (active r) \<le> b"
  shows "SearchExtentRecord vcb b r s =
    (fxRangeErr, int (length (active r) - 1), s + nblocks (active r), length (active r) < 8)"
  using SearchExtentRecord_loop_beyond [of r s b 0] assms by (auto simp: SearchExtentRecord_def record_ok_def of_nat_diff Suc_le_eq)

lemma record_hit_block:
  assumes "record_ok r" "record_hit r s b k"
  shows "vblocks (active r) ! nat (b - s) = startBlock (r ! k) + (b - (s + nblocks (take (Suc k) r) - blockCount (r ! k)))"
    "k < length r" "k < length (active r)"
    "s + nblocks (take (Suc k) r) = s + nblocks (take k r) + blockCount (r ! k)"
proof -
  have k: "k < length (active r)" "s + nblocks (take k r) \<le> b" "b < s + nblocks (take (Suc k) r)"
    using assms(2) by (auto simp: record_hit_def)
  have l: "length (active r) \<le> length r" by (simp add: active_def length_takeWhile_le)
  have a: "active r ! k = r ! k" "take k (active r) = take k r"
    using k(1) by (simp_all add: active_def takeWhile_nth) (metis active_def active_take k(1) less_imp_le min.absorb1 take_take)
  show s: "s + nblocks (take (Suc k) r) = s + nblocks (take k r) + blockCount (r ! k)"
    using k(1) l by (simp add: take_Suc_conv_app_nth)
  have "vblocks (active r) ! nat (nblocks (take k (active r)) + (b - (s + nblocks (take k r)))) = startBlock (active r ! k) + (b - (s + nblocks (take k r)))"
    using k s a assms(1) by (intro vblocks_nth) auto
  then show "vblocks (active r) ! nat (b - s) = startBlock (r ! k) + (b - (s + nblocks (take (Suc k) r) - blockCount (r ! k)))"
    using a s by simp
  show "k < length r" "k < length (active r)" using k(1) l by auto
qed
section \<open>The overflow records of a fork\<close>

text \<open>The extents tree as a map from the file, the fork and the first file block to the extents, in the order of
  \<open>CompareExtentKeysPlus\<close>.\<close>

type_synonym ext_tree = "int \<times> int \<times> int \<Rightarrow> HFSPlusExtentRecord option"

text \<open>The records \<open>rs\<close> of fork \<open>f\<close> of file \<open>i\<close> follow each other from file block \<open>s\<close> on, all but the last full.\<close>

fun chain :: "ext_tree \<Rightarrow> int \<Rightarrow> int \<Rightarrow> int \<Rightarrow> HFSPlusExtentRecord list \<Rightarrow> bool" where
  "chain t i f s [] = True"
| "chain t i f s (r # rs) = (t (i, f, s) = Some r \<and> record_ok r \<and> active r \<noteq> [] \<and>
     (rs \<noteq> [] \<longrightarrow> length (active r) = kHFSPlusExtentDensity) \<and> chain t i f (s + nblocks (active r)) rs)"

fun starts :: "int \<Rightarrow> HFSPlusExtentRecord list \<Rightarrow> int set" where
  "starts s [] = {}"
| "starts s (r # rs) = insert s (starts (s + nblocks (active r)) rs)"

text \<open>The last record that starts at or before block \<open>b\<close>, with its start.\<close>

fun locate :: "int \<Rightarrow> HFSPlusExtentRecord list \<Rightarrow> int \<Rightarrow> int \<times> HFSPlusExtentRecord" where
  "locate s [] b = (s, [])"
| "locate s (r # rs) b = (if rs \<noteq> [] \<and> s + nblocks (active r) \<le> b then locate (s + nblocks (active r)) rs b else (s, r))"

abbreviation overflow_extents :: "HFSPlusExtentRecord list \<Rightarrow> HFSPlusExtentRecord" where
  "overflow_extents rs \<equiv> concat (map active rs)"

text \<open>A well-formed fork: its control block and overflow records hold all of its extents, and its tree has no other
  records of the fork.\<close>

definition fork_extents :: "FCB \<Rightarrow> HFSPlusExtentRecord list \<Rightarrow> HFSPlusExtentRecord" where
  "fork_extents fcb rs = active (fcbExtents fcb) @ overflow_extents rs"

definition fork_wf :: "ext_tree \<Rightarrow> FCB \<Rightarrow> HFSPlusExtentRecord list \<Rightarrow> bool" where
  "fork_wf t fcb rs \<longleftrightarrow> 0 \<le> c_fileid fcb \<and> c_fileid fcb < 2 ^ 32 \<and> record_ok (fcbExtents fcb) \<and> (rs \<noteq> [] \<longrightarrow> length (active (fcbExtents fcb)) = kHFSPlusExtentDensity) \<and>
     chain t (c_fileid fcb) (fork_type fcb) (nblocks (active (fcbExtents fcb))) rs \<and>
     (\<forall>s. t (c_fileid fcb, fork_type fcb, s) \<noteq> None \<longrightarrow> s \<in> starts (nblocks (active (fcbExtents fcb))) rs) \<and>
     nblocks (fork_extents fcb rs) < 2 ^ 32"

lemma chain_nonneg: "chain t i f s rs \<Longrightarrow> 0 \<le> nblocks (overflow_extents rs)"
  by (induction rs arbitrary: s) (fastforce simp: active_ok(2))+

lemma chain_ok: "chain t i f s rs \<Longrightarrow> \<forall>e\<in>set (overflow_extents rs). 0 \<le> blockCount e"
  by (induction rs arbitrary: s) (use active_ok(1) in fastforce)+

lemma starts_ge: "chain t i f s rs \<Longrightarrow> x \<in> starts s rs \<Longrightarrow> s \<le> x"
proof (induction rs arbitrary: s)
  case (Cons r rs)
  have "0 \<le> nblocks (active r)" using Cons.prems(1) by (simp add: active_ok(2))
  moreover have "s = x \<or> s + nblocks (active r) \<le> x" using Cons.prems Cons.IH [of "s + nblocks (active r)"] by auto
  ultimately show ?case by linarith
qed simp

text \<open>The located record is in the tree, holds block \<open>b\<close> unless \<open>b\<close> is beyond the fork, and no later record starts at
  or before \<open>b\<close>.\<close>

lemma locate_correct:
  assumes "chain t i f s rs" "rs \<noteq> []" "s \<le> b" "locate s rs b = (s', r)"
  shows "t (i, f, s') = Some r \<and> record_ok r \<and> active r \<noteq> [] \<and> s \<le> s' \<and> s' \<le> b \<and> (\<forall>x\<in>starts s rs. x \<le> b \<longrightarrow> x \<le> s') \<and>
    s' + nblocks (active r) \<le> s + nblocks (overflow_extents rs) \<and>
    (if b < s + nblocks (overflow_extents rs)
     then b < s' + nblocks (active r) \<and> vblocks (overflow_extents rs) ! nat (b - s) = vblocks (active r) ! nat (b - s')
     else s' + nblocks (active r) = s + nblocks (overflow_extents rs))"
  using assms
proof (induction rs arbitrary: s)
  case (Cons r0 rs)
  define m where "m = s + nblocks (active r0)"
  have r0: "record_ok r0" "active r0 \<noteq> []" "t (i, f, s) = Some r0" "chain t i f m rs" using Cons.prems(1) by (auto simp: m_def)
  have p: "0 < nblocks (active r0)" "0 \<le> nblocks (overflow_extents rs)" using active_pos [OF r0(1,2)] chain_nonneg [OF r0(4)] by auto
  have l: "int (length (vblocks (active r0))) = nblocks (active r0)" by (rule length_vblocks) (use r0(1) active_ok(1) in blast)
  show ?case
  proof (cases "rs \<noteq> [] \<and> m \<le> b")
    case True
    then have loc: "locate m rs b = (s', r)" using Cons.prems(4) by (simp add: m_def)
    note IH = Cons.IH [OF r0(4) _ _ loc]
    have e: "m + nblocks (overflow_extents rs) = s + nblocks (overflow_extents (r0 # rs))" by (simp add: m_def)
    have n: "nat (b - s) = length (vblocks (active r0)) + nat (b - m)" using l p True unfolding m_def by linarith
    have v: "vblocks (overflow_extents (r0 # rs)) ! nat (b - s) = vblocks (overflow_extents rs) ! nat (b - m)" unfolding n by simp
    have st: "starts s (r0 # rs) = insert s (starts m rs)" by (simp add: m_def)
    have "s \<le> m" using p(1) by (simp add: m_def)
    then show ?thesis using IH True unfolding e v st by auto
  next
    case False
    then have [simp]: "s' = s" "r = r0" using Cons.prems(4) by (auto simp: m_def split: if_splits)
    have "x \<le> s" if "x \<in> starts s (r0 # rs)" "x \<le> b" for x
      using that False starts_ge [OF r0(4), of x] by (auto simp: m_def)
    moreover have "vblocks (overflow_extents (r0 # rs)) ! nat (b - s) = vblocks (active r0) ! nat (b - s)" if "b < m"
      using that l Cons.prems(3) by (simp add: nth_append m_def nat_less_iff)
    moreover have "b < m" if "b < s + nblocks (overflow_extents (r0 # rs))" using that False by (auto simp: m_def)
    moreover have "rs = []" if "\<not> b < s + nblocks (overflow_extents (r0 # rs))"
      using that False p by (auto simp: m_def)
    ultimately show ?thesis using r0 p Cons.prems(3) by (auto simp: m_def)
  qed
qed simp


section \<open>The contract of the extents tree\<close>

definition key_of :: "int \<times> int \<times> int \<Rightarrow> HFSPlusExtentKey" where
  "key_of k = (case k of (i, f, s) \<Rightarrow> extent_key f i s)"

text \<open>The fields of a key fit their fields on disk.\<close>

definition tree_key_ok :: "int \<times> int \<times> int \<Rightarrow> bool" where
  "tree_key_ok k = (case k of (i, f, s) \<Rightarrow> 0 \<le> i \<and> i < 2 ^ 32 \<and> 0 \<le> f \<and> f < 2 ^ 8 \<and> 0 \<le> s \<and> s < 2 ^ 32)"

text \<open>An iterator without a hint, as \<open>FindExtentRecord\<close> makes it.\<close>

definition fresh_iter :: "BTreeIterator \<Rightarrow> int \<times> int \<times> int \<Rightarrow> bool" where
  "fresh_iter it k \<longleftrightarrow> it = \<lparr> hint_nodeNum = 0, hint_index = 0, it_key = key_of k \<rparr>"

text \<open>The search finds the record with the key of the iterator; when there is none, the step to the previous record
  from the resulting iterator finds the last record before that key.\<close>

locale extent_tree =
  fixes ops :: "'s ExtendedVCB_scheme volume_ops"
    and tree :: "'s ExtendedVCB_scheme \<Rightarrow> ext_tree"
    and ok :: "'s ExtendedVCB_scheme \<Rightarrow> bool"
  assumes search_found: "ok v \<Longrightarrow> fresh_iter it k \<Longrightarrow> tree v k = Some d \<Longrightarrow>
      \<exists>it' len. BTSearchRecord ops v it = (noErr, it', d, len) \<and> it_key it' = key_of k"
    and search_missing: "ok v \<Longrightarrow> tree_key_ok k \<Longrightarrow> fresh_iter it k \<Longrightarrow> tree v k = None \<Longrightarrow> fst (BTSearchRecord ops v it) = btNotFound"
    and prev_record: "ok v \<Longrightarrow> tree_key_ok k \<Longrightarrow> fresh_iter it k \<Longrightarrow> BTSearchRecord ops v it = (btNotFound, it', d, len) \<Longrightarrow>
      tree v p = Some e \<Longrightarrow> p < k \<Longrightarrow> (\<And>q. tree v q \<noteq> None \<Longrightarrow> q < k \<Longrightarrow> q \<le> p) \<Longrightarrow>
      \<exists>it'' len'. BTIterateRecord ops v kBTreePrevRecord it' = (noErr, it'', e, len') \<and> it_key it'' = key_of p"
    and prev_none: "ok v \<Longrightarrow> tree_key_ok k \<Longrightarrow> fresh_iter it k \<Longrightarrow> BTSearchRecord ops v it = (btNotFound, it', d, len) \<Longrightarrow>
      (\<And>q. tree v q \<noteq> None \<Longrightarrow> \<not> q < k) \<Longrightarrow>
      fst (BTIterateRecord ops v kBTreePrevRecord it') \<in> {fsBTStartOfIterationErr, btNotFound}"
    and finite_tree: "ok v \<Longrightarrow> finite (dom (tree v))"
begin

lemma FindExtentRecord_exact:
  assumes "ok v" "tree v (i, f, s) = Some r"
  shows "\<exists>hint. FindExtentRecord ops v f i s prev = (noErr, Some (extent_key f i s, r), hint)"
  using search_found [OF assms(1) _ assms(2), of "\<lparr> hint_nodeNum = 0, hint_index = 0, it_key = extent_key f i s \<rparr>"]
  by (auto simp: FindExtentRecord_def key_of_def fresh_iter_def)

lemma search_missing_run:
  assumes "ok v" "tree_key_ok (i, f, s)" "tree v (i, f, s) = None"
  obtains it' d len where
    "BTSearchRecord ops v \<lparr> hint_nodeNum = 0, hint_index = 0, it_key = extent_key f i s \<rparr> = (btNotFound, it', d, len)"
  using search_missing [OF assms(1,2) _ assms(3), of "\<lparr> hint_nodeNum = 0, hint_index = 0, it_key = extent_key f i s \<rparr>"]
  by (cases "BTSearchRecord ops v \<lparr> hint_nodeNum = 0, hint_index = 0, it_key = extent_key f i s \<rparr>") (auto simp: key_of_def fresh_iter_def)

lemma FindExtentRecord_missing:
  assumes "ok v" "tree_key_ok (i, f, s)" "tree v (i, f, s) = None"
  shows "\<exists>hint. FindExtentRecord ops v f i s False = (btNotFound, None, hint)"
  by (rule search_missing_run [OF assms]) (auto simp: FindExtentRecord_def)

lemma FindExtentRecord_previous:
  assumes ok: "ok v" and k: "tree_key_ok (i, f, b)" and r: "tree v (i, f, s) = Some r" and b: "s \<le> b"
    and last: "\<And>x. tree v (i, f, x) \<noteq> None \<Longrightarrow> x \<le> b \<Longrightarrow> x \<le> s"
  shows "\<exists>hint. FindExtentRecord ops v f i b True = (noErr, Some (extent_key f i s, r), hint)"
proof (cases "tree v (i, f, b)")
  case None
  then obtain it' d len where
    n: "BTSearchRecord ops v \<lparr> hint_nodeNum = 0, hint_index = 0, it_key = extent_key f i b \<rparr> = (btNotFound, it', d, len)"
    using search_missing_run [OF ok k] by blast
  have "s \<noteq> b" using None r by auto
  with b have lt: "(i, f, s) < (i, f, b)" by (simp add: less_prod_def)
  have g: "q \<le> (i, f, s)" if "tree v q \<noteq> None" "q < (i, f, b)" for q
    using that last [of "snd (snd q)"] by (cases q) (auto simp: less_prod_def less_eq_prod_def)
  from prev_record [OF ok k _ n r lt g] obtain it'' len' where
    "BTIterateRecord ops v kBTreePrevRecord it' = (noErr, it'', r, len')" "it_key it'' = extent_key f i s"
    by (auto simp: key_of_def fresh_iter_def)
  with n show ?thesis by (simp add: FindExtentRecord_def extent_key_def)
next
  case (Some d)
  then have "b = s" using last [of b] b by simp
  then show ?thesis using FindExtentRecord_exact [OF ok r] by simp
qed

lemma FindExtentRecord_other_fork:
  assumes ok: "ok v" and k: "tree_key_ok (i, f, b)" and none: "\<And>x. tree v (i, f, x) = None"
  shows "\<exists>hint. FindExtentRecord ops v f i b True = (btNotFound, None, hint)"
proof -
  from search_missing_run [OF ok k none [of b]] obtain it' d len where
    n: "BTSearchRecord ops v \<lparr> hint_nodeNum = 0, hint_index = 0, it_key = extent_key f i b \<rparr> = (btNotFound, it', d, len)" by blast
  show ?thesis
  proof (cases "\<exists>q. tree v q \<noteq> None \<and> q < (i, f, b)")
    case False
    have "fst (BTIterateRecord ops v kBTreePrevRecord it') \<in> {fsBTStartOfIterationErr, btNotFound}"
    proof (rule prev_none [OF ok k _ n])
      fix q show "tree v q \<noteq> None \<Longrightarrow> \<not> q < (i, f, b)" using False by blast
    qed (simp add: key_of_def fresh_iter_def)
    with n show ?thesis by (cases "BTIterateRecord ops v kBTreePrevRecord it'") (auto simp: FindExtentRecord_def)
  next
    case True
    define P where "P = {q. tree v q \<noteq> None \<and> q < (i, f, b)}"
    have fin: "finite P" by (rule finite_subset [OF _ finite_tree [OF ok]]) (auto simp: P_def)
    have P: "P \<noteq> {}" using True by (auto simp: P_def)
    define p where "p = Max P"
    have p: "tree v p \<noteq> None" "p < (i, f, b)" using Max_in [OF fin P] unfolding p_def [symmetric] by (simp_all add: P_def)
    then obtain e where e: "tree v p = Some e" by blast
    have g: "q \<le> p" if "tree v q \<noteq> None" "q < (i, f, b)" for q using that Max_ge [OF fin, of q] unfolding p_def by (simp add: P_def)
    from prev_record [OF ok k _ n e p(2) g] obtain it'' len' where
      "BTIterateRecord ops v kBTreePrevRecord it' = (noErr, it'', e, len')" "it_key it'' = key_of p"
      by (auto simp: key_of_def fresh_iter_def)
    moreover have "fst p \<noteq> i \<or> fst (snd p) \<noteq> f" using none e by (cases p) auto
    ultimately show ?thesis using n by (cases p) (auto simp: FindExtentRecord_def extent_key_def key_of_def)
  qed
qed

end


section \<open>Searching a fork\<close>

text \<open>The search result names the extent that holds file block \<open>b\<close>, in the record that its key stands for.\<close>

definition resident_key :: "ext_tree \<Rightarrow> FCB \<Rightarrow> ExtentSearch \<Rightarrow> bool" where
  "resident_key t fcb sf \<longleftrightarrow> (if k_keyLength (foundKey sf) = 0 then foundData sf = fcbExtents fcb
     else k_fileID (foundKey sf) = c_fileid fcb \<and> k_forkType (foundKey sf) = fork_type fcb \<and>
       t (c_fileid fcb, fork_type fcb, k_startBlock (foundKey sf)) = Some (foundData sf))"

definition search_hit :: "ext_tree \<Rightarrow> FCB \<Rightarrow> int list \<Rightarrow> int \<Rightarrow> ExtentSearch \<Rightarrow> bool" where
  "search_hit t fcb blocks b sf \<longleftrightarrow>
     (let e = foundData sf ! nat (foundIndex sf); first = nextFABN sf - blockCount e in
      0 \<le> foundIndex sf \<and> nat (foundIndex sf) < length (foundData sf) \<and> 0 \<le> first \<and> first \<le> b \<and> b < nextFABN sf \<and>
      nextFABN sf \<le> int (length blocks) \<and>
      (\<forall>c. first \<le> c \<and> c < nextFABN sf \<longrightarrow> blocks ! nat c = startBlock e + (c - first)) \<and> resident_key t fcb sf)"

text \<open>Every block of the extent found is at its place in the fork, not only the block searched for.\<close>

lemma record_hit_extent:
  assumes "record_ok r" "record_hit r s b k" "s + nblocks (take k r) \<le> c" "c < s + nblocks (take (Suc k) r)"
  shows "record_hit r s c k"
  using assms by (simp add: record_hit_def)

lemma fork_wfD:
  assumes "fork_wf t fcb rs"
  shows "record_ok (fcbExtents fcb)" "0 \<le> nblocks (active (fcbExtents fcb))"
    "nblocks (active (fcbExtents fcb)) + nblocks (overflow_extents rs) < 2 ^ 32" "0 \<le> nblocks (overflow_extents rs)"
    "int (length (vblocks (active (fcbExtents fcb)))) = nblocks (active (fcbExtents fcb))"
    "int (length (vblocks (fork_extents fcb rs))) = nblocks (active (fcbExtents fcb)) + nblocks (overflow_extents rs)"
proof -
  have c: "chain t (c_fileid fcb) (fork_type fcb) (nblocks (active (fcbExtents fcb))) rs" using assms by (simp add: fork_wf_def)
  show r: "record_ok (fcbExtents fcb)" "nblocks (active (fcbExtents fcb)) + nblocks (overflow_extents rs) < 2 ^ 32"
    using assms by (simp_all add: fork_wf_def fork_extents_def)
  show "0 \<le> nblocks (active (fcbExtents fcb))" "0 \<le> nblocks (overflow_extents rs)" using r(1) chain_nonneg [OF c] by auto
  show l: "int (length (vblocks (active (fcbExtents fcb)))) = nblocks (active (fcbExtents fcb))"
    by (rule length_vblocks) (use r(1) in auto)
  show "int (length (vblocks (fork_extents fcb rs))) = nblocks (active (fcbExtents fcb)) + nblocks (overflow_extents rs)"
    using l length_vblocks [OF chain_ok [OF c]] by (simp add: fork_extents_def)
qed

lemma fork_key_ok: "fork_wf t fcb rs \<Longrightarrow> 0 \<le> b \<Longrightarrow> b < 2 ^ 32 \<Longrightarrow> tree_key_ok (c_fileid fcb, fork_type fcb, b)"
  by (simp add: fork_wf_def tree_key_ok_def fork_type_def)

lemma take_active: "k \<le> length (active r) \<Longrightarrow> nblocks (take k r) \<le> nblocks (active r)" if "record_ok r"
proof -
  assume k: "k \<le> length (active r)"
  have "take k r = take k (active r)" using k by (metis active_take min.absorb1 take_take)
  then have "nblocks (active r) = nblocks (take k r) + nblocks (drop k (active r))"
    by (metis append_take_drop_id nblocks_simps(3))
  moreover have "0 \<le> nblocks (drop k (active r))" using active_ok(1) [OF that] by (auto intro!: nblocks_nonneg dest: in_set_dropD)
  ultimately show ?thesis by simp
qed

lemma search_hit_record:
  assumes r: "record_ok r" "record_hit r s b k" and s: "0 \<le> s" "s + nblocks (active r) \<le> int (length blocks)"
    and blocks: "\<And>c. s \<le> c \<Longrightarrow> c < s + nblocks (active r) \<Longrightarrow> blocks ! nat c = vblocks (active r) ! nat (c - s)"
    and sf: "foundData sf = r" "foundIndex sf = int k" "nextFABN sf = s + nblocks (take (Suc k) r)" "resident_key t fcb sf"
  shows "search_hit t fcb blocks b sf"
proof -
  note h = record_hit_block [OF r]
  have k: "s + nblocks (take k r) \<le> b" "b < s + nblocks (take (Suc k) r)" using r(2) by (auto simp: record_hit_def)
  have t0: "0 \<le> nblocks (take k r)" using r(1) by (auto simp: record_ok_def intro!: nblocks_nonneg dest: in_set_takeD)
  have t1: "nblocks (take (Suc k) r) \<le> nblocks (active r)" using take_active [OF r(1), of "Suc k"] h(3) by simp
  have "blocks ! nat c = startBlock (r ! k) + (c - (s + nblocks (take k r)))"
    if "s + nblocks (take k r) \<le> c" "c < s + nblocks (take (Suc k) r)" for c
    using record_hit_block(1) [OF r(1) record_hit_extent [OF r that]] blocks [of c] that t0 t1 h(4) by simp
  then show ?thesis using k t0 t1 s sf h(2,4) unfolding search_hit_def Let_def by simp
qed


lemma locate_same:
  assumes "chain t i f s rs" "rs \<noteq> []" "locate s rs b = (s', r)" "s' \<le> c" "c < s' + nblocks (active r)" "s \<le> b"
  shows "locate s rs c = (s', r)"
  using assms
proof (induction rs arbitrary: s)
  case (Cons r0 rs)
  have m: "s + nblocks (active r0) \<le> s'" if "rs \<noteq> []" "s + nblocks (active r0) \<le> b"
    using that Cons.prems locate_correct [of t i f "s + nblocks (active r0)" rs b s' r] by auto
  then show ?case using Cons by (auto split: if_splits)
qed simp


lemma sdiv_nonneg: "0 \<le> a \<Longrightarrow> 0 < b \<Longrightarrow> a sdiv b = a div (b :: int)"
  by (cases "a = 0") (simp_all add: signed_divide_int_def)

lemma SearchExtentFile_block:
  assumes "0 < bs" "0 \<le> pos" "pos div bs < 2 ^ 32"
  shows "u32 (pos sdiv bs) = pos div bs" "0 \<le> pos div bs"
  using assms by (simp_all add: sdiv_nonneg pos_imp_zdiv_nonneg_iff)

text \<open>A block of the control block's extents is found without the tree.\<close>

lemma SearchExtentFile_resident:
  assumes wf: "fork_wf t fcb rs" and sig: "vcbSigWord v \<noteq> kHFSSigWord" and b: "u32 (pos sdiv blockSize v) = b" "0 \<le> b"
    "b < nblocks (active (fcbExtents fcb))"
  shows "\<exists>sf. SearchExtentFile ops v fcb pos = (noErr, sf) \<and> search_hit t fcb (vblocks (fork_extents fcb rs)) b sf"
proof -
  note w = fork_wfD [OF wf]
  obtain k where k: "SearchExtentRecord v b (fcbExtents fcb) 0 = (noErr, int k, 0 + nblocks (take (Suc k) (fcbExtents fcb)), False)"
    "record_hit (fcbExtents fcb) 0 b k"
    using SearchExtentRecord_found [OF w(1) sig, of 0 b] w(3,4) b by auto
  define sf where "sf = \<lparr> foundKey = fcb_key, foundData = fcbExtents fcb, foundIndex = int k, foundHint = kNoHint,
    nextFABN = nblocks (take (Suc k) (fcbExtents fcb)) \<rparr>"
  have "SearchExtentFile ops v fcb pos = (noErr, sf)" using k(1) b(1) by (simp add: SearchExtentFile_def sf_def)
  moreover have "search_hit t fcb (vblocks (fork_extents fcb rs)) b sf"
  proof (rule search_hit_record [OF w(1) k(2)])
    fix c assume "0 \<le> c" "c < 0 + nblocks (active (fcbExtents fcb))"
    then show "vblocks (fork_extents fcb rs) ! nat c = vblocks (active (fcbExtents fcb)) ! nat (c - 0)"
      using w(5) by (simp add: fork_extents_def nth_append nat_less_iff)
  qed (use w in \<open>auto simp: sf_def resident_key_def fcb_key_def\<close>)
  ultimately show ?thesis by auto
qed

context extent_tree
begin

text \<open>The record that the tree gives for a block after those of the control block.\<close>

lemma FindExtentRecord_located:
  assumes ok: "ok v" and wf: "fork_wf (tree v) fcb rs" and rs: "rs \<noteq> []" and b: "nblocks (active (fcbExtents fcb)) \<le> b"
    and b32: "b < 2 ^ 32" and loc: "locate (nblocks (active (fcbExtents fcb))) rs b = (s, r)"
  shows "\<exists>hint. FindExtentRecord ops v (fork_type fcb) (c_fileid fcb) b True =
    (noErr, Some (extent_key (fork_type fcb) (c_fileid fcb) s, r), hint)"
proof -
  have chain: "chain (tree v) (c_fileid fcb) (fork_type fcb) (nblocks (active (fcbExtents fcb))) rs" using wf by (simp add: fork_wf_def)
  note L = locate_correct [OF chain rs b loc]
  have "x \<le> s" if "tree v (c_fileid fcb, fork_type fcb, x) \<noteq> None" "x \<le> b" for x using that L wf by (auto simp: fork_wf_def)
  then show ?thesis using L fork_key_ok [OF wf, of b] b b32 fork_wfD(2) [OF wf] by (intro FindExtentRecord_previous [OF ok]) auto
qed

lemma resident_beyond:
  assumes wf: "fork_wf t fcb rs" and sig: "vcbSigWord v \<noteq> kHFSSigWord" and b: "nblocks (active (fcbExtents fcb)) \<le> b"
  shows "SearchExtentRecord v b (fcbExtents fcb) 0 =
    (fxRangeErr, int (length (active (fcbExtents fcb)) - 1), nblocks (active (fcbExtents fcb)), length (active (fcbExtents fcb)) < 8)"
  using SearchExtentRecord_beyond [OF fork_wfD(1) [OF wf] sig, of 0 b] fork_wfD(3,4) [OF wf] b by simp

lemma SearchExtentFile_overflow:
  assumes ok: "ok v" and wf: "fork_wf (tree v) fcb rs" and sig: "vcbSigWord v \<noteq> kHFSSigWord" and b: "u32 (pos sdiv blockSize v) = b"
    "nblocks (active (fcbExtents fcb)) \<le> b" "b < int (length (vblocks (fork_extents fcb rs)))"
  shows "\<exists>sf. SearchExtentFile ops v fcb pos = (noErr, sf) \<and> search_hit (tree v) fcb (vblocks (fork_extents fcb rs)) b sf"
proof -
  define n where "n = nblocks (active (fcbExtents fcb))"
  note w = fork_wfD [OF wf, folded n_def]
  have chain: "chain (tree v) (c_fileid fcb) (fork_type fcb) n rs" using wf by (simp add: fork_wf_def n_def)
  have rs: "rs \<noteq> []" using b w(6) by (auto simp: n_def)
  have full: "length (active (fcbExtents fcb)) = 8" using wf rs by (simp add: fork_wf_def)
  obtain s r where loc: "locate n rs b = (s, r)" by fastforce
  have r: "record_ok r" "n \<le> s" "s \<le> b" "s + nblocks (active r) \<le> n + nblocks (overflow_extents rs)" "b < s + nblocks (active r)"
    "tree v (c_fileid fcb, fork_type fcb, s) = Some r"
    using locate_correct [OF chain rs _ loc] b w(6) by (auto simp: n_def)
  obtain hint where f: "FindExtentRecord ops v (fork_type fcb) (c_fileid fcb) b True =
      (noErr, Some (extent_key (fork_type fcb) (c_fileid fcb) s, r), hint)"
    using FindExtentRecord_located [OF ok wf rs b(2) _ loc [unfolded n_def]] b(1) by auto
  obtain k where k: "SearchExtentRecord v b r s = (noErr, int k, s + nblocks (take (Suc k) r), False)" "record_hit r s b k"
    using SearchExtentRecord_found [OF r(1) sig, of s b] r w(2,3,4) by fastforce
  define sf where "sf = \<lparr> foundKey = extent_key (fork_type fcb) (c_fileid fcb) s, foundData = r, foundIndex = int k, foundHint = hint,
    nextFABN = s + nblocks (take (Suc k) r) \<rparr>"
  have "SearchExtentFile ops v fcb pos = (noErr, sf)"
    using b(1) f k(1) resident_beyond [OF wf sig b(2)] full by (simp add: SearchExtentFile_def sf_def extent_key_def)
  moreover have "search_hit (tree v) fcb (vblocks (fork_extents fcb rs)) b sf"
  proof (rule search_hit_record [OF r(1) k(2)])
    fix c assume c: "s \<le> c" "c < s + nblocks (active r)"
    have "locate n rs c = (s, r)" by (rule locate_same [OF chain rs loc c]) (use b in \<open>simp add: n_def\<close>)
    from locate_correct [OF chain rs _ this] c r(2,4) have
      "vblocks (overflow_extents rs) ! nat (c - n) = vblocks (active r) ! nat (c - s)" by auto
    moreover have "nat (c - n) = nat c - length (vblocks (active (fcbExtents fcb)))" using w(5) c r(2) by linarith
    ultimately show "vblocks (fork_extents fcb rs) ! nat c = vblocks (active r) ! nat (c - s)"
      using w(5) c r(2) by (simp add: fork_extents_def nth_append nat_less_iff)
  qed (use w r in \<open>auto simp: sf_def resident_key_def extent_key_def\<close>)
  ultimately show ?thesis by auto
qed

lemma SearchExtentFile_hit:
  assumes ok: "ok v" and wf: "fork_wf (tree v) fcb rs" and sig: "vcbSigWord v \<noteq> kHFSSigWord" and bs: "0 < blockSize v"
    and pos: "0 \<le> pos" "pos div blockSize v < int (length (vblocks (fork_extents fcb rs)))"
  shows "\<exists>sf. SearchExtentFile ops v fcb pos = (noErr, sf) \<and>
    search_hit (tree v) fcb (vblocks (fork_extents fcb rs)) (pos div blockSize v) sf"
proof -
  have "pos div blockSize v < 2 ^ 32" using pos(2) fork_wfD(3,6) [OF wf] by linarith
  note u = SearchExtentFile_block [OF bs pos(1) this]
  show ?thesis
    using SearchExtentFile_resident [OF wf sig u] SearchExtentFile_overflow [OF ok wf sig u(1) _ pos(2)] by fastforce
qed

text \<open>A position beyond the fork: the last record and its last extent in use, and the number of blocks of the fork.\<close>

lemma SearchExtentFile_beyond:
  assumes ok: "ok v" and wf: "fork_wf (tree v) fcb rs" and sig: "vcbSigWord v \<noteq> kHFSSigWord" and bs: "0 < blockSize v"
    and pos: "0 \<le> pos" "int (length (vblocks (fork_extents fcb rs))) \<le> pos div blockSize v" "pos div blockSize v < 2 ^ 32"
  shows "\<exists>sf. SearchExtentFile ops v fcb pos = (fxRangeErr, sf) \<and> nextFABN sf = int (length (vblocks (fork_extents fcb rs))) \<and>
    foundIndex sf = int (length (active (foundData sf)) - 1) \<and> resident_key (tree v) fcb sf"
proof -
  define n where "n = nblocks (active (fcbExtents fcb))"
  define b where "b = pos div blockSize v"
  note u = SearchExtentFile_block [OF bs pos(1,3), folded b_def]
  note w = fork_wfD [OF wf, folded n_def]
  have chain: "chain (tree v) (c_fileid fcb) (fork_type fcb) n rs" using wf by (simp add: fork_wf_def n_def)
  have b: "n \<le> b" "n + nblocks (overflow_extents rs) \<le> b" using pos(2) w(4,6) by (auto simp: b_def)
  note rb = resident_beyond [OF wf sig b(1) [unfolded n_def], folded n_def]
  show ?thesis
  proof (cases rs)
    case Nil
    then have "tree v (c_fileid fcb, fork_type fcb, x) = None" for x using wf by (auto simp: fork_wf_def)
    from FindExtentRecord_other_fork [OF ok fork_key_ok [OF wf u(2)] this] pos(3) obtain hint where
      "FindExtentRecord ops v (fork_type fcb) (c_fileid fcb) b True = (btNotFound, None, hint)" by (auto simp: b_def)
    then have "SearchExtentFile ops v fcb pos = (fxRangeErr, \<lparr> foundKey = fcb_key, foundData = fcbExtents fcb,
        foundIndex = int (length (active (fcbExtents fcb)) - 1), foundHint = kNoHint, nextFABN = n \<rparr>)"
      using u rb by (simp add: SearchExtentFile_def GetFCBExtentRecord_def Let_def)
    then show ?thesis using w(6) Nil by (simp add: resident_key_def fcb_key_def)
  next
    case (Cons r0 rs')
    then have rs: "rs \<noteq> []" "length (active (fcbExtents fcb)) = 8" using wf by (auto simp: fork_wf_def)
    obtain s r where loc: "locate n rs b = (s, r)" by fastforce
    have r: "record_ok r" "n \<le> s" "s + nblocks (active r) = n + nblocks (overflow_extents rs)"
      "tree v (c_fileid fcb, fork_type fcb, s) = Some r"
      using locate_correct [OF chain rs(1) b(1) loc] b by auto
    obtain hint where f: "FindExtentRecord ops v (fork_type fcb) (c_fileid fcb) b True =
        (noErr, Some (extent_key (fork_type fcb) (c_fileid fcb) s, r), hint)"
      using FindExtentRecord_located [OF ok wf rs(1) b(1) [unfolded n_def] _ loc [unfolded n_def]] pos(3) by (auto simp: b_def)
    have "SearchExtentRecord v b r s = (fxRangeErr, int (length (active r) - 1), s + nblocks (active r), length (active r) < 8)"
      using r w(2,3) b by (intro SearchExtentRecord_beyond [OF r(1) sig]) auto
    then have "SearchExtentFile ops v fcb pos = (fxRangeErr, \<lparr> foundKey = extent_key (fork_type fcb) (c_fileid fcb) s, foundData = r,
        foundIndex = int (length (active r) - 1), foundHint = hint, nextFABN = s + nblocks (active r) \<rparr>)"
      using u rb rs f by (simp add: SearchExtentFile_def extent_key_def Let_def)
    then show ?thesis using r w(6) by (simp add: resident_key_def extent_key_def)
  qed
qed

end

section \<open>Mapping a position to a sector\<close>

text \<open>The sector that holds the byte at \<open>offset\<close> of a fork with the given blocks.\<close>

definition sector_of :: "'s ExtendedVCB_scheme \<Rightarrow> int list \<Rightarrow> int \<Rightarrow> int" where
  "sector_of v blocks offset =
     blocks ! nat (offset div blockSize v) * (blockSize v div hfs_logical_block_size v) +
     offset mod blockSize v div hfs_logical_block_size v + hfsPlusIOPosOffset v div hfs_logical_block_size v"

definition geometry_ok :: "'s ExtendedVCB_scheme \<Rightarrow> bool" where
  "geometry_ok v \<longleftrightarrow> vcbSigWord v = kHFSPlusSigWord \<and> 0 < hfs_logical_block_size v \<and> hfs_logical_block_size v dvd blockSize v \<and>
     0 < blockSize v \<and> blockSize v < 2 ^ 29 \<and> 0 \<le> hfsPlusIOPosOffset v \<and> hfsPlusIOPosOffset v < 2 ^ 32"

lemma mult_bound: "0 \<le> a \<Longrightarrow> a < 2 ^ 32 \<Longrightarrow> 0 \<le> b \<Longrightarrow> b < 2 ^ 29 \<Longrightarrow> 0 \<le> a * b \<and> a * b \<le> 2 ^ 61" for a b :: int
  using mult_mono [of a "2 ^ 32" b "2 ^ 29"] by simp

lemma extent_offset_sector:
  fixes first :: int
  assumes "0 < ss" "ss dvd bs" "0 < bs" "first \<le> offset div bs"
  shows "(offset - first * bs) div ss = (offset div bs - first) * (bs div ss) + offset mod bs div ss" "0 \<le> offset - first * bs"
proof -
  obtain q where q: "bs = ss * q" using assms(2) by blast
  have o: "offset - first * bs = (offset div bs - first) * bs + offset mod bs" using div_mult_mod_eq [of offset bs] by (simp add: algebra_simps)
  then have "offset - first * bs = offset mod bs + ss * ((offset div bs - first) * q)" using q by (simp add: algebra_simps)
  then show "(offset - first * bs) div ss = (offset div bs - first) * (bs div ss) + offset mod bs div ss"
    using assms(1) q by simp
  show "0 \<le> offset - first * bs" unfolding o using assms by simp
qed

lemma search_hitD:
  assumes "search_hit t fcb blocks b sf" "e = foundData sf ! nat (foundIndex sf)" "first = nextFABN sf - blockCount e"
  shows "0 \<le> first" "first \<le> b" "b < nextFABN sf" "nextFABN sf \<le> int (length blocks)"
    "\<And>c. first \<le> c \<Longrightarrow> c < nextFABN sf \<Longrightarrow> blocks ! nat c = startBlock e + (c - first)"
    "startBlock e = blocks ! nat first" "startBlock e \<in> set blocks"
proof -
  show a: "0 \<le> first" "first \<le> b" "b < nextFABN sf" "nextFABN sf \<le> int (length blocks)"
    "\<And>c. first \<le> c \<Longrightarrow> c < nextFABN sf \<Longrightarrow> blocks ! nat c = startBlock e + (c - first)"
    using assms by (auto simp: search_hit_def Let_def)
  show "startBlock e = blocks ! nat first" using a(2,3) a(5) [of first] by simp
  then show "startBlock e \<in> set blocks" using a(1,2,3,4) by (simp add: nat_less_iff)
qed

lemma MapFileBlockC_run:
  assumes g: "geometry_ok v" and sf: "SearchExtentFile ops v fcb offset = (noErr, sf)"
    and hit: "search_hit t fcb blocks (offset div blockSize v) sf"
    and blocks: "length blocks < 2 ^ 32" "set blocks \<subseteq> {0..<2 ^ 32}"
    and fb: "0 \<le> ff_blocks fcb" "ff_blocks fcb < 2 ^ 32" and off: "0 \<le> offset" "offset < ff_blocks fcb * blockSize v"
    and n: "0 \<le> numberOfBytes" "numberOfBytes < 2 ^ 63"
  shows "MapFileBlockC ops v fcb numberOfBytes offset True = (noErr, Some (sector_of v blocks offset),
    Some (min numberOfBytes (min (ff_blocks fcb * blockSize v) (nextFABN sf * blockSize v) - offset)))"
proof -
  define e where "e = foundData sf ! nat (foundIndex sf)"
  define first where "first = nextFABN sf - blockCount e"
  define bs where "bs = blockSize v"
  define ss where "ss = hfs_logical_block_size v"
  note h = search_hitD [OF hit e_def first_def]
  have g': "0 < ss" "ss dvd bs" "0 < bs" "bs < 2 ^ 29" "0 \<le> hfsPlusIOPosOffset v" "hfsPlusIOPosOffset v < 2 ^ 32" "vcbSigWord v = kHFSPlusSigWord"
    using g by (auto simp: geometry_ok_def bs_def ss_def)
  have q: "0 \<le> bs div ss" "bs div ss < 2 ^ 29" using g' zdiv_mono2 [of bs 1 ss] by (auto simp: pos_imp_zdiv_nonneg_iff)
  have nx: "0 \<le> nextFABN sf" "nextFABN sf < 2 ^ 32" "first < 2 ^ 32" "0 \<le> startBlock e" "startBlock e < 2 ^ 32"
    using h(1-4,7) blocks by auto
  have m: "nextFABN sf * bs \<le> 2 ^ 61" "0 \<le> nextFABN sf * bs" "ff_blocks fcb * bs \<le> 2 ^ 61" "0 \<le> ff_blocks fcb * bs"
    "first * bs \<le> 2 ^ 61" "0 \<le> first * bs" "startBlock e * (bs div ss) \<le> 2 ^ 61" "0 \<le> startBlock e * (bs div ss)"
    using mult_bound [of "nextFABN sf" bs] mult_bound [of "ff_blocks fcb" bs] mult_bound [of first bs]
      mult_bound [of "startBlock e" "bs div ss"] nx fb g'(3,4) q h(1) by auto
  note eo = extent_offset_sector [OF g'(1-3), of first offset]
  have o2: "offset < nextFABN sf * bs"
  proof -
    have "offset < (offset div bs + 1) * bs" unfolding distrib_right mult_1_left
      using div_mult_mod_eq [of offset bs] pos_mod_bound [OF g'(3), of offset] by linarith
    also have "\<dots> \<le> nextFABN sf * bs" using h(3) g'(3) by (intro mult_right_mono) (auto simp: bs_def)
    finally show ?thesis .
  qed
  define A where "A = (offset - first * bs) div ss"
  note eo = eo [OF h(2) [folded bs_def]]
  have A: "0 \<le> A" "A \<le> offset - first * bs" "A = (offset div bs - first) * (bs div ss) + offset mod bs div ss"
    using eo(2) g'(1) zdiv_mono2 [of "offset - first * bs" 1 ss] unfolding A_def
    by (simp_all add: pos_imp_zdiv_nonneg_iff eo(1) [symmetric])
  have P: "0 \<le> hfsPlusIOPosOffset v div ss" "hfsPlusIOPosOffset v div ss < 2 ^ 32"
    using g' zdiv_mono2 [of "hfsPlusIOPosOffset v" 1 ss] by (auto simp: pos_imp_zdiv_nonneg_iff)
  have c: "u32 first = first" "s64 (nextFABN sf * bs) = nextFABN sf * bs" "s64 (ff_blocks fcb * bs) = ff_blocks fcb * bs"
    "s64 (first * bs) = first * bs" "s64 (startBlock e * (bs div ss)) = startBlock e * (bs div ss)"
    using m nx h(1) by auto
  have d: "s64 (offset - first * bs) sdiv ss = A"
  proof -
    have "s64 (offset - first * bs) = offset - first * bs" using eo(2) m off by (intro s64_id) (auto simp: bs_def)
    then show ?thesis using eo(2) g'(1) by (simp add: A_def sdiv_nonneg)
  qed
  have B: "0 \<le> A + startBlock e * (bs div ss)" "A + startBlock e * (bs div ss) \<le> 4611686018427387904"
    using A(1,2) m off(2) by (simp_all add: bs_def)
  have k: "s64 (A + startBlock e * (bs div ss)) = A + startBlock e * (bs div ss)"
    "s64 (A + startBlock e * (bs div ss) + hfsPlusIOPosOffset v div ss) = A + startBlock e * (bs div ss) + hfsPlusIOPosOffset v div ss"
    using B P by simp_all
  have sec: "A + startBlock e * (bs div ss) + hfsPlusIOPosOffset v div ss = sector_of v blocks offset"
  proof -
    have "blocks ! nat (offset div bs) = startBlock e + (offset div bs - first)" using h(5) [of "offset div bs"] h(2,3) by (simp add: bs_def)
    then show ?thesis unfolding sector_of_def A(3) bs_def [symmetric] ss_def [symmetric] by (simp add: distrib_right)
  qed
  have r: "s64 (x - offset) = x - offset" if "0 \<le> x" "x \<le> 2 ^ 61" for x using that off m by (intro s64_id) (auto simp: bs_def)
  show ?thesis
    using c d k r [OF m(2,1)] r [OF m(4,3)] o2 off(2) n sf g'(7) unfolding sec [symmetric] bs_def ss_def
    by (simp add: MapFileBlockC_def Let_def e_def [symmetric] first_def [symmetric])
qed

section \<open>Contiguous nodes\<close>

lemma ExtentsAreIntegral_loop_eq:
  assumes "\<forall>e\<in>set es. 0 \<le> blockCount e" "0 \<le> s" "s + nblocks (active es) < 2 ^ 32"
  shows "\<exists>n l. ExtentsAreIntegral_loop es msk s = (\<forall>e\<in>set (active es). blockCount e AND msk = 0, n, l) \<and>
    ((\<forall>e\<in>set (active es). blockCount e AND msk = 0) \<longrightarrow> n = s + nblocks (active es) \<and> (l \<longleftrightarrow> length (active es) < length es))"
  using assms
proof (induction es arbitrary: s)
  case (Cons e es)
  have p: "0 \<le> blockCount e" "0 \<le> nblocks (active es)" using Cons.prems(1) set_active [of _ es] by (auto intro!: nblocks_nonneg)
  show ?case
  proof (cases "blockCount e = 0")
    case False
    have u: "u32 (s + blockCount e) = s + blockCount e" using Cons.prems p False by (intro u32_id) auto
    show ?thesis using False u Cons.IH [of "s + blockCount e"] Cons.prems p by (auto simp: Let_def)
  qed auto
qed auto

lemma ExtentsAreIntegral_eq:
  assumes "record_ok r" "nblocks (active r) < 2 ^ 32"
  shows "\<exists>n l. ExtentsAreIntegral r msk = (\<forall>e\<in>set (active r). blockCount e AND msk = 0, n, l) \<and>
    ((\<forall>e\<in>set (active r). blockCount e AND msk = 0) \<longrightarrow> n = nblocks (active r) \<and> (l \<longleftrightarrow> length (active r) < 8))"
  using ExtentsAreIntegral_loop_eq [of r 0 msk] assms by (simp add: ExtentsAreIntegral_def record_ok_def)

context extent_tree
begin

text \<open>A record that is not full is the last one; otherwise the loop ends at the missing record after it.\<close>

lemma NodesAreContiguous_loop_chain:
  assumes ok: "ok v" and i: "0 \<le> i" "i < 2 ^ 32" and c: "chain (tree v) i 0 s rs" "0 \<le> s" "s + nblocks (overflow_extents rs) < 2 ^ 32"
    and d: "\<And>x. s \<le> x \<Longrightarrow> tree v (i, 0, x) \<noteq> None \<Longrightarrow> x \<in> starts s rs"
  shows "NodesAreContiguous_loop ops v i msk s = Some (\<forall>e\<in>set (overflow_extents rs). blockCount e AND msk = 0)"
  using c d
proof (induction rs arbitrary: s)
  case Nil
  have "tree v (i, 0, s) = None" using Nil(4) [of s] by fastforce
  from FindExtentRecord_missing [OF ok _ this] Nil i show ?case by (subst NodesAreContiguous_loop.simps) (auto simp: tree_key_ok_def)
next
  case (Cons r rs)
  have r: "record_ok r" "tree v (i, 0, s) = Some r" "chain (tree v) i 0 (s + nblocks (active r)) rs" "active r \<noteq> []"
    using Cons.prems(1) by auto
  have p: "0 < nblocks (active r)" "0 \<le> nblocks (overflow_extents rs)" using active_pos [OF r(1,4)] chain_nonneg [OF r(3)] by auto
  have IH: "NodesAreContiguous_loop ops v i msk (s + nblocks (active r)) =
      Some (\<forall>e\<in>set (overflow_extents rs). blockCount e AND msk = 0)"
  proof (rule Cons.IH [OF r(3)])
    fix x assume "s + nblocks (active r) \<le> x" "tree v (i, 0, x) \<noteq> None"
    then show "x \<in> starts (s + nblocks (active r)) rs" using Cons.prems(4) [of x] p(1) by fastforce
  qed (use Cons.prems p in auto)
  obtain hint where f: "FindExtentRecord ops v 0 i s False = (noErr, Some (extent_key 0 i s, r), hint)"
    using FindExtentRecord_exact [OF ok r(2)] by blast
  obtain n l where nl: "ExtentsAreIntegral r msk = (\<forall>e\<in>set (active r). blockCount e AND msk = 0, n, l)"
    "(\<forall>e\<in>set (active r). blockCount e AND msk = 0) \<longrightarrow> n = nblocks (active r) \<and> (l \<longleftrightarrow> length (active r) < 8)"
    using ExtentsAreIntegral_eq [OF r(1), of msk] Cons.prems p by auto
  have u: "u32 (s + nblocks (active r)) = s + nblocks (active r)" using Cons.prems p by (intro u32_id) auto
  have last: "length (active r) < 8 \<Longrightarrow> rs = []" using Cons.prems(1) by auto
  show ?case
  proof (cases "\<forall>e\<in>set (active r). blockCount e AND msk = 0")
    case True
    then show ?thesis using f nl IH u last by (subst NodesAreContiguous_loop.simps) auto
  next
    case False
    then show ?thesis using f nl(1) by (subst NodesAreContiguous_loop.simps) auto
  qed
qed

lemma NodesAreContiguous_chain:
  assumes ok: "ok v" and wf: "fork_wf (tree v) fcb rs" and df: "\<not> FORK_IS_RSRC fcb"
    and sz: "0 < blockSize v" "blockSize v < node_size"
    and ff: "rs \<noteq> [] \<longrightarrow> s64 (nblocks (active (fcbExtents fcb)) * blockSize v) < s64 (ff_size fcb)"
  shows "NodesAreContiguous ops v fcb node_size =
    Some (\<forall>e\<in>set (fork_extents fcb rs). blockCount e AND u32 (node_size div blockSize v - 1) = 0)"
proof -
  define msk where "msk = u32 (node_size div blockSize v - 1)"
  define n where "n = nblocks (active (fcbExtents fcb))"
  note w = fork_wfD [OF wf, folded n_def]
  have chain: "chain (tree v) (c_fileid fcb) 0 n rs" using wf df by (simp add: fork_wf_def n_def fork_type_def)
  have loop: "NodesAreContiguous_loop ops v (c_fileid fcb) msk n = Some (\<forall>e\<in>set (overflow_extents rs). blockCount e AND msk = 0)"
    using wf df w by (intro NodesAreContiguous_loop_chain [OF ok _ _ chain]) (auto simp: fork_wf_def fork_type_def n_def)
  obtain m l where ml: "ExtentsAreIntegral (fcbExtents fcb) msk = (\<forall>e\<in>set (active (fcbExtents fcb)). blockCount e AND msk = 0, m, l)"
    "(\<forall>e\<in>set (active (fcbExtents fcb)). blockCount e AND msk = 0) \<longrightarrow> m = n \<and> (l \<longleftrightarrow> length (active (fcbExtents fcb)) < 8)"
    using ExtentsAreIntegral_eq [OF w(1), of msk] w by (auto simp: n_def)
  have r: "length (active (fcbExtents fcb)) < 8 \<Longrightarrow> rs = []" using wf by (auto simp: fork_wf_def)
  have un: "NodesAreContiguous ops v fcb node_size = (case ExtentsAreIntegral (fcbExtents fcb) msk of (integral, blocksChecked, lastExtentReached) \<Rightarrow>
      if \<not> integral then Some False
      else if lastExtentReached \<or> s64 (blocksChecked * blockSize v) \<ge> s64 (ff_size fcb) then Some True
      else NodesAreContiguous_loop ops v (c_fileid fcb) msk blocksChecked)"
    using sz unfolding msk_def by (simp add: NodesAreContiguous_def GetFCBExtentRecord_def Let_def)
  show ?thesis
  proof (cases "\<forall>e\<in>set (active (fcbExtents fcb)). blockCount e AND msk = 0")
    case True
    then show ?thesis using ml loop r ff unfolding un msk_def [symmetric] fork_extents_def
      by (cases "rs = []") (auto simp: n_def)
  next
    case False
    then show ?thesis using ml(1) unfolding un msk_def [symmetric] fork_extents_def by auto
  qed
qed

end


end
