(* ===== verification/ExtentTree.thy ===== *)
theory ExtentTree
  imports BTreeSearch ExtentTheory
begin

text \<open>
  The extents tree as the extent map uses it: the contract \<open>extent_tree\<close> of \<^theory_text>\<open>ExtentTheory\<close> holds for the
  search and the iteration of \<^theory_text>\<open>BTreeSearch\<close> on the nodes of a well-formed extents tree.

  The volume gets the control block and the nodes of its extents tree; the routines that change the tree or
  the bitmap stay arguments.
\<close>

section \<open>The volume with its extents tree\<close>

record hfs_volume = ExtendedVCB +
  extents_btcb :: BTreeControlBlock
  extents_nodes :: get_block

type_synonym volume = "hfs_volume"

text \<open>The key of a \<open>BTreeIterator\<close> is a buffer of 522 bytes, of which an extent key takes 12.\<close>

definition enc_key :: "HFSPlusExtentKey \<Rightarrow> mem" where
  "enc_key k = le_bytes 2 (k_keyLength k) @ le_bytes 1 (k_forkType k) @ le_bytes 1 (k_pad k) @
     le_bytes 4 (k_fileID k) @ le_bytes 4 (k_startBlock k) @ replicate 510 0"

definition dec_key :: "mem \<Rightarrow> HFSPlusExtentKey" where
  "dec_key m = \<lparr> k_keyLength = get16 m 0, k_forkType = get8 m 2, k_pad = get8 m 3, k_fileID = get32 m 4, k_startBlock = get32 m 8 \<rparr>"

definition dec_extents :: "mem \<Rightarrow> HFSPlusExtentRecord" where
  "dec_extents m = map (\<lambda>i. extent (get32 m (8 * int i)) (get32 m (8 * int i + 4))) [0..<kHFSPlusExtentDensity]"

definition to_iter :: "BTreeIterator \<Rightarrow> BTIterator" where
  "to_iter it = \<lparr> bi_writeCount = 0, bi_nodeNum = hint_nodeNum it, bi_index = hint_index it, bi_hitCount = 0, bi_maxLeafRecs = 0,
     bi_key = enc_key (it_key it) \<rparr>"

definition of_iter :: "BTIterator \<Rightarrow> BTreeIterator" where
  "of_iter it = \<lparr> hint_nodeNum = bi_nodeNum it, hint_index = bi_index it, it_key = dec_key (bi_key it) \<rparr>"

text \<open>The values of the error codes (\<open>BTreesInternal.h\<close>, \<open>FileMgrInternal.h\<close>).\<close>

fun err_code :: "bt_err \<Rightarrow> int" where
  "err_code fsBTInvalidHeaderErr = - 32767 + 37"
| "err_code fsBTBadRotateErr = - 32767 + 64"
| "err_code fsBTInvalidNodeErr = - 32767 + 36"
| "err_code fsBTRecordTooLargeErr = - 32767 + 35"
| "err_code fsBTRecordNotFoundErr = - 32767 + 32"
| "err_code fsBTDuplicateRecordErr = - 32767 + 33"
| "err_code fsBTFullErr = - 32767 + 34"
| "err_code fsBTInvalidFileErr = - 32767 + 0x0302"
| "err_code fsBTrFileAlreadyOpenErr = - 32767 + 0x0303"
| "err_code fsBTInvalidIteratorErr = - 32767 + 0x0308"
| "err_code fsBTEmptyErr = - 32767 + 0x030A"
| "err_code fsBTNoMoreMapNodesErr = - 32767 + 0x030B"
| "err_code fsBTBadNodeSize = - 32767 + 0x030C"
| "err_code fsBTBadNodeType = - 32767 + 0x030D"
| "err_code fsBTInvalidKeyLengthErr = - 32767 + 0x030E"
| "err_code BTreeTypes.fsBTStartOfIterationErr = - 32767 + 0x0353"
| "err_code fsBTEndOfIterationErr = - 32767 + 0x0354"
| "err_code fsBTUnknownVersionErr = - 32767 + 0x0355"
| "err_code fsBTTreeTooDeepErr = - 32767 + 0x0357"
| "err_code fsInvalidIterationMovmentErr = - 32767 + 0x0A05"
| "err_code fsBTTimeOutErr = - 32767 + 0x0A08"
| "err_code paramErr = - 50"

text \<open>The outcome of a call as the caller sees it.  An access out of bounds, which the interpretation below excludes for a
  well-formed tree, is reported as a bad node.\<close>

definition call_result :: "BTreeIterator \<Rightarrow> bt_result option \<Rightarrow> int \<times> BTreeIterator \<times> HFSPlusExtentRecord \<times> int" where
  "call_result it r =
     (case r of None \<Rightarrow> (err_code fsBTInvalidNodeErr, it, [], 0)
      | Some r \<Rightarrow> (case br_err r of None \<Rightarrow> 0 | Some e \<Rightarrow> err_code e,
                   case br_iter r of None \<Rightarrow> it | Some it' \<Rightarrow> of_iter it', dec_extents (br_buf r), case br_len r of None \<Rightarrow> 0 | Some len \<Rightarrow> len))"

definition tree_search :: "volume \<Rightarrow> BTreeIterator \<Rightarrow> int \<times> BTreeIterator \<times> HFSPlusExtentRecord \<times> int" where
  "tree_search v it = call_result it (BTreeSearch.BTSearchRecord CompareExtentKeysPlus (extents_nodes v) (Some (Some (extents_btcb v)))
     (Some (to_iter it)) (replicate 64 0) 64)"

definition iter_op_of :: "int \<Rightarrow> iter_op" where
  "iter_op_of operation = (if operation = 0 then kBTreeFirstRecord else if operation = 1 then kBTreeNextRecord
     else if operation = 2 then BTreeSearch.kBTreePrevRecord else if operation = 3 then kBTreeLastRecord
     else if operation = 4 then kBTreeCurrentRecord else kBTreeOtherOperation)"

definition tree_iterate :: "volume \<Rightarrow> int \<Rightarrow> BTreeIterator \<Rightarrow> int \<times> BTreeIterator \<times> HFSPlusExtentRecord \<times> int" where
  "tree_iterate v operation it = call_result it (BTreeSearch.BTIterateRecord CompareExtentKeysPlus (extents_nodes v)
     (Some (Some (extents_btcb v))) (iter_op_of operation) (Some (to_iter it)) (replicate 64 0) 64)"

definition tree_ops :: "volume volume_ops \<Rightarrow> volume volume_ops" where
  "tree_ops base = base \<lparr> BTSearchRecord := tree_search, BTIterateRecord := tree_iterate \<rparr>"

text \<open>The map that the tree stands for.\<close>

definition extents_map :: "volume \<Rightarrow> ext_tree" where
  "extents_map v k = map_option dec_extents (map_of (btree_entries extent_key_val (extents_btcb v) (extents_nodes v)) k)"

text \<open>Leaf records as the driver writes them: keys of 12 bytes with pad 0, eight extents.\<close>

definition ext_leaf_ok :: "BTreeControlBlock \<Rightarrow> mem \<Rightarrow> bool" where
  "ext_leaf_ok bt node \<longleftrightarrow> (\<forall>i<nrec node. CalcKeySize bt node (roff bt node i) = Some 12 \<and> get8 (key_at bt node i) 3 = 0 \<and>
     length (the (data_of bt node i)) = 64)"

definition extents_ok :: "volume \<Rightarrow> bool" where
  "extents_ok v \<longleftrightarrow> (let bt = extents_btcb v; get = extents_nodes v in
     bigKeys bt \<and> btree_ok fixed_key_ok extent_key_val bt get \<and> links_ok bt get 0 (btree_leaves bt get) \<and>
     (\<forall>m\<in>set (btree_leaves bt get). case GetNode bt get m of Inl _ \<Rightarrow> False | Inr node \<Rightarrow> ext_leaf_ok bt node))"
section \<open>Keys in a buffer\<close>

lemma enc_key_fields:
  "get16 (enc_key k) 0 = u16 (k_keyLength k)" "get8 (enc_key k) 2 = u8 (k_forkType k)" "get8 (enc_key k) 3 = u8 (k_pad k)"
  "get32 (enc_key k) 4 = u32 (k_fileID k)" "get32 (enc_key k) 8 = u32 (k_startBlock k)" "length (enc_key k) = 522"
proof -
  have r: "bytes_at (enc_key k) a n = ys" if "enc_key k = xs @ ys @ zs" "a = int (length xs)" "n = int (length ys)" for a n xs ys zs
    unfolding that(1) by (rule bytes_at_append3 [OF that(2,3)])
  note e = enc_key_def [of k]
  show "get16 (enc_key k) 0 = u16 (k_keyLength k)"
    unfolding get16_def by (subst r [of "[]" "le_bytes 2 (k_keyLength k)"]) (simp_all add: e le_val_bytes conv_defs uint_word_of_int)
  show "get8 (enc_key k) 2 = u8 (k_forkType k)"
    unfolding get8_def by (subst r [of "le_bytes 2 (k_keyLength k)" "le_bytes 1 (k_forkType k)"]) (simp_all add: e le_val_bytes conv_defs uint_word_of_int)
  show "get8 (enc_key k) 3 = u8 (k_pad k)"
    unfolding get8_def by (subst r [of "le_bytes 2 (k_keyLength k) @ le_bytes 1 (k_forkType k)" "le_bytes 1 (k_pad k)"]) (simp_all add: e le_val_bytes conv_defs uint_word_of_int)
  show "get32 (enc_key k) 4 = u32 (k_fileID k)"
    unfolding get32_def
    by (subst r [of "le_bytes 2 (k_keyLength k) @ le_bytes 1 (k_forkType k) @ le_bytes 1 (k_pad k)" "le_bytes 4 (k_fileID k)"]) (simp_all add: e le_val_bytes conv_defs uint_word_of_int)
  show "get32 (enc_key k) 8 = u32 (k_startBlock k)"
    unfolding get32_def
    by (subst r [of "le_bytes 2 (k_keyLength k) @ le_bytes 1 (k_forkType k) @ le_bytes 1 (k_pad k) @ le_bytes 4 (k_fileID k)"
      "le_bytes 4 (k_startBlock k)"]) (simp_all add: e le_val_bytes conv_defs uint_word_of_int)
  show "length (enc_key k) = 522" by (simp add: e)
qed

lemma key_of_buffer:
  assumes "tree_key_ok k"
  shows "extent_key_val (enc_key (key_of k)) = k" "dec_key (enc_key (key_of k)) = key_of k"
  using assms by (auto simp: tree_key_ok_def key_of_def extent_key_def extent_key_val_def dec_key_def enc_key_fields)

text \<open>A key of the tree, copied over the start of a buffer.\<close>

lemma dec_key_copied:
  assumes "length buf = 522" "CalcKeySize bt node (roff bt node i) = Some 12" "bigKeys bt" "in_mem node (roff bt node i) 12"
    "get8 (key_at bt node i) 3 = 0"
  shows "dec_key (put_bytes buf 0 (record_key bt node i)) = key_of (extent_key_val (key_at bt node i))"
    "tree_key_ok (extent_key_val (key_at bt node i))"
proof -
  define r where "r = roff bt node i"
  have r0: "0 \<le> r" by (simp add: r_def)
  have k: "record_key bt node i = bytes_at node r 12" using assms(2) by (simp add: record_key_def r_def)
  have len: "length (bytes_at node r 12) = 12" using assms(4) by (simp add: r_def)
  have b: "bytes_at (put_bytes buf 0 (record_key bt node i)) a n = bytes_at node (r + a) n" if "0 \<le> a" "0 \<le> n" "a + n \<le> 12" for a n
    unfolding k using that assms(1,4) len by (subst slice_splice_inside) (auto simp: in_mem_def slice_slice r_def)
  have d: "bytes_at (key_at bt node i) a n = bytes_at node (r + a) n" if "0 \<le> a" for a n
    using that r0 by (simp add: key_at_def bytes_at_def r_def [symmetric] nat_add_distrib add.commute)
  have g: "get16 node r = 10" using assms(2,3) by (auto simp: CalcKeySize_def r_def [symmetric] rd_Some)
  show "dec_key (put_bytes buf 0 (record_key bt node i)) = key_of (extent_key_val (key_at bt node i))"
    using g assms(5) by (simp add: dec_key_def key_of_def extent_key_def extent_key_val_def get_defs b d)
  show "tree_key_ok (extent_key_val (key_at bt node i))" by (simp add: tree_key_ok_def extent_key_val_def)
qed
section \<open>The contract holds\<close>

lemma extents_okD:
  assumes "extents_ok v"
  shows "bigKeys (extents_btcb v)" "btree_ok fixed_key_ok extent_key_val (extents_btcb v) (extents_nodes v)"
    "links_ok (extents_btcb v) (extents_nodes v) 0 (btree_leaves (extents_btcb v) (extents_nodes v))"
  using assms by (simp_all add: extents_ok_def Let_def)

lemma extents_leafD:
  assumes "extents_ok v" "m \<in> set (btree_leaves (extents_btcb v) (extents_nodes v))" "GetNode (extents_btcb v) (extents_nodes v) m = Inr node"
    "i < nrec node"
  shows "CalcKeySize (extents_btcb v) node (roff (extents_btcb v) node i) = Some 12" "in_mem node (roff (extents_btcb v) node i) 12"
    "get8 (key_at (extents_btcb v) node i) 3 = 0" "length (the (data_of (extents_btcb v) node i)) = 64"
proof -
  let ?bt = "extents_btcb v" and ?get = "extents_nodes v"
  have "ext_leaf_ok ?bt node" using assms(1-3) by (auto simp: extents_ok_def Let_def split: sum.splits)
  then show "CalcKeySize ?bt node (roff ?bt node i) = Some 12" "get8 (key_at ?bt node i) 3 = 0" "length (the (data_of ?bt node i)) = 64"
    using assms(4) by (auto simp: ext_leaf_ok_def)
  have "treeDepth ?bt \<noteq> 0" using assms(2) by (auto simp: btree_leaves_def)
  then have ok: "tree_ok fixed_key_ok extent_key_val ?bt ?get (Suc 0) m"
    using extents_okD(2) [OF assms(1)] assms(2) tree_leaves_ok [of fixed_key_ok extent_key_val ?bt ?get "nat (treeDepth ?bt)" "rootNode ?bt" m]
    by (simp add: btree_ok_def btree_leaves_def)
  then have "keys_sorted fixed_key_ok extent_key_val ?bt node" using assms(3) by (auto elim: tree_okD)
  from sorted_keys(1) [OF this assms(4)] show "in_mem node (roff ?bt node i) 12" by (auto simp: fixed_key_ok_def key_at_def in_mem_def)
qed

lemma extents_iter_ok:
  assumes "extents_ok v" "hint_nodeNum it = 0" "0 \<le> k_keyLength (it_key it)" "k_keyLength (it_key it) \<le> 520"
  shows "iter_ok fixed_key_ok (extents_btcb v) (extents_nodes v) (to_iter it)"
proof -
  let ?bt = "extents_btcb v" and ?get = "extents_nodes v"
  have "leaves_fit ?bt ?get 522"
    unfolding leaves_fit_def
  proof
    fix m assume m: "m \<in> set (btree_leaves ?bt ?get)"
    with assms(1) obtain node where n: "GetNode ?bt ?get m = Inr node"
      by (cases "GetNode ?bt ?get m") (auto simp: extents_ok_def Let_def)
    have "key_fits ?bt node i 522" if "i < nrec node" for i using extents_leafD [OF assms(1) m n that] by (simp add: key_fits_def)
    then show "case GetNode ?bt ?get m of Inl _ \<Rightarrow> False | Inr node \<Rightarrow> \<forall>i<nrec node. key_fits ?bt node i 522" using n by simp
  qed
  moreover have "CalcKeySize ?bt (enc_key (it_key it)) 0 = Some (k_keyLength (it_key it) + 2)"
    using extents_okD(1) [OF assms(1)] assms(3,4) by (simp add: CalcKeySize_def rd_in in_mem_def enc_key_fields)
  ultimately show ?thesis using assms(2-4) by (simp add: iter_ok_def to_iter_def enc_key_fields fixed_key_ok_def in_mem_def)
qed

lemma returned_result:
  assumes "extents_ok v" "record_returned extent_key_val (extents_btcb v) (extents_nodes v) (to_iter it) (replicate 64 0) 64 e r"
  shows "\<exists>it'. call_result it (Some r) = (noErr, it', dec_extents (snd e), 64) \<and> it_key it' = key_of (fst e) \<and> tree_key_ok (fst e)"
proof -
  let ?bt = "extents_btcb v" and ?get = "extents_nodes v"
  obtain m node i it' where r: "m \<in> set (btree_leaves ?bt ?get)" "GetNode ?bt ?get m = Inr node" "i < nrec node"
    "e = (extent_key_val (key_at ?bt node i), the (data_of ?bt node i))" "br_err r = None" "br_len r = Some (int (length (snd e)))"
    "br_buf r = put_bytes (replicate 64 0) 0 (take (nat 64) (snd e))" "br_iter r = Some it'"
    "bi_key it' = put_bytes (bi_key (to_iter it)) 0 (record_key ?bt node i)"
    using assms(2) unfolding record_returned_def by blast
  note l = extents_leafD [OF assms(1) r(1-3)]
  have "br_buf r = snd e" using r(4,7) l(4) by (simp add: put_bytes_def)
  moreover have "dec_key (bi_key it') = key_of (fst e)" "tree_key_ok (fst e)"
    using dec_key_copied [OF _ l(1) extents_okD(1) [OF assms(1)] l(2,3), of "bi_key (to_iter it)"] r(4,9)
    by (simp_all add: to_iter_def enc_key_fields)
  ultimately show ?thesis using r(4-6,8) l(4) by (simp add: call_result_def of_iter_def)
qed

text \<open>Every key of the map fits its fields.\<close>

lemma entries_key_ok:
  assumes "e \<in> set (tree_entries extent_key_val bt get l n)"
  shows "tree_key_ok (fst e)"
  using assms
proof (induction l arbitrary: n)
  case (Suc l)
  then show ?case by (auto simp: tree_entries.simps(2) tree_key_ok_def extent_key_val_def split: sum.splits if_splits)
qed simp

lemma extents_map_key_ok: "extents_map v k \<noteq> None \<Longrightarrow> tree_key_ok k"
  using entries_key_ok [of "(k, d)" for d] by (fastforce simp: extents_map_def btree_entries_def dest: map_of_SomeD)

lemma search_result_found:
  assumes ok: "extents_ok v" and it: "fresh_iter it k" and k: "extents_map v k = Some d"
  shows "\<exists>it' len. tree_search v it = (noErr, it', d, len) \<and> it_key it' = key_of k"
proof -
  let ?bt = "extents_btcb v" and ?get = "extents_nodes v"
  obtain b where b: "map_of (btree_entries extent_key_val ?bt ?get) k = Some b" "d = dec_extents b" using k by (auto simp: extents_map_def)
  have kk: "extent_key_val (bi_key (to_iter it)) = k"
    using it key_of_buffer(1) extents_map_key_ok [of v k] k by (simp add: fresh_iter_def to_iter_def)
  have i: "iter_ok fixed_key_ok ?bt ?get (to_iter it)"
    using it by (intro extents_iter_ok [OF ok]) (simp_all add: fresh_iter_def key_of_def extent_key_def split: prod.splits)
  obtain r where "BTreeSearch.BTSearchRecord CompareExtentKeysPlus ?get (Some (Some ?bt)) (Some (to_iter it)) (replicate 64 0) 64 = Some r"
    "record_returned extent_key_val ?bt ?get (to_iter it) (replicate 64 0) 64 (k, b) r"
    using ext_order.BTSearchRecord_run [OF extents_okD(2) [OF ok] i, of 64 "replicate 64 0"] b kk by auto
  with returned_result [OF ok, of it "(k, b)" r] b(2) show ?thesis by (auto simp: tree_search_def)
qed

lemma search_result_missing:
  assumes ok: "extents_ok v" and it: "fresh_iter it k" and key: "tree_key_ok k" and k: "extents_map v k = None"
  obtains it' d len where "tree_search v it = (btNotFound, it', d, len)" "hint_nodeNum it' = 0" "0 \<le> k_keyLength (it_key it')"
    "k_keyLength (it_key it') \<le> 520" "treeDepth (extents_btcb v) \<noteq> 0 \<Longrightarrow> it' = it"
proof -
  let ?bt = "extents_btcb v" and ?get = "extents_nodes v"
  have n: "map_of (btree_entries extent_key_val ?bt ?get) k = None" using k by (auto simp: extents_map_def)
  have kk: "extent_key_val (bi_key (to_iter it)) = k" "of_iter (to_iter it) = it"
    using it key_of_buffer [OF key] by (simp_all add: fresh_iter_def to_iter_def of_iter_def)
  have i: "iter_ok fixed_key_ok ?bt ?get (to_iter it)"
    using it by (intro extents_iter_ok [OF ok]) (simp_all add: fresh_iter_def key_of_def extent_key_def split: prod.splits)
  obtain r where r: "BTreeSearch.BTSearchRecord CompareExtentKeysPlus ?get (Some (Some ?bt)) (Some (to_iter it)) (replicate 64 0) 64 = Some r"
    "br_err r = Some fsBTRecordNotFoundErr" "treeDepth ?bt \<noteq> 0 \<longrightarrow> br_iter r = Some (to_iter it)"
    using ext_order.BTSearchRecord_run [OF extents_okD(2) [OF ok] i, of 64 "replicate 64 0"] n kk(1) by auto
  show thesis
  proof (cases "treeDepth ?bt = 0")
    case False
    show thesis by (rule that [of it "dec_extents (br_buf r)"])
      (use r False kk(2) it in \<open>simp_all add: tree_search_def call_result_def fresh_iter_def key_of_def extent_key_def split: prod.splits\<close>)
  next
    case True
    obtain it2 where it2: "clear_iterator (to_iter it) = Some it2" using clear_iterator_run [OF i] by blast
    have "br_iter r = Some it2"
      using r(1) True it it2 by (auto simp: BTreeSearch.BTSearchRecord_def take_hint_def to_iter_def fresh_iter_def no_hint
        SearchTree_def search_error_def bt_fail_def)
    moreover have "bi_nodeNum it2 = 0" "get16 (bi_key it2) 0 = 0"
      using it2 by (auto simp: clear_iterator_def wr_Some get_splice_same bind_eq_Some_conv)
    ultimately show thesis using r True by (intro that [of "of_iter it2"]) (auto simp: tree_search_def call_result_def of_iter_def dec_key_def)
  qed
qed
lemma last_greatest: "sorted_wrt (<) (map fst xs) \<Longrightarrow> e \<in> set xs \<Longrightarrow> fst e \<le> (fst (last xs) :: 'k :: linorder)"
  by (induction xs rule: rev_induct) (auto simp: sorted_wrt_append less_imp_le)

text \<open>In a sorted list the greatest entry below a key is its neighbour.\<close>

lemma neighbour_greatest:
  fixes es :: "('k :: linorder \<times> mem) list"
  assumes s: "sorted_wrt (<) (map fst es)" and p: "map_of es p = Some d" "p < k" and g: "\<And>q. map_of es q \<noteq> None \<Longrightarrow> q < k \<Longrightarrow> q \<le> p"
  shows "neighbour BTreeSearch.kBTreePrevRecord k es = Some (p, d)"
proof -
  let ?b = "filter (\<lambda>e. fst e < k) es"
  have ds: "distinct (map fst es)" using s by (simp add: strict_sorted_iff)
  have pin: "(p, d) \<in> set ?b" using p by (auto dest: map_of_SomeD)
  then have ne: "?b \<noteq> []" by (metis list.set_cases list.simps(3))
  have "sorted_wrt (<) (map fst ?b)" using s by (simp add: sorted_wrt_map sorted_wrt_filter)
  then have le: "fst e \<le> fst (last ?b)" if "e \<in> set ?b" for e using that by (rule last_greatest)
  have "last ?b \<in> set ?b" by (rule last_in_set [OF ne])
  then have l: "last ?b \<in> set es" "fst (last ?b) < k" by auto
  then have "map_of es (fst (last ?b)) \<noteq> None" using ds by (simp add: map_of_eq_None_iff)
  then have "fst (last ?b) = p" using g [of "fst (last ?b)"] l(2) le [OF pin] by simp
  then have "last ?b = (p, d)" using l(1) p(1) ds by (metis (no_types) map_of_eq_Some_iff option.inject prod.collapse)
  then show ?thesis using ne by (simp add: neighbour_cases Let_def)
qed

lemma neighbour_none:
  assumes "\<And>q. map_of es q \<noteq> None \<Longrightarrow> \<not> q < (k :: 'k :: linorder)"
  shows "neighbour BTreeSearch.kBTreePrevRecord k es = None"
proof -
  have "filter (\<lambda>e. fst e < k) es = []" using assms weak_map_of_SomeI by (fastforce simp: filter_empty_conv)
  then show ?thesis by (simp add: neighbour_cases)
qed

lemma btree_entries_sorted: "btree_ok valid val bt get \<Longrightarrow> sorted_wrt (<) (map fst (btree_entries val bt get))"
  using tree_entries_sorted by (cases "treeDepth bt = 0") (auto simp: btree_ok_def btree_entries_def)

lemma tree_iterate_prev:
  assumes ok: "extents_ok v" and it: "hint_nodeNum it = 0" "0 \<le> k_keyLength (it_key it)" "k_keyLength (it_key it) \<le> 520"
  defines "k \<equiv> extent_key_val (enc_key (it_key it))"
  shows "case neighbour BTreeSearch.kBTreePrevRecord k (btree_entries extent_key_val (extents_btcb v) (extents_nodes v)) of
      Some e \<Rightarrow> \<exists>it' len. tree_iterate v 2 it = (noErr, it', dec_extents (snd e), len) \<and> it_key it' = key_of (fst e)
    | None \<Rightarrow> fst (tree_iterate v 2 it) \<in> {ExtentMap.fsBTStartOfIterationErr, btNotFound}"
proof -
  let ?bt = "extents_btcb v" and ?get = "extents_nodes v"
  have i: "iter_ok fixed_key_ok ?bt ?get (to_iter it)" by (rule extents_iter_ok [OF ok it])
  have kk: "extent_key_val (bi_key (to_iter it)) = k" by (simp add: to_iter_def k_def)
  have op: "iter_op_of 2 = BTreeSearch.kBTreePrevRecord" by (simp add: iter_op_of_def)
  obtain r where r: "BTreeSearch.BTIterateRecord CompareExtentKeysPlus ?get (Some (Some ?bt)) BTreeSearch.kBTreePrevRecord (Some (to_iter it))
      (replicate 64 0) 64 = Some r"
    "case neighbour BTreeSearch.kBTreePrevRecord k (btree_entries extent_key_val ?bt ?get) of
       Some e \<Rightarrow> record_returned extent_key_val ?bt ?get (to_iter it) (replicate 64 0) 64 e r
     | None \<Rightarrow> br_err r = Some (if treeDepth ?bt \<noteq> 0 then BTreeTypes.fsBTStartOfIterationErr else fsBTRecordNotFoundErr)"
    using ext_order.BTIterateRecord_run [OF extents_okD(2,3) [OF ok] i, of 64 "replicate 64 0" BTreeSearch.kBTreePrevRecord]
    unfolding kk by (auto split: option.splits)
  show ?thesis
  proof (cases "neighbour BTreeSearch.kBTreePrevRecord k (btree_entries extent_key_val ?bt ?get)")
    case None
    then show ?thesis using r by (simp add: tree_iterate_def op call_result_def)
  next
    case (Some e)
    then show ?thesis using r returned_result [OF ok, of it e r] by (auto simp: tree_iterate_def op)
  qed
qed

interpretation ext: extent_tree "tree_ops base" extents_map extents_ok
proof (unfold_locales, goal_cases)
  case (1 v it k d)
  then show ?case using search_result_found by (simp add: tree_ops_def)
next
  case (2 v k it)
  then show ?case using search_result_missing [OF 2(1,3,2,4)] by (force simp: tree_ops_def)
next
  case (3 v k it it' d len p e)
  have n: "extents_map v k = None"
    using 3(1,3,4) search_result_found [of v it k] by (cases "extents_map v k") (auto simp: tree_ops_def)
  let ?es = "btree_entries extent_key_val (extents_btcb v) (extents_nodes v)"
  have s: "sorted_wrt (<) (map fst ?es)" by (rule btree_entries_sorted [OF extents_okD(2) [OF 3(1)]])
  obtain b where b: "map_of ?es p = Some b" "e = dec_extents b" using 3(5) by (auto simp: extents_map_def)
  have d0: "treeDepth (extents_btcb v) \<noteq> 0" using b(1) by (auto simp: btree_entries_def)
  have it': "it' = it" using 3(4) search_result_missing [OF 3(1,3,2) n] d0 by (auto simp: tree_ops_def)
  have "neighbour BTreeSearch.kBTreePrevRecord k ?es = Some (p, b)"
    using 3(7) by (intro neighbour_greatest [OF s b(1) 3(6)]) (simp add: extents_map_def)
  moreover have "extent_key_val (enc_key (it_key it)) = k" using 3(2,3) key_of_buffer(1) by (simp add: fresh_iter_def)
  ultimately show ?case
    using tree_iterate_prev [OF 3(1), of it] 3(3) b(2) unfolding it'
    by (auto simp: tree_ops_def fresh_iter_def key_of_def extent_key_def split: prod.splits)
next
  case (4 v k it it' d len)
  have n: "extents_map v k = None"
    using 4(1,3,4) search_result_found [of v it k] by (cases "extents_map v k") (auto simp: tree_ops_def)
  let ?es = "btree_entries extent_key_val (extents_btcb v) (extents_nodes v)"
  have m: "hint_nodeNum it' = 0" "0 \<le> k_keyLength (it_key it')" "k_keyLength (it_key it') \<le> 520" "treeDepth (extents_btcb v) \<noteq> 0 \<Longrightarrow> it' = it"
    using 4(4) search_result_missing [OF 4(1,3,2) n] by (auto simp: tree_ops_def)
  have "neighbour BTreeSearch.kBTreePrevRecord (extent_key_val (enc_key (it_key it'))) ?es = None"
  proof (cases "treeDepth (extents_btcb v) = 0")
    case True
    then show ?thesis by (simp add: btree_entries_def neighbour_cases)
  next
    case False
    then have "extent_key_val (enc_key (it_key it')) = k" using m(4) 4(2,3) key_of_buffer(1) by (simp add: fresh_iter_def)
    then show ?thesis using 4(5) by (intro neighbour_none) (simp add: extents_map_def)
  qed
  then show ?case using tree_iterate_prev [OF 4(1) m(1-3)] by (simp add: tree_ops_def)
next
  case (5 v)
  have "dom (extents_map v) = dom (map_of (btree_entries extent_key_val (extents_btcb v) (extents_nodes v)))"
    by (auto simp: extents_map_def dom_def)
  then show ?case by (simp add: finite_dom_map_of)
qed
section \<open>Properties\<close>

text \<open>A volume whose extents tree has one leaf with one record: file 20, data fork, file blocks 16 to 23.\<close>

definition ex_vol_bt :: BTreeControlBlock where
  "ex_vol_bt = ex_bt \<lparr> nodeSize := 128, treeDepth := 1, rootNode := 1, totalNodes := 4, firstLeafNode := 1, lastLeafNode := 1 \<rparr>"

definition ex_vol_leaf :: mem where
  "ex_vol_leaf = [0,0,0,0, 0,0,0,0, 255,1, 1,0, 0,0] @ [10,0, 0,0, 20,0,0,0, 16,0,0,0] @ [100,0,0,0, 4,0,0,0, 200,0,0,0, 4,0,0,0] @
     replicate 82 0 @ [90,0, 14,0]"

definition ex_vol :: volume where
  "ex_vol = \<lparr> vcbSigWord = kHFSPlusSigWord, blockSize = 4096, hfs_logical_block_size = 512, hfsPlusIOPosOffset = 0, vcbAlBlSt = 0,
     vcbClpSiz = 65536, freeBlocks = 1000, reserveBlocks = 0, loanedBlocks = 0, lockedBlocks = 0, nextAllocation = 0, hfs_flags = 0,
     hfs_metazone_start = 0, hfs_metazone_end = 0, hfs_header_dirty = False, extents_btcb = ex_vol_bt,
     extents_nodes = (\<lambda>n. if n = 1 then Inr ex_vol_leaf else Inl fsBTInvalidNodeErr) \<rparr>"

text \<open>The routines that change the volume, which the examples do not use.\<close>

definition ex_base :: "volume volume_ops" where
  "ex_base = \<lparr> BTSearchRecord = \<lambda>v it. (0, it, [], 0), BTIterateRecord = \<lambda>v operation it. (0, it, [], 0), BTInsertRecord = \<lambda>v it r n. (0, it, v),
     BTReplaceRecord = \<lambda>v it r n. (0, v), BTDeleteRecord = \<lambda>v it. (0, v), BTFlushPath = \<lambda>v. (0, v), extents_file_flag = \<lambda>v. 0,
     BlockAllocate = \<lambda>v s a b f. (0, s, a, v), BlockDeallocate = \<lambda>v s n f. (0, v), hfs_get_backing_free_blks = \<lambda>v. None,
     hfs_pin_block_range = \<lambda>v s n. (0, v), hfs_hotfile_adjust_blocks = \<lambda>v n. v \<rparr>"

definition ex_overflow :: HFSPlusExtentRecord where
  "ex_overflow = extent 100 4 # extent 200 4 # replicate 6 (extent 0 0)"

definition ex_fcb :: FCB where
  "ex_fcb = \<lparr> ff_size = 24 * 4096, ff_blocks = 24, ff_unallocblocks = 0, fcbExtents = map (\<lambda>i. extent (int i * 10) 2) [0..<8],
     FORK_IS_RSRC = False, c_fileid = 20, c_blocks = 24, c_flag = 0, c_touch_chgtime = False, ca_recflags = 0, c_vp = None \<rparr>"

lemma ex_vol_node: "GetNode ex_vol_bt (extents_nodes ex_vol) 1 = Inr ex_vol_leaf"
  by (simp add: GetNode_def ex_vol_def ex_vol_bt_def ex_bt_def)

lemma ex_vol_leaf_facts: "node_wf ex_vol_bt ex_vol_leaf" "rd_height ex_vol_leaf = Some 1" "rd_kind ex_vol_leaf = Some kBTLeafNode" "nrec ex_vol_leaf = Suc 0"
  "fixed_key_ok (key_at ex_vol_bt ex_vol_leaf 0)" "extent_key_val (key_at ex_vol_bt ex_vol_leaf 0) = (20, 0, 16)"
  "map_option dec_extents (data_of ex_vol_bt ex_vol_leaf 0) = Some ex_overflow" "map_option length (data_of ex_vol_bt ex_vol_leaf 0) = Some 64"
  "CalcKeySize ex_vol_bt ex_vol_leaf (roff ex_vol_bt ex_vol_leaf 0) = Some 12" "get8 (key_at ex_vol_bt ex_vol_leaf 0) 3 = 0"
  "rd_bLink ex_vol_leaf = Some 0" "rd_fLink ex_vol_leaf = Some 0" "bigKeys ex_vol_bt"
  by code_simp+

lemma ex_vol_tree:
  "tree_ok fixed_key_ok extent_key_val ex_vol_bt (extents_nodes ex_vol) (Suc 0) 1"
  "tree_leaves ex_vol_bt (extents_nodes ex_vol) (Suc 0) 1 = [1]"
  "tree_entries extent_key_val ex_vol_bt (extents_nodes ex_vol) (Suc 0) 1 = [((20, 0, 16), the (data_of ex_vol_bt ex_vol_leaf 0))]"
  using ex_vol_leaf_facts
  by (auto simp: tree_ok.simps(2) tree_leaves.simps(2) tree_entries_leaf [OF ex_vol_node] ex_vol_node keys_sorted_def)

lemma ex_vol_depth: "extents_btcb ex_vol = ex_vol_bt" "treeDepth ex_vol_bt = 1" "rootNode ex_vol_bt = 1"
  by (simp_all add: ex_vol_def ex_vol_bt_def)

lemma ex_vol_ok: "extents_ok ex_vol"
  using ex_vol_tree(1,2) ex_vol_leaf_facts ex_vol_node
  by (auto simp: extents_ok_def Let_def btree_ok_def btree_leaves_def ex_vol_depth ext_leaf_ok_def)

lemma ex_vol_map: "extents_map ex_vol = [(20, 0, 16) \<mapsto> ex_overflow]"
  using ex_vol_tree(3) ex_vol_leaf_facts(7)
  by (intro ext) (auto simp: extents_map_def btree_entries_def ex_vol_depth)

lemma ex_fork_extents: "active ex_overflow = [extent 100 4, extent 200 4]"
  "nblocks (active (fcbExtents ex_fcb)) = 16" "length (active (fcbExtents ex_fcb)) = 8" "fork_type ex_fcb = 0"
  "vblocks (fork_extents ex_fcb [ex_overflow]) = [0,1,10,11,20,21,30,31,40,41,50,51,60,61,70,71,100,101,102,103,200,201,202,203]"
  by code_simp+

lemma ex_fork_wf: "fork_wf (extents_map ex_vol) ex_fcb [ex_overflow]"
proof -
  have "record_ok (fcbExtents ex_fcb)" "record_ok ex_overflow" "nblocks (fork_extents ex_fcb [ex_overflow]) = 24" "c_fileid ex_fcb = 20" by code_simp+
  then show ?thesis by (simp add: fork_wf_def ex_fork_extents ex_vol_map)
qed

text \<open>C11: \<open>SearchExtentFile\<close> finds the extent of every position inside of a well-formed fork, in the control block or in the
  extents tree: the extent it names contains the block of the position, its blocks are at their places in the fork, and the key and
  the hint stand for the record the extent is in.\<close>

theorem SearchExtentFile_finds:
  assumes "extents_ok v" "fork_wf (extents_map v) fcb rs" "vcbSigWord v \<noteq> kHFSSigWord" "0 < blockSize v"
    "0 \<le> pos" "pos div blockSize v < int (length (vblocks (fork_extents fcb rs)))"
  shows "\<exists>sf. SearchExtentFile (tree_ops base) v fcb pos = (noErr, sf) \<and>
    search_hit (extents_map v) fcb (vblocks (fork_extents fcb rs)) (pos div blockSize v) sf"
  by (rule ext.SearchExtentFile_hit [OF assms])

lemma ex_vol_fields: "vcbSigWord ex_vol = kHFSPlusSigWord" "blockSize ex_vol = 4096" "hfs_logical_block_size ex_vol = 512" "hfsPlusIOPosOffset ex_vol = 0"
  by (simp_all add: ex_vol_def)

theorem SearchExtentFile_finds_witness:
  "\<exists>sf. SearchExtentFile (tree_ops ex_base) ex_vol ex_fcb (21 * 4096) = (noErr, sf) \<and>
     search_hit (extents_map ex_vol) ex_fcb (vblocks (fork_extents ex_fcb [ex_overflow])) 21 sf"
  using SearchExtentFile_finds [OF ex_vol_ok ex_fork_wf, of "21 * 4096" ex_base] by (simp add: ex_vol_fields ex_fork_extents)

text \<open>A position beyond a well-formed fork gives \<open>fxRangeErr\<close>, the number of blocks of the fork as the next block, and the last
  record of the fork with the index of its last extent in use, where an extension continues.\<close>

theorem SearchExtentFile_range:
  assumes "extents_ok v" "fork_wf (extents_map v) fcb rs" "vcbSigWord v \<noteq> kHFSSigWord" "0 < blockSize v"
    "0 \<le> pos" "int (length (vblocks (fork_extents fcb rs))) \<le> pos div blockSize v" "pos div blockSize v < 2 ^ 32"
  shows "\<exists>sf. SearchExtentFile (tree_ops base) v fcb pos = (fxRangeErr, sf) \<and> nextFABN sf = int (length (vblocks (fork_extents fcb rs))) \<and>
    foundIndex sf = int (length (active (foundData sf)) - 1) \<and> resident_key (extents_map v) fcb sf"
  by (rule ext.SearchExtentFile_beyond [OF assms])

theorem SearchExtentFile_range_witness:
  "\<exists>sf. SearchExtentFile (tree_ops ex_base) ex_vol ex_fcb (24 * 4096) = (fxRangeErr, sf) \<and> nextFABN sf = 24"
  using SearchExtentFile_range [OF ex_vol_ok ex_fork_wf, of "24 * 4096" ex_base] by (auto simp: ex_vol_fields ex_fork_extents)

text \<open>The place of a byte of a fork in the area of allocation blocks.\<close>

definition byte_of :: "volume \<Rightarrow> int list \<Rightarrow> int \<Rightarrow> int" where
  "byte_of v blocks offset = blocks ! nat (offset div blockSize v) * blockSize v + offset mod blockSize v"

lemma block_less_iff:
  assumes b: "0 < (bs :: int)"
  shows "x div bs < n \<longleftrightarrow> x < n * bs"
proof
  { assume "x div bs < n"
    then have "(x div bs + 1) * bs \<le> n * bs" using b by (intro mult_right_mono) auto
    then show "x < n * bs" using div_mult_mod_eq [of x bs] pos_mod_bound [OF b, of x] unfolding distrib_right by linarith }
  { assume "x < n * bs"
    then show "x div bs < n" using b mult_right_mono [of n "x div bs" bs] div_mult_mod_eq [of x bs] pos_mod_sign [OF b, of x] by linarith }
qed

lemma byte_of_contiguous:
  assumes "search_hit t fcb blocks (offset div blockSize v) sf" "0 < blockSize v" "0 \<le> d" "offset + d < nextFABN sf * blockSize v"
  shows "byte_of v blocks (offset + d) = byte_of v blocks offset + d"
proof -
  define e where "e = foundData sf ! nat (foundIndex sf)"
  define bs where "bs = blockSize v"
  note h = search_hitD [OF assms(1) e_def refl]
  have b: "0 < bs" using assms(2) by (simp add: bs_def)
  have o: "offset div bs \<le> (offset + d) div bs" using assms(3) b by (intro zdiv_mono1) auto
  have n: "(offset + d) div bs < nextFABN sf" using assms(4) b by (simp add: block_less_iff bs_def)
  define first where "first = nextFABN sf - blockCount e"
  have v: "byte_of v blocks x = (startBlock e - first) * bs + x" if "offset div bs \<le> x div bs" "x div bs < nextFABN sf" for x
    using h(5) [of "x div bs"] h(2) that div_mult_mod_eq [of x bs] unfolding byte_of_def bs_def [symmetric] first_def [symmetric]
    by (simp add: distrib_right left_diff_distrib bs_def [symmetric])
  show ?thesis using v [of offset] v [of "offset + d"] o n h(3) by (simp add: bs_def)
qed

lemma sector_of_byte:
  assumes "0 < hfs_logical_block_size v" "hfs_logical_block_size v dvd blockSize v"
  shows "sector_of v blocks offset = byte_of v blocks offset div hfs_logical_block_size v + hfsPlusIOPosOffset v div hfs_logical_block_size v"
proof -
  obtain q where q: "blockSize v = hfs_logical_block_size v * q" using assms(2) by blast
  define b where "b = blocks ! nat (offset div blockSize v)"
  have "(b * blockSize v + offset mod blockSize v) div hfs_logical_block_size v =
      (offset mod blockSize v + hfs_logical_block_size v * (b * q)) div hfs_logical_block_size v"
    unfolding q by (simp add: algebra_simps)
  then show ?thesis using assms(1) by (simp add: sector_of_def byte_of_def b_def [symmetric]) (simp add: q)
qed

text \<open>C5: \<open>MapFileBlockC\<close> maps every position inside of a well-formed fork to its sector, and the number of bytes that it reports as
  available is positive, at most the number asked for, and all of these bytes are contiguous on the volume.  No computation overflows
  as long as the block size is less than 512 MB.\<close>

theorem MapFileBlockC_correct:
  assumes "extents_ok v" "fork_wf (extents_map v) fcb rs" "geometry_ok v" "set (vblocks (fork_extents fcb rs)) \<subseteq> {0..<2 ^ 32}"
    "0 \<le> ff_blocks fcb" "ff_blocks fcb \<le> int (length (vblocks (fork_extents fcb rs)))"
    "0 \<le> offset" "offset < ff_blocks fcb * blockSize v" "0 < numberOfBytes" "numberOfBytes < 2 ^ 63"
  shows "\<exists>n. MapFileBlockC (tree_ops base) v fcb numberOfBytes offset True =
      (noErr, Some (byte_of v (vblocks (fork_extents fcb rs)) offset div hfs_logical_block_size v +
        hfsPlusIOPosOffset v div hfs_logical_block_size v), Some n) \<and>
    0 < n \<and> n \<le> numberOfBytes \<and> offset + n \<le> ff_blocks fcb * blockSize v \<and>
    (\<forall>d. 0 \<le> d \<and> d < n \<longrightarrow> byte_of v (vblocks (fork_extents fcb rs)) (offset + d) = byte_of v (vblocks (fork_extents fcb rs)) offset + d)"
proof -
  define blocks where "blocks = vblocks (fork_extents fcb rs)"
  have g: "0 < blockSize v" "vcbSigWord v \<noteq> kHFSSigWord" "0 < hfs_logical_block_size v" "hfs_logical_block_size v dvd blockSize v"
    using assms(3) by (auto simp: geometry_ok_def)
  have l: "int (length blocks) < 2 ^ 32" using fork_wfD(3,6) [OF assms(2)] by (simp add: blocks_def)
  have o: "offset div blockSize v < int (length blocks)"
    using order_less_le_trans [OF assms(8) mult_right_mono [OF assms(6), of "blockSize v"]] g(1) by (simp add: block_less_iff blocks_def)
  obtain sf where sf: "SearchExtentFile (tree_ops base) v fcb offset = (noErr, sf)" "search_hit (extents_map v) fcb blocks (offset div blockSize v) sf"
    using ext.SearchExtentFile_hit [OF assms(1,2) g(2,1) assms(7) o [unfolded blocks_def]] unfolding blocks_def by blast
  define n where "n = min numberOfBytes (min (ff_blocks fcb * blockSize v) (nextFABN sf * blockSize v) - offset)"
  have run: "MapFileBlockC (tree_ops base) v fcb numberOfBytes offset True = (noErr, Some (sector_of v blocks offset), Some n)"
    unfolding n_def using assms l by (intro MapFileBlockC_run [OF assms(3) sf]) (auto simp: blocks_def)
  have e: "offset < nextFABN sf * blockSize v" using search_hitD(3) [OF sf(2) refl refl] g(1) by (simp add: block_less_iff)
  have n: "0 < n" "n \<le> numberOfBytes" "offset + n \<le> ff_blocks fcb * blockSize v" "offset + n \<le> nextFABN sf * blockSize v"
    using assms(8,9) e by (auto simp: n_def)
  have c: "byte_of v blocks (offset + d) = byte_of v blocks offset + d" if "0 \<le> d" "d < n" for d
    using that n(4) by (intro byte_of_contiguous [OF sf(2) g(1)]) auto
  show ?thesis unfolding blocks_def [symmetric] run using n c sector_of_byte [OF g(3,4), of blocks offset] by auto
qed

lemma ex_fcb_blocks: "ff_blocks ex_fcb = 24"
  by (simp add: ex_fcb_def)

theorem MapFileBlockC_correct_witness:
  "\<exists>n. MapFileBlockC (tree_ops ex_base) ex_vol ex_fcb 100000 (21 * 4096 + 512) True = (noErr, Some (201 * 8 + 1), Some n) \<and> 0 < n \<and> n \<le> 100000"
proof -
  have g: "geometry_ok ex_vol" by (simp add: geometry_ok_def ex_vol_fields)
  have "vblocks (fork_extents ex_fcb [ex_overflow]) ! 21 = 201" by (simp add: ex_fork_extents)
  then have "byte_of ex_vol (vblocks (fork_extents ex_fcb [ex_overflow])) 86528 = 201 * 4096 + 512" by (simp add: byte_of_def ex_vol_fields)
  with MapFileBlockC_correct [OF ex_vol_ok ex_fork_wf g, of "21 * 4096 + 512" 100000 ex_base] show ?thesis
    by (auto simp: ex_vol_fields ex_fork_extents ex_fcb_blocks)
qed





end
