(* ===== verification/BTreeHeader.thy ===== *)
theory BTreeHeader
  imports BTreeSearch
begin

text \<open>
  The header record of a tree: \<open>UpdateHeader\<close> of \<open>src/kmod/core/BTreeMiscOps.c\<close> writes the control block to the header
  node, \<open>BTReloadData\<close> of \<open>src/kmod/core/BTree.c\<close> reads it back after its checks.
\<close>

section \<open>Reading and writing\<close>

text \<open>Writes the control block to the header record, whose fields follow the node descriptor.\<close>

definition write_header :: "BTreeControlBlock \<Rightarrow> mem \<Rightarrow> mem option" where
  "write_header btreePtr node = do {
     n \<leftarrow> wr16 node 14 (treeDepth btreePtr);
     n \<leftarrow> wr32 n 16 (rootNode btreePtr);
     n \<leftarrow> wr32 n 20 (leafRecords btreePtr);
     n \<leftarrow> wr32 n 24 (firstLeafNode btreePtr);
     n \<leftarrow> wr32 n 28 (lastLeafNode btreePtr);
     n \<leftarrow> wr16 n 32 (nodeSize btreePtr);
     n \<leftarrow> wr16 n 34 (maxKeyLength btreePtr);
     n \<leftarrow> wr32 n 36 (totalNodes btreePtr);
     n \<leftarrow> wr32 n 40 (freeNodes btreePtr);
     wr8 n 50 (btreeType btreePtr) }"

text \<open>\<open>put\<close> hands the changed node to the block layer.  The result: the error, the control block and the state of the block layer.\<close>

definition UpdateHeader :: "BTreeControlBlock \<Rightarrow> get_block \<Rightarrow> (mem \<Rightarrow> bool \<Rightarrow> bt_err option \<times> 's) \<Rightarrow> 's \<Rightarrow> bool \<Rightarrow>
    (bt_err option \<times> BTreeControlBlock \<times> 's) option" where
  "UpdateHeader btreePtr getNodeProc put s forceWrite =
     (if flags btreePtr AND kBTHeaderDirty = 0 then Some (None, btreePtr, s)
      else case GetNode btreePtr getNodeProc 0 of
        Inl err \<Rightarrow> Some (Some err, btreePtr, s)
      | Inr node \<Rightarrow> do {
          node1 \<leftarrow> write_header btreePtr node;
          let (err, s1) = put node1 forceWrite;
          Some (err, btreePtr \<lparr> flags := flags btreePtr AND NOT kBTHeaderDirty \<rparr>, s1) })"

definition read_header :: "mem \<Rightarrow> BTHeaderRec option" where
  "read_header node = do {
     depth \<leftarrow> rd16 node 14; root \<leftarrow> rd32 node 16; recs \<leftarrow> rd32 node 20; fst_leaf \<leftarrow> rd32 node 24; last_leaf \<leftarrow> rd32 node 28;
     size \<leftarrow> rd16 node 32; maxKey \<leftarrow> rd16 node 34; total \<leftarrow> rd32 node 36; free \<leftarrow> rd32 node 40; res1 \<leftarrow> rd16 node 44;
     clump \<leftarrow> rd32 node 46; typ \<leftarrow> rd8 node 50; cmpType \<leftarrow> rd8 node 51; attrs \<leftarrow> rd32 node 52; res3 \<leftarrow> rdn node 56 64;
     Some \<lparr> h_treeDepth = depth, h_rootNode = root, h_leafRecords = recs, h_firstLeafNode = fst_leaf, h_lastLeafNode = last_leaf,
       h_nodeSize = size, h_maxKeyLength = maxKey, h_totalNodes = total, h_freeNodes = free, h_reserved1 = res1, h_clumpSize = clump,
       h_btreeType = typ, h_keyCompareType = cmpType, h_attributes = attrs,
       h_reserved3 = map (\<lambda>i. get32 res3 (4 * int i)) [0..<16] \<rparr> }"

definition BTReloadData :: "int \<Rightarrow> BTreeControlBlock option \<Rightarrow> get_block \<Rightarrow> (bt_err option \<times> BTreeControlBlock option) option" where
  "BTReloadData fcbEOF fcbBTCBPtr getNodeProc =
     (case fcbBTCBPtr of None \<Rightarrow> Some (Some fsBTInvalidFileErr, None)
      | Some btreePtr \<Rightarrow>
        (case GetNode btreePtr getNodeProc 0 of
           Inl err \<Rightarrow> Some (Some err, Some btreePtr)
         | Inr node \<Rightarrow> do {
             header \<leftarrow> read_header node;
             case VerifyHeader fcbEOF header of
               Some err \<Rightarrow> Some (Some err, Some btreePtr)
             | None \<Rightarrow> Some (None, Some (btreePtr \<lparr> treeDepth := h_treeDepth header, rootNode := h_rootNode header,
                 leafRecords := h_leafRecords header, firstLeafNode := h_firstLeafNode header, lastLeafNode := h_lastLeafNode header,
                 maxKeyLength := h_maxKeyLength header, totalNodes := h_totalNodes header, freeNodes := h_freeNodes header,
                 btreeType := h_btreeType header, flags := flags btreePtr AND NOT kBTHeaderDirty \<rparr>)) }))"
section \<open>The header record\<close>

text \<open>The fields of the control block that the header record holds, in their ranges.\<close>

definition header_fits :: "BTreeControlBlock \<Rightarrow> bool" where
  "header_fits bt \<longleftrightarrow> treeDepth bt \<in> {0..<2 ^ 16} \<and> rootNode bt \<in> {0..<2 ^ 32} \<and> leafRecords bt \<in> {0..<2 ^ 32} \<and>
     firstLeafNode bt \<in> {0..<2 ^ 32} \<and> lastLeafNode bt \<in> {0..<2 ^ 32} \<and> nodeSize bt \<in> {0..<2 ^ 16} \<and> maxKeyLength bt \<in> {0..<2 ^ 16} \<and>
     totalNodes bt \<in> {0..<2 ^ 32} \<and> freeNodes bt \<in> {0..<2 ^ 32} \<and> btreeType bt \<in> {0..<2 ^ 8}"

lemma get8_splice_same: "in_mem m a 1 \<Longrightarrow> get8 (put_bytes m a [word_of_int v]) a = u8 v"
  by (simp add: get_defs slice_splice_same u8_def uint_word_of_int)

lemma write_header_run:
  assumes "in_mem node 0 51"
  shows "write_header bt node = Some (put_bytes (put_bytes (put_bytes (put_bytes (put_bytes (put_bytes (put_bytes (put_bytes (put_bytes (put_bytes node
    14 (le_bytes 2 (treeDepth bt))) 16 (le_bytes 4 (rootNode bt))) 20 (le_bytes 4 (leafRecords bt))) 24 (le_bytes 4 (firstLeafNode bt)))
    28 (le_bytes 4 (lastLeafNode bt))) 32 (le_bytes 2 (nodeSize bt))) 34 (le_bytes 2 (maxKeyLength bt))) 36 (le_bytes 4 (totalNodes bt)))
    40 (le_bytes 4 (freeNodes bt))) 50 (le_bytes 1 (btreeType bt)))"
proof -
  have m: "in_mem node a n" if "0 \<le> a" "0 \<le> n" "a + n \<le> 51" for a n using that assms by (rule_tac in_mem_mono) auto
  show ?thesis by (simp add: write_header_def wr_in m)
qed

lemma write_header_fields:
  assumes "header_fits bt" "in_mem node 0 120"
  obtains node' where "write_header bt node = Some node'" "length node' = length node" "get16 node' 14 = treeDepth bt" "get32 node' 16 = rootNode bt"
    "get32 node' 20 = leafRecords bt" "get32 node' 24 = firstLeafNode bt" "get32 node' 28 = lastLeafNode bt" "get16 node' 32 = nodeSize bt"
    "get16 node' 34 = maxKeyLength bt" "get32 node' 36 = totalNodes bt" "get32 node' 40 = freeNodes bt" "get8 node' 50 = btreeType bt"
    "get16 node' 44 = get16 node 44" "get32 node' 46 = get32 node 46" "get8 node' 51 = get8 node 51" "get32 node' 52 = get32 node 52"
    "bytes_at node' 56 64 = bytes_at node 56 64"
proof -
  have m: "in_mem node a n" if "0 \<le> a" "0 \<le> n" "a + n \<le> 120" for a n using that assms(2) by (rule_tac in_mem_mono) auto
  note w = write_header_run [OF m [of 0 51], of bt, simplified]
  note s = m get_splice_same get8_splice_same get_splice_disjoint slice_splice_disjoint
  have f: "0 \<le> treeDepth bt" "treeDepth bt < 65536" "0 \<le> rootNode bt" "rootNode bt < 4294967296" "0 \<le> leafRecords bt" "leafRecords bt < 4294967296"
    "0 \<le> firstLeafNode bt" "firstLeafNode bt < 4294967296" "0 \<le> lastLeafNode bt" "lastLeafNode bt < 4294967296" "0 \<le> nodeSize bt" "nodeSize bt < 65536"
    "0 \<le> maxKeyLength bt" "maxKeyLength bt < 65536" "0 \<le> totalNodes bt" "totalNodes bt < 4294967296" "0 \<le> freeNodes bt" "freeNodes bt < 4294967296"
    "0 \<le> btreeType bt" "btreeType bt < 256"
    using assms(1) by (simp_all add: header_fits_def)
  show thesis by (rule that [OF w]) (simp_all add: s f)
qed

text \<open>The header record that holds the control block; the fields that the control block does not have come from the node.\<close>

definition header_of :: "BTreeControlBlock \<Rightarrow> mem \<Rightarrow> BTHeaderRec" where
  "header_of bt node = \<lparr> h_treeDepth = treeDepth bt, h_rootNode = rootNode bt, h_leafRecords = leafRecords bt,
     h_firstLeafNode = firstLeafNode bt, h_lastLeafNode = lastLeafNode bt, h_nodeSize = nodeSize bt, h_maxKeyLength = maxKeyLength bt,
     h_totalNodes = totalNodes bt, h_freeNodes = freeNodes bt, h_reserved1 = get16 node 44, h_clumpSize = get32 node 46,
     h_btreeType = btreeType bt, h_keyCompareType = get8 node 51, h_attributes = get32 node 52,
     h_reserved3 = map (\<lambda>i. get32 (bytes_at node 56 64) (4 * int i)) [0..<16] \<rparr>"

lemma write_read_header:
  assumes "header_fits bt" "in_mem node 0 120"
  obtains node' where "write_header bt node = Some node'" "length node' = length node" "read_header node' = Some (header_of bt node)"
proof -
  from write_header_fields [OF assms] obtain node' where w: "write_header bt node = Some node'" "length node' = length node"
    "get16 node' 14 = treeDepth bt" "get32 node' 16 = rootNode bt"
    "get32 node' 20 = leafRecords bt" "get32 node' 24 = firstLeafNode bt" "get32 node' 28 = lastLeafNode bt" "get16 node' 32 = nodeSize bt"
    "get16 node' 34 = maxKeyLength bt" "get32 node' 36 = totalNodes bt" "get32 node' 40 = freeNodes bt" "get8 node' 50 = btreeType bt"
    "get16 node' 44 = get16 node 44" "get32 node' 46 = get32 node 46" "get8 node' 51 = get8 node 51" "get32 node' 52 = get32 node 52"
    "bytes_at node' 56 64 = bytes_at node 56 64" .
  have m: "in_mem node' a n" if "0 \<le> a" "0 \<le> n" "a + n \<le> 120" for a n using that assms(2) w(2) by (simp add: in_mem_def)
  have "read_header node' = Some (header_of bt node)" by (simp add: read_header_def rd_in rdn_in m w header_of_def)
  then show thesis using that w(1,2) by blast
qed

section \<open>Properties\<close>

text \<open>C29: Writing the header of a tree and reading it back restores the control block: \<open>UpdateHeader\<close> on a dirty control block stores
  one header node, clears the dirty flag and changes nothing else of the control block; \<open>BTReloadData\<close> on that node sets the
  ten fields of any stale control block to the values written when \<open>VerifyHeader\<close> accepts them, and otherwise returns its error
  and leaves the control block alone.\<close>

theorem header_roundtrip:
  assumes "flags bt AND kBTHeaderDirty \<noteq> 0" "header_fits bt" "0 < totalNodes bt" "get 0 = Inr node" "in_mem node 0 120" "0 < totalNodes old"
  shows "\<exists>node'. UpdateHeader bt get put s force =
      Some (fst (put node' force), bt \<lparr> flags := flags bt AND NOT kBTHeaderDirty \<rparr>, snd (put node' force)) \<and>
    BTReloadData eof (Some old) (get(0 := Inr node')) =
      (case VerifyHeader eof (header_of bt node) of
         Some err \<Rightarrow> Some (Some err, Some old)
       | None \<Rightarrow> Some (None, Some (old \<lparr> treeDepth := treeDepth bt, rootNode := rootNode bt, leafRecords := leafRecords bt,
           firstLeafNode := firstLeafNode bt, lastLeafNode := lastLeafNode bt, maxKeyLength := maxKeyLength bt, totalNodes := totalNodes bt,
           freeNodes := freeNodes bt, btreeType := btreeType bt, flags := flags old AND NOT kBTHeaderDirty \<rparr>)))"
proof -
  obtain node' where w: "write_header bt node = Some node'" "length node' = length node" "read_header node' = Some (header_of bt node)"
    by (rule write_read_header [OF assms(2,5)])
  have "UpdateHeader bt get put s force = Some (fst (put node' force), bt \<lparr> flags := flags bt AND NOT kBTHeaderDirty \<rparr>, snd (put node' force))"
    using assms(1,3,4) w(1) by (simp add: UpdateHeader_def GetNode_def split: prod.splits)
  moreover have "BTReloadData eof (Some old) (get(0 := Inr node')) =
      (case VerifyHeader eof (header_of bt node) of
         Some err \<Rightarrow> Some (Some err, Some old)
       | None \<Rightarrow> Some (None, Some (old \<lparr> treeDepth := treeDepth bt, rootNode := rootNode bt, leafRecords := leafRecords bt,
           firstLeafNode := firstLeafNode bt, lastLeafNode := lastLeafNode bt, maxKeyLength := maxKeyLength bt, totalNodes := totalNodes bt,
           freeNodes := freeNodes bt, btreeType := btreeType bt, flags := flags old AND NOT kBTHeaderDirty \<rparr>)))"
    using assms(6) w(3) by (cases "VerifyHeader eof (header_of bt node)") (simp_all add: BTReloadData_def GetNode_def, simp add: header_of_def)
  ultimately show ?thesis by blast
qed

theorem header_roundtrip_witness:
  "\<exists>node'. UpdateHeader (ex_bt \<lparr> flags := 1 \<rparr>) (\<lambda>n. Inr (replicate 128 0)) (\<lambda>node w. (None, node)) [] True =
     Some (None, ex_bt \<lparr> flags := 0 \<rparr>, node')"
proof -
  have "flags (ex_bt \<lparr> flags := 1 \<rparr>) AND kBTHeaderDirty \<noteq> 0" "header_fits (ex_bt \<lparr> flags := 1 \<rparr>)" "0 < totalNodes (ex_bt \<lparr> flags := 1 \<rparr>)"
    "in_mem (replicate 128 0) 0 120" "0 < totalNodes ex_bt"
    by (simp_all add: ex_bt_def header_fits_def in_mem_def)
  from header_roundtrip [OF this(1-3) refl this(4,5), of "\<lambda>node w. (None, node)" "[]" True 4096] show ?thesis by auto
qed


end
