(* ===== verification/NodeReserve.thy ===== *)
theory NodeReserve
  imports C_Memory
begin

text \<open>
  The reserves of B-tree nodes that threads hold: \<open>src/kmod/core/BTreeNodeReserve.c\<close>.

  A reserve is a structure that the caller provides (a \<open>cat_cookie_t\<close>) and that is linked into a hash table while it is
  in use.  The structures are kept in a memory from cookies to their contents; a chain of the hash table is the list of
  its cookies.  Vnodes and threads are their addresses; 0 is nil.
\<close>

section \<open>The hash table\<close>

record nreserve =
  nr_nodecnt :: int
  nr_newnodes :: int
  nr_btvp :: int
  nr_tag :: int

type_synonym cookie = nat

record reserve_state =
  nr_mem :: "cookie \<Rightarrow> nreserve"
  nr_hashtbl :: "int \<Rightarrow> cookie list"
  nr_hashmask :: int
  nrinserts :: int
  nrdeletes :: int

definition NR_HASH :: "reserve_state \<Rightarrow> int \<Rightarrow> int \<Rightarrow> int" where
  "NR_HASH st btvp tag = (drop_bit 8 btvp XOR drop_bit 4 tag) AND nr_hashmask st"

text \<open>The loop over a chain.\<close>

definition nr_find :: "reserve_state \<Rightarrow> int \<Rightarrow> int \<Rightarrow> cookie option" where
  "nr_find st btvp tag =
     find (\<lambda>c. nr_tag (nr_mem st c) = tag \<and> nr_btvp (nr_mem st c) = btvp) (nr_hashtbl st (NR_HASH st btvp tag))"

definition nr_insert :: "int \<Rightarrow> reserve_state \<Rightarrow> int \<Rightarrow> cookie \<Rightarrow> int \<Rightarrow> reserve_state" where
  "nr_insert tag st btvp nrp nodecnt =
     (case nr_find st btvp tag of
        Some tmp \<Rightarrow>
          let m = (nr_mem st)(nrp := (nr_mem st nrp) \<lparr> nr_tag := 0 \<rparr>)
          in st \<lparr> nr_mem := m(tmp := (m tmp) \<lparr> nr_nodecnt := s32 (nr_nodecnt (m tmp) + nodecnt) \<rparr>) \<rparr>
      | None \<Rightarrow>
          let h = NR_HASH st btvp tag
          in st \<lparr> nr_mem := (nr_mem st)(nrp := \<lparr> nr_nodecnt = nodecnt, nr_newnodes = 0, nr_btvp = btvp, nr_tag = tag \<rparr>),
                  nr_hashtbl := (nr_hashtbl st)(h := nrp # nr_hashtbl st h), nrinserts := s32 (nrinserts st + 1) \<rparr>)"

text \<open>The number of nodes and the new state; \<^term>\<open>None\<close> is the panic for a reserve of another thread or tree.\<close>

definition nr_delete :: "int \<Rightarrow> reserve_state \<Rightarrow> int \<Rightarrow> cookie \<Rightarrow> (int \<times> reserve_state) option" where
  "nr_delete tag st btvp nrp =
     (let r = nr_mem st nrp in
      if nr_tag r \<noteq> 0 then
        if nr_tag r \<noteq> tag \<or> nr_btvp r \<noteq> btvp then None
        else let h = NR_HASH st (nr_btvp r) (nr_tag r) in
          Some (nr_nodecnt r,
            st \<lparr> nr_mem := (nr_mem st)(nrp := \<lparr> nr_nodecnt = 0, nr_newnodes = 0, nr_btvp = 0, nr_tag = 0 \<rparr>),
                 nr_hashtbl := (nr_hashtbl st)(h := remove1 nrp (nr_hashtbl st h)), nrdeletes := s32 (nrdeletes st + 1) \<rparr>)
      else Some (0, st))"

definition nr_update :: "int \<Rightarrow> reserve_state \<Rightarrow> int \<Rightarrow> int \<Rightarrow> reserve_state" where
  "nr_update tag st btvp nodecnt =
     (case nr_find st btvp tag of
        None \<Rightarrow> st
      | Some c \<Rightarrow> st \<lparr> nr_mem := (nr_mem st)(c := (nr_mem st c) \<lparr> nr_newnodes := s32 (nr_newnodes (nr_mem st c) + nodecnt) \<rparr>) \<rparr>)"

definition BTUpdateReserve :: "int \<Rightarrow> reserve_state \<Rightarrow> int \<Rightarrow> int \<Rightarrow> reserve_state" where
  "BTUpdateReserve tag st fileRefNum nodes = nr_update tag st fileRefNum nodes"

text \<open>\<open>BTReleaseReserve\<close>: the counter \<open>reservedNodes\<close> of the tree and the table.\<close>

definition BTReleaseReserve :: "int \<Rightarrow> reserve_state \<Rightarrow> int \<Rightarrow> int \<Rightarrow> cookie \<Rightarrow> (int \<times> reserve_state) option" where
  "BTReleaseReserve tag st fileRefNum reserved nrp =
     map_option (\<lambda>(nodecnt, st1). (if nodecnt \<noteq> 0 then u32 (reserved - nodecnt) else reserved, st1)) (nr_delete tag st fileRefNum nrp)"

text \<open>The part of \<open>BTReserveSpace\<close> that saves a persistent request of \<open>rsrvNodes\<close> nodes.\<close>

definition save_reserve :: "int \<Rightarrow> reserve_state \<Rightarrow> int \<Rightarrow> int \<Rightarrow> cookie \<Rightarrow> int \<Rightarrow> int \<times> reserve_state" where
  "save_reserve tag st fileRefNum reserved nrp rsrvNodes =
     (u32 (reserved + rsrvNodes), nr_insert tag st fileRefNum nrp rsrvNodes)"

section \<open>Invariant\<close>

text \<open>The chains hold exactly the reserves in use, each in the chain of its hash and at most one per thread and tree.\<close>

definition nr_cookies :: "reserve_state \<Rightarrow> cookie set" where
  "nr_cookies st = {c. nr_tag (nr_mem st c) \<noteq> 0}"

definition cookie_hash :: "reserve_state \<Rightarrow> cookie \<Rightarrow> int" where
  "cookie_hash st c = NR_HASH st (nr_btvp (nr_mem st c)) (nr_tag (nr_mem st c))"

definition nr_ok :: "reserve_state \<Rightarrow> bool" where
  "nr_ok st \<longleftrightarrow> finite (nr_cookies st) \<and> (\<forall>h. distinct (nr_hashtbl st h)) \<and>
     (\<forall>h c. c \<in> set (nr_hashtbl st h) \<longleftrightarrow> c \<in> nr_cookies st \<and> cookie_hash st c = h) \<and>
     (\<forall>c\<in>nr_cookies st. \<forall>d\<in>nr_cookies st. nr_tag (nr_mem st c) = nr_tag (nr_mem st d) \<longrightarrow> nr_btvp (nr_mem st c) = nr_btvp (nr_mem st d) \<longrightarrow> c = d)"

text \<open>The nodes that all threads together hold of a tree.\<close>

definition nr_total :: "reserve_state \<Rightarrow> int \<Rightarrow> int" where
  "nr_total st btvp = (\<Sum>c \<in> {c \<in> nr_cookies st. nr_btvp (nr_mem st c) = btvp}. nr_nodecnt (nr_mem st c))"

lemma nr_find_Some:
  assumes "nr_ok st" "tag \<noteq> 0"
  shows "nr_find st btvp tag = Some c \<longleftrightarrow> c \<in> nr_cookies st \<and> nr_tag (nr_mem st c) = tag \<and> nr_btvp (nr_mem st c) = btvp"
proof
  assume "nr_find st btvp tag = Some c"
  then show "c \<in> nr_cookies st \<and> nr_tag (nr_mem st c) = tag \<and> nr_btvp (nr_mem st c) = btvp"
    using assms(2) by (auto simp: nr_find_def find_Some_iff nr_cookies_def)
next
  let ?P = "\<lambda>c. nr_tag (nr_mem st c) = tag \<and> nr_btvp (nr_mem st c) = btvp"
  assume c: "c \<in> nr_cookies st \<and> ?P c"
  then have "c \<in> set (nr_hashtbl st (NR_HASH st btvp tag))" using assms(1) by (auto simp: nr_ok_def cookie_hash_def)
  with c obtain d where d: "nr_find st btvp tag = Some d" by (cases "nr_find st btvp tag") (auto simp: nr_find_def find_None_iff)
  then have "?P d" "d \<in> nr_cookies st" using assms(2) by (auto simp: nr_find_def find_Some_iff nr_cookies_def)
  then have "c = d" using c assms(1) by (metis nr_ok_def)
  then show "nr_find st btvp tag = Some c" using d by simp
qed

lemma nr_find_None:
  assumes "nr_ok st" "tag \<noteq> 0"
  shows "nr_find st btvp tag = None \<longleftrightarrow> (\<forall>c\<in>nr_cookies st. \<not> (nr_tag (nr_mem st c) = tag \<and> nr_btvp (nr_mem st c) = btvp))"
  using nr_find_Some [OF assms, of btvp] by (cases "nr_find st btvp tag") auto
section \<open>The operations keep the invariant\<close>

lemma nr_ok_unique:
  "nr_ok st \<Longrightarrow> c \<in> nr_cookies st \<Longrightarrow> d \<in> nr_cookies st \<Longrightarrow> nr_tag (nr_mem st c) = nr_tag (nr_mem st d) \<Longrightarrow>
     nr_btvp (nr_mem st c) = nr_btvp (nr_mem st d) \<Longrightarrow> c = d"
  by (metis nr_ok_def)

lemma nr_ok_chain: "nr_ok st \<Longrightarrow> c \<in> set (nr_hashtbl st h) \<longleftrightarrow> c \<in> nr_cookies st \<and> cookie_hash st c = h"
  by (simp add: nr_ok_def)

lemma nr_ok_finite: "nr_ok st \<Longrightarrow> finite (nr_cookies st)"
  by (simp add: nr_ok_def)

text \<open>Changing the count of one reserve.\<close>

lemma nr_total_change:
  assumes "nr_ok st" "c \<in> nr_cookies st" "nr_mem st' = (nr_mem st)(c := (nr_mem st c) \<lparr> nr_nodecnt := n \<rparr>)"
  shows "nr_cookies st' = nr_cookies st"
    "nr_total st' b = nr_total st b + (if b = nr_btvp (nr_mem st c) then n - nr_nodecnt (nr_mem st c) else 0)"
proof -
  show k: "nr_cookies st' = nr_cookies st" using assms(2,3) by (auto simp: nr_cookies_def)
  have s: "{d \<in> nr_cookies st'. nr_btvp (nr_mem st' d) = b} = {d \<in> nr_cookies st. nr_btvp (nr_mem st d) = b}" unfolding k using assms(3) by auto
  let ?S = "{d \<in> nr_cookies st. nr_btvp (nr_mem st d) = b}"
  have fin: "finite ?S" using nr_ok_finite [OF assms(1)] by simp
  show "nr_total st' b = nr_total st b + (if b = nr_btvp (nr_mem st c) then n - nr_nodecnt (nr_mem st c) else 0)"
  proof (cases "b = nr_btvp (nr_mem st c)")
    case True
    then have c: "c \<in> ?S" using assms(2) by simp
    have r: "(\<Sum>d\<in>?S - {c}. nr_nodecnt (nr_mem st' d)) = (\<Sum>d\<in>?S - {c}. nr_nodecnt (nr_mem st d))" using assms(3) by (intro sum.cong) auto
    have "nr_nodecnt (nr_mem st' c) = n" using assms(3) by simp
    then show ?thesis unfolding nr_total_def s sum.remove [OF fin c] r using True by simp
  next
    case False
    then have "(\<Sum>d\<in>?S. nr_nodecnt (nr_mem st' d)) = (\<Sum>d\<in>?S. nr_nodecnt (nr_mem st d))" using assms(3) by (intro sum.cong) auto
    then show ?thesis unfolding nr_total_def s using False by simp
  qed
qed

lemma nr_ok_same_keys:
  assumes "nr_ok st" "\<And>c. nr_tag (nr_mem st' c) = nr_tag (nr_mem st c)" "\<And>c. nr_btvp (nr_mem st' c) = nr_btvp (nr_mem st c)"
    "nr_hashtbl st' = nr_hashtbl st" "nr_hashmask st' = nr_hashmask st"
  shows "nr_ok st'"
proof -
  have "nr_cookies st' = nr_cookies st" by (simp add: nr_cookies_def assms(2))
  moreover have "cookie_hash st' c = cookie_hash st c" for c by (simp add: cookie_hash_def NR_HASH_def assms)
  ultimately show ?thesis using assms(1) by (simp add: nr_ok_def assms(2-4))
qed

lemma nr_insert_merge:
  assumes ok: "nr_ok st" and new: "nrp \<notin> nr_cookies st" and tag: "tag \<noteq> 0" and f: "nr_find st btvp tag = Some c"
    and n: "nr_nodecnt (nr_mem st c) + n < 2 ^ 31" "0 \<le> nr_nodecnt (nr_mem st c)" "0 \<le> n"
  shows "nr_ok (nr_insert tag st btvp nrp n)" "nr_cookies (nr_insert tag st btvp nrp n) = nr_cookies st"
    "nr_total (nr_insert tag st btvp nrp n) b = nr_total st b + (if b = btvp then n else 0)"
proof -
  have c: "c \<in> nr_cookies st" "nr_tag (nr_mem st c) = tag" "nr_btvp (nr_mem st c) = btvp" using f nr_find_Some [OF ok tag] by auto
  have t: "nr_tag (nr_mem st nrp) = 0" "nrp \<noteq> c" using new c(1) by (auto simp: nr_cookies_def)
  have z: "(nr_mem st nrp) \<lparr> nr_tag := 0 \<rparr> = nr_mem st nrp" using t(1) by (cases "nr_mem st nrp") simp
  have m: "nr_mem (nr_insert tag st btvp nrp n) = (nr_mem st)(c := (nr_mem st c) \<lparr> nr_nodecnt := nr_nodecnt (nr_mem st c) + n \<rparr>)"
    using f n t(2) by (simp add: nr_insert_def z Let_def fun_upd_def fun_eq_iff)
  show "nr_cookies (nr_insert tag st btvp nrp n) = nr_cookies st"
    "nr_total (nr_insert tag st btvp nrp n) b = nr_total st b + (if b = btvp then n else 0)"
    using nr_total_change [OF ok c(1) m] c(3) by auto
  show "nr_ok (nr_insert tag st btvp nrp n)" 
  proof (rule nr_ok_same_keys [OF ok])
    show "nr_tag (nr_mem (nr_insert tag st btvp nrp n) d) = nr_tag (nr_mem st d)"
      "nr_btvp (nr_mem (nr_insert tag st btvp nrp n) d) = nr_btvp (nr_mem st d)" for d by (simp_all add: m)
    show "nr_hashtbl (nr_insert tag st btvp nrp n) = nr_hashtbl st" "nr_hashmask (nr_insert tag st btvp nrp n) = nr_hashmask st"
      using f by (simp_all add: nr_insert_def Let_def)
  qed
qed

lemma nr_insert_new:
  assumes ok: "nr_ok st" and new: "nrp \<notin> nr_cookies st" and tag: "tag \<noteq> 0" and f: "nr_find st btvp tag = None"
  shows "nr_ok (nr_insert tag st btvp nrp n)" "nr_cookies (nr_insert tag st btvp nrp n) = insert nrp (nr_cookies st)"
    "nr_total (nr_insert tag st btvp nrp n) b = nr_total st b + (if b = btvp then n else 0)"
    "nr_mem (nr_insert tag st btvp nrp n) = (nr_mem st)(nrp := \<lparr> nr_nodecnt = n, nr_newnodes = 0, nr_btvp = btvp, nr_tag = tag \<rparr>)"
proof -
  let ?st = "nr_insert tag st btvp nrp n"
  let ?r = "\<lparr> nr_nodecnt = n, nr_newnodes = 0, nr_btvp = btvp, nr_tag = tag \<rparr>"
  show m: "nr_mem ?st = (nr_mem st)(nrp := ?r)" using f by (simp add: nr_insert_def Let_def)
  have h: "nr_hashtbl ?st = (nr_hashtbl st)(NR_HASH st btvp tag := nrp # nr_hashtbl st (NR_HASH st btvp tag))" "nr_hashmask ?st = nr_hashmask st"
    using f by (simp_all add: nr_insert_def Let_def)
  show k: "nr_cookies ?st = insert nrp (nr_cookies st)" using tag by (auto simp: nr_cookies_def m)
  have ch: "cookie_hash ?st c = (if c = nrp then NR_HASH st btvp tag else cookie_hash st c)" for c
    by (simp add: cookie_hash_def m NR_HASH_def h)
  have none: "\<forall>c\<in>nr_cookies st. \<not> (nr_tag (nr_mem st c) = tag \<and> nr_btvp (nr_mem st c) = btvp)" using f nr_find_None [OF ok tag] by simp
  have "distinct (nr_hashtbl ?st x)" for x using ok new unfolding h by (auto simp: nr_ok_chain) (auto simp: nr_ok_def)
  moreover have "c \<in> set (nr_hashtbl ?st x) \<longleftrightarrow> c \<in> nr_cookies ?st \<and> cookie_hash ?st c = x" for c x
    using new unfolding h k ch by (auto simp: nr_ok_chain [OF ok])
  moreover have "c = d" if "c \<in> nr_cookies ?st" "d \<in> nr_cookies ?st" "nr_tag (nr_mem ?st c) = nr_tag (nr_mem ?st d)"
    "nr_btvp (nr_mem ?st c) = nr_btvp (nr_mem ?st d)" for c d
    using that none nr_ok_unique [OF ok, of c d] unfolding k m by (auto split: if_splits)
  ultimately show "nr_ok ?st" using nr_ok_finite [OF ok] unfolding nr_ok_def k by blast
  let ?S = "{c \<in> nr_cookies st. nr_btvp (nr_mem st c) = b}"
  have S: "{c \<in> nr_cookies ?st. nr_btvp (nr_mem ?st c) = b} = (if b = btvp then insert nrp ?S else ?S)" unfolding k m using new by auto
  have e: "(\<Sum>c\<in>?S. nr_nodecnt (nr_mem ?st c)) = (\<Sum>c\<in>?S. nr_nodecnt (nr_mem st c))" using new by (intro sum.cong) (auto simp: m)
  show "nr_total ?st b = nr_total st b + (if b = btvp then n else 0)"
    unfolding nr_total_def S using new nr_ok_finite [OF ok] e by (auto simp: m)
qed

lemma nr_delete_run:
  assumes ok: "nr_ok st" and c: "c \<in> nr_cookies st"
  obtains st' where "nr_delete (nr_tag (nr_mem st c)) st (nr_btvp (nr_mem st c)) c = Some (nr_nodecnt (nr_mem st c), st')"
    "nr_ok st'" "nr_cookies st' = nr_cookies st - {c}" "\<And>d. d \<noteq> c \<Longrightarrow> nr_mem st' d = nr_mem st d"
    "\<And>b. nr_total st' b = nr_total st b - (if b = nr_btvp (nr_mem st c) then nr_nodecnt (nr_mem st c) else 0)"
proof -
  define st' where "st' = st \<lparr> nr_mem := (nr_mem st)(c := \<lparr> nr_nodecnt = 0, nr_newnodes = 0, nr_btvp = 0, nr_tag = 0 \<rparr>),
    nr_hashtbl := (nr_hashtbl st)(cookie_hash st c := remove1 c (nr_hashtbl st (cookie_hash st c))), nrdeletes := s32 (nrdeletes st + 1) \<rparr>"
  have run: "nr_delete (nr_tag (nr_mem st c)) st (nr_btvp (nr_mem st c)) c = Some (nr_nodecnt (nr_mem st c), st')"
    using c by (simp add: nr_delete_def st'_def nr_cookies_def cookie_hash_def Let_def)
  have k: "nr_cookies st' = nr_cookies st - {c}" by (auto simp: nr_cookies_def st'_def)
  have m: "nr_mem st' d = nr_mem st d" if "d \<noteq> c" for d using that by (simp add: st'_def)
  have dis: "distinct (nr_hashtbl st x)" for x using ok by (simp add: nr_ok_def)
  have ch: "cookie_hash st' d = cookie_hash st d" if "d \<noteq> c" for d using that by (simp add: cookie_hash_def m NR_HASH_def st'_def)
  have "distinct (nr_hashtbl st' x)" for x using dis by (simp add: st'_def distinct_remove1)
  moreover have "d \<in> set (nr_hashtbl st' x) \<longleftrightarrow> d \<in> nr_cookies st' \<and> cookie_hash st' d = x" for d x
  proof (cases "d = c")
    case True
    then show ?thesis unfolding k using nr_ok_chain [OF ok, of c x] dis [of "cookie_hash st c"] by (auto simp: st'_def)
  next
    case False
    then show ?thesis unfolding k ch [OF False] using nr_ok_chain [OF ok, of d x] dis by (auto simp: st'_def)
  qed
  moreover have "a = d" if "a \<in> nr_cookies st'" "d \<in> nr_cookies st'" "nr_tag (nr_mem st' a) = nr_tag (nr_mem st' d)"
    "nr_btvp (nr_mem st' a) = nr_btvp (nr_mem st' d)" for a d
    using that nr_ok_unique [OF ok, of a d] unfolding k by (auto simp: m)
  ultimately have ok': "nr_ok st'" using nr_ok_finite [OF ok] unfolding nr_ok_def k by blast
  have "nr_total st' b = nr_total st b - (if b = nr_btvp (nr_mem st c) then nr_nodecnt (nr_mem st c) else 0)" for b
  proof -
    let ?S = "{d \<in> nr_cookies st. nr_btvp (nr_mem st d) = b}"
    have S: "{d \<in> nr_cookies st'. nr_btvp (nr_mem st' d) = b} = ?S - {c}" unfolding k using m by auto
    have e: "(\<Sum>d\<in>?S - {c}. nr_nodecnt (nr_mem st' d)) = (\<Sum>d\<in>?S - {c}. nr_nodecnt (nr_mem st d))" using m by (intro sum.cong) auto
    show ?thesis unfolding nr_total_def S e using c nr_ok_finite [OF ok] by (auto simp: sum_diff1)
  qed
  then show thesis using that run ok' k m by blast
qed
section \<open>Threads that reserve and release\<close>

text \<open>The state: \<open>reservedNodes\<close> of every tree and the table.  A thread \<open>tag\<close> reserves with a cookie that is not in use,
  releases one of its own cookies (or one that a nested request left unused), or reports the nodes that it allocated.
  The reserves of a tree stay below \<open>2^31\<close>, the range of the counters.\<close>

type_synonym reserves = "(int \<Rightarrow> int) \<times> reserve_state"

inductive reserve_step :: "reserves \<Rightarrow> reserves \<Rightarrow> bool" where
  reserve: "tag \<noteq> 0 \<Longrightarrow> nr_tag (nr_mem st c) = 0 \<Longrightarrow> 0 \<le> n \<Longrightarrow> R b + n < 2 ^ 31 \<Longrightarrow> save_reserve tag st b (R b) c n = (r, st') \<Longrightarrow>
    reserve_step (R, st) (R(b := r), st')"
| release: "nr_tag (nr_mem st c) \<in> {0, tag} \<Longrightarrow> BTReleaseReserve tag st b (R b) c = Some (r, st') \<Longrightarrow>
    reserve_step (R, st) (R(b := r), st')"
| update: "tag \<noteq> 0 \<Longrightarrow> reserve_step (R, st) (R, BTUpdateReserve tag st b n)"

inductive_cases reserve_stepE: "reserve_step (R, st) (R', st')"

definition nr_init :: "int \<Rightarrow> reserve_state" where
  "nr_init msk = \<lparr> nr_mem = \<lambda>_. \<lparr> nr_nodecnt = 0, nr_newnodes = 0, nr_btvp = 0, nr_tag = 0 \<rparr>, nr_hashtbl = \<lambda>_. [], nr_hashmask = msk,
     nrinserts = 0, nrdeletes = 0 \<rparr>"

definition reserve_inv :: "reserves \<Rightarrow> bool" where
  "reserve_inv s \<longleftrightarrow> nr_ok (snd s) \<and> (\<forall>c\<in>nr_cookies (snd s). 0 \<le> nr_nodecnt (nr_mem (snd s) c)) \<and>
     fst s = nr_total (snd s) \<and> (\<forall>b. nr_total (snd s) b < 2 ^ 31)"

lemma reserve_invD:
  assumes "reserve_inv (R, st)"
  shows "nr_ok st" "\<forall>c\<in>nr_cookies st. 0 \<le> nr_nodecnt (nr_mem st c)" "R b = nr_total st b" "nr_total st b < 2 ^ 31"
  using assms by (simp_all add: reserve_inv_def)

lemma reserve_invI:
  "nr_ok st \<Longrightarrow> (\<And>c. c \<in> nr_cookies st \<Longrightarrow> 0 \<le> nr_nodecnt (nr_mem st c)) \<Longrightarrow> (\<And>b. R b = nr_total st b) \<Longrightarrow>
     (\<And>b. nr_total st b < 2 ^ 31) \<Longrightarrow> reserve_inv (R, st)"
  by (auto simp: reserve_inv_def)

lemma reserve_inv_init: "reserve_inv (\<lambda>_. 0, nr_init msk)"
  by (rule reserve_invI) (simp_all add: nr_ok_def nr_cookies_def nr_init_def nr_total_def)

lemma nr_total_bounds:
  assumes "nr_ok st" "\<forall>c\<in>nr_cookies st. 0 \<le> nr_nodecnt (nr_mem st c)"
  shows "0 \<le> nr_total st b" "c \<in> nr_cookies st \<Longrightarrow> nr_nodecnt (nr_mem st c) \<le> nr_total st (nr_btvp (nr_mem st c))"
proof -
  show "0 \<le> nr_total st b" using assms(2) by (auto simp: nr_total_def intro!: sum_nonneg)
  assume "c \<in> nr_cookies st"
  then show "nr_nodecnt (nr_mem st c) \<le> nr_total st (nr_btvp (nr_mem st c))"
    using assms(2) nr_ok_finite [OF assms(1)] unfolding nr_total_def by (intro member_le_sum) auto
qed

lemma save_reserve_inv:
  assumes inv: "reserve_inv (R, st)" and tag: "tag \<noteq> 0" and c: "nr_tag (nr_mem st c) = 0" and n: "0 \<le> n" "R b + n < 2 ^ 31"
  shows "reserve_inv (R(b := fst (save_reserve tag st b (R b) c n)), snd (save_reserve tag st b (R b) c n))"
proof -
  let ?st = "nr_insert tag st b c n"
  note i = reserve_invD [OF inv]
  have new: "c \<notin> nr_cookies st" using c by (simp add: nr_cookies_def)
  have u: "u32 (nr_total st b + n) = nr_total st b + n" using n nr_total_bounds(1) [OF i(1,2), of b] i(3) [of b] by simp
  have k: "nr_ok ?st \<and> (\<forall>d\<in>nr_cookies ?st. 0 \<le> nr_nodecnt (nr_mem ?st d)) \<and> (\<forall>x. nr_total ?st x = nr_total st x + (if x = b then n else 0))"
  proof (cases "nr_find st b tag")
    case None
    from nr_insert_new [OF i(1) new tag None] i(2) n(1) show ?thesis by (auto simp: fun_upd_def)
  next
    case (Some d)
    have d: "d \<in> nr_cookies st" "nr_btvp (nr_mem st d) = b" using Some nr_find_Some [OF i(1) tag] by auto
    have cnt: "0 \<le> nr_nodecnt (nr_mem st d)" "nr_nodecnt (nr_mem st d) + n < 2 ^ 31"
      using i(2) d nr_total_bounds(2) [OF i(1,2) d(1)] n(2) i(3) [of b] by auto
    have dc: "d \<noteq> c" using new d(1) by auto
    from nr_insert_merge [OF i(1) new tag Some cnt(2,1) n(1)] i(2) n(1) cnt Some dc show ?thesis
      by (auto simp: nr_insert_def Let_def fun_upd_def nr_cookies_def)
  qed
  then show ?thesis using i(3,4) n(2) by (intro reserve_invI) (auto simp: save_reserve_def u)
qed

lemma release_inv:
  assumes inv: "reserve_inv (R, st)" and run: "BTReleaseReserve tag st b (R b) c = Some (r, st')"
  shows "reserve_inv (R(b := r), st')" "nr_cookies st' = nr_cookies st - {c}"
proof -
  note i = reserve_invD [OF inv]
  have "reserve_inv (R(b := r), st') \<and> nr_cookies st' = nr_cookies st - {c}"
  proof (cases "c \<in> nr_cookies st")
    case False
    then have "r = R b" "st' = st" using run by (auto simp: BTReleaseReserve_def nr_delete_def nr_cookies_def)
    then show ?thesis using inv False by simp
  next
    case True
    then have t: "tag = nr_tag (nr_mem st c)" "b = nr_btvp (nr_mem st c)"
      using run by (auto simp: BTReleaseReserve_def nr_delete_def nr_cookies_def Let_def split: if_splits)
    from nr_delete_run [OF i(1) True] obtain st1 where d: "nr_delete tag st b c = Some (nr_nodecnt (nr_mem st c), st1)"
      "nr_ok st1" "nr_cookies st1 = nr_cookies st - {c}" "\<And>d. d \<noteq> c \<Longrightarrow> nr_mem st1 d = nr_mem st d"
      "\<And>x. nr_total st1 x = nr_total st x - (if x = b then nr_nodecnt (nr_mem st c) else 0)" unfolding t by metis
    have le: "nr_nodecnt (nr_mem st c) \<le> R b" "0 \<le> nr_nodecnt (nr_mem st c)"
      using nr_total_bounds(2) [OF i(1,2) True] i(2,3) True t(2) by auto
    have r: "r = R b - nr_nodecnt (nr_mem st c)" "st' = st1" using run d(1) le i(3,4) [of b] by (auto simp: BTReleaseReserve_def)
    have lt: "nr_total st b - nr_nodecnt (nr_mem st c) < 2 ^ 31" using le i(4) [of b] by linarith
    have "reserve_inv (R(b := r), st1)"
    proof (rule reserve_invI)
      show "nr_ok st1" by (rule d(2))
      show "0 \<le> nr_nodecnt (nr_mem st1 x)" if "x \<in> nr_cookies st1" for x using that i(2) d(3,4) by auto
      show "(R(b := r)) x = nr_total st1 x" for x by (simp add: r d(5) i(3))
      show "nr_total st1 x < 2 ^ 31" for x using i(4) [of x] lt by (simp add: d(5))
    qed
    then show ?thesis using d(3) r(2) by simp
  qed
  then show "reserve_inv (R(b := r), st')" "nr_cookies st' = nr_cookies st - {c}" by auto
qed

lemma update_inv:
  assumes inv: "reserve_inv (R, st)" and tag: "tag \<noteq> 0"
  shows "reserve_inv (R, BTUpdateReserve tag st b n)"
proof (cases "nr_find st b tag")
  case None
  then show ?thesis using inv by (simp add: BTUpdateReserve_def nr_update_def)
next
  case (Some c)
  let ?st = "BTUpdateReserve tag st b n"
  have m: "nr_mem ?st = (nr_mem st)(c := (nr_mem st c) \<lparr> nr_newnodes := s32 (nr_newnodes (nr_mem st c) + n) \<rparr>)"
    "nr_hashtbl ?st = nr_hashtbl st" "nr_hashmask ?st = nr_hashmask st"
    using Some by (simp_all add: BTUpdateReserve_def nr_update_def)
  have e: "nr_tag (nr_mem ?st d) = nr_tag (nr_mem st d)" "nr_btvp (nr_mem ?st d) = nr_btvp (nr_mem st d)"
    "nr_nodecnt (nr_mem ?st d) = nr_nodecnt (nr_mem st d)" for d by (simp_all add: m)
  have "nr_ok st" using inv by (simp add: reserve_inv_def)
  then have ok: "nr_ok ?st" by (rule nr_ok_same_keys) (simp_all add: e m)
  have "nr_cookies ?st = nr_cookies st" by (simp add: nr_cookies_def e)
  moreover from this have "nr_total ?st x = nr_total st x" for x by (simp add: nr_total_def e)
  ultimately show ?thesis using reserve_invD [OF inv] ok by (intro reserve_invI) (simp_all add: e)
qed

lemma reserve_step_inv: "reserve_step s s' \<Longrightarrow> reserve_inv s \<Longrightarrow> reserve_inv s'"
proof (induction rule: reserve_step.induct)
  case (reserve tag st c n R b r st')
  then show ?case using save_reserve_inv [of R st tag c n b] by simp
qed (auto intro: release_inv update_inv)

lemma reserve_reachable_inv: "reserve_step\<^sup>*\<^sup>* s s' \<Longrightarrow> reserve_inv s \<Longrightarrow> reserve_inv s'"
  by (induction rule: rtranclp_induct) (auto intro: reserve_step_inv)

text \<open>A thread can always give its reserves back.\<close>

lemma release_owner:
  assumes "reserve_inv (R, st)" "c \<in> nr_cookies st"
  shows "\<exists>R' st'. reserve_step (R, st) (R', st') \<and> nr_cookies st' = nr_cookies st - {c}"
proof -
  have ok: "nr_ok st" using assms(1) by (simp add: reserve_inv_def)
  let ?t = "nr_tag (nr_mem st c)" and ?b = "nr_btvp (nr_mem st c)"
  obtain st1 where "nr_delete ?t st ?b c = Some (nr_nodecnt (nr_mem st c), st1)" by (rule nr_delete_run [OF ok assms(2)])
  then obtain r where r: "BTReleaseReserve ?t st ?b (R ?b) c = Some (r, st1)" by (auto simp: BTReleaseReserve_def)
  have "reserve_step (R, st) (R(?b := r), st1)" by (rule reserve_step.release [where tag = ?t and c = c]) (simp_all add: r)
  with release_inv(2) [OF assms(1) r] show ?thesis by blast
qed

section \<open>Properties\<close>

text \<open>C30: However threads interleave their requests, nested ones of one thread included, the counter \<open>reservedNodes\<close> of
  every tree is the sum of the reserves in the hash table, the table holds each reserve once and in the chain of its hash,
  and from every state the reserves in use can be released, which brings all counters back to 0.\<close>

theorem reserves_balanced:
  assumes "reserve_step\<^sup>*\<^sup>* (\<lambda>_. 0, nr_init msk) (R, st)"
  shows "nr_ok st \<and> (\<forall>b. R b = nr_total st b) \<and>
    (\<exists>R' st'. reserve_step\<^sup>*\<^sup>* (R, st) (R', st') \<and> nr_cookies st' = {} \<and> (\<forall>b. R' b = 0))"
proof -
  have inv: "reserve_inv (R, st)" by (rule reserve_reachable_inv [OF assms reserve_inv_init])
  have "\<exists>R' st'. reserve_step\<^sup>*\<^sup>* (R, st) (R', st') \<and> nr_cookies st' = {} \<and> (\<forall>b. R' b = 0)" if "reserve_inv (R, st)" for R st
    using that
  proof (induction "card (nr_cookies st)" arbitrary: R st)
    case 0
    then have "nr_cookies st = {}" by (auto simp: reserve_inv_def nr_ok_def)
    with 0 show ?case by (auto simp: reserve_inv_def nr_total_def)
  next
    case (Suc n)
    then obtain c where c: "c \<in> nr_cookies st" by fastforce
    obtain R1 st1 where s: "reserve_step (R, st) (R1, st1)" "nr_cookies st1 = nr_cookies st - {c}"
      using release_owner [OF Suc.prems c] by blast
    have "n = card (nr_cookies st1)" using Suc.hyps(2) c s(2) by simp
    from Suc.hyps(1) [OF this reserve_step_inv [OF s(1) Suc.prems]] s(1) show ?case by (meson converse_rtranclp_into_rtranclp)
  qed
  with inv show ?thesis by (auto simp: reserve_inv_def)
qed

text \<open>One thread reserves twice for the same tree.\<close>

theorem reserves_balanced_witness:
  "\<exists>R st. reserve_step\<^sup>*\<^sup>* (\<lambda>_. 0, nr_init 15) (R, st) \<and> R 4096 = 5 \<and> nr_total st 4096 = 5"
proof -
  define s1 where "s1 = save_reserve 64 (nr_init 15) 4096 0 1 3"
  define s2 where "s2 = save_reserve 64 (snd s1) 4096 (fst s1) 2 2"
  have v: "fst s1 = 3" "nr_tag (nr_mem (snd s1) 2) = 0" "fst s2 = 5" unfolding s2_def s1_def by code_simp+
  have a: "reserve_step (\<lambda>_. 0, nr_init 15) ((\<lambda>_. 0)(4096 := fst s1), snd s1)"
    by (rule reserve_step.reserve [of 64 _ 1 3]) (simp_all add: s1_def nr_init_def)
  have b: "reserve_step ((\<lambda>_. 0)(4096 := fst s1), snd s1) (((\<lambda>_. 0)(4096 := fst s1))(4096 := fst s2), snd s2)"
    by (rule reserve_step.reserve [of 64 _ 2 2]) (simp_all add: s2_def v)
  define R :: "int \<Rightarrow> int" where "R = ((\<lambda>_. 0)(4096 := fst s1))(4096 := fst s2)"
  have r: "reserve_step\<^sup>*\<^sup>* (\<lambda>_. 0, nr_init 15) (R, snd s2)"
    unfolding R_def by (rule converse_rtranclp_into_rtranclp [OF a r_into_rtranclp [of reserve_step, OF b]])
  have "R 4096 = 5" by (simp add: R_def v)
  moreover have "R 4096 = nr_total (snd s2) 4096" using reserves_balanced [OF r] by blast
  ultimately show ?thesis using r by auto
qed


end
