(* ===== verification/BTreeAllocate.thy ===== *)
theory BTreeAllocate
  imports BTreeHeader NodeReserve
begin

text \<open>
  Allocation of the nodes of a tree: \<open>src/kmod/core/BTreeAllocate.c\<close> (all but \<open>BTZeroUnusedNodes\<close>), \<open>GetNewNode\<close> and
  \<open>UpdateNode\<close> of \<open>src/kmod/core/BTreeNodeOps.c\<close>, \<open>BTReserveSpace\<close> of \<open>src/kmod/core/BTreeNodeReserve.c\<close>.

  The map of used nodes is a sequence of bits in big-endian words: it starts in the third record of the header node and
  continues in the first record of every map node, which are linked by \<open>fLink\<close>.

  The block layer gives the contents of nodes or errors; an update may fail too (\<open>bf_write_err\<close>, \<open>bf_new_err\<close>), and
  then the node keeps its contents.  The counters for statistics are not kept, and the checks of debug builds, which
  only print a message, are left out.  The loops over the map may not end on a damaged tree, which is \<^term>\<open>None\<close>, as is an
  access out of bounds.
\<close>

section \<open>The file of a tree\<close>

record btree_file =
  bf_btcb :: BTreeControlBlock
  bf_nodes :: get_block
  bf_write_err :: "int \<Rightarrow> bt_err option"
  bf_new_err :: "int \<Rightarrow> bt_err option"
  bf_fileRefNum :: int
  bf_eof :: int
  bf_clumpsize :: int
  bf_reserve :: reserve_state

definition UpdateNode :: "btree_file \<Rightarrow> int \<Rightarrow> mem \<Rightarrow> bt_err option \<times> btree_file" where
  "UpdateNode f n node =
     (case bf_write_err f n of Some err \<Rightarrow> (Some err, f) | None \<Rightarrow> (None, f \<lparr> bf_nodes := (bf_nodes f)(n := Inr node) \<rparr>))"

text \<open>The contents of the buffer that the block layer returns are cleared.\<close>

definition GetNewNode :: "btree_file \<Rightarrow> int \<Rightarrow> (bt_err + mem) option" where
  "GetNewNode f nodeNum =
     (case bf_new_err f nodeNum of
        Some err \<Rightarrow> Some (Inl err)
      | None \<Rightarrow> do {
          node \<leftarrow> ClearNode (bf_btcb f) (replicate (nat (nodeSize (bf_btcb f))) 0);
          node1 \<leftarrow> wr16 node (nodeSize (bf_btcb f) - 2) sizeof_BTNodeDescriptor;
          Some (Inr node1) })"

definition M_BTreeHeaderDirty :: "BTreeControlBlock \<Rightarrow> BTreeControlBlock" where
  "M_BTreeHeaderDirty bt = bt \<lparr> flags := flags bt OR kBTHeaderDirty \<rparr>"

section \<open>Map records\<close>

text \<open>The address and the size of the map record in node \<open>n\<close>.\<close>

definition map_record :: "btree_file \<Rightarrow> int \<Rightarrow> mem \<Rightarrow> int \<Rightarrow> (bt_err + int \<times> mem \<times> int \<times> int) option" where
  "map_record f n node mapIndex = do {
     mapPtr \<leftarrow> GetRecordAddress (bf_btcb f) node mapIndex;
     mapSize \<leftarrow> GetRecordSize (bf_btcb f) node mapIndex;
     Some (Inr (n, node, mapPtr, mapSize)) }"

definition GetMapNode :: "btree_file \<Rightarrow> (int \<times> mem) option \<Rightarrow> (bt_err + int \<times> mem \<times> int \<times> int) option" where
  "GetMapNode f nodePtr =
     (case nodePtr of
        Some (_, node) \<Rightarrow> do {
          nextNodeNum \<leftarrow> rd_fLink node;
          if nextNodeNum = 0 then Some (Inl fsBTNoMoreMapNodesErr)
          else case GetNode (bf_btcb f) (bf_nodes f) nextNodeNum of
            Inl err \<Rightarrow> Some (Inl err)
          | Inr node1 \<Rightarrow> do {
              kind \<leftarrow> rd_kind node1;
              if kind \<noteq> kBTMapNode then Some (Inl fsBTBadNodeType) else map_record f nextNodeNum node1 0 } }
      | None \<Rightarrow>
          (case GetNode (bf_btcb f) (bf_nodes f) 0 of
             Inl err \<Rightarrow> Some (Inl err)
           | Inr node1 \<Rightarrow> do {
               kind \<leftarrow> rd_kind node1;
               if kind \<noteq> kBTHeaderNode then Some (Inl fsBTInvalidHeaderErr) else map_record f 0 node1 2 }))"

section \<open>Allocating and freeing a node\<close>

text \<open>The address of the first of \<open>k\<close> words that is not all ones, or of the last word.\<close>

fun find_word :: "nat \<Rightarrow> mem \<Rightarrow> int \<Rightarrow> int option" where
  "find_word 0 node pos = Some (pos - 2)"
| "find_word (Suc k) node pos = do {
     w \<leftarrow> rd16 node pos;
     if w \<noteq> 0xFFFF then Some pos else find_word k node (pos + 2) }"

partial_function (option) AllocateNode_loop :: "btree_file \<Rightarrow> (int \<times> mem) option \<Rightarrow> int \<Rightarrow>
    (bt_err + int \<times> mem \<times> int \<times> int \<times> int) option" where
  "AllocateNode_loop f nodePtr nodeNumber =
     Option.bind (GetMapNode f nodePtr) (\<lambda>r. case r of Inl err \<Rightarrow> Some (Inl err)
       | Inr (n, node, mapPtr, mapSize) \<Rightarrow>
           Option.bind (find_word (nat (mapSize div 2)) node mapPtr) (\<lambda>pos.
           Option.bind (rd16 node pos) (\<lambda>w.
             if w \<noteq> 0xFFFF then Some (Inr (n, node, mapPtr, pos, nodeNumber))
             else AllocateNode_loop f (Some (n, node)) (u32 (nodeNumber + mapSize * 8)))))"

text \<open>The loop \<open>do { if ((freeWord & mask) == 0) break; mask >>= 1; } while (--bitOffset);\<close> returns \<open>bitOffset\<close>.\<close>

fun find_bit :: "nat \<Rightarrow> int \<Rightarrow> nat" where
  "find_bit 0 freeWord = 0"
| "find_bit (Suc b) freeWord = (if freeWord AND 2 ^ Suc b = 0 then Suc b else find_bit b freeWord)"

definition AllocateNode :: "int \<Rightarrow> btree_file \<Rightarrow> ((bt_err + int) \<times> btree_file) option" where
  "AllocateNode tag f = do {
     r \<leftarrow> AllocateNode_loop f None 0;
     case r of Inl err \<Rightarrow> Some (Inl err, f)
     | Inr (n, node, mapPtr, pos, base) \<Rightarrow> do {
         w \<leftarrow> rd16 node pos;
         let bitOffset = find_bit 15 (SWAP_BE16 w);
         let nodeNumber = u32 (base + ((pos - mapPtr) div 2 * 16 + (15 - int bitOffset)));
         if nodeNumber \<ge> totalNodes (bf_btcb f) then Some (Inl fsBTFullErr, f)
         else do {
           node1 \<leftarrow> wr16 node pos (w OR SWAP_BE16 (2 ^ bitOffset));
           case UpdateNode f n node1 of
             (Some err, f1) \<Rightarrow> Some (Inl err, f1)
           | (None, f1) \<Rightarrow>
               Some (Inr nodeNumber, f1 \<lparr> bf_btcb := M_BTreeHeaderDirty ((bf_btcb f1) \<lparr> freeNodes := u32 (freeNodes (bf_btcb f1) - 1) \<rparr>),
                 bf_reserve := BTUpdateReserve tag (bf_reserve f1) (bf_fileRefNum f1) 1 \<rparr>) } } }"

partial_function (option) FreeNode_loop :: "btree_file \<Rightarrow> int \<Rightarrow> (int \<times> mem) option \<Rightarrow> int \<Rightarrow>
    (bt_err + int \<times> mem \<times> int \<times> int \<times> int) option" where
  "FreeNode_loop f nodeNum nodePtr nodeIndex =
     Option.bind (GetMapNode f nodePtr) (\<lambda>r. case r of Inl err \<Rightarrow> Some (Inl err)
       | Inr (n, node, mapPos, mapSize) \<Rightarrow>
           let nodeIndex1 = u32 (nodeIndex + mapSize * 8) in
           if nodeNum \<ge> nodeIndex1 then FreeNode_loop f nodeNum (Some (n, node)) nodeIndex1
           else Some (Inr (n, node, mapPos, mapSize, nodeIndex1)))"

definition FreeNode :: "btree_file \<Rightarrow> int \<Rightarrow> (bt_err option \<times> btree_file) option" where
  "FreeNode f nodeNum = do {
     r \<leftarrow> FreeNode_loop f nodeNum None 0;
     case r of Inl err \<Rightarrow> Some (Some err, f)
     | Inr (n, node, mapPos, mapSize, nodeIndex) \<Rightarrow> do {
         let num = u32 (nodeNum - u32 (nodeIndex - mapSize * 8));
         let bitOffset = 15 - nat (num AND 0xF);
         let pos = mapPos + drop_bit 4 num * 2;
         w \<leftarrow> rd16 node pos;
         node1 \<leftarrow> wr16 node pos (w AND SWAP_BE16 (u16 (NOT (2 ^ bitOffset))));
         case UpdateNode f n node1 of
           (Some err, f1) \<Rightarrow> Some (Some err, f1)
         | (None, f1) \<Rightarrow>
             Some (None, f1 \<lparr> bf_btcb := M_BTreeHeaderDirty ((bf_btcb f1) \<lparr> freeNodes := u32 (freeNodes (bf_btcb f1) + 1) \<rparr>) \<rparr>) } }"

section \<open>Extending the tree\<close>

abbreviation (input) M_MapRecordSize :: "int \<Rightarrow> int" where "M_MapRecordSize sz \<equiv> sz - sizeof_BTNodeDescriptor - 6"
abbreviation (input) M_HeaderMapRecordSize :: "int \<Rightarrow> int" where
  "M_HeaderMapRecordSize sz \<equiv> sz - sizeof_BTNodeDescriptor - 106 - 128 - 8"

partial_function (option) CalcMapBits_loop :: "BTreeControlBlock \<Rightarrow> int \<Rightarrow> int option" where
  "CalcMapBits_loop bt mapBits =
     (if mapBits < totalNodes bt then CalcMapBits_loop bt (u32 (mapBits + M_MapRecordSize (nodeSize bt) * 8)) else Some mapBits)"

definition CalcMapBits :: "BTreeControlBlock \<Rightarrow> int option" where
  "CalcMapBits bt = CalcMapBits_loop bt (u32 (u32 (M_HeaderMapRecordSize (nodeSize bt)) * 8))"

text \<open>The last map record: its node, its address, its number of bits, the number of its first bit, and the bits up to its end.\<close>

record map_cursor =
  mc_num :: int
  mc_node :: mem
  mc_start :: int
  mc_bits :: int
  mc_recStart :: int
  mc_total :: int

partial_function (option) count_map :: "btree_file \<Rightarrow> (int \<times> mem) option \<Rightarrow> int \<Rightarrow> (bt_err + map_cursor) option" where
  "count_map f nodePtr totalMapBits =
     Option.bind (GetMapNode f nodePtr) (\<lambda>r. case r of Inl err \<Rightarrow> Some (Inl err)
       | Inr (n, node, mapStart, mapSize) \<Rightarrow>
           Option.bind (rd_fLink node) (\<lambda>fLink.
             let total = u32 (totalMapBits + mapSize * 8) in
             if fLink \<noteq> 0 then count_map f (Some (n, node)) total
             else Some (Inr \<lparr> mc_num = n, mc_node = node, mc_start = mapStart, mc_bits = mapSize * 8, mc_recStart = totalMapBits, mc_total = total \<rparr>)))"

text \<open>The new map nodes from number \<open>nodeNum\<close> on; \<open>k\<close> more follow.\<close>

fun new_map_nodes :: "nat \<Rightarrow> btree_file \<Rightarrow> int \<Rightarrow> (bt_err option \<times> btree_file) option" where
  "new_map_nodes k f nodeNum = do {
     r \<leftarrow> GetNewNode f nodeNum;
     case r of Inl err \<Rightarrow> Some (Some err, f)
     | Inr node \<Rightarrow> do {
         node \<leftarrow> wr_numRecords node 1;
         node \<leftarrow> wr8 node 8 kBTMapNode;
         node \<leftarrow> wr16 node (nodeSize (bf_btcb f) - 4) (nodeSize (bf_btcb f) - 6);
         case k of 0 \<Rightarrow> Some (UpdateNode f nodeNum node)
         | Suc k' \<Rightarrow> do {
             node \<leftarrow> wr32 node 0 (nodeNum + 1);
             case UpdateNode f nodeNum node of
               (Some err, f1) \<Rightarrow> Some (Some err, f1)
             | (None, f1) \<Rightarrow> new_map_nodes k' f1 (u32 (nodeNum + 1)) } } }"

text \<open>Goes to the map record that holds the bit of node \<open>nodeNum\<close>.\<close>

partial_function (option) seek_map :: "btree_file \<Rightarrow> int \<Rightarrow> map_cursor \<Rightarrow> ((bt_err + map_cursor) \<times> btree_file) option" where
  "seek_map f nodeNum c =
     (if u32 (nodeNum - mc_recStart c) < mc_bits c then Some (Inr c, f)
      else Option.bind (rd_fLink (mc_node c)) (\<lambda>nextNodeNum.
        if nextNodeNum = 0 then Some (Inl fsBTNoMoreMapNodesErr, f)
        else case UpdateNode f (mc_num c) (mc_node c) of
          (Some err, f1) \<Rightarrow> Some (Inl err, f1)
        | (None, f1) \<Rightarrow>
            (case GetNode (bf_btcb f1) (bf_nodes f1) nextNodeNum of
               Inl err \<Rightarrow> Some (Inl err, f1)
             | Inr node \<Rightarrow>
                 Option.bind (GetRecordAddress (bf_btcb f1) node 0) (\<lambda>mapStart.
                 Option.bind (GetRecordSize (bf_btcb f1) node 0) (\<lambda>mapSize.
                   seek_map f1 nodeNum \<lparr> mc_num = nextNodeNum, mc_node = node, mc_start = mapStart, mc_bits = mapSize * 8,
                     mc_recStart = mc_total c, mc_total = u32 (mc_total c + mapSize * 8) \<rparr>)))))"

text \<open>Marks the nodes from \<open>nodeNum\<close> on used; \<open>k\<close> more follow.\<close>

fun mark_map_nodes :: "nat \<Rightarrow> btree_file \<Rightarrow> int \<Rightarrow> map_cursor \<Rightarrow> (bt_err option \<times> btree_file) option" where
  "mark_map_nodes k f nodeNum c = do {
     (r, f1) \<leftarrow> seek_map f nodeNum c;
     case r of Inl err \<Rightarrow> Some (Some err, f1)
     | Inr c1 \<Rightarrow> do {
         let bitNum = u32 (nodeNum - mc_recStart c1);
         let mapPos = mc_start c1 + drop_bit 4 bitNum * 2;
         w \<leftarrow> rd16 (mc_node c1) mapPos;
         node \<leftarrow> wr16 (mc_node c1) mapPos (w OR SWAP_BE16 (2 ^ (15 - nat (bitNum AND 0xF))));
         case k of 0 \<Rightarrow> Some (UpdateNode f1 (mc_num c1) node)
         | Suc k' \<Rightarrow> mark_map_nodes k' f1 (u32 (nodeNum + 1)) (c1 \<lparr> mc_node := node \<rparr>) } }"

declare new_map_nodes.simps [simp del] mark_map_nodes.simps [simp del]

text \<open>After \<open>Success\<close>.\<close>

definition ExtendBTree_success :: "btree_file \<Rightarrow> int \<Rightarrow> int \<Rightarrow> int \<Rightarrow> (bt_err option \<times> btree_file) option" where
  "ExtendBTree_success f newTotalNodes oldTotalNodes newMapNodes =
     (let bt = M_BTreeHeaderDirty ((bf_btcb f) \<lparr> totalNodes := newTotalNodes,
            freeNodes := u32 (freeNodes (bf_btcb f) + (newTotalNodes - oldTotalNodes) - newMapNodes) \<rparr>);
          f1 = f \<lparr> bf_btcb := bt \<rparr>
      in do {
        (_, bt1, f2) \<leftarrow> UpdateHeader bt (bf_nodes f1) (\<lambda>node force. UpdateNode f1 0 node) f1 True;
        Some (None, f2 \<lparr> bf_btcb := bt1 \<rparr>) })"

text \<open>\<open>setEOF\<close> is \<open>setEndOfForkProc\<close>; it gets the minimal and the maximal end of file.\<close>

definition ExtendBTree :: "(btree_file \<Rightarrow> int \<Rightarrow> int \<Rightarrow> bt_err option \<times> btree_file) \<Rightarrow> btree_file \<Rightarrow> int \<Rightarrow>
    (bt_err option \<times> btree_file) option" where
  "ExtendBTree setEOF f newTotalNodes =
     (let oldTotalNodes = totalNodes (bf_btcb f); sz = nodeSize (bf_btcb f); mapNodeRecSize = u16 (sz - 14 - 6) in
      if newTotalNodes \<le> oldTotalNodes then Some (None, f)
      else do {
        r \<leftarrow> count_map f None 0;
        case r of Inl err \<Rightarrow> Some (Some err, f)
        | Inr c \<Rightarrow>
            (let minEOF = newTotalNodes * sz;
                 (err, f1) = (if u64 (bf_eof f) < minEOF then setEOF f minEOF (0x7fffffff * sz) else (None, f)) in
             case err of Some err \<Rightarrow> Some (Some err, f1)
             | None \<Rightarrow>
                 let total = u32 (bf_eof f1) div sz; f2 = f1 \<lparr> bf_btcb := (bf_btcb f1) \<lparr> totalNodes := total \<rparr> \<rparr> in
                 if total \<le> mc_total c then ExtendBTree_success f2 total oldTotalNodes 0
                 else do {
                   let newMapNodes = (total - mc_total c) div 8 div mapNodeRecSize + 1;
                   node \<leftarrow> wr32 (mc_node c) 0 oldTotalNodes;
                   (err, f3) \<leftarrow> new_map_nodes (nat (newMapNodes - 1)) f2 oldTotalNodes;
                   case err of Some err \<Rightarrow> Some (Some err, f3)
                   | None \<Rightarrow> do {
                       (err, f4) \<leftarrow> mark_map_nodes (nat (newMapNodes - 1)) f3 oldTotalNodes (c \<lparr> mc_node := node \<rparr>);
                       case err of Some err \<Rightarrow> Some (Some err, f4)
                       | None \<Rightarrow> ExtendBTree_success f4 total oldTotalNodes newMapNodes } }) })"

section \<open>Reserving nodes\<close>

datatype reserve_err = ENOSPC | BTErr bt_err

abbreviation (input) HFS_BT_MAXRESERVE :: int where "HFS_BT_MAXRESERVE \<equiv> 10 * 1024 * 1024"

text \<open>The number of nodes to reserve for \<open>operations\<close>: the inserts in the low half, the deletes in the high half.\<close>

definition rsrv_nodes :: "int \<Rightarrow> int \<Rightarrow> int" where
  "rsrv_nodes depth operations =
     (let height = (if depth < 2 then 2 else depth); inserts = operations AND 0xffff; deletes = drop_bit 16 operations
      in s32 (1 + deletes * (height - 2) + inserts * (height - 1)))"

text \<open>The free blocks left for the tree and the clump size during the call, or \<open>ENOSPC\<close>.\<close>

definition reserve_blocks :: "btree_file \<Rightarrow> int \<Rightarrow> int \<Rightarrow> int \<Rightarrow> int \<Rightarrow> int \<Rightarrow> int \<Rightarrow> int option" where
  "reserve_blocks f allocLimit bs freeblks operations rsrvNodes availNodes =
     (let inserts = operations AND 0xffff; deletes = drop_bit 16 operations;
          bt_rsrv = (if bs > HFS_BT_MAXRESERVE then 1 else u32 (HFS_BT_MAXRESERVE div bs));
          rsrvblks = min (u32 (allocLimit * 5) div 100) bt_rsrv;
          add_only = (inserts > 0 \<and> deletes = 0) in
      if freeblks \<le> rsrvblks \<and> add_only then None
      else let free = (if freeblks \<le> rsrvblks then 0 else freeblks - rsrvblks) in
        if bf_clumpsize f div bs > free then
          if u32 ((rsrvNodes - availNodes) * nodeSize (bf_btcb f)) div bs > free \<and> add_only then None
          else Some (u32 (free * bs))
        else Some (bf_clumpsize f))"

text \<open>\<open>freeblks\<close> is the value of \<open>hfs_freeblks(hfsmp, 0)\<close>, \<open>data\<close> the cookie of a persistent request.\<close>

definition BTReserveSpace :: "(btree_file \<Rightarrow> int \<Rightarrow> int \<Rightarrow> bt_err option \<times> btree_file) \<Rightarrow> int \<Rightarrow> int \<Rightarrow> int \<Rightarrow> int \<Rightarrow> btree_file \<Rightarrow> int \<Rightarrow>
    cookie option \<Rightarrow> (reserve_err option \<times> btree_file) option" where
  "BTReserveSpace setEOF tag allocLimit bs freeblks f operations data =
     (let bt = bf_btcb f; rsrvNodes = rsrv_nodes (treeDepth bt) operations;
          availNodes = s32 (freeNodes bt - reservedNodes bt);
          save = (\<lambda>f1. case data of None \<Rightarrow> f1
                  | Some c \<Rightarrow> (case save_reserve tag (bf_reserve f1) (bf_fileRefNum f1) (reservedNodes (bf_btcb f1)) c rsrvNodes of
                      (r, st) \<Rightarrow> f1 \<lparr> bf_btcb := (bf_btcb f1) \<lparr> reservedNodes := r \<rparr>, bf_reserve := st \<rparr>)) in
      if rsrvNodes \<le> availNodes then Some (None, save f)
      else case reserve_blocks f allocLimit bs freeblks operations rsrvNodes availNodes of
        None \<Rightarrow> Some (Some ENOSPC, f)
      | Some clump \<Rightarrow> do {
          let total = s32 (rsrvNodes + totalNodes bt - availNodes);
          bits \<leftarrow> CalcMapBits bt;
          let total = (if total > s32 bits then total + 1 else total);
          (err, f1) \<leftarrow> ExtendBTree setEOF (f \<lparr> bf_clumpsize := clump \<rparr>) (u32 total);
          let f2 = f1 \<lparr> bf_clumpsize := bf_clumpsize f \<rparr>;
          case err of Some e \<Rightarrow> Some (Some (BTErr e), f2) | None \<Rightarrow> Some (None, save f2) })"

end
