(* ===== verification/BTreeTreeOps.thy ===== *)
theory BTreeTreeOps
  imports BTreeAllocate
begin

text \<open>
  Insertion into and deletion from a tree: \<open>src/kmod/core/BTreeTreeOps.c\<close> (\<open>SearchTree\<close> is in \<open>BTreeSearch\<close>).

  A node that a routine has got from the block layer is a pair of its number and its bytes until the routine updates or
  releases it; a released node is not written.  Pointers to keys and data are the bytes from their address on.  The
  checks of debug builds, which only print a message, are left out.
\<close>

section \<open>Rotation\<close>

abbreviation kBTVariableIndexKeysMask :: int where "kBTVariableIndexKeysMask \<equiv> 4"

definition GetKeyLength :: "BTreeControlBlock \<Rightarrow> mem \<Rightarrow> bool \<Rightarrow> int option" where
  "GetKeyLength btreePtr key forLeafNode =
     (if forLeafNode \<or> attributes btreePtr AND kBTVariableIndexKeysMask \<noteq> 0 then KeyLength btreePtr key 0
      else Some (maxKeyLength btreePtr))"

definition RotateRecordLeft :: "BTreeControlBlock \<Rightarrow> mem \<Rightarrow> mem \<Rightarrow> (bool \<times> mem \<times> mem) option" where
  "RotateRecordLeft btreePtr leftNode rightNode = do {
     sz \<leftarrow> GetRecordSize btreePtr rightNode 0;
     recPtr \<leftarrow> GetRecordAddress btreePtr rightNode 0;
     numRecords \<leftarrow> rd_numRecords leftNode;
     (recordFit, left1) \<leftarrow> InsertRecord btreePtr leftNode numRecords (drop (nat recPtr) rightNode) sz;
     if \<not> recordFit then Some (False, leftNode, rightNode)
     else do {
       right1 \<leftarrow> DeleteRecord btreePtr rightNode 0;
       Some (True, left1, right1) } }"

text \<open>The size of the record \<open>moveIndex\<close> of the right node with the new record in it.\<close>

definition move_size :: "BTreeControlBlock \<Rightarrow> mem \<Rightarrow> int \<Rightarrow> int \<Rightarrow> int \<Rightarrow> int option" where
  "move_size btreePtr rightNode insertSize rightInsertIndex moveIndex =
     (if moveIndex < rightInsertIndex then map_option (\<lambda>s. s + 2) (GetRecordSize btreePtr rightNode moveIndex)
      else if moveIndex = rightInsertIndex then Some insertSize
      else map_option (\<lambda>s. s + 2) (GetRecordSize btreePtr rightNode (moveIndex - 1)))"

text \<open>The loop that looks for the balance point.\<close>

partial_function (option) RotateLeft_balance :: "BTreeControlBlock \<Rightarrow> mem \<Rightarrow> int \<Rightarrow> int \<Rightarrow> int \<Rightarrow> int \<Rightarrow> int \<Rightarrow> int \<Rightarrow>
    (int \<times> int \<times> int \<times> int) option" where
  "RotateLeft_balance btreePtr rightNode insertSize rightInsertIndex leftSize rightSize moveSize moveIndex =
     (if leftSize < rightSize then
        Option.bind (move_size btreePtr rightNode insertSize rightInsertIndex moveIndex) (\<lambda>sz.
          RotateLeft_balance btreePtr rightNode insertSize rightInsertIndex (leftSize + sz) (rightSize - sz) sz (u16 (moveIndex + 1)))
      else Some (leftSize, rightSize, moveSize, moveIndex))"

text \<open>Moves \<open>k\<close> records from record \<open>index\<close> on; \<open>ins\<close> is the index and the node of the new record.\<close>

fun RotateLeft_loop :: "nat \<Rightarrow> BTreeControlBlock \<Rightarrow> int \<Rightarrow> mem \<Rightarrow> int \<Rightarrow> mem \<Rightarrow> int \<Rightarrow> int \<Rightarrow> mem \<Rightarrow> mem \<Rightarrow> int \<times> int \<Rightarrow>
    (bt_err + mem \<times> mem \<times> int \<times> int) option" where
  "RotateLeft_loop 0 btreePtr rightInsertIndex keyPtr keyLength recPtr recSize index leftNode rightNode ins =
     Some (Inr (leftNode, rightNode, ins))"
| "RotateLeft_loop (Suc k) btreePtr rightInsertIndex keyPtr keyLength recPtr recSize index leftNode rightNode ins =
     (if index = rightInsertIndex then do {
        leftInsertIndex \<leftarrow> rd_numRecords leftNode;
        (didItFit, left1) \<leftarrow> InsertKeyRecord btreePtr leftNode leftInsertIndex keyPtr keyLength recPtr recSize;
        if \<not> didItFit then Some (Inl fsBTBadRotateErr)
        else do {
          bLink \<leftarrow> rd_bLink rightNode;
          RotateLeft_loop k btreePtr rightInsertIndex keyPtr keyLength recPtr recSize (index + 1) left1 rightNode (leftInsertIndex, bLink) } }
      else do {
        (didItFit, left1, right1) \<leftarrow> RotateRecordLeft btreePtr leftNode rightNode;
        if \<not> didItFit then Some (Inl fsBTBadRotateErr)
        else RotateLeft_loop k btreePtr rightInsertIndex keyPtr keyLength recPtr recSize (index + 1) left1 right1 ins })"

record rotate_result =
  rr_left :: mem
  rr_right :: mem
  rr_index :: int
  rr_node :: int
  rr_fit :: bool
  rr_rotated :: int

text \<open>The records that are moved: the balance point, with the last move undone when the left node would be too full.\<close>

definition RotateLeft_rotate :: "BTreeControlBlock \<Rightarrow> mem \<Rightarrow> mem \<Rightarrow> int \<Rightarrow> mem \<Rightarrow> int \<Rightarrow> mem \<Rightarrow> int \<Rightarrow> int \<Rightarrow> (bt_err + rotate_result) option" where
  "RotateLeft_rotate btreePtr leftNode rightNode rightInsertIndex keyPtr keyLength recPtr recSize moveIndex = do {
     r \<leftarrow> RotateLeft_loop (nat moveIndex) btreePtr rightInsertIndex keyPtr keyLength recPtr recSize 0 leftNode rightNode (0, 0);
     case r of Inl err \<Rightarrow> Some (Inl err)
     | Inr (left1, right1, insertIndex, insertNodeNum) \<Rightarrow>
         if moveIndex \<le> rightInsertIndex then do {
           (didItFit, right2) \<leftarrow> InsertKeyRecord btreePtr right1 (rightInsertIndex - moveIndex) keyPtr keyLength recPtr recSize;
           if \<not> didItFit then Some (Inl fsBTBadRotateErr)
           else do {
             fLink \<leftarrow> rd_fLink left1;
             Some (Inr \<lparr> rr_left = left1, rr_right = right2, rr_index = rightInsertIndex - moveIndex, rr_node = fLink, rr_fit = True, rr_rotated = moveIndex \<rparr>) } }
         else Some (Inr \<lparr> rr_left = left1, rr_right = right1, rr_index = insertIndex, rr_node = insertNodeNum, rr_fit = True, rr_rotated = moveIndex \<rparr>) }"

definition RotateLeft :: "BTreeControlBlock \<Rightarrow> mem \<Rightarrow> mem \<Rightarrow> int \<Rightarrow> mem \<Rightarrow> mem \<Rightarrow> int \<Rightarrow> (bt_err + rotate_result) option" where
  "RotateLeft btreePtr leftNode rightNode rightInsertIndex keyPtr recPtr recSize = do {
     kind \<leftarrow> rd_kind rightNode;
     keyLength \<leftarrow> GetKeyLength btreePtr keyPtr (kind = kBTLeafNode);
     let lengthFieldSize = (if bigKeys btreePtr then 2 else 1);
     let insertSize0 = keyLength + lengthFieldSize + recSize + 2;
     let insertSize = (if M_IsOdd insertSize0 then insertSize0 + 1 else insertSize0);
     rightFree \<leftarrow> GetNodeFreeSize btreePtr rightNode;
     leftFree \<leftarrow> GetNodeFreeSize btreePtr leftNode;
     (leftSize, rightSize, moveSize, moveIndex) \<leftarrow>
       RotateLeft_balance btreePtr rightNode insertSize rightInsertIndex (nodeSize btreePtr - leftFree)
         (nodeSize btreePtr - rightFree + insertSize) 0 0;
     let (rightSize1, moveIndex1) = (if leftSize > nodeSize btreePtr then (rightSize + moveSize, u16 (moveIndex - 1)) else (rightSize, moveIndex));
     if rightSize1 > nodeSize btreePtr
     then Some (Inr \<lparr> rr_left = leftNode, rr_right = rightNode, rr_index = 0, rr_node = 0, rr_fit = False, rr_rotated = 0 \<rparr>)
     else RotateLeft_rotate btreePtr leftNode rightNode rightInsertIndex keyPtr keyLength recPtr recSize moveIndex1 }"

section \<open>Splitting a node\<close>

definition siblings_match :: "mem \<Rightarrow> mem \<Rightarrow> int \<Rightarrow> bool option" where
  "siblings_match left right rightNodeNum = do {
     fLink \<leftarrow> rd_fLink left; lh \<leftarrow> rd_height left; rh \<leftarrow> rd_height right; lk \<leftarrow> rd_kind left; rk \<leftarrow> rd_kind right;
     Some (fLink = rightNodeNum \<and> lh = rh \<and> lk = rk) }"

text \<open>The new left node, which takes its place between the old left sibling and the right node.\<close>

definition init_left :: "mem \<Rightarrow> mem \<Rightarrow> int \<Rightarrow> mem option" where
  "init_left left right rightNodeNum = do {
     bLink \<leftarrow> rd_bLink right; kind \<leftarrow> rd8 right 8; height \<leftarrow> rd_height right;
     left1 \<leftarrow> wr32 left 0 rightNodeNum;
     left2 \<leftarrow> wr32 left1 4 bLink;
     left3 \<leftarrow> wr8 left2 8 kind;
     wr8 left3 9 height }"

text \<open>The result: the number of the new left node and the two nodes after the rotation.\<close>

definition SplitLeft :: "int \<Rightarrow> btree_file \<Rightarrow> (int \<times> mem) option \<Rightarrow> mem \<Rightarrow> int \<Rightarrow> int \<Rightarrow> mem \<Rightarrow> mem \<Rightarrow> int \<Rightarrow>
    ((bt_err + int \<times> rotate_result) \<times> btree_file) option" where
  "SplitLeft tag f leftNode right rightNodeNum index keyPtr recPtr recSize = do {
     height \<leftarrow> rd_height right;
     kind \<leftarrow> rd_kind right;
     ok \<leftarrow> (case leftNode of None \<Rightarrow> Some True | Some (_, left) \<Rightarrow> siblings_match left right rightNodeNum);
     if height = 1 \<and> kind \<noteq> kBTLeafNode \<or> \<not> ok then Some (Inl fsBTInvalidNodeErr, f)
     else do {
       (r, f1) \<leftarrow> AllocateNode tag f;
       case r of Inl err \<Rightarrow> Some (Inl err, f1)
       | Inr newNodeNum \<Rightarrow> do {
           (err, f2) \<leftarrow> (case leftNode of None \<Rightarrow> Some (None, f1)
             | Some (n, left) \<Rightarrow> do { left1 \<leftarrow> wr32 left 0 newNodeNum; Some (UpdateNode f1 n left1) });
           case err of Some err \<Rightarrow> Some (Inl err, f2)
           | None \<Rightarrow> do {
               r \<leftarrow> GetNewNode f2 newNodeNum;
               case r of Inl err \<Rightarrow> Some (Inl err, f2)
               | Inr new \<Rightarrow> do {
                   left \<leftarrow> init_left new right rightNodeNum;
                   bLink \<leftarrow> rd_bLink right;
                   right1 \<leftarrow> wr32 right 4 newNodeNum;
                   let f3 = (if kind = kBTLeafNode \<and> bLink = 0
                             then f2 \<lparr> bf_btcb := M_BTreeHeaderDirty ((bf_btcb f2) \<lparr> firstLeafNode := newNodeNum \<rparr>) \<rparr> else f2);
                   r \<leftarrow> RotateLeft (bf_btcb f3) left right1 index keyPtr recPtr recSize;
                   case r of Inl err \<Rightarrow> Some (Inl err, f3)
                   | Inr rr \<Rightarrow> Some (Inr (newNodeNum, rr), f3) } } } } }"

text \<open>The index record of a child: its first key and the bytes that hold its number.\<close>

definition add_child :: "BTreeControlBlock \<Rightarrow> mem \<Rightarrow> int \<Rightarrow> mem \<Rightarrow> mem \<Rightarrow> mem option" where
  "add_child btreePtr root index child num = do {
     a \<leftarrow> GetRecordAddress btreePtr child 0;
     keyLength \<leftarrow> GetKeyLength btreePtr (drop (nat a) child) False;
     (_, root1) \<leftarrow> InsertKeyRecord btreePtr root index (drop (nat a) child) keyLength num 4;
     Some root1 }"

definition AddNewRootNode :: "int \<Rightarrow> btree_file \<Rightarrow> mem \<Rightarrow> mem \<Rightarrow> (bt_err option \<times> btree_file) option" where
  "AddNewRootNode tag f leftNode rightNode = do {
     (r, f1) \<leftarrow> AllocateNode tag f;
     case r of Inl err \<Rightarrow> Some (Some err, f1)
     | Inr rootNum \<Rightarrow> do {
         r \<leftarrow> GetNewNode f1 rootNum;
         case r of Inl err \<Rightarrow> Some (Some err, f1)
         | Inr root \<Rightarrow> do {
             let depth = u16 (treeDepth (bf_btcb f1) + 1);
             let f2 = f1 \<lparr> bf_btcb := (bf_btcb f1) \<lparr> treeDepth := depth \<rparr> \<rparr>;
             root1 \<leftarrow> wr8 root 8 kBTIndexNode;
             root2 \<leftarrow> wr8 root1 9 depth;
             root3 \<leftarrow> add_child (bf_btcb f2) root2 0 leftNode (drop 4 rightNode);
             root4 \<leftarrow> add_child (bf_btcb f2) root3 1 rightNode leftNode;
             case UpdateNode f2 rootNum root4 of
               (Some err, f3) \<Rightarrow> Some (Some err, f3)
             | (None, f3) \<Rightarrow> Some (None, f3 \<lparr> bf_btcb := M_BTreeHeaderDirty ((bf_btcb f3) \<lparr> rootNode := rootNum \<rparr>) \<rparr>) } } }"

section \<open>Insertion\<close>

record InsertKey =
  ik_keyPtr :: mem
  ik_keyLength :: int
  ik_recPtr :: mem
  ik_recSize :: int
  ik_replacingKey :: bool
  ik_skipRotate :: bool

text \<open>The nodes of a level that an insertion has in its hands and what it has to tell the parent.\<close>

record insert_level =
  il_right :: mem
  il_left :: "(int \<times> mem) option"
  il_updateParent :: bool
  il_insertParent :: bool

type_synonym insert_result = "(bt_err + int \<times> int \<times> bool \<times> insert_level) \<times> btree_file"

definition parent_changes :: "InsertKey \<Rightarrow> int \<Rightarrow> int \<Rightarrow> bool" where
  "parent_changes key recsRotated index \<longleftrightarrow> ik_replacingKey key \<or> recsRotated > 1 \<or> index > 0"

definition InsertNode_split :: "int \<Rightarrow> btree_file \<Rightarrow> InsertKey \<Rightarrow> insert_level \<Rightarrow> int \<Rightarrow> int \<Rightarrow> insert_result option" where
  "InsertNode_split tag f key s node index = do {
     (r, f1) \<leftarrow> SplitLeft tag f (il_left s) (il_right s) node index (ik_keyPtr key) (ik_recPtr key) (ik_recSize key);
     case r of Inl err \<Rightarrow> Some (Inl err, f1)
     | Inr (newNodeNum, rr) \<Rightarrow> do {
         let s1 = s \<lparr> il_left := Some (newNodeNum, rr_left rr), il_right := rr_right rr \<rparr>;
         height \<leftarrow> rd_height (rr_right rr);
         if height = treeDepth (bf_btcb f1) then do {
           (err, f2) \<leftarrow> AddNewRootNode tag f1 (rr_left rr) (rr_right rr);
           case err of Some err \<Rightarrow> Some (Inl err, f2)
           | None \<Rightarrow> Some (Inr (rr_node rr, rr_index rr, True, s1), f2) }
         else Some (Inr (rr_node rr, rr_index rr, False,
           s1 \<lparr> il_insertParent := True, il_updateParent := il_updateParent s \<or> parent_changes key (rr_rotated rr) index \<rparr>), f1) } }"

text \<open>Gets the left sibling, unless it is there already, and rotates into it.\<close>

definition InsertNode_rotate :: "int \<Rightarrow> btree_file \<Rightarrow> InsertKey \<Rightarrow> insert_level \<Rightarrow> int \<Rightarrow> int \<Rightarrow> int \<Rightarrow> insert_result option" where
  "InsertNode_rotate tag f key s node index leftNodeNum =
     (case (case il_left s of Some l \<Rightarrow> Inr l | None \<Rightarrow>
              (case GetNode (bf_btcb f) (bf_nodes f) leftNodeNum of Inl err \<Rightarrow> Inl err | Inr left \<Rightarrow> Inr (leftNodeNum, left))) of
        Inl err \<Rightarrow> Some (Inl err, f)
      | Inr (n, left) \<Rightarrow>
          let s1 = s \<lparr> il_left := Some (n, left) \<rparr> in
          if ik_skipRotate key then InsertNode_split tag f key s1 node index
          else do {
            r \<leftarrow> RotateLeft (bf_btcb f) left (il_right s) index (ik_keyPtr key) (ik_recPtr key) (ik_recSize key);
            case r of Inl err \<Rightarrow> Some (Inl err, f)
            | Inr rr \<Rightarrow>
                let s2 = s1 \<lparr> il_left := Some (n, rr_left rr), il_right := rr_right rr \<rparr> in
                if rr_fit rr then Some (Inr (rr_node rr, rr_index rr, False,
                  s2 \<lparr> il_updateParent := il_updateParent s \<or> parent_changes key (rr_rotated rr) index \<rparr>), f)
                else InsertNode_split tag f key s2 node index })"

text \<open>The node and the index of the new record, if there is a new root, and the nodes of the level.\<close>

definition InsertNode :: "int \<Rightarrow> btree_file \<Rightarrow> InsertKey \<Rightarrow> insert_level \<Rightarrow> int \<Rightarrow> int \<Rightarrow> insert_result option" where
  "InsertNode tag f key s node index = do {
     leftNodeNum \<leftarrow> rd_bLink (il_right s);
     if node = leftNodeNum \<and> il_left s = None then Some (Inl fsBTInvalidNodeErr, f)
     else do {
       let target = (if node = leftNodeNum then snd (the (il_left s)) else il_right s);
       (recordFit, target1) \<leftarrow> InsertKeyRecord (bf_btcb f) target index (ik_keyPtr key) (ik_keyLength key) (ik_recPtr key) (ik_recSize key);
       if recordFit then do {
         height \<leftarrow> rd_height target1;
         let s1 = (if node = leftNodeNum then s \<lparr> il_left := Some (fst (the (il_left s)), target1) \<rparr> else s \<lparr> il_right := target1 \<rparr>);
         Some (Inr (node, index, False,
           s1 \<lparr> il_updateParent := il_updateParent s \<or> index = 0 \<and> height \<noteq> treeDepth (bf_btcb f) \<rparr>), f) }
       else if leftNodeNum > 0 then InsertNode_rotate tag f key s node index leftNodeNum
       else InsertNode_split tag f key s node index } }"

definition path_at :: "TreePathTable \<Rightarrow> nat \<Rightarrow> TreePathRecord option" where
  "path_at path level = (if level < length path then Some (path ! level) else None)"

text \<open>The key of the parent's record for a node: its first key and the four bytes that hold its number.\<close>

definition parent_key :: "BTreeControlBlock \<Rightarrow> mem \<Rightarrow> mem \<Rightarrow> bool \<Rightarrow> bool \<Rightarrow> InsertKey option" where
  "parent_key btreePtr node num replacing skip = do {
     a \<leftarrow> GetRecordAddress btreePtr node 0;
     keyLength \<leftarrow> GetKeyLength btreePtr (drop (nat a) node) False;
     Some \<lparr> ik_keyPtr = drop (nat a) node, ik_keyLength = keyLength, ik_recPtr = num, ik_recSize = 4,
       ik_replacingKey = replacing, ik_skipRotate = skip \<rparr> }"

text \<open>The parent node and the keys to insert there; the record of the changed node is deleted from it first.\<close>

definition parent_insert :: "btree_file \<Rightarrow> insert_level \<Rightarrow> int \<Rightarrow> TreePathRecord \<Rightarrow>
    (bt_err + mem \<times> InsertKey \<times> InsertKey option) option" where
  "parent_insert f s targetNodeNum p =
     (case GetNode (bf_btcb f) (bf_nodes f) (tp_node p) of
        Inl err \<Rightarrow> Some (Inl err)
      | Inr parent \<Rightarrow> do {
          parent1 \<leftarrow> (if il_updateParent s then DeleteRecord (bf_btcb f) parent (tp_index p) else Some parent);
          upd \<leftarrow> (if il_updateParent s
            then map_option Some (parent_key (bf_btcb f) (il_right s) (le_bytes 4 targetNodeNum) True (il_insertParent s)) else Some None);
          new \<leftarrow> (if il_insertParent s
            then map_option Some (parent_key (bf_btcb f) (case il_left s of Some (_, left) \<Rightarrow> left | None \<Rightarrow> []) (drop 4 (il_right s)) False False) else Some None);
          case (upd, new) of
            (Some k, k2) \<Rightarrow> Some (Inr (parent1, k, k2))
          | (None, Some k) \<Rightarrow> Some (Inr (parent1, k, None))
          | (None, None) \<Rightarrow> None })"

text \<open>The last steps of a level: both nodes are written.\<close>

definition finish_level :: "btree_file \<Rightarrow> insert_level \<Rightarrow> int \<Rightarrow> bt_err option \<times> btree_file" where
  "finish_level f s targetNodeNum =
     (case UpdateNode f targetNodeNum (il_right s) of
        (Some err, f1) \<Rightarrow> (Some err, f1)
      | (None, f1) \<Rightarrow> (case il_left s of None \<Rightarrow> (None, f1) | Some (n, left) \<Rightarrow> UpdateNode f1 n left))"

text \<open>Both insertions of a level: the nodes, the path with a new root, and the node of the first record.\<close>

definition InsertLevel_nodes :: "int \<Rightarrow> btree_file \<Rightarrow> TreePathTable \<Rightarrow> InsertKey \<Rightarrow> InsertKey option \<Rightarrow> mem \<Rightarrow> int \<Rightarrow> int \<Rightarrow> nat \<Rightarrow>
    ((bt_err + int \<times> TreePathTable \<times> insert_level) \<times> btree_file) option" where
  "InsertLevel_nodes tag f path primaryKey secondaryKey target targetNodeNum index level = do {
     (r, f1) \<leftarrow> InsertNode tag f primaryKey \<lparr> il_right = target, il_left = None, il_updateParent = False, il_insertParent = False \<rparr> targetNodeNum index;
     case r of Inl err \<Rightarrow> Some (Inl err, f1)
     | Inr (newNodeNum, newIndex, newRoot, s) \<Rightarrow> do {
         path1 \<leftarrow> (if newRoot then set_path path (level + 1) (rootNode (bf_btcb f1)) 1 else Some path);
         case secondaryKey of None \<Rightarrow> Some (Inr (newNodeNum, path1, s), f1)
         | Some key2 \<Rightarrow> do {
             (r, f2) \<leftarrow> InsertNode tag f1 key2 s newNodeNum newIndex;
             case r of Inl err \<Rightarrow> Some (Inl err, f2)
             | Inr (_, _, _, s1) \<Rightarrow> Some (Inr (newNodeNum, path1, s1), f2) } } }"

partial_function (option) InsertLevel :: "int \<Rightarrow> btree_file \<Rightarrow> TreePathTable \<Rightarrow> InsertKey \<Rightarrow> InsertKey option \<Rightarrow> mem \<Rightarrow> int \<Rightarrow> nat \<Rightarrow> int \<Rightarrow>
    (bt_err option \<times> int \<times> btree_file) option" where
  "InsertLevel tag f path primaryKey secondaryKey target index level insertNode =
     Option.bind (path_at path level) (\<lambda>p.
     Option.bind (InsertLevel_nodes tag f path primaryKey secondaryKey target (tp_node p) index level) (\<lambda>(r, f1).
       case r of Inl err \<Rightarrow> Some (Some err, insertNode, f1)
       | Inr (newNodeNum, path1, s) \<Rightarrow>
           let insertNode1 = (if level = 1 then newNodeNum else insertNode) in
           if il_insertParent s \<or> il_updateParent s then
             Option.bind (path_at path1 (level + 1)) (\<lambda>q.
             Option.bind (parent_insert f1 s (tp_node p) q) (\<lambda>r.
               case r of Inl err \<Rightarrow> Some (Some err, insertNode1, f1)
               | Inr (parent, key1, key2) \<Rightarrow>
                   Option.bind (InsertLevel tag f1 path1 key1 key2 parent (tp_index q) (level + 1) insertNode1) (\<lambda>(err, insertNode2, f2).
                     case err of Some err \<Rightarrow> Some (Some err, insertNode2, f2)
                     | None \<Rightarrow> (case finish_level f2 s (tp_node p) of (err, f3) \<Rightarrow> Some (err, insertNode2, f3)))))
           else (case finish_level f1 s (tp_node p) of (err, f2) \<Rightarrow> Some (err, insertNode1, f2))))"

definition InsertTree :: "int \<Rightarrow> btree_file \<Rightarrow> TreePathTable \<Rightarrow> mem \<Rightarrow> mem \<Rightarrow> int \<Rightarrow> mem \<Rightarrow> int \<Rightarrow> nat \<Rightarrow> bool \<Rightarrow> int \<Rightarrow>
    (bt_err option \<times> int \<times> btree_file) option" where
  "InsertTree tag f path keyPtr recPtr recSize target index level replacingKey insertNode = do {
     keyLength \<leftarrow> GetKeyLength (bf_btcb f) keyPtr (level = 1);
     InsertLevel tag f path \<lparr> ik_keyPtr = keyPtr, ik_keyLength = keyLength, ik_recPtr = recPtr, ik_recSize = recSize,
       ik_replacingKey = replacingKey, ik_skipRotate = False \<rparr> None target index level insertNode }"

section \<open>Deletion\<close>

partial_function (option) CollapseTree_loop :: "btree_file \<Rightarrow> int \<Rightarrow> mem \<Rightarrow> ((bt_err + int \<times> mem) \<times> btree_file) option" where
  "CollapseTree_loop f n node =
     Option.bind (rd_numRecords node) (\<lambda>numRecords.
     Option.bind (rd_kind node) (\<lambda>kind.
       if numRecords > 1 \<or> kind = kBTLeafNode then Some (Inr (n, node), f)
       else
         let nodeNum = rootNode (bf_btcb f) in
         Option.bind (GetChildNodeNum (bf_btcb f) node 0) (\<lambda>child.
         Option.bind (ClearNode (bf_btcb f) node) (\<lambda>cleared.
           let f1 = f \<lparr> bf_btcb := (bf_btcb f) \<lparr> rootNode := child, treeDepth := u16 (treeDepth (bf_btcb f) - 1) \<rparr> \<rparr> in
           case UpdateNode f1 n cleared of
             (Some err, f2) \<Rightarrow> Some (Inl err, f2)
           | (None, f2) \<Rightarrow>
               Option.bind (FreeNode f2 nodeNum) (\<lambda>(err, f3).
                 case err of Some err \<Rightarrow> Some (Inl err, f3)
                 | None \<Rightarrow>
                     (case GetNode (bf_btcb f3) (bf_nodes f3) (rootNode (bf_btcb f3)) of
                        Inl err \<Rightarrow> Some (Inl err, f3)
                      | Inr node1 \<Rightarrow> CollapseTree_loop f3 (rootNode (bf_btcb f3)) node1))))))"

definition CollapseTree :: "btree_file \<Rightarrow> int \<Rightarrow> mem \<Rightarrow> (bt_err option \<times> btree_file) option" where
  "CollapseTree f n node = do {
     (r, f1) \<leftarrow> CollapseTree_loop f n node;
     case r of Inl err \<Rightarrow> Some (Some err, f1)
     | Inr (n1, node1) \<Rightarrow>
         let f2 = (if rootNode (bf_btcb f1) \<noteq> rootNode (bf_btcb f) then f1 \<lparr> bf_btcb := M_BTreeHeaderDirty (bf_btcb f1) \<rparr> else f1)
         in Some (UpdateNode f2 n1 node1) }"

text \<open>Sets the link at address \<open>a\<close> of the sibling \<open>n\<close> to \<open>link\<close>.\<close>

definition set_link :: "btree_file \<Rightarrow> int \<Rightarrow> int \<Rightarrow> int \<Rightarrow> (bt_err option \<times> btree_file) option" where
  "set_link f n a link =
     (case GetNode (bf_btcb f) (bf_nodes f) n of
        Inl err \<Rightarrow> Some (Some err, f)
      | Inr node \<Rightarrow> do { node1 \<leftarrow> wr32 node a link; Some (UpdateNode f n node1) })"

text \<open>Takes an empty node out of the chain of its siblings, clears and frees it.\<close>

definition unlink_node :: "btree_file \<Rightarrow> int \<Rightarrow> mem \<Rightarrow> (bt_err option \<times> btree_file) option" where
  "unlink_node f targetNodeNum node = do {
     bLink \<leftarrow> rd_bLink node;
     fLink \<leftarrow> rd_fLink node;
     kind \<leftarrow> rd_kind node;
     (err, f1) \<leftarrow> (if bLink \<noteq> 0 then set_link f bLink 0 fLink
       else Some (None, if kind = kBTLeafNode then f \<lparr> bf_btcb := (bf_btcb f) \<lparr> firstLeafNode := fLink \<rparr> \<rparr> else f));
     case err of Some err \<Rightarrow> Some (Some err, f1)
     | None \<Rightarrow> do {
         (err, f2) \<leftarrow> (if fLink \<noteq> 0 then set_link f1 fLink 4 bLink
           else Some (None, if kind = kBTLeafNode then f1 \<lparr> bf_btcb := (bf_btcb f1) \<lparr> lastLeafNode := bLink \<rparr> \<rparr> else f1));
         case err of Some err \<Rightarrow> Some (Some err, f2)
         | None \<Rightarrow> do {
             cleared \<leftarrow> ClearNode (bf_btcb f2) node;
             case UpdateNode f2 targetNodeNum cleared of
               (Some err, f3) \<Rightarrow> Some (Some err, f3)
             | (None, f3) \<Rightarrow> FreeNode f3 targetNodeNum } } }"

text \<open>The root of the tree has lost a record: it was freed, or it may have only one child left.\<close>

definition fix_root :: "btree_file \<Rightarrow> int \<Rightarrow> mem option \<Rightarrow> (bt_err option \<times> btree_file) option" where
  "fix_root f n node =
     (case node of
        None \<Rightarrow> Some (None, f \<lparr> bf_btcb := (bf_btcb f) \<lparr> rootNode := 0, treeDepth := 0 \<rparr> \<rparr>)
      | Some node \<Rightarrow> do {
          numRecords \<leftarrow> rd_numRecords node;
          if numRecords = 1 then CollapseTree f n node else Some (UpdateNode f n node) })"

partial_function (option) DeleteTree :: "int \<Rightarrow> btree_file \<Rightarrow> TreePathTable \<Rightarrow> mem \<Rightarrow> int \<Rightarrow> nat \<Rightarrow> (bt_err option \<times> btree_file) option" where
  "DeleteTree tag f path target index level =
     Option.bind (path_at path level) (\<lambda>p.
     Option.bind (DeleteRecord (bf_btcb f) target index) (\<lambda>node.
     Option.bind (rd_numRecords node) (\<lambda>numRecords.
     Option.bind (if numRecords = 0 then unlink_node f (tp_node p) node else Some (None, f)) (\<lambda>(err, f1).
       case err of Some err \<Rightarrow> Some (Some err, f1)
       | None \<Rightarrow>
           if int level = treeDepth (bf_btcb f1) then fix_root f1 (tp_node p) (if numRecords = 0 then None else Some node)
           else if numRecords = 0 \<or> index = 0 then
             Option.bind (path_at path (level + 1)) (\<lambda>q.
               case GetNode (bf_btcb f1) (bf_nodes f1) (tp_node q) of
                 Inl err \<Rightarrow> Some (Some err, f1)
               | Inr parent \<Rightarrow>
                   if numRecords = 0 then DeleteTree tag f1 path parent (tp_index q) (level + 1)
                   else
                     Option.bind (DeleteRecord (bf_btcb f1) parent (tp_index q)) (\<lambda>parent1.
                     Option.bind (GetRecordAddress (bf_btcb f1) node 0) (\<lambda>a.
                     Option.bind (InsertTree tag f1 path (drop (nat a) node) (le_bytes 4 (tp_node p)) 4 parent1 (tp_index q) (level + 1) True 0) (\<lambda>(err, _, f2).
                       case err of Some err \<Rightarrow> Some (Some err, f2)
                       | None \<Rightarrow> Some (UpdateNode f2 (tp_node p) node)))))
           else Some (UpdateNode f1 (tp_node p) node)))))"

end
