(* ===== verification/NodeMap.thy ===== *)
theory NodeMap
  imports BTreeAllocate
begin

text \<open>
  The map of used nodes of a tree as a sequence of bits, and what \<open>AllocateNode\<close> and \<open>FreeNode\<close> of
  \<open>src/kmod/core/BTreeAllocate.c\<close> do to it.
\<close>

section \<open>The map of used nodes\<close>

text \<open>The bits of a sequence of bytes, the most significant bit of the first byte first.\<close>

definition map_used :: "mem \<Rightarrow> nat \<Rightarrow> bool" where
  "map_used bs j \<longleftrightarrow> bit (bs ! (j div 8)) (7 - j mod 8)"

text \<open>The number of the map record in node \<open>n\<close>, the contents of node \<open>n\<close> and of its map record.\<close>

definition map_index :: "int \<Rightarrow> nat" where
  "map_index n = (if n = 0 then 2 else 0)"

definition node_at :: "btree_file \<Rightarrow> int \<Rightarrow> mem" where
  "node_at f n = (case bf_nodes f n of Inl _ \<Rightarrow> [] | Inr node \<Rightarrow> node)"

definition map_bytes :: "btree_file \<Rightarrow> int \<Rightarrow> mem" where
  "map_bytes f n = record_at (bf_btcb f) (node_at f n) (map_index n)"

definition map_node_ok :: "btree_file \<Rightarrow> int \<Rightarrow> bool" where
  "map_node_ok f n \<longleftrightarrow> bf_nodes f n = Inr (node_at f n) \<and> n < totalNodes (bf_btcb f) \<and> node_wf (bf_btcb f) (node_at f n) \<and>
     map_index n < nrec (node_at f n) \<and> rd_kind (node_at f n) = Some (if n = 0 then kBTHeaderNode else kBTMapNode) \<and>
     even (length (map_bytes f n)) \<and> map_bytes f n \<noteq> []"

text \<open>The nodes that hold the map are linked in the order of the list.\<close>

fun map_chain :: "btree_file \<Rightarrow> int list \<Rightarrow> bool" where
  "map_chain f [] \<longleftrightarrow> False"
| "map_chain f [n] \<longleftrightarrow> map_node_ok f n \<and> get32 (node_at f n) 0 = 0"
| "map_chain f (n # m # ns) \<longleftrightarrow> map_node_ok f n \<and> get32 (node_at f n) 0 = m \<and> m \<noteq> 0 \<and> map_chain f (m # ns)"

definition tree_map :: "btree_file \<Rightarrow> int list \<Rightarrow> mem" where
  "tree_map f ns = concat (map (map_bytes f) ns)"

abbreviation map_bits :: "btree_file \<Rightarrow> int list \<Rightarrow> nat" where
  "map_bits f ns \<equiv> 8 * length (tree_map f ns)"

definition map_ok :: "btree_file \<Rightarrow> int list \<Rightarrow> bool" where
  "map_ok f ns \<longleftrightarrow> hd ns = 0 \<and> distinct ns \<and> map_chain f ns \<and> int (map_bits f ns) < 2 ^ 32"

text \<open>The node that holds bit \<open>k\<close> of the map.\<close>

fun map_node_of :: "btree_file \<Rightarrow> int list \<Rightarrow> nat \<Rightarrow> int" where
  "map_node_of f [] k = 0"
| "map_node_of f (n # ns) k = (if k < 8 * length (map_bytes f n) then n else map_node_of f ns (k - 8 * length (map_bytes f n)))"

subsection \<open>Words of the map\<close>

lemma length2E:
  assumes "length bs = 2" obtains a b where "bs = [a, b]"
  using assms by (auto simp: numeral_2_eq_2 length_Suc_conv)

lemma le_bytes_2: "le_bytes 2 v = [word_of_int v, word_of_int (v div 256)]"
  by (simp add: numeral_2_eq_2)

lemma le_bytes_2_ops:
  "le_bytes 2 (v OR w) = map2 (OR) (le_bytes 2 v) (le_bytes 2 w)"
  "le_bytes 2 (v AND w) = map2 (AND) (le_bytes 2 v) (le_bytes 2 w)"
  using drop_bit_or [of 8 v w] drop_bit_and [of 8 v w] by (simp_all add: le_bytes_2 of_int_or_eq of_int_and_eq drop_bit_eq_div)

lemma bit_le_bytes_2:
  "m < 8 \<Longrightarrow> bit (le_bytes 2 v ! 0) m = bit v m" "m < 8 \<Longrightarrow> bit (le_bytes 2 v ! 1) m = bit v (8 + m)"
  using bit_drop_bit_eq [of 8 v] by (simp_all add: le_bytes_2 bit_word_of_int_iff drop_bit_eq_div)

lemma le_bytes_2_SWAP: "le_bytes 2 (SWAP_BE16 v) = rev (le_bytes 2 v)"
  by (simp add: SWAP_BE16_def le_bytes_val)

lemma bit_SWAP_BE16:
  assumes "length bs = 2" "c < 2" "m < 8"
  shows "bit (SWAP_BE16 (le_val bs)) (8 * (1 - c) + m) = bit (bs ! c) m"
proof -
  obtain a b where bs: "bs = [a, b]" using assms(1) by (rule length2E)
  have "le_bytes 2 (SWAP_BE16 (le_val bs)) = [b, a]" using le_bytes_SWAP(1) [OF assms(1)] bs by simp
  with bit_le_bytes_2 [OF assms(3), of "SWAP_BE16 (le_val bs)"] assms(2) bs show ?thesis
    by (cases "c = 0") (auto simp: less_2_cases_iff)
qed

lemma word_full_iff:
  assumes "length bs = 2" shows "le_val bs = 0xFFFF \<longleftrightarrow> (\<forall>b < 16. map_used bs b)"
proof -
  obtain a b where bs: "bs = [a, b]" using assms(1) by (rule length2E)
  have u: "uint (- 1 :: 8 word) = 255" by (simp add: unsigned_minus_1_eq_mask mask_eq_exp_minus_1)
  have f: "(\<forall>m < 8. bit x m) \<longleftrightarrow> uint x = 255" for x :: "8 word"
  proof
    assume "\<forall>m < 8. bit x m"
    then have "x = - 1" by (intro bit_eqI) simp
    then show "uint x = 255" using u by simp
  next
    assume "uint x = 255"
    then have "x = - 1" using u by (metis unsigned_word_eqI)
    then show "\<forall>m < 8. bit x m" by simp
  qed
  have "(\<forall>j < 16. map_used bs j) \<longleftrightarrow> (\<forall>m < 8. bit a m) \<and> (\<forall>m < 8. bit b m)"
  proof
    assume u: "\<forall>j < 16. map_used bs j"
    have "bit a m" "bit b m" if "m < 8" for m
    proof -
      define r where "r = 7 - m"
      have r: "r < 8" "m = 7 - r" "8 + r < 16" using that by (auto simp: r_def)
      show "bit a m" "bit b m" using u [rule_format, of r] u [rule_format, OF r(3)] r(1,2) by (auto simp: map_used_def bs)
    qed
    then show "(\<forall>m < 8. bit a m) \<and> (\<forall>m < 8. bit b m)" by simp
  next
    assume u: "(\<forall>m < 8. bit a m) \<and> (\<forall>m < 8. bit b m)"
    show "\<forall>j < 16. map_used bs j"
    proof (intro allI impI)
      fix j :: nat assume "j < 16"
      then have "j div 8 = 0 \<or> j div 8 = 1" by auto
      then show "map_used bs j" using u by (auto simp: map_used_def bs)
    qed
  qed
  moreover have "le_val bs = 0xFFFF \<longleftrightarrow> uint a = 255 \<and> uint b = 255"
    using uint_lt2p [of a] uint_lt2p [of b] uint_ge_0 [of a] uint_ge_0 [of b] by (auto simp: bs)
  ultimately show ?thesis by (simp add: f)
qed

lemma map_used_slice:
  assumes "in_mem bs (2 * int i) 2" "b < 16"
  shows "map_used (bytes_at bs (2 * int i) 2) b = map_used bs (16 * i + b)"
proof -
  have "(16 * i + b) mod 8 = (b + 2 * i * 8) mod 8" by (rule arg_cong [where f = "\<lambda>x. x mod 8"]) simp
  then have "(16 * i + b) mod 8 = b mod 8" by (simp only: mod_mult_self1)
  moreover
  have "(16 * i + b) div 8 = 2 * i + b div 8" "b div 8 < 2" using assms(2) by auto
  ultimately show ?thesis using assms(1) by (simp add: map_used_def nth_slice nat_mult_distrib)
qed

text \<open>The word of a map that starts at byte \<open>2 * i\<close>.\<close>

lemma map_word_full:
  assumes "in_mem bs (2 * int i) 2"
  shows "get16 bs (2 * int i) = 0xFFFF \<longleftrightarrow> (\<forall>b < 16. map_used bs (16 * i + b))"
  using word_full_iff [of "bytes_at bs (2 * int i) 2"] assms by (simp add: get16_def map_used_slice)

lemma map_word_bit:
  assumes "in_mem bs (2 * int i) 2" "b < 16"
  shows "bit (SWAP_BE16 (get16 bs (2 * int i))) (15 - b) = map_used bs (16 * i + b)"
proof -
  have "8 * (1 - b div 8) + (7 - b mod 8) = 15 - b"
  proof (cases "b < 8")
    case False
    define r where "r = b - 8"
    have "b = 8 + r" "r < 8" using False assms(2) by (auto simp: r_def)
    then show ?thesis by simp
  qed simp
  then show ?thesis
    using bit_SWAP_BE16 [of "bytes_at bs (2 * int i) 2" "b div 8" "7 - b mod 8"] assms map_used_slice [OF assms]
    by (auto simp: get16_def map_used_def)
qed

text \<open>The search for a bit in a word.\<close>

lemma find_bit_run:
  "\<lbrakk> b < 16; \<not> bit w (15 - b); \<And>c. c < b \<Longrightarrow> bit w (15 - c); 15 - b \<le> k; k \<le> 15 \<rbrakk> \<Longrightarrow> find_bit k w = 15 - b"
proof (induction k)
  case (Suc k)
  show ?case
  proof (cases "15 - b = Suc k")
    case False
    then have "bit w (15 - (14 - k))" using Suc.prems by (intro Suc.prems(3)) auto
    moreover have "15 - (14 - k) = Suc k" using Suc.prems by simp
    ultimately have "w AND 2 ^ Suc k \<noteq> 0" by (simp only: and_exp_eq_0_iff_not_bit) simp
    then show ?thesis using False Suc by simp
  qed (use Suc.prems in \<open>simp add: and_exp_eq_0_iff_not_bit del: power_Suc\<close>)
qed simp

text \<open>Changing one bit.\<close>

definition map_set :: "mem \<Rightarrow> nat \<Rightarrow> bool \<Rightarrow> mem \<Rightarrow> bool" where
  "map_set bs k v bs' \<longleftrightarrow> length bs' = length bs \<and> (\<forall>j < 8 * length bs. map_used bs' j = (if j = k then v else map_used bs j))"

lemma bit_pow2: "bit (2 ^ n :: int) m \<longleftrightarrow> m = n"
  by (auto simp: bit_exp_iff)

lemma put_word:
  assumes "in_mem bs (2 * int i) 2" "b < 16" "length w = 2"
    "\<And>c m. c < 2 \<Longrightarrow> m < 8 \<Longrightarrow> bit (w ! c) m = (if 8 * (1 - c) + m = 15 - b then v else bit (bs ! (2 * i + c)) m)"
  shows "map_set bs (16 * i + b) v (put_bytes bs (2 * int i) w)"
  unfolding map_set_def
proof (intro conjI allI impI)
  show "length (put_bytes bs (2 * int i) w) = length bs" using assms by simp
  fix j assume j: "j < 8 * length bs"
  then have jl: "j div 8 < length bs" by auto
  show "map_used (put_bytes bs (2 * int i) w) j = (if j = 16 * i + b then v else map_used bs j)"
  proof (cases "2 * i \<le> j div 8 \<and> j div 8 < 2 * i + 2")
    case True
    define c m where "c = j div 8 - 2 * i" and "m = 7 - j mod 8"
    have cm: "c < 2" "m < 8" "j div 8 = 2 * i + c" using True by (auto simp: c_def m_def)
    have j': "j = 16 * i + (8 * c + (7 - m))" using True mult_div_mod_eq [of 8 j] unfolding cm(3) by (simp add: m_def)
    have "(8 * (1 - c) + m = 15 - b) = (j = 16 * i + b)" using cm assms(2) unfolding j' by (auto simp: less_2_cases_iff)
    then show ?thesis using assms(4) [OF cm(1,2)] assms(1,3) jl True
      by (simp add: map_used_def nth_splice nat_mult_distrib cm(3) m_def [symmetric])
  next
    case False
    then have "j \<noteq> 16 * i + b" using assms(2) by auto
    then show ?thesis using False assms(1,3) jl by (auto simp: map_used_def nth_splice nat_mult_distrib)
  qed
qed

lemma set_map_bit:
  assumes "in_mem bs (2 * int i) 2" "b < 16"
  shows "map_set bs (16 * i + b) True (put_bytes bs (2 * int i) (le_bytes 2 (get16 bs (2 * int i) OR SWAP_BE16 (2 ^ (15 - b)))))"
    "map_set bs (16 * i + b) False (put_bytes bs (2 * int i) (le_bytes 2 (get16 bs (2 * int i) AND SWAP_BE16 (u16 (NOT (2 ^ (15 - b)))))))"
proof -
  have g: "le_bytes 2 (get16 bs (2 * int i)) ! c = bs ! (2 * i + c)" if "c < 2" for c
    using assms(1) that by (simp add: get16_def le_bytes_val nth_slice nat_mult_distrib)
  have r: "bit (rev (le_bytes 2 v) ! c) m = bit v (8 * (1 - c) + m)" if "c < 2" "m < 8" for v c m
    using that bit_le_bytes_2 [of m v] by (auto simp: rev_nth less_2_cases_iff)
  have u: "bit (u16 (NOT x)) n = (\<not> bit x n)" if "n < 16" for x n
    using that by (simp only: u16_def take_bit_eq_mod [symmetric]) (simp add: bit_take_bit_iff bit_not_iff)
  show "map_set bs (16 * i + b) True (put_bytes bs (2 * int i) (le_bytes 2 (get16 bs (2 * int i) OR SWAP_BE16 (2 ^ (15 - b)))))"
    by (rule put_word [OF assms]) (auto simp: le_bytes_2_ops le_bytes_2_SWAP g r bit_or_iff bit_pow2)
  show "map_set bs (16 * i + b) False (put_bytes bs (2 * int i) (le_bytes 2 (get16 bs (2 * int i) AND SWAP_BE16 (u16 (NOT (2 ^ (15 - b)))))))"
    by (rule put_word [OF assms]) (auto simp: le_bytes_2_ops le_bytes_2_SWAP g r bit_and_iff bit_pow2 u)
qed

subsection \<open>The chain of map records\<close>

text \<open>What \<open>GetMapNode\<close> returns for node \<open>n\<close>.\<close>

definition map_seg :: "btree_file \<Rightarrow> int \<Rightarrow> int \<times> mem \<times> int \<times> int" where
  "map_seg f n = (n, node_at f n, roff (bf_btcb f) (node_at f n) (map_index n), int (length (map_bytes f n)))"

lemma map_node_okD:
  assumes "map_node_ok f n"
  shows "bf_nodes f n = Inr (node_at f n)" "n < totalNodes (bf_btcb f)" "node_wf (bf_btcb f) (node_at f n)"
    "map_index n < nrec (node_at f n)" "rd_kind (node_at f n) = Some (if n = 0 then kBTHeaderNode else kBTMapNode)"
    "even (length (map_bytes f n))" "map_bytes f n \<noteq> []"
  using assms by (auto simp: map_node_ok_def)

lemma map_record_ok: "map_node_ok f n \<Longrightarrow> map_record f n (node_at f n) (int (map_index n)) = Some (Inr (map_seg f n))"
  using GetRecordSize_wf [of "bf_btcb f" "node_at f n" "map_index n"] length_record_at [of "bf_btcb f" "node_at f n" "map_index n"]
  by (simp add: map_node_ok_def map_record_def map_seg_def map_bytes_def)

lemma rd_fLink_ok: "map_node_ok f n \<Longrightarrow> rd_fLink (node_at f n) = Some (get32 (node_at f n) 0)"
  using node_wfD(1,3) [OF map_node_okD(3), of f n] by (simp add: rd_fLink_def rd_in in_mem_def)

lemma map_chainD: "map_chain f (n # ns) \<Longrightarrow> map_node_ok f n"
  by (cases ns) auto

lemma map_chain_ok: "map_chain f ns \<Longrightarrow> n \<in> set ns \<Longrightarrow> map_node_ok f n"
  by (induction f ns rule: map_chain.induct) auto

lemma map_chain_append: "map_chain f (pre @ n # suf) \<Longrightarrow> map_chain f (n # suf)"
  by (induction f pre rule: map_chain.induct) (cases suf; auto)+

lemma GetNode_ok: "map_node_ok f n \<Longrightarrow> GetNode (bf_btcb f) (bf_nodes f) n = Inr (node_at f n)"
  using map_node_okD(1,2) [of f n] by (auto simp: GetNode_def)

lemma GetMapNode_first: "map_chain f (0 # ns) \<Longrightarrow> GetMapNode f None = Some (Inr (map_seg f 0))"
  using map_record_ok [of f 0] map_chainD [of f 0 ns]
  by (auto simp: GetMapNode_def GetNode_ok map_node_okD map_index_def)

lemma GetMapNode_next:
  "map_chain f (n # m # ns) \<Longrightarrow> GetMapNode f (Some (n, node_at f n)) = Some (Inr (map_seg f m))"
  using map_record_ok [of f m] map_chainD [of f m ns] rd_fLink_ok [of f n]
  by (auto simp: GetMapNode_def GetNode_ok map_node_okD map_index_def)

lemma GetMapNode_last:
  "map_chain f [n] \<Longrightarrow> GetMapNode f (Some (n, node_at f n)) = Some (Inl fsBTNoMoreMapNodesErr)"
  using rd_fLink_ok [of f n] by (auto simp: GetMapNode_def)

text \<open>The words of a map record.\<close>

lemma map_seg_mem:
  assumes "map_node_ok f n"
  defines "p \<equiv> roff (bf_btcb f) (node_at f n) (map_index n)"
  shows "in_mem (node_at f n) p (int (length (map_bytes f n)))"
    "in_mem (map_bytes f n) a k \<Longrightarrow> in_mem (node_at f n) (p + a) k"
    "in_mem (map_bytes f n) a 2 \<Longrightarrow> get16 (node_at f n) (p + a) = get16 (map_bytes f n) a"
proof -
  note r = record_in_mem [OF map_node_okD(3,4) [OF assms(1)]] length_record_at [OF map_node_okD(3,4) [OF assms(1)]]
  show m: "in_mem (node_at f n) p (int (length (map_bytes f n)))" using r by (simp add: map_bytes_def p_def)
  then show *: "in_mem (map_bytes f n) a k \<Longrightarrow> in_mem (node_at f n) (p + a) k" for a k by (auto simp: in_mem_def)
  assume a: "in_mem (map_bytes f n) a 2"
  show "get16 (node_at f n) (p + a) = get16 (map_bytes f n) a"
    unfolding get16_def
    using a r m by (intro arg_cong [where f = le_val] slice_eqI *) (auto simp: map_bytes_def record_at_def nth_slice p_def in_mem_def nat_add_distrib add.assoc)
qed

lemma map_word_rd:
  assumes "map_node_ok f n" "2 * (i + 1) \<le> length (map_bytes f n)"
  shows "rd16 (node_at f n) (roff (bf_btcb f) (node_at f n) (map_index n) + 2 * int i) = Some (get16 (map_bytes f n) (2 * int i))"
proof -
  have i: "in_mem (map_bytes f n) (2 * int i) 2" using assms(2) by (simp add: in_mem_def)
  show ?thesis by (simp add: rd_in map_seg_mem(2,3) [OF assms(1) i])
qed

lemma find_word_run:
  assumes "map_node_ok f n" "2 * (i + k) \<le> length (map_bytes f n)" "0 < i + k"
  defines "p \<equiv> roff (bf_btcb f) (node_at f n) (map_index n)" and "w \<equiv> \<lambda>j. get16 (map_bytes f n) (2 * int j)"
  shows "i \<le> l \<Longrightarrow> l < i + k \<Longrightarrow> w l \<noteq> 0xFFFF \<Longrightarrow> (\<And>j. i \<le> j \<Longrightarrow> j < l \<Longrightarrow> w j = 0xFFFF) \<Longrightarrow>
      find_word k (node_at f n) (p + 2 * int i) = Some (p + 2 * int l)"
    "(\<And>j. i \<le> j \<Longrightarrow> j < i + k \<Longrightarrow> w j = 0xFFFF) \<Longrightarrow>
      find_word k (node_at f n) (p + 2 * int i) = Some (p + 2 * int (i + k - 1))"
proof -
  have rd: "rd16 (node_at f n) (p + 2 * int j) = Some (w j)" if "2 * (j + 1) \<le> length (map_bytes f n)" for j
    using map_word_rd [OF assms(1) that] by (simp add: p_def w_def)
  show "find_word k (node_at f n) (p + 2 * int i) = Some (p + 2 * int l)"
    if "i \<le> l" "l < i + k" "w l \<noteq> 0xFFFF" "\<And>j. i \<le> j \<Longrightarrow> j < l \<Longrightarrow> w j = 0xFFFF"
    using assms(2) that
  proof (induction k arbitrary: i)
    case (Suc k)
    show ?case
    proof (cases "i = l")
      case False
      have "find_word k (node_at f n) (p + 2 * int (Suc i)) = Some (p + 2 * int l)" using False Suc.prems by (intro Suc.IH) auto
      then show ?thesis using rd [of i] Suc.prems(5) [of i] Suc.prems False by (simp add: algebra_simps)
    qed (use rd [of i] Suc.prems in simp)
  qed simp
  show "find_word k (node_at f n) (p + 2 * int i) = Some (p + 2 * int (i + k - 1))"
    if "\<And>j. i \<le> j \<Longrightarrow> j < i + k \<Longrightarrow> w j = 0xFFFF"
    using assms(2,3) that
  proof (induction k arbitrary: i)
    case (Suc k)
    have "find_word k (node_at f n) (p + 2 * int (Suc i)) = Some (p + 2 * int (Suc i + k - 1))" using Suc.prems by (intro Suc.IH) auto
    then show ?case using rd [of i] Suc.prems(3) [of i] Suc.prems by (simp add: algebra_simps)
  qed (simp add: of_nat_diff algebra_simps)
qed

lemma tree_map_simps [simp]:
  "tree_map f [] = []" "tree_map f (n # ns) = map_bytes f n @ tree_map f ns" "tree_map f (ns @ ms) = tree_map f ns @ tree_map f ms"
  by (simp_all add: tree_map_def)

lemma map_used_append:
  "map_used (xs @ ys) j = (if j < 8 * length xs then map_used xs j else map_used ys (j - 8 * length xs))"
proof (cases "j < 8 * length xs")
  case False
  define r where "r = j - 8 * length xs"
  have r: "j = r + length xs * 8" using False by (simp add: r_def)
  have "j div 8 = r div 8 + length xs" "j mod 8 = r mod 8" unfolding r by simp_all
  then show ?thesis using False by (simp add: map_used_def nth_append r_def)
qed (auto simp: map_used_def nth_append)

text \<open>The record that holds bit \<open>k\<close>, and the number of the bit in it.\<close>

lemma map_locate:
  assumes "k < map_bits f ns"
  obtains pre n suf k' where "ns = pre @ n # suf" "k = map_bits f pre + k'" "k' < 8 * length (map_bytes f n)" "map_node_of f ns k = n"
proof -
  have "\<exists>pre n suf k'. ns = pre @ n # suf \<and> k = map_bits f pre + k' \<and> k' < 8 * length (map_bytes f n) \<and> map_node_of f ns k = n"
    using assms
  proof (induction ns arbitrary: k)
    case (Cons m ns)
    show ?case
    proof (cases "k < 8 * length (map_bytes f m)")
      case True
      then show ?thesis by (intro exI [of _ "[]"] exI [of _ m] exI [of _ ns] exI [of _ k]) simp
    next
      case False
      then have "k - 8 * length (map_bytes f m) < map_bits f ns" using Cons.prems by simp
      from Cons.IH [OF this] obtain pre n suf k' where "ns = pre @ n # suf" "k - 8 * length (map_bytes f m) = map_bits f pre + k'"
        "k' < 8 * length (map_bytes f n)" "map_node_of f ns (k - 8 * length (map_bytes f m)) = n"
        by blast
      then show ?thesis using False by (intro exI [of _ "m # pre"] exI [of _ n] exI [of _ suf] exI [of _ k']) auto
    qed
  qed simp
  then show thesis using that by blast
qed

lemma map_used_locate:
  "k' < 8 * length (map_bytes f n) \<Longrightarrow> map_used (tree_map f (pre @ n # suf)) (map_bits f pre + k') = map_used (map_bytes f n) k'"
  by (simp add: map_used_append)

lemma bits_full_words:
  assumes "\<And>j. j < 8 * length bs \<Longrightarrow> map_used bs j" "2 * (i + 1) \<le> length bs"
  shows "get16 bs (2 * int i) = 0xFFFF"
  using map_word_full [of bs i] assms by (simp add: in_mem_def)

lemma AllocateNode_loop_full:
  assumes "map_node_ok f n" "GetMapNode f np = Some (Inr (map_seg f n))" "\<And>j. j < 8 * length (map_bytes f n) \<Longrightarrow> map_used (map_bytes f n) j"
  shows "AllocateNode_loop f np base = AllocateNode_loop f (Some (n, node_at f n)) (u32 (base + 8 * int (length (map_bytes f n))))"
proof -
  let ?k = "length (map_bytes f n) div 2" and ?p = "roff (bf_btcb f) (node_at f n) (map_index n)"
  have k: "0 < ?k" "2 * ?k = length (map_bytes f n)" using map_node_okD(6,7) [OF assms(1)] by (cases "map_bytes f n"; auto elim!: oddE)+
  have w: "get16 (map_bytes f n) (2 * int i) = 0xFFFF" if "i < ?k" for i using that k by (intro bits_full_words assms(3)) auto
  have "find_word ?k (node_at f n) ?p = Some (?p + 2 * int (?k - 1))" using find_word_run(2) [OF assms(1), of 0 ?k] k w by simp
  moreover have "rd16 (node_at f n) (?p + 2 * int (?k - 1)) = Some 0xFFFF"
    using map_word_rd [OF assms(1), of "?k - 1"] w [of "?k - 1"] k by simp
  moreover have "nat (int (length (map_bytes f n)) div 2) = ?k" by simp
  ultimately show ?thesis
    by (subst AllocateNode_loop.simps) (simp add: assms(2) map_seg_def mult.commute)
qed

lemma AllocateNode_loop_free:
  assumes "map_node_ok f n" "GetMapNode f np = Some (Inr (map_seg f n))" "k < 8 * length (map_bytes f n)" "\<not> map_used (map_bytes f n) k"
    "\<And>j. j < k \<Longrightarrow> map_used (map_bytes f n) j"
  defines "p \<equiv> roff (bf_btcb f) (node_at f n) (map_index n)"
  shows "AllocateNode_loop f np base = Some (Inr (n, node_at f n, p, p + 2 * int (k div 16), base))"
proof -
  let ?n = "length (map_bytes f n) div 2" and ?i = "k div 16"
  have n: "2 * ?n = length (map_bytes f n)" using map_node_okD(6) [OF assms(1)] by simp
  have i: "?i < ?n" using n assms(3) by simp
  have w: "get16 (map_bytes f n) (2 * int i) = 0xFFFF" if "i < ?i" for i
    using that i n by (subst map_word_full) (auto simp: in_mem_def intro!: assms(5))
  have v: "get16 (map_bytes f n) (2 * int ?i) \<noteq> 0xFFFF"
    using i n assms(4) by (subst map_word_full) (auto simp: in_mem_def intro!: exI [of _ "k mod 16"])
  have "find_word ?n (node_at f n) p = Some (p + 2 * int ?i)" using find_word_run(1) [OF assms(1), of 0 ?n ?i] i n v w by (simp add: p_def)
  moreover have "rd16 (node_at f n) (p + 2 * int ?i) = Some (get16 (map_bytes f n) (2 * int ?i))"
    using map_word_rd [OF assms(1), of ?i] i n by (simp add: p_def)
  moreover have "nat (int (length (map_bytes f n)) div 2) = ?n" by simp
  ultimately show ?thesis using v
    by (subst AllocateNode_loop.simps) (simp add: assms(2) map_seg_def p_def)
qed

text \<open>The records before the one with the first free bit are skipped.\<close>

lemma AllocateNode_loop_skip:
  assumes "map_chain f (pre @ n # suf)" "GetMapNode f np = Some (Inr (map_seg f (hd (pre @ [n]))))"
    "\<And>j. j < map_bits f pre \<Longrightarrow> map_used (tree_map f pre) j" "0 \<le> base" "base + int (map_bits f pre) < 2 ^ 32"
  shows "\<exists>np'. AllocateNode_loop f np base = AllocateNode_loop f np' (base + int (map_bits f pre)) \<and> GetMapNode f np' = Some (Inr (map_seg f n))"
  using assms
proof (induction pre arbitrary: np base)
  case (Cons m pre)
  have m: "map_node_ok f m" using Cons.prems(1) by (simp add: map_chainD)
  have "map_used (map_bytes f m) j" if "j < 8 * length (map_bytes f m)" for j
    using Cons.prems(3) [of j] that by (simp add: map_used_append)
  then have 1: "AllocateNode_loop f np base = AllocateNode_loop f (Some (m, node_at f m)) (base + 8 * int (length (map_bytes f m)))"
    using AllocateNode_loop_full [OF m, of np base] Cons.prems by simp
  have g: "GetMapNode f (Some (m, node_at f m)) = Some (Inr (map_seg f (hd (pre @ [n]))))"
    using Cons.prems(1) GetMapNode_next [of f m] by (cases pre) auto
  have c: "map_chain f (pre @ n # suf)" using Cons.prems(1) by (cases pre) auto
  have "map_used (tree_map f pre) j" if "j < map_bits f pre" for j
    using Cons.prems(3) [of "8 * length (map_bytes f m) + j"] that by (simp add: map_used_append)
  from Cons.IH [OF c g this, of "base + 8 * int (length (map_bytes f m))"] Cons.prems(4,5)
  show ?case unfolding 1 by (simp add: algebra_simps)
qed auto


subsection \<open>Writing a word of the map\<close>

definition map_write :: "btree_file \<Rightarrow> int \<Rightarrow> nat \<Rightarrow> mem \<Rightarrow> btree_file \<Rightarrow> bool" where
  "map_write f n i w f' \<longleftrightarrow>
     bf_nodes f' = (bf_nodes f)(n := Inr (put_bytes (node_at f n) (roff (bf_btcb f) (node_at f n) (map_index n) + 2 * int i) w)) \<and>
     nodeSize (bf_btcb f') = nodeSize (bf_btcb f) \<and> totalNodes (bf_btcb f') = totalNodes (bf_btcb f)"

lemma nodeSize_cong:
  assumes "nodeSize bt' = nodeSize bt"
  shows "roff bt' = roff bt" "node_wf bt' = node_wf bt" "record_at bt' = record_at bt"
proof -
  show r: "roff bt' = roff bt" by (intro ext) (simp add: roff_def assms)
  then show "node_wf bt' = node_wf bt" "record_at bt' = record_at bt" by (auto intro!: ext simp: node_wf_def record_at_def assms)
qed

lemma same_desc_fields:
  assumes "same_desc node node'" "in_mem node 0 10" "length node' = length node"
  shows "rd_kind node' = rd_kind node" "get32 node' 0 = get32 node 0"
proof -
  have i: "in_mem node' 0 10" using assms by (simp add: in_mem_def)
  have s: "bytes_at node' a k = bytes_at node a k" if "0 \<le> a" "0 \<le> k" "a + k \<le> 10" for a k
    using assms(1) slice_slice [OF assms(2), of a k] slice_slice [OF i, of a k] that by (simp add: same_desc_def)
  show "rd_kind node' = rd_kind node" "get32 node' 0 = get32 node 0"
    using s [of 8 1] s [of 0 4] assms(2,3) by (simp_all add: rd_kind_def rd8_def rdn_def get32_def in_mem_def)
qed

lemma map_write_ok:
  assumes ok: "map_node_ok f n" and i: "2 * (i + 1) \<le> length (map_bytes f n)" and w: "length w = 2" and mw: "map_write f n i w f'"
  shows "map_bytes f' m = (if m = n then put_bytes (map_bytes f n) (2 * int i) w else map_bytes f m)"
    "map_node_ok f m \<Longrightarrow> map_node_ok f' m \<and> get32 (node_at f' m) 0 = get32 (node_at f m) 0"
proof -
  define bt node p where "bt = bf_btcb f" and "node = node_at f n" and "p = roff bt node (map_index n)"
  define node' where "node' = put_bytes node (p + 2 * int i) w"
  note d = map_node_okD [OF ok, folded bt_def node_def]
  note l = length_record_at [OF d(3,4)]
  have mb: "map_bytes f n = record_at bt node (map_index n)" by (simp add: map_bytes_def bt_def node_def)
  note c = nodeSize_cong [of "bf_btcb f'" "bf_btcb f"]
  have f': "bf_nodes f' = (bf_nodes f)(n := Inr node')" "nodeSize (bf_btcb f') = nodeSize bt" "totalNodes (bf_btcb f') = totalNodes bt"
    using mw by (auto simp: map_write_def node'_def p_def bt_def node_def)
  have na: "node_at f' m = (if m = n then node' else node_at f m)" for m by (simp add: node_at_def f')
  have im: "in_mem node (p + 2 * int i) 2" "in_mem node p (roff bt node (Suc (map_index n)) - p)"
    using record_in_mem(1) [OF d(3,4)] l i by (auto simp: mb p_def in_mem_def)
  have so: "same_outside node node' p (roff bt node (Suc (map_index n)))"
    using same_outside_mono [OF same_outside_splice [of node "p + 2 * int i" w]] im i l w by (auto simp: node'_def mb p_def)
  note cr = change_record [OF d(3,4) so [unfolded p_def]]
  have s: "roff bt node' (Suc (map_index n)) = roff bt node (Suc (map_index n))"
    using data_area_frame(5) [OF d(3) so] roff_range [OF d(3), of "map_index n"] roff_range [OF d(3), of "Suc (map_index n)"] d(4)
    by (simp add: p_def)
  have r: "record_at bt node' (map_index n) = put_bytes (map_bytes f n) (2 * int i) w"
  proof (rule nth_equalityI)
    have bl: "int (length (map_bytes f n)) = roff bt node (Suc (map_index n)) - p" using l by (simp add: mb p_def)
    have ib: "in_mem (map_bytes f n) (2 * int i) 2" using i by (simp add: in_mem_def)
    show "length (record_at bt node' (map_index n)) = length (put_bytes (map_bytes f n) (2 * int i) w)"
      using length_record_at [OF cr(1), of "map_index n"] cr(2,4) d(4) s bl w ib by (simp add: p_def)
    fix j assume "j < length (record_at bt node' (map_index n))"
    then have j: "j < length (map_bytes f n)" using length_record_at [OF cr(1), of "map_index n"] cr(2,4) d(4) s bl by (simp add: p_def)
    have "in_mem node' p (roff bt node (Suc (map_index n)) - p)" using im(2) same_outsideD(3) [OF so] by simp
    then have "record_at bt node' (map_index n) ! j = node' ! (nat p + j)"
      using j bl by (simp add: record_at_def cr(4) s p_def [symmetric] nth_slice)
    also have "\<dots> = put_bytes (map_bytes f n) (2 * int i) w ! j"
      using j bl im ib w i
      by (auto simp: node'_def nth_splice mb record_at_def p_def [symmetric] nth_slice in_mem_def nat_add_distrib nat_mult_distrib)
    finally show "record_at bt node' (map_index n) ! j = put_bytes (map_bytes f n) (2 * int i) w ! j" .
  qed
  show b: "map_bytes f' m = (if m = n then put_bytes (map_bytes f n) (2 * int i) w else map_bytes f m)" for m
    using r by (simp add: map_bytes_def na c(3) f'(2) bt_def)
  have ds: "rd_kind node' = rd_kind node" "get32 node' 0 = get32 node 0"
    using same_desc_fields [OF cr(3)] node_wfD(1,3) [OF d(3)] same_outsideD(1) [OF so] by (auto simp: in_mem_def)
  have ib: "in_mem (map_bytes f n) (2 * int i) (int (length w))" using i w by (simp add: in_mem_def)
  show "map_node_ok f' m \<and> get32 (node_at f' m) 0 = get32 (node_at f m) 0" if "map_node_ok f m"
  proof (cases "m = n")
    case True
    have "put_bytes (map_bytes f n) (2 * int i) w \<noteq> []" using length_splice [OF ib] d(7) by (metis length_0_conv)
    then show ?thesis using True d cr(1,2) ds f' ib by (simp add: map_node_ok_def na b c(2) bt_def node_def)
  qed (use that f' in \<open>simp add: map_node_ok_def na b c(2) bt_def\<close>)
qed

lemma map_write_chain:
  assumes "map_node_ok f n" "2 * (i + 1) \<le> length (map_bytes f n)" "length w = 2" "map_write f n i w f'"
  shows "map_chain f ns \<Longrightarrow> map_chain f' ns"
  by (induction ns rule: induct_list012) (use map_write_ok(2) [OF assms] in auto)

lemma map_set_append:
  assumes "map_set xs k v xs'" "k < 8 * length xs"
  shows "map_set (ps @ xs @ ss) (8 * length ps + k) v (ps @ xs' @ ss)"
  using assms by (auto simp: map_set_def map_used_append)

lemma map_write_set:
  assumes ok: "map_ok f ns" and ns: "ns = pre @ n # suf" and i: "2 * (i + 1) \<le> length (map_bytes f n)" and w: "length w = 2"
    and mw: "map_write f n i w f'"
    and s: "map_set (map_bytes f n) k v (put_bytes (map_bytes f n) (2 * int i) w)" "k < 8 * length (map_bytes f n)"
  shows "map_ok f' ns" "map_set (tree_map f ns) (map_bits f pre + k) v (tree_map f' ns)"
proof -
  have n: "map_node_ok f n" using ok ns by (auto simp: map_ok_def intro: map_chain_ok)
  have d: "n \<notin> set pre" "n \<notin> set suf" using ok ns by (auto simp: map_ok_def)
  have e: "tree_map f' ms = tree_map f ms" if "n \<notin> set ms" for ms
    using that by (induction ms) (auto simp: map_write_ok(1) [OF n i w mw])
  then have "tree_map f' ns = tree_map f pre @ put_bytes (map_bytes f n) (2 * int i) w @ tree_map f suf"
    using d by (simp add: ns map_write_ok(1) [OF n i w mw])
  with map_set_append [OF s] show t: "map_set (tree_map f ns) (map_bits f pre + k) v (tree_map f' ns)" by (simp add: ns)
  then show "map_ok f' ns" using ok map_write_chain [OF n i w mw, of ns] by (simp add: map_ok_def map_set_def)
qed

section \<open>\<open>AllocateNode\<close>\<close>

lemma map_chain_link: "map_chain f (pre @ [n]) \<Longrightarrow> map_chain f [n]"
  by (rule map_chain_append)

text \<open>The number of the first free bit of the map.\<close>

definition first_free :: "mem \<Rightarrow> nat \<Rightarrow> bool" where
  "first_free bs k \<longleftrightarrow> k < 8 * length bs \<and> \<not> map_used bs k \<and> (\<forall>j < k. map_used bs j)"

lemma map_ok_first:
  assumes "map_ok f (pre @ n # suf)"
  shows "GetMapNode f None = Some (Inr (map_seg f (hd (pre @ [n]))))"
proof -
  have "map_chain f (pre @ n # suf)" "hd (pre @ n # suf) = 0" using assms by (auto simp: map_ok_def)
  then show ?thesis using GetMapNode_first [of f "tl (pre @ n # suf)"] by (cases pre) auto
qed

lemma AllocateNode_loop_none:
  assumes "map_ok f ns" "\<And>j. j < map_bits f ns \<Longrightarrow> map_used (tree_map f ns) j"
  shows "AllocateNode_loop f None 0 = Some (Inl fsBTNoMoreMapNodesErr)"
proof -
  have c: "map_chain f ns" "hd ns = 0" "int (map_bits f ns) < 2 ^ 32" using assms(1) by (auto simp: map_ok_def)
  then obtain pre n where ns: "ns = pre @ [n]" by (cases ns rule: rev_cases) auto
  have n: "map_node_ok f n" using c ns by (auto intro: map_chain_ok)
  have g: "GetMapNode f None = Some (Inr (map_seg f (hd (pre @ [n]))))" using map_ok_first [of f pre n "[]"] assms(1) ns by simp
  have u: "map_used (tree_map f pre) j" if "j < map_bits f pre" for j using assms(2) [of j] that by (simp add: ns map_used_append)
  obtain np where "AllocateNode_loop f None 0 = AllocateNode_loop f np (int (map_bits f pre))" "GetMapNode f np = Some (Inr (map_seg f n))"
    using AllocateNode_loop_skip [of f pre n "[]" None 0, OF _ g u] c ns by auto
  moreover have "map_used (map_bytes f n) j" if "j < 8 * length (map_bytes f n)" for j
    using assms(2) [of "map_bits f pre + j"] that by (simp add: ns map_used_append)
  moreover have "AllocateNode_loop f (Some (n, node_at f n)) b = Some (Inl fsBTNoMoreMapNodesErr)" for b
    using GetMapNode_last [of f n] map_chain_link [of f pre n] c(1) ns by (subst AllocateNode_loop.simps) simp
  ultimately show ?thesis using AllocateNode_loop_full [OF n, of np] by simp
qed

lemma AllocateNode_loop_some:
  assumes "map_ok f ns" "first_free (tree_map f ns) k"
  obtains pre n suf k' where "ns = pre @ n # suf" "k = map_bits f pre + k'" "map_node_of f ns k = n" "map_node_ok f n" "first_free (map_bytes f n) k'"
    "AllocateNode_loop f None 0 = Some (Inr (n, node_at f n, roff (bf_btcb f) (node_at f n) (map_index n),
       roff (bf_btcb f) (node_at f n) (map_index n) + 2 * int (k' div 16), int (map_bits f pre)))"
proof -
  have c: "map_chain f ns" "hd ns = 0" "int (map_bits f ns) < 2 ^ 32" using assms(1) by (auto simp: map_ok_def)
  have k: "k < map_bits f ns" "\<not> map_used (tree_map f ns) k" "\<And>j. j < k \<Longrightarrow> map_used (tree_map f ns) j"
    using assms(2) by (auto simp: first_free_def)
  from map_locate [OF k(1)] obtain pre n suf k' where
    s: "ns = pre @ n # suf" "k = map_bits f pre + k'" "k' < 8 * length (map_bytes f n)" "map_node_of f ns k = n" .
  have n: "map_node_ok f n" using c s by (auto intro: map_chain_ok)
  have g: "GetMapNode f None = Some (Inr (map_seg f (hd (pre @ [n]))))" using map_ok_first [of f pre n suf] assms(1) s(1) by simp
  have u: "map_used (tree_map f pre) j" if "j < map_bits f pre" for j using k(3) [of j] that by (simp add: s map_used_append)
  have f: "first_free (map_bytes f n) k'"
    using k(2) k(3) [of "map_bits f pre + _"] s(3) by (auto simp: s(1,2) first_free_def map_used_append)
  obtain np where "AllocateNode_loop f None 0 = AllocateNode_loop f np (int (map_bits f pre))" "GetMapNode f np = Some (Inr (map_seg f n))"
    using AllocateNode_loop_skip [of f pre n suf None 0, OF _ g u] c s(1) by auto
  with AllocateNode_loop_free [OF n, of np k'] f s(3) show thesis by (intro that [OF s(1,2,4) n f]) (auto simp: first_free_def)
qed

lemma first_free_bit:
  assumes "first_free bs k" "even (length bs)"
  defines "w \<equiv> SWAP_BE16 (get16 bs (2 * int (k div 16)))"
  shows "find_bit 15 w = 15 - k mod 16" "2 * (k div 16 + 1) \<le> length bs"
proof -
  have k: "k < 8 * length bs" "\<not> map_used bs k" "\<And>j. j < k \<Longrightarrow> map_used bs j" using assms(1) by (auto simp: first_free_def)
  obtain h where h: "length bs = 2 * h" using assms(2) by (elim evenE)
  have "k div 16 < h" using k(1) h by simp
  then show l: "2 * (k div 16 + 1) \<le> length bs" using h by simp
  have b: "bit w (15 - b) = map_used bs (16 * (k div 16) + b)" if "b < 16" for b
    unfolding w_def using l that by (intro map_word_bit) (auto simp: in_mem_def)
  have "bit w (15 - c)" if "c < k mod 16" for c using b [of c] k(3) [of "16 * (k div 16) + c"] that mod_less_divisor [of 16 k] mult_div_mod_eq [of 16 k] by simp
  then show "find_bit 15 w = 15 - k mod 16" using b [of "k mod 16"] k(2) by (intro find_bit_run) auto
qed

lemma AllocateNode_none:
  assumes "map_ok f ns" "\<And>j. j < map_bits f ns \<Longrightarrow> map_used (tree_map f ns) j"
  shows "AllocateNode tag f = Some (Inl fsBTNoMoreMapNodesErr, f)"
  by (simp add: AllocateNode_def AllocateNode_loop_none [OF assms])

lemma AllocateNode_run:
  assumes ok: "map_ok f ns" and k: "first_free (tree_map f ns) k"
  shows "totalNodes (bf_btcb f) \<le> int k \<Longrightarrow> AllocateNode tag f = Some (Inl fsBTFullErr, f)"
    "int k < totalNodes (bf_btcb f) \<Longrightarrow> bf_write_err f (map_node_of f ns k) = Some e \<Longrightarrow> AllocateNode tag f = Some (Inl e, f)"
    "int k < totalNodes (bf_btcb f) \<Longrightarrow> bf_write_err f (map_node_of f ns k) = None \<Longrightarrow>
      \<exists>node. let f' = f \<lparr> bf_nodes := (bf_nodes f)(map_node_of f ns k := Inr node),
          bf_btcb := M_BTreeHeaderDirty ((bf_btcb f) \<lparr> freeNodes := u32 (freeNodes (bf_btcb f) - 1) \<rparr>),
          bf_reserve := BTUpdateReserve tag (bf_reserve f) (bf_fileRefNum f) 1 \<rparr>
        in AllocateNode tag f = Some (Inr (int k), f') \<and> map_ok f' ns \<and> map_set (tree_map f ns) k True (tree_map f' ns)"
proof -
  from AllocateNode_loop_some [OF ok k] obtain pre n suf k' where s: "ns = pre @ n # suf" "k = map_bits f pre + k'" "map_node_of f ns k = n"
    "map_node_ok f n" "first_free (map_bytes f n) k'" and
    lp: "AllocateNode_loop f None 0 = Some (Inr (n, node_at f n, roff (bf_btcb f) (node_at f n) (map_index n),
       roff (bf_btcb f) (node_at f n) (map_index n) + 2 * int (k' div 16), int (map_bits f pre)))" .
  define i b bs where "i = k' div 16" and "b = k' mod 16" and "bs = map_bytes f n"
  define p where "p = roff (bf_btcb f) (node_at f n) (map_index n)"
  define w where "w = get16 bs (2 * int i)"
  define node where "node = put_bytes (node_at f n) (p + 2 * int i) (le_bytes 2 (w OR SWAP_BE16 (2 ^ (15 - b))))"
  note fb = first_free_bit [OF s(5) map_node_okD(6) [OF s(4)], folded i_def bs_def, folded w_def b_def]
  have b: "b < 16" "16 * i + b = k'" by (simp_all add: b_def i_def)
  have kk: "k < map_bits f ns" "int (map_bits f ns) < 2 ^ 32" using k ok by (auto simp: first_free_def map_ok_def)
  have rd: "rd16 (node_at f n) (p + 2 * int i) = Some w" unfolding p_def w_def bs_def using fb(2) by (intro map_word_rd s(4)) (simp add: bs_def)
  have im: "in_mem (node_at f n) (p + 2 * int i) 2" "in_mem bs (2 * int i) 2"
    using map_seg_mem(2) [OF s(4), of "2 * int i" 2] fb(2) by (auto simp: in_mem_def bs_def p_def)
  have nn: "u32 (8 * int (length (tree_map f pre)) + (int i * 16 + (15 - int (15 - b)))) = int k"
    using b kk by (simp add: s(2) of_nat_diff flip: b(2))
  note run = AllocateNode_def lp [folded p_def i_def] rd fb(1) nn wr_in(2) [OF im(1)] UpdateNode_def Let_def
  show "AllocateNode tag f = Some (Inl fsBTFullErr, f)" if "totalNodes (bf_btcb f) \<le> int k" using that by (simp add: run)
  show "AllocateNode tag f = Some (Inl e, f)" if "int k < totalNodes (bf_btcb f)" "bf_write_err f (map_node_of f ns k) = Some e"
    using that by (simp add: run s(3))
  assume a: "int k < totalNodes (bf_btcb f)" "bf_write_err f (map_node_of f ns k) = None"
  define f' where "f' = f \<lparr> bf_nodes := (bf_nodes f)(map_node_of f ns k := Inr node),
          bf_btcb := M_BTreeHeaderDirty ((bf_btcb f) \<lparr> freeNodes := u32 (freeNodes (bf_btcb f) - 1) \<rparr>),
          bf_reserve := BTUpdateReserve tag (bf_reserve f) (bf_fileRefNum f) 1 \<rparr>"
  have mw: "map_write f n i (le_bytes 2 (w OR SWAP_BE16 (2 ^ (15 - b)))) f'"
    by (simp add: map_write_def f'_def node_def p_def s(3) M_BTreeHeaderDirty_def)
  have "map_set bs k' True (put_bytes bs (2 * int i) (le_bytes 2 (w OR SWAP_BE16 (2 ^ (15 - b)))))"
    using set_map_bit(1) [OF im(2) b(1)] by (simp add: w_def b(2))
  from map_write_set [OF ok s(1) fb(2) [unfolded bs_def] _ mw this [unfolded bs_def]] s(2,5)
  have "map_ok f' ns" "map_set (tree_map f ns) k True (tree_map f' ns)" by (auto simp: first_free_def)
  moreover have "AllocateNode tag f = Some (Inr (int k), f')" using a by (simp add: run s(3) f'_def node_def)
  ultimately show "\<exists>node. let f' = f \<lparr> bf_nodes := (bf_nodes f)(map_node_of f ns k := Inr node),
          bf_btcb := M_BTreeHeaderDirty ((bf_btcb f) \<lparr> freeNodes := u32 (freeNodes (bf_btcb f) - 1) \<rparr>),
          bf_reserve := BTUpdateReserve tag (bf_reserve f) (bf_fileRefNum f) 1 \<rparr>
        in AllocateNode tag f = Some (Inr (int k), f') \<and> map_ok f' ns \<and> map_set (tree_map f ns) k True (tree_map f' ns)"
    by (intro exI [of _ node]) (simp add: f'_def)
qed


section \<open>\<open>FreeNode\<close>\<close>

lemma FreeNode_loop_step:
  assumes "map_node_ok f n" "GetMapNode f np = Some (Inr (map_seg f n))"
    "next_index = u32 (base + 8 * int (length (map_bytes f n)))"
  shows "next_index \<le> num \<Longrightarrow> FreeNode_loop f num np base = FreeNode_loop f num (Some (n, node_at f n)) next_index"
    "num < next_index \<Longrightarrow> FreeNode_loop f num np base =
       Some (Inr (n, node_at f n, roff (bf_btcb f) (node_at f n) (map_index n), int (length (map_bytes f n)), next_index))"
  by (subst FreeNode_loop.simps, simp add: assms map_seg_def Let_def mult.commute)+

lemma FreeNode_loop_skip:
  assumes "map_chain f (pre @ n # suf)" "GetMapNode f np = Some (Inr (map_seg f (hd (pre @ [n]))))"
    "base + int (map_bits f pre) \<le> num" "0 \<le> base" "num < 2 ^ 32"
  shows "\<exists>np'. FreeNode_loop f num np base = FreeNode_loop f num np' (base + int (map_bits f pre)) \<and> GetMapNode f np' = Some (Inr (map_seg f n))"
  using assms
proof (induction pre arbitrary: np base)
  case (Cons m pre)
  have m: "map_node_ok f m" using Cons.prems(1) by (simp add: map_chainD)
  have 1: "FreeNode_loop f num np base = FreeNode_loop f num (Some (m, node_at f m)) (base + 8 * int (length (map_bytes f m)))"
    using FreeNode_loop_step(1) [OF m, of np _ base num] Cons.prems by simp
  have g: "GetMapNode f (Some (m, node_at f m)) = Some (Inr (map_seg f (hd (pre @ [n]))))"
    using Cons.prems(1) GetMapNode_next [of f m] by (cases pre) auto
  have c: "map_chain f (pre @ n # suf)" using Cons.prems(1) by (cases pre) auto
  from Cons.IH [OF c g, of "base + 8 * int (length (map_bytes f m))"] Cons.prems(3-5)
  show ?case unfolding 1 by (simp add: algebra_simps)
qed auto

lemma FreeNode_beyond:
  assumes ok: "map_ok f ns" and k: "map_bits f ns \<le> k" "int k < 2 ^ 32"
  shows "FreeNode f (int k) = Some (Some fsBTNoMoreMapNodesErr, f)"
proof -
  have c: "map_chain f ns" using ok by (auto simp: map_ok_def)
  then obtain pre n where ns: "ns = pre @ [n]" by (cases ns rule: rev_cases) auto
  have n: "map_node_ok f n" using c ns by (auto intro: map_chain_ok)
  have g: "GetMapNode f None = Some (Inr (map_seg f (hd (pre @ [n]))))" using map_ok_first [of f pre n "[]"] ok ns by simp
  obtain np where "FreeNode_loop f (int k) None 0 = FreeNode_loop f (int k) np (int (map_bits f pre))" "GetMapNode f np = Some (Inr (map_seg f n))"
    using FreeNode_loop_skip [of f pre n "[]" None 0 "int k", OF _ g] c k ns by auto
  moreover have "FreeNode_loop f (int k) (Some (n, node_at f n)) b = Some (Inl fsBTNoMoreMapNodesErr)" for b
    using GetMapNode_last [of f n] map_chain_link [of f pre n] c(1) ns by (subst FreeNode_loop.simps) simp
  ultimately have "FreeNode_loop f (int k) None 0 = Some (Inl fsBTNoMoreMapNodesErr)"
    using FreeNode_loop_step(1) [OF n, of np _ "int (map_bits f pre)" "int k"] k ns by simp
  then show ?thesis by (simp add: FreeNode_def)
qed

lemma FreeNode_run:
  assumes ok: "map_ok f ns" and k: "k < map_bits f ns"
  shows "bf_write_err f (map_node_of f ns k) = Some e \<Longrightarrow> FreeNode f (int k) = Some (Some e, f)"
    "bf_write_err f (map_node_of f ns k) = None \<Longrightarrow>
      \<exists>node. let f' = f \<lparr> bf_nodes := (bf_nodes f)(map_node_of f ns k := Inr node),
          bf_btcb := M_BTreeHeaderDirty ((bf_btcb f) \<lparr> freeNodes := u32 (freeNodes (bf_btcb f) + 1) \<rparr>) \<rparr>
        in FreeNode f (int k) = Some (None, f') \<and> map_ok f' ns \<and> map_set (tree_map f ns) k False (tree_map f' ns)"
proof -
  have c: "map_chain f ns" "int (map_bits f ns) < 2 ^ 32" using ok by (auto simp: map_ok_def)
  from map_locate [OF k] obtain pre n suf k' where
    s: "ns = pre @ n # suf" "k = map_bits f pre + k'" "k' < 8 * length (map_bytes f n)" "map_node_of f ns k = n" .
  have n: "map_node_ok f n" using c s by (auto intro: map_chain_ok)
  have g: "GetMapNode f None = Some (Inr (map_seg f (hd (pre @ [n]))))" using map_ok_first [of f pre n suf] ok s(1) by simp
  define i b bs where "i = k' div 16" and "b = k' mod 16" and "bs = map_bytes f n"
  define p where "p = roff (bf_btcb f) (node_at f n) (map_index n)"
  define w where "w = get16 bs (2 * int i)"
  define node where "node = put_bytes (node_at f n) (p + 2 * int i) (le_bytes 2 (w AND SWAP_BE16 (u16 (NOT (2 ^ (15 - b))))))"
  obtain np where "FreeNode_loop f (int k) None 0 = FreeNode_loop f (int k) np (int (map_bits f pre))" "GetMapNode f np = Some (Inr (map_seg f n))"
    using FreeNode_loop_skip [of f pre n suf None 0 "int k", OF _ g] c s k by auto
  then have lp: "FreeNode_loop f (int k) None 0 = Some (Inr (n, node_at f n, p, int (length bs), int (map_bits f pre) + 8 * int (length bs)))"
    using FreeNode_loop_step(2) [OF n, of np _ "int (map_bits f pre)" "int k"] c(2) s(1-3) by (simp add: p_def bs_def)
  have b: "b < 16" "16 * i + b = k'" by (simp_all add: b_def i_def)
  obtain h where h: "length bs = 2 * h" using map_node_okD(6) [OF n] unfolding bs_def by (elim evenE)
  then have "i < h" using s(3) b by (simp add: bs_def)
  then have l: "2 * (i + 1) \<le> length bs" using h by simp
  have rd: "rd16 (node_at f n) (p + 2 * int i) = Some w" unfolding p_def w_def bs_def using l by (intro map_word_rd n) (simp add: bs_def)
  have im: "in_mem (node_at f n) (p + 2 * int i) 2" "in_mem bs (2 * int i) 2"
    using map_seg_mem(2) [OF n, of "2 * int i" 2] l by (auto simp: in_mem_def bs_def p_def)
  have num: "u32 (int k - u32 (int (map_bits f pre))) = int k'" using c(2) s by simp
  have bo: "nat (int k' AND 15) = b" "drop_bit 4 (int k') = int i"
  proof -
    have "int k' AND 15 = int k' mod 16" using take_bit_eq_mask [of 4 "int k'"] by (simp add: take_bit_eq_mod mask_eq_exp_minus_1)
    then show "nat (int k' AND 15) = b" by (simp add: b_def flip: zmod_int [of _ 16, simplified])
    show "drop_bit 4 (int k') = int i" by (simp add: drop_bit_eq_div i_def zdiv_int)
  qed
  note run = FreeNode_def lp rd num [simplified] bo wr_in(2) [OF im(1)] UpdateNode_def Let_def mult.commute [of "int i" 2]
  show "FreeNode f (int k) = Some (Some e, f)" if "bf_write_err f (map_node_of f ns k) = Some e"
    using that by (simp add: run s(4))
  assume a: "bf_write_err f (map_node_of f ns k) = None"
  define f' where "f' = f \<lparr> bf_nodes := (bf_nodes f)(map_node_of f ns k := Inr node),
          bf_btcb := M_BTreeHeaderDirty ((bf_btcb f) \<lparr> freeNodes := u32 (freeNodes (bf_btcb f) + 1) \<rparr>) \<rparr>"
  have mw: "map_write f n i (le_bytes 2 (w AND SWAP_BE16 (u16 (NOT (2 ^ (15 - b)))))) f'"
    by (simp add: map_write_def f'_def node_def p_def s(4) M_BTreeHeaderDirty_def)
  have "map_set bs k' False (put_bytes bs (2 * int i) (le_bytes 2 (w AND SWAP_BE16 (u16 (NOT (2 ^ (15 - b)))))))"
    using set_map_bit(2) [OF im(2) b(1)] by (simp add: w_def b(2))
  from map_write_set [OF ok s(1) l [unfolded bs_def] _ mw this [unfolded bs_def]] s(2,3)
  have "map_ok f' ns" "map_set (tree_map f ns) k False (tree_map f' ns)" by auto
  moreover have "FreeNode f (int k) = Some (None, f')" using a by (simp add: run s(4) f'_def node_def)
  ultimately show "\<exists>node. let f' = f \<lparr> bf_nodes := (bf_nodes f)(map_node_of f ns k := Inr node),
          bf_btcb := M_BTreeHeaderDirty ((bf_btcb f) \<lparr> freeNodes := u32 (freeNodes (bf_btcb f) + 1) \<rparr>) \<rparr>
        in FreeNode f (int k) = Some (None, f') \<and> map_ok f' ns \<and> map_set (tree_map f ns) k False (tree_map f' ns)"
    by (intro exI [of _ node]) (simp add: f'_def)
qed

section \<open>The count of free nodes\<close>

definition free_count :: "btree_file \<Rightarrow> int list \<Rightarrow> nat" where
  "free_count f ns = card {j. j < nat (totalNodes (bf_btcb f)) \<and> \<not> map_used (tree_map f ns) j}"

definition accounted :: "btree_file \<Rightarrow> int list \<Rightarrow> bool" where
  "accounted f ns \<longleftrightarrow> map_ok f ns \<and> 0 \<le> totalNodes (bf_btcb f) \<and> totalNodes (bf_btcb f) \<le> int (map_bits f ns) \<and>
     freeNodes (bf_btcb f) = int (free_count f ns)"

lemma free_count_le: "0 \<le> totalNodes (bf_btcb f) \<Longrightarrow> int (free_count f ns) \<le> totalNodes (bf_btcb f)"
  using card_mono [of "{..< nat (totalNodes (bf_btcb f))}" "{j. j < nat (totalNodes (bf_btcb f)) \<and> \<not> map_used (tree_map f ns) j}"]
  by (simp add: free_count_def subset_iff le_nat_iff)

lemma accounted_bounds:
  assumes "accounted f ns" shows "int (free_count f ns) \<le> totalNodes (bf_btcb f)" "totalNodes (bf_btcb f) < 2 ^ 32"
  using assms free_count_le [of f ns] by (auto simp: accounted_def map_ok_def)

lemma free_count_set:
  assumes "map_set (tree_map f ns) k v (tree_map f' ns)" "totalNodes (bf_btcb f') = totalNodes (bf_btcb f)"
    "totalNodes (bf_btcb f) \<le> int (map_bits f ns)" "int k < totalNodes (bf_btcb f)" "map_used (tree_map f ns) k = (\<not> v)"
  shows "int (free_count f' ns) = int (free_count f ns) + (if v then - 1 else 1)"
proof -
  let ?S = "{j. j < nat (totalNodes (bf_btcb f)) \<and> \<not> map_used (tree_map f ns) j}"
  let ?S' = "{j. j < nat (totalNodes (bf_btcb f)) \<and> \<not> map_used (tree_map f' ns) j}"
  have m: "map_used (tree_map f' ns) j = (if j = k then v else map_used (tree_map f ns) j)" if "j < nat (totalNodes (bf_btcb f))" for j
    using assms(1,3) that by (simp add: map_set_def)
  have k: "k < nat (totalNodes (bf_btcb f))" using assms(4) by simp
  show ?thesis
  proof (cases v)
    case True
    then have "?S' = ?S - {k}" "k \<in> ?S" using m k assms(5) by (auto split: if_splits)
    then have "card ?S' = card ?S - 1" "0 < card ?S" by (auto simp: card_gt_0_iff)
    then show ?thesis using True by (simp add: free_count_def assms(2))
  next
    case False
    then have "?S' = insert k ?S" "k \<notin> ?S" using m k assms(5) by (auto split: if_splits)
    then have "card ?S' = card ?S + 1" by simp
    then show ?thesis using False by (simp add: free_count_def assms(2))
  qed
qed

lemma first_freeI:
  assumes "\<not> map_used bs j" "j < 8 * length bs"
  shows "\<exists>k \<le> j. first_free bs k"
proof -
  define k where "k = (LEAST k. \<not> map_used bs k)"
  have "\<not> map_used bs k" "k \<le> j" 
    using LeastI [of "\<lambda>k. \<not> map_used bs k" j] Least_le [of "\<lambda>k. \<not> map_used bs k" j] assms(1) unfolding k_def by simp_all
  moreover have "map_used bs i" if "i < k" for i using not_less_Least that unfolding k_def by blast
  ultimately show ?thesis using assms(2) by (intro exI [of _ k]) (auto simp: first_free_def)
qed

lemma AllocateNode_cases:
  assumes "map_ok f ns"
  shows "(\<forall>j < map_bits f ns. map_used (tree_map f ns) j) \<and> AllocateNode tag f = Some (Inl fsBTNoMoreMapNodesErr, f) \<or>
    (\<exists>k. first_free (tree_map f ns) k)"
  using AllocateNode_none [OF assms] first_freeI by blast

text \<open>The steps of a tree: an allocation, and freeing a node that is in use.\<close>

inductive node_step :: "int list \<Rightarrow> btree_file \<Rightarrow> btree_file \<Rightarrow> bool" for ns where
  allocate: "AllocateNode tag f = Some (r, f') \<Longrightarrow> node_step ns f f'"
| free: "int k < totalNodes (bf_btcb f) \<Longrightarrow> map_used (tree_map f ns) k \<Longrightarrow> FreeNode f (int k) = Some (r, f') \<Longrightarrow> node_step ns f f'"

lemma accounted_allocate:
  assumes a: "accounted f ns" and r: "AllocateNode tag f = Some (r, f')"
  shows "accounted f' ns"
proof -
  have ok: "map_ok f ns" using a by (simp add: accounted_def)
  show ?thesis
  proof (cases "\<exists>k. first_free (tree_map f ns) k")
    case False
    then show ?thesis using AllocateNode_cases [OF ok, of tag] a r by auto
  next
    case True
    then obtain k where k: "first_free (tree_map f ns) k" by blast
    note run = AllocateNode_run [OF ok k, where tag = tag]
    show ?thesis
    proof (cases "int k < totalNodes (bf_btcb f) \<and> bf_write_err f (map_node_of f ns k) = None")
      case False
      then have "f' = f" using run(1) r run(2) [where e = "the (bf_write_err f (map_node_of f ns k))"] by (cases "int k < totalNodes (bf_btcb f)") auto
      then show ?thesis using a by simp
    next
      case True
      then have f': "map_ok f' ns" "map_set (tree_map f ns) k True (tree_map f' ns)"
        "bf_btcb f' = M_BTreeHeaderDirty ((bf_btcb f) \<lparr> freeNodes := u32 (freeNodes (bf_btcb f) - 1) \<rparr>)"
        using run(3) r by (auto simp: Let_def)
      have "int (free_count f' ns) = int (free_count f ns) - 1"
        using free_count_set [OF f'(2)] True a k by (simp add: f'(3) accounted_def first_free_def M_BTreeHeaderDirty_def)
      then show ?thesis using f' a accounted_bounds [OF a] by (auto simp: accounted_def M_BTreeHeaderDirty_def map_set_def)
    qed
  qed
qed

lemma accounted_free:
  assumes a: "accounted f ns" and k: "int k < totalNodes (bf_btcb f)" "map_used (tree_map f ns) k" and r: "FreeNode f (int k) = Some (r, f')"
  shows "accounted f' ns"
proof -
  have ok: "map_ok f ns" "k < map_bits f ns" using a k by (auto simp: accounted_def)
  note run = FreeNode_run [OF ok]
  show ?thesis
  proof (cases "bf_write_err f (map_node_of f ns k)")
    case (Some e)
    then show ?thesis using run(1) a r by auto
  next
    case None
    then have f': "map_ok f' ns" "map_set (tree_map f ns) k False (tree_map f' ns)"
      "bf_btcb f' = M_BTreeHeaderDirty ((bf_btcb f) \<lparr> freeNodes := u32 (freeNodes (bf_btcb f) + 1) \<rparr>)"
      using run(2) r by (auto simp: Let_def)
    have c: "int (free_count f' ns) = int (free_count f ns) + 1"
      using free_count_set [OF f'(2)] a k by (simp add: f'(3) accounted_def M_BTreeHeaderDirty_def)
    have "int (free_count f' ns) \<le> totalNodes (bf_btcb f)"
      using free_count_le [of f' ns] a by (simp add: f'(3) M_BTreeHeaderDirty_def accounted_def)
    then show ?thesis using f' a c accounted_bounds [OF a] by (auto simp: accounted_def M_BTreeHeaderDirty_def map_set_def)
  qed
qed

section \<open>Properties\<close>

text \<open>A tree of two nodes of 64 bytes: the header node, whose map record is full, and a map node.\<close>

definition ex_header_node :: mem where
  "ex_header_node = [1,0,0,0, 0,0,0,0, 1,0, 3,0, 0,0] @ replicate 34 0 @ [255,255,255,255] @ [0,0,0,0] @ [52,0, 48,0, 46,0, 14,0]"

definition ex_map_node :: mem where
  "ex_map_node = [0,0,0,0, 0,0,0,0, 2,0, 1,0, 0,0] @ [240,1,0,0] @ replicate 42 0 @ [18,0, 14,0]"

definition ex_file :: btree_file where
  "ex_file = \<lparr> bf_btcb = ex_bt \<lparr> totalNodes := 40, freeNodes := 4 \<rparr>,
     bf_nodes = (\<lambda>n. if n = 0 then Inr ex_header_node else if n = 1 then Inr ex_map_node else Inl fsBTInvalidNodeErr),
     bf_write_err = (\<lambda>_. None), bf_new_err = (\<lambda>_. None), bf_fileRefNum = 7, bf_eof = 2560, bf_clumpsize = 0,
     bf_reserve = nr_init 15 \<rparr>"

lemma ex_file_ok: "map_ok ex_file [0, 1]" "tree_map ex_file [0, 1] = [255,255,255,255,240,1,0,0]"
  by code_simp+

lemma ex_file_fields: "map_bits ex_file [0, 1] = 64" "bf_write_err ex_file = (\<lambda>_. None)" "freeNodes (bf_btcb ex_file) = 4"
  "totalNodes (bf_btcb ex_file) = 40"
  unfolding ex_file_ok(2) by (simp_all add: ex_file_def ex_bt_def)

lemma ex_first_free: "first_free (tree_map ex_file [0, 1]) k \<longleftrightarrow> k = 36"
proof -
  have "\<forall>j \<in> {..< 36}. map_used [255,255,255,255,240,1,0,0] j" "\<not> map_used [255,255,255,255,240,1,0,0] 36" by code_simp+
  then show ?thesis unfolding ex_file_ok(2) first_free_def by (cases k "36 :: nat" rule: linorder_cases) auto
qed

lemma map_used_ext:
  assumes "length bs = length bs'" "\<And>j. j < 8 * length bs \<Longrightarrow> map_used bs j = map_used bs' j"
  shows "bs = bs'"
proof (rule nth_equalityI [OF assms(1)])
  fix i assume i: "i < length bs"
  show "bs ! i = bs' ! i"
  proof (rule bit_eqI)
    fix m assume "possible_bit TYPE(8 word) m"
    then have m: "m < 8" by simp
    define r where "r = 7 - m"
    have r: "m = 7 - r" "r < 8" using m by (auto simp: r_def)
    show "bit (bs ! i) m = bit (bs' ! i) m" using assms(2) [of "8 * i + r"] i r by (simp add: map_used_def)
  qed
qed



text \<open>\<open>FreeNode\<close> on a well-formed node map marks exactly the given node free, the free count goes up by one and the
  header becomes dirty; for a node beyond the map it returns \<open>fsBTNoMoreMapNodesErr\<close> and, as when the map node cannot be
  written, the tree is as before.\<close>

theorem FreeNode_correct:
  assumes "map_ok f ns" "int k < 2 ^ 32"
  shows "if map_bits f ns \<le> k then FreeNode f (int k) = Some (Some fsBTNoMoreMapNodesErr, f)
    else case bf_write_err f (map_node_of f ns k) of
      Some e \<Rightarrow> FreeNode f (int k) = Some (Some e, f)
    | None \<Rightarrow> \<exists>f'. FreeNode f (int k) = Some (None, f') \<and> map_ok f' ns \<and> map_set (tree_map f ns) k False (tree_map f' ns) \<and>
        bf_btcb f' = (bf_btcb f) \<lparr> freeNodes := u32 (freeNodes (bf_btcb f) + 1), flags := flags (bf_btcb f) OR kBTHeaderDirty \<rparr> \<and>
        (\<forall>m. m \<noteq> map_node_of f ns k \<longrightarrow> bf_nodes f' m = bf_nodes f m)"
proof (cases "map_bits f ns \<le> k")
  case False
  then have k: "k < map_bits f ns" by simp
  show ?thesis
  proof (cases "bf_write_err f (map_node_of f ns k)")
    case None
    from FreeNode_run(2) [OF assms(1) k None] show ?thesis using False None by (auto simp: Let_def M_BTreeHeaderDirty_def)
  qed (use FreeNode_run(1) [OF assms(1) k] False in auto)
qed (use FreeNode_beyond [OF assms(1) _ assms(2)] in simp)

theorem FreeNode_correct_witness:
  "\<exists>f'. FreeNode ex_file 35 = Some (None, f') \<and> map_set (tree_map ex_file [0, 1]) 35 False (tree_map f' [0, 1])"
  using FreeNode_correct [OF ex_file_ok(1), of 35] ex_file_fields by (auto simp del: tree_map_simps)

text \<open>A node that was allocated can be freed again, and this restores the node map and the free count.\<close>

theorem AllocateNode_FreeNode:
  assumes "map_ok f ns" "bf_write_err f = (\<lambda>_. None)" "0 < freeNodes (bf_btcb f)" "freeNodes (bf_btcb f) < 2 ^ 32"
    "AllocateNode tag f = Some (Inr n, f1)"
  shows "\<exists>f2. FreeNode f1 n = Some (None, f2) \<and> map_ok f2 ns \<and> tree_map f2 ns = tree_map f ns \<and>
    freeNodes (bf_btcb f2) = freeNodes (bf_btcb f)"
proof -
  from AllocateNode_cases [OF assms(1), of tag] assms(5) obtain k where k: "first_free (tree_map f ns) k" by auto
  note run = AllocateNode_run [OF assms(1) k, where tag = tag]
  have l: "int k < totalNodes (bf_btcb f)" using run(1) assms(5) by fastforce
  from run(3) [OF l] assms(2,5) have 1: "n = int k" "map_ok f1 ns" "map_set (tree_map f ns) k True (tree_map f1 ns)"
    "bf_write_err f1 = (\<lambda>_. None)" "freeNodes (bf_btcb f1) = freeNodes (bf_btcb f) - 1"
    using assms(3,4) by (auto simp: Let_def M_BTreeHeaderDirty_def)
  have "k < map_bits f1 ns" using 1(3) k by (simp add: map_set_def first_free_def)
  from FreeNode_run(2) [OF 1(2) this] obtain f2 where 2: "FreeNode f1 n = Some (None, f2)" "map_ok f2 ns"
    "map_set (tree_map f1 ns) k False (tree_map f2 ns)" "freeNodes (bf_btcb f2) = freeNodes (bf_btcb f)"
    using 1 assms(3,4) by (auto simp: Let_def M_BTreeHeaderDirty_def)
  have "tree_map f2 ns = tree_map f ns" using 1(3) 2(3) k by (intro map_used_ext) (auto simp: map_set_def first_free_def)
  with 2 show ?thesis by blast
qed

theorem AllocateNode_FreeNode_witness:
  "\<exists>n f1 f2. AllocateNode 1 ex_file = Some (Inr n, f1) \<and> FreeNode f1 n = Some (None, f2) \<and> tree_map f2 [0, 1] = [255,255,255,255,240,1,0,0]"
proof -
  obtain n f1 where "AllocateNode 1 ex_file = Some (Inr n, f1)"
    using AllocateNode_run(3) [OF ex_file_ok(1), of 36 1] by (auto simp: ex_first_free ex_file_fields Let_def simp del: tree_map_simps map_node_of.simps)
  moreover from AllocateNode_FreeNode [OF ex_file_ok(1) _ _ _ this] obtain f2 where "FreeNode f1 n = Some (None, f2)" "tree_map f2 [0, 1] = tree_map ex_file [0, 1]"
    using ex_file_fields by (auto simp del: tree_map_simps)
  ultimately show ?thesis unfolding ex_file_ok(2) by blast
qed


lemma node_steps_accounted: "(node_step ns)\<^sup>*\<^sup>* f f' \<Longrightarrow> accounted f ns \<Longrightarrow> accounted f' ns"
  by (induction rule: rtranclp_induct) (auto elim!: node_step.cases intro: accounted_allocate accounted_free)

lemma ex_file_accounted: "accounted ex_file [0, 1]"
proof -
  have "free_count ex_file [0, 1] = card {j. j < 40 \<and> \<not> map_used [255,255,255,255,240,1,0,0] j}"
    unfolding free_count_def ex_file_ok(2) ex_file_fields(4) by simp
  also have "{j. j < 40 \<and> \<not> map_used [255,255,255,255,240,1,0,0] j} = set (filter (\<lambda>j. \<not> map_used [255,255,255,255,240,1,0,0] j) [0..<40])" by auto
  also have "card \<dots> = 4" by code_simp
  finally show ?thesis using ex_file_ok(1) ex_file_fields unfolding accounted_def by simp
qed



text \<open>While no write fails, an allocation succeeds after any such sequence exactly if the free count is not 0; it then
  returns a node of the file that was free.\<close>

theorem AllocateNode_progress:
  assumes "accounted f ns" "(node_step ns)\<^sup>*\<^sup>* f f1" "\<forall>n. bf_write_err f1 n = None"
  shows "(freeNodes (bf_btcb f1) = 0 \<longrightarrow> (\<exists>e. AllocateNode tag f1 = Some (Inl e, f1))) \<and>
    (freeNodes (bf_btcb f1) \<noteq> 0 \<longrightarrow> (\<exists>k f'. AllocateNode tag f1 = Some (Inr (int k), f') \<and> int k < totalNodes (bf_btcb f1) \<and>
       \<not> map_used (tree_map f1 ns) k \<and> freeNodes (bf_btcb f') = freeNodes (bf_btcb f1) - 1))"
proof -
  have a: "accounted f1 ns" by (rule node_steps_accounted [OF assms(2,1)])
  then have ok: "map_ok f1 ns" and t: "totalNodes (bf_btcb f1) \<le> int (map_bits f1 ns)" by (auto simp: accounted_def)
  let ?S = "{j. j < nat (totalNodes (bf_btcb f1)) \<and> \<not> map_used (tree_map f1 ns) j}"
  have fr: "freeNodes (bf_btcb f1) = int (card ?S)" using a by (simp add: accounted_def free_count_def)
  show ?thesis
  proof (cases "?S = {}")
    case True
    have "\<exists>e. AllocateNode tag f1 = Some (Inl e, f1)"
      using AllocateNode_cases [OF ok, of tag] AllocateNode_run(1) [OF ok, of _ tag] True by (fastforce simp: first_free_def not_le)
    then show ?thesis using True by (simp add: fr)
  next
    case False
    then obtain j where j: "j < nat (totalNodes (bf_btcb f1))" "\<not> map_used (tree_map f1 ns) j" by auto
    then have "j < map_bits f1 ns" using t by linarith
    then obtain k where k: "first_free (tree_map f1 ns) k" "k \<le> j" using first_freeI [OF j(2)] by auto
    then have l: "int k < totalNodes (bf_btcb f1)" using j by simp
    from AllocateNode_run(3) [OF ok k(1) l, of tag] assms(3) obtain f' where f': "AllocateNode tag f1 = Some (Inr (int k), f')"
      "freeNodes (bf_btcb f') = u32 (freeNodes (bf_btcb f1) - 1)" by (auto simp: Let_def M_BTreeHeaderDirty_def)
    have "0 < card ?S" using False by (simp add: card_gt_0_iff)
    then have "u32 (freeNodes (bf_btcb f1) - 1) = freeNodes (bf_btcb f1) - 1"
      using accounted_bounds [OF a] by (simp add: fr free_count_def)
    then show ?thesis using f' l k(1) False by (auto simp: fr first_free_def)
  qed
qed

theorem AllocateNode_progress_witness:
  "\<exists>k f'. AllocateNode 1 ex_file = Some (Inr (int k), f') \<and> \<not> map_used (tree_map ex_file [0, 1]) k \<and> freeNodes (bf_btcb f') = 3"
  using AllocateNode_progress [OF ex_file_accounted rtranclp.rtrancl_refl, of 1] by (auto simp: ex_file_fields simp del: tree_map_simps)

end
