(* ===== verification/TreeRotation.thy ===== *)
theory TreeRotation
  imports BTreeTreeOps NodeMap
begin

text \<open>
  The rotation of records into the left sibling, on which insertion into a full node rests: \<open>RotateLeft\<close> and
  \<open>RotateRecordLeft\<close> of \<open>src/kmod/core/BTreeTreeOps.c\<close>.
\<close>

text \<open>The bytes of a node that the descriptor, the records and the offsets take.\<close>

definition used_size :: "mem list \<Rightarrow> int" where
  "used_size rs = 16 + sum_list (map (\<lambda>r. int (length r) + 2) rs)"

lemma used_size_simps [simp]:
  "used_size [] = 16" "used_size (rs @ ss) = used_size rs + used_size ss - 16" "used_size (r # rs) = int (length r) + 2 + used_size rs"
  by (simp_all add: used_size_def)

lemma used_size_ge: "16 \<le> used_size rs"
  by (induction rs) auto

lemma used_size_split: "used_size (take m rs) + used_size (drop m rs) = used_size rs + 16"
  using used_size_simps(2) [of "take m rs" "drop m rs"] by simp

lemma used_size_take_Suc: "m < length rs \<Longrightarrow> used_size (take (Suc m) rs) = used_size (take m rs) + (int (length (rs ! m)) + 2)"
  by (simp add: take_Suc_conv_app_nth)

lemma used_size_take_mono: "m \<le> n \<Longrightarrow> used_size (take m rs) \<le> used_size (take n rs)"
proof -
  assume "m \<le> n"
  then have "take n rs = take m rs @ take (n - m) (drop m rs)" by (metis le_add_diff_inverse take_add)
  then show ?thesis using used_size_ge [of "take (n - m) (drop m rs)"] by simp
qed

lemma used_size_node:
  assumes "node_wf bt node" "roff bt node 0 = 14"
  shows "nodeSize bt - node_free bt node = used_size (records bt node)"
proof -
  have "int (sum_list (map (\<lambda>r. length r + 2) rs)) = sum_list (map (\<lambda>r. int (length r) + 2) rs)" for rs :: "mem list"
    by (induction rs) auto
  then show ?thesis using node_free_sum [OF assms(1)] assms(2) by (simp add: used_size_def)
qed

lemma bytes_at_drop:
  assumes "in_mem m a n" shows "bytes_at (drop (nat a) m) 0 n = bytes_at m a n"
  using assms by (simp add: bytes_at_def)

lemma RotateRecordLeft_run:
  assumes l: "node_wf bt left" "roff bt left 0 = 14" and r: "node_wf bt right" "roff bt right 0 = 14" "0 < nrec right"
    and fit: "used_size (records bt left) + int (length (records bt right ! 0)) + 2 \<le> nodeSize bt"
  shows "\<exists>left' right'. RotateRecordLeft bt left right = Some (True, left', right') \<and> node_wf bt left' \<and> node_wf bt right' \<and>
    roff bt left' 0 = 14 \<and> roff bt right' 0 = 14 \<and> same_desc left left' \<and> same_desc right right' \<and>
    records bt left' = records bt left @ [records bt right ! 0] \<and> records bt right' = drop 1 (records bt right)"
proof -
  note im = record_in_mem [OF r(1,3)] and len = length_record_at [OF r(1,3)]
  define sz rp where "sz = roff bt right 1 - roff bt right 0" and "rp = roff bt right 0"
  have g: "GetRecordSize bt right 0 = Some sz" "GetRecordAddress bt right 0 = Some rp"
    using GetRecordSize_wf [OF r(1,3)] by (simp_all add: sz_def rp_def)
  have r0: "records bt right ! 0 = record_at bt right 0" using r(3) by (simp add: records_def)
  have b: "bytes_at (drop (nat rp) right) 0 sz = record_at bt right 0" "0 \<le> sz" "sz \<le> int (length (drop (nat rp) right))"
    using bytes_at_drop [OF im(1)] im by (auto simp: record_at_def sz_def rp_def in_mem_def)
  have "sz + 2 \<le> node_free bt left" using used_size_node [OF l] fit len by (simp add: r0 sz_def)
  from InsertRecord_run [OF l(1) le_refl this b(2,3)] obtain left' where
    left': "InsertRecord bt left (int (nrec left)) (drop (nat rp) right) sz = Some (True, left')"
    "node_wf bt left'" "same_desc left left'" "roff bt left' 0 = roff bt left 0"
    "records bt left' = take (nrec left) (records bt left) @ [bytes_at (drop (nat rp) right) 0 sz] @ drop (nrec left) (records bt left)"
    by blast
  from DeleteRecord_run [OF r(1,3)] obtain right' where
    right': "DeleteRecord bt right 0 = Some right'" "node_wf bt right'" "same_desc right right'" "roff bt right' 0 = roff bt right 0"
    "records bt right' = take 0 (records bt right) @ drop (Suc 0) (records bt right)" by auto
  show ?thesis using left' right' l r b(1) by (auto simp: RotateRecordLeft_def g rd_numRecords_wf r0)
qed

lemma same_desc_bLink:
  assumes "same_desc node node'" "node_wf bt node" "node_wf bt node'"
  shows "rd_bLink node' = Some (get32 node 4)" "rd_fLink node' = Some (get32 node 0)"
proof -
  have i: "in_mem node 0 10" "in_mem node' 0 10" using node_wfD(1,3) [OF assms(2)] node_wfD(1,3) [OF assms(3)] by (auto simp: in_mem_def)
  have s: "bytes_at node' a 4 = bytes_at node a 4" if "0 \<le> a" "a + 4 \<le> 10" for a
    using assms(1) slice_slice [OF i(1), of a 4] slice_slice [OF i(2), of a 4] that by (simp add: same_desc_def)
  have "in_mem node' 4 4" "in_mem node' 0 4" using i by (auto simp: in_mem_def)
  then show "rd_bLink node' = Some (get32 node 4)" "rd_fLink node' = Some (get32 node 0)"
    using s [of 4] s [of 0] by (simp_all add: rd_bLink_def rd_fLink_def rd_in get32_def)
qed


text \<open>The records of the right node with the new record at index \<open>i\<close>.\<close>

definition with_new :: "nat \<Rightarrow> mem \<Rightarrow> mem list \<Rightarrow> mem list" where
  "with_new i new rs = take i rs @ [new] @ drop i rs"

lemma length_with_new [simp]: "i \<le> length rs \<Longrightarrow> length (with_new i new rs) = Suc (length rs)"
  by (simp add: with_new_def)

lemma nth_with_new:
  "i \<le> length rs \<Longrightarrow> m \<le> length rs \<Longrightarrow> with_new i new rs ! m = (if m < i then rs ! m else if m = i then new else rs ! (m - 1))"
  by (auto simp: with_new_def nth_append min_def nth_Cons' Suc_diff_Suc)

lemma used_size_with_new: "used_size (with_new i new rs) = used_size rs + int (length new) + 2"
  using used_size_split [of i rs] by (simp add: with_new_def)

lemma nrec_bound: "node_wf bt node \<Longrightarrow> nrec node < 16384"
  using node_wfD(2,6) [of bt node] int_nrec [of node] by linarith

lemma move_size_run:
  assumes r: "node_wf bt right" and i: "i \<le> nrec right" and m: "m \<le> nrec right"
  shows "move_size bt right (int (length new) + 2) (int i) (int m) = Some (int (length (with_new i new (records bt right) ! m)) + 2)"
proof -
  have g: "GetRecordSize bt right (int j) = Some (int (length (records bt right ! j)))" if "j < nrec right" for j
    using GetRecordSize_wf(1) [OF r that] length_record_at [OF r that] that by (simp add: records_def)
  consider "m < i" | "m = i" | "i < m" by linarith
  then show ?thesis
  proof cases
    case 3
    then have "int m - 1 = int (m - 1)" "m - 1 < nrec right" using m by auto
    then show ?thesis using 3 g [of "m - 1"] i m by (simp add: move_size_def nth_with_new)
  qed (use g [of m] i m in \<open>auto simp: move_size_def nth_with_new\<close>)
qed

lemma RotateLeft_balance_run:
  fixes new :: mem
  assumes r: "node_wf bt right" and i: "i \<le> nrec right" and L: "16 \<le> L"
  defines "R \<equiv> with_new i new (records bt right)"
  defines "lsz \<equiv> \<lambda>m. L + used_size (take m R) - 16" and "rsz \<equiv> \<lambda>m. used_size (drop m R)"
  assumes m: "m \<le> length R"
  shows "\<exists>M ms. m \<le> M \<and> M \<le> length R \<and>
    RotateLeft_balance bt right (int (length new) + 2) (int i) (lsz m) (rsz m) ms0 (int m) = Some (lsz M, rsz M, ms, int M) \<and> rsz M \<le> lsz M \<and>
    (if m < M then lsz (M - 1) < rsz (M - 1) \<and> ms = int (length (R ! (M - 1))) + 2 else ms = ms0)"
  using m
proof (induction "length R - m" arbitrary: m ms0)
  case 0
  then have "m = length R" by simp
  then have "\<not> lsz m < rsz m" using L used_size_ge [of R] by (simp add: lsz_def rsz_def)
  then show ?case using 0 by (intro exI [of _ m] exI [of _ ms0]) (simp add: RotateLeft_balance.simps)
next
  case (Suc k)
  show ?case
  proof (cases "lsz m < rsz m")
    case False
    then show ?thesis using Suc.prems by (intro exI [of _ m] exI [of _ ms0]) (simp add: RotateLeft_balance.simps)
  next
    case True
    have ml: "m < length R" using Suc.hyps(2) by simp
    then have mr: "m \<le> nrec right" using i by (simp add: R_def)
    have s: "lsz (Suc m) = lsz m + (int (length (R ! m)) + 2)" "rsz (Suc m) = rsz m - (int (length (R ! m)) + 2)"
      using used_size_take_Suc [OF ml] used_size_split [of m R] used_size_split [of "Suc m" R] by (simp_all add: lsz_def rsz_def)
    have "RotateLeft_balance bt right (int (length new) + 2) (int i) (lsz m) (rsz m) ms0 (int m) =
        RotateLeft_balance bt right (int (length new) + 2) (int i) (lsz (Suc m)) (rsz (Suc m)) (int (length (R ! m)) + 2) (int (Suc m))"
      using True move_size_run [OF r i mr, of new] nrec_bound [OF r] mr
      by (subst RotateLeft_balance.simps) (simp add: s R_def add.commute)
    moreover have "k = length R - Suc m" "Suc m \<le> length R" using Suc.hyps(2) by auto
    from Suc.hyps(1) [OF this, of "int (length (R ! m)) + 2"] obtain M ms where
      "Suc m \<le> M" "M \<le> length R" "RotateLeft_balance bt right (int (length new) + 2) (int i) (lsz (Suc m)) (rsz (Suc m)) (int (length (R ! m)) + 2) (int (Suc m)) =
        Some (lsz M, rsz M, ms, int M)" "rsz M \<le> lsz M"
        "if Suc m < M then lsz (M - 1) < rsz (M - 1) \<and> ms = int (length (R ! (M - 1))) + 2 else ms = int (length (R ! m)) + 2"
      by blast
    ultimately show ?thesis using True by (intro exI [of _ M] exI [of _ ms]) (cases "M = Suc m"; auto)
  qed
qed


lemma used_size_prefix: "m \<le> n \<Longrightarrow> used_size (L @ take m R) \<le> used_size (L @ take n R)"
  using used_size_take_mono [of m n R] by simp

text \<open>The nodes when \<open>j\<close> records have moved.\<close>

definition rotated :: "BTreeControlBlock \<Rightarrow> mem list \<Rightarrow> nat \<Rightarrow> mem \<Rightarrow> mem list \<Rightarrow> nat \<Rightarrow> mem \<Rightarrow> mem \<Rightarrow> bool" where
  "rotated bt L i new rr j left right \<longleftrightarrow> node_wf bt left \<and> node_wf bt right \<and> roff bt left 0 = 14 \<and> roff bt right 0 = 14 \<and>
     records bt left = L @ take j (with_new i new rr) \<and> records bt right = drop (if j \<le> i then j else j - 1) rr"

lemma rotated_step:
  assumes s: "rotated bt L i new rr j left right" and i: "i \<le> length rr" and j: "j \<le> length rr"
    and fit: "used_size (L @ take (Suc j) (with_new i new rr)) \<le> nodeSize bt"
  shows "used_size (records bt left) + int (length (with_new i new rr ! j)) + 2 \<le> nodeSize bt"
    "j \<noteq> i \<Longrightarrow> \<exists>left' right'. RotateRecordLeft bt left right = Some (True, left', right') \<and> rotated bt L i new rr (Suc j) left' right' \<and>
       same_desc left left' \<and> same_desc right right'"
proof -
  let ?R = "with_new i new rr"
  have t: "take (Suc j) ?R = take j ?R @ [?R ! j]" using i j by (simp add: take_Suc_conv_app_nth)
  show f: "used_size (records bt left) + int (length (?R ! j)) + 2 \<le> nodeSize bt" using fit s by (simp add: rotated_def t)
  assume ji: "j \<noteq> i"
  let ?d = "if j \<le> i then j else j - 1"
  have d: "?d < length rr" "?R ! j = rr ! ?d" using ji i j by (auto simp: nth_with_new)
  have n: "0 < nrec right" "records bt right ! 0 = ?R ! j"
    using s d by (auto simp: rotated_def simp flip: length_records [of bt right])
  have dd: "drop 1 (drop ?d rr) = drop (if Suc j \<le> i then Suc j else Suc j - 1) rr" using ji by auto
  from s f n(2) show "\<exists>left' right'. RotateRecordLeft bt left right = Some (True, left', right') \<and> rotated bt L i new rr (Suc j) left' right' \<and>
       same_desc left left' \<and> same_desc right right'"
    using RotateRecordLeft_run [of bt left right, OF _ _ _ _ n(1)] unfolding rotated_def dd [symmetric] t by auto
qed

lemma RotateLeft_loop_run:
  assumes k: "key_ok bt key kl" and r: "int (len_size bt) \<le> recSize" "recSize \<le> int (length data)" and i: "i \<le> length rr"
  defines "new \<equiv> key_record bt kl (raw_key bt key) (bytes_at data 0 recSize)"
  assumes "rotated bt L i new rr j left right" "j + n \<le> Suc (length rr)" "used_size (L @ take (j + n) (with_new i new rr)) \<le> nodeSize bt"
  shows "\<exists>left' right'. RotateLeft_loop n bt (int i) key kl data recSize (int j) left right ins =
      Some (Inr (left', right', if j \<le> i \<and> i < j + n then (int (length L + i), get32 right 4) else ins)) \<and>
    rotated bt L i new rr (j + n) left' right' \<and> same_desc left left' \<and> same_desc right right'"
  using assms(6-)
proof (induction n arbitrary: j left right ins)
  case (Suc n)
  note s = Suc.prems(1) and wf = Suc.prems(1) [unfolded rotated_def]
  have j: "j \<le> length rr" using Suc.prems(2) by simp
  have fit: "used_size (L @ take (Suc j) (with_new i new rr)) \<le> nodeSize bt"
    using Suc.prems(3) used_size_prefix [of "Suc j" "j + Suc n" L "with_new i new rr"] by simp
  note st = rotated_step [OF s i j fit]
  have e: "int j + 1 = int (Suc j)" "j + Suc n = Suc j + n" by simp_all
  show ?case
  proof (cases "j = i")
    case True
    have nl: "nrec left = length L + i" using wf i True by (simp flip: length_records [of bt left])
    have fr: "key_size bt kl + recSize + 2 \<le> node_free bt left"
      using st(1) used_size_node [of bt left] wf length_key_record [OF k, of "bytes_at data 0 recSize"] r True i
      by (simp add: nth_with_new new_def in_mem_def)
    have w: "node_wf bt left" "roff bt left 0 = 14" using wf by auto
    from InsertKeyRecord_run [OF w(1) le_refl k r fr] w(2) obtain left' where
      left': "InsertKeyRecord bt left (int (nrec left)) key kl data recSize = Some (True, left')" "node_wf bt left'" "same_desc left left'"
      "roff bt left' 0 = 14" "records bt left' = records bt left @ [new]" by (auto simp: new_def)
    have "take (Suc i) (with_new i new rr) = take i (with_new i new rr) @ [new]"
      using i by (simp add: take_Suc_conv_app_nth nth_with_new)
    then have s': "rotated bt L i new rr (Suc j) left' right" using left' wf True by (simp add: rotated_def)
    have b: "rd_bLink right = Some (get32 right 4)" using wf same_desc_bLink [of right right bt] by (simp add: same_desc_def)
    from Suc.IH [OF s', of "(int (length L + i), get32 right 4)"] Suc.prems(2,3) obtain left'' right'' where
      "RotateLeft_loop n bt (int i) key kl data recSize (int (Suc j)) left' right (int (length L + i), get32 right 4) =
        Some (Inr (left'', right'', int (length L + i), get32 right 4))"
      "rotated bt L i new rr (Suc j + n) left'' right''" "same_desc left' left''" "same_desc right right''"
      using True by auto
    moreover have ng: "get16 left 10 = int (length L) + int i" using arg_cong [OF nl, of int] by simp
    ultimately show ?thesis
      using True left'(1) b same_desc_trans [OF left'(3)] rd_numRecords_wf [OF w(1)] by (auto simp: add.commute [of "int i" 1])
  next
    case False
    from st(2) [OF False] obtain left' right' where m: "RotateRecordLeft bt left right = Some (True, left', right')"
      "rotated bt L i new rr (Suc j) left' right'" "same_desc left left'" "same_desc right right'" by blast
    have b: "get32 right' 4 = get32 right 4"
      using same_desc_bLink(1) [OF m(4), of bt] same_desc_bLink(1) [of right' right' bt] wf m(2) by (simp add: same_desc_def rotated_def)
    from Suc.IH [OF m(2), of ins] Suc.prems(2,3) obtain left'' right'' where
      "RotateLeft_loop n bt (int i) key kl data recSize (int (Suc j)) left' right' ins =
        Some (Inr (left'', right'', if Suc j \<le> i \<and> i < Suc j + n then (int (length L + i), get32 right' 4) else ins))"
      "rotated bt L i new rr (Suc j + n) left'' right''" "same_desc left' left''" "same_desc right' right''" by auto
    moreover have "(Suc j \<le> i \<and> i < Suc j + n) = (j \<le> i \<and> i < j + Suc n)" using False by auto
    ultimately show ?thesis
      using False m b same_desc_trans [OF m(3)] same_desc_trans [OF m(4)] by (auto simp: e)
  qed
qed (auto simp: same_desc_def)


lemma with_new_drop:
  assumes "i \<le> length rr" "m \<le> Suc (length rr)"
  shows "m \<le> i \<Longrightarrow> take (i - m) (drop m rr) @ [new] @ drop (i - m) (drop m rr) = drop m (with_new i new rr)"
    "i < m \<Longrightarrow> drop (m - 1) rr = drop m (with_new i new rr)"
  using assms by (auto simp: with_new_def drop_take drop_Cons' add.commute)

text \<open>What a rotation of \<open>m\<close> records leaves.\<close>

definition rotation :: "BTreeControlBlock \<Rightarrow> mem \<Rightarrow> mem \<Rightarrow> nat \<Rightarrow> mem \<Rightarrow> nat \<Rightarrow> rotate_result \<Rightarrow> bool" where
  "rotation bt left right i new m rr \<longleftrightarrow> rr_fit rr \<and> rr_rotated rr = int m \<and> node_wf bt (rr_left rr) \<and> node_wf bt (rr_right rr) \<and>
     same_desc left (rr_left rr) \<and> same_desc right (rr_right rr) \<and>
     records bt (rr_left rr) = records bt left @ take m (with_new i new (records bt right)) \<and>
     records bt (rr_right rr) = drop m (with_new i new (records bt right)) \<and>
     (rr_node rr, rr_index rr) = (if i < m then (get32 right 4, int (nrec left + i)) else (get32 left 0, int (i - m)))"

lemma RotateLeft_rotate_run:
  assumes l: "node_wf bt left" "roff bt left 0 = 14" and r: "node_wf bt right" "roff bt right 0 = 14" and i: "i \<le> nrec right"
    and k: "key_ok bt key kl" and d: "int (len_size bt) \<le> recSize" "recSize \<le> int (length data)"
  defines "new \<equiv> key_record bt kl (raw_key bt key) (bytes_at data 0 recSize)"
  defines "R \<equiv> with_new i new (records bt right)"
  assumes m: "m \<le> length R" and fit: "used_size (records bt left @ take m R) \<le> nodeSize bt" "used_size (drop m R) \<le> nodeSize bt"
  shows "\<exists>rr. RotateLeft_rotate bt left right (int i) key kl data recSize (int m) = Some (Inr rr) \<and> rotation bt left right i new m rr"
proof -
  have i': "i \<le> length (records bt right)" and m': "m \<le> Suc (length (records bt right))" using i m by (simp_all add: R_def)
  have "rotated bt (records bt left) i new (records bt right) 0 left right" using l r by (simp add: rotated_def)
  from RotateLeft_loop_run [OF k d i', folded new_def, OF this, of m "(0, 0)"] fit(1) m' obtain left' right' where
    lp: "RotateLeft_loop m bt (int i) key kl data recSize 0 left right (0, 0) =
        Some (Inr (left', right', if i < m then (int (nrec left + i), get32 right 4) else (0, 0)))"
    "rotated bt (records bt left) i new (records bt right) m left' right'" "same_desc left left'" "same_desc right right'"
    by (auto simp: R_def)
  show ?thesis
  proof (cases "m \<le> i")
    case False
    then show ?thesis
      using lp with_new_drop(2) [OF i' m', of new]
      by (auto simp: RotateLeft_rotate_def rotation_def rotated_def)
  next
    case True
    have w: "node_wf bt right'" "roff bt right' 0 = 14" "records bt right' = drop m (records bt right)" "node_wf bt left'"
      "records bt left' = records bt left @ take m R"
      using lp(2) True by (auto simp: rotated_def R_def)
    have dr: "drop m R = take (i - m) (records bt right') @ [new] @ drop (i - m) (records bt right')"
      using with_new_drop(1) [OF i' m' True, of new] w(3) by (simp add: R_def)
    have "used_size (records bt right') + int (length new) + 2 \<le> nodeSize bt"
      using fit(2) unfolding dr using used_size_split [of "i - m" "records bt right'"] by simp
    then have f: "key_size bt kl + recSize + 2 \<le> node_free bt right'"
      using used_size_node [OF w(1,2)] length_key_record [OF k, of "bytes_at data 0 recSize"] d by (simp add: new_def in_mem_def)
    have "i - m \<le> nrec right'" using arg_cong [OF w(3), of length] i by simp
    from InsertKeyRecord_run [OF w(1) this k d f] obtain right'' where r'':
      "InsertKeyRecord bt right' (int (i - m)) key kl data recSize = Some (True, right'')" "node_wf bt right''" "same_desc right' right''"
      "records bt right'' = drop m R" unfolding dr by (auto simp: new_def)
    have "rd_fLink left' = Some (get32 left 0)" using same_desc_bLink(2) [OF lp(3) l(1) w(4)] .
    then show ?thesis
      using lp(1,3) r'' True w same_desc_trans [OF lp(4) r''(3)]
      by (auto simp: RotateLeft_rotate_def rotation_def R_def of_nat_diff)
  qed
qed

text \<open>The size that \<open>RotateLeft\<close> adds for the new record.\<close>

lemma insert_size:
  assumes "key_ok bt key kl" "even recSize" "0 \<le> recSize" "recSize \<le> int (length data)"
  defines "n \<equiv> kl + (if bigKeys bt then 2 else 1) + recSize + 2"
  shows "(if M_IsOdd n then n + 1 else n) = int (length (key_record bt kl (raw_key bt key) (bytes_at data 0 recSize))) + 2"
  using length_key_record [OF assms(1), of "bytes_at data 0 recSize"] assms(2-4)
  by (auto simp: n_def key_size_def len_size_def in_mem_def split: if_splits)

lemma RotateLeft_run:
  assumes l: "node_wf bt left" "roff bt left 0 = 14" and r: "node_wf bt right" "roff bt right 0 = 14" and i: "i \<le> nrec right"
    and kd: "rd_kind right = Some kind" "GetKeyLength bt key (kind = kBTLeafNode) = Some kl" and k: "key_ok bt key kl"
    and d: "even recSize" "int (len_size bt) \<le> recSize" "recSize \<le> int (length data)"
  defines "new \<equiv> key_record bt kl (raw_key bt key) (bytes_at data 0 recSize)"
  defines "R \<equiv> with_new i new (records bt right)"
  defines "fits \<equiv> \<lambda>m. used_size (records bt left @ take m R) \<le> nodeSize bt \<and> used_size (drop m R) \<le> nodeSize bt"
  shows "\<exists>rr. RotateLeft bt left right (int i) key data recSize = Some (Inr rr) \<and>
    (if \<exists>m \<le> length R. fits m then \<exists>m \<le> length R. rotation bt left right i new m rr
     else \<not> rr_fit rr \<and> rr_left rr = left \<and> rr_right rr = right)"
proof -
  define L where "L = used_size (records bt left)"
  define lsz rsz where "lsz = (\<lambda>m. L + used_size (take m R) - 16)" and "rsz = (\<lambda>m. used_size (drop m R))"
  have ln: "L \<le> nodeSize bt" "16 \<le> L"
    using used_size_node [OF l] GetNodeFreeSize_wf(2) [OF l(1)] used_size_ge [of "records bt left"] by (auto simp: L_def)
  have fs: "fits m \<longleftrightarrow> lsz m \<le> nodeSize bt \<and> rsz m \<le> nodeSize bt" for m by (auto simp: fits_def lsz_def rsz_def L_def)
  have mono: "lsz m \<le> lsz n \<and> rsz n \<le> rsz m" if "m \<le> n" for m n
    using used_size_take_mono [OF that, of R] used_size_split [of m R] used_size_split [of n R] by (auto simp: lsz_def rsz_def)
  have isz: "(if M_IsOdd (kl + (if bigKeys bt then 2 else 1) + recSize + 2) then kl + (if bigKeys bt then 2 else 1) + recSize + 2 + 1
      else kl + (if bigKeys bt then 2 else 1) + recSize + 2) = int (length new) + 2"
    using insert_size [OF k d(1) _ d(3)] d(2) by (simp add: new_def)
  have s0: "nodeSize bt - node_free bt left = lsz 0" "nodeSize bt - node_free bt right + (int (length new) + 2) = rsz 0"
    using used_size_node [OF l] used_size_node [OF r] used_size_with_new [of i new "records bt right"] by (simp_all add: lsz_def rsz_def L_def R_def)
  obtain M ms where M: "M \<le> length R" "RotateLeft_balance bt right (int (length new) + 2) (int i) (lsz 0) (rsz 0) 0 0 = Some (lsz M, rsz M, ms, int M)"
    "rsz M \<le> lsz M" "0 < M \<Longrightarrow> lsz (M - 1) < rsz (M - 1) \<and> ms = int (length (R ! (M - 1))) + 2"
    using RotateLeft_balance_run [OF r(1) i ln(2), of 0 new 0] unfolding R_def [symmetric] lsz_def rsz_def by (fastforce split: if_splits)
  define m where "m = (if lsz M > nodeSize bt then M - 1 else M)"
  have M0: "0 < M" if "lsz M > nodeSize bt" using that ln(1) by (cases M) (auto simp: lsz_def)
  have ml: "m \<le> length R" using M(1) by (auto simp: m_def)
  have u: "(if lsz M > nodeSize bt then (rsz M + ms, u16 (int M - 1)) else (rsz M, int M)) = (rsz m, int m)"
  proof (cases "lsz M > nodeSize bt")
    case True
    have "rsz (M - 1) = rsz M + ms" "M - 1 < length R"
      using M0 [OF True] M(1,4) Cons_nth_drop_Suc [of "M - 1" R, symmetric] by (auto simp: rsz_def)
    moreover have "u16 (int M - 1) = int (M - 1)"
      using M0 [OF True] M(1) i nrec_bound [OF r(1)] by (simp add: R_def of_nat_diff)
    ultimately show ?thesis using True by (simp add: m_def)
  qed (simp add: m_def)
  have fit: "rsz m \<le> nodeSize bt \<longleftrightarrow> (\<exists>n \<le> length R. fits n)"
  proof
    assume a: "rsz m \<le> nodeSize bt"
    have "lsz m \<le> nodeSize bt" using M(4) M0 a by (auto simp: m_def split: if_splits)
    then show "\<exists>n \<le> length R. fits n" using a ml fs by blast
  next
    assume "\<exists>n \<le> length R. fits n"
    then obtain n where n: "lsz n \<le> nodeSize bt" "rsz n \<le> nodeSize bt" using fs by blast
    have "n \<le> m" if "lsz M > nodeSize bt" using mono [of M n] n(1) that by (cases "n < M") (auto simp: m_def)
    then show "rsz m \<le> nodeSize bt" using mono [of n m] n(2) M(3) by (fastforce simp: m_def split: if_splits)
  qed
  have run: "RotateLeft bt left right (int i) key data recSize =
      (if rsz m > nodeSize bt then Some (Inr \<lparr> rr_left = left, rr_right = right, rr_index = 0, rr_node = 0, rr_fit = False, rr_rotated = 0 \<rparr>)
       else RotateLeft_rotate bt left right (int i) key kl data recSize (int m))"
    by (simp only: RotateLeft_def kd Let_def Option.bind.simps isz GetNodeFreeSize_wf(1) [OF l(1)] GetNodeFreeSize_wf(1) [OF r(1)] s0 M(2) prod.case u)
  show ?thesis
  proof (cases "rsz m \<le> nodeSize bt")
    case True
    moreover have "lsz m \<le> nodeSize bt" using M(4) M0 True by (auto simp: m_def split: if_splits)
    ultimately have f: "used_size (records bt left @ take m R) \<le> nodeSize bt" "used_size (drop m R) \<le> nodeSize bt"
      by (auto simp: lsz_def rsz_def L_def)
    from RotateLeft_rotate_run [OF l r i k d(2,3), folded new_def, folded R_def, OF ml f] True ml fit show ?thesis by (auto simp: run)
  qed (use fit in \<open>auto simp: run\<close>)
qed

section \<open>Properties\<close>

text \<open>Two sibling leaves of 64 bytes: an empty one and one with two records.\<close>

definition ex_left :: mem where
  "ex_left = [2,0,0,0, 0,0,0,0, 255,1, 0,0, 0,0] @ replicate 48 0 @ [14,0]"

definition ex_right :: mem where
  "ex_right = [0,0,0,0, 1,0,0,0, 255,1, 2,0, 0,0] @ [2,0,7,0, 1,1] @ [2,0,9,0, 2,2,2,2] @ replicate 30 0 @ [28,0, 20,0, 14,0]"

text \<open>C17: \<open>RotateLeft\<close> on well-formed siblings never returns an error and makes no access out of bounds.  It finds a distribution of the
  records, the new one included, over the two nodes whenever there is one, and otherwise changes nothing.  The records keep
  their order and the links are kept; the node and the index that it returns are those of the new record.\<close>

theorem RotateLeft_correct:
  assumes "node_wf bt left" "roff bt left 0 = 14" "node_wf bt right" "roff bt right 0 = 14" "i \<le> nrec right"
    "rd_kind right = Some kind" "GetKeyLength bt key (kind = kBTLeafNode) = Some kl" "key_ok bt key kl"
    "even recSize" "int (len_size bt) \<le> recSize" "recSize \<le> int (length data)"
  shows "let new = key_record bt kl (raw_key bt key) (bytes_at data 0 recSize); R = with_new i new (records bt right);
      fits = (\<lambda>m. used_size (records bt left @ take m R) \<le> nodeSize bt \<and> used_size (drop m R) \<le> nodeSize bt)
    in \<exists>rr. RotateLeft bt left right (int i) key data recSize = Some (Inr rr) \<and>
      (if \<exists>m \<le> length R. fits m
       then \<exists>m \<le> length R. rr_fit rr \<and> rr_rotated rr = int m \<and> node_wf bt (rr_left rr) \<and> node_wf bt (rr_right rr) \<and>
         same_desc left (rr_left rr) \<and> same_desc right (rr_right rr) \<and>
         records bt (rr_left rr) = records bt left @ take m R \<and> records bt (rr_right rr) = drop m R \<and>
         (rr_node rr, rr_index rr) = (if i < m then (get32 right 4, int (nrec left + i)) else (get32 left 0, int (i - m)))
       else \<not> rr_fit rr \<and> rr_left rr = left \<and> rr_right rr = right)"
  using RotateLeft_run [OF assms] unfolding rotation_def Let_def .

theorem RotateLeft_correct_witness:
  "\<exists>rr. RotateLeft ex_bt ex_left ex_right 1 [2,0,8,0] (replicate 26 5) 26 = Some (Inr rr) \<and> rr_fit rr \<and>
     records ex_bt (rr_left rr) @ records ex_bt (rr_right rr) = [[2,0,7,0,1,1], [2,0,8,0] @ replicate 26 5, [2,0,9,0,2,2,2,2]]"
proof -
  define R :: "mem list" where "R = [[2,0,7,0,1,1], [2,0,8,0] @ replicate 26 5, [2,0,9,0,2,2,2,2]]"
  have h: "node_wf ex_bt ex_left" "roff ex_bt ex_left 0 = 14" "node_wf ex_bt ex_right" "roff ex_bt ex_right 0 = 14" "1 \<le> nrec ex_right"
    "rd_kind ex_right = Some kBTLeafNode" "GetKeyLength ex_bt [2,0,8,0] (kBTLeafNode = kBTLeafNode) = Some 2" "key_ok ex_bt [2,0,8,0] 2"
    "even (26 :: int)" "int (len_size ex_bt) \<le> 26" "26 \<le> int (length (replicate 26 5 :: mem))"
    by code_simp+
  have R: "with_new 1 (key_record ex_bt 2 (raw_key ex_bt [2,0,8,0]) (bytes_at (replicate 26 5) 0 26)) (records ex_bt ex_right) = R" "records ex_bt ex_left = []"
    unfolding R_def by code_simp+
  have "2 \<le> length R \<and> used_size ([] @ take 2 R) \<le> nodeSize ex_bt \<and> used_size (drop 2 R) \<le> nodeSize ex_bt" unfolding R_def by code_simp
  then have f: "\<exists>m \<le> length R. used_size ([] @ take m R) \<le> nodeSize ex_bt \<and> used_size (drop m R) \<le> nodeSize ex_bt" by blast
  show ?thesis using RotateLeft_correct [OF h, unfolded R Let_def, unfolded if_P [OF f]] by (fold R_def) auto
qed


text \<open>A full node with two records, the control block after \<open>SplitLeft\<close> has got its new node, and the two nodes then.\<close>

definition ex_full :: mem where
  "ex_full = [0,0,0,0, 0,0,0,0, 255,1, 2,0, 0,0] @ [2,0,7,0] @ replicate 18 1 @ [2,0,9,0] @ replicate 18 2 @ [58,0, 36,0, 14,0]"

definition ex_split_bt :: BTreeControlBlock where
  "ex_split_bt = M_BTreeHeaderDirty ((M_BTreeHeaderDirty ((bf_btcb ex_file) \<lparr> freeNodes := u32 (freeNodes (bf_btcb ex_file) - 1) \<rparr>)) \<lparr> firstLeafNode := 36 \<rparr>)"

definition ex_new_left :: mem where
  "ex_new_left = [2,0,0,0, 0,0,0,0, 255,1, 0,0, 0,0] @ replicate 48 0 @ [14,0]"

definition ex_full_right :: mem where
  "ex_full_right = [0,0,0,0, 36,0,0,0, 255,1, 2,0, 0,0] @ [2,0,7,0] @ replicate 18 1 @ [2,0,9,0] @ replicate 18 2 @ [58,0, 36,0, 14,0]"

lemma ex_RotateLeft_fails:
  "\<exists>rr. RotateLeft ex_split_bt ex_new_left ex_full_right 1 [2,0,8,0] (replicate 28 5) 28 = Some (Inr rr) \<and>
     \<not> rr_fit rr \<and> rr_left rr = ex_new_left \<and> rr_right rr = ex_full_right"
proof -
  define R :: "mem list" where "R = [[2,0,7,0] @ replicate 18 1, [2,0,8,0] @ replicate 28 5, [2,0,9,0] @ replicate 18 2]"
  have h: "node_wf ex_split_bt ex_new_left" "roff ex_split_bt ex_new_left 0 = 14" "node_wf ex_split_bt ex_full_right"
    "roff ex_split_bt ex_full_right 0 = 14" "1 \<le> nrec ex_full_right"
    "rd_kind ex_full_right = Some kBTLeafNode" "GetKeyLength ex_split_bt [2,0,8,0] (kBTLeafNode = kBTLeafNode) = Some 2" "key_ok ex_split_bt [2,0,8,0] 2"
    "even (28 :: int)" "int (len_size ex_split_bt) \<le> 28" "28 \<le> int (length (replicate 28 5 :: mem))"
    by code_simp+
  have R: "with_new 1 (key_record ex_split_bt 2 (raw_key ex_split_bt [2,0,8,0]) (bytes_at (replicate 28 5) 0 28)) (records ex_split_bt ex_full_right) = R"
    "records ex_split_bt ex_new_left = []" unfolding R_def by code_simp+
  have "\<forall>m \<in> set [0..<4]. \<not> (used_size ([] @ take m R) \<le> nodeSize ex_split_bt \<and> used_size (drop m R) \<le> nodeSize ex_split_bt)" "length R = 3"
    unfolding R_def by code_simp+
  then have f: "\<not> (\<exists>m \<le> length R. used_size ([] @ take m R) \<le> nodeSize ex_split_bt \<and> used_size (drop m R) \<le> nodeSize ex_split_bt)" by (auto simp: less_Suc_eq_le)
  show ?thesis using RotateLeft_run [OF h, unfolded R] unfolding if_not_P [OF f] by auto
qed

lemma GetNewNode_cong:
  "bf_new_err f n = bf_new_err g n \<Longrightarrow> nodeSize (bf_btcb f) = nodeSize (bf_btcb g) \<Longrightarrow> GetNewNode f n = GetNewNode g n"
  by (simp add: GetNewNode_def ClearNode_def split: option.split)

lemma ex_split_nodes: "GetNewNode ex_file 36 = Some (Inr (replicate 62 0 @ [14,0]))"
  "init_left (replicate 62 0 @ [14,0]) ex_full 2 = Some ex_new_left" "wr32 ex_full 4 36 = Some ex_full_right"
  "rd_height ex_full = Some 1" "rd_kind ex_full = Some kBTLeafNode" "rd_bLink ex_full = Some 0"
  by code_simp+


end
