(* ===== verification/BTreeUpdate.thy ===== *)
theory BTreeUpdate
  imports BTreeTreeOps
begin

text \<open>
  The calls of \<open>src/kmod/core/BTree.c\<close> that change the records of a tree, \<open>BTInsertRecord\<close>, \<open>BTReplaceRecord\<close>, \<open>BTUpdateRecord\<close>
  and \<open>BTDeleteRecord\<close>, the iteration with a callback, \<open>BTIterateRecords\<close>, and the calls on the header: \<open>BTFlushPath\<close>,
  \<open>BTGetInformation\<close>, \<open>BTIsDirty\<close>, \<open>BTGetUserData\<close> and \<open>BTSetUserData\<close>.

  A call gets the file of the tree (which may be a nil pointer, or have no control block) and returns the error, the
  iterator and the file.  The reserved fields of a hint are not kept.  A node that was changed but is released without an
  update, because of an error, keeps its old contents.
\<close>

section \<open>Common steps\<close>

text \<open>The hint of a record that was stored in node \<open>n\<close>, and the cleared hint of the error exits.\<close>

definition new_hint :: "BTIterator \<Rightarrow> BTreeControlBlock \<Rightarrow> int \<Rightarrow> BTIterator" where
  "new_hint iterator btreePtr n = iterator\<lparr>bi_writeCount := writeCount btreePtr, bi_nodeNum := n, bi_index := 0\<rparr>"

definition no_hint_left :: "BTIterator \<Rightarrow> BTIterator" where
  "no_hint_left iterator = iterator\<lparr>bi_writeCount := 0, bi_nodeNum := 0, bi_index := 0\<rparr>"

type_synonym set_eof = "btree_file \<Rightarrow> int \<Rightarrow> int \<Rightarrow> bt_err option \<times> btree_file"

text \<open>Extends the file when the tree may need more nodes than are free.\<close>

definition make_room :: "set_eof \<Rightarrow> btree_file \<Rightarrow> (bt_err option \<times> btree_file) option" where
  "make_room setEOF f =
     (let bt = bf_btcb f
      in if treeDepth bt + 1 > freeNodes bt then do {
           let nodesNeeded = u32 (treeDepth bt + 1 + totalNodes bt - freeNodes bt);
           bits \<leftarrow> CalcMapBits bt;
           ExtendBTree setEOF f (if nodesNeeded > bits then u32 (nodesNeeded + 1) else nodesNeeded) }
         else Some (None, f))"

section \<open>Insertion\<close>

text \<open>The first leaf of an empty tree: its number, or the error.\<close>

definition insert_first :: "set_eof \<Rightarrow> int \<Rightarrow> btree_file \<Rightarrow> mem \<Rightarrow> mem \<Rightarrow> int \<Rightarrow> ((bt_err + int) \<times> btree_file) option" where
  "insert_first setEOF tag f key rec recordLen = do {
     (err, f) \<leftarrow> (if freeNodes (bf_btcb f) = 0 then ExtendBTree setEOF f (u32 (totalNodes (bf_btcb f) + 1)) else Some (None, f));
     case err of Some err \<Rightarrow> Some (Inl err, f)
     | None \<Rightarrow> do {
         (r, f) \<leftarrow> AllocateNode tag f;
         case r of Inl err \<Rightarrow> Some (Inl err, f)
         | Inr insertNodeNum \<Rightarrow> do {
             r \<leftarrow> GetNewNode f insertNodeNum;
             case r of Inl err \<Rightarrow> Some (Inl err, f)
             | Inr node \<Rightarrow> do {
                 node \<leftarrow> wr8 node 8 kBTLeafNode;
                 node \<leftarrow> wr8 node 9 1;
                 keyLength \<leftarrow> KeyLength (bf_btcb f) key 0;
                 (recordFit, node) \<leftarrow> InsertKeyRecord (bf_btcb f) node 0 key keyLength rec recordLen;
                 if \<not> recordFit then Some (Inl fsBTRecordTooLargeErr, f)
                 else
                   let f = f\<lparr>bf_btcb := (bf_btcb f)\<lparr>treeDepth := 1, rootNode := insertNodeNum,
                         firstLeafNode := insertNodeNum, lastLeafNode := insertNodeNum\<rparr>\<rparr>
                   in (case UpdateNode f insertNodeNum node of
                         (Some err, f) \<Rightarrow> Some (Inl err, f)
                       | (None, f) \<Rightarrow> Some (Inr insertNodeNum, f\<lparr>bf_btcb := M_BTreeHeaderDirty (bf_btcb f)\<rparr>)) } } } }"

text \<open>The insertion into the leaf \<open>n\<close> at \<open>index\<close>: into the node itself if the record fits, otherwise by \<open>InsertTree\<close>.\<close>

definition insert_at :: "set_eof \<Rightarrow> int \<Rightarrow> btree_file \<Rightarrow> mem \<Rightarrow> mem \<Rightarrow> int \<Rightarrow> TreePathTable \<Rightarrow> int \<Rightarrow> mem \<Rightarrow> int \<Rightarrow>
    ((bt_err + int) \<times> btree_file) option" where
  "insert_at setEOF tag f key rec recordLen path n node index = do {
     keyLength \<leftarrow> KeyLength (bf_btcb f) key 0;
     (recordFit, node1) \<leftarrow> (if index > 0 then InsertKeyRecord (bf_btcb f) node index key keyLength rec recordLen else Some (False, node));
     if recordFit then (case UpdateNode f n node1 of (Some err, f) \<Rightarrow> Some (Inl err, f) | (None, f) \<Rightarrow> Some (Inr n, f))
     else do {
       (err, f) \<leftarrow> make_room setEOF f;
       case err of Some err \<Rightarrow> Some (Inl err, f)
       | None \<Rightarrow> do {
           (err, insertNode, f) \<leftarrow> InsertTree tag f path key rec recordLen node index 1 False n;
           case err of Some err \<Rightarrow> Some (Inl err, f) | None \<Rightarrow> Some (Inr insertNode, f) } } }"

text \<open>After \<open>Success\<close> and \<open>ErrorExit\<close>.\<close>

definition insert_done :: "BTIterator \<Rightarrow> (bt_err + int) \<times> btree_file \<Rightarrow> bt_err option \<times> BTIterator \<times> btree_file" where
  "insert_done iterator r =
     (case r of
        (Inl err, f) \<Rightarrow> (Some (if err = fsBTEmptyErr then fsBTRecordNotFoundErr else err), no_hint_left iterator, f)
      | (Inr n, f) \<Rightarrow>
          let bt = M_BTreeHeaderDirty ((bf_btcb f)\<lparr>writeCount := u32 (writeCount (bf_btcb f) + 1), leafRecords := u32 (leafRecords (bf_btcb f) + 1)\<rparr>)
          in (None, new_hint iterator bt n, f\<lparr>bf_btcb := bt\<rparr>))"

definition insert_record :: "set_eof \<Rightarrow> int \<Rightarrow> (mem \<Rightarrow> mem \<Rightarrow> int option) \<Rightarrow> btree_file \<Rightarrow> BTIterator \<Rightarrow> mem \<Rightarrow> int \<Rightarrow>
    (bt_err option \<times> BTIterator \<times> btree_file) option" where
  "insert_record setEOF tag compareProc f iterator rec recordLen = do {
     (err, path, n, node, index) \<leftarrow> SearchTree compareProc (bf_btcb f) (bf_nodes f) (bi_key iterator) empty_path;
     r \<leftarrow> (case (err, node) of
             (None, _) \<Rightarrow> Some (Inl fsBTDuplicateRecordErr, f)
           | (Some fsBTRecordNotFoundErr, Some node) \<Rightarrow> insert_at setEOF tag f (bi_key iterator) rec recordLen path n node index
           | (Some fsBTEmptyErr, _) \<Rightarrow> insert_first setEOF tag f (bi_key iterator) rec recordLen
           | (Some err, _) \<Rightarrow> Some (Inl err, f));
     Some (insert_done iterator r) }"

text \<open>A call on a file, an iterator and a record that may be nil; \<open>chk\<close> is the result of the preliminary checks.\<close>

type_synonym bt_call = "bt_err option \<times> BTIterator option \<times> btree_file option option"

definition checked_call :: "bt_err option \<Rightarrow> btree_file option option \<Rightarrow> BTIterator option \<Rightarrow>
    (btree_file \<Rightarrow> BTIterator \<Rightarrow> (bt_err option \<times> BTIterator \<times> btree_file) option) \<Rightarrow> bt_call option" where
  "checked_call chk filePtr iterator run =
     (case (chk, filePtr, iterator) of
        (None, Some (Some f), Some it) \<Rightarrow> map_option (\<lambda>(err, it, f). (err, Some it, Some (Some f))) (run f it)
      | _ \<Rightarrow> Some (chk, iterator, filePtr))"

definition BTInsertRecord :: "set_eof \<Rightarrow> int \<Rightarrow> (mem \<Rightarrow> mem \<Rightarrow> int option) \<Rightarrow> btree_file option option \<Rightarrow> BTIterator option \<Rightarrow>
    mem option \<Rightarrow> int \<Rightarrow> bt_call option" where
  "BTInsertRecord setEOF tag compareProc filePtr iterator rec recordLen = do {
     chk \<leftarrow> CheckInsertParams (map_option (map_option bf_btcb) filePtr) (map_option bi_key iterator) rec recordLen;
     checked_call chk filePtr iterator (\<lambda>f it. insert_record setEOF tag compareProc f it (the rec) recordLen) }"

section \<open>Replacement\<close>

text \<open>A replacement in the node \<open>n\<close>: whether it was done, or the error.\<close>

definition try_replace :: "(mem \<Rightarrow> mem \<Rightarrow> int option) \<Rightarrow> btree_file \<Rightarrow> mem \<Rightarrow> mem \<Rightarrow> int \<Rightarrow> int \<Rightarrow> mem \<Rightarrow> ((bt_err + bool) \<times> btree_file) option" where
  "try_replace compareProc f key rec recordLen n node = do {
     (recordFit, node1) \<leftarrow> TrySimpleReplace compareProc (bf_btcb f) node key rec recordLen;
     if recordFit then (case UpdateNode f n node1 of (Some err, f) \<Rightarrow> Some (Inl err, f) | (None, f) \<Rightarrow> Some (Inr True, f))
     else Some (Inr False, f) }"

text \<open>The replacement without a hint: the number of the node of the record.\<close>

definition replace_searched :: "set_eof \<Rightarrow> int \<Rightarrow> (mem \<Rightarrow> mem \<Rightarrow> int option) \<Rightarrow> btree_file \<Rightarrow> mem \<Rightarrow> mem \<Rightarrow> int \<Rightarrow>
    ((bt_err + int) \<times> btree_file) option" where
  "replace_searched setEOF tag compareProc f key rec recordLen = do {
     (err, path, n, node, index) \<leftarrow> SearchTree compareProc (bf_btcb f) (bf_nodes f) key empty_path;
     case (err, node) of
       (None, Some node) \<Rightarrow> do {
         (r, f) \<leftarrow> try_replace compareProc f key rec recordLen n node;
         case r of Inl err \<Rightarrow> Some (Inl err, f)
         | Inr True \<Rightarrow> Some (Inr n, f)
         | Inr False \<Rightarrow> do {
             (err, f) \<leftarrow> make_room setEOF f;
             case err of Some err \<Rightarrow> Some (Inl err, f)
             | None \<Rightarrow> do {
                 node1 \<leftarrow> DeleteRecord (bf_btcb f) node index;
                 (err, insertNode, f) \<leftarrow> InsertTree tag f path key rec recordLen node1 index 1 True n;
                 case err of Some err \<Rightarrow> Some (Inl err, f)
                 | None \<Rightarrow> Some (Inr insertNode, f\<lparr>bf_btcb := (bf_btcb f)\<lparr>writeCount := u32 (writeCount (bf_btcb f) + 1)\<rparr>\<rparr>) } } }
     | (Some err, _) \<Rightarrow> Some (Inl err, f)
     | (None, None) \<Rightarrow> None }"

definition replace_done :: "BTIterator \<Rightarrow> (bt_err + int) \<times> btree_file \<Rightarrow> bt_err option \<times> BTIterator \<times> btree_file" where
  "replace_done iterator r =
     (case r of (Inl err, f) \<Rightarrow> (Some err, no_hint_left iterator, f) | (Inr n, f) \<Rightarrow> (None, new_hint iterator (bf_btcb f) n, f))"

definition count_valid_hint :: "btree_file \<Rightarrow> btree_file" where
  "count_valid_hint f = f\<lparr>bf_btcb := (bf_btcb f)\<lparr>numValidHints := u32 (numValidHints (bf_btcb f) + 1)\<rparr>\<rparr>"

definition replace_record :: "set_eof \<Rightarrow> int \<Rightarrow> (mem \<Rightarrow> mem \<Rightarrow> int option) \<Rightarrow> btree_file \<Rightarrow> BTIterator \<Rightarrow> mem \<Rightarrow> int \<Rightarrow>
    (bt_err option \<times> BTIterator \<times> btree_file) option" where
  "replace_record setEOF tag compareProc f iterator rec recordLen =
     (let (validHint, bt) = IsItAHint (bf_btcb f) (bi_nodeNum iterator); f = f\<lparr>bf_btcb := bt\<rparr>; n = bi_nodeNum iterator
      in do {
        (r, f) \<leftarrow> (if \<not> validHint then Some (Inr False, f)
                  else case GetNode bt (bf_nodes f) n of Inl _ \<Rightarrow> Some (Inr False, f)
                       | Inr node \<Rightarrow> try_replace compareProc f (bi_key iterator) rec recordLen n node);
        case r of
          Inl err \<Rightarrow> Some (replace_done iterator (Inl err, f))
        | Inr True \<Rightarrow> Some (replace_done iterator (Inr n, count_valid_hint f))
        | Inr False \<Rightarrow>
            (let iterator = (if validHint then BTInvalidateHint iterator else iterator)
             in map_option (replace_done iterator) (replace_searched setEOF tag compareProc f (bi_key iterator) rec recordLen)) })"

definition BTReplaceRecord :: "set_eof \<Rightarrow> int \<Rightarrow> (mem \<Rightarrow> mem \<Rightarrow> int option) \<Rightarrow> btree_file option option \<Rightarrow> BTIterator option \<Rightarrow>
    mem option \<Rightarrow> int \<Rightarrow> bt_call option" where
  "BTReplaceRecord setEOF tag compareProc filePtr iterator rec recordLen = do {
     chk \<leftarrow> CheckInsertParams (map_option (map_option bf_btcb) filePtr) (map_option bi_key iterator) rec recordLen;
     checked_call chk filePtr iterator (\<lambda>f it. replace_record setEOF tag compareProc f it (the rec) recordLen) }"

section \<open>Update in place\<close>

text \<open>
  The callback of \<open>BTUpdateRecord\<close> gets the key and the record and may write to the record; it is a function from their bytes to its
  error and the new bytes of the record.
\<close>

type_synonym update_proc = "mem \<Rightarrow> mem \<Rightarrow> bt_err option \<times> mem"

definition update_at :: "update_proc \<Rightarrow> btree_file \<Rightarrow> int \<Rightarrow> mem \<Rightarrow> int \<Rightarrow> (bt_err option \<times> btree_file) option" where
  "update_at callBackProc f n node index = do {
     r \<leftarrow> GetRecordByIndex (bf_btcb f) node index;
     case r of Inl err \<Rightarrow> Some (Some err, f)
     | Inr (keyPtr, recordPtr, recordLen) \<Rightarrow> do {
         rec \<leftarrow> rdn node recordPtr recordLen;
         case callBackProc (drop (nat keyPtr) node) rec of
           (Some err, _) \<Rightarrow> Some (Some err, f)
         | (None, rec1) \<Rightarrow> do { node1 \<leftarrow> wrn node recordPtr rec1; Some (UpdateNode f n node1) } } }"

definition update_done :: "BTIterator \<Rightarrow> int \<Rightarrow> bt_err option \<times> btree_file \<Rightarrow> bt_err option \<times> BTIterator \<times> btree_file" where
  "update_done iterator n r = (case r of (Some err, f) \<Rightarrow> (Some err, no_hint_left iterator, f) | (None, f) \<Rightarrow> (None, new_hint iterator (bf_btcb f) n, f))"

text \<open>Without a hint, or with one that did not help.\<close>

definition update_searched :: "(mem \<Rightarrow> mem \<Rightarrow> int option) \<Rightarrow> update_proc \<Rightarrow> btree_file \<Rightarrow> BTIterator \<Rightarrow>
    (bt_err option \<times> BTIterator \<times> btree_file) option" where
  "update_searched compareProc callBackProc f iterator = do {
     (err, path, n, node, index) \<leftarrow> SearchTree compareProc (bf_btcb f) (bf_nodes f) (bi_key iterator) empty_path;
     case (err, node) of
       (None, Some node) \<Rightarrow> map_option (update_done iterator n) (update_at callBackProc f n node index)
     | (Some err, _) \<Rightarrow> Some (update_done iterator 0 (Some err, f))
     | (None, None) \<Rightarrow> None }"

definition BTUpdateRecord :: "(mem \<Rightarrow> mem \<Rightarrow> int option) \<Rightarrow> update_proc \<Rightarrow> btree_file \<Rightarrow> BTIterator \<Rightarrow>
    (bt_err option \<times> BTIterator \<times> btree_file) option" where
  "BTUpdateRecord compareProc callBackProc f iterator =
     (let (validHint, bt) = IsItAHint (bf_btcb f) (bi_nodeNum iterator); f = f\<lparr>bf_btcb := bt\<rparr>; n = bi_nodeNum iterator
      in if \<not> validHint then update_searched compareProc callBackProc f iterator
         else case GetNode bt (bf_nodes f) n of
           Inl _ \<Rightarrow> update_searched compareProc callBackProc f (BTInvalidateHint iterator)
         | Inr node \<Rightarrow> do {
             kind \<leftarrow> rd_kind node;
             (foundIt, index) \<leftarrow> (if kind = kBTLeafNode then SearchNode compareProc bt node (bi_key iterator) else Some (False, 0));
             if foundIt then do {
               (err, f) \<leftarrow> update_at callBackProc f n node index;
               Some (update_done iterator n (err, if err = None then count_valid_hint f else f)) }
             else update_searched compareProc callBackProc f (BTInvalidateHint iterator) })"

section \<open>Deletion\<close>

text \<open>The nodes that a deletion of the first record of a leaf may need.\<close>

definition make_delete_room :: "set_eof \<Rightarrow> btree_file \<Rightarrow> int \<Rightarrow> (bt_err option \<times> btree_file) option" where
  "make_delete_room setEOF f index =
     (let bt = bf_btcb f
      in if index = 0 \<and> treeDepth bt + 1 > freeNodes bt then do {
           let nodesNeeded = u32 (treeDepth bt + totalNodes bt);
           bits \<leftarrow> CalcMapBits bt;
           let nodesNeeded = (if nodesNeeded > bits then u32 (nodesNeeded + 1) else nodesNeeded);
           if u32 (nodesNeeded - totalNodes bt) > freeNodes bt then ExtendBTree setEOF f nodesNeeded else Some (None, f) }
         else Some (None, f))"

definition delete_record :: "set_eof \<Rightarrow> int \<Rightarrow> (mem \<Rightarrow> mem \<Rightarrow> int option) \<Rightarrow> btree_file \<Rightarrow> BTIterator \<Rightarrow>
    (bt_err option \<times> BTIterator \<times> btree_file) option" where
  "delete_record setEOF tag compareProc f iterator = do {
     (err, path, n, node, index) \<leftarrow> SearchTree compareProc (bf_btcb f) (bf_nodes f) (bi_key iterator) empty_path;
     case (err, node) of
       (None, Some node) \<Rightarrow> do {
         (err, f) \<leftarrow> make_delete_room setEOF f index;
         case err of Some err \<Rightarrow> Some (Some err, iterator, f)
         | None \<Rightarrow> do {
             (err, f) \<leftarrow> DeleteTree tag f path node index 1;
             case err of Some err \<Rightarrow> Some (Some err, iterator, f)
             | None \<Rightarrow> Some (None, BTInvalidateHint iterator,
                 f\<lparr>bf_btcb := M_BTreeHeaderDirty ((bf_btcb f)\<lparr>writeCount := u32 (writeCount (bf_btcb f) + 1),
                     leafRecords := u32 (leafRecords (bf_btcb f) - 1)\<rparr>)\<rparr>) } }
     | (Some err, _) \<Rightarrow> Some (Some err, iterator, f)
     | (None, None) \<Rightarrow> None }"

definition BTDeleteRecord :: "set_eof \<Rightarrow> int \<Rightarrow> (mem \<Rightarrow> mem \<Rightarrow> int option) \<Rightarrow> btree_file option option \<Rightarrow> BTIterator option \<Rightarrow> bt_call option" where
  "BTDeleteRecord setEOF tag compareProc filePtr iterator =
     checked_call
       (case (filePtr, iterator) of (None, _) \<Rightarrow> Some paramErr | (_, None) \<Rightarrow> Some paramErr | (Some None, _) \<Rightarrow> Some fsBTInvalidFileErr | _ \<Rightarrow> None)
       filePtr iterator (delete_record setEOF tag compareProc)"

section \<open>Iteration with a callback\<close>

text \<open>
  The callback gets the bytes from the key on, the bytes from the record on and its state; it tells if the iteration goes on.  The loop ends with
  an error exit (\<open>Inl\<close>), or with the error of its last step, the node, its number, the index and the address of the last key.
\<close>

type_synonym 's iterate_proc = "mem \<Rightarrow> mem \<Rightarrow> 's \<Rightarrow> bool \<times> 's"

partial_function (option) process_records :: "'s iterate_proc \<Rightarrow> BTreeControlBlock \<Rightarrow> get_block \<Rightarrow> mem \<Rightarrow> int \<Rightarrow> mem option \<Rightarrow> int \<Rightarrow> 's \<Rightarrow>
    ((bt_err + bt_err option \<times> mem \<times> int \<times> int \<times> int) \<times> 's) option" where
  "process_records callBackProc bt getNodeProc node nodeNum right index st =
     Option.bind (GetRecordByIndex bt node index) (\<lambda>r. case r of
       Inl _ \<Rightarrow> Some (Inl fsBTInvalidNodeErr, st)
     | Inr (keyPtr, recordPtr, len) \<Rightarrow>
         (case callBackProc (drop (nat keyPtr) node) (drop (nat recordPtr) node) st of (goes_on, st) \<Rightarrow>
            if \<not> goes_on then Some (Inr (None, node, nodeNum, index, keyPtr), st)
            else Option.bind (rd_numRecords node) (\<lambda>numRecords.
              if index + 1 < numRecords then process_records callBackProc bt getNodeProc node nodeNum right (index + 1) st
              else case right of
                Some right \<Rightarrow> process_records callBackProc bt getNodeProc right nodeNum None 0 st
              | None \<Rightarrow>
                  Option.bind (rd_fLink node) (\<lambda>fLink.
                    if fLink > 0 then
                      case GetNode bt getNodeProc fLink of
                        Inl err \<Rightarrow> Some (Inl err, st)
                      | Inr right \<Rightarrow> process_records callBackProc bt getNodeProc right fLink None 0 st
                    else Some (Inr (Some fsBTEndOfIterationErr, node, fLink, index, keyPtr), st)))))"

text \<open>The right sibling that is still held after the step to the first record.\<close>

definition held_right :: "BTreeControlBlock \<Rightarrow> get_block \<Rightarrow> iter_op \<Rightarrow> iter_position \<Rightarrow> mem \<Rightarrow> mem option" where
  "held_right bt getNodeProc operation p node =
     (if operation = kBTreePrevRecord then
        if ip_index p > 0 then ip_right p
        else (case ip_left p of Some _ \<Rightarrow> Some (ip_middle p)
              | None \<Rightarrow> (case rd_fLink node of None \<Rightarrow> None
                       | Some fLink \<Rightarrow> (case GetNode bt getNodeProc fLink of Inl _ \<Rightarrow> None | Inr right \<Rightarrow> Some right)))
      else if operation = kBTreeNextRecord then
        (case rd_numRecords (ip_middle p) of None \<Rightarrow> None
         | Some numRecords \<Rightarrow>
             if \<not> ip_found p \<and> ip_index p \<noteq> numRecords \<or> ip_index p < numRecords - 1 then ip_right p else None)
      else ip_right p)"

definition BTIterateRecords_fail :: "bt_err \<Rightarrow> BTIterator option \<Rightarrow> (bt_err option \<times> BTIterator option) option" where
  "BTIterateRecords_fail err iterator =
     (let e = (if err = fsBTEmptyErr \<or> err = fsBTEndOfIterationErr then fsBTRecordNotFoundErr else err)
      in case iterator of None \<Rightarrow> Some (Some e, None)
         | Some it \<Rightarrow> do {
             key \<leftarrow> wr16 (bi_key it) 0 0;
             Some (Some e, Some (it\<lparr>bi_writeCount := 0, bi_nodeNum := 0, bi_index := 0, bi_key := key\<rparr>)) })"

text \<open>The result: the error, the control block, the iterator and the state of the callback.\<close>

definition BTIterateRecords :: "(mem \<Rightarrow> mem \<Rightarrow> int option) \<Rightarrow> 's iterate_proc \<Rightarrow> get_block \<Rightarrow> BTreeControlBlock \<Rightarrow> iter_op \<Rightarrow> BTIterator option \<Rightarrow> 's \<Rightarrow>
    (bt_err option \<times> BTreeControlBlock \<times> BTIterator option \<times> 's) option" where
  "BTIterateRecords compareProc callBackProc getNodeProc btreePtr operation iterator st = do {
     (target, bt, it) \<leftarrow>
       (if operation = kBTreeOtherOperation then Some (Inl fsInvalidIterationMovmentErr, btreePtr, iterator)
        else if operation = kBTreeFirstRecord \<or> operation = kBTreeLastRecord then do {
          t \<leftarrow> iterate_end btreePtr getNodeProc (operation = kBTreeFirstRecord);
          Some (case t of Inl err \<Rightarrow> Inl err | Inr (node, n, index) \<Rightarrow> Inr (node, n, None, index), btreePtr, iterator) }
        else do {
          (position, bt, it) \<leftarrow> FindIteratorPosition compareProc btreePtr getNodeProc iterator;
          case position of Inl err \<Rightarrow> Some (Inl err, bt, it)
          | Inr p \<Rightarrow> do {
              t \<leftarrow> (if operation = kBTreePrevRecord then iterate_prev bt getNodeProc p
                   else if operation = kBTreeNextRecord then iterate_next bt getNodeProc p
                   else iterate_current p);
              Some (case t of Inl err \<Rightarrow> Inl err | Inr (node, n, index) \<Rightarrow> Inr (node, n, held_right bt getNodeProc operation p node, index), bt, it) } });
     case target of
       Inl err \<Rightarrow> map_option (\<lambda>(e, it). (e, bt, it, st)) (BTIterateRecords_fail err it)
     | Inr (node, n, right, index) \<Rightarrow> do {
         (r, st) \<leftarrow> process_records callBackProc bt getNodeProc node n right index st;
         case r of
           Inl err \<Rightarrow> map_option (\<lambda>(e, it). (e, bt, it, st)) (BTIterateRecords_fail err it)
         | Inr (err, node, n, index, keyPtr) \<Rightarrow> do {
             it \<leftarrow> (case it of None \<Rightarrow> Some None
                   | Some i \<Rightarrow> do {
                       key \<leftarrow> copy_key bt node keyPtr (bi_key i);
                       Some (Some (i\<lparr>bi_writeCount := writeCount bt, bi_nodeNum := n, bi_index := index, bi_key := key\<rparr>)) });
             case err of
               Some err \<Rightarrow> map_option (\<lambda>(e, it). (e, bt, it, st)) (BTIterateRecords_fail err it)
             | None \<Rightarrow> Some (None, bt, it, st) } } }"

section \<open>The header\<close>

record BTreeInfoRec =
  i_nodeSize :: int
  i_maxKeyLength :: int
  i_treeDepth :: int
  i_numRecords :: int
  i_numNodes :: int
  i_numFreeNodes :: int
  i_keyCompareType :: int

text \<open>The time of the last synchronisation is not kept.\<close>

definition BTGetInformation :: "BTreeControlBlock option option \<Rightarrow> bool \<Rightarrow> bt_err + BTreeInfoRec" where
  "BTGetInformation filePtr has_info =
     (case filePtr of None \<Rightarrow> Inl paramErr | Some None \<Rightarrow> Inl fsBTInvalidFileErr
      | Some (Some bt) \<Rightarrow>
          if \<not> has_info then Inl paramErr
          else Inr \<lparr>i_nodeSize = nodeSize bt, i_maxKeyLength = maxKeyLength bt, i_treeDepth = treeDepth bt, i_numRecords = leafRecords bt,
                 i_numNodes = totalNodes bt, i_numFreeNodes = freeNodes bt, i_keyCompareType = keyCompareType bt\<rparr>)"

definition BTIsDirty :: "BTreeControlBlock \<Rightarrow> int" where
  "BTIsDirty bt = TreeIsDirty bt"

definition BTFlushPath :: "btree_file option option \<Rightarrow> (bt_err option \<times> btree_file option option) option" where
  "BTFlushPath filePtr =
     (case filePtr of None \<Rightarrow> Some (Some paramErr, filePtr) | Some None \<Rightarrow> Some (Some fsBTInvalidFileErr, filePtr)
      | Some (Some f) \<Rightarrow> do {
          (err, bt, f1) \<leftarrow> UpdateHeader (bf_btcb f) (bf_nodes f) (\<lambda>node force. UpdateNode f 0 node) f False;
          Some (err, Some (Some (f1\<lparr>bf_btcb := bt\<rparr>))) })"

datatype user_err = UserEINVAL | UserBTErr bt_err

abbreviation (input) kBTreeHeaderUserBytes :: int where "kBTreeHeaderUserBytes \<equiv> 128"

text \<open>The user data follows the node descriptor and the header record, which take 14 and 106 bytes.\<close>

definition BTGetUserData :: "btree_file option \<Rightarrow> mem \<Rightarrow> int \<Rightarrow> (user_err option \<times> mem) option" where
  "BTGetUserData filePtr dataPtr dataSize =
     (if dataSize > kBTreeHeaderUserBytes then Some (Some UserEINVAL, dataPtr)
      else case filePtr of None \<Rightarrow> Some (Some (UserBTErr fsBTInvalidFileErr), dataPtr)
      | Some f \<Rightarrow>
          (case GetNode (bf_btcb f) (bf_nodes f) 0 of Inl err \<Rightarrow> Some (Some (UserBTErr err), dataPtr)
           | Inr node \<Rightarrow> do {
               bytes \<leftarrow> rdn node (sizeof_BTNodeDescriptor + 106) dataSize;
               data1 \<leftarrow> wrn dataPtr 0 bytes;
               Some (None, data1) }))"

definition BTSetUserData :: "btree_file option \<Rightarrow> mem \<Rightarrow> int \<Rightarrow> (user_err option \<times> btree_file option) option" where
  "BTSetUserData filePtr dataPtr dataSize =
     (if dataSize > kBTreeHeaderUserBytes then Some (Some UserEINVAL, filePtr)
      else case filePtr of None \<Rightarrow> Some (Some (UserBTErr fsBTInvalidFileErr), filePtr)
      | Some f \<Rightarrow>
          (case GetNode (bf_btcb f) (bf_nodes f) 0 of Inl err \<Rightarrow> Some (Some (UserBTErr err), filePtr)
           | Inr node \<Rightarrow> do {
               bytes \<leftarrow> rdn dataPtr 0 dataSize;
               node1 \<leftarrow> wrn node (sizeof_BTNodeDescriptor + 106) bytes;
               let (err, f1) = UpdateNode f 0 node1;
               Some (map_option UserBTErr err, Some f1) }))"

end
