(* ===== verification/TreeUpdate.thy ===== *)
theory TreeUpdate
  imports BTreeUpdate
begin

text \<open>
  The calls that change records (\<open>BTreeUpdate\<close>) refine the update of the map of the records of a tree.  The records of a leaf are read
  as pairs of key and data (\<open>record_entry\<close>); replacing a leaf replaces its pairs in the list of the tree; the locale \<open>record_keys\<close>
  adds to the order of the keys that a key is stored inside of its record.
\<close>

section \<open>Records as pairs of key and data\<close>

definition whole_record :: "(mem \<Rightarrow> bool) \<Rightarrow> BTreeControlBlock \<Rightarrow> mem \<Rightarrow> bool" where
  "whole_record whole bt r \<longleftrightarrow> whole r \<and> len_size bt \<le> length r \<and> key_size bt (key_len bt r) \<le> int (length r)"

definition record_entry :: "(mem \<Rightarrow> 'k) \<Rightarrow> BTreeControlBlock \<Rightarrow> mem \<Rightarrow> 'k \<times> mem" where
  "record_entry val bt r = (val r, drop (nat (key_size bt (key_len bt r))) r)"

lemma key_len_nonneg [simp]: "0 \<le> key_len bt r"
  by (simp add: key_len_def)

lemma key_size_bounds: "0 \<le> kl \<Longrightarrow> int (len_size bt) \<le> key_size bt kl" "0 \<le> kl \<Longrightarrow> 0 \<le> key_size bt kl"
  by (auto simp: key_size_def)

lemma GetRecordByIndex_whole:
  assumes wf: "node_wf bt node" and i: "i < nrec node" and w: "whole_record whole bt (record_at bt node i)"
  defines "ks \<equiv> key_size bt (key_len bt (record_at bt node i))"
  shows "GetRecordByIndex bt node (int i) = Some (Inr (roff bt node i, roff bt node i + ks, int (length (record_at bt node i)) - ks))"
    "rdn node (roff bt node i + ks) (int (length (record_at bt node i)) - ks) = Some (drop (nat ks) (record_at bt node i))"
proof -
  define a r kl where "a = roff bt node i" and "r = record_at bt node i" and "kl = key_len bt r"
  have l: "len_size bt \<le> length r" "ks \<le> int (length r)" "0 \<le> ks" "0 \<le> kl"
    using w key_size_bounds(2) [of "key_len bt r" bt] by (simp_all add: whole_record_def ks_def r_def kl_def)
  have nx: "roff bt node (Suc i) = a + int (length r)" using length_record_at [OF wf i] by (simp add: a_def r_def)
  have b: "a + int (length r) < 32768" "0 \<le> a" using roff_range(3) [OF wf, of "Suc i"] nx i by (auto simp: a_def)
  have fld: "bytes_at node (a + 0) (int (len_size bt)) = bytes_at r 0 (int (len_size bt))" "in_mem node (a + 0) (int (len_size bt))"
    using record_slice [OF wf i, of 0 "int (len_size bt)"] l(1) by (simp_all add: a_def r_def)
  have "KeyLength bt node a = Some kl"
  proof (cases "bigKeys bt")
    case True
    then show ?thesis using fld by (simp add: KeyLength_def len_size_def rd_in get_defs kl_def key_len_def del: le_bytes.simps)
  next
    case False
    then show ?thesis using fld by (simp add: KeyLength_def len_size_def rd_in get_defs kl_def key_len_def del: le_bytes.simps)
  qed
  then have cs: "CalcKeySize bt node a = Some (kl + int (len_size bt))" by (auto simp: CalcKeySize_def KeyLength_def len_size_def)
  have k: "ks = key_size bt kl" by (simp add: ks_def kl_def r_def)
  then have "u16 (kl + int (len_size bt)) = kl + int (len_size bt)" and u: "u16 (a + ks) = a + ks" "u16 ks = ks" "u16 a = a"
    "u16 (a + int (length r)) = a + int (length r)" "u16 (int (length r) - ks) = int (length r) - ks"
    using l b by (auto simp: key_size_def intro!: u16_id split: if_splits)
  then have pad: "(if odd (u16 (kl + int (len_size bt))) then u16 (u16 (kl + int (len_size bt)) + 1) else u16 (kl + int (len_size bt))) = ks"
    using k u(2) by (simp add: key_size_def split: if_splits)
  have "int i < get16 node 10" using i int_nrec [of node] by linarith
  with wf cs nx pad u l show "GetRecordByIndex bt node (int i) = Some (Inr (roff bt node i, roff bt node i + ks, int (length (record_at bt node i)) - ks))"
    by (simp add: GetRecordByIndex_def mem_simps a_def [symmetric] r_def [symmetric] nat_add_distrib Let_def)
  have "bytes_at node (a + ks) (int (length r) - ks) = bytes_at r ks (int (length r) - ks)" "in_mem node (a + ks) (int (length r) - ks)"
    using record_slice [OF wf i, of ks "int (length r) - ks"] l by (simp_all add: a_def r_def)
  then show "rdn node (roff bt node i + ks) (int (length (record_at bt node i)) - ks) = Some (drop (nat ks) (record_at bt node i))"
    using l by (simp add: rdn_def a_def r_def [symmetric] bytes_at_def)
qed

lemma key_at_record: "node_wf bt node \<Longrightarrow> i < nrec node \<Longrightarrow> \<exists>x. key_at bt node i = record_at bt node i @ x"
  using record_in_mem [of bt node i] by (auto simp: key_at_def record_at_def bytes_at_def in_mem_def intro: exI [of _ "drop _ _"] append_take_drop_id [symmetric])

lemma same_desc_read:
  assumes "same_desc node node'" "node_wf bt node" "node_wf bt node'"
  shows "rd_height node' = rd_height node" "rd_kind node' = rd_kind node" "rd_fLink node' = rd_fLink node" "rd_bLink node' = rd_bLink node"
proof -
  have l: "in_mem node 0 10" "in_mem node' 0 10" using desc_in_mem(2) [OF assms(2)] desc_in_mem(2) [OF assms(3)] by (auto simp: in_mem_def)
  have s: "bytes_at node' a n = bytes_at node a n" if "0 \<le> a" "0 \<le> n" "a + n \<le> 10" for a n
  proof -
    have "bytes_at m a n = bytes_at (bytes_at m 0 10) a n" if "in_mem m 0 10" for m :: mem
      using that \<open>0 \<le> a\<close> \<open>0 \<le> n\<close> \<open>a + n \<le> 10\<close> by (simp add: slice_slice)
    then show ?thesis using l assms(1) by (simp add: same_desc_def)
  qed
  have m: "in_mem node a n" "in_mem node' a n" if "0 \<le> a" "0 \<le> n" "a + n \<le> 10" for a n
    using l that by (auto simp: in_mem_def)
  show "rd_height node' = rd_height node" "rd_kind node' = rd_kind node" "rd_fLink node' = rd_fLink node" "rd_bLink node' = rd_bLink node"
    using s [of 0 4] s [of 4 4] s [of 8 1] s [of 9 1] m [of 0 4] m [of 4 4] m [of 8 1] m [of 9 1]
    by (simp_all add: node_field_defs rd_in get_defs)
qed

text \<open>A leaf, without its number.\<close>

definition leaf_ok :: "(mem \<Rightarrow> bool) \<Rightarrow> (mem \<Rightarrow> 'k :: linorder) \<Rightarrow> BTreeControlBlock \<Rightarrow> mem \<Rightarrow> bool" where
  "leaf_ok valid val bt node \<longleftrightarrow> node_wf bt node \<and> rd_height node = Some 1 \<and> rd_kind node = Some kBTLeafNode \<and> keys_sorted valid val bt node \<and>
     0 < nrec node \<and> (\<forall>i<nrec node. data_of bt node i \<noteq> None)"

definition leaf_entries :: "(mem \<Rightarrow> 'k) \<Rightarrow> BTreeControlBlock \<Rightarrow> mem \<Rightarrow> ('k \<times> mem) list" where
  "leaf_entries val bt node = map (\<lambda>i. (val (key_at bt node i), the (data_of bt node i))) [0..<nrec node]"

lemma tree_ok_leaf: "tree_ok valid val bt get (Suc 0) n \<longleftrightarrow> n \<noteq> 0 \<and> (case GetNode bt get n of Inl _ \<Rightarrow> False | Inr node \<Rightarrow> leaf_ok valid val bt node)"
  by (auto simp: tree_ok.simps(2) leaf_ok_def split: sum.splits)

lemma tree_entries_leaf1: "GetNode bt get n = Inr node \<Longrightarrow> tree_entries val bt get (Suc 0) n = leaf_entries val bt node"
  by (simp add: tree_entries_leaf leaf_entries_def)

text \<open>The keys lie inside of their records.\<close>

locale record_keys = key_order +
  fixes whole :: "mem \<Rightarrow> bool"
    and storable :: "BTreeControlBlock \<Rightarrow> mem \<Rightarrow> bool"
  assumes whole_valid: "whole r \<Longrightarrow> valid_key (r @ x)"
    and whole_val: "whole r \<Longrightarrow> key_val (r @ x) = key_val r"
    and stored: "storable bt k \<Longrightarrow> valid_key k \<and> key_ok bt k (key_len bt k) \<and> key_len bt (enc_key_record bt (k, d)) = key_len bt k \<and>
      whole (enc_key_record bt (k, d)) \<and> key_val (enc_key_record bt (k, d)) = key_val k"
    and kept: "whole_record whole bt r \<Longrightarrow> length r' = length r \<Longrightarrow>
      take (nat (key_size bt (key_len bt r))) r' = take (nat (key_size bt (key_len bt r))) r \<Longrightarrow>
      whole r' \<and> key_val r' = key_val r \<and> key_len bt r' = key_len bt r"
    and same_size: "storable bt k \<Longrightarrow> whole_record whole bt r \<Longrightarrow> key_val r = key_val k \<Longrightarrow> key_len bt r = key_len bt k"
    and storable_same: "same_tree bt bt' \<Longrightarrow> storable bt k \<Longrightarrow> storable bt' k"
begin

lemma record_entry_at:
  assumes "node_wf bt node" "i < nrec node" "whole_record whole bt (record_at bt node i)"
  shows "valid_key (key_at bt node i)" "data_of bt node i \<noteq> None"
    "(key_val (key_at bt node i), the (data_of bt node i)) = record_entry key_val bt (record_at bt node i)"
proof -
  obtain x where x: "key_at bt node i = record_at bt node i @ x" using key_at_record [OF assms(1,2)] by blast
  have w: "whole (record_at bt node i)" using assms(3) by (simp add: whole_record_def)
  show "valid_key (key_at bt node i)" using whole_valid [OF w] x by simp
  have d: "data_of bt node i = Some (drop (nat (key_size bt (key_len bt (record_at bt node i)))) (record_at bt node i))"
    using GetRecordByIndex_whole [OF assms] by (simp add: data_of_def)
  then show "data_of bt node i \<noteq> None" by simp
  show "(key_val (key_at bt node i), the (data_of bt node i)) = record_entry key_val bt (record_at bt node i)"
    using whole_val [OF w] x d by (simp add: record_entry_def)
qed

lemma leaf_entries_records:
  assumes "node_wf bt node" "\<forall>r\<in>set (records bt node). whole_record whole bt r"
  shows "leaf_entries key_val bt node = map (record_entry key_val bt) (records bt node)"
  unfolding leaf_entries_def records_def map_map comp_def
  by (rule map_cong [OF refl]) (use record_entry_at(3) [OF assms(1)] assms(2) in \<open>simp add: records_def\<close>)

text \<open>A node whose records are whole and ascending is a leaf.\<close>

lemma leaf_of_records:
  assumes "node_wf bt node" "rd_height node = Some 1" "rd_kind node = Some kBTLeafNode" "records bt node \<noteq> []"
    "\<forall>r\<in>set (records bt node). whole_record whole bt r" "sorted_wrt (<) (map fst (map (record_entry key_val bt) (records bt node)))"
  shows "leaf_ok valid_key key_val bt node"
proof -
  have w: "whole_record whole bt (record_at bt node i)" if "i < nrec node" for i using assms(5) that by (simp add: records_def)
  have v: "key_val (key_at bt node i) = fst (record_entry key_val bt (record_at bt node i))" if "i < nrec node" for i
    using record_entry_at(3) [OF assms(1) that w [OF that]] by (simp add: prod_eq_iff)
  have "keys_sorted valid_key key_val bt node" unfolding keys_sorted_def
  proof (intro conjI allI impI)
    fix i assume "i < nrec node"
    then show "valid_key (key_at bt node i)" using record_entry_at(1) [OF assms(1) _ w] by simp
  next
    fix i j assume "i < nrec node" "j < nrec node" "i < j"
    then show "key_val (key_at bt node i) < key_val (key_at bt node j)"
      using assms(6) v by (simp add: sorted_wrt_iff_nth_less records_def)
  qed
  moreover have "0 < nrec node" using assms(4) by (cases "nrec node") (simp_all add: records_def)
  ultimately show ?thesis using assms(1-3) record_entry_at(2) [OF assms(1) _ w] by (auto simp: leaf_ok_def)
qed

end

section \<open>Replacing a leaf\<close>

text \<open>
  The descent to the leaf \<open>m\<close> for the key value \<open>k\<close>: the next key of every index node on the way is greater.
\<close>

fun leads_to :: "(mem \<Rightarrow> 'k :: linorder) \<Rightarrow> BTreeControlBlock \<Rightarrow> get_block \<Rightarrow> nat \<Rightarrow> int \<Rightarrow> 'k \<Rightarrow> int \<Rightarrow> bool" where
  "leads_to val bt get 0 n k m = False"
| "leads_to val bt get (Suc l) n k m = (case GetNode bt get n of Inl _ \<Rightarrow> False
     | Inr node \<Rightarrow> if l = 0 then n = m
         else \<exists>i<nrec node. (Suc i < nrec node \<longrightarrow> k < val (key_at bt node (Suc i))) \<and> leads_to val bt get l (the (child_of bt node i)) k m)"

declare leads_to.simps(2) [simp del]

lemma GetNode_upd: "GetNode bt (get(m := Inr node')) n = (if n = m \<and> n < totalNodes bt then Inr node' else GetNode bt get n)"
  by (simp add: GetNode_def)

lemma GetNode_below: "GetNode bt get n = Inr node \<Longrightarrow> n < totalNodes bt"
  by (simp add: GetNode_def split: if_splits)

lemma child_leaf: "GetNode bt get n = Inr node \<Longrightarrow> i < nrec node \<Longrightarrow> m \<in> set (tree_leaves bt get (Suc l) (the (child_of bt node i))) \<Longrightarrow>
    m \<in> set (tree_leaves bt get (Suc (Suc l)) n)"
  unfolding tree_leaves.simps(2) [of bt get "Suc l"] by force

lemma leads_to_leaf: "leads_to val bt get l n k m \<Longrightarrow> m \<in> set (tree_leaves bt get l n)"
proof (induction l arbitrary: n)
  case (Suc l)
  then obtain node where node: "GetNode bt get n = Inr node" by (auto simp: leads_to.simps(2) split: sum.splits)
  show ?case
  proof (cases l)
    case 0
    then show ?thesis using Suc.prems node by (simp add: leads_to.simps(2) tree_leaves.simps(2))
  next
    case (Suc l')
    obtain i where i: "i < nrec node" "leads_to val bt get l (the (child_of bt node i)) k m"
      using Suc.prems node Suc unfolding leads_to.simps(2) [of val bt get l] by auto
    from Suc.IH [OF i(2)] show ?thesis using child_leaf [OF node i(1)] Suc by simp
  qed
qed simp

text \<open>The leaves of a subtree have entries; those of different children are different.\<close>

lemma leaf_has_entry:
  assumes "tree_ok valid val bt get l n" "m \<in> set (tree_leaves bt get l n)"
  obtains e where "e \<in> set (tree_entries val bt get (Suc 0) m)" "e \<in> set (tree_entries val bt get l n)"
proof -
  have ok: "tree_ok valid val bt get (Suc 0) m" by (rule tree_leaves_ok [OF assms])
  then obtain node where node: "GetNode bt get m = Inr node" "0 < nrec node" by (auto elim: tree_okD)
  then have "tree_entries val bt get (Suc 0) m \<noteq> []" by (simp add: tree_entries_leaf)
  then have e: "hd (tree_entries val bt get (Suc 0) m) \<in> set (tree_entries val bt get (Suc 0) m)" by (rule hd_in_set)
  from that [OF e leaf_entry_in [OF assms(2) e]] show thesis .
qed

lemma other_child:
  assumes ok: "tree_ok valid val bt get (Suc (Suc l)) n" "GetNode bt get n = Inr node" and ij: "i < nrec node" "j < nrec node" "i \<noteq> j"
    and m: "m \<in> set (tree_leaves bt get (Suc l) (the (child_of bt node i)))"
  shows "m \<notin> set (tree_leaves bt get (Suc l) (the (child_of bt node j)))"
proof
  assume mj: "m \<in> set (tree_leaves bt get (Suc l) (the (child_of bt node j)))"
  obtain e where e: "e \<in> set (tree_entries val bt get (Suc 0) m)" "e \<in> set (tree_entries val bt get (Suc l) (the (child_of bt node i)))"
    by (rule leaf_has_entry [OF tree_ok_child(2) [OF ok ij(1)] m])
  have e': "e \<in> set (tree_entries val bt get (Suc l) (the (child_of bt node j)))" by (rule leaf_entry_in [OF mj e(1)])
  have less: False if "a < b" "b < nrec node" "e \<in> set (tree_entries val bt get (Suc l) (the (child_of bt node a)))"
    "e \<in> set (tree_entries val bt get (Suc l) (the (child_of bt node b)))" for a b
  proof -
    have "fst e < val (key_at bt node b)" using that by (intro tree_keys_split(1) [OF ok that(2)]) force
    with tree_ok_child(3) [OF ok that(2,4)] show False by simp
  qed
  show False using less [of i j] less [of j i] e(2) e' ij by linarith
qed

lemma tree_ok_index:
  assumes ok: "tree_ok valid val bt get (Suc (Suc l)) n" and g: "GetNode bt get n = Inr node" "GetNode bt get' n = Inr node"
    and ch: "\<And>i. i < nrec node \<Longrightarrow> tree_ok valid val bt get' (Suc l) (the (child_of bt node i))"
    and bounds: "\<And>i e. i < nrec node \<Longrightarrow> e \<in> set (tree_entries val bt get' (Suc l) (the (child_of bt node i))) \<Longrightarrow>
      val (key_at bt node i) \<le> fst e \<and> (Suc i < nrec node \<longrightarrow> fst e < val (key_at bt node (Suc i)))"
  shows "tree_ok valid val bt get' (Suc (Suc l)) n"
proof -
  have c: "child_of bt node i = Some (the (child_of bt node i))" if "i < nrec node" for i by (rule tree_ok_child(1) [OF ok g(1) that])
  have "case child_of bt node i of None \<Rightarrow> False | Some c \<Rightarrow> tree_ok valid val bt get' (Suc l) c \<and>
      (\<forall>e\<in>set (tree_entries val bt get' (Suc l) c). val (key_at bt node i) \<le> fst e \<and> (Suc i < nrec node \<longrightarrow> fst e < val (key_at bt node (Suc i))))"
    if "i < nrec node" for i
    using ch [OF that] bounds [OF that] by (subst c [OF that]) simp
  then show ?thesis using ok g unfolding tree_ok.simps(2) [of valid val bt _ "Suc l"] by simp
qed

text \<open>A subtree that does not have the leaf stays as it is.\<close>

lemma tree_frame:
  fixes node' :: mem
  assumes m: "tree_ok valid val bt get (Suc 0) m" and ok: "tree_ok valid val bt get l n" "m \<notin> set (tree_leaves bt get l n)"
  defines "get' \<equiv> get(m := Inr node')"
  shows "tree_ok valid val bt get' l n" "tree_entries val bt get' l n = tree_entries val bt get l n" "tree_leaves bt get' l n = tree_leaves bt get l n"
proof -
  have "tree_ok valid val bt get' l n \<and> tree_entries val bt get' l n = tree_entries val bt get l n \<and> tree_leaves bt get' l n = tree_leaves bt get l n"
    using ok
  proof (induction l arbitrary: n)
    case (Suc l)
    obtain node where node: "GetNode bt get n = Inr node" "rd_kind node = Some (if l = 0 then kBTLeafNode else kBTIndexNode)"
      using Suc.prems(1) by (auto elim: tree_okD)
    have "n \<noteq> m"
    proof
      assume "n = m"
      with m node have "l = 0" by (auto simp: tree_ok_leaf leaf_ok_def split: if_splits)
      with Suc.prems(2) \<open>n = m\<close> node(1) show False by (simp add: tree_leaves.simps(2))
    qed
    then have g: "GetNode bt get' n = Inr node" using node(1) by (simp add: get'_def GetNode_upd)
    show ?case
    proof (cases l)
      case 0
      then show ?thesis using Suc.prems(1) node(1) g
        by (simp add: tree_ok_leaf tree_entries_leaf1) (simp add: tree_leaves.simps(2))
    next
      case (Suc l')
      have IH: "tree_ok valid val bt get' l (the (child_of bt node i)) \<and> tree_entries val bt get' l (the (child_of bt node i)) = tree_entries val bt get l (the (child_of bt node i)) \<and>
         tree_leaves bt get' l (the (child_of bt node i)) = tree_leaves bt get l (the (child_of bt node i))" if "i < nrec node" for i
      proof (rule Suc.IH)
        show "tree_ok valid val bt get l (the (child_of bt node i))" using tree_ok_child(2) [OF Suc.prems(1) [unfolded Suc] node(1) that] Suc by simp
        show "m \<notin> set (tree_leaves bt get l (the (child_of bt node i)))"
          using Suc.prems(2) child_leaf [OF node(1) that] Suc by blast
      qed
      note ok = Suc.prems(1) [unfolded Suc]
      have "tree_ok valid val bt get' (Suc l) n" unfolding Suc
        by (rule tree_ok_index [OF ok node(1) g]) (use IH Suc tree_ok_child(3,4) [OF ok node(1)] in auto)
      moreover have "tree_entries val bt get' (Suc l) n = tree_entries val bt get (Suc l) n" "tree_leaves bt get' (Suc l) n = tree_leaves bt get (Suc l) n"
        using node(1) g IH Suc unfolding tree_entries.simps(2) [of val bt _ l] tree_leaves.simps(2) [of bt _ l]
        by (auto intro!: arg_cong [where f = concat] map_cong)
      ultimately show ?thesis by blast
    qed
  qed simp
  then show "tree_ok valid val bt get' l n" "tree_entries val bt get' l n = tree_entries val bt get l n" "tree_leaves bt get' l n = tree_leaves bt get l n"
    by blast+
qed

lemma concat_distinct:
  assumes "\<And>i. i < n \<Longrightarrow> distinct (f i)" "\<And>i j. i < n \<Longrightarrow> j < n \<Longrightarrow> i \<noteq> j \<Longrightarrow> set (f i) \<inter> set (f j) = {}"
  shows "distinct (concat (map f [0..<n]))"
  using assms
proof (induction n)
  case (Suc n)
  then have "distinct (concat (map f [0..<n]))" "distinct (f n)" by simp_all
  moreover have "set (f i) \<inter> set (f n) = {}" if "i < n" for i using Suc.prems(2) [of i n] that by simp
  then have "set (concat (map f [0..<n])) \<inter> set (f n) = {}" by fastforce
  ultimately show ?case by simp
qed simp

lemma tree_leaves_distinct: "tree_ok valid val bt get l n \<Longrightarrow> distinct (tree_leaves bt get l n)"
proof (induction l arbitrary: n)
  case (Suc l)
  obtain node where node: "GetNode bt get n = Inr node" using Suc.prems by (auto elim: tree_okD)
  show ?case
  proof (cases l)
    case 0
    then show ?thesis using node by (simp add: tree_leaves.simps(2))
  next
    case (Suc l')
    note ok = Suc.prems [unfolded Suc]
    have "distinct (concat (map (\<lambda>i. tree_leaves bt get l (the (child_of bt node i))) [0..<nrec node]))"
    proof (rule concat_distinct)
      show "distinct (tree_leaves bt get l (the (child_of bt node i)))" if "i < nrec node" for i
        using tree_ok_child(2) [OF ok node that] Suc.IH Suc by simp
      show "set (tree_leaves bt get l (the (child_of bt node i))) \<inter> set (tree_leaves bt get l (the (child_of bt node j))) = {}"
        if "i < nrec node" "j < nrec node" "i \<noteq> j" for i j
        using other_child [OF ok node that] Suc by blast
    qed
    then show ?thesis using node Suc unfolding tree_leaves.simps(2) [of bt get l] by simp
  qed
qed simp

text \<open>Keys of a changed list of entries: old ones, or \<open>k\<close> with a smaller one before it.\<close>

definition keys_kept :: "'k :: linorder \<Rightarrow> ('k \<times> mem) list \<Rightarrow> ('k \<times> mem) list \<Rightarrow> bool" where
  "keys_kept k es es' \<longleftrightarrow> (\<forall>e\<in>set es'. fst e \<in> fst ` set es \<or> fst e = k \<and> (\<exists>d\<in>set es. fst d < k))"

lemma keys_kept_mono: "keys_kept k es es' \<Longrightarrow> set es \<subseteq> set fs \<Longrightarrow> keys_kept k fs es'"
  unfolding keys_kept_def by (meson image_mono subsetD)

lemma keys_kept_refl [simp]: "keys_kept k es es"
  by (simp add: keys_kept_def)

lemma tree_replace:
  fixes node' :: mem
  assumes "tree_ok valid val bt get l n" "leads_to val bt get l n k m" and leaf: "GetNode bt get m = Inr node"
    and new: "leaf_ok valid val bt node'" "keys_kept k (leaf_entries val bt node) (leaf_entries val bt node')"
  defines "get' \<equiv> get(m := Inr node')"
  shows "tree_ok valid val bt get' l n \<and> tree_leaves bt get' l n = tree_leaves bt get l n \<and>
    keys_kept k (tree_entries val bt get l n) (tree_entries val bt get' l n)"
  using assms(1,2)
proof (induction l arbitrary: n)
  case (Suc l)
  obtain cur where cur: "n \<noteq> 0" "GetNode bt get n = Inr cur" "rd_kind cur = Some (if l = 0 then kBTLeafNode else kBTIndexNode)"
    using Suc.prems(1) by (auto elim: tree_okD)
  show ?case
  proof (cases l)
    case 0
    then have "n = m" using Suc.prems(2) cur(2) by (simp add: leads_to.simps(2))
    then have g: "GetNode bt get' n = Inr node'" using GetNode_below [OF leaf] by (simp add: get'_def GetNode_upd)
    show ?thesis using g cur(1,2) leaf new \<open>n = m\<close> by (simp add: 0 tree_ok_leaf tree_entries_leaf1) (simp add: tree_leaves.simps(2))
  next
    case (Suc l')
    note ok = Suc.prems(1) [unfolded Suc]
    obtain i where i: "i < nrec cur" "Suc i < nrec cur \<longrightarrow> k < val (key_at bt cur (Suc i))" "leads_to val bt get l (the (child_of bt cur i)) k m"
      using Suc.prems(2) cur(2) Suc unfolding leads_to.simps(2) [of val bt get l] by auto
    let ?c = "\<lambda>j. the (child_of bt cur j)"
    have mi: "m \<in> set (tree_leaves bt get (Suc l') (?c i))" using leads_to_leaf [OF i(3)] Suc by simp
    have mleaf: "tree_ok valid val bt get (Suc 0) m" by (rule tree_leaves_ok [OF tree_ok_child(2) [OF ok cur(2) i(1)] mi])
    have "n \<noteq> m" using cur(2,3) mleaf Suc by (auto simp: tree_ok_leaf leaf_ok_def)
    then have g: "GetNode bt get' n = Inr cur" using cur(2) by (simp add: get'_def GetNode_upd)
    have here: "tree_ok valid val bt get' l (?c i)" "tree_leaves bt get' l (?c i) = tree_leaves bt get l (?c i)"
      "keys_kept k (tree_entries val bt get l (?c i)) (tree_entries val bt get' l (?c i))"
      using Suc.IH [OF _ i(3)] tree_ok_child(2) [OF ok cur(2) i(1)] Suc by simp_all
    have there: "tree_ok valid val bt get' l (?c j)" "tree_entries val bt get' l (?c j) = tree_entries val bt get l (?c j)"
      "tree_leaves bt get' l (?c j) = tree_leaves bt get l (?c j)" if "j < nrec cur" "j \<noteq> i" for j
      using tree_frame [OF mleaf tree_ok_child(2) [OF ok cur(2) that(1)] other_child [OF ok cur(2) i(1) that(1) that(2) [symmetric] mi], of node'] Suc
      by (simp_all add: get'_def)
    have kept: "keys_kept k (tree_entries val bt get l (?c j)) (tree_entries val bt get' l (?c j))" if "j < nrec cur" for j
      using here(3) there(2) [OF that] by (cases "j = i") simp_all
    have "tree_ok valid val bt get' (Suc l) n" unfolding Suc
    proof (rule tree_ok_index [OF ok cur(2) g])
      fix j assume j: "j < nrec cur"
      show "tree_ok valid val bt get' (Suc l') (?c j)" using here(1) there(1) [OF j] Suc by (cases "j = i") simp_all
      fix e assume e: "e \<in> set (tree_entries val bt get' (Suc l') (?c j))"
      note b = tree_ok_child(3,4) [OF ok cur(2) j]
      show "val (key_at bt cur j) \<le> fst e \<and> (Suc j < nrec cur \<longrightarrow> fst e < val (key_at bt cur (Suc j)))"
      proof (cases "fst e \<in> fst ` set (tree_entries val bt get (Suc l') (?c j))")
        case True
        then obtain d where "d \<in> set (tree_entries val bt get (Suc l') (?c j))" "fst e = fst d" by blast
        then show ?thesis using b [of d] by simp
      next
        case False
        then obtain d where d: "fst e = k" "d \<in> set (tree_entries val bt get (Suc l') (?c j))" "fst d < k"
          using kept [OF j] e Suc by (auto simp: keys_kept_def)
        have "j = i" using False e there(2) [OF j] Suc by fastforce
        then show ?thesis using d b(1) [OF d(2)] i(2) by auto
      qed
    qed
    moreover have "tree_leaves bt get' (Suc l) n = tree_leaves bt get (Suc l) n"
    proof -
      have "tree_leaves bt get' l (?c j) = tree_leaves bt get l (?c j)" if "j < nrec cur" for j
        using here(2) there(3) [OF that] by (cases "j = i") simp_all
      then show ?thesis using cur(2) g Suc unfolding tree_leaves.simps(2) [of bt _ l] by (auto intro!: arg_cong [where f = concat] map_cong)
    qed
    moreover have "keys_kept k (tree_entries val bt get (Suc l) n) (tree_entries val bt get' (Suc l) n)"
    proof -
      have "keys_kept k (tree_entries val bt get (Suc l) n) (tree_entries val bt get' l (?c j))" if "j < nrec cur" for j
        by (rule keys_kept_mono [OF kept [OF that]]) (use that cur(2) Suc in \<open>force simp: tree_entries.simps(2) [of val bt get "Suc l'"]\<close>)
      moreover have "tree_entries val bt get' (Suc l) n = concat (map (\<lambda>j. tree_entries val bt get' l (?c j)) [0..<nrec cur])"
        using g Suc unfolding tree_entries.simps(2) [of val bt get' l] by simp
      ultimately show ?thesis unfolding keys_kept_def by auto
    qed
    ultimately show ?thesis by blast
  qed
qed simp

lemma btree_replace:
  fixes node' :: mem
  assumes "btree_ok valid val bt get" "leads_to val bt get (nat (treeDepth bt)) (rootNode bt) k m" "GetNode bt get m = Inr node"
    "leaf_ok valid val bt node'" "keys_kept k (leaf_entries val bt node) (leaf_entries val bt node')" "btree_leaves bt get = pl @ m # ql"
  defines "get' \<equiv> get(m := Inr node')" and "E \<equiv> \<lambda>ls. concat (map (tree_entries val bt get (Suc 0)) ls)"
  shows "btree_ok valid val bt get'" "btree_leaves bt get' = btree_leaves bt get" "btree_entries val bt get = E pl @ leaf_entries val bt node @ E ql"
    "btree_entries val bt get' = E pl @ leaf_entries val bt node' @ E ql"
proof -
  have d: "treeDepth bt \<noteq> 0" using assms(2) by (intro notI) simp
  have ok: "tree_ok valid val bt get (nat (treeDepth bt)) (rootNode bt)" using assms(1) d by (simp add: btree_ok_def)
  note r = tree_replace [OF ok assms(2-5), folded get'_def]
  show "btree_ok valid val bt get'" using assms(1) r by (simp add: btree_ok_def)
  show l: "btree_leaves bt get' = btree_leaves bt get" using r by (simp add: btree_leaves_def)
  show "btree_entries val bt get = E pl @ leaf_entries val bt node @ E ql"
    unfolding btree_entries_leaves assms(6) by (simp add: E_def tree_entries_leaf1 [OF assms(3)])
  have dist: "m \<notin> set pl" "m \<notin> set ql" using tree_leaves_distinct [OF ok] assms(6) by (auto simp: btree_leaves_def)
  have g: "GetNode bt get' m = Inr node'" using GetNode_below [OF assms(3)] by (simp add: get'_def GetNode_upd)
  have other: "tree_entries val bt get' (Suc 0) x = tree_entries val bt get (Suc 0) x" if "x \<noteq> m" for x
    using that by (cases "GetNode bt get x") (simp_all add: tree_entries.simps(2) get'_def GetNode_upd)
  have "map (tree_entries val bt get' (Suc 0)) xs = map (tree_entries val bt get (Suc 0)) xs" if "m \<notin> set xs" for xs
    by (rule map_cong [OF refl], rule other) (use that in auto)
  note same = this [OF dist(1)] this [OF dist(2)]
  show "btree_entries val bt get' = E pl @ leaf_entries val bt node' @ E ql"
    unfolding btree_entries_leaves l assms(6) map_append list.map concat_append concat.simps same tree_entries_leaf1 [OF g] E_def ..
qed

context key_order
begin

lemma SearchTree_loop_leads:
  assumes "tree_ok valid_key key_val bt get l n" "valid_key key" "SearchTree_loop l cmp bt get key n path = Some (err, p, m, Some node, index)"
  shows "leads_to key_val bt get l n (key_val key) m \<and> path_at p (Suc 0) = Some \<lparr>tp_node = m, tp_index = index\<rparr>"
  using assms(1,3)
proof (induction l arbitrary: n path)
  case (Suc l)
  obtain cur where cur: "n \<noteq> 0" "GetNode bt get n = Inr cur" "node_wf bt cur" "rd_height cur = Some (int (Suc l))"
    "rd_kind cur = Some (if l = 0 then kBTLeafNode else kBTIndexNode)" "keys_sorted valid_key key_val bt cur" "0 < nrec cur"
    using Suc.prems(1) by (rule tree_okD)
  obtain found i where s: "SearchNode cmp bt cur key = Some (found, i)" "search_result key_val bt cur key (found, i)"
    using SearchNode_correct [OF cur(3,6) assms(2)] by auto
  show ?case
  proof (cases l)
    case 0
    then show ?thesis using Suc.prems(2) cur s(1)
      by (auto simp: leads_to.simps(2) path_at_def set_path_def split: bind_splits if_splits)
  next
    case (Suc l')
    define j where "j = nat (if \<not> found \<and> i \<noteq> 0 then i - 1 else i)"
    have j: "index_step key_val bt cur key j" "(if \<not> found \<and> i \<noteq> 0 then i - 1 else i) = int j"
      using search_result_step [OF s(2) cur(6,7)] by (auto simp: j_def)
    then have jl: "j < nrec cur" by (simp add: index_step_def)
    note ch = tree_ok_child [OF Suc.prems(1) [unfolded Suc] cur(2) jl]
    obtain a d len where g: "GetRecordByIndex bt cur (int j) = Some (Inr (a, d, len))" "rd32 cur d = Some (the (child_of bt cur j))"
      using ch(1) by (auto simp: child_of_def split: option.splits sum.splits)
    have "l \<noteq> 0" using Suc by simp
    then obtain path1 where "SearchTree_loop l cmp bt get key (the (child_of bt cur j)) path1 = Some (err, p, m, Some node, index)"
      using Suc.prems(2) cur s(1) g unfolding SearchTree_loop.simps(2)
      by (auto simp: Let_def j(2) simp del: SearchTree_loop.simps split: bind_splits)
    from Suc.IH [OF _ this] ch(2) Suc have "leads_to key_val bt get l (the (child_of bt cur j)) (key_val key) m"
      "path_at p (Suc 0) = Some \<lparr>tp_node = m, tp_index = index\<rparr>" by simp_all
    then show ?thesis using cur(2) jl j(1) \<open>l \<noteq> 0\<close> unfolding leads_to.simps(2) [of key_val bt get l] by (auto simp: index_step_def)
  qed
qed simp

text \<open>Where a search in a tree that is not empty ends.\<close>

lemma search_leaf:
  assumes "btree_ok valid_key key_val bt get" "valid_key key" "treeDepth bt \<noteq> 0"
  obtains err p m node index pl ql where "SearchTree cmp bt get key empty_path = Some (err, p, m, Some node, index)"
    "GetNode bt get m = Inr node" "leaf_ok valid_key key_val bt node" "btree_leaves bt get = pl @ m # ql" "m \<noteq> 0"
    "\<forall>x\<in>set pl. \<forall>e\<in>set (tree_entries key_val bt get (Suc 0) x). fst e < key_val key"
    "\<forall>x\<in>set ql. \<forall>e\<in>set (tree_entries key_val bt get (Suc 0) x). key_val key < fst e"
    "err = None \<or> err = Some fsBTRecordNotFoundErr" "search_result key_val bt node key (err = None, index)"
    "leads_to key_val bt get (nat (treeDepth bt)) (rootNode bt) (key_val key) m" "path_at p (Suc 0) = Some \<lparr>tp_node = m, tp_index = index\<rparr>"
proof -
  obtain r where r: "SearchTree cmp bt get key empty_path = Some r" "leaf_result valid_key key_val bt get (btree_leaves bt get) key r"
    using SearchTree_correct [OF assms] by blast
  from r(2) obtain err p m node index pl ql where x: "r = (err, p, m, Some node, index)" "GetNode bt get m = Inr node"
    "tree_ok valid_key key_val bt get (Suc 0) m" "btree_leaves bt get = pl @ m # ql"
    "\<forall>x\<in>set pl. \<forall>e\<in>set (tree_entries key_val bt get (Suc 0) x). fst e < key_val key"
    "\<forall>x\<in>set ql. \<forall>e\<in>set (tree_entries key_val bt get (Suc 0) x). key_val key < fst e"
    "err = None \<or> err = Some fsBTRecordNotFoundErr" "search_result key_val bt node key (err = None, index)" by (rule leaf_resultE)
  have d: "0 < treeDepth bt" "treeDepth bt < 16" "s16 (treeDepth bt) = treeDepth bt" using assms by (auto simp: btree_ok_def)
  have ok: "tree_ok valid_key key_val bt get (nat (treeDepth bt)) (rootNode bt)" using assms(1,3) by (simp add: btree_ok_def)
  obtain path0 where "SearchTree_loop (nat (treeDepth bt)) cmp bt get key (rootNode bt) path0 = Some (err, p, m, Some node, index)"
    using r(1) x(1) d by (auto simp: SearchTree_def simp del: SearchTree_loop.simps split: bind_splits)
  from SearchTree_loop_leads [OF ok assms(2) this] x r(1) show thesis using that by (auto simp: tree_ok_leaf)
qed

end

section \<open>Changing the records of a leaf\<close>

lemma overwrite_record:
  assumes wf: "node_wf bt node" and i: "i < nrec node" and o: "0 \<le> a" "a + int (length data) \<le> int (length (record_at bt node i))"
  shows "\<exists>node'. wrn node (roff bt node i + a) data = Some node' \<and> node_wf bt node' \<and> same_desc node node' \<and>
     records bt node' = (records bt node)[i := put_bytes (record_at bt node i) a data]"
proof -
  define node' where "node' = put_bytes node (roff bt node i + a) data"
  have len: "int (length (record_at bt node i)) = roff bt node (Suc i) - roff bt node i" by (rule length_record_at [OF wf i])
  have im: "in_mem node (roff bt node i + a) (int (length data))" using record_in_mem(1) [OF wf i] o len by (simp add: in_mem_def)
  then have so: "same_outside node node' (roff bt node i) (roff bt node (Suc i))"
    unfolding node'_def using o len by (intro same_outside_mono [OF same_outside_splice]) auto
  note ch = change_record [OF wf i so]
  have b: "14 \<le> roff bt node i" "roff bt node (Suc i) \<le> nodeSize bt - 2 * get16 node 10 - 2"
    using roff_range(1) [OF wf, of i] roff_range(2) [OF wf, of "Suc i"] i by auto
  have "roff bt node' (Suc i) = roff bt node (Suc i)" using data_area_frame(5) [OF wf so b] i by simp
  then have "record_at bt node' i = bytes_at node' (roff bt node i) (int (length (record_at bt node i)))" using ch(4) len by (simp add: record_at_def)
  also have "\<dots> = put_bytes (record_at bt node i) a data"
  proof (rule nth_equalityI)
    have m: "in_mem node (roff bt node i) (int (length (record_at bt node i)))" using record_in_mem(1) [OF wf i] len by simp
    then have m': "in_mem node' (roff bt node i) (int (length (record_at bt node i)))" using same_outsideD(1) [OF so] by (simp add: in_mem_def)
    have a: "in_mem (record_at bt node i) a (int (length data))" using o by (simp add: in_mem_def)
    show "length (bytes_at node' (roff bt node i) (int (length (record_at bt node i)))) = length (put_bytes (record_at bt node i) a data)"
      using m' a by (simp add: in_mem_def)
    fix j assume "j < length (bytes_at node' (roff bt node i) (int (length (record_at bt node i))))"
    then have j: "j < length (record_at bt node i)" using m' by (simp add: in_mem_def)
    then have "bytes_at node' (roff bt node i) (int (length (record_at bt node i))) ! j = node' ! nat (roff bt node i + int j)"
      using m' by (simp add: nth_slice nat_add_distrib)
    moreover have "record_at bt node i ! j = node ! nat (roff bt node i + int j)"
      unfolding record_at_def using j m len by (simp add: nth_slice nat_add_distrib)
    moreover have "node' ! nat (roff bt node i + int j) = (if nat a \<le> j \<and> j < nat a + length data then data ! (j - nat a) else node ! nat (roff bt node i + int j))"
    proof -
      have "nat (roff bt node i + int j) < length node" using j m roff_bounds(1) [of bt node i] by (simp add: in_mem_def nat_less_iff)
      from nth_splice [OF im this] show ?thesis using o(1) unfolding node'_def by (simp add: nat_add_distrib)
    qed
    ultimately show "bytes_at node' (roff bt node i) (int (length (record_at bt node i))) ! j = put_bytes (record_at bt node i) a data ! j"
      using nth_splice [OF a j] by simp
  qed
  finally show ?thesis using ch(1,3,6) im by (intro exI [of _ node']) (simp add: wr_Some node'_def)
qed

lemma sorted_insert_at:
  assumes "sorted_wrt (<) (map fst es)" "\<forall>e\<in>set (take i es). fst e < (k :: 'k :: linorder)" "\<forall>e\<in>set (drop i es). k < fst e"
  shows "sorted_wrt (<) (map fst (take i es @ [(k, d)] @ drop i es))"
proof -
  have "sorted_wrt (<) (map fst (take i es) @ map fst (drop i es))" using assms(1) by (metis append_take_drop_id map_append)
  then show ?thesis using assms(2,3) by (auto simp: sorted_wrt_append)
qed

lemma in_take_upt: "j \<in> set (take i [0..<n]) \<Longrightarrow> j < i \<and> j < n"
  by (auto simp: in_set_conv_nth)

lemma leaf_split:
  assumes "search_result val bt node key (found, index)" "keys_sorted valid val bt node"
  shows "\<forall>e\<in>set (take (nat index) (leaf_entries val bt node)). fst e < val key"
    "\<forall>e\<in>set (drop (if found then Suc (nat index) else nat index) (leaf_entries val bt node)). val key < fst e"
  using search_result_order [OF assms] by (auto simp: leaf_entries_def take_map drop_map dest!: in_take_upt)

lemma leaf_sorted: "leaf_ok valid val bt node \<Longrightarrow> sorted_wrt (<) (map fst (leaf_entries val bt node))"
  by (auto simp: leaf_ok_def leaf_entries_def keys_sorted_def sorted_wrt_iff_nth_less)

lemma length_leaf_entries [simp]: "length (leaf_entries val bt node) = nrec node"
  by (simp add: leaf_entries_def)

definition whole_leaf :: "(mem \<Rightarrow> bool) \<Rightarrow> (mem \<Rightarrow> 'k :: linorder) \<Rightarrow> (mem \<Rightarrow> bool) \<Rightarrow> BTreeControlBlock \<Rightarrow> mem \<Rightarrow> bool" where
  "whole_leaf valid val whole bt node \<longleftrightarrow> leaf_ok valid val bt node \<and> (\<forall>r\<in>set (records bt node). whole_record whole bt r)"

context record_keys
begin

lemma whole_leafD:
  assumes "whole_leaf valid_key key_val whole bt node"
  shows "node_wf bt node" "leaf_entries key_val bt node = map (record_entry key_val bt) (records bt node)" "keys_sorted valid_key key_val bt node"
    "rd_height node = Some 1" "rd_kind node = Some kBTLeafNode" "leaf_ok valid_key key_val bt node" "0 < nrec node"
  using assms leaf_entries_records [of bt node] by (simp_all add: whole_leaf_def leaf_ok_def)

text \<open>Changed records that are whole and ascending.\<close>

lemma whole_leafI:
  assumes "whole_leaf valid_key key_val whole bt node" "node_wf bt node'" "same_desc node node'" "records bt node' = rs" "rs \<noteq> []" "\<forall>r\<in>set rs. whole_record whole bt r"
    "sorted_wrt (<) (map fst (map (record_entry key_val bt) rs))"
  shows "whole_leaf valid_key key_val whole bt node'" "leaf_entries key_val bt node' = map (record_entry key_val bt) rs"
proof -
  note d = same_desc_read [OF assms(3) whole_leafD(1) [OF assms(1)] assms(2)]
  show "whole_leaf valid_key key_val whole bt node'" unfolding whole_leaf_def
    using leaf_of_records [of bt node'] assms d whole_leafD(4,5) [OF assms(1)] by simp
  show "leaf_entries key_val bt node' = map (record_entry key_val bt) rs" using leaf_entries_records [OF assms(2)] assms(4,6) by simp
qed

lemma stored_entry:
  assumes "storable bt k"
  shows "whole_record whole bt (enc_key_record bt (k, d))" "record_entry key_val bt (enc_key_record bt (k, d)) = (key_val k, d)"
proof -
  note s = stored [OF assms, of d]
  have ok: "key_ok bt k (key_len bt k)" and l: "key_len bt (enc_key_record bt (k, d)) = key_len bt k" using s by simp_all
  have len: "int (length (enc_key_record bt (k, d))) = key_size bt (key_len bt k) + int (length d)"
    using length_key_record [OF ok, of d] by (simp add: enc_key_record_def)
  show "whole_record whole bt (enc_key_record bt (k, d))"
    unfolding whole_record_def using s l len key_size_bounds [OF key_len_nonneg, of bt bt k] by simp
  have "bytes_at (enc_key_record bt (k, d)) (key_size bt (key_len bt k)) (int (length d)) = d"
    using key_record_data [OF ok] by (simp add: enc_key_record_def)
  then have "drop (nat (key_size bt (key_len bt k))) (enc_key_record bt (k, d)) = d"
    using len key_size_bounds(2) [OF key_len_nonneg, of bt bt k] by (simp add: bytes_at_def)
  then show "record_entry key_val bt (enc_key_record bt (k, d)) = (key_val k, d)" using s l by (simp add: record_entry_def)
qed

lemma insert_leaf:
  assumes w: "whole_leaf valid_key key_val whole bt node" and k: "storable bt k" and r: "int (len_size bt) \<le> recSize" "recSize \<le> int (length rec)"
    and fit: "key_size bt (key_len bt k) + recSize + 2 \<le> node_free bt node" and s: "search_result key_val bt node k (False, index)"
  shows "\<exists>node'. InsertKeyRecord bt node index k (key_len bt k) rec recSize = Some (True, node') \<and> whole_leaf valid_key key_val whole bt node' \<and> same_desc node node' \<and>
    leaf_entries key_val bt node' = take (nat index) (leaf_entries key_val bt node) @ [(key_val k, bytes_at rec 0 recSize)] @ drop (nat index) (leaf_entries key_val bt node)"
proof -
  note d = whole_leafD [OF w]
  have i: "0 \<le> index" "nat index \<le> nrec node" using s by (auto simp: search_result_def nat_le_iff)
  have ok: "key_ok bt k (key_len bt k)" using stored [OF k] by blast
  obtain node' where n: "InsertKeyRecord bt node (int (nat index)) k (key_len bt k) rec recSize = Some (True, node')" "node_wf bt node'" "same_desc node node'"
    "records bt node' = take (nat index) (records bt node) @ [enc_key_record bt (k, bytes_at rec 0 recSize)] @ drop (nat index) (records bt node)"
    using InsertKeyRecord_run [OF d(1) i(2) ok r fit] by (auto simp: enc_key_record_def)
  have m: "map (record_entry key_val bt) (records bt node') = take (nat index) (leaf_entries key_val bt node) @ [(key_val k, bytes_at rec 0 recSize)] @
      drop (nat index) (leaf_entries key_val bt node)"
    unfolding n(4) d(2) by (simp add: take_map drop_map stored_entry(2) [OF k])
  have "sorted_wrt (<) (map fst (map (record_entry key_val bt) (records bt node')))"
    unfolding m using sorted_insert_at [OF leaf_sorted [OF d(6)]] leaf_split [OF s d(3)] by simp
  moreover have "\<forall>r\<in>set (records bt node'). whole_record whole bt r"
    using w stored_entry(1) [OF k] unfolding n(4) by (auto simp: whole_leaf_def dest: in_set_takeD in_set_dropD)
  ultimately have "whole_leaf valid_key key_val whole bt node'" "leaf_entries key_val bt node' = map (record_entry key_val bt) (records bt node')"
    using whole_leafI [OF w n(2,3) refl] n(4) by simp_all
  then show ?thesis using n(1,3) i(1) m by auto
qed

lemma delete_leaf:
  assumes w: "whole_leaf valid_key key_val whole bt node" and i: "i < nrec node" "1 < nrec node"
  shows "\<exists>node'. DeleteRecord bt node (int i) = Some node' \<and> whole_leaf valid_key key_val whole bt node' \<and> same_desc node node' \<and>
    leaf_entries key_val bt node' = take i (leaf_entries key_val bt node) @ drop (Suc i) (leaf_entries key_val bt node)"
proof -
  note d = whole_leafD [OF w]
  obtain node' where n: "DeleteRecord bt node (int i) = Some node'" "node_wf bt node'" "same_desc node node'"
    "records bt node' = take i (records bt node) @ drop (Suc i) (records bt node)"
    using DeleteRecord_run [OF d(1) i(1)] by blast
  have m: "map (record_entry key_val bt) (records bt node') = take i (leaf_entries key_val bt node) @ drop (Suc i) (leaf_entries key_val bt node)"
    unfolding n(4) d(2) by (simp add: take_map drop_map)
  have "sorted_wrt (<) (map fst (take i (leaf_entries key_val bt node)) @ fst (leaf_entries key_val bt node ! i) # map fst (drop (Suc i) (leaf_entries key_val bt node)))"
    using leaf_sorted [OF d(6)] i(1) by (metis id_take_nth_drop length_leaf_entries list.simps(9) map_append)
  then have "sorted_wrt (<) (map fst (map (record_entry key_val bt) (records bt node')))" unfolding m by (auto simp: sorted_wrt_append)
  moreover have "records bt node' \<noteq> []"
  proof -
    have "length (records bt node') = nrec node - 1" using i unfolding n(4) by simp
    then show ?thesis using i(2) by (intro notI) simp
  qed
  moreover have "\<forall>r\<in>set (records bt node'). whole_record whole bt r"
    using w unfolding n(4) by (auto simp: whole_leaf_def dest: in_set_takeD in_set_dropD)
  ultimately have "whole_leaf valid_key key_val whole bt node'" "leaf_entries key_val bt node' = map (record_entry key_val bt) (records bt node')"
    using whole_leafI [OF w n(2,3) refl] by simp_all
  then show ?thesis using n(1,3) m by auto
qed

text \<open>One record changes, but not the value of its key.\<close>

lemma change_leaf:
  assumes w: "whole_leaf valid_key key_val whole bt node" and i: "i < nrec node" and n: "node_wf bt node'" "same_desc node node'" "records bt node' = (records bt node)[i := r]"
    and r: "whole_record whole bt r" "record_entry key_val bt r = (fst (leaf_entries key_val bt node ! i), d)"
  shows "whole_leaf valid_key key_val whole bt node'" "leaf_entries key_val bt node' = (leaf_entries key_val bt node)[i := (fst (leaf_entries key_val bt node ! i), d)]"
proof -
  note l = whole_leafD [OF w]
  have m: "map (record_entry key_val bt) (records bt node') = (leaf_entries key_val bt node)[i := (fst (leaf_entries key_val bt node ! i), d)]"
    unfolding n(3) map_update r(2) l(2) ..
  have "map fst ((leaf_entries key_val bt node)[i := (fst (leaf_entries key_val bt node ! i), d)]) = map fst (leaf_entries key_val bt node)"
    using i list_update_id [of "map fst (leaf_entries key_val bt node)" i] by (simp add: map_update)
  then have "sorted_wrt (<) (map fst (map (record_entry key_val bt) (records bt node')))" unfolding m using leaf_sorted [OF l(6)] by simp
  moreover have "records bt node' \<noteq> []" using i n(3) by (metis length_0_conv length_list_update length_records not_less_zero)
  moreover have "\<forall>r\<in>set (records bt node'). whole_record whole bt r"
    using w r(1) set_update_subset_insert unfolding n(3) by (fastforce simp: whole_leaf_def)
  ultimately show "whole_leaf valid_key key_val whole bt node'" "leaf_entries key_val bt node' = (leaf_entries key_val bt node)[i := (fst (leaf_entries key_val bt node ! i), d)]"
    using whole_leafI [OF w n(1,2) refl] m by simp_all
qed

end

section \<open>The contents of a tree as a map\<close>

text \<open>A tree all of whose leaf records are whole.\<close>

definition whole_tree :: "(mem \<Rightarrow> bool) \<Rightarrow> (mem \<Rightarrow> 'k :: linorder) \<Rightarrow> (mem \<Rightarrow> bool) \<Rightarrow> BTreeControlBlock \<Rightarrow> get_block \<Rightarrow> bool" where
  "whole_tree valid val whole bt get \<longleftrightarrow> btree_ok valid val bt get \<and> (\<forall>m\<in>set (btree_leaves bt get). case GetNode bt get m of Inl _ \<Rightarrow> False
     | Inr node \<Rightarrow> \<forall>r\<in>set (records bt node). whole_record whole bt r)"

text \<open>The entries with a new value for the key \<open>k\<close>, and without it.\<close>

definition put_entry :: "'k :: linorder \<Rightarrow> mem \<Rightarrow> ('k \<times> mem) list \<Rightarrow> ('k \<times> mem) list" where
  "put_entry k d es = filter (\<lambda>e. fst e < k) es @ [(k, d)] @ filter (\<lambda>e. k < fst e) es"

definition drop_entry :: "'k :: linorder \<Rightarrow> ('k \<times> mem) list \<Rightarrow> ('k \<times> mem) list" where
  "drop_entry k es = filter (\<lambda>e. fst e \<noteq> k) es"

lemma put_entry_split:
  assumes "\<forall>e\<in>set xs. fst e < k" "\<forall>e\<in>set ys. k < fst e" "\<forall>e\<in>set zs. fst e = k"
  shows "put_entry k d (xs @ zs @ ys) = xs @ [(k, d)] @ ys" "drop_entry k (xs @ zs @ ys) = xs @ ys"
proof -
  have f: "filter (\<lambda>e. fst e < k) xs = xs" "filter (\<lambda>e. fst e < k) ys = []" "filter (\<lambda>e. fst e < k) zs = []"
    "filter (\<lambda>e. k < fst e) xs = []" "filter (\<lambda>e. k < fst e) ys = ys" "filter (\<lambda>e. k < fst e) zs = []"
    "filter (\<lambda>e. fst e \<noteq> k) xs = xs" "filter (\<lambda>e. fst e \<noteq> k) ys = ys" "filter (\<lambda>e. fst e \<noteq> k) zs = []"
    using assms by (auto simp: filter_id_conv filter_empty_conv)
  show "put_entry k d (xs @ zs @ ys) = xs @ [(k, d)] @ ys" "drop_entry k (xs @ zs @ ys) = xs @ ys"
    by (simp_all add: put_entry_def drop_entry_def f)
qed

lemma whole_tree_same:
  assumes "same_tree bt bt'"
  shows "whole_tree valid val whole bt' get = whole_tree valid val whole bt get"
proof -
  have s: "nodeSize bt' = nodeSize bt" "attributes bt' = attributes bt" using assms by (simp_all add: same_tree_def)
  have "records bt' node = records bt node" for node by (simp add: records_def record_at_def [abs_def] same_tree_node [OF assms])
  moreover have "whole_record whole bt' r = whole_record whole bt r" for r
    by (simp add: whole_record_def len_size_def key_size_def key_len_def bigKeys_def s)
  ultimately show ?thesis by (simp add: whole_tree_def same_tree_btree [OF assms] same_tree_node [OF assms] cong: sum.case_cong)
qed

lemma UpdateNode_ok: "bf_write_err f n = None \<Longrightarrow> UpdateNode f n node = (None, f\<lparr>bf_nodes := (bf_nodes f)(n := Inr node)\<rparr>)"
  by (simp add: UpdateNode_def)

lemma whole_tree_leaf:
  assumes "whole_tree valid val whole bt get" "btree_leaves bt get = pl @ m # ql" "GetNode bt get m = Inr node" "leaf_ok valid val bt node"
  shows "whole_leaf valid val whole bt node"
  using assms by (simp add: whole_tree_def whole_leaf_def)

text \<open>A leaf of the tree is replaced; the keys stay, but for one that is new and not the least of the leaf.\<close>

lemma whole_tree_replace:
  fixes node' :: mem
  assumes t: "whole_tree valid val whole bt get" and l: "leads_to val bt get (nat (treeDepth bt)) (rootNode bt) k m" and g: "GetNode bt get m = Inr node"
    and n: "whole_leaf valid val whole bt node'" and k: "keys_kept k (leaf_entries val bt node) (leaf_entries val bt node')"
    and ls: "btree_leaves bt get = pl @ m # ql"
  shows "whole_tree valid val whole bt (get(m := Inr node'))"
    "btree_entries val bt get = concat (map (tree_entries val bt get (Suc 0)) pl) @ leaf_entries val bt node @ concat (map (tree_entries val bt get (Suc 0)) ql)"
    "btree_entries val bt (get(m := Inr node')) =
       concat (map (tree_entries val bt get (Suc 0)) pl) @ leaf_entries val bt node' @ concat (map (tree_entries val bt get (Suc 0)) ql)"
proof -
  have ok: "btree_ok valid val bt get" "leaf_ok valid val bt node'" using t n by (simp_all add: whole_tree_def whole_leaf_def)
  note r = btree_replace [OF ok(1) l g ok(2) k ls]
  show "btree_entries val bt get = concat (map (tree_entries val bt get (Suc 0)) pl) @ leaf_entries val bt node @ concat (map (tree_entries val bt get (Suc 0)) ql)"
    "btree_entries val bt (get(m := Inr node')) =
       concat (map (tree_entries val bt get (Suc 0)) pl) @ leaf_entries val bt node' @ concat (map (tree_entries val bt get (Suc 0)) ql)"
    by (fact r(3,4))+
  have "case GetNode bt (get(m := Inr node')) x of Inl _ \<Rightarrow> False | Inr nd \<Rightarrow> \<forall>r\<in>set (records bt nd). whole_record whole bt r"
    if "x \<in> set (btree_leaves bt get)" for x
  proof (cases "x = m")
    case True
    then show ?thesis using n GetNode_below [OF g] by (simp add: GetNode_upd whole_leaf_def)
  next
    case False
    then show ?thesis using t that by (simp add: GetNode_upd whole_tree_def)
  qed
  then show "whole_tree valid val whole bt (get(m := Inr node'))" using r(1,2) by (simp add: whole_tree_def)
qed

text \<open>What the entries become when a leaf takes or loses a record.\<close>

lemma entries_around:
  assumes "\<forall>x\<in>set pl. \<forall>e\<in>set (tree_entries val bt get (Suc 0) x). fst e < val key"
    "\<forall>x\<in>set ql. \<forall>e\<in>set (tree_entries val bt get (Suc 0) x). val key < fst e"
    "search_result val bt node key (found, index)" "keys_sorted valid val bt node"
  defines "A \<equiv> concat (map (tree_entries val bt get (Suc 0)) pl)" and "B \<equiv> concat (map (tree_entries val bt get (Suc 0)) ql)"
    and "es \<equiv> leaf_entries val bt node" and "i \<equiv> nat index"
  shows "\<not> found \<Longrightarrow> put_entry (val key) d (A @ es @ B) = A @ (take i es @ [(val key, d)] @ drop i es) @ B"
    "\<not> found \<Longrightarrow> map_of (A @ es @ B) (val key) = None"
    "found \<Longrightarrow> put_entry (val key) d (A @ es @ B) = A @ es[i := (val key, d)] @ B"
    "found \<Longrightarrow> drop_entry (val key) (A @ es @ B) = A @ (take i es @ drop (Suc i) es) @ B"
    "found \<Longrightarrow> i < nrec node \<and> fst (es ! i) = val key" "found \<Longrightarrow> map_of (A @ es @ B) (val key) = Some (snd (es ! i))"
proof -
  have ab: "\<forall>e\<in>set A. fst e < val key" "\<forall>e\<in>set B. val key < fst e" using assms(1,2) by (auto simp: A_def B_def)
  note sp = leaf_split [OF assms(3,4), folded es_def i_def]
  have tk: "\<forall>e\<in>set (A @ take i es). fst e < val key" using ab(1) sp(1) by auto
  { assume f: "\<not> found"
    have dr: "\<forall>e\<in>set (drop i es @ B). val key < fst e" using ab(2) sp(2) f by auto
    have e: "A @ es @ B = (A @ take i es) @ [] @ (drop i es @ B)" by simp
    show "put_entry (val key) d (A @ es @ B) = A @ (take i es @ [(val key, d)] @ drop i es) @ B"
      using put_entry_split(1) [OF tk dr, of "[]" d] unfolding e by simp
    have no: "val key \<notin> fst ` set xs" if "\<forall>x\<in>set xs. fst x \<noteq> val key" for xs using that by auto
    have "val key \<notin> fst ` set (A @ take i es)" "val key \<notin> fst ` set (drop i es @ B)"
      by (rule no; use tk dr in \<open>simp add: less_imp_neq less_imp_not_eq2\<close>; fail)+
    then show "map_of (A @ es @ B) (val key) = None" unfolding e map_of_eq_None_iff set_append by auto }
  { assume f: "found"
    show i: "i < nrec node \<and> fst (es ! i) = val key"
      using assms(3) f by (auto simp: search_result_def es_def i_def leaf_entries_def nat_less_iff)
    then have il: "i < length es" by (simp add: es_def)
    have dr: "\<forall>e\<in>set (drop (Suc i) es @ B). val key < fst e" using ab(2) sp(2) f by auto
    have e: "A @ es @ B = (A @ take i es) @ [es ! i] @ (drop (Suc i) es @ B)" using id_take_nth_drop [OF il] by simp
    note s = put_entry_split [OF tk dr, of "[es ! i]"]
    show "put_entry (val key) d (A @ es @ B) = A @ es[i := (val key, d)] @ B"
      unfolding e using s(1) i by (simp add: upd_conv_take_nth_drop [OF il])
    show "drop_entry (val key) (A @ es @ B) = A @ (take i es @ drop (Suc i) es) @ B" unfolding e using s(2) i by simp
    have "map_of (A @ es @ B) (val key) = map_of [es ! i] (val key)" unfolding e by (rule map_of_split) (use tk dr in auto)
    then show "map_of (A @ es @ B) (val key) = Some (snd (es ! i))" using i by (simp add: prod.case_eq_if split: prod.splits) }
qed

section \<open>The calls\<close>

lemma search_not_empty: "SearchTree compareProc bt get key path = Some (err, p, m, Some node, index) \<Longrightarrow> treeDepth bt \<noteq> 0"
  by (auto simp: SearchTree_def search_error_def)

text \<open>The file after node \<open>m\<close> was written and the control block changed, but not what it says of the tree.\<close>

definition file_changed :: "btree_file \<Rightarrow> int \<Rightarrow> mem \<Rightarrow> btree_file \<Rightarrow> bool" where
  "file_changed f m node f' \<longleftrightarrow> same_tree (bf_btcb f) (bf_btcb f') \<and> bf_nodes f' = (bf_nodes f)(m := Inr node)"

lemma same_tree_counts:
  "same_tree bt (M_BTreeHeaderDirty (bt\<lparr>writeCount := w, leafRecords := n\<rparr>))" "same_tree bt (bt\<lparr>numHintChecks := n\<rparr>)" "same_tree bt bt"
  by (simp_all add: same_tree_def M_BTreeHeaderDirty_def)

context record_keys
begin

lemma search_whole_leaf:
  assumes t: "whole_tree valid_key key_val whole bt get" and v: "valid_key key"
    and s: "SearchTree cmp bt get key empty_path = Some (err, p, m, Some node, index)"
  obtains pl ql where "GetNode bt get m = Inr node" "whole_leaf valid_key key_val whole bt node" "btree_leaves bt get = pl @ m # ql"
    "\<forall>x\<in>set pl. \<forall>e\<in>set (tree_entries key_val bt get (Suc 0) x). fst e < key_val key"
    "\<forall>x\<in>set ql. \<forall>e\<in>set (tree_entries key_val bt get (Suc 0) x). key_val key < fst e"
    "err = None \<or> err = Some fsBTRecordNotFoundErr" "search_result key_val bt node key (err = None, index)"
    "leads_to key_val bt get (nat (treeDepth bt)) (rootNode bt) (key_val key) m" "path_at p (Suc 0) = Some \<lparr>tp_node = m, tp_index = index\<rparr>"
proof -
  have ok: "btree_ok valid_key key_val bt get" using t by (simp add: whole_tree_def)
  obtain err' p' m' node' index' pl ql where x: "SearchTree cmp bt get key empty_path = Some (err', p', m', Some node', index')"
    "GetNode bt get m' = Inr node'" "leaf_ok valid_key key_val bt node'" "btree_leaves bt get = pl @ m' # ql" "m' \<noteq> 0"
    "\<forall>x\<in>set pl. \<forall>e\<in>set (tree_entries key_val bt get (Suc 0) x). fst e < key_val key"
    "\<forall>x\<in>set ql. \<forall>e\<in>set (tree_entries key_val bt get (Suc 0) x). key_val key < fst e"
    "err' = None \<or> err' = Some fsBTRecordNotFoundErr" "search_result key_val bt node' key (err' = None, index')"
    "leads_to key_val bt get (nat (treeDepth bt)) (rootNode bt) (key_val key) m'" "path_at p' (Suc 0) = Some \<lparr>tp_node = m', tp_index = index'\<rparr>"
    by (rule search_leaf [OF ok v search_not_empty [OF s]])
  have e: "err' = err" "p' = p" "m' = m" "node' = node" "index' = index" using x(1) s by simp_all
  show thesis by (rule that) (use x whole_tree_leaf [OF t x(4,2,3)] in \<open>simp_all add: e\<close>)
qed

text \<open>The tree after a leaf with kept keys was written.\<close>

lemma changed_tree:
  assumes t: "whole_tree valid_key key_val whole (bf_btcb f) (bf_nodes f)" and l: "leads_to key_val (bf_btcb f) (bf_nodes f) (nat (treeDepth (bf_btcb f))) (rootNode (bf_btcb f)) k m"
    and g: "GetNode (bf_btcb f) (bf_nodes f) m = Inr node" and n: "whole_leaf valid_key key_val whole (bf_btcb f) node'"
    and k: "keys_kept k (leaf_entries key_val (bf_btcb f) node) (leaf_entries key_val (bf_btcb f) node')"
    and ls: "btree_leaves (bf_btcb f) (bf_nodes f) = pl @ m # ql" and c: "file_changed f m node' f'"
  shows "whole_tree valid_key key_val whole (bf_btcb f') (bf_nodes f')"
    "btree_entries key_val (bf_btcb f) (bf_nodes f) = concat (map (tree_entries key_val (bf_btcb f) (bf_nodes f) (Suc 0)) pl) @ leaf_entries key_val (bf_btcb f) node @
       concat (map (tree_entries key_val (bf_btcb f) (bf_nodes f) (Suc 0)) ql)"
    "btree_entries key_val (bf_btcb f') (bf_nodes f') = concat (map (tree_entries key_val (bf_btcb f) (bf_nodes f) (Suc 0)) pl) @ leaf_entries key_val (bf_btcb f) node' @
       concat (map (tree_entries key_val (bf_btcb f) (bf_nodes f) (Suc 0)) ql)"
proof -
  note r = whole_tree_replace [OF t l g n k ls]
  have s: "same_tree (bf_btcb f) (bf_btcb f')" "bf_nodes f' = (bf_nodes f)(m := Inr node')" using c by (simp_all add: file_changed_def)
  show "whole_tree valid_key key_val whole (bf_btcb f') (bf_nodes f')" unfolding s(2) whole_tree_same [OF s(1)] by (rule r(1))
  show "btree_entries key_val (bf_btcb f') (bf_nodes f') = concat (map (tree_entries key_val (bf_btcb f) (bf_nodes f) (Suc 0)) pl) @ leaf_entries key_val (bf_btcb f) node' @
       concat (map (tree_entries key_val (bf_btcb f) (bf_nodes f) (Suc 0)) ql)" unfolding s(2) same_tree_btree(2) [OF s(1)] by (rule r(3))
qed (rule whole_tree_replace(2) [OF t l g n k ls])

lemma insert_record_run:
  assumes t: "whole_tree valid_key key_val whole (bf_btcb f) (bf_nodes f)" and k: "storable (bf_btcb f) (bi_key it)"
    and r: "int (len_size (bf_btcb f)) \<le> recordLen" "recordLen \<le> int (length rec)"
    and s: "SearchTree cmp (bf_btcb f) (bf_nodes f) (bi_key it) empty_path = Some (err, p, m, Some node, index)" and w: "bf_write_err f m = None"
  shows "map_of (btree_entries key_val (bf_btcb f) (bf_nodes f)) (key_val (bi_key it)) \<noteq> None \<Longrightarrow>
      insert_record setEOF tag cmp f it rec recordLen = Some (Some fsBTDuplicateRecordErr, no_hint_left it, f)"
    "map_of (btree_entries key_val (bf_btcb f) (bf_nodes f)) (key_val (bi_key it)) = None \<Longrightarrow> 0 < index \<Longrightarrow>
      key_size (bf_btcb f) (key_len (bf_btcb f) (bi_key it)) + recordLen + 2 \<le> node_free (bf_btcb f) node \<Longrightarrow>
      \<exists>f'. insert_record setEOF tag cmp f it rec recordLen = Some (None, new_hint it (bf_btcb f') m, f') \<and>
        whole_tree valid_key key_val whole (bf_btcb f') (bf_nodes f') \<and> leafRecords (bf_btcb f') = u32 (leafRecords (bf_btcb f) + 1) \<and>
        btree_entries key_val (bf_btcb f') (bf_nodes f') = put_entry (key_val (bi_key it)) (bytes_at rec 0 recordLen) (btree_entries key_val (bf_btcb f) (bf_nodes f))"
proof -
  let ?bt = "bf_btcb f" and ?get = "bf_nodes f" and ?k = "key_val (bi_key it)"
  have v: "valid_key (bi_key it)" and ko: "key_ok ?bt (bi_key it) (key_len ?bt (bi_key it))" using stored [OF k] by simp_all
  obtain pl ql where x: "GetNode ?bt ?get m = Inr node" "whole_leaf valid_key key_val whole ?bt node" "btree_leaves ?bt ?get = pl @ m # ql"
    "\<forall>x\<in>set pl. \<forall>e\<in>set (tree_entries key_val ?bt ?get (Suc 0) x). fst e < ?k" "\<forall>x\<in>set ql. \<forall>e\<in>set (tree_entries key_val ?bt ?get (Suc 0) x). ?k < fst e"
    "err = None \<or> err = Some fsBTRecordNotFoundErr" "search_result key_val ?bt node (bi_key it) (err = None, index)"
    "leads_to key_val ?bt ?get (nat (treeDepth ?bt)) (rootNode ?bt) ?k m" "path_at p (Suc 0) = Some \<lparr>tp_node = m, tp_index = index\<rparr>"
    by (rule search_whole_leaf [OF t v s])
  note d = whole_leafD [OF x(2)] and e = entries_around [OF x(4,5,7) whole_leafD(3) [OF x(2)]]
  have es: "btree_entries key_val ?bt ?get = concat (map (tree_entries key_val ?bt ?get (Suc 0)) pl) @ leaf_entries key_val ?bt node @ concat (map (tree_entries key_val ?bt ?get (Suc 0)) ql)"
    by (rule whole_tree_replace(2) [OF t x(8,1,2) keys_kept_refl x(3)])
  { assume "map_of (btree_entries key_val ?bt ?get) ?k \<noteq> None"
    then have "err = None" using e(2) unfolding es by (cases "err = None") simp_all
    then show "insert_record setEOF tag cmp f it rec recordLen = Some (Some fsBTDuplicateRecordErr, no_hint_left it, f)"
      using s by (simp add: insert_record_def insert_done_def) }
  { assume a: "map_of (btree_entries key_val ?bt ?get) ?k = None" "0 < index" "key_size ?bt (key_len ?bt (bi_key it)) + recordLen + 2 \<le> node_free ?bt node"
    have nf: "err = Some fsBTRecordNotFoundErr" using a(1) e(6) x(6) unfolding es by auto
    then have sr: "search_result key_val ?bt node (bi_key it) (False, index)" using x(7) by simp
    obtain node' where n: "InsertKeyRecord ?bt node index (bi_key it) (key_len ?bt (bi_key it)) rec recordLen = Some (True, node')"
      "whole_leaf valid_key key_val whole ?bt node'" "leaf_entries key_val ?bt node' = take (nat index) (leaf_entries key_val ?bt node) @ [(?k, bytes_at rec 0 recordLen)] @
         drop (nat index) (leaf_entries key_val ?bt node)"
      using insert_leaf [OF x(2) k r a(3) sr] by blast
    define bt' where "bt' = M_BTreeHeaderDirty (?bt\<lparr>writeCount := u32 (writeCount ?bt + 1), leafRecords := u32 (leafRecords ?bt + 1)\<rparr>)"
    define f' where "f' = f\<lparr>bf_nodes := ?get(m := Inr node'), bf_btcb := bt'\<rparr>"
    have run: "insert_record setEOF tag cmp f it rec recordLen = Some (None, new_hint it (bf_btcb f') m, f')"
      using s nf a(2) n(1) KeyLength_ok [OF ko] w
      by (simp add: insert_record_def insert_at_def insert_done_def UpdateNode_ok f'_def bt'_def Let_def)
    have "\<exists>d\<in>set (leaf_entries key_val ?bt node). fst d < ?k"
      using search_result_order(1) [OF sr d(3), of 0] a(2) d(7) by (auto simp: leaf_entries_def intro!: bexI [of _ 0])
    then have kept: "keys_kept ?k (leaf_entries key_val ?bt node) (leaf_entries key_val ?bt node')"
      unfolding n(3) keys_kept_def by (auto dest: in_set_takeD in_set_dropD)
    have c: "file_changed f m node' f'" by (simp add: file_changed_def f'_def bt'_def same_tree_counts)
    note ch = changed_tree [OF t x(8,1) n(2) kept x(3) c]
    have "btree_entries key_val (bf_btcb f') (bf_nodes f') = put_entry ?k (bytes_at rec 0 recordLen) (btree_entries key_val ?bt ?get)"
      unfolding ch(2,3) n(3) using e(1) nf by simp
    then show "\<exists>f'. insert_record setEOF tag cmp f it rec recordLen = Some (None, new_hint it (bf_btcb f') m, f') \<and>
        whole_tree valid_key key_val whole (bf_btcb f') (bf_nodes f') \<and> leafRecords (bf_btcb f') = u32 (leafRecords ?bt + 1) \<and>
        btree_entries key_val (bf_btcb f') (bf_nodes f') = put_entry ?k (bytes_at rec 0 recordLen) (btree_entries key_val ?bt ?get)"
      using run ch(1) by (intro exI [of _ f']) (simp add: f'_def bt'_def M_BTreeHeaderDirty_def) }
qed

end

lemma leaf_entries_same: "same_tree bt bt' \<Longrightarrow> leaf_entries val bt' node = leaf_entries val bt node"
  by (simp add: leaf_entries_def same_tree_node)

context record_keys
begin

text \<open>The search for a key of the tree: its leaf and its record.\<close>

lemma found_leaf:
  assumes t: "whole_tree valid_key key_val whole bt get" and v: "valid_key key"
    and d: "map_of (btree_entries key_val bt get) (key_val key) = Some d"
  obtains p m node i pl ql where "SearchTree cmp bt get key empty_path = Some (None, p, m, Some node, int i)"
    "GetNode bt get m = Inr node" "whole_leaf valid_key key_val whole bt node" "btree_leaves bt get = pl @ m # ql"
    "\<forall>x\<in>set pl. \<forall>e\<in>set (tree_entries key_val bt get (Suc 0) x). fst e < key_val key"
    "\<forall>x\<in>set ql. \<forall>e\<in>set (tree_entries key_val bt get (Suc 0) x). key_val key < fst e"
    "search_result key_val bt node key (True, int i)" "i < nrec node" "leaf_entries key_val bt node ! i = (key_val key, d)"
    "leads_to key_val bt get (nat (treeDepth bt)) (rootNode bt) (key_val key) m" "path_at p (Suc 0) = Some \<lparr>tp_node = m, tp_index = int i\<rparr>"
proof -
  have ok: "btree_ok valid_key key_val bt get" using t by (simp add: whole_tree_def)
  have nz: "treeDepth bt \<noteq> 0" using d by (intro notI) (simp add: btree_entries_def)
  obtain err p m node index where s: "SearchTree cmp bt get key empty_path = Some (err, p, m, Some node, index)"
    by (rule search_leaf [OF ok v nz])
  obtain pl ql where x: "GetNode bt get m = Inr node" "whole_leaf valid_key key_val whole bt node" "btree_leaves bt get = pl @ m # ql"
    "\<forall>x\<in>set pl. \<forall>e\<in>set (tree_entries key_val bt get (Suc 0) x). fst e < key_val key"
    "\<forall>x\<in>set ql. \<forall>e\<in>set (tree_entries key_val bt get (Suc 0) x). key_val key < fst e"
    "err = None \<or> err = Some fsBTRecordNotFoundErr" "search_result key_val bt node key (err = None, index)"
    "leads_to key_val bt get (nat (treeDepth bt)) (rootNode bt) (key_val key) m" "path_at p (Suc 0) = Some \<lparr>tp_node = m, tp_index = index\<rparr>"
    by (rule search_whole_leaf [OF t v s])
  note e = entries_around [OF x(4,5,7) whole_leafD(3) [OF x(2)]]
  have es: "btree_entries key_val bt get = concat (map (tree_entries key_val bt get (Suc 0)) pl) @ leaf_entries key_val bt node @ concat (map (tree_entries key_val bt get (Suc 0)) ql)"
    by (rule whole_tree_replace(2) [OF t x(8,1,2) keys_kept_refl x(3)])
  have f: "err = None" using e(2) d unfolding es by (cases "err = None") (simp_all del: map_of_append)
  have i: "int (nat index) = index" using x(7) by (simp add: search_result_def)
  have "leaf_entries key_val bt node ! nat index = (key_val key, d)" "nat index < nrec node"
    using e(5,6) [OF f] d unfolding es by (simp_all add: prod_eq_iff)
  with that [of p m node "nat index" pl ql] s x f i show thesis by simp
qed

lemma not_found:
  assumes t: "whole_tree valid_key key_val whole bt get" and v: "valid_key key" and nz: "treeDepth bt \<noteq> 0"
    and d: "map_of (btree_entries key_val bt get) (key_val key) = None"
  obtains p m node index where "SearchTree cmp bt get key empty_path = Some (Some fsBTRecordNotFoundErr, p, m, node, index)"
proof -
  have ok: "btree_ok valid_key key_val bt get" using t by (simp add: whole_tree_def)
  obtain err p m node index where s: "SearchTree cmp bt get key empty_path = Some (err, p, m, Some node, index)"
    by (rule search_leaf [OF ok v nz])
  obtain pl ql where x: "GetNode bt get m = Inr node" "whole_leaf valid_key key_val whole bt node" "btree_leaves bt get = pl @ m # ql"
    "\<forall>x\<in>set pl. \<forall>e\<in>set (tree_entries key_val bt get (Suc 0) x). fst e < key_val key"
    "\<forall>x\<in>set ql. \<forall>e\<in>set (tree_entries key_val bt get (Suc 0) x). key_val key < fst e"
    "err = None \<or> err = Some fsBTRecordNotFoundErr" "search_result key_val bt node key (err = None, index)"
    "leads_to key_val bt get (nat (treeDepth bt)) (rootNode bt) (key_val key) m" "path_at p (Suc 0) = Some \<lparr>tp_node = m, tp_index = index\<rparr>"
    by (rule search_whole_leaf [OF t v s])
  note e = entries_around [OF x(4,5,7) whole_leafD(3) [OF x(2)]]
  have es: "btree_entries key_val bt get = concat (map (tree_entries key_val bt get (Suc 0)) pl) @ leaf_entries key_val bt node @ concat (map (tree_entries key_val bt get (Suc 0)) ql)"
    by (rule whole_tree_replace(2) [OF t x(8,1,2) keys_kept_refl x(3)])
  have "err = Some fsBTRecordNotFoundErr" using e(6) d x(6) unfolding es by (cases "err = None") simp_all
  with s that show thesis by blast
qed

lemma DeleteTree_simple:
  assumes n: "DeleteRecord (bf_btcb f) node index = Some node'" "rd_numRecords node' = Some k" "rd_kind node' = Some kBTLeafNode" "0 < k" "index \<noteq> 0"
    and p: "path_at p (Suc 0) = Some \<lparr>tp_node = m, tp_index = index\<rparr>" and w: "bf_write_err f m = None"
  shows "DeleteTree tag f p node index (Suc 0) = Some (None, f\<lparr>bf_nodes := (bf_nodes f)(m := Inr node')\<rparr>)"
proof -
  have "CollapseTree_loop f m node' = Some (Inr (m, node'), f)" using n by (subst CollapseTree_loop.simps) simp
  then have c: "CollapseTree f m node' = Some (None, f\<lparr>bf_nodes := (bf_nodes f)(m := Inr node')\<rparr>)"
    using UpdateNode_ok [OF w] by (simp add: CollapseTree_def)
  show ?thesis using n p c UpdateNode_ok [OF w] by (subst DeleteTree.simps) (simp add: fix_root_def)
qed

lemma delete_record_run:
  assumes t: "whole_tree valid_key key_val whole (bf_btcb f) (bf_nodes f)" and v: "valid_key (bi_key it)"
    and s: "SearchTree cmp (bf_btcb f) (bf_nodes f) (bi_key it) empty_path = Some (err, p, m, Some node, index)" and w: "bf_write_err f m = None"
  shows "map_of (btree_entries key_val (bf_btcb f) (bf_nodes f)) (key_val (bi_key it)) = None \<Longrightarrow>
      delete_record setEOF tag cmp f it = Some (Some fsBTRecordNotFoundErr, it, f)"
    "map_of (btree_entries key_val (bf_btcb f) (bf_nodes f)) (key_val (bi_key it)) \<noteq> None \<Longrightarrow> 0 < index \<Longrightarrow>
      \<exists>f'. delete_record setEOF tag cmp f it = Some (None, BTInvalidateHint it, f') \<and>
        whole_tree valid_key key_val whole (bf_btcb f') (bf_nodes f') \<and> leafRecords (bf_btcb f') = u32 (leafRecords (bf_btcb f) - 1) \<and>
        btree_entries key_val (bf_btcb f') (bf_nodes f') = drop_entry (key_val (bi_key it)) (btree_entries key_val (bf_btcb f) (bf_nodes f))"
proof -
  let ?bt = "bf_btcb f" and ?get = "bf_nodes f" and ?k = "key_val (bi_key it)"
  { assume "map_of (btree_entries key_val ?bt ?get) ?k = None"
    from not_found [OF t v search_not_empty [OF s] this] have "err = Some fsBTRecordNotFoundErr" using s by auto
    then show "delete_record setEOF tag cmp f it = Some (Some fsBTRecordNotFoundErr, it, f)" using s by (simp add: delete_record_def) }
  { assume a: "map_of (btree_entries key_val ?bt ?get) ?k \<noteq> None" "0 < index"
    then obtain d where "map_of (btree_entries key_val ?bt ?get) ?k = Some d" by blast
    from found_leaf [OF t v this] obtain p' m' node0 i pl ql where x: "SearchTree cmp ?bt ?get (bi_key it) empty_path = Some (None, p', m', Some node0, int i)"
      "GetNode ?bt ?get m' = Inr node0" "whole_leaf valid_key key_val whole ?bt node0" "btree_leaves ?bt ?get = pl @ m' # ql"
      "\<forall>x\<in>set pl. \<forall>e\<in>set (tree_entries key_val ?bt ?get (Suc 0) x). fst e < ?k" "\<forall>x\<in>set ql. \<forall>e\<in>set (tree_entries key_val ?bt ?get (Suc 0) x). ?k < fst e"
      "search_result key_val ?bt node0 (bi_key it) (True, int i)" "i < nrec node0"
      "leads_to key_val ?bt ?get (nat (treeDepth ?bt)) (rootNode ?bt) ?k m'" "path_at p' (Suc 0) = Some \<lparr>tp_node = m', tp_index = int i\<rparr>"
      by metis
    have q: "err = None" "p' = p" "m' = m" "node0 = node" "index = int i" using x(1) s by simp_all
    note x = x [unfolded q(2-4)] and d = whole_leafD [OF x(3) [unfolded q(4)]]
    have i: "0 < i" "1 < nrec node" using a(2) q(5) x(8) by simp_all
    obtain node' where n: "DeleteRecord ?bt node (int i) = Some node'" "whole_leaf valid_key key_val whole ?bt node'"
      "leaf_entries key_val ?bt node' = take i (leaf_entries key_val ?bt node) @ drop (Suc i) (leaf_entries key_val ?bt node)"
      using delete_leaf [OF x(3,8) i(2)] by blast
    note d' = whole_leafD [OF n(2)]
    have "0 < get16 node' 10" using d'(7) int_nrec [of node'] by linarith
    then have del: "DeleteTree tag f p node (int i) (Suc 0) = Some (None, f\<lparr>bf_nodes := ?get(m := Inr node')\<rparr>)"
      using DeleteTree_simple [OF n(1) rd_numRecords_wf [OF d'(1)] d'(5) _ _ x(10) w] i(1) by simp
    define bt' where "bt' = M_BTreeHeaderDirty (?bt\<lparr>writeCount := u32 (writeCount ?bt + 1), leafRecords := u32 (leafRecords ?bt - 1)\<rparr>)"
    define f' where "f' = f\<lparr>bf_nodes := ?get(m := Inr node'), bf_btcb := bt'\<rparr>"
    have run: "delete_record setEOF tag cmp f it = Some (None, BTInvalidateHint it, f')"
      using s q(1,5) i(1) del by (simp add: delete_record_def make_delete_room_def Let_def f'_def bt'_def)
    have kept: "keys_kept ?k (leaf_entries key_val ?bt node) (leaf_entries key_val ?bt node')"
      unfolding n(3) keys_kept_def by (auto dest: in_set_takeD in_set_dropD)
    have c: "file_changed f m node' f'" by (simp add: file_changed_def f'_def bt'_def same_tree_counts)
    note ch = changed_tree [OF t x(9,2) n(2) kept x(4) c] and e = entries_around [OF x(5,6,7) d(3)]
    have "btree_entries key_val (bf_btcb f') (bf_nodes f') = drop_entry ?k (btree_entries key_val ?bt ?get)"
      unfolding ch(2,3) n(3) using e(4) by simp
    then show "\<exists>f'. delete_record setEOF tag cmp f it = Some (None, BTInvalidateHint it, f') \<and>
        whole_tree valid_key key_val whole (bf_btcb f') (bf_nodes f') \<and> leafRecords (bf_btcb f') = u32 (leafRecords ?bt - 1) \<and>
        btree_entries key_val (bf_btcb f') (bf_nodes f') = drop_entry ?k (btree_entries key_val ?bt ?get)"
      using run ch(1) by (intro exI [of _ f']) (simp add: f'_def bt'_def M_BTreeHeaderDirty_def) }
qed

end

lemma search_unique:
  assumes "search_result val bt node key (True, int i)" "search_result val bt node key (found, j)" "keys_sorted valid val bt node"
  shows "found" "j = int i"
proof -
  have i: "i < nrec node" "val (key_at bt node i) = val key" using assms(1) by (auto simp: search_result_def simp del: int_nrec)
  note o = search_result_order [OF assms(2,3) i(1)]
  show f: found using o i(2) by (cases found) auto
  then show "j = int i" using o i(2) assms(2) by (auto simp: search_result_def)
qed

context record_keys
begin

text \<open>The data of one record of a leaf is overwritten.\<close>

lemma overwrite_leaf:
  assumes w: "whole_leaf valid_key key_val whole bt node" and i: "i < nrec node" and e: "leaf_entries key_val bt node ! i = (k, d)" "length d' = length d"
  defines "r \<equiv> record_at bt node i" and "ks \<equiv> key_size bt (key_len bt (record_at bt node i))"
  shows "whole_record whole bt r" "key_val r = k" "d = drop (nat ks) r" "int (length r) = ks + int (length d)" "0 \<le> ks"
    "\<exists>node'. wrn node (roff bt node i + ks) d' = Some node' \<and> whole_leaf valid_key key_val whole bt node' \<and>
      leaf_entries key_val bt node' = (leaf_entries key_val bt node)[i := (k, d')]"
proof -
  note l = whole_leafD [OF w]
  show wr: "whole_record whole bt r" using w i by (simp add: whole_leaf_def records_def r_def)
  have re: "record_entry key_val bt r = (k, d)" using e(1) i unfolding l(2) by (simp add: records_def r_def)
  show kv: "key_val r = k" and dd: "d = drop (nat ks) r" using re by (simp_all add: record_entry_def ks_def r_def)
  show k0: "0 \<le> ks" unfolding ks_def by (rule key_size_bounds(2)) simp
  show len: "int (length r) = ks + int (length d)" using wr k0 unfolding dd by (simp add: whole_record_def ks_def r_def of_nat_diff nat_le_iff)
  define r' where "r' = put_bytes r ks d'"
  have im: "in_mem r ks (int (length d'))" using len k0 e(2) by (simp add: in_mem_def)
  have l': "length r' = length r" using im by (simp add: r'_def)
  have r': "take (nat ks) r' = take (nat ks) r" "drop (nat ks) r' = d'"
    using len k0 e(2) unfolding r'_def put_bytes_def by (simp_all add: nat_add_distrib)
  have ks': "key_size bt (key_len bt r) = ks" by (simp add: ks_def r_def)
  have kp: "whole r'" "key_val r' = key_val r" "key_len bt r' = key_len bt r" using kept [OF wr l'] r'(1) ks' by simp_all
  have wr': "whole_record whole bt r'" using wr kp(1,3) l' by (simp add: whole_record_def)
  have re': "record_entry key_val bt r' = (fst (leaf_entries key_val bt node ! i), d')" using kp kv r'(2) ks' e(1) by (simp add: record_entry_def)
  have o: "ks + int (length d') \<le> int (length (record_at bt node i))" using len e(2) by (simp add: r_def)
  obtain node' where n: "wrn node (roff bt node i + ks) d' = Some node'" "node_wf bt node'" "same_desc node node'"
    "records bt node' = (records bt node)[i := r']"
    using overwrite_record [OF l(1) i k0 o] unfolding r'_def r_def by blast
  from change_leaf [OF w i n(2-4) wr' re'] n(1) e(1)
  show "\<exists>node'. wrn node (roff bt node i + ks) d' = Some node' \<and> whole_leaf valid_key key_val whole bt node' \<and>
      leaf_entries key_val bt node' = (leaf_entries key_val bt node)[i := (k, d')]" by auto
qed

text \<open>Data of the same, even, size is replaced in place.\<close>

lemma simple_replace:
  assumes w: "whole_leaf valid_key key_val whole bt node" and i: "i < nrec node" and e: "leaf_entries key_val bt node ! i = (key_val key, d)"
    and k: "storable bt key" and s: "search_result key_val bt node key (True, int i)" and r: "rdn rec 0 (int (length d)) = Some d'" "even (length d)"
  shows "\<exists>node'. TrySimpleReplace cmp bt node key rec (int (length d)) = Some (True, node') \<and> whole_leaf valid_key key_val whole bt node' \<and>
    leaf_entries key_val bt node' = (leaf_entries key_val bt node)[i := (key_val key, d')]"
proof -
  note l = whole_leafD [OF w]
  have ld: "length d' = length d" using r(1) by (auto simp: rdn_def in_mem_def split: if_splits)
  define kl ks where "kl = key_len bt key" and "ks = key_size bt kl"
  note o = overwrite_leaf [OF w i e ld]
  have kl: "key_len bt (record_at bt node i) = kl" using same_size [OF k o(1,2)] by (simp add: kl_def)
  have v: "valid_key key" and ok: "key_ok bt key kl" using stored [OF k] by (simp_all add: kl_def)
  obtain found j where sn: "SearchNode cmp bt node key = Some (found, j)" "search_result key_val bt node key (found, j)"
    using SearchNode_correct [OF l(1,3) v] by auto
  have sn: "SearchNode cmp bt node key = Some (True, int i)" using sn(1) search_unique [OF s sn(2) l(3)] by simp
  have kl0: "0 \<le> kl" by (simp add: kl_def)
  have sz: "int (length (record_at bt node i)) < 32768"
    using length_record_at [OF l(1) i] roff_range(3) [OF l(1), of "Suc i"] i roff_bounds(1) [of bt node i] by linarith
  have len: "int (length (record_at bt node i)) = ks + int (length d)" using o(4) kl by (simp add: ks_def)
  have cs: "CalcKeySize bt key 0 = Some (kl + int (len_size bt))" using KeyLength_ok [OF ok] by (auto simp: CalcKeySize_def KeyLength_def len_size_def kl_def)
  have "key_size bt kl + int (length d) < 65535" using len sz by (simp add: ks_def)
  note c = CalcKeyRecordSize_eq [OF kl0 of_nat_0_le_iff this]
  have u: "u16 (kl + int (len_size bt)) = kl + int (len_size bt)"
    using kl0 len sz by (intro u16_id) (auto simp: ks_def key_size_def split: if_splits)
  have c': "CalcKeyRecordSize (kl + int (len_size bt)) (int (length d)) = ks + int (length d)" using c(1) r(2) by (simp add: ks_def)
  obtain node' where n: "wrn node (roff bt node i + ks) d' = Some node'" "whole_leaf valid_key key_val whole bt node'"
    "leaf_entries key_val bt node' = (leaf_entries key_val bt node)[i := (key_val key, d')]"
    using o(6) kl by (auto simp: ks_def)
  have rs: "GetRecordSize bt node (int i) = Some (ks + int (length d))" "GetRecordAddress bt node (int i) = Some (roff bt node i)"
    using GetRecordSize_wf [OF l(1) i] length_record_at [OF l(1) i] len by simp_all
  have "TrySimpleReplace cmp bt node key rec (int (length d)) = Some (True, node')"
    unfolding TrySimpleReplace_def l(5) sn cs bind.bind_lunit split_conv if_True if_False Let_def u c' rs r(1)
    using n(1) c(2) by (simp add: ks_def del: M_IsOdd_iff)
  then show ?thesis using n by blast
qed

end

context record_keys
begin

text \<open>The tree after the data of the record that was found were overwritten.\<close>

lemma overwritten_tree:
  assumes t: "whole_tree valid_key key_val whole (bf_btcb f) (bf_nodes f)" and g: "GetNode (bf_btcb f) (bf_nodes f) m = Inr node"
    and w: "whole_leaf valid_key key_val whole (bf_btcb f) node" and ls: "btree_leaves (bf_btcb f) (bf_nodes f) = pl @ m # ql"
    and a: "\<forall>x\<in>set pl. \<forall>e\<in>set (tree_entries key_val (bf_btcb f) (bf_nodes f) (Suc 0) x). fst e < key_val key"
      "\<forall>x\<in>set ql. \<forall>e\<in>set (tree_entries key_val (bf_btcb f) (bf_nodes f) (Suc 0) x). key_val key < fst e"
    and s: "search_result key_val (bf_btcb f) node key (True, int i)"
    and l: "leads_to key_val (bf_btcb f) (bf_nodes f) (nat (treeDepth (bf_btcb f))) (rootNode (bf_btcb f)) (key_val key) m"
    and n: "whole_leaf valid_key key_val whole (bf_btcb f) node'" "leaf_entries key_val (bf_btcb f) node' = (leaf_entries key_val (bf_btcb f) node)[i := (key_val key, d)]"
    and c: "file_changed f m node' f'"
  shows "whole_tree valid_key key_val whole (bf_btcb f') (bf_nodes f') \<and>
    btree_entries key_val (bf_btcb f') (bf_nodes f') = put_entry (key_val key) d (btree_entries key_val (bf_btcb f) (bf_nodes f))"
proof -
  note e = entries_around [OF a s whole_leafD(3) [OF w]]
  have ie: "i < length (leaf_entries key_val (bf_btcb f) node)" "fst (leaf_entries key_val (bf_btcb f) node ! i) = key_val key" using e(5) by simp_all
  have ks: "map fst (leaf_entries key_val (bf_btcb f) node') = map fst (leaf_entries key_val (bf_btcb f) node)"
    unfolding n(2) map_update fst_conv using ie by (metis list_update_id nth_map)
  have "fst ` set (leaf_entries key_val (bf_btcb f) node') = fst ` set (leaf_entries key_val (bf_btcb f) node)"
    using arg_cong [OF ks, of set] by simp
  then have k: "keys_kept (key_val key) (leaf_entries key_val (bf_btcb f) node) (leaf_entries key_val (bf_btcb f) node')"
    unfolding keys_kept_def by (metis (no_types, lifting) image_iff)
  note ch = changed_tree [OF t l g n(1) k ls c]
  show ?thesis using ch(1) e(3) unfolding ch(2,3) n(2) by simp
qed

end

lemma unhinted:
  assumes "bi_nodeNum it = 0"
  shows "IsItAHint bt (bi_nodeNum it) = (False, bt\<lparr>numHintChecks := u32 (numHintChecks bt + 1)\<rparr>)"
  using assms by (simp add: IsItAHint_def Let_def)

context record_keys
begin

text \<open>A record is replaced by data of the same, even, size.\<close>

lemma replace_record_run:
  assumes t: "whole_tree valid_key key_val whole (bf_btcb f) (bf_nodes f)" and k: "storable (bf_btcb f) (bi_key it)" and h: "bi_nodeNum it = 0"
    and d: "map_of (btree_entries key_val (bf_btcb f) (bf_nodes f)) (key_val (bi_key it)) = Some d"
    and r: "rdn rec 0 (int (length d)) = Some d'" "even (length d)" and w: "\<forall>m\<in>set (btree_leaves (bf_btcb f) (bf_nodes f)). bf_write_err f m = None"
  shows "\<exists>m f'. replace_record setEOF tag cmp f it rec (int (length d)) = Some (None, new_hint it (bf_btcb f') m, f') \<and>
    whole_tree valid_key key_val whole (bf_btcb f') (bf_nodes f') \<and>
    btree_entries key_val (bf_btcb f') (bf_nodes f') = put_entry (key_val (bi_key it)) d' (btree_entries key_val (bf_btcb f) (bf_nodes f))"
proof -
  define f1 where "f1 = f\<lparr>bf_btcb := (bf_btcb f)\<lparr>numHintChecks := u32 (numHintChecks (bf_btcb f) + 1)\<rparr>\<rparr>"
  let ?bt = "bf_btcb f1" and ?get = "bf_nodes f1" and ?k = "key_val (bi_key it)"
  have st: "same_tree (bf_btcb f) ?bt" and fn: "bf_nodes f = ?get" "\<And>n. bf_write_err f1 n = bf_write_err f n"
    by (simp_all add: f1_def same_tree_counts)
  have t1: "whole_tree valid_key key_val whole ?bt ?get" using t unfolding fn(1) whole_tree_same [OF st] .
  have k1: "storable ?bt (bi_key it)" using storable_same [OF st] k by blast
  have v: "valid_key (bi_key it)" using stored [OF k] by simp
  have be: "btree_entries key_val (bf_btcb f) (bf_nodes f) = btree_entries key_val ?bt ?get" "btree_leaves (bf_btcb f) (bf_nodes f) = btree_leaves ?bt ?get"
    unfolding fn(1) by (simp_all add: same_tree_btree [OF st])
  note d1 = d [unfolded be]
  obtain p m node i pl ql where x: "SearchTree cmp ?bt ?get (bi_key it) empty_path = Some (None, p, m, Some node, int i)"
    "GetNode ?bt ?get m = Inr node" "whole_leaf valid_key key_val whole ?bt node" "btree_leaves ?bt ?get = pl @ m # ql"
    "\<forall>x\<in>set pl. \<forall>e\<in>set (tree_entries key_val ?bt ?get (Suc 0) x). fst e < ?k" "\<forall>x\<in>set ql. \<forall>e\<in>set (tree_entries key_val ?bt ?get (Suc 0) x). ?k < fst e"
    "search_result key_val ?bt node (bi_key it) (True, int i)" "i < nrec node" "leaf_entries key_val ?bt node ! i = (?k, d)"
    "leads_to key_val ?bt ?get (nat (treeDepth ?bt)) (rootNode ?bt) ?k m" by (rule found_leaf [OF t1 v d1])
  obtain node' where n: "TrySimpleReplace cmp ?bt node (bi_key it) rec (int (length d)) = Some (True, node')" "whole_leaf valid_key key_val whole ?bt node'"
    "leaf_entries key_val ?bt node' = (leaf_entries key_val ?bt node)[i := (?k, d')]"
    using simple_replace [OF x(3,8,9) k1 x(7) r] by blast
  have w1: "bf_write_err f1 m = None" using w unfolding be fn(2) x(4) by simp
  define f' where "f' = f1\<lparr>bf_nodes := ?get(m := Inr node')\<rparr>"
  have "replace_record setEOF tag cmp f it rec (int (length d)) = map_option (replace_done it) (replace_searched setEOF tag cmp f1 (bi_key it) rec (int (length d)))"
    by (simp add: replace_record_def unhinted [OF h] f1_def)
  then have run: "replace_record setEOF tag cmp f it rec (int (length d)) = Some (None, new_hint it (bf_btcb f') m, f')"
    using x(1) n(1) UpdateNode_ok [OF w1] by (simp add: replace_searched_def try_replace_def replace_done_def f'_def)
  have c: "file_changed f1 m node' f'" by (simp add: file_changed_def f'_def same_tree_counts)
  show ?thesis using overwritten_tree [OF t1 x(2-7,10) n(2,3) c] run unfolding be by blast
qed

text \<open>The callback of an update gets the data of the record; what it writes, of the same size, is stored.\<close>

lemma update_record_run:
  assumes t: "whole_tree valid_key key_val whole (bf_btcb f) (bf_nodes f)" and v: "valid_key (bi_key it)" and h: "bi_nodeNum it = 0"
    and d: "map_of (btree_entries key_val (bf_btcb f) (bf_nodes f)) (key_val (bi_key it)) = Some d"
    and w: "\<forall>m\<in>set (btree_leaves (bf_btcb f) (bf_nodes f)). bf_write_err f m = None"
    and cb: "\<And>kp. key_val kp = key_val (bi_key it) \<Longrightarrow> callBackProc kp d = (e, d')" "length d' = length d"
  defines "bt1 \<equiv> (bf_btcb f)\<lparr>numHintChecks := u32 (numHintChecks (bf_btcb f) + 1)\<rparr>"
  shows "e = Some err \<Longrightarrow> BTUpdateRecord cmp callBackProc f it = Some (Some err, no_hint_left it, f\<lparr>bf_btcb := bt1\<rparr>)"
    "e = None \<Longrightarrow> \<exists>m f'. BTUpdateRecord cmp callBackProc f it = Some (None, new_hint it (bf_btcb f') m, f') \<and>
      whole_tree valid_key key_val whole (bf_btcb f') (bf_nodes f') \<and>
      btree_entries key_val (bf_btcb f') (bf_nodes f') = put_entry (key_val (bi_key it)) d' (btree_entries key_val (bf_btcb f) (bf_nodes f))"
proof -
  define f1 where "f1 = f\<lparr>bf_btcb := bt1\<rparr>"
  let ?bt = "bf_btcb f1" and ?get = "bf_nodes f1" and ?k = "key_val (bi_key it)"
  have st: "same_tree (bf_btcb f) ?bt" and fn: "bf_nodes f = ?get" "\<And>n. bf_write_err f1 n = bf_write_err f n"
    by (simp_all add: f1_def bt1_def same_tree_counts)
  have t1: "whole_tree valid_key key_val whole ?bt ?get" using t unfolding fn(1) whole_tree_same [OF st] .
  have be: "btree_entries key_val (bf_btcb f) (bf_nodes f) = btree_entries key_val ?bt ?get" "btree_leaves (bf_btcb f) (bf_nodes f) = btree_leaves ?bt ?get"
    unfolding fn(1) by (simp_all add: same_tree_btree [OF st])
  note d1 = d [unfolded be]
  obtain p m node i pl ql where x: "SearchTree cmp ?bt ?get (bi_key it) empty_path = Some (None, p, m, Some node, int i)"
    "GetNode ?bt ?get m = Inr node" "whole_leaf valid_key key_val whole ?bt node" "btree_leaves ?bt ?get = pl @ m # ql"
    "\<forall>x\<in>set pl. \<forall>e\<in>set (tree_entries key_val ?bt ?get (Suc 0) x). fst e < ?k" "\<forall>x\<in>set ql. \<forall>e\<in>set (tree_entries key_val ?bt ?get (Suc 0) x). ?k < fst e"
    "search_result key_val ?bt node (bi_key it) (True, int i)" "i < nrec node" "leaf_entries key_val ?bt node ! i = (?k, d)"
    "leads_to key_val ?bt ?get (nat (treeDepth ?bt)) (rootNode ?bt) ?k m" by (rule found_leaf [OF t1 v d1])
  note wf = whole_leafD(1) [OF x(3)]
  define ks where "ks = key_size ?bt (key_len ?bt (record_at ?bt node i))"
  note o = overwrite_leaf [OF x(3,8,9) cb(2), folded ks_def]
  have len: "int (length (record_at ?bt node i)) - ks = int (length d)" using o(4) by simp
  note g = GetRecordByIndex_whole [OF wf x(8) o(1), folded ks_def, unfolded len, folded o(3)]
  have "drop (nat (roff ?bt node i)) node = key_at ?bt node i" by (simp add: key_at_def)
  moreover have "key_val (key_at ?bt node i) = ?k" using x(7) by (auto simp: search_result_def simp del: int_nrec)
  ultimately have cb': "callBackProc (drop (nat (roff ?bt node i)) node) d = (e, d')" using cb(1) by simp
  have w1: "bf_write_err f1 m = None" using w unfolding be fn(2) x(4) by simp
  have up: "BTUpdateRecord cmp callBackProc f it = update_searched cmp callBackProc f1 it"
    by (simp add: BTUpdateRecord_def unhinted [OF h] bt1_def f1_def)
  note run = update_searched_def update_at_def update_done_def
  show "BTUpdateRecord cmp callBackProc f it = Some (Some err, no_hint_left it, f\<lparr>bf_btcb := bt1\<rparr>)" if "e = Some err"
    unfolding up f1_def [symmetric] using x(1) g cb' that by (simp add: run)
  obtain node' where n: "wrn node (roff ?bt node i + ks) d' = Some node'" "whole_leaf valid_key key_val whole ?bt node'"
    "leaf_entries key_val ?bt node' = (leaf_entries key_val ?bt node)[i := (?k, d')]" using o(6) by blast
  define f' where "f' = f1\<lparr>bf_nodes := ?get(m := Inr node')\<rparr>"
  have c: "file_changed f1 m node' f'" by (simp add: file_changed_def f'_def same_tree_counts)
  show "\<exists>m f'. BTUpdateRecord cmp callBackProc f it = Some (None, new_hint it (bf_btcb f') m, f') \<and>
      whole_tree valid_key key_val whole (bf_btcb f') (bf_nodes f') \<and>
      btree_entries key_val (bf_btcb f') (bf_nodes f') = put_entry ?k d' (btree_entries key_val (bf_btcb f) (bf_nodes f))" if "e = None"
  proof -
    have "BTUpdateRecord cmp callBackProc f it = Some (None, new_hint it (bf_btcb f') m, f')"
      unfolding up using x(1) g cb' that n(1) UpdateNode_ok [OF w1] by (simp add: run f'_def)
    then show ?thesis using overwritten_tree [OF t1 x(2-7,10) n(2,3) c] unfolding be by blast
  qed
qed

end

section \<open>The extents tree\<close>

text \<open>A record of the extents tree starts with its key: the length 10, the type of the fork, the file and the first block.\<close>

definition ext_whole :: "mem \<Rightarrow> bool" where
  "ext_whole r \<longleftrightarrow> 12 \<le> length r \<and> get16 r 0 = 10"

definition ext_storable :: "BTreeControlBlock \<Rightarrow> mem \<Rightarrow> bool" where
  "ext_storable bt k \<longleftrightarrow> fixed_key_ok k \<and> bigKeys bt \<and> key_len bt k = 10"

lemma bytes_at_take: "0 \<le> a \<Longrightarrow> 0 \<le> n \<Longrightarrow> a + n \<le> int j \<Longrightarrow> bytes_at (take j r) a n = bytes_at r a n"
  by (simp add: bytes_at_def drop_take min_def) linarith

lemma ext_fields:
  assumes "take 12 r' = take 12 r"
  shows "extent_key_val r' = extent_key_val r" "get16 r' 0 = get16 r 0" "get8 r' 0 = get8 r 0"
proof -
  have b: "bytes_at r' a n = bytes_at r a n" if "0 \<le> a" "0 \<le> n" "a + n \<le> 12" for a n
    using bytes_at_take [of a n 12 r] bytes_at_take [of a n 12 r'] that assms by simp
  show "extent_key_val r' = extent_key_val r" "get16 r' 0 = get16 r 0" "get8 r' 0 = get8 r 0"
    by (simp_all add: extent_key_val_def get_defs b)
qed

lemma ext_whole_len: "ext_whole r \<Longrightarrow> key_len bt r = 10" "ext_whole r \<Longrightarrow> key_size bt (key_len bt r) = 12"
proof -
  assume "ext_whole r"
  then have g: "get16 r 0 = 10" and "2 \<le> length r" by (simp_all add: ext_whole_def)
  then obtain a b x where r: "r = a # b # x" by (cases r; cases "tl r") auto
  have "uint a + 256 * uint b = 10" using g unfolding r by (simp add: get_defs bytes_at_def numeral_2_eq_2)
  moreover have "x = 10" if "x + 256 * y = 10" "0 \<le> x" "0 \<le> y" for x y :: int using that by presburger
  ultimately have "uint a = 10" by simp
  then have "get8 r 0 = 10" by (simp add: r get_defs bytes_at_def)
  then show "key_len bt r = 10" using g by (simp add: key_len_def)
  then show "key_size bt (key_len bt r) = 12" by (simp add: key_size_def len_size_def)
qed

lemma ext_stored:
  assumes "ext_storable bt k"
  shows "take 12 (enc_key_record bt (k, d)) = take 12 k" "12 \<le> length (enc_key_record bt (k, d))"
proof -
  have k: "12 \<le> length k" "bigKeys bt" "get16 k 0 = 10" "key_len bt k = 10"
    using assms by (auto simp: ext_storable_def fixed_key_ok_def in_mem_def key_len_def)
  then obtain a b x where r: "k = a # b # x" by (cases k; cases "tl k") auto
  have "le_bytes 2 10 = [a, b]"
    using k(3) le_bytes_val [of "[a, b]" 2] unfolding r by (simp add: get_defs bytes_at_def numeral_2_eq_2)
  then have e: "enc_key_record bt (k, d) = a # b # take 10 x @ d"
    using k by (simp add: enc_key_record_def key_record_def key_size_def len_size_def raw_key_def bytes_at_def r)
  show "take 12 (enc_key_record bt (k, d)) = take 12 k" "12 \<le> length (enc_key_record bt (k, d))"
    unfolding e using k(1) by (simp_all add: r)
qed

interpretation ext_keys: record_keys CompareExtentKeysPlus fixed_key_ok extent_key_val ext_whole ext_storable
proof
  fix bt bt' and r r' x k d :: mem
  show "fixed_key_ok (r @ x)" if "ext_whole r" using that by (auto simp: ext_whole_def fixed_key_ok_def in_mem_def)
  show "extent_key_val (r @ x) = extent_key_val r" if "ext_whole r" using that by (intro ext_fields(1)) (simp add: ext_whole_def)
  show "fixed_key_ok k \<and> key_ok bt k (key_len bt k) \<and> key_len bt (enc_key_record bt (k, d)) = key_len bt k \<and>
      ext_whole (enc_key_record bt (k, d)) \<and> extent_key_val (enc_key_record bt (k, d)) = extent_key_val k" if s: "ext_storable bt k"
  proof -
    note e = ext_stored [OF s, of d] and f = ext_fields [OF ext_stored(1) [OF s, of d]]
    have k: "fixed_key_ok k" "bigKeys bt" "get16 k 0 = 10" using s by (auto simp: ext_storable_def key_len_def)
    have w: "ext_whole (enc_key_record bt (k, d))" using e(2) f(2) k(3) by (simp add: ext_whole_def)
    have "key_ok bt k (key_len bt k)" using k by (simp add: key_ok_def key_len_def len_size_def fixed_key_ok_def in_mem_def)
    with w k f(1) ext_whole_len(1) [OF w, of bt] show ?thesis by (simp add: key_len_def)
  qed
  show "ext_whole r' \<and> extent_key_val r' = extent_key_val r \<and> key_len bt r' = key_len bt r"
    if w: "whole_record ext_whole bt r" "length r' = length r" "take (nat (key_size bt (key_len bt r))) r' = take (nat (key_size bt (key_len bt r))) r"
  proof -
    have r: "ext_whole r" using w(1) by (simp add: whole_record_def)
    note f = ext_fields [OF w(3) [unfolded ext_whole_len(2) [OF r], simplified]]
    have "ext_whole r'" using r f(2) w(2) by (simp add: ext_whole_def)
    then show ?thesis using f(1) ext_whole_len(1) [of r bt] ext_whole_len(1) [of r' bt] r by simp
  qed
  show "key_len bt r = key_len bt k" if "ext_storable bt k" "whole_record ext_whole bt r"
    using that ext_whole_len(1) [of r bt] by (simp add: ext_storable_def whole_record_def)
  show "ext_storable bt' k" if "same_tree bt bt'" "ext_storable bt k"
    using that by (simp add: ext_storable_def key_len_def same_tree_def bigKeys_def split: if_splits)
qed

lemma map_of_filter_key: "map_of (filter (\<lambda>e. P (fst e)) es) x = (if P x then map_of es x else None)"
  by (induction es) auto

lemma map_of_put_entry: "map_of (put_entry k d es) = (map_of es)(k \<mapsto> d)"
  by (auto simp: put_entry_def fun_eq_iff map_add_def map_of_filter_key [of "\<lambda>x. x < k"] map_of_filter_key [of "\<lambda>x. k < x"] split: option.splits)

lemma map_of_drop_entry: "map_of (drop_entry k es) = (map_of es)(k := None)"
  by (auto simp: drop_entry_def fun_eq_iff map_of_filter_key [of "\<lambda>x. x \<noteq> k"])

definition extents_tree :: "btree_file \<Rightarrow> bool" where
  "extents_tree f \<longleftrightarrow> whole_tree fixed_key_ok extent_key_val ext_whole (bf_btcb f) (bf_nodes f)"

definition extents_of :: "btree_file \<Rightarrow> (int \<times> int \<times> int) \<rightharpoonup> mem" where
  "extents_of f = map_of (btree_entries extent_key_val (bf_btcb f) (bf_nodes f))"

section \<open>Examples\<close>

text \<open>The tree of two leaves as a file, and a tree with one leaf and one record; both can be written.\<close>

definition ex_tree_file :: "BTreeControlBlock \<Rightarrow> get_block \<Rightarrow> btree_file" where
  "ex_tree_file bt get = \<lparr>bf_btcb = bt, bf_nodes = get, bf_write_err = (\<lambda>_. None), bf_new_err = (\<lambda>_. None), bf_fileRefNum = 0, bf_eof = 256,
     bf_clumpsize = 64, bf_reserve = nr_init 15\<rparr>"

definition ex_small_leaf :: mem where
  "ex_small_leaf = [0,0,0,0, 0,0,0,0, 255,1, 1,0, 0,0] @ [10,0, 0,0, 20,0,0,0, 8,0,0,0, 1,1,1,1] @ replicate 30 0 @ [30,0, 14,0]"

definition ex_small :: btree_file where
  "ex_small = ex_tree_file (ex_bt\<lparr>leafRecords := 1\<rparr>) (\<lambda>n. if n = 1 then Inr ex_small_leaf else Inl fsBTInvalidNodeErr)"

definition ex_two :: btree_file where
  "ex_two = ex_tree_file ex_tree_bt ex_get"

lemma ex_two_fields: "bf_btcb ex_two = ex_tree_bt" "bf_nodes ex_two = ex_get" "bf_write_err ex_two m = None"
  by (simp_all add: ex_two_def ex_tree_file_def)

lemma ex_small_fields: "bf_write_err ex_small m = None" "bf_btcb ex_small = ex_bt\<lparr>leafRecords := 1\<rparr>" "GetNode (bf_btcb ex_small) (bf_nodes ex_small) 1 = Inr ex_small_leaf"
  by (simp_all add: ex_small_def ex_tree_file_def GetNode_def ex_bt_def)

lemma ex_two_tree: "extents_tree ex_two"
proof -
  have "\<forall>r\<in>set (records ex_tree_bt ex_leaf1). whole_record ext_whole ex_tree_bt r" "\<forall>r\<in>set (records ex_tree_bt ex_leaf2). whole_record ext_whole ex_tree_bt r"
    by code_simp+
  then show ?thesis by (simp add: extents_tree_def ex_two_fields whole_tree_def ex_btree_ok ex_btree_leaves)
qed

lemma ex_two_extents: "extents_of ex_two = map_of [((20, 0, 8), [1,1,1,1]), ((30, 0, 8), [2,2,2,2]), ((30, 0, 20), [3,3,3,3]), ((40, 0, 8), [4,4,4,4])]"
  by (simp add: extents_of_def ex_two_fields ex_btree_entries)

lemma ex_small_leaf_facts: "node_wf (bf_btcb ex_small) ex_small_leaf" "rd_height ex_small_leaf = Some 1" "rd_kind ex_small_leaf = Some kBTLeafNode" "nrec ex_small_leaf = 1"
  "fixed_key_ok (key_at (bf_btcb ex_small) ex_small_leaf 0)" "extent_key_val (key_at (bf_btcb ex_small) ex_small_leaf 0) = (20, 0, 8)"
  "data_of (bf_btcb ex_small) ex_small_leaf 0 = Some [1,1,1,1]" "\<forall>r\<in>set (records (bf_btcb ex_small) ex_small_leaf). whole_record ext_whole (bf_btcb ex_small) r"
  "node_free (bf_btcb ex_small) ex_small_leaf = 30"
  unfolding ex_small_fields by code_simp+

lemma ex_small_tree: "extents_tree ex_small" "extents_of ex_small = [(20, 0, 8) \<mapsto> [1,1,1,1]]"
proof -
  note f = ex_small_leaf_facts
  have d: "treeDepth (bf_btcb ex_small) = 1" "rootNode (bf_btcb ex_small) = 1" "firstLeafNode (bf_btcb ex_small) = 1" "lastLeafNode (bf_btcb ex_small) = 1"
    by (simp_all add: ex_small_fields ex_bt_def)
  have "leaf_ok fixed_key_ok extent_key_val (bf_btcb ex_small) ex_small_leaf"
    using f by (simp add: leaf_ok_def keys_sorted_def)
  then have "tree_ok fixed_key_ok extent_key_val (bf_btcb ex_small) (bf_nodes ex_small) (Suc 0) 1" by (simp add: tree_ok_leaf ex_small_fields(3))
  moreover have l: "btree_leaves (bf_btcb ex_small) (bf_nodes ex_small) = [1]" by (simp add: btree_leaves_def d tree_leaves.simps(2) ex_small_fields(3))
  ultimately show "extents_tree ex_small" using f(8) d by (simp add: extents_tree_def whole_tree_def btree_ok_def ex_small_fields(3))
  have "btree_entries extent_key_val (bf_btcb ex_small) (bf_nodes ex_small) = [((20, 0, 8), [1,1,1,1])]"
    using f by (simp add: btree_entries_leaves l tree_entries_leaf1 ex_small_fields(3) leaf_entries_def)
  then show "extents_of ex_small = [(20, 0, 8) \<mapsto> [1,1,1,1]]" by (simp add: extents_of_def)
qed

lemma search_of: "map_option (\<lambda>(err, p, m, node, index). (err, m, node, index)) r = Some (err, m, node, index) \<Longrightarrow> \<exists>p. r = Some (err, p, m, node, index)"
  by (cases r) auto

lemma ex_searches:
  "\<exists>p. SearchTree CompareExtentKeysPlus (bf_btcb ex_small) (bf_nodes ex_small) [10,0, 0,0, 30,0,0,0, 20,0,0,0] empty_path =
     Some (Some fsBTRecordNotFoundErr, p, 1, Some ex_small_leaf, 1)"
  "\<exists>p. SearchTree CompareExtentKeysPlus ex_tree_bt ex_get [10,0, 0,0, 30,0,0,0, 8,0,0,0] empty_path = Some (None, p, 2, Some ex_leaf1, 1)"
  by (rule search_of, code_simp)+

lemma ex_storables: "ext_storable (bf_btcb ex_small) [10,0, 0,0, 30,0,0,0, 20,0,0,0]" "ext_storable ex_tree_bt [10,0, 0,0, 30,0,0,0, 8,0,0,0]"
  "fixed_key_ok [10,0, 0,0, 30,0,0,0, 8,0,0,0]" "extent_key_val [10,0, 0,0, 30,0,0,0, 8,0,0,0] = (30, 0, 8)"
  "CheckInsertParams (Some (Some (bf_btcb ex_small))) (Some [10,0, 0,0, 30,0,0,0, 20,0,0,0]) (Some [7,7,7,7]) 4 = Some None"
  "CheckInsertParams (Some (Some ex_tree_bt)) (Some [10,0, 0,0, 30,0,0,0, 8,0,0,0]) (Some [7,7,7,7]) 4 = Some None"
  unfolding ex_small_fields by code_simp+

section \<open>Properties\<close>



text \<open>C9: \<open>BTDeleteRecord\<close> on the extents tree refines the removal from the map of its records.  For a key that is not in the tree it returns
  \<open>fsBTRecordNotFoundErr\<close> and changes neither the file nor the iterator.  A record that is not the first of its leaf is removed: the new tree is
  well-formed, it has one record less, its map has lost just that key, and the hint of the iterator is invalid.\<close>

theorem BTDeleteRecord_extents:
  assumes "extents_tree f" "fixed_key_ok (bi_key it)"
    and s: "SearchTree CompareExtentKeysPlus (bf_btcb f) (bf_nodes f) (bi_key it) empty_path = Some (err, p, m, Some node, index)"
    and w: "bf_write_err f m = None"
  shows "(extents_of f (extent_key_val (bi_key it)) = None \<longrightarrow>
      BTDeleteRecord setEOF tag CompareExtentKeysPlus (Some (Some f)) (Some it) = Some (Some fsBTRecordNotFoundErr, Some it, Some (Some f))) \<and>
    (extents_of f (extent_key_val (bi_key it)) \<noteq> None \<and> 0 < index \<longrightarrow>
      (\<exists>f'. BTDeleteRecord setEOF tag CompareExtentKeysPlus (Some (Some f)) (Some it) = Some (None, Some (BTInvalidateHint it), Some (Some f')) \<and>
        extents_tree f' \<and> leafRecords (bf_btcb f') = u32 (leafRecords (bf_btcb f) - 1) \<and>
        extents_of f' = (extents_of f)(extent_key_val (bi_key it) := None)))"
proof -
  note r = ext_keys.delete_record_run [OF assms(1) [unfolded extents_tree_def] assms(2) s w, of setEOF tag]
  have b: "BTDeleteRecord setEOF tag CompareExtentKeysPlus (Some (Some f)) (Some it) =
      map_option (\<lambda>(err, it, f). (err, Some it, Some (Some f))) (delete_record setEOF tag CompareExtentKeysPlus f it)"
    by (simp add: BTDeleteRecord_def checked_call_def)
  show ?thesis using r unfolding b extents_tree_def extents_of_def by (fastforce simp: map_of_drop_entry)
qed

theorem BTDeleteRecord_extents_witness:
  "\<exists>f'. BTDeleteRecord (\<lambda>f _ _. (None, f)) 0 CompareExtentKeysPlus (Some (Some ex_two)) (Some (ex_iter [10,0, 0,0, 30,0,0,0, 8,0,0,0])) =
      Some (None, Some (BTInvalidateHint (ex_iter [10,0, 0,0, 30,0,0,0, 8,0,0,0])), Some (Some f')) \<and>
    extents_tree f' \<and> extents_of f' = (extents_of ex_two)((30, 0, 8) := None)"
proof -
  obtain p where s: "SearchTree CompareExtentKeysPlus (bf_btcb ex_two) (bf_nodes ex_two) (bi_key (ex_iter [10,0, 0,0, 30,0,0,0, 8,0,0,0])) empty_path =
     Some (None, p, 2, Some ex_leaf1, 1)" using ex_searches(2) by (auto simp: ex_iter_def ex_two_fields)
  from BTDeleteRecord_extents [OF ex_two_tree _ s ex_two_fields(3), of "\<lambda>f _ _. (None, f)" 0] show ?thesis
    by (simp add: ex_iter_def ex_storables ex_two_extents) blast
qed

text \<open>C38: \<open>BTReplaceRecord\<close> without a hint, with data of the same, even, size as those of the record: the new tree is well-formed and its
  map is the old one with the new data at the key.\<close>

theorem BTReplaceRecord_extents:
  assumes "extents_tree f" "ext_storable (bf_btcb f) (bi_key it)" "bi_nodeNum it = 0" "extents_of f (extent_key_val (bi_key it)) = Some d"
    and c: "CheckInsertParams (Some (Some (bf_btcb f))) (Some (bi_key it)) (Some rec) (int (length d)) = Some None"
    and r: "length d \<le> length rec" "even (length d)" and w: "\<forall>m\<in>set (btree_leaves (bf_btcb f) (bf_nodes f)). bf_write_err f m = None"
  shows "\<exists>m f'. BTReplaceRecord setEOF tag CompareExtentKeysPlus (Some (Some f)) (Some it) (Some rec) (int (length d)) =
      Some (None, Some (new_hint it (bf_btcb f') m), Some (Some f')) \<and>
    extents_tree f' \<and> extents_of f' = (extents_of f)(extent_key_val (bi_key it) \<mapsto> take (length d) rec)"
proof -
  have rd: "rdn rec 0 (int (length d)) = Some (take (length d) rec)" using r(1) by (simp add: rdn_def in_mem_def bytes_at_def)
  note run = ext_keys.replace_record_run [OF assms(1) [unfolded extents_tree_def] assms(2,3) assms(4) [unfolded extents_of_def] rd r(2) w, of setEOF tag]
  have b: "BTReplaceRecord setEOF tag CompareExtentKeysPlus (Some (Some f)) (Some it) (Some rec) (int (length d)) =
      map_option (\<lambda>(err, it, f). (err, Some it, Some (Some f))) (replace_record setEOF tag CompareExtentKeysPlus f it rec (int (length d)))"
    using c by (simp add: BTReplaceRecord_def checked_call_def)
  show ?thesis using run unfolding b extents_tree_def extents_of_def by (fastforce simp: map_of_put_entry)
qed

theorem BTReplaceRecord_extents_witness:
  "\<exists>m f'. BTReplaceRecord (\<lambda>f _ _. (None, f)) 0 CompareExtentKeysPlus (Some (Some ex_two)) (Some (ex_iter [10,0, 0,0, 30,0,0,0, 8,0,0,0])) (Some [7,7,7,7]) 4 =
      Some (None, Some (new_hint (ex_iter [10,0, 0,0, 30,0,0,0, 8,0,0,0]) (bf_btcb f') m), Some (Some f')) \<and>
    extents_tree f' \<and> extents_of f' = (extents_of ex_two)((30, 0, 8) \<mapsto> [7,7,7,7])"
  using BTReplaceRecord_extents [OF ex_two_tree, of "ex_iter [10,0, 0,0, 30,0,0,0, 8,0,0,0]" "[2,2,2,2]" "[7,7,7,7]" "\<lambda>f _ _. (None, f)" 0]
  by (simp add: ex_iter_def ex_storables ex_two_fields ex_two_extents)



section \<open>Iteration with a callback\<close>

text \<open>The elements of a list are visited in order, until a step asks to stop: whether the end was reached, and the last state.\<close>

fun visit_until :: "('e \<Rightarrow> 's \<Rightarrow> bool \<times> 's) \<Rightarrow> 'e list \<Rightarrow> 's \<Rightarrow> bool \<times> 's" where
  "visit_until g [] st = (True, st)"
| "visit_until g (e # es) st = (let (goes_on, st) = g e st in if goes_on then visit_until g es st else (False, st))"

lemma visit_until_append: "visit_until g (es @ fs) st = (let (goes_on, st) = visit_until g es st in if goes_on then visit_until g fs st else (False, st))"
  by (induction es arbitrary: st) (auto simp: Let_def split: prod.splits)

text \<open>The callback sees the bytes of the key and of the data; what follows them does not matter to it.\<close>

definition reads_entry :: "(mem \<Rightarrow> 'k) \<Rightarrow> 's iterate_proc \<Rightarrow> ('k \<times> mem \<Rightarrow> 's \<Rightarrow> bool \<times> 's) \<Rightarrow> 'k \<times> mem \<Rightarrow> bool" where
  "reads_entry val callBackProc g e \<longleftrightarrow> (\<forall>kp x st. val kp = fst e \<longrightarrow> callBackProc kp (snd e @ x) st = g e st)"

text \<open>What follows the last record of a leaf: the next leaf, or the end.\<close>

definition process_next :: "'s iterate_proc \<Rightarrow> BTreeControlBlock \<Rightarrow> get_block \<Rightarrow> mem \<Rightarrow> 's \<Rightarrow>
    ((bt_err + bt_err option \<times> mem \<times> int \<times> int \<times> int) \<times> 's) option" where
  "process_next callBackProc bt get node st = Option.bind (rd_fLink node) (\<lambda>q.
     if q > 0 then (case GetNode bt get q of Inl err \<Rightarrow> Some (Inl err, st) | Inr right \<Rightarrow> process_records callBackProc bt get right q None 0 st)
     else Some (Inr (Some fsBTEndOfIterationErr, node, q, int (nrec node - 1), roff bt node (nrec node - 1)), st))"

lemma process_step:
  assumes l: "leaf_ok valid val bt node" and cb: "\<forall>e\<in>set (leaf_entries val bt node). reads_entry val callBackProc g e" and i: "i < nrec node"
  defines "e \<equiv> leaf_entries val bt node ! i"
  shows "process_records callBackProc bt get node n None (int i) st = (let (goes_on, st) = g e st in
    if \<not> goes_on then Some (Inr (None, node, n, int i, roff bt node i), st)
    else if Suc i < nrec node then process_records callBackProc bt get node n None (int (Suc i)) st else process_next callBackProc bt get node st)"
proof -
  have wf: "node_wf bt node" and "\<forall>i<nrec node. data_of bt node i \<noteq> None" using l by (simp_all add: leaf_ok_def)
  then obtain d where d: "data_of bt node i = Some d" using i by blast
  obtain dp where r: "GetRecordByIndex bt node (int i) = Some (Inr (roff bt node i, dp, int (length d)))" "rdn node dp (int (length d)) = Some d"
    by (rule record_by_index [OF wf i d])
  have e: "e = (val (key_at bt node i), d)" using i d by (simp add: leaf_entries_def e_def)
  have "take (length d) (drop (nat dp) node) = d" using r(2) by (auto simp: rdn_def bytes_at_def split: if_splits)
  then have dr: "drop (nat dp) node = d @ drop (length d) (drop (nat dp) node)" using append_take_drop_id [of "length d" "drop (nat dp) node"] by simp
  have "reads_entry val callBackProc g e" using cb i by (simp add: e_def)
  then have c: "callBackProc (drop (nat (roff bt node i)) node) (drop (nat dp) node) st = g e st"
    unfolding reads_entry_def e by (subst dr) (simp add: key_at_def)
  have nr: "rd_numRecords node = Some (int (nrec node))" using rd_numRecords_wf [OF wf] by simp
  have j: "i = nrec node - 1" if "\<not> Suc i < nrec node" using that i by simp
  show ?thesis
    by (subst process_records.simps) (auto simp: r(1) c nr process_next_def Let_def add.commute simp del: int_nrec dest: j split: prod.splits)
qed

lemma process_node:
  assumes l: "leaf_ok valid val bt node" and cb: "\<forall>e\<in>set (leaf_entries val bt node). reads_entry val callBackProc g e" and i: "i < nrec node"
  shows "case visit_until g (drop i (leaf_entries val bt node)) st of
      (True, st') \<Rightarrow> process_records callBackProc bt get node n None (int i) st = process_next callBackProc bt get node st'
    | (False, st') \<Rightarrow> \<exists>x. process_records callBackProc bt get node n None (int i) st = Some (Inr (None, x), st')"
  using i
proof (induction "nrec node - i" arbitrary: i st)
  case (Suc k)
  let ?es = "leaf_entries val bt node"
  have dr: "drop i ?es = ?es ! i # drop (Suc i) ?es" using Suc.prems by (simp add: Cons_nth_drop_Suc)
  obtain go st1 where s: "g (?es ! i) st = (go, st1)" by fastforce
  note step = process_step [where get = get and n = n and st = st, OF l cb Suc.prems, unfolded s]
  consider "\<not> go" | "go" "Suc i < nrec node" | "go" "\<not> Suc i < nrec node" by blast
  then show ?case
  proof cases
    case 2
    then have "k = nrec node - Suc i" using Suc.hyps(2) by simp
    note ih = Suc.hyps(1) [OF this 2(2), of st1]
    have eq: "process_records callBackProc bt get node n None (int i) st = process_records callBackProc bt get node n None (int (Suc i)) st1"
      using 2 step by simp
    show ?thesis using ih 2(1) unfolding dr eq by (simp add: s del: of_nat_Suc)
  next
    case 3
    then have "drop (Suc i) ?es = []" by simp
    then show ?thesis using 3 by (simp add: dr s step)
  qed (simp add: dr s step)
qed simp

lemma process_leaves:
  assumes "links_ok bt get p (m # ls)" "\<forall>x\<in>set (m # ls). tree_ok valid val bt get (Suc 0) x"
    "\<forall>e\<in>set (concat (map (tree_entries val bt get (Suc 0)) (m # ls))). reads_entry val callBackProc g e" "GetNode bt get m = Inr node"
  shows "case visit_until g (concat (map (tree_entries val bt get (Suc 0)) (m # ls))) st of
    (go, st') \<Rightarrow> \<exists>x. process_records callBackProc bt get node m None 0 st = Some (Inr (if go then Some fsBTEndOfIterationErr else None, x), st')"
  using assms
proof (induction ls arbitrary: p m node st)
  case Nil
  have l: "leaf_ok valid val bt node" using Nil.prems(2,4) by (simp add: tree_ok_leaf)
  then have n0: "0 < nrec node" by (simp add: leaf_ok_def)
  have "rd_fLink node = Some 0" using Nil.prems(1,4) by simp
  moreover have "\<forall>e\<in>set (leaf_entries val bt node). reads_entry val callBackProc g e" using Nil.prems(3) by (simp add: tree_entries_leaf1 [OF Nil.prems(4)])
  note process_node [where st = st and get = get and n = m, OF l this n0]
  ultimately show ?case by (auto simp: tree_entries_leaf1 [OF Nil.prems(4)] process_next_def split: prod.splits bool.splits)
next
  case (Cons q ls)
  have l: "leaf_ok valid val bt node" using Cons.prems(2,4) by (simp add: tree_ok_leaf)
  then have n0: "0 < nrec node" by (simp add: leaf_ok_def)
  have f: "rd_fLink node = Some q" using Cons.prems(1,4) by simp
  then have "0 \<le> q" by (rule rd_link_nonneg(2))
  moreover have "q \<noteq> 0" using Cons.prems(2) by (simp add: tree_ok_leaf)
  ultimately have q: "0 < q" by simp
  obtain right where r: "GetNode bt get q = Inr right" using Cons.prems(1) by (auto split: sum.splits)
  have cb: "\<forall>e\<in>set (leaf_entries val bt node). reads_entry val callBackProc g e" using Cons.prems(3) by (simp add: tree_entries_leaf1 [OF Cons.prems(4)])
  have n: "process_next callBackProc bt get node st' = process_records callBackProc bt get right q None 0 st'" for st' using f q r by (simp add: process_next_def)
  have ih: "case visit_until g (concat (map (tree_entries val bt get (Suc 0)) (q # ls))) st of
    (go, st') \<Rightarrow> \<exists>x. process_records callBackProc bt get right q None 0 st = Some (Inr (if go then Some fsBTEndOfIterationErr else None, x), st')" for st
    by (rule Cons.IH) (use Cons.prems r in auto)
  obtain go st1 where v: "visit_until g (leaf_entries val bt node) st = (go, st1)" by fastforce
  have es: "concat (map (tree_entries val bt get (Suc 0)) (m # q # ls)) = leaf_entries val bt node @ concat (map (tree_entries val bt get (Suc 0)) (q # ls))"
    by (simp add: tree_entries_leaf1 [OF Cons.prems(4)])
  show ?case unfolding es visit_until_append v
    using process_node [where st = st and get = get and n = m, OF l cb n0] ih [of st1] v by (cases go) (auto simp: n split: prod.splits)
qed

text \<open>C40: \<open>BTIterateRecords\<close> from the first record of an extents tree calls its callback on the records of the tree in the order of their keys, each
  once, until the callback returns 0, and ends.  The result is \<open>noErr\<close> if the callback stopped it and \<open>fsBTRecordNotFoundErr\<close> if the records ran out (an
  empty tree included); the state of the callback is that of the calls.\<close>

theorem BTIterateRecords_extents:
  assumes ok: "btree_ok fixed_key_ok extent_key_val bt get" and links: "links_ok bt get 0 (btree_leaves bt get)"
    and first: "firstLeafNode bt = (case btree_leaves bt get of [] \<Rightarrow> 0 | m # _ \<Rightarrow> m)"
    and cb: "\<forall>e\<in>set (btree_entries extent_key_val bt get). reads_entry extent_key_val callBackProc g e"
  shows "BTIterateRecords CompareExtentKeysPlus callBackProc get bt kBTreeFirstRecord None st =
    (case visit_until g (btree_entries extent_key_val bt get) st of
       (goes_on, st') \<Rightarrow> Some (if goes_on then Some fsBTRecordNotFoundErr else None, bt, None, st'))"
proof (cases "btree_leaves bt get")
  case Nil
  then show ?thesis using first by (simp add: BTIterateRecords_def iterate_end_def BTIterateRecords_fail_def btree_entries_leaves)
next
  case (Cons m ls)
  have leaves: "\<forall>x\<in>set (m # ls). tree_ok fixed_key_ok extent_key_val bt get (Suc 0) x"
    using ok Cons tree_leaves_ok by (fastforce simp: btree_ok_def btree_leaves_def)
  then obtain node where m: "m \<noteq> 0" "GetNode bt get m = Inr node" "leaf_ok fixed_key_ok extent_key_val bt node"
    by (auto simp: tree_ok_leaf split: sum.splits)
  have "iterate_end bt get True = Some (Inr (node, m, 0))"
    using first m by (auto simp: Cons iterate_end_def is_leaf_with_records_def leaf_ok_def rd_numRecords_wf Let_def simp flip: int_nrec)
  moreover note process_leaves [OF links [unfolded Cons] leaves cb [unfolded btree_entries_leaves Cons] m(2), of st]
  ultimately show ?thesis
    by (auto simp: BTIterateRecords_def BTIterateRecords_fail_def btree_entries_leaves Cons split: prod.splits)
qed

theorem BTIterateRecords_extents_witness:
  "BTIterateRecords CompareExtentKeysPlus (\<lambda>kp rp st. (get32 kp 4 < 30, st @ [get32 kp 4])) ex_get ex_tree_bt kBTreeFirstRecord None [] =
     Some (None, ex_tree_bt, None, [20, 30])"
proof -
  have "\<forall>e\<in>set (btree_entries extent_key_val ex_tree_bt ex_get).
      reads_entry extent_key_val (\<lambda>kp rp st. (get32 kp 4 < 30, st @ [get32 kp 4])) (\<lambda>e st. (fst (fst e) < 30, st @ [fst (fst e)])) e"
    by (auto simp: reads_entry_def extent_key_val_def)
  from BTIterateRecords_extents [OF ex_btree_ok ex_links _ this, of "[]"] show ?thesis
    by (simp add: ex_btree_leaves ex_btree_entries) (simp add: ex_tree_bt_def)
qed

section \<open>The user data of the header node\<close>

text \<open>What \<open>BTSetUserData\<close> stored is what \<open>BTGetUserData\<close> returns.\<close>

lemma BTUserData_roundtrip:
  assumes n: "GetNode (bf_btcb f) (bf_nodes f) 0 = Inr node" "248 \<le> length node" and w: "bf_write_err f 0 = None"
    and d: "0 \<le> dataSize" "dataSize \<le> 128" "dataSize \<le> int (length data)" "dataSize \<le> int (length buf)"
  shows "\<exists>f'. BTSetUserData (Some f) data dataSize = Some (None, Some f') \<and> bf_btcb f' = bf_btcb f \<and>
    BTGetUserData (Some f') buf dataSize = Some (None, put_bytes buf 0 (take (nat dataSize) data))"
proof -
  define bytes where "bytes = take (nat dataSize) data"
  define node' where "node' = put_bytes node 120 bytes"
  have l: "int (length bytes) = dataSize" using d by (simp add: bytes_def)
  have im: "in_mem node 120 (int (length bytes))" using n(2) l d by (simp add: in_mem_def)
  have "rdn data 0 dataSize = Some bytes" using d by (simp add: rdn_def in_mem_def bytes_at_def bytes_def)
  then have s: "BTSetUserData (Some f) data dataSize = Some (None, Some (f\<lparr>bf_nodes := (bf_nodes f)(0 := Inr node')\<rparr>))"
    using n w d im by (simp add: BTSetUserData_def UpdateNode_ok wrn_def node'_def)
  have g: "GetNode (bf_btcb f) ((bf_nodes f)(0 := Inr node')) 0 = Inr node'" using n(1) by (simp add: GetNode_def split: if_splits)
  have "rdn node' 120 dataSize = Some bytes"
    using im l unfolding rdn_def node'_def by (simp add: slice_splice_same in_mem_def)
  moreover have "wrn buf 0 bytes = Some (put_bytes buf 0 bytes)" using l d by (simp add: wrn_def in_mem_def)
  ultimately have "BTGetUserData (Some (f\<lparr>bf_nodes := (bf_nodes f)(0 := Inr node')\<rparr>)) buf dataSize = Some (None, put_bytes buf 0 bytes)"
    using g d(2) by (simp add: BTGetUserData_def)
  with s show ?thesis by (simp add: bytes_def)
qed

end
