(* ===== verification/RangeList.thy ===== *)
theory RangeList
  imports C_Memory
begin

text \<open>
  The range lists of \<open>src/kmod/core/rangelist.c\<close>: the sorted list of byte ranges that a
  fork keeps of its not yet initialised (invalid) parts.

  The tail queue is an Isabelle list of entries in queue order.  A pointer into the queue
  is the splitting of the list at that entry: what \<open>TAILQ_PREV\<close> reaches is on its left, the
  entry itself is the head of the right part.  Offsets are \<open>off_t\<close>; the conversion \<^const>\<open>s64\<close>
  marks the places where the code subtracts or adds one.
\<close>

section \<open>Data\<close>

datatype rl_overlaptype =
    RL_NOOVERLAP
  | RL_MATCHINGOVERLAP
  | RL_OVERLAPCONTAINSRANGE
  | RL_OVERLAPISCONTAINED
  | RL_OVERLAPSTARTSBEFORE
  | RL_OVERLAPENDSAFTER

record rl_entry =
  rl_start :: int
  rl_end :: int

abbreviation RL_INFINITY :: int where
  "RL_INFINITY \<equiv> 9223372036854775807"

type_synonym rl_head = "rl_entry list"

section \<open>Operations\<close>

definition rl_make :: "int \<Rightarrow> int \<Rightarrow> rl_entry" where
  "rl_make start stop = \<lparr>rl_start = start, rl_end = stop\<rparr>"

definition rl_len :: "rl_entry \<Rightarrow> int" where
  "rl_len rng = s64 (rl_end rng - rl_start rng + 1)"

text \<open>The consistency check of the diagnostic build: \<open>limit\<close> is the end of the previous entry.\<close>

fun rl_verify_from :: "int \<Rightarrow> rl_head \<Rightarrow> bool" where
  "rl_verify_from limit [] = True"
| "rl_verify_from limit (entry # rest) =
     (if limit > 0 \<and> rl_start entry \<le> limit then False
      else if rl_end entry < rl_start entry then False
      else rl_verify_from (rl_end entry) rest)"

definition rl_verify :: "rl_head \<Rightarrow> bool" where
  "rl_verify rangelist = rl_verify_from 0 rangelist"

definition rl_init :: rl_head where
  "rl_init = []"

definition rl_overlap :: "rl_entry \<Rightarrow> int \<Rightarrow> int \<Rightarrow> rl_overlaptype" where
  "rl_overlap rng start stop =
     (if start > rl_end rng \<or> rl_start rng > stop then RL_NOOVERLAP
      else if rl_start rng = start \<and> rl_end rng = stop then RL_MATCHINGOVERLAP
      else if rl_start rng \<le> start \<and> rl_end rng \<ge> stop then RL_OVERLAPCONTAINSRANGE
      else if start \<le> rl_start rng \<and> stop \<ge> rl_end rng then RL_OVERLAPISCONTAINED
      else if rl_start rng < start \<and> rl_end rng < stop then RL_OVERLAPSTARTSBEFORE
      else RL_OVERLAPENDSAFTER)"

text \<open>
  \<open>rl_scan_from\<close> walks from the given entry.  Its result is the kind of overlap, the entries it
  skipped, and the list from \<open>*overlap\<close> on; the last part is empty when \<open>*overlap\<close> is \<open>NULL\<close>.
\<close>

fun rl_scan_from :: "int \<Rightarrow> int \<Rightarrow> rl_head \<Rightarrow> rl_overlaptype \<times> rl_head \<times> rl_head" where
  "rl_scan_from start stop [] = (RL_NOOVERLAP, [], [])"
| "rl_scan_from start stop (rng # rest) =
     (let ot = rl_overlap rng start stop in
      if ot \<noteq> RL_NOOVERLAP \<or> rl_start rng > stop then (ot, [], rng # rest)
      else (let (ot', skipped, found) = rl_scan_from start stop rest
            in (ot', rng # skipped, found)))"

definition rl_scan :: "rl_head \<Rightarrow> int \<Rightarrow> int \<Rightarrow> rl_overlaptype \<times> rl_head \<times> rl_head" where
  "rl_scan rangelist start stop = rl_scan_from start stop rangelist"

text \<open>
  \<open>rl_collapse_forwards rng next\<close> absorbs entries of \<open>next\<close>, the entries that follow
  \<open>rng\<close>, into it; \<open>rl_collapse_backwards prev rng\<close> does so with the preceding entries,
  nearest first.
\<close>

fun rl_collapse_forwards :: "rl_entry \<Rightarrow> rl_head \<Rightarrow> rl_entry \<times> rl_head" where
  "rl_collapse_forwards rng [] = (rng, [])"
| "rl_collapse_forwards rng (next_range # rest) =
     (if rl_end rng \<noteq> RL_INFINITY \<and> rl_end rng < s64 (rl_start next_range - 1)
      then (rng, next_range # rest)
      else rl_collapse_forwards (rng\<lparr>rl_end := rl_end next_range\<rparr>) rest)"

fun rl_collapse_backwards :: "rl_head \<Rightarrow> rl_entry \<Rightarrow> rl_head \<times> rl_entry" where
  "rl_collapse_backwards [] rng = ([], rng)"
| "rl_collapse_backwards (prev_range # rest) rng =
     (if rl_end prev_range < s64 (rl_start rng - 1) then (prev_range # rest, rng)
      else rl_collapse_backwards rest (rng\<lparr>rl_start := rl_start prev_range\<rparr>))"

definition rl_collapse_neighbors :: "rl_head \<Rightarrow> rl_entry \<Rightarrow> rl_head \<Rightarrow> rl_head" where
  "rl_collapse_neighbors before rng after =
     (let (range1, after1) = rl_collapse_forwards rng after;
          (rev_before, range2) = rl_collapse_backwards (rev before) range1
      in rev rev_before @ range2 # after1)"

definition rl_add :: "int \<Rightarrow> int \<Rightarrow> rl_head \<Rightarrow> rl_head" where
  "rl_add start stop rangelist =
     (case rl_scan rangelist start stop of
        (ovcase, before, found) \<Rightarrow>
          (case ovcase of
             RL_NOOVERLAP \<Rightarrow>
               \<comment> \<open>link the new range in before the found entry, or at the end\<close>
               rl_collapse_neighbors before (rl_make start stop) found
           | RL_MATCHINGOVERLAP \<Rightarrow> rangelist
           | RL_OVERLAPCONTAINSRANGE \<Rightarrow> rangelist
           | RL_OVERLAPISCONTAINED \<Rightarrow>
               rl_collapse_neighbors before
                 ((hd found)\<lparr>rl_start := start, rl_end := stop\<rparr>) (tl found)
           | RL_OVERLAPSTARTSBEFORE \<Rightarrow>
               (let (overlap, after) = rl_collapse_forwards ((hd found)\<lparr>rl_end := stop\<rparr>) (tl found)
                in before @ overlap # after)
           | RL_OVERLAPENDSAFTER \<Rightarrow>
               (let (rev_before, overlap) =
                      rl_collapse_backwards (rev before) ((hd found)\<lparr>rl_start := start\<rparr>)
                in rev rev_before @ overlap # tl found)))"

lemma rl_scan_from_append:
  "rl_scan_from s e l = (ot, before, found) \<Longrightarrow> before @ found = l"
  by (induction l arbitrary: ot before found) (auto simp: Let_def split: if_splits prod.splits)

lemma rl_scan_from_found:
  "rl_scan_from s e l = (ot, before, found) \<Longrightarrow> ot \<noteq> RL_NOOVERLAP \<Longrightarrow>
     \<exists>r rest. found = r # rest \<and> rl_overlap r s e = ot"
  by (induction l arbitrary: ot before found) (auto simp: Let_def split: if_splits prod.splits)

lemma rl_scan_from_tl_shorter:
  "rl_scan_from s e l = (ot, before, found) \<Longrightarrow> ot \<noteq> RL_NOOVERLAP \<Longrightarrow> length (tl found) < length l"
  using rl_scan_from_append [of s e l ot before found] rl_scan_from_found [of s e l ot before found]
  by fastforce

text \<open>
  The loop of \<open>rl_remove\<close>, from the entry \<open>rng\<close> (the head of the list).  It continues with the
  entry after the overlap in the cases where the code says \<open>continue\<close>, and only if there is one.
\<close>

function rl_remove_from :: "int \<Rightarrow> int \<Rightarrow> rl_head \<Rightarrow> rl_head" where
  "rl_remove_from start stop ranges =
     (case rl_scan_from start stop ranges of
        (ovcase, before, found) \<Rightarrow>
          (case ovcase of
             RL_NOOVERLAP \<Rightarrow> ranges
           | RL_MATCHINGOVERLAP \<Rightarrow> before @ tl found
           | RL_OVERLAPCONTAINSRANGE \<Rightarrow>
               (let overlap = hd found in
                if rl_start overlap = start then
                  before @ overlap\<lparr>rl_start := s64 (stop + 1)\<rparr> # tl found
                else if rl_end overlap = stop then
                  before @ overlap\<lparr>rl_end := s64 (start - 1)\<rparr> # tl found
                else
                  before @ overlap\<lparr>rl_end := s64 (start - 1)\<rparr>
                         # rl_make (s64 (stop + 1)) (rl_end overlap) # tl found)
           | RL_OVERLAPISCONTAINED \<Rightarrow>
               (if tl found = [] then before else before @ rl_remove_from start stop (tl found))
           | RL_OVERLAPSTARTSBEFORE \<Rightarrow>
               (let overlap = (hd found)\<lparr>rl_end := s64 (start - 1)\<rparr> in
                if tl found = [] then before @ [overlap]
                else before @ overlap # rl_remove_from start stop (tl found))
           | RL_OVERLAPENDSAFTER \<Rightarrow>
               before @ (hd found)\<lparr>rl_start := (if stop = RL_INFINITY then RL_INFINITY
                                                else s64 (stop + 1))\<rparr> # tl found))"
  by pat_completeness auto
termination
  by (relation "measure (\<lambda>(start, stop, ranges). length ranges)")
    (auto dest: rl_scan_from_tl_shorter [OF sym])

declare rl_remove_from.simps [simp del]

definition rl_remove :: "int \<Rightarrow> int \<Rightarrow> rl_head \<Rightarrow> rl_head" where
  "rl_remove start stop rangelist =
     (if rangelist = [] then rangelist else rl_remove_from start stop rangelist)"

definition rl_remove_all :: "rl_head \<Rightarrow> rl_head" where
  "rl_remove_all rangelist = []"

definition rl_subtract :: "rl_entry \<Rightarrow> rl_entry \<Rightarrow> rl_entry" where
  "rl_subtract a b =
     (case rl_overlap b (rl_start a) (rl_end a) of
        RL_MATCHINGOVERLAP \<Rightarrow> a\<lparr>rl_end := s64 (rl_start a - 1)\<rparr>
      | RL_OVERLAPCONTAINSRANGE \<Rightarrow> a\<lparr>rl_end := s64 (rl_start a - 1)\<rparr>
      | RL_OVERLAPISCONTAINED \<Rightarrow>
          (if s64 (rl_start b - rl_start a) \<ge> s64 (rl_end a - rl_end b)
           then a\<lparr>rl_end := s64 (rl_start b - 1)\<rparr>
           else a\<lparr>rl_start := s64 (rl_end b + 1)\<rparr>)
      | RL_OVERLAPSTARTSBEFORE \<Rightarrow> a\<lparr>rl_start := s64 (rl_end b + 1)\<rparr>
      | RL_OVERLAPENDSAFTER \<Rightarrow> a\<lparr>rl_end := s64 (rl_start b - 1)\<rparr>
      | RL_NOOVERLAP \<Rightarrow> a)"

section \<open>Well-formed range lists and what they cover\<close>

text \<open>
  The invariant of a range list: its entries are non-empty, non-negative \<open>off_t\<close> ranges, in
  ascending order, and between two consecutive ones there is a gap (adjacent ranges are merged).
\<close>

definition rl_valid :: "rl_entry \<Rightarrow> bool" where
  "rl_valid r \<longleftrightarrow> 0 \<le> rl_start r \<and> rl_start r \<le> rl_end r \<and> rl_end r \<le> RL_INFINITY"

definition rl_gap :: "rl_entry \<Rightarrow> rl_entry \<Rightarrow> bool" where
  "rl_gap a b \<longleftrightarrow> rl_end a + 1 < rl_start b"

definition rl_inv :: "rl_head \<Rightarrow> bool" where
  "rl_inv l \<longleftrightarrow> sorted_wrt rl_gap l \<and> list_all rl_valid l"

definition rl_cover :: "rl_head \<Rightarrow> int set" where
  "rl_cover l = (\<Union>r\<in>set l. {rl_start r..rl_end r})"

named_theorems rl_simps \<open>unfolding of range list predicates over list constructors\<close>

lemma rl_cover_simps [rl_simps]:
  "rl_cover [] = {}"
  "rl_cover (r # l) = {rl_start r..rl_end r} \<union> rl_cover l"
  "rl_cover (l @ k) = rl_cover l \<union> rl_cover k"
  by (auto simp: rl_cover_def)

lemma rl_inv_simps [rl_simps]:
  "rl_inv []"
  "rl_inv (r # l) \<longleftrightarrow> rl_valid r \<and> (\<forall>x\<in>set l. rl_gap r x) \<and> rl_inv l"
  "rl_inv (l @ k) \<longleftrightarrow> rl_inv l \<and> rl_inv k \<and> (\<forall>x\<in>set l. \<forall>y\<in>set k. rl_gap x y)"
  by (auto simp: rl_inv_def sorted_wrt_append)

lemma rl_make_sel [simp]: "rl_start (rl_make s e) = s" "rl_end (rl_make s e) = e"
  by (simp_all add: rl_make_def)

lemma rl_inv_valid: "rl_inv l \<Longrightarrow> r \<in> set l \<Longrightarrow> rl_valid r"
  by (simp add: rl_inv_def list_all_iff)

lemma rl_pred_s64 [simp]: "rl_valid r \<Longrightarrow> s64 (rl_start r - 1) = rl_start r - 1"
  by (simp add: rl_valid_def)

text \<open>Where \<open>rl_scan_from\<close> stops: everything skipped lies before the searched range.\<close>

lemma rl_scan_from_skipped:
  "rl_scan_from s e l = (ot, before, found) \<Longrightarrow> r \<in> set before \<Longrightarrow> s > rl_end r"
  by (induction l arbitrary: ot before found)
    (auto simp: Let_def rl_overlap_def split: if_splits prod.splits)

lemma rl_scan_from_NOOVERLAP:
  "rl_scan_from s e l = (RL_NOOVERLAP, before, found) \<Longrightarrow> rl_inv l \<Longrightarrow> r \<in> set found \<Longrightarrow>
     e < rl_start r"
  by (induction l arbitrary: before found)
    (auto simp: Let_def rl_simps rl_gap_def rl_valid_def split: if_splits prod.splits
          dest!: rl_inv_valid)


subsection \<open>Collapsing\<close>

text \<open>On valid entries the guard of the loop is: the next entry starts beyond the gap.\<close>

lemma rl_collapse_forwards_step:
  "rl_valid rng \<Longrightarrow> rl_valid n \<Longrightarrow>
     rl_collapse_forwards rng (n # rest) =
       (if rl_end rng + 1 < rl_start n then (rng, n # rest)
        else rl_collapse_forwards (rng\<lparr>rl_end := rl_end n\<rparr>) rest)"
  by (auto simp: rl_valid_def)

lemma rl_collapse_backwards_step:
  "rl_valid rng \<Longrightarrow>
     rl_collapse_backwards (p # rest) rng =
       (if rl_end p + 1 < rl_start rng then (p # rest, rng)
        else rl_collapse_backwards rest (rng\<lparr>rl_start := rl_start p\<rparr>))"
  by auto

declare rl_collapse_forwards.simps(2) [simp del] rl_collapse_backwards.simps(2) [simp del]

definition rl_fwd_ok :: "rl_entry \<Rightarrow> rl_head \<Rightarrow> bool" where
  "rl_fwd_ok rng nxt \<longleftrightarrow> rl_valid rng \<and> rl_inv nxt \<and> (\<forall>n\<in>set nxt. rl_start rng \<le> rl_start n)"

lemma rl_fwd_ok_absorb: "rl_fwd_ok rng (n # rest) \<Longrightarrow> rl_fwd_ok (rng\<lparr>rl_end := rl_end n\<rparr>) rest"
  by (fastforce simp: rl_fwd_ok_def rl_simps rl_valid_def)

lemma rl_fwd_okD:
  "rl_fwd_ok rng (n # rest) \<Longrightarrow> rl_valid rng" "rl_fwd_ok rng (n # rest) \<Longrightarrow> rl_valid n"
  by (simp_all add: rl_fwd_ok_def rl_simps)

lemma rl_collapse_forwards_inv:
  "rl_fwd_ok rng nxt \<Longrightarrow> rl_collapse_forwards rng nxt = (rng', nxt') \<Longrightarrow>
     rl_start rng' = rl_start rng \<and> rl_inv (rng' # nxt') \<and> set nxt' \<subseteq> set nxt \<and>
     (rl_end rng' = rl_end rng \<or> (\<exists>n\<in>set nxt. rl_end rng' = rl_end n))"
proof (induction nxt arbitrary: rng)
  case Nil
  then show ?case by (auto simp: rl_simps rl_fwd_ok_def)
next
  case (Cons n rest)
  note step = rl_collapse_forwards_step [OF rl_fwd_okD [OF Cons.prems(1)], of rest]
  show ?case
  proof (cases "rl_end rng + 1 < rl_start n")
    case True
    then show ?thesis
      using Cons.prems step by (fastforce simp: rl_fwd_ok_def rl_simps rl_gap_def rl_valid_def)
  next
    case False
    then show ?thesis
      using Cons.IH [OF rl_fwd_ok_absorb [OF Cons.prems(1)]] Cons.prems(2) step by auto
  qed
qed

lemma rl_collapse_forwards_upper:
  "rl_fwd_ok rng nxt \<Longrightarrow> rl_collapse_forwards rng nxt = (rng', nxt') \<Longrightarrow>
     rl_cover (rng' # nxt') \<subseteq> rl_cover (rng # nxt)"
proof (induction nxt arbitrary: rng)
  case Nil
  then show ?case by simp
next
  case (Cons n rest)
  note step = rl_collapse_forwards_step [OF rl_fwd_okD [OF Cons.prems(1)], of rest]
  show ?case
  proof (cases "rl_end rng + 1 < rl_start n")
    case True
    then show ?thesis using Cons.prems(2) step by simp
  next
    case False
    then have "rl_cover (rng' # nxt') \<subseteq> rl_cover (rng\<lparr>rl_end := rl_end n\<rparr> # rest)"
      using Cons.IH [OF rl_fwd_ok_absorb [OF Cons.prems(1)]] Cons.prems(2) step by simp
    also have "\<dots> \<subseteq> rl_cover (rng # n # rest)"
      using False by (auto simp: rl_simps)
    finally show ?thesis .
  qed
qed

text \<open>
  What \<open>rl_collapse_forwards\<close> keeps: all following entries, and the part of the range before
  them.  It keeps the whole range if no entry it reaches ends before the range does.
\<close>

lemma rl_collapse_forwards_lower:
  "rl_fwd_ok rng nxt \<Longrightarrow> rl_collapse_forwards rng nxt = (rng', nxt') \<Longrightarrow>
     rl_cover nxt \<union> {x. rl_start rng \<le> x \<and> x \<le> rl_end rng \<and> (\<forall>n\<in>set nxt. x < rl_start n)}
       \<subseteq> rl_cover (rng' # nxt')"
proof (induction nxt arbitrary: rng)
  case Nil
  then show ?case by (auto simp: rl_simps)
next
  case (Cons n rest)
  note step = rl_collapse_forwards_step [OF rl_fwd_okD [OF Cons.prems(1)], of rest]
  show ?case
  proof (cases "rl_end rng + 1 < rl_start n")
    case True
    then show ?thesis using Cons.prems(2) step by (auto simp: rl_simps)
  next
    case False
    have ih: "rl_cover rest \<union> {x. rl_start rng \<le> x \<and> x \<le> rl_end n \<and> (\<forall>n\<in>set rest. x < rl_start n)}
       \<subseteq> rl_cover (rng' # nxt')"
      using False Cons.IH [OF rl_fwd_ok_absorb [OF Cons.prems(1)]] Cons.prems(2) step by simp
    show ?thesis
      using Cons.prems(1)
      by (intro order_trans [OF _ ih])
        (fastforce simp: rl_simps rl_fwd_ok_def rl_gap_def rl_valid_def)
  qed
qed

lemma rl_collapse_forwards_exact:
  "rl_fwd_ok rng nxt \<Longrightarrow> rl_collapse_forwards rng nxt = (rng', nxt') \<Longrightarrow>
     (\<forall>n\<in>set nxt. rl_start n \<le> rl_end rng + 1 \<longrightarrow> rl_end rng \<le> rl_end n) \<Longrightarrow>
     rl_cover (rng' # nxt') = rl_cover (rng # nxt)"
proof (cases nxt)
  case Nil
  then show "rl_collapse_forwards rng nxt = (rng', nxt') \<Longrightarrow> ?thesis" by simp
next
  case (Cons n rest)
  assume ok: "rl_fwd_ok rng nxt" and c: "rl_collapse_forwards rng nxt = (rng', nxt')"
    and hyp: "\<forall>n\<in>set nxt. rl_start n \<le> rl_end rng + 1 \<longrightarrow> rl_end rng \<le> rl_end n"
  note step = rl_collapse_forwards_step [OF rl_fwd_okD [OF ok [unfolded Cons]], of rest]
  show ?thesis
  proof (cases "rl_end rng + 1 < rl_start n")
    case True
    then show ?thesis using c step Cons by simp
  next
    case False
    have low: "rl_cover rest \<union> {x. rl_start rng \<le> x \<and> x \<le> rl_end n \<and> (\<forall>n\<in>set rest. x < rl_start n)}
       \<subseteq> rl_cover (rng' # nxt')"
      using False c step rl_collapse_forwards_lower [OF rl_fwd_ok_absorb [OF ok [unfolded Cons]]]
      by (simp add: Cons)
    have "rl_cover (rng # nxt) \<subseteq> rl_cover (rng' # nxt')"
      using ok hyp False unfolding Cons
      by (intro order_trans [OF _ low])
        (fastforce simp: rl_simps rl_fwd_ok_def rl_gap_def rl_valid_def)
    with rl_collapse_forwards_upper [OF ok c] show ?thesis by simp
  qed
qed

text \<open>Backwards, nothing is lost: every preceding entry starts before the range.\<close>

definition rl_bwd_ok :: "rl_head \<Rightarrow> rl_entry \<Rightarrow> bool" where
  "rl_bwd_ok prv rng \<longleftrightarrow> rl_valid rng \<and> rl_inv (rev prv) \<and> (\<forall>p\<in>set prv. rl_end p < rl_start rng)"

lemma rl_bwd_ok_absorb: "rl_bwd_ok (p # rest) rng \<Longrightarrow> rl_bwd_ok rest (rng\<lparr>rl_start := rl_start p\<rparr>)"
  by (fastforce simp: rl_bwd_ok_def rl_simps rl_valid_def rl_gap_def)

lemma rl_collapse_backwards_correct:
  "rl_bwd_ok prv rng \<Longrightarrow> rl_collapse_backwards prv rng = (prv', rng') \<Longrightarrow>
     rl_end rng' = rl_end rng \<and> rl_inv (rev prv' @ [rng']) \<and>
     rl_cover (rev prv' @ [rng']) = rl_cover (rev prv @ [rng])"
proof (induction prv arbitrary: rng)
  case Nil
  then show ?case by (auto simp: rl_simps rl_bwd_ok_def)
next
  case (Cons p rest)
  have v: "rl_valid rng" using Cons.prems(1) by (simp add: rl_bwd_ok_def)
  show ?case
  proof (cases "rl_end p + 1 < rl_start rng")
    case True
    then show ?thesis
      using Cons.prems rl_collapse_backwards_step [OF v, of p rest]
      by (fastforce simp: rl_simps rl_bwd_ok_def rl_gap_def rl_valid_def)
  next
    case False
    have "rl_collapse_backwards rest (rng\<lparr>rl_start := rl_start p\<rparr>) = (prv', rng')"
      using False Cons.prems(2) rl_collapse_backwards_step [OF v, of p rest] by simp
    from Cons.IH [OF rl_bwd_ok_absorb [OF Cons.prems(1)] this] show ?thesis
      using False Cons.prems(1) by (auto simp: rl_simps rl_bwd_ok_def rl_valid_def)
  qed
qed

subsection \<open>Scanning\<close>

lemma rl_overlap_NOOVERLAP:
  "rl_valid r \<Longrightarrow> s \<le> e \<Longrightarrow> rl_overlap r s e = RL_NOOVERLAP \<longleftrightarrow> {rl_start r..rl_end r} \<inter> {s..e} = {}"
  by (auto simp: rl_overlap_def rl_valid_def disjoint_iff)

lemma rl_scan_from_disjoint:
  assumes "rl_inv l" "s \<le> e" "rl_scan_from s e l = (ot, before, found)"
  shows "ot = RL_NOOVERLAP \<longleftrightarrow> rl_cover l \<inter> {s..e} = {}"
proof
  assume "ot = RL_NOOVERLAP"
  with assms rl_scan_from_append [of s e l] rl_scan_from_skipped [of s e l] rl_scan_from_NOOVERLAP [of s e l]
  show "rl_cover l \<inter> {s..e} = {}" by (fastforce simp: rl_cover_def)
next
  assume disj: "rl_cover l \<inter> {s..e} = {}"
  show "ot = RL_NOOVERLAP"
  proof (rule ccontr)
    assume "ot \<noteq> RL_NOOVERLAP"
    with rl_scan_from_found [OF assms(3)] obtain r rest
      where r: "found = r # rest" "rl_overlap r s e \<noteq> RL_NOOVERLAP" by auto
    then have "r \<in> set l" using rl_scan_from_append [OF assms(3)] by auto
    with r(2) assms(1,2) have "{rl_start r..rl_end r} \<inter> {s..e} \<noteq> {}"
      by (simp add: rl_overlap_NOOVERLAP rl_inv_valid)
    with disj \<open>r \<in> set l\<close> show False unfolding rl_cover_def by blast
  qed
qed

subsection \<open>Adding a range\<close>

text \<open>
  What the search gives to \<open>rl_add\<close>: the list around the entry found, and how the new range
  lies with respect to it.
\<close>

lemma rl_scan_splitE:
  assumes "rl_inv l" "0 \<le> s" "s \<le> e" "e \<le> RL_INFINITY" "rl_scan l s e = (ot, before, found)"
  obtains (none) "ot = RL_NOOVERLAP" "l = before @ found"
      "\<forall>r\<in>set before. rl_end r < s" "\<forall>r\<in>set found. e < rl_start r"
    | (some) r rest where "ot \<noteq> RL_NOOVERLAP" "l = before @ r # rest" "found = r # rest"
      "rl_overlap r s e = ot" "\<forall>r\<in>set before. rl_end r < s"
      "rl_valid r" "rl_inv before" "rl_inv rest" "\<forall>x\<in>set rest. rl_gap r x"
      "\<forall>x\<in>set before. rl_gap x r" "\<forall>x\<in>set before. \<forall>y\<in>set rest. rl_gap x y"
proof (cases "ot = RL_NOOVERLAP")
  case True
  with assms show thesis
    using rl_scan_from_append [of s e l] rl_scan_from_skipped [of s e l] rl_scan_from_NOOVERLAP [of s e l]
    by (intro none) (auto simp: rl_scan_def)
next
  case False
  with assms(5) rl_scan_from_found [of s e l] obtain r rest
    where r: "found = r # rest" "rl_overlap r s e = ot" by (auto simp: rl_scan_def)
  moreover have "l = before @ r # rest"
    using assms(5) rl_scan_from_append [of s e l] r by (auto simp: rl_scan_def)
  ultimately show thesis
    using False assms(1,5) rl_scan_from_skipped [of s e l]
    by (intro some) (auto simp: rl_scan_def rl_simps)
qed

lemma rl_collapse_neighbors_props:
  assumes fwd: "rl_fwd_ok rng after" and before: "rl_inv before"
    and left: "\<forall>p\<in>set before. rl_end p < rl_start rng"
    and gaps: "\<forall>p\<in>set before. \<forall>n\<in>set after. rl_gap p n"
  shows "rl_inv (rl_collapse_neighbors before rng after)"
    and "rl_cover (rl_collapse_neighbors before rng after) \<subseteq> rl_cover (before @ rng # after)"
    and "rl_cover (before @ after) \<union> {x. rl_start rng \<le> x \<and> x \<le> rl_end rng \<and> (\<forall>n\<in>set after. x < rl_start n)}
           \<subseteq> rl_cover (rl_collapse_neighbors before rng after)"
    and "(\<forall>n\<in>set after. rl_start n \<le> rl_end rng + 1 \<longrightarrow> rl_end rng \<le> rl_end n) \<Longrightarrow>
           rl_cover (rl_collapse_neighbors before rng after) = rl_cover (before @ rng # after)"
proof -
  obtain rng1 after1 where f: "rl_collapse_forwards rng after = (rng1, after1)"
    by (cases "rl_collapse_forwards rng after")
  obtain prv rng2 where b: "rl_collapse_backwards (rev before) rng1 = (prv, rng2)"
    by (cases "rl_collapse_backwards (rev before) rng1")
  have eq: "rl_collapse_neighbors before rng after = rev prv @ rng2 # after1"
    by (simp add: rl_collapse_neighbors_def f b)
  note fi = rl_collapse_forwards_inv [OF fwd f]
  have "rl_bwd_ok (rev before) rng1"
    using fi before left by (simp add: rl_bwd_ok_def rl_simps)
  note bi = rl_collapse_backwards_correct [OF this b]
  have gap': "rl_gap x n" if "x \<in> set (rev prv @ [rng2])" "n \<in> set after1" for x n
  proof -
    have "rl_gap rng2 n" using bi fi that(2) by (auto simp: rl_simps rl_gap_def)
    moreover have "x = rng2 \<or> rl_gap x rng2" using bi that(1) by (auto simp: rl_simps)
    moreover have "rl_valid rng2" using bi by (simp add: rl_simps)
    ultimately show ?thesis by (auto simp: rl_gap_def rl_valid_def)
  qed
  show "rl_inv (rl_collapse_neighbors before rng after)"
    using bi fi gap' by (auto simp: eq rl_simps)
  have cov: "rl_cover (rl_collapse_neighbors before rng after) = rl_cover before \<union> rl_cover (rng1 # after1)"
    using bi by (auto simp: eq rl_simps)
  show "rl_cover (rl_collapse_neighbors before rng after) \<subseteq> rl_cover (before @ rng # after)"
    using rl_collapse_forwards_upper [OF fwd f] unfolding cov by (auto simp: rl_simps)
  show "rl_cover (before @ after) \<union> {x. rl_start rng \<le> x \<and> x \<le> rl_end rng \<and> (\<forall>n\<in>set after. x < rl_start n)}
           \<subseteq> rl_cover (rl_collapse_neighbors before rng after)"
    using rl_collapse_forwards_lower [OF fwd f] unfolding cov by (auto simp: rl_simps)
  show "(\<forall>n\<in>set after. rl_start n \<le> rl_end rng + 1 \<longrightarrow> rl_end rng \<le> rl_end n) \<Longrightarrow>
           rl_cover (rl_collapse_neighbors before rng after) = rl_cover (before @ rng # after)"
    using rl_collapse_forwards_exact [OF fwd f] unfolding cov by (auto simp: rl_simps)
qed

lemma rl_collapse_backwards_gap:
  "rl_valid rng \<Longrightarrow> \<forall>p\<in>set prv. rl_gap p rng \<Longrightarrow> rl_collapse_backwards prv rng = (prv, rng)"
  by (cases prv) (auto simp: rl_collapse_backwards_step rl_gap_def)

lemma rl_collapse_forwards_gap:
  "rl_valid rng \<Longrightarrow> rl_inv nxt \<Longrightarrow> \<forall>n\<in>set nxt. rl_gap rng n \<Longrightarrow> rl_collapse_forwards rng nxt = (rng, nxt)"
  by (cases nxt) (auto simp: rl_collapse_forwards_step rl_gap_def rl_simps)

text \<open>The entry that stands for the new range once it is merged with the first overlapping one.\<close>

definition rl_merged :: "rl_entry \<Rightarrow> int \<Rightarrow> int \<Rightarrow> rl_entry" where
  "rl_merged r s e = r\<lparr>rl_start := min (rl_start r) s, rl_end := max (rl_end r) e\<rparr>"

lemma rl_merged_sel [simp]:
  "rl_start (rl_merged r s e) = min (rl_start r) s" "rl_end (rl_merged r s e) = max (rl_end r) e"
  by (simp_all add: rl_merged_def)

lemma rl_add_casesE:
  assumes "rl_inv l" "0 \<le> s" "s \<le> e" "e \<le> RL_INFINITY"
  obtains (new) before after where "l = before @ after" "rl_inv before"
      "rl_add s e l = rl_collapse_neighbors before (rl_make s e) after"
      "\<forall>p\<in>set before. rl_end p < s" "\<forall>n\<in>set after. e < rl_start n"
      "\<forall>p\<in>set before. \<forall>n\<in>set after. rl_gap p n" "rl_fwd_ok (rl_make s e) after"
    | (inside) "rl_add s e l = l" "{s..e} \<subseteq> rl_cover l"
    | (merge) before r after where "l = before @ r # after" "rl_inv before" "rl_valid r"
      "rl_start r \<le> e" "s \<le> rl_end r"
      "rl_add s e l = rl_collapse_neighbors before (rl_merged r s e) after"
      "\<forall>p\<in>set before. rl_end p < min (rl_start r) s" "\<forall>n\<in>set after. rl_gap r n"
      "\<forall>p\<in>set before. \<forall>n\<in>set after. rl_gap p n" "rl_fwd_ok (rl_merged r s e) after"
proof -
  obtain ot before found where sc: "rl_scan l s e = (ot, before, found)"
    by (cases "rl_scan l s e") auto
  from assms sc show thesis
  proof (cases rule: rl_scan_splitE)
    case none
    with assms sc show thesis
      by (intro new [of before found])
        (auto simp: rl_add_def rl_fwd_ok_def rl_simps rl_valid_def)
  next
    case (some r rest)
    show thesis
    proof (cases "ot = RL_MATCHINGOVERLAP \<or> ot = RL_OVERLAPCONTAINSRANGE")
      case True
      then show thesis
        using sc some by (intro inside) (auto simp: rl_add_def rl_overlap_def rl_simps split: if_splits)
    next
      case False
      have mv: "rl_valid (rl_merged r s e)"
        using assms some by (auto simp: rl_valid_def)
      have "rl_start r \<le> e" "s \<le> rl_end r"
        using some by (auto simp: rl_overlap_def split: if_splits)
      note ov = this
      have fwd: "rl_fwd_ok (rl_merged r s e) rest"
        using mv some by (force simp: rl_fwd_ok_def rl_gap_def rl_valid_def)
      have left: "\<forall>p\<in>set before. rl_end p < min (rl_start r) s"
        using some by (auto simp: rl_gap_def)
      have "rl_add s e l = rl_collapse_neighbors before (rl_merged r s e) rest"
      proof -
        consider "ot = RL_OVERLAPISCONTAINED" "s \<le> rl_start r" "rl_end r \<le> e"
          | "ot = RL_OVERLAPSTARTSBEFORE" "rl_start r < s" "rl_end r < e"
          | "ot = RL_OVERLAPENDSAFTER" "s \<le> rl_start r" "e \<le> rl_end r"
          using False some by (auto simp: rl_overlap_def split: if_splits)
        then show ?thesis
        proof cases
          case 1
          then show ?thesis using sc some by (simp add: rl_add_def rl_merged_def)
        next
          case 2
          obtain r1 a1 where f: "rl_collapse_forwards (rl_merged r s e) rest = (r1, a1)"
            by (cases "rl_collapse_forwards (rl_merged r s e) rest")
          have "rl_valid r1" "rl_start r1 = rl_start r"
            using rl_collapse_forwards_inv [OF fwd f] 2 by (auto simp: rl_simps)
          then have "rl_collapse_backwards (rev before) r1 = (rev before, r1)"
            using some by (intro rl_collapse_backwards_gap) (auto simp: rl_gap_def)
          moreover have eq: "r\<lparr>rl_end := e\<rparr> = rl_merged r s e"
            using 2 by (cases r) (simp add: rl_merged_def)
          ultimately show ?thesis
            using 2 sc some f by (simp add: rl_add_def rl_collapse_neighbors_def eq)
        next
          case 3
          have "rl_collapse_forwards (rl_merged r s e) rest = (rl_merged r s e, rest)"
            using 3 mv some by (intro rl_collapse_forwards_gap) (auto simp: rl_gap_def)
          moreover have eq: "r\<lparr>rl_start := s\<rparr> = rl_merged r s e"
            using 3 by (cases r) (simp add: rl_merged_def)
          ultimately show ?thesis
            using 3 sc some by (simp add: rl_add_def rl_collapse_neighbors_def eq)
        qed
      qed
      with some ov left fwd show thesis by (intro merge [of before r rest]) auto
    qed
  qed
qed

lemma rl_add_inv:
  assumes "rl_inv l" "0 \<le> s" "s \<le> e" "e \<le> RL_INFINITY"
  shows "rl_inv (rl_add s e l)"
  using assms
proof (cases rule: rl_add_casesE)
  case (new before after)
  then show ?thesis by (auto intro: rl_collapse_neighbors_props(1))
next
  case inside
  with assms show ?thesis by simp
next
  case (merge before r after)
  then show ?thesis by (auto intro: rl_collapse_neighbors_props(1))
qed

lemma rl_add_cover_bounds:
  assumes "rl_inv l" "0 \<le> s" "s \<le> e" "e \<le> RL_INFINITY"
  shows "rl_cover l \<subseteq> rl_cover (rl_add s e l)" "rl_cover (rl_add s e l) \<subseteq> rl_cover l \<union> {s..e}"
proof -
  have "rl_cover l \<subseteq> rl_cover (rl_add s e l) \<and> rl_cover (rl_add s e l) \<subseteq> rl_cover l \<union> {s..e}"
    using assms
  proof (cases rule: rl_add_casesE)
    case (new before after)
    note p = rl_collapse_neighbors_props [OF new(7,2) _ new(6)]
    show ?thesis using p(2,3) new by (auto simp: rl_simps)
  next
    case inside
    then show ?thesis by simp
  next
    case (merge before r after)
    have left: "\<forall>p\<in>set before. rl_end p < rl_start (rl_merged r s e)" using merge by simp
    note p = rl_collapse_neighbors_props [OF merge(10,2) left merge(9)]
    have "{rl_start r..rl_end r} \<subseteq> {x. rl_start (rl_merged r s e) \<le> x \<and> x \<le> rl_end (rl_merged r s e) \<and>
            (\<forall>n\<in>set after. x < rl_start n)}"
      using merge(8) by (fastforce simp: rl_gap_def)
    then have "rl_cover l \<subseteq> rl_cover (rl_add s e l)"
      using p(3) merge(1,6) by (auto simp: rl_simps)
    moreover have "{rl_start (rl_merged r s e)..rl_end (rl_merged r s e)} \<subseteq> {rl_start r..rl_end r} \<union> {s..e}"
      using merge(4,5) by auto
    then have "rl_cover (rl_add s e l) \<subseteq> rl_cover l \<union> {s..e}"
      using p(2) merge(1,6) by (fastforce simp: rl_simps)
    ultimately show ?thesis ..
  qed
  then show "rl_cover l \<subseteq> rl_cover (rl_add s e l)" "rl_cover (rl_add s e l) \<subseteq> rl_cover l \<union> {s..e}"
    by auto
qed

lemma rl_add_cover_exact:
  assumes "rl_inv l" "0 \<le> s" "s \<le> e" "e \<le> RL_INFINITY"
    and reach: "\<forall>a\<in>set l. \<forall>b\<in>set l. rl_gap a b \<and> s \<le> rl_end a \<and> rl_start b \<le> e + 1 \<longrightarrow> e \<le> rl_end b"
  shows "rl_cover (rl_add s e l) = rl_cover l \<union> {s..e}"
  using assms(1-4)
proof (cases rule: rl_add_casesE)
  case (new before after)
  have "\<forall>n\<in>set after. rl_start n \<le> rl_end (rl_make s e) + 1 \<longrightarrow> rl_end (rl_make s e) \<le> rl_end n"
    using new(1,5) assms(1) by (fastforce simp: rl_simps dest!: rl_inv_valid simp: rl_valid_def)
  from rl_collapse_neighbors_props(4) [OF new(7,2) _ new(6) this] new show ?thesis
    by (auto simp: rl_simps)
next
  case inside
  then show ?thesis by auto
next
  case (merge before r after)
  have left: "\<forall>p\<in>set before. rl_end p < rl_start (rl_merged r s e)" using merge by simp
  have "\<forall>n\<in>set after. rl_valid n" using assms(1) merge(1) by (auto simp: rl_inv_valid)
  then have "\<forall>n\<in>set after. rl_start n \<le> rl_end (rl_merged r s e) + 1 \<longrightarrow> rl_end (rl_merged r s e) \<le> rl_end n"
    using reach merge(1,5,8) by (fastforce simp: rl_gap_def rl_valid_def)
  note c = rl_collapse_neighbors_props(4) [OF merge(10,2) left merge(9) this]
  have "{rl_start (rl_merged r s e)..rl_end (rl_merged r s e)} = {rl_start r..rl_end r} \<union> {s..e}"
    using merge(3,4,5) assms(3) by (auto simp: rl_valid_def)
  with c merge(1,6) show ?thesis by (auto simp: rl_simps)
qed

subsection \<open>Removing a range\<close>

definition rl_within :: "rl_head \<Rightarrow> rl_entry \<Rightarrow> bool" where
  "rl_within l r' \<longleftrightarrow> (\<exists>r\<in>set l. rl_start r \<le> rl_start r' \<and> rl_end r' \<le> rl_end r)"

lemma rl_withinI: "r \<in> set l \<Longrightarrow> rl_start r \<le> rl_start r' \<Longrightarrow> rl_end r' \<le> rl_end r \<Longrightarrow> rl_within l r'"
  by (auto simp: rl_within_def)

lemma rl_within_refl: "r \<in> set l \<Longrightarrow> rl_within l r"
  by (auto simp: rl_within_def)

text \<open>Putting the untouched part, a trimmed entry and the processed rest together again.\<close>

lemma rl_inv_reassemble:
  assumes "rl_inv (before @ r # rest)" "rl_inv mid" "rl_inv rest'"
    and "\<forall>x\<in>set mid. rl_start r \<le> rl_start x \<and> rl_end x \<le> rl_end r" "\<forall>x\<in>set rest'. rl_within rest x"
  shows "rl_inv (before @ mid @ rest')" "\<forall>x\<in>set (before @ mid @ rest'). rl_within (before @ r # rest) x"
proof -
  have "rl_gap a b" if "a \<in> set before \<union> set mid" "b \<in> set rest'" for a b
    using that assms by (fastforce simp: rl_simps rl_gap_def rl_within_def)
  moreover have "rl_gap a b" if "a \<in> set before" "b \<in> set mid" for a b
    using that assms by (fastforce simp: rl_simps rl_gap_def)
  ultimately show "rl_inv (before @ mid @ rest')" using assms by (auto simp: rl_simps)
  show "\<forall>x\<in>set (before @ mid @ rest'). rl_within (before @ r # rest) x"
    using assms(4,5) by (fastforce simp: rl_within_def)
qed

text \<open>The parts of an entry outside of the removed range.\<close>

definition rl_trim :: "rl_entry \<Rightarrow> int \<Rightarrow> int \<Rightarrow> rl_head" where
  "rl_trim r s e = (if rl_start r < s then [rl_make (rl_start r) (s - 1)] else []) @
                   (if e < rl_end r then [rl_make (e + 1) (rl_end r)] else [])"

lemma rl_trim_props:
  assumes "rl_valid r" "0 \<le> s" "s \<le> e" "rl_start r \<le> e" "s \<le> rl_end r"
  shows "rl_inv (rl_trim r s e)" "rl_cover (rl_trim r s e) = {rl_start r..rl_end r} - {s..e}"
    "\<forall>x\<in>set (rl_trim r s e). rl_start r \<le> rl_start x \<and> rl_end x \<le> rl_end r"
  using assms by (auto simp: rl_trim_def rl_simps rl_valid_def rl_gap_def)

lemma rl_update_make:
  "r\<lparr>rl_end := x\<rparr> = rl_make (rl_start r) x" "r\<lparr>rl_start := x\<rparr> = rl_make x (rl_end r)"
  by (cases r; simp add: rl_make_def)+

text \<open>One round of the loop, in all of its cases at once.\<close>

lemma rl_remove_from_round:
  assumes "0 \<le> s" "s \<le> e" "e \<le> RL_INFINITY" "rl_valid r"
    and sc: "rl_scan_from s e l = (ot, before, r # rest)" and ot: "rl_overlap r s e = ot" "ot \<noteq> RL_NOOVERLAP"
  shows "rl_remove_from s e l = before @ rl_trim r s e @
           (if ot \<in> {RL_OVERLAPISCONTAINED, RL_OVERLAPSTARTSBEFORE} \<and> rest \<noteq> []
            then rl_remove_from s e rest else rest)"
proof -
  have v: "0 \<le> rl_start r" "rl_start r \<le> rl_end r" "rl_end r \<le> RL_INFINITY"
    using assms(4) by (auto simp: rl_valid_def)
  note unf = rl_remove_from.simps [of s e l, unfolded sc prod.case list.sel Let_def rl_update_make rl_make_sel]
  have sp: "s64 (s - 1) = s - 1" "e \<noteq> RL_INFINITY \<Longrightarrow> s64 (e + 1) = e + 1"
    using assms by auto
  show ?thesis
    using assms(1-3) v ot by (subst unf) (cases ot; auto simp: rl_trim_def rl_overlap_def sp split: if_splits)
qed

lemma rl_remove_from_correct:
  assumes "rl_inv l" "0 \<le> s" "s \<le> e" "e \<le> RL_INFINITY"
  shows "rl_inv (rl_remove_from s e l) \<and> rl_cover (rl_remove_from s e l) = rl_cover l - {s..e} \<and>
         (\<forall>x\<in>set (rl_remove_from s e l). rl_within l x)"
  using assms
proof (induction "length l" arbitrary: l rule: less_induct)
  case less
  obtain ot before found where sc: "rl_scan_from s e l = (ot, before, found)"
    by (cases "rl_scan_from s e l") auto
  then have sc': "rl_scan l s e = (ot, before, found)" by (simp add: rl_scan_def)
  from less.prems sc' show ?case
  proof (cases rule: rl_scan_splitE)
    case none
    then have "rl_remove_from s e l = l" by (subst rl_remove_from.simps [of s e l, unfolded sc prod.case]) simp
    moreover have "rl_cover l \<inter> {s..e} = {}"
      using rl_scan_from_disjoint [OF less.prems(1,3) sc] none by simp
    ultimately show ?thesis using less.prems by (auto simp: rl_within_refl)
  next
    case (some r rest)
    define tail where "tail = (if ot \<in> {RL_OVERLAPISCONTAINED, RL_OVERLAPSTARTSBEFORE} \<and> rest \<noteq> []
                               then rl_remove_from s e rest else rest)"
    have "rl_start r \<le> e" "s \<le> rl_end r"
      using some by (auto simp: rl_overlap_def split: if_splits)
    note trim = rl_trim_props [OF some(6) less.prems(2,3) this]
    have tail: "rl_inv tail" "rl_cover tail = rl_cover rest - {s..e}" "\<forall>x\<in>set tail. rl_within rest x"
    proof -
      have "e \<le> rl_end r" if "ot \<notin> {RL_OVERLAPISCONTAINED, RL_OVERLAPSTARTSBEFORE}"
        using that some by (auto simp: rl_overlap_def split: if_splits)
      moreover have "rl_cover rest \<inter> {s..e} = {}" if "e \<le> rl_end r"
        using that some by (fastforce simp: rl_cover_def rl_gap_def)
      moreover have "length rest < length l" using some by simp
      ultimately show "rl_inv tail" "rl_cover tail = rl_cover rest - {s..e}" "\<forall>x\<in>set tail. rl_within rest x"
        using less some by (auto simp: tail_def rl_within_refl rl_simps split: if_splits)
    qed
    have "rl_remove_from s e l = before @ rl_trim r s e @ tail"
      using rl_remove_from_round [OF less.prems(2-4) some(6) sc [unfolded some(3)] some(4,1)]
      by (simp add: tail_def)
    moreover have "rl_cover before \<inter> {s..e} = {}"
      using some by (fastforce simp: rl_cover_def)
    moreover have "rl_inv (before @ r # rest)" using some less.prems by simp
    note rl_inv_reassemble [OF this trim(1) tail(1) trim(3) tail(3)]
    ultimately show ?thesis using some(2) trim(2) tail(2) by (auto simp: rl_simps)
  qed
qed

lemma rl_remove_correct:
  assumes "rl_inv l" "0 \<le> s" "s \<le> e" "e \<le> RL_INFINITY"
  shows "rl_inv (rl_remove s e l)" "rl_cover (rl_remove s e l) = rl_cover l - {s..e}"
  using rl_remove_from_correct [OF assms] assms(1) by (auto simp: rl_remove_def rl_simps)

subsection \<open>The interface the forks rely on\<close>

text \<open>
  What a client of range lists relies on (\<open>hfs_readwrite.c\<close> and \<open>hfs_vnops.c\<close> keep the invalid
  ranges of a fork in one): adding never forgets and never invents, removing is exact, and a scan
  finds an overlap if there is one.
\<close>

locale range_store =
  fixes add remove :: "int \<Rightarrow> int \<Rightarrow> 'l \<Rightarrow> 'l" and overlaps :: "'l \<Rightarrow> int \<Rightarrow> int \<Rightarrow> bool"
    and cover :: "'l \<Rightarrow> int set" and inv :: "'l \<Rightarrow> bool" and limit :: int
  assumes add_inv: "inv l \<Longrightarrow> 0 \<le> s \<Longrightarrow> s \<le> e \<Longrightarrow> e \<le> limit \<Longrightarrow> inv (add s e l)"
    and add_lower: "inv l \<Longrightarrow> 0 \<le> s \<Longrightarrow> s \<le> e \<Longrightarrow> e \<le> limit \<Longrightarrow> cover l \<subseteq> cover (add s e l)"
    and add_upper: "inv l \<Longrightarrow> 0 \<le> s \<Longrightarrow> s \<le> e \<Longrightarrow> e \<le> limit \<Longrightarrow> cover (add s e l) \<subseteq> cover l \<union> {s..e}"
    and remove_inv: "inv l \<Longrightarrow> 0 \<le> s \<Longrightarrow> s \<le> e \<Longrightarrow> e \<le> limit \<Longrightarrow> inv (remove s e l)"
    and remove_cover: "inv l \<Longrightarrow> 0 \<le> s \<Longrightarrow> s \<le> e \<Longrightarrow> e \<le> limit \<Longrightarrow> cover (remove s e l) = cover l - {s..e}"
    and overlaps_iff: "inv l \<Longrightarrow> s \<le> e \<Longrightarrow> overlaps l s e \<longleftrightarrow> cover l \<inter> {s..e} \<noteq> {}"
begin

lemma remove_add:
  assumes "inv l" "0 \<le> s" "s \<le> e" "e \<le> limit"
  shows "cover (remove s e (add s e l)) = cover l - {s..e}"
  using add_lower [OF assms] add_upper [OF assms] remove_cover [OF add_inv [OF assms] assms(2-4)] by auto

lemma removed_not_found:
  assumes "inv l" "0 \<le> s" "s \<le> e" "e \<le> limit"
  shows "\<not> overlaps (remove s e l) s e"
  using overlaps_iff [OF remove_inv [OF assms] assms(3)] remove_cover [OF assms] by auto

lemma remove_commute:
  assumes "inv l" "0 \<le> s" "s \<le> e" "e \<le> limit" "0 \<le> s'" "s' \<le> e'" "e' \<le> limit"
  shows "cover (remove s e (remove s' e' l)) = cover (remove s' e' (remove s e l))"
  using assms by (auto simp: remove_cover remove_inv)

end

definition rl_overlaps :: "rl_head \<Rightarrow> int \<Rightarrow> int \<Rightarrow> bool" where
  "rl_overlaps l s e \<longleftrightarrow> fst (rl_scan l s e) \<noteq> RL_NOOVERLAP"

interpretation rl: range_store rl_add rl_remove rl_overlaps rl_cover rl_inv RL_INFINITY
proof unfold_locales
  fix l and s e :: int assume "rl_inv l" "s \<le> e"
  then show "rl_overlaps l s e \<longleftrightarrow> rl_cover l \<inter> {s..e} \<noteq> {}"
    using rl_scan_from_disjoint [of l s e] by (cases "rl_scan_from s e l") (auto simp: rl_overlaps_def rl_scan_def)
qed (simp_all add: rl_add_inv rl_add_cover_bounds rl_remove_correct)

section \<open>Properties\<close>

text \<open>C12: Adding a range keeps the list well formed, never loses an offset that was covered, and never
  covers an offset that is neither in the list nor in the range.\<close>

theorem rl_add_sound:
  assumes "rl_inv l" "0 \<le> s" "s \<le> e" "e \<le> RL_INFINITY"
  shows "rl_inv (rl_add s e l) \<and> rl_cover l \<subseteq> rl_cover (rl_add s e l) \<and>
         rl_cover (rl_add s e l) \<subseteq> rl_cover l \<union> {s..e}"
  using rl.add_inv [OF assms] rl.add_lower [OF assms] rl.add_upper [OF assms] by blast

theorem rl_add_sound_witness:
  "rl_inv (rl_add 10 19 [rl_make 0 9]) \<and> rl_cover [rl_make 0 9] \<subseteq> rl_cover (rl_add 10 19 [rl_make 0 9]) \<and>
   rl_cover (rl_add 10 19 [rl_make 0 9]) \<subseteq> rl_cover [rl_make 0 9] \<union> {10..19}"
proof -
  have "rl_inv [rl_make 0 9]" by (simp add: rl_simps rl_valid_def)
  from rl_add_sound [OF this, of 10 19] show ?thesis by simp
qed

text \<open>Adding a range covers exactly the old offsets and the new range, provided that of the entries
  the new range reaches (overlaps or touches) only the first one ends before the range does.\<close>

theorem rl_add_exact:
  assumes "rl_inv l" "0 \<le> s" "s \<le> e" "e \<le> RL_INFINITY"
    and "\<forall>a\<in>set l. \<forall>b\<in>set l. rl_gap a b \<and> s \<le> rl_end a \<and> rl_start b \<le> e + 1 \<longrightarrow> e \<le> rl_end b"
  shows "rl_cover (rl_add s e l) = rl_cover l \<union> {s..e}"
  by (rule rl_add_cover_exact [OF assms])

theorem rl_add_exact_witness:
  "rl_cover (rl_add 5 22 [rl_make 0 9, rl_make 20 29]) = rl_cover [rl_make 0 9, rl_make 20 29] \<union> {5..22}"
proof -
  have "rl_inv [rl_make 0 9, rl_make 20 29]" by (simp add: rl_simps rl_valid_def rl_gap_def)
  from rl_add_exact [OF this, of 5 22] show ?thesis by (simp add: rl_gap_def)
qed

text \<open>C21: Without that proviso the code drops data: when the new range starts in an entry \<open>a\<close> and ends
  beyond the next entry \<open>b\<close>, \<open>rl_collapse_forwards\<close> shortens the range to the end of \<open>b\<close>, and the
  part of the range after \<open>b\<close> is not covered.\<close>

theorem rl_add_drops_tail:
  assumes "rl_inv [a, b]" "rl_start a \<le> s" "s \<le> rl_end a" "rl_end b < e" "e \<le> RL_INFINITY"
  shows "rl_add s e [a, b] = [rl_make (rl_start a) (rl_end b)] \<and>
         {rl_end b + 1..e} \<inter> rl_cover (rl_add s e [a, b]) = {}"
proof -
  have v: "rl_valid a" "rl_valid b" "rl_end a + 1 < rl_start b"
    using assms(1) by (auto simp: rl_simps rl_gap_def)
  have ov: "rl_overlap a s e = (if rl_start a = s then RL_OVERLAPISCONTAINED else RL_OVERLAPSTARTSBEFORE)"
    using assms v by (auto simp: rl_overlap_def rl_valid_def)
  have "rl_add s e [a, b] = [rl_make (rl_start a) (rl_end b)]"
    using assms v
    by (simp add: rl_add_def rl_scan_def ov Let_def rl_collapse_neighbors_def rl_collapse_forwards_step
        rl_update_make rl_valid_def)
  then show ?thesis by (simp add: rl_simps)
qed

theorem rl_add_drops_tail_witness:
  "rl_add 5 49 [rl_make 0 9, rl_make 20 29] = [rl_make 0 29] \<and>
   {30..49} \<inter> rl_cover (rl_add 5 49 [rl_make 0 9, rl_make 20 29]) = {}"
  using rl_add_drops_tail [of "rl_make 0 9" "rl_make 20 29" 5 49]
  by (simp add: rl_simps rl_valid_def rl_gap_def)

text \<open>C13: Removing a range keeps the list well formed and uncovers exactly that range.\<close>

theorem rl_remove_exact:
  assumes "rl_inv l" "0 \<le> s" "s \<le> e" "e \<le> RL_INFINITY"
  shows "rl_inv (rl_remove s e l) \<and> rl_cover (rl_remove s e l) = rl_cover l - {s..e}"
  using rl.remove_inv [OF assms] rl.remove_cover [OF assms] by blast

theorem rl_remove_exact_witness:
  "rl_inv (rl_remove 3 24 [rl_make 0 9, rl_make 20 29]) \<and>
   rl_cover (rl_remove 3 24 [rl_make 0 9, rl_make 20 29]) = rl_cover [rl_make 0 9, rl_make 20 29] - {3..24}"
proof -
  have "rl_inv [rl_make 0 9, rl_make 20 29]" by (simp add: rl_simps rl_valid_def rl_gap_def)
  from rl_remove_exact [OF this, of 3 24] show ?thesis by simp
qed

text \<open>After a range is added and removed again, exactly the offsets outside of it that were covered
  before are covered, and a scan for it finds nothing.\<close>

theorem rl_remove_after_add:
  assumes "rl_inv l" "0 \<le> s" "s \<le> e" "e \<le> RL_INFINITY"
  shows "rl_cover (rl_remove s e (rl_add s e l)) = rl_cover l - {s..e} \<and>
         fst (rl_scan (rl_remove s e (rl_add s e l)) s e) = RL_NOOVERLAP"
  using rl.remove_add [OF assms] rl.removed_not_found [OF rl.add_inv [OF assms] assms(2-4)]
  by (simp add: rl_overlaps_def)

theorem rl_remove_after_add_witness:
  "rl_cover (rl_remove 5 14 (rl_add 5 14 [rl_make 0 9])) = rl_cover [rl_make 0 9] - {5..14} \<and>
   fst (rl_scan (rl_remove 5 14 (rl_add 5 14 [rl_make 0 9])) 5 14) = RL_NOOVERLAP"
proof -
  have "rl_inv [rl_make 0 9]" by (simp add: rl_simps rl_valid_def)
  from rl_remove_after_add [OF this, of 5 14] show ?thesis by simp
qed

text \<open>\<open>rl_subtract\<close> leaves a part of \<open>a\<close> that avoids \<open>b\<close>, and no contiguous part of \<open>a\<close> that
  avoids \<open>b\<close> is longer.\<close>

theorem rl_subtract_largest:
  assumes "rl_valid a" "rl_valid b"
  shows "{rl_start (rl_subtract a b)..rl_end (rl_subtract a b)} \<subseteq> {rl_start a..rl_end a} - {rl_start b..rl_end b} \<and>
         (\<forall>x y. x \<le> y \<and> {x..y} \<subseteq> {rl_start a..rl_end a} - {rl_start b..rl_end b} \<longrightarrow>
            y - x \<le> rl_end (rl_subtract a b) - rl_start (rl_subtract a b))"
proof (intro conjI allI impI)
  have arith: "s64 (rl_start b - rl_start a) = rl_start b - rl_start a" "s64 (rl_end a - rl_end b) = rl_end a - rl_end b"
    "s64 (rl_start b - 1) = rl_start b - 1" "s64 (rl_start a - 1) = rl_start a - 1"
    "rl_end b < rl_end a \<Longrightarrow> s64 (rl_end b + 1) = rl_end b + 1"
    using assms by (auto simp: rl_valid_def)
  show "{rl_start (rl_subtract a b)..rl_end (rl_subtract a b)} \<subseteq> {rl_start a..rl_end a} - {rl_start b..rl_end b}"
    using assms by (auto simp: rl_subtract_def rl_overlap_def rl_valid_def arith split: if_splits)
  fix x y :: int
  assume xy: "x \<le> y \<and> {x..y} \<subseteq> {rl_start a..rl_end a} - {rl_start b..rl_end b}"
  then have "x \<in> {rl_start a..rl_end a} - {rl_start b..rl_end b}" "y \<in> {rl_start a..rl_end a} - {rl_start b..rl_end b}"
    by auto
  moreover have "\<not> (x < rl_start b \<and> rl_end b < y)"
  proof
    assume "x < rl_start b \<and> rl_end b < y"
    with xy assms(2) have "rl_start b \<in> {x..y}" by (auto simp: rl_valid_def)
    with xy assms(2) show False by (auto simp: rl_valid_def)
  qed
  ultimately show "y - x \<le> rl_end (rl_subtract a b) - rl_start (rl_subtract a b)"
    using assms xy by (auto simp: rl_subtract_def rl_overlap_def rl_valid_def arith split: if_splits)
qed

theorem rl_subtract_largest_witness:
  "{rl_start (rl_subtract (rl_make 0 99) (rl_make 10 19))..rl_end (rl_subtract (rl_make 0 99) (rl_make 10 19))}
     \<subseteq> {rl_start (rl_make 0 99)..rl_end (rl_make 0 99)} - {rl_start (rl_make 10 19)..rl_end (rl_make 10 19)}"
  using rl_subtract_largest [of "rl_make 0 99" "rl_make 10 19"] by (simp add: rl_valid_def)

end
