(* ===== verification/ExtentCache.thy ===== *)
theory ExtentCache
  imports Main
begin

text \<open>
  The contract that the allocator's two lists of free extents share: the trim lists of the journal and the
  free extent cache of the volume.  Both are told of every range that is freed and of every range
  that is allocated, and both may forget a range (a full cache, memory that runs out); neither may ever
  offer a unit that is in use.
\<close>

datatype extent_op = Freed int int | Allocated int int

fun op_range :: "extent_op \<Rightarrow> int \<times> int" where
  "op_range (Freed a n) = (a, n)"
| "op_range (Allocated a n) = (a, n)"

text \<open>The set of free units after an operation, and the state of a list after it.\<close>

fun free_after :: "extent_op \<Rightarrow> int set \<Rightarrow> int set" where
  "free_after (Freed a n) F = F \<union> {a..<a + n}"
| "free_after (Allocated a n) F = F - {a..<a + n}"

fun list_after :: "('s \<Rightarrow> int \<Rightarrow> int \<Rightarrow> 's) \<Rightarrow> ('s \<Rightarrow> int \<Rightarrow> int \<Rightarrow> 's) \<Rightarrow> extent_op \<Rightarrow> 's \<Rightarrow> 's" where
  "list_after add rem (Freed a n) s = add s a n"
| "list_after add rem (Allocated a n) s = rem s a n"

locale extent_cache =
  fixes units :: "'s \<Rightarrow> int set"
    and inv :: "'s \<Rightarrow> bool"
    and legal :: "int \<Rightarrow> int \<Rightarrow> bool"
    and add :: "'s \<Rightarrow> int \<Rightarrow> int \<Rightarrow> 's"
    and rem :: "'s \<Rightarrow> int \<Rightarrow> int \<Rightarrow> 's"
  assumes add_inv: "inv s \<Longrightarrow> legal a n \<Longrightarrow> inv (add s a n)"
    and rem_inv: "inv s \<Longrightarrow> legal a n \<Longrightarrow> inv (rem s a n)"
    and add_units: "inv s \<Longrightarrow> legal a n \<Longrightarrow> units (add s a n) \<subseteq> units s \<union> {a..<a + n}"
    and rem_units: "inv s \<Longrightarrow> legal a n \<Longrightarrow> units (rem s a n) \<subseteq> units s - {a..<a + n}"
begin

lemma step_inv: "inv s \<Longrightarrow> case_prod legal (op_range oper) \<Longrightarrow> inv (list_after add rem oper s)"
  by (cases oper) (simp_all add: add_inv rem_inv)

lemma step_sound:
  "inv s \<Longrightarrow> case_prod legal (op_range oper) \<Longrightarrow> units s \<subseteq> F \<Longrightarrow> units (list_after add rem oper s) \<subseteq> free_after oper F"
  using add_units rem_units by (cases oper) fastforce+

lemma history_sound:
  assumes "inv s" "units s \<subseteq> F" "\<forall>oper\<in>set ops. case_prod legal (op_range oper)"
  shows "inv (fold (list_after add rem) ops s) \<and> units (fold (list_after add rem) ops s) \<subseteq> fold free_after ops F"
  using assms
proof (induction ops arbitrary: s F)
  case (Cons oper ops)
  have legal: "case_prod legal (op_range oper)" using Cons.prems(3) by simp
  note step = step_inv [OF Cons.prems(1) legal] step_sound [OF Cons.prems(1) legal Cons.prems(2)]
  from Cons.IH [OF step] Cons.prems(3) show ?case by simp
qed simp

end

end
