(* ===== verification/JournalTrim.thy ===== *)
theory JournalTrim
  imports C_Memory ExtentCache
begin

text \<open>
  The trim lists of the journal (\<open>src/kmod/core/hfs_journal.c\<close>): the extents, in bytes of the device, that
  the transactions in flight have freed.  An extent is unmapped, and offered for reuse, only after the
  transaction that freed it is on disk; an extent that is allocated again before is taken off the lists.

  A trim list is the allocated capacity and the list of its extents (\<open>extent_count\<close> is the length).  The
  counting loops of the code, which advance while a condition holds of the current extent, are lengths
  of \<^const>\<open>takeWhile\<close>; the \<open>memmove\<close>s that open or close a gap are list surgery with \<^const>\<open>take\<close> and
  \<^const>\<open>drop\<close>.  A panic is \<^term>\<open>None\<close>.
\<close>

section \<open>Data\<close>

record dk_extent_t =
  de_offset :: int
  de_length :: int

abbreviation dk_extent :: "int \<Rightarrow> int \<Rightarrow> dk_extent_t" where
  "dk_extent a n \<equiv> \<lparr>de_offset = a, de_length = n\<rparr>"

record jnl_trim_list =
  allocated_count :: int
  extents :: "dk_extent_t list"

text \<open>
  What the trim routines use of \<open>journal\<close>: whether \<open>JOURNAL_INVALID\<close> and \<open>JOURNAL_USE_UNMAP\<close> are set, whether the calling thread owns
  the journal, the trim list and the \<open>flush_on_completion\<close> hint of the active transaction (\<^term>\<open>None\<close> when there is no active
  transaction), and the list of the transaction that is being flushed.  \<open>jnl_malloc\<close> says whether an
  allocation of that many extents succeeds.
\<close>

record journal =
  jnl_invalid :: bool
  jnl_use_unmap :: bool
  jnl_owner_is_self :: bool
  active_tr :: "(jnl_trim_list \<times> bool) option"
  async_trim :: "jnl_trim_list option"
  jnl_malloc :: "int \<Rightarrow> bool"

abbreviation (input) JOURNAL_DEFAULT_TRIM_EXTENTS :: int where "JOURNAL_DEFAULT_TRIM_EXTENTS \<equiv> 256"

section \<open>Operations\<close>

definition trim_realloc :: "journal \<Rightarrow> jnl_trim_list \<Rightarrow> int \<times> jnl_trim_list" where
  "trim_realloc jnl trim =
     (let new_allocated_count = u32 (allocated_count trim + JOURNAL_DEFAULT_TRIM_EXTENTS)
      in if \<not> jnl_malloc jnl new_allocated_count
         then (12, trim\<lparr>extents := []\<rparr>)
         else (0, trim\<lparr>allocated_count := new_allocated_count\<rparr>))"

text \<open>The binary search: \<open>lower\<close> and \<open>upper\<close> are indices, the result is the overlapping extent.\<close>

function trim_search_loop :: "dk_extent_t list \<Rightarrow> int \<Rightarrow> int \<Rightarrow> nat \<Rightarrow> nat \<Rightarrow> dk_extent_t option" where
  "trim_search_loop es offset stop lower upper =
     (if lower < upper then
        let middle = (lower + upper) div 2; e = es ! middle
        in if de_offset e \<ge> stop then trim_search_loop es offset stop lower middle
           else if u64 (de_offset e + de_length e) \<le> offset then trim_search_loop es offset stop (middle + 1) upper
           else Some e
      else None)"
  by pat_completeness auto
termination by (relation "measure (\<lambda>(_, _, _, lower, upper). upper - lower)") auto

definition trim_search_extent :: "jnl_trim_list \<Rightarrow> int \<Rightarrow> int \<Rightarrow> dk_extent_t option" where
  "trim_search_extent trim offset len =
     trim_search_loop (extents trim) offset (u64 (offset + len)) 0 (length (extents trim))"

text \<open>\<open>journal_trim_add_extent\<close>: the error and the list after the call.\<close>

definition trim_add_extent :: "journal \<Rightarrow> jnl_trim_list \<Rightarrow> int \<Rightarrow> int \<Rightarrow> int \<times> jnl_trim_list" where
  "trim_add_extent jnl trim offset len =
     (let stop = u64 (offset + len);
          es = extents trim;
          insert_index = length (takeWhile (\<lambda>e. u64 (de_offset e + de_length e) < offset) es);
          replace_count = length (takeWhile (\<lambda>e. de_offset e \<le> stop) (drop insert_index es))
      in if replace_count = 0 then
           (let (err, trim) =
                  (if int (length es) = allocated_count trim then trim_realloc jnl trim else (0, trim))
            in if err \<noteq> 0 then (err, trim)
               else (0, trim\<lparr>extents := take insert_index es @ dk_extent offset len # drop insert_index es\<rparr>))
         else
           (let first_ext = es ! insert_index;
                offset = (if de_offset first_ext < offset then de_offset first_ext else offset);
                last_ext = es ! (insert_index + replace_count - 1);
                last_end = u64 (de_offset last_ext + de_length last_ext);
                stop = (if last_end > stop then last_end else stop)
            in (0, trim\<lparr>extents := take insert_index es @ dk_extent offset (u64 (stop - offset)) #
                      drop (insert_index + replace_count) es\<rparr>)))"

definition journal_trim_add_extent :: "journal \<Rightarrow> int \<Rightarrow> int \<Rightarrow> (int \<times> journal) option" where
  "journal_trim_add_extent jnl offset len =
     (if jnl_invalid jnl then Some (22, jnl)
      else case active_tr jnl of None \<Rightarrow> None
      | Some (trim, flush) \<Rightarrow>
          if \<not> jnl_owner_is_self jnl then None
          else (let (err, trim) = trim_add_extent jnl trim offset len
                in Some (err, jnl\<lparr>active_tr := Some (trim, flush)\<rparr>)))"

text \<open>\<open>journal_trim_extent_overlap\<close>: the value stored through \<open>end\<close> when there is an overlap.\<close>

definition journal_trim_extent_overlap :: "journal \<Rightarrow> int \<Rightarrow> int \<Rightarrow> int option option" where
  "journal_trim_extent_overlap jnl offset len =
     (case active_tr jnl of None \<Rightarrow> None
      | Some (trim, flush) \<Rightarrow>
          (let overlap =
             (case trim_search_extent trim offset len of
                None \<Rightarrow> (case async_trim jnl of None \<Rightarrow> None | Some at \<Rightarrow> trim_search_extent at offset len)
              | Some e \<Rightarrow> Some e)
           in Some (case overlap of None \<Rightarrow> None
                    | Some e \<Rightarrow>
                        (let overlap_end = u64 (de_offset e + de_length e); stop = u64 (offset + len)
                         in Some (if overlap_end < stop then overlap_end else stop)))))"

definition journal_request_immediate_flush :: "journal \<Rightarrow> int \<times> journal" where
  "journal_request_immediate_flush jnl =
     (case active_tr jnl of None \<Rightarrow> (1, jnl)
      | Some (trim, flush) \<Rightarrow> (0, jnl\<lparr>active_tr := Some (trim, True)\<rparr>))"

text \<open>\<open>trim_remove_extent\<close>.  The two updates of the extents that are kept in part.\<close>

definition trim_truncate :: "int \<Rightarrow> dk_extent_t \<Rightarrow> dk_extent_t" where
  "trim_truncate offset e =
     (if u64 (de_offset e + de_length e) > offset then e\<lparr>de_length := u64 (offset - de_offset e)\<rparr> else e)"

definition trim_advance :: "int \<Rightarrow> dk_extent_t \<Rightarrow> dk_extent_t" where
  "trim_advance stop e =
     (if de_offset e < stop then dk_extent stop (u64 (de_offset e + de_length e - stop)) else e)"

definition trim_cut :: "dk_extent_t list \<Rightarrow> int \<Rightarrow> int \<Rightarrow> nat \<Rightarrow> nat \<Rightarrow> dk_extent_t list" where
  "trim_cut es offset stop keep_before keep_after =
     (let es = (if keep_before > 0 then es[keep_before - 1 := trim_truncate offset (es ! (keep_before - 1))] else es);
          es = (if keep_after < length es then es[keep_after := trim_advance stop (es ! keep_after)] else es)
      in take keep_before es @ drop keep_after es)"

definition trim_remove_extent :: "journal \<Rightarrow> jnl_trim_list \<Rightarrow> int \<Rightarrow> int \<Rightarrow> int \<times> jnl_trim_list" where
  "trim_remove_extent jnl trim offset len =
     (let stop = u64 (offset + len);
          es = extents trim;
          keep_before = length (takeWhile (\<lambda>e. de_offset e < offset) es);
          back = (if keep_before > 0 then keep_before - 1 else keep_before);
          keep_after = back + length (takeWhile (\<lambda>e. u64 (de_offset e + de_length e) \<le> stop) (drop back es))
      in if keep_before > keep_after then
           (let (err, trim) =
                  (if int (length es) = allocated_count trim then trim_realloc jnl trim else (0, trim))
            in if err \<noteq> 0 then (err, trim)
               else (0, trim\<lparr>extents :=
                       trim_cut (take keep_before es @ drop keep_after es) offset stop keep_before (keep_after + 1)\<rparr>))
         else (0, trim\<lparr>extents := trim_cut es offset stop keep_before keep_after\<rparr>))"

definition journal_trim_remove_extent :: "journal \<Rightarrow> int \<Rightarrow> int \<Rightarrow> (int \<times> journal) option" where
  "journal_trim_remove_extent jnl offset len =
     (if jnl_invalid jnl then Some (22, jnl)
      else case active_tr jnl of None \<Rightarrow> None
      | Some (trim, flush) \<Rightarrow>
          if \<not> jnl_owner_is_self jnl then None
          else (let (err, trim) = trim_remove_extent jnl trim offset len;
                    jnl = jnl\<lparr>active_tr := Some (trim, flush)\<rparr>
                in if err \<noteq> 0 then Some (err, jnl)
                   else (case async_trim jnl of None \<Rightarrow> Some (0, jnl)
                         | Some at \<Rightarrow>
                             (case trim_search_extent at offset len of None \<Rightarrow> Some (0, jnl)
                              | Some _ \<Rightarrow>
                                  (let (err, at) = trim_remove_extent jnl at offset len
                                   in Some (err, jnl\<lparr>async_trim := Some at\<rparr>))))))"

section \<open>Invariant and abstraction\<close>

text \<open>
  The abstraction of a trim list is the set of its bytes.  The invariant: extents are not empty, do not
  wrap, are sorted, and no two of them touch.
\<close>

definition de_end :: "dk_extent_t \<Rightarrow> int" where
  "de_end e = de_offset e + de_length e"

definition ext_bytes :: "dk_extent_t \<Rightarrow> int set" where
  "ext_bytes e = {de_offset e ..< de_end e}"

definition trim_set :: "dk_extent_t list \<Rightarrow> int set" where
  "trim_set es = (\<Union>e\<in>set es. ext_bytes e)"

definition ext_ok :: "dk_extent_t \<Rightarrow> bool" where
  "ext_ok e \<longleftrightarrow> 0 \<le> de_offset e \<and> 0 < de_length e \<and> de_end e < 2 ^ 64"

definition trim_ok :: "dk_extent_t list \<Rightarrow> bool" where
  "trim_ok es \<longleftrightarrow> (\<forall>e\<in>set es. ext_ok e) \<and> sorted_wrt (\<lambda>e f. de_end e < de_offset f) es"

lemma ext_ok_end: "ext_ok e \<Longrightarrow> u64 (de_offset e + de_length e) = de_end e"
  by (simp add: ext_ok_def de_end_def)

lemma ext_okD: "ext_ok e \<Longrightarrow> 0 \<le> de_offset e" "ext_ok e \<Longrightarrow> de_offset e < de_end e" "ext_ok e \<Longrightarrow> de_end e < 18446744073709551616"
  by (simp_all add: ext_ok_def de_end_def)

lemma trim_set_simps [simp]:
  "trim_set [] = {}" "trim_set (e # es) = ext_bytes e \<union> trim_set es" "trim_set (es @ fs) = trim_set es \<union> trim_set fs"
  by (auto simp: trim_set_def)

lemma trim_ok_append:
  "trim_ok (es @ fs) \<longleftrightarrow> trim_ok es \<and> trim_ok fs \<and> (\<forall>e\<in>set es. \<forall>f\<in>set fs. de_end e < de_offset f)"
  by (auto simp: trim_ok_def sorted_wrt_append)

lemma trim_ok_Cons:
  "trim_ok (e # es) \<longleftrightarrow> ext_ok e \<and> trim_ok es \<and> (\<forall>f\<in>set es. de_end e < de_offset f)"
  by (auto simp: trim_ok_def)

lemma trim_ok_Nil [simp]: "trim_ok []"
  by (simp add: trim_ok_def)

lemma trim_ok_mem: "trim_ok es \<Longrightarrow> e \<in> set es \<Longrightarrow> ext_ok e"
  by (simp add: trim_ok_def)

lemma trim_set_bounds: "x \<in> trim_set es \<longleftrightarrow> (\<exists>e\<in>set es. de_offset e \<le> x \<and> x < de_end e)"
  by (auto simp: trim_set_def ext_bytes_def)

lemma trim_ok_nth:
  "trim_ok es \<Longrightarrow> i < j \<Longrightarrow> j < length es \<Longrightarrow> de_end (es ! i) < de_offset (es ! j)"
  by (auto simp: trim_ok_def sorted_wrt_iff_nth_less)

text \<open>How a scan splits a list that satisfies the invariant.\<close>

lemma takeWhile_cong_ok:
  "trim_ok es \<Longrightarrow> takeWhile (\<lambda>e. R (u64 (de_offset e + de_length e))) es = takeWhile (\<lambda>e. R (de_end e)) es"
  by (rule takeWhile_cong) (auto simp: ext_ok_end trim_ok_mem)

lemma dropWhile_end:
  assumes "trim_ok es" "f \<in> set (dropWhile (\<lambda>e. de_end e < a) es)"
  shows "a \<le> de_end f"
  using assms
  by (induction es) (auto simp: trim_ok_Cons split: if_splits dest!: ext_okD(2) trim_ok_mem)

lemma dropWhile_end_le:
  assumes "trim_ok es" "f \<in> set (dropWhile (\<lambda>e. de_end e \<le> a) es)"
  shows "a < de_end f"
  using assms
  by (induction es) (force simp: trim_ok_Cons split: if_splits dest!: ext_okD(2) trim_ok_mem)+

lemma dropWhile_off:
  assumes "trim_ok es" "f \<in> set (dropWhile (\<lambda>e. de_offset e \<le> a) es)"
  shows "a < de_offset f"
  using assms
  by (induction es) (force simp: trim_ok_Cons split: if_splits dest!: ext_okD(2))+

lemma dropWhile_off_less:
  assumes "trim_ok es" "f \<in> set (dropWhile (\<lambda>e. de_offset e < a) es)"
  shows "a \<le> de_offset f"
  using assms
  by (induction es) (force simp: trim_ok_Cons split: if_splits dest!: ext_okD(2))+

subsection \<open>Adding an extent\<close>

lemma add_split:
  assumes ok: "trim_ok es"
    and i: "i = length (takeWhile (\<lambda>e. u64 (de_offset e + de_length e) < a) es)"
    and r: "r = length (takeWhile (\<lambda>e. de_offset e \<le> z) (drop i es))"
  obtains A B C where "es = A @ B @ C" "i = length A" "r = length B"
    "\<forall>e\<in>set A. de_end e < a" "\<forall>e\<in>set B. a \<le> de_end e \<and> de_offset e \<le> z" "\<forall>e\<in>set C. z < de_offset e"
proof -
  define A where "A = takeWhile (\<lambda>e. de_end e < a) es"
  define D where "D = dropWhile (\<lambda>e. de_end e < a) es"
  define B where "B = takeWhile (\<lambda>e. de_offset e \<le> z) D"
  define C where "C = dropWhile (\<lambda>e. de_offset e \<le> z) D"
  have iA: "i = length A" using takeWhile_cong_ok [OF ok, of "\<lambda>x. x < a"] by (simp add: i A_def)
  have es: "es = A @ D" and D: "D = B @ C" by (simp_all add: A_def B_def C_def D_def)
  have "drop i es = D" using es iA by simp
  then have rB: "r = length B" by (simp add: r B_def)
  have okD: "trim_ok D" using ok unfolding es trim_ok_append by simp
  show thesis
  proof (rule that [OF _ iA rB])
    show "es = A @ B @ C" using es D by simp
    show "\<forall>e\<in>set A. de_end e < a" by (auto simp: A_def dest: set_takeWhileD)
    show "\<forall>e\<in>set B. a \<le> de_end e \<and> de_offset e \<le> z"
      using dropWhile_end [OF ok, of _ a] D by (auto simp: B_def D_def dest: set_takeWhileD)
    show "\<forall>e\<in>set C. z < de_offset e" using dropWhile_off [OF okD] by (auto simp: C_def)
  qed
qed

lemma merge_bytes:
  assumes "trim_ok B" "B \<noteq> []" "\<forall>e\<in>set B. a \<le> de_end e \<and> de_offset e \<le> z" "a < z"
  shows "{min (de_offset (hd B)) a ..< max (de_end (last B)) z} = trim_set B \<union> {a..<z}"
proof -
  have h: "hd B \<in> set B" and l: "last B \<in> set B" using assms(2) by simp_all
  have first: "de_offset (hd B) \<le> de_offset e" and final: "de_end e \<le> de_end (last B)" if e: "e \<in> set B" for e
  proof -
    obtain k where k: "k < length B" "e = B ! k" using e by (auto simp: in_set_conv_nth)
    show "de_offset (hd B) \<le> de_offset e"
      using trim_ok_nth [OF assms(1), of 0 k] k assms(2) ext_okD(2) [OF trim_ok_mem [OF assms(1) h]]
      by (cases "k = 0") (auto simp: hd_conv_nth)
    show "de_end e \<le> de_end (last B)"
      using trim_ok_nth [OF assms(1), of k "length B - 1"] k assms(2) ext_okD(2) [OF trim_ok_mem [OF assms(1) l]]
      by (cases "k < length B - 1") (auto simp: last_conv_nth not_less le_antisym dest: le_antisym Suc_leI)
  qed
  show ?thesis
  proof (rule set_eqI)
    fix x
    show "x \<in> {min (de_offset (hd B)) a ..< max (de_end (last B)) z} \<longleftrightarrow> x \<in> trim_set B \<union> {a..<z}"
    proof
      assume "x \<in> trim_set B \<union> {a..<z}"
      then show "x \<in> {min (de_offset (hd B)) a ..< max (de_end (last B)) z}"
        using first final by (fastforce simp: trim_set_bounds)
    next
      assume x: "x \<in> {min (de_offset (hd B)) a ..< max (de_end (last B)) z}"
      consider "x < a" | "a \<le> x" "x < z" | "z \<le> x" by linarith
      then show "x \<in> trim_set B \<union> {a..<z}"
      proof cases
        case 1 with x h assms(3) show ?thesis by (auto simp: trim_set_bounds intro!: bexI [of _ "hd B"])
      next
        case 3 with x l assms(3) show ?thesis by (auto simp: trim_set_bounds intro!: bexI [of _ "last B"])
      qed simp
    qed
  qed
qed

lemma trim_realloc_cases:
  "trim_realloc jnl trim = (err, trim') \<Longrightarrow> err = 12 \<and> extents trim' = [] \<or> err = 0 \<and> extents trim' = extents trim"
  by (auto simp: trim_realloc_def Let_def split: if_splits)

lemma trim_add_extent_ok:
  assumes ok: "trim_ok (extents trim)" and a: "0 \<le> a" "0 < n" "a + n < 2 ^ 64"
    and run: "trim_add_extent jnl trim a n = (err, trim')"
  shows "err = 0 \<and> trim_ok (extents trim') \<and> trim_set (extents trim') = trim_set (extents trim) \<union> {a..<a + n} \<or>
         err = 12 \<and> extents trim' = []"
proof -
  define i where "i = length (takeWhile (\<lambda>e. u64 (de_offset e + de_length e) < a) (extents trim))"
  define r where "r = length (takeWhile (\<lambda>e. de_offset e \<le> a + n) (drop i (extents trim)))"
  obtain A B C where es: "extents trim = A @ B @ C" and iA: "i = length A" and rB: "r = length B"
    and A: "\<forall>e\<in>set A. de_end e < a" and B: "\<forall>e\<in>set B. a \<le> de_end e \<and> de_offset e \<le> a + n"
    and C: "\<forall>e\<in>set C. a + n < de_offset e"
    using add_split [OF ok i_def r_def] by blast
  have u: "u64 (a + n) = a + n" using a by simp
  have oks: "trim_ok A" "trim_ok B" "trim_ok C" "\<forall>e\<in>set A. \<forall>f\<in>set B. de_end e < de_offset f"
    "\<forall>e\<in>set A. \<forall>f\<in>set C. de_end e < de_offset f" "\<forall>e\<in>set B. \<forall>f\<in>set C. de_end e < de_offset f"
    using ok unfolding es trim_ok_append by auto
  show ?thesis
  proof (cases "B = []")
    case True
    have new: "trim_ok (A @ dk_extent a n # C)"
      using oks A C a by (auto simp: trim_ok_append trim_ok_Cons ext_ok_def de_end_def)
    have "trim_set (A @ dk_extent a n # C) = trim_set (A @ B @ C) \<union> {a..<a + n}"
      using True by (auto simp: ext_bytes_def de_end_def)
    moreover have "r = 0" using True rB by simp
    then have "err = 12 \<and> extents trim' = [] \<or>
        err = 0 \<and> extents trim' = take i (extents trim) @ dk_extent a n # drop i (extents trim)"
      using run unfolding trim_add_extent_def Let_def u i_def [symmetric] r_def [symmetric]
      by (auto split: if_splits prod.splits dest!: trim_realloc_cases)
    ultimately show ?thesis using new True unfolding es iA by (elim disjE) simp_all
  next
    case False
    define lo where "lo = min (de_offset (hd B)) a"
    define hi where "hi = max (de_end (last B)) (a + n)"
    have first: "extents trim ! i = hd B" using False by (simp add: es iA nth_append hd_conv_nth)
    have final: "extents trim ! (i + r - 1) = last B"
    proof -
      have "i + r - 1 = length A + (length B - 1)" using False by (cases B) (auto simp: iA rB)
      then show ?thesis using False by (simp add: es nth_append last_conv_nth)
    qed
    have hl: "ext_ok (hd B)" "ext_ok (last B)" using oks(2) False by (auto intro: trim_ok_mem)
    have mn: "(if x < a then x else a) = min x a" "(if x > a + n then x else a + n) = max x (a + n)" for x by auto
    have b: "0 \<le> lo" "lo < hi" "hi < 2 ^ 64" using a ext_okD [OF hl(1)] ext_okD [OF hl(2)] by (auto simp: lo_def hi_def)
    have "r \<noteq> 0" using False rB by simp
    then have "err = 0" "extents trim' = take i (extents trim) @ dk_extent lo (u64 (hi - lo)) # drop (i + r) (extents trim)"
      using run
      unfolding trim_add_extent_def Let_def u i_def [symmetric] r_def [symmetric] first final ext_ok_end [OF hl(2)] mn
        lo_def [symmetric] hi_def [symmetric]
      by auto
    then have res: "err = 0" "extents trim' = A @ dk_extent lo (hi - lo) # C" using b by (simp_all add: es iA rB)
    have "trim_ok (A @ dk_extent lo (hi - lo) # C)"
      using oks A C b False by (auto simp: trim_ok_append trim_ok_Cons ext_ok_def de_end_def lo_def hi_def)
    moreover have "ext_bytes (dk_extent lo (hi - lo)) = trim_set B \<union> {a..<a + n}"
      using merge_bytes [OF oks(2) False B] a by (simp add: ext_bytes_def de_end_def lo_def hi_def)
    ultimately show ?thesis using res by (auto simp: es)
  qed
qed

subsection \<open>Removing an extent\<close>

definition truncate_last :: "int \<Rightarrow> dk_extent_t list \<Rightarrow> dk_extent_t list" where
  "truncate_last a A = (if A = [] then [] else butlast A @ [trim_truncate a (last A)])"

definition advance_head :: "int \<Rightarrow> dk_extent_t list \<Rightarrow> dk_extent_t list" where
  "advance_head z C = (case C of [] \<Rightarrow> [] | c # cs \<Rightarrow> trim_advance z c # cs)"

lemma trim_cut_append:
  "trim_cut (A @ B @ C) a z (length A) (length A + length B) = truncate_last a A @ advance_head z C"
proof -
  have upd: "(A @ B @ C)[length A - 1 := trim_truncate a ((A @ B @ C) ! (length A - 1))] = truncate_last a A @ B @ C"
    if "A \<noteq> []"
    using that by (cases A rule: rev_cases) (auto simp: truncate_last_def nth_append list_update_append)
  have len: "length (truncate_last a A) = length A" by (auto simp: truncate_last_def)
  have adv: "(X @ B @ C)[length X + length B := trim_advance z ((X @ B @ C) ! (length X + length B))] = X @ B @ advance_head z C"
    if "C \<noteq> []" for X
    using that by (cases C) (auto simp: advance_head_def nth_append list_update_append)
  have "(if 0 < length A then (A @ B @ C)[length A - 1 := trim_truncate a ((A @ B @ C) ! (length A - 1))] else A @ B @ C)
      = truncate_last a A @ B @ C"
    using upd by (auto simp: truncate_last_def)
  moreover have "(if length A + length B < length (truncate_last a A @ B @ C)
        then (truncate_last a A @ B @ C)[length A + length B := trim_advance z ((truncate_last a A @ B @ C) ! (length A + length B))]
        else truncate_last a A @ B @ C) = truncate_last a A @ B @ advance_head z C"
    using adv [of "truncate_last a A"] by (cases C) (simp_all add: len advance_head_def)
  ultimately show ?thesis by (simp add: trim_cut_def Let_def len)
qed

lemma truncate_last_ok:
  assumes "trim_ok A" "\<forall>e\<in>set A. de_offset e < a" "a < 2 ^ 64"
  shows "trim_ok (truncate_last a A) \<and> trim_set (truncate_last a A) = trim_set A \<inter> {..<a} \<and>
         (\<forall>e\<in>set (truncate_last a A). de_end e \<le> a)"
proof (cases A rule: rev_cases)
  case (snoc A' l)
  have l: "ext_ok l" "de_offset l < a" and A': "trim_ok A'" "\<forall>e\<in>set A'. de_end e < de_offset l"
    using assms by (auto simp: snoc trim_ok_append trim_ok_Cons)
  define t where "t = trim_truncate a l"
  have t: "ext_ok t" "de_offset t = de_offset l" "de_end t = min (de_end l) a"
    using l assms(3) by (auto simp: t_def trim_truncate_def ext_ok_end) (auto simp: ext_ok_def de_end_def)
  have "ext_bytes t = ext_bytes l \<inter> {..<a}" using t by (auto simp: ext_bytes_def)
  moreover have "trim_set A' \<subseteq> {..<a}" using A' l by (fastforce simp: trim_set_bounds)
  ultimately have "trim_set (A' @ [t]) = trim_set A \<inter> {..<a}" by (auto simp: snoc)
  moreover have "trim_ok (A' @ [t])" "\<forall>e\<in>set (A' @ [t]). de_end e \<le> a"
    using A' t l by (fastforce simp: trim_ok_append trim_ok_Cons)+
  ultimately show ?thesis by (simp add: snoc truncate_last_def t_def)
qed (simp add: truncate_last_def)

lemma advance_head_ok:
  assumes "trim_ok C" "\<forall>e\<in>set C. z < de_end e" "0 \<le> z"
  shows "trim_ok (advance_head z C) \<and> trim_set (advance_head z C) = trim_set C \<inter> {z..} \<and>
         (\<forall>e\<in>set (advance_head z C). z \<le> de_offset e)"
proof (cases C)
  case (Cons c cs)
  have c: "ext_ok c" "z < de_end c" and cs: "trim_ok cs" "\<forall>f\<in>set cs. de_end c < de_offset f"
    using assms by (auto simp: Cons trim_ok_Cons)
  define t where "t = trim_advance z c"
  have "u64 (de_end c - z) = de_end c - z" using c assms(3) ext_okD(3) [of c] by simp
  then have t: "ext_ok t" "de_offset t = max (de_offset c) z" "de_end t = de_end c"
    using c assms(3) by (auto simp: t_def trim_advance_def de_end_def ext_ok_def)
  have "ext_bytes t = ext_bytes c \<inter> {z..}" using t by (auto simp: ext_bytes_def)
  moreover have "trim_set cs \<subseteq> {z..}" using cs c by (fastforce simp: trim_set_bounds)
  ultimately have "trim_set (t # cs) = trim_set C \<inter> {z..}" by (auto simp: Cons)
  moreover have "trim_ok (t # cs)" "\<forall>e\<in>set (t # cs). z \<le> de_offset e"
    using cs t c by (fastforce simp: trim_ok_Cons)+
  ultimately show ?thesis by (simp add: Cons advance_head_def t_def)
qed (simp add: advance_head_def)

lemma trim_cut_ok:
  assumes "trim_ok A" "\<forall>e\<in>set A. de_offset e < a" "trim_ok C" "\<forall>e\<in>set C. z < de_end e" "0 \<le> a" "a < z" "z < 2 ^ 64"
    and "trim_set A \<inter> {..<a} = trim_set es \<inter> {..<a}" "trim_set C \<inter> {z..} = trim_set es \<inter> {z..}"
  shows "trim_ok (truncate_last a A @ advance_head z C)"
    "trim_set (truncate_last a A @ advance_head z C) = trim_set es - {a..<z}"
proof -
  have A: "trim_ok (truncate_last a A) \<and> trim_set (truncate_last a A) = trim_set es \<inter> {..<a} \<and>
      (\<forall>e\<in>set (truncate_last a A). de_end e \<le> a)"
    using truncate_last_ok [of A a] assms by simp
  have C: "trim_ok (advance_head z C) \<and> trim_set (advance_head z C) = trim_set es \<inter> {z..} \<and>
      (\<forall>e\<in>set (advance_head z C). z \<le> de_offset e)"
    using advance_head_ok [of C z] assms by simp
  show "trim_ok (truncate_last a A @ advance_head z C)" using A C assms(6) by (fastforce simp: trim_ok_append)
  have "trim_set es \<inter> {..<a} \<union> trim_set es \<inter> {z..} = trim_set es - {a..<z}" using assms(6) by auto
  with A C show "trim_set (truncate_last a A @ advance_head z C) = trim_set es - {a..<z}" by simp
qed

lemma trim_remove_extent_hole:
  assumes ok: "trim_ok (A' @ l # D)" and l: "de_offset l < a" "z < de_end l" and D: "\<forall>e\<in>set D. a \<le> de_offset e"
    and az: "0 \<le> a" "a < z" "z < 2 ^ 64"
  defines "kept \<equiv> truncate_last a (A' @ [l]) @ advance_head z (l # D)"
  shows "trim_ok kept" "trim_set kept = trim_set (A' @ l # D) - {a..<z}"
proof -
  have o: "trim_ok (A' @ [l])" "trim_ok (l # D)" "\<forall>e\<in>set A'. de_end e < de_offset l" "\<forall>e\<in>set D. de_end l < de_offset e"
    using ok by (auto simp: trim_ok_append trim_ok_Cons)
  have A: "\<forall>e\<in>set (A' @ [l]). de_offset e < a"
    using o l by (fastforce simp: trim_ok_append dest: trim_ok_mem ext_okD(2))
  have C: "\<forall>e\<in>set (l # D). z < de_end e"
    using o l by (fastforce simp: trim_ok_Cons dest: trim_ok_mem ext_okD(2))
  have s: "trim_set (A' @ [l]) \<inter> {..<a} = trim_set (A' @ l # D) \<inter> {..<a}"
    using D by (fastforce simp: trim_set_bounds)
  have e: "trim_set (l # D) \<inter> {z..} = trim_set (A' @ l # D) \<inter> {z..}"
    using o l az by (fastforce simp: trim_set_bounds)
  show "trim_ok kept" "trim_set kept = trim_set (A' @ l # D) - {a..<z}"
    unfolding kept_def using trim_cut_ok [OF o(1) A o(2) C az s e] by simp_all
qed

lemma trim_remove_extent_shrink:
  assumes ok: "trim_ok (A @ B @ C)" and A: "\<forall>e\<in>set A. de_offset e < a \<and> de_end e \<le> z"
    and B: "\<forall>e\<in>set B. a \<le> de_offset e \<and> de_end e \<le> z" and C: "\<forall>e\<in>set C. a \<le> de_offset e \<and> z < de_end e"
    and az: "0 \<le> a" "a < z" "z < 2 ^ 64"
  defines "kept \<equiv> truncate_last a A @ advance_head z C"
  shows "trim_ok kept" "trim_set kept = trim_set (A @ B @ C) - {a..<z}"
proof -
  have o: "trim_ok A" "trim_ok C" using ok by (auto simp: trim_ok_append)
  have s: "trim_set A \<inter> {..<a} = trim_set (A @ B @ C) \<inter> {..<a}"
    using B C by (fastforce simp: trim_set_bounds)
  have e: "trim_set C \<inter> {z..} = trim_set (A @ B @ C) \<inter> {z..}"
    using A B by (fastforce simp: trim_set_bounds)
  show "trim_ok kept" "trim_set kept = trim_set (A @ B @ C) - {a..<z}"
    unfolding kept_def using trim_cut_ok [OF o(1) _ o(2) _ az s e] A C by simp_all
qed

lemma trim_remove_extent_ok:
  assumes ok: "trim_ok (extents trim)" and a: "0 \<le> a" "0 < n" "a + n < 2 ^ 64"
    and run: "trim_remove_extent jnl trim a n = (err, trim')"
  shows "err = 0 \<and> trim_ok (extents trim') \<and> trim_set (extents trim') = trim_set (extents trim) - {a..<a + n} \<or>
         err = 12 \<and> extents trim' = []"
proof -
  let ?es = "extents trim" and ?z = "a + n"
  have u: "u64 (a + n) = a + n" using a by simp
  define A where "A = takeWhile (\<lambda>e. de_offset e < a) ?es"
  define D where "D = dropWhile (\<lambda>e. de_offset e < a) ?es"
  define B where "B = takeWhile (\<lambda>e. de_end e \<le> ?z) D"
  define C where "C = dropWhile (\<lambda>e. de_end e \<le> ?z) D"
  define bk where "bk = (if length A > 0 then length A - 1 else length A)"
  define ka where "ka = bk + length (takeWhile (\<lambda>e. u64 (de_offset e + de_length e) \<le> ?z) (drop bk ?es))"
  have es: "?es = A @ D" and D: "D = B @ C" by (simp_all add: A_def D_def B_def C_def)
  have A: "\<forall>e\<in>set A. de_offset e < a" by (auto simp: A_def dest: set_takeWhileD)
  have Da: "\<forall>e\<in>set D. a \<le> de_offset e" using dropWhile_off_less [OF ok] by (auto simp: D_def)
  have okd: "trim_ok (drop k ?es)" for k using ok by (metis append_take_drop_id trim_ok_append)
  have ka: "ka = bk + length (takeWhile (\<lambda>e. de_end e \<le> ?z) (drop bk ?es))"
    unfolding ka_def using takeWhile_cong_ok [OF okd, of "\<lambda>x. x \<le> ?z"] by simp
  have okD: "trim_ok D" using okd [of "length A"] by (simp add: es)
  have C: "\<forall>e\<in>set C. ?z < de_end e" using dropWhile_end_le [OF okD] by (auto simp: C_def)
  have B: "\<forall>e\<in>set B. de_end e \<le> ?z" by (auto simp: B_def dest: set_takeWhileD)
  note unf = trim_remove_extent_def Let_def u A_def [symmetric] bk_def [symmetric] ka_def [symmetric]
  show ?thesis
  proof (cases "A \<noteq> [] \<and> ?z < de_end (last A)")
    case True
    then obtain A' l where Al: "A = A' @ [l]" "?z < de_end l" by (metis append_butlast_last_id)
    have k: "bk = length A'" "ka = length A'" using Al by (simp_all add: bk_def ka es)
    then have "err = 12 \<and> extents trim' = [] \<or>
        err = 0 \<and> extents trim' = trim_cut (A @ [] @ l # D) a ?z (length A) (length A + length ([] :: dk_extent_t list))"
      using run unfolding unf
      by (auto simp: Al es split: if_splits prod.splits dest!: trim_realloc_cases)
    moreover have "trim_ok (A' @ l # D)" using ok by (simp add: es Al)
    ultimately show ?thesis
      using trim_remove_extent_hole [of A' l D a ?z] A Da a unfolding trim_cut_append es
      by (elim disjE) (simp_all add: Al)
  next
    case False
    have Aend: "de_end e \<le> ?z" if e: "e \<in> set A" for e
    proof -
      obtain A' l where Al: "A = A' @ [l]" using e by (cases A rule: rev_cases) auto
      have "de_end l \<le> ?z" using False Al by auto
      moreover have "e = l \<or> de_end e < de_offset l" using ok e by (auto simp: es Al trim_ok_append)
      moreover have "de_offset l < a" using A Al by simp
      ultimately show ?thesis using a by auto
    qed
    have "ka = length A + length B"
    proof (cases A rule: rev_cases)
      case (snoc A' l)
      then show ?thesis using Aend [of l] by (simp add: ka bk_def es B_def)
    qed (simp add: ka bk_def es B_def)
    then have "err = 0 \<and> extents trim' = trim_cut (A @ B @ C) a ?z (length A) (length A + length B)"
      using run unfolding unf by (auto simp: es D)
    moreover have "trim_ok (A @ B @ C)" using ok by (simp add: es D)
    ultimately show ?thesis
      using trim_remove_extent_shrink [of A B C a ?z] A Aend B C Da a unfolding trim_cut_append es D by auto
  qed
qed

subsection \<open>Searching\<close>

lemma trim_search_loop_Some:
  "trim_search_loop es a z lo hi = Some e \<Longrightarrow> trim_ok es \<Longrightarrow> hi \<le> length es \<Longrightarrow>
     e \<in> set es \<and> de_offset e < z \<and> a < de_end e"
proof (induction es a z lo hi rule: trim_search_loop.induct)
  case (1 es a z lo hi)
  define m where "m = (lo + hi) div 2"
  have lt: "lo < hi" using "1.prems"(1) by (subst (asm) trim_search_loop.simps) (auto split: if_splits)
  then have m: "m < length es" "m \<le> length es" using "1.prems"(3) by (auto simp: m_def)
  then have mem: "es ! m \<in> set es" by simp
  have e: "u64 (de_offset (es ! m) + de_length (es ! m)) = de_end (es ! m)"
    by (rule ext_ok_end [OF trim_ok_mem [OF "1.prems"(2) mem]])
  have step: "trim_search_loop es a z lo hi =
      (if z \<le> de_offset (es ! m) then trim_search_loop es a z lo m
       else if de_end (es ! m) \<le> a then trim_search_loop es a z (m + 1) hi else Some (es ! m))"
    using lt by (subst trim_search_loop.simps) (simp add: Let_def m_def [symmetric] e)
  note IH = "1.IH"(1) [OF lt m_def refl] "1.IH"(2) [OF lt m_def refl]
  consider "z \<le> de_offset (es ! m)" | "\<not> z \<le> de_offset (es ! m)" "de_end (es ! m) \<le> a"
    | "\<not> z \<le> de_offset (es ! m)" "\<not> de_end (es ! m) \<le> a" by blast
  then show ?case
  proof cases
    case 1 with IH(1) "1.prems" step m show ?thesis by simp
  next
    case 2 with IH(2) "1.prems" step e show ?thesis by simp
  next
    case 3 with "1.prems" step mem show ?thesis by simp
  qed
qed

lemma trim_search_loop_None:
  "trim_search_loop es a z lo hi = None \<Longrightarrow> trim_ok es \<Longrightarrow> hi \<le> length es \<Longrightarrow> lo \<le> k \<Longrightarrow> k < hi \<Longrightarrow>
     z \<le> de_offset (es ! k) \<or> de_end (es ! k) \<le> a"
proof (induction es a z lo hi rule: trim_search_loop.induct)
  case (1 es a z lo hi)
  define m where "m = (lo + hi) div 2"
  have lt: "lo < hi" using "1.prems" by simp
  then have m: "m < length es" "lo \<le> m" "m < hi" using "1.prems"(3) by (auto simp: m_def)
  have mem: "es ! m \<in> set es" using m by simp
  have e: "u64 (de_offset (es ! m) + de_length (es ! m)) = de_end (es ! m)"
    by (rule ext_ok_end [OF trim_ok_mem [OF "1.prems"(2) mem]])
  have step: "trim_search_loop es a z lo hi =
      (if z \<le> de_offset (es ! m) then trim_search_loop es a z lo m
       else if de_end (es ! m) \<le> a then trim_search_loop es a z (m + 1) hi else Some (es ! m))"
    using lt by (subst trim_search_loop.simps) (simp add: Let_def m_def [symmetric] e)
  note ordered = trim_ok_nth [OF "1.prems"(2)]
  have pos: "de_offset (es ! i) < de_end (es ! i)" if "i < length es" for i
    using trim_ok_mem [OF "1.prems"(2)] that ext_okD(2) by simp
  show ?case
  proof (cases "z \<le> de_offset (es ! m)")
    case True
    show ?thesis
    proof (cases "k < m")
      case True
      then show ?thesis
        using "1.IH"(1) [OF lt m_def refl] \<open>z \<le> de_offset (es ! m)\<close> "1.prems" step m by simp
    next
      case False
      then show ?thesis
        using ordered [of m k] True pos [of m] "1.prems"(3,5) by (cases "k = m") force+
    qed
  next
    case z: False
    then have a: "de_end (es ! m) \<le> a" using "1.prems"(1) step by (auto split: if_splits)
    show ?thesis
    proof (cases "m < k")
      case True
      then show ?thesis
        using "1.IH"(2) [OF lt m_def refl] z a e "1.prems" step by simp
    next
      case False
      then show ?thesis
        using ordered [of k m] a pos [of m] m by (cases "k = m") force+
    qed
  qed
qed

lemma trim_search_extent_iff:
  assumes "trim_ok (extents trim)" "0 \<le> a" "0 < n" "a + n < 2 ^ 64"
  shows "trim_search_extent trim a n = None \<longleftrightarrow> trim_set (extents trim) \<inter> {a..<a + n} = {}"
proof -
  have u: "u64 (a + n) = a + n" using assms by simp
  have mem: "ext_ok e" if "e \<in> set (extents trim)" for e using assms(1) that by (rule trim_ok_mem)
  show ?thesis
  proof (cases "trim_search_extent trim a n")
    case None
    have "a + n \<le> de_offset e \<or> de_end e \<le> a" if "e \<in> set (extents trim)" for e
      using that trim_search_loop_None [OF None [unfolded trim_search_extent_def u] assms(1)]
      by (auto simp: in_set_conv_nth)
    then have "trim_set (extents trim) \<inter> {a..<a + n} = {}" by (fastforce simp: trim_set_bounds)
    with None show ?thesis by simp
  next
    case (Some e)
    have e: "e \<in> set (extents trim)" "de_offset e < a + n" "a < de_end e"
      using trim_search_loop_Some [OF Some [unfolded trim_search_extent_def u] assms(1)] by auto
    then have "max a (de_offset e) \<in> trim_set (extents trim) \<inter> {a..<a + n}"
      using ext_okD(2) [OF mem [OF e(1)]] assms(3) by (auto simp: trim_set_bounds intro!: bexI [of _ e])
    with Some show ?thesis by auto
  qed
qed

section \<open>Properties of the trim lists\<close>

definition byte_range :: "int \<Rightarrow> int \<Rightarrow> bool" where
  "byte_range a n \<longleftrightarrow> 0 \<le> a \<and> 0 < n \<and> a + n < 2 ^ 64"

definition trim_inv :: "jnl_trim_list \<Rightarrow> bool" where
  "trim_inv trim \<longleftrightarrow> trim_ok (extents trim)"

definition trim_bytes :: "jnl_trim_list \<Rightarrow> int set" where
  "trim_bytes trim = trim_set (extents trim)"

lemma trim_step:
  assumes "trim_inv trim" "byte_range a n"
  shows "trim_inv (snd (trim_add_extent jnl trim a n))" "trim_inv (snd (trim_remove_extent jnl trim a n))"
    "trim_bytes (snd (trim_add_extent jnl trim a n)) \<subseteq> trim_bytes trim \<union> {a..<a + n}"
    "trim_bytes (snd (trim_remove_extent jnl trim a n)) \<subseteq> trim_bytes trim - {a..<a + n}"
proof -
  note a = assms(2) [unfolded byte_range_def, THEN conjunct1] assms(2) [unfolded byte_range_def, THEN conjunct2, THEN conjunct1]
    assms(2) [unfolded byte_range_def, THEN conjunct2, THEN conjunct2]
  note add = trim_add_extent_ok [OF assms(1) [unfolded trim_inv_def] a prod.collapse [symmetric], of jnl]
  note rem = trim_remove_extent_ok [OF assms(1) [unfolded trim_inv_def] a prod.collapse [symmetric], of jnl]
  show "trim_inv (snd (trim_add_extent jnl trim a n))"
    "trim_bytes (snd (trim_add_extent jnl trim a n)) \<subseteq> trim_bytes trim \<union> {a..<a + n}"
    using add unfolding trim_inv_def trim_bytes_def by (elim disjE; simp)+
  show "trim_inv (snd (trim_remove_extent jnl trim a n))"
    "trim_bytes (snd (trim_remove_extent jnl trim a n)) \<subseteq> trim_bytes trim - {a..<a + n}"
    using rem unfolding trim_inv_def trim_bytes_def by (elim disjE; simp)+
qed

interpretation trim: extent_cache trim_bytes trim_inv byte_range
  "\<lambda>trim a n. snd (trim_add_extent jnl trim a n)" "\<lambda>trim a n. snd (trim_remove_extent jnl trim a n)" for jnl
  by unfold_locales (fact trim_step)+

definition trim_history :: "journal \<Rightarrow> extent_op list \<Rightarrow> jnl_trim_list \<Rightarrow> jnl_trim_list" where
  "trim_history jnl = fold (list_after (\<lambda>t a n. snd (trim_add_extent jnl t a n)) (\<lambda>t a n. snd (trim_remove_extent jnl t a n)))"

text \<open>C32: Through any history of frees and allocations of byte ranges, whether or not memory for a longer list can be
  had, a trim list stays sorted without touching extents, and never holds a byte that is in use at the end of it.
\<close>

theorem trim_history_sound:
  assumes "trim_inv trim" "trim_bytes trim \<subseteq> F" "\<forall>oper\<in>set ops. case_prod byte_range (op_range oper)"
  shows "trim_inv (trim_history jnl ops trim) \<and> trim_bytes (trim_history jnl ops trim) \<subseteq> fold free_after ops F"
  unfolding trim_history_def by (rule trim.history_sound [OF assms(1,2,3)])

definition ex_journal :: journal where
  "ex_journal = \<lparr>jnl_invalid = False, jnl_use_unmap = True, jnl_owner_is_self = True,
     active_tr = Some (\<lparr>allocated_count = 256, extents = [dk_extent 100 50, dk_extent 200 50]\<rparr>, False),
     async_trim = Some \<lparr>allocated_count = 256, extents = [dk_extent 400 100]\<rparr>, jnl_malloc = (\<lambda>_. True)\<rparr>"

definition ex_trim :: jnl_trim_list where
  "ex_trim = \<lparr>allocated_count = 256, extents = [dk_extent 100 50, dk_extent 200 50]\<rparr>"

lemma ex_trim_ok: "trim_inv ex_trim" "trim_bytes ex_trim = {100..<150} \<union> {200..<250}"
  by (simp_all add: trim_inv_def ex_trim_def trim_ok_def ext_ok_def de_end_def trim_bytes_def ext_bytes_def)

theorem trim_history_sound_witness:
  "trim_bytes (trim_history ex_journal [Freed 150 50, Allocated 120 100] ex_trim)
     \<subseteq> ({100..<150} \<union> {200..<250} \<union> {150..<200}) - {120..<220}"
  using trim_history_sound [of ex_trim "{100..<150} \<union> {200..<250}" "[Freed 150 50, Allocated 120 100]" ex_journal]
  by (simp add: ex_trim_ok byte_range_def)

text \<open>An extent that the transaction freed is recorded exactly: the list then covers the bytes it covered and those
  of the extent, merged with every extent it overlaps or touches; when the list cannot grow it is emptied.
\<close>

theorem trim_add_extent_correct:
  assumes "trim_inv trim" "byte_range a n" "trim_add_extent jnl trim a n = (err, trim')"
  shows "err = 0 \<and> trim_inv trim' \<and> trim_bytes trim' = trim_bytes trim \<union> {a..<a + n} \<or>
         err = 12 \<and> extents trim' = []"
  using trim_add_extent_ok [of trim a n jnl err trim'] assms by (simp add: trim_inv_def byte_range_def trim_bytes_def)

theorem trim_add_extent_correct_witness:
  "trim_bytes \<lparr>allocated_count = 256, extents = [dk_extent 100 150]\<rparr> = trim_bytes ex_trim \<union> {140..<140 + 60}"
  using trim_add_extent_correct [of ex_trim 140 60 ex_journal 0 "\<lparr>allocated_count = 256, extents = [dk_extent 100 150]\<rparr>"]
  by (simp add: ex_trim_ok byte_range_def) (simp add: trim_add_extent_def ex_trim_def)

text \<open>The binary search finds an extent exactly when some byte of the range is pending a trim.
\<close>

theorem trim_search_extent_correct:
  assumes "trim_inv trim" "byte_range a n"
  shows "trim_search_extent trim a n \<noteq> None \<longleftrightarrow> trim_bytes trim \<inter> {a..<a + n} \<noteq> {}"
  using trim_search_extent_iff [of trim a n] assms by (simp add: trim_inv_def byte_range_def trim_bytes_def)

theorem trim_search_extent_correct_witness:
  "trim_search_extent ex_trim 150 50 = None \<and> trim_search_extent ex_trim 149 2 \<noteq> None"
proof -
  have "149 \<in> trim_bytes ex_trim \<inter> {149..<149 + 2}" "trim_bytes ex_trim \<inter> {150..<150 + 50} = {}"
    by (auto simp: ex_trim_ok)
  then show ?thesis
    using trim_search_extent_correct [of ex_trim 150 50] trim_search_extent_correct [of ex_trim 149 2]
    by (auto simp: ex_trim_ok(1) byte_range_def)
qed

text \<open>The journal as a whole: both lists.\<close>

definition jnl_inv :: "journal \<Rightarrow> bool" where
  "jnl_inv jnl \<longleftrightarrow> (case active_tr jnl of None \<Rightarrow> True | Some (trim, _) \<Rightarrow> trim_inv trim) \<and>
     (case async_trim jnl of None \<Rightarrow> True | Some trim \<Rightarrow> trim_inv trim)"

definition active_bytes :: "journal \<Rightarrow> int set" where
  "active_bytes jnl = (case active_tr jnl of None \<Rightarrow> {} | Some (trim, _) \<Rightarrow> trim_bytes trim)"

definition async_bytes :: "journal \<Rightarrow> int set" where
  "async_bytes jnl = (case async_trim jnl of None \<Rightarrow> {} | Some trim \<Rightarrow> trim_bytes trim)"

definition jnl_ready :: "journal \<Rightarrow> bool" where
  "jnl_ready jnl \<longleftrightarrow> \<not> jnl_invalid jnl \<and> jnl_owner_is_self jnl \<and> active_tr jnl \<noteq> None"

text \<open>With a transaction open, \<open>journal_trim_remove_extent\<close> returns; when it reports success the range is pending a trim in
  neither of the two lists, and everything else that was pending still is.
\<close>

theorem journal_trim_remove_extent_correct:
  assumes "jnl_inv jnl" "jnl_ready jnl" "byte_range a n"
  shows "\<exists>err jnl'. journal_trim_remove_extent jnl a n = Some (err, jnl') \<and> jnl_inv jnl' \<and>
     (err = 0 \<longrightarrow> active_bytes jnl' = active_bytes jnl - {a..<a + n} \<and> async_bytes jnl' = async_bytes jnl - {a..<a + n})"
proof -
  obtain trim flush where act: "active_tr jnl = Some (trim, flush)" using assms(2) by (auto simp: jnl_ready_def)
  have ok: "trim_inv trim" using assms(1) act by (simp add: jnl_inv_def)
  have one: "trim_inv t' \<and> (err = 0 \<longrightarrow> trim_bytes t' = trim_bytes t - {a..<a + n})"
    if "trim_inv t" "trim_remove_extent j t a n = (err, t')" for j t t' err
    using trim_remove_extent_ok [of t a n j err t'] assms(3) that
    by (auto simp: trim_inv_def trim_bytes_def byte_range_def)
  obtain err trim' where rem: "trim_remove_extent jnl trim a n = (err, trim')" by fastforce
  define jnl1 where "jnl1 = jnl\<lparr>active_tr := Some (trim', flush)\<rparr>"
  note r1 = one [OF ok rem]
  show ?thesis
  proof (cases "err = 0 \<and> (\<exists>at e. async_trim jnl = Some at \<and> trim_search_extent at a n = Some e)")
    case True
    then obtain at e where at: "err = 0" "async_trim jnl = Some at" "trim_search_extent at a n = Some e" by blast
    obtain err2 at' where rem2: "trim_remove_extent jnl1 at a n = (err2, at')" by fastforce
    have "trim_inv at" using assms(1) at by (simp add: jnl_inv_def)
    note r2 = one [OF this rem2]
    have "journal_trim_remove_extent jnl a n = Some (err2, jnl1\<lparr>async_trim := Some at'\<rparr>)"
      using assms(2) act rem at rem2 by (simp add: journal_trim_remove_extent_def jnl_ready_def jnl1_def)
    then show ?thesis using r1 r2 at act
      by (auto simp: jnl_inv_def jnl1_def active_bytes_def async_bytes_def)
  next
    case False
    have "journal_trim_remove_extent jnl a n = Some (err, jnl1)"
      using assms(2) act rem False
      by (auto simp: journal_trim_remove_extent_def jnl_ready_def jnl1_def Let_def split: option.splits)
    moreover have "async_bytes jnl \<inter> {a..<a + n} = {}" if "err = 0"
      using False that assms trim_search_extent_iff [of _ a n]
      by (auto simp: async_bytes_def jnl_inv_def trim_inv_def trim_bytes_def byte_range_def split: option.splits)
    moreover have "jnl_inv jnl1" "async_bytes jnl1 = async_bytes jnl" "active_bytes jnl1 = trim_bytes trim'"
      using assms(1) r1 by (auto simp: jnl_inv_def jnl1_def async_bytes_def active_bytes_def)
    ultimately show ?thesis using r1 act by (auto simp: active_bytes_def)
  qed
qed

lemma ex_journal_ok: "jnl_inv ex_journal" "jnl_ready ex_journal"
  by (simp_all add: jnl_inv_def jnl_ready_def ex_journal_def trim_inv_def trim_ok_def ext_ok_def de_end_def)

theorem journal_trim_remove_extent_correct_witness:
  "\<exists>err jnl'. journal_trim_remove_extent ex_journal 120 300 = Some (err, jnl') \<and> jnl_inv jnl'"
  using journal_trim_remove_extent_correct [OF ex_journal_ok, of 120 300] by (auto simp: byte_range_def)

end
