(* ===== verification/FreeExtents.thy ===== *)
theory FreeExtents
  imports ExtentMap RangeList JournalTrim
begin

text \<open>
  The state of a mounted volume that the block allocator (\<open>src/kmod/core/VolumeAllocation.c\<close>) works on, and its
  free extent cache: at most ten free extents, the largest first (on a sparse device: the lowest first).

  The cells of \<open>vcbFreeExt\<close> below \<open>vcbFreeExtCnt\<close> are a list; the \<open>memmove\<close>s that open or close a cell are list
  surgery.  Block numbers are 32 bits wide, and the sums of the code wrap (\<^const>\<open>u32\<close>).
\<close>

unbundle bit_operations_syntax

section \<open>The mount\<close>

text \<open>
  A reservation is known to its owner by a pointer; here by a number.  Releasing it takes it off its list, which is what
  the \<open>-1\<close> in \<open>rl_start\<close> says in the code.  The allocation file is its bytes; \<open>bread_err\<close> is what
  reading a block of it returns.  \<open>bitmap_dirtied\<close> collects the bitmap blocks given to the journal (or to \<open>bdwrite\<close>),
  \<open>unmap_requests\<close> the extents passed to \<open>DKIOCUNMAP\<close> at once, latest first.
\<close>

type_synonym reservation = "nat \<times> rl_entry"

record hfsmount = ExtendedVCB +
  vcbVBMIOSize :: int
  totalBlocks :: int
  allocLimit :: int
  sparseAllocation :: int
  hfs_freed_block_count :: int
  tentativeBlocks :: int
  tentative_ranges :: "reservation list"
  locked_ranges :: "reservation list"
  next_reservation :: nat
  vcbFreeExt :: HFSPlusExtentRecord
  hfs_logical_bytes :: int
  hfs_summary_table :: mem
  hfs_summary_size :: int
  hfs_summary_bytes :: int
  alloc_c_blocks :: int
  jnl :: "journal option"
  allocation_file :: mem
  bread_err :: "int \<Rightarrow> int"
  bitmap_dirtied :: "int list"
  unmap_requests :: "dk_extent_t list"
  vol_inconsistent :: bool

abbreviation (input) kMaxFreeExtents :: nat where "kMaxFreeExtents \<equiv> 10"
abbreviation (input) HFS_HAS_SPARSE_DEVICE :: int where "HFS_HAS_SPARSE_DEVICE \<equiv> 0x400"

text \<open>\<open>ISSET\<close>: some bit of the mask is set.\<close>

definition ISSET :: "int \<Rightarrow> int \<Rightarrow> bool" where
  "ISSET flags bits \<longleftrightarrow> flags AND bits \<noteq> 0"

section \<open>Operations\<close>

definition ResetVCBFreeExtCache :: "hfsmount \<Rightarrow> hfsmount" where
  "ResetVCBFreeExtCache hfsmp = hfsmp\<lparr>vcbFreeExt := []\<rparr>"

definition remove_free_extent_list :: "HFSPlusExtentRecord \<Rightarrow> nat \<Rightarrow> HFSPlusExtentRecord" where
  "remove_free_extent_list es index =
     (if index \<ge> length es then es else take index es @ drop (index + 1) es)"

text \<open>
  \<open>add_free_extent_list\<close>: the index of the insertion (\<open>kMaxFreeExtents\<close> if there was none) and the list.  \<open>sparse\<close> is
  \<open>hfs_flags & HFS_HAS_SPARSE_DEVICE\<close>.
\<close>

definition free_ext_before :: "bool \<Rightarrow> int \<Rightarrow> int \<Rightarrow> HFSPlusExtentDescriptor \<Rightarrow> bool" where
  "free_ext_before sparse start count e = (if sparse then \<not> start < startBlock e else \<not> count > blockCount e)"

definition add_free_extent_list :: "bool \<Rightarrow> HFSPlusExtentRecord \<Rightarrow> int \<Rightarrow> int \<Rightarrow> nat \<times> HFSPlusExtentRecord" where
  "add_free_extent_list sparse es start count =
     (let i = length (takeWhile (free_ext_before sparse start count) es)
      in if i = kMaxFreeExtents then (i, es)
         else (i, take kMaxFreeExtents (take i es @ extent start count # drop i es)))"

text \<open>
  The loop of \<open>remove_free_extent_cache\<close> over the extents from index \<open>i\<close> on; \<open>startBlk\<close> and \<open>endBlock\<close> delimit
  what is removed.  The index is decremented before the loop's increment where an extent has been taken off its place.
\<close>

definition ext_end :: "HFSPlusExtentDescriptor \<Rightarrow> int" where
  "ext_end e = u32 (startBlock e + blockCount e)"

definition outside :: "int \<Rightarrow> int \<Rightarrow> HFSPlusExtentDescriptor \<Rightarrow> bool" where
  "outside startBlk endBlock e \<longleftrightarrow> ext_end e \<le> u32 startBlk \<or> startBlock e \<ge> endBlock"

text \<open>The loop of \<open>remove_free_extent_cache\<close> ends: the number of extents that overlap the range, then the number of extents ahead, decreases.\<close>

definition overlapping :: "int \<Rightarrow> int \<Rightarrow> HFSPlusExtentRecord \<Rightarrow> nat" where
  "overlapping startBlk endBlock es = length (filter (\<lambda>e. \<not> outside startBlk endBlock e) es)"

lemma overlapping_append [simp]: "overlapping a b (es @ fs) = overlapping a b es + overlapping a b fs"
  by (simp add: overlapping_def)

lemma overlapping_Cons [simp]: "overlapping a b (e # es) = (if outside a b e then 0 else 1) + overlapping a b es"
  by (simp add: overlapping_def)

lemma overlapping_Nil [simp]: "overlapping a b [] = 0"
  by (simp add: overlapping_def)

lemma overlapping_remove:
  assumes "i < length es"
  shows "overlapping a b es = (if outside a b (es ! i) then 0 else 1) + overlapping a b (remove_free_extent_list es i)"
  using assms by (subst id_take_nth_drop [OF assms]) (simp add: remove_free_extent_list_def)

lemma overlapping_take: "overlapping a b (take n es) \<le> overlapping a b es"
  by (metis append_take_drop_id overlapping_append le_add1)

lemma overlapping_add:
  assumes "outside a b (extent s n)"
  shows "overlapping a b (snd (add_free_extent_list sparse es s n)) \<le> overlapping a b es"
proof -
  define i where "i = length (takeWhile (free_ext_before sparse s n) es)"
  have "overlapping a b (take 10 (take i es @ extent s n # drop i es)) \<le> overlapping a b (take i es @ extent s n # drop i es)"
    by (rule overlapping_take)
  also have "\<dots> = overlapping a b (take i es @ drop i es)" using assms by (simp del: append_take_drop_id)
  finally show ?thesis by (simp add: add_free_extent_list_def Let_def i_def [symmetric])
qed

lemma outside_pieces:
  "outside a b (extent s (u32 (a - s)))" "outside a b (extent b n)"
proof -
  have "u32 (s + u32 (a - s)) = u32 a" by (simp add: u32_def mod_simps)
  then show "outside a b (extent s (u32 (a - s)))" by (simp add: outside_def ext_end_def extent_def)
qed (simp add: outside_def extent_def)

function remove_free_extent_loop :: "bool \<Rightarrow> int \<Rightarrow> int \<Rightarrow> nat \<Rightarrow> HFSPlusExtentRecord \<Rightarrow> HFSPlusExtentRecord" where
  "remove_free_extent_loop sparse startBlk endBlock i es =
     (if i \<ge> length es then es
      else let e = es ! i; currentStart = startBlock e; currentEnd = ext_end e in
        if outside startBlk endBlock e then remove_free_extent_loop sparse startBlk endBlock (i + 1) es
        else if startBlk \<le> currentStart \<and> endBlock \<ge> currentEnd then
          remove_free_extent_loop sparse startBlk endBlock i (remove_free_extent_list es i)
        else if startBlk > currentStart \<and> endBlock < currentEnd then
          (let es1 = remove_free_extent_list es i;
               es2 = snd (add_free_extent_list sparse es1 currentStart (u32 (startBlk - currentStart)))
           in snd (add_free_extent_list sparse es2 endBlock (u32 (currentEnd - endBlock))))
        else
          (let es1 = remove_free_extent_list es i;
               (insertedIndex, es2) =
                 (if startBlk > currentStart
                  then add_free_extent_list sparse es1 currentStart (u32 (startBlk - currentStart))
                  else add_free_extent_list sparse es1 endBlock (u32 (currentEnd - endBlock)))
           in remove_free_extent_loop sparse startBlk endBlock (if insertedIndex > i then i else i + 1) es2))"
  by pat_completeness auto
termination
proof (relation "measures [\<lambda>(sparse, a, b, i, es). overlapping a b es, \<lambda>(sparse, a, b, i, es). length es - i]", goal_cases)
  case (3 sparse a b i es e s z)
  then show ?case using overlapping_remove [of i es a b] by simp
next
  case (4 sparse a b i es e s z es1 r k es2)
  have ov: "overlapping a b es = 1 + overlapping a b es1" using 4 overlapping_remove [of i es a b] by simp
  have "overlapping a b es2 \<le> overlapping a b es1"
    using 4(9,10) overlapping_add [OF outside_pieces(1)] overlapping_add [OF outside_pieces(2)]
    by (cases "a > s") (simp_all add: prod_eq_iff)
  with ov show ?case by simp
qed auto

declare remove_free_extent_loop.simps [simp del]

definition sparse_device :: "hfsmount \<Rightarrow> bool" where
  "sparse_device hfsmp = ISSET (hfs_flags hfsmp) HFS_HAS_SPARSE_DEVICE"

definition remove_free_extent_cache :: "hfsmount \<Rightarrow> int \<Rightarrow> int \<Rightarrow> hfsmount" where
  "remove_free_extent_cache hfsmp startBlk count =
     hfsmp\<lparr>vcbFreeExt := remove_free_extent_loop (sparse_device hfsmp) startBlk (u32 (startBlk + count)) 0 (vcbFreeExt hfsmp)\<rparr>"

text \<open>The loop of \<open>add_free_extent_cache\<close>: the bounds of the merged extent and the extents that are kept.\<close>

function add_free_extent_loop :: "int \<Rightarrow> int \<Rightarrow> nat \<Rightarrow> HFSPlusExtentRecord \<Rightarrow> int \<times> int \<times> HFSPlusExtentRecord" where
  "add_free_extent_loop startBlk endBlock i es =
     (if i \<ge> length es then (startBlk, endBlock, es)
      else let e = es ! i; currentEnd = ext_end e in
        if startBlock e > endBlock \<or> currentEnd < startBlk then add_free_extent_loop startBlk endBlock (i + 1) es
        else add_free_extent_loop (if startBlock e < startBlk then startBlock e else startBlk)
               (if currentEnd > endBlock then currentEnd else endBlock) i (remove_free_extent_list es i))"
  by pat_completeness auto
termination
  by (relation "measure (\<lambda>(_, _, i, es). length es - i)") (auto simp: remove_free_extent_list_def)

declare add_free_extent_loop.simps [simp del]

text \<open>
  \<open>add_free_extent_cache\<close>.  The assertion of the debugging build, that the extent overlaps no reservation, is the first test.
\<close>

definition add_free_extent_cache :: "hfsmount \<Rightarrow> int \<Rightarrow> int \<Rightarrow> (bool \<times> hfsmount) option" where
  "add_free_extent_cache hfsmp startBlk count =
     (if \<exists>(r, rng)\<in>set (tentative_ranges hfsmp) \<union> set (locked_ranges hfsmp).
           rl_overlap rng startBlk (u32 (startBlk + count - 1)) \<noteq> RL_NOOVERLAP then None
      else if startBlk \<ge> allocLimit hfsmp then Some (False, hfsmp)
      else let count = (if u32 (startBlk + count) > allocLimit hfsmp then u32 (allocLimit hfsmp - startBlk) else count);
               (s, z, es) = add_free_extent_loop startBlk (u32 (startBlk + count)) 0 (vcbFreeExt hfsmp)
           in Some (False, hfsmp\<lparr>vcbFreeExt := snd (add_free_extent_list (sparse_device hfsmp) es s (u32 (z - s)))\<rparr>))"

text \<open>
  \<open>hfs_trim_callback\<close>: the journal has put the transaction that freed the extents on disk.  The casts apply before the divisions.
\<close>

fun hfs_trim_callback :: "hfsmount \<Rightarrow> dk_extent_t list \<Rightarrow> hfsmount option" where
  "hfs_trim_callback hfsmp [] = Some hfsmp"
| "hfs_trim_callback hfsmp (e # es) =
     (let startBlk = u32 (de_offset e - hfsPlusIOPosOffset hfsmp) div blockSize hfsmp;
          numBlocks = u32 (de_length e) div blockSize hfsmp
      in do { (_, hfsmp) \<leftarrow> add_free_extent_cache hfsmp startBlk numBlocks; hfs_trim_callback hfsmp es })"

section \<open>Invariant and abstraction\<close>

text \<open>
  The cache stands for a set of blocks.  Its invariant is what the debugging code \<open>sanity_check_free_ext\<close> tests, and more: at most
  ten extents, none empty or beyond the allocation limit, no two of them overlapping or contiguous, in the
  order of the insertion routine.
\<close>

definition ext_blocks :: "HFSPlusExtentDescriptor \<Rightarrow> int set" where
  "ext_blocks e = {startBlock e ..< startBlock e + blockCount e}"

definition fe_blocks :: "HFSPlusExtentRecord \<Rightarrow> int set" where
  "fe_blocks es = (\<Union>e\<in>set es. ext_blocks e)"

definition fe_ok :: "int \<Rightarrow> HFSPlusExtentDescriptor \<Rightarrow> bool" where
  "fe_ok lim e \<longleftrightarrow> 0 \<le> startBlock e \<and> 0 < blockCount e \<and> startBlock e + blockCount e \<le> lim"

definition apart :: "HFSPlusExtentDescriptor \<Rightarrow> HFSPlusExtentDescriptor \<Rightarrow> bool" where
  "apart e f \<longleftrightarrow> startBlock e + blockCount e < startBlock f \<or> startBlock f + blockCount f < startBlock e"

definition fe_before :: "bool \<Rightarrow> HFSPlusExtentDescriptor \<Rightarrow> HFSPlusExtentDescriptor \<Rightarrow> bool" where
  "fe_before sparse e f \<longleftrightarrow> (if sparse then startBlock e \<le> startBlock f else blockCount f \<le> blockCount e)"

definition fe_inv :: "bool \<Rightarrow> int \<Rightarrow> HFSPlusExtentRecord \<Rightarrow> bool" where
  "fe_inv sparse lim es \<longleftrightarrow> length es \<le> kMaxFreeExtents \<and> (\<forall>e\<in>set es. fe_ok lim e) \<and>
     sorted_wrt (\<lambda>e f. fe_before sparse e f \<and> apart e f) es"

lemma fe_blocks_simps [simp]:
  "fe_blocks [] = {}" "fe_blocks (e # es) = ext_blocks e \<union> fe_blocks es" "fe_blocks (es @ fs) = fe_blocks es \<union> fe_blocks fs"
  by (auto simp: fe_blocks_def)

lemma fe_blocks_take: "fe_blocks (take n es) \<subseteq> fe_blocks es"
  by (auto simp: fe_blocks_def dest: in_set_takeD)

lemma apart_sym: "apart e f \<longleftrightarrow> apart f e"
  by (auto simp: apart_def)

lemma fe_before_trans: "fe_before sparse e f \<Longrightarrow> fe_before sparse f g \<Longrightarrow> fe_before sparse e g"
  by (auto simp: fe_before_def split: if_splits)

lemma extent_sel [simp]: "startBlock (extent s n) = s" "blockCount (extent s n) = n"
  by (simp_all add: extent_def)

lemma fe_inv_append:
  "fe_inv sparse lim (es @ fs) \<longleftrightarrow> length es + length fs \<le> kMaxFreeExtents \<and>
     fe_inv sparse lim es \<and> fe_inv sparse lim fs \<and> (\<forall>e\<in>set es. \<forall>f\<in>set fs. fe_before sparse e f \<and> apart e f)"
  by (auto simp: fe_inv_def sorted_wrt_append)

lemma fe_inv_Cons:
  "fe_inv sparse lim (e # es) \<longleftrightarrow> length es < kMaxFreeExtents \<and> fe_ok lim e \<and> fe_inv sparse lim es \<and>
     (\<forall>f\<in>set es. fe_before sparse e f \<and> apart e f)"
  by (auto simp: fe_inv_def)

lemma fe_inv_mem: "fe_inv sparse lim es \<Longrightarrow> e \<in> set es \<Longrightarrow> fe_ok lim e"
  by (simp add: fe_inv_def)

lemma ext_end_ok: "fe_ok lim e \<Longrightarrow> lim < 2 ^ 32 \<Longrightarrow> ext_end e = startBlock e + blockCount e"
  by (simp add: fe_ok_def ext_end_def)

lemma remove_free_extent_list_split:
  "remove_free_extent_list (P @ e # Q) (length P) = P @ Q"
  by (simp add: remove_free_extent_list_def)

lemma fe_inv_remove: "fe_inv sparse lim (P @ e # Q) \<Longrightarrow> fe_inv sparse lim (P @ Q)"
  by (auto simp: fe_inv_append fe_inv_Cons)

lemma fe_inv_take:
  "sorted_wrt (\<lambda>e f. fe_before sparse e f \<and> apart e f) xs \<Longrightarrow> \<forall>e\<in>set xs. fe_ok lim e \<Longrightarrow> fe_inv sparse lim (take 10 xs)"
  by (auto simp: fe_inv_def sorted_wrt_take dest: in_set_takeD)

text \<open>Inserting an extent that is apart from the others.\<close>

lemma add_list_split:
  assumes inv: "fe_inv sparse lim es"
  obtains A D where "es = A @ D" "length (takeWhile (free_ext_before sparse s n) es) = length A"
    "\<forall>e\<in>set A. fe_before sparse e (extent s n)" "\<forall>e\<in>set D. fe_before sparse (extent s n) e"
proof
  let ?B = "free_ext_before sparse s n"
  show "es = takeWhile ?B es @ dropWhile ?B es" by simp
  show "\<forall>e\<in>set (takeWhile ?B es). fe_before sparse e (extent s n)"
    by (auto simp: free_ext_before_def fe_before_def split: if_splits dest: set_takeWhileD)
  show "\<forall>e\<in>set (dropWhile ?B es). fe_before sparse (extent s n) e"
    using inv
  proof (induction es)
    case (Cons x es)
    show ?case
    proof (cases "?B x")
      case False
      then have "fe_before sparse (extent s n) x" by (auto simp: free_ext_before_def fe_before_def split: if_splits)
      with False Cons.prems show ?thesis by (auto simp: fe_inv_Cons intro: fe_before_trans)
    qed (use Cons in \<open>simp add: fe_inv_Cons\<close>)
  qed simp
qed simp

lemma add_free_extent_list_ok:
  assumes inv: "fe_inv sparse lim es" and new: "fe_ok lim (extent s n)" "\<forall>e\<in>set es. apart (extent s n) e"
    and run: "add_free_extent_list sparse es s n = (k, es')"
  shows "fe_inv sparse lim es'" "set es' \<subseteq> insert (extent s n) (set es)"
    "length es < kMaxFreeExtents \<Longrightarrow> set es' = insert (extent s n) (set es) \<and> length es' = Suc (length es)"
    "length es < kMaxFreeExtents \<Longrightarrow> k \<le> length es \<and> es' = take k es @ extent s n # drop k es"
proof -
  obtain A D where es: "es = A @ D" and k: "length (takeWhile (free_ext_before sparse s n) es) = length A"
    and A: "\<forall>e\<in>set A. fe_before sparse e (extent s n)" and D: "\<forall>e\<in>set D. fe_before sparse (extent s n) e"
    using add_list_split [OF inv, of s n] by metis
  let ?new = "A @ extent s n # D"
  have srt: "sorted_wrt (\<lambda>e f. fe_before sparse e f \<and> apart e f) ?new"
    using inv A D new by (auto simp: fe_inv_def es sorted_wrt_append apart_sym)
  have okn: "\<forall>e\<in>set ?new. fe_ok lim e" using inv new by (auto simp: fe_inv_def es)
  have t: "fe_inv sparse lim (take 10 ?new)"
    by (rule fe_inv_take [OF srt okn])
  have cases: "k = length A" "es' = (if length A = 10 then es else take 10 ?new)"
    using run unfolding add_free_extent_list_def Let_def k by (auto simp: es split: if_splits)
  show "fe_inv sparse lim es'" using cases t inv by simp
  have "set (take 10 ?new) \<subseteq> set ?new" by (rule set_take_subset)
  then show "set es' \<subseteq> insert (extent s n) (set es)" using cases by (auto simp: es split: if_splits)
  assume "length es < kMaxFreeExtents"
  then have "es' = ?new" using cases by (simp add: es)
  with cases \<open>length es < kMaxFreeExtents\<close>
  show "set es' = insert (extent s n) (set es) \<and> length es' = Suc (length es)"
    "k \<le> length es \<and> es' = take k es @ extent s n # drop k es"
    by (auto simp: es)
qed

subsection \<open>Removing a range from the cache\<close>

definition removes :: "bool \<Rightarrow> int \<Rightarrow> int \<Rightarrow> int \<Rightarrow> HFSPlusExtentRecord \<Rightarrow> HFSPlusExtentRecord \<Rightarrow> bool" where
  "removes sparse lim a b es r \<longleftrightarrow> fe_inv sparse lim r \<and> fe_blocks r \<subseteq> fe_blocks es - {a..<b} \<and>
     (length es < kMaxFreeExtents \<longrightarrow> fe_blocks r = fe_blocks es - {a..<b})"

lemma outside_ok:
  "fe_ok lim e \<Longrightarrow> lim < 2 ^ 32 \<Longrightarrow> 0 \<le> a \<Longrightarrow> a < 2 ^ 32 \<Longrightarrow>
     outside a b e \<longleftrightarrow> startBlock e + blockCount e \<le> a \<or> b \<le> startBlock e"
  by (auto simp: outside_def ext_end_ok)

lemma outside_blocks:
  assumes "\<forall>e\<in>set es. fe_ok lim e \<and> outside a b e" "lim < 2 ^ 32" "0 \<le> a" "a < 2 ^ 32"
  shows "fe_blocks es \<inter> {a..<b} = {}"
  using assms by (fastforce simp: fe_blocks_def ext_blocks_def outside_ok)

lemma removes_drop:
  assumes "removes sparse lim a b (P @ Q) r" "ext_blocks e \<subseteq> {a..<b}" "length (P @ e # Q) \<le> kMaxFreeExtents"
  shows "removes sparse lim a b (P @ e # Q) r"
  using assms by (auto simp: removes_def)

lemma removes_replace:
  assumes "removes sparse lim a b es2 r" "set es2 = insert p (set (P @ Q))" "length es2 = length (P @ e # Q)"
    "ext_blocks p = ext_blocks e - {a..<b}"
  shows "removes sparse lim a b (P @ e # Q) r"
proof -
  have "fe_blocks es2 = ext_blocks p \<union> fe_blocks (P @ Q)" using assms(2) by (simp add: fe_blocks_def)
  then have "fe_blocks es2 - {a..<b} = fe_blocks (P @ e # Q) - {a..<b}" using assms(4) by auto
  then show ?thesis using assms(1,3) by (simp add: removes_def)
qed

text \<open>What a piece of an extent inherits from it.\<close>

lemma piece_ok:
  assumes "fe_inv sparse lim (P @ e # Q)" "startBlock e \<le> s" "0 < n" "s + n \<le> startBlock e + blockCount e"
  shows "fe_ok lim (extent s n)" "\<forall>f\<in>set (P @ Q). apart (extent s n) f"
  using assms by (force simp: fe_inv_append fe_inv_Cons fe_ok_def apart_def)+

lemma remove_split_ok:
  assumes inv: "fe_inv sparse lim (P @ e # Q)" and lim: "lim < 2 ^ 32"
    and in_e: "startBlock e < a" "b < startBlock e + blockCount e" and ab: "a < b"
  defines "s1 \<equiv> snd (add_free_extent_list sparse (P @ Q) (startBlock e) (a - startBlock e))"
  defines "r \<equiv> snd (add_free_extent_list sparse s1 b (startBlock e + blockCount e - b))"
  shows "removes sparse lim a b (P @ e # Q) r"
proof -
  let ?h = "extent (startBlock e) (a - startBlock e)" and ?t = "extent b (startBlock e + blockCount e - b)"
  have len: "length (P @ Q) < 10" using inv by (simp add: fe_inv_append fe_inv_Cons)
  note inv' = fe_inv_remove [OF inv]
  have h: "fe_ok lim ?h" "\<forall>f\<in>set (P @ Q). apart ?h f" by (rule piece_ok [OF inv]; use in_e ab in simp)+
  have t: "fe_ok lim ?t" "\<forall>f\<in>set (P @ Q). apart ?t f" by (rule piece_ok [OF inv]; use in_e ab in simp)+
  note one = add_free_extent_list_ok [OF inv' h prod.collapse [symmetric]]
  have s1: "fe_inv sparse lim s1" "set s1 = insert ?h (set (P @ Q))" "length s1 = Suc (length (P @ Q))"
    using one(1) one(3) [OF len] by (simp_all add: s1_def)
  have "\<forall>f\<in>set s1. apart ?t f" using t(2) s1(2) ab by (auto simp: apart_def)
  note two = add_free_extent_list_ok [OF s1(1) t(1) this prod.collapse [symmetric]]
  have disj: "fe_blocks (P @ Q) \<inter> {a..<b} = {}"
    using inv in_e ab by (fastforce simp: fe_inv_append fe_inv_Cons fe_blocks_def ext_blocks_def apart_def)
  have pieces: "ext_blocks ?h \<union> ext_blocks ?t = ext_blocks e - {a..<b}" using in_e ab by (auto simp: ext_blocks_def)
  have all: "ext_blocks ?t \<union> fe_blocks s1 = fe_blocks (P @ e # Q) - {a..<b}"
    using pieces disj s1(2) by (auto simp: fe_blocks_def)
  show ?thesis unfolding removes_def
  proof (intro conjI impI)
    show "fe_inv sparse lim r" using two(1) by (simp add: r_def)
    have "fe_blocks r \<subseteq> ext_blocks ?t \<union> fe_blocks s1"
      using two(2) by (auto simp: r_def fe_blocks_def)
    then show "fe_blocks r \<subseteq> fe_blocks (P @ e # Q) - {a..<b}" using all by simp
    assume "length (P @ e # Q) < 10"
    then have "set r = insert ?t (set s1)" using two(3) s1(3) by (simp add: r_def)
    then show "fe_blocks r = fe_blocks (P @ e # Q) - {a..<b}" using all by (simp add: fe_blocks_def)
  qed
qed

lemma replace_step:
  assumes inv: "fe_inv sparse lim (P @ e # Q)" and seen: "\<forall>j<length P. outside a b (P ! j)"
    and p: "startBlock e \<le> s" "0 < n" "s + n \<le> startBlock e + blockCount e" "outside a b (extent s n)"
    and run: "add_free_extent_list sparse (P @ Q) s n = (k, es2)"
  shows "fe_inv sparse lim es2" "set es2 = insert (extent s n) (set (P @ Q))" "length es2 = length (P @ e # Q)"
    "\<forall>j<(if k > length P then length P else length P + 1). j < length es2 \<longrightarrow> outside a b (es2 ! j)"
proof -
  note inv' = fe_inv_remove [OF inv]
  have len: "length (P @ Q) < 10" using inv by (simp add: fe_inv_append fe_inv_Cons)
  note ok = add_free_extent_list_ok [OF inv' piece_ok [OF inv p(1-3)] run]
  show "fe_inv sparse lim es2" by (rule ok(1))
  show "set es2 = insert (extent s n) (set (P @ Q))" "length es2 = length (P @ e # Q)" using ok(3) [OF len] by simp_all
  have k: "k \<le> length (P @ Q)" and es2: "es2 = take k (P @ Q) @ extent s n # drop k (P @ Q)" using ok(4) [OF len] by simp_all
  have nth: "es2 ! j = (if j < k then (P @ Q) ! j else if j = k then extent s n else (P @ Q) ! (j - 1))" if "j < length es2" for j
    using k that unfolding es2 by (auto simp: nth_append min_def nth_Cons' simp del: append_assoc take_append drop_append)
  show "\<forall>j<(if k > length P then length P else length P + 1). j < length es2 \<longrightarrow> outside a b (es2 ! j)"
  proof (intro allI impI)
    fix j assume j: "j < (if k > length P then length P else length P + 1)" "j < length es2"
    consider "j < k" "j < length P" | "j = k" | "k < j" "j - 1 < length P" using j by (auto split: if_splits) linarith+
    then show "outside a b (es2 ! j)" using nth [OF j(2)] seen p(4) by cases (auto simp: nth_append)
  qed
qed

lemma remove_loop_ok:
  "lim < 2 ^ 32 \<Longrightarrow> 0 \<le> a \<Longrightarrow> a < b \<Longrightarrow> b < 2 ^ 32 \<Longrightarrow> fe_inv sparse lim es \<Longrightarrow>
     \<forall>j<i. j < length es \<longrightarrow> outside a b (es ! j) \<Longrightarrow>
     removes sparse lim a b es (remove_free_extent_loop sparse a b i es)"
proof (induction sparse a b i es rule: remove_free_extent_loop.induct [case_names loop])
  case (loop sparse a b i es)
  note lim = loop.prems(1) and ab = loop.prems(2-4) and inv = loop.prems(5) and seen = loop.prems(6)
  have a32: "a < 2 ^ 32" using ab by simp
  show ?case
  proof (cases "i < length es")
    case False
    then have "\<forall>e\<in>set es. outside a b e" using seen by (auto simp: in_set_conv_nth)
    then have "fe_blocks es \<inter> {a..<b} = {}"
      using outside_blocks [of es lim a b] fe_inv_mem [OF inv] lim ab a32 by blast
    then show ?thesis using False inv by (subst remove_free_extent_loop.simps) (auto simp: removes_def)
  next
    case True
    define e where "e = es ! i"
    obtain P Q where es: "es = P @ e # Q" and i: "i = length P"
      using True id_take_nth_drop [of i es] by (metis e_def length_take min.absorb4)
    have e: "fe_ok lim e" using fe_inv_mem [OF inv] es by simp
    have z: "ext_end e = startBlock e + blockCount e" by (rule ext_end_ok [OF e lim])
    have out: "outside a b e \<longleftrightarrow> ext_end e \<le> a \<or> b \<le> startBlock e" using outside_ok [OF e lim ab(1) a32] z by simp
    have rm: "remove_free_extent_list es i = P @ Q" unfolding es i by (rule remove_free_extent_list_split)
    note inv' = fe_inv_remove [OF inv [unfolded es]]
    have len: "length (P @ Q) < 10" using inv by (simp add: es fe_inv_append fe_inv_Cons)
    have seenP: "\<forall>j<i. outside a b (P ! j)" using seen by (auto simp: es i nth_append)
    show ?thesis
    proof (cases "outside a b e")
      case True
      then show ?thesis
        using loop.IH(1) [OF _ e_def refl refl] \<open>i < length es\<close> loop.prems
        by (subst remove_free_extent_loop.simps) (auto simp: Let_def e_def [symmetric] less_Suc_eq)
    next
      case no: False
      then have cut: "a < ext_end e" "startBlock e < b" using out by auto
      consider "a \<le> startBlock e \<and> ext_end e \<le> b" | "startBlock e < a \<and> b < ext_end e"
        | "startBlock e < a \<and> ext_end e \<le> b" | "a \<le> startBlock e \<and> b < ext_end e" by linarith
      then show ?thesis
      proof cases
        case 1
        have "removes sparse lim a b (P @ Q) (remove_free_extent_loop sparse a b i (P @ Q))"
          using loop.IH(2) [OF _ e_def refl refl] True no 1 loop.prems inv' seenP rm by (auto simp: i nth_append)
        moreover have "ext_blocks e \<subseteq> {a..<b}" using 1 z by (auto simp: ext_blocks_def)
        ultimately have "removes sparse lim a b es (remove_free_extent_loop sparse a b i (P @ Q))"
          unfolding es using inv by (intro removes_drop) (auto simp: es fe_inv_def)
        then show ?thesis using True no 1
          by (subst remove_free_extent_loop.simps) (simp add: Let_def e_def [symmetric] rm)
      next
        case 2
        have u: "u32 (a - startBlock e) = a - startBlock e" "u32 (startBlock e + blockCount e - b) = startBlock e + blockCount e - b"
          using 2 ab e lim z by (auto simp: fe_ok_def)
        show ?thesis
          using remove_split_ok [OF inv [unfolded es] lim _ _ ab(2)] True no 2
          by (subst remove_free_extent_loop.simps) (simp add: Let_def e_def [symmetric] rm u z es [symmetric])
      next
        case 3
        have u: "u32 (a - startBlock e) = a - startBlock e" using 3 ab e lim by (auto simp: fe_ok_def)
        obtain k es2 where add: "add_free_extent_list sparse (P @ Q) (startBlock e) (a - startBlock e) = (k, es2)" by fastforce
        have "outside a b (extent (startBlock e) (a - startBlock e))" using outside_pieces(1) [of a b "startBlock e"] u by simp
        note st = replace_step [OF inv [unfolded es] seenP [unfolded i] order_refl _ _ this add]
        have "removes sparse lim a b es2 (remove_free_extent_loop sparse a b (if k > i then i else i + 1) es2)"
          using loop.IH(3) [OF _ e_def refl refl _ _ _ rm [symmetric]] True no 3 loop.prems st add u z cut by (simp add: i)
        then have "removes sparse lim a b es (remove_free_extent_loop sparse a b (if k > i then i else i + 1) es2)"
          unfolding es using 3 z cut by (intro removes_replace [OF _ st(2,3)]) (auto simp: ext_blocks_def)
        then show ?thesis using True no 3
          by (subst remove_free_extent_loop.simps) (simp add: Let_def e_def [symmetric] rm u add)
      next
        case 4
        have u: "u32 (ext_end e - b) = ext_end e - b" using 4 ab e lim z by (auto simp: fe_ok_def)
        obtain k es2 where add: "add_free_extent_list sparse (P @ Q) b (ext_end e - b) = (k, es2)" by fastforce
        note st = replace_step [OF inv [unfolded es] seenP [unfolded i] _ _ _ outside_pieces(2) add]
        have "removes sparse lim a b es2 (remove_free_extent_loop sparse a b (if k > i then i else i + 1) es2)"
          using loop.IH(3) [OF _ e_def refl refl _ _ _ rm [symmetric]] True no 4 loop.prems st add u z cut by (simp add: i)
        then have "removes sparse lim a b es (remove_free_extent_loop sparse a b (if k > i then i else i + 1) es2)"
          unfolding es using 4 z cut by (intro removes_replace [OF _ st(2,3)]) (auto simp: ext_blocks_def)
        then show ?thesis using True no 4
          by (subst remove_free_extent_loop.simps) (simp add: Let_def e_def [symmetric] rm u add)
      qed
    qed
  qed
qed

subsection \<open>Adding a range to the cache\<close>

lemma add_loop_ok:
  "lim < 2 ^ 32 \<Longrightarrow> 0 \<le> s \<Longrightarrow> s < z \<Longrightarrow> z \<le> lim \<Longrightarrow> fe_inv sparse lim es \<Longrightarrow>
     \<forall>j<i. j < length es \<longrightarrow> apart (extent s (z - s)) (es ! j) \<Longrightarrow>
     add_free_extent_loop s z i es = (s', z', es') \<Longrightarrow>
     fe_inv sparse lim es' \<and> 0 \<le> s' \<and> s' < z' \<and> z' \<le> lim \<and> length es' \<le> length es \<and>
     fe_blocks es' \<union> {s'..<z'} = fe_blocks es \<union> {s..<z} \<and> (\<forall>e\<in>set es'. apart (extent s' (z' - s')) e)"
proof (induction s z i es rule: add_free_extent_loop.induct [case_names loop])
  case (loop s z i es)
  note lim = loop.prems(1) and sz = loop.prems(2-4) and inv = loop.prems(5) and seen = loop.prems(6) and run = loop.prems(7)
  show ?case
  proof (cases "i < length es")
    case False
    then have "s' = s" "z' = z" "es' = es" using run by (simp_all add: add_free_extent_loop.simps)
    moreover have "\<forall>e\<in>set es. apart (extent s (z - s)) e" using seen False by (auto simp: in_set_conv_nth)
    ultimately show ?thesis using inv sz by simp
  next
    case True
    define e where "e = es ! i"
    obtain P Q where es: "es = P @ e # Q" and i: "i = length P"
      using True id_take_nth_drop [of i es] by (metis e_def length_take min.absorb4)
    have e: "fe_ok lim e" using fe_inv_mem [OF inv] es by simp
    have ze: "ext_end e = startBlock e + blockCount e" by (rule ext_end_ok [OF e lim])
    show ?thesis
    proof (cases "startBlock e > z \<or> ext_end e < s")
      case True
      then have "\<forall>j<i + 1. j < length es \<longrightarrow> apart (extent s (z - s)) (es ! j)"
        using seen ze by (auto simp: less_Suc_eq e_def [symmetric] apart_def)
      then show ?thesis
        using loop.IH(1) [OF _ e_def refl] True \<open>i < length es\<close> loop.prems(1-5) run
        by (subst (asm) (2) add_free_extent_loop.simps) (auto simp: Let_def e_def [symmetric])
    next
      case False
      define s1 where "s1 = (if startBlock e < s then startBlock e else s)"
      define z1 where "z1 = (if ext_end e > z then ext_end e else z)"
      have rm: "remove_free_extent_list es i = P @ Q" unfolding es i by (rule remove_free_extent_list_split)
      have b: "0 \<le> s1" "s1 < z1" "z1 \<le> lim" using sz e ze by (auto simp: s1_def z1_def fe_ok_def)
      have hull: "{s1..<z1} = ext_blocks e \<union> {s..<z}" using False sz e ze
        by (auto simp: s1_def z1_def ext_blocks_def fe_ok_def)
      have seen1: "\<forall>j<i. j < length (P @ Q) \<longrightarrow> apart (extent s1 (z1 - s1)) ((P @ Q) ! j)"
      proof (intro allI impI)
        fix j assume j: "j < i" "j < length (P @ Q)"
        then have f: "(P @ Q) ! j \<in> set P" "(P @ Q) ! j = es ! j" by (auto simp: i es nth_append)
        have "apart (extent s (z - s)) (es ! j)" using seen j i by (simp add: es)
        moreover have "apart ((P @ Q) ! j) e" using inv f(1) by (auto simp: es fe_inv_append)
        ultimately show "apart (extent s1 (z1 - s1)) ((P @ Q) ! j)"
          using f False ze sz e fe_inv_mem [OF inv, of "es ! j"] j i
          by (auto simp: apart_def s1_def z1_def es fe_ok_def)
      qed
      have "add_free_extent_loop s1 z1 i (P @ Q) = (s', z', es')"
        using run True False by (subst (asm) add_free_extent_loop.simps) (simp add: Let_def e_def [symmetric] rm s1_def z1_def)
      with loop.IH(2) [OF _ e_def refl] True False b lim fe_inv_remove [OF inv [unfolded es]] seen1
      have "fe_inv sparse lim es' \<and> 0 \<le> s' \<and> s' < z' \<and> z' \<le> lim \<and> length es' \<le> length (P @ Q) \<and>
          fe_blocks es' \<union> {s'..<z'} = fe_blocks (P @ Q) \<union> {s1..<z1} \<and> (\<forall>e\<in>set es'. apart (extent s' (z' - s')) e)"
        by (simp add: rm s1_def [symmetric] z1_def [symmetric])
      then show ?thesis using hull by (auto simp: es)
    qed
  qed
qed

section \<open>Properties of the free extent cache\<close>

definition block_range :: "int \<Rightarrow> int \<Rightarrow> bool" where
  "block_range a n \<longleftrightarrow> 0 \<le> a \<and> 0 < n \<and> a + n < 2 ^ 32"

definition free_ext_inv :: "hfsmount \<Rightarrow> bool" where
  "free_ext_inv h \<longleftrightarrow> allocLimit h < 2 ^ 32 \<and> fe_inv (sparse_device h) (allocLimit h) (vcbFreeExt h)"

definition cached_blocks :: "hfsmount \<Rightarrow> int set" where
  "cached_blocks h = fe_blocks (vcbFreeExt h)"

lemma remove_free_extent_cache_ok:
  assumes "free_ext_inv h" "block_range a n"
  shows "removes (sparse_device h) (allocLimit h) a (a + n) (vcbFreeExt h) (vcbFreeExt (remove_free_extent_cache h a n))"
    "sparse_device (remove_free_extent_cache h a n) = sparse_device h"
    "allocLimit (remove_free_extent_cache h a n) = allocLimit h"
proof -
  have "u32 (a + n) = a + n" using assms(2) by (simp add: block_range_def)
  then show "removes (sparse_device h) (allocLimit h) a (a + n) (vcbFreeExt h) (vcbFreeExt (remove_free_extent_cache h a n))"
    using assms remove_loop_ok [of "allocLimit h" a "a + n" "sparse_device h" "vcbFreeExt h" 0]
    by (simp add: remove_free_extent_cache_def free_ext_inv_def block_range_def)
qed (simp_all add: remove_free_extent_cache_def sparse_device_def)

lemma add_free_extent_cache_ok:
  assumes inv: "free_ext_inv h" and a: "block_range a n" and run: "add_free_extent_cache h a n = Some (r, h')"
  shows "free_ext_inv h' \<and> cached_blocks h' \<subseteq> cached_blocks h \<union> {a..<min (a + n) (allocLimit h)} \<and>
    (length (vcbFreeExt h) < kMaxFreeExtents \<longrightarrow> cached_blocks h' = cached_blocks h \<union> {a..<min (a + n) (allocLimit h)})"
proof (cases "a \<ge> allocLimit h")
  case True
  then show ?thesis using run inv by (auto simp: add_free_extent_cache_def split: if_splits)
next
  case False
  let ?sp = "sparse_device h" and ?lim = "allocLimit h" and ?z = "min (a + n) (allocLimit h)"
  have u: "u32 (a + n) = a + n" using a by (simp add: block_range_def)
  have u2: "u32 (?lim - a) = ?lim - a" using False a inv by (simp add: block_range_def free_ext_inv_def)
  have stop: "u32 (a + (if u32 (a + n) > ?lim then u32 (?lim - a) else n)) = ?z"
    using u u2 inv False a by (auto simp: free_ext_inv_def block_range_def min_def)
  obtain s z es where lp: "add_free_extent_loop a ?z 0 (vcbFreeExt h) = (s, z, es)" by (metis prod_cases3)
  have ok: "fe_inv ?sp ?lim es \<and> 0 \<le> s \<and> s < z \<and> z \<le> ?lim \<and> length es \<le> length (vcbFreeExt h) \<and>
      fe_blocks es \<union> {s..<z} = fe_blocks (vcbFreeExt h) \<union> {a..<?z} \<and> (\<forall>e\<in>set es. apart (extent s (z - s)) e)"
    using add_loop_ok [OF _ _ _ _ _ _ lp, of ?lim ?sp] inv a False by (auto simp: free_ext_inv_def block_range_def)
  have uz: "u32 (z - s) = z - s" using ok inv by (simp add: free_ext_inv_def)
  have h': "h' = h\<lparr>vcbFreeExt := snd (add_free_extent_list ?sp es s (z - s))\<rparr>"
    using run False unfolding add_free_extent_cache_def Let_def stop lp by (auto simp: uz split: if_splits)
  have new: "fe_ok ?lim (extent s (z - s))" using ok by (simp add: fe_ok_def)
  note add = add_free_extent_list_ok [OF conjunct1 [OF ok] new _ prod.collapse [symmetric]]
  have ap: "\<forall>e\<in>set es. apart (extent s (z - s)) e" using ok by simp
  have nb: "ext_blocks (extent s (z - s)) = {s..<z}" by (simp add: ext_blocks_def)
  have hull: "fe_blocks es \<union> {s..<z} = cached_blocks h \<union> {a..<?z}" using ok by (simp add: cached_blocks_def)
  have "free_ext_inv h'" using add(1) [OF ap] inv by (simp add: free_ext_inv_def h' sparse_device_def)
  moreover have "cached_blocks h' \<subseteq> {s..<z} \<union> fe_blocks es"
    using add(2) [OF ap] nb by (fastforce simp: cached_blocks_def h' fe_blocks_def)
  moreover have "cached_blocks h' = {s..<z} \<union> fe_blocks es" if "length (vcbFreeExt h) < 10"
  proof -
    have "set (snd (add_free_extent_list ?sp es s (z - s))) = insert (extent s (z - s)) (set es)"
      using add(3) [OF ap] ok that by simp
    then show ?thesis using nb by (simp add: cached_blocks_def h' fe_blocks_def)
  qed
  ultimately show ?thesis using hull by (simp add: Un_commute)
qed

text \<open>The free extent cache as an instance of the contract of the lists of free extents.\<close>

definition cache_add :: "hfsmount \<Rightarrow> int \<Rightarrow> int \<Rightarrow> hfsmount" where
  "cache_add h a n = (case add_free_extent_cache h a n of None \<Rightarrow> h | Some (_, h') \<Rightarrow> h')"

interpretation free_ext: extent_cache cached_blocks free_ext_inv block_range cache_add remove_free_extent_cache
proof
  fix h a n assume h: "free_ext_inv h" "block_range a n"
  show "free_ext_inv (cache_add h a n)"
    using add_free_extent_cache_ok [OF h] h by (auto simp: cache_add_def split: option.split)
  show "cached_blocks (cache_add h a n) \<subseteq> cached_blocks h \<union> {a..<a + n}"
  proof (cases "add_free_extent_cache h a n")
    case (Some p)
    then have "cached_blocks (snd p) \<subseteq> cached_blocks h \<union> {a..<min (a + n) (allocLimit h)}"
      using add_free_extent_cache_ok [OF h, of "fst p" "snd p"] by simp
    also have "\<dots> \<subseteq> cached_blocks h \<union> {a..<a + n}" by auto
    finally show ?thesis using Some by (simp add: cache_add_def split_beta)
  qed (auto simp: cache_add_def)
  show "free_ext_inv (remove_free_extent_cache h a n)"
    "cached_blocks (remove_free_extent_cache h a n) \<subseteq> cached_blocks h - {a..<a + n}"
    using remove_free_extent_cache_ok [OF h] h(1) by (auto simp: free_ext_inv_def removes_def cached_blocks_def)
qed

text \<open>C37: Through any history of frees and allocations of block ranges, the free extent cache keeps its invariant (at most ten
  extents, not empty, below the allocation limit, pairwise neither overlapping nor contiguous, in order) and
  never offers a block that is in use at the end of it.
\<close>

theorem free_ext_history_sound:
  assumes "free_ext_inv h" "cached_blocks h \<subseteq> F" "\<forall>oper\<in>set ops. case_prod block_range (op_range oper)"
  shows "free_ext_inv (fold (list_after cache_add remove_free_extent_cache) ops h) \<and>
     cached_blocks (fold (list_after cache_add remove_free_extent_cache) ops h) \<subseteq> fold free_after ops F"
  by (rule free_ext.history_sound [OF assms])

definition ex_mount :: hfsmount where
  "ex_mount = \<lparr>vcbSigWord = 0x482B, blockSize = 4096, hfs_logical_block_size = 512, hfsPlusIOPosOffset = 0, vcbAlBlSt = 0,
     vcbClpSiz = 4096, freeBlocks = 60, reserveBlocks = 0, loanedBlocks = 0, lockedBlocks = 0, nextAllocation = 20,
     hfs_flags = 0, hfs_metazone_start = 0, hfs_metazone_end = 0, hfs_header_dirty = False,
     vcbVBMIOSize = 8, totalBlocks = 120, allocLimit = 120, sparseAllocation = 0, hfs_freed_block_count = 0,
     tentativeBlocks = 0, tentative_ranges = [], locked_ranges = [], next_reservation = 0,
     vcbFreeExt = [extent 30 20, extent 60 10], hfs_logical_bytes = 491520, hfs_summary_table = [], hfs_summary_size = 0,
     hfs_summary_bytes = 0, alloc_c_blocks = 1, jnl = None,
     allocation_file = [255, 255, 255, 252, 0, 0, 63, 240, 0, 127, 255, 255, 255, 255, 255, 255], bread_err = (\<lambda>_. 0),
     bitmap_dirtied = [], unmap_requests = [], vol_inconsistent = False\<rparr>"

lemma ex_mount_cache: "free_ext_inv ex_mount" "cached_blocks ex_mount = {30..<50} \<union> {60..<70}"
  by (auto simp: free_ext_inv_def fe_inv_def fe_ok_def fe_before_def apart_def cached_blocks_def ext_blocks_def
      ex_mount_def sparse_device_def ISSET_def)

theorem free_ext_history_sound_witness:
  "cached_blocks (fold (list_after cache_add remove_free_extent_cache) [Allocated 40 25, Freed 70 4] ex_mount)
     \<subseteq> ({30..<50} \<union> {60..<70}) - {40..<65} \<union> {70..<74}"
  using free_ext_history_sound [OF ex_mount_cache(1) order_refl, of "[Allocated 40 25, Freed 70 4]"]
  by (simp add: block_range_def ex_mount_cache(2))

text \<open>After an allocation none of its blocks is left in the free extent cache, and while the cache has room every other
  block stays in it: extents are dropped, shortened at either end or split as the overlap requires.
\<close>

theorem remove_free_extent_cache_correct:
  assumes "free_ext_inv h" "block_range a n"
  defines "h' \<equiv> remove_free_extent_cache h a n"
  shows "free_ext_inv h' \<and> cached_blocks h' \<subseteq> cached_blocks h - {a..<a + n} \<and>
    (length (vcbFreeExt h) < kMaxFreeExtents \<longrightarrow> cached_blocks h' = cached_blocks h - {a..<a + n})"
  using remove_free_extent_cache_ok [OF assms(1,2)] assms(1)
  by (simp add: h'_def free_ext_inv_def removes_def cached_blocks_def)

theorem remove_free_extent_cache_correct_witness:
  "cached_blocks (remove_free_extent_cache ex_mount 35 30) = ({30..<50} \<union> {60..<70}) - {35..<35 + 30}"
  using remove_free_extent_cache_correct [OF ex_mount_cache(1), of 35 30]
  by (simp add: block_range_def ex_mount_cache(2)) (simp add: ex_mount_def)

text \<open>A freed range enters the cache merged with what it touches and clipped to the allocation limit.  The routine
  then returns false, although its description promises true for an extent that was added.
\<close>

theorem add_free_extent_cache_correct:
  assumes "free_ext_inv h" "block_range a n" "add_free_extent_cache h a n = Some (r, h')"
  shows "free_ext_inv h' \<and> \<not> r \<and> cached_blocks h' \<subseteq> cached_blocks h \<union> {a..<min (a + n) (allocLimit h)} \<and>
    (length (vcbFreeExt h) < kMaxFreeExtents \<longrightarrow> cached_blocks h' = cached_blocks h \<union> {a..<min (a + n) (allocLimit h)})"
proof -
  have "\<not> r" using assms(3) by (auto simp: add_free_extent_cache_def Let_def split: if_splits prod.splits)
  then show ?thesis using add_free_extent_cache_ok [OF assms] by simp
qed

theorem add_free_extent_cache_correct_witness:
  "cached_blocks (ex_mount\<lparr>vcbFreeExt := [extent 30 40]\<rparr>) = {30..<50} \<union> {60..<70} \<union> {45..<61}"
proof -
  have "add_free_extent_cache ex_mount 45 16 = Some (False, ex_mount\<lparr>vcbFreeExt := [extent 30 40]\<rparr>)"
    by (simp add: add_free_extent_cache_def ex_mount_def add_free_extent_loop.simps ext_end_def remove_free_extent_list_def
        add_free_extent_list_def sparse_device_def ISSET_def)
  from add_free_extent_cache_correct [OF ex_mount_cache(1) _ this] show ?thesis
    by (simp add: block_range_def ex_mount_cache(2)) (simp add: ex_mount_def)
qed

text \<open>\<open>hfs_trim_callback\<close> converts byte offsets to block numbers after cutting them to 32 bits: when the journal
  reports that block \<open>2 ^ 20\<close> (of 4096 bytes) was freed, it is block 0 that enters the free extent cache.
\<close>

theorem hfs_trim_callback_truncates:
  "map_option vcbFreeExt (hfs_trim_callback (ex_mount\<lparr>allocLimit := 2 ^ 21, totalBlocks := 2 ^ 21, vcbFreeExt := []\<rparr>)
       [dk_extent (2 ^ 20 * 4096) 4096]) = Some [extent 0 1]"
  by (simp add: add_free_extent_cache_def ex_mount_def add_free_extent_loop.simps u32_def
      add_free_extent_list_def sparse_device_def ISSET_def)

end
