(* ===== verification/VolumeBitmap.thy ===== *)
theory VolumeBitmap
  imports FreeExtents
begin

text \<open>
  The volume bitmap of \<open>src/kmod/core/VolumeAllocation.c\<close>: one bit per allocation block, the most significant bit of a byte first,
  kept in the allocation file and read in pieces of \<open>vcbVBMIOSize\<close> bytes.  This theory models reading a piece
  (with the reservations of the volume applied to the copy), marking a range of blocks allocated or free, and
  counting the allocated blocks of a range.

  A buffer is a copy of a piece of the file that \<open>ReleaseBitmapBlock\<close> writes back when it is dirty.  Words are 32-bit values of
  the little-endian host; \<^const>\<open>SWAP_BE32\<close> turns them to the order of the bitmap.  A panic, a failed assertion, an
  undefined shift and an access outside of a buffer are \<^term>\<open>None\<close>.
\<close>

unbundle bit_operations_syntax

section \<open>Flags\<close>

abbreviation (input) HFS_ALLOC_FORCECONTIG :: int where "HFS_ALLOC_FORCECONTIG \<equiv> 0x001"
abbreviation (input) HFS_ALLOC_METAZONE :: int where "HFS_ALLOC_METAZONE \<equiv> 0x002"
abbreviation (input) HFS_ALLOC_SKIPFREEBLKS :: int where "HFS_ALLOC_SKIPFREEBLKS \<equiv> 0x004"
abbreviation (input) HFS_ALLOC_FLUSHTXN :: int where "HFS_ALLOC_FLUSHTXN \<equiv> 0x008"
abbreviation (input) HFS_ALLOC_TENTATIVE :: int where "HFS_ALLOC_TENTATIVE \<equiv> 0x010"
abbreviation (input) HFS_ALLOC_LOCKED :: int where "HFS_ALLOC_LOCKED \<equiv> 0x020"
abbreviation (input) HFS_ALLOC_IGNORE_TENTATIVE :: int where "HFS_ALLOC_IGNORE_TENTATIVE \<equiv> 0x040"
abbreviation (input) HFS_ALLOC_IGNORE_RESERVED :: int where "HFS_ALLOC_IGNORE_RESERVED \<equiv> 0x080"
abbreviation (input) HFS_ALLOC_USE_TENTATIVE :: int where "HFS_ALLOC_USE_TENTATIVE \<equiv> 0x100"
abbreviation (input) HFS_ALLOC_COMMIT :: int where "HFS_ALLOC_COMMIT \<equiv> 0x200"
abbreviation (input) HFS_ALLOC_TRY_HARD :: int where "HFS_ALLOC_TRY_HARD \<equiv> 0x400"
abbreviation (input) HFS_ALLOC_ROLL_BACK :: int where "HFS_ALLOC_ROLL_BACK \<equiv> 0x800"
abbreviation (input) HFS_METADATA_ZONE :: int where "HFS_METADATA_ZONE \<equiv> 0x00080"
abbreviation (input) HFS_SUMMARY_TABLE :: int where "HFS_SUMMARY_TABLE \<equiv> 0x800000"
abbreviation (input) kAllBitsSetInWord :: int where "kAllBitsSetInWord \<equiv> 0xFFFFFFFF"
abbreviation (input) kHighBitInWordMask :: int where "kHighBitInWordMask \<equiv> 0x80000000"

section \<open>Reservations\<close>

definition LEFT_MASK :: "int \<Rightarrow> int" where
  "LEFT_MASK b = SWAP_BE64 (u64 (push_bit (nat (64 - b)) 0xFFFFFFFFFFFFFFFF))"

definition RIGHT_MASK :: "int \<Rightarrow> int" where
  "RIGHT_MASK b = SWAP_BE64 (drop_bit (nat b) 0xFFFFFFFFFFFFFFFF)"

definition or64_at :: "mem \<Rightarrow> int \<Rightarrow> int \<Rightarrow> mem option" where
  "or64_at m a v = do { w \<leftarrow> rd64 m a; wr64 m a (w OR v) }"

fun fill_quads :: "mem \<Rightarrow> int \<Rightarrow> nat \<Rightarrow> mem option" where
  "fill_quads m p 0 = Some m"
| "fill_quads m p (Suc n) = do { m \<leftarrow> wr64 m p 0xFFFFFFFFFFFFFFFF; fill_quads m (p + 8) n }"

text \<open>\<open>bits_set\<close>; with start and end in one quad and \<open>end_bit\<close> 0 the mask would be shifted by 64, which is undefined.\<close>

definition bits_set :: "mem \<Rightarrow> int \<Rightarrow> int \<Rightarrow> mem option" where
  "bits_set bitmap start stop =
     (let start_bit = start mod 64; end_bit = stop mod 64; p = 8 * (start div 64)
      in if start - start_bit = stop - end_bit then
           (if end_bit = 0 then None else or64_at bitmap p (RIGHT_MASK start_bit AND LEFT_MASK end_bit))
         else do {
           bitmap \<leftarrow> or64_at bitmap p (RIGHT_MASK start_bit);
           let nquads = (stop - end_bit - start - 1) div 64;
           bitmap \<leftarrow> fill_quads bitmap (p + 8) (nat nquads);
           if end_bit \<noteq> 0 then or64_at bitmap (p + 8 + 8 * nquads) (LEFT_MASK end_bit) else Some bitmap })"

text \<open>\<open>process_reservations\<close> on the ranges of the lists that the flags select; a range that covers the whole piece ends it.\<close>

fun apply_reservations :: "mem \<Rightarrow> int \<Rightarrow> rl_entry list \<Rightarrow> mem option" where
  "apply_reservations buffer offset [] = Some buffer"
| "apply_reservations buffer offset (entry # rest) =
     (let nbits = int (length buffer) * 8;
          stop = offset + nbits - 1;
          set_from = (\<lambda>a b. let a = u32 (u32 a - offset); b = u32 (u32 b - offset) in
             if a < nbits \<and> b < nbits \<and> b \<ge> a
             then do { buffer \<leftarrow> bits_set buffer a (b + 1); apply_reservations buffer offset rest }
             else None)
      in case rl_overlap entry offset stop of
           RL_NOOVERLAP \<Rightarrow> apply_reservations buffer offset rest
         | RL_OVERLAPCONTAINSRANGE \<Rightarrow> Some (replicate (length buffer) 0xFF)
         | RL_MATCHINGOVERLAP \<Rightarrow> Some (replicate (length buffer) 0xFF)
         | RL_OVERLAPISCONTAINED \<Rightarrow> set_from (rl_start entry) (rl_end entry)
         | RL_OVERLAPSTARTSBEFORE \<Rightarrow> set_from offset (rl_end entry)
         | RL_OVERLAPENDSAFTER \<Rightarrow> set_from (rl_start entry) stop)"

definition reserved_entries :: "hfsmount \<Rightarrow> int \<Rightarrow> rl_entry list" where
  "reserved_entries hfsmp flags =
     map snd ((if ISSET flags HFS_ALLOC_IGNORE_TENTATIVE then [] else tentative_ranges hfsmp) @ locked_ranges hfsmp)"

definition process_reservations :: "hfsmount \<Rightarrow> mem \<Rightarrow> int \<Rightarrow> int \<Rightarrow> mem option" where
  "process_reservations hfsmp buffer offset flags = apply_reservations buffer offset (reserved_entries hfsmp flags)"

section \<open>Reading and releasing pieces of the bitmap\<close>

definition ReadBitmapBlock :: "hfsmount \<Rightarrow> int \<Rightarrow> int \<Rightarrow> (int + int \<times> mem) option" where
  "ReadBitmapBlock vcb blk flags =
     (let iosize = vcbVBMIOSize vcb;
          block = blk div u32 (iosize * 8);
          err = bread_err vcb block
      in if err \<noteq> 0 then Some (Inl err)
         else do {
           data \<leftarrow> rdn (allocation_file vcb) (block * iosize) iosize;
           buffer \<leftarrow> (if ISSET flags HFS_ALLOC_IGNORE_RESERVED then Some data
                      else process_reservations vcb data (block * iosize * 8) flags);
           Some (Inr (block, buffer)) })"

definition ReleaseBitmapBlock :: "hfsmount \<Rightarrow> int \<Rightarrow> mem \<Rightarrow> bool \<Rightarrow> hfsmount" where
  "ReleaseBitmapBlock vcb block buffer dirty =
     (if dirty then vcb\<lparr>allocation_file := put_bytes (allocation_file vcb) (block * vcbVBMIOSize vcb) buffer,
                        bitmap_dirtied := block # bitmap_dirtied vcb\<rparr>
      else vcb)"

text \<open>
  The position of a scan: \<open>startingBlock\<close> (moved on by the size of a piece with every piece read), the piece and its number, the index of
  the current word and the words left in the piece.
\<close>

record bitmap_cursor =
  bc_start :: int
  bc_block :: int
  bc_buffer :: mem
  bc_word :: int
  bc_left :: int

definition first_cursor :: "hfsmount \<Rightarrow> int \<Rightarrow> int \<Rightarrow> mem \<Rightarrow> bitmap_cursor" where
  "first_cursor vcb startingBlock block buffer =
     (let bitsPerBlock = u32 (vcbVBMIOSize vcb * 8);
          wordsPerBlock = vcbVBMIOSize vcb div 4;
          wordIndexInBlock = (startingBlock AND (bitsPerBlock - 1)) div 32
      in \<lparr>bc_start = startingBlock, bc_block = block, bc_buffer = buffer, bc_word = wordIndexInBlock,
          bc_left = wordsPerBlock - wordIndexInBlock\<rparr>)"

text \<open>The next piece, when the current one is used up.\<close>

definition next_cursor :: "hfsmount \<Rightarrow> int \<Rightarrow> bool \<Rightarrow> bitmap_cursor \<Rightarrow> (int \<times> hfsmount + hfsmount \<times> bitmap_cursor) option" where
  "next_cursor vcb flags dirty c =
     (if bc_left c \<noteq> 0 then Some (Inr (vcb, c))
      else let startingBlock = u32 (bc_start c + u32 (vcbVBMIOSize vcb * 8));
               vcb = ReleaseBitmapBlock vcb (bc_block c) (bc_buffer c) dirty
           in case ReadBitmapBlock vcb startingBlock flags of
                None \<Rightarrow> None
              | Some (Inl err) \<Rightarrow> Some (Inl (err, vcb))
              | Some (Inr (block, buffer)) \<Rightarrow>
                  Some (Inr (vcb, \<lparr>bc_start = startingBlock, bc_block = block, bc_buffer = buffer, bc_word = 0,
                                   bc_left = vcbVBMIOSize vcb div 4\<rparr>)))"

section \<open>Walking over the words of a range\<close>

text \<open>
  \<open>BlockMarkAllocatedInternal\<close>, \<open>BlockMarkFreeInternal\<close> and \<open>hfs_isallocated_internal\<close> walk over the words of a range in
  the same way: the first word with a mask unless the range starts at a word, then whole words, then
  the rest with a mask.  What they do with a word is the operation of the walk: from the mask and the word it
  computes the new word, the new result and whether to stop, or panics.
\<close>

type_synonym 'a word_op = "int \<Rightarrow> int \<Rightarrow> 'a \<Rightarrow> (int \<times> 'a \<times> bool) option"

text \<open>A walk ends with an error (of reading a piece; no buffer is held) or with a cursor.\<close>

datatype 'a walk = Walk_error int hfsmount 'a | Walk_done hfsmount bitmap_cursor 'a

definition walk_word :: "'a word_op \<Rightarrow> int \<Rightarrow> bitmap_cursor \<Rightarrow> 'a \<Rightarrow> (bitmap_cursor \<times> 'a \<times> bool) option" where
  "walk_word oper bitMask c acc = do {
     w \<leftarrow> rd32 (bc_buffer c) (4 * bc_word c);
     (w, acc, stop) \<leftarrow> oper (SWAP_BE32 bitMask) w acc;
     buffer \<leftarrow> wr32 (bc_buffer c) (4 * bc_word c) w;
     Some (c\<lparr>bc_buffer := buffer, bc_word := bc_word c + 1, bc_left := bc_left c - 1\<rparr>, acc, stop) }"

function walk_words :: "int \<Rightarrow> bool \<Rightarrow> 'a word_op \<Rightarrow> hfsmount \<Rightarrow> bitmap_cursor \<Rightarrow> int \<Rightarrow> 'a \<Rightarrow> ('a walk + hfsmount \<times> bitmap_cursor \<times> int \<times> 'a) option" where
  "walk_words flags dirty oper vcb c numBlocks acc =
     (if numBlocks < 32 then Some (Inr (vcb, c, numBlocks, acc))
      else case next_cursor vcb flags dirty c of
             None \<Rightarrow> None
           | Some (Inl (err, vcb)) \<Rightarrow> Some (Inl (Walk_error err vcb acc))
           | Some (Inr (vcb, c)) \<Rightarrow>
               (case walk_word oper kAllBitsSetInWord c acc of
                  None \<Rightarrow> None
                | Some (c, acc, stop) \<Rightarrow>
                    if stop then Some (Inl (Walk_done vcb c acc))
                    else walk_words flags dirty oper vcb c (numBlocks - 32) acc))"
  by pat_completeness auto
termination by (relation "measure (\<lambda>(_, _, _, _, _, n, _). nat n)") auto

declare walk_words.simps [simp del]

definition walk_rest :: "int \<Rightarrow> bool \<Rightarrow> 'a word_op \<Rightarrow> hfsmount \<Rightarrow> bitmap_cursor \<Rightarrow> int \<Rightarrow> 'a \<Rightarrow> 'a walk option" where
  "walk_rest flags dirty oper vcb c numBlocks acc =
     (if numBlocks = 0 then Some (Walk_done vcb c acc)
      else case next_cursor vcb flags dirty c of
             None \<Rightarrow> None
           | Some (Inl (err, vcb)) \<Rightarrow> Some (Walk_error err vcb acc)
           | Some (Inr (vcb, c)) \<Rightarrow>
               (case walk_word oper (kAllBitsSetInWord - drop_bit (nat numBlocks) kAllBitsSetInWord) c acc of
                  None \<Rightarrow> None
                | Some (c, acc, stop) \<Rightarrow> Some (Walk_done vcb c acc)))"

text \<open>\<open>~x\<close> of a 32-bit value is \<open>kAllBitsSetInWord - x\<close>.\<close>

definition walk_blocks :: "int \<Rightarrow> bool \<Rightarrow> 'a word_op \<Rightarrow> hfsmount \<Rightarrow> bitmap_cursor \<Rightarrow> int \<Rightarrow> 'a \<Rightarrow> 'a walk option" where
  "walk_blocks flags dirty oper vcb c numBlocks acc =
     (let firstBit = bc_start c mod 32;
          bitMask = drop_bit (nat firstBit) kAllBitsSetInWord;
          numBits = 32 - firstBit;
          (numBits, bitMask) =
            (if numBits > numBlocks
             then (numBlocks, bitMask AND (kAllBitsSetInWord - drop_bit (nat (firstBit + numBlocks)) kAllBitsSetInWord))
             else (numBits, bitMask))
      in do {
        first \<leftarrow> (if firstBit \<noteq> 0
                  then do { (c, acc, stop) \<leftarrow> walk_word oper bitMask c acc; Some (c, numBlocks - numBits, acc, stop) }
                  else Some (c, numBlocks, acc, False));
        let (c, numBlocks, acc, stop) = first;
        if stop then Some (Walk_done vcb c acc)
        else do {
          r \<leftarrow> walk_words flags dirty oper vcb c numBlocks acc;
          case r of Inl done \<Rightarrow> Some done
                  | Inr (vcb, c, numBlocks, acc) \<Rightarrow> walk_rest flags dirty oper vcb c numBlocks acc } })"

section \<open>The journal's view of blocks\<close>

text \<open>\<open>CheckUnmappedBytes\<close>: the error, and the end of the overlap when the blocks were recently freed.\<close>

definition CheckUnmappedBytes :: "hfsmount \<Rightarrow> int \<Rightarrow> int \<Rightarrow> (int \<times> int option) option" where
  "CheckUnmappedBytes hfsmp blockno numblocks =
     (case jnl hfsmp of
        None \<Rightarrow> Some (0, None)
      | Some j \<Rightarrow>
          (let device_sz = hfs_logical_bytes hfsmp;
               device_offset = u64 (u64 (blockno * blockSize hfsmp) + hfsPlusIOPosOffset hfsmp);
               numbytes = u64 (blockSize hfsmp * numblocks)
           in if device_offset \<ge> device_sz \<or> numbytes > device_sz - device_offset then Some (EINVAL, None)
              else do {
                overlap \<leftarrow> journal_trim_extent_overlap j device_offset numbytes;
                Some (0, map_option (\<lambda>lba_overlap_end.
                  u32 (u64 (lba_overlap_end - hfsPlusIOPosOffset hfsmp) div blockSize hfsmp)) overlap) }))"

definition hfs_unmap_free_extent :: "hfsmount \<Rightarrow> int \<Rightarrow> int \<Rightarrow> hfsmount option" where
  "hfs_unmap_free_extent hfsmp startingBlock numBlocks =
     (case jnl hfsmp of
        None \<Rightarrow> Some hfsmp
      | Some j \<Rightarrow>
          (let device_sz = hfs_logical_bytes hfsmp;
               offset = u64 (startingBlock * blockSize hfsmp + hfsPlusIOPosOffset hfsmp);
               len = u64 (numBlocks * blockSize hfsmp)
           in if offset \<ge> device_sz \<or> u64 (offset + len) > device_sz then Some hfsmp
              else do { (err, j) \<leftarrow> journal_trim_add_extent j offset len; Some (hfsmp\<lparr>jnl := Some j\<rparr>) }))"

definition hfs_unmap_alloc_extent :: "hfsmount \<Rightarrow> int \<Rightarrow> int \<Rightarrow> hfsmount option" where
  "hfs_unmap_alloc_extent hfsmp startingBlock numBlocks =
     (case jnl hfsmp of
        None \<Rightarrow> Some hfsmp
      | Some j \<Rightarrow>
          (let offset = u64 (startingBlock * blockSize hfsmp + hfsPlusIOPosOffset hfsmp);
               len = u64 (numBlocks * blockSize hfsmp)
           in do { (err, j) \<leftarrow> journal_trim_remove_extent j offset len; Some (hfsmp\<lparr>jnl := Some j\<rparr>) }))"

section \<open>Marking blocks allocated\<close>

definition mark_allocated_op :: "unit word_op" where
  "mark_allocated_op bitMask w acc = (if w AND bitMask \<noteq> 0 then None else Some (w OR bitMask, acc, False))"

definition request_flush :: "hfsmount \<Rightarrow> int \<Rightarrow> int \<Rightarrow> hfsmount option" where
  "request_flush hfsmp startingBlock numBlocks =
     (case jnl hfsmp of
        None \<Rightarrow> Some hfsmp
      | Some j \<Rightarrow> do {
          (err, force_flush) \<leftarrow> CheckUnmappedBytes hfsmp startingBlock numBlocks;
          Some (if err = 0 \<and> force_flush \<noteq> None
                then hfsmp\<lparr>jnl := Some (snd (journal_request_immediate_flush j))\<rparr> else hfsmp) })"

definition BlockMarkAllocatedInternal :: "hfsmount \<Rightarrow> int \<Rightarrow> int \<Rightarrow> int \<Rightarrow> (int \<times> hfsmount) option" where
  "BlockMarkAllocatedInternal vcb startingBlock numBlocks flags =
     (if (\<not> ISSET flags HFS_ALLOC_COMMIT \<or> ISSET flags HFS_ALLOC_USE_TENTATIVE) \<and>
         (\<exists>(r, rng)\<in>set (locked_ranges vcb).
            rl_overlap rng startingBlock (u32 (startingBlock + numBlocks - 1)) \<noteq> RL_NOOVERLAP) then None
      else do {
        vcb \<leftarrow> request_flush vcb startingBlock numBlocks;
        vcb \<leftarrow> hfs_unmap_alloc_extent vcb startingBlock numBlocks;
        if ISSET flags (HFS_ALLOC_LOCKED OR HFS_ALLOC_TENTATIVE) then Some (0, vcb)
        else do {
          r \<leftarrow> ReadBitmapBlock vcb startingBlock HFS_ALLOC_IGNORE_RESERVED;
          case r of Inl err \<Rightarrow> Some (err, vcb)
          | Inr (block, buffer) \<Rightarrow> do {
              w \<leftarrow> walk_blocks HFS_ALLOC_IGNORE_RESERVED True mark_allocated_op vcb
                     (first_cursor vcb startingBlock block buffer) numBlocks ();
              case w of
                Walk_error err vcb _ \<Rightarrow> Some (err, vcb)
              | Walk_done vcb c _ \<Rightarrow> Some (0, ReleaseBitmapBlock vcb (bc_block c) (bc_buffer c) True) } } })"

definition BlockMarkAllocated :: "hfsmount \<Rightarrow> int \<Rightarrow> int \<Rightarrow> (int \<times> hfsmount) option" where
  "BlockMarkAllocated vcb startingBlock numBlocks = BlockMarkAllocatedInternal vcb startingBlock numBlocks 0"

section \<open>Marking blocks free\<close>

definition mark_free_op :: "bool \<Rightarrow> unit word_op" where
  "mark_free_op do_validate bitMask w acc =
     (if do_validate \<and> w AND bitMask \<noteq> bitMask then None
      else Some (w AND (kAllBitsSetInWord - bitMask), acc, False))"

text \<open>The bounds of what may be unmapped together with the range: the nearest reservations.\<close>

fun unmap_bounds :: "int \<Rightarrow> int \<Rightarrow> rl_entry list \<Rightarrow> int \<times> int \<Rightarrow> int \<times> int" where
  "unmap_bounds startingBlock stop [] bnds = bnds"
| "unmap_bounds startingBlock stop (rng # rest) (min_unmap, max_unmap) =
     unmap_bounds startingBlock stop rest
       (if rl_start rng < startingBlock \<and> rl_end rng \<ge> min_unmap then u32 (u32 (rl_end rng) + 1) else min_unmap,
        if rl_end rng \<ge> stop \<and> rl_start rng < max_unmap then u32 (rl_start rng) else max_unmap)"

definition bitmap_bit :: "mem \<Rightarrow> nat \<Rightarrow> bool option" where
  "bitmap_bit buffer p = do {
     w \<leftarrow> rd32 buffer (4 * int (p div 32));
     Some (w AND SWAP_BE32 (drop_bit (p mod 32) kHighBitInWordMask) \<noteq> 0) }"

text \<open>
  The free blocks next to the range: before it, down to the start of its piece (\<open>p\<close> is the position in the piece), and after it, up to
  the end of the last piece (\<open>left\<close> positions are left).
\<close>

fun scan_back :: "mem \<Rightarrow> int \<Rightarrow> nat \<Rightarrow> int \<times> int \<Rightarrow> (int \<times> int) option" where
  "scan_back buffer min_unmap 0 (unmapStart, unmapCount) = Some (unmapStart, unmapCount)"
| "scan_back buffer min_unmap (Suc p) (unmapStart, unmapCount) =
     (if unmapStart > min_unmap then
        (case bitmap_bit buffer p of
           None \<Rightarrow> None
         | Some used \<Rightarrow> if used then Some (unmapStart, unmapCount)
                        else scan_back buffer min_unmap p (unmapStart - 1, u32 (unmapCount + 1)))
      else Some (unmapStart, unmapCount))"

fun scan_forward :: "mem \<Rightarrow> int \<Rightarrow> nat \<Rightarrow> nat \<Rightarrow> int \<times> int \<Rightarrow> (int \<times> int) option" where
  "scan_forward buffer max_unmap p 0 (unmapStart, unmapCount) = Some (unmapStart, unmapCount)"
| "scan_forward buffer max_unmap p (Suc left) (unmapStart, unmapCount) =
     (if u32 (unmapStart + unmapCount) < max_unmap then
        (case bitmap_bit buffer (p + 1) of
           None \<Rightarrow> None
         | Some used \<Rightarrow> if used then Some (unmapStart, unmapCount)
                        else scan_forward buffer max_unmap (p + 1) left (unmapStart, u32 (unmapCount + 1)))
      else Some (unmapStart, unmapCount))"

definition BlockMarkFreeInternal :: "hfsmount \<Rightarrow> int \<Rightarrow> int \<Rightarrow> bool \<Rightarrow> (int \<times> hfsmount) option" where
  "BlockMarkFreeInternal vcb startingBlock numBlocks do_validate =
     (if do_validate \<and> u32 (startingBlock + numBlocks) > totalBlocks vcb then None
      else do {
        r \<leftarrow> ReadBitmapBlock vcb startingBlock HFS_ALLOC_IGNORE_RESERVED;
        case r of Inl err \<Rightarrow> Some (err, vcb)
        | Inr (block, buffer) \<Rightarrow>
            (let (min_unmap, max_unmap) = unmap_bounds startingBlock (u32 (startingBlock + numBlocks))
                   (map snd (tentative_ranges vcb @ locked_ranges vcb)) (0, 0xFFFFFFFF);
                 bitsPerBlock = u32 (vcbVBMIOSize vcb * 8)
             in do {
               unmap \<leftarrow> scan_back buffer min_unmap (nat (startingBlock AND (bitsPerBlock - 1))) (startingBlock, numBlocks);
               w \<leftarrow> walk_blocks HFS_ALLOC_IGNORE_RESERVED True (mark_free_op do_validate) vcb
                      (first_cursor vcb startingBlock block buffer) numBlocks ();
               case w of
                 Walk_error err vcb _ \<Rightarrow> Some (err, vcb)
               | Walk_done vcb c _ \<Rightarrow>
                   (let final = nat (u32 (startingBlock + numBlocks - 1) AND (bitsPerBlock - 1))
                    in do {
                      (unmapStart, unmapCount) \<leftarrow>
                        scan_forward (bc_buffer c) max_unmap final (nat bitsPerBlock - 1 - final) unmap;
                      vcb \<leftarrow> hfs_unmap_free_extent (ReleaseBitmapBlock vcb (bc_block c) (bc_buffer c) True)
                               unmapStart unmapCount;
                      Some (0, vcb) }) }) })"

definition BlockMarkFree :: "hfsmount \<Rightarrow> int \<Rightarrow> int \<Rightarrow> (int \<times> hfsmount) option" where
  "BlockMarkFree vcb startingBlock numBlocks = BlockMarkFreeInternal vcb startingBlock numBlocks True"

section \<open>Counting allocated blocks\<close>

function num_bits_set :: "int \<Rightarrow> int" where
  "num_bits_set num = (if num \<le> 0 then 0 else 1 + num_bits_set (num AND (num - 1)))"
  by pat_completeness auto
termination
proof (relation "measure nat")
  fix num :: int assume "\<not> num \<le> 0"
  then have "0 < num" "num AND (num - 1) \<le> num - 1" by (simp_all add: AND_upper2)
  then show "(num AND (num - 1), num) \<in> measure nat" by simp
qed simp

declare num_bits_set.simps [simp del]

definition count_op :: "bool \<Rightarrow> int word_op" where
  "count_op stop_on_first bitMask w count =
     (if w AND bitMask \<noteq> 0
      then (if stop_on_first then Some (w, 1, True)
            else Some (w, u32 (count + num_bits_set (w AND bitMask)), False))
      else Some (w, count, False))"

text \<open>The error and what is stored through \<open>allocCount\<close>, if anything is.\<close>

definition hfs_isallocated_internal :: "hfsmount \<Rightarrow> int \<Rightarrow> int \<Rightarrow> bool \<Rightarrow> (int \<times> int option) option" where
  "hfs_isallocated_internal hfsmp startingBlock numBlocks stop_on_first = do {
     r \<leftarrow> ReadBitmapBlock hfsmp startingBlock HFS_ALLOC_IGNORE_TENTATIVE;
     case r of Inl err \<Rightarrow> Some (err, None)
     | Inr (block, buffer) \<Rightarrow> do {
         w \<leftarrow> walk_blocks HFS_ALLOC_IGNORE_TENTATIVE False (count_op stop_on_first) hfsmp
                (first_cursor hfsmp startingBlock block buffer) numBlocks 0;
         Some (case w of Walk_error err _ n \<Rightarrow> (err, Some n) | Walk_done _ _ n \<Rightarrow> (0, Some n)) } }"

definition hfs_count_allocated :: "hfsmount \<Rightarrow> int \<Rightarrow> int \<Rightarrow> (int \<times> int option) option" where
  "hfs_count_allocated hfsmp startBlk numBlocks = hfs_isallocated_internal hfsmp startBlk numBlocks False"

definition hfs_isallocated :: "hfsmount \<Rightarrow> int \<Rightarrow> int \<Rightarrow> int option" where
  "hfs_isallocated hfsmp startingBlock numBlocks = do {
     (err, allocCount) \<leftarrow> hfs_isallocated_internal hfsmp startingBlock numBlocks True;
     if err \<noteq> 0 then Some 1 else allocCount }"

text \<open>\<open>BlockMarkFreeUnused\<close>: used blocks beyond the end of the file system are marked free, a piece at a time.  With pieces of no bits
  the loop would not end (\<^term>\<open>None\<close>).\<close>

function mark_free_unused :: "hfsmount \<Rightarrow> int \<Rightarrow> int \<Rightarrow> (int \<times> hfsmount) option" where
  "mark_free_unused vcb startingBlock numBlocks =
     (if numBlocks \<le> 0 then Some (0, vcb)
      else let bitsPerBlock = u32 (vcbVBMIOSize vcb * 8);
               curNumBlocks = (if numBlocks \<ge> bitsPerBlock then bitsPerBlock else numBlocks)
           in if curNumBlocks \<le> 0 then None
              else case hfs_isallocated vcb startingBlock curNumBlocks of
                None \<Rightarrow> None
              | Some allocated \<Rightarrow>
                  (case (if allocated = 1 then BlockMarkFreeInternal vcb startingBlock curNumBlocks False else Some (0, vcb)) of
                     None \<Rightarrow> None
                   | Some (error, vcb) \<Rightarrow>
                       if error \<noteq> 0 then Some (error, vcb)
                       else mark_free_unused vcb (u32 (startingBlock + curNumBlocks)) (numBlocks - curNumBlocks)))"
  by pat_completeness auto
termination by (relation "measure (\<lambda>(_, _, n). nat n)") auto

declare mark_free_unused.simps [simp del]

definition BlockMarkFreeUnused :: "hfsmount \<Rightarrow> int \<Rightarrow> int \<Rightarrow> (int \<times> hfsmount) option" where
  "BlockMarkFreeUnused vcb startingBlock numBlocks =
     (let bitsPerBlock = u32 (vcbVBMIOSize vcb * 8);
          lastBit = u32 (u32 (startingBlock + (bitsPerBlock - 1)) div bitsPerBlock * bitsPerBlock);
          curNumBlocks = u32 (lastBit - startingBlock);
          curNumBlocks = (if curNumBlocks > numBlocks then numBlocks else curNumBlocks)
      in do {
        (error, vcb) \<leftarrow> BlockMarkFreeInternal vcb startingBlock curNumBlocks False;
        if error \<noteq> 0 then Some (error, vcb)
        else mark_free_unused vcb (u32 (startingBlock + curNumBlocks)) (numBlocks - curNumBlocks) })"

end
