(* ===== verification/BitmapWords.thy ===== *)
theory BitmapWords
  imports NodeMap VolumeBitmap
begin

text \<open>
  The words of the volume bitmap as sets of blocks: how the bits of a little-endian word, of a swapped mask and
  of the bytes of the bitmap correspond, for the 32-bit words of the walks and the 64-bit words of
  \<open>bits_set\<close>.  The bit of block \<open>j\<close> of a bitmap is \<^const>\<open>map_used\<close>.
\<close>

section \<open>Bits of byte strings\<close>

lemma bit_le_val: "i < 8 * length bs \<Longrightarrow> bit (le_val bs) i \<longleftrightarrow> bit (bs ! (i div 8)) (i mod 8)"
proof (induction bs arbitrary: i)
  case (Cons b bs)
  have disj: "uint b AND push_bit 8 (le_val bs) = 0"
    by (rule bit_eqI) (auto simp: bit_simps dest: bit_imp_le_length)
  then have e: "le_val (b # bs) = uint b OR push_bit 8 (le_val bs)"
    using disjunctive_add_eq_or [OF disj] by (simp add: push_bit_eq_mult mult.commute)
  show ?case
  proof (cases "i < 8")
    case True
    then show ?thesis by (simp add: e bit_simps del: le_val.simps)
  next
    case False
    define r where "r = i - 8"
    have r: "i = 8 + r" "r < 8 * length bs" using False Cons.prems by (auto simp: r_def)
    have "\<not> bit (uint b) (8 + r)" by (auto simp: bit_uint_iff dest: bit_imp_le_length)
    then have "bit (le_val (b # bs)) i = bit (le_val bs) r" by (simp add: e bit_simps r(1) del: le_val.simps)
    moreover have "i div 8 = Suc (r div 8)" "i mod 8 = r mod 8" by (simp_all add: r(1))
    ultimately show ?thesis using Cons.IH [OF r(2)] by simp
  qed
qed simp

lemma bit_le_bytes: "j < n \<Longrightarrow> i < 8 \<Longrightarrow> bit (le_bytes n v ! j) i \<longleftrightarrow> bit v (8 * j + i)"
proof (induction n arbitrary: j v)
  case (Suc n)
  have d: "bit (v div 256) k \<longleftrightarrow> bit v (8 + k)" for k using bit_drop_bit_eq [of 8 v] by (simp add: drop_bit_eq_div)
  show ?case
  proof (cases j)
    case 0
    then show ?thesis using Suc.prems by (simp add: bit_word_of_int_iff)
  next
    case (Suc j')
    then show ?thesis using Suc.IH [of j' "v div 256"] Suc.prems d [of "8 * j' + i"] by (simp add: add.assoc)
  qed
qed simp

text \<open>Position \<open>j\<close> of a bitmap, counted from the most significant bit of each byte, is bit \<open>msb_pos j\<close> of the little-endian value.\<close>

definition msb_pos :: "nat \<Rightarrow> nat" where
  "msb_pos j = 8 * (j div 8) + (7 - j mod 8)"

lemma msb_pos_div [simp]: "msb_pos j div 8 = j div 8" "msb_pos j mod 8 = 7 - j mod 8"
proof -
  define r where "r = 7 - j mod 8"
  have "msb_pos j = r + 8 * (j div 8)" "r < 8" by (auto simp: msb_pos_def r_def)
  then have "msb_pos j div 8 = j div 8" "msb_pos j mod 8 = r" by simp_all
  then show "msb_pos j div 8 = j div 8" "msb_pos j mod 8 = 7 - j mod 8" by (simp_all add: r_def)
qed

lemma msb_pos_less: "j < 8 * n \<Longrightarrow> msb_pos j < 8 * n"
proof -
  assume "j < 8 * n"
  then have "j div 8 < n" by (simp add: less_mult_imp_div_less mult.commute)
  then show ?thesis unfolding msb_pos_def by linarith
qed

lemma bit_le_val_msb: "j < 8 * length bs \<Longrightarrow> bit (le_val bs) (msb_pos j) \<longleftrightarrow> map_used bs j"
  by (simp add: bit_le_val msb_pos_less map_used_def)

lemma map_used_le_bytes: "j < 8 * n \<Longrightarrow> map_used (le_bytes n v) j \<longleftrightarrow> bit v (msb_pos j)"
proof -
  assume "j < 8 * n"
  then have "j div 8 < n" by (simp add: less_mult_imp_div_less mult.commute)
  then show ?thesis by (simp add: map_used_def bit_le_bytes msb_pos_def)
qed

text \<open>Swapping the bytes turns this order into the order of the value.\<close>

lemma bit_swapped: "j < 8 * n \<Longrightarrow> bit (le_val (rev (le_bytes n v))) (msb_pos j) \<longleftrightarrow> bit v (8 * n - 1 - j)"
proof -
  assume j: "j < 8 * n"
  then have d: "j div 8 < n" by (simp add: less_mult_imp_div_less mult.commute)
  have e: "8 * (n - Suc (j div 8)) + (7 - j mod 8) = 8 * n - 1 - j"
  proof -
    obtain q r where q: "j = 8 * q + r" "r < 8" by (metis mod_less_divisor mult_div_mod_eq zero_less_numeral)
    have "q < n" using d q by simp
    then obtain t where "n = Suc (q + t)" by (metis less_iff_Suc_add)
    then show ?thesis using q by simp
  qed
  have "bit (le_val (rev (le_bytes n v))) (msb_pos j) \<longleftrightarrow> bit (rev (le_bytes n v) ! (j div 8)) (7 - j mod 8)"
    using j by (subst bit_le_val) (simp_all add: msb_pos_less)
  also have "rev (le_bytes n v) ! (j div 8) = le_bytes n v ! (n - Suc (j div 8))" using d by (simp add: rev_nth)
  also have "bit \<dots> (7 - j mod 8) \<longleftrightarrow> bit v (8 * n - 1 - j)" using d by (subst bit_le_bytes) (simp_all add: e)
  finally show ?thesis .
qed

lemma bit_SWAP_BE32: "j < 32 \<Longrightarrow> bit (SWAP_BE32 v) (msb_pos j) \<longleftrightarrow> bit v (31 - j)"
  using bit_swapped [of j 4 v] by (simp add: SWAP_BE32_def)

lemma bit_SWAP_BE64: "j < 64 \<Longrightarrow> bit (SWAP_BE64 v) (msb_pos j) \<longleftrightarrow> bit v (63 - j)"
  using bit_swapped [of j 8 v] by (simp add: SWAP_BE64_def)

section \<open>Words of a bitmap\<close>

text \<open>Two values of \<open>8 * n\<close> bits that agree at all positions are equal; so a value is determined by the blocks it shows.\<close>

lemma msb_pos_surj: "i < 8 * n \<Longrightarrow> \<exists>j < 8 * n. msb_pos j = i"
proof (intro exI conjI)
  assume i: "i < 8 * n"
  show "msb_pos (msb_pos i) = i" by (subst msb_pos_def) (simp add: Suc_diff_le)
  show "msb_pos i < 8 * n" by (rule msb_pos_less [OF i])
qed

lemma zero_by_positions:
  fixes v :: int
  assumes "0 \<le> v" "v < 256 ^ n"
  shows "v = 0 \<longleftrightarrow> (\<forall>j < 8 * n. \<not> bit v (msb_pos j))"
proof
  assume none: "\<forall>j < 8 * n. \<not> bit v (msb_pos j)"
  have "take_bit (8 * n) v = 0"
    by (rule bit_eqI) (metis none msb_pos_surj bit_take_bit_iff bit_0_eq bot_apply bot_bool_def)
  moreover have "(256 :: int) ^ n = 2 ^ (8 * n)" by (simp add: power_mult)
  ultimately show "v = 0" using assms by (simp add: take_bit_int_eq_self)
qed simp

definition word_base :: "nat \<Rightarrow> int" where
  "word_base k = 4 * int k"

text \<open>Chunks of \<open>n\<close> bytes: the words of 4 bytes of the walks and the quads of 8 bytes of \<open>bits_set\<close>.\<close>

lemma chunk_div:
  fixes j n k :: nat
  shows "(8 * n * k + j) div 8 = n * k + j div 8" "(8 * n * k + j) mod 8 = j mod 8"
proof -
  have e: "8 * n * k + j = j + (n * k) * 8" by simp
  show "(8 * n * k + j) div 8 = n * k + j div 8" "(8 * n * k + j) mod 8 = j mod 8"
    unfolding e by (simp_all only: mod_mult_self1 div_mult_self1 zero_neq_numeral [symmetric] not_False_eq_True)
qed

lemma chunk_bit:
  assumes "n * k + n \<le> length m" "j < 8 * n"
  shows "bit (le_val (bytes_at m (int (n * k)) (int n))) (msb_pos j) \<longleftrightarrow> map_used m (8 * n * k + j)"
proof -
  have in_m: "in_mem m (int (n * k)) (int n)" using assms(1) by (simp add: in_mem_def flip: of_nat_mult of_nat_add)
  have "j div 8 < n" using assms(2) by (simp add: less_mult_imp_div_less mult.commute)
  then have "map_used (bytes_at m (int (n * k)) (int n)) j \<longleftrightarrow> map_used m (8 * n * k + j)"
    using nth_slice [OF in_m, of "j div 8"] unfolding map_used_def chunk_div nat_int by simp
  moreover have "bit (le_val (bytes_at m (int (n * k)) (int n))) (msb_pos j) \<longleftrightarrow> map_used (bytes_at m (int (n * k)) (int n)) j"
    by (rule bit_le_val_msb) (use assms(2) length_slice [OF in_m] in simp)
  ultimately show ?thesis by simp
qed

lemma chunk_write:
  assumes "n * k + n \<le> length m" "b < 8 * length m" and n: "0 < n"
  shows "map_used (put_bytes m (int (n * k)) (le_bytes n w)) b \<longleftrightarrow>
    (if b div (8 * n) = k then bit w (msb_pos (b mod (8 * n))) else map_used m b)"
proof -
  have in_m: "in_mem m (int (n * k)) (int (length (le_bytes n w)))" using assms(1) by (simp add: in_mem_def flip: of_nat_mult of_nat_add)
  have b8: "b div 8 < length m" using assms(2) by (simp add: less_mult_imp_div_less mult.commute)
  define j where "j = b mod (8 * n)"
  define q where "q = b div (8 * n)"
  have b: "b = 8 * n * q + j" "j < 8 * n" using n by (simp_all add: j_def q_def)
  have d: "b div 8 = n * q + j div 8" "b mod 8 = j mod 8" unfolding b(1) by (rule chunk_div)+
  have j8: "j div 8 < n" using b(2) by (simp add: less_mult_imp_div_less mult.commute)
  have inside: "n * k \<le> b div 8 \<and> b div 8 < n * k + n \<longleftrightarrow> q = k"
  proof
    assume "n * k \<le> b div 8 \<and> b div 8 < n * k + n"
    then have "b div 8 div n = k" using n by (intro div_nat_eqI) (simp_all add: mult.commute)
    moreover have "b div 8 div n = q" using d(1) j8 by simp
    ultimately show "q = k" by simp
  qed (use d j8 in simp)
  show ?thesis
  proof (cases "q = k")
    case True
    then have "put_bytes m (int (n * k)) (le_bytes n w) ! (b div 8) = le_bytes n w ! (j div 8)"
      using nth_splice [OF in_m b8] inside d unfolding nat_int by simp
    then have "map_used (put_bytes m (int (n * k)) (le_bytes n w)) b \<longleftrightarrow> map_used (le_bytes n w) j"
      by (simp add: map_used_def d(2))
    then show ?thesis using True b(2) by (simp add: map_used_le_bytes j_def [symmetric] q_def [symmetric])
  next
    case False
    then show ?thesis using nth_splice [OF in_m b8] inside unfolding nat_int by (simp add: map_used_def q_def [symmetric])
  qed
qed

lemma word_bit:
  assumes "4 * k + 4 \<le> length m" "j < 32"
  shows "bit (get32 m (word_base k)) (msb_pos j) \<longleftrightarrow> map_used m (32 * k + j)"
  using chunk_bit [of 4 k m j] assms by (simp add: get32_def word_base_def)

lemma word_write:
  assumes "4 * k + 4 \<le> length m" "b < 8 * length m"
  shows "map_used (put_bytes m (word_base k) (le_bytes 4 w)) b \<longleftrightarrow>
    (if b div 32 = k then bit w (msb_pos (b mod 32)) else map_used m b)"
  using chunk_write [of 4 k m b w] assms by (simp add: word_base_def)

section \<open>Masks\<close>

text \<open>\<open>block_mask M j n\<close>: the mask \<open>M\<close> selects the blocks \<open>j, \<dots>, j + n - 1\<close> of a word.\<close>

definition block_mask :: "int \<Rightarrow> nat \<Rightarrow> nat \<Rightarrow> bool" where
  "block_mask M j n \<longleftrightarrow> 0 \<le> M \<and> M < 4294967296 \<and> (\<forall>i < 32. bit M (31 - i) \<longleftrightarrow> j \<le> i \<and> i < j + n)"

lemma all_bits: "(0xFFFFFFFF :: int) = mask 32"
  by (simp add: mask_eq_exp_minus_1)

lemma drop_all_bounds: "0 \<le> drop_bit f (0xFFFFFFFF :: int)" "drop_bit f (0xFFFFFFFF :: int) < 4294967296"
proof -
  have "drop_bit f (0xFFFFFFFF :: int) \<le> 0xFFFFFFFF"
    by (simp add: drop_bit_eq_div zdiv_mono2 [of _ 1, simplified])
  then show "drop_bit f (0xFFFFFFFF :: int) < 4294967296" by simp
qed simp

lemma bit_drop_all: "bit (drop_bit f (0xFFFFFFFF :: int)) i \<longleftrightarrow> i + f < 32"
  unfolding all_bits by (simp add: bit_simps add.commute)

lemma bit_complement: "0 \<le> x \<Longrightarrow> x < 4294967296 \<Longrightarrow> bit (0xFFFFFFFF - x :: int) i \<longleftrightarrow> i < 32 \<and> \<not> bit x i"
proof -
  assume x: "0 \<le> x" "x < 4294967296"
  have "0xFFFFFFFF - x = take_bit 32 (NOT x)"
    using x mod_add_self1 [of 4294967296 "- x - 1"] by (simp add: take_bit_eq_mod not_int_def)
  then show ?thesis by (simp add: bit_simps)
qed

lemma block_mask_first: "f < 32 \<Longrightarrow> block_mask (drop_bit f 0xFFFFFFFF) f (32 - f)"
  using drop_all_bounds [of f] by (auto simp: block_mask_def bit_drop_all)

lemma block_mask_inside:
  assumes "f + n \<le> 32"
  shows "block_mask (drop_bit f 0xFFFFFFFF AND (0xFFFFFFFF - drop_bit (f + n) 0xFFFFFFFF)) f n"
proof -
  note d = drop_all_bounds [of f] drop_all_bounds [of "f + n"]
  have "drop_bit f 0xFFFFFFFF AND (0xFFFFFFFF - drop_bit (f + n) 0xFFFFFFFF) \<le> drop_bit f (0xFFFFFFFF :: int)"
    using d by (intro AND_upper1) auto
  then show ?thesis using d by (auto simp: block_mask_def bit_and_iff bit_drop_all bit_complement)
qed

lemma block_mask_all: "block_mask 0xFFFFFFFF 0 32"
  using block_mask_first [of 0] by simp

lemma block_mask_rest: "n < 32 \<Longrightarrow> block_mask (0xFFFFFFFF - drop_bit n 0xFFFFFFFF) 0 n"
proof -
  assume n: "n < 32"
  note d = drop_all_bounds [of n]
  have "0xFFFFFFFF - drop_bit n (0xFFFFFFFF :: int) < 4294967296" using d(1) by linarith
  moreover have "0 \<le> 0xFFFFFFFF - drop_bit n (0xFFFFFFFF :: int)" using d(2) by linarith
  moreover have "\<forall>i < 32. bit (0xFFFFFFFF - drop_bit n (0xFFFFFFFF :: int)) (31 - i) \<longleftrightarrow> 0 \<le> i \<and> i < 0 + n"
    using n by (auto simp: bit_complement [OF d] bit_drop_all)
  ultimately show ?thesis unfolding block_mask_def by blast
qed

lemma swap_bounds: "0 \<le> SWAP_BE32 v" "SWAP_BE32 v < 4294967296"
  using le_val_bounds [of "rev (le_bytes 4 v)"] by (simp_all add: SWAP_BE32_def)

lemma mask_bit: "block_mask M j n \<Longrightarrow> i < 32 \<Longrightarrow> bit (SWAP_BE32 M) (msb_pos i) \<longleftrightarrow> j \<le> i \<and> i < j + n"
  by (simp add: block_mask_def bit_SWAP_BE32)

end
