(* ===== verification/BitmapWalk.thy ===== *)
theory BitmapWalk
  imports BitmapWords
begin

text \<open>
  The walk over the words of a range of blocks, proved once: a locale states what an operation on a word has to
  establish, and its lemmas carry an invariant from the first word to the last through the pieces of the
  bitmap file.  Marking blocks allocated, marking them free and counting them are its interpretations.
\<close>

section \<open>Cursors\<close>

text \<open>
  The pieces are of \<open>4 * W\<close> bytes, a power of two, and fill the allocation file.  The flat file \<open>F\<close> is what the walk sees: with a dirty
  walk the allocation file with the current piece in place, otherwise what reading shows.
\<close>

definition pieces :: "nat \<Rightarrow> hfsmount \<Rightarrow> mem \<Rightarrow> bool" where
  "pieces W s F \<longleftrightarrow> (\<exists>k. W = 2 ^ k) \<and> 2 \<le> W \<and> vcbVBMIOSize s = int (4 * W) \<and> 32 * W < 2 ^ 32 \<and>
     4 * W dvd length F \<and> 8 * length F \<le> 2 ^ 32"

definition reads :: "hfsmount \<Rightarrow> int \<Rightarrow> mem \<Rightarrow> bool" where
  "reads s fl F \<longleftrightarrow> (\<forall>b < 8 * length F.
     ReadBitmapBlock s (int b) fl = Some (Inr (int b div (vcbVBMIOSize s * 8),
       bytes_at F (int b div (vcbVBMIOSize s * 8) * vcbVBMIOSize s) (vcbVBMIOSize s))))"

definition no_read_errors :: "hfsmount \<Rightarrow> bool" where
  "no_read_errors s \<longleftrightarrow> (\<forall>blk. bread_err s blk = 0)"

definition same_but_bitmap :: "hfsmount \<Rightarrow> hfsmount \<Rightarrow> bool" where
  "same_but_bitmap s s' \<longleftrightarrow> (\<exists>A D. s' = s\<lparr>allocation_file := A, bitmap_dirtied := D\<rparr>)"

lemma same_but_bitmap_refl [simp]: "same_but_bitmap s s"
  unfolding same_but_bitmap_def by (intro exI [of _ "allocation_file s"] exI [of _ "bitmap_dirtied s"]) simp

lemma same_but_bitmap_trans: "same_but_bitmap s t \<Longrightarrow> same_but_bitmap t u \<Longrightarrow> same_but_bitmap s u"
  by (auto simp: same_but_bitmap_def) blast

definition cursor_ok :: "nat \<Rightarrow> hfsmount \<Rightarrow> int \<Rightarrow> bool \<Rightarrow> mem \<Rightarrow> nat \<Rightarrow> bitmap_cursor \<Rightarrow> bool" where
  "cursor_ok W s fl dirty F w c \<longleftrightarrow> pieces W s F \<and>
     (\<exists>B i r. bc_block c = int B \<and> bc_word c = int i \<and> bc_left c = int (W - i) \<and> i \<le> W \<and> w = B * W + i \<and>
        4 * W * (B + 1) \<le> length F \<and> bc_start c = int r \<and> r div (32 * W) = B \<and>
        bc_buffer c = bytes_at F (int (4 * W * B)) (int (4 * W)) \<and>
        (dirty \<longrightarrow> length (allocation_file s) = length F \<and> fl = HFS_ALLOC_IGNORE_RESERVED \<and> no_read_errors s \<and>
           put_bytes (allocation_file s) (int (4 * W * B)) (bc_buffer c) = F) \<and>
        (\<not> dirty \<longrightarrow> reads s fl F))"

lemma piecesD:
  assumes "pieces W s F"
  shows "2 \<le> W" "vcbVBMIOSize s = int (4 * W)" "32 * W < 2 ^ 32" "8 * length F \<le> 2 ^ 32" "4 * W dvd length F"
    "u32 (vcbVBMIOSize s * 8) = int (32 * W)"
  using assms by (simp_all add: pieces_def)

lemma pieces_and: "pieces W s F \<Longrightarrow> (int b AND (int (32 * W) - 1)) = int (b mod (32 * W))"
proof -
  assume "pieces W s F"
  then obtain k where "W = 2 ^ k" by (auto simp: pieces_def)
  then have "int (32 * W) = 2 ^ (k + 5)" by (simp add: power_add)
  then have "int (32 * W) - 1 = mask (k + 5)" by (simp add: mask_eq_exp_minus_1)
  then have "int b AND (int (32 * W) - 1) = int b mod int (32 * W)"
    by (simp only: take_bit_eq_mask [symmetric] take_bit_eq_mod \<open>int (32 * W) = _\<close>)
  then show ?thesis by (simp add: zmod_int)
qed

lemma pieces_cong: "pieces W s F \<Longrightarrow> same_but_bitmap s s' \<Longrightarrow> length F' = length F \<Longrightarrow> pieces W s' F'"
  by (auto simp: pieces_def same_but_bitmap_def)

lemma reads_raw:
  assumes "pieces W s (allocation_file s)" "no_read_errors s"
  shows "reads s HFS_ALLOC_IGNORE_RESERVED (allocation_file s)"
  unfolding reads_def
proof (intro allI impI)
  fix b assume b: "b < 8 * length (allocation_file s)"
  note p = piecesD [OF assms(1)]
  have "b div (32 * W) * (4 * W) + 4 * W \<le> length (allocation_file s)"
  proof -
    obtain n where n: "length (allocation_file s) = 4 * W * n" using p(5) by (elim dvdE)
    have "b < (32 * W) * n" using b n by simp
    then have "b div (32 * W) < n" by (simp add: less_mult_imp_div_less mult.commute)
    then have "b div (32 * W) + 1 \<le> n" by simp
    then have "4 * W * (b div (32 * W) + 1) \<le> 4 * W * n" by (rule mult_le_mono2)
    then show ?thesis using n by (simp add: algebra_simps)
  qed
  then have "in_mem (allocation_file s) (int (b div (32 * W) * (4 * W))) (int (4 * W))"
    unfolding in_mem_def by (simp only: of_nat_0_le_iff of_nat_add [symmetric] of_nat_le_iff simp_thms)
  moreover have "int b div int (32 * W) = int (b div (32 * W))" by (simp add: zdiv_int)
  ultimately show "ReadBitmapBlock s (int b) HFS_ALLOC_IGNORE_RESERVED = Some (Inr (int b div (vcbVBMIOSize s * 8),
       bytes_at (allocation_file s) (int b div (vcbVBMIOSize s * 8) * vcbVBMIOSize s) (vcbVBMIOSize s)))"
    using assms(2) p by (simp add: ReadBitmapBlock_def no_read_errors_def rdn_in ISSET_def Let_def mult.commute)
qed

lemma cursor_okE:
  assumes "cursor_ok W s fl dirty F w c"
  obtains B i r where "pieces W s F" "bc_block c = int B" "bc_word c = int i" "bc_left c = int (W - i)" "i \<le> W" "w = B * W + i"
    "4 * W * (B + 1) \<le> length F" "bc_start c = int r" "r div (32 * W) = B"
    "bc_buffer c = bytes_at F (int (4 * W * B)) (int (4 * W))"
    "dirty \<longrightarrow> length (allocation_file s) = length F \<and> fl = HFS_ALLOC_IGNORE_RESERVED \<and> no_read_errors s \<and>
       put_bytes (allocation_file s) (int (4 * W * B)) (bc_buffer c) = F"
    "\<not> dirty \<longrightarrow> reads s fl F"
  using assms unfolding cursor_ok_def by blast

lemma piece_in_mem: "4 * W * (B + 1) \<le> length F \<Longrightarrow> in_mem F (int (4 * W * B)) (int (4 * W))"
  unfolding in_mem_def by (simp only: of_nat_0_le_iff of_nat_add [symmetric] of_nat_le_iff simp_thms) simp

text \<open>Releasing the last piece leaves the flat file.\<close>

lemma cursor_release:
  assumes "cursor_ok W s fl True F w c"
  shows "ReleaseBitmapBlock s (bc_block c) (bc_buffer c) True =
    s\<lparr>allocation_file := F, bitmap_dirtied := bc_block c # bitmap_dirtied s\<rparr>"
  using assms piecesD(2) by (elim cursor_okE) (auto simp: ReleaseBitmapBlock_def mult.commute)

lemma next_cursor_ok:
  assumes ok: "cursor_ok W s fl dirty F w c" and w: "4 * w + 4 \<le> length F"
  obtains s' c' where "next_cursor s fl dirty c = Some (Inr (s', c'))" "cursor_ok W s' fl dirty F w c'" "0 < bc_left c'"
    "same_but_bitmap s s'"
proof (cases "bc_left c = 0")
  case False
  then have "0 < bc_left c" using ok by (elim cursor_okE) simp
  then show thesis using that [of s c] False ok by (simp add: next_cursor_def)
next
  case True
  obtain B i r where c: "pieces W s F" "bc_block c = int B" "bc_word c = int i" "bc_left c = int (W - i)" "i \<le> W" "w = B * W + i"
    "4 * W * (B + 1) \<le> length F" "bc_start c = int r" "r div (32 * W) = B"
    "bc_buffer c = bytes_at F (int (4 * W * B)) (int (4 * W))"
    "dirty \<longrightarrow> length (allocation_file s) = length F \<and> fl = HFS_ALLOC_IGNORE_RESERVED \<and> no_read_errors s \<and>
       put_bytes (allocation_file s) (int (4 * W * B)) (bc_buffer c) = F"
    "\<not> dirty \<longrightarrow> reads s fl F" using ok by (rule cursor_okE)
  note p = piecesD [OF c(1)]
  have i: "i = W" using True c(4,5) by simp
  define s1 where "s1 = ReleaseBitmapBlock s (bc_block c) (bc_buffer c) dirty"
  have same: "same_but_bitmap s s1" by (auto simp: s1_def ReleaseBitmapBlock_def same_but_bitmap_def)
      (metis same_but_bitmap_def same_but_bitmap_refl)+
  have p1: "pieces W s1 F" by (rule pieces_cong [OF c(1) same refl])
  have file1: "dirty \<Longrightarrow> allocation_file s1 = F \<and> no_read_errors s1"
    using c(2,11) p(2) by (auto simp: s1_def ReleaseBitmapBlock_def no_read_errors_def mult.commute)
  have reads1: "reads s1 fl F"
  proof (cases dirty)
    case True
    then show ?thesis using reads_raw [of W s1] p1 file1 c(11) by simp
  next
    case False
    then show ?thesis using c(12) by (simp add: s1_def ReleaseBitmapBlock_def)
  qed
  have room: "4 * W * (B + 2) \<le> length F"
  proof -
    obtain n where n: "length F = 4 * W * n" using p(5) by (elim dvdE)
    have "4 * W * (B + 1) < 4 * W * n" using w i c(6) n by (simp add: algebra_simps)
    then have "B + 1 < n" by (simp only: nat_mult_less_cancel_disj)
    then have "4 * W * (B + 2) \<le> 4 * W * n" by (intro mult_le_mono2) simp
    then show ?thesis using n by simp
  qed
  define r' where "r' = r + 32 * W"
  have W: "0 < W" using p(1) by simp
  have rB: "r' div (32 * W) = B + 1" using c(9) W div_add_self2 [of "32 * W" r] by (simp add: r'_def)
  have "r' < 32 * W * (B + 2)" using dividend_less_times_div [of "32 * W" r'] rB W by (simp add: algebra_simps)
  then have r': "r' < 8 * length F" using room by (simp add: algebra_simps)
  then have u: "u32 (int r + int (32 * W)) = int r'" using p(4) by (simp add: r'_def)
  have v: "vcbVBMIOSize s1 = int (4 * W)" using piecesD(2) [OF p1] .
  have "int r' div (vcbVBMIOSize s1 * 8) = int (B + 1)" using rB by (simp add: v) (metis of_nat_Suc of_nat_mult of_nat_numeral zdiv_int)
  then have rd: "ReadBitmapBlock s1 (int r') fl = Some (Inr (int (B + 1), bytes_at F (int (4 * W * (B + 1))) (int (4 * W))))"
    using reads1 r' by (simp add: reads_def v algebra_simps)
  define c' where "c' = \<lparr>bc_start = int r', bc_block = int (B + 1), bc_buffer = bytes_at F (int (4 * W * (B + 1))) (int (4 * W)),
      bc_word = 0, bc_left = int W\<rparr>"
  have step: "next_cursor s fl dirty c = Some (Inr (s1, c'))"
    using True rd u c(8) p(6) by (simp add: next_cursor_def Let_def s1_def [symmetric] c'_def v)
  have "cursor_ok W s1 fl dirty F w c'"
    unfolding cursor_ok_def
  proof (rule conjI [OF p1], rule exI [of _ "B + 1"], rule exI [of _ 0], rule exI [of _ r'], intro conjI)
    show "dirty \<longrightarrow> length (allocation_file s1) = length F \<and> fl = HFS_ALLOC_IGNORE_RESERVED \<and> no_read_errors s1 \<and>
       put_bytes (allocation_file s1) (int (4 * W * (B + 1))) (bc_buffer c') = F"
    proof
      assume d: dirty
      have "in_mem F (int (4 * W * (B + 1))) (int (4 * W))" using room by (intro piece_in_mem) simp
      then have "put_bytes F (int (4 * W * (B + 1))) (bytes_at F (int (4 * W * (B + 1))) (int (4 * W))) = F"
        by (rule splice_slice_id)
      then show "length (allocation_file s1) = length F \<and> fl = HFS_ALLOC_IGNORE_RESERVED \<and> no_read_errors s1 \<and>
          put_bytes (allocation_file s1) (int (4 * W * (B + 1))) (bc_buffer c') = F"
        using file1 [OF d] c(11) d by (simp add: c'_def del: of_nat_mult)
    qed
    show "\<not> dirty \<longrightarrow> reads s1 fl F" using reads1 by simp
  qed (use p1 rB room c(6) i in \<open>simp_all add: c'_def algebra_simps\<close>)
  then show thesis using that [OF step] same W by (simp add: c'_def)
qed

text \<open>One word: the piece and the flat file change together.\<close>

lemma splice_in_piece:
  assumes "a + n \<le> length F" "i + length bs \<le> n"
  shows "bytes_at (put_bytes F (int (a + i)) bs) (int a) (int n) = put_bytes (bytes_at F (int a) (int n)) (int i) bs"
    (is "?l = ?r")
proof -
  have F: "in_mem F (int (a + i)) (int (length bs))" "in_mem F (int a) (int n)" using assms by (simp_all add: in_mem_def)
  have P: "in_mem (bytes_at F (int a) (int n)) (int i) (int (length bs))" using assms F by (simp add: in_mem_def)
  show ?thesis
  proof (rule nth_equalityI)
    show "length ?l = length ?r" using F P by simp
    fix j assume "j < length ?l"
    then have j: "j < n" using F by simp
    then show "?l ! j = ?r ! j"
      using F P assms by (auto simp: nth_slice nth_splice nat_add_distrib simp flip: of_nat_add)
  qed
qed

lemma splice_splice_piece:
  assumes "a + length p \<le> length A" "i + length bs \<le> length p"
  shows "put_bytes A (int a) (put_bytes p (int i) bs) = put_bytes (put_bytes A (int a) p) (int (a + i)) bs"
    (is "?l = ?r")
proof -
  have A: "in_mem A (int a) (int (length p))" "in_mem p (int i) (int (length bs))" using assms by (simp_all add: in_mem_def)
  have A2: "in_mem A (int a) (int (length (put_bytes p (int i) bs)))" using A by simp
  have A3: "in_mem (put_bytes A (int a) p) (int (a + i)) (int (length bs))" using assms A by (simp add: in_mem_def)
  show ?thesis
  proof (rule nth_equalityI)
    show "length ?l = length ?r" using A A2 A3 by simp
    fix j assume "j < length ?l"
    then have j: "j < length A" using A2 by simp
    then have "?l ! j = (if a \<le> j \<and> j < a + length p then put_bytes p (int i) bs ! (j - a) else A ! j)"
      using nth_splice [OF A2] A(2) by simp
    moreover have "?r ! j = (if a + i \<le> j \<and> j < a + i + length bs then bs ! (j - (a + i)) else put_bytes A (int a) p ! j)"
      using nth_splice [OF A3] j A(1) by (simp del: of_nat_add)
    ultimately show "?l ! j = ?r ! j"
      using nth_splice [OF A(1) j] nth_splice [OF A(2), of "j - a"] assms by auto
  qed
qed

lemma walk_word_ok:
  assumes ok: "cursor_ok W s fl dirty F w c" and left: "0 < bc_left c"
    and op: "oper (SWAP_BE32 M) (get32 F (word_base w)) acc = Some (v, acc', stop)"
    and clean: "\<not> dirty \<Longrightarrow> v = get32 F (word_base w)"
  obtains c' where "walk_word oper M c acc = Some (c', acc', stop)"
    "cursor_ok W s fl dirty (put_bytes F (word_base w) (le_bytes 4 v)) (w + 1) c'" "4 * w + 4 \<le> length F" "0 < bc_word c'"
proof -
  obtain B i r where c: "pieces W s F" "bc_block c = int B" "bc_word c = int i" "bc_left c = int (W - i)" "i \<le> W" "w = B * W + i"
    "4 * W * (B + 1) \<le> length F" "bc_start c = int r" "r div (32 * W) = B"
    "bc_buffer c = bytes_at F (int (4 * W * B)) (int (4 * W))"
    "dirty \<longrightarrow> length (allocation_file s) = length F \<and> fl = HFS_ALLOC_IGNORE_RESERVED \<and> no_read_errors s \<and>
       put_bytes (allocation_file s) (int (4 * W * B)) (bc_buffer c) = F"
    "\<not> dirty \<longrightarrow> reads s fl F" using ok by (rule cursor_okE)
  have iW: "i < W" using left c(4) by simp
  have base: "word_base w = int (4 * W * B + 4 * i)" by (simp add: word_base_def c(6) algebra_simps)
  have wF: "4 * w + 4 \<le> length F" using c(6,7) iW by (simp add: algebra_simps)
  have inF: "in_mem F (int (4 * W * B)) (int (4 * W))" by (rule piece_in_mem [OF c(7)])
  have lenb: "length (bc_buffer c) = 4 * W" using inF by (simp add: c(10) del: of_nat_mult)
  have inb: "in_mem (bc_buffer c) (4 * int i) 4" using iW lenb by (simp add: in_mem_def)
  have rd: "get32 (bc_buffer c) (4 * int i) = get32 F (word_base w)"
    unfolding get32_def c(10) base
    using slice_slice [OF inF, of "4 * int i" 4] iW by (simp add: algebra_simps)
  define F' where "F' = put_bytes F (word_base w) (le_bytes 4 v)"
  define c' where "c' = c\<lparr>bc_buffer := put_bytes (bc_buffer c) (4 * int i) (le_bytes 4 v), bc_word := int i + 1, bc_left := bc_left c - 1\<rparr>"
  have run: "walk_word oper M c acc = Some (c', acc', stop)"
    using op inb by (simp add: walk_word_def c(3) rd_in wr_in rd c'_def)
  have lenF: "length F' = length F" using wF by (simp add: F'_def word_base_def in_mem_def)
  have buf': "bc_buffer c' = bytes_at F' (int (4 * W * B)) (int (4 * W))"
    using splice_in_piece [of "4 * W * B" "4 * W" F "4 * i" "le_bytes 4 v"] c(7) iW
    by (simp add: c'_def F'_def base c(10) algebra_simps)
  have "cursor_ok W s fl dirty F' (w + 1) c'"
    unfolding cursor_ok_def
  proof (rule conjI, rule pieces_cong [OF c(1) same_but_bitmap_refl lenF], rule exI [of _ B], rule exI [of _ "i + 1"], rule exI [of _ r],
      intro conjI)
    show "dirty \<longrightarrow> length (allocation_file s) = length F' \<and> fl = HFS_ALLOC_IGNORE_RESERVED \<and> no_read_errors s \<and>
       put_bytes (allocation_file s) (int (4 * W * B)) (bc_buffer c') = F'"
    proof
      assume d: dirty
      have "put_bytes (allocation_file s) (int (4 * W * B)) (put_bytes (bc_buffer c) (int (4 * i)) (le_bytes 4 v)) =
          put_bytes (put_bytes (allocation_file s) (int (4 * W * B)) (bc_buffer c)) (int (4 * W * B + 4 * i)) (le_bytes 4 v)"
        using c(7,11) d iW lenb by (intro splice_splice_piece) (simp_all add: algebra_simps)
      also have "\<dots> = F'" using c(11) d by (simp add: F'_def base)
      finally show "length (allocation_file s) = length F' \<and> fl = HFS_ALLOC_IGNORE_RESERVED \<and> no_read_errors s \<and>
          put_bytes (allocation_file s) (int (4 * W * B)) (bc_buffer c') = F'"
        using c(11) d lenF by (simp add: c'_def)
    qed
    show "\<not> dirty \<longrightarrow> reads s fl F'"
    proof
      assume nd: "\<not> dirty"
      have "in_mem F (word_base w) 4" using wF by (simp add: in_mem_def word_base_def)
      then have "F' = F" using clean [OF nd] by (simp add: F'_def get32_def le_bytes_val splice_slice_id)
      then show "reads s fl F'" using c(12) nd by simp
    qed
    show "4 * W * (B + 1) \<le> length F'" using c(7) lenF by simp
  qed (use c(2-9) iW buf' in \<open>simp_all add: c'_def of_nat_diff\<close>)
  moreover have "0 < bc_word c'" by (simp add: c'_def)
  ultimately show thesis using that [OF run] wF by (simp add: F'_def)
qed

section \<open>The walk\<close>

text \<open>
  The contract of a word operation: \<open>Inv b F acc\<close> says that the blocks from \<open>a\<close> up to \<open>b\<close> are done; \<open>Stop F acc\<close> is what holds when
  the operation stops the walk.  Only a dirty walk may change a word.
\<close>

locale bitmap_walk =
  fixes oper :: "'a word_op" and dirty :: bool and a z :: nat
    and Inv :: "nat \<Rightarrow> mem \<Rightarrow> 'a \<Rightarrow> bool" and Stop :: "mem \<Rightarrow> 'a \<Rightarrow> bool"
  assumes step: "a \<le> b \<Longrightarrow> 0 < m \<Longrightarrow> b + m \<le> z \<Longrightarrow> b mod 32 + m \<le> 32 \<Longrightarrow> 4 * (b div 32) + 4 \<le> length F \<Longrightarrow>
     block_mask M (b mod 32) m \<Longrightarrow> Inv b F acc \<Longrightarrow>
     \<exists>v acc' stop. oper (SWAP_BE32 M) (get32 F (word_base (b div 32))) acc = Some (v, acc', stop) \<and>
       (dirty \<or> v = get32 F (word_base (b div 32))) \<and>
       (if stop then Stop (put_bytes F (word_base (b div 32)) (le_bytes 4 v)) acc'
        else Inv (b + m) (put_bytes F (word_base (b div 32)) (le_bytes 4 v)) acc')"
begin

lemma word_step:
  assumes "cursor_ok W s fl dirty F (b div 32) c" "0 < bc_left c" "a \<le> b" "0 < m" "b + m \<le> z" "b mod 32 + m \<le> 32"
    "block_mask M (b mod 32) m" "Inv b F acc"
  obtains c' acc' stop F' where "walk_word oper M c acc = Some (c', acc', stop)"
    "cursor_ok W s fl dirty F' (b div 32 + 1) c'" "length F' = length F" "if stop then Stop F' acc' else Inv (b + m) F' acc'"
    "0 < bc_word c'"
proof -
  obtain B i r where c: "pieces W s F" "bc_block c = int B" "bc_word c = int i" "bc_left c = int (W - i)" "i \<le> W" "b div 32 = B * W + i"
    "4 * W * (B + 1) \<le> length F" "bc_start c = int r" "r div (32 * W) = B"
    "bc_buffer c = bytes_at F (int (4 * W * B)) (int (4 * W))"
    "dirty \<longrightarrow> length (allocation_file s) = length F \<and> fl = HFS_ALLOC_IGNORE_RESERVED \<and> no_read_errors s \<and>
       put_bytes (allocation_file s) (int (4 * W * B)) (bc_buffer c) = F"
    "\<not> dirty \<longrightarrow> reads s fl F" using assms(1) by (rule cursor_okE)
  have wF: "4 * (b div 32) + 4 \<le> length F" using c(4,6,7) assms(2) by (simp add: algebra_simps)
  obtain v acc' stop where v: "oper (SWAP_BE32 M) (get32 F (word_base (b div 32))) acc = Some (v, acc', stop)"
    "dirty \<or> v = get32 F (word_base (b div 32))"
    "if stop then Stop (put_bytes F (word_base (b div 32)) (le_bytes 4 v)) acc'
     else Inv (b + m) (put_bytes F (word_base (b div 32)) (le_bytes 4 v)) acc'"
    using step [OF assms(3-6) wF assms(7,8)] by blast
  obtain c' where "walk_word oper M c acc = Some (c', acc', stop)"
    "cursor_ok W s fl dirty (put_bytes F (word_base (b div 32)) (le_bytes 4 v)) (b div 32 + 1) c'" "0 < bc_word c'"
    using walk_word_ok [where oper = oper, OF assms(1,2) v(1)] v(2) by metis
  moreover have "length (put_bytes F (word_base (b div 32)) (le_bytes 4 v)) = length F"
    using wF by (simp add: word_base_def in_mem_def)
  ultimately show thesis using that v(3) by blast
qed

lemma aligned_step:
  assumes ok: "cursor_ok W s fl dirty F w c" and m: "0 < m" "m \<le> 32" "a \<le> 32 * w" "32 * w + m \<le> z" and zF: "z \<le> 8 * length F"
    and M: "block_mask M 0 m" and inv: "Inv (32 * w) F acc"
  obtains s1 c1 c' acc' stop F' where "next_cursor s fl dirty c = Some (Inr (s1, c1))"
    "walk_word oper M c1 acc = Some (c', acc', stop)" "same_but_bitmap s s1"
    "cursor_ok W s1 fl dirty F' (w + 1) c'" "length F' = length F" "if stop then Stop F' acc' else Inv (32 * w + m) F' acc'"
    "0 < bc_word c'"
proof -
  have room: "4 * w + 4 \<le> length F"
  proof -
    have "4 dvd length F" using ok piecesD(5) by (elim cursor_okE) (meson dvd_mult_left)
    then obtain n where n: "length F = 4 * n" by (elim dvdE)
    moreover have "32 * w < 8 * length F" using m zF by linarith
    ultimately have "w < n" by simp
    with n show ?thesis by simp
  qed
  obtain s1 c1 where s1: "next_cursor s fl dirty c = Some (Inr (s1, c1))" "cursor_ok W s1 fl dirty F w c1" "0 < bc_left c1"
    "same_but_bitmap s s1" using next_cursor_ok [OF ok room] by metis
  have d: "32 * w div 32 = w" "32 * w mod 32 = 0" by simp_all
  obtain c' acc' stop F' where "walk_word oper M c1 acc = Some (c', acc', stop)"
    "cursor_ok W s1 fl dirty F' (w + 1) c'" "length F' = length F" "if stop then Stop F' acc' else Inv (32 * w + m) F' acc'"
    "0 < bc_word c'"
    using word_step [of W s1 fl F "32 * w" c1 m M acc, unfolded d add_0, OF s1(2,3) m(3,1,4,2) M inv] by metis
  with s1 show thesis by (intro that)
qed

lemma walk_words_ok:
  "cursor_ok W s fl dirty F w c \<Longrightarrow> Inv (32 * w) F acc \<Longrightarrow> a \<le> 32 * w \<Longrightarrow> 32 * w + n \<le> z \<Longrightarrow> z \<le> 8 * length F \<Longrightarrow>
   \<exists>s' c' acc' F'. length F' = length F \<and> same_but_bitmap s s' \<and>
     (walk_words fl dirty oper s c (int n) acc = Some (Inl (Walk_done s' c' acc')) \<and> Stop F' acc' \<and>
        (\<exists>w'. cursor_ok W s' fl dirty F' w' c') \<or>
      walk_words fl dirty oper s c (int n) acc = Some (Inr (s', c', int (n mod 32), acc')) \<and>
        Inv (32 * (w + n div 32)) F' acc' \<and> cursor_ok W s' fl dirty F' (w + n div 32) c' \<and>
        (0 < bc_word c \<or> 32 \<le> n \<longrightarrow> 0 < bc_word c'))"
proof (induction n arbitrary: s F w c acc rule: less_induct)
  case (less n)
  show ?case
  proof (cases "n < 32")
    case True
    then show ?thesis using less.prems
      by (intro exI [of _ s] exI [of _ c] exI [of _ acc] exI [of _ F]) (simp add: walk_words.simps)
  next
    case False
    then obtain n' where n: "n = 32 + n'" by (metis le_iff_add not_less)
    have pr: "0 < (32 :: nat)" "(32 :: nat) \<le> 32" "32 * w + 32 \<le> z" using less.prems(4) n by simp_all
    obtain s1 c1 c' acc' stop F' where st: "next_cursor s fl dirty c = Some (Inr (s1, c1))"
      "walk_word oper kAllBitsSetInWord c1 acc = Some (c', acc', stop)" "same_but_bitmap s s1"
      "cursor_ok W s1 fl dirty F' (w + 1) c'" "length F' = length F" "if stop then Stop F' acc' else Inv (32 * w + 32) F' acc'"
      "0 < bc_word c'"
      using aligned_step [OF less.prems(1) pr(1,2) less.prems(3) pr(3) less.prems(5) block_mask_all less.prems(2)] by metis
    have unf: "walk_words fl dirty oper s c (int n) acc =
        (if stop then Some (Inl (Walk_done s1 c' acc')) else walk_words fl dirty oper s1 c' (int n') acc')"
      using st(1,2) n by (subst walk_words.simps) simp
    show ?thesis
    proof (cases stop)
      case True
      then show ?thesis using unf st
        by (intro exI [of _ s1] exI [of _ c'] exI [of _ acc'] exI [of _ F']) auto
    next
      case False
      have eqs: "w + 1 + n' div 32 = w + n div 32" "n' mod 32 = n mod 32" using n by simp_all
      have "\<exists>s' c'' acc'' F''. length F'' = length F' \<and> same_but_bitmap s1 s' \<and>
         (walk_words fl dirty oper s1 c' (int n') acc' = Some (Inl (Walk_done s' c'' acc'')) \<and> Stop F'' acc'' \<and>
            (\<exists>w'. cursor_ok W s' fl dirty F'' w' c'') \<or>
          walk_words fl dirty oper s1 c' (int n') acc' = Some (Inr (s', c'', int (n' mod 32), acc'')) \<and>
            Inv (32 * (w + 1 + n' div 32)) F'' acc'' \<and> cursor_ok W s' fl dirty F'' (w + 1 + n' div 32) c'' \<and>
            (0 < bc_word c' \<or> 32 \<le> n' \<longrightarrow> 0 < bc_word c''))"
        using st False less.prems(3-5) n by (intro less.IH) (simp_all add: algebra_simps)
      then obtain s' c'' acc'' F'' where ih: "length F'' = length F'" "same_but_bitmap s1 s'"
        "walk_words fl dirty oper s1 c' (int n') acc' = Some (Inl (Walk_done s' c'' acc'')) \<and> Stop F'' acc'' \<and>
            (\<exists>w'. cursor_ok W s' fl dirty F'' w' c'') \<or>
          walk_words fl dirty oper s1 c' (int n') acc' = Some (Inr (s', c'', int (n mod 32), acc'')) \<and>
            Inv (32 * (w + n div 32)) F'' acc'' \<and> cursor_ok W s' fl dirty F'' (w + n div 32) c'' \<and> 0 < bc_word c''"
        using st(7) unfolding eqs by blast
      show ?thesis
        by (rule exI [of _ s'], rule exI [of _ c''], rule exI [of _ acc''], rule exI [of _ F''])
          (use ih unf False st(3,5) in \<open>auto intro: same_but_bitmap_trans\<close>)
    qed
  qed
qed

definition finished :: "nat \<Rightarrow> hfsmount \<Rightarrow> int \<Rightarrow> mem \<Rightarrow> 'a walk option \<Rightarrow> bool" where
  "finished W s fl F r \<longleftrightarrow> (\<exists>s' c' acc' F' w. r = Some (Walk_done s' c' acc') \<and> length F' = length F \<and> same_but_bitmap s s' \<and>
     cursor_ok W s' fl dirty F' w c' \<and> (Stop F' acc' \<or> Inv z F' acc' \<and> w = (z + 31) div 32 \<and> 0 < bc_word c'))"

lemma finishedI:
  "r = Some (Walk_done s' c' acc') \<Longrightarrow> length F' = length F \<Longrightarrow> same_but_bitmap s s' \<Longrightarrow> cursor_ok W s' fl dirty F' w c' \<Longrightarrow>
     Stop F' acc' \<or> Inv z F' acc' \<and> w = (z + 31) div 32 \<and> 0 < bc_word c' \<Longrightarrow> finished W s fl F r"
  unfolding finished_def by blast

lemma walk_tail_ok:
  assumes ok: "cursor_ok W s fl dirty F w c" and inv: "Inv (32 * w) F acc" and b: "a \<le> 32 * w" "32 * w + n = z" "z \<le> 8 * length F"
    and started: "0 < bc_word c \<or> 0 < n"
  shows "finished W s fl F (do { r \<leftarrow> walk_words fl dirty oper s c (int n) acc;
           case r of Inl done \<Rightarrow> Some done | Inr (s, c, n, acc) \<Rightarrow> walk_rest fl dirty oper s c n acc })" (is "finished W s fl F ?r")
proof -
  obtain s' c' acc' F' where F': "length F' = length F" "same_but_bitmap s s'"
    and cases: "walk_words fl dirty oper s c (int n) acc = Some (Inl (Walk_done s' c' acc')) \<and> Stop F' acc' \<and>
        (\<exists>w'. cursor_ok W s' fl dirty F' w' c') \<or>
      walk_words fl dirty oper s c (int n) acc = Some (Inr (s', c', int (n mod 32), acc')) \<and>
        Inv (32 * (w + n div 32)) F' acc' \<and> cursor_ok W s' fl dirty F' (w + n div 32) c' \<and>
        (0 < bc_word c \<or> 32 \<le> n \<longrightarrow> 0 < bc_word c')"
    using walk_words_ok [OF ok inv b(1) _ b(3), of n] b(2) by fastforce
  from cases show ?thesis
  proof (elim disjE conjE exE)
    fix w' assume "walk_words fl dirty oper s c (int n) acc = Some (Inl (Walk_done s' c' acc'))" "Stop F' acc'"
      "cursor_ok W s' fl dirty F' w' c'"
    then show ?thesis by (intro finishedI [OF _ F']) auto
  next
    assume run: "walk_words fl dirty oper s c (int n) acc = Some (Inr (s', c', int (n mod 32), acc'))"
      and inv': "Inv (32 * (w + n div 32)) F' acc'" and ok': "cursor_ok W s' fl dirty F' (w + n div 32) c'"
      and went: "0 < bc_word c \<or> 32 \<le> n \<longrightarrow> 0 < bc_word c'"
    define w1 where "w1 = w + n div 32"
    have z: "z = 32 * w1 + n mod 32" using b(2) by (simp add: w1_def)
    show ?thesis
    proof (cases "n mod 32 = 0")
      case True
      then have "n = 0 \<or> 32 \<le> n" by (metis mod_less not_less)
      then have "Inv z F' acc' \<and> w1 = (z + 31) div 32 \<and> 0 < bc_word c'"
        using z inv' True started went by (auto simp: w1_def [symmetric])
      then show ?thesis using run True ok'
        by (intro finishedI [OF _ F', of _ c' acc' W _ w1]) (simp_all add: walk_rest_def w1_def)
    next
      case False
      have m: "0 < n mod 32" "n mod 32 < 32" "n mod 32 \<le> 32" "a \<le> 32 * w1" "32 * w1 + n mod 32 \<le> z" "z \<le> 8 * length F'"
        using False b(1,3) z F'(1) by (simp_all add: w1_def)
      obtain s1 c1 c2 acc2 stop F2 where st: "next_cursor s' fl dirty c' = Some (Inr (s1, c1))"
        "walk_word oper (kAllBitsSetInWord - drop_bit (n mod 32) kAllBitsSetInWord) c1 acc' = Some (c2, acc2, stop)" "same_but_bitmap s' s1"
        "cursor_ok W s1 fl dirty F2 (w1 + 1) c2" "length F2 = length F'" "if stop then Stop F2 acc2 else Inv (32 * w1 + n mod 32) F2 acc2"
        "0 < bc_word c2"
        using aligned_step [OF ok' [folded w1_def] m(1,3,4,5,6) block_mask_rest [OF m(2)] inv' [folded w1_def]] by metis
      have "(z + 31) div 32 = w1 + 1" using z m(1,2) by simp
      then have fin: "Stop F2 acc2 \<or> Inv z F2 acc2 \<and> w1 + 1 = (z + 31) div 32 \<and> 0 < bc_word c2" using st(6,7) z by (auto split: if_splits)
      have "?r = Some (Walk_done s1 c2 acc2)" using run False st(1,2) by (simp add: walk_rest_def nat_int del: of_nat_mod)
      then show ?thesis
        by (rule finishedI [OF _ _ same_but_bitmap_trans [OF F'(2) st(3)] st(4) fin]) (simp add: st(5) F'(1))
    qed
  qed
qed

lemma walk_blocks_ok:
  assumes ok: "cursor_ok W s fl dirty F (a div 32) c" "0 < bc_left c" "bc_start c = int a"
    and inv: "Inv a F acc" and az: "a < z" "z \<le> 8 * length F"
  shows "finished W s fl F (walk_blocks fl dirty oper s c (int (z - a)) acc)"
proof (cases "a mod 32 = 0")
  case True
  then have a: "32 * (a div 32) = a" by auto
  have "walk_blocks fl dirty oper s c (int (z - a)) acc = do { r \<leftarrow> walk_words fl dirty oper s c (int (z - a)) acc;
           case r of Inl done \<Rightarrow> Some done | Inr (s, c, n, acc) \<Rightarrow> walk_rest fl dirty oper s c n acc }"
  proof -
    have "int a mod 32 = 0" using True zmod_int [of a 32] by simp
    then show ?thesis by (simp add: walk_blocks_def ok(3) Let_def split_beta)
  qed
  then show ?thesis using walk_tail_ok [OF ok(1), of acc "z - a"] inv az a by simp
next
  case False
  define f where "f = a mod 32"
  define n where "n = z - a"
  define w where "w = a div 32"
  have f: "0 < f" "f < 32" "a = 32 * w + f" and n: "0 < n" "z = a + n" using False az by (simp_all add: f_def n_def w_def)
  have fm: "int a mod 32 = int f" by (simp add: f_def zmod_int)
  define m where "m = (if 32 - f > n then n else 32 - f)"
  define M where "M = (if 32 - f > n then drop_bit f kAllBitsSetInWord AND (kAllBitsSetInWord - drop_bit (f + n) kAllBitsSetInWord)
      else drop_bit f kAllBitsSetInWord)"
  have m: "0 < m" "m \<le> n" "f + m \<le> 32" using f n by (auto simp: m_def)
  have M: "block_mask M (a mod 32) m"
    using block_mask_first [OF f(2)] block_mask_inside [of f n] by (auto simp: M_def m_def f_def [symmetric])
  have pr: "a + m \<le> z" "a mod 32 + m \<le> 32" using m n by (simp_all add: f_def)
  obtain c' acc' stop F' where st: "walk_word oper M c acc = Some (c', acc', stop)"
    "cursor_ok W s fl dirty F' (a div 32 + 1) c'" "length F' = length F" "if stop then Stop F' acc' else Inv (a + m) F' acc'"
    "0 < bc_word c'"
    using word_step [OF ok(1,2) order_refl m(1) pr M inv] by metis
  have unf: "walk_blocks fl dirty oper s c (int (z - a)) acc =
      (if stop then Some (Walk_done s c' acc')
       else do { r \<leftarrow> walk_words fl dirty oper s c' (int (n - m)) acc';
           case r of Inl done \<Rightarrow> Some done | Inr (s, c, n, acc) \<Rightarrow> walk_rest fl dirty oper s c n acc })"
  proof -
    have mm: "(if 32 - int f > int n then (int n, drop_bit (nat (int f)) kAllBitsSetInWord AND
          (kAllBitsSetInWord - drop_bit (nat (int f + int n)) kAllBitsSetInWord))
        else (32 - int f, drop_bit (nat (int f)) kAllBitsSetInWord)) = (int m, M)"
      using f by (auto simp: m_def M_def nat_int_add of_nat_diff)
    show ?thesis unfolding walk_blocks_def Let_def ok(3) fm n_def [symmetric] mm
      using f st(1) m(2) by (simp add: of_nat_diff)
  qed
  show ?thesis
  proof (cases stop)
    case True
    then show ?thesis using unf st by (intro finishedI [OF _ st(3) same_but_bitmap_refl st(2)]) auto
  next
    case no: False
    show ?thesis
    proof (cases "m = n")
      case True
      have "(z + 31) div 32 = w + 1" using f n m True by simp
      then show ?thesis using unf st no True n
        by (intro finishedI [OF _ st(3) same_but_bitmap_refl st(2)]) (auto simp: walk_words.simps walk_rest_def w_def)
    next
      case False
      then have "m = 32 - f" by (auto simp: m_def split: if_splits)
      then have am: "a + m = 32 * (w + 1)" using f by simp
      have "finished W s fl F' (do { r \<leftarrow> walk_words fl dirty oper s c' (int (n - m)) acc';
           case r of Inl done \<Rightarrow> Some done | Inr (s, c, n, acc) \<Rightarrow> walk_rest fl dirty oper s c n acc })"
      proof (rule walk_tail_ok)
        show "cursor_ok W s fl dirty F' (w + 1) c'" using st(2) by (simp add: w_def)
        show "Inv (32 * (w + 1)) F' acc'" using st(4) no am by simp
        show "a \<le> 32 * (w + 1)" "32 * (w + 1) + (n - m) = z" "z \<le> 8 * length F'" using am m n az st(3) by simp_all
        show "0 < bc_word c' \<or> 0 < n - m" using st(5) by simp
      qed
      then show ?thesis using unf no st(3) by (simp add: finished_def)
    qed
  qed
qed

end

end
