(* ===== verification/BitmapMarks.thy ===== *)
theory BitmapMarks
  imports BitmapWalk
begin

text \<open>
  The volume bitmap as a set of used blocks: marking a range allocated adds exactly its blocks, marking it free removes exactly its
  blocks, counting counts its members.  The three walks are interpretations of \<open>bitmap_walk\<close>.
\<close>

section \<open>Words as sets of blocks\<close>

text \<open>The blocks \<open>b, \<dots>, b + m - 1\<close> lie in word \<open>b div 32\<close>; a mask of them tests and changes exactly these.\<close>

lemma block_in_word:
  fixes b :: nat
  assumes "b mod 32 + m \<le> 32"
  shows "b \<le> x \<and> x < b + m \<longleftrightarrow> x div 32 = b div 32 \<and> b mod 32 \<le> x mod 32 \<and> x mod 32 < b mod 32 + m"
proof -
  obtain k j where b: "b = 32 * k + j" "j < 32" by (metis mod_less_divisor mult_div_mod_eq zero_less_numeral)
  obtain k' j' where x: "x = 32 * k' + j'" "j' < 32" by (metis mod_less_divisor mult_div_mod_eq zero_less_numeral)
  have jm: "j + m \<le> 32" using assms b by simp
  have "k' = k" if "32 * k + j \<le> 32 * k' + j'" "32 * k' + j' < 32 * k + j + m"
  proof -
    have "32 * k \<le> 32 * k + j" by simp
    also have "\<dots> < 32 * k' + 32" using that(1) x(2) by (meson add_less_le_mono add_strict_left_mono le_less_trans)
    finally have "k \<le> k'" by simp
    have "32 * k' \<le> 32 * k' + j'" by simp
    also have "\<dots> < 32 * k + (j + m)" using that(2) by (simp add: add.assoc)
    also have "\<dots> \<le> 32 * k + 32" using jm by simp
    finally have "k' \<le> k" by simp
    with \<open>k \<le> k'\<close> show ?thesis by simp
  qed
  then show ?thesis using b x by auto
qed

lemma masked_bit:
  assumes "block_mask M (b mod 32) m" "b mod 32 + m \<le> 32"
  shows "x div 32 = b div 32 \<Longrightarrow> bit (SWAP_BE32 M) (msb_pos (x mod 32)) \<longleftrightarrow> b \<le> x \<and> x < b + m"
  using mask_bit [OF assms(1), of "x mod 32"] block_in_word [OF assms(2)] by auto

lemma masked_pos:
  assumes "block_mask M (b mod 32) m" "b mod 32 + m \<le> 32" "j < 32"
  shows "bit (SWAP_BE32 M) (msb_pos j) \<longleftrightarrow> b \<le> 32 * (b div 32) + j \<and> 32 * (b div 32) + j < b + m"
  using masked_bit [OF assms(1,2), of "32 * (b div 32) + j"] assms(3) by simp

lemma word_of_block:
  assumes "4 * k + 4 \<le> length F" "x div 32 = k"
  shows "bit (get32 F (word_base k)) (msb_pos (x mod 32)) \<longleftrightarrow> map_used F x"
  using word_bit [OF assms(1), of "x mod 32"] assms(2) by (auto simp: mult_div_mod_eq)

lemma masked_zero:
  assumes "block_mask M (b mod 32) m" "b mod 32 + m \<le> 32" "4 * (b div 32) + 4 \<le> length F"
  shows "get32 F (word_base (b div 32)) AND SWAP_BE32 M = 0 \<longleftrightarrow> (\<forall>x. b \<le> x \<and> x < b + m \<longrightarrow> \<not> map_used F x)"
proof -
  let ?w = "get32 F (word_base (b div 32))" and ?k = "b div 32"
  have "?w AND SWAP_BE32 M \<le> ?w" by (rule AND_upper1) simp
  then have "?w AND SWAP_BE32 M < 256 ^ 4" using get_bounds(6) [of F "word_base ?k"] by simp
  then have "?w AND SWAP_BE32 M = 0 \<longleftrightarrow> (\<forall>j < 8 * 4. \<not> bit (?w AND SWAP_BE32 M) (msb_pos j))"
    by (intro zero_by_positions) simp_all
  also have "\<dots> \<longleftrightarrow> (\<forall>j < 32. \<not> (map_used F (32 * ?k + j) \<and> b \<le> 32 * ?k + j \<and> 32 * ?k + j < b + m))"
    by (simp add: bit_and_iff word_bit [OF assms(3)] masked_pos [OF assms(1,2)])
  also have "\<dots> \<longleftrightarrow> (\<forall>x. b \<le> x \<and> x < b + m \<longrightarrow> \<not> map_used F x)"
  proof (intro iffI allI impI)
    fix x assume all: "\<forall>j < 32. \<not> (map_used F (32 * ?k + j) \<and> b \<le> 32 * ?k + j \<and> 32 * ?k + j < b + m)" and x: "b \<le> x \<and> x < b + m"
    then have "x = 32 * ?k + x mod 32" using block_in_word [OF assms(2), of x] by (metis mult_div_mod_eq)
    then show "\<not> map_used F x" using all [rule_format, of "x mod 32"] x by auto
  qed blast
  finally show ?thesis .
qed

lemma masked_all:
  assumes "block_mask M (b mod 32) m" "b mod 32 + m \<le> 32" "4 * (b div 32) + 4 \<le> length F"
    and used: "\<forall>x. b \<le> x \<and> x < b + m \<longrightarrow> map_used F x"
  shows "get32 F (word_base (b div 32)) AND SWAP_BE32 M = SWAP_BE32 M"
proof (rule bit_eqI)
  fix i
  have "bit (get32 F (word_base (b div 32))) i" if B: "bit (SWAP_BE32 M) i"
  proof -
    have "take_bit 32 (SWAP_BE32 M) = SWAP_BE32 M" using swap_bounds [of M] by (simp add: take_bit_int_eq_self)
    then have "bit (take_bit 32 (SWAP_BE32 M)) i" using B by simp
    then have "i < 8 * 4" by (simp add: bit_take_bit_iff)
    then obtain j where j: "j < 32" "msb_pos j = i" using msb_pos_surj [of i 4] by auto
    define x where "x = 32 * (b div 32) + j"
    have x: "x div 32 = b div 32" "x mod 32 = j" using j by (simp_all add: x_def)
    then have "map_used F x" using masked_bit [OF assms(1,2) x(1)] B used j by simp
    then show ?thesis using word_of_block [OF assms(3) x(1)] x j by simp
  qed
  then show "bit (get32 F (word_base (b div 32)) AND SWAP_BE32 M) i = bit (SWAP_BE32 M) i" by (auto simp: bit_and_iff)
qed

section \<open>The operations\<close>

definition sets_blocks :: "mem \<Rightarrow> nat \<Rightarrow> nat \<Rightarrow> mem \<Rightarrow> bool" where
  "sets_blocks F a z F' \<longleftrightarrow> length F' = length F \<and> (\<forall>x < 8 * length F. map_used F' x \<longleftrightarrow> map_used F x \<or> a \<le> x \<and> x < z)"

definition clears_blocks :: "mem \<Rightarrow> nat \<Rightarrow> nat \<Rightarrow> mem \<Rightarrow> bool" where
  "clears_blocks F a z F' \<longleftrightarrow> length F' = length F \<and> (\<forall>x < 8 * length F. map_used F' x \<longleftrightarrow> map_used F x \<and> \<not> (a \<le> x \<and> x < z))"

interpretation alloc: bitmap_walk mark_allocated_op True a z
  "\<lambda>b F _. z \<le> 8 * length F0 \<and> (\<forall>x. a \<le> x \<and> x < z \<longrightarrow> \<not> map_used F0 x) \<and> sets_blocks F0 a b F" "\<lambda>_ _. False" for F0 a z
proof (unfold_locales, elim conjE)
  fix b m F M and acc :: unit
  assume b: "a \<le> b" "0 < m" "b + m \<le> z" "b mod 32 + m \<le> 32" "4 * (b div 32) + 4 \<le> length F" "block_mask M (b mod 32) m"
    and z: "z \<le> 8 * length F0" and free: "\<forall>x. a \<le> x \<and> x < z \<longrightarrow> \<not> map_used F0 x" and st: "sets_blocks F0 a b F"
  let ?k = "b div 32" and ?w = "get32 F (word_base (b div 32))"
  have "\<forall>x. b \<le> x \<and> x < b + m \<longrightarrow> \<not> map_used F x" using st free b z by (auto simp: sets_blocks_def)
  then have "?w AND SWAP_BE32 M = 0" using masked_zero [OF b(6,4,5)] by simp
  moreover have "sets_blocks F0 a (b + m) (put_bytes F (word_base ?k) (le_bytes 4 (?w OR SWAP_BE32 M)))" (is "sets_blocks _ _ _ ?F'")
    unfolding sets_blocks_def
  proof (intro conjI allI impI)
    show "length ?F' = length F0" using st b(5) by (simp add: sets_blocks_def word_base_def in_mem_def)
    fix x assume x: "x < 8 * length F0"
    then have xF: "x < 8 * length F" using st by (simp add: sets_blocks_def)
    show "map_used ?F' x \<longleftrightarrow> map_used F0 x \<or> a \<le> x \<and> x < b + m"
      using word_write [OF b(5) xF] word_of_block [OF b(5), of x] masked_bit [OF b(6,4), of x] block_in_word [OF b(4), of x] st x b(1)
      by (auto simp: sets_blocks_def bit_or_iff)
  qed
  ultimately show "\<exists>v acc' stop. mark_allocated_op (SWAP_BE32 M) ?w acc = Some (v, acc', stop) \<and>
      (True \<or> v = ?w) \<and> (if stop then False else z \<le> 8 * length F0 \<and> (\<forall>x. a \<le> x \<and> x < z \<longrightarrow> \<not> map_used F0 x) \<and>
        sets_blocks F0 a (b + m) (put_bytes F (word_base ?k) (le_bytes 4 v)))"
    using z free by (intro exI [of _ "?w OR SWAP_BE32 M"] exI [of _ acc] exI [of _ False]) (simp add: mark_allocated_op_def)
qed

interpretation free: bitmap_walk "mark_free_op do_validate" True a z
  "\<lambda>b F _. z \<le> 8 * length F0 \<and> (do_validate \<longrightarrow> (\<forall>x. a \<le> x \<and> x < z \<longrightarrow> map_used F0 x)) \<and> clears_blocks F0 a b F" "\<lambda>_ _. False"
  for do_validate F0 a z
proof (unfold_locales, elim conjE)
  fix b m F M and acc :: unit
  assume b: "a \<le> b" "0 < m" "b + m \<le> z" "b mod 32 + m \<le> 32" "4 * (b div 32) + 4 \<le> length F" "block_mask M (b mod 32) m"
    and z: "z \<le> 8 * length F0" and used: "do_validate \<longrightarrow> (\<forall>x. a \<le> x \<and> x < z \<longrightarrow> map_used F0 x)"
    and st: "clears_blocks F0 a b F"
  let ?k = "b div 32" and ?w = "get32 F (word_base (b div 32))" and ?M = "SWAP_BE32 M"
  have all: "do_validate \<Longrightarrow> ?w AND ?M = ?M"
    using masked_all [OF b(6,4,5)] st used b z by (auto simp: clears_blocks_def)
  have "clears_blocks F0 a (b + m) (put_bytes F (word_base ?k) (le_bytes 4 (?w AND (kAllBitsSetInWord - ?M))))" (is "clears_blocks _ _ _ ?F'")
    unfolding clears_blocks_def
  proof (intro conjI allI impI)
    show "length ?F' = length F0" using st b(5) by (simp add: clears_blocks_def word_base_def in_mem_def)
    fix x assume x: "x < 8 * length F0"
    then have xF: "x < 8 * length F" using st by (simp add: clears_blocks_def)
    have "msb_pos (x mod 32) < 32" using msb_pos_less [of "x mod 32" 4] by simp
    then have "bit (kAllBitsSetInWord - ?M) (msb_pos (x mod 32)) \<longleftrightarrow> \<not> bit ?M (msb_pos (x mod 32))"
      using bit_complement [OF swap_bounds] by simp
    then show "map_used ?F' x \<longleftrightarrow> map_used F0 x \<and> \<not> (a \<le> x \<and> x < b + m)"
      using word_write [OF b(5) xF] word_of_block [OF b(5), of x] masked_bit [OF b(6,4), of x] block_in_word [OF b(4), of x] st x b(1)
      by (auto simp: clears_blocks_def bit_and_iff)
  qed
  then show "\<exists>v acc' stop. mark_free_op do_validate ?M ?w acc = Some (v, acc', stop) \<and>
      (True \<or> v = ?w) \<and> (if stop then False else z \<le> 8 * length F0 \<and>
        (do_validate \<longrightarrow> (\<forall>x. a \<le> x \<and> x < z \<longrightarrow> map_used F0 x)) \<and>
        clears_blocks F0 a (b + m) (put_bytes F (word_base ?k) (le_bytes 4 v)))"
    using z used all
    by (intro exI [of _ "?w AND (kAllBitsSetInWord - ?M)"] exI [of _ acc] exI [of _ False]) (auto simp: mark_free_op_def)
qed

subsection \<open>Counting\<close>

lemma clear_lowest_bit:
  fixes v :: int
  assumes "0 < v"
  shows "\<exists>i. bit v i \<and> (\<forall>j. bit (v AND (v - 1)) j \<longleftrightarrow> bit v j \<and> j \<noteq> i)"
  using assms
proof (induction "nat v" arbitrary: v rule: less_induct)
  case less
  show ?case
  proof (cases "odd v")
    case True
    then obtain u where v: "v = 2 * u + 1" by (elim oddE)
    have "bit (v AND (v - 1)) j \<longleftrightarrow> bit v j \<and> j \<noteq> 0" for j
      unfolding bit_and_iff by (cases j) (auto simp: v bit_Suc bit_0)
    moreover have "bit v 0" using True by (simp add: bit_0)
    ultimately show ?thesis by blast
  next
    case False
    then have "even v" by simp
    then obtain u where v: "v = 2 * u" by (elim evenE)
    have u: "0 < u" "nat u < nat v" using less.prems v by simp_all
    obtain i where i: "bit u i" "\<forall>j. bit (u AND (u - 1)) j \<longleftrightarrow> bit u j \<and> j \<noteq> i" using less.hyps [OF u(2,1)] by blast
    have v1: "(2 * u - 1) div 2 = u - 1" by simp
    have "bit (v AND (v - 1)) j \<longleftrightarrow> bit v j \<and> j \<noteq> Suc i" for j
    proof (cases j)
      case 0
      then show ?thesis unfolding bit_and_iff by (simp add: v bit_0)
    next
      case (Suc j')
      have "bit (v AND (v - 1)) (Suc j') \<longleftrightarrow> bit u j' \<and> bit (u - 1) j'" 
      proof -
        have "bit (v - 1) (Suc j') = bit (u - 1) j'" "bit v (Suc j') = bit u j'"
          using v1 by (auto simp: bit_Suc v)
        then show ?thesis by (simp only: bit_and_iff)
      qed
      then show ?thesis using i(2) [rule_format, of j'] Suc by (simp add: v bit_Suc) (simp add: bit_and_iff)
    qed
    moreover have "bit v (Suc i)" using i(1) by (simp add: v bit_Suc)
    ultimately show ?thesis by blast
  qed
qed

lemma finite_bits: "0 \<le> v \<Longrightarrow> v < 2 ^ n \<Longrightarrow> {i. bit (v :: int) i} \<subseteq> {..<n}"
  by (metis (no_types, lifting) bit_take_bit_iff lessThan_iff mem_Collect_eq subsetI take_bit_int_eq_self)

lemma num_bits_set_card: "0 \<le> v \<Longrightarrow> num_bits_set v = int (card {i. bit v i})"
proof (induction v rule: num_bits_set.induct)
  case (1 v)
  show ?case
  proof (cases "v = 0")
    case False
    then have "0 < v" using "1.prems" by simp
    then obtain i where i: "bit v i" "\<And>j. bit (v AND (v - 1)) j \<longleftrightarrow> bit v j \<and> j \<noteq> i" using clear_lowest_bit by blast
    have "v < 2 ^ nat v" using "1.prems" of_nat_less_iff [of "nat v" "2 ^ nat v", where 'a = int] less_exp [of "nat v"] by simp
    then have fin: "finite {i. bit v i}" using finite_bits [OF "1.prems"] finite_subset by blast
    have e: "{j. bit v j \<and> j \<noteq> i} = {j. bit v j} - {i}" by auto
    have "num_bits_set v = 1 + num_bits_set (v AND (v - 1))" using \<open>0 < v\<close> by (subst num_bits_set.simps) simp
    also have "\<dots> = 1 + int (card ({j. bit v j} - {i}))" using 1(1) \<open>0 < v\<close> i(2) e by simp
    also have "\<dots> = int (card {i. bit v i})" using card_Suc_Diff1 [OF fin, of i] i(1) by simp
    finally show ?thesis .
  qed (simp add: num_bits_set.simps)
qed

definition used_in :: "mem \<Rightarrow> nat \<Rightarrow> nat \<Rightarrow> nat set" where
  "used_in F a b = {x. a \<le> x \<and> x < b \<and> map_used F x}"

lemma finite_used_in [simp]: "finite (used_in F a b)"
  by (rule finite_subset [of _ "{..<b}"]) (auto simp: used_in_def)

lemma used_in_split: "a \<le> b \<Longrightarrow> b \<le> c \<Longrightarrow> card (used_in F a c) = card (used_in F a b) + card (used_in F b c)"
proof -
  assume "a \<le> b" "b \<le> c"
  then have "used_in F a c = used_in F a b \<union> used_in F b c" "used_in F a b \<inter> used_in F b c = {}" by (auto simp: used_in_def)
  then show ?thesis by (simp add: card_Un_disjoint)
qed

lemma msb_pos_inj: "msb_pos i = msb_pos j \<Longrightarrow> i = j"
proof -
  assume "msb_pos i = msb_pos j"
  then have "i div 8 = j div 8" "7 - i mod 8 = 7 - j mod 8" by (metis msb_pos_div(1)) (metis msb_pos_div(2) \<open>msb_pos i = msb_pos j\<close>)
  then have "i div 8 = j div 8" "i mod 8 = j mod 8" by auto
  then show ?thesis by (metis mult_div_mod_eq)
qed

lemma num_bits_masked:
  assumes "block_mask M (b mod 32) m" "b mod 32 + m \<le> 32" "4 * (b div 32) + 4 \<le> length F"
  shows "num_bits_set (get32 F (word_base (b div 32)) AND SWAP_BE32 M) = int (card (used_in F b (b + m)))"
proof -
  let ?w = "get32 F (word_base (b div 32)) AND SWAP_BE32 M" and ?k = "b div 32"
  have "?w \<le> get32 F (word_base ?k)" by (rule AND_upper1) simp
  then have w: "0 \<le> ?w" "?w < 2 ^ 32" using get_bounds(6) [of F "word_base ?k"] by simp_all
  have "{i. bit ?w i} = (\<lambda>x. msb_pos (x mod 32)) ` used_in F b (b + m)"
  proof (intro set_eqI iffI)
    fix i assume "i \<in> {i. bit ?w i}"
    then have B: "bit ?w i" by simp
    then have "i < 8 * 4" using finite_bits [OF w] by auto
    then obtain j where j: "j < 32" "msb_pos j = i" using msb_pos_surj [of i 4] by auto
    have "32 * ?k + j \<in> used_in F b (b + m)"
      using B word_bit [OF assms(3) j(1)] masked_pos [OF assms(1,2) j(1)] j(2) by (auto simp: used_in_def bit_and_iff)
    then show "i \<in> (\<lambda>x. msb_pos (x mod 32)) ` used_in F b (b + m)" using j by (force simp: image_iff)
  next
    fix i assume "i \<in> (\<lambda>x. msb_pos (x mod 32)) ` used_in F b (b + m)"
    then obtain x where x: "i = msb_pos (x mod 32)" "b \<le> x" "x < b + m" "map_used F x" by (auto simp: used_in_def)
    then have "x div 32 = ?k" using block_in_word [OF assms(2), of x] by simp
    then show "i \<in> {i. bit ?w i}"
      using word_of_block [OF assms(3)] masked_bit [OF assms(1,2)] x by (simp add: bit_and_iff)
  qed
  moreover have "inj_on (\<lambda>x. msb_pos (x mod 32)) (used_in F b (b + m))"
  proof (rule inj_onI)
    fix x y assume "x \<in> used_in F b (b + m)" "y \<in> used_in F b (b + m)" "msb_pos (x mod 32) = msb_pos (y mod 32)"
    then have "x div 32 = y div 32" "x mod 32 = y mod 32"
      using block_in_word [OF assms(2), of x] block_in_word [OF assms(2), of y] msb_pos_inj by (auto simp: used_in_def)
    then show "x = y" by (metis mult_div_mod_eq)
  qed
  ultimately show ?thesis using num_bits_set_card [OF w(1)] by (simp add: card_image)
qed

interpretation count: bitmap_walk "count_op stop_on_first" False a z
  "\<lambda>b F n. F = F0 \<and> z - a < 2 ^ 32 \<and>
     (if stop_on_first then n = 0 \<and> used_in F0 a b = {} else n = int (card (used_in F0 a b)))"
  "\<lambda>F n. stop_on_first \<and> n = 1 \<and> used_in F0 a z \<noteq> {}" for stop_on_first F0 a z
proof (unfold_locales, elim conjE)
  fix b m F M n
  assume b: "a \<le> b" "0 < m" "b + m \<le> z" "b mod 32 + m \<le> 32" "4 * (b div 32) + 4 \<le> length F" "block_mask M (b mod 32) m"
    and F: "F = F0" and z: "z - a < 2 ^ 32"
    and n: "if stop_on_first then n = 0 \<and> used_in F0 a b = {} else n = int (card (used_in F0 a b))"
  let ?k = "b div 32" and ?w = "get32 F (word_base (b div 32))" and ?M = "SWAP_BE32 M"
  have "in_mem F (word_base ?k) 4" using b(5) by (simp add: in_mem_def word_base_def)
  then have id: "put_bytes F (word_base ?k) (le_bytes 4 ?w) = F" by (simp add: get32_def le_bytes_val splice_slice_id)
  have zero: "?w AND ?M = 0 \<longleftrightarrow> used_in F0 b (b + m) = {}" using masked_zero [OF b(6,4,5)] by (auto simp: used_in_def F)
  have cnt: "num_bits_set (?w AND ?M) = int (card (used_in F0 b (b + m)))" using num_bits_masked [OF b(6,4,5)] by (simp add: F)
  note sp = used_in_split [of a b "b + m" F0, OF b(1) le_add1]
  have "card (used_in F0 a (b + m)) \<le> card {a..<b + m}" by (rule card_mono) (auto simp: used_in_def)
  then have le: "card (used_in F0 a b) + card (used_in F0 b (b + m)) < 2 ^ 32" using sp z b(3) by simp
  show "\<exists>v acc' stop. count_op stop_on_first ?M ?w n = Some (v, acc', stop) \<and> (False \<or> v = ?w) \<and>
      (if stop then stop_on_first \<and> acc' = 1 \<and> used_in F0 a z \<noteq> {}
       else put_bytes F (word_base ?k) (le_bytes 4 v) = F0 \<and> z - a < 2 ^ 32 \<and>
         (if stop_on_first then acc' = 0 \<and> used_in F0 a (b + m) = {} else acc' = int (card (used_in F0 a (b + m)))))"
  proof (cases "?w AND ?M = 0")
    case True
    then have e: "used_in F0 b (b + m) = {}" using zero by simp
    moreover have "used_in F0 a (b + m) = used_in F0 a b \<union> used_in F0 b (b + m)" using b(1) by (auto simp: used_in_def)
    ultimately show ?thesis using True n z id F
      by (intro exI [of _ ?w] exI [of _ n] exI [of _ False]) (auto simp: count_op_def)
  next
    case False
    then have "used_in F0 a z \<noteq> {}" using zero b by (auto simp: used_in_def)
    moreover have "u32 (int (card (used_in F0 a b)) + int (card (used_in F0 b (b + m)))) = int (card (used_in F0 a (b + m)))"
      using le sp by simp
    ultimately show ?thesis using False n z id F cnt
      by (cases stop_on_first) (auto simp: count_op_def)
  qed
qed

section \<open>From a mounted volume to the walk\<close>

text \<open>The bitmap of a volume: pieces of a power of two of bytes, at least 8 of them, and reading them does not fail.\<close>

definition bitmap_ok :: "hfsmount \<Rightarrow> bool" where
  "bitmap_ok s \<longleftrightarrow> pieces (nat (vcbVBMIOSize s div 4)) s (allocation_file s) \<and> no_read_errors s"

definition bitmap_blocks :: "hfsmount \<Rightarrow> nat" where
  "bitmap_blocks s = 8 * length (allocation_file s)"

definition used_blocks :: "hfsmount \<Rightarrow> nat set" where
  "used_blocks s = {x. x < bitmap_blocks s \<and> map_used (allocation_file s) x}"

lemma piece_of_block:
  assumes "pieces W s F" "a < 8 * length F"
  shows "4 * W * (a div (32 * W) + 1) \<le> length F"
proof -
  obtain n where n: "length F = 4 * W * n" using piecesD(5) [OF assms(1)] by (elim dvdE)
  have "a < (32 * W) * n" using assms(2) n by simp
  then have "a div (32 * W) < n" by (simp add: less_mult_imp_div_less mult.commute)
  then have "4 * W * (a div (32 * W) + 1) \<le> 4 * W * n" by (intro mult_le_mono2) simp
  then show ?thesis using n by simp
qed

lemma first_cursor_ok:
  assumes p: "pieces W s F" and a: "a < 8 * length F"
    and d: "dirty \<longrightarrow> F = allocation_file s \<and> fl = HFS_ALLOC_IGNORE_RESERVED \<and> no_read_errors s" and nd: "\<not> dirty \<longrightarrow> reads s fl F"
  defines "c \<equiv> first_cursor s (int a) (int (a div (32 * W))) (bytes_at F (int (4 * W * (a div (32 * W)))) (int (4 * W)))"
  shows "cursor_ok W s fl dirty F (a div 32) c" "0 < bc_left c" "bc_start c = int a"
proof -
  define B where "B = a div (32 * W)"
  define i where "i = a mod (32 * W) div 32"
  note W = piecesD [OF p]
  have iW: "i < W" using W(1) by (simp add: i_def less_mult_imp_div_less mult.commute)
  have w: "a div 32 = B * W + i"
  proof -
    have "a = 32 * (B * W) + a mod (32 * W)" using mult_div_mod_eq [of "32 * W" a] by (simp add: B_def algebra_simps)
    then have "a div 32 = (32 * (B * W) + a mod (32 * W)) div 32" by simp
    then show ?thesis by (simp add: i_def)
  qed
  have c: "c = \<lparr>bc_start = int a, bc_block = int B, bc_buffer = bytes_at F (int (4 * W * B)) (int (4 * W)), bc_word = int i,
      bc_left = int (W - i)\<rparr>"
    using iW W(2,6) pieces_and [OF p, of a]
    by (simp add: c_def first_cursor_def Let_def i_def B_def of_nat_diff zdiv_int del: of_nat_mod)
  show "0 < bc_left c" "bc_start c = int a" using iW by (simp_all add: c)
  have inF: "4 * W * (B + 1) \<le> length F" using piece_of_block [OF p a] by (simp add: B_def)
  have id: "put_bytes F (int (4 * W * B)) (bytes_at F (int (4 * W * B)) (int (4 * W))) = F"
    by (rule splice_slice_id [OF piece_in_mem [OF inF]])
  show "cursor_ok W s fl dirty F (a div 32) c" unfolding cursor_ok_def
    by (rule conjI [OF p], rule exI [of _ B], rule exI [of _ i], rule exI [of _ a])
      (use iW w inF id d nd in \<open>auto simp: c B_def simp del: of_nat_mult\<close>)
qed

lemma read_first:
  assumes "pieces W s F" "reads s fl F" "a < 8 * length F"
  shows "ReadBitmapBlock s (int a) fl =
    Some (Inr (int (a div (32 * W)), bytes_at F (int (4 * W * (a div (32 * W)))) (int (4 * W))))"
proof -
  have "int a div (vcbVBMIOSize s * 8) = int (a div (32 * W))" using piecesD(2) [OF assms(1)] by (simp add: zdiv_int)
  then show ?thesis using assms(2,3) piecesD(2) [OF assms(1)] by (simp add: reads_def algebra_simps)
qed

end
