(* ===== verification/BitmapReserve.thy ===== *)
theory BitmapReserve
  imports BitmapMarks
begin

text \<open>
  The reservations of a volume on top of its bitmap.  \<open>bits_set\<close> sets the bits of a range in quads of 64 bits;
  \<open>process_reservations\<close> applies it to the copy of a piece, so that a reader sees the tentative and the locked ranges as used blocks.
\<close>

section \<open>Setting bits in quads\<close>

lemma all_bits64: "(0xFFFFFFFFFFFFFFFF :: int) = mask 64"
  by (simp add: mask_eq_exp_minus_1)

lemma RIGHT_MASK_bit: "j < 64 \<Longrightarrow> bit (RIGHT_MASK (int b)) (msb_pos j) \<longleftrightarrow> b \<le> j"
  unfolding RIGHT_MASK_def all_bits64 by (auto simp: bit_SWAP_BE64 bit_simps)

lemma LEFT_MASK_bit: "j < 64 \<Longrightarrow> b \<le> 64 \<Longrightarrow> bit (LEFT_MASK (int b)) (msb_pos j) \<longleftrightarrow> j < b"
proof -
  assume j: "j < 64" and b: "b \<le> 64"
  have "u64 x = take_bit 64 x" for x by (simp add: u64_def take_bit_eq_mod)
  then show ?thesis using j b unfolding LEFT_MASK_def all_bits64 by (auto simp: bit_SWAP_BE64 bit_simps nat_diff_distrib)
qed

definition or_bits :: "mem \<Rightarrow> (nat \<Rightarrow> bool) \<Rightarrow> mem \<Rightarrow> bool" where
  "or_bits m P m' \<longleftrightarrow> length m' = length m \<and> (\<forall>x < 8 * length m. map_used m' x \<longleftrightarrow> map_used m x \<or> P x)"

lemma sets_blocks_or_bits: "sets_blocks m a z m' \<longleftrightarrow> or_bits m (\<lambda>x. a \<le> x \<and> x < z) m'"
  by (simp add: sets_blocks_def or_bits_def)

lemma or_bits_trans: "or_bits m P m1 \<Longrightarrow> or_bits m1 Q m2 \<Longrightarrow> (\<And>x. P x \<or> Q x \<longleftrightarrow> R x) \<Longrightarrow> or_bits m R m2"
  by (simp add: or_bits_def)

lemma or64_at_ok:
  assumes "8 * k + 8 \<le> length m"
  shows "\<exists>m'. or64_at m (int (8 * k)) v = Some m' \<and> or_bits m (\<lambda>x. x div 64 = k \<and> bit v (msb_pos (x mod 64))) m'"
proof -
  let ?w = "le_val (bytes_at m (int (8 * k)) 8)"
  let ?m' = "put_bytes m (int (8 * k)) (le_bytes 8 (?w OR v))"
  have "in_mem m (int (8 * k)) 8" using assms by (simp add: in_mem_def)
  then have "or64_at m (int (8 * k)) v = Some ?m'" and l: "length ?m' = length m"
    by (simp_all add: or64_at_def rd64_def rdn_def wr64_def wrn_def)
  moreover have "map_used ?m' x \<longleftrightarrow> map_used m x \<or> x div 64 = k \<and> bit v (msb_pos (x mod 64))" if "x < 8 * length m" for x
  proof -
    have "x div 64 = k \<Longrightarrow> 64 * k + x mod 64 = x" by auto
    then show ?thesis
      using chunk_write [of 8 k m x "?w OR v"] chunk_bit [of 8 k m "x mod 64"] assms that by (auto simp: bit_or_iff)
  qed
  ultimately show ?thesis by (auto simp: or_bits_def)
qed

lemma fill_quads_ok:
  "8 * k + 8 * n \<le> length m \<Longrightarrow>
     \<exists>m'. fill_quads m (int (8 * k)) n = Some m' \<and> or_bits m (\<lambda>x. k \<le> x div 64 \<and> x div 64 < k + n) m'"
proof (induction n arbitrary: m k)
  case (Suc n)
  let ?m' = "put_bytes m (int (8 * k)) (le_bytes 8 0xFFFFFFFFFFFFFFFF)"
  have in_m: "in_mem m (int (8 * k)) 8" using Suc.prems by (simp add: in_mem_def)
  have one: "or_bits m (\<lambda>x. x div 64 = k) ?m'" unfolding or_bits_def
  proof (intro conjI allI impI)
    fix x assume "x < 8 * length m"
    moreover have "msb_pos (x mod 64) < 64" using msb_pos_less [of "x mod 64" 8] by simp
    then have "bit (0xFFFFFFFFFFFFFFFF :: int) (msb_pos (x mod 64))" unfolding all_bits64 by (simp add: bit_mask_iff)
    ultimately show "map_used ?m' x \<longleftrightarrow> map_used m x \<or> x div 64 = k"
      using chunk_write [of 8 k m x "0xFFFFFFFFFFFFFFFF"] Suc.prems by auto
  qed (use in_m in simp)
  obtain m2 where m2: "fill_quads ?m' (int (8 * Suc k)) n = Some m2" "or_bits ?m' (\<lambda>x. Suc k \<le> x div 64 \<and> x div 64 < Suc k + n) m2"
    using Suc.IH [of "Suc k" ?m'] Suc.prems in_m by auto
  have "or_bits m (\<lambda>x. k \<le> x div 64 \<and> x div 64 < k + Suc n) m2" by (rule or_bits_trans [OF one m2(2)]) auto
  moreover have "int (8 * k) + 8 = int (8 * Suc k)" by simp
  ultimately show ?case using in_m m2(1)
    by (intro exI [of _ m2]) (simp add: wr64_def wrn_def add.commute del: of_nat_mult)
qed (auto simp: or_bits_def)


lemma quad_range:
  fixes a b x :: nat
  assumes "a < b"
  shows "a div 64 = b div 64 \<Longrightarrow> x div 64 = a div 64 \<and> a mod 64 \<le> x mod 64 \<and> x mod 64 < b mod 64 \<longleftrightarrow> a \<le> x \<and> x < b"
    "a div 64 < b div 64 \<Longrightarrow> x div 64 = a div 64 \<and> a mod 64 \<le> x mod 64 \<or> a div 64 + 1 \<le> x div 64 \<and> x div 64 < b div 64 \<or>
       x div 64 = b div 64 \<and> x mod 64 < b mod 64 \<longleftrightarrow> a \<le> x \<and> x < b"
proof -
  obtain k i where a: "a = 64 * k + i" "i < 64" by (metis mod_less_divisor mult_div_mod_eq zero_less_numeral)
  obtain e j where b: "b = 64 * e + j" "j < 64" by (metis mod_less_divisor mult_div_mod_eq zero_less_numeral)
  obtain q r where x: "x = 64 * q + r" "r < 64" by (metis mod_less_divisor mult_div_mod_eq zero_less_numeral)
  show "a div 64 = b div 64 \<Longrightarrow> x div 64 = a div 64 \<and> a mod 64 \<le> x mod 64 \<and> x mod 64 < b mod 64 \<longleftrightarrow> a \<le> x \<and> x < b"
    using a b x by (cases q e rule: linorder_cases) auto
  show "a div 64 < b div 64 \<Longrightarrow> x div 64 = a div 64 \<and> a mod 64 \<le> x mod 64 \<or> a div 64 + 1 \<le> x div 64 \<and> x div 64 < b div 64 \<or>
       x div 64 = b div 64 \<and> x mod 64 < b mod 64 \<longleftrightarrow> a \<le> x \<and> x < b"
    using a b x by (cases q k rule: linorder_cases; cases q e rule: linorder_cases) auto
qed

lemma quads_between:
  fixes a e :: nat
  assumes "a div 64 < e"
  shows "(int (64 * e) - int a - 1) div 64 = int (e - a div 64 - 1)"
proof -
  obtain k i where a: "a = 64 * k + i" "i < 64" by (metis mod_less_divisor mult_div_mod_eq zero_less_numeral)
  then have "k < e" using assms by simp
  then obtain t where t: "e = Suc (k + t)" by (metis less_iff_Suc_add)
  have "int (64 * e) - int a - 1 = (63 - int i) + int t * 64" by (simp add: a(1) t)
  then have "(int (64 * e) - int a - 1) div 64 = int t" using a(2) by (simp del: of_nat_mult)
  then show ?thesis using a t by simp
qed

lemma bits_set_ok:
  assumes ab: "a < b" "b \<le> 8 * length m" and al: "8 dvd length m"
  shows "\<exists>m'. bits_set m (int a) (int b) = Some m' \<and> sets_blocks m a b m'"
proof -
  obtain l where l: "length m = 8 * l" using al by (elim dvdE)
  let ?k = "a div 64" and ?i = "a mod 64" and ?e = "b div 64" and ?j = "b mod 64"
  have ints: "int a mod 64 = int ?i" "int b mod 64 = int ?j" "8 * (int a div 64) = int (8 * ?k)"
    "int a - int ?i = int (64 * ?k)" "int b - int ?j = int (64 * ?e)"
    by (simp_all add: zmod_int zdiv_int minus_mod_eq_mult_div)
  have kl: "?k < l" "?j \<noteq> 0 \<Longrightarrow> ?e < l" "?e \<le> l" 
  proof -
    show "?k < l" "?e \<le> l" using ab l div_le_mono [of b "64 * l" 64] by (simp_all add: less_mult_imp_div_less)
    have "b \<noteq> 64 * l" if "?j \<noteq> 0" using that by auto
    then show "?j \<noteq> 0 \<Longrightarrow> ?e < l" using ab(2) l by (simp add: less_mult_imp_div_less)
  qed
  have x64: "x mod 64 < 64" for x :: nat by simp
  have right: "\<exists>m1. or64_at m (int (8 * ?k)) (RIGHT_MASK (int ?i)) = Some m1 \<and> or_bits m (\<lambda>x. x div 64 = ?k \<and> ?i \<le> x mod 64) m1"
    using or64_at_ok [of ?k m "RIGHT_MASK (int ?i)"] kl l by (simp add: RIGHT_MASK_bit)
  show ?thesis
  proof (cases "?k = ?e")
    case True
    then have j0: "?j \<noteq> 0" using ab by (metis add.right_neutral mult_div_mod_eq not_less_iff_gr_or_eq le_add1 le_eq_less_or_eq leD)
    obtain m' where m': "or64_at m (int (8 * ?k)) (RIGHT_MASK (int ?i) AND LEFT_MASK (int ?j)) = Some m'"
      "or_bits m (\<lambda>x. x div 64 = ?k \<and> ?i \<le> x mod 64 \<and> x mod 64 < ?j) m'"
      using or64_at_ok [of ?k m "RIGHT_MASK (int ?i) AND LEFT_MASK (int ?j)"] kl l
      by (auto simp: bit_and_iff RIGHT_MASK_bit LEFT_MASK_bit)
    then show ?thesis using True j0 quad_range(1) [OF ab(1) True]
      by (intro exI [of _ m']) (simp add: bits_set_def ints sets_blocks_or_bits Let_def)
  next
    case False
    then have ke: "?k < ?e" using ab div_le_mono [of a b 64] by simp
    obtain m1 where m1: "or64_at m (int (8 * ?k)) (RIGHT_MASK (int ?i)) = Some m1" "or_bits m (\<lambda>x. x div 64 = ?k \<and> ?i \<le> x mod 64) m1"
      using right by blast
    define n where "n = ?e - ?k - 1"
    have n: "(int (64 * ?e) - int a - 1) div 64 = int n" using quads_between [OF ke] by (simp add: n_def)
    obtain m2 where m2: "fill_quads m1 (int (8 * (?k + 1))) n = Some m2" "or_bits m1 (\<lambda>x. ?k + 1 \<le> x div 64 \<and> x div 64 < ?e) m2"
    proof -
      have e: "8 * (?k + 1) + 8 * n \<le> length m1" "?k + 1 + n = ?e" using ke kl(3) l m1(2) by (simp_all add: n_def or_bits_def)
      show thesis using fill_quads_ok [OF e(1)] unfolding e(2) by (elim exE conjE) (rule that)
    qed
    have m12: "or_bits m (\<lambda>x. x div 64 = ?k \<and> ?i \<le> x mod 64 \<or> ?k + 1 \<le> x div 64 \<and> x div 64 < ?e) m2"
      using or_bits_trans [OF m1(2) m2(2)] by simp
    have sum: "8 * (?k + 1 + n) = 8 * ?e" using ke by (simp add: n_def)
    show ?thesis
    proof (cases "?j = 0")
      case True
      then show ?thesis using m1(1) m2(1) m12 ke n ints quad_range(2) [OF ab(1) ke]
        by (intro exI [of _ m2]) (simp add: bits_set_def sets_blocks_or_bits Let_def add.commute)
    next
      case False
      obtain m3 where m3: "or64_at m2 (int (8 * ?e)) (LEFT_MASK (int ?j)) = Some m3" "or_bits m2 (\<lambda>x. x div 64 = ?e \<and> x mod 64 < ?j) m3"
        using or64_at_ok [of ?e m2 "LEFT_MASK (int ?j)"] kl False l m12 by (auto simp: LEFT_MASK_bit or_bits_def)
      have "or_bits m (\<lambda>x. a \<le> x \<and> x < b) m3" using or_bits_trans [OF m12 m3(2)] quad_range(2) [OF ab(1) ke] by simp
      moreover have "int (8 * (?k + 1)) + 8 * int n = int (8 * ?e)"
        unfolding sum [symmetric] by (simp only: of_nat_add of_nat_mult of_nat_numeral distrib_left)
      ultimately show ?thesis using m1(1) m2(1) m3(1) ke n ints False
        by (intro exI [of _ m3]) (simp add: bits_set_def sets_blocks_or_bits Let_def add.commute)
    qed
  qed
qed


section \<open>Reservations\<close>

definition entry_ok :: "rl_entry \<Rightarrow> bool" where
  "entry_ok en \<longleftrightarrow> 0 \<le> rl_start en \<and> rl_start en \<le> rl_end en \<and> rl_end en < 2 ^ 32"

definition in_entries :: "rl_entry list \<Rightarrow> nat \<Rightarrow> bool" where
  "in_entries es x \<longleftrightarrow> (\<exists>en\<in>set es. rl_start en \<le> int x \<and> int x \<le> rl_end en)"

lemma in_entries_Nil [simp]: "\<not> in_entries [] x"
  and in_entries_Cons: "in_entries (en # es) x \<longleftrightarrow> rl_start en \<le> int x \<and> int x \<le> rl_end en \<or> in_entries es x"
  by (simp_all add: in_entries_def)

lemma map_used_ones: "x < 8 * n \<Longrightarrow> map_used (replicate n 0xFF) x"
proof -
  assume "x < 8 * n"
  then have "replicate n (0xFF :: 8 word) ! (x div 8) = mask 8" by (simp add: less_mult_imp_div_less mult.commute mask_eq_exp_minus_1)
  then show ?thesis by (simp add: map_used_def bit_mask_iff)
qed

text \<open>The part of an entry that lies in a piece, as positions of the piece.\<close>

lemma set_part:
  assumes "int off \<le> a" "a \<le> b" "b < int (off + 8 * length m)" "off + 8 * length m \<le> 2 ^ 32" "8 dvd length m"
  shows "u32 (u32 a - int off) = a - int off" "u32 (u32 b - int off) = b - int off"
    "\<exists>m'. bits_set m (a - int off) (b - int off + 1) = Some m' \<and> or_bits m (\<lambda>x. a \<le> int (off + x) \<and> int (off + x) \<le> b) m'"
proof -
  have r: "0 \<le> a" "b < 2 ^ 32" using assms(1-4) by (simp_all add: of_nat_less_iff [symmetric, where 'a = int] of_nat_le_iff [symmetric, where 'a = int])
  show "u32 (u32 a - int off) = a - int off" "u32 (u32 b - int off) = b - int off" using r assms(1,2) by simp_all
  define i where "i = nat (a - int off)"
  define j where "j = nat (b - int off + 1)"
  have ij: "a = int off + int i" "b = int off + int j - 1" "i < j" "j \<le> 8 * length m" using assms(1-3) by (auto simp: i_def j_def)
  then obtain m' where "bits_set m (int i) (int j) = Some m'" "sets_blocks m i j m'" using bits_set_ok [OF ij(3,4) assms(5)] by blast
  then show "\<exists>m'. bits_set m (a - int off) (b - int off + 1) = Some m' \<and> or_bits m (\<lambda>x. a \<le> int (off + x) \<and> int (off + x) \<le> b) m'"
    unfolding ij(1,2) sets_blocks_or_bits by (intro exI [of _ m']) (auto simp: or_bits_def)
qed

lemma apply_reservations_ok:
  "\<forall>en\<in>set es. entry_ok en \<Longrightarrow> 8 dvd length m \<Longrightarrow> 0 < length m \<Longrightarrow> off + 8 * length m \<le> 2 ^ 32 \<Longrightarrow>
     \<exists>m'. apply_reservations m (int off) es = Some m' \<and> or_bits m (\<lambda>x. in_entries es (off + x)) m'"
proof (induction es arbitrary: m)
  case (Cons en es)
  let ?stop = "int off + int (length m) * 8 - 1"
  have en: "0 \<le> rl_start en" "rl_start en \<le> rl_end en" "rl_end en < 2 ^ 32" using Cons.prems(1) by (simp_all add: entry_ok_def)
  have go: "\<exists>m''. bits_set m (a - int off) (b - int off + 1) \<bind> (\<lambda>m'. apply_reservations m' (int off) es) = Some m'' \<and>
      or_bits m (\<lambda>x. in_entries (en # es) (off + x)) m''" and idx: "u32 (u32 a - int off) = a - int off" "u32 (u32 b - int off) = b - int off"
    if ab: "int off \<le> a" "a \<le> b" "b < int (off + 8 * length m)"
      and same: "\<And>x. x < 8 * length m \<Longrightarrow> a \<le> int (off + x) \<and> int (off + x) \<le> b \<longleftrightarrow> rl_start en \<le> int (off + x) \<and> int (off + x) \<le> rl_end en" for a b
  proof -
    note part = set_part [OF ab Cons.prems(4,2)]
    show "u32 (u32 a - int off) = a - int off" "u32 (u32 b - int off) = b - int off" by (fact part)+
    obtain m' where m': "bits_set m (a - int off) (b - int off + 1) = Some m'" "or_bits m (\<lambda>x. a \<le> int (off + x) \<and> int (off + x) \<le> b) m'"
      using part(3) by blast
    obtain m'' where "apply_reservations m' (int off) es = Some m''" "or_bits m' (\<lambda>x. in_entries es (off + x)) m''"
    proof -
      have "length m' = length m" using m'(2) by (simp add: or_bits_def)
      then show thesis using Cons.IH [of m', OF _ _ _ _] Cons.prems that by (simp del: One_nat_def) blast
    qed
    then show "\<exists>m''. bits_set m (a - int off) (b - int off + 1) \<bind> (\<lambda>m'. apply_reservations m' (int off) es) = Some m'' \<and>
        or_bits m (\<lambda>x. in_entries (en # es) (off + x)) m''"
      using m' same by (intro exI [of _ m'']) (auto simp: or_bits_def in_entries_Cons)
  qed
  show ?case
  proof (cases "rl_overlap en (int off) ?stop")
    case RL_NOOVERLAP
    then have "\<not> (rl_start en \<le> int (off + x) \<and> int (off + x) \<le> rl_end en)" if "x < 8 * length m" for x
      using that by (auto simp: rl_overlap_def split: if_splits)
    then show ?thesis using Cons.IH [of m] Cons.prems RL_NOOVERLAP by (fastforce simp: or_bits_def in_entries_Cons)
  next
    case RL_OVERLAPCONTAINSRANGE
    then have "rl_start en \<le> int off" "rl_end en \<ge> ?stop" by (auto simp: rl_overlap_def split: if_splits)
    then show ?thesis using RL_OVERLAPCONTAINSRANGE by (auto simp: or_bits_def map_used_ones in_entries_Cons)
  next
    case RL_MATCHINGOVERLAP
    then have "rl_start en \<le> int off" "rl_end en \<ge> ?stop" by (auto simp: rl_overlap_def split: if_splits)
    then show ?thesis using RL_MATCHINGOVERLAP by (auto simp: or_bits_def map_used_ones in_entries_Cons)
  next
    case RL_OVERLAPISCONTAINED
    then have c: "int off \<le> rl_start en" "rl_end en < int (off + 8 * length m)" by (auto simp: rl_overlap_def split: if_splits)
    show ?thesis using go [OF c(1) en(2) c(2)] idx [OF c(1) en(2) c(2)] RL_OVERLAPISCONTAINED c en(2) by (auto simp: Let_def)
  next
    case RL_OVERLAPSTARTSBEFORE
    then have c: "rl_start en < int off" "int off \<le> rl_end en" "rl_end en < int (off + 8 * length m)"
      by (auto simp: rl_overlap_def split: if_splits)
    show ?thesis using go [OF order_refl c(2,3)] idx [OF order_refl c(2,3)] RL_OVERLAPSTARTSBEFORE c by (auto simp: Let_def)
  next
    case RL_OVERLAPENDSAFTER
    then have c: "int off \<le> rl_start en" "rl_start en \<le> ?stop" "?stop < int (off + 8 * length m)" "?stop < rl_end en"
      using en(2) by (auto simp: rl_overlap_def split: if_splits)
    show ?thesis using go [OF c(1-3)] idx [OF c(1-3)] RL_OVERLAPENDSAFTER c by (auto simp: Let_def)
  qed
qed (simp add: or_bits_def)

text \<open>With the reservations applied a piece shows as used what the bitmap or one of the entries covers.\<close>

lemma process_reservations_ok:
  assumes "\<forall>en\<in>set (reserved_entries s fl). entry_ok en" "8 dvd length m" "0 < length m" "off + 8 * length m \<le> 2 ^ 32"
  shows "\<exists>m'. process_reservations s m (int off) fl = Some m' \<and> or_bits m (\<lambda>x. in_entries (reserved_entries s fl) (off + x)) m'"
  unfolding process_reservations_def by (rule apply_reservations_ok [OF assms])


section \<open>Reading the bitmap with its reservations\<close>

lemma map_used_piece:
  assumes "4 * W * (B + 1) \<le> length F" "p < 32 * W"
  shows "map_used (bytes_at F (int (4 * W * B)) (int (4 * W))) p \<longleftrightarrow> map_used F (32 * W * B + p)"
proof -
  have "p div 8 < 4 * W" using assms(2) by (simp add: less_mult_imp_div_less)
  moreover have "(32 * W * B + p) div 8 = 4 * W * B + p div 8" "(32 * W * B + p) mod 8 = p mod 8"
  proof -
    have e: "32 * W * B + p = p + (4 * W * B) * 8" by simp
    show "(32 * W * B + p) div 8 = 4 * W * B + p div 8" "(32 * W * B + p) mod 8 = p mod 8"
      unfolding e by (simp_all only: mod_mult_self1 div_mult_self1 zero_neq_numeral [symmetric] not_False_eq_True)
  qed
  ultimately show ?thesis using nth_slice [OF piece_in_mem [OF assms(1)], of "p div 8"]
    by (simp only: map_used_def nat_int)
qed

definition reserve_ok :: "hfsmount \<Rightarrow> bool" where
  "reserve_ok s \<longleftrightarrow> (\<forall>(r, en)\<in>set (tentative_ranges s @ locked_ranges s). entry_ok en)"

lemma reserve_ok_entries: "reserve_ok s \<Longrightarrow> en \<in> set (reserved_entries s fl) \<Longrightarrow> entry_ok en"
  by (auto simp: reserve_ok_def reserved_entries_def split: if_splits)

lemma reads_reserved:
  assumes p: "pieces W s (allocation_file s)" and e: "no_read_errors s" and ok: "reserve_ok s" and fl: "\<not> ISSET fl HFS_ALLOC_IGNORE_RESERVED"
    and ne: "allocation_file s \<noteq> []"
  shows "\<exists>F. or_bits (allocation_file s) (in_entries (reserved_entries s fl)) F \<and> reads s fl F"
proof -
  let ?A = "allocation_file s" and ?es = "reserved_entries s fl"
  have es: "\<forall>en\<in>set ?es. entry_ok en" using reserve_ok_entries [OF ok] by blast
  note pd = piecesD [OF p]
  obtain h where h: "W = 2 * h" "0 < h"
  proof -
    obtain k where "W = 2 ^ k" using p by (auto simp: pieces_def)
    then have "even W" using pd(1) by (cases k) auto
    then show thesis using pd(1) that by (elim evenE) auto
  qed
  have d8: "8 dvd 4 * W" "8 dvd length ?A" using h dvd_trans [OF _ pd(5), of 8] by simp_all
  obtain F where F: "process_reservations s ?A (int 0) fl = Some F" "or_bits ?A (in_entries ?es) F"
    using process_reservations_ok [OF es d8(2), of 0] ne pd(4) by auto
  have lF: "length F = length ?A" using F(2) by (simp add: or_bits_def)
  have "ReadBitmapBlock s (int b) fl = Some (Inr (int b div (vcbVBMIOSize s * 8),
       bytes_at F (int b div (vcbVBMIOSize s * 8) * vcbVBMIOSize s) (vcbVBMIOSize s)))" if b: "b < 8 * length F" for b
  proof -
    define B where "B = b div (32 * W)"
    have B: "4 * W * (B + 1) \<le> length ?A" using piece_of_block [OF p, of b] b lF by (simp add: B_def)
    have bB: "int b div int (32 * W) = int B" by (simp add: B_def zdiv_int)
    let ?m = "bytes_at ?A (int (4 * W * B)) (int (4 * W))"
    have lm: "length ?m = 4 * W" using length_slice [OF piece_in_mem [OF B]] by simp
    have room: "32 * W * B + 8 * length ?m \<le> 2 ^ 32" using B pd(4) unfolding lm by (simp add: algebra_simps)
    obtain m' where m': "process_reservations s ?m (int (32 * W * B)) fl = Some m'" "or_bits ?m (\<lambda>x. in_entries ?es (32 * W * B + x)) m'"
    proof -
      have "8 dvd length ?m" "0 < length ?m" unfolding lm using d8(1) h by simp_all
      from process_reservations_ok [OF es this room] show thesis using that by blast
    qed
    have "m' = bytes_at F (int (4 * W * B)) (int (4 * W))"
    proof (rule map_used_ext)
      show "length m' = length (bytes_at F (int (4 * W * B)) (int (4 * W)))"
        using length_slice [OF piece_in_mem [OF B [folded lF]]] m'(2) lm by (simp add: or_bits_def)
      fix x assume "x < 8 * length m'"
      then have x: "x < 32 * W" using m'(2) lm by (simp add: or_bits_def)
      have "32 * W * B + x < 8 * length ?A" using x B by (simp add: algebra_simps)
      then have "map_used F (32 * W * B + x) \<longleftrightarrow> map_used ?A (32 * W * B + x) \<or> in_entries ?es (32 * W * B + x)"
        using F(2) by (simp add: or_bits_def)
      moreover have "map_used m' x \<longleftrightarrow> map_used ?m x \<or> in_entries ?es (32 * W * B + x)" using m'(2) x lm by (simp add: or_bits_def)
      ultimately show "map_used m' x = map_used (bytes_at F (int (4 * W * B)) (int (4 * W))) x"
        using map_used_piece [OF B x] map_used_piece [OF B [folded lF] x] by simp
    qed
    moreover have "int B * int (4 * W) = int (4 * W * B)" "int B * int (4 * W) * 8 = int (32 * W * B)" by simp_all
    ultimately show ?thesis
      using m'(1) e fl rdn_in [OF piece_in_mem [OF B]] bB pd(2,6) unfolding ReadBitmapBlock_def Let_def pd(2,6)
      by (simp add: no_read_errors_def algebra_simps)
  qed
  then show ?thesis using F(2) unfolding reads_def by blast
qed

end
