(* ===== verification/BitmapTheory.thy ===== *)
theory BitmapTheory
  imports BitmapReserve
begin

text \<open>
  What the bitmap routines promise to the rest of the allocator: \<open>BlockMarkAllocatedInternal\<close> and \<open>BlockMarkFreeInternal\<close> change the set of
  used blocks by exactly the range they are given, on a volume with or without journal; \<open>hfs_isallocated\<close> and
  \<open>hfs_count_allocated\<close> answer by that set; and what is handed to the journal for unmapping are free blocks only.
\<close>

section \<open>The journal calls return\<close>

definition jnl_live :: "hfsmount \<Rightarrow> bool" where
  "jnl_live s \<longleftrightarrow> (case jnl s of None \<Rightarrow> True | Some j \<Rightarrow> jnl_ready j)"

lemma jnl_live_None [simp]: "jnl s = None \<Longrightarrow> jnl_live s"
  by (simp add: jnl_live_def)

lemma jnl_live_Some: "jnl s = Some j \<Longrightarrow> jnl_live s \<longleftrightarrow> jnl_ready j"
  by (simp add: jnl_live_def)

lemma flush_ready: "jnl_ready j \<Longrightarrow> jnl_ready (snd (journal_request_immediate_flush j))"
  by (auto simp: journal_request_immediate_flush_def jnl_ready_def)

lemma trim_remove_ready:
  "jnl_ready j \<Longrightarrow> \<exists>err j'. journal_trim_remove_extent j off len = Some (err, j') \<and> jnl_ready j'"
  by (auto simp: journal_trim_remove_extent_def jnl_ready_def Let_def split_beta split: option.split)

lemma trim_add_ready:
  "jnl_ready j \<Longrightarrow> \<exists>err j'. journal_trim_add_extent j off len = Some (err, j') \<and> jnl_ready j'"
  by (auto simp: journal_trim_add_extent_def jnl_ready_def Let_def split_beta)

lemma overlap_ready: "jnl_ready j \<Longrightarrow> \<exists>e. journal_trim_extent_overlap j off len = Some e"
  by (auto simp: journal_trim_extent_overlap_def jnl_ready_def Let_def)

definition jnl_only :: "hfsmount \<Rightarrow> hfsmount \<Rightarrow> bool" where
  "jnl_only s s' \<longleftrightarrow> (\<exists>J. s' = s\<lparr>jnl := J\<rparr> \<and> (jnl s = None \<longrightarrow> J = None))"

lemma jnl_only_refl [simp]: "jnl_only s s"
  unfolding jnl_only_def by (rule exI [of _ "jnl s"]) simp

lemma jnl_only_upd [simp]: "jnl s = Some j \<Longrightarrow> jnl_only s (s\<lparr>jnl := J\<rparr>)"
  unfolding jnl_only_def by (rule exI [of _ J]) simp

lemma jnl_only_trans: "jnl_only s t \<Longrightarrow> jnl_only t u \<Longrightarrow> jnl_only s u"
  unfolding jnl_only_def
proof (elim exE conjE)
  fix J J' assume "t = s\<lparr>jnl := J\<rparr>" "jnl s = None \<longrightarrow> J = None" "u = t\<lparr>jnl := J'\<rparr>" "jnl t = None \<longrightarrow> J' = None"
  then show "\<exists>J. u = s\<lparr>jnl := J\<rparr> \<and> (jnl s = None \<longrightarrow> J = None)" by (intro exI [of _ J']) simp
qed

lemma CheckUnmappedBytes_returns: "jnl_live s \<Longrightarrow> \<exists>e f. CheckUnmappedBytes s a n = Some (e, f)"
proof -
  assume live: "jnl_live s"
  show ?thesis
  proof (cases "jnl s")
    case (Some j)
    define off where "off = u64 (u64 (a * blockSize s) + hfsPlusIOPosOffset s)"
    define len where "len = u64 (blockSize s * n)"
    have "jnl_ready j" using Some live by (simp add: jnl_live_def)
    then obtain e where "journal_trim_extent_overlap j off len = Some e" using overlap_ready by blast
    then show ?thesis by (simp add: CheckUnmappedBytes_def Some Let_def off_def [symmetric] len_def [symmetric])
  qed (simp add: CheckUnmappedBytes_def)
qed

lemma request_flush_ok:
  assumes "jnl_live s" shows "\<exists>s'. request_flush s a n = Some s' \<and> jnl_live s' \<and> jnl_only s s'"
proof (cases "jnl s")
  case None
  then show ?thesis using assms by (simp add: request_flush_def)
next
  case (Some j)
  then have r: "jnl_ready j" using assms by (simp add: jnl_live_def)
  obtain e f where "CheckUnmappedBytes s a n = Some (e, f)" using CheckUnmappedBytes_returns [OF assms] by blast
  then show ?thesis using Some assms flush_ready [OF r] by (auto simp: request_flush_def jnl_live_Some)
qed

lemma unmap_alloc_ok:
  assumes "jnl_live s" shows "\<exists>s'. hfs_unmap_alloc_extent s a n = Some s' \<and> jnl_live s' \<and> jnl_only s s'"
proof (cases "jnl s")
  case None
  then show ?thesis using assms by (simp add: hfs_unmap_alloc_extent_def)
next
  case (Some j)
  then have r: "jnl_ready j" using assms by (simp add: jnl_live_def)
  then obtain err j' where "journal_trim_remove_extent j (u64 (a * blockSize s + hfsPlusIOPosOffset s)) (u64 (n * blockSize s)) = Some (err, j')"
    "jnl_ready j'" using trim_remove_ready by blast
  then show ?thesis using Some by (simp add: hfs_unmap_alloc_extent_def jnl_live_Some)
qed

lemma unmap_free_ok:
  assumes "jnl_live s" shows "\<exists>s'. hfs_unmap_free_extent s a n = Some s' \<and> jnl_live s' \<and> jnl_only s s'"
proof (cases "jnl s")
  case None
  then show ?thesis using assms by (simp add: hfs_unmap_free_extent_def)
next
  case (Some j)
  then have r: "jnl_ready j" using assms by (simp add: jnl_live_def)
  obtain err j' where "journal_trim_add_extent j (u64 (a * blockSize s + hfsPlusIOPosOffset s)) (u64 (n * blockSize s)) = Some (err, j')"
    "jnl_ready j'" using trim_add_ready [OF r] by blast
  then show ?thesis using Some assms by (simp add: hfs_unmap_free_extent_def jnl_live_Some Let_def)
qed

section \<open>Marking blocks\<close>

text \<open>The state changes in the bitmap, in the list of its dirtied pieces and in the journal, if there is one, only.\<close>

definition marked :: "hfsmount \<Rightarrow> hfsmount \<Rightarrow> bool" where
  "marked s s' \<longleftrightarrow> (\<exists>J A D. s' = s\<lparr>jnl := J, allocation_file := A, bitmap_dirtied := D\<rparr> \<and> (jnl s = None \<longrightarrow> J = None))"

lemma markedI: "(jnl s = None \<Longrightarrow> J = None) \<Longrightarrow> marked s (s\<lparr>jnl := J, allocation_file := A, bitmap_dirtied := D\<rparr>)"
  unfolding marked_def by (intro exI [of _ J] exI [of _ A] exI [of _ D]) simp

lemma bitmap_ok_pieces:
  assumes "bitmap_ok s" obtains W where "pieces W s (allocation_file s)" "no_read_errors s"
  using assms by (auto simp: bitmap_ok_def)

lemma pieces_W: "pieces W s F \<Longrightarrow> nat (vcbVBMIOSize s div 4) = W"
  by (simp add: pieces_def)

lemma pieces_ext: "pieces W s F \<Longrightarrow> vcbVBMIOSize t = vcbVBMIOSize s \<Longrightarrow> length F' = length F \<Longrightarrow> pieces W t F'"
  by (simp add: pieces_def)

lemma bitmap_ok_cong:
  "bitmap_ok s \<Longrightarrow> vcbVBMIOSize t = vcbVBMIOSize s \<Longrightarrow> length (allocation_file t) = length (allocation_file s) \<Longrightarrow>
     bread_err t = bread_err s \<Longrightarrow> bitmap_ok t"
  by (simp add: bitmap_ok_def pieces_def no_read_errors_def)

definition no_locked_overlap :: "hfsmount \<Rightarrow> int \<Rightarrow> int \<Rightarrow> bool" where
  "no_locked_overlap s a n \<longleftrightarrow> (\<forall>(r, rng)\<in>set (locked_ranges s). rl_overlap rng a (u32 (a + n - 1)) = RL_NOOVERLAP)"

lemma sets_blocks_used:
  "sets_blocks F a z F' \<Longrightarrow> z \<le> 8 * length F \<Longrightarrow>
     {x. x < 8 * length F' \<and> map_used F' x} = {x. x < 8 * length F \<and> map_used F x} \<union> {a..<z}"
  by (auto simp: sets_blocks_def)

lemma clears_blocks_used:
  "clears_blocks F a z F' \<Longrightarrow> {x. x < 8 * length F' \<and> map_used F' x} = {x. x < 8 * length F \<and> map_used F x} - {a..<z}"
  by (auto simp: clears_blocks_def)

lemma BlockMarkAllocated_ok:
  assumes ok: "bitmap_ok s" and live: "jnl_live s"
    and rng: "0 < n" "a + n \<le> bitmap_blocks s" and free: "{a..<a + n} \<inter> used_blocks s = {}"
    and lck: "no_locked_overlap s (int a) (int n)" and fl: "\<not> ISSET fl (HFS_ALLOC_LOCKED OR HFS_ALLOC_TENTATIVE)"
  shows "\<exists>s'. BlockMarkAllocatedInternal s (int a) (int n) fl = Some (0, s') \<and> marked s s' \<and> jnl_live s' \<and> bitmap_ok s' \<and>
     bitmap_blocks s' = bitmap_blocks s \<and> used_blocks s' = used_blocks s \<union> {a..<a + n}"
proof -
  obtain s1 where s1: "request_flush s (int a) (int n) = Some s1" "jnl_live s1" "jnl_only s s1"
    using request_flush_ok [OF live] by blast
  obtain s2 where s2: "hfs_unmap_alloc_extent s1 (int a) (int n) = Some s2" "jnl_live s2" "jnl_only s1 s2"
    using unmap_alloc_ok [OF s1(2)] by blast
  obtain J where J: "s2 = s\<lparr>jnl := J\<rparr>" "jnl s = None \<longrightarrow> J = None" using jnl_only_trans [OF s1(3) s2(3)] unfolding jnl_only_def by (elim exE conjE)
  obtain W where p: "pieces W s (allocation_file s)" and e: "no_read_errors s" using ok by (rule bitmap_ok_pieces)
  let ?F = "allocation_file s"
  have p2: "pieces W s2 ?F" using p by (rule pieces_ext) (simp_all add: J)
  have e2: "no_read_errors s2" and f2: "allocation_file s2 = ?F" using e by (simp_all add: J no_read_errors_def)
  have r2: "reads s2 HFS_ALLOC_IGNORE_RESERVED ?F" using reads_raw [of W s2] p2 e2 f2 by simp
  have aF: "a < 8 * length ?F" using rng by (simp add: bitmap_blocks_def)
  define blk where "blk = int (a div (32 * W))"
  define buf where "buf = bytes_at ?F (int (4 * W * (a div (32 * W)))) (int (4 * W))"
  define c where "c = first_cursor s2 (int a) blk buf"
  note rd = read_first [OF p2 r2 aF, folded blk_def buf_def]
  have c: "cursor_ok W s2 HFS_ALLOC_IGNORE_RESERVED True ?F (a div 32) c" "0 < bc_left c" "bc_start c = int a"
    unfolding c_def blk_def buf_def using first_cursor_ok [OF p2 aF, of True HFS_ALLOC_IGNORE_RESERVED] e2 f2 by auto
  have inv: "a + n \<le> 8 * length ?F \<and> (\<forall>x. a \<le> x \<and> x < a + n \<longrightarrow> \<not> map_used ?F x) \<and> sets_blocks ?F a a ?F"
    using rng free by (auto simp: bitmap_blocks_def used_blocks_def sets_blocks_def)
  have "alloc.finished (a + n) ?F a W s2 HFS_ALLOC_IGNORE_RESERVED ?F
      (walk_blocks HFS_ALLOC_IGNORE_RESERVED True mark_allocated_op s2 c (int (a + n - a)) ())"
    using alloc.walk_blocks_ok [OF c inv] rng by (simp add: bitmap_blocks_def)
  then obtain s' c' F' w where w: "walk_blocks HFS_ALLOC_IGNORE_RESERVED True mark_allocated_op s2 c (int n) () = Some (Walk_done s' c' ())"
    "length F' = length ?F" "same_but_bitmap s2 s'" "cursor_ok W s' HFS_ALLOC_IGNORE_RESERVED True F' w c'" "sets_blocks ?F a (a + n) F'"
    unfolding alloc.finished_def by auto
  define s3 where "s3 = s'\<lparr>allocation_file := F', bitmap_dirtied := bc_block c' # bitmap_dirtied s'\<rparr>"
  have "\<not> (\<exists>(r, rng)\<in>set (locked_ranges s). rl_overlap rng (int a) (u32 (int a + int n - 1)) \<noteq> RL_NOOVERLAP)"
    using lck by (auto simp: no_locked_overlap_def)
  then have "BlockMarkAllocatedInternal s (int a) (int n) fl = Some (0, s3)"
    using fl s1(1) s2(1) rd w(1) cursor_release [OF w(4)]
    unfolding BlockMarkAllocatedInternal_def by (simp add: c_def s3_def)
  moreover have m: "marked s s3" "jnl s3 = jnl s2" "allocation_file s3 = F'" "vcbVBMIOSize s3 = vcbVBMIOSize s" "bread_err s3 = bread_err s"
    using w(3) by (auto simp: s3_def same_but_bitmap_def J(1) intro!: markedI J(2) [rule_format])
  moreover have "jnl_live s3" using s2(2) m(2) by (simp add: jnl_live_def)
  moreover have "bitmap_ok s3" using bitmap_ok_cong [OF ok m(4)] m(3,5) w(2) by simp
  moreover have "bitmap_blocks s3 = bitmap_blocks s" using m(3) w(2) by (simp add: bitmap_blocks_def)
  moreover have "used_blocks s3 = used_blocks s \<union> {a..<a + n}"
    using sets_blocks_used [OF w(5)] rng m(3) by (simp add: used_blocks_def bitmap_blocks_def)
  ultimately show ?thesis by blast
qed

subsection \<open>The free neighbours of a freed range\<close>

lemma single_block_mask: "j < 32 \<Longrightarrow> block_mask (drop_bit j kHighBitInWordMask) j 1"
proof -
  assume j: "j < 32"
  then have "(0x80000000 :: int) div 2 ^ j = 2 ^ (31 - j)" using power_diff [of "2 :: int" j 31] by simp
  then have e: "drop_bit j (0x80000000 :: int) = 2 ^ (31 - j)" by (simp add: drop_bit_eq_div)
  have "(2 :: int) ^ (31 - j) \<le> 2 ^ 31" by (rule power_increasing) simp_all
  then show ?thesis unfolding block_mask_def e using j by (auto simp: bit_exp_iff possible_bit_def)
qed

lemma bitmap_bit_ok:
  assumes "4 * (p div 32) + 4 \<le> length buf"
  shows "bitmap_bit buf p = Some (map_used buf p)"
proof -
  have "get32 buf (word_base (p div 32)) AND SWAP_BE32 (drop_bit (p mod 32) kHighBitInWordMask) = 0 \<longleftrightarrow> \<not> map_used buf p"
    using masked_zero [where b = p and m = 1 and F = buf, OF single_block_mask _ assms] by (auto dest: le_antisym simp: less_Suc_eq_le)
  moreover have "in_mem buf (4 * int (p div 32)) 4" using assms by (simp add: in_mem_def)
  ultimately show ?thesis by (simp add: bitmap_bit_def rd_in word_base_def)
qed

lemma word_room: "4 dvd length buf \<Longrightarrow> p < 8 * length buf \<Longrightarrow> 4 * (p div 32) + 4 \<le> length buf"
proof -
  assume "4 dvd length buf" and p: "p < 8 * length buf"
  then obtain q where q: "length buf = 4 * q" by (elim dvdE)
  then have "p div 32 < q" using p by (simp add: less_mult_imp_div_less)
  then show ?thesis using q by simp
qed

lemma scan_back_ok:
  "p \<le> 8 * length buf \<Longrightarrow> 4 dvd length buf \<Longrightarrow> 0 \<le> k \<Longrightarrow> k + int p < 2 ^ 32 \<Longrightarrow>
   \<exists>d \<le> p. scan_back buf mn p (us, k) = Some (us - int d, k + int d) \<and> (\<forall>x. p - d \<le> x \<and> x < p \<longrightarrow> \<not> map_used buf x)"
proof (induction p arbitrary: us k)
  case (Suc p)
  have bit: "bitmap_bit buf p = Some (map_used buf p)" using Suc.prems by (intro bitmap_bit_ok word_room) auto
  show ?case
  proof (cases "us > mn \<and> \<not> map_used buf p")
    case True
    obtain d where d: "d \<le> p" "scan_back buf mn p (us - 1, k + 1) = Some (us - 1 - int d, k + 1 + int d)"
      "\<forall>x. p - d \<le> x \<and> x < p \<longrightarrow> \<not> map_used buf x" using Suc.IH [of "k + 1" "us - 1"] Suc.prems by auto
    then show ?thesis using True bit Suc.prems
      by (intro exI [of _ "Suc d"]) (auto simp: algebra_simps less_Suc_eq)
  next
    case False
    then show ?thesis using bit by (intro exI [of _ 0]) auto
  qed
qed auto

lemma scan_forward_ok:
  "p + left < 8 * length buf \<Longrightarrow> 4 dvd length buf \<Longrightarrow> 0 \<le> k \<Longrightarrow> k + int left < 2 ^ 32 \<Longrightarrow>
   \<exists>d \<le> left. scan_forward buf mx p left (us, k) = Some (us, k + int d) \<and> (\<forall>x. p < x \<and> x \<le> p + d \<longrightarrow> \<not> map_used buf x)"
proof (induction left arbitrary: p k)
  case (Suc left)
  have bit: "bitmap_bit buf (p + 1) = Some (map_used buf (p + 1))" using Suc.prems by (intro bitmap_bit_ok word_room) auto
  show ?case
  proof (cases "u32 (us + k) < mx \<and> \<not> map_used buf (p + 1)")
    case True
    obtain d where d: "d \<le> left" "scan_forward buf mx (p + 1) left (us, k + 1) = Some (us, k + 1 + int d)"
      "\<forall>x. p + 1 < x \<and> x \<le> p + 1 + d \<longrightarrow> \<not> map_used buf x" using Suc.IH [of "p + 1" "k + 1"] Suc.prems by auto
    then have "\<forall>x. p < x \<and> x \<le> p + Suc d \<longrightarrow> \<not> map_used buf x" using True by (metis Suc_eq_plus1 add_Suc_shift less_Suc_eq not_less_eq nat_less_le le_eq_less_or_eq Suc_leI)
    then show ?thesis using True bit d Suc.prems by (intro exI [of _ "Suc d"]) (auto simp: algebra_simps)
  next
    case False
    then show ?thesis using bit by (intro exI [of _ 0]) auto
  qed
qed auto

text \<open>The last block of a finished walk is in the piece of the cursor.\<close>

lemma cursor_last:
  assumes "cursor_ok W s fl dirty F w c" "w = (z + 31) div 32" "0 < bc_word c" "0 < z"
  shows "bc_buffer c = bytes_at F (int (4 * W * ((z - 1) div (32 * W)))) (int (4 * W))" "4 * W * ((z - 1) div (32 * W) + 1) \<le> length F"
proof -
  obtain B i r where c: "pieces W s F" "bc_block c = int B" "bc_word c = int i" "bc_left c = int (W - i)" "i \<le> W" "w = B * W + i"
    "4 * W * (B + 1) \<le> length F" "bc_start c = int r" "r div (32 * W) = B"
    "bc_buffer c = bytes_at F (int (4 * W * B)) (int (4 * W))" using assms(1) by (rule cursor_okE) blast
  obtain y where y: "z = y + 1" using assms(4) by (metis Suc_eq_plus1 gr0_implies_Suc)
  have "w = y div 32 + 1" using assms(2) y by simp
  moreover obtain i' where i': "i = i' + 1" using assms(3) c(3) by (metis Suc_eq_plus1 gr0_conv_Suc of_nat_0_less_iff)
  ultimately have yw: "y div 32 = B * W + i'" "i' < W" using c(5,6) by simp_all
  have "y div (32 * W) = y div 32 div W" by (simp add: div_mult2_eq)
  also have "\<dots> = B" using yw by simp
  finally have "(z - 1) div (32 * W) = B" using y by simp
  then show "bc_buffer c = bytes_at F (int (4 * W * ((z - 1) div (32 * W)))) (int (4 * W))" "4 * W * ((z - 1) div (32 * W) + 1) \<le> length F"
    using c(7,10) by simp_all
qed


lemma free_left:
  assumes p: "pieces W s F" and a: "a < 8 * length F" and n: "a + n < 2 ^ 32"
  shows "\<exists>d\<le>a. scan_back (bytes_at F (int (4 * W * (a div (32 * W)))) (int (4 * W))) mn (a mod (32 * W)) (int a, int n) =
       Some (int a - int d, int n + int d) \<and> (\<forall>x. a - d \<le> x \<and> x < a \<longrightarrow> \<not> map_used F x)"
proof -
  define B where "B = a div (32 * W)"
  define q where "q = a mod (32 * W)"
  define buf where "buf = bytes_at F (int (4 * W * B)) (int (4 * W))"
  have W0: "0 < W" using piecesD(1) [OF p] by simp
  have inB: "4 * W * (B + 1) \<le> length F" using piece_of_block [OF p a] by (simp add: B_def)
  have lbuf: "length buf = 4 * W" unfolding buf_def using length_slice [OF piece_in_mem [OF inB]] by simp
  have q: "q < 32 * W" "a = 32 * W * B + q" using W0 by (simp_all add: q_def B_def)
  obtain d where d: "d \<le> q" "scan_back buf mn q (int a, int n) = Some (int a - int d, int n + int d)"
    "\<forall>x. q - d \<le> x \<and> x < q \<longrightarrow> \<not> map_used buf x"
    using scan_back_ok [of q buf "int n" mn "int a"] q lbuf n by auto
  have "\<not> map_used F x" if "a - d \<le> x" "x < a" for x
  proof -
    define y where "y = x - 32 * W * B"
    have "32 * W * B \<le> x" using that(1) d(1) q(2) by linarith
    then have "x = 32 * W * B + y" "q - d \<le> y" "y < q" using that q(2) d(1) by (simp_all add: y_def)
    then show ?thesis using d(3) map_used_piece [OF inB, of y] q(1) by (simp add: buf_def)
  qed
  moreover have "d \<le> a" using d(1) q(2) by linarith
  ultimately show ?thesis using d(2) unfolding buf_def B_def q_def by blast
qed

lemma free_right:
  assumes c: "cursor_ok W s fl dirty F ((z + 31) div 32) c" "0 < bc_word c" and z: "0 < z" and k: "k \<le> z" and small: "8 * length F < 2 ^ 32"
  shows "\<exists>d. scan_forward (bc_buffer c) mx ((z - 1) mod (32 * W)) (32 * W - 1 - (z - 1) mod (32 * W)) (us, int k) = Some (us, int k + int d) \<and>
     z + d \<le> 8 * length F \<and> (\<forall>x. z \<le> x \<and> x < z + d \<longrightarrow> \<not> map_used F x)"
proof -
  define B where "B = (z - 1) div (32 * W)"
  define q where "q = (z - 1) mod (32 * W)"
  have "pieces W s F" using c(1) by (rule cursor_okE)
  then have W0: "0 < W" using piecesD(1) by fastforce
  note inB = cursor_last(2) [OF c(1) refl c(2) z, folded B_def]
  have buf: "bc_buffer c = bytes_at F (int (4 * W * B)) (int (4 * W))" unfolding B_def by (rule cursor_last(1) [OF c(1) refl c(2) z])
  have lbuf: "length (bc_buffer c) = 4 * W" unfolding buf using length_slice [OF piece_in_mem [OF inB]] by simp
  have q: "q < 32 * W" "z = 32 * W * B + q + 1" using W0 z by (simp_all add: q_def B_def)
  have room: "32 * W * B + 32 * W \<le> 8 * length F" using inB by (simp add: algebra_simps)
  obtain d where d: "d \<le> 32 * W - 1 - q" "scan_forward (bc_buffer c) mx q (32 * W - 1 - q) (us, int k) = Some (us, int k + int d)"
    "\<forall>x. q < x \<and> x \<le> q + d \<longrightarrow> \<not> map_used (bc_buffer c) x"
  proof -
    have "k + (32 * W - 1 - q) < 2 ^ 32" using k q room small by simp
    then have "int k + int (32 * W - 1 - q) < 2 ^ 32" by (simp flip: of_nat_add)
    then show thesis using that scan_forward_ok [of q "32 * W - 1 - q" "bc_buffer c" "int k" mx us] q(1) lbuf W0 by auto
  qed
  have "\<not> map_used F x" if "z \<le> x" "x < z + d" for x
  proof -
    define y where "y = x - 32 * W * B"
    have "x = 32 * W * B + y" "q < y" "y \<le> q + d" using that q(2) by (simp_all add: y_def)
    then show ?thesis using d(1,3) map_used_piece [OF inB, of y] q(1) by (auto simp: buf)
  qed
  moreover have "z + d \<le> 8 * length F" using d(1) q room by linarith
  ultimately show ?thesis using d(2) unfolding q_def by blast
qed

lemma marked_bitmap: "marked s (s\<lparr>allocation_file := A, bitmap_dirtied := D\<rparr>)"
  unfolding marked_def by (intro exI [of _ "jnl s"] exI [of _ A] exI [of _ D]) simp

lemma marked_jnl: "marked s s' \<Longrightarrow> jnl_only s' t \<Longrightarrow> marked s t"
  unfolding marked_def jnl_only_def
proof (elim exE conjE)
  fix J A D J' assume s': "s' = s\<lparr>jnl := J, allocation_file := A, bitmap_dirtied := D\<rparr>" "t = s'\<lparr>jnl := J'\<rparr>"
    "jnl s = None \<longrightarrow> J = None" "jnl s' = None \<longrightarrow> J' = None"
  then have "t = s\<lparr>jnl := J', allocation_file := A, bitmap_dirtied := D\<rparr>" by (intro hfsmount.equality) simp_all
  moreover have "jnl s = None \<longrightarrow> J' = None" using s' by simp
  ultimately show "\<exists>J A D. t = s\<lparr>jnl := J, allocation_file := A, bitmap_dirtied := D\<rparr> \<and> (jnl s = None \<longrightarrow> J = None)"
    by (intro exI [of _ J'] exI [of _ A] exI [of _ D] conjI)
qed

lemma unmapped_free:
  assumes "\<forall>x. a - d1 \<le> x \<and> x < a \<longrightarrow> \<not> map_used F x" "\<forall>x. a + n \<le> x \<and> x < a + n + d2 \<longrightarrow> \<not> map_used F' x"
    and "allocation_file s = F" "allocation_file t = F'" and used: "used_blocks t = used_blocks s - {a..<a + n}"
  shows "{a - d1..<a + n + d2} \<inter> used_blocks t = {}"
proof -
  have "x \<notin> used_blocks t" if x: "a - d1 \<le> x" "x < a + n + d2" for x
  proof (cases "x < a + n")
    case True
    then show ?thesis using x assms(1,3) unfolding used by (cases "x < a") (auto simp: used_blocks_def)
  next
    case False
    then show ?thesis using x assms(2,4) by (auto simp: used_blocks_def)
  qed
  then show ?thesis by auto
qed

lemma BlockMarkFree_ok:
  assumes ok: "bitmap_ok s" and live: "jnl_live s"
    and rng: "0 < n" "a + n \<le> bitmap_blocks s" "bitmap_blocks s < 2 ^ 32"
    and val: "do_validate \<longrightarrow> int (a + n) \<le> totalBlocks s \<and> {a..<a + n} \<subseteq> used_blocks s"
  shows "\<exists>s' s1 d1 d2. BlockMarkFreeInternal s (int a) (int n) do_validate = Some (0, s') \<and> marked s s' \<and> jnl_live s' \<and> bitmap_ok s' \<and>
     bitmap_blocks s' = bitmap_blocks s \<and> used_blocks s' = used_blocks s - {a..<a + n} \<and>
     jnl s1 = jnl s \<and> hfs_unmap_free_extent s1 (int (a - d1)) (int (d1 + n + d2)) = Some s' \<and> d1 \<le> a \<and> a + n + d2 \<le> bitmap_blocks s \<and>
     {a - d1..<a + n + d2} \<inter> used_blocks s' = {}"
proof -
  obtain W where p: "pieces W s (allocation_file s)" and e: "no_read_errors s" using ok by (rule bitmap_ok_pieces)
  let ?F = "allocation_file s"
  note W = piecesD [OF p]
  have W0: "0 < W" using W(1) by simp
  have r: "reads s HFS_ALLOC_IGNORE_RESERVED ?F" using reads_raw [OF p e] .
  have aF: "a < 8 * length ?F" using rng by (simp add: bitmap_blocks_def)
  define B where "B = a div (32 * W)"
  define blk where "blk = int B"
  define buf where "buf = bytes_at ?F (int (4 * W * B)) (int (4 * W))"
  define c where "c = first_cursor s (int a) blk buf"
  note rd = read_first [OF p r aF, folded B_def, folded blk_def buf_def]
  have c: "cursor_ok W s HFS_ALLOC_IGNORE_RESERVED True ?F (a div 32) c" "0 < bc_left c" "bc_start c = int a"
    unfolding c_def blk_def buf_def B_def using first_cursor_ok [OF p aF, of True HFS_ALLOC_IGNORE_RESERVED] e by auto
  have lt: "a + n < 2 ^ 32" using rng by simp
  obtain mn mx where bnds: "unmap_bounds (int a) (u32 (int a + int n)) (map snd (tentative_ranges s @ locked_ranges s)) (0, 0xFFFFFFFF) = (mn, mx)"
    by fastforce
  obtain d1 where d1: "d1 \<le> a" "scan_back buf mn (a mod (32 * W)) (int a, int n) = Some (int a - int d1, int n + int d1)"
    "\<forall>x. a - d1 \<le> x \<and> x < a \<longrightarrow> \<not> map_used ?F x"
    using free_left [OF p aF lt, of mn] unfolding buf_def B_def by blast
  have inv: "a + n \<le> 8 * length ?F \<and> (do_validate \<longrightarrow> (\<forall>x. a \<le> x \<and> x < a + n \<longrightarrow> map_used ?F x)) \<and> clears_blocks ?F a a ?F"
    using rng val by (auto simp: bitmap_blocks_def used_blocks_def clears_blocks_def)
  have "free.finished (a + n) ?F do_validate a W s HFS_ALLOC_IGNORE_RESERVED ?F
      (walk_blocks HFS_ALLOC_IGNORE_RESERVED True (mark_free_op do_validate) s c (int (a + n - a)) ())"
    using free.walk_blocks_ok [OF c inv] rng by (simp add: bitmap_blocks_def)
  then obtain s' c' F' w where w: "walk_blocks HFS_ALLOC_IGNORE_RESERVED True (mark_free_op do_validate) s c (int n) () = Some (Walk_done s' c' ())"
    "length F' = length ?F" "same_but_bitmap s s'" "cursor_ok W s' HFS_ALLOC_IGNORE_RESERVED True F' w c'" "clears_blocks ?F a (a + n) F'"
    "w = (a + n + 31) div 32" "0 < bc_word c'"
    unfolding free.finished_def by auto
  obtain d2 where d2: "scan_forward (bc_buffer c') mx ((a + n - 1) mod (32 * W)) (32 * W - 1 - (a + n - 1) mod (32 * W)) (int a - int d1, int (n + d1)) =
      Some (int a - int d1, int (n + d1) + int d2)" "a + n + d2 \<le> 8 * length F'" "\<forall>x. a + n \<le> x \<and> x < a + n + d2 \<longrightarrow> \<not> map_used F' x"
    using free_right [OF w(4) [unfolded w(6)] w(7), of "n + d1" mx "int a - int d1"] rng d1(1) w(2) by (auto simp: bitmap_blocks_def)
  define s3 where "s3 = s'\<lparr>allocation_file := F', bitmap_dirtied := bc_block c' # bitmap_dirtied s'\<rparr>"
  have m: "marked s s3" "jnl s3 = jnl s" "allocation_file s3 = F'" "vcbVBMIOSize s3 = vcbVBMIOSize s" "bread_err s3 = bread_err s"
    using w(3) by (auto simp: s3_def same_but_bitmap_def intro: marked_bitmap)
  obtain s4 where s4: "hfs_unmap_free_extent s3 (int (a - d1)) (int (d1 + n + d2)) = Some s4" "jnl_live s4" "jnl_only s3 s4"
    using unmap_free_ok [of s3] live m(2) by (auto simp: jnl_live_def)
  have pos: "nat (int a AND (int (32 * W) - 1)) = a mod (32 * W)"
    "nat (u32 (int a + int n - 1) AND (int (32 * W) - 1)) = (a + n - 1) mod (32 * W)"
    using pieces_and [OF p, of a] pieces_and [OF p, of "a + n - 1"] rng lt by (simp_all add: of_nat_diff)
  have "\<not> (do_validate \<and> u32 (int a + int n) > totalBlocks s)" using val lt by auto
  moreover have "hfs_unmap_free_extent s3 (int a - int d1) (int n + int d1 + int d2) = Some s4"
    using s4(1) d1(1) by (simp add: of_nat_diff add.commute)
  moreover have "nat (int (32 * W)) = 32 * W" by (rule nat_int)
  ultimately have "BlockMarkFreeInternal s (int a) (int n) do_validate = Some (0, s4)"
    using rd bnds d1(2) w(1) d2(1) cursor_release [OF w(4)] pos [unfolded of_nat_mult of_nat_numeral]
    unfolding BlockMarkFreeInternal_def W(6)
    by (simp add: c_def s3_def Let_def)
  moreover have "marked s s4" using m(1) s4(3) by (rule marked_jnl)
  moreover have f4: "allocation_file s4 = F'" "vcbVBMIOSize s4 = vcbVBMIOSize s" "bread_err s4 = bread_err s"
    using s4(3) m by (auto simp: jnl_only_def)
  moreover have "bitmap_ok s4" using bitmap_ok_cong [OF ok f4(2)] f4(1,3) w(2) by simp
  moreover have bb: "bitmap_blocks s4 = bitmap_blocks s" using f4(1) w(2) by (simp add: bitmap_blocks_def)
  moreover have ub: "used_blocks s4 = used_blocks s - {a..<a + n}"
    using clears_blocks_used [OF w(5)] f4(1) by (simp add: used_blocks_def bitmap_blocks_def)
  moreover have "{a - d1..<a + n + d2} \<inter> used_blocks s4 = {}"
    using unmapped_free [OF d1(3) d2(3) refl f4(1) ub] .
  ultimately show ?thesis using m(2) s4 d1(1) d2(2) w(2) bb unfolding bitmap_blocks_def
    by (intro exI [of _ s4] exI [of _ s3] exI [of _ d1] exI [of _ d2]) simp
qed


section \<open>Counting\<close>

text \<open>What a reader of the bitmap sees as used: the used blocks and the reserved ones that its flags do not exclude.\<close>

definition blocks_seen :: "hfsmount \<Rightarrow> int \<Rightarrow> nat set" where
  "blocks_seen s fl = {x. x < bitmap_blocks s \<and> (x \<in> used_blocks s \<or> in_entries (reserved_entries s fl) x)}"

lemma isallocated_internal_ok:
  assumes ok: "bitmap_ok s" "reserve_ok s" and rng: "0 < n" "a + n \<le> bitmap_blocks s" "n < 2 ^ 32"
  defines "S \<equiv> blocks_seen s HFS_ALLOC_IGNORE_TENTATIVE \<inter> {a..<a + n}"
  shows "hfs_isallocated_internal s (int a) (int n) stop_on_first =
     Some (0, Some (if stop_on_first then (if S = {} then 0 else 1) else int (card S)))"
proof -
  obtain W where p: "pieces W s (allocation_file s)" and e: "no_read_errors s" using ok(1) by (rule bitmap_ok_pieces)
  have "allocation_file s \<noteq> []" using rng by (auto simp: bitmap_blocks_def)
  then obtain F where F: "or_bits (allocation_file s) (in_entries (reserved_entries s HFS_ALLOC_IGNORE_TENTATIVE)) F"
    and r: "reads s HFS_ALLOC_IGNORE_TENTATIVE F"
    using reads_reserved [OF p e ok(2), of HFS_ALLOC_IGNORE_TENTATIVE] by (auto simp: ISSET_def)
  have lF: "length F = length (allocation_file s)" using F by (simp add: or_bits_def)
  have pF: "pieces W s F" using p by (rule pieces_ext) (simp_all add: lF)
  have aF: "a < 8 * length F" "a + n \<le> 8 * length F" using rng lF by (simp_all add: bitmap_blocks_def)
  have S: "S = used_in F a (a + n)"
    using F aF by (auto simp: S_def blocks_seen_def used_in_def or_bits_def bitmap_blocks_def used_blocks_def)
  define c where "c = first_cursor s (int a) (int (a div (32 * W))) (bytes_at F (int (4 * W * (a div (32 * W)))) (int (4 * W)))"
  have c: "cursor_ok W s HFS_ALLOC_IGNORE_TENTATIVE False F (a div 32) c" "0 < bc_left c" "bc_start c = int a"
    unfolding c_def using first_cursor_ok [OF pF aF(1), of False HFS_ALLOC_IGNORE_TENTATIVE] r by auto
  have inv: "F = F \<and> a + n - a < 2 ^ 32 \<and> (if stop_on_first then (0 :: int) = 0 \<and> used_in F a a = {} else 0 = int (card (used_in F a a)))"
    using rng(3) by (simp add: used_in_def)
  have "count.finished (a + n) F a stop_on_first W s HFS_ALLOC_IGNORE_TENTATIVE F
      (walk_blocks HFS_ALLOC_IGNORE_TENTATIVE False (count_op stop_on_first) s c (int (a + n - a)) 0)"
    using count.walk_blocks_ok [OF c inv _ aF(2)] rng(1) by simp
  then obtain s' c' v where w: "walk_blocks HFS_ALLOC_IGNORE_TENTATIVE False (count_op stop_on_first) s c (int n) 0 = Some (Walk_done s' c' v)"
    and v: "stop_on_first \<and> v = 1 \<and> S \<noteq> {} \<or> (if stop_on_first then v = 0 \<and> S = {} else v = int (card S))"
    unfolding count.finished_def unfolding S add_diff_cancel_left' by blast
  have "v = (if stop_on_first then (if S = {} then 0 else 1) else int (card S))" using v by (auto split: if_splits)
  then show ?thesis using w read_first [OF pF r aF(1)] by (simp add: hfs_isallocated_internal_def c_def)
qed


section \<open>The properties of the bitmap routines\<close>

lemma used_blocks_file: "used_blocks s = used_blocks t \<Longrightarrow> bitmap_blocks s = bitmap_blocks t \<Longrightarrow> allocation_file s = allocation_file t"
  by (rule map_used_ext) (auto simp: used_blocks_def bitmap_blocks_def)

text \<open>An example: \<^const>\<open>ex_mount\<close> has two pieces of 64 blocks; it is used here with a block locked for another.\<close>

definition ex_locked :: hfsmount where
  "ex_locked = ex_mount\<lparr>locked_ranges := [(0, \<lparr>rl_start = 100, rl_end = 103\<rparr>)], tentative_ranges := [(1, \<lparr>rl_start = 40, rl_end = 45\<rparr>)]\<rparr>"

lemma ex_bitmap_ok: "bitmap_ok ex_mount" "bitmap_ok ex_locked" "jnl_live ex_mount" "bitmap_blocks ex_mount = 128" "bitmap_blocks ex_locked = 128"
proof -
  have l: "length (allocation_file ex_mount) = 16" "length (allocation_file ex_locked) = 16" "vcbVBMIOSize ex_mount = 8" "vcbVBMIOSize ex_locked = 8"
    by (simp_all add: ex_mount_def ex_locked_def)
  have "(2 :: nat) = 2 ^ 1" by simp
  then have "\<exists>k. (2 :: nat) = 2 ^ k" by blast
  then have "pieces 2 ex_mount (allocation_file ex_mount)" "pieces 2 ex_locked (allocation_file ex_locked)" unfolding pieces_def l by simp_all
  then show "bitmap_ok ex_mount" "bitmap_ok ex_locked" using l
    by (simp_all add: bitmap_ok_def no_read_errors_def) (simp_all add: ex_mount_def ex_locked_def)
  show "jnl_live ex_mount" "bitmap_blocks ex_mount = 128" "bitmap_blocks ex_locked = 128"
    unfolding bitmap_blocks_def l by (simp_all add: ex_mount_def)
qed

definition byte_bits :: "8 word \<Rightarrow> bool list" where
  "byte_bits b = [bit b 7, bit b 6, bit b 5, bit b 4, bit b 3, bit b 2, bit b 1, bit b 0]"

lemma map_used_byte: "x < 8 \<Longrightarrow> map_used (b # bs) x = byte_bits b ! x" "map_used (b # bs) (8 + x) = map_used bs x"
proof -
  show "x < 8 \<Longrightarrow> map_used (b # bs) x = byte_bits b ! x"
  proof -
    assume "x < 8"
    then consider "x = 0" | "x = 1" | "x = 2" | "x = 3" | "x = 4" | "x = 5" | "x = 6" | "x = 7" by linarith
    then show ?thesis by cases (simp_all add: map_used_def byte_bits_def)
  qed
qed (simp add: map_used_def div_add_self1)

lemma map_used_bits: "map (map_used bs) [0..<8 * length bs] = concat (map byte_bits bs)"
proof (induction bs)
  case (Cons b bs)
  have "[0..<8 * length (b # bs)] = [0..<8] @ map (\<lambda>i. i + 8) [0..<8 * length bs]"
    using upt_add_eq_append [of 0 8 "8 * length bs"] map_add_upt [of 8 "8 * length bs"] by (simp add: add.commute)
  moreover have "map (map_used (b # bs)) [0..<8] = byte_bits b"
    by (rule nth_equalityI) (auto simp: map_used_byte(1), simp add: byte_bits_def)
  ultimately show ?case using Cons.IH by (simp add: comp_def map_used_byte(2) add.commute [of _ 8])
qed simp

lemma used_blocks_eqI:
  assumes "concat (map byte_bits (allocation_file s)) = map P [0..<bitmap_blocks s]"
  shows "used_blocks s = {x. x < bitmap_blocks s \<and> P x}"
  using assms map_used_bits [of "allocation_file s"] by (auto simp: used_blocks_def bitmap_blocks_def)

lemma ex_mount_used: "used_blocks ex_mount = {0..<30} \<union> {50..<60} \<union> {73..<128}"
proof -
  have "map (\<lambda>x. x < 30 \<or> 50 \<le> x \<and> x < 60 \<or> 73 \<le> x) [0..<128] =
      replicate 30 True @ replicate 20 False @ replicate 10 True @ replicate 13 False @ replicate 55 True" by code_simp
  moreover have "concat (map byte_bits (allocation_file ex_mount)) =
      replicate 30 True @ replicate 20 False @ replicate 10 True @ replicate 13 False @ replicate 55 True"
    by (simp add: ex_mount_def byte_bits_def) (simp add: eval_nat_numeral)
  ultimately have "used_blocks ex_mount = {x. x < bitmap_blocks ex_mount \<and> (x < 30 \<or> 50 \<le> x \<and> x < 60 \<or> 73 \<le> x)}"
    by (intro used_blocks_eqI) (simp add: ex_bitmap_ok)
  also have "\<dots> = {0..<30} \<union> {50..<60} \<union> {73..<128}" unfolding ex_bitmap_ok(4) by (rule set_eqI) (simp, linarith)
  finally show ?thesis .
qed


text \<open>C20: On a volume with a readable bitmap, marking a free range allocated succeeds and adds exactly the blocks of the range to the used
  blocks; besides the bitmap only the journal's trim lists change.
\<close>

theorem BlockMarkAllocated_correct:
  assumes "bitmap_ok s" "jnl_live s" "0 < n" "a + n \<le> bitmap_blocks s" "{a..<a + n} \<inter> used_blocks s = {}"
    and "no_locked_overlap s (int a) (int n)"
  shows "\<exists>s'. BlockMarkAllocated s (int a) (int n) = Some (0, s') \<and> used_blocks s' = used_blocks s \<union> {a..<a + n} \<and>
    marked s s' \<and> bitmap_ok s' \<and> bitmap_blocks s' = bitmap_blocks s"
  using BlockMarkAllocated_ok [OF assms, of 0] unfolding BlockMarkAllocated_def by (auto simp: ISSET_def)

theorem BlockMarkAllocated_correct_witness:
  "\<exists>s'. BlockMarkAllocated ex_mount 31 10 = Some (0, s') \<and> used_blocks s' = used_blocks ex_mount \<union> {31..<41}"
  using BlockMarkAllocated_correct [of ex_mount 10 31] ex_bitmap_ok ex_mount_used
  by (fastforce simp: no_locked_overlap_def ex_mount_def)

text \<open>C19: Freeing a used range succeeds and removes exactly its blocks from the used blocks.  What is handed to the journal for
  unmapping is the range with free neighbours: a range around it in which, afterwards, no block is used.
\<close>

theorem BlockMarkFree_correct:
  assumes "bitmap_ok s" "jnl_live s" "0 < n" "a + n \<le> bitmap_blocks s" "bitmap_blocks s < 2 ^ 32"
    and "int (a + n) \<le> totalBlocks s" "{a..<a + n} \<subseteq> used_blocks s"
  shows "\<exists>s' s1 b m. BlockMarkFree s (int a) (int n) = Some (0, s') \<and> used_blocks s' = used_blocks s - {a..<a + n} \<and> marked s s' \<and>
    jnl s1 = jnl s \<and> hfs_unmap_free_extent s1 (int b) (int m) = Some s' \<and> {a..<a + n} \<subseteq> {b..<b + m} \<and>
    b + m \<le> bitmap_blocks s \<and> {b..<b + m} \<inter> used_blocks s' = {}"
proof -
  obtain s' s1 d1 d2 where *: "BlockMarkFreeInternal s (int a) (int n) True = Some (0, s')" "marked s s'" "used_blocks s' = used_blocks s - {a..<a + n}"
    "jnl s1 = jnl s" "hfs_unmap_free_extent s1 (int (a - d1)) (int (d1 + n + d2)) = Some s'" "d1 \<le> a" "a + n + d2 \<le> bitmap_blocks s"
    "{a - d1..<a + n + d2} \<inter> used_blocks s' = {}"
    using BlockMarkFree_ok [OF assms(1-5), of True] assms(6,7) by blast
  define b m where "b = a - d1" and "m = d1 + n + d2"
  have e: "b + m = a + n + d2" "{a..<a + n} \<subseteq> {b..<b + m}" using *(6) by (auto simp: b_def m_def)
  have "hfs_unmap_free_extent s1 (int b) (int m) = Some s'" "b + m \<le> bitmap_blocks s" "{b..<b + m} \<inter> used_blocks s' = {}"
    using *(5,7,8) unfolding e(1) by (simp_all only: b_def m_def)
  then show ?thesis using *(1-4) e(2) unfolding BlockMarkFree_def by blast
qed

theorem BlockMarkFree_correct_witness:
  "\<exists>s'. BlockMarkFree ex_mount 52 6 = Some (0, s') \<and> used_blocks s' = used_blocks ex_mount - {52..<58}"
proof -
  have "totalBlocks ex_mount = 120" by (simp add: ex_mount_def)
  then show ?thesis using BlockMarkFree_correct [of ex_mount 6 52] ex_bitmap_ok ex_mount_used by fastforce
qed

text \<open>Allocating a range and freeing it again leaves the allocation file as it was, bit by bit.
\<close>

theorem BlockMark_roundtrip:
  assumes "bitmap_ok s" "jnl_live s" "0 < n" "a + n \<le> bitmap_blocks s" "bitmap_blocks s < 2 ^ 32"
    and "int (a + n) \<le> totalBlocks s" "{a..<a + n} \<inter> used_blocks s = {}" "no_locked_overlap s (int a) (int n)"
  shows "\<exists>s1 s2. BlockMarkAllocated s (int a) (int n) = Some (0, s1) \<and> BlockMarkFree s1 (int a) (int n) = Some (0, s2) \<and>
    allocation_file s2 = allocation_file s"
proof -
  obtain s1 where s1: "BlockMarkAllocated s (int a) (int n) = Some (0, s1)" "marked s s1" "jnl_live s1" "bitmap_ok s1" "bitmap_blocks s1 = bitmap_blocks s"
    "used_blocks s1 = used_blocks s \<union> {a..<a + n}"
    using BlockMarkAllocated_ok [OF assms(1-4,7,8), of 0] unfolding BlockMarkAllocated_def by (auto simp: ISSET_def)
  have t: "totalBlocks s1 = totalBlocks s" using s1(2) by (auto simp: marked_def)
  obtain s2 where s2: "BlockMarkFree s1 (int a) (int n) = Some (0, s2)" "bitmap_blocks s2 = bitmap_blocks s1" "used_blocks s2 = used_blocks s1 - {a..<a + n}"
    using BlockMarkFree_ok [OF s1(4,3) assms(3), of a True] s1(5,6) assms(4-6) t unfolding BlockMarkFree_def by auto
  have "used_blocks s2 = used_blocks s" using s2(3) s1(6) assms(7) by blast
  then have "allocation_file s2 = allocation_file s" using s2(2) s1(5) by (intro used_blocks_file) simp_all
  then show ?thesis using s1(1) s2(1) by blast
qed

theorem BlockMark_roundtrip_witness:
  "\<exists>s1 s2. BlockMarkAllocated ex_mount 31 10 = Some (0, s1) \<and> BlockMarkFree s1 31 10 = Some (0, s2) \<and>
    allocation_file s2 = allocation_file ex_mount"
proof -
  have "totalBlocks ex_mount = 120" "locked_ranges ex_mount = []" by (simp_all add: ex_mount_def)
  then show ?thesis using BlockMark_roundtrip [of ex_mount 10 31] ex_bitmap_ok ex_mount_used by (force simp: no_locked_overlap_def)
qed

text \<open>\<open>hfs_count_allocated\<close> returns how many blocks of a range are used or locked, and \<open>hfs_isallocated\<close> whether there is
  one; tentative ranges do not count.
\<close>

theorem hfs_count_allocated_correct:
  assumes "bitmap_ok s" "reserve_ok s" "0 < n" "a + n \<le> bitmap_blocks s" "n < 2 ^ 32"
  shows "hfs_count_allocated s (int a) (int n) = Some (0, Some (int (card (blocks_seen s HFS_ALLOC_IGNORE_TENTATIVE \<inter> {a..<a + n})))) \<and>
    hfs_isallocated s (int a) (int n) = Some (if blocks_seen s HFS_ALLOC_IGNORE_TENTATIVE \<inter> {a..<a + n} = {} then 0 else 1)"
  using isallocated_internal_ok [OF assms, of True] isallocated_internal_ok [OF assms, of False]
  by (simp add: hfs_count_allocated_def hfs_isallocated_def)

theorem hfs_count_allocated_correct_witness:
  "hfs_isallocated ex_locked 40 6 = Some 0"
proof -
  have u: "used_blocks ex_locked = used_blocks ex_mount" by (simp add: used_blocks_def bitmap_blocks_def ex_locked_def)
  have l: "reserved_entries ex_locked HFS_ALLOC_IGNORE_TENTATIVE = [\<lparr>rl_start = 100, rl_end = 103\<rparr>]"
    by (simp add: reserved_entries_def ex_locked_def ISSET_def)
  have "x \<notin> blocks_seen ex_locked HFS_ALLOC_IGNORE_TENTATIVE" if "40 \<le> x" "x < 46" for x
    using that unfolding blocks_seen_def u l ex_mount_used by (simp add: in_entries_def)
  then have "blocks_seen ex_locked HFS_ALLOC_IGNORE_TENTATIVE \<inter> {40..<46} = {}" by fastforce
  moreover have "reserve_ok ex_locked" by (simp add: reserve_ok_def entry_ok_def ex_locked_def)
  ultimately show ?thesis using hfs_count_allocated_correct [of ex_locked 6 40] ex_bitmap_ok by simp
qed

end
