(* ===== verification/SummaryTable.thy ===== *)
theory SummaryTable
  imports VolumeBitmap
begin

text \<open>
  The summary table of \<open>src/kmod/core/VolumeAllocation.c\<close>: one bit for every piece of the bitmap, set when a search found
  no free block in the piece.  It is a hint: a clear bit promises nothing, a set bit is cleared before a block of the piece is freed.
  Errors are \<open>Inl\<close>; an access outside of the table is \<^term>\<open>None\<close>.
\<close>

abbreviation (input) kENOSPC :: int where "kENOSPC \<equiv> 28"

section \<open>Operations\<close>

definition summary_enabled :: "hfsmount \<Rightarrow> bool" where
  "summary_enabled hfsmp = ISSET (hfs_flags hfsmp) HFS_SUMMARY_TABLE"

definition hfs_get_summary_index :: "hfsmount \<Rightarrow> int \<Rightarrow> int + int" where
  "hfs_get_summary_index hfsmp block =
     (if \<not> summary_enabled hfsmp then Inl EINVAL
      else if block \<ge> totalBlocks hfsmp then Inl EINVAL
      else if vcbVBMIOSize hfsmp = 0 then Inl EINVAL
      else Inr (block div u32 (vcbVBMIOSize hfsmp * 8)))"

definition summary_bit :: "hfsmount \<Rightarrow> int \<Rightarrow> bool option" where
  "summary_bit hfsmp index = do {
     current_byte \<leftarrow> rd8 (hfs_summary_table hfsmp) (index div 8);
     Some (current_byte AND push_bit (nat (index mod 8)) 1 \<noteq> 0) }"

text \<open>The error and \<open>*freeblocks\<close>, which is left alone when there is no table.\<close>

definition hfs_check_summary :: "hfsmount \<Rightarrow> int \<Rightarrow> bool \<Rightarrow> (int \<times> bool) option" where
  "hfs_check_summary hfsmp allocblock freeblocks =
     (if vcbVBMIOSize hfsmp = 0 then Some (EINVAL, freeblocks)
      else if \<not> summary_enabled hfsmp then Some (0, freeblocks)
      else case hfs_get_summary_index hfsmp allocblock of
             Inl _ \<Rightarrow> Some (EINVAL, False)
           | Inr index \<Rightarrow> map_option (\<lambda>full. (0, \<not> full)) (summary_bit hfsmp index))"

definition hfs_set_summary :: "hfsmount \<Rightarrow> int \<Rightarrow> bool \<Rightarrow> (int \<times> hfsmount) option" where
  "hfs_set_summary hfsmp summarybit inuse =
     (if vcbVBMIOSize hfsmp = 0 then Some (EINVAL, hfsmp)
      else if \<not> summary_enabled hfsmp then Some (0, hfsmp)
      else do {
        let m = push_bit (nat (summarybit mod 8)) 1;
        current_byte \<leftarrow> rd8 (hfs_summary_table hfsmp) (summarybit div 8);
        table \<leftarrow> wr8 (hfs_summary_table hfsmp) (summarybit div 8)
                   (if inuse then current_byte OR m else current_byte AND (255 - m));
        Some (0, hfsmp\<lparr>hfs_summary_table := table\<rparr>) })"

definition hfs_get_summary_allocblock :: "hfsmount \<Rightarrow> int \<Rightarrow> int + int" where
  "hfs_get_summary_allocblock hfsmp summarybit =
     (let allocblk = u32 (summarybit * u32 (vcbVBMIOSize hfsmp * 8))
      in if allocblk \<ge> totalBlocks hfsmp then Inl EINVAL else Inr allocblk)"

text \<open>The loops over the bits \<open>first, \<dots>, first + n - 1\<close>.\<close>

fun release_bits :: "hfsmount \<Rightarrow> int \<Rightarrow> nat \<Rightarrow> int \<Rightarrow> (int \<times> hfsmount) option" where
  "release_bits hfsmp first 0 err = Some (err, hfsmp)"
| "release_bits hfsmp first (Suc n) err =
     (case hfs_set_summary hfsmp first False of
        None \<Rightarrow> None | Some (err, hfsmp) \<Rightarrow> release_bits hfsmp (first + 1) n err)"

definition hfs_release_summary :: "hfsmount \<Rightarrow> int \<Rightarrow> int \<Rightarrow> (int \<times> hfsmount) option" where
  "hfs_release_summary hfsmp start_blk len =
     (let end_blk = u32 (u32 (start_blk + len) - 1)
      in if \<not> summary_enabled hfsmp then Some (EINVAL, hfsmp)
         else case hfs_get_summary_index hfsmp start_blk of
                Inl err \<Rightarrow> Some (err, hfsmp)
              | Inr start_bit \<Rightarrow>
                  (case hfs_get_summary_index hfsmp end_blk of
                     Inl err \<Rightarrow> Some (err, hfsmp)
                   | Inr end_bit \<Rightarrow> release_bits hfsmp start_bit (nat (end_bit + 1 - start_bit)) 0))"

fun find_clear_bit :: "hfsmount \<Rightarrow> int \<Rightarrow> nat \<Rightarrow> (int + int) option" where
  "find_clear_bit hfsmp bit_index 0 = Some (Inl kENOSPC)"
| "find_clear_bit hfsmp bit_index (Suc n) =
     (case summary_bit hfsmp bit_index of
        None \<Rightarrow> None
      | Some full \<Rightarrow> if full then find_clear_bit hfsmp (bit_index + 1) n
                     else Some (hfs_get_summary_allocblock hfsmp bit_index))"

definition hfs_find_summary_free :: "hfsmount \<Rightarrow> int \<Rightarrow> (int + int) option" where
  "hfs_find_summary_free hfsmp block =
     (if \<not> summary_enabled hfsmp then Some (Inl kENOSPC)
      else case hfs_get_summary_index hfsmp (u32 (allocLimit hfsmp - 1)) of
             Inl err \<Rightarrow> Some (Inl err)
           | Inr summary_cap \<Rightarrow> do {
               (err, maybe_has_blocks) \<leftarrow> hfs_check_summary hfsmp block False;
               if err \<noteq> 0 then Some (Inl err)
               else if maybe_has_blocks then Some (Inr block)
               else case hfs_get_summary_index hfsmp block of
                      Inl err \<Rightarrow> Some (Inl err)
                    | Inr bit_index \<Rightarrow> find_clear_bit hfsmp bit_index (nat (summary_cap + 1 - bit_index)) })"

section \<open>Setting up the table\<close>

definition summary_bits :: "hfsmount \<Rightarrow> int" where
  "summary_bits hfsmp =
     (if blockSize hfsmp \<noteq> vcbVBMIOSize hfsmp
      then u32 (u64 (alloc_c_blocks hfsmp * blockSize hfsmp) div vcbVBMIOSize hfsmp) else alloc_c_blocks hfsmp)"

text \<open>\<open>hfs_init_summary\<close>; \<open>has_bitmap\<close> tells that the mount has a cnode for the bitmap.\<close>

definition hfs_init_summary :: "bool \<Rightarrow> hfsmount \<Rightarrow> int \<times> hfsmount" where
  "hfs_init_summary has_bitmap hfsmp =
     (if \<not> has_bitmap then (EINVAL, hfsmp)
      else if blockSize hfsmp < 4096 then (EINVAL, hfsmp)
      else let summary_size = summary_bits hfsmp; summary_size_bytes = u32 (summary_size div 8 + 1)
           in (0, hfsmp\<lparr>hfs_summary_size := summary_size, hfs_summary_bytes := summary_size_bytes,
                        hfs_flags := hfs_flags hfsmp OR HFS_SUMMARY_TABLE,
                        hfs_summary_table := replicate (nat summary_size_bytes) 0\<rparr>))"

definition hfs_rebuild_summary :: "hfsmount \<Rightarrow> (int \<times> hfsmount) option" where
  "hfs_rebuild_summary hfsmp =
     (let new_summary_size = summary_bits hfsmp
      in if new_summary_size = hfs_summary_size hfsmp then Some (0, hfsmp)
         else let summarybytes = u32 (new_summary_size div 8 + 1);
                  copysize = min summarybytes (hfs_summary_bytes hfsmp)
              in do {
                old \<leftarrow> rdn (hfs_summary_table hfsmp) 0 copysize;
                Some (0, hfsmp\<lparr>hfs_summary_table := put_bytes (replicate (nat summarybytes) 0) 0 old,
                               hfs_summary_size := new_summary_size, hfs_summary_bytes := summarybytes\<rparr>) })"

end
