(* ===== verification/SummaryTheory.thy ===== *)
theory SummaryTheory
  imports BitmapTheory SummaryTable
begin

text \<open>
  The summary table as a set of pieces: what its operations do to the set, that they stay inside of the table and change nothing else,
  and the property that makes the table useful: a piece in the set has no free block (\<open>summary_sound\<close>).
\<close>

section \<open>Bits of the table\<close>

definition full_bit :: "hfsmount \<Rightarrow> nat \<Rightarrow> bool" where
  "full_bit s k \<longleftrightarrow> bit (hfs_summary_table s ! (k div 8)) (k mod 8)"

definition in_table :: "hfsmount \<Rightarrow> nat \<Rightarrow> bool" where
  "in_table s k \<longleftrightarrow> k div 8 < length (hfs_summary_table s)"

definition full_pieces :: "hfsmount \<Rightarrow> nat set" where
  "full_pieces s = {k. in_table s k \<and> full_bit s k}"

lemma bit_index [simp]: "nat (int k div 8) = k div 8" "nat (int k mod 8) = k mod 8"
  by (metis nat_int of_nat_numeral zdiv_int) (metis nat_int of_nat_numeral zmod_int)

lemma in_table_mem: "in_table s k \<Longrightarrow> in_mem (hfs_summary_table s) (int k div 8) 1"
proof -
  assume "in_table s k"
  then have "int (k div 8) + 1 \<le> int (length (hfs_summary_table s))" unfolding in_table_def by linarith
  then show ?thesis by (simp add: in_mem_def zdiv_int)
qed

lemma byte_bit:
  assumes "in_table s k" "i < 8"
  shows "bit (get8 (hfs_summary_table s) (int k div 8)) i \<longleftrightarrow> bit (hfs_summary_table s ! (k div 8)) i"
proof -
  have m: "in_mem (hfs_summary_table s) (int (k div 8)) 1" using in_table_mem [OF assms(1)] by (simp add: zdiv_int)
  have "bit (le_val (bytes_at (hfs_summary_table s) (int (k div 8)) 1)) i \<longleftrightarrow> bit (bytes_at (hfs_summary_table s) (int (k div 8)) 1 ! 0) i"
    using bit_le_val [of i "bytes_at (hfs_summary_table s) (int (k div 8)) 1"] m assms(2) by simp
  then show ?thesis using m nth_slice [OF m, of 0] by (simp add: get8_def zdiv_int)
qed

lemma push_bit_1: "push_bit k (1 :: int) = 2 ^ k"
  by (simp add: push_bit_eq_mult)

lemma and_power: "x AND 2 ^ k = 0 \<longleftrightarrow> \<not> bit (x :: int) k"
proof -
  have "x AND 2 ^ k = (if bit x k then 2 ^ k else 0)" by (rule bit_eqI) (auto simp: bit_simps)
  then show ?thesis by simp
qed

lemma summary_bit_at: "in_table s k \<Longrightarrow> summary_bit s (int k) = Some (full_bit s k)"
  using byte_bit [of s k "k mod 8"] in_table_mem [of s k]
  by (simp add: summary_bit_def rd_in push_bit_1 and_power full_bit_def)

text \<open>Two mounts that differ in the summary table only.\<close>

definition summary_only :: "hfsmount \<Rightarrow> hfsmount \<Rightarrow> bool" where
  "summary_only s s' \<longleftrightarrow> (\<exists>T. s' = s\<lparr>hfs_summary_table := T\<rparr> \<and> length T = length (hfs_summary_table s))"

lemma summary_only_refl [simp]: "summary_only s s"
  unfolding summary_only_def by (rule exI [of _ "hfs_summary_table s"]) simp

lemma summary_only_trans: "summary_only s t \<Longrightarrow> summary_only t u \<Longrightarrow> summary_only s u"
  by (auto simp: summary_only_def)

lemma summary_only_in_table: "summary_only s s' \<Longrightarrow> in_table s' k = in_table s k"
  by (auto simp: summary_only_def in_table_def)

lemma set_summary_at:
  assumes "vcbVBMIOSize s \<noteq> 0" "summary_enabled s" "in_table s k"
  shows "\<exists>s'. hfs_set_summary s (int k) v = Some (0, s') \<and> summary_only s s' \<and>
     full_pieces s' = (if v then insert k (full_pieces s) else full_pieces s - {k})"
proof -
  let ?T = "hfs_summary_table s"
  have m: "in_mem ?T (int k div 8) 1" by (rule in_table_mem [OF assms(3)])
  have m2: "in_mem ?T (int (k div 8)) 1" using m by (simp add: zdiv_int)
  define x where "x = (if v then get8 ?T (int k div 8) OR 2 ^ (k mod 8) else get8 ?T (int k div 8) AND (255 - 2 ^ (k mod 8)))"
  define T where "T = put_bytes ?T (int (k div 8)) (le_bytes 1 x)"
  have "hfs_set_summary s (int k) v = Some (0, s\<lparr>hfs_summary_table := T\<rparr>)"
    using assms m by (simp add: hfs_set_summary_def rd_in wr_in T_def x_def push_bit_1 zdiv_int)
  moreover have len: "length T = length ?T" using m2 by (simp add: T_def)
  moreover have p: "(2 :: int) ^ (k mod 8) \<le> 2 ^ 7" by (rule power_increasing) (simp_all add: less_Suc_eq_le [symmetric])
  have "bit (255 - 2 ^ (k mod 8) :: int) i \<longleftrightarrow> i \<noteq> k mod 8" if "i < 8" for i
  proof -
    have "(255 - 2 ^ (k mod 8) :: int) mod 256 = 255 - 2 ^ (k mod 8)"
      using p by (intro mod_pos_pos_trivial) (simp_all add: less_le_trans [of _ 0])
    then have "255 - 2 ^ (k mod 8) = take_bit 8 (NOT (2 ^ (k mod 8)) :: int)"
      using mod_add_self1 [of 256 "- (2 ^ (k mod 8)) - 1 :: int"] by (simp add: take_bit_eq_mod not_int_def)
    then show ?thesis using that by (auto simp: bit_simps)
  qed
  then have x: "bit x i \<longleftrightarrow> (if i = k mod 8 then v else bit (?T ! (k div 8)) i)" if "i < 8" for i
    using that byte_bit [OF assms(3) that] by (auto simp: x_def bit_simps)
  have nth: "T ! j = (if j = k div 8 then word_of_int x else ?T ! j)" if "j < length ?T" for j
    using nth_splice [of ?T "int (k div 8)" "le_bytes 1 x" j] m2 that by (auto simp: T_def)
  have "full_pieces (s\<lparr>hfs_summary_table := T\<rparr>) = (if v then insert k (full_pieces s) else full_pieces s - {k})" (is "?l = ?r")
  proof (rule set_eqI)
    fix j
    consider "j = k" | "j div 8 = k div 8" "j mod 8 \<noteq> k mod 8" | "j div 8 \<noteq> k div 8" by (metis div_mult_mod_eq)
    then show "j \<in> ?l \<longleftrightarrow> j \<in> ?r"
    proof cases
      case 1
      then show ?thesis using nth [of "k div 8"] x [of "k mod 8"] assms(3) by (auto simp: full_pieces_def in_table_def full_bit_def len bit_simps)
    next
      case 2
      then show ?thesis using nth [of "k div 8"] x [of "j mod 8"] assms(3) by (auto simp: full_pieces_def in_table_def full_bit_def len bit_simps)
    next
      case 3
      then show ?thesis using nth [of "j div 8"] by (auto simp: full_pieces_def in_table_def full_bit_def len)
    qed
  qed
  ultimately show ?thesis by (auto simp: summary_only_def)
qed

lemma release_bits_at:
  assumes "vcbVBMIOSize s \<noteq> 0" "summary_enabled s" "\<forall>j. k \<le> j \<and> j < k + n \<longrightarrow> in_table s j"
  shows "\<exists>e s'. release_bits s (int k) n err = Some (e, s') \<and> summary_only s s' \<and> full_pieces s' = full_pieces s - {k..<k + n}"
  using assms
proof (induction n arbitrary: k s err)
  case (Suc n)
  obtain s1 where s1: "hfs_set_summary s (int k) False = Some (0, s1)" "summary_only s s1" "full_pieces s1 = full_pieces s - {k}"
    using set_summary_at [OF Suc.prems(1,2), of k False] Suc.prems(3) by auto
  have keep: "vcbVBMIOSize s1 \<noteq> 0" "summary_enabled s1" using s1(2) Suc.prems by (auto simp: summary_only_def summary_enabled_def)
  have "\<forall>j. k + 1 \<le> j \<and> j < k + 1 + n \<longrightarrow> in_table s1 j"
    unfolding summary_only_in_table [OF s1(2)] using Suc.prems(3) by (metis Suc_eq_plus1 Suc_leD add.assoc add.commute)
  from Suc.IH [OF keep this, of 0] obtain e s2 where s2: "release_bits s1 (int (k + 1)) n 0 = Some (e, s2)" "summary_only s1 s2"
    "full_pieces s2 = full_pieces s1 - {k + 1..<k + 1 + n}" by blast
  have "full_pieces s2 = full_pieces s - {k..<k + Suc n}" unfolding s2(3) s1(3) by auto
  moreover have "release_bits s (int k) (Suc n) err = Some (e, s2)" using s1(1) s2(1) by (simp add: add.commute)
  ultimately show ?case using summary_only_trans [OF s1(2) s2(2)] by blast
qed simp

section \<open>Pieces of the bitmap\<close>

definition table_ok :: "nat \<Rightarrow> hfsmount \<Rightarrow> bool" where
  "table_ok W s \<longleftrightarrow> (summary_enabled s \<longrightarrow> (\<forall>b. int b < totalBlocks s \<longrightarrow> in_table s (b div (32 * W))))"

definition summary_sound :: "nat \<Rightarrow> nat set \<Rightarrow> hfsmount \<Rightarrow> bool" where
  "summary_sound W S s \<longleftrightarrow> (summary_enabled s \<longrightarrow> (\<forall>x. x div (32 * W) \<in> full_pieces s \<longrightarrow> x \<in> S))"

lemma summary_only_ok:
  assumes "summary_only s s'"
  shows "table_ok W s \<Longrightarrow> table_ok W s'" "summary_enabled s' = summary_enabled s" "pieces W s' F = pieces W s F" "reads s' fl F = reads s fl F"
    "jnl s' = jnl s" "hfs_flags s' = hfs_flags s" "hfs_metazone_start s' = hfs_metazone_start s" "hfs_metazone_end s' = hfs_metazone_end s"
    "allocLimit s' = allocLimit s" "totalBlocks s' = totalBlocks s" "vcbVBMIOSize s' = vcbVBMIOSize s"
proof -
  obtain T where s': "s' = s\<lparr>hfs_summary_table := T\<rparr>" "length T = length (hfs_summary_table s)" using assms by (auto simp: summary_only_def)
  then show "table_ok W s \<Longrightarrow> table_ok W s'" by (simp add: table_ok_def summary_enabled_def in_table_def)
  have "process_reservations s' = process_reservations s" by (intro ext) (simp add: s' process_reservations_def reserved_entries_def)
  moreover have "vcbVBMIOSize s' = vcbVBMIOSize s" "bread_err s' = bread_err s" "allocation_file s' = allocation_file s" by (simp_all add: s')
  ultimately have "ReadBitmapBlock s' b fl = ReadBitmapBlock s b fl" for b by (simp only: ReadBitmapBlock_def)
  then show "reads s' fl F = reads s fl F" by (simp add: reads_def s')
qed (use assms in \<open>auto simp: summary_only_def summary_enabled_def pieces_def\<close>)

lemma summary_sound_mono: "summary_sound W S s \<Longrightarrow> S \<subseteq> S' \<Longrightarrow> summary_sound W S' s"
  by (auto simp: summary_sound_def)

lemma summary_index_at:
  assumes "pieces W s F" "summary_enabled s" "int b < totalBlocks s"
  shows "hfs_get_summary_index s (int b) = Inr (int (b div (32 * W)))"
  using piecesD [OF assms(1)] assms(2,3) by (simp add: hfs_get_summary_index_def zdiv_int)

text \<open>Releasing a range clears the bits of its pieces; so the table stays sound when the range is freed.\<close>

lemma release_summary_at:
  assumes p: "pieces W s F" and t: "table_ok W s" and rng: "0 < n" "int (a + n) \<le> totalBlocks s" "totalBlocks s < 2 ^ 32"
  shows "\<exists>e s'. hfs_release_summary s (int a) (int n) = Some (e, s') \<and> summary_only s s' \<and>
    (\<forall>S. summary_sound W S s \<longrightarrow> summary_sound W (S - {a..<a + n}) s')"
proof (cases "summary_enabled s")
  case False
  then show ?thesis by (simp add: hfs_release_summary_def summary_sound_def)
next
  case True
  define z where "z = a + n - 1"
  have z: "u32 (u32 (int a + int n) - 1) = int z" using rng by (simp add: z_def of_nat_diff)
  have zt: "int z < totalBlocks s" using rng unfolding z_def by linarith
  define f l where "f = a div (32 * W)" and "l = z div (32 * W)"
  have fl: "f \<le> l" using rng by (simp add: f_def l_def z_def div_le_mono)
  have idx: "hfs_get_summary_index s (int a) = Inr (int f)" "hfs_get_summary_index s (int z) = Inr (int l)"
    using summary_index_at [OF p True, of a] summary_index_at [OF p True, of z] rng zt by (simp_all add: f_def l_def)
  have nz: "vcbVBMIOSize s \<noteq> 0" using piecesD [OF p] by simp
  have "in_table s j" if "f \<le> j" "j < f + (l + 1 - f)" for j
  proof -
    have "in_table s l" using t True zt by (simp add: table_ok_def l_def)
    moreover have "j div 8 \<le> l div 8" using that by (intro div_le_mono) simp
    ultimately show ?thesis by (simp add: in_table_def)
  qed
  then obtain e s' where r: "release_bits s (int f) (l + 1 - f) 0 = Some (e, s')" "summary_only s s'" "full_pieces s' = full_pieces s - {f..<f + (l + 1 - f)}"
    using release_bits_at [OF nz True, of f "l + 1 - f" 0] by blast
  have "nat (int l + 1 - int f) = l + 1 - f" by simp
  then have "hfs_release_summary s (int a) (int n) = Some (e, s')" using True idx z r(1) by (simp add: hfs_release_summary_def)
  moreover have "summary_sound W (S - {a..<a + n}) s'" if S: "summary_sound W S s" for S
    unfolding summary_sound_def
  proof (intro impI allI)
    fix x assume x: "x div (32 * W) \<in> full_pieces s'"
    then have "x \<in> S" "\<not> (f \<le> x div (32 * W) \<and> x div (32 * W) \<le> l)" using S True r(3) fl by (auto simp: summary_sound_def)
    moreover have "f \<le> x div (32 * W) \<and> x div (32 * W) \<le> l" if "x \<in> {a..<a + n}"
      using that by (auto simp: f_def l_def z_def intro: div_le_mono)
    ultimately show "x \<in> S - {a..<a + n}" by blast
  qed
  ultimately show ?thesis using r(2) by blast
qed

lemma find_clear_bit_at:
  assumes "\<forall>j. k \<le> j \<and> j < k + n \<longrightarrow> in_table s j"
  shows "(find_clear_bit s (int k) n = Some (Inl kENOSPC) \<and> {k..<k + n} \<subseteq> full_pieces s) \<or>
    (\<exists>j. k \<le> j \<and> j < k + n \<and> find_clear_bit s (int k) n = Some (hfs_get_summary_allocblock s (int j)) \<and>
       {k..<j} \<subseteq> full_pieces s \<and> j \<notin> full_pieces s)"
  using assms
proof (induction n arbitrary: k)
  case (Suc n)
  have b: "summary_bit s (int k) = Some (k \<in> full_pieces s)" using Suc.prems summary_bit_at [of s k] by (simp add: full_pieces_def)
  show ?case
  proof (cases "k \<in> full_pieces s")
    case False
    then show ?thesis using b by (intro disjI2 exI [of _ k]) simp
  next
    case True
    have ins: "{k..<j} \<subseteq> full_pieces s" if "{k + 1..<j} \<subseteq> full_pieces s" for j
      using that True by (metis Suc_eq_plus1 atLeastLessThan_iff subset_iff Suc_leI order_le_less)
    have e: "find_clear_bit s (int k) (Suc n) = find_clear_bit s (int (k + 1)) n" using b True by (simp add: add.commute)
    have "\<forall>j. k + 1 \<le> j \<and> j < k + 1 + n \<longrightarrow> in_table s j" using Suc.prems by (metis Suc_eq_plus1 Suc_leD add.assoc add.commute)
    from Suc.IH [OF this] show ?thesis
    proof
      assume "find_clear_bit s (int (k + 1)) n = Some (Inl kENOSPC) \<and> {k + 1..<k + 1 + n} \<subseteq> full_pieces s"
      then show ?thesis using e ins [of "k + 1 + n"] by simp
    next
      assume "\<exists>j. k + 1 \<le> j \<and> j < k + 1 + n \<and> find_clear_bit s (int (k + 1)) n = Some (hfs_get_summary_allocblock s (int j)) \<and>
        {k + 1..<j} \<subseteq> full_pieces s \<and> j \<notin> full_pieces s"
      then obtain j where "k + 1 \<le> j" "j < k + 1 + n" "find_clear_bit s (int (k + 1)) n = Some (hfs_get_summary_allocblock s (int j))"
        "{k + 1..<j} \<subseteq> full_pieces s" "j \<notin> full_pieces s" by blast
      then show ?thesis using e ins [of j] by (intro disjI2 exI [of _ j]) simp
    qed
  qed
qed simp

text \<open>
  Looking for a piece with free blocks from block \<open>b\<close> on: all pieces are full, or a block is suggested; the pieces of the blocks that the
  suggestion skips are full.
\<close>

lemma find_summary_free_at:
  assumes p: "pieces W s F" and t: "table_ok W s" and en: "summary_enabled s"
    and L: "int b < allocLimit s" "allocLimit s \<le> totalBlocks s" "totalBlocks s < 2 ^ 32"
  shows "(hfs_find_summary_free s (int b) = Some (Inl kENOSPC) \<and>
      (\<forall>y. b \<le> y \<and> int y < allocLimit s \<longrightarrow> y div (32 * W) \<in> full_pieces s)) \<or>
    (\<exists>x. hfs_find_summary_free s (int b) = Some (Inr (int x)) \<and> b \<le> x \<and> int x < allocLimit s \<and>
      (\<forall>y. b \<le> y \<and> y < x \<longrightarrow> y div (32 * W) \<in> full_pieces s))"
proof -
  define l where "l = nat (allocLimit s - 1)"
  have l: "allocLimit s - 1 = int l" "u32 (allocLimit s - 1) = int l" "int l < totalBlocks s" "b \<le> l" using L by (simp_all add: l_def)
  define k q where "k = b div (32 * W)" and "q = l div (32 * W)"
  have kq: "k \<le> q" unfolding k_def q_def using l(4) by (rule div_le_mono)
  have W: "0 < 32 * W" using piecesD(1) [OF p] by simp
  have tab: "in_table s (y div (32 * W))" if "y \<le> l" for y using t en that l(3) by (simp add: table_ok_def)
  have bits: "\<forall>j. k \<le> j \<and> j < k + (q + 1 - k) \<longrightarrow> in_table s j"
  proof (intro allI impI)
    fix j assume "k \<le> j \<and> j < k + (q + 1 - k)"
    then have "j \<le> q" by linarith
    then have "32 * W * j \<le> 32 * W * q" by simp
    also have "\<dots> \<le> l" by (simp add: q_def)
    finally show "in_table s j" using tab [of "32 * W * j"] W by simp
  qed
  have idx: "hfs_get_summary_index s (int b) = Inr (int k)" "hfs_get_summary_index s (int l) = Inr (int q)"
    using summary_index_at [OF p en, of b] summary_index_at [OF p en, of l] L l by (simp_all add: k_def q_def)
  have chk: "hfs_check_summary s (int b) False = Some (0, k \<notin> full_pieces s)"
    using idx(1) en piecesD [OF p] summary_bit_at [of s k] tab [of b] l(4) by (simp add: hfs_check_summary_def k_def full_pieces_def)
  have n: "nat (int q + 1 - int k) = q + 1 - k" by simp
  show ?thesis
  proof (cases "k \<in> full_pieces s")
    case False
    then show ?thesis using en idx chk l L(1) by (intro disjI2 exI [of _ b]) (auto simp: hfs_find_summary_free_def)
  next
    case True
    have run: "hfs_find_summary_free s (int b) = find_clear_bit s (int k) (q + 1 - k)"
      using True en idx chk l n by (simp add: hfs_find_summary_free_def)
    consider "find_clear_bit s (int k) (q + 1 - k) = Some (Inl kENOSPC)" "{k..<k + (q + 1 - k)} \<subseteq> full_pieces s"
      | j where "k \<le> j" "j < k + (q + 1 - k)" "find_clear_bit s (int k) (q + 1 - k) = Some (hfs_get_summary_allocblock s (int j))"
          "{k..<j} \<subseteq> full_pieces s" "j \<notin> full_pieces s" using find_clear_bit_at [OF bits] by blast
    then show ?thesis
    proof cases
      case 1
      have "y div (32 * W) \<in> full_pieces s" if "b \<le> y \<and> int y < allocLimit s" for y
      proof -
        have "y \<le> l" using that l(1) by linarith
        then have "k \<le> y div (32 * W)" "y div (32 * W) \<le> q" using that by (simp_all add: k_def q_def div_le_mono)
        then show ?thesis using 1(2) kq by auto
      qed
      then show ?thesis using run 1 by auto
    next
      case (2 j)
      have jl: "32 * W * j \<le> l"
      proof -
        have "j \<le> q" using 2(1,2) by linarith
        then have "32 * W * j \<le> 32 * W * q" by simp
        also have "\<dots> \<le> l" by (simp add: q_def)
        finally show ?thesis .
      qed
      have "int (32 * W * j) < totalBlocks s" "int (32 * W * j) < allocLimit s" using jl l by linarith+
      moreover have "u32 (int (32 * W * j)) = int (32 * W * j)" unfolding u32_def using calculation L(3) by (intro mod_pos_pos_trivial) simp_all
      moreover have "int j * u32 (vcbVBMIOSize s * 8) = int (32 * W * j)" unfolding piecesD(6) [OF p] by simp
      ultimately have blk: "hfs_get_summary_allocblock s (int j) = Inr (int (32 * W * j))" and
          lim: "int (32 * W * j) < allocLimit s" unfolding hfs_get_summary_allocblock_def by (simp_all only: Let_def) (simp only: linorder_not_le [symmetric] if_False)
      have kj: "k < j" using 2 True by (cases "k = j") auto
      have "b < 32 * W * j" using kj W unfolding k_def by (simp add: div_less_iff_less_mult mult.commute)
      moreover have "y div (32 * W) \<in> full_pieces s" if "b \<le> y \<and> y < 32 * W * j" for y
      proof -
        have "k \<le> y div (32 * W)" using that by (simp add: k_def div_le_mono)
        moreover have "y div (32 * W) < j" using that W by (simp add: div_less_iff_less_mult mult.commute)
        ultimately show ?thesis using 2(4) by auto
      qed
      ultimately show ?thesis using run 2(3) blk lim by (intro disjI2 exI [of _ "32 * W * j"]) simp
    qed
  qed
qed

end
