(* ===== verification/BlockFind.thy ===== *)
theory BlockFind
  imports SummaryTable
begin

text \<open>
  The searches of \<open>src/kmod/core/VolumeAllocation.c\<close> for free blocks: in the free extent cache, for any free blocks and for
  contiguous ones in the bitmap.  The scans read the bitmap piece by piece, skip the metadata zone when they may not use it and record full pieces in
  the summary table.  Loops that can run on without end are \<open>partial_function\<close>s; a panic is \<^term>\<open>None\<close> as well.
\<close>

section \<open>Positions\<close>

definition NextBitmapBlock :: "hfsmount \<Rightarrow> int \<Rightarrow> int" where
  "NextBitmapBlock vcb b =
     (if \<not> ISSET (hfs_flags vcb) HFS_METADATA_ZONE then b
      else if b \<ge> hfs_metazone_start vcb \<and> b \<le> hfs_metazone_end vcb then u32 (hfs_metazone_end vcb + 1) else b)"

text \<open>The start of a search that has to leave out the metadata zone, or nothing when no room is left behind the zone.\<close>

definition skip_metazone :: "hfsmount \<Rightarrow> bool \<Rightarrow> int \<Rightarrow> int \<Rightarrow> int option" where
  "skip_metazone vcb useMetaZone startingBlock endingBlock =
     (if \<not> useMetaZone \<and> ISSET (hfs_flags vcb) HFS_METADATA_ZONE \<and> startingBlock \<le> hfs_metazone_end vcb
      then (if endingBlock > u32 (hfs_metazone_end vcb + 2) then Some (u32 (hfs_metazone_end vcb + 1)) else None)
      else Some startingBlock)"

text \<open>
  A position of a scan: the current block, the piece that is held, the index of the word in it and the words left.  The
  variable \<open>currentWord\<close> of \<open>BlockFindAnyBitmap\<close> is the word at the position, \<open>bitMask\<close> the bit of the block in it.
\<close>

record scan_pos =
  sp_block :: int
  sp_buffer :: mem
  sp_word :: int
  sp_left :: int
  sp_mask :: int

definition current_word :: "scan_pos \<Rightarrow> int option" where
  "current_word c = map_option SWAP_BE32 (rd32 (sp_buffer c) (4 * sp_word c))"

definition scan_start :: "hfsmount \<Rightarrow> int \<Rightarrow> mem \<Rightarrow> scan_pos" where
  "scan_start vcb block buffer =
     (let bitsPerBlock = u32 (vcbVBMIOSize vcb * 8);
          wordIndexInBlock = (block AND (bitsPerBlock - 1)) div 32
      in \<lparr>sp_block = block, sp_buffer = buffer, sp_word = wordIndexInBlock, sp_left = vcbVBMIOSize vcb div 4 - wordIndexInBlock,
          sp_mask = drop_bit (nat (block AND 31)) kHighBitInWordMask\<rparr>)"

text \<open>The next bit, unless the piece is used up: then (\<open>Inl\<close>) its words are all read.\<close>

definition next_bit :: "scan_pos \<Rightarrow> scan_pos + scan_pos" where
  "next_bit c =
     (let m = sp_mask c div 2
      in if m \<noteq> 0 then Inr (c\<lparr>sp_mask := m\<rparr>)
         else let c = c\<lparr>sp_mask := kHighBitInWordMask, sp_word := sp_word c + 1, sp_left := sp_left c - 1\<rparr>
              in if sp_left c = 0 then Inl c else Inr c)"

definition mark_full :: "hfsmount \<Rightarrow> int \<Rightarrow> hfsmount option" where
  "mark_full vcb summary_block_scan =
     (if summary_enabled vcb \<and> summary_block_scan \<noteq> 0
      then case hfs_get_summary_index vcb summary_block_scan of
             Inl _ \<Rightarrow> None
           | Inr index \<Rightarrow> map_option snd (hfs_set_summary vcb index True)
      else Some vcb)"

section \<open>Any free blocks\<close>

text \<open>
  The first loop of \<open>BlockFindAnyBitmap\<close>: the position of the first unallocated block, or the error.  The index in the table of a piece
  that was scanned is used even if looking it up fails; it is undefined then (\<^term>\<open>None\<close>).
\<close>

partial_function (option) find_unallocated :: "hfsmount \<Rightarrow> int \<Rightarrow> int \<Rightarrow> bool \<Rightarrow> int \<Rightarrow> scan_pos \<Rightarrow> (int \<times> hfsmount + hfsmount \<times> scan_pos) option" where
  "find_unallocated vcb endingBlock flags useMetaZone summary_block_scan c =
     (if sp_block c \<ge> endingBlock then Some (Inl (dskFulErr, vcb))
      else case current_word c of
        None \<Rightarrow> None
      | Some w \<Rightarrow>
          if w AND sp_mask c = 0 then Some (Inr (vcb, c))
          else (case next_bit (c\<lparr>sp_block := sp_block c + 1\<rparr>) of
            Inr c \<Rightarrow> find_unallocated vcb endingBlock flags useMetaZone summary_block_scan c
          | Inl c \<Rightarrow>
              (case mark_full vcb summary_block_scan of
                 None \<Rightarrow> None
               | Some vcb \<Rightarrow>
                   (let block = (if useMetaZone then sp_block c else NextBitmapBlock vcb (sp_block c))
                    in if block \<ge> endingBlock then Some (Inl (dskFulErr, vcb))
                       else case ReadBitmapBlock vcb block flags of
                              None \<Rightarrow> None
                            | Some (Inl err) \<Rightarrow> Some (Inl (err, vcb))
                            | Some (Inr (_, buffer)) \<Rightarrow>
                                find_unallocated vcb endingBlock flags useMetaZone block
                                  (c\<lparr>sp_block := block, sp_buffer := buffer, sp_word := 0, sp_left := vcbVBMIOSize vcb div 4\<rparr>)))))"

text \<open>The second loop: the error and the end of the free blocks.  \<open>err\<close> is kept when the loop ends inside of a piece.\<close>

partial_function (option) free_run :: "hfsmount \<Rightarrow> int \<Rightarrow> int \<Rightarrow> bool \<Rightarrow> int \<Rightarrow> scan_pos \<Rightarrow> (int \<times> int) option" where
  "free_run vcb endingBlock flags useMetaZone err c =
     (case current_word c of
        None \<Rightarrow> None
      | Some w \<Rightarrow>
          if w AND sp_mask c \<noteq> 0 then Some (err, sp_block c)
          else (let c = c\<lparr>sp_block := u32 (sp_block c + 1)\<rparr>
                in if sp_block c = endingBlock then Some (err, sp_block c)
                   else case next_bit c of
                     Inr c \<Rightarrow> free_run vcb endingBlock flags useMetaZone err c
                   | Inl c \<Rightarrow>
                       if \<not> useMetaZone \<and> NextBitmapBlock vcb (sp_block c) \<noteq> sp_block c then Some (0, sp_block c)
                       else if sp_block c \<ge> endingBlock then Some (0, sp_block c)
                       else case ReadBitmapBlock vcb (sp_block c) flags of
                              None \<Rightarrow> None
                            | Some (Inl err) \<Rightarrow> Some (err, sp_block c)
                            | Some (Inr (_, buffer)) \<Rightarrow>
                                free_run vcb endingBlock flags useMetaZone 0
                                  (c\<lparr>sp_buffer := buffer, sp_word := 0, sp_left := vcbVBMIOSize vcb div 4\<rparr>)))"

text \<open>The result of the searches: the error, the first block, the number of blocks (0 with an error) and the mount.\<close>

type_synonym found = "int \<times> int \<times> int \<times> hfsmount"

definition found_error :: "int \<Rightarrow> hfsmount \<Rightarrow> found" where
  "found_error err vcb = (err, 0, 0, vcb)"

partial_function (option) BlockFindAnyBitmap :: "hfsmount \<Rightarrow> int \<Rightarrow> int \<Rightarrow> int \<Rightarrow> int \<Rightarrow> found option" where
  "BlockFindAnyBitmap vcb startingBlock endingBlock maxBlocks flags =
     (let useMetaZone = ISSET flags HFS_ALLOC_METAZONE; forceFlush = ISSET flags HFS_ALLOC_FLUSHTXN
      in case skip_metazone vcb useMetaZone startingBlock endingBlock of
        None \<Rightarrow> Some (found_error dskFulErr vcb)
      | Some startingBlock \<Rightarrow>
          (let maxBlocks = min maxBlocks (u32 (endingBlock - startingBlock))
           in case ReadBitmapBlock vcb startingBlock flags of
             None \<Rightarrow> None
           | Some (Inl err) \<Rightarrow> Some (found_error err vcb)
           | Some (Inr (_, buffer)) \<Rightarrow>
               (case find_unallocated vcb endingBlock flags useMetaZone 0 (scan_start vcb startingBlock buffer) of
                  None \<Rightarrow> None
                | Some (Inl (err, vcb)) \<Rightarrow> Some (found_error err vcb)
                | Some (Inr (vcb, c)) \<Rightarrow>
                    (case (if jnl vcb \<noteq> None \<and> \<not> forceFlush then CheckUnmappedBytes vcb (sp_block c) 1 else Some (0, None)) of
                       None \<Rightarrow> None
                     | Some (err, recently_deleted) \<Rightarrow>
                         (case (if err = 0 then recently_deleted else None) of
                            Some nextblk \<Rightarrow> BlockFindAnyBitmap vcb nextblk endingBlock maxBlocks flags
                          | None \<Rightarrow>
                              (let endingBlock = (if sp_block c < u32 (endingBlock - maxBlocks) then u32 (sp_block c + maxBlocks) else endingBlock)
                               in case free_run vcb endingBlock flags useMetaZone err c of
                                    None \<Rightarrow> None
                                  | Some (err, block) \<Rightarrow>
                                      if err \<noteq> 0 then Some (found_error err vcb)
                                      else let actualNumBlocks = u32 (block - sp_block c)
                                           in if u32 (sp_block c + actualNumBlocks) > allocLimit vcb then None
                                              else Some (0, sp_block c, actualNumBlocks, vcb)))))))"

definition BlockFindAny :: "hfsmount \<Rightarrow> int \<Rightarrow> int \<Rightarrow> int \<Rightarrow> int \<Rightarrow> bool \<Rightarrow> found option" where
  "BlockFindAny vcb startingBlock endingBlock maxBlocks flags trustSummary =
     (if summary_enabled vcb then do {
        r \<leftarrow> hfs_find_summary_free vcb startingBlock;
        case r of
          Inr suggested_start \<Rightarrow> BlockFindAnyBitmap vcb suggested_start endingBlock maxBlocks flags
        | Inl err \<Rightarrow> if err = kENOSPC \<and> trustSummary then Some (found_error dskFulErr vcb)
                     else BlockFindAnyBitmap vcb startingBlock endingBlock maxBlocks flags }
      else BlockFindAnyBitmap vcb startingBlock endingBlock maxBlocks flags)"

section \<open>A known extent\<close>

text \<open>The result may be \<open>EIO\<close> with the extent that lies beyond the limit; the volume is then marked inconsistent.\<close>

definition BlockFindKnown :: "hfsmount \<Rightarrow> int \<Rightarrow> HFSPlusExtentDescriptor \<Rightarrow> int \<times> HFSPlusExtentDescriptor \<times> hfsmount" where
  "BlockFindKnown vcb maxBlocks ext =
     (case vcbFreeExt vcb of
        [] \<Rightarrow> (dskFulErr, ext, vcb)
      | e # _ \<Rightarrow>
          if blockCount e = 0 then (dskFulErr, ext, vcb)
          else let ext = extent (startBlock e) (min (blockCount e) maxBlocks)
               in if u32 (startBlock ext + blockCount ext) > allocLimit vcb then (5, ext, vcb\<lparr>vol_inconsistent := True\<rparr>)
                  else (0, ext, vcb))"


section \<open>Contiguous free blocks\<close>

text \<open>
  \<open>BlockFindContiguous\<close> looks at whole words.  The loops over the bits of a word move \<open>bitMask\<close> and the block; a search of used bits ends
  at the end of the word, where the mask is 0.
\<close>

function skip_used :: "int \<Rightarrow> int \<Rightarrow> int \<Rightarrow> int \<times> int" where
  "skip_used w bitMask block = (if bitMask > 0 \<and> w AND bitMask \<noteq> 0 then skip_used w (bitMask div 2) (u32 (block + 1)) else (bitMask, block))"
  by pat_completeness auto
termination by (relation "measure (\<lambda>(_, m, _). nat m)") auto

function skip_free :: "int \<Rightarrow> int \<Rightarrow> int \<Rightarrow> int \<times> int" where
  "skip_free w bitMask block = (if bitMask > 0 \<and> w AND bitMask = 0 then skip_free w (bitMask div 2) (u32 (block + 1)) else (bitMask, block))"
  by pat_completeness auto
termination by (relation "measure (\<lambda>(_, m, _). nat m)") auto

declare skip_used.simps [simp del] skip_free.simps [simp del]

text \<open>An inner loop ends with an error (\<open>ErrorExit\<close>), at \<open>LoopExit\<close>, or at a position.\<close>

datatype contig = Contig_error int hfsmount | Contig_exit hfsmount | Contig_at hfsmount scan_pos

definition load_piece :: "hfsmount \<Rightarrow> int \<Rightarrow> int \<Rightarrow> scan_pos \<Rightarrow> contig option" where
  "load_piece vcb flags block c =
     (case ReadBitmapBlock vcb block flags of
        None \<Rightarrow> None
      | Some (Inl err) \<Rightarrow> Some (Contig_error err vcb)
      | Some (Inr (_, buffer)) \<Rightarrow>
          Some (Contig_at vcb (c\<lparr>sp_block := block, sp_buffer := buffer, sp_word := 0, sp_left := vcbVBMIOSize vcb div 4\<rparr>)))"

text \<open>The next piece in which to look for free blocks.\<close>

definition next_piece :: "hfsmount \<Rightarrow> int \<Rightarrow> int \<Rightarrow> bool \<Rightarrow> bool \<Rightarrow> int \<Rightarrow> scan_pos \<Rightarrow> contig option" where
  "next_piece vcb stopBlock flags useMetaZone trustSummary summary_block_scan c = do {
     vcb \<leftarrow> mark_full vcb summary_block_scan;
     let block = (if useMetaZone then sp_block c else NextBitmapBlock vcb (sp_block c));
     if \<not> useMetaZone \<and> block \<ge> stopBlock then Some (Contig_exit vcb)
     else if trustSummary \<and> summary_enabled vcb then do {
       r \<leftarrow> hfs_find_summary_free vcb block;
       case r of
         Inl err \<Rightarrow> Some (if err \<noteq> kENOSPC then Contig_error err vcb else Contig_exit vcb)
       | Inr suggestion \<Rightarrow> if suggestion \<ge> stopBlock then Some (Contig_exit vcb) else load_piece vcb flags suggestion c }
     else load_piece vcb flags block c }"

definition next_word :: "scan_pos \<Rightarrow> scan_pos" where
  "next_word c = c\<lparr>sp_block := u32 (sp_block c + 32), sp_word := sp_word c + 1, sp_left := sp_left c - 1\<rparr>"

partial_function (option) find_unused_words :: "hfsmount \<Rightarrow> int \<Rightarrow> int \<Rightarrow> bool \<Rightarrow> bool \<Rightarrow> int \<Rightarrow> scan_pos \<Rightarrow> contig option" where
  "find_unused_words vcb stopBlock flags useMetaZone trustSummary summary_block_scan c =
     (if sp_block c \<ge> stopBlock then Some (Contig_at vcb c)
      else case (if sp_left c = 0 then next_piece vcb stopBlock flags useMetaZone trustSummary summary_block_scan c else Some (Contig_at vcb c)) of
        None \<Rightarrow> None
      | Some (Contig_error err vcb) \<Rightarrow> Some (Contig_error err vcb)
      | Some (Contig_exit vcb) \<Rightarrow> Some (Contig_exit vcb)
      | Some (Contig_at vcb c') \<Rightarrow>
          (case current_word c' of
             None \<Rightarrow> None
           | Some w \<Rightarrow>
               if u32 (w + 1) \<noteq> 0 then Some (Contig_at vcb (c'\<lparr>sp_block := snd (skip_used w kHighBitInWordMask (sp_block c'))\<rparr>))
               else find_unused_words vcb stopBlock flags useMetaZone trustSummary
                      (if sp_left c = 0 then sp_block c' else summary_block_scan) (next_word c')))"

definition find_unused :: "hfsmount \<Rightarrow> int \<Rightarrow> int \<Rightarrow> bool \<Rightarrow> bool \<Rightarrow> scan_pos \<Rightarrow> contig option" where
  "find_unused vcb stopBlock flags useMetaZone trustSummary c =
     (let j = sp_block c AND 31
      in if j = 0 then find_unused_words vcb stopBlock flags useMetaZone trustSummary 0 c
         else do {
           w \<leftarrow> current_word c;
           let (bitMask, block) = skip_used w (drop_bit (nat j) kHighBitInWordMask) (sp_block c);
           if bitMask \<noteq> 0 then Some (Contig_at vcb (c\<lparr>sp_block := block\<rparr>))
           else find_unused_words vcb stopBlock flags useMetaZone trustSummary 0
                  (c\<lparr>sp_block := block, sp_word := sp_word c + 1, sp_left := sp_left c - 1\<rparr>) })"

partial_function (option) find_used_words :: "hfsmount \<Rightarrow> int \<Rightarrow> int \<Rightarrow> int \<Rightarrow> bool \<Rightarrow> int \<Rightarrow> scan_pos \<Rightarrow> contig option" where
  "find_used_words vcb endingBlock maxBlocks flags useMetaZone firstBlock c =
     (if sp_block c \<ge> endingBlock then Some (Contig_at vcb c)
      else case (if sp_left c = 0
                 then (if \<not> useMetaZone \<and> NextBitmapBlock vcb (sp_block c) \<noteq> sp_block c then Some (Contig_exit vcb)
                       else load_piece vcb flags (sp_block c) c)
                 else Some (Contig_at vcb c)) of
        None \<Rightarrow> None
      | Some (Contig_error err vcb) \<Rightarrow> Some (Contig_error err vcb)
      | Some (Contig_exit vcb) \<Rightarrow> Some (Contig_exit vcb)
      | Some (Contig_at vcb c) \<Rightarrow>
          (case current_word c of
             None \<Rightarrow> None
           | Some w \<Rightarrow>
               if w \<noteq> 0 then Some (Contig_at vcb (c\<lparr>sp_block := snd (skip_free w kHighBitInWordMask (sp_block c))\<rparr>))
               else if u32 (sp_block (next_word c) - firstBlock) \<ge> maxBlocks then Some (Contig_at vcb (next_word c))
               else find_used_words vcb endingBlock maxBlocks flags useMetaZone firstBlock (next_word c)))"

definition find_used :: "hfsmount \<Rightarrow> int \<Rightarrow> int \<Rightarrow> int \<Rightarrow> bool \<Rightarrow> scan_pos \<Rightarrow> contig option" where
  "find_used vcb endingBlock maxBlocks flags useMetaZone c =
     (let firstBlock = sp_block c; j = sp_block c AND 31
      in if j = 0 then find_used_words vcb endingBlock maxBlocks flags useMetaZone firstBlock c
         else do {
           w \<leftarrow> current_word c;
           let (bitMask, block) = skip_free w (drop_bit (nat j) kHighBitInWordMask) (sp_block c);
           if bitMask \<noteq> 0 then Some (Contig_at vcb (c\<lparr>sp_block := block\<rparr>))
           else find_used_words vcb endingBlock maxBlocks flags useMetaZone firstBlock
                  (c\<lparr>sp_block := block, sp_word := sp_word c + 1, sp_left := sp_left c - 1\<rparr>) })"

text \<open>What is left of a free extent without the tentative ranges; the loop stops at an empty range of the list.\<close>

fun subtract_tentative :: "rl_entry \<Rightarrow> rl_entry list \<Rightarrow> rl_entry" where
  "subtract_tentative free_extent [] = free_extent"
| "subtract_tentative free_extent (rng # rest) =
     (if rl_len rng = 0 then rl_subtract free_extent rng else subtract_tentative (rl_subtract free_extent rng) rest)"

text \<open>A free extent that is too short is entered into the cache, unless its blocks wait for a trim.\<close>

definition cache_found :: "hfsmount \<Rightarrow> int \<Rightarrow> int \<Rightarrow> bool \<Rightarrow> (bool \<times> hfsmount) option" where
  "cache_found vcb firstBlock foundBlocks updated =
     (if foundBlocks = 0 then Some (updated, vcb)
      else if jnl vcb = None then add_free_extent_cache vcb firstBlock foundBlocks
      else do {
        (err, recently_deleted) \<leftarrow> CheckUnmappedBytes vcb firstBlock foundBlocks;
        if err \<noteq> 0 \<or> recently_deleted = None then add_free_extent_cache vcb firstBlock foundBlocks else Some (updated, vcb) })"

text \<open>
  The variables of the outer loop: the first free block, the best extent of an exhaustive search, the free blocks that may remain, and
  \<open>updated_free_extent\<close>.  The loop ends with \<open>ErrorExit\<close> (\<open>Inl\<close>) or with \<open>firstBlock\<close> and \<open>foundBlocks\<close>.
\<close>

record contig_vars =
  cv_first :: int
  cv_best :: "int \<times> int"
  cv_remaining :: int
  cv_updated :: bool

partial_function (option) contig_loop :: "hfsmount \<Rightarrow> int \<Rightarrow> int \<Rightarrow> int \<Rightarrow> bool \<Rightarrow> bool \<Rightarrow> int \<Rightarrow> contig_vars \<Rightarrow> scan_pos \<Rightarrow>
    (int \<times> contig_vars \<times> hfsmount + int \<times> contig_vars \<times> hfsmount) option" where
  "contig_loop vcb endingBlock minBlocks maxBlocks useMetaZone trustSummary flags v c =
     (let stopBlock = u32 (endingBlock - minBlocks + 1)
      in case find_unused vcb stopBlock flags useMetaZone trustSummary c of
        None \<Rightarrow> None
      | Some (Contig_error err vcb) \<Rightarrow> Some (Inl (err, v, vcb))
      | Some (Contig_exit vcb) \<Rightarrow> Some (Inr (0, v, vcb))
      | Some (Contig_at vcb c) \<Rightarrow>
          if sp_block c \<ge> stopBlock then Some (Inr (0, v, vcb))
          else (let v = v\<lparr>cv_first := sp_block c\<rparr>
                in case find_used vcb endingBlock maxBlocks flags useMetaZone c of
                  None \<Rightarrow> None
                | Some (Contig_error err vcb) \<Rightarrow> Some (Inl (err, v, vcb))
                | Some (Contig_exit vcb) \<Rightarrow> Some (Inr (0, v, vcb))
                | Some (Contig_at vcb c) \<Rightarrow>
                    (let c = c\<lparr>sp_block := min (sp_block c) endingBlock\<rparr>;
                         foundBlocks = min (u32 (sp_block c - cv_first v)) maxBlocks;
                         remaining = (if cv_remaining v = 0 then 0
                                      else if foundBlocks > cv_remaining v then 0xFFFFFFFF else cv_remaining v - foundBlocks);
                         hard = ISSET flags HFS_ALLOC_TRY_HARD;
                         best = (if hard \<and> foundBlocks > snd (cv_best v) then (cv_first v, foundBlocks) else cv_best v);
                         v = v\<lparr>cv_remaining := remaining, cv_best := best\<rparr>
                     in if (if hard then foundBlocks \<ge> maxBlocks \<or> snd best \<ge> remaining else foundBlocks \<ge> minBlocks)
                        then Some (Inr (foundBlocks, v, vcb))
                        else (let free_extent = rl_make (cv_first v) (u32 (cv_first v + foundBlocks - 1));
                                  kept = (if ISSET flags HFS_ALLOC_IGNORE_TENTATIVE
                                          then subtract_tentative free_extent (map snd (tentative_ranges vcb)) else free_extent);
                                  (firstBlock, foundBlocks) =
                                    (if ISSET flags HFS_ALLOC_IGNORE_TENTATIVE then (u32 (rl_start kept), u32 (rl_len kept))
                                     else (cv_first v, foundBlocks))
                              in case cache_found vcb firstBlock foundBlocks (cv_updated v) of
                                   None \<Rightarrow> None
                                 | Some (updated, vcb) \<Rightarrow>
                                     (let v = v\<lparr>cv_first := firstBlock, cv_updated := updated\<rparr>
                                      in if sp_block c < stopBlock
                                         then contig_loop vcb endingBlock minBlocks maxBlocks useMetaZone trustSummary flags v c
                                         else Some (Inr (foundBlocks, v, vcb)))))))"

text \<open>On a sparse device the next allocation starts at the smallest free block seen, if the cache changed.\<close>

definition rewind_sparse :: "bool \<Rightarrow> hfsmount \<Rightarrow> hfsmount" where
  "rewind_sparse updated vcb =
     (if updated \<and> sparse_device vcb then
        (let min_start = foldl (\<lambda>m e. if startBlock e < m then startBlock e else m) (totalBlocks vcb) (vcbFreeExt vcb)
         in if min_start \<noteq> totalBlocks vcb
            then vcb\<lparr>nextAllocation := min min_start (nextAllocation vcb), sparseAllocation := min min_start (sparseAllocation vcb)\<rparr>
            else vcb)
      else vcb)"

definition BlockFindContiguous :: "hfsmount \<Rightarrow> int \<Rightarrow> int \<Rightarrow> int \<Rightarrow> int \<Rightarrow> bool \<Rightarrow> bool \<Rightarrow> int \<Rightarrow> found option" where
  "BlockFindContiguous vcb startingBlock endingBlock minBlocks maxBlocks useMetaZone trustSummary flags =
     (case skip_metazone vcb useMetaZone startingBlock endingBlock of
        None \<Rightarrow> Some (found_error dskFulErr vcb)
      | Some startingBlock \<Rightarrow>
          if u32 (endingBlock - startingBlock) < minBlocks then Some (found_error dskFulErr vcb)
          else (let stopBlock = u32 (endingBlock - minBlocks + 1);
                    currentBlock = (if useMetaZone then startingBlock else NextBitmapBlock vcb startingBlock)
                in do {
                  suggestion \<leftarrow> (if trustSummary \<and> summary_enabled vcb then hfs_find_summary_free vcb currentBlock
                                else Some (Inr currentBlock));
                  case suggestion of
                    Inl err \<Rightarrow> Some (found_error (if err \<noteq> kENOSPC then err else dskFulErr) vcb)
                  | Inr block \<Rightarrow>
                      if trustSummary \<and> summary_enabled vcb \<and> block \<ge> stopBlock then Some (found_error dskFulErr vcb)
                      else do {
                        r \<leftarrow> ReadBitmapBlock vcb block flags;
                        case r of
                          Inl err \<Rightarrow> Some (found_error err vcb)
                        | Inr (_, buffer) \<Rightarrow>
                            (let remaining = u32 (freeBlocks vcb - lockedBlocks vcb -
                                   (if ISSET flags HFS_ALLOC_IGNORE_TENTATIVE then 0 else tentativeBlocks vcb));
                                 v = \<lparr>cv_first = 0, cv_best = (0, 0), cv_remaining = remaining, cv_updated = False\<rparr>
                             in do {
                               r \<leftarrow> contig_loop vcb endingBlock minBlocks maxBlocks useMetaZone trustSummary flags v (scan_start vcb block buffer);
                               case r of
                                 Inl (err, v, vcb) \<Rightarrow> Some (found_error err (rewind_sparse (cv_updated v) vcb))
                               | Inr (found, v, vcb) \<Rightarrow>
                                   (let (firstBlock, foundBlocks) = (if ISSET flags HFS_ALLOC_TRY_HARD then cv_best v else (cv_first v, found))
                                    in if foundBlocks < minBlocks then Some (found_error dskFulErr (rewind_sparse (cv_updated v) vcb))
                                       else if u32 (firstBlock + foundBlocks) > allocLimit vcb then None
                                       else Some (0, firstBlock, foundBlocks, rewind_sparse (cv_updated v) vcb)) }) } }))"


definition extents_overlap :: "int \<Rightarrow> int \<Rightarrow> int \<Rightarrow> int \<Rightarrow> bool" where
  "extents_overlap start1 len1 start2 len2 \<longleftrightarrow> \<not> (u32 (start1 + len1) \<le> start2 \<or> u32 (start2 + len2) \<le> start1)"

text \<open>
  \<open>BlockFindContig\<close>: an extent whose blocks wait for a trim is remembered (\<open>collision\<close>; none when its start is 0) and the search goes on behind it.  With an error
  the extent of the caller is left alone; here it is 0.
\<close>

partial_function (option) BlockFindContig_loop :: "hfsmount \<Rightarrow> int \<Rightarrow> int \<Rightarrow> int \<Rightarrow> int \<Rightarrow> int \<times> int \<Rightarrow> found option" where
  "BlockFindContig_loop vcb currentStart minBlocks maxBlocks flags collision =
     (let useMetaZone = ISSET flags HFS_ALLOC_METAZONE
      in case BlockFindContiguous vcb currentStart (allocLimit vcb) minBlocks maxBlocks useMetaZone True flags of
        None \<Rightarrow> None
      | Some (retval, foundStart, foundCount, vcb) \<Rightarrow>
          (case (if retval = dskFulErr \<and> currentStart \<noteq> 0
                 then BlockFindContiguous vcb 1 (if summary_enabled vcb then allocLimit vcb else currentStart) minBlocks maxBlocks useMetaZone False flags
                 else Some (retval, foundStart, foundCount, vcb)) of
             None \<Rightarrow> None
           | Some (retval, foundStart, foundCount, vcb) \<Rightarrow>
               if retval \<noteq> 0 then Some (found_error retval vcb)
               else if fst collision \<noteq> 0 \<and> extents_overlap foundStart foundCount (fst collision) (snd collision)
               then Some (if ISSET flags HFS_ALLOC_FLUSHTXN then (0, fst collision, snd collision, vcb) else found_error dskFulErr vcb)
               else (case (if jnl vcb \<noteq> None then CheckUnmappedBytes vcb foundStart foundCount else Some (0, None)) of
                       None \<Rightarrow> None
                     | Some (err, recently_deleted) \<Rightarrow>
                         (case (if err = 0 then recently_deleted else None) of
                            Some nextStart \<Rightarrow>
                              BlockFindContig_loop vcb nextStart minBlocks maxBlocks flags
                                (if fst collision = 0 then (foundStart, foundCount) else collision)
                          | None \<Rightarrow>
                              if foundStart = 0 \<and> foundCount = 0
                              then BlockFindContig_loop vcb currentStart minBlocks maxBlocks flags collision
                              else Some (0, foundStart, foundCount, vcb)))))"

definition BlockFindContig :: "hfsmount \<Rightarrow> int \<Rightarrow> int \<Rightarrow> int \<Rightarrow> int \<Rightarrow> found option" where
  "BlockFindContig vcb startingBlock minBlocks maxBlocks flags = BlockFindContig_loop vcb startingBlock minBlocks maxBlocks flags (0, 0)"

definition hfs_alloc_try_hard :: "hfsmount \<Rightarrow> HFSPlusExtentDescriptor \<Rightarrow> int \<Rightarrow> int \<Rightarrow> found option" where
  "hfs_alloc_try_hard hfsmp ext max_blocks flags =
     (let min_blocks = blockCount ext;
          exhaustive = (\<lambda>hfsmp. BlockFindContiguous hfsmp 1 (allocLimit hfsmp) min_blocks max_blocks True True flags)
      in do {
        (err, start, count, hfsmp) \<leftarrow>
          (if startBlock ext > 0 \<and> startBlock ext < allocLimit hfsmp \<and> u32 (allocLimit hfsmp - startBlock ext) > max_blocks
           then BlockFindContiguous hfsmp (startBlock ext) (u32 (startBlock ext + max_blocks)) max_blocks max_blocks True True flags
           else Some (dskFulErr, startBlock ext, blockCount ext, hfsmp));
        if err \<noteq> dskFulErr then Some (err, start, count, hfsmp)
        else case BlockFindKnown hfsmp max_blocks (extent start count) of (err, ext, hfsmp) \<Rightarrow>
          if err = 0 then (if blockCount ext \<ge> max_blocks then Some (0, startBlock ext, blockCount ext, hfsmp) else exhaustive hfsmp)
          else if err \<noteq> dskFulErr then Some (err, startBlock ext, blockCount ext, hfsmp)
          else exhaustive hfsmp })"

section \<open>The metadata zone\<close>

definition freebitcount :: "int list" where
  "freebitcount = [4, 3, 3, 2, 3, 2, 2, 1, 3, 2, 2, 1, 2, 1, 1, 0]"

definition free_bits_of :: "int \<Rightarrow> int" where
  "free_bits_of byte = freebitcount ! nat (byte AND 0x0F) + freebitcount ! nat (drop_bit 4 byte AND 0x0F)"

text \<open>The loop of \<open>MetaZoneFreeBlocks\<close>: the piece with the bytes left in it, and the next byte.\<close>

partial_function (option) count_zone :: "hfsmount \<Rightarrow> int \<Rightarrow> int \<Rightarrow> int \<Rightarrow> mem \<Rightarrow> int \<Rightarrow> int option" where
  "count_zone vcb b lastbit bytesleft buffer freeblocks =
     (if b \<ge> lastbit then Some freeblocks
      else case (if bytesleft = 0 then map_option (map_sum id snd) (ReadBitmapBlock vcb b HFS_ALLOC_IGNORE_TENTATIVE) else Some (Inr buffer)) of
             None \<Rightarrow> None
           | Some (Inl _) \<Rightarrow> Some 0
           | Some (Inr buffer) \<Rightarrow>
               (let bytesleft = (if bytesleft = 0 then vcbVBMIOSize vcb else bytesleft)
                in case rd8 buffer (vcbVBMIOSize vcb - bytesleft) of
                     None \<Rightarrow> None
                   | Some byte \<Rightarrow> count_zone vcb (u32 (b + 8)) lastbit (bytesleft - 1) buffer (u32 (freeblocks + free_bits_of byte))))"

definition MetaZoneFreeBlocks :: "hfsmount \<Rightarrow> int option" where
  "MetaZoneFreeBlocks vcb =
     count_zone vcb (if hfs_metazone_start vcb = 1 then 0 else hfs_metazone_start vcb) (hfs_metazone_end vcb) 0 [] 0"

end
