(* ===== verification/BlockAllocator.thy ===== *)
theory BlockAllocator
  imports BlockFind
begin

text \<open>
  The entry points of \<open>src/kmod/core/VolumeAllocation.c\<close>: reservations, allocation, release, and the change of the allocation limit.
  Requests to the device (pinning, mapping and unmapping on fast devices) are calls of the record of operations or are
  collected in \<open>unmap_requests\<close>; notifications do not change the mount.
\<close>

section \<open>Reservations\<close>

text \<open>The list of a reservation: tentative (\<open>False\<close>) or locked (\<open>True\<close>).  A released reservation is in no list; its range reads as \<open>-1 \<dots> -2\<close>.\<close>

definition reserved_list :: "hfsmount \<Rightarrow> bool \<Rightarrow> reservation list" where
  "reserved_list hfsmp locked = (if locked then locked_ranges hfsmp else tentative_ranges hfsmp)"

definition set_reserved :: "bool \<Rightarrow> reservation list \<Rightarrow> hfsmount \<Rightarrow> hfsmount" where
  "set_reserved locked rs hfsmp = (if locked then hfsmp\<lparr>locked_ranges := rs\<rparr> else hfsmp\<lparr>tentative_ranges := rs\<rparr>)"

definition range_of :: "hfsmount \<Rightarrow> bool \<Rightarrow> nat \<Rightarrow> rl_entry" where
  "range_of hfsmp locked r = (case map_of (reserved_list hfsmp locked) r of None \<Rightarrow> rl_make (- 1) (- 2) | Some rng \<Rightarrow> rng)"

definition set_range :: "bool \<Rightarrow> nat \<Rightarrow> rl_entry \<Rightarrow> hfsmount \<Rightarrow> hfsmount" where
  "set_range locked r rng hfsmp =
     set_reserved locked (map (\<lambda>(r', old). if r' = r then (r', rng) else (r', old)) (reserved_list hfsmp locked)) hfsmp"

definition hfs_release_reserved :: "hfsmount \<Rightarrow> nat \<Rightarrow> bool \<Rightarrow> hfsmount option" where
  "hfs_release_reserved hfsmp r locked =
     (let rng = range_of hfsmp locked r; n = rl_len rng
      in if rl_start rng = - 1 then Some hfsmp
         else let hfsmp = set_reserved locked (filter (\<lambda>(r', _). r' \<noteq> r) (reserved_list hfsmp locked)) hfsmp
              in if n \<le> 0 then Some hfsmp
                 else do {
                   hfsmp \<leftarrow>
                     (if \<not> locked then Some (hfsmp\<lparr>tentativeBlocks := u32 (tentativeBlocks hfsmp - n)\<rparr>)
                      else if lockedBlocks hfsmp < n then None
                      else Some (hfsmp\<lparr>lockedBlocks := u32 (lockedBlocks hfsmp - n),
                             unmap_requests := dk_extent (u64 (u32 (rl_start rng) * blockSize hfsmp + hfsPlusIOPosOffset hfsmp))
                               (u64 (u32 n * blockSize hfsmp)) # unmap_requests hfsmp\<rparr>));
                   (_, hfsmp) \<leftarrow> hfs_release_summary hfsmp (u32 (rl_start rng)) (u32 n);
                   (_, hfsmp) \<leftarrow> add_free_extent_cache hfsmp (u32 (rl_start rng)) (u32 n);
                   Some hfsmp })"

fun release_all :: "hfsmount \<Rightarrow> nat list \<Rightarrow> hfsmount option" where
  "release_all hfsmp [] = Some hfsmp"
| "release_all hfsmp (r # rs) = do { hfsmp \<leftarrow> hfs_release_reserved hfsmp r False; release_all hfsmp rs }"

text \<open>At most three tentative reservations stay when a new one is added.\<close>

definition add_to_reserved_list :: "hfsmount \<Rightarrow> int \<Rightarrow> int \<Rightarrow> bool \<Rightarrow> (nat \<times> hfsmount) option" where
  "add_to_reserved_list hfsmp start count locked = do {
     hfsmp \<leftarrow> (if locked then Some hfsmp else release_all hfsmp (map fst (drop 3 (tentative_ranges hfsmp))));
     let r = next_reservation hfsmp;
     Some (r, set_reserved locked ((r, rl_make start (u32 (start + count - 1))) # reserved_list hfsmp locked)
                (hfsmp\<lparr>next_reservation := Suc r\<rparr>)) }"

definition hfs_free_locked_internal :: "hfsmount \<Rightarrow> nat option \<Rightarrow> bool \<Rightarrow> (nat option \<times> hfsmount) option" where
  "hfs_free_locked_internal hfsmp res locked =
     (case res of None \<Rightarrow> Some (None, hfsmp) | Some r \<Rightarrow> map_option (\<lambda>hfsmp. (None, hfsmp)) (hfs_release_reserved hfsmp r locked))"

definition hfs_free_tentative :: "hfsmount \<Rightarrow> nat option \<Rightarrow> (nat option \<times> hfsmount) option" where
  "hfs_free_tentative hfsmp res = hfs_free_locked_internal hfsmp res False"

definition hfs_free_locked :: "hfsmount \<Rightarrow> nat option \<Rightarrow> (nat option \<times> hfsmount) option" where
  "hfs_free_locked hfsmp res = hfs_free_locked_internal hfsmp res True"

section \<open>Allocation\<close>

abbreviation (input) HFS_CS :: int where "HFS_CS \<equiv> 0x1000000"

record hfs_alloc_extra_args =
  max_blocks :: int
  reservation_in :: "nat option"
  reservation_out :: "nat option"
  alignment :: int
  alignment_offset :: int

definition HFS_UPDATE_NEXT_ALLOCATION :: "hfsmount \<Rightarrow> int \<Rightarrow> hfsmount" where
  "HFS_UPDATE_NEXT_ALLOCATION hfsmp new_nextAllocation =
     (if \<not> ISSET (hfs_flags hfsmp) HFS_SKIP_UPDATE_NEXT_ALLOCATION then hfsmp\<lparr>nextAllocation := new_nextAllocation\<rparr> else hfsmp)"

definition outside_metazone :: "hfsmount \<Rightarrow> int \<Rightarrow> bool" where
  "outside_metazone hfsmp b \<longleftrightarrow> b < hfs_metazone_start hfsmp \<or> b > hfs_metazone_end hfsmp"

text \<open>The search for blocks when they need not be contiguous.\<close>

definition find_any :: "hfsmount \<Rightarrow> int \<Rightarrow> int \<Rightarrow> int \<Rightarrow> HFSPlusExtentDescriptor \<Rightarrow> found option" where
  "find_any hfsmp startingBlock maxBlocks flags ext =
     (let forceFlush = ISSET flags HFS_ALLOC_FLUSHTXN;
          flags = (if forceFlush then flags - HFS_ALLOC_FLUSHTXN else flags)
      in case BlockFindKnown hfsmp maxBlocks ext of (err, ext, hfsmp) \<Rightarrow>
        if err \<noteq> dskFulErr then Some (err, startBlock ext, blockCount ext, hfsmp)
        else do {
          (err, start, count, hfsmp) \<leftarrow> BlockFindAny hfsmp startingBlock (allocLimit hfsmp) maxBlocks flags True;
          if err \<noteq> dskFulErr then Some (err, start, count, hfsmp)
          else do {
            (err, start, count, hfsmp) \<leftarrow>
              BlockFindAny hfsmp 1 (if summary_enabled hfsmp then allocLimit hfsmp else startingBlock) maxBlocks flags False;
            if err = dskFulErr \<and> forceFlush
            then BlockFindAny hfsmp 1 (allocLimit hfsmp) maxBlocks (flags + HFS_ALLOC_FLUSHTXN) False
            else Some (err, start, count, hfsmp) } })"

text \<open>Tentative ranges that overlap the blocks just taken give way: the list is walked once; the bigger rest of a range is kept.\<close>

fun steal_tentative :: "hfsmount \<Rightarrow> int \<Rightarrow> int \<Rightarrow> nat list \<Rightarrow> hfsmount option" where
  "steal_tentative hfsmp start stop [] = Some hfsmp"
| "steal_tentative hfsmp start stop (r # rs) =
     (let rng = range_of hfsmp False r
      in do {
        hfsmp \<leftarrow>
          (case rl_overlap rng start stop of
             RL_NOOVERLAP \<Rightarrow> Some hfsmp
           | RL_OVERLAPCONTAINSRANGE \<Rightarrow>
               (if start - rl_start rng > rl_end rng - stop then
                  (let hfsmp = hfsmp\<lparr>tentativeBlocks := u32 (tentativeBlocks hfsmp - (rl_end rng + 1 - start))\<rparr>
                   in do {
                     (_, hfsmp) \<leftarrow> hfs_release_summary hfsmp (u32 (stop + 1)) (u32 (rl_end rng - stop));
                     let hfsmp = set_range False r (rng\<lparr>rl_end := start - 1\<rparr>) hfsmp;
                     (_, hfsmp) \<leftarrow> add_free_extent_cache hfsmp (u32 (stop + 1)) (u32 (rl_end rng - stop));
                     if start - 1 \<ge> rl_start rng then Some hfsmp else None })
                else
                  (let hfsmp = hfsmp\<lparr>tentativeBlocks := u32 (tentativeBlocks hfsmp - (stop + 1 - rl_start rng))\<rparr>
                   in do {
                     (_, hfsmp) \<leftarrow> hfs_release_summary hfsmp (u32 (rl_start rng)) (u32 (start - rl_start rng));
                     let hfsmp = set_range False r (rng\<lparr>rl_start := stop + 1\<rparr>) hfsmp;
                     (_, hfsmp) \<leftarrow> add_free_extent_cache hfsmp (u32 (rl_start rng)) (u32 (start - rl_start rng));
                     if rl_end rng \<ge> stop + 1 then Some hfsmp else None }))
           | RL_OVERLAPSTARTSBEFORE \<Rightarrow>
               (if start - 1 \<ge> rl_start rng
                then Some (set_range False r (rng\<lparr>rl_end := start - 1\<rparr>)
                       (hfsmp\<lparr>tentativeBlocks := u32 (tentativeBlocks hfsmp - (rl_end rng + 1 - start))\<rparr>)) else None)
           | RL_OVERLAPENDSAFTER \<Rightarrow>
               (if rl_end rng \<ge> stop + 1
                then Some (set_range False r (rng\<lparr>rl_start := stop + 1\<rparr>)
                       (hfsmp\<lparr>tentativeBlocks := u32 (tentativeBlocks hfsmp - (stop + 1 - rl_start rng))\<rparr>)) else None)
           | _ \<Rightarrow>
               (let hfsmp = hfsmp\<lparr>tentativeBlocks := u32 (tentativeBlocks hfsmp - rl_len rng)\<rparr>
                in hfs_release_reserved (set_range False r (rng\<lparr>rl_end := rl_start rng - 1\<rparr>) hfsmp) r False));
        steal_tentative hfsmp start stop rs })"

text \<open>
  What \<open>hfs_block_alloc_int\<close> decides before it marks the blocks: the error, the extent, the flags, \<open>minBlocks\<close> and \<open>updateAllocPtr\<close>.
  \<open>HFS_ALLOC_FLUSHTXN\<close> is not read after the search for blocks; in \<open>ac_flags\<close> it is still what the caller asked for.
\<close>

record alloc_choice =
  ac_err :: int
  ac_extent :: HFSPlusExtentDescriptor
  ac_flags :: int
  ac_min :: int
  ac_update :: bool

definition chosen :: "int \<Rightarrow> int \<Rightarrow> int \<Rightarrow> int \<Rightarrow> int \<Rightarrow> bool \<Rightarrow> alloc_choice" where
  "chosen err start count flags minBlocks update =
     \<lparr>ac_err = err, ac_extent = extent start count, ac_flags = flags, ac_min = minBlocks, ac_update = update\<rparr>"

text \<open>The search with a given starting block: contiguous blocks or any.\<close>

definition alloc_find :: "hfsmount \<Rightarrow> HFSPlusExtentDescriptor \<Rightarrow> bool \<Rightarrow> int \<Rightarrow> int \<Rightarrow> int \<Rightarrow> (alloc_choice \<times> hfsmount) option" where
  "alloc_find hfsmp ext forceContiguous minBlocks maxBlocks flags =
     (let updateAllocPtr = (startBlock ext = 0);
          startingBlock = (if startBlock ext = 0 then (if sparse_device hfsmp then sparseAllocation hfsmp else nextAllocation hfsmp)
                           else startBlock ext);
          startingBlock = (if startingBlock \<ge> allocLimit hfsmp then 0 else startingBlock)
      in if forceContiguous then do {
           (err, start, count, hfsmp) \<leftarrow> BlockFindContig hfsmp startingBlock minBlocks maxBlocks flags;
           let update = updateAllocPtr \<or> err = 0 \<and> start > startingBlock \<and> outside_metazone hfsmp start;
           Some (chosen err start count flags minBlocks update, hfsmp) }
         else do {
           (err, start, count, hfsmp) \<leftarrow> find_any hfsmp startingBlock maxBlocks flags ext;
           Some (chosen err start count flags minBlocks updateAllocPtr, hfsmp) })"

text \<open>The checks of the free blocks, the stealing of tentative blocks and the search.\<close>

definition alloc_search :: "hfsmount \<Rightarrow> int \<Rightarrow> HFSPlusExtentDescriptor \<Rightarrow> int \<Rightarrow> int \<Rightarrow> int \<Rightarrow> (alloc_choice \<times> hfsmount) option" where
  "alloc_search hfsmp freeblks ext minBlocks maxBlocks flags =
     (let forceContiguous = ISSET flags (HFS_ALLOC_FORCECONTIG OR HFS_ALLOC_TRY_HARD)
      in if freeBlocks hfsmp < tentativeBlocks hfsmp then None
         else let flags = (if freeblks < u32 (tentativeBlocks hfsmp + minBlocks) then flags OR HFS_ALLOC_IGNORE_TENTATIVE else flags);
                  check = \<not> ISSET flags HFS_ALLOC_SKIPFREEBLKS
              in if check \<and> (freeblks = 0 \<or> forceContiguous \<and> freeblks < minBlocks)
                 then Some (chosen dskFulErr 0 0 flags minBlocks False, hfsmp)
                 else let minBlocks = (if check then min minBlocks freeblks else minBlocks);
                          maxBlocks = (if check then min maxBlocks freeblks else maxBlocks)
                      in if ISSET flags HFS_ALLOC_TRY_HARD then do {
                           (err, start, count, hfsmp) \<leftarrow> hfs_alloc_try_hard hfsmp ext maxBlocks flags;
                           Some (chosen err start count flags minBlocks False, hfsmp) }
                         else alloc_find hfsmp ext forceContiguous minBlocks maxBlocks flags)"

text \<open>The use of a tentative reservation, if it is still there and large enough; otherwise it is given up.\<close>

definition alloc_choose :: "hfsmount volume_ops \<Rightarrow> hfsmount \<Rightarrow> HFSPlusExtentDescriptor \<Rightarrow> int \<Rightarrow> hfs_alloc_extra_args option \<Rightarrow>
    (alloc_choice \<times> hfs_alloc_extra_args option \<times> hfsmount) option" where
  "alloc_choose ops hfsmp ext flags ap =
     (let minBlocks = blockCount ext;
          maxBlocks = (case ap of None \<Rightarrow> minBlocks | Some ap \<Rightarrow> if max_blocks ap \<noteq> 0 then max_blocks ap else minBlocks)
      in if ISSET flags HFS_ALLOC_COMMIT then do {
           a \<leftarrow> ap;
           r \<leftarrow> reservation_in a;
           let rng = range_of hfsmp (\<not> ISSET flags HFS_ALLOC_USE_TENTATIVE) r;
           Some (chosen 0 (u32 (rl_start rng)) (u32 (rl_len rng)) flags minBlocks False, ap, hfsmp) }
         else if ISSET flags HFS_ALLOC_ROLL_BACK then Some (chosen 0 (startBlock ext) (blockCount ext) flags minBlocks False, ap, hfsmp)
         else let freeblks = hfs_freeblks ops hfsmp False
              in if \<not> ISSET flags HFS_ALLOC_USE_TENTATIVE then do {
                   (ch, hfsmp) \<leftarrow> alloc_search hfsmp freeblks ext minBlocks maxBlocks flags;
                   Some (ch, ap, hfsmp) }
                 else do {
                   a \<leftarrow> ap;
                   let rng = (case reservation_in a of None \<Rightarrow> rl_make (- 1) (- 2) | Some r \<Rightarrow> range_of hfsmp False r);
                   let count = min (min maxBlocks (u32 (rl_len rng))) freeblks;
                   if rl_start rng \<noteq> - 1 \<and> count \<ge> minBlocks
                   then Some (chosen 0 (u32 (rl_start rng)) count
                          (if ISSET flags HFS_ALLOC_LOCKED then flags else flags OR HFS_ALLOC_COMMIT) minBlocks False, ap, hfsmp)
                   else do {
                     (res, hfsmp) \<leftarrow> hfs_free_tentative hfsmp (reservation_in a);
                     (ch, hfsmp) \<leftarrow> alloc_search hfsmp freeblks ext minBlocks maxBlocks (flags AND (0xFFFFFFFF - HFS_ALLOC_USE_TENTATIVE));
                     Some (ch, Some (a\<lparr>reservation_in := res\<rparr>), hfsmp) } })"

definition align_extent :: "hfs_alloc_extra_args option \<Rightarrow> int \<Rightarrow> HFSPlusExtentDescriptor \<Rightarrow> HFSPlusExtentDescriptor" where
  "align_extent ap minBlocks ext =
     (case ap of
        None \<Rightarrow> ext
      | Some ap \<Rightarrow>
          if alignment ap \<noteq> 0 \<and> blockCount ext < max_blocks ap then
            (let rounding = u32 (blockCount ext + alignment_offset ap) mod u32 (alignment ap)
             in if blockCount ext \<ge> u32 (minBlocks + rounding) then extent (startBlock ext) (blockCount ext - rounding) else ext)
          else ext)"

abbreviation (input) HFS_ALLOC_FAST_DEV :: int where "HFS_ALLOC_FAST_DEV \<equiv> 0x1000"

text \<open>On a CoreStorage volume the blocks are pinned to the fast device; a request to map them changes nothing here.\<close>

definition map_on_device :: "hfsmount volume_ops \<Rightarrow> hfsmount \<Rightarrow> HFSPlusExtentDescriptor \<Rightarrow> int \<Rightarrow> hfsmount" where
  "map_on_device ops hfsmp ext flags =
     (if ISSET (hfs_flags hfsmp) HFS_CS \<and> blockCount ext \<noteq> 0 \<and> \<not> ISSET flags HFS_ALLOC_TENTATIVE \<and> ISSET flags HFS_ALLOC_FAST_DEV
      then snd (hfs_pin_block_range ops hfsmp (startBlock ext) (blockCount ext)) else hfsmp)"

text \<open>The roving pointers and the free extent cache.\<close>

definition update_pointers :: "hfsmount \<Rightarrow> HFSPlusExtentDescriptor \<Rightarrow> bool \<Rightarrow> hfsmount" where
  "update_pointers hfsmp ext updateAllocPtr =
     (let hfsmp = (if vcbFreeExt hfsmp = [] \<and> hfs_freed_block_count hfsmp = 0 then hfsmp\<lparr>sparseAllocation := startBlock ext\<rparr> else hfsmp);
          hfsmp = hfsmp\<lparr>hfs_freed_block_count :=
                    (if blockCount ext < hfs_freed_block_count hfsmp then hfs_freed_block_count hfsmp - blockCount ext else 0)\<rparr>;
          hfsmp = (if updateAllocPtr \<and> outside_metazone hfsmp (startBlock ext)
                   then HFS_UPDATE_NEXT_ALLOCATION hfsmp (startBlock ext) else hfsmp)
      in remove_free_extent_cache hfsmp (startBlock ext) (blockCount ext))"

text \<open>The reservation that was used, or committed, shrinks; it is freed when it is empty, or committed.\<close>

definition use_reservation :: "hfsmount \<Rightarrow> HFSPlusExtentDescriptor \<Rightarrow> int \<Rightarrow> hfs_alloc_extra_args option \<Rightarrow>
    (hfs_alloc_extra_args option \<times> hfsmount) option" where
  "use_reservation hfsmp ext flags ap =
     (if ISSET flags HFS_ALLOC_USE_TENTATIVE then do {
        a \<leftarrow> ap;
        r \<leftarrow> reservation_in a;
        let rng = (range_of hfsmp False r)\<lparr>rl_start := rl_start (range_of hfsmp False r) + blockCount ext\<rparr>;
        let hfsmp = (set_range False r rng hfsmp)\<lparr>tentativeBlocks := u32 (tentativeBlocks hfsmp - blockCount ext)\<rparr>;
        if rl_len rng \<le> 0 then do {
          (res, hfsmp) \<leftarrow> hfs_free_tentative hfsmp (Some r);
          Some (Some (a\<lparr>reservation_in := res\<rparr>), hfsmp) }
        else Some (ap, hfsmp) }
      else if ISSET flags HFS_ALLOC_COMMIT then do {
        a \<leftarrow> ap;
        r \<leftarrow> reservation_in a;
        if lockedBlocks hfsmp < blockCount ext then None
        else do {
          let rng = (range_of hfsmp True r)\<lparr>rl_start := rl_start (range_of hfsmp True r) + blockCount ext\<rparr>;
          (res, hfsmp) \<leftarrow> hfs_free_locked ((set_range True r rng hfsmp)\<lparr>lockedBlocks := lockedBlocks hfsmp - blockCount ext\<rparr>) (Some r);
          Some (Some (a\<lparr>reservation_in := res\<rparr>), hfsmp) } }
      else Some (ap, hfsmp))"

text \<open>The counters of the volume, and a new reservation.\<close>

definition count_allocated :: "hfsmount \<Rightarrow> int \<Rightarrow> int \<Rightarrow> hfsmount" where
  "count_allocated hfsmp count flags =
     (if ISSET flags HFS_ALLOC_TENTATIVE then hfsmp\<lparr>tentativeBlocks := u32 (tentativeBlocks hfsmp + count)\<rparr>
      else if ISSET flags HFS_ALLOC_LOCKED then hfsmp\<lparr>lockedBlocks := u32 (lockedBlocks hfsmp + count)\<rparr>
      else if \<not> ISSET flags HFS_ALLOC_SKIPFREEBLKS then hfsmp\<lparr>freeBlocks := u32 (freeBlocks hfsmp - count)\<rparr>
      else hfsmp)"

definition reserve_extent :: "hfsmount \<Rightarrow> HFSPlusExtentDescriptor \<Rightarrow> int \<Rightarrow> hfs_alloc_extra_args option \<Rightarrow>
    (hfs_alloc_extra_args option \<times> hfsmount) option" where
  "reserve_extent hfsmp ext flags ap =
     (if ISSET flags (HFS_ALLOC_TENTATIVE OR HFS_ALLOC_LOCKED) then do {
        a \<leftarrow> ap;
        (r, hfsmp) \<leftarrow> add_to_reserved_list hfsmp (startBlock ext) (blockCount ext) (\<not> ISSET flags HFS_ALLOC_TENTATIVE);
        Some (Some (a\<lparr>reservation_out := Some r\<rparr>), hfsmp) }
      else Some (ap, hfsmp))"

text \<open>The state that is kept about the blocks that were allocated.\<close>

definition account_alloc :: "hfsmount \<Rightarrow> HFSPlusExtentDescriptor \<Rightarrow> int \<Rightarrow> bool \<Rightarrow> hfs_alloc_extra_args option \<Rightarrow>
    (hfs_alloc_extra_args option \<times> hfsmount) option" where
  "account_alloc hfsmp ext flags updateAllocPtr ap = do {
     let hfsmp = (if ISSET flags (HFS_ALLOC_USE_TENTATIVE OR HFS_ALLOC_COMMIT) then hfsmp else update_pointers hfsmp ext updateAllocPtr);
     (ap, hfsmp) \<leftarrow> use_reservation hfsmp ext flags ap;
     let hfsmp = MarkVCBDirty (count_allocated hfsmp (blockCount ext) flags);
     (ap, hfsmp) \<leftarrow> reserve_extent hfsmp ext flags ap;
     hfsmp \<leftarrow> (if ISSET flags HFS_ALLOC_IGNORE_TENTATIVE
              then steal_tentative hfsmp (startBlock ext) (u32 (startBlock ext + blockCount ext - 1)) (map fst (tentative_ranges hfsmp))
              else Some hfsmp);
     Some (ap, hfsmp) }"

type_synonym alloc_result = "int \<times> HFSPlusExtentDescriptor \<times> hfs_alloc_extra_args option \<times> hfsmount"

definition hfs_block_alloc_int :: "hfsmount volume_ops \<Rightarrow> hfsmount \<Rightarrow> HFSPlusExtentDescriptor \<Rightarrow> int \<Rightarrow> hfs_alloc_extra_args option \<Rightarrow> alloc_result option" where
  "hfs_block_alloc_int ops hfsmp ext flags ap = do {
     (ch, ap, hfsmp) \<leftarrow> alloc_choose ops hfsmp ext flags ap;
     if ac_err ch \<noteq> 0 then Some (ac_err ch, extent 0 0, ap, hfsmp)
     else do {
       let ext = align_extent ap (ac_min ch) (ac_extent ch);
       (err, hfsmp) \<leftarrow> BlockMarkAllocatedInternal hfsmp (startBlock ext) (blockCount ext) (ac_flags ch);
       if err \<noteq> 0 then Some (err, extent 0 0, ap, hfsmp)
       else do {
         let hfsmp = map_on_device ops hfsmp ext (ac_flags ch);
         (ap, hfsmp) \<leftarrow> (if blockCount ext \<noteq> 0 then account_alloc hfsmp ext (ac_flags ch) (ac_update ch) ap else Some (ap, hfsmp));
         Some (0, ext, ap, hfsmp) } } }"

definition BlockAllocate :: "hfsmount volume_ops \<Rightarrow> hfsmount \<Rightarrow> int \<Rightarrow> int \<Rightarrow> int \<Rightarrow> int \<Rightarrow> found option" where
  "BlockAllocate ops hfsmp startingBlock minBlocks maxBlocks flags = do {
     (err, ext, ap, hfsmp) \<leftarrow> hfs_block_alloc_int ops hfsmp (extent startingBlock minBlocks) flags
        (Some \<lparr>max_blocks = maxBlocks, reservation_in = None, reservation_out = None, alignment = 0, alignment_offset = 0\<rparr>);
     Some (err, startBlock ext, blockCount ext, hfsmp) }"

definition hfs_block_alloc :: "hfsmount volume_ops \<Rightarrow> hfsmount \<Rightarrow> HFSPlusExtentDescriptor \<Rightarrow> int \<Rightarrow> hfs_alloc_extra_args option \<Rightarrow> alloc_result option" where
  "hfs_block_alloc ops hfsmp ext flags ap = do {
     (err, ext, ap, hfsmp) \<leftarrow> hfs_block_alloc_int ops hfsmp ext flags ap;
     Some (MacToVFSError err, ext, ap, hfsmp) }"

section \<open>Release\<close>

text \<open>What is kept about blocks that were freed.\<close>

definition account_free :: "hfsmount \<Rightarrow> int \<Rightarrow> int \<Rightarrow> int \<Rightarrow> hfsmount option" where
  "account_free vcb firstBlock numBlocks flags =
     (let vcb = (if \<not> ISSET flags HFS_ALLOC_SKIPFREEBLKS then vcb\<lparr>freeBlocks := u32 (freeBlocks vcb + numBlocks)\<rparr> else vcb);
          vcb = vcb\<lparr>hfs_freed_block_count := u32 (hfs_freed_block_count vcb + numBlocks)\<rparr>;
          vcb = (if nextAllocation vcb = u32 (firstBlock + numBlocks)
                 then HFS_UPDATE_NEXT_ALLOCATION vcb (u32 (nextAllocation vcb - numBlocks)) else vcb)
      in if jnl vcb = None then do {
           (_, vcb) \<leftarrow> add_free_extent_cache vcb firstBlock numBlocks;
           Some (MarkVCBDirty (if firstBlock < sparseAllocation vcb then vcb\<lparr>sparseAllocation := firstBlock\<rparr> else vcb)) }
         else Some (MarkVCBDirty vcb))"

definition BlockDeallocate :: "hfsmount \<Rightarrow> int \<Rightarrow> int \<Rightarrow> int \<Rightarrow> (int \<times> hfsmount) option" where
  "BlockDeallocate vcb firstBlock numBlocks flags =
     (if ISSET flags (HFS_ALLOC_TENTATIVE OR HFS_ALLOC_LOCKED) then Some (0, vcb)
      else if numBlocks = 0 then Some (0, vcb)
      else do {
        (_, vcb) \<leftarrow> hfs_release_summary vcb firstBlock numBlocks;
        (err, vcb) \<leftarrow> BlockMarkFreeInternal vcb firstBlock numBlocks True;
        if err \<noteq> 0 then Some (err, vcb)
        else map_option (\<lambda>vcb. (0, vcb)) (account_free vcb firstBlock numBlocks flags) })"

section \<open>The allocation limit\<close>

fun release_beyond :: "hfsmount \<Rightarrow> int \<Rightarrow> nat list \<Rightarrow> hfsmount option" where
  "release_beyond hfsmp new_end_block [] = Some hfsmp"
| "release_beyond hfsmp new_end_block (r # rs) = do {
     hfsmp \<leftarrow> (if rl_overlap (range_of hfsmp False r) new_end_block RL_INFINITY \<noteq> RL_NOOVERLAP
              then hfs_release_reserved hfsmp r False else Some hfsmp);
     release_beyond hfsmp new_end_block rs }"

definition UpdateAllocLimit :: "hfsmount \<Rightarrow> int \<Rightarrow> (int \<times> hfsmount) option" where
  "UpdateAllocLimit hfsmp new_end_block = do {
     (_, hfsmp) \<leftarrow> hfs_rebuild_summary (ResetVCBFreeExtCache (hfsmp\<lparr>allocLimit := new_end_block\<rparr>));
     hfsmp \<leftarrow> release_beyond hfsmp new_end_block (map fst (tentative_ranges hfsmp));
     Some (0, hfsmp) }"

end
