(* ===== verification/BlockSearch.thy ===== *)
theory BlockSearch
  imports SummaryTheory BlockAllocator
begin

text \<open>
  The searches for free blocks (\<open>BlockFind\<close>) find free blocks: a scan over the bitmap is a walk over block numbers, the
  position that the code keeps (piece, word, bit) being a function of the block; the summary table is sound, so that
  skipping full pieces misses nothing; and a search without result means that no block is free where it may look.
\<close>

section \<open>Positions are block numbers\<close>

definition piece_of :: "nat \<Rightarrow> mem \<Rightarrow> nat \<Rightarrow> mem" where
  "piece_of W F b = bytes_at F (int (4 * W * (b div (32 * W)))) (int (4 * W))"

definition pos_at :: "nat \<Rightarrow> mem \<Rightarrow> nat \<Rightarrow> scan_pos" where
  "pos_at W F b = \<lparr>sp_block = int b, sp_buffer = piece_of W F b, sp_word = int (b mod (32 * W) div 32),
     sp_left = int (W - b mod (32 * W) div 32), sp_mask = drop_bit (b mod 32) kHighBitInWordMask\<rparr>"

lemma pos_at_block [simp]: "sp_block (pos_at W F b) = int b"
  by (simp add: pos_at_def)

lemma and_31: "int b AND 31 = int (b mod 32)"
proof -
  have "int b AND 31 = int b AND mask 5" by (simp add: mask_eq_exp_minus_1)
  also have "\<dots> = int b mod 32" by (simp add: take_bit_eq_mask [symmetric] take_bit_eq_mod)
  finally show ?thesis by (simp add: zmod_int)
qed

lemma scan_start_at:
  assumes "pieces W s F"
  shows "scan_start s (int b) (piece_of W F b) = pos_at W F b"
proof -
  note p = piecesD [OF assms]
  have "0 < 32 * W" using p(1) by simp
  then have "b mod (32 * W) < 32 * W" by (rule mod_less_divisor)
  then have "b mod (32 * W) div 32 < W" by (simp add: less_mult_imp_div_less mult.commute)
  then show ?thesis
    using pieces_and [OF assms, of b] p(2,6) by (simp add: scan_start_def Let_def pos_at_def and_31 zdiv_int of_nat_diff)
qed

lemma high_mask: "j < 32 \<Longrightarrow> drop_bit j kHighBitInWordMask = 2 ^ (31 - j)"
proof -
  assume "j < 32"
  then have "(0x80000000 :: int) div 2 ^ j = 2 ^ (31 - j)" using power_diff [of "2 :: int" j 31] by simp
  then show ?thesis by (simp add: drop_bit_eq_div)
qed

lemma swapped_word_bit:
  assumes "4 * k + 4 \<le> length F" "j < 32"
  shows "bit (SWAP_BE32 (get32 F (word_base k))) (31 - j) \<longleftrightarrow> map_used F (32 * k + j)"
proof -
  have "0 \<le> get32 F (word_base k)" "get32 F (word_base k) < 4294967296"
    using le_val_bounds [of "bytes_at F (word_base k) 4"] assms(1) by (simp_all add: get32_def word_base_def in_mem_def)
  then have "SWAP_BE32 (SWAP_BE32 (get32 F (word_base k))) = get32 F (word_base k)" by (rule SWAP_involution)
  then show ?thesis using word_bit [OF assms] bit_SWAP_BE32 [OF assms(2), of "SWAP_BE32 (get32 F (word_base k))"] by simp
qed

lemma word_in_piece:
  assumes p: "pieces W s F" and b: "b < 8 * length F"
  shows "b div (32 * W) * W + b mod (32 * W) div 32 = b div 32" "b mod (32 * W) div 32 < W" "4 * (b div 32) + 4 \<le> length F"
    "4 * W * (b div (32 * W) + 1) \<le> length F"
proof -
  have W: "0 < 32 * W" using piecesD(1) [OF p] by simp
  show i: "b mod (32 * W) div 32 < W" using mod_less_divisor [OF W, of b] by (simp add: less_mult_imp_div_less mult.commute)
  have "b = (b div (32 * W) * W) * 32 + b mod (32 * W)" using div_mult_mod_eq [of b "32 * W"] by (simp add: algebra_simps)
  then show d: "b div (32 * W) * W + b mod (32 * W) div 32 = b div 32" by (metis div_mult_self3 zero_neq_numeral add.commute)
  show B: "4 * W * (b div (32 * W) + 1) \<le> length F" by (rule piece_of_block [OF p b])
  have "4 * (b div (32 * W) * W) + 4 * W \<le> length F" using B by (simp add: algebra_simps)
  moreover have "b mod (32 * W) div 32 + 1 \<le> W" using i by simp
  moreover have "4 * (x + i) + 4 \<le> L" if "4 * x + 4 * W \<le> L" "i + 1 \<le> W" for x i L
    using that by (metis add_mult_distrib2 add_le_mono le_refl le_trans mult_le_mono2 nat_mult_1_right add.assoc)
  ultimately show "4 * (b div 32) + 4 \<le> length F" unfolding d [symmetric] by blast
qed

lemma current_word_at:
  assumes p: "pieces W s F" and b: "b < 8 * length F"
  shows "current_word (pos_at W F b) = Some (SWAP_BE32 (get32 F (word_base (b div 32))))"
proof -
  note w = word_in_piece [OF p b]
  let ?i = "b mod (32 * W) div 32"
  have inF: "in_mem F (int (4 * W * (b div (32 * W)))) (int (4 * W))" by (rule piece_in_mem [OF w(4)])
  have len: "length (piece_of W F b) = 4 * W" using inF by (simp add: piece_of_def del: of_nat_mult)
  have inb: "in_mem (piece_of W F b) (4 * int ?i) 4" using w(2) len by (simp add: in_mem_def)
  have base: "word_base (b div 32) = int (4 * W * (b div (32 * W)) + 4 * ?i)"
    unfolding word_base_def w(1) [symmetric] by (simp add: algebra_simps)
  have "get32 (piece_of W F b) (4 * int ?i) = get32 F (word_base (b div 32))"
    unfolding get32_def piece_of_def base using slice_slice [OF inF, of "4 * int ?i" 4] w(2) by (simp add: algebra_simps)
  then show ?thesis using inb by (simp add: current_word_def pos_at_def rd_in)
qed

lemma block_test:
  assumes p: "pieces W s F" and b: "b < 8 * length F"
  shows "SWAP_BE32 (get32 F (word_base (b div 32))) AND sp_mask (pos_at W F b) = 0 \<longleftrightarrow> \<not> map_used F b"
  using swapped_word_bit [OF word_in_piece(3) [OF assms], of "b mod 32"]
  by (simp add: pos_at_def high_mask and_power)

lemma mod_piece: "0 < W \<Longrightarrow> b mod (32 * W) mod 32 = b mod (32 :: nat)"
  by (simp add: mod_mod_cancel)

lemma next_word_start: "x mod 32 = 31 \<Longrightarrow> x + 1 = 32 * (x div 32 + 1)" for x :: nat
  by presburger

lemma last_bit: "x + 1 = 32 * W \<Longrightarrow> x mod 32 = 31 \<and> x div 32 = W - 1" for x :: nat
proof -
  assume "x + 1 = 32 * W"
  then have "x = 31 + 32 * (W - 1)" by (cases W) simp_all
  then show ?thesis by simp
qed

lemma next_bit_at:
  assumes p: "pieces W s F"
  shows "\<not> 32 * W dvd b + 1 \<Longrightarrow> next_bit ((pos_at W F b)\<lparr>sp_block := int b + 1\<rparr>) = Inr (pos_at W F (b + 1))"
    and "32 * W dvd b + 1 \<Longrightarrow> \<exists>c. next_bit ((pos_at W F b)\<lparr>sp_block := int b + 1\<rparr>) = Inl c \<and> sp_block c = int b + 1 \<and> sp_mask c = kHighBitInWordMask"
proof -
  have W: "0 < W" "0 < 32 * W" using piecesD(1) [OF p] by simp_all
  let ?r = "b mod (32 * W)"
  have r: "?r < 32 * W" using W by simp
  have r32: "?r mod 32 = b mod 32" by (rule mod_piece [OF W(1)])
  have i: "?r div 32 < W" using r by (simp add: less_mult_imp_div_less mult.commute)
  have m: "drop_bit (b mod 32) kHighBitInWordMask div 2 = (if b mod 32 = 31 then 0 else drop_bit (b mod 32 + 1) (kHighBitInWordMask :: int))"
  proof (cases "b mod 32 = 31")
    case True
    then show ?thesis by simp
  next
    case False
    then have l: "b mod 32 < 31" using mod_less_divisor [of 32 b] by linarith
    then have "drop_bit (b mod 32) kHighBitInWordMask = 2 ^ (31 - b mod 32)" by (intro high_mask) simp
    moreover have "drop_bit (b mod 32 + 1) kHighBitInWordMask = 2 ^ (31 - (b mod 32 + 1))" using l by (intro high_mask) simp
    moreover have "31 - b mod 32 = Suc (31 - (b mod 32 + 1))" using l by linarith
    ultimately show ?thesis using False by (simp only: if_False power_Suc) simp
  qed
  have ne: "drop_bit (b mod 32 + 1) kHighBitInWordMask \<noteq> (0 :: int)" if "b mod 32 \<noteq> 31"
    using that mod_less_divisor [of 32 b] by (subst high_mask) simp_all
  have dv: "32 * W dvd b + 1 \<longleftrightarrow> ?r + 1 = 32 * W"
  proof
    assume "32 * W dvd b + 1"
    then have "32 * W dvd ?r + 1" by (metis dvd_eq_mod_eq_0 mod_add_left_eq)
    then have "32 * W \<le> ?r + 1" by (rule dvd_imp_le) simp
    then show "?r + 1 = 32 * W" using r by simp
  next
    assume "?r + 1 = 32 * W"
    then show "32 * W dvd b + 1" by (metis dvd_eq_mod_eq_0 mod_add_left_eq mod_self)
  qed
  {
    assume nd: "\<not> 32 * W dvd b + 1"
    then have r1: "(b + 1) mod (32 * W) = ?r + 1" using dv r by (metis Suc_eq_plus1 mod_Suc)
    have pc: "piece_of W F (b + 1) = piece_of W F b"
      using nd by (simp add: piece_of_def dvd_eq_mod_eq_0 div_Suc)
    show "next_bit ((pos_at W F b)\<lparr>sp_block := int b + 1\<rparr>) = Inr (pos_at W F (b + 1))"
    proof (cases "b mod 32 = 31")
      case False
      have q: "(b + 1) mod 32 = b mod 32 + 1" using False by (simp add: mod_Suc)
      have "(?r + 1) div 32 = ?r div 32" using False r32 by (simp add: div_Suc mod_Suc)
      then show ?thesis using False m ne pc r1 q by (simp add: next_bit_def Let_def pos_at_def)
    next
      case True
      have q: "(b + 1) mod 32 = 0" using True by (simp add: mod_Suc)
      have d: "(?r + 1) div 32 = ?r div 32 + 1" using True r32 by (simp add: div_Suc mod_Suc)
      have "?r div 32 + 1 < W"
      proof -
        have "?r + 1 < 32 * W" using nd dv r by linarith
        moreover have "?r + 1 = 32 * (?r div 32 + 1)" using True r32 next_word_start by simp
        ultimately show ?thesis by simp
      qed
      then show ?thesis using True m pc r1 q d by (simp add: next_bit_def Let_def pos_at_def of_nat_diff)
    qed
  next
    assume "32 * W dvd b + 1"
    then have r1: "?r + 1 = 32 * W" using dv by simp
    then have "b mod 32 = 31" "?r div 32 = W - 1" using r32 last_bit by simp_all
    then show "\<exists>c. next_bit ((pos_at W F b)\<lparr>sp_block := int b + 1\<rparr>) = Inl c \<and> sp_block c = int b + 1 \<and> sp_mask c = kHighBitInWordMask"
      using m W by (simp add: next_bit_def Let_def pos_at_def of_nat_diff)
  }
qed

lemma pos_at_piece:
  assumes p: "pieces W s F" and b: "32 * W dvd b"
  shows "pos_at W F b = \<lparr>sp_block = int b, sp_buffer = piece_of W F b, sp_word = 0, sp_left = vcbVBMIOSize s div 4, sp_mask = kHighBitInWordMask\<rparr>"
proof -
  have "b mod (32 * W) = 0" "b mod 32 = 0" using b by (auto simp: dvd_eq_mod_eq_0 elim: dvd_mult_left)
  then show ?thesis using piecesD(2) [OF p] by (simp add: pos_at_def)
qed

section \<open>The first free block\<close>

definition has_zone :: "hfsmount \<Rightarrow> bool" where
  "has_zone s = ISSET (hfs_flags s) HFS_METADATA_ZONE"

definition in_zone :: "hfsmount \<Rightarrow> nat \<Rightarrow> bool" where
  "in_zone s x \<longleftrightarrow> has_zone s \<and> hfs_metazone_start s \<le> int x \<and> int x \<le> hfs_metazone_end s"

text \<open>The metadata zone ends with a piece of the bitmap.\<close>

definition zone_ok :: "nat \<Rightarrow> hfsmount \<Rightarrow> bool" where
  "zone_ok W s \<longleftrightarrow> (has_zone s \<longrightarrow> 0 \<le> hfs_metazone_end s \<and> hfs_metazone_end s + 2 < 2 ^ 32 \<and> int (32 * W) dvd hfs_metazone_end s + 1)"

lemma summary_only_zone:
  "summary_only s s' \<Longrightarrow> has_zone s' = has_zone s \<and> in_zone s' = in_zone s \<and> zone_ok W s' = zone_ok W s"
  by (auto simp: summary_only_def has_zone_def in_zone_def zone_ok_def)

lemma NextBitmapBlock_at:
  assumes "zone_ok W s" "32 * W dvd b"
  shows "\<exists>b' \<ge> b. NextBitmapBlock s (int b) = int b' \<and> 32 * W dvd b' \<and> (\<forall>x. b \<le> x \<and> x < b' \<longrightarrow> in_zone s x) \<and> \<not> in_zone s b'"
proof (cases "in_zone s b")
  case True
  then have z: "0 \<le> hfs_metazone_end s" "hfs_metazone_end s + 2 < 2 ^ 32" "int (32 * W) dvd hfs_metazone_end s + 1" "has_zone s"
    "hfs_metazone_start s \<le> int b" "int b \<le> hfs_metazone_end s" using assms(1) by (auto simp: zone_ok_def in_zone_def)
  define b' where "b' = nat (hfs_metazone_end s + 1)"
  have b': "int b' = hfs_metazone_end s + 1" using z(1) by (simp add: b'_def)
  have "NextBitmapBlock s (int b) = int b'" using z b' by (simp add: NextBitmapBlock_def has_zone_def)
  moreover have "32 * W dvd b'" using z(3) unfolding b' [symmetric] by (simp only: int_dvd_int_iff)
  moreover have "b \<le> b'" "\<forall>x. b \<le> x \<and> x < b' \<longrightarrow> in_zone s x" "\<not> in_zone s b'" using z b' by (auto simp: in_zone_def)
  ultimately show ?thesis by blast
next
  case False
  then have "NextBitmapBlock s (int b) = int b" by (auto simp: NextBitmapBlock_def in_zone_def has_zone_def)
  then show ?thesis using False assms(2) by auto
qed

definition scanned :: "nat \<Rightarrow> hfsmount \<Rightarrow> mem \<Rightarrow> nat \<Rightarrow> int \<Rightarrow> bool" where
  "scanned W s F b sbs \<longleftrightarrow> sbs = 0 \<or> (\<exists>b0 \<le> b. sbs = int b0 \<and> 32 * W dvd b0 \<and> b0 div (32 * W) = b div (32 * W) \<and> int b0 < totalBlocks s \<and>
     (\<forall>x. b0 \<le> x \<and> x < b \<longrightarrow> map_used F x))"

lemma piece_blocks:
  fixes b0 :: nat
  assumes "0 < M" "M dvd b0" "M dvd b + 1" "b0 div M = b div M" "x div M = b0 div M"
  shows "b0 \<le> x" "x \<le> b"
proof -
  obtain k where k: "b0 = M * k" using assms(2) by (elim dvdE)
  have x: "x div M = k" "b div M = k" using assms k by simp_all
  show "b0 \<le> x" using x(1) k times_div_less_eq_dividend [of M x] by simp
  obtain j where j: "b + 1 = M * j" using assms(3) by (elim dvdE)
  have "k < j" using x(2) j assms(1) by (metis Suc_eq_plus1 div_less_iff_less_mult lessI mult.commute)
  have "x < M * (k + 1)" using x(1) assms(1) by (metis div_less_iff_less_mult less_add_one mult.commute)
  also have "\<dots> \<le> M * j" using \<open>k < j\<close> by (intro mult_le_mono2) simp
  finally show "x \<le> b" using j by simp
qed

text \<open>A piece that was scanned from its start to its end without a free block is marked full.\<close>

lemma mark_full_at:
  assumes p: "pieces W s F" and t: "table_ok W s" and sc: "scanned W s F b sbs" and end_piece: "32 * W dvd b + 1"
    and used: "map_used F b" "b < 8 * length F" and S: "summary_sound W S s" "\<And>x. x < 8 * length F \<Longrightarrow> map_used F x \<Longrightarrow> x \<in> S"
  shows "\<exists>s'. mark_full s sbs = Some s' \<and> summary_only s s' \<and> summary_sound W S s'"
proof (cases "summary_enabled s \<and> sbs \<noteq> 0")
  case False
  then show ?thesis using S(1) by (auto simp: mark_full_def)
next
  case True
  then obtain b0 where b0: "b0 \<le> b" "sbs = int b0" "32 * W dvd b0" "b0 div (32 * W) = b div (32 * W)" "int b0 < totalBlocks s"
    "\<forall>x. b0 \<le> x \<and> x < b \<longrightarrow> map_used F x" using sc by (auto simp: scanned_def)
  have W: "0 < 32 * W" using piecesD(1) [OF p] by simp
  have "in_table s (b0 div (32 * W))" using t True b0(5) by (simp add: table_ok_def)
  then obtain s' where s': "hfs_set_summary s (int (b0 div (32 * W))) True = Some (0, s')" "summary_only s s'"
    "full_pieces s' = insert (b0 div (32 * W)) (full_pieces s)"
    using set_summary_at [of s "b0 div (32 * W)" True] True piecesD [OF p] by auto
  have "mark_full s sbs = Some s'" using True s'(1) summary_index_at [OF p _ b0(5)] b0(2) by (simp add: mark_full_def)
  moreover have "summary_sound W S s'" unfolding summary_sound_def
  proof (intro impI allI)
    fix x assume "x div (32 * W) \<in> full_pieces s'"
    then consider "x div (32 * W) \<in> full_pieces s" | "x div (32 * W) = b0 div (32 * W)" using s'(3) by auto
    then show "x \<in> S"
    proof cases
      case 1
      then show ?thesis using S(1) True by (simp add: summary_sound_def)
    next
      case 2
      have "b0 \<le> x" "x \<le> b" using piece_blocks [OF W b0(3) end_piece b0(4) 2] by simp_all
      then show ?thesis using b0(6) used S(2) [of x] by (cases "x = b") auto
    qed
  qed
  ultimately show ?thesis using s'(2) by blast
qed

definition scan_env :: "nat \<Rightarrow> hfsmount \<Rightarrow> int \<Rightarrow> mem \<Rightarrow> nat set \<Rightarrow> bool" where
  "scan_env W s fl F S \<longleftrightarrow> pieces W s F \<and> reads s fl F \<and> table_ok W s \<and> zone_ok W s \<and> summary_sound W S s \<and>
     (\<forall>x < 8 * length F. map_used F x \<longrightarrow> x \<in> S)"

lemma scan_envD:
  assumes "scan_env W s fl F S"
  shows "pieces W s F" "reads s fl F" "table_ok W s" "zone_ok W s" "summary_sound W S s" "x < 8 * length F \<Longrightarrow> map_used F x \<Longrightarrow> x \<in> S"
    "0 < W"
  using assms piecesD(1) [of W s F] by (simp_all add: scan_env_def)

lemma scan_env_summary:
  "scan_env W s fl F S \<Longrightarrow> summary_only s s' \<Longrightarrow> summary_sound W S s' \<Longrightarrow> scan_env W s' fl F S"
  using summary_only_ok [of s s'] summary_only_zone [of s s' W] by (simp add: scan_env_def)

definition skipped :: "hfsmount \<Rightarrow> bool \<Rightarrow> mem \<Rightarrow> nat \<Rightarrow> nat \<Rightarrow> bool" where
  "skipped s meta F b z \<longleftrightarrow> (\<forall>x. b \<le> x \<and> x < z \<and> \<not> map_used F x \<longrightarrow> \<not> meta \<and> in_zone s x)"

definition unallocated_found :: "nat \<Rightarrow> hfsmount \<Rightarrow> bool \<Rightarrow> mem \<Rightarrow> nat set \<Rightarrow> nat \<Rightarrow> nat \<Rightarrow> (int \<times> hfsmount + hfsmount \<times> scan_pos) option \<Rightarrow> bool" where
  "unallocated_found W s meta F S b e r \<longleftrightarrow> (\<exists>s'. summary_only s s' \<and> summary_sound W S s' \<and>
     (r = Some (Inl (dskFulErr, s')) \<and> skipped s meta F b e \<or>
      (\<exists>b'. r = Some (Inr (s', pos_at W F b')) \<and> b \<le> b' \<and> b' < e \<and> \<not> map_used F b' \<and> skipped s meta F b b')))"

lemma unallocated_found_step:
  assumes "unallocated_found W s1 meta F S b1 e r" "summary_only s s1" "skipped s meta F b b1" "b \<le> b1"
  shows "unallocated_found W s meta F S b e r"
proof -
  have z: "skipped s1 meta F x y = skipped s meta F x y" for x y using summary_only_zone [OF assms(2)] by (simp add: skipped_def)
  have j: "skipped s meta F b y" if "skipped s meta F b1 y" for y
    unfolding skipped_def
  proof (intro allI impI)
    fix x assume "b \<le> x \<and> x < y \<and> \<not> map_used F x"
    then show "\<not> meta \<and> in_zone s x" using that assms(3) by (cases "b1 \<le> x") (auto simp: skipped_def)
  qed
  obtain s' where s': "summary_only s1 s'" "summary_sound W S s'"
    "r = Some (Inl (dskFulErr, s')) \<and> skipped s1 meta F b1 e \<or>
      (\<exists>b'. r = Some (Inr (s', pos_at W F b')) \<and> b1 \<le> b' \<and> b' < e \<and> \<not> map_used F b' \<and> skipped s1 meta F b1 b')"
    using assms(1) by (auto simp: unallocated_found_def)
  have "r = Some (Inl (dskFulErr, s')) \<and> skipped s meta F b e \<or>
      (\<exists>b'. r = Some (Inr (s', pos_at W F b')) \<and> b \<le> b' \<and> b' < e \<and> \<not> map_used F b' \<and> skipped s meta F b b')"
    using s'(3) j assms(4) z by (auto intro: order_trans)
  then show ?thesis using summary_only_trans [OF assms(2) s'(1)] s'(2) unfolding unallocated_found_def by blast
qed

lemma unallocated_none:
  "summary_only s s' \<Longrightarrow> summary_sound W S s' \<Longrightarrow> skipped s meta F b e \<Longrightarrow> unallocated_found W s meta F S b e (Some (Inl (dskFulErr, s')))"
  by (auto simp: unallocated_found_def)

lemma find_unallocated_ok:
  assumes "scan_env W s fl F S" "scanned W s F b sbs" "b < 8 * length F" "e \<le> 8 * length F" "int e \<le> totalBlocks s"
  shows "unallocated_found W s meta F S b e (find_unallocated s (int e) fl meta sbs (pos_at W F b))"
  using assms
proof (induction "e - b" arbitrary: s b sbs rule: less_induct)
  case less
  note env = scan_envD [OF less.prems(1)] and p = scan_envD(1) [OF less.prems(1)]
  note step = find_unallocated.simps [of s "int e" fl meta sbs "pos_at W F b"]
  show ?case
  proof (cases "b < e")
    case False
    then have "skipped s meta F b e" by (auto simp: skipped_def)
    from unallocated_none [OF summary_only_refl env(5) this] show ?thesis using False by (subst step) simp
  next
    case be: True
    note cw = current_word_at [OF p less.prems(3)] and tst = block_test [OF p less.prems(3)]
    show ?thesis
    proof (cases "map_used F b")
      case False
      then show ?thesis using env(5) be tst cw
        by (subst step) (auto simp: unallocated_found_def skipped_def intro!: exI [of _ s])
    next
      case used: True
      have sk: "skipped s meta F b (b + 1)" using used by (auto simp: skipped_def le_less_Suc_eq)
      show ?thesis
      proof (cases "32 * W dvd b + 1")
        case False
        note nb = next_bit_at(1) [OF p False]
        have run: "find_unallocated s (int e) fl meta sbs (pos_at W F b) = find_unallocated s (int e) fl meta sbs (pos_at W F (b + 1))"
          using be used tst cw nb by (subst step) simp
        show ?thesis
        proof (cases "b + 1 < 8 * length F")
          case True
          have "(b + 1) div (32 * W) = b div (32 * W)" using False by (simp add: dvd_eq_mod_eq_0 div_Suc)
          moreover have "map_used F x" if "x < b + 1" "x < b \<longrightarrow> map_used F x" for x using that used by (auto simp: less_Suc_eq)
          ultimately have "scanned W s F (b + 1) sbs" using less.prems(2) unfolding scanned_def by (fastforce intro: le_SucI)
          from less.hyps [OF _ less.prems(1) this True less.prems(4,5)] be show ?thesis
            unfolding run by (intro unallocated_found_step [OF _ summary_only_refl sk]) simp_all
        next
          case False
          then have "e \<le> b + 1" using less.prems(4) by simp
          then have "skipped s meta F b e" using sk by (auto simp: skipped_def)
          from unallocated_none [OF summary_only_refl env(5) this] show ?thesis
            unfolding run using \<open>e \<le> b + 1\<close> by (subst find_unallocated.simps) simp
        qed
      next
        case ep: True
        obtain c where nb: "next_bit ((pos_at W F b)\<lparr>sp_block := int b + 1\<rparr>) = Inl c" "sp_block c = int b + 1" "sp_mask c = kHighBitInWordMask"
          using next_bit_at(2) [OF p ep] by blast
        obtain s1 where s1: "mark_full s sbs = Some s1" "summary_only s s1" "summary_sound W S s1"
          using mark_full_at [OF p env(3) less.prems(2) ep used less.prems(3) env(5,6)] by blast
        have env1: "scan_env W s1 fl F S" using scan_env_summary [OF less.prems(1) s1(2,3)] .
        define blk where "blk = (if meta then int b + 1 else NextBitmapBlock s1 (int b + 1))"
        obtain b1 where b1: "b + 1 \<le> b1" "blk = int b1" "32 * W dvd b1" "\<forall>x. b + 1 \<le> x \<and> x < b1 \<longrightarrow> \<not> meta \<and> in_zone s1 x"
        proof (cases meta)
          case True
          then show thesis using that [of "b + 1"] ep by (simp add: blk_def)
        next
          case False
          obtain b' where "b + 1 \<le> b'" "NextBitmapBlock s1 (int (b + 1)) = int b'" "32 * W dvd b'" "\<forall>x. b + 1 \<le> x \<and> x < b' \<longrightarrow> in_zone s1 x"
            using NextBitmapBlock_at [OF scan_envD(4) [OF env1] ep] by blast
          then show thesis using that [of b'] False by (simp add: blk_def add.commute)
        qed
        have sk1: "skipped s meta F b b1"
          unfolding skipped_def
        proof (intro allI impI)
          fix x assume x: "b \<le> x \<and> x < b1 \<and> \<not> map_used F x"
          then have "x \<noteq> b" using used by auto
          then show "\<not> meta \<and> in_zone s x" using x b1(4) summary_only_zone [OF s1(2), of W] by auto
        qed
        show ?thesis
        proof (cases "b1 < e")
          case False
          then have "find_unallocated s (int e) fl meta sbs (pos_at W F b) = Some (Inl (dskFulErr, s1))"
            using be used tst cw nb s1(1) b1(2) [unfolded blk_def] by (subst step) (cases meta; simp add: Let_def)
          moreover have "skipped s meta F b e" using sk1 False by (auto simp: skipped_def)
          ultimately show ?thesis using unallocated_none [OF s1(2,3)] by simp
        next
          case True
          have b1F: "b1 < 8 * length F" using True less.prems(4) by simp
          have rd: "ReadBitmapBlock s1 (int b1) fl = Some (Inr (int (b1 div (32 * W)), piece_of W F b1))"
            using read_first [OF scan_envD(1,2) [OF env1] b1F] by (simp add: piece_of_def)
          have "c\<lparr>sp_block := int b1, sp_buffer := piece_of W F b1, sp_word := 0, sp_left := vcbVBMIOSize s1 div 4\<rparr> = pos_at W F b1"
            using pos_at_piece [OF scan_envD(1) [OF env1] b1(3)] nb(3) by (cases c) simp
          then have run: "find_unallocated s (int e) fl meta sbs (pos_at W F b) = find_unallocated s1 (int e) fl meta (int b1) (pos_at W F b1)"
            using be used tst cw nb s1(1) b1(2) [unfolded blk_def] True rd by (subst step) (cases meta; simp add: Let_def)
          have t1: "totalBlocks s1 = totalBlocks s" using summary_only_ok [OF s1(2)] by simp
          have "scanned W s1 F b1 (int b1)" using b1(3) True less.prems(5) t1 by (auto simp: scanned_def)
          from less.hyps [OF _ env1 this b1F less.prems(4)] be b1(1) t1 less.prems(5) True show ?thesis
            unfolding run by (intro unallocated_found_step [OF _ s1(2) sk1]) simp_all
        qed
      qed
    qed
  qed
qed

section \<open>The run of free blocks\<close>

lemma free_run_ok:
  assumes "scan_env W s fl F S" "b < e" "e \<le> 8 * length F" "e < 2 ^ 32"
  shows "\<exists>err' b'. free_run s (int e) fl meta err (pos_at W F b) = Some (err', int b') \<and> (err' = err \<or> err' = 0) \<and> b \<le> b' \<and> b' \<le> e \<and>
    (\<not> map_used F b \<longrightarrow> b < b') \<and> (\<forall>x. b \<le> x \<and> x < b' \<longrightarrow> \<not> map_used F x)"
  using assms
proof (induction "e - b" arbitrary: b err rule: less_induct)
  case less
  note env = scan_envD [OF less.prems(1)] and p = scan_envD(1) [OF less.prems(1)]
  note step = free_run.simps [of s "int e" fl meta err "pos_at W F b"]
  have bF: "b < 8 * length F" using less.prems by simp
  note cw = current_word_at [OF p bF] and tst = block_test [OF p bF]
  have u: "u32 (int b + 1) = int (b + 1)" using less.prems by simp
  show ?case
  proof (cases "map_used F b")
    case True
    then show ?thesis using cw tst less.prems(2) by (subst step) (auto intro!: exI [of _ err] exI [of _ b])
  next
    case free: False
    have one: "\<forall>x. b \<le> x \<and> x < b + 1 \<longrightarrow> \<not> map_used F x" using free by (auto simp: le_less_Suc_eq)
    show ?thesis
    proof (cases "b + 1 = e")
      case True
      then show ?thesis using cw tst free u one by (subst step) (auto simp: Let_def intro!: exI [of _ err] exI [of _ "b + 1"])
    next
      case False
      then have be: "b + 1 < e" using less.prems by simp
      have cont: ?thesis if run: "free_run s (int e) fl meta err (pos_at W F b) = free_run s (int e) fl meta err1 (pos_at W F (b + 1))"
        and err1: "err1 = err \<or> err1 = 0" for err1
      proof -
        from less.hyps [OF _ less.prems(1) be less.prems(3,4), of err1] less.prems(2) obtain err' b' where
          r: "free_run s (int e) fl meta err1 (pos_at W F (b + 1)) = Some (err', int b')" "err' = err1 \<or> err' = 0" "b + 1 \<le> b'" "b' \<le> e"
            "\<forall>x. b + 1 \<le> x \<and> x < b' \<longrightarrow> \<not> map_used F x" by (metis diff_less_mono2 less_add_one)
        have "\<forall>x. b \<le> x \<and> x < b' \<longrightarrow> \<not> map_used F x" using r(5) free by (metis Suc_eq_plus1 Suc_leI order_le_less)
        then show ?thesis using run r err1 by (intro exI [of _ err'] exI [of _ b']) auto
      qed
      show ?thesis
      proof (cases "32 * W dvd b + 1")
        case False
        have "free_run s (int e) fl meta err (pos_at W F b) = free_run s (int e) fl meta err (pos_at W F (b + 1))"
          using cw tst free u be next_bit_at(1) [OF p False] by (subst step) (simp add: Let_def add.commute)
        then show ?thesis by (rule cont) simp
      next
        case ep: True
        obtain c where nb: "next_bit ((pos_at W F b)\<lparr>sp_block := int b + 1\<rparr>) = Inl c" "sp_block c = int b + 1" "sp_mask c = kHighBitInWordMask"
          using next_bit_at(2) [OF p ep] by blast
        have ne: "int (Suc b) \<noteq> int e" using be by simp
        show ?thesis
        proof (cases "\<not> meta \<and> NextBitmapBlock s (int b + 1) \<noteq> int b + 1")
          case True
          then have "free_run s (int e) fl meta err (pos_at W F b) = Some (0, int (b + 1))"
            using cw tst free u nb ne by (subst step) (simp add: Let_def add.commute)
          then show ?thesis using be one by (intro exI [of _ 0] exI [of _ "b + 1"]) simp
        next
          case False
          have b1F: "b + 1 < 8 * length F" using be less.prems by simp
          have rd: "ReadBitmapBlock s (int b + 1) fl = Some (Inr (int ((b + 1) div (32 * W)), piece_of W F (b + 1)))"
            using read_first [OF env(1,2) b1F] by (simp add: piece_of_def add.commute)
          have "c\<lparr>sp_buffer := piece_of W F (b + 1), sp_word := 0, sp_left := vcbVBMIOSize s div 4\<rparr> = pos_at W F (b + 1)"
            using pos_at_piece [OF p ep] nb(2,3) by (cases c) simp
          then have "free_run s (int e) fl meta err (pos_at W F b) = free_run s (int e) fl meta 0 (pos_at W F (b + 1))"
            using cw tst free u nb ne False rd be by (subst step) (auto simp: Let_def add.commute)
          then show ?thesis by (rule cont) simp
        qed
      qed
    qed
  qed
qed

section \<open>Any free blocks\<close>

text \<open>
  What \<open>BlockFindAnyBitmap\<close> may miss between two blocks: the metadata zone, what is before it, and the first block behind it.
\<close>

definition no_room :: "hfsmount \<Rightarrow> bool \<Rightarrow> mem \<Rightarrow> nat \<Rightarrow> nat \<Rightarrow> bool" where
  "no_room s meta F a e \<longleftrightarrow> (\<forall>x. a \<le> x \<and> x < e \<and> \<not> map_used F x \<longrightarrow> \<not> meta \<and> has_zone s \<and> int x \<le> hfs_metazone_end s + 1)"

lemma skipped_no_room: "skipped s meta F a e \<Longrightarrow> no_room s meta F a e"
  by (fastforce simp: skipped_def no_room_def in_zone_def)

definition found_blocks :: "nat \<Rightarrow> hfsmount \<Rightarrow> bool \<Rightarrow> mem \<Rightarrow> nat set \<Rightarrow> nat \<Rightarrow> nat \<Rightarrow> int \<Rightarrow> found option \<Rightarrow> bool" where
  "found_blocks W s meta F S a e mx r \<longleftrightarrow> (\<exists>s'. summary_only s s' \<and> summary_sound W S s' \<and>
     ((\<exists>err. r = Some (found_error err s') \<and> err \<in> {dskFulErr, EINVAL} \<and> (jnl s = None \<longrightarrow> err = dskFulErr \<and> no_room s meta F a e)) \<or>
      (\<exists>b k. r = Some (0, int b, int k, s') \<and> 0 < k \<and> int k \<le> mx \<and> a \<le> b \<and> b + k \<le> e \<and>
         (\<forall>x. b \<le> x \<and> x < b + k \<longrightarrow> \<not> map_used F x) \<and> (\<not> meta \<and> has_zone s \<longrightarrow> hfs_metazone_end s < int b))))"

text \<open>The journal names a later block of the bitmap when blocks wait for a trim.\<close>

definition trims_ahead :: "hfsmount \<Rightarrow> bool" where
  "trims_ahead s \<longleftrightarrow> (\<forall>b n. CheckUnmappedBytes s (int b) 1 = Some (0, Some n) \<longrightarrow> int b < n \<and> n < int (bitmap_blocks s))"

lemma CheckUnmappedBytes_err: "CheckUnmappedBytes s b n = Some (err, e) \<Longrightarrow> err \<in> {0, EINVAL}"
  by (auto simp: CheckUnmappedBytes_def Let_def split: option.splits if_splits bind_splits)

lemma CheckUnmappedBytes_summary: "summary_only s s' \<Longrightarrow> CheckUnmappedBytes s' b n = CheckUnmappedBytes s b n"
proof -
  assume "summary_only s s'"
  then have "jnl s' = jnl s" "hfs_logical_bytes s' = hfs_logical_bytes s" "blockSize s' = blockSize s" "hfsPlusIOPosOffset s' = hfsPlusIOPosOffset s"
    by (auto simp: summary_only_def)
  then show ?thesis by (simp only: CheckUnmappedBytes_def)
qed

lemma trims_ahead_summary: "summary_only s s' \<Longrightarrow> trims_ahead s \<Longrightarrow> trims_ahead s'"
proof -
  assume so: "summary_only s s'" and t: "trims_ahead s"
  have "bitmap_blocks s' = bitmap_blocks s" using so by (auto simp: summary_only_def bitmap_blocks_def)
  then show ?thesis using t by (simp only: trims_ahead_def CheckUnmappedBytes_summary [OF so])
qed

lemma no_journal [simp]: "jnl s = None \<Longrightarrow> trims_ahead s"
  by (simp add: trims_ahead_def CheckUnmappedBytes_def)

lemma jnl_live_summary: "summary_only s s' \<Longrightarrow> jnl_live s' = jnl_live s"
  using summary_only_ok(5) [of s s'] by (simp add: jnl_live_def)

text \<open>The end of the second scan: at most \<open>mx\<close> blocks from the first free one.\<close>

lemma run_limit:
  assumes "b < e" "start \<le> b" "0 < mx" "e < 2 ^ 32"
  defines "m \<equiv> min mx (u32 (int e - int start))"
  shows "\<exists>e'. (if int b < u32 (int e - m) then u32 (int b + m) else int e) = int e' \<and> b < e' \<and> e' \<le> e \<and> int e' - int b \<le> mx"
proof -
  have m: "0 < m" "m \<le> mx" "m \<le> int e" using assms by (auto simp: m_def)
  then have u: "u32 (int e - m) = int e - m" using assms(4) by simp
  show ?thesis
  proof (cases "int b < int e - m")
    case True
    then have "u32 (int b + m) = int b + m" using m assms(4) by simp
    moreover have "int (nat (int b + m)) = int b + m" using m by simp
    ultimately show ?thesis using True m u by (intro exI [of _ "nat (int b + m)"]) auto
  next
    case False
    then show ?thesis using u m assms(1) by (intro exI [of _ e]) auto
  qed
qed

lemma skip_metazone_ok:
  assumes "zone_ok W s" "start < 8 * length F" "e \<le> 8 * length F"
  shows "(skip_metazone s meta (int start) (int e) = None \<and> no_room s meta F start e) \<or>
    (\<exists>st. skip_metazone s meta (int start) (int e) = Some (int st) \<and> start \<le> st \<and> st < 8 * length F \<and> no_room s meta F start st \<and>
       (\<not> meta \<and> has_zone s \<longrightarrow> hfs_metazone_end s < int st))"
proof (cases "\<not> meta \<and> has_zone s \<and> int start \<le> hfs_metazone_end s")
  case True
  then have z: "0 \<le> hfs_metazone_end s" "hfs_metazone_end s + 2 < 2 ^ 32" using assms(1) by (auto simp: zone_ok_def)
  show ?thesis
  proof (cases "int e > hfs_metazone_end s + 2")
    case False
    then have "skip_metazone s meta (int start) (int e) = None" using True z by (simp add: skip_metazone_def has_zone_def)
    then show ?thesis using True False by (auto simp: no_room_def)
  next
    case e: True
    define st where "st = nat (hfs_metazone_end s + 1)"
    have st: "int st = hfs_metazone_end s + 1" using z by (simp add: st_def)
    have "skip_metazone s meta (int start) (int e) = Some (int st)" using True e z st by (simp add: skip_metazone_def has_zone_def)
    moreover have "start \<le> st" "st < 8 * length F" using True st e assms(3) by linarith+
    ultimately show ?thesis using True st by (intro disjI2 exI [of _ st]) (auto simp: no_room_def)
  qed
next
  case False
  then have "skip_metazone s meta (int start) (int e) = Some (int start)" by (auto simp: skip_metazone_def has_zone_def)
  then show ?thesis using False assms(2) by (auto simp: no_room_def)
qed

lemma no_room_join: "no_room s meta F a b \<Longrightarrow> no_room s meta F b e \<Longrightarrow> no_room s meta F a e"
  unfolding no_room_def by (metis linorder_not_le)

lemma found_none:
  "summary_only s s' \<Longrightarrow> summary_sound W S s' \<Longrightarrow> err \<in> {dskFulErr, EINVAL} \<Longrightarrow>
     (jnl s = None \<Longrightarrow> err = dskFulErr \<and> no_room s meta F a e) \<Longrightarrow> found_blocks W s meta F S a e mx (Some (found_error err s'))"
  unfolding found_blocks_def by (rule exI [of _ s']) auto

lemma found_some:
  "summary_only s s' \<Longrightarrow> summary_sound W S s' \<Longrightarrow> 0 < k \<Longrightarrow> int k \<le> mx \<Longrightarrow> a \<le> b \<Longrightarrow> b + k \<le> e \<Longrightarrow>
     (\<And>x. b \<le> x \<Longrightarrow> x < b + k \<Longrightarrow> \<not> map_used F x) \<Longrightarrow> (\<not> meta \<Longrightarrow> has_zone s \<Longrightarrow> hfs_metazone_end s < int b) \<Longrightarrow>
     found_blocks W s meta F S a e mx (Some (0, int b, int k, s'))"
  unfolding found_blocks_def by (intro exI [of _ s'] conjI disjI2 exI [of _ b] exI [of _ k]) auto

lemma found_blocksE:
  assumes "found_blocks W s meta F S a e mx r"
  obtains (none) s' err where "r = Some (found_error err s')" "summary_only s s'" "summary_sound W S s'" "err \<in> {dskFulErr, EINVAL}"
      "jnl s = None \<Longrightarrow> err = dskFulErr \<and> no_room s meta F a e"
    | (some) s' b k where "r = Some (0, int b, int k, s')" "summary_only s s'" "summary_sound W S s'" "0 < k" "int k \<le> mx" "a \<le> b" "b + k \<le> e"
      "\<And>x. b \<le> x \<Longrightarrow> x < b + k \<Longrightarrow> \<not> map_used F x" "\<not> meta \<Longrightarrow> has_zone s \<Longrightarrow> hfs_metazone_end s < int b"
proof -
  obtain s' where s': "summary_only s s'" "summary_sound W S s'"
    "(\<exists>err. r = Some (found_error err s') \<and> err \<in> {dskFulErr, EINVAL} \<and> (jnl s = None \<longrightarrow> err = dskFulErr \<and> no_room s meta F a e)) \<or>
      (\<exists>b k. r = Some (0, int b, int k, s') \<and> 0 < k \<and> int k \<le> mx \<and> a \<le> b \<and> b + k \<le> e \<and>
         (\<forall>x. b \<le> x \<and> x < b + k \<longrightarrow> \<not> map_used F x) \<and> (\<not> meta \<and> has_zone s \<longrightarrow> hfs_metazone_end s < int b))"
    using assms unfolding found_blocks_def by (elim exE conjE)
  from s'(3) show thesis
  proof (elim disjE exE conjE)
    fix err assume "r = Some (found_error err s')" "err \<in> {dskFulErr, EINVAL}" "jnl s = None \<longrightarrow> err = dskFulErr \<and> no_room s meta F a e"
    then show thesis using none s' by simp
  next
    fix b k assume "r = Some (0, int b, int k, s')" "0 < k" "int k \<le> mx" "a \<le> b" "b + k \<le> e"
      "\<forall>x. b \<le> x \<and> x < b + k \<longrightarrow> \<not> map_used F x" "\<not> meta \<and> has_zone s \<longrightarrow> hfs_metazone_end s < int b"
    then show thesis using some [of b k s'] s' by simp
  qed
qed

lemma found_blocks_later:
  assumes "found_blocks W s1 meta F S a1 e mx1 r" "summary_only s s1" "jnl s \<noteq> None" "a \<le> a1" "mx1 \<le> mx"
  shows "found_blocks W s meta F S a e mx r"
proof -
  have z: "has_zone s1 = has_zone s" "hfs_metazone_end s1 = hfs_metazone_end s"
    using summary_only_ok [OF assms(2)] summary_only_zone [OF assms(2)] by simp_all
  from assms(1) show ?thesis
  proof (cases rule: found_blocksE)
    case (none s' err)
    then show ?thesis using summary_only_trans [OF assms(2)] assms(3) by (auto intro: found_none)
  next
    case (some s' b k)
    then show ?thesis using summary_only_trans [OF assms(2)] assms(4,5) z by (auto intro!: found_some)
  qed
qed

lemma BlockFindAnyBitmap_ok:
  assumes "scan_env W s fl F S" "jnl_live s" "trims_ahead s" "bitmap_blocks s = 8 * length F" "start < 8 * length F"
    and e: "e \<le> 8 * length F" "e < 2 ^ 32" "int e \<le> totalBlocks s" "int e \<le> allocLimit s" and "0 < mx"
  defines "meta \<equiv> ISSET fl HFS_ALLOC_METAZONE"
  shows "found_blocks W s meta F S start e mx (BlockFindAnyBitmap s (int start) (int e) mx fl)"
  using assms(1-5) e(3,4) assms(10)
proof (induction "8 * length F - start" arbitrary: s start mx rule: less_induct)
  case less
  note env = scan_envD [OF less.prems(1)]
  note step = BlockFindAnyBitmap.simps [of s "int start" "int e" mx fl, folded meta_def]
  consider "skip_metazone s meta (int start) (int e) = None" "no_room s meta F start e"
    | st where "skip_metazone s meta (int start) (int e) = Some (int st)" "start \<le> st" "st < 8 * length F" "no_room s meta F start st"
        "\<not> meta \<and> has_zone s \<longrightarrow> hfs_metazone_end s < int st"
    using skip_metazone_ok [OF env(4) less.prems(5) e(1), of meta] by metis
  then show ?case
  proof cases
    case 1
    then show ?thesis using env(5) by (subst step) (auto simp: Let_def intro: found_none)
  next
    case (2 st)
    define m where "m = min mx (u32 (int e - int st))"
    have rd: "ReadBitmapBlock s (int st) fl = Some (Inr (int (st div (32 * W)), piece_of W F st))"
      using read_first [OF env(1,2) 2(3)] by (simp add: piece_of_def)
    have "unallocated_found W s meta F S st e (find_unallocated s (int e) fl meta 0 (pos_at W F st))"
      using less.prems by (intro find_unallocated_ok [OF less.prems(1) _ 2(3) e(1)]) (simp_all add: scanned_def)
    then obtain s1 where s1: "summary_only s s1" "summary_sound W S s1"
      and alt: "find_unallocated s (int e) fl meta 0 (pos_at W F st) = Some (Inl (dskFulErr, s1)) \<and> skipped s meta F st e \<or>
        (\<exists>b. find_unallocated s (int e) fl meta 0 (pos_at W F st) = Some (Inr (s1, pos_at W F b)) \<and> st \<le> b \<and> b < e \<and> \<not> map_used F b)"
      unfolding unallocated_found_def by blast
    have env1: "scan_env W s1 fl F S" by (rule scan_env_summary [OF less.prems(1) s1])
    note keep = summary_only_ok [OF s1(1)] and zone = summary_only_zone [OF s1(1), of W]
    from alt show ?thesis
    proof
      assume full: "find_unallocated s (int e) fl meta 0 (pos_at W F st) = Some (Inl (dskFulErr, s1)) \<and> skipped s meta F st e"
      have "no_room s meta F start e" using full 2(4) by (blast intro: no_room_join skipped_no_room)
      then show ?thesis using full 2(1) rd scan_start_at [OF env(1), of st] s1
        by (subst step) (auto simp: Let_def intro: found_none)
    next
      assume "\<exists>b. find_unallocated s (int e) fl meta 0 (pos_at W F st) = Some (Inr (s1, pos_at W F b)) \<and> st \<le> b \<and> b < e \<and> \<not> map_used F b"
      then obtain b where b: "find_unallocated s (int e) fl meta 0 (pos_at W F st) = Some (Inr (s1, pos_at W F b))" "st \<le> b" "b < e" "\<not> map_used F b" by blast
      define q where "q = (if jnl s1 \<noteq> None \<and> \<not> ISSET fl HFS_ALLOC_FLUSHTXN then CheckUnmappedBytes s1 (int b) 1 else Some (0, None))"
      have live1: "jnl_live s1" using less.prems(2) jnl_live_summary [OF s1(1)] by simp
      obtain err rec where q: "q = Some (err, rec)" "err \<in> {0, EINVAL}" "jnl s = None \<longrightarrow> err = 0 \<and> rec = None"
        using CheckUnmappedBytes_returns [OF live1, of "int b" 1] CheckUnmappedBytes_err [of s1 "int b" 1] keep(5) unfolding q_def by (cases "jnl s = None \<or> ISSET fl HFS_ALLOC_FLUSHTXN") auto
      note run = step [unfolded Let_def 2(1) rd option.case sum.case prod.case scan_start_at [OF env(1)] b(1) pos_at_block q_def [symmetric] q(1), folded m_def]
      show ?thesis
      proof (cases "if err = 0 then rec else None")
        case (Some n)
        then have j: "jnl s \<noteq> None" and "CheckUnmappedBytes s1 (int b) 1 = Some (0, Some n)" using q q_def by (auto split: if_splits)
        then have "int b < n" "n < int (bitmap_blocks s1)" using trims_ahead_summary [OF s1(1) less.prems(3)] by (auto simp: trims_ahead_def)
        moreover have bb: "bitmap_blocks s1 = 8 * length F" using s1(1) less.prems(4) by (auto simp: summary_only_def bitmap_blocks_def)
        ultimately obtain n' where n': "n = int n'" "b < n'" "n' < 8 * length F" by (metis nat_int nat_less_iff of_nat_0_le_iff order_less_le_trans int_nat_eq zless_nat_conj less_imp_le nat_0_le of_nat_less_iff order_le_less_trans)
        have m: "0 < m" using b less.prems(8) e(2) by (simp add: m_def)
        have "found_blocks W s1 meta F S n' e m (BlockFindAnyBitmap s1 (int n') (int e) m fl)"
          using less.hyps [OF _ env1 live1 trims_ahead_summary [OF s1(1) less.prems(3)] bb n'(3) _ _ m] n' b 2(2) keep less.prems by simp
        then have "found_blocks W s meta F S start e mx (BlockFindAnyBitmap s1 (int n') (int e) m fl)"
          by (rule found_blocks_later [OF _ s1(1) j]) (use n' b 2(2) in \<open>simp_all add: m_def\<close>)
        then show ?thesis using Some n' by (subst run) simp
      next
        case None
        obtain e' where e': "(if int b < u32 (int e - m) then u32 (int b + m) else int e) = int e'" "b < e'" "e' \<le> e" "int e' - int b \<le> mx"
          using run_limit [OF b(3,2) less.prems(8) e(2), folded m_def] by blast
        obtain err' b' where r: "free_run s1 (int e') fl meta err (pos_at W F b) = Some (err', int b')" "err' = err \<or> err' = 0" "b < b'" "b' \<le> e'"
            "\<forall>x. b \<le> x \<and> x < b' \<longrightarrow> \<not> map_used F x"
          using free_run_ok [OF env1 e'(2), of meta err] e'(3) e b(4) by auto
        define k where "k = b' - b"
        have k: "u32 (int b' - int b) = int k" "u32 (int b + int k) = int b'" "b + k = b'" "0 < k" "int k \<le> mx" using r(3,4) e' e(2) by (auto simp: k_def)
        have lim: "\<not> int b' > allocLimit s1" using r(4) e'(3) less.prems(7) keep(9) by linarith
        have "BlockFindAnyBitmap s (int start) (int e) mx fl = (if err' \<noteq> 0 then Some (found_error err' s1) else Some (0, int b, int k, s1))"
          by (subst run) (use None e'(1) r(1) k lim in simp)
        moreover have "start \<le> b" "b + k \<le> e" "\<not> meta \<and> has_zone s \<longrightarrow> hfs_metazone_end s < int b" "\<forall>x. b \<le> x \<and> x < b + k \<longrightarrow> \<not> map_used F x"
          using 2 b r k e' by auto
        moreover have "err' \<in> {0, EINVAL}" "jnl s = None \<longrightarrow> err' = 0" using q r(2) by auto
        ultimately show ?thesis using s1 k(4,5) by (cases "err' = 0") (auto intro: found_none found_some)
      qed
    qed
  qed
qed

lemma found_blocks_from:
  assumes "found_blocks W s meta F S x e mx r" "a \<le> x" "jnl s = None \<Longrightarrow> no_room s meta F a x"
  shows "found_blocks W s meta F S a e mx r"
  using assms(1)
proof (cases rule: found_blocksE)
  case (none s' err)
  have "jnl s = None \<Longrightarrow> err = dskFulErr \<and> no_room s meta F a e" using none(5) assms(3) by (blast intro: no_room_join)
  then show ?thesis using none by (auto intro: found_none)
next
  case (some s' b k)
  then show ?thesis using assms(2) by (auto intro!: found_some)
qed

lemma BlockFindAny_ok:
  assumes env: "scan_env W s fl F S" and all: "\<And>x. x \<in> S \<Longrightarrow> map_used F x" and j: "jnl_live s" "trims_ahead s"
    and F: "bitmap_blocks s = 8 * length F" "start < 8 * length F" and lim: "int start < allocLimit s" "allocLimit s \<le> totalBlocks s" "totalBlocks s < 2 ^ 32"
    and tot: "totalBlocks s \<le> int (8 * length F)" and e: "e \<le> 8 * length F" "int e \<le> allocLimit s" and mx: "0 < mx"
  defines "meta \<equiv> ISSET fl HFS_ALLOC_METAZONE"
  shows "found_blocks W s meta F S start e mx (BlockFindAny s (int start) (int e) mx fl trust)"
proof -
  have e2: "e < 2 ^ 32" "int e \<le> totalBlocks s" using e lim by simp_all
  have scan: "found_blocks W s meta F S x e mx (BlockFindAnyBitmap s (int x) (int e) mx fl)" if "x < 8 * length F" for x
    unfolding meta_def by (rule BlockFindAnyBitmap_ok [OF env j F(1) that e(1) e2 e(2) mx])
  note d = scan_envD [OF env]
  show ?thesis
  proof (cases "summary_enabled s")
    case False
    then show ?thesis using scan [OF F(2)] by (simp add: BlockFindAny_def)
  next
    case True
    have full: "no_room s meta F start z" if "\<And>y. start \<le> y \<Longrightarrow> y < z \<Longrightarrow> y div (32 * W) \<in> full_pieces s" for z
      using that d(5) True all by (auto simp: no_room_def summary_sound_def)
    consider "hfs_find_summary_free s (int start) = Some (Inl kENOSPC)" "\<forall>y. start \<le> y \<and> int y < allocLimit s \<longrightarrow> y div (32 * W) \<in> full_pieces s"
      | x where "hfs_find_summary_free s (int start) = Some (Inr (int x))" "start \<le> x" "int x < allocLimit s"
          "\<forall>y. start \<le> y \<and> y < x \<longrightarrow> y div (32 * W) \<in> full_pieces s"
      using find_summary_free_at [OF d(1,3) True lim] by blast
    then show ?thesis
    proof cases
      case 1
      have "no_room s meta F start e" using 1(2) e(2) by (intro full) simp
      then show ?thesis using True 1(1) scan [OF F(2)] found_none [OF summary_only_refl d(5), of dskFulErr meta F start e mx]
        by (cases trust) (simp_all add: BlockFindAny_def)
    next
      case (2 x)
      have "x < 8 * length F" using 2(3) lim(2) tot by linarith
      moreover have "BlockFindAny s (int start) (int e) mx fl trust = BlockFindAnyBitmap s (int x) (int e) mx fl"
        using True 2(1) by (simp add: BlockFindAny_def)
      ultimately show ?thesis using found_blocks_from [OF scan 2(2)] full 2(4) by simp
    qed
  qed
qed

section \<open>Known extents, and the whole search\<close>

lemma BlockFindKnown_ok:
  assumes "free_ext_inv s" "0 < mx"
  shows "BlockFindKnown s mx ext = (dskFulErr, ext, s) \<or>
    (\<exists>b k. BlockFindKnown s mx ext = (0, extent (int b) (int k), s) \<and> 0 < k \<and> int k \<le> mx \<and> int (b + k) \<le> allocLimit s \<and>
       {int b..<int (b + k)} \<subseteq> cached_blocks s)"
proof (cases "vcbFreeExt s")
  case Nil
  then show ?thesis by (simp add: BlockFindKnown_def)
next
  case (Cons e es)
  have ok: "0 \<le> startBlock e" "0 < blockCount e" "startBlock e + blockCount e \<le> allocLimit s" "allocLimit s < 2 ^ 32"
    using assms(1) Cons by (auto simp: free_ext_inv_def fe_inv_Cons fe_ok_def)
  define b k where "b = nat (startBlock e)" and "k = nat (min (blockCount e) mx)"
  have bk: "startBlock e = int b" "min (blockCount e) mx = int k" "0 < k" "int k \<le> mx" "int (b + k) \<le> allocLimit s" "int k \<le> blockCount e"
    using ok assms(2) by (auto simp: b_def k_def)
  have "u32 (int b + int k) = int b + int k" using bk(5) ok(4) by simp
  then have "BlockFindKnown s mx ext = (0, extent (int b) (int k), s)" using ok(2) bk Cons by (simp add: BlockFindKnown_def Let_def)
  moreover have "{int b..<int (b + k)} \<subseteq> cached_blocks s" using bk Cons by (auto simp: cached_blocks_def ext_blocks_def)
  ultimately show ?thesis using bk by blast
qed

lemma found_blocks_trans:
  assumes "found_blocks W s1 meta F S a1 e1 mx r" "summary_only s s1" "a \<le> a1" "e1 \<le> e"
    and room: "jnl s = None \<Longrightarrow> no_room s meta F a1 e1 \<Longrightarrow> no_room s meta F a e"
  shows "found_blocks W s meta F S a e mx r"
proof -
  have z: "has_zone s1 = has_zone s" "hfs_metazone_end s1 = hfs_metazone_end s" "jnl s1 = jnl s" "no_room s1 = no_room s"
    using summary_only_ok [OF assms(2)] summary_only_zone [OF assms(2)] by (simp_all add: no_room_def fun_eq_iff)
  from assms(1) show ?thesis
  proof (cases rule: found_blocksE)
    case (none s' err)
    then show ?thesis using summary_only_trans [OF assms(2)] room z by (auto intro: found_none)
  next
    case (some s' b k)
    then show ?thesis using summary_only_trans [OF assms(2)] assms(3,4) z by (auto intro!: found_some)
  qed
qed

text \<open>The flags of the ordinary callers: the metadata zone may be used, or the journal flushed; tentative ranges may be stolen.\<close>

definition plain_flags :: "int \<Rightarrow> bool" where
  "plain_flags fl \<longleftrightarrow> fl \<in> {0, 2, 8, 10, 0x40, 0x42, 0x48, 0x4A}"

lemma plain_flags_cases: "plain_flags fl \<Longrightarrow> fl = 0 \<or> fl = 2 \<or> fl = 8 \<or> fl = 10 \<or> fl = 0x40 \<or> fl = 0x42 \<or> fl = 0x48 \<or> fl = 0x4A"
  by (auto simp: plain_flags_def)

lemma plain_flush:
  assumes "plain_flags fl"
  defines "f \<equiv> (if ISSET fl HFS_ALLOC_FLUSHTXN then fl - HFS_ALLOC_FLUSHTXN else fl)"
  shows "plain_flags f" "plain_flags (f + HFS_ALLOC_FLUSHTXN)" "ISSET f HFS_ALLOC_METAZONE = ISSET fl HFS_ALLOC_METAZONE"
    "ISSET (f + HFS_ALLOC_FLUSHTXN) HFS_ALLOC_METAZONE = ISSET fl HFS_ALLOC_METAZONE"
  using plain_flags_cases [OF assms(1)] by (auto simp: f_def plain_flags_def ISSET_def)

lemma find_any_ok:
  assumes env: "\<And>f. plain_flags f \<Longrightarrow> scan_env W s f F S" and all: "\<And>x. x \<in> S \<Longrightarrow> map_used F x" and zero: "map_used F 0"
    and j: "jnl_live s" "trims_ahead s" and F: "bitmap_blocks s = 8 * length F"
    and lim: "1 < allocLimit s" "allocLimit s \<le> totalBlocks s" "totalBlocks s < 2 ^ 32" "totalBlocks s \<le> int (8 * length F)"
    and cache: "free_ext_inv s" and st: "int st < allocLimit s" and mx: "0 < mx" and fl: "plain_flags fl"
  defines "meta \<equiv> ISSET fl HFS_ALLOC_METAZONE"
  shows "(\<exists>b k. find_any s (int st) mx fl ext = Some (0, int b, int k, s) \<and> 0 < k \<and> int k \<le> mx \<and> int (b + k) \<le> allocLimit s \<and>
      {int b..<int (b + k)} \<subseteq> cached_blocks s) \<or>
    found_blocks W s meta F S 0 (nat (allocLimit s)) mx (find_any s (int st) mx fl ext)"
proof -
  define L where "L = nat (allocLimit s)"
  have L: "int L = allocLimit s" using lim(1) by (simp add: L_def)
  have LF: "L \<le> 8 * length F" "st < 8 * length F" "1 < 8 * length F" using L lim st by linarith+
  define f where "f = (if ISSET fl HFS_ALLOC_FLUSHTXN then fl - HFS_ALLOC_FLUSHTXN else fl)"
  note pf = plain_flush [OF fl, folded f_def meta_def]
  have any: "found_blocks W t meta F S a e mx (BlockFindAny t (int a) (int e) mx g trust)"
    if t: "summary_only s t" "summary_sound W S t" and g: "plain_flags g" "ISSET g HFS_ALLOC_METAZONE = meta" and a: "a < L" and e: "e \<le> L" for t a e g trust
  proof -
    note k = summary_only_ok [OF t(1)]
    have b: "bitmap_blocks t = 8 * length F" using t(1) F by (auto simp: summary_only_def bitmap_blocks_def)
    show ?thesis unfolding g(2) [symmetric]
      by (rule BlockFindAny_ok [OF scan_env_summary [OF env [OF g(1)] t] all _ trims_ahead_summary [OF t(1) j(2)] b])
        (use jnl_live_summary [OF t(1)] j(1) k(9,10) a e L lim LF mx in auto)
  qed
  have sound: "summary_sound W S s" using scan_envD(5) [OF env [OF fl]] .
  have join: "no_room s meta F 0 L" if "no_room s meta F 1 x" "no_room s meta F x L" "1 \<le> x \<or> x = 0" for x
    using that zero unfolding no_room_def by (metis One_nat_def less_one linorder_not_le nat_less_le)
  have a1: "1 < L" "st < L" using L lim(1) st by linarith+
  show ?thesis unfolding L_def [symmetric]
  proof (cases "BlockFindKnown s mx ext = (dskFulErr, ext, s)")
    case False
    then obtain b k where k: "BlockFindKnown s mx ext = (0, extent (int b) (int k), s)" "0 < k" "int k \<le> mx" "int (b + k) \<le> allocLimit s"
      "{int b..<int (b + k)} \<subseteq> cached_blocks s" using BlockFindKnown_ok [OF cache mx, of ext] by blast
    then show "(\<exists>b k. find_any s (int st) mx fl ext = Some (0, int b, int k, s) \<and> 0 < k \<and> int k \<le> mx \<and> int (b + k) \<le> allocLimit s \<and>
      {int b..<int (b + k)} \<subseteq> cached_blocks s) \<or> found_blocks W s meta F S 0 L mx (find_any s (int st) mx fl ext)"
      by (intro disjI1 exI [of _ b] exI [of _ k]) (simp add: find_any_def Let_def)
  next
    case True
    have "found_blocks W s meta F S 0 L mx (find_any s (int st) mx fl ext)"
      using any [OF summary_only_refl sound pf(1,3) a1(2) order_refl, of True]
    proof (cases rule: found_blocksE)
      case (some s1 b k)
      then show ?thesis using True by (auto simp: find_any_def Let_def f_def L intro: found_some)
    next
      case (none s1 err)
      show ?thesis
      proof (cases "err = dskFulErr")
        case False
        then show ?thesis using True none by (auto simp: find_any_def Let_def f_def L found_error_def intro: found_none [unfolded found_error_def])
      next
        case e1: True
        define e2 where "e2 = (if summary_enabled s then L else st)"
        have e2: "e2 \<le> L" using a1 by (simp add: e2_def)
        have nr: "no_room s meta F 0 L" if "jnl s = None" "no_room s meta F 1 e2"
        proof -
          have "no_room s meta F e2 L" using none(5) that(1) by (cases "summary_enabled s") (auto simp: e2_def no_room_def)
          from join [OF that(2) this] show ?thesis by linarith
        qed
        have second: "found_blocks W s meta F S 0 L mx (BlockFindAny s1 (int 1) (int e2) mx f False)"
          using nr by (intro found_blocks_trans [OF any [OF none(2,3) pf(1,3) a1(1) e2] none(2) _ e2]) simp_all
        have run: "find_any s (int st) mx fl ext =
          (case BlockFindAny s1 (int 1) (int e2) mx f False of None \<Rightarrow> None | Some (err, start, count, s2) \<Rightarrow>
             if err = dskFulErr \<and> ISSET fl HFS_ALLOC_FLUSHTXN then BlockFindAny s2 (int 1) (allocLimit s2) mx (f + HFS_ALLOC_FLUSHTXN) False
             else Some (err, start, count, s2))"
        proof -
          have k: "allocLimit s1 = int L" "summary_enabled s1 = summary_enabled s" using summary_only_ok [OF none(2)] L by simp_all
          have "(if summary_enabled s1 then allocLimit s1 else int st) = int e2" using k by (simp add: e2_def)
          then show ?thesis using True none(1) e1 L k
            by (auto simp: find_any_def Let_def f_def found_error_def split: option.split)
        qed
        from second show ?thesis
        proof (cases rule: found_blocksE)
          case (some s2 b k)
          then show ?thesis unfolding run by (auto intro: found_some)
        next
          case none2: (none s2 err2)
          show ?thesis
          proof (cases "err2 = dskFulErr \<and> ISSET fl HFS_ALLOC_FLUSHTXN")
            case False
            then show ?thesis using none2 unfolding run by (auto simp: found_error_def intro: found_none [unfolded found_error_def])
          next
            case True
            have "no_room s meta F 0 L" if "jnl s = None" using none2(5) that by simp
            then have "found_blocks W s meta F S 0 L mx (BlockFindAny s2 (int 1) (int L) mx (f + HFS_ALLOC_FLUSHTXN) False)"
              by (intro found_blocks_trans [OF any [OF none2(2,3) pf(2,4) a1(1) order_refl] none2(2)]) simp_all
            then show ?thesis using True none2(1) summary_only_ok(9) [OF none2(2)] L unfolding run by (simp add: found_error_def)
          qed
        qed
      qed
    qed
    then show "(\<exists>b k. find_any s (int st) mx fl ext = Some (0, int b, int k, s) \<and> 0 < k \<and> int k \<le> mx \<and> int (b + k) \<le> allocLimit s \<and>
      {int b..<int (b + k)} \<subseteq> cached_blocks s) \<or> found_blocks W s meta F S 0 L mx (find_any s (int st) mx fl ext)" by (rule disjI2)
  qed
qed

end
