(* ===== verification/AllocTheory.thy ===== *)
theory AllocTheory
  imports BlockSearch
begin

text \<open>
  The allocator keeps the volume consistent: the invariant of the mount ties the bitmap, the counter of free blocks, the free extent
  cache, the summary table and the locked ranges together; \<open>BlockAllocate\<close> and \<open>BlockDeallocate\<close> preserve it and change
  the set of used blocks by the range they return or are given.
\<close>

section \<open>The invariant of the volume\<close>

definition piece_words :: "hfsmount \<Rightarrow> nat" where
  "piece_words s = nat (vcbVBMIOSize s div 4)"

definition free_blocks :: "hfsmount \<Rightarrow> nat set" where
  "free_blocks s = {x. int x < totalBlocks s \<and> x \<notin> used_blocks s}"

definition vol_inv :: "hfsmount \<Rightarrow> bool" where
  "vol_inv s \<longleftrightarrow> bitmap_ok s \<and> bitmap_blocks s < 2 ^ 32 \<and> reserve_ok s \<and> jnl_live s \<and>
     tentative_ranges s = [] \<and> tentativeBlocks s = 0 \<and> 0 \<le> nextAllocation s \<and> 0 \<le> sparseAllocation s \<and>
     1 < allocLimit s \<and> allocLimit s \<le> totalBlocks s \<and> totalBlocks s \<le> int (bitmap_blocks s) \<and> 0 \<in> used_blocks s \<and>
     table_ok (piece_words s) s \<and> zone_ok (piece_words s) s \<and> summary_sound (piece_words s) (blocks_seen s 0) s \<and>
     free_ext_inv s \<and> (\<forall>x\<in>blocks_seen s 0. int x \<notin> cached_blocks s) \<and>
     (\<forall>x\<in>used_blocks s. \<not> in_entries (map snd (locked_ranges s)) x) \<and> freeBlocks s = int (card (free_blocks s))"

lemma plain_not:
  assumes "plain_flags fl"
  shows "\<not> ISSET fl HFS_ALLOC_COMMIT" "\<not> ISSET fl HFS_ALLOC_ROLL_BACK" "\<not> ISSET fl HFS_ALLOC_USE_TENTATIVE" "\<not> ISSET fl HFS_ALLOC_SKIPFREEBLKS"
    "\<not> ISSET fl HFS_ALLOC_TRY_HARD" "\<not> ISSET fl (HFS_ALLOC_FORCECONTIG OR HFS_ALLOC_TRY_HARD)" "\<not> ISSET fl (HFS_ALLOC_LOCKED OR HFS_ALLOC_TENTATIVE)"
    "\<not> ISSET fl (HFS_ALLOC_TENTATIVE OR HFS_ALLOC_LOCKED)" "\<not> ISSET fl HFS_ALLOC_TENTATIVE" "\<not> ISSET fl HFS_ALLOC_LOCKED"
    "\<not> ISSET fl (HFS_ALLOC_USE_TENTATIVE OR HFS_ALLOC_COMMIT)" "\<not> ISSET fl HFS_ALLOC_FAST_DEV" "\<not> ISSET fl HFS_ALLOC_IGNORE_RESERVED"
    "plain_flags (fl OR HFS_ALLOC_IGNORE_TENTATIVE)" "ISSET (fl OR HFS_ALLOC_IGNORE_TENTATIVE) HFS_ALLOC_METAZONE = ISSET fl HFS_ALLOC_METAZONE"
  using plain_flags_cases [OF assms] by (elim disjE; simp add: ISSET_def plain_flags_def)+

lemma reserved_plain: "tentative_ranges s = [] \<Longrightarrow> reserved_entries s fl = map snd (locked_ranges s)"
  by (simp add: reserved_entries_def)

lemma vol_inv_env:
  assumes inv: "vol_inv s"
  obtains F where "\<And>fl. plain_flags fl \<Longrightarrow> scan_env (piece_words s) s fl F (blocks_seen s 0)" "8 * length F = bitmap_blocks s"
    "\<And>x. x < bitmap_blocks s \<Longrightarrow> map_used F x \<longleftrightarrow> x \<in> blocks_seen s 0"
proof -
  have v: "bitmap_ok s" "reserve_ok s" "tentative_ranges s = []" "0 \<in> used_blocks s" "table_ok (piece_words s) s" "zone_ok (piece_words s) s"
    "summary_sound (piece_words s) (blocks_seen s 0) s" using inv by (simp_all add: vol_inv_def)
  have p: "pieces (piece_words s) s (allocation_file s)" and e: "no_read_errors s" using v(1) by (simp_all add: bitmap_ok_def piece_words_def)
  have "allocation_file s \<noteq> []" using v(4) by (auto simp: used_blocks_def bitmap_blocks_def)
  then obtain F where F: "or_bits (allocation_file s) (in_entries (map snd (locked_ranges s))) F" "reads s 0 F"
    using reads_reserved [OF p e v(2), of 0] reserved_plain [OF v(3)] by (auto simp: ISSET_def)
  have len: "length F = length (allocation_file s)" using F(1) by (simp add: or_bits_def)
  have rd: "reads s fl F" if "plain_flags fl" for fl
  proof -
    have "process_reservations s m x fl = process_reservations s m x 0" for m x
      by (simp add: process_reservations_def reserved_plain [OF v(3)])
    then have "ReadBitmapBlock s b fl = ReadBitmapBlock s b 0" for b
      unfolding ReadBitmapBlock_def using plain_not(13) [OF that] plain_not(13) [of 0] by (simp only: plain_flags_def insert_iff simp_thms if_False)
    then show ?thesis using F(2) by (simp add: reads_def)
  qed
  have used: "map_used F x \<longleftrightarrow> x \<in> blocks_seen s 0" if "x < bitmap_blocks s" for x
    using that F(1) by (auto simp: or_bits_def blocks_seen_def used_blocks_def bitmap_blocks_def reserved_plain [OF v(3)])
  have "scan_env (piece_words s) s fl F (blocks_seen s 0)" if "plain_flags fl" for fl
    using rd [OF that] pieces_ext [OF p refl len] v(5-7) used len by (simp add: scan_env_def bitmap_blocks_def)
  then show thesis using that [of F] len used by (simp add: bitmap_blocks_def)
qed

lemma no_overlap: "a < b \<Longrightarrow> b \<le> 2 ^ 32 \<Longrightarrow> rl_overlap en (int a) (u32 (int a + int (b - a) - 1)) = RL_NOOVERLAP"
  if "\<And>x. a \<le> x \<Longrightarrow> x < b \<Longrightarrow> \<not> (rl_start en \<le> int x \<and> int x \<le> rl_end en)" "entry_ok en"
proof -
  assume ab: "a < b" "b \<le> 2 ^ 32"
  have u: "u32 (int a + int (b - a) - 1) = int b - 1" using ab by (simp add: of_nat_diff)
  show "rl_overlap en (int a) (u32 (int a + int (b - a) - 1)) = RL_NOOVERLAP"
  proof (rule ccontr)
    assume "rl_overlap en (int a) (u32 (int a + int (b - a) - 1)) \<noteq> RL_NOOVERLAP"
    then have o: "int a \<le> rl_end en" "rl_start en \<le> int b - 1" unfolding u rl_overlap_def by (auto split: if_splits)
    define x where "x = nat (max (int a) (rl_start en))"
    have "0 \<le> max (int a) (rl_start en)" by (simp add: le_max_iff_disj)
    then have "int x = max (int a) (rl_start en)" by (simp only: x_def nat_0_le)
    then show False using that(1) [of x] that(2) o ab by (auto simp: entry_ok_def max_def split: if_splits)
  qed
qed

lemma no_locked_overlapI:
  assumes "reserve_ok s" "0 < n" "a + n \<le> 2 ^ 32" "\<And>x. a \<le> x \<Longrightarrow> x < a + n \<Longrightarrow> \<not> in_entries (map snd (locked_ranges s)) x"
  shows "no_locked_overlap s (int a) (int n)"
  unfolding no_locked_overlap_def
proof (intro ballI, clarify)
  fix r en assume en: "(r, en) \<in> set (locked_ranges s)"
  then have "\<not> (rl_start en \<le> int x \<and> int x \<le> rl_end en)" if "a \<le> x" "x < a + n" for x
    using assms(4) [OF that] by (force simp: in_entries_def)
  moreover have "entry_ok en" using assms(1) en by (auto simp: reserve_ok_def)
  ultimately show "rl_overlap en (int a) (u32 (int a + int n - 1)) = RL_NOOVERLAP"
    using no_overlap [of a "a + n" en] assms(2,3) by simp
qed

section \<open>Choosing blocks\<close>

definition plain_args :: "int \<Rightarrow> hfs_alloc_extra_args option" where
  "plain_args mx = Some \<lparr>max_blocks = mx, reservation_in = None, reservation_out = None, alignment = 0, alignment_offset = 0\<rparr>"

text \<open>No block is left for a search: the free ones are in the metadata zone (or the first behind it), which it may not use.\<close>

definition no_block_left :: "hfsmount \<Rightarrow> bool \<Rightarrow> bool" where
  "no_block_left s meta \<longleftrightarrow> (\<forall>x. int x < allocLimit s \<and> x \<notin> blocks_seen s 0 \<longrightarrow> \<not> meta \<and> has_zone s \<and> int x \<le> hfs_metazone_end s + 1)"

definition choice_ok :: "hfsmount \<Rightarrow> int \<Rightarrow> int \<Rightarrow> bool \<Rightarrow> int \<Rightarrow> HFSPlusExtentDescriptor \<Rightarrow> bool" where
  "choice_ok s freeblks mx meta err ext \<longleftrightarrow>
     err = 0 \<and> (\<exists>b k. ext = extent (int b) (int k) \<and> 0 < k \<and> int k \<le> mx \<and> int k \<le> freeblks \<and> int (b + k) \<le> allocLimit s \<and> {b..<b + k} \<inter> blocks_seen s 0 = {}) \<or>
     err \<in> {dskFulErr, EINVAL} \<and> (jnl s = None \<longrightarrow> err = dskFulErr \<and> (freeblks = 0 \<or> no_block_left s meta))"

lemma freeblks_bounds: "0 \<le> freeBlocks s \<Longrightarrow> 0 \<le> hfs_freeblks ops s False \<and> hfs_freeblks ops s False \<le> freeBlocks s"
  by (auto simp: hfs_freeblks_def Let_def intro!: min.coboundedI1 split: option.split)

lemma find_any_choice:
  assumes inv: "vol_inv s" "trims_ahead s" and fl: "plain_flags fl" and mx: "0 < mx" and st: "int st < allocLimit s"
  shows "\<exists>err b k s1. find_any s (int st) mx fl ext = Some (err, b, k, s1) \<and> summary_only s s1 \<and> summary_sound (piece_words s) (blocks_seen s 0) s1 \<and>
     choice_ok s mx mx (ISSET fl HFS_ALLOC_METAZONE) err (extent b k)"
proof -
  let ?S = "blocks_seen s 0" and ?W = "piece_words s" and ?meta = "ISSET fl HFS_ALLOC_METAZONE"
  have v: "bitmap_blocks s < 2 ^ 32" "jnl_live s" "1 < allocLimit s" "allocLimit s \<le> totalBlocks s" "totalBlocks s \<le> int (bitmap_blocks s)" "0 \<in> used_blocks s"
    "free_ext_inv s" "\<forall>x\<in>?S. int x \<notin> cached_blocks s" using inv(1) by (simp_all add: vol_inv_def)
  obtain F where F: "\<And>fl. plain_flags fl \<Longrightarrow> scan_env ?W s fl F ?S" "8 * length F = bitmap_blocks s"
    "\<And>x. x < bitmap_blocks s \<Longrightarrow> map_used F x \<longleftrightarrow> x \<in> ?S" using vol_inv_env [OF inv(1)] by blast
  have all: "map_used F x" if "x \<in> ?S" for x using that F(3) [of x] by (auto simp: blocks_seen_def)
  have zero: "map_used F 0" using all v(6) by (auto simp: blocks_seen_def used_blocks_def)
  have sound: "summary_sound ?W ?S s" using scan_envD(5) [OF F(1) [OF fl]] .
  have "int (bitmap_blocks s) < 2 ^ 32" using v(1) by simp
  then have t: "totalBlocks s < 2 ^ 32" "totalBlocks s \<le> int (8 * length F)" unfolding F(2) using v(5) by linarith+
  have free: "x \<notin> ?S" if "\<not> map_used F x" for x using that all by blast
  have "(\<exists>b k. find_any s (int st) mx fl ext = Some (0, int b, int k, s) \<and> 0 < k \<and> int k \<le> mx \<and> int (b + k) \<le> allocLimit s \<and>
      {int b..<int (b + k)} \<subseteq> cached_blocks s) \<or> found_blocks ?W s ?meta F ?S 0 (nat (allocLimit s)) mx (find_any s (int st) mx fl ext)"
    by (rule find_any_ok) (fact F(1) all zero v(2) inv(2) F(2) [symmetric] v(3,4) t v(7) st mx fl)+
  then show ?thesis
  proof (elim disjE exE conjE)
    fix b k assume *: "find_any s (int st) mx fl ext = Some (0, int b, int k, s)" "0 < k" "int k \<le> mx" "int (b + k) \<le> allocLimit s"
      "{int b..<int (b + k)} \<subseteq> cached_blocks s"
    have "{b..<b + k} \<inter> ?S = {}" using *(5) v(8) by (auto simp: subset_iff)
    then show ?thesis using * sound unfolding choice_ok_def by (intro exI [of _ 0] exI [of _ "int b"] exI [of _ "int k"] exI [of _ s]) auto
  next
    assume "found_blocks ?W s ?meta F ?S 0 (nat (allocLimit s)) mx (find_any s (int st) mx fl ext)"
    then show ?thesis
    proof (cases rule: found_blocksE)
      case (none s' err)
      have "no_block_left s ?meta" if "jnl s = None"
        using none(5) [OF that] F(3) v(4,5) unfolding no_block_left_def no_room_def by (metis F(3) le_less_trans less_le_trans not_le of_nat_less_iff zero_le zless_nat_eq_int_zless)
      then show ?thesis using none unfolding found_error_def choice_ok_def by auto
    next
      case (some s' b k)
      have "{b..<b + k} \<inter> ?S = {}"
      proof (rule ccontr)
        assume "{b..<b + k} \<inter> ?S \<noteq> {}"
        then obtain x where "b \<le> x" "x < b + k" "x \<in> ?S" by auto
        then show False using some(8) all by blast
      qed
      moreover have "int (b + k) \<le> allocLimit s" using some(7) v(3) by linarith
      ultimately show ?thesis using some unfolding choice_ok_def
        by (intro exI [of _ 0] exI [of _ "int b"] exI [of _ "int k"] exI [of _ s']) auto
    qed
  qed
qed

lemma option_bind_Some_prod:
  "Option.bind m (\<lambda>(x, y). Some (f x y)) = map_option (\<lambda>(x, y). f x y) m"
  "Option.bind m (\<lambda>(x, y, z, w). Some (g x y z w)) = map_option (\<lambda>(x, y, z, w). g x y z w) m"
  by (cases m; simp add: split_beta)+

lemma alloc_choose_plain:
  fixes ops :: "hfsmount volume_ops"
  assumes inv: "vol_inv s" "trims_ahead s" and fl: "plain_flags fl" and mx: "0 < mx" and mn: "0 \<le> mn"
  defines "fb \<equiv> hfs_freeblks ops s False"
  shows "\<exists>ch s1. alloc_choose ops s (extent (int st) mn) fl (plain_args mx) = Some (ch, plain_args mx, s1) \<and> summary_only s s1 \<and>
     summary_sound (piece_words s) (blocks_seen s 0) s1 \<and> plain_flags (ac_flags ch) \<and>
     choice_ok s fb mx (ISSET fl HFS_ALLOC_METAZONE) (ac_err ch) (ac_extent ch)"
proof -
  let ?S = "blocks_seen s 0" and ?W = "piece_words s"
  have v: "tentativeBlocks s = 0" "0 \<le> nextAllocation s" "0 \<le> sparseAllocation s" "1 < allocLimit s" "0 \<le> freeBlocks s" "summary_sound ?W ?S s"
    using inv(1) by (simp_all add: vol_inv_def)
  have fb: "0 \<le> fb" "fb \<le> freeBlocks s" using freeblks_bounds [OF v(5)] by (simp_all add: fb_def)
  define f where "f = (if fb < u32 mn then fl OR HFS_ALLOC_IGNORE_TENTATIVE else fl)"
  have f: "plain_flags f" "ISSET f HFS_ALLOC_METAZONE = ISSET fl HFS_ALLOC_METAZONE" using plain_not(14,15) [OF fl] fl by (simp_all add: f_def)
  note pl = plain_not [OF fl] and pf = plain_not [OF f(1)]
  define b0 where "b0 = (if st = 0 then (if sparse_device s then sparseAllocation s else nextAllocation s) else int st)"
  define a where "a = nat (if b0 \<ge> allocLimit s then 0 else b0)"
  have a: "int a = (if b0 \<ge> allocLimit s then 0 else b0)" "int a < allocLimit s" using v by (auto simp: a_def b0_def)
  have find: "alloc_find s (extent (int st) mn) False x y f =
     map_option (\<lambda>(err, start, count, s1). (chosen err start count f x (st = 0), s1)) (find_any s (int a) y f (extent (int st) mn))" for x y
    using a(1) [unfolded b0_def] unfolding alloc_find_def by (cases "st = 0"; cases "sparse_device s"; simp add: Let_def option_bind_Some_prod)
  have srch: "alloc_search s fb (extent (int st) mn) mn mx fl =
     (if fb = 0 then Some (chosen dskFulErr 0 0 f mn False, s) else alloc_find s (extent (int st) mn) False (min mn fb) (min mx fb) f)"
    using pl(6) pf(4,5) v(1,5) unfolding alloc_search_def by (simp add: Let_def f_def [symmetric])
  have run: "alloc_choose ops s (extent (int st) mn) fl (plain_args mx) =
     map_option (\<lambda>(ch, s1). (ch, plain_args mx, s1)) (alloc_search s fb (extent (int st) mn) mn mx fl)"
    using pl(1-3) mx unfolding alloc_choose_def plain_args_def
    by (cases "alloc_search s fb (extent (int st) mn) mn mx fl") (simp_all add: Let_def fb_def [symmetric] split_beta)
  show ?thesis
  proof (cases "fb = 0")
    case True
    then show ?thesis using v(6) f(1) unfolding run srch by (auto simp: chosen_def choice_ok_def)
  next
    case False
    then have m: "0 < min mx fb" using mx fb by simp
    obtain err b k s1 where r: "find_any s (int a) (min mx fb) f (extent (int st) mn) = Some (err, b, k, s1)" "summary_only s s1" "summary_sound ?W ?S s1"
      "choice_ok s (min mx fb) (min mx fb) (ISSET fl HFS_ALLOC_METAZONE) err (extent b k)"
      using find_any_choice [OF inv f(1) m a(2), of "extent (int st) mn"] f(2) by auto
    have "choice_ok s fb mx (ISSET fl HFS_ALLOC_METAZONE) err (extent b k)" using r(4) m unfolding choice_ok_def by (auto 0 4)
    then show ?thesis using False r f(1) unfolding run srch find by (auto simp: chosen_def)
  qed
qed

section \<open>Allocation\<close>

text \<open>What allocation and release change in the mount.\<close>

definition vol_frame :: "hfsmount \<Rightarrow> hfsmount \<Rightarrow> bool" where
  "vol_frame s s' \<longleftrightarrow> (\<exists>J A D sp fc na E fb d T. length T = length (hfs_summary_table s) \<and> length A = length (allocation_file s) \<and>
     s' = s\<lparr>jnl := J, allocation_file := A, bitmap_dirtied := D, sparseAllocation := sp, hfs_freed_block_count := fc, nextAllocation := na,
            vcbFreeExt := E, freeBlocks := fb, hfs_header_dirty := d, hfs_summary_table := T\<rparr>)"

lemma vol_frameI:
  assumes "length T = length (hfs_summary_table s)" "length A = length (allocation_file s)"
  shows "vol_frame s (s\<lparr>jnl := J, allocation_file := A, bitmap_dirtied := D, sparseAllocation := sp, hfs_freed_block_count := fc, nextAllocation := na,
     vcbFreeExt := E, freeBlocks := fb, hfs_header_dirty := d, hfs_summary_table := T\<rparr>)"
  unfolding vol_frame_def using assms
  by (intro exI [of _ J] exI [of _ A] exI [of _ D] exI [of _ sp] exI [of _ fc] exI [of _ na] exI [of _ E] exI [of _ fb] exI [of _ d] exI [of _ T] conjI refl)

lemma vol_frameD:
  assumes "vol_frame s s'"
  shows "vcbVBMIOSize s' = vcbVBMIOSize s" "piece_words s' = piece_words s" "totalBlocks s' = totalBlocks s" "allocLimit s' = allocLimit s"
    "tentative_ranges s' = tentative_ranges s" "locked_ranges s' = locked_ranges s" "hfs_flags s' = hfs_flags s" "reserve_ok s' = reserve_ok s"
    "summary_enabled s' = summary_enabled s" "table_ok W s' = table_ok W s" "zone_ok W s' = zone_ok W s" "tentativeBlocks s' = tentativeBlocks s"
    "reserved_entries s' fl = reserved_entries s fl" "bitmap_blocks s' = bitmap_blocks s"
  using assms by (auto simp: vol_frame_def bitmap_blocks_def piece_words_def reserve_ok_def summary_enabled_def table_ok_def in_table_def zone_ok_def has_zone_def
      reserved_entries_def)

lemma vol_inv_frame:
  assumes "vol_inv s" "vol_frame s s'" "bitmap_ok s'" "bitmap_blocks s' = bitmap_blocks s" "jnl_live s'" "0 \<le> nextAllocation s'" "0 \<le> sparseAllocation s'"
    "0 \<in> used_blocks s'" "summary_sound (piece_words s) (blocks_seen s' 0) s'" "free_ext_inv s'" "\<forall>x\<in>blocks_seen s' 0. int x \<notin> cached_blocks s'"
    "\<forall>x\<in>used_blocks s'. \<not> in_entries (map snd (locked_ranges s)) x" "freeBlocks s' = int (card (free_blocks s'))"
  shows "vol_inv s'"
  using assms vol_frameD [OF assms(2)] by (simp add: vol_inv_def)

lemma update_pointers_frame:
  "\<exists>sp fc na. update_pointers s (extent (int b) (int k)) upd =
     s\<lparr>sparseAllocation := sp, hfs_freed_block_count := fc, nextAllocation := na, vcbFreeExt := vcbFreeExt (remove_free_extent_cache s (int b) (int k))\<rparr> \<and>
     sp \<in> {sparseAllocation s, int b} \<and> na \<in> {nextAllocation s, int b}"
proof -
  define sp where "sp = (if vcbFreeExt s = [] \<and> hfs_freed_block_count s = 0 then int b else sparseAllocation s)"
  define fc where "fc = (if int k < hfs_freed_block_count s then hfs_freed_block_count s - int k else 0)"
  define na where "na = (if upd \<and> outside_metazone s (int b) \<and> \<not> ISSET (hfs_flags s) HFS_SKIP_UPDATE_NEXT_ALLOCATION then int b else nextAllocation s)"
  have "update_pointers s (extent (int b) (int k)) upd =
     s\<lparr>sparseAllocation := sp, hfs_freed_block_count := fc, nextAllocation := na, vcbFreeExt := vcbFreeExt (remove_free_extent_cache s (int b) (int k))\<rparr>"
    unfolding update_pointers_def by (rule hfsmount.equality)
      (auto simp: Let_def sp_def fc_def na_def remove_free_extent_cache_def sparse_device_def HFS_UPDATE_NEXT_ALLOCATION_def outside_metazone_def)
  moreover have "sp \<in> {sparseAllocation s, int b}" "na \<in> {nextAllocation s, int b}" by (simp_all add: sp_def na_def)
  ultimately show ?thesis by blast
qed

lemma account_plain:
  assumes "plain_flags fl" "tentative_ranges s = []"
  shows "\<exists>sp fc na. account_alloc s (extent (int b) (int k)) fl upd ap = Some (ap,
     s\<lparr>sparseAllocation := sp, hfs_freed_block_count := fc, nextAllocation := na, vcbFreeExt := vcbFreeExt (remove_free_extent_cache s (int b) (int k)),
       freeBlocks := u32 (freeBlocks s - int k), hfs_header_dirty := True\<rparr>) \<and>
     sp \<in> {sparseAllocation s, int b} \<and> na \<in> {nextAllocation s, int b}"
proof -
  note pl = plain_not [OF assms(1)]
  obtain sp fc na where u: "update_pointers s (extent (int b) (int k)) upd =
     s\<lparr>sparseAllocation := sp, hfs_freed_block_count := fc, nextAllocation := na, vcbFreeExt := vcbFreeExt (remove_free_extent_cache s (int b) (int k))\<rparr>"
     "sp \<in> {sparseAllocation s, int b}" "na \<in> {nextAllocation s, int b}" using update_pointers_frame [of s b k upd] by blast
  have "account_alloc s (extent (int b) (int k)) fl upd ap = Some (ap,
     s\<lparr>sparseAllocation := sp, hfs_freed_block_count := fc, nextAllocation := na, vcbFreeExt := vcbFreeExt (remove_free_extent_cache s (int b) (int k)),
       freeBlocks := u32 (freeBlocks s - int k), hfs_header_dirty := True\<rparr>)"
    using pl(1,3,4,8-11) assms(2)
    by (simp add: account_alloc_def u(1) use_reservation_def count_allocated_def reserve_extent_def MarkVCBDirty_def Let_def)
  then show ?thesis using u(2,3) by blast
qed

lemma finite_free: "finite (free_blocks s)" "int (card (free_blocks s)) \<le> max 0 (totalBlocks s)"
proof -
  have sub: "free_blocks s \<subseteq> {..<nat (totalBlocks s)}" by (auto simp: free_blocks_def)
  then show "finite (free_blocks s)" using finite_subset by blast
  have "card (free_blocks s) \<le> nat (totalBlocks s)" using card_mono [OF _ sub] by simp
  then show "int (card (free_blocks s)) \<le> max 0 (totalBlocks s)" by simp
qed

lemma free_after_alloc:
  assumes "used_blocks s' = used_blocks s \<union> {b..<b + k}" "totalBlocks s' = totalBlocks s" "{b..<b + k} \<inter> used_blocks s = {}" "int (b + k) \<le> totalBlocks s"
  shows "int (card (free_blocks s')) = int (card (free_blocks s)) - int k" "k \<le> card (free_blocks s)"
proof -
  have sub: "{b..<b + k} \<subseteq> free_blocks s" 
  proof
    fix x assume "x \<in> {b..<b + k}"
    then show "x \<in> free_blocks s" using assms(3,4) unfolding free_blocks_def by (auto simp: disjoint_iff)
  qed
  have e: "free_blocks s' = free_blocks s - {b..<b + k}" unfolding free_blocks_def assms(1,2) by auto
  show le: "k \<le> card (free_blocks s)" using card_mono [OF finite_free(1) sub] by simp
  then show "int (card (free_blocks s')) = int (card (free_blocks s)) - int k" unfolding e using card_Diff_subset [OF _ sub] by simp
qed

lemma blocks_seen_frame:
  assumes "vol_frame s s'" "bitmap_blocks s' = bitmap_blocks s"
  shows "blocks_seen s' fl = {x. x < bitmap_blocks s \<and> (x \<in> used_blocks s' \<or> in_entries (reserved_entries s fl) x)}"
  using vol_frameD(13) [OF assms(1), of fl] assms(2) by (simp add: blocks_seen_def)

text \<open>Marking the chosen blocks and the accounting keep the invariant.\<close>

lemma vol_inv_alloc:
  assumes inv: "vol_inv s" and s1: "summary_only s s1" "summary_sound (piece_words s) (blocks_seen s 0) s1"
    and m: "marked s1 s2" "jnl_live s2" "bitmap_ok s2" "bitmap_blocks s2 = bitmap_blocks s1" "used_blocks s2 = used_blocks s1 \<union> {b..<b + k}"
    and R: "0 < k" "int (b + k) \<le> allocLimit s" "{b..<b + k} \<inter> blocks_seen s 0 = {}"
    and s': "s' = s2\<lparr>sparseAllocation := sp, hfs_freed_block_count := fc, nextAllocation := na,
       vcbFreeExt := vcbFreeExt (remove_free_extent_cache s2 (int b) (int k)), freeBlocks := u32 (freeBlocks s2 - int k), hfs_header_dirty := True\<rparr>"
    and sp: "sp \<in> {sparseAllocation s2, int b}" and na: "na \<in> {nextAllocation s2, int b}"
  shows "vol_inv s'" "used_blocks s' = used_blocks s \<union> {b..<b + k}" "freeBlocks s' = freeBlocks s - int k" "vol_frame s s'" "jnl s = None \<longrightarrow> jnl s' = None"
proof -
  let ?R = "{b..<b + k}"
  have v: "bitmap_blocks s < 2 ^ 32" "0 \<le> nextAllocation s" "0 \<le> sparseAllocation s" "allocLimit s \<le> totalBlocks s" "totalBlocks s \<le> int (bitmap_blocks s)"
    "0 \<in> used_blocks s" "free_ext_inv s" "\<forall>x\<in>blocks_seen s 0. int x \<notin> cached_blocks s" "\<forall>x\<in>used_blocks s. \<not> in_entries (map snd (locked_ranges s)) x"
    "freeBlocks s = int (card (free_blocks s))" "tentative_ranges s = []" using inv by (simp_all add: vol_inv_def)
  obtain T where T: "s1 = s\<lparr>hfs_summary_table := T\<rparr>" "length T = length (hfs_summary_table s)" using s1(1) by (auto simp: summary_only_def)
  obtain J A D where s2: "s2 = s1\<lparr>jnl := J, allocation_file := A, bitmap_dirtied := D\<rparr>" and J: "jnl s1 = None \<longrightarrow> J = None"
    using m(1) unfolding marked_def by (elim exE conjE)
  have s'2: "s' = s\<lparr>jnl := J, allocation_file := A, bitmap_dirtied := D, sparseAllocation := sp, hfs_freed_block_count := fc, nextAllocation := na,
      vcbFreeExt := vcbFreeExt (remove_free_extent_cache s2 (int b) (int k)), freeBlocks := u32 (freeBlocks s - int k), hfs_header_dirty := True,
      hfs_summary_table := T\<rparr>" using s' by (simp add: s2 T(1))
  have "length A = length (allocation_file s)" using m(4) by (simp add: bitmap_blocks_def s2 T(1))
  then show fr: "vol_frame s s'" unfolding s'2 by (rule vol_frameI [OF T(2)])
  show "jnl s = None \<longrightarrow> jnl s' = None" using J by (simp add: s'2 T(1))
  note keep = vol_frameD [OF fr]
  have bm: "used_blocks s' = used_blocks s2" "bitmap_blocks s' = bitmap_blocks s2" by (simp_all add: s' used_blocks_def bitmap_blocks_def)
  have bm1: "used_blocks s1 = used_blocks s" "bitmap_blocks s1 = bitmap_blocks s" by (simp_all add: T(1) used_blocks_def bitmap_blocks_def)
  show used: "used_blocks s' = used_blocks s \<union> ?R" using bm bm1 m(5) by simp
  have blk: "bitmap_blocks s' = bitmap_blocks s" using bm bm1 m(4) by simp
  have lim: "int (b + k) \<le> totalBlocks s" "b + k \<le> bitmap_blocks s" using R(2) v(4,5) by linarith+
  have dis: "?R \<inter> used_blocks s = {}" using R(3) by (auto simp: blocks_seen_def used_blocks_def)
  have seen: "blocks_seen s' 0 = blocks_seen s 0 \<union> ?R"
    unfolding blocks_seen_frame [OF fr blk] used using lim(2) by (auto simp: blocks_seen_def)
  note cnt = free_after_alloc [OF used keep(3) dis lim(1)]
  have fin: "int (card (free_blocks s)) < 2 ^ 32" using finite_free(2) [of s] v(1,5) by simp
  show fb: "freeBlocks s' = freeBlocks s - int k" unfolding s'2 using v(10) cnt(2) fin by simp
  have rng: "block_range (int b) (int k)" using R lim v(1) by (simp add: block_range_def)
  have inv2: "free_ext_inv s2" "cached_blocks s2 = cached_blocks s"
    using v(7) by (simp_all add: s2 T(1) free_ext_inv_def cached_blocks_def sparse_device_def)
  have c: "free_ext_inv s'" "cached_blocks s' \<subseteq> cached_blocks s - {int b..<int b + int k}"
  proof -
    have "free_ext_inv (remove_free_extent_cache s2 (int b) (int k))" by (rule free_ext.rem_inv [OF inv2(1) rng])
    then show "free_ext_inv s'" by (simp add: free_ext_inv_def s' sparse_device_def remove_free_extent_cache_def)
    have "cached_blocks (remove_free_extent_cache s2 (int b) (int k)) \<subseteq> cached_blocks s2 - {int b..<int b + int k}" by (rule free_ext.rem_units [OF inv2(1) rng])
    then show "cached_blocks s' \<subseteq> cached_blocks s - {int b..<int b + int k}" by (simp add: cached_blocks_def s' inv2(2) [unfolded cached_blocks_def])
  qed
  show "vol_inv s'"
  proof (rule vol_inv_frame [OF inv fr _ blk])
    show "bitmap_ok s'" using bitmap_ok_cong [OF m(3), of s'] by (simp add: s')
    show "jnl_live s'" using m(2) by (simp add: s' jnl_live_def)
    show "0 \<le> nextAllocation s'" "0 \<le> sparseAllocation s'" using sp na v(2,3) by (auto simp: s' s2 T(1))
    show "0 \<in> used_blocks s'" using used v(6) by simp
    have "full_pieces s' = full_pieces s1" by (simp add: s' s2 full_pieces_def in_table_def full_bit_def)
    then show "summary_sound (piece_words s) (blocks_seen s' 0) s'"
      using s1(2) seen keep(9) summary_only_ok(2) [OF s1(1)] by (auto simp: summary_sound_def)
    show "free_ext_inv s'" by (rule c(1))
    show "\<forall>x\<in>blocks_seen s' 0. int x \<notin> cached_blocks s'" 
    proof
      fix x assume "x \<in> blocks_seen s' 0"
      then consider "x \<in> blocks_seen s 0" | "b \<le> x" "x < b + k" using seen by auto
      then show "int x \<notin> cached_blocks s'" using c(2) v(8) by cases (auto simp: subset_iff)
    qed
    show "\<forall>x\<in>used_blocks s'. \<not> in_entries (map snd (locked_ranges s)) x"
    proof
      fix x assume "x \<in> used_blocks s'"
      then consider "x \<in> used_blocks s" | "x \<in> ?R" using used by blast
      then show "\<not> in_entries (map snd (locked_ranges s)) x"
        using v(9) R(3) lim(2) reserved_plain [OF v(11)] by cases (auto simp: blocks_seen_def)
    qed
    show "freeBlocks s' = int (card (free_blocks s'))" using fb cnt(1) v(10) by simp
  qed
qed

lemma mark_chosen:
  assumes inv: "vol_inv s" and s1: "summary_only s s1" and fl: "plain_flags fl"
    and R: "0 < k" "int (b + k) \<le> allocLimit s" "{b..<b + k} \<inter> blocks_seen s 0 = {}"
  shows "\<exists>s2. BlockMarkAllocatedInternal s1 (int b) (int k) fl = Some (0, s2) \<and> marked s1 s2 \<and> jnl_live s2 \<and> bitmap_ok s2 \<and>
     bitmap_blocks s2 = bitmap_blocks s1 \<and> used_blocks s2 = used_blocks s1 \<union> {b..<b + k}"
proof -
  have v: "bitmap_ok s" "bitmap_blocks s < 2 ^ 32" "jnl_live s" "reserve_ok s" "allocLimit s \<le> totalBlocks s" "totalBlocks s \<le> int (bitmap_blocks s)"
    "tentative_ranges s = []" using inv by (simp_all add: vol_inv_def)
  obtain T where T: "s1 = s\<lparr>hfs_summary_table := T\<rparr>" using s1 by (auto simp: summary_only_def)
  have f: "used_blocks s1 = used_blocks s" "bitmap_blocks s1 = bitmap_blocks s" "jnl_live s1 = jnl_live s" "reserve_ok s1 = reserve_ok s" "locked_ranges s1 = locked_ranges s"
    by (simp_all add: T used_blocks_def bitmap_blocks_def jnl_live_def reserve_ok_def)
  have ok1: "bitmap_ok s1" using bitmap_ok_cong [OF v(1), of s1] by (simp add: T)
  have lim: "b + k \<le> bitmap_blocks s" using R(2) v(5,6) by linarith
  have free: "{b..<b + k} \<inter> used_blocks s1 = {}" using R(3) unfolding f(1) by (auto simp: blocks_seen_def used_blocks_def)
  have "\<not> in_entries (map snd (locked_ranges s)) x" if "b \<le> x" "x < b + k" for x
    using that R(3) lim reserved_plain [OF v(7)] by (auto simp: blocks_seen_def)
  then have "no_locked_overlap s1 (int b) (int k)" using v(2,4) lim R(1) f by (intro no_locked_overlapI) auto
  from BlockMarkAllocated_ok [OF ok1 _ R(1) _ free this plain_not(7) [OF fl]] show ?thesis using f v(3) lim by simp
qed

lemma BlockAllocate_ok:
  assumes inv: "vol_inv s" "trims_ahead s" and fl: "plain_flags fl" and mx: "0 < mx" and mn: "0 \<le> mn"
  shows "\<exists>err ext s'. BlockAllocator.BlockAllocate ops s (int st) mn mx fl = Some (err, startBlock ext, blockCount ext, s') \<and> vol_inv s' \<and>
     vol_frame s s' \<and> (jnl s = None \<longrightarrow> jnl s' = None) \<and> choice_ok s (hfs_freeblks ops s False) mx (ISSET fl HFS_ALLOC_METAZONE) err ext \<and>
     (err = 0 \<longrightarrow> used_blocks s' = used_blocks s \<union> {nat (startBlock ext)..<nat (startBlock ext + blockCount ext)} \<and>
        freeBlocks s' = freeBlocks s - blockCount ext) \<and>
     (err \<noteq> 0 \<longrightarrow> ext = extent 0 0 \<and> used_blocks s' = used_blocks s \<and> freeBlocks s' = freeBlocks s)"
proof -
  let ?S = "blocks_seen s 0" and ?W = "piece_words s" and ?fb = "hfs_freeblks ops s False" and ?meta = "ISSET fl HFS_ALLOC_METAZONE"
  obtain ch s1 where c: "alloc_choose ops s (extent (int st) mn) fl (plain_args mx) = Some (ch, plain_args mx, s1)" "summary_only s s1"
    "summary_sound ?W ?S s1" "plain_flags (ac_flags ch)" "choice_ok s ?fb mx ?meta (ac_err ch) (ac_extent ch)"
    using alloc_choose_plain [OF inv fl mx mn] by blast
  have tent: "tentative_ranges s = []" using inv(1) by (simp add: vol_inv_def)
  have run: "BlockAllocator.BlockAllocate ops s (int st) mn mx fl =
    map_option (\<lambda>(err, ext, ap, s'). (err, startBlock ext, blockCount ext, s')) (hfs_block_alloc_int ops s (extent (int st) mn) fl (plain_args mx))"
    unfolding BlockAllocator.BlockAllocate_def plain_args_def by (simp add: option_bind_Some_prod)
  have al: "align_extent (plain_args mx) x ext = ext" for x ext by (simp add: align_extent_def plain_args_def)
  show ?thesis
  proof (cases "ac_err ch = 0")
    case False
    obtain T where T: "s1 = s\<lparr>hfs_summary_table := T\<rparr>" "length T = length (hfs_summary_table s)" using c(2) by (auto simp: summary_only_def)
    have fr: "vol_frame s s1" using vol_frameI [OF T(2) refl, where J = "jnl s" and D = "bitmap_dirtied s" and sp = "sparseAllocation s" and
        fc = "hfs_freed_block_count s" and na = "nextAllocation s" and E = "vcbFreeExt s" and fb = "freeBlocks s" and d = "hfs_header_dirty s"] by (simp add: T(1))
    have same: "used_blocks s1 = used_blocks s" "bitmap_blocks s1 = bitmap_blocks s" "blocks_seen s1 0 = ?S" "cached_blocks s1 = cached_blocks s" "free_blocks s1 = free_blocks s"
      by (simp_all add: T(1) used_blocks_def bitmap_blocks_def blocks_seen_def reserved_entries_def cached_blocks_def free_blocks_def)
    have "vol_inv s1"
    proof (rule vol_inv_frame [OF inv(1) fr])
      show "bitmap_ok s1" using bitmap_ok_cong [of s s1] inv(1) by (simp add: T vol_inv_def)
    qed (use inv(1) c(3) same in \<open>simp_all add: vol_inv_def T(1) jnl_live_def free_ext_inv_def sparse_device_def\<close>)
    moreover have "BlockAllocator.BlockAllocate ops s (int st) mn mx fl = Some (ac_err ch, startBlock (extent 0 0), blockCount (extent 0 0), s1)"
      unfolding run hfs_block_alloc_int_def c(1) using False by simp
    moreover have "choice_ok s ?fb mx ?meta (ac_err ch) (extent 0 0)" using c(5) False by (simp add: choice_ok_def)
    ultimately show ?thesis using False fr same(1) by (intro exI [of _ "ac_err ch"] exI [of _ "extent 0 0"] exI [of _ s1]) (simp add: T(1))
  next
    case True
    then obtain b k where R: "ac_extent ch = extent (int b) (int k)" "0 < k" "int k \<le> mx" "int (b + k) \<le> allocLimit s" "{b..<b + k} \<inter> ?S = {}"
      using c(5) by (auto simp: choice_ok_def)
    obtain s2 where m: "BlockMarkAllocatedInternal s1 (int b) (int k) (ac_flags ch) = Some (0, s2)" "marked s1 s2" "jnl_live s2" "bitmap_ok s2"
       "bitmap_blocks s2 = bitmap_blocks s1" "used_blocks s2 = used_blocks s1 \<union> {b..<b + k}"
      using mark_chosen [OF inv(1) c(2,4) R(2,4,5)] by blast
    have t2: "tentative_ranges s2 = []" using m(2) c(2) tent by (auto simp: marked_def summary_only_def)
    obtain sp fc na s' where a: "account_alloc s2 (extent (int b) (int k)) (ac_flags ch) (ac_update ch) (plain_args mx) = Some (plain_args mx, s')"
      "s' = s2\<lparr>sparseAllocation := sp, hfs_freed_block_count := fc, nextAllocation := na,
         vcbFreeExt := vcbFreeExt (remove_free_extent_cache s2 (int b) (int k)), freeBlocks := u32 (freeBlocks s2 - int k), hfs_header_dirty := True\<rparr>"
      "sp \<in> {sparseAllocation s2, int b}" "na \<in> {nextAllocation s2, int b}"
      using account_plain [OF c(4) t2, of b k "ac_update ch" "plain_args mx"] by blast
    note fin = vol_inv_alloc [OF inv(1) c(2,3) m(2-6) R(2,4,5) a(2-4)]
    have "map_on_device ops s2 (extent (int b) (int k)) (ac_flags ch) = s2" using plain_not(12) [OF c(4)] by (simp add: map_on_device_def)
    then have "BlockAllocator.BlockAllocate ops s (int st) mn mx fl = Some (0, startBlock (extent (int b) (int k)), blockCount (extent (int b) (int k)), s')"
      unfolding run hfs_block_alloc_int_def c(1) using True R(1,2) m(1) a(1) by (simp add: al)
    then show ?thesis using fin c(5) True R
      by (intro exI [of _ 0] exI [of _ "extent (int b) (int k)"] exI [of _ s']) (auto simp: nat_add_distrib)
  qed
qed

section \<open>Release\<close>

lemma add_free_returns:
  assumes "tentative_ranges s = []" "no_locked_overlap s a n"
  shows "\<exists>E. add_free_extent_cache s a n = Some (False, s\<lparr>vcbFreeExt := E\<rparr>)"
proof -
  have "\<not> (\<exists>(r, rng)\<in>set (tentative_ranges s) \<union> set (locked_ranges s). rl_overlap rng a (u32 (a + n - 1)) \<noteq> RL_NOOVERLAP)"
    using assms by (auto simp: no_locked_overlap_def)
  moreover have "\<exists>E. s = s\<lparr>vcbFreeExt := E\<rparr>" by (rule exI [of _ "vcbFreeExt s"]) simp
  ultimately show ?thesis unfolding add_free_extent_cache_def by (auto simp: Let_def split: prod.split)
qed

lemma account_free_frame:
  assumes fl: "plain_flags fl" and s: "tentative_ranges s = []" "no_locked_overlap s a n"
  shows "\<exists>sp fc na E. account_free s a n fl = Some (s\<lparr>sparseAllocation := sp, hfs_freed_block_count := fc, nextAllocation := na, vcbFreeExt := E,
       freeBlocks := u32 (freeBlocks s + n), hfs_header_dirty := True\<rparr>) \<and> sp \<in> {sparseAllocation s, a} \<and>
     na \<in> {nextAllocation s, u32 (nextAllocation s - n)} \<and> (if jnl s = None then vcbFreeExt (cache_add s a n) = E else E = vcbFreeExt s)"
proof -
  define fc where "fc = u32 (hfs_freed_block_count s + n)"
  define na where "na = (if nextAllocation s = u32 (a + n) \<and> \<not> ISSET (hfs_flags s) HFS_SKIP_UPDATE_NEXT_ALLOCATION
     then u32 (nextAllocation s - n) else nextAllocation s)"
  define t where "t = s\<lparr>freeBlocks := u32 (freeBlocks s + n), hfs_freed_block_count := fc, nextAllocation := na\<rparr>"
  have na: "na \<in> {nextAllocation s, u32 (nextAllocation s - n)}" by (simp add: na_def)
  have run: "account_free s a n fl = (if jnl t = None then map_option (\<lambda>(_, vcb).
      MarkVCBDirty (if a < sparseAllocation vcb then vcb\<lparr>sparseAllocation := a\<rparr> else vcb)) (add_free_extent_cache t a n) else Some (MarkVCBDirty t))"
  proof -
    have "\<not> ISSET fl HFS_ALLOC_SKIPFREEBLKS" by (rule plain_not(4) [OF fl])
    moreover have "(let vcb = s\<lparr>freeBlocks := u32 (freeBlocks s + n)\<rparr>; vcb = vcb\<lparr>hfs_freed_block_count := u32 (hfs_freed_block_count vcb + n)\<rparr>
        in if nextAllocation vcb = u32 (a + n) then HFS_UPDATE_NEXT_ALLOCATION vcb (u32 (nextAllocation vcb - n)) else vcb) = t"
      by (simp add: Let_def t_def na_def fc_def HFS_UPDATE_NEXT_ALLOCATION_def)
    ultimately show ?thesis unfolding account_free_def
      by (cases "add_free_extent_cache t a n") (simp_all add: Let_def split_beta)
  qed
  show ?thesis
  proof (cases "jnl s = None")
    case True
    have t2: "tentative_ranges t = []" "no_locked_overlap t a n" using s by (simp_all add: t_def no_locked_overlap_def)
    obtain E where E: "add_free_extent_cache t a n = Some (False, t\<lparr>vcbFreeExt := E\<rparr>)" using add_free_returns [OF t2] by blast
    obtain E' where E': "add_free_extent_cache s a n = Some (False, s\<lparr>vcbFreeExt := E'\<rparr>)" using add_free_returns [OF s] by blast
    have "E' = E"
    proof -
      have "map_option (vcbFreeExt \<circ> snd) (add_free_extent_cache t a n) = map_option (vcbFreeExt \<circ> snd) (add_free_extent_cache s a n)"
        by (simp add: add_free_extent_cache_def t_def sparse_device_def Let_def split_beta)
      then show ?thesis using E E' by simp
    qed
    define sp where "sp = (if a < sparseAllocation s then a else sparseAllocation s)"
    have "account_free s a n fl = Some (s\<lparr>sparseAllocation := sp, hfs_freed_block_count := fc, nextAllocation := na, vcbFreeExt := E,
       freeBlocks := u32 (freeBlocks s + n), hfs_header_dirty := True\<rparr>)"
      unfolding run using True E by (simp add: t_def MarkVCBDirty_def sp_def)
    moreover have "vcbFreeExt (cache_add s a n) = E" using E' \<open>E' = E\<close> by (simp add: cache_add_def)
    ultimately show ?thesis using True na
      by (intro exI [of _ sp] exI [of _ fc] exI [of _ na] exI [of _ E]) (simp add: sp_def)
  next
    case False
    then have *: "account_free s a n fl = Some (s\<lparr>sparseAllocation := sparseAllocation s, hfs_freed_block_count := fc, nextAllocation := na, vcbFreeExt := vcbFreeExt s,
       freeBlocks := u32 (freeBlocks s + n), hfs_header_dirty := True\<rparr>)" unfolding run by (auto simp: t_def MarkVCBDirty_def)
    show ?thesis
      by (intro exI [of _ "sparseAllocation s"] exI [of _ fc] exI [of _ na] exI [of _ "vcbFreeExt s"] conjI, rule *) (use False na in auto)
  qed
qed

lemma free_after_release:
  assumes "used_blocks s' = used_blocks s - {a..<a + n}" "totalBlocks s' = totalBlocks s" "{a..<a + n} \<subseteq> used_blocks s" "int (a + n) \<le> totalBlocks s"
  shows "int (card (free_blocks s')) = int (card (free_blocks s)) + int n"
proof -
  have e: "free_blocks s' = free_blocks s \<union> {a..<a + n}"
  proof (rule set_eqI)
    fix x
    show "x \<in> free_blocks s' \<longleftrightarrow> x \<in> free_blocks s \<union> {a..<a + n}" using assms(4) unfolding free_blocks_def assms(1,2) by auto
  qed
  have "free_blocks s \<inter> {a..<a + n} = {}" using assms(3) unfolding free_blocks_def by auto
  then show ?thesis unfolding e using card_Un_disjoint [OF finite_free(1)] by simp
qed

lemma BlockDeallocate_ok:
  assumes inv: "vol_inv s" and fl: "plain_flags fl" and R: "0 < a" "0 < n" "{a..<a + n} \<subseteq> used_blocks s" "int (a + n) \<le> totalBlocks s"
  shows "\<exists>s'. BlockAllocator.BlockDeallocate s (int a) (int n) fl = Some (0, s') \<and> vol_inv s' \<and> vol_frame s s' \<and> (jnl s = None \<longrightarrow> jnl s' = None) \<and>
     used_blocks s' = used_blocks s - {a..<a + n} \<and> freeBlocks s' = freeBlocks s + int n \<and>
     cached_blocks s' \<subseteq> cached_blocks s \<union> {int a..<int a + int n}"
proof -
  let ?R = "{a..<a + n}" and ?W = "piece_words s"
  have v: "bitmap_blocks s < 2 ^ 32" "0 \<le> nextAllocation s" "0 \<le> sparseAllocation s" "allocLimit s \<le> totalBlocks s" "totalBlocks s \<le> int (bitmap_blocks s)"
    "0 \<in> used_blocks s" "free_ext_inv s" "\<forall>x\<in>blocks_seen s 0. int x \<notin> cached_blocks s" "\<forall>x\<in>used_blocks s. \<not> in_entries (map snd (locked_ranges s)) x"
    "freeBlocks s = int (card (free_blocks s))" "tentative_ranges s = []" "bitmap_ok s" "jnl_live s" "reserve_ok s" "table_ok ?W s"
    "summary_sound ?W (blocks_seen s 0) s" using inv by (simp_all add: vol_inv_def)
  have p: "pieces ?W s (allocation_file s)" using v(12) by (simp add: bitmap_ok_def piece_words_def)
  have tot: "totalBlocks s < 2 ^ 32" using v(1,5) by simp
  obtain e s1 where s1: "hfs_release_summary s (int a) (int n) = Some (e, s1)" "summary_only s s1" "summary_sound ?W (blocks_seen s 0 - ?R) s1"
    using release_summary_at [OF p v(15) R(2,4) tot] v(16) by blast
  obtain T where T: "s1 = s\<lparr>hfs_summary_table := T\<rparr>" "length T = length (hfs_summary_table s)" using s1(2) by (auto simp: summary_only_def)
  have f1: "used_blocks s1 = used_blocks s" "bitmap_blocks s1 = bitmap_blocks s" "totalBlocks s1 = totalBlocks s" "jnl_live s1 = jnl_live s"
    by (simp_all add: T used_blocks_def bitmap_blocks_def jnl_live_def)
  have ok1: "bitmap_ok s1" using bitmap_ok_cong [OF v(12), of s1] by (simp add: T)
  have lim: "a + n \<le> bitmap_blocks s" using R(4) v(5) by linarith
  obtain s2 where m: "BlockMarkFreeInternal s1 (int a) (int n) True = Some (0, s2)" "marked s1 s2" "jnl_live s2" "bitmap_ok s2"
    "bitmap_blocks s2 = bitmap_blocks s1" "used_blocks s2 = used_blocks s1 - ?R"
    using BlockMarkFree_ok [OF ok1 _ R(2), of a True] f1 v(1,13) lim R(3,4) by auto
  obtain J A D where s2: "s2 = s1\<lparr>jnl := J, allocation_file := A, bitmap_dirtied := D\<rparr>" and J: "jnl s1 = None \<longrightarrow> J = None"
    using m(2) unfolding marked_def by (elim exE conjE)
  have unlocked: "\<not> in_entries (map snd (locked_ranges s)) x" if "a \<le> x" "x < a + n" for x using that R(3) v(9) by auto
  have "no_locked_overlap s (int a) (int n)" using lim v(1,14) R(2) unlocked by (intro no_locked_overlapI) auto
  then have nl: "tentative_ranges s2 = []" "no_locked_overlap s2 (int a) (int n)" using v(11) by (simp_all add: s2 T(1) no_locked_overlap_def)
  obtain sp fc na E where a: "account_free s2 (int a) (int n) fl = Some (s2\<lparr>sparseAllocation := sp, hfs_freed_block_count := fc, nextAllocation := na,
       vcbFreeExt := E, freeBlocks := u32 (freeBlocks s2 + int n), hfs_header_dirty := True\<rparr>)" "sp \<in> {sparseAllocation s2, int a}"
     "na \<in> {nextAllocation s2, u32 (nextAllocation s2 - int n)}" "if jnl s2 = None then vcbFreeExt (cache_add s2 (int a) (int n)) = E else E = vcbFreeExt s2"
    using account_free_frame [OF fl nl] by (elim exE conjE)
  define s' where "s' = s2\<lparr>sparseAllocation := sp, hfs_freed_block_count := fc, nextAllocation := na,
       vcbFreeExt := E, freeBlocks := u32 (freeBlocks s2 + int n), hfs_header_dirty := True\<rparr>"
  have s': "s' = s\<lparr>jnl := J, allocation_file := A, bitmap_dirtied := D, sparseAllocation := sp, hfs_freed_block_count := fc, nextAllocation := na,
      vcbFreeExt := E, freeBlocks := u32 (freeBlocks s + int n), hfs_header_dirty := True, hfs_summary_table := T\<rparr>" by (simp add: s'_def s2 T(1))
  have "length A = length (allocation_file s)" using m(5) by (simp add: bitmap_blocks_def s2 T(1))
  then have fr: "vol_frame s s'" unfolding s' by (rule vol_frameI [OF T(2)])
  note keep = vol_frameD [OF fr]
  have run: "BlockAllocator.BlockDeallocate s (int a) (int n) fl = Some (0, s')"
    using s1(1) m(1) a(1) R(2) plain_not(8) [OF fl] by (simp add: BlockAllocator.BlockDeallocate_def s'_def)
  have bm: "used_blocks s' = used_blocks s2" "bitmap_blocks s' = bitmap_blocks s2" by (simp_all add: s'_def used_blocks_def bitmap_blocks_def)
  have used: "used_blocks s' = used_blocks s - ?R" and blk: "bitmap_blocks s' = bitmap_blocks s" using bm m(5,6) f1 by simp_all
  have seen: "blocks_seen s' 0 = blocks_seen s 0 - ?R"
    unfolding blocks_seen_frame [OF fr blk] used using unlocked reserved_plain [OF v(11)] by (auto simp: blocks_seen_def)
  have cnt: "int (card (free_blocks s')) = int (card (free_blocks s)) + int n" by (rule free_after_release [OF used keep(3) R(3,4)])
  have "int (card (free_blocks s')) < 2 ^ 32" using finite_free(2) [of s'] keep(3) tot by simp
  then have fb: "freeBlocks s' = freeBlocks s + int n" using cnt v(10) by (simp add: s')
  have rng: "block_range (int a) (int n)" using R lim v(1) by (simp add: block_range_def)
  have inv2: "free_ext_inv s2" "cached_blocks s2 = cached_blocks s"
    using v(7) by (simp_all add: s2 T(1) free_ext_inv_def cached_blocks_def sparse_device_def)
  have jn: "jnl s2 = None \<longleftrightarrow> J = None" "jnl s' = J" by (simp_all add: s2 s')
  have "free_ext_inv s' \<and> cached_blocks s' \<subseteq> cached_blocks s \<union> {int a..<int a + int n}"
  proof (cases "J = None")
    case True
    then have E: "E = vcbFreeExt (cache_add s2 (int a) (int n))" using a(4) jn by simp
    have h: "allocLimit (cache_add s2 (int a) (int n)) = allocLimit s2" "hfs_flags (cache_add s2 (int a) (int n)) = hfs_flags s2"
      using add_free_returns [OF nl] by (auto simp: cache_add_def)
    have "free_ext_inv s'" using free_ext.add_inv [OF inv2(1) rng] h by (simp add: free_ext_inv_def sparse_device_def E s'_def)
    moreover have "cached_blocks s' \<subseteq> cached_blocks s \<union> {int a..<int a + int n}"
      using free_ext.add_units [OF inv2(1) rng] inv2(2) by (simp add: cached_blocks_def E s'_def)
    ultimately show ?thesis ..
  next
    case False
    then have "E = vcbFreeExt s" using a(4) jn by (simp add: s2 T(1))
    then show ?thesis using v(7) by (auto simp: free_ext_inv_def sparse_device_def cached_blocks_def s')
  qed
  then have c: "free_ext_inv s'" "cached_blocks s' \<subseteq> cached_blocks s \<union> {int a..<int a + int n}" by blast+
  have "vol_inv s'"
  proof (rule vol_inv_frame [OF inv fr _ blk])
    show "bitmap_ok s'" using bitmap_ok_cong [OF m(4), of s'] by (simp add: s'_def)
    show "jnl_live s'" using m(3) by (simp add: s'_def jnl_live_def)
    show "0 \<le> nextAllocation s'" "0 \<le> sparseAllocation s'" using a(2,3) v(2,3) by (auto simp: s' s2 T(1))
    show "0 \<in> used_blocks s'" using used v(6) R(1) by simp
    have "full_pieces s' = full_pieces s1" by (simp add: s'_def s2 full_pieces_def in_table_def full_bit_def)
    then show "summary_sound ?W (blocks_seen s' 0) s'" using s1(3) unfolding seen summary_sound_def by (simp add: keep(9) summary_only_ok(2) [OF s1(2)])
    show "free_ext_inv s'" by (rule c(1))
    show "\<forall>x\<in>blocks_seen s' 0. int x \<notin> cached_blocks s'"
    proof
      fix x assume "x \<in> blocks_seen s' 0"
      then have "int x \<notin> cached_blocks s" "\<not> (a \<le> x \<and> x < a + n)" using seen v(8) by auto
      then show "int x \<notin> cached_blocks s'" using c(2) by (auto simp: subset_iff)
    qed
    show "\<forall>x\<in>used_blocks s'. \<not> in_entries (map snd (locked_ranges s)) x" using used v(9) by blast
    show "freeBlocks s' = int (card (free_blocks s'))" using fb cnt v(10) by simp
  qed
  moreover have "jnl s = None \<longrightarrow> jnl s' = None" using J jn by (simp add: T(1))
  ultimately show ?thesis using run fr used fb c(2) by (intro exI [of _ s'] conjI)
qed

end
