(* ===== verification/BlockStore.thy ===== *)
theory BlockStore
  imports Main
begin

text \<open>
  The contract of a block allocator, as the rest of the file system relies on it: an allocation takes blocks that nobody has, a release
  gives back blocks that are in use, and the count of free blocks follows.  What clients get from it is proved here once, for
  every history of requests: no block is owned twice.
\<close>

datatype 'r store_op = Allocate 'r | Release nat nat

text \<open>
  A step of a history: the store and the blocks that clients own.  An allocation yields the first block, the number of blocks (0 when it
  failed) and the store; clients release only what they own.
\<close>

fun store_step :: "('r \<Rightarrow> 's \<Rightarrow> nat \<times> nat \<times> 's) \<Rightarrow> (nat \<Rightarrow> nat \<Rightarrow> 's \<Rightarrow> 's) \<Rightarrow> 'r store_op \<Rightarrow> 's \<times> nat set \<Rightarrow> 's \<times> nat set" where
  "store_step alloc dealloc (Allocate r) (s, own) = (case alloc r s of (b, k, s') \<Rightarrow> (s', own \<union> {b..<b + k}))"
| "store_step alloc dealloc (Release a n) (s, own) =
     (if 0 < n \<and> {a..<a + n} \<subseteq> own then (dealloc a n s, own - {a..<a + n}) else (s, own))"

fun request_ok :: "('r \<Rightarrow> bool) \<Rightarrow> 'r store_op \<Rightarrow> bool" where
  "request_ok legal (Allocate r) = legal r"
| "request_ok legal (Release a n) = True"

locale block_store =
  fixes used :: "'s \<Rightarrow> nat set"
    and space :: "'s \<Rightarrow> nat set"
    and free_count :: "'s \<Rightarrow> int"
    and ok :: "'s \<Rightarrow> bool"
    and legal :: "'r \<Rightarrow> bool"
    and alloc :: "'r \<Rightarrow> 's \<Rightarrow> nat \<times> nat \<times> 's"
    and dealloc :: "nat \<Rightarrow> nat \<Rightarrow> 's \<Rightarrow> 's"
  assumes alloc_fresh: "ok s \<Longrightarrow> legal r \<Longrightarrow> alloc r s = (b, k, s') \<Longrightarrow> {b..<b + k} \<inter> used s = {} \<and> {b..<b + k} \<subseteq> space s"
    and alloc_used: "ok s \<Longrightarrow> legal r \<Longrightarrow> alloc r s = (b, k, s') \<Longrightarrow> ok s' \<and> space s' = space s \<and> used s' = used s \<union> {b..<b + k}"
    and alloc_count: "ok s \<Longrightarrow> legal r \<Longrightarrow> alloc r s = (b, k, s') \<Longrightarrow> free_count s' = free_count s - int k"
    and dealloc_used: "ok s \<Longrightarrow> 0 < n \<Longrightarrow> {a..<a + n} \<subseteq> used s \<inter> space s \<Longrightarrow>
      ok (dealloc a n s) \<and> space (dealloc a n s) = space s \<and> used (dealloc a n s) = used s - {a..<a + n}"
    and dealloc_count: "ok s \<Longrightarrow> 0 < n \<Longrightarrow> {a..<a + n} \<subseteq> used s \<inter> space s \<Longrightarrow> free_count (dealloc a n s) = free_count s + int n"
begin

text \<open>The clients own blocks of the space that were not in use at first (\<open>base\<close>); these and the owned blocks are what is used; the counts add up.\<close>

lemma history_step:
  assumes inv: "ok s" "own \<inter> base = {}" "finite own" "own \<subseteq> space s" "used s = base \<union> own" "free_count s + int (card own) = tot"
    and step: "request_ok legal oper" "store_step alloc dealloc oper (s, own) = (s', own')"
  shows "ok s' \<and> own' \<inter> base = {} \<and> finite own' \<and> own' \<subseteq> space s' \<and> used s' = base \<union> own' \<and> free_count s' + int (card own') = tot"
proof (cases oper)
  case (Allocate r)
  obtain b k t where a: "alloc r s = (b, k, t)" by (cases "alloc r s") auto
  have r: "s' = t" "own' = own \<union> {b..<b + k}" "legal r" using step Allocate a by auto
  note l = alloc_fresh [OF inv(1) r(3) a] alloc_used [OF inv(1) r(3) a] alloc_count [OF inv(1) r(3) a]
  have "own \<inter> {b..<b + k} = {}" using l(1) inv(5) by blast
  then have "card own' = card own + k" unfolding r(2) using card_Un_disjoint [OF inv(3)] by simp
  then show ?thesis using l inv r by auto
next
  case (Release a n)
  show ?thesis
  proof (cases "0 < n \<and> {a..<a + n} \<subseteq> own")
    case False
    then have "s' = s" "own' = own" using step(2) unfolding Release by (simp_all split: if_splits)
    then show ?thesis using inv by simp
  next
    case True
    then have r: "s' = dealloc a n s" "own' = own - {a..<a + n}" using step Release by simp_all
    have sub: "{a..<a + n} \<subseteq> used s \<inter> space s" using True inv(4,5) by blast
    note l = dealloc_used [OF inv(1) _ sub] dealloc_count [OF inv(1) _ sub]
    have "card own' = card own - n" "n \<le> card own"
      using True card_Diff_subset [of "{a..<a + n}" own] card_mono [OF inv(3), of "{a..<a + n}"] unfolding r(2) by simp_all
    moreover have "base \<inter> {a..<a + n} = {}" using True inv(2) by blast
    ultimately show ?thesis using l True inv r by auto
  qed
qed

lemma history:
  assumes "ok s" "own \<inter> base = {}" "finite own" "own \<subseteq> space s" "used s = base \<union> own" "free_count s + int (card own) = tot"
    and "\<forall>oper\<in>set ops. request_ok legal oper" "fold (store_step alloc dealloc) ops (s, own) = (s', own')"
  shows "ok s' \<and> own' \<inter> base = {} \<and> finite own' \<and> own' \<subseteq> space s' \<and> used s' = base \<union> own' \<and> free_count s' + int (card own') = tot"
  using assms
proof (induction ops arbitrary: s own)
  case (Cons oper ops)
  obtain s1 own1 where st: "store_step alloc dealloc oper (s, own) = (s1, own1)" by (cases "store_step alloc dealloc oper (s, own)") auto
  have "request_ok legal oper" using Cons.prems(7) by simp
  from history_step [OF Cons.prems(1-6) this st] Cons.IH [of s1 own1] Cons.prems(7,8) st show ?case by auto
qed auto

text \<open>From such a state, an allocation never returns a block that a client owns.\<close>

lemma fresh_from_history:
  assumes "ok s" "free_count s = tot" "\<forall>oper\<in>set ops. request_ok legal oper" "fold (store_step alloc dealloc) ops (s, {}) = (s', own)"
    and "legal r" "alloc r s' = (b, k, s'')"
  shows "{b..<b + k} \<inter> own = {}" "{b..<b + k} \<inter> used s = {}"
  using history [OF assms(1) _ _ _ _ _ assms(3,4), of "used s" tot] alloc_fresh [OF _ assms(5,6)] assms(2) by auto

end

end
