(* ===== verification/VolumeStore.thy ===== *)
theory VolumeStore
  imports AllocTheory BlockStore
begin

text \<open>
  The allocator as the other parts of the file system see it: it implements the contract of a block store, and releasing
  the extents of a fork (\<open>FileExtentMapping.c\<close>) through it returns exactly the blocks of the fork.
\<close>

section \<open>The allocator implements the contract\<close>

text \<open>A request: the preferred block, the least and the greatest number of blocks, and the flags.\<close>

type_synonym alloc_request = "nat \<times> int \<times> int \<times> int"

fun request_legal :: "alloc_request \<Rightarrow> bool" where
  "request_legal (st, mn, mx, fl) \<longleftrightarrow> 0 \<le> mn \<and> 0 < mx \<and> plain_flags fl"

fun alloc_blocks :: "hfsmount volume_ops \<Rightarrow> alloc_request \<Rightarrow> hfsmount \<Rightarrow> nat \<times> nat \<times> hfsmount" where
  "alloc_blocks ops (st, mn, mx, fl) s =
     (case BlockAllocator.BlockAllocate ops s (int st) mn mx fl of None \<Rightarrow> (0, 0, s) | Some (err, a, k, s') \<Rightarrow> (nat a, nat k, s'))"

definition free_extent :: "nat \<Rightarrow> nat \<Rightarrow> hfsmount \<Rightarrow> hfsmount" where
  "free_extent a n s = (case BlockAllocator.BlockDeallocate s (int a) (int n) 0 of None \<Rightarrow> s | Some (err, s') \<Rightarrow> s')"

definition store_ok :: "hfsmount \<Rightarrow> bool" where
  "store_ok s \<longleftrightarrow> vol_inv s \<and> jnl s = None"

definition store_space :: "hfsmount \<Rightarrow> nat set" where
  "store_space s = {x. 0 < x \<and> int x < totalBlocks s}"

lemma plain_0 [simp]: "plain_flags 0"
  by (simp add: plain_flags_def)

lemma alloc_blocks_ok:
  assumes "store_ok s" "request_legal r" "alloc_blocks ops r s = (b, k, s')"
  shows "store_ok s'" "store_space s' = store_space s" "used_blocks s' = used_blocks s \<union> {b..<b + k}" "{b..<b + k} \<inter> used_blocks s = {}"
    "{b..<b + k} \<subseteq> store_space s" "freeBlocks s' = freeBlocks s - int k"
proof -
  obtain st mn mx fl where r: "r = (st, mn, mx, fl)" by (cases r) auto
  have l: "plain_flags fl" "0 < mx" "0 \<le> mn" and j: "vol_inv s" "jnl s = None" "trims_ahead s" using assms(1,2) r by (simp_all add: store_ok_def)
  obtain err ext t where a: "BlockAllocator.BlockAllocate ops s (int st) mn mx fl = Some (err, startBlock ext, blockCount ext, t)" "vol_inv t" "vol_frame s t"
    "jnl t = None" "choice_ok s (hfs_freeblks ops s False) mx (ISSET fl HFS_ALLOC_METAZONE) err ext"
    "err = 0 \<longrightarrow> used_blocks t = used_blocks s \<union> {nat (startBlock ext)..<nat (startBlock ext + blockCount ext)} \<and> freeBlocks t = freeBlocks s - blockCount ext"
    "err \<noteq> 0 \<longrightarrow> ext = extent 0 0 \<and> used_blocks t = used_blocks s \<and> freeBlocks t = freeBlocks s"
    using BlockAllocate_ok [OF j(1,3) l, of ops st] j(2) by blast
  have e: "s' = t" "b = nat (startBlock ext)" "k = nat (blockCount ext)" using assms(3) a(1) r by simp_all
  show "store_ok s'" using a(2,4) e by (simp add: store_ok_def)
  show "store_space s' = store_space s" using vol_frameD(3) [OF a(3)] e by (simp add: store_space_def)
  have zero: "0 \<in> used_blocks s" "allocLimit s \<le> totalBlocks s" using j(1) by (simp_all add: vol_inv_def)
  consider "err = 0" | "err \<noteq> 0" by blast
  then have "used_blocks s' = used_blocks s \<union> {b..<b + k} \<and> {b..<b + k} \<inter> used_blocks s = {} \<and> {b..<b + k} \<subseteq> store_space s \<and> freeBlocks s' = freeBlocks s - int k"
  proof cases
    case 1
    then obtain b' k' where x: "ext = extent (int b') (int k')" "int (b' + k') \<le> allocLimit s" "{b'..<b' + k'} \<inter> blocks_seen s 0 = {}"
      using a(5) by (auto simp: choice_ok_def)
    have bk: "b = b'" "k = k'" using e x(1) by simp_all
    have dis: "{b..<b + k} \<inter> used_blocks s = {}" using x(3) bk by (auto simp: blocks_seen_def used_blocks_def)
    have "{b..<b + k} \<subseteq> store_space s"
    proof
      fix y assume y: "y \<in> {b..<b + k}"
      then have "y \<noteq> 0" using dis zero(1) by (cases y) auto
      moreover have "int y < totalBlocks s" using y x(2) bk zero(2) by auto
      ultimately show "y \<in> store_space s" by (simp add: store_space_def)
    qed
    moreover have "nat (startBlock ext + blockCount ext) = b + k" using x(1) bk by (simp add: nat_add_distrib)
    ultimately show ?thesis using a(6) 1 dis e(1) e(2) x(1) bk by simp
  next
    case 2
    then show ?thesis using a(7) e by simp
  qed
  then show "used_blocks s' = used_blocks s \<union> {b..<b + k}" "{b..<b + k} \<inter> used_blocks s = {}" "{b..<b + k} \<subseteq> store_space s" "freeBlocks s' = freeBlocks s - int k"
    by simp_all
qed

lemma free_extent_ok:
  assumes "store_ok s" "0 < n" "{a..<a + n} \<subseteq> used_blocks s \<inter> store_space s"
  shows "store_ok (free_extent a n s)" "store_space (free_extent a n s) = store_space s" "used_blocks (free_extent a n s) = used_blocks s - {a..<a + n}"
    "freeBlocks (free_extent a n s) = freeBlocks s + int n"
proof -
  have mem: "a \<in> store_space s" "a + n - 1 \<in> store_space s" using assms(2,3) by auto
  then have R: "0 < a" "int (a + n) \<le> totalBlocks s" "{a..<a + n} \<subseteq> used_blocks s" using assms(2,3) by (auto simp: store_space_def)
  have i: "vol_inv s" "jnl s = None" using assms(1) by (simp_all add: store_ok_def)
  obtain t where t: "BlockAllocator.BlockDeallocate s (int a) (int n) 0 = Some (0, t)" "vol_inv t" "vol_frame s t" "jnl t = None"
    "used_blocks t = used_blocks s - {a..<a + n}" "freeBlocks t = freeBlocks s + int n"
    using BlockDeallocate_ok [OF i(1) plain_0 R(1) assms(2) R(3,2)] i(2) by blast
  have e: "free_extent a n s = t" using t(1) by (simp add: free_extent_def)
  show "store_ok (free_extent a n s)" "store_space (free_extent a n s) = store_space s" "used_blocks (free_extent a n s) = used_blocks s - {a..<a + n}"
    "freeBlocks (free_extent a n s) = freeBlocks s + int n"
    unfolding e using t vol_frameD(3) [OF t(3)] by (simp_all add: store_ok_def store_space_def)
qed

interpretation vol: block_store used_blocks store_space freeBlocks store_ok request_legal "alloc_blocks ops" free_extent
  by unfold_locales (simp_all add: alloc_blocks_ok free_extent_ok)

section \<open>Releasing the extents of a fork\<close>

text \<open>The operations of a volume with this allocator.  Its panics, which do not happen below, show as an error.\<close>

definition alloc_ops :: "hfsmount volume_ops \<Rightarrow> hfsmount volume_ops" where
  "alloc_ops base = base\<lparr>
     BlockAllocate := (\<lambda>v st mn mx fl. case BlockAllocator.BlockAllocate base v st mn mx fl of None \<Rightarrow> (EINVAL, 0, 0, v) | Some r \<Rightarrow> r),
     BlockDeallocate := (\<lambda>v a n fl. case BlockAllocator.BlockDeallocate v a n fl of None \<Rightarrow> (EINVAL, v) | Some r \<Rightarrow> r)\<rparr>"

definition ext_nats :: "HFSPlusExtentDescriptor \<Rightarrow> nat set" where
  "ext_nats e = {nat (startBlock e)..<nat (startBlock e) + nat (blockCount e)}"

definition record_extents :: "HFSPlusExtentRecord \<Rightarrow> HFSPlusExtentRecord" where
  "record_extents es = takeWhile (\<lambda>e. blockCount e \<noteq> 0) es"

definition record_blocks :: "HFSPlusExtentRecord \<Rightarrow> nat set" where
  "record_blocks es = (\<Union>e\<in>set (record_extents es). ext_nats e)"

definition record_ok :: "hfsmount \<Rightarrow> HFSPlusExtentRecord \<Rightarrow> bool" where
  "record_ok s es \<longleftrightarrow> sorted_wrt (\<lambda>e f. ext_nats e \<inter> ext_nats f = {}) (record_extents es) \<and> record_blocks es \<subseteq> used_blocks s \<and>
     (\<forall>e\<in>set (record_extents es). 0 < startBlock e \<and> 0 < blockCount e \<and> startBlock e + blockCount e \<le> totalBlocks s)"

lemma record_simps:
  "record_extents [] = []" "record_extents (e # es) = (if blockCount e = 0 then [] else e # record_extents es)"
  "record_blocks [] = {}" "record_blocks (e # es) = (if blockCount e = 0 then {} else ext_nats e \<union> record_blocks es)"
  by (auto simp: record_extents_def record_blocks_def)

lemma finite_record [simp]: "finite (record_blocks es)"
  by (simp add: record_blocks_def ext_nats_def)

lemma release_loop_ok:
  assumes "vol_inv s" "record_ok s es" "0 \<le> rel" "rel + int (card (record_blocks es)) < 2 ^ 32"
  shows "\<exists>rest s'. ReleaseExtents_loop (alloc_ops base) s es rel = (0, rel + int (card (record_blocks es)), rest, s') \<and> vol_inv s' \<and>
    used_blocks s' = used_blocks s - record_blocks es \<and> freeBlocks s' = freeBlocks s + int (card (record_blocks es))"
  using assms
proof (induction es arbitrary: s rel)
  case (Cons e es)
  show ?case
  proof (cases "blockCount e = 0")
    case True
    then show ?thesis using Cons.prems(1) by (intro exI [of _ True] exI [of _ s]) (simp add: record_simps)
  next
    case False
    then have ok: "0 < startBlock e" "0 < blockCount e" "startBlock e + blockCount e \<le> totalBlocks s" "ext_nats e \<subseteq> used_blocks s"
      "ext_nats e \<inter> record_blocks es = {}"
      using Cons.prems(2) by (auto simp: record_ok_def record_simps record_blocks_def)
    define a n where "a = nat (startBlock e)" and "n = nat (blockCount e)"
    have an: "startBlock e = int a" "blockCount e = int n" "0 < a" "0 < n" "int (a + n) \<le> totalBlocks s" "ext_nats e = {a..<a + n}"
      using ok by (simp_all add: a_def n_def ext_nats_def)
    obtain s1 where s1: "BlockAllocator.BlockDeallocate s (int a) (int n) 0 = Some (0, s1)" "vol_inv s1" "vol_frame s s1"
      "used_blocks s1 = used_blocks s - {a..<a + n}" "freeBlocks s1 = freeBlocks s + int n"
      using BlockDeallocate_ok [OF Cons.prems(1) plain_0 an(3,4) _ an(5)] ok(4) an(6) by blast
    have card: "card (record_blocks (e # es)) = n + card (record_blocks es)"
      using card_Un_disjoint [of "ext_nats e" "record_blocks es"] ok(5) False an(6) by (simp add: record_simps)
    have "record_ok s1 es"
    proof -
      have "record_blocks es \<subseteq> used_blocks s1" using Cons.prems(2) False ok(5) unfolding s1(4) an(6) [symmetric] by (auto simp: record_ok_def record_simps)
      then show ?thesis using Cons.prems(2) False vol_frameD(3) [OF s1(3)] by (simp add: record_ok_def record_simps)
    qed
    moreover have u: "u32 (rel + int n) = rel + int n" "rel + int n + int (card (record_blocks es)) < 2 ^ 32" "0 \<le> rel + int n"
      using Cons.prems(3,4) card by simp_all
    ultimately obtain rest s' where r: "ReleaseExtents_loop (alloc_ops base) s1 es (rel + int n) = (0, rel + int n + int (card (record_blocks es)), rest, s')" "vol_inv s'"
      "used_blocks s' = used_blocks s1 - record_blocks es" "freeBlocks s' = freeBlocks s1 + int (card (record_blocks es))"
      using Cons.IH [OF s1(2), of "rel + int n"] by blast
    have "ReleaseExtents_loop (alloc_ops base) s (e # es) rel = (0, rel + int (card (record_blocks (e # es))), rest, s')"
      using s1(1) r(1) an u(1) card by (simp add: alloc_ops_def)
    moreover have "used_blocks s' = used_blocks s - record_blocks (e # es)" unfolding r(3) s1(4) using False an(6) by (auto simp: record_simps)
    ultimately show ?thesis using r(2,4) s1(5) card by (intro exI [of _ rest] exI [of _ s']) simp
  qed
qed (auto simp: record_simps)

lemma used_below: "finite (used_blocks s)" "card (used_blocks s) \<le> bitmap_blocks s"
proof -
  have sub: "used_blocks s \<subseteq> {..<bitmap_blocks s}" by (auto simp: used_blocks_def)
  then show "finite (used_blocks s)" using finite_subset by blast
  show "card (used_blocks s) \<le> bitmap_blocks s" using card_mono [OF _ sub] by simp
qed

section \<open>An example volume\<close>

text \<open>120 blocks, 33 of them free: 30 to 49 and 60 to 72; no journal, no summary table, no metadata zone.\<close>

definition ex_volume :: hfsmount where
  "ex_volume = ex_mount\<lparr>freeBlocks := 33\<rparr>"

definition ex_volume_ops :: "hfsmount volume_ops" where
  "ex_volume_ops = \<lparr>BTSearchRecord = \<lambda>v it. (0, it, [], 0), BTIterateRecord = \<lambda>v operation it. (0, it, [], 0), BTInsertRecord = \<lambda>v it r n. (0, it, v),
     BTReplaceRecord = \<lambda>v it r n. (0, v), BTDeleteRecord = \<lambda>v it. (0, v), BTFlushPath = \<lambda>v. (0, v), extents_file_flag = \<lambda>v. 0,
     BlockAllocate = \<lambda>v s a b f. (0, s, a, v), BlockDeallocate = \<lambda>v s n f. (0, v), hfs_get_backing_free_blks = \<lambda>v. None,
     hfs_pin_block_range = \<lambda>v s n. (0, v), hfs_hotfile_adjust_blocks = \<lambda>v n. v\<rparr>"

lemma ex_volume_fields:
  "totalBlocks ex_volume = 120" "allocLimit ex_volume = 120" "freeBlocks ex_volume = 33" "jnl ex_volume = None" "bitmap_blocks ex_volume = 128"
  "used_blocks ex_volume = {0..<30} \<union> {50..<60} \<union> {73..<128}" "tentative_ranges ex_volume = []" "locked_ranges ex_volume = []"
  "cached_blocks ex_volume = {30..<50} \<union> {60..<70}" "vcbSigWord ex_volume = 0x482B" "\<not> summary_enabled ex_volume" "\<not> has_zone ex_volume"
  "hfs_freeblks ex_volume_ops ex_volume False = 33"
proof -
  show "bitmap_blocks ex_volume = 128" using ex_bitmap_ok(4) by (simp add: ex_volume_def bitmap_blocks_def)
  show "used_blocks ex_volume = {0..<30} \<union> {50..<60} \<union> {73..<128}"
    using ex_mount_used by (simp add: ex_volume_def used_blocks_def bitmap_blocks_def)
  show "cached_blocks ex_volume = {30..<50} \<union> {60..<70}" using ex_mount_cache(2) by (simp add: ex_volume_def cached_blocks_def)
qed (simp_all add: ex_volume_def ex_mount_def summary_enabled_def has_zone_def ISSET_def hfs_freeblks_def ex_volume_ops_def)

lemma ex_volume_seen: "blocks_seen ex_volume 0 = used_blocks ex_volume"
  unfolding blocks_seen_def reserved_plain [OF ex_volume_fields(7)] ex_volume_fields(8) by (auto simp: used_blocks_def)

lemma ex_volume_inv: "vol_inv ex_volume"
proof -
  have b: "bitmap_ok ex_volume" using bitmap_ok_cong [OF ex_bitmap_ok(1), of ex_volume] by (simp add: ex_volume_def)
  have c: "free_ext_inv ex_volume" using ex_mount_cache(1) by (simp add: ex_volume_def free_ext_inv_def sparse_device_def)
  have "free_blocks ex_volume = {30..<50} \<union> {60..<73}" unfolding free_blocks_def ex_volume_fields by auto
  moreover have "card ({30..<50} \<union> {60..<73} :: nat set) = 33" by (subst card_Un_disjoint) auto
  ultimately have f: "freeBlocks ex_volume = int (card (free_blocks ex_volume))" by (simp add: ex_volume_fields)
  have n: "tentativeBlocks ex_volume = 0" "0 \<le> nextAllocation ex_volume" "0 \<le> sparseAllocation ex_volume" by (simp_all add: ex_volume_def ex_mount_def)
  show ?thesis
    unfolding vol_inv_def ex_volume_seen ex_volume_fields
    using b c f n by (auto simp: reserve_ok_def table_ok_def zone_ok_def summary_sound_def ex_volume_fields)
qed

section \<open>Properties of the allocator\<close>

text \<open>C2: On a consistent volume an allocation returns: with blocks, at most as many as asked for and below the allocation limit, that were
  neither used nor reserved, or with an error and none.  The used blocks grow by exactly these, the free block count falls by
  their number, and bitmap, count, free extent cache and summary table stay consistent.
\<close>

theorem BlockAllocate_correct:
  assumes "vol_inv s" "trims_ahead s" "plain_flags fl" "0 < maxBlocks" "0 \<le> minBlocks"
  shows "\<exists>err a k s'. BlockAllocator.BlockAllocate ops s (int st) minBlocks maxBlocks fl = Some (err, int a, int k, s') \<and>
    (err = 0 \<longleftrightarrow> 0 < k) \<and> int k \<le> maxBlocks \<and> {a..<a + k} \<inter> blocks_seen s 0 = {} \<and> {a..<a + k} \<subseteq> {x. int x < allocLimit s} \<and>
    used_blocks s' = used_blocks s \<union> {a..<a + k} \<and> freeBlocks s' = freeBlocks s - int k \<and> vol_inv s'"
proof -
  obtain err ext s' where a: "BlockAllocator.BlockAllocate ops s (int st) minBlocks maxBlocks fl = Some (err, startBlock ext, blockCount ext, s')" "vol_inv s'"
    "choice_ok s (hfs_freeblks ops s False) maxBlocks (ISSET fl HFS_ALLOC_METAZONE) err ext"
    "err = 0 \<longrightarrow> used_blocks s' = used_blocks s \<union> {nat (startBlock ext)..<nat (startBlock ext + blockCount ext)} \<and> freeBlocks s' = freeBlocks s - blockCount ext"
    "err \<noteq> 0 \<longrightarrow> ext = extent 0 0 \<and> used_blocks s' = used_blocks s \<and> freeBlocks s' = freeBlocks s"
    using BlockAllocate_ok [OF assms, of ops st] by blast
  show ?thesis
  proof (cases "err = 0")
    case False
    then show ?thesis using a assms(4) by (intro exI [of _ err] exI [of _ 0] exI [of _ 0] exI [of _ s']) simp
  next
    case True
    then obtain b k where x: "ext = extent (int b) (int k)" "0 < k" "int k \<le> maxBlocks" "int (b + k) \<le> allocLimit s" "{b..<b + k} \<inter> blocks_seen s 0 = {}"
      using a(3) by (auto simp: choice_ok_def)
    moreover have "nat (int b + int k) = b + k" by simp
    moreover have "{b..<b + k} \<subseteq> {x. int x < allocLimit s}" using x(4) by auto
    ultimately show ?thesis using a True by (intro exI [of _ 0] exI [of _ b] exI [of _ k] exI [of _ s']) simp
  qed
qed

theorem BlockAllocate_correct_witness:
  "\<exists>err a k s'. BlockAllocator.BlockAllocate ex_volume_ops ex_volume 0 5 12 0 = Some (err, int a, int k, s') \<and> int k \<le> 12 \<and>
    used_blocks s' = used_blocks ex_volume \<union> {a..<a + k} \<and> freeBlocks s' = 33 - int k \<and> vol_inv s'"
  using BlockAllocate_correct [OF ex_volume_inv no_journal [OF ex_volume_fields(4)] plain_0, of 12 5 ex_volume_ops 0]
  unfolding ex_volume_fields(3) by force



text \<open>C18: On a consistent volume, releasing used blocks succeeds: they are free afterwards and counted as such, no other block changes, and
  the volume stays consistent.  Without a journal the freed blocks are offered by the free extent cache at once.
\<close>

theorem BlockDeallocate_correct:
  assumes "vol_inv s" "plain_flags fl" "0 < a" "0 < n" "{a..<a + n} \<subseteq> used_blocks s" "int (a + n) \<le> totalBlocks s"
  shows "\<exists>s'. BlockAllocator.BlockDeallocate s (int a) (int n) fl = Some (0, s') \<and> vol_inv s' \<and> used_blocks s' = used_blocks s - {a..<a + n} \<and>
    freeBlocks s' = freeBlocks s + int n \<and> cached_blocks s' \<subseteq> cached_blocks s \<union> {int a..<int a + int n}"
  using BlockDeallocate_ok [OF assms] by blast

theorem BlockDeallocate_correct_witness:
  "\<exists>s'. BlockAllocator.BlockDeallocate ex_volume 50 10 0 = Some (0, s') \<and> vol_inv s' \<and> used_blocks s' = {0..<30} \<union> {73..<128} \<and> freeBlocks s' = 43"
proof -
  have "({0..<30} \<union> {50..<60} \<union> {73..<128}) - {50..<50 + 10} = {0..<30} \<union> ({73..<128} :: nat set)" by auto
  then show ?thesis using BlockDeallocate_correct [OF ex_volume_inv plain_0, of 50 10] unfolding ex_volume_fields by fastforce
qed

text \<open>C34: Releasing what an allocation returned brings the allocation file and the free block count back to what they were.
\<close>

theorem BlockAllocate_BlockDeallocate:
  assumes "vol_inv s" "trims_ahead s" "plain_flags fl" "0 < maxBlocks" "0 \<le> minBlocks"
    and "BlockAllocator.BlockAllocate ops s (int st) minBlocks maxBlocks fl = Some (0, a, k, s')"
  shows "\<exists>s''. BlockAllocator.BlockDeallocate s' a k 0 = Some (0, s'') \<and> allocation_file s'' = allocation_file s \<and> freeBlocks s'' = freeBlocks s \<and> vol_inv s''"
proof -
  obtain err ext t where r: "BlockAllocator.BlockAllocate ops s (int st) minBlocks maxBlocks fl = Some (err, startBlock ext, blockCount ext, t)" "vol_inv t" "vol_frame s t"
    "choice_ok s (hfs_freeblks ops s False) maxBlocks (ISSET fl HFS_ALLOC_METAZONE) err ext"
    "err = 0 \<longrightarrow> used_blocks t = used_blocks s \<union> {nat (startBlock ext)..<nat (startBlock ext + blockCount ext)} \<and> freeBlocks t = freeBlocks s - blockCount ext"
    using BlockAllocate_ok [OF assms(1-5), of ops st] by blast
  have e: "err = 0" "a = startBlock ext" "k = blockCount ext" "s' = t" using assms(6) r(1) by simp_all
  obtain b n where x: "ext = extent (int b) (int n)" "0 < n" "int (b + n) \<le> allocLimit s" "{b..<b + n} \<inter> blocks_seen s 0 = {}"
    using r(4) e(1) by (auto simp: choice_ok_def)
  have v: "0 \<in> used_blocks s" "allocLimit s \<le> totalBlocks s" using assms(1) by (simp_all add: vol_inv_def)
  have t: "totalBlocks t = totalBlocks s" "bitmap_blocks t = bitmap_blocks s" using vol_frameD [OF r(3)] by simp_all
  have dis: "{b..<b + n} \<inter> used_blocks s = {}" using x(4) by (auto simp: blocks_seen_def used_blocks_def)
  have "nat (int b + int n) = b + n" by simp
  then have u: "used_blocks t = used_blocks s \<union> {b..<b + n}" "freeBlocks t = freeBlocks s - int n" using r(5) e(1) x(1) by simp_all
  have "0 < b" using dis v(1) x(2) by (cases b) auto
  then obtain s'' where d: "BlockAllocator.BlockDeallocate t (int b) (int n) 0 = Some (0, s'')" "vol_inv s''" "vol_frame t s''"
    "used_blocks s'' = used_blocks t - {b..<b + n}" "freeBlocks s'' = freeBlocks t + int n"
    using BlockDeallocate_ok [OF r(2) plain_0 _ x(2), of b] u(1) x(3) v(2) t(1) by auto
  have "allocation_file s'' = allocation_file s"
  proof (rule used_blocks_file)
    show "used_blocks s'' = used_blocks s" unfolding d(4) u(1) using dis by blast
    show "bitmap_blocks s'' = bitmap_blocks s" using vol_frameD(14) [OF d(3)] t(2) by simp
  qed
  then show ?thesis using d u(2) e x(1) by simp
qed

theorem BlockAllocate_BlockDeallocate_witness:
  "\<exists>a k s' s''. BlockAllocator.BlockAllocate ex_volume_ops ex_volume 40 5 12 8 = Some (0, a, k, s') \<and> BlockAllocator.BlockDeallocate s' a k 0 = Some (0, s'') \<and>
    allocation_file s'' = allocation_file ex_volume"
proof -
  have f: "plain_flags 8" by (simp add: plain_flags_def)
  have "72 \<notin> blocks_seen ex_volume 0" unfolding ex_volume_seen ex_volume_fields(6) by simp
  then obtain err ext s' where a: "BlockAllocator.BlockAllocate ex_volume_ops ex_volume (int 40) 5 12 8 = Some (err, startBlock ext, blockCount ext, s')"
    "choice_ok ex_volume 33 12 (ISSET 8 HFS_ALLOC_METAZONE) err ext" "\<not> no_block_left ex_volume (ISSET 8 HFS_ALLOC_METAZONE)"
    using BlockAllocate_ok [OF ex_volume_inv no_journal [OF ex_volume_fields(4)] f, of 12 5 ex_volume_ops 40] ex_volume_fields(2,12,13)
    by (fastforce simp: no_block_left_def)
  then have "err = 0" using ex_volume_fields(4) by (auto simp: choice_ok_def)
  with a(1) BlockAllocate_BlockDeallocate [OF ex_volume_inv no_journal [OF ex_volume_fields(4)] f, of 12 5 ex_volume_ops 40] show ?thesis by fastforce
qed



text \<open>C35: \<open>ReleaseExtents\<close> of the extent code, over this allocator, frees exactly the blocks of the extents of its record up to the first empty
  one, reports their number, and leaves the volume consistent.
\<close>

theorem ReleaseExtents_frees:
  assumes "vol_inv s" "vcbSigWord s = kHFSPlusSigWord" "record_ok s (take kHFSPlusExtentDensity es)"
  defines "B \<equiv> record_blocks (take kHFSPlusExtentDensity es)"
  shows "\<exists>rest s'. ReleaseExtents (alloc_ops base) s es = (noErr, int (card B), rest, s') \<and> vol_inv s' \<and> used_blocks s' = used_blocks s - B \<and>
    freeBlocks s' = freeBlocks s + int (card B)"
proof -
  have "B \<subseteq> used_blocks s" using assms(3) by (simp add: record_ok_def B_def)
  then have "card B \<le> bitmap_blocks s" using card_mono [OF used_below(1)] used_below(2) le_trans by blast
  then have "0 + int (card B) < 2 ^ 32" using assms(1) by (simp add: vol_inv_def)
  from release_loop_ok [OF assms(1,3) order_refl this [unfolded B_def], of base] assms(2) show ?thesis
    by (simp add: ReleaseExtents_def B_def)
qed

theorem ReleaseExtents_frees_witness:
  "\<exists>rest s'. ReleaseExtents (alloc_ops ex_volume_ops) ex_volume [extent 10 5, extent 50 10, extent 0 0] = (noErr, 15, rest, s') \<and>
    freeBlocks s' = 48 \<and> vol_inv s'"
proof -
  let ?es = "[extent 10 5, extent 50 10, extent 0 0]"
  have B: "record_blocks (take kHFSPlusExtentDensity ?es) = {10..<15} \<union> {50..<60}" by (simp add: record_simps ext_nats_def)
  have "card ({10..<15} \<union> {50..<60} :: nat set) = 15" by (subst card_Un_disjoint) auto
  moreover have "record_ok ex_volume (take kHFSPlusExtentDensity ?es)"
    unfolding record_ok_def B ex_volume_fields by (auto simp: record_simps ext_nats_def)
  ultimately show ?thesis using ReleaseExtents_frees [OF ex_volume_inv ex_volume_fields(10), of ?es ex_volume_ops] unfolding B ex_volume_fields(3) by auto
qed

section \<open>Fields keep their width\<close>

text \<open>The 32-bit fields that the allocator keeps in the mount.\<close>

definition is_u32 :: "int \<Rightarrow> bool" where
  "is_u32 v \<longleftrightarrow> 0 \<le> v \<and> v < 2 ^ 32"

definition mount_words :: "hfsmount \<Rightarrow> bool" where
  "mount_words s \<longleftrightarrow> (\<forall>v\<in>{freeBlocks s, hfs_freed_block_count s, nextAllocation s, sparseAllocation s, tentativeBlocks s, lockedBlocks s}. is_u32 v) \<and>
     (\<forall>e\<in>set (vcbFreeExt s). is_u32 (startBlock e) \<and> is_u32 (blockCount e))"

lemma is_u32_u32 [simp]: "is_u32 (u32 v)"
  by (simp add: is_u32_def)

lemma release_same: "same_but_bitmap s (ReleaseBitmapBlock s b buf d)"
  unfolding ReleaseBitmapBlock_def by (auto simp: same_but_bitmap_def) (metis same_but_bitmap_def same_but_bitmap_refl)

lemma next_cursor_same:
  "next_cursor s fl d c = Some (Inl (e, s')) \<Longrightarrow> same_but_bitmap s s'" "next_cursor s fl d c = Some (Inr (s', c')) \<Longrightarrow> same_but_bitmap s s'"
  using release_same [of s "bc_block c" "bc_buffer c" d]
  by (auto simp: next_cursor_def Let_def split: if_splits option.splits sum.splits prod.splits)

definition walk_same :: "hfsmount \<Rightarrow> 'a walk \<Rightarrow> bool" where
  "walk_same s w \<longleftrightarrow> (case w of Walk_error e s' a \<Rightarrow> same_but_bitmap s s' | Walk_done s' c a \<Rightarrow> same_but_bitmap s s')"

lemma walk_same_trans: "same_but_bitmap s t \<Longrightarrow> walk_same t w \<Longrightarrow> walk_same s w"
  by (cases w) (auto simp: walk_same_def intro: same_but_bitmap_trans)

lemma walk_words_same:
  "walk_words fl d oper s c n acc = Some r \<Longrightarrow>
     (case r of Inl w \<Rightarrow> walk_same s w | Inr (s', c', n', a') \<Rightarrow> same_but_bitmap s s')"
proof (induction fl d oper s c n acc arbitrary: r rule: walk_words.induct)
  case (1 fl d oper s c n acc)
  show ?case
  proof (cases "n < 32")
    case True
    then show ?thesis using 1(2) by (subst (asm) walk_words.simps) (auto simp: same_but_bitmap_refl)
  next
    case False
    obtain nc where nc: "next_cursor s fl d c = Some nc" using 1(2) False by (subst (asm) walk_words.simps) (auto split: option.splits)
    show ?thesis
    proof (cases nc)
      case (Inl es)
      then show ?thesis using 1(2) False nc next_cursor_same(1) [of s fl d c "fst es" "snd es"]
        by (subst (asm) walk_words.simps) (auto simp: walk_same_def split: prod.splits)
    next
      case (Inr sc)
      obtain s1 c1 where sc: "sc = (s1, c1)" by (cases sc)
      have s1: "same_but_bitmap s s1" using nc Inr sc next_cursor_same(2) by simp
      obtain c2 acc2 stop where w: "walk_word oper kAllBitsSetInWord c1 acc = Some (c2, acc2, stop)"
        using 1(2) False nc Inr sc by (subst (asm) walk_words.simps) (auto split: option.splits)
      show ?thesis
      proof (cases stop)
        case True
        then show ?thesis using 1(2) False nc Inr sc w s1 by (subst (asm) walk_words.simps) (auto simp: walk_same_def)
      next
        case ns: False
        then have "walk_words fl d oper s1 c2 (n - 32) acc2 = Some r" using 1(2) False nc Inr sc w by (subst (asm) walk_words.simps) simp
        from 1(1) [OF False nc Inr sc [symmetric] w refl refl ns this] show ?thesis
          using walk_same_trans [OF s1] same_but_bitmap_trans [OF s1] by (cases r) (auto split: prod.splits)
      qed
    qed
  qed
qed

lemma walk_blocks_same:
  assumes "walk_blocks fl d oper s c n acc = Some w" shows "walk_same s w"
proof -
  have rest: "walk_same s w'" if "walk_rest fl d oper s' c' n' acc' = Some w'" "same_but_bitmap s s'" for s' c' n' acc' w'
    using that next_cursor_same [of s' fl d c'] same_but_bitmap_trans [OF that(2)]
    by (auto simp: walk_rest_def walk_same_def split: if_splits option.splits sum.splits prod.splits)
  have "walk_same s w" if "walk_words fl d oper s c' n' acc' = Some r" "(case r of Inl done \<Rightarrow> Some done | Inr (vcb, c, numBlocks, acc) \<Rightarrow> walk_rest fl d oper vcb c numBlocks acc) = Some w"
    for c' n' acc' r
    using walk_words_same [OF that(1)] that(2) rest by (auto split: sum.splits prod.splits)
  then show ?thesis using assms unfolding walk_blocks_def
    by (auto simp: Let_def walk_same_def split: if_splits prod.splits bind_splits)
qed

lemma BlockMarkFree_marks:
  assumes "BlockMarkFreeInternal s a n val = Some (err, s')"
  shows "\<exists>J A D. s' = s\<lparr>jnl := J, allocation_file := A, bitmap_dirtied := D\<rparr>"
proof -
  have id: "\<exists>J A D. s = s\<lparr>jnl := J, allocation_file := A, bitmap_dirtied := D\<rparr>"
    by (intro exI [of _ "jnl s"] exI [of _ "allocation_file s"] exI [of _ "bitmap_dirtied s"]) simp
  have same: "\<exists>J A D. t = s\<lparr>jnl := J, allocation_file := A, bitmap_dirtied := D\<rparr>" if sb: "same_but_bitmap s t" for t
  proof -
    obtain A D where "t = s\<lparr>allocation_file := A, bitmap_dirtied := D\<rparr>" using sb by (auto simp: same_but_bitmap_def)
    then show ?thesis by (intro exI [of _ "jnl s"] exI [of _ A] exI [of _ D]) simp
  qed
  have unmap: "\<exists>J. t = u\<lparr>jnl := J\<rparr>" if "hfs_unmap_free_extent u b m = Some t" for u t b m
  proof -
    have "\<exists>J. u = u\<lparr>jnl := J\<rparr>" by (rule exI [of _ "jnl u"]) simp
    then show ?thesis using that by (auto simp: hfs_unmap_free_extent_def Let_def split: option.splits if_splits bind_splits prod.splits)
  qed
  have fin: "\<exists>J A D. t = s\<lparr>jnl := J, allocation_file := A, bitmap_dirtied := D\<rparr>"
    if sb: "same_but_bitmap s v" "hfs_unmap_free_extent (ReleaseBitmapBlock v b buf True) x m = Some t" for v b buf x m t
  proof -
    obtain A D where "ReleaseBitmapBlock v b buf True = s\<lparr>allocation_file := A, bitmap_dirtied := D\<rparr>"
      using same_but_bitmap_trans [OF sb(1) release_same [of v b buf True]] unfolding same_but_bitmap_def by (elim exE)
    moreover obtain J where "t = (ReleaseBitmapBlock v b buf True)\<lparr>jnl := J\<rparr>" using unmap [OF sb(2)] by blast
    ultimately show ?thesis by (intro exI [of _ J] exI [of _ A] exI [of _ D]) simp
  qed
  obtain r where r: "ReadBitmapBlock s a HFS_ALLOC_IGNORE_RESERVED = Some r"
    using assms by (auto simp: BlockMarkFreeInternal_def split: if_splits bind_splits)
  show ?thesis
  proof (cases r)
    case (Inl e)
    then show ?thesis using assms r id by (auto simp: BlockMarkFreeInternal_def split: if_splits)
  next
    case (Inr p)
    obtain block buffer where p: "p = (block, buffer)" by (cases p)
    obtain w where w: "walk_blocks HFS_ALLOC_IGNORE_RESERVED True (mark_free_op val) s (first_cursor s a block buffer) n () = Some w"
      using assms r Inr p by (auto simp: BlockMarkFreeInternal_def Let_def split: if_splits bind_splits prod.splits)
    have ws: "walk_same s w" by (rule walk_blocks_same [OF w])
    show ?thesis
    proof (cases w)
      case (Walk_error e v u)
      then show ?thesis using assms r Inr p w ws same [of v]
        by (auto simp: BlockMarkFreeInternal_def Let_def walk_same_def split: if_splits bind_splits prod.splits)
    next
      case (Walk_done v c u)
      have v: "same_but_bitmap s v" using ws Walk_done by (simp add: walk_same_def)
      obtain x m where "hfs_unmap_free_extent (ReleaseBitmapBlock v (bc_block c) (bc_buffer c) True) x m = Some s'"
        using assms r Inr p w Walk_done
        by (auto simp: BlockMarkFreeInternal_def Let_def split: if_splits bind_splits prod.splits)
      from fin [OF v this] show ?thesis .
    qed
  qed
qed

lemma table_keeps_words: "mount_words (s\<lparr>hfs_summary_table := T\<rparr>) = mount_words s"
  "mount_words (s\<lparr>jnl := J, allocation_file := A, bitmap_dirtied := D\<rparr>) = mount_words s"
  by (simp_all add: mount_words_def)

lemma set_summary_words: "hfs_set_summary s k v = Some (e, s') \<Longrightarrow> mount_words s' = mount_words s"
  by (auto simp: hfs_set_summary_def Let_def table_keeps_words split: if_splits bind_splits)

lemma release_bits_words: "release_bits s k n err = Some (e, s') \<Longrightarrow> mount_words s' = mount_words s"
  by (induction n arbitrary: s k err) (auto dest: set_summary_words split: option.splits)

lemma release_summary_words: "hfs_release_summary s a n = Some (e, s') \<Longrightarrow> mount_words s' = mount_words s"
  by (auto simp: hfs_release_summary_def Let_def dest: release_bits_words split: if_splits sum.splits)

lemma add_loop_words:
  "add_free_extent_loop a z i es = (a', z', es') \<Longrightarrow> set es' \<subseteq> set es \<and> a' \<in> insert a (startBlock ` set es)"
proof (induction a z i es arbitrary: a' z' es' rule: add_free_extent_loop.induct)
  case (1 a z i es)
  have sub: "set (remove_free_extent_list es i) \<subseteq> set es"
    by (auto simp: remove_free_extent_list_def dest: in_set_takeD in_set_dropD)
  show ?case
  proof (cases "i \<ge> length es")
    case True
    then show ?thesis using 1(3) by (subst (asm) add_free_extent_loop.simps) simp
  next
    case False
    then have mem: "es ! i \<in> set es" by simp
    show ?thesis
    proof (cases "startBlock (es ! i) > z \<or> ext_end (es ! i) < a")
      case True
      then show ?thesis using 1(1) [OF False refl refl True] 1(3) False by (subst (asm) add_free_extent_loop.simps) (simp add: Let_def)
    next
      case f: False
      have "add_free_extent_loop (if startBlock (es ! i) < a then startBlock (es ! i) else a) (if ext_end (es ! i) > z then ext_end (es ! i) else z) i
          (remove_free_extent_list es i) = (a', z', es')"
        using 1(3) False f by (subst (asm) add_free_extent_loop.simps) (simp add: Let_def)
      from 1(2) [OF False refl refl f this] sub mem show ?thesis by (auto split: if_splits)
    qed
  qed
qed

lemma add_list_words: "set (snd (add_free_extent_list sparse es s n)) \<subseteq> insert (extent s n) (set es)"
  by (auto simp: add_free_extent_list_def Let_def dest!: in_set_takeD in_set_dropD)

lemma add_cache_words:
  assumes "add_free_extent_cache s a n = Some (r, s')" "mount_words s" "is_u32 a"
  shows "mount_words s'"
proof -
  define k where "k = (if u32 (a + n) > allocLimit s then u32 (allocLimit s - a) else n)"
  obtain b z es where l: "add_free_extent_loop a (u32 (a + k)) 0 (vcbFreeExt s) = (b, z, es)" by (cases "add_free_extent_loop a (u32 (a + k)) 0 (vcbFreeExt s)") auto
  have "s' = s \<or> s' = s\<lparr>vcbFreeExt := snd (add_free_extent_list (sparse_device s) es b (u32 (z - b)))\<rparr>"
    using assms(1) l by (auto simp: add_free_extent_cache_def Let_def k_def [symmetric] split: if_splits)
  moreover have "\<forall>e\<in>set (snd (add_free_extent_list (sparse_device s) es b (u32 (z - b)))). is_u32 (startBlock e) \<and> is_u32 (blockCount e)"
  proof
    fix e
    assume "e \<in> set (snd (add_free_extent_list (sparse_device s) es b (u32 (z - b))))"
    from subsetD [OF add_list_words this] have e: "e = extent b (u32 (z - b)) \<or> e \<in> set es" by simp
    have cached: "is_u32 (startBlock x) \<and> is_u32 (blockCount x)" if "x \<in> set (vcbFreeExt s)" for x
      using assms(2) that by (simp add: mount_words_def)
    have "is_u32 b" using add_loop_words [OF l] assms(3) cached by auto
    with e cached show "is_u32 (startBlock e) \<and> is_u32 (blockCount e)" using add_loop_words [OF l] by (auto simp: is_u32_def)
  qed
  ultimately show ?thesis using assms(2) by (auto simp: mount_words_def)
qed

lemma account_free_words:
  assumes "account_free s a n fl = Some s'" "mount_words s" "is_u32 a"
  shows "mount_words s'"
proof -
  define t where "t = (let vcb = (if \<not> ISSET fl HFS_ALLOC_SKIPFREEBLKS then s\<lparr>freeBlocks := u32 (freeBlocks s + n)\<rparr> else s);
          vcb = vcb\<lparr>hfs_freed_block_count := u32 (hfs_freed_block_count vcb + n)\<rparr>
      in if nextAllocation vcb = u32 (a + n) then HFS_UPDATE_NEXT_ALLOCATION vcb (u32 (nextAllocation vcb - n)) else vcb)"
  have t: "mount_words t" using assms(2) by (auto simp: t_def Let_def HFS_UPDATE_NEXT_ALLOCATION_def mount_words_def)
  have run: "account_free s a n fl = (if jnl t = None then Option.bind (add_free_extent_cache t a n) (\<lambda>(_, vcb).
      Some (MarkVCBDirty (if a < sparseAllocation vcb then vcb\<lparr>sparseAllocation := a\<rparr> else vcb))) else Some (MarkVCBDirty t))"
    by (simp add: account_free_def t_def Let_def)
  show ?thesis
  proof (cases "jnl t = None")
    case False
    then show ?thesis using assms(1) t unfolding run by (auto simp: MarkVCBDirty_def mount_words_def)
  next
    case True
    obtain r v where v: "add_free_extent_cache t a n = Some (r, v)" "s' = MarkVCBDirty (if a < sparseAllocation v then v\<lparr>sparseAllocation := a\<rparr> else v)"
      using assms(1) True unfolding run by (auto split: bind_splits)
    have "mount_words v" by (rule add_cache_words [OF v(1) t assms(3)])
    then show ?thesis using v(2) assms(3) by (auto simp: MarkVCBDirty_def mount_words_def)
  qed
qed



end
